(* ===== verification/Prelude.thy ===== *)
theory Prelude
  imports Main "HOL-Library.Word" "HOL-Library.Monad_Syntax" "HOL-Library.Code_Target_Nat"
begin

text \<open>
  Shared vocabulary of the development. A C byte (\<open>char\<close>, \<open>unsigned char\<close>) is a HOL
  \<^typ>\<open>char\<close>, which has exactly 256 values; \<open>byte_val\<close> reads it as the number \<open>unsigned char\<close>
  holds. A memory region of known length is a list of bytes; a NUL-terminated C string is the
  list of the bytes before its terminator, and \<open>cstr\<close> takes that view of a region that may hold
  NUL bytes. The lemma collections \<open>cstring_simps\<close>, \<open>scan_simps\<close> and \<open>bounds_intros\<close> carry the
  component proofs.
\<close>

named_theorems cstring_simps \<open>facts on the C string functions\<close>
named_theorems scan_simps \<open>facts on searching a byte list\<close>
named_theorems bounds_intros \<open>capacity bounds of fixed-size buffers\<close>

section \<open>Bytes\<close>

type_synonym bytes = "char list"

definition byte_val :: "char \<Rightarrow> nat" where
  "byte_val c = of_char c"

abbreviation NUL :: char where "NUL \<equiv> CHR 0x00"
abbreviation CR :: char where "CR \<equiv> CHR 0x0D"
abbreviation LF :: char where "LF \<equiv> CHR 0x0A"
abbreviation HT :: char where "HT \<equiv> CHR 0x09"
abbreviation CRLF :: bytes where "CRLF \<equiv> [CR, LF]"

lemma byte_val_less [simp]: "byte_val c < 256"
  by (simp add: byte_val_def)

lemma byte_val_inject [simp]: "byte_val c = byte_val d \<longleftrightarrow> c = d"
  by (simp add: byte_val_def)

lemma byte_val_char_of [simp]: "n < 256 \<Longrightarrow> byte_val (char_of n) = n"
  by (simp add: byte_val_def)

lemma char_of_byte_val [simp]: "char_of (byte_val c) = c"
  by (simp add: byte_val_def)

definition cstr :: "bytes \<Rightarrow> bytes" where
  "cstr bs = takeWhile (\<lambda>c. c \<noteq> NUL) bs"

lemma NUL_notin_cstr [simp]: "NUL \<notin> set (cstr bs)"
  by (auto simp: cstr_def dest: set_takeWhileD)

lemma cstr_id [simp]: "NUL \<notin> set bs \<Longrightarrow> cstr bs = bs"
  by (auto simp: cstr_def takeWhile_eq_all_conv)

lemma length_cstr_le [simp]: "length (cstr bs) \<le> length bs"
  by (simp add: cstr_def length_takeWhile_le)

lemma set_cstr_subset: "set (cstr bs) \<subseteq> set bs"
  by (auto simp: cstr_def dest: set_takeWhileD)

section \<open>Searching a byte list\<close>

text \<open>The position of the first occurrence: what \<open>memchr\<close> and \<open>strchr\<close> return, as an offset.\<close>

fun index_of :: "'a \<Rightarrow> 'a list \<Rightarrow> nat option" where
  "index_of c [] = None"
| "index_of c (x # xs) = (if x = c then Some 0 else map_option Suc (index_of c xs))"

lemma index_of_None [scan_simps]: "index_of c xs = None \<longleftrightarrow> c \<notin> set xs"
  by (induction xs) auto

lemma index_of_notin [simp]: "c \<notin> set xs \<Longrightarrow> index_of c xs = None"
  by (simp add: index_of_None)

lemma index_of_Some_iff [scan_simps]:
  "index_of c xs = Some i \<longleftrightarrow> i < length xs \<and> xs ! i = c \<and> c \<notin> set (take i xs)"
proof (induction xs arbitrary: i)
  case (Cons x xs)
  then show ?case by (cases i) auto
qed simp

lemma index_of_SomeD:
  assumes "index_of c xs = Some i"
  shows "i < length xs" "xs ! i = c" "c \<notin> set (take i xs)"
  using assms by (auto simp: index_of_Some_iff)

lemma index_of_append [scan_simps]:
  "index_of c (xs @ ys) =
     (case index_of c xs of Some i \<Rightarrow> Some i | None \<Rightarrow> map_option (\<lambda>i. length xs + i) (index_of c ys))"
  by (induction xs) (auto split: option.splits simp: option.map_comp comp_def map_option_case)

lemma index_of_split:
  assumes "index_of c xs = Some i"
  shows "xs = take i xs @ c # drop (Suc i) xs"
  using index_of_SomeD[OF assms] by (metis id_take_nth_drop)

lemma index_of_at [simp]: "c \<notin> set xs \<Longrightarrow> index_of c (xs @ c # ys) = Some (length xs)"
  by (simp add: index_of_append)

lemma takeWhile_index_of:
  "takeWhile (\<lambda>x. x \<noteq> c) xs = (case index_of c xs of None \<Rightarrow> xs | Some i \<Rightarrow> take i xs)"
  by (induction xs) (auto split: option.splits simp: index_of_None)

text \<open>The position of the last occurrence: \<open>strrchr\<close>.\<close>

definition last_index_of :: "'a \<Rightarrow> 'a list \<Rightarrow> nat option" where
  "last_index_of c xs = map_option (\<lambda>i. length xs - 1 - i) (index_of c (rev xs))"

lemma last_index_of_None [scan_simps]: "last_index_of c xs = None \<longleftrightarrow> c \<notin> set xs"
  by (simp add: last_index_of_def index_of_None)

lemma last_index_of_notin [simp]: "c \<notin> set xs \<Longrightarrow> last_index_of c xs = None"
  by (simp add: last_index_of_None)

lemma last_index_of_SomeD:
  assumes "last_index_of c xs = Some i"
  shows "i < length xs" "xs ! i = c" "c \<notin> set (drop (Suc i) xs)"
proof -
  from assms obtain j where j: "index_of c (rev xs) = Some j" and i: "i = length xs - 1 - j"
    by (auto simp: last_index_of_def)
  note D = index_of_SomeD[OF j]
  from D(1) i show len: "i < length xs" by auto
  from D(1,2) i show "xs ! i = c" by (simp add: rev_nth)
  have "take j (rev xs) = rev (drop (Suc i) xs)"
    using D(1) i by (simp add: take_rev Suc_diff_Suc)
  with D(3) show "c \<notin> set (drop (Suc i) xs)" by simp
qed

lemma last_index_of_at [simp]:
  "c \<notin> set ys \<Longrightarrow> last_index_of c (xs @ c # ys) = Some (length xs)"
  by (simp add: last_index_of_def)

text \<open>The position of the first occurrence of a pattern: \<open>strstr\<close>.\<close>

fun find_sub :: "'a list \<Rightarrow> 'a list \<Rightarrow> nat option" where
  "find_sub pat [] = (if pat = [] then Some 0 else None)"
| "find_sub pat (x # xs) =
     (if take (length pat) (x # xs) = pat then Some 0 else map_option Suc (find_sub pat xs))"

lemma find_sub_SomeD:
  "find_sub pat xs = Some i \<Longrightarrow> i + length pat \<le> length xs \<and> take (length pat) (drop i xs) = pat"
proof (induction xs arbitrary: i)
  case (Cons x xs)
  show ?case
  proof (cases "take (length pat) (x # xs) = pat")
    case True
    then have "length pat \<le> length (x # xs)" by (metis length_take min.absorb_iff2 min.commute)
    with True Cons.prems show ?thesis by auto
  next
    case False
    with Cons.prems obtain j where "find_sub pat xs = Some j" "i = Suc j" by auto
    with Cons.IH show ?thesis by auto
  qed
qed (auto split: if_splits)

lemma find_sub_split:
  assumes "find_sub pat xs = Some i"
  shows "xs = take i xs @ pat @ drop (i + length pat) xs"
proof -
  from find_sub_SomeD[OF assms] have "take (length pat) (drop i xs) = pat" by simp
  then have "drop i xs = pat @ drop (i + length pat) xs"
    by (metis add.commute append_take_drop_id drop_drop)
  then show ?thesis by (metis append_take_drop_id)
qed

lemma find_sub_occurs: "i + length pat \<le> length xs \<Longrightarrow> take (length pat) (drop i xs) = pat \<Longrightarrow> find_sub pat xs \<noteq> None"
proof (induction xs arbitrary: i)
  case (Cons x xs)
  then show ?case by (cases i) auto
qed auto

lemma find_sub_append_None:
  assumes "find_sub pat xs = None" "find_sub pat (xs @ ys) = Some i"
  shows "length xs < i + length pat"
proof (rule ccontr)
  assume "\<not> length xs < i + length pat"
  moreover have "take (length pat) (drop i (xs @ ys)) = pat" using find_sub_SomeD[OF assms(2)] by simp
  ultimately have "find_sub pat xs \<noteq> None" by (intro find_sub_occurs[of i]) auto
  with assms(1) show False by simp
qed

lemma find_sub_append: "find_sub pat xs = Some i \<Longrightarrow> find_sub pat (xs @ ys) = Some i"
proof (induction xs arbitrary: i)
  case Nil
  then show ?case by (cases ys) (auto split: if_splits)
next
  case (Cons x xs)
  have len: "length pat \<le> length (x # xs)" using find_sub_SomeD[OF Cons.prems] by simp
  then have t: "take (length pat) (x # xs @ ys) = take (length pat) (x # xs)"
    using take_append[of "length pat" "x # xs" ys] by simp
  show ?case
  proof (cases "take (length pat) (x # xs) = pat")
    case True
    with Cons.prems t show ?thesis by simp
  next
    case False
    with Cons.prems obtain j where "find_sub pat xs = Some j" "i = Suc j" by auto
    with Cons.IH False t show ?thesis by simp
  qed
qed

section \<open>Splitting at a separator\<close>

fun split_on :: "'a \<Rightarrow> 'a list \<Rightarrow> 'a list list" where
  "split_on c [] = [[]]"
| "split_on c (d # s) = (if d = c then [] # split_on c s else (case split_on c s of [] \<Rightarrow> [[d]] | x # xs \<Rightarrow> (d # x) # xs))"

lemma split_on_nonempty [simp]: "split_on c s \<noteq> []"
  by (cases s) (auto split: list.splits)

lemma split_on_plain: "c \<notin> set s \<Longrightarrow> split_on c s = [s]"
  by (induction s) auto

lemma split_on_append: "c \<notin> set x \<Longrightarrow> split_on c (x @ c # s) = x # split_on c s"
  by (induction x) auto

lemma split_on_notin: "x \<in> set (split_on c s) \<Longrightarrow> c \<notin> set x"
  by (induction s arbitrary: x) (auto split: list.splits if_splits)

text \<open>The first piece and what follows it.\<close>

lemma split_on_cases:
  obtains x rest where "s = x @ rest" "c \<notin> set x"
    "rest = [] \<and> split_on c s = [x] \<or> (\<exists>r. rest = c # r \<and> split_on c s = x # split_on c r)"
proof (cases "c \<in> set s")
  case False
  then show ?thesis using that[of s "[]"] split_on_plain[of c s] by simp
next
  case True
  then obtain x r where "s = x @ c # r" "c \<notin> set x" by (meson split_list_first)
  then show ?thesis using that[of x "c # r"] split_on_append[of c x r] by simp
qed

section \<open>Options and integers\<close>

lemma bind_Some_iff: "Option.bind x f = Some y \<longleftrightarrow> (\<exists>a. x = Some a \<and> f a = Some y)"
  by (cases x) auto

text \<open>\<open>LLONG_MAX\<close> and \<open>INT_MAX\<close> of the 64-bit targets the project builds for.\<close>

definition LLONG_MAX :: int where "LLONG_MAX = 9223372036854775807"
definition INT_MAX :: int where "INT_MAX = 2147483647"

end
