(* ===== verification/CString.thy ===== *)
theory CString
  imports Prelude
begin

text \<open>
  The part of the C library the sources use on bytes and strings, in the C (POSIX) locale:
  \<open>ctype.h\<close> predicates, case-insensitive comparison, \<open>strpbrk\<close>, and the decimal output of the
  \<open>%d\<close> conversions. The second half is the interface of a digit loop: every place where the
  sources read a number byte by byte under an overflow guard is an interpretation of it.
\<close>

section \<open>Character classes and case\<close>

definition isdigit :: "char \<Rightarrow> bool" where
  "isdigit c \<longleftrightarrow> 48 \<le> byte_val c \<and> byte_val c \<le> 57"

definition digit_val :: "char \<Rightarrow> int" where
  "digit_val c = int (byte_val c) - 48"

definition tolower :: "char \<Rightarrow> char" where
  "tolower c = (if 65 \<le> byte_val c \<and> byte_val c \<le> 90 then char_of (byte_val c + 32) else c)"

definition is_blank :: "char \<Rightarrow> bool" where
  "is_blank c \<longleftrightarrow> c = CHR '' '' \<or> c = HT"

lemma digit_val_range [cstring_simps]: "isdigit c \<Longrightarrow> 0 \<le> digit_val c \<and> digit_val c < 10"
  by (auto simp: isdigit_def digit_val_def)

lemma tolower_idem [simp]: "tolower (tolower c) = tolower c"
  by (auto simp: tolower_def)

lemma tolower_digit [cstring_simps]: "isdigit c \<Longrightarrow> tolower c = c"
  by (auto simp: tolower_def isdigit_def)

lemma tolower_eq_other:
  assumes "tolower c = d" "\<not> (65 \<le> byte_val d \<and> byte_val d \<le> 90)" "\<not> (97 \<le> byte_val d \<and> byte_val d \<le> 122)"
  shows "c = d"
  using assms by (auto simp: tolower_def split: if_splits)

text \<open>
  \<open>strncasecmp(a, b, n) == 0\<close> and \<open>strcasecmp(a, b) == 0\<close> on strings: the first \<open>n\<close> bytes agree
  up to case, a string that ends earlier agreeing only with one that ends at the same place.
\<close>

definition strncaseeq :: "nat \<Rightarrow> bytes \<Rightarrow> bytes \<Rightarrow> bool" where
  "strncaseeq n a b \<longleftrightarrow> map tolower (take n a) = map tolower (take n b)"

definition strcaseeq :: "bytes \<Rightarrow> bytes \<Rightarrow> bool" where
  "strcaseeq a b \<longleftrightarrow> map tolower a = map tolower b"

lemma strcaseeq_refl [simp]: "strcaseeq a a"
  by (simp add: strcaseeq_def)

lemma strcaseeq_sym: "strcaseeq a b \<Longrightarrow> strcaseeq b a"
  by (simp add: strcaseeq_def)

lemma strcaseeq_trans: "strcaseeq a b \<Longrightarrow> strcaseeq b c \<Longrightarrow> strcaseeq a c"
  by (simp add: strcaseeq_def)

lemma strncaseeq_full: "length b = n \<Longrightarrow> n \<le> length a \<Longrightarrow> strncaseeq n a b \<longleftrightarrow> strcaseeq (take n a) b"
  by (simp add: strncaseeq_def strcaseeq_def)

definition strneq :: "nat \<Rightarrow> bytes \<Rightarrow> bytes \<Rightarrow> bool" where
  "strneq n a b \<longleftrightarrow> take n a = take n b"

text \<open>\<open>strpbrk\<close>: the first position whose byte is in the accept set.\<close>

fun strpbrk :: "bytes \<Rightarrow> bytes \<Rightarrow> nat option" where
  "strpbrk [] acc = None"
| "strpbrk (x # xs) acc = (if x \<in> set acc then Some 0 else map_option Suc (strpbrk xs acc))"

lemma strpbrk_SomeD:
  "strpbrk xs acc = Some i \<Longrightarrow> i < length xs \<and> xs ! i \<in> set acc \<and> set (take i xs) \<inter> set acc = {}"
proof (induction xs arbitrary: i)
  case (Cons x xs)
  then show ?case by (cases i) (auto split: if_splits)
qed simp

lemma strpbrk_NoneD: "strpbrk xs acc = None \<Longrightarrow> set xs \<inter> set acc = {}"
  by (induction xs) (auto split: if_splits)

section \<open>Decimal output\<close>

fun show_nat :: "nat \<Rightarrow> bytes" where
  "show_nat n = (if n < 10 then [char_of (48 + n)] else show_nat (n div 10) @ [char_of (48 + n mod 10)])"

declare show_nat.simps [simp del]

definition show_int :: "int \<Rightarrow> bytes" where
  "show_int i = (if i < 0 then CHR ''-'' # show_nat (nat (- i)) else show_nat (nat i))"

text \<open>The number a list of digit values denotes, most significant first.\<close>

definition digits_value :: "int \<Rightarrow> int \<Rightarrow> int list \<Rightarrow> int" where
  "digits_value base v ds = foldl (\<lambda>acc d. acc * base + d) v ds"

lemma digits_value_Nil [simp]: "digits_value base v [] = v"
  by (simp add: digits_value_def)

lemma digits_value_Cons [simp]: "digits_value base v (d # ds) = digits_value base (v * base + d) ds"
  by (simp add: digits_value_def)

lemma digits_value_snoc [simp]:
  "digits_value base v (ds @ [d]) = digits_value base v ds * base + d"
  by (simp add: digits_value_def)

lemma digits_value_ge:
  assumes "0 \<le> v" "1 \<le> base" "\<And>d. d \<in> set ds \<Longrightarrow> 0 \<le> d"
  shows "v \<le> digits_value base v ds"
  using assms
proof (induction ds arbitrary: v)
  case (Cons d ds)
  have "v * 1 \<le> v * base" using Cons.prems by (intro mult_left_mono) auto
  then have "v \<le> v * base + d" using Cons.prems(3)[of d] by simp
  also have "\<dots> \<le> digits_value base (v * base + d) ds"
    using Cons.prems \<open>v \<le> v * base + d\<close> by (intro Cons.IH) auto
  finally show ?case by simp
qed simp

lemma isdigit_char_of [simp]: "(n::nat) < 10 \<Longrightarrow> isdigit (char_of (48 + n))"
  by (simp add: isdigit_def)

lemma digit_val_char_of [simp]: "(n::nat) < 10 \<Longrightarrow> digit_val (char_of (48 + n)) = int n"
  by (simp add: digit_val_def)

lemma show_nat_digits: "\<forall>c \<in> set (show_nat n). isdigit c"
proof (induction n rule: show_nat.induct)
  case (1 n)
  then show ?case by (subst show_nat.simps) (auto simp del: char_of_nat)
qed

lemma show_nat_notin: "\<not> isdigit c \<Longrightarrow> c \<notin> set (show_nat n)"
  using show_nat_digits by blast

lemma not_isdigit [simp]:
  "\<not> isdigit (CHR ''@'')" "\<not> isdigit (CHR ''?'')" "\<not> isdigit (CHR ''#'')" "\<not> isdigit (CHR ''/'')"
  "\<not> isdigit (CHR '':'')" "\<not> isdigit (CHR '']'')" "\<not> isdigit (CHR ''['')" "\<not> isdigit (CHR '' '')"
  by (simp_all add: isdigit_def byte_val_def)

lemma show_nat_nonempty [simp]: "show_nat n \<noteq> []"
  by (subst show_nat.simps) simp

lemma show_nat_value: "digits_value 10 0 (map digit_val (show_nat n)) = int n"
proof (induction n rule: show_nat.induct)
  case (1 n)
  show ?case
  proof (cases "n < 10")
    case True
    then show ?thesis by (subst show_nat.simps) simp
  next
    case False
    have "int (n div 10) * 10 + int (n mod 10) = int n"
      by (metis div_mult_mod_eq of_nat_add of_nat_mult of_nat_numeral)
    with False 1 show ?thesis by (subst show_nat.simps) simp
  qed
qed

lemma length_show_nat_le: "n < 10 ^ k \<Longrightarrow> 0 < k \<Longrightarrow> length (show_nat n) \<le> k"
proof (induction k arbitrary: n)
  case (Suc k)
  show ?case
  proof (cases "n < 10")
    case True
    then show ?thesis by (subst show_nat.simps) simp
  next
    case False
    with Suc.prems have "k \<noteq> 0" by (cases k) auto
    moreover from Suc.prems have "n div 10 < 10 ^ k" by (simp add: less_mult_imp_div_less mult.commute)
    ultimately have "length (show_nat (n div 10)) \<le> k" using Suc.IH by simp
    with False show ?thesis by (subst show_nat.simps) simp
  qed
qed simp

abbreviation decimal_value :: "bytes \<Rightarrow> int" where
  "decimal_value cs \<equiv> digits_value 10 0 (map digit_val cs)"

lemma digit_vals_ok: "list_all isdigit cs \<Longrightarrow> \<forall>d \<in> set (map digit_val cs). 0 \<le> d \<and> d < 10"
  by (auto simp: list_all_iff cstring_simps)

section \<open>The digit-loop interface\<close>

text \<open>The overflow guard written before the multiplication is exact.\<close>

lemma guard_exact:
  fixes v m d b :: int
  assumes "0 < b"
  shows "(m - d) div b < v \<longleftrightarrow> m < v * b + d"
proof -
  have "(m - d) div b < v \<longleftrightarrow> m - d < v * b"
  proof
    assume "(m - d) div b < v"
    then have "((m - d) div b + 1) * b \<le> v * b" using assms by (intro mult_right_mono) auto
    moreover have "m - d < ((m - d) div b + 1) * b"
      using pos_mod_bound[OF assms, of "m - d"] div_mult_mod_eq[of "m - d" b]
      unfolding distrib_right by linarith
    ultimately show "m - d < v * b" by linarith
  next
    assume lt: "m - d < v * b"
    show "(m - d) div b < v"
    proof (rule ccontr)
      assume "\<not> (m - d) div b < v"
      then have "v * b \<le> (m - d) div b * b" using assms by (intro mult_right_mono) auto
      also have "\<dots> \<le> m - d" using assms pos_mod_sign[OF assms, of "m - d"] div_mult_mod_eq[of "m - d" b] by linarith
      finally show False using lt by simp
    qed
  qed
  then show ?thesis by linarith
qed

text \<open>
  A loop that reads a number one digit at a time keeps an accumulator and, at each digit, either
  extends it or gives up because the result would exceed what it accepts. \<open>step v d\<close> is that body.
  The laws say that a step that succeeds is the positional one, and that it gives up only when
  the extended value is above \<open>limit\<close>; the accumulator never passes \<open>cap\<close>, which must fit
  the C type that holds it.
\<close>

locale digit_loop =
  fixes base :: int
    and limit :: int
    and cap :: int
    and step :: "int \<Rightarrow> int \<Rightarrow> int option"
  assumes base_pos: "2 \<le> base"
    and step_value: "0 \<le> v \<Longrightarrow> 0 \<le> d \<Longrightarrow> d < base \<Longrightarrow> step v d = Some v' \<Longrightarrow> v' = v * base + d"
    and step_refuses: "0 \<le> v \<Longrightarrow> 0 \<le> d \<Longrightarrow> d < base \<Longrightarrow> step v d = None \<Longrightarrow> limit < v * base + d"
    and step_cap: "0 \<le> v \<Longrightarrow> 0 \<le> d \<Longrightarrow> d < base \<Longrightarrow> step v d = Some v' \<Longrightarrow> v' \<le> cap"
begin

text \<open>Running the body over a list of digits.\<close>

fun run :: "int \<Rightarrow> int list \<Rightarrow> int option" where
  "run v [] = Some v"
| "run v (d # ds) = (case step v d of None \<Rightarrow> None | Some v' \<Rightarrow> run v' ds)"

lemma run_value:
  assumes "0 \<le> v" "\<forall>d \<in> set ds. 0 \<le> d \<and> d < base" "run v ds = Some r"
  shows "r = digits_value base v ds"
  using assms
proof (induction ds arbitrary: v)
  case (Cons d ds)
  then obtain v' where s: "step v d = Some v'" and r: "run v' ds = Some r"
    by (auto split: option.splits)
  have v': "v' = v * base + d" using Cons.prems s step_value by auto
  have "0 \<le> v'" using Cons.prems base_pos v' by simp
  then have "r = digits_value base v' ds" using Cons.prems r by (intro Cons.IH) auto
  then show ?case using v' by simp
qed simp

lemma run_refuses:
  assumes "0 \<le> v" "\<forall>d \<in> set ds. 0 \<le> d \<and> d < base" "run v ds = None"
  shows "limit < digits_value base v ds"
  using assms
proof (induction ds arbitrary: v)
  case (Cons d ds)
  have pos: "0 \<le> v * base + d" using Cons.prems base_pos by simp
  have ge: "v * base + d \<le> digits_value base (v * base + d) ds"
    using pos Cons.prems base_pos by (intro digits_value_ge) auto
  show ?case
  proof (cases "step v d")
    case None
    then have "limit < v * base + d" using Cons.prems step_refuses by auto
    with ge show ?thesis by simp
  next
    case (Some v')
    then have v': "v' = v * base + d" using Cons.prems step_value by auto
    with Some Cons.prems have "run v' ds = None" by simp
    with pos v' Cons.prems have "limit < digits_value base v' ds" by (intro Cons.IH) auto
    with v' show ?thesis by simp
  qed
qed simp

lemma run_cap:
  assumes "0 \<le> v" "v \<le> cap" "\<forall>d \<in> set ds. 0 \<le> d \<and> d < base" "run v ds = Some r"
  shows "0 \<le> r \<and> r \<le> cap"
  using assms
proof (induction ds arbitrary: v)
  case (Cons d ds)
  then obtain v' where s: "step v d = Some v'" and r: "run v' ds = Some r"
    by (auto split: option.splits)
  have "v' = v * base + d" "v' \<le> cap" using Cons.prems s step_value step_cap by auto
  then have "0 \<le> v'" "v' \<le> cap" using Cons.prems base_pos by auto
  then show ?case using Cons.prems r by (intro Cons.IH[of v']) auto
qed simp

text \<open>What a client relies on: a value within the limit is always read, and read exactly.\<close>

lemma run_exact:
  assumes "\<forall>d \<in> set ds. 0 \<le> d \<and> d < base" "digits_value base 0 ds \<le> limit"
  shows "run 0 ds = Some (digits_value base 0 ds)"
proof (cases "run 0 ds")
  case None
  with run_refuses[of 0 ds] assms show ?thesis by simp
next
  case (Some r)
  with run_value[of 0 ds r] assms show ?thesis by simp
qed

end

end
