(* ===== verification/World.thy ===== *)
theory World
  imports CString "HOL-Library.Multiset"
begin

text \<open>
  The system interface of ICU as a parameter. \<open>native/transport.c\<close> calls the socket layer, OpenSSL,
  stdio and the allocator; none of them is part of the repository. A \<open>call\<close> is such a call
  with its arguments, a \<open>reply\<close> what comes back: the returned number, the bytes stored in a buffer,
  the address list of \<open>getaddrinfo\<close>, and the value the call left in \<open>errno\<close>, if it wrote it. The
  parameter \<open>os\<close> answers each call from the whole history of calls and replies, so it may behave in
  any way a real system can. The world of a run is that history, most recent first, and \<open>errno\<close>.
  A stateful operation of the model takes a world and gives its result and the next world;
  \<open>None\<close> only ever means that a retry loop used up its fuel. The second half is a small calculus
  of postconditions and an account of the resources a run holds.
\<close>

section \<open>Calls, replies and worlds\<close>

datatype errno = EINTR | EAGAIN | EWOULDBLOCK | ETIMEDOUT | EINPROGRESS | E_other

datatype stream = Stdout | Stream int

datatype (plugins only: code) call =
    Getaddrinfo bytes bytes | Freeaddrinfo
  | Socket nat | Fcntl_getfl int | Fcntl_setfl int int | Connect int nat | Poll_out int
  | Getsockopt_error int | Setsockopt_rcvtimeo int int | Setsockopt_sndtimeo int int | Close int
  | Send int bytes | Recv int nat
  | Ctx_new | Ctx_set_default_verify_paths int | Ctx_set_verify_peer int | Ctx_set_options int | Ctx_free int
  | Ssl_new int | Ssl_set1_ip_asc int bytes | Ssl_set_tlsext_host_name int bytes | Ssl_set1_host int bytes
  | Ssl_set_fd int int | Ssl_connect int | Ssl_write int bytes | Ssl_read int nat | Ssl_get_error int int
  | Ssl_shutdown int | Ssl_free int
  | Open_private bytes | Fdopen int bytes | Fopen_rb bytes | Fwrite stream bytes | Fprintf stream bytes
  | Fflush stream | Fclose stream | Fread stream nat | Ferror stream
  | Strdup bytes | Malloc nat | Realloc int nat | Free int
  | Complain bytes

text \<open>
  \<open>ret\<close> is the returned number, with 0 for a null pointer; \<open>out_value\<close> the integer stored through
  a pointer argument (the \<open>error\<close> of \<open>getsockopt\<close>).
\<close>

record reply =
  ret :: int
  payload :: bytes
  addrs :: "nat list"
  out_value :: int
  set_errno :: "errno option"

text \<open>
  The bytes a read stored, exactly as many as it returned; those the payload does not give are
  taken as NUL.
\<close>

definition stored :: "reply \<Rightarrow> bytes" where
  "stored r = take (nat (ret r)) (payload r @ replicate (nat (ret r)) NUL)"

lemma length_stored [simp]: "length (stored r) = nat (ret r)"
  by (simp add: stored_def)

lemma stored_empty [simp]: "ret r \<le> 0 \<Longrightarrow> stored r = []"
  by (simp add: stored_def)

lemma stored_payload [simp]: "length (payload r) = nat (ret r) \<Longrightarrow> stored r = payload r"
  by (simp add: stored_def)

type_synonym history = "(call \<times> reply) list"

record world =
  trace :: history
  errno :: errno

text \<open>
  The platform: the system, the environment variables and the two address parsers
  (\<open>inet_pton\<close> of \<open>AF_INET\<close> and \<open>AF_INET6\<close>).
\<close>

record platform =
  os :: "history \<Rightarrow> call \<Rightarrow> reply"
  env :: "bytes \<Rightarrow> bytes option"
  ipv4 :: "bytes \<Rightarrow> bool"
  ipv6 :: "bytes \<Rightarrow> bool"

definition after :: "call \<Rightarrow> reply \<Rightarrow> world \<Rightarrow> world" where
  "after c r w = \<lparr>trace = (c, r) # trace w,
                  errno = (case set_errno r of None \<Rightarrow> errno w | Some e \<Rightarrow> e)\<rparr>"

definition sys :: "platform \<Rightarrow> call \<Rightarrow> world \<Rightarrow> (reply \<times> world) option" where
  "sys p c w = (let r = os p (trace w) c in Some (r, after c r w))"

definition complain :: "platform \<Rightarrow> bytes \<Rightarrow> world \<Rightarrow> (unit \<times> world) option" where
  "complain p message w = do { (_, w) \<leftarrow> sys p (Complain message) w; Some ((), w) }"

lemma trace_after [simp]: "trace (after c r w) = (c, r) # trace w"
  by (simp add: after_def)

section \<open>Postconditions\<close>

text \<open>\<open>post m Q\<close>: whatever \<open>m\<close> returns satisfies \<open>Q\<close>.\<close>

definition post :: "('a \<times> world) option \<Rightarrow> ('a \<Rightarrow> world \<Rightarrow> bool) \<Rightarrow> bool" where
  "post m Q \<longleftrightarrow> (\<forall>a w. m = Some (a, w) \<longrightarrow> Q a w)"

named_theorems wp \<open>rules that compute postconditions\<close>

lemma post_Some [wp]: "post (Some (a, w)) Q \<longleftrightarrow> Q a w"
  by (simp add: post_def)

lemma post_None [wp]: "post None Q"
  by (simp add: post_def)

lemma post_bind [wp]: "post (Option.bind m f) Q \<longleftrightarrow> post m (\<lambda>a w. post (f (a, w)) Q)"
  by (cases m) (auto simp: post_def)

lemma post_if [wp]: "post (if b then m else n) Q \<longleftrightarrow> (b \<longrightarrow> post m Q) \<and> (\<not> b \<longrightarrow> post n Q)"
  by simp

lemma post_sys [wp]:
  "post (sys p c w) Q \<longleftrightarrow> Q (os p (trace w) c) (after c (os p (trace w) c) w)"
  by (simp add: post_def sys_def Let_def)

lemma postD: "post m Q \<Longrightarrow> m = Some (a, w) \<Longrightarrow> Q a w"
  by (simp add: post_def)

lemma post_mono: "post m P \<Longrightarrow> (\<And>a w. P a w \<Longrightarrow> Q a w) \<Longrightarrow> post m Q"
  by (auto simp: post_def)

lemma post_conj: "post m P \<Longrightarrow> post m Q \<Longrightarrow> post m (\<lambda>a w. P a w \<and> Q a w)"
  by (auto simp: post_def)

text \<open>The branch for a call whose answer does not matter: any reply.\<close>

lemma post_sys_any: "(\<And>r. Q r (after c r w)) \<Longrightarrow> post (sys p c w) Q"
  by (simp add: post_sys)

text \<open>
  The same rules for a goal-directed proof: every reply of a call is an arbitrary one, and a
  subroutine is replaced by its postcondition.
\<close>

lemma post_sys_bindI:
  "(\<And>r. post (f r (after c r w)) Q) \<Longrightarrow> post (Option.bind (sys p c w) (case_prod f)) Q"
  by (simp add: post_bind post_sys)

lemma post_sys_bind_exactI:
  "post (f (os p (trace w) c) (after c (os p (trace w) c) w)) Q \<Longrightarrow> post (Option.bind (sys p c w) (case_prod f)) Q"
  by (simp add: post_bind post_sys)

lemma post_complain_bindI:
  "(\<And>r. post (f () (after (Complain m) r w)) Q) \<Longrightarrow> post (Option.bind (complain p m w) (case_prod f)) Q"
  by (simp add: complain_def post_bind post_sys post_Some)

lemma post_callI:
  "post m P \<Longrightarrow> (\<And>a w'. P a w' \<Longrightarrow> post (f a w') Q) \<Longrightarrow> post (Option.bind m (case_prod f)) Q"
  by (auto simp: post_def split: option.splits bind_splits prod.splits elim!: Option.bind_eq_Some_conv[THEN iffD1, elim_format])

lemma post_anyI: "(\<And>a w'. post (f a w') Q) \<Longrightarrow> post (Option.bind m (case_prod f)) Q"
  by (cases m) (auto simp: post_None)

lemma post_ifI: "(b \<Longrightarrow> post m Q) \<Longrightarrow> (\<not> b \<Longrightarrow> post n Q) \<Longrightarrow> post (if b then m else n) Q"
  by simp

lemma post_SomeI: "Q a w \<Longrightarrow> post (Some (a, w)) Q"
  by (simp add: post_Some)

lemma post_bind_if:
  "post (Option.bind (if b then m else n) f) Q \<longleftrightarrow>
     (b \<longrightarrow> post (Option.bind m f) Q) \<and> (\<not> b \<longrightarrow> post (Option.bind n f) Q)"
  by simp

lemma bind_case_prod [simp]:
  "(\<lambda>x. Option.bind (case_prod f x) g) = (\<lambda>(a, w). Option.bind (f a w) g)"
  by (auto simp: fun_eq_iff)

lemmas post_intros = post_sys_bindI post_complain_bindI post_ifI post_SomeI

section \<open>Returning\<close>

definition returns :: "'a option \<Rightarrow> bool" where
  "returns m \<longleftrightarrow> (\<exists>y. m = Some y)"

lemma returns_Some [simp]: "returns (Some y)"
  by (simp add: returns_def)

lemma returns_callI:
  "returns m \<Longrightarrow> (\<And>a w. m = Some (a, w) \<Longrightarrow> returns (f a w)) \<Longrightarrow> returns (Option.bind m (case_prod f))"
  by (auto simp: returns_def)

lemma returns_sysI: "(\<And>r. returns (f r (after c r w))) \<Longrightarrow> returns (Option.bind (sys p c w) (case_prod f))"
  by (simp add: sys_def Let_def)

lemma returns_sys_exactI:
  "returns (f (os p (trace w) c) (after c (os p (trace w) c) w)) \<Longrightarrow> returns (Option.bind (sys p c w) (case_prod f))"
  by (simp add: sys_def Let_def)

lemma returns_complainI: "(\<And>r. returns (f () (after (Complain m) r w))) \<Longrightarrow> returns (Option.bind (complain p m w) (case_prod f))"
  by (simp add: complain_def sys_def Let_def)

lemma returns_ifI: "(b \<Longrightarrow> returns m) \<Longrightarrow> (\<not> b \<Longrightarrow> returns n) \<Longrightarrow> returns (if b then m else n)"
  by simp

lemma returns_bind_if:
  "returns (Option.bind (if b then m else n) f) \<longleftrightarrow>
     (b \<longrightarrow> returns (Option.bind m f)) \<and> (\<not> b \<longrightarrow> returns (Option.bind n f))"
  by simp

lemmas returns_intros = returns_sysI returns_complainI returns_ifI returns_Some

text \<open>
  No call is interrupted: a failing \<open>poll\<close>, \<open>send\<close> or \<open>recv\<close> reports another error than \<open>EINTR\<close>, and
  OpenSSL does not ask for a retry.
\<close>

definition uninterrupted :: "platform \<Rightarrow> bool" where
  "uninterrupted p \<longleftrightarrow>
     (\<forall>h c. (case c of Poll_out fd \<Rightarrow> ret (os p h c) < 0 \<longrightarrow> set_errno (os p h c) \<notin> {None, Some EINTR}
             | Send fd b \<Rightarrow> ret (os p h c) < 0 \<longrightarrow> set_errno (os p h c) \<notin> {None, Some EINTR}
             | Recv fd n \<Rightarrow> ret (os p h c) < 0 \<longrightarrow> set_errno (os p h c) \<notin> {None, Some EINTR}
             | Ssl_get_error s i \<Rightarrow> ret (os p h c) \<notin> {2, 3}
             | _ \<Rightarrow> True))"

lemma uninterruptedD:
  assumes "uninterrupted p"
  shows "ret (os p h (Poll_out fd)) < 0 \<Longrightarrow> errno (after (Poll_out fd) (os p h (Poll_out fd)) w) \<noteq> EINTR"
    "ret (os p h (Send fd b)) < 0 \<Longrightarrow> errno (after (Send fd b) (os p h (Send fd b)) w) \<noteq> EINTR"
    "ret (os p h (Recv fd n)) < 0 \<Longrightarrow> errno (after (Recv fd n) (os p h (Recv fd n)) w) \<noteq> EINTR"
    "ret (os p h (Ssl_get_error s i)) \<noteq> 2" "ret (os p h (Ssl_get_error s i)) \<noteq> 3"
  using assms[unfolded uninterrupted_def, rule_format, of h "Poll_out fd"]
    assms[unfolded uninterrupted_def, rule_format, of h "Send fd b"]
    assms[unfolded uninterrupted_def, rule_format, of h "Recv fd n"]
    assms[unfolded uninterrupted_def, rule_format, of h "Ssl_get_error s i"]
  by (auto simp: after_def)

section \<open>Resources\<close>

datatype resource = Fd int | Addresses | Ctx int | Ssl int | File int | Block int

definition res_if :: "bool \<Rightarrow> resource \<Rightarrow> resource multiset" where
  "res_if b x = (if b then {#x#} else {#})"

definition acquired :: "call \<Rightarrow> reply \<Rightarrow> resource multiset" where
  "acquired c r =
     (case c of
        Getaddrinfo h s \<Rightarrow> res_if (ret r = 0) Addresses
      | Socket a \<Rightarrow> res_if (0 \<le> ret r) (Fd (ret r))
      | Open_private path \<Rightarrow> res_if (0 \<le> ret r) (Fd (ret r))
      | Ctx_new \<Rightarrow> res_if (ret r \<noteq> 0) (Ctx (ret r))
      | Ssl_new c \<Rightarrow> res_if (ret r \<noteq> 0) (Ssl (ret r))
      | Fdopen fd m \<Rightarrow> res_if (ret r \<noteq> 0) (File (ret r))
      | Fopen_rb path \<Rightarrow> res_if (ret r \<noteq> 0) (File (ret r))
      | Strdup s \<Rightarrow> res_if (ret r \<noteq> 0) (Block (ret r))
      | Malloc n \<Rightarrow> res_if (ret r \<noteq> 0) (Block (ret r))
      | Realloc p n \<Rightarrow> res_if (ret r \<noteq> 0) (Block (ret r))
      | _ \<Rightarrow> {#})"

text \<open>
  \<open>fdopen\<close> hands the descriptor over to the stream; \<open>realloc\<close> gives the old block back when it
  succeeds; freeing a null pointer does nothing.
\<close>

definition released :: "call \<Rightarrow> reply \<Rightarrow> resource multiset" where
  "released c r =
     (case c of
        Freeaddrinfo \<Rightarrow> {#Addresses#}
      | Close fd \<Rightarrow> {#Fd fd#}
      | Ctx_free c \<Rightarrow> {#Ctx c#}
      | Ssl_free s \<Rightarrow> {#Ssl s#}
      | Fdopen fd m \<Rightarrow> res_if (ret r \<noteq> 0) (Fd fd)
      | Fclose st \<Rightarrow> (case st of Stdout \<Rightarrow> {#} | Stream f \<Rightarrow> {#File f#})
      | Realloc p n \<Rightarrow> res_if (ret r \<noteq> 0 \<and> p \<noteq> 0) (Block p)
      | Free p \<Rightarrow> res_if (p \<noteq> 0) (Block p)
      | _ \<Rightarrow> {#})"

fun live :: "history \<Rightarrow> resource multiset" where
  "live [] = {#}"
| "live ((c, r) # h) = live h - released c r + acquired c r"

text \<open>No release of something that is not held: no double close, no double free.\<close>

fun balanced :: "history \<Rightarrow> bool" where
  "balanced [] = True"
| "balanced ((c, r) # h) \<longleftrightarrow> balanced h \<and> released c r \<subseteq># live h"

definition holds :: "world \<Rightarrow> resource multiset \<Rightarrow> bool" where
  "holds w R \<longleftrightarrow> balanced (trace w) \<and> live (trace w) = R"

lemma holds_after:
  assumes "holds w (released c r + F)"
  shows "holds (after c r w) (acquired c r + F)"
  using assms by (simp add: holds_def)

lemma post_sys_holds:
  assumes "holds w R" "\<And>r. released c r \<subseteq># R"
    "\<And>r w'. holds w' (acquired c r + (R - released c r)) \<Longrightarrow> Q r w'"
  shows "post (sys p c w) Q"
proof -
  let ?r = "os p (trace w) c"
  have "holds w (released c ?r + (R - released c ?r))" using assms(1,2) by simp
  from assms(3)[OF holds_after[OF this]] show ?thesis by (simp add: post_sys)
qed

text \<open>A call that neither acquires nor releases.\<close>

definition neutral :: "call \<Rightarrow> bool" where
  "neutral c \<longleftrightarrow> (\<forall>r. acquired c r = {#} \<and> released c r = {#})"

lemma holds_neutral [simp]: "neutral c \<Longrightarrow> holds (after c r w) R \<longleftrightarrow> holds w R"
  by (simp add: holds_def neutral_def)

lemma neutral_calls [simp]:
  "neutral (Fcntl_getfl fd)" "neutral (Fcntl_setfl fd i)" "neutral (Connect fd a)" "neutral (Poll_out fd)"
  "neutral (Getsockopt_error fd)" "neutral (Setsockopt_rcvtimeo fd i)" "neutral (Setsockopt_sndtimeo fd i)"
  "neutral (Send fd b)" "neutral (Recv fd n)" "neutral (Ctx_set_default_verify_paths i)"
  "neutral (Ctx_set_verify_peer i)" "neutral (Ctx_set_options i)" "neutral (Ssl_set1_ip_asc i b)"
  "neutral (Ssl_set_tlsext_host_name i b)" "neutral (Ssl_set1_host i b)" "neutral (Ssl_set_fd i j)"
  "neutral (Ssl_connect i)" "neutral (Ssl_write i b)" "neutral (Ssl_read i n)" "neutral (Ssl_get_error i j)"
  "neutral (Ssl_shutdown i)" "neutral (Fwrite st b)" "neutral (Fprintf st b)" "neutral (Fflush st)"
  "neutral (Fread st n)" "neutral (Ferror st)" "neutral (Complain b)"
  by (simp_all add: neutral_def acquired_def released_def)

lemma holds_errno [simp]: "holds (w\<lparr>errno := e\<rparr>) R \<longleftrightarrow> holds w R"
  by (simp add: holds_def)

lemmas resource_simps = holds_def acquired_def released_def res_if_def

section \<open>Plain calls\<close>

text \<open>
  Most calls neither write request bytes nor change the state of TLS. A function that makes only
  such calls keeps every fact about what was sent and about authenticated sessions.
\<close>

definition plain :: "call \<Rightarrow> bool" where
  "plain c = (case c of Send fd b \<Rightarrow> False | Ssl_write s b \<Rightarrow> False | Ctx_new \<Rightarrow> False
     | Ctx_set_default_verify_paths k \<Rightarrow> False | Ctx_set_verify_peer k \<Rightarrow> False | Ssl_new k \<Rightarrow> False
     | Ssl_set1_ip_asc s h \<Rightarrow> False | Ssl_set1_host s h \<Rightarrow> False | Ssl_connect s \<Rightarrow> False | _ \<Rightarrow> True)"

definition plain_ext :: "world \<Rightarrow> world \<Rightarrow> bool" where
  "plain_ext w w' \<longleftrightarrow> (\<exists>new. trace w' = new @ trace w \<and> list_all (plain \<circ> fst) new)"

lemma plain_ext_refl [simp]: "plain_ext w w"
  by (simp add: plain_ext_def)

lemma plain_ext_after [simp]: "plain_ext w w' \<Longrightarrow> plain c \<Longrightarrow> plain_ext w (after c r w')"
  by (auto simp: plain_ext_def intro: exI[of _ "(c, r) # new" for new])

lemma plain_ext_errno [simp]: "plain_ext w (w'\<lparr>errno := e\<rparr>) \<longleftrightarrow> plain_ext w w'"
  by (simp add: plain_ext_def)

lemma plain_ext_trans [trans]: "plain_ext w w' \<Longrightarrow> plain_ext w' w'' \<Longrightarrow> plain_ext w w''"
  by (force simp: plain_ext_def)

lemma plain_ext_inv:
  assumes "plain_ext w w'" "\<And>c r h. plain c \<Longrightarrow> I ((c, r) # h) = I h"
  shows "I (trace w') = I (trace w)"
proof -
  obtain new where "trace w' = new @ trace w" "list_all (plain \<circ> fst) new" using assms(1) by (auto simp: plain_ext_def)
  moreover have "list_all (plain \<circ> fst) new \<Longrightarrow> I (new @ h) = I h" for new h
    by (induction new) (auto simp: assms(2))
  ultimately show ?thesis by simp
qed

lemma plain_callI:
  assumes "plain_ext w0 w" "post m (\<lambda>_ w'. plain_ext w w')" "\<And>a w'. plain_ext w0 w' \<Longrightarrow> post (f a w') Q"
  shows "post (Option.bind m (case_prod f)) Q"
  using assms(2) by (rule post_callI) (blast intro: assms(3) plain_ext_trans[OF assms(1)])

lemma plain_calls [simp]:
  "plain (Getaddrinfo h b)" "plain Freeaddrinfo" "plain (Socket a)" "plain (Fcntl_getfl fd)" "plain (Fcntl_setfl fd i)"
  "plain (Connect fd a)" "plain (Poll_out fd)" "plain (Getsockopt_error fd)" "plain (Setsockopt_rcvtimeo fd i)"
  "plain (Setsockopt_sndtimeo fd i)" "plain (Close fd)" "plain (Recv fd n)" "plain (Ctx_set_options k)"
  "plain (Ctx_free k)" "plain (Ssl_set_tlsext_host_name s h)" "plain (Ssl_set_fd s i)" "plain (Ssl_read s n)"
  "plain (Ssl_get_error s i)" "plain (Ssl_shutdown s)" "plain (Ssl_free s)" "plain (Open_private f)"
  "plain (Fdopen fd m)" "plain (Fopen_rb f)" "plain (Fwrite st b)" "plain (Fprintf st b)" "plain (Fflush st)"
  "plain (Fclose st)" "plain (Fread st n)" "plain (Ferror st)" "plain (Strdup b)" "plain (Malloc n)"
  "plain (Realloc i n)" "plain (Free i)" "plain (Complain b)"
  by (simp_all add: plain_def)

section \<open>A scripted system\<close>

text \<open>
  A concrete system for evaluation: every address connects, every handshake succeeds, the \<open>n\<close>-th
  connection answers with the \<open>n\<close>-th response in one read and then ends, a file reads back
  what the last connection delivered after its head.
\<close>

definition reply_of :: "int \<Rightarrow> reply" where
  "reply_of n = \<lparr>ret = n, payload = [], addrs = [], out_value = 0, set_errno = None\<rparr>"

definition sockets_opened :: "history \<Rightarrow> nat" where
  "sockets_opened h = length (filter (\<lambda>(c, r). case c of Socket a \<Rightarrow> True | _ \<Rightarrow> False) h)"

fun answered :: "history \<Rightarrow> bool" where
  "answered [] = False"
| "answered ((c, r) # h) = (case c of Socket a \<Rightarrow> False | Recv fd n \<Rightarrow> True | Ssl_read s n \<Rightarrow> True | _ \<Rightarrow> answered h)"

definition scripted_read :: "bytes list \<Rightarrow> history \<Rightarrow> reply" where
  "scripted_read responses h =
     (let n = sockets_opened h
      in if answered h \<or> n = 0 \<or> length responses < n then reply_of 0
         else (reply_of (int (length (responses ! (n - 1)))))\<lparr>payload := responses ! (n - 1)\<rparr>)"

definition scripted_os :: "bytes list \<Rightarrow> bytes \<Rightarrow> history \<Rightarrow> call \<Rightarrow> reply" where
  "scripted_os responses body h c =
     (case c of
        Getaddrinfo a b \<Rightarrow> (reply_of 0)\<lparr>addrs := [1]\<rparr>
      | Socket a \<Rightarrow> reply_of 3
      | Send fd b \<Rightarrow> reply_of (int (length b))
      | Ssl_write s b \<Rightarrow> reply_of (int (length b))
      | Recv fd n \<Rightarrow> scripted_read responses h
      | Ssl_read s n \<Rightarrow> scripted_read responses h
      | Ssl_get_error s i \<Rightarrow> reply_of 6
      | Ctx_new \<Rightarrow> reply_of 7
      | Ctx_set_default_verify_paths k \<Rightarrow> reply_of 1
      | Ssl_new k \<Rightarrow> reply_of 9
      | Ssl_set1_ip_asc s b \<Rightarrow> reply_of 1
      | Ssl_set_tlsext_host_name s b \<Rightarrow> reply_of 1
      | Ssl_set1_host s b \<Rightarrow> reply_of 1
      | Ssl_set_fd s i \<Rightarrow> reply_of 1
      | Ssl_connect s \<Rightarrow> reply_of 1
      | Open_private f \<Rightarrow> reply_of 4
      | Fdopen fd m \<Rightarrow> reply_of 21
      | Fopen_rb f \<Rightarrow> reply_of 22
      | Fwrite st b \<Rightarrow> reply_of (int (length b))
      | Fprintf st b \<Rightarrow> reply_of (int (length b))
      | Fread st n \<Rightarrow> (reply_of (int (length body)))\<lparr>payload := body\<rparr>
      | Strdup b \<Rightarrow> reply_of 31
      | Malloc n \<Rightarrow> reply_of 32
      | Realloc i n \<Rightarrow> reply_of 33
      | _ \<Rightarrow> reply_of 0)"

definition scripted :: "bytes list \<Rightarrow> bytes \<Rightarrow> platform" where
  "scripted responses body =
     \<lparr>os = scripted_os responses body, env = (\<lambda>_. None), ipv4 = (\<lambda>_. False), ipv6 = (\<lambda>_. False)\<rparr>"

definition start :: world where
  "start = \<lparr>trace = [], errno = E_other\<rparr>"

lemma holds_start [simp]: "holds start {#}"
  by (simp add: start_def holds_def)

end
