(* ===== verification/Icu_Url.thy ===== *)
theory Icu_Url
  imports CString
begin

text \<open>
  The URL part of \<open>native/transport.c\<close>: the \<open>endpoint\<close> structure, the parsing of a port, an
  authority and an absolute location, the resolution of a redirect \<open>Location\<close> against the current
  endpoint, the rendering of an authority and the same-origin test. A C string argument is the
  list of its bytes before the terminator. An \<open>int\<close> return with an output parameter that is only
  read on success is an \<open>option\<close>. The array sizes of the structure are the capacities of
  \<open>endpoint_ok\<close>, which every accepted endpoint satisfies.
\<close>

section \<open>Data\<close>

definition MAX_LOCATION_BYTES :: nat where [simp]: "MAX_LOCATION_BYTES = 4096"
definition MAX_HOST_BYTES :: nat where [simp]: "MAX_HOST_BYTES = 1024"
definition MAX_TARGET_BYTES :: nat where [simp]: "MAX_TARGET_BYTES = 16384"

record endpoint =
  ep_use_tls :: bool
  ep_port :: int
  ep_host :: bytes
  ep_target :: bytes

section \<open>Operations\<close>

definition url_byte :: "char \<Rightarrow> bool" where
  "url_byte c \<longleftrightarrow> 32 < byte_val c \<and> byte_val c < 127"

definition visible_url_bytes :: "bytes \<Rightarrow> bool" where
  "visible_url_bytes text = list_all url_byte text"

definition drop_fragment :: "bytes \<Rightarrow> bytes" where
  "drop_fragment text = (case index_of (CHR ''#'') text of None \<Rightarrow> text | Some i \<Rightarrow> take i text)"

fun parse_port_loop :: "int \<Rightarrow> bytes \<Rightarrow> int option" where
  "parse_port_loop value [] = Some value"
| "parse_port_loop value (c # cs) =
     (if \<not> isdigit c then None
      else let value' = value * 10 + digit_val c
           in if value' > 65535 then None else parse_port_loop value' cs)"

definition parse_port_text :: "bytes \<Rightarrow> int option" where
  "parse_port_text text =
     (if text = [] then None
      else case parse_port_loop 0 text of
             None \<Rightarrow> None
           | Some value \<Rightarrow> if value < 1 then None else Some value)"

definition parse_authority :: "bytes \<Rightarrow> int \<Rightarrow> endpoint \<Rightarrow> endpoint option" where
  "parse_authority authority default_port result =
     (if authority = [] \<or> MAX_HOST_BYTES \<le> length authority \<or> CHR ''@'' \<in> set authority
         \<or> hd authority = CHR ''['' \<or> CHR '']'' \<in> set authority
      then None
      else case last_index_of (CHR '':'') authority of
             Some host_length \<Rightarrow>
               (if host_length = 0 \<or> MAX_HOST_BYTES \<le> host_length then None
                else case parse_port_text (drop (Suc host_length) authority) of
                       None \<Rightarrow> None
                     | Some p \<Rightarrow> Some (result\<lparr>ep_host := take host_length authority, ep_port := p\<rparr>))
           | None \<Rightarrow> Some (result\<lparr>ep_host := authority, ep_port := default_port\<rparr>))"

definition set_target :: "endpoint \<Rightarrow> bytes \<Rightarrow> endpoint option" where
  "set_target result target =
     (let target = (if target = [] then ''/'' else target)
      in if MAX_TARGET_BYTES \<le> length target then None
         else Some (result\<lparr>ep_target := target\<rparr>))"

definition location_scheme :: "bytes \<Rightarrow> bool \<Rightarrow> (bool \<times> int \<times> bytes) option" where
  "location_scheme location default_tls =
     (if strncaseeq 7 location ''http://'' then Some (False, 80, drop 7 location)
      else if strncaseeq 8 location ''https://'' then Some (True, 443, drop 8 location)
      else if strneq 2 location ''//''
        then Some (default_tls, if default_tls then 443 else 80, drop 2 location)
      else None)"

definition parse_absolute_location :: "bytes \<Rightarrow> bool \<Rightarrow> endpoint \<Rightarrow> endpoint option" where
  "parse_absolute_location location default_tls result =
     (case location_scheme location default_tls of
        None \<Rightarrow> None
      | Some (tls, default_port, rest) \<Rightarrow>
          (let separator = strpbrk rest ''/?'';
               authority_length = (case separator of Some i \<Rightarrow> i | None \<Rightarrow> length rest)
           in if authority_length = 0 \<or> MAX_HOST_BYTES \<le> authority_length then None
              else case parse_authority (take authority_length rest) default_port
                          (result\<lparr>ep_use_tls := tls\<rparr>) of
                     None \<Rightarrow> None
                   | Some ep \<Rightarrow>
                       (case separator of
                          None \<Rightarrow> set_target ep ''/''
                        | Some i \<Rightarrow>
                            (if rest ! i = CHR ''?''
                             then (if Suc (length (drop i rest)) < MAX_TARGET_BYTES
                                   then set_target ep (CHR ''/'' # drop i rest) else None)
                             else set_target ep (drop i rest)))))"

definition request_target :: "bytes \<Rightarrow> nat \<Rightarrow> bytes option" where
  "request_target request capacity =
     (if \<not> strneq 4 request ''GET '' then None
      else let start = drop 4 request
           in case index_of (CHR '' '') start of
                None \<Rightarrow> None
              | Some n \<Rightarrow> if n = 0 \<or> capacity \<le> n then None else Some (take n start))"

definition cut_query :: "bytes \<Rightarrow> bytes" where
  "cut_query target = (case index_of (CHR ''?'') target of None \<Rightarrow> target | Some q \<Rightarrow> take q target)"

definition directory_length :: "bytes \<Rightarrow> nat" where
  "directory_length path = (case last_index_of (CHR ''/'') path of Some s \<Rightarrow> s + 1 | None \<Rightarrow> 1)"

definition resolve_location :: "endpoint \<Rightarrow> bytes \<Rightarrow> bytes \<Rightarrow> endpoint option" where
  "resolve_location current request raw_location =
     (if \<not> visible_url_bytes raw_location \<or> MAX_LOCATION_BYTES \<le> length raw_location then None
      else let location = drop_fragment raw_location
      in if location = [] then None
      else if strncaseeq 7 location ''http://'' \<or> strncaseeq 8 location ''https://''
              \<or> strneq 2 location ''//''
        then parse_absolute_location location (ep_use_tls current)
               \<lparr>ep_use_tls = False, ep_port = 0, ep_host = [], ep_target = []\<rparr>
      else if hd location = CHR ''/'' then set_target current location
      else case request_target request MAX_TARGET_BYTES of
             None \<Rightarrow> None
           | Some current_target \<Rightarrow>
               (let path = cut_query current_target
                in if hd location = CHR ''?''
                   then (if length (path @ location) < MAX_TARGET_BYTES
                         then set_target current (path @ location) else None)
                   else if MAX_TARGET_BYTES \<le> directory_length path then None
                   else if MAX_TARGET_BYTES - directory_length path \<le> length location then None
                   else set_target current (take (directory_length path) path @ location)))"

definition endpoint_authority :: "endpoint \<Rightarrow> nat \<Rightarrow> bytes option" where
  "endpoint_authority ep capacity =
     (let default_port = (if ep_use_tls ep then 443 else 80);
          text = (if ep_port ep = default_port then ep_host ep
                  else ep_host ep @ '':'' @ show_int (ep_port ep))
      in if 0 < length text \<and> length text < capacity then Some text else None)"

definition same_origin :: "endpoint \<Rightarrow> endpoint \<Rightarrow> bool" where
  "same_origin left right \<longleftrightarrow>
     ep_use_tls left = ep_use_tls right \<and> ep_port left = ep_port right
       \<and> strcaseeq (ep_host left) (ep_host right)"

section \<open>The port loop is a digit loop\<close>

definition port_step :: "int \<Rightarrow> int \<Rightarrow> int option" where
  "port_step v d = (if v * 10 + d > 65535 then None else Some (v * 10 + d))"

interpretation port: digit_loop 10 65535 65535 port_step
  by unfold_locales (auto simp: port_step_def split: if_splits)

lemma parse_port_loop_run:
  "parse_port_loop v cs = (if list_all isdigit cs then port.run v (map digit_val cs)
                           else parse_port_loop v cs)"
  by (induction cs arbitrary: v) (auto simp: port_step_def Let_def)

lemma parse_port_loop_nondigit: "\<not> list_all isdigit cs \<Longrightarrow> parse_port_loop v cs = None"
  by (induction cs arbitrary: v) (auto simp: Let_def)

lemma parse_port_text_iff:
  "parse_port_text cs = Some p \<longleftrightarrow>
     cs \<noteq> [] \<and> list_all isdigit cs \<and> p = decimal_value cs \<and> 1 \<le> p \<and> p \<le> 65535"
proof (cases "list_all isdigit cs")
  case True
  note ok = digit_vals_ok[OF True]
  have loop: "parse_port_loop 0 cs = port.run 0 (map digit_val cs)"
    using parse_port_loop_run[of 0 cs] True by simp
  show ?thesis
  proof (cases "port.run 0 (map digit_val cs)")
    case None
    with port.run_refuses[OF _ ok None] loop show ?thesis
      by (auto simp: parse_port_text_def)
  next
    case (Some r)
    with port.run_value[OF _ ok Some] port.run_cap[OF _ _ ok Some] loop True show ?thesis
      by (auto simp: parse_port_text_def)
  qed
next
  case False
  then show ?thesis by (auto simp: parse_port_text_def parse_port_loop_nondigit)
qed

section \<open>Accepted endpoints\<close>

text \<open>
  What the code relies on when it copies an endpoint into a request: both strings fit their
  arrays with the terminator, hold only visible ASCII and no fragment, and the target is an
  absolute path.
\<close>

definition authority_ok :: "endpoint \<Rightarrow> bool" where
  "authority_ok ep \<longleftrightarrow>
     ep_host ep \<noteq> [] \<and> length (ep_host ep) < MAX_HOST_BYTES \<and> visible_url_bytes (ep_host ep)
     \<and> CHR ''#'' \<notin> set (ep_host ep) \<and> 1 \<le> ep_port ep \<and> ep_port ep \<le> 65535"

definition path_ok :: "bytes \<Rightarrow> bool" where
  "path_ok t \<longleftrightarrow> visible_url_bytes t \<and> CHR ''#'' \<notin> set t \<and> t \<noteq> [] \<and> hd t = CHR ''/''"

definition endpoint_ok :: "endpoint \<Rightarrow> bool" where
  "endpoint_ok ep \<longleftrightarrow>
     authority_ok ep \<and> length (ep_target ep) < MAX_TARGET_BYTES \<and> path_ok (ep_target ep)"

lemma visible_append [simp]:
  "visible_url_bytes (a @ b) \<longleftrightarrow> visible_url_bytes a \<and> visible_url_bytes b"
  by (simp add: visible_url_bytes_def)

lemma visible_Cons [simp]: "visible_url_bytes (c # b) \<longleftrightarrow> url_byte c \<and> visible_url_bytes b"
  by (simp add: visible_url_bytes_def)

lemma visible_Nil [simp]: "visible_url_bytes []"
  by (simp add: visible_url_bytes_def)

lemma visible_take [simp]: "visible_url_bytes a \<Longrightarrow> visible_url_bytes (take n a)"
  by (auto simp: visible_url_bytes_def list_all_iff dest: in_set_takeD)

lemma visible_drop [simp]: "visible_url_bytes a \<Longrightarrow> visible_url_bytes (drop n a)"
  by (auto simp: visible_url_bytes_def list_all_iff dest: in_set_dropD)

lemma url_byte_slash [simp]: "url_byte (CHR ''/'')"
  by (simp add: url_byte_def byte_val_def)

lemma visible_no_space:
  "visible_url_bytes a \<Longrightarrow> CHR '' '' \<notin> set a \<and> CR \<notin> set a \<and> LF \<notin> set a \<and> NUL \<notin> set a"
  by (auto simp: visible_url_bytes_def list_all_iff url_byte_def byte_val_def)

lemma visible_drop_fragment [simp]: "visible_url_bytes a \<Longrightarrow> visible_url_bytes (drop_fragment a)"
  by (auto simp: drop_fragment_def split: option.splits)

lemma length_drop_fragment [bounds_intros]: "length (drop_fragment a) \<le> length a"
  by (auto simp: drop_fragment_def split: option.splits)

lemma drop_fragment_no_hash: "CHR ''#'' \<notin> set (drop_fragment a)"
  by (auto simp: drop_fragment_def scan_simps split: option.splits)

lemma parse_authority_ok:
  assumes "parse_authority a p r = Some ep" "visible_url_bytes a" "CHR ''#'' \<notin> set a"
    "1 \<le> p" "p \<le> 65535"
  shows "authority_ok ep" and "ep_use_tls ep = ep_use_tls r" and "ep_target ep = ep_target r"
  using assms
  by (auto simp: parse_authority_def parse_port_text_iff authority_ok_def
      split: if_splits option.splits dest: in_set_takeD)

lemma set_target_SomeD:
  "set_target r t = Some ep \<Longrightarrow> ep = r\<lparr>ep_target := (if t = [] then ''/'' else t)\<rparr>"
  by (auto simp: set_target_def Let_def split: if_splits)

lemma set_target_ok:
  "set_target r t = Some ep \<Longrightarrow> authority_ok r \<Longrightarrow> path_ok t \<Longrightarrow> endpoint_ok ep"
  by (auto simp: set_target_def Let_def endpoint_ok_def authority_ok_def path_ok_def split: if_splits)

lemma location_scheme_SomeD:
  assumes "location_scheme loc tls = Some (t, d, rest)"
  shows "d = (if t then 443 else 80)" "\<exists>n. rest = drop n loc"
  using assms by (auto simp: location_scheme_def split: if_splits)

lemma parse_absolute_location_ok:
  assumes "parse_absolute_location loc tls r = Some ep" "visible_url_bytes loc" "CHR ''#'' \<notin> set loc"
  shows "endpoint_ok ep"
proof -
  from assms(1) obtain t d rest where sch: "location_scheme loc tls = Some (t, d, rest)"
    by (auto simp: parse_absolute_location_def split: option.splits)
  have vis: "visible_url_bytes rest" using location_scheme_SomeD(2)[OF sch] assms(2) by auto
  have nohash: "CHR ''#'' \<notin> set rest" using location_scheme_SomeD(2)[OF sch] assms(3)
    by (auto dest: in_set_dropD)
  have d: "1 \<le> d" "d \<le> 65535" using location_scheme_SomeD(1)[OF sch] by (auto split: if_splits)
  show ?thesis
  proof (cases "strpbrk rest ''/?''")
    case None
    with assms(1) sch obtain e where e: "parse_authority rest d (r\<lparr>ep_use_tls := t\<rparr>) = Some e"
      "set_target e ''/'' = Some ep"
      by (auto simp: parse_absolute_location_def Let_def split: if_splits option.splits)
    from set_target_ok[OF e(2) parse_authority_ok(1)[OF e(1) vis nohash d]] show ?thesis
      by (simp add: path_ok_def)
  next
    case (Some i)
    note D = strpbrk_SomeD[OF Some]
    then have cons: "drop i rest \<noteq> []" "hd (drop i rest) = rest ! i" by (auto simp: hd_drop_conv_nth)
    from Some assms(1) sch obtain e where
      e: "parse_authority (take i rest) d (r\<lparr>ep_use_tls := t\<rparr>) = Some e" and
      st: "set_target e (if rest ! i = CHR ''?'' then CHR ''/'' # drop i rest else drop i rest) = Some ep"
      by (auto simp: parse_absolute_location_def Let_def split: if_splits option.splits)
    have "path_ok (if rest ! i = CHR ''?'' then CHR ''/'' # drop i rest else drop i rest)"
      using D cons visible_drop[OF vis, of i] nohash by (auto simp: path_ok_def dest: in_set_dropD)
    moreover have "CHR ''#'' \<notin> set (take i rest)" using nohash by (auto dest: in_set_takeD)
    ultimately show ?thesis
      using set_target_ok[OF st] parse_authority_ok(1)[OF e visible_take[OF vis] _ d] by blast
  qed
qed

lemma request_target_SomeD:
  assumes "request_target req n = Some t"
  shows "t \<noteq> []" "length t < n" "CHR '' '' \<notin> set t" "\<exists>rest. req = ''GET '' @ t @ '' '' @ rest"
proof -
  from assms obtain k where
    g: "take 4 req = ''GET ''" and k: "index_of (CHR '' '') (drop 4 req) = Some k"
      "k \<noteq> 0" "k < n" "t = take k (drop 4 req)"
    by (auto simp: request_target_def strneq_def Let_def split: if_splits option.splits)
  note D = index_of_SomeD[OF k(1)]
  from D k show "t \<noteq> []" "length t < n" "CHR '' '' \<notin> set t" by auto
  have "req = take 4 req @ drop 4 req" by simp
  also have "drop 4 req = take k (drop 4 req) @ CHR '' '' # drop (Suc k) (drop 4 req)"
    using index_of_split[OF k(1)] .
  finally show "\<exists>rest. req = ''GET '' @ t @ '' '' @ rest" using g k by auto
qed

lemma request_target_render:
  assumes "visible_url_bytes t" "t \<noteq> []" "length t < n"
  shows "request_target (''GET '' @ t @ '' '' @ rest) n = Some t"
  using assms visible_no_space[OF assms(1)]
  by (simp add: request_target_def strneq_def)

lemma path_ok_cut_query: "path_ok t \<Longrightarrow> path_ok (cut_query t)"
  by (cases t) (auto simp: cut_query_def path_ok_def take_Cons' split: option.splits dest: in_set_takeD)

lemma directory_length_pos [simp]: "0 < directory_length p"
  by (auto simp: directory_length_def split: option.splits)

lemma path_ok_append: "path_ok t \<Longrightarrow> visible_url_bytes l \<Longrightarrow> CHR ''#'' \<notin> set l \<Longrightarrow> path_ok (t @ l)"
  by (auto simp: path_ok_def)

lemma path_ok_take: "path_ok t \<Longrightarrow> 0 < n \<Longrightarrow> path_ok (take n t)"
  by (auto simp: path_ok_def dest: in_set_takeD)

section \<open>Properties\<close>

lemma resolve_endpoint_ok:
  assumes "endpoint_ok current"
    and "request_target request MAX_TARGET_BYTES = Some (ep_target current)"
    and "resolve_location current request raw = Some next"
  shows "endpoint_ok next"
proof -
  let ?loc = "drop_fragment raw"
  from assms(3) have vis: "visible_url_bytes ?loc" and nohash: "CHR ''#'' \<notin> set ?loc"
    and ne: "?loc \<noteq> []"
    by (auto simp: resolve_location_def Let_def drop_fragment_no_hash split: if_splits)
  have auth: "authority_ok current" and path: "path_ok (ep_target current)"
    using assms(1) by (auto simp: endpoint_ok_def)
  note cut = path_ok_cut_query[OF path]
  show ?thesis
  proof (cases "strncaseeq 7 ?loc ''http://'' \<or> strncaseeq 8 ?loc ''https://'' \<or> strneq 2 ?loc ''//''")
    case True
    with assms(3) show ?thesis
      by (auto simp: resolve_location_def Let_def split: if_splits
          intro: parse_absolute_location_ok[OF _ vis nohash])
  next
    case False
    with assms(2,3) ne obtain t where st: "set_target current t = Some next"
      and t: "t = ?loc \<and> hd ?loc = CHR ''/'' \<or> t = cut_query (ep_target current) @ ?loc
        \<or> t = take (directory_length (cut_query (ep_target current))) (cut_query (ep_target current)) @ ?loc"
      by (auto simp: resolve_location_def Let_def split: if_splits option.splits)
    from t have "path_ok t"
      using path_ok_append[OF cut vis nohash] path_ok_append[OF path_ok_take[OF cut] vis nohash] ne
      by (auto simp: path_ok_def[of ?loc] vis nohash)
    with set_target_ok[OF st auth] show ?thesis by simp
  qed
qed

text \<open>
  C35: every endpoint a redirect resolves to is acceptable. Starting from an acceptable endpoint
  whose target is the one of the current request line, whatever bytes the server puts in
  \<open>Location\<close>, an accepted result has a host and a target that fit their arrays, hold only visible
  ASCII (so no CR, LF, space or NUL can be injected into the next request), carry no fragment,
  a port in 1..65535 and an absolute path.
\<close>

theorem resolve_location_ok:
  assumes "endpoint_ok current"
    and "request_target request MAX_TARGET_BYTES = Some (ep_target current)"
    and "resolve_location current request raw = Some next"
  shows "endpoint_ok next"
  using assms by (rule resolve_endpoint_ok)

definition sample_endpoint :: endpoint where
  "sample_endpoint = \<lparr>ep_use_tls = True, ep_port = 443, ep_host = ''example.com'', ep_target = ''/a/b?q=1''\<rparr>"

definition sample_request :: bytes where
  "sample_request = ''GET /a/b?q=1 HTTP/1.0'' @ CRLF @ ''Host: example.com'' @ CRLF @ CRLF"

theorem resolve_location_ok_witness:
  "resolve_location sample_endpoint sample_request ''//Other.example:8080?page=2#top''
     = Some \<lparr>ep_use_tls = True, ep_port = 8080, ep_host = ''Other.example'', ep_target = ''/?page=2''\<rparr>
   \<and> endpoint_ok \<lparr>ep_use_tls = True, ep_port = 8080, ep_host = ''Other.example'', ep_target = ''/?page=2''\<rparr>"
proof -
  have 1: "endpoint_ok sample_endpoint" by code_simp
  have 2: "request_target sample_request MAX_TARGET_BYTES = Some (ep_target sample_endpoint)" by code_simp
  have 3: "resolve_location sample_endpoint sample_request ''//Other.example:8080?page=2#top''
     = Some \<lparr>ep_use_tls = True, ep_port = 8080, ep_host = ''Other.example'', ep_target = ''/?page=2''\<rparr>"
    by code_simp
  show ?thesis using 3 resolve_location_ok[OF 1 2 3] by blast
qed

text \<open>
  a \<open>Location\<close> that names neither a scheme nor an authority never changes the origin: scheme,
  host and port of the result are those of the current endpoint, so the same-origin test holds
  and only the request target moves.
\<close>

theorem resolve_location_relative_origin:
  assumes "resolve_location current request raw = Some next"
    and "\<not> strncaseeq 7 (drop_fragment raw) ''http://''"
    and "\<not> strncaseeq 8 (drop_fragment raw) ''https://''"
    and "\<not> strneq 2 (drop_fragment raw) ''//''"
  shows "next = current\<lparr>ep_target := ep_target next\<rparr> \<and> same_origin current next"
proof -
  from assms obtain t where "set_target current t = Some next"
    by (auto simp: resolve_location_def Let_def split: if_splits option.splits)
  then have "next = current\<lparr>ep_target := ep_target next\<rparr>" by (auto dest: set_target_SomeD)
  then show ?thesis by (metis same_origin_def strcaseeq_refl endpoint.select_convs(1,2,3)
        endpoint.surjective endpoint.update_convs(4))
qed

theorem resolve_location_relative_origin_witness:
  "resolve_location sample_endpoint sample_request ''c/d?x=2'' =
     Some (sample_endpoint\<lparr>ep_target := ''/a/c/d?x=2''\<rparr>)
   \<and> same_origin sample_endpoint (sample_endpoint\<lparr>ep_target := ''/a/c/d?x=2''\<rparr>)"
proof -
  have 1: "resolve_location sample_endpoint sample_request ''c/d?x=2'' =
     Some (sample_endpoint\<lparr>ep_target := ''/a/c/d?x=2''\<rparr>)" by code_simp
  have 2: "\<not> strncaseeq 7 (drop_fragment ''c/d?x=2'') ''http://''"
    "\<not> strncaseeq 8 (drop_fragment ''c/d?x=2'') ''https://''"
    "\<not> strneq 2 (drop_fragment ''c/d?x=2'') ''//''" by code_simp+
  show ?thesis using 1 resolve_location_relative_origin[OF 1 2] by simp
qed

lemma drop_fragment_id [simp]: "CHR ''#'' \<notin> set l \<Longrightarrow> drop_fragment l = l"
  by (simp add: drop_fragment_def)

lemma cut_query_at [simp]:
  "CHR ''?'' \<notin> set p \<Longrightarrow> cut_query (p @ CHR ''?'' # q) = p"
  "CHR ''?'' \<notin> set p \<Longrightarrow> cut_query p = p"
  by (simp_all add: cut_query_def)

lemma directory_length_at [simp]:
  "CHR ''/'' \<notin> set file \<Longrightarrow> directory_length (dir @ CHR ''/'' # file) = Suc (length dir)"
  by (simp add: directory_length_def)

text \<open>
  the merge of a relative reference. When the current request line asks for
  \<open>dir/file\<close> followed by an optional query, a relative path reference replaces everything after
  the last slash of the path, the query included, and nothing else of the endpoint changes.
\<close>

theorem resolve_location_merge:
  assumes "request_target request MAX_TARGET_BYTES = Some (dir @ CHR ''/'' # leaf @ query)"
    and "CHR ''/'' \<notin> set leaf" and "CHR ''?'' \<notin> set (dir @ CHR ''/'' # leaf)"
    and "query = [] \<or> hd query = CHR ''?''"
    and "visible_url_bytes (c # loc)" and "CHR ''#'' \<notin> set (c # loc)"
    and "c \<noteq> CHR ''/''" and "c \<noteq> CHR ''?''"
    and "\<not> strncaseeq 7 (c # loc) ''http://''" and "\<not> strncaseeq 8 (c # loc) ''https://''"
    and "length (c # loc) < MAX_LOCATION_BYTES"
    and "length (dir @ CHR ''/'' # c # loc) < MAX_TARGET_BYTES"
  shows "resolve_location current request (c # loc) =
           Some (current\<lparr>ep_target := dir @ CHR ''/'' # c # loc\<rparr>)"
proof -
  have cut: "cut_query (dir @ CHR ''/'' # leaf @ query) = dir @ CHR ''/'' # leaf"
    using assms(3,4) cut_query_at[of "dir @ CHR ''/'' # leaf"] by (cases query) auto
  have dl: "directory_length (dir @ CHR ''/'' # leaf) = Suc (length dir)"
    using assms(2) by simp
  have "\<not> strneq 2 (c # loc) ''//''" using assms(7) by (simp add: strneq_def numeral_2_eq_2)
  then show ?thesis
    using assms cut dl
    by (simp add: resolve_location_def Let_def set_target_def)
qed

theorem resolve_location_merge_witness:
  "resolve_location sample_endpoint sample_request ''img.png'' =
     Some (sample_endpoint\<lparr>ep_target := ''/a'' @ CHR ''/'' # ''img.png''\<rparr>)"
  by (rule resolve_location_merge[where leaf = "''b''" and query = "''?q=1''"]) code_simp+

text \<open>
  rendering an endpoint's authority for the \<open>Host\<close> header and parsing it back gives the same
  host and port, whether the port is the scheme's default (and left out) or not.
\<close>

theorem endpoint_authority_roundtrip:
  assumes "authority_ok ep"
    and "set (ep_host ep) \<inter> {CHR ''@'', CHR '':'', CHR ''['', CHR '']''} = {}"
    and "endpoint_authority ep MAX_HOST_BYTES = Some text"
  shows "parse_authority text (if ep_use_tls ep then 443 else 80) result =
           Some (result\<lparr>ep_host := ep_host ep, ep_port := ep_port ep\<rparr>)"
proof -
  let ?d = "if ep_use_tls ep then 443 else 80 :: int"
  have host: "ep_host ep \<noteq> []" and port: "1 \<le> ep_port ep" "ep_port ep \<le> 65535"
    using assms(1) by (auto simp: authority_ok_def)
  have hd: "hd (ep_host ep) \<noteq> CHR ''[''" using host assms(2) by (cases "ep_host ep") auto
  show ?thesis
  proof (cases "ep_port ep = ?d")
    case True
    with assms(2,3) host hd show ?thesis
      by (auto simp: endpoint_authority_def parse_authority_def Let_def split: if_splits)
  next
    case False
    let ?p = "show_nat (nat (ep_port ep))"
    have rendered: "text = ep_host ep @ CHR '':'' # ?p" "length text < MAX_HOST_BYTES"
      using assms(3) False port by (auto simp: endpoint_authority_def show_int_def Let_def split: if_splits)
    have digits: "\<forall>c \<in> set ?p. isdigit c" by (rule show_nat_digits)
    then have notin: "CHR '':'' \<notin> set ?p" "CHR ''@'' \<notin> set ?p" "CHR '']'' \<notin> set ?p"
      by (auto simp: isdigit_def byte_val_def)
    have "parse_port_text ?p = Some (ep_port ep)"
      using digits port by (simp add: parse_port_text_iff show_nat_value list_all_iff)
    with rendered notin assms(2) host hd show ?thesis
      by (auto simp: parse_authority_def)
  qed
qed

theorem endpoint_authority_roundtrip_witness:
  "parse_authority ''example.com:8443'' 443 sample_endpoint =
     Some (sample_endpoint\<lparr>ep_host := ''example.com'', ep_port := 8443\<rparr>)"
proof -
  let ?ep = "sample_endpoint\<lparr>ep_port := 8443\<rparr>"
  have 1: "authority_ok ?ep" by code_simp
  have 2: "set (ep_host ?ep) \<inter> {CHR ''@'', CHR '':'', CHR ''['', CHR '']''} = {}" by code_simp
  have 3: "endpoint_authority ?ep MAX_HOST_BYTES = Some ''example.com:8443''"
    by (simp add: endpoint_authority_def sample_endpoint_def show_int_def show_nat.simps char_of_eq_iff)
  show ?thesis using endpoint_authority_roundtrip[OF 1 2 3, of sample_endpoint]
    by (simp add: sample_endpoint_def)
qed

end
