(* ===== verification/Icu_Proxy.thy ===== *)
theory Icu_Proxy
  imports Icu_Url
begin

text \<open>
  The HTTPS proxy configuration of \<open>native/transport.c\<close>. The environment and the address parser
  of the system are parameters: \<open>env name\<close> is the answer of \<open>getenv\<close> (\<open>None\<close> for a null
  pointer) and \<open>ipv6 host\<close> says whether \<open>inet_pton(AF_INET6, ...)\<close> accepts the text. The result
  \<open>None\<close> is the return value 0, a refused configuration.
\<close>

section \<open>Operations\<close>

record configured_proxy =
  cp_enabled :: bool
  cp_port :: int
  cp_host :: bytes

definition no_proxy :: configured_proxy where
  "no_proxy = \<lparr>cp_enabled = False, cp_port = 0, cp_host = []\<rparr>"

fun proxy_port_loop :: "int \<Rightarrow> bytes \<Rightarrow> int option" where
  "proxy_port_loop p [] = Some p"
| "proxy_port_loop p (c # cs) =
     (if \<not> isdigit c \<or> p > 6553 then None else proxy_port_loop (p * 10 + digit_val c) cs)"

definition proxy_port :: "bytes option \<Rightarrow> int option" where
  "proxy_port port_text =
     (case port_text of
        None \<Rightarrow> Some 80
      | Some cs \<Rightarrow>
          (if cs = [] then None
           else case proxy_port_loop 0 cs of
                  None \<Rightarrow> None
                | Some p \<Rightarrow> if p < 1 \<or> p > 65535 then None else Some p))"

text \<open>
  Host and port text of the authority up to \<open>stop\<close>, the offset of the terminator or of the final
  slash; the bracketed form first.
\<close>

definition proxy_split :: "bytes \<Rightarrow> nat \<Rightarrow> (bytes \<times> bytes option) option" where
  "proxy_split authority stop =
     (if authority \<noteq> [] \<and> hd authority = CHR ''[''
      then (case index_of (CHR '']'') (drop 1 authority) of
              None \<Rightarrow> None
            | Some j \<Rightarrow>
                (let host_end = Suc j
                 in if stop \<le> host_end then None
                    else if Suc host_end < stop
                      then (if authority ! Suc host_end \<noteq> CHR '':'' then None
                            else Some (take j (drop 1 authority),
                                       Some (drop (host_end + 2) (take stop authority))))
                    else Some (take j (drop 1 authority), None)))
      else case index_of (CHR '':'') (take stop authority) of
             None \<Rightarrow> Some (take stop authority, None)
           | Some host_end \<Rightarrow>
               Some (take host_end authority, Some (drop (Suc host_end) (take stop authority))))"

definition proxy_host_byte :: "char \<Rightarrow> bool" where
  "proxy_host_byte c \<longleftrightarrow> byte_val c < 127 \<and> c \<noteq> CHR '':'' \<and> c \<noteq> CHR 0x5C \<and> c \<noteq> CHR ''['' \<and> c \<noteq> CHR '']''"

definition parse_proxy_value :: "(bytes \<Rightarrow> bool) \<Rightarrow> bytes \<Rightarrow> configured_proxy option" where
  "parse_proxy_value ipv6 value =
     (if \<not> strncaseeq 7 value ''http://'' \<or> MAX_HOST_BYTES + 32 \<le> length value then None
      else if \<not> list_all (\<lambda>c. 32 < byte_val c \<and> byte_val c \<noteq> 127) value then None
      else let authority = drop 7 value
      in if CHR ''@'' \<in> set authority \<or> CHR ''?'' \<in> set authority \<or> CHR ''#'' \<in> set authority then None
      else let slash = index_of (CHR ''/'') authority
      in if slash \<noteq> None \<and> drop (the slash) authority \<noteq> ''/'' then None
      else let stop = (case slash of None \<Rightarrow> length authority | Some i \<Rightarrow> i)
      in case proxy_split authority stop of
           None \<Rightarrow> None
         | Some (host, port_text) \<Rightarrow>
             (if host = [] \<or> MAX_HOST_BYTES \<le> length host then None
              else if (if authority \<noteq> [] \<and> hd authority = CHR ''['' then \<not> ipv6 host
                       else \<not> list_all proxy_host_byte host) then None
              else case proxy_port port_text of
                     None \<Rightarrow> None
                   | Some p \<Rightarrow> Some \<lparr>cp_enabled = True, cp_port = p, cp_host = host\<rparr>))"

definition proxy_configuration ::
    "(bytes \<Rightarrow> bytes option) \<Rightarrow> (bytes \<Rightarrow> bool) \<Rightarrow> bytes \<Rightarrow> bool \<Rightarrow> configured_proxy option" where
  "proxy_configuration env ipv6 origin_host use_tls =
     (if \<not> use_tls \<or> origin_host = ''127.0.0.1'' \<or> origin_host = ''::1''
         \<or> strcaseeq origin_host ''localhost''
      then Some no_proxy
      else let value = (case env ''HTTPS_PROXY'' of
                          None \<Rightarrow> env ''https_proxy''
                        | Some v \<Rightarrow> if v = [] then env ''https_proxy'' else Some v)
           in case value of
                None \<Rightarrow> Some no_proxy
              | Some v \<Rightarrow> if v = [] then Some no_proxy else parse_proxy_value ipv6 v)"

section \<open>The port loop is a digit loop\<close>

definition proxy_port_step :: "int \<Rightarrow> int \<Rightarrow> int option" where
  "proxy_port_step v d = (if v > 6553 then None else Some (v * 10 + d))"

interpretation pport: digit_loop 10 65535 65539 proxy_port_step
  by unfold_locales (auto simp: proxy_port_step_def split: if_splits)

lemma proxy_port_loop_run:
  "proxy_port_loop v cs = (if list_all isdigit cs then pport.run v (map digit_val cs) else None)"
  by (induction cs arbitrary: v) (auto simp: proxy_port_step_def)

lemma proxy_port_iff:
  "proxy_port (Some cs) = Some p \<longleftrightarrow>
     cs \<noteq> [] \<and> list_all isdigit cs \<and> p = decimal_value cs \<and> 1 \<le> p \<and> p \<le> 65535"
proof (cases "list_all isdigit cs")
  case True
  note ok = digit_vals_ok[OF True]
  have loop: "proxy_port_loop 0 cs = pport.run 0 (map digit_val cs)"
    using proxy_port_loop_run[of 0 cs] True by simp
  show ?thesis
  proof (cases "pport.run 0 (map digit_val cs)")
    case None
    with pport.run_refuses[OF _ ok None] loop show ?thesis
      by (auto simp: proxy_port_def)
  next
    case (Some r)
    with pport.run_value[OF _ ok Some] loop True show ?thesis
      by (auto simp: proxy_port_def)
  qed
next
  case False
  then show ?thesis by (auto simp: proxy_port_def proxy_port_loop_run)
qed

lemma proxy_port_range: "proxy_port t = Some p \<Longrightarrow> 1 \<le> p \<and> p \<le> 65535"
  by (auto simp: proxy_port_def split: option.splits if_splits)

lemma parse_proxy_value_ok:
  assumes "parse_proxy_value ipv6 v = Some cp"
  shows "cp_enabled cp" "cp_host cp \<noteq> []" "length (cp_host cp) < MAX_HOST_BYTES"
    "1 \<le> cp_port cp" "cp_port cp \<le> 65535" "set (cp_host cp) \<subseteq> set (drop 7 v)"
    "CHR ''@'' \<notin> set (drop 7 v)" "\<forall>c \<in> set v. 32 < byte_val c \<and> byte_val c \<noteq> 127"
proof -
  from assms obtain host port_text stop p where
    s: "proxy_split (drop 7 v) stop = Some (host, port_text)" and p: "proxy_port port_text = Some p"
    and cp: "cp = \<lparr>cp_enabled = True, cp_port = p, cp_host = host\<rparr>"
    and rest: "host \<noteq> []" "length host < MAX_HOST_BYTES" "CHR ''@'' \<notin> set (drop 7 v)"
      "\<forall>c \<in> set v. 32 < byte_val c \<and> byte_val c \<noteq> 127"
    by (auto simp: parse_proxy_value_def Let_def list_all_iff split: if_splits option.splits)
  have "set host \<subseteq> set (drop 7 v)"
    using s by (auto simp: proxy_split_def Let_def split: if_splits option.splits
        dest!: in_set_takeD in_set_dropD simp del: drop_drop drop_Suc)
  with cp rest proxy_port_range[OF p] show "cp_enabled cp" "cp_host cp \<noteq> []"
    "length (cp_host cp) < MAX_HOST_BYTES" "1 \<le> cp_port cp" "cp_port cp \<le> 65535"
    "set (cp_host cp) \<subseteq> set (drop 7 v)" "CHR ''@'' \<notin> set (drop 7 v)"
    "\<forall>c \<in> set v. 32 < byte_val c \<and> byte_val c \<noteq> 127"
    by auto
qed

section \<open>Properties\<close>



lemma take_authority:
  "take (length host + Suc (length t)) (host @ CHR '':'' # t @ tail) = host @ CHR '':'' # t"
  by simp

text \<open>
  a well-formed proxy URL is understood. For a TLS origin that is not a loopback name,
  \<open>HTTPS_PROXY=http://host:port\<close>, with or without a final slash, yields exactly that host and port
  for every port number in 1..65535.
\<close>

theorem proxy_configuration_roundtrip:
  assumes "env ''HTTPS_PROXY'' = Some (''http://'' @ host @ CHR '':'' # show_nat p @ tail)"
    and "tail = [] \<or> tail = ''/''" and "1 \<le> p" and "p \<le> 65535"
    and "host \<noteq> []" and "length host < MAX_HOST_BYTES"
    and "list_all (\<lambda>c. proxy_host_byte c \<and> 32 < byte_val c) host"
    and "set host \<inter> {CHR ''@'', CHR ''?'', CHR ''#'', CHR ''/''} = {}"
    and "origin \<noteq> ''127.0.0.1''" and "origin \<noteq> ''::1''" and "\<not> strcaseeq origin ''localhost''"
  shows "proxy_configuration env ipv6 origin True =
           Some \<lparr>cp_enabled = True, cp_port = int p, cp_host = host\<rparr>"
proof -
  let ?t = "show_nat p"
  let ?auth = "host @ CHR '':'' # ?t @ tail"
  have digits: "\<forall>c \<in> set ?t. isdigit c" by (rule show_nat_digits)
  have len: "length ?t \<le> 5" using assms(4) by (intro length_show_nat_le) auto
  have t: "CHR ''@'' \<notin> set ?t" "CHR ''?'' \<notin> set ?t" "CHR ''#'' \<notin> set ?t" "CHR ''/'' \<notin> set ?t"
    "list_all (\<lambda>c. 32 < byte_val c \<and> byte_val c \<noteq> 127) ?t"
    using digits by (simp_all add: show_nat_notin) (auto simp: list_all_iff isdigit_def)
  have bytes: "proxy_host_byte c" "32 < byte_val c" if "c \<in> set host" for c
    using assms(7) that by (simp_all add: list_all_iff)
  have host: "list_all (\<lambda>c. 32 < byte_val c \<and> byte_val c \<noteq> 127) host" "list_all proxy_host_byte host"
    unfolding list_all_iff using bytes by (fastforce simp: proxy_host_byte_def, blast)
  have colon: "CHR '':'' \<notin> set host" "hd host \<noteq> CHR ''[''"
    using bytes(1)[of "CHR '':''"] bytes(1)[of "hd host"] hd_in_set[OF assms(5)]
    by (auto simp: proxy_host_byte_def)
  have slash: "index_of (CHR ''/'') ?auth = (if tail = [] then None else Some (length host + Suc (length ?t)))"
    using assms(2,8) t by (auto simp: index_of_append)
  have stop: "proxy_split ?auth (length host + Suc (length ?t)) = Some (host, Some ?t)"
    unfolding proxy_split_def take_authority using assms(5) colon by (simp add: hd_append)
  have port: "proxy_port (Some ?t) = Some (int p)"
    using assms(3,4) digits by (simp add: proxy_port_iff show_nat_value list_all_iff)
  have "parse_proxy_value ipv6 (''http://'' @ ?auth) =
      Some \<lparr>cp_enabled = True, cp_port = int p, cp_host = host\<rparr>"
  proof -
    let ?v = "''http://'' @ ?auth"
    have d: "drop 7 ?v = ?auth" by simp
    have 1: "strncaseeq 7 ?v ''http://''" by (simp add: strncaseeq_def)
    have 2: "\<not> MAX_HOST_BYTES + 32 \<le> length ?v" using assms(2,6) len by auto
    have 3: "list_all (\<lambda>c. 32 < byte_val c \<and> byte_val c \<noteq> 127) ?v"
      using assms(2) host(1) t(5) by (auto simp: byte_val_def)
    have 4: "\<not> (CHR ''@'' \<in> set ?auth \<or> CHR ''?'' \<in> set ?auth \<or> CHR ''#'' \<in> set ?auth)"
      using assms(2,8) t by auto
    have 5: "\<not> (index_of (CHR ''/'') ?auth \<noteq> None \<and> drop (the (index_of (CHR ''/'') ?auth)) ?auth \<noteq> ''/'')"
      using slash assms(2) by auto
    have 6: "(case index_of (CHR ''/'') ?auth of None \<Rightarrow> length ?auth | Some i \<Rightarrow> i)
        = length host + Suc (length ?t)"
      using slash by auto
    have 7: "?auth \<noteq> [] \<and> hd ?auth = CHR ''['' \<longleftrightarrow> False" using colon(2) assms(5) by (simp add: hd_append)
    show ?thesis
      unfolding parse_proxy_value_def d Let_def 6 stop 7
      using 1 2 3 4 5 assms(5,6) host(2) port by auto
  qed
  with assms(1,9-11) show ?thesis by (simp add: proxy_configuration_def)
qed

theorem proxy_configuration_roundtrip_witness:
  "proxy_configuration (\<lambda>_. Some (''http://'' @ ''proxy.invalid'' @ CHR '':'' # show_nat 3128 @ [])) (\<lambda>_. False) ''example.com'' True
     = Some \<lparr>cp_enabled = True, cp_port = int 3128, cp_host = ''proxy.invalid''\<rparr>"
  by (rule proxy_configuration_roundtrip) (rule refl, code_simp+)

end
