(* ===== verification/Icu_Connection.thy ===== *)
theory Icu_Connection
  imports World Icu_Proxy
begin

text \<open>
  The connection layer of \<open>native/transport.c\<close>: \<open>connect_tcp\<close>, the CONNECT tunnel, \<open>open_connection\<close>
  with its TLS set-up, \<open>close_connection\<close>, \<open>write_all\<close> and \<open>read_some\<close>, over the system interface of
  the theory \<open>World\<close>. A null pointer is 0. The loops that retry on \<open>EINTR\<close> or on a TLS retry code take
  fuel; the tunnel loops end by themselves and need none.
\<close>

section \<open>Data\<close>

definition MAX_HEADER_BYTES :: nat where [simp]: "MAX_HEADER_BYTES = 65536"

text \<open>Values of the Linux and OpenSSL headers.\<close>

definition O_NONBLOCK :: int where "O_NONBLOCK = 2048"
definition SSL_ERROR_WANT_READ :: int where "SSL_ERROR_WANT_READ = 2"
definition SSL_ERROR_WANT_WRITE :: int where "SSL_ERROR_WANT_WRITE = 3"
definition SSL_ERROR_ZERO_RETURN :: int where "SSL_ERROR_ZERO_RETURN = 6"

record connection =
  co_socket_fd :: int
  co_tls_context :: int
  co_tls :: int
  co_failure_code :: int

definition timed_out :: "errno \<Rightarrow> bool" where
  "timed_out e \<longleftrightarrow> e = EAGAIN \<or> e = EWOULDBLOCK \<or> e = ETIMEDOUT"

section \<open>connect_tcp\<close>

fun poll_loop :: "nat \<Rightarrow> platform \<Rightarrow> int \<Rightarrow> world \<Rightarrow> (int \<times> world) option" where
  "poll_loop 0 p fd w = None"
| "poll_loop (Suc fuel) p fd w = do {
     (r, w) \<leftarrow> sys p (Poll_out fd) w;
     if ret r < 0 \<and> errno w = EINTR then poll_loop fuel p fd w else Some (ret r, w)
   }"

definition wait_connected :: "nat \<Rightarrow> platform \<Rightarrow> int \<Rightarrow> world \<Rightarrow> (bool \<times> world) option" where
  "wait_connected fuel p fd w = do {
     (ready, w) \<leftarrow> poll_loop fuel p fd w;
     (connected, w) \<leftarrow>
       (if ready > 0 then do {
          (r, w) \<leftarrow> sys p (Getsockopt_error fd) w;
          Some (ret r = 0 \<and> out_value r = 0, w)
        } else Some (False, w));
     Some (connected, if ready = 0 then w\<lparr>errno := ETIMEDOUT\<rparr> else w)
   }"

definition close_socket :: "platform \<Rightarrow> int \<Rightarrow> world \<Rightarrow> (int \<times> world) option" where
  "close_socket p fd w = do { (_, w) \<leftarrow> sys p (Close fd) w; Some (-1, w) }"

text \<open>One turn of the loop over the addresses: the connected descriptor, or a negative number.\<close>

definition try_address :: "nat \<Rightarrow> platform \<Rightarrow> nat \<Rightarrow> world \<Rightarrow> (int \<times> world) option" where
  "try_address fuel p address w = do {
     (s, w) \<leftarrow> sys p (Socket address) w;
     let fd = ret s;
     if fd < 0 then Some (fd, w)
     else do {
       (g, w) \<leftarrow> sys p (Fcntl_getfl fd) w;
       let flags = ret g;
       if flags < 0 then close_socket p fd w
       else do {
         (n, w) \<leftarrow> sys p (Fcntl_setfl fd (or flags O_NONBLOCK)) w;
         if ret n < 0 then close_socket p fd w
         else do {
           (c, w) \<leftarrow> sys p (Connect fd address) w;
           (connected, w) \<leftarrow>
             (if ret c \<noteq> 0 \<and> errno w = EINPROGRESS then wait_connected fuel p fd w
              else Some (ret c = 0, w));
           if \<not> connected then close_socket p fd w
           else do {
             (b, w) \<leftarrow> sys p (Fcntl_setfl fd flags) w;
             if ret b \<noteq> 0 then close_socket p fd w
             else do {
               (_, w) \<leftarrow> sys p (Setsockopt_rcvtimeo fd 15) w;
               (_, w) \<leftarrow> sys p (Setsockopt_sndtimeo fd 15) w;
               Some (fd, w)
             }
           }
         }
       }
     }
   }"

fun address_loop :: "nat \<Rightarrow> platform \<Rightarrow> nat list \<Rightarrow> int \<Rightarrow> world \<Rightarrow> (int \<times> world) option" where
  "address_loop fuel p [] socket_fd w = Some (socket_fd, w)"
| "address_loop fuel p (address # rest) socket_fd w = do {
     (fd, w) \<leftarrow> try_address fuel p address w;
     if 0 \<le> fd then Some (fd, w) else address_loop fuel p rest fd w
   }"

definition connect_tcp :: "nat \<Rightarrow> platform \<Rightarrow> bytes \<Rightarrow> int \<Rightarrow> world \<Rightarrow> (int \<times> world) option" where
  "connect_tcp fuel p host port w =
     (if port < 1 \<or> port > 65535 then Some (-1, w)
      else do {
        (g, w) \<leftarrow> sys p (Getaddrinfo host (show_int port)) w;
        if ret g \<noteq> 0 then Some (-1, w)
        else do {
          (fd, w) \<leftarrow> address_loop fuel p (addrs g) (-1) w;
          (_, w) \<leftarrow> sys p Freeaddrinfo w;
          Some (fd, w)
        }
      })"

definition host_is_ip_address :: "platform \<Rightarrow> bytes \<Rightarrow> bool" where
  "host_is_ip_address p host \<longleftrightarrow> ipv4 p host \<or> ipv6 p host"

section \<open>The proxy tunnel\<close>

definition connect_request :: "bytes \<Rightarrow> int \<Rightarrow> bytes" where
  "connect_request host port =
     (let authority = (if CHR '':'' \<in> set host then ''['' @ host @ '']:'' @ show_int port
                       else host @ '':'' @ show_int port)
      in ''CONNECT '' @ authority @ '' HTTP/1.0'' @ CRLF @ ''Host: '' @ authority @ CRLF @ CRLF)"

function tunnel_send :: "platform \<Rightarrow> int \<Rightarrow> bytes \<Rightarrow> world \<Rightarrow> (bool \<times> world) option" where
  "tunnel_send p fd rest w =
     (if rest = [] then Some (True, w)
      else case sys p (Send fd rest) w of
             None \<Rightarrow> None
           | Some (r, w) \<Rightarrow>
               (if ret r \<le> 0 then Some (False, w) else tunnel_send p fd (drop (nat (ret r)) rest) w))"
  by pat_completeness auto
termination
  by (relation "measure (\<lambda>(_, _, rest, _). length rest)") auto

declare tunnel_send.simps [simp del]

definition stored_byte :: "reply \<Rightarrow> char" where
  "stored_byte r = (case payload r of [] \<Rightarrow> NUL | c # _ \<Rightarrow> c)"

definition tunnel_accepted :: "bytes \<Rightarrow> bool" where
  "tunnel_accepted response \<longleftrightarrow>
     14 \<le> length response \<and> take 7 response = ''HTTP/1.''
     \<and> (response ! 7 = CHR ''0'' \<or> response ! 7 = CHR ''1'') \<and> response ! 8 = CHR '' ''
     \<and> response ! 9 = CHR ''2'' \<and> isdigit (response ! 10) \<and> isdigit (response ! 11)
     \<and> (response ! 12 = CHR '' '' \<or> response ! 12 = CR)"

function tunnel_receive :: "platform \<Rightarrow> int \<Rightarrow> bytes \<Rightarrow> world \<Rightarrow> (bool \<times> world) option" where
  "tunnel_receive p fd response w =
     (if MAX_HEADER_BYTES \<le> length response then Some (False, w)
      else case sys p (Recv fd 1) w of
             None \<Rightarrow> None
           | Some (r, w) \<Rightarrow>
               (if ret r \<noteq> 1 then Some (False, w)
                else let response = response @ [stored_byte r]
                     in if 4 \<le> length response \<and> drop (length response - 4) response = CRLF @ CRLF
                        then Some (tunnel_accepted response, w)
                        else tunnel_receive p fd response w))"
  by pat_completeness auto
termination
  by (relation "measure (\<lambda>(_, _, response, _). MAX_HEADER_BYTES - length response)") auto

declare tunnel_receive.simps [simp del]

definition establish_proxy_tunnel :: "platform \<Rightarrow> int \<Rightarrow> bytes \<Rightarrow> int \<Rightarrow> world \<Rightarrow> (bool \<times> world) option" where
  "establish_proxy_tunnel p fd host port w =
     (let request = connect_request host port
      in if MAX_HOST_BYTES * 2 + 128 \<le> length request then Some (False, w)
         else do {
           (sent, w) \<leftarrow> tunnel_send p fd request w;
           if \<not> sent then Some (False, w) else tunnel_receive p fd [] w
         })"

section \<open>Opening and closing\<close>

definition close_connection :: "platform \<Rightarrow> connection \<Rightarrow> world \<Rightarrow> (connection \<times> world) option" where
  "close_connection p c w = do {
     (_, w) \<leftarrow>
       (if co_tls c \<noteq> 0 then do {
          (_, w) \<leftarrow> sys p (Ssl_shutdown (co_tls c)) w;
          (_, w) \<leftarrow> sys p (Ssl_free (co_tls c)) w;
          Some ((), w)
        } else Some ((), w));
     (_, w) \<leftarrow>
       (if co_tls_context c \<noteq> 0 then do { (_, w) \<leftarrow> sys p (Ctx_free (co_tls_context c)) w; Some ((), w) }
        else Some ((), w));
     (_, w) \<leftarrow>
       (if 0 \<le> co_socket_fd c then do { (_, w) \<leftarrow> sys p (Close (co_socket_fd c)) w; Some ((), w) }
        else Some ((), w));
     Some (c\<lparr>co_socket_fd := -1, co_tls_context := 0, co_tls := 0\<rparr>, w)
   }"

definition fail_open :: "platform \<Rightarrow> bytes \<Rightarrow> connection \<Rightarrow> world \<Rightarrow> ((bool \<times> connection) \<times> world) option" where
  "fail_open p message c w = do {
     (_, w) \<leftarrow> complain p message w;
     (c, w) \<leftarrow> close_connection p c w;
     Some ((False, c), w)
   }"

text \<open>The identity the handshake must prove: an address or a host name.\<close>

definition set_identity :: "platform \<Rightarrow> int \<Rightarrow> bytes \<Rightarrow> world \<Rightarrow> (bool \<times> world) option" where
  "set_identity p tls host w =
     (if host_is_ip_address p host then do {
        (r, w) \<leftarrow> sys p (Ssl_set1_ip_asc tls host) w;
        Some (ret r = 1, w)
      } else do {
        (s, w) \<leftarrow> sys p (Ssl_set_tlsext_host_name tls host) w;
        if ret s \<noteq> 1 then Some (False, w)
        else do { (h, w) \<leftarrow> sys p (Ssl_set1_host tls host) w; Some (ret h = 1, w) }
      })"

definition handshake :: "platform \<Rightarrow> int \<Rightarrow> int \<Rightarrow> world \<Rightarrow> (bool \<times> world) option" where
  "handshake p tls fd w = do {
     (s, w) \<leftarrow> sys p (Ssl_set_fd tls fd) w;
     if ret s \<noteq> 1 then Some (False, w)
     else do { (c, w) \<leftarrow> sys p (Ssl_connect tls) w; Some (ret c = 1, w) }
   }"

text \<open>
  The part of \<open>open_connection\<close> after the socket is connected (and the tunnel, if any, is up):
  from the TLS session on, and the whole.
\<close>

definition verified_handshake ::
    "platform \<Rightarrow> bytes \<Rightarrow> connection \<Rightarrow> world \<Rightarrow> ((bool \<times> connection) \<times> world) option" where
  "verified_handshake p host c w = do {
     (identified, w) \<leftarrow> set_identity p (co_tls c) host w;
     if \<not> identified then
       fail_open p (if host_is_ip_address p host then ''could not configure TLS address verification''
                    else ''could not configure TLS hostname verification'') c w
     else do {
       (connected, w) \<leftarrow> handshake p (co_tls c) (co_socket_fd c) w;
       if \<not> connected then
         fail_open p ''TLS handshake failed''
           (c\<lparr>co_failure_code := if timed_out (errno w) then 11 else co_failure_code c\<rparr>) w
       else Some ((True, c), w)
     }
   }"

definition start_tls :: "platform \<Rightarrow> bytes \<Rightarrow> connection \<Rightarrow> world \<Rightarrow> ((bool \<times> connection) \<times> world) option" where
  "start_tls p host c w = do {
     let c = c\<lparr>co_failure_code := 5\<rparr>;
     (n, w) \<leftarrow> sys p Ctx_new w;
     let c = c\<lparr>co_tls_context := ret n\<rparr>;
     (trusted, w) \<leftarrow>
       (if co_tls_context c = 0 then Some (False, w)
        else do {
          (d, w) \<leftarrow> sys p (Ctx_set_default_verify_paths (co_tls_context c)) w;
          Some (ret d = 1, w)
        });
     if \<not> trusted then fail_open p ''could not initialize TLS trust'' c w
     else do {
       (_, w) \<leftarrow> sys p (Ctx_set_verify_peer (co_tls_context c)) w;
       (_, w) \<leftarrow> sys p (Ctx_set_options (co_tls_context c)) w;
       (t, w) \<leftarrow> sys p (Ssl_new (co_tls_context c)) w;
       let c = c\<lparr>co_tls := ret t\<rparr>;
       if co_tls c = 0 then fail_open p ''could not initialize TLS'' c w
       else verified_handshake p host c w
     }
   }"

definition open_connection ::
    "nat \<Rightarrow> platform \<Rightarrow> bytes \<Rightarrow> int \<Rightarrow> bool \<Rightarrow> world \<Rightarrow> ((bool \<times> connection) \<times> world) option" where
  "open_connection fuel p host port use_tls w =
     (let c = \<lparr>co_socket_fd = -1, co_tls_context = 0, co_tls = 0, co_failure_code = 4\<rparr>
      in case proxy_configuration (env p) (ipv6 p) host use_tls of
           None \<Rightarrow> do {
             (_, w) \<leftarrow> complain p ''unsupported HTTP proxy configuration'' w;
             Some ((False, c\<lparr>co_failure_code := 14\<rparr>), w)
           }
         | Some proxy \<Rightarrow> do {
             (fd, w) \<leftarrow> connect_tcp fuel p (if cp_enabled proxy then cp_host proxy else host)
                                       (if cp_enabled proxy then cp_port proxy else port) w;
             let c = c\<lparr>co_socket_fd := fd\<rparr>;
             if fd < 0 then do {
               let c = (if errno w = ETIMEDOUT then c\<lparr>co_failure_code := 11\<rparr> else c);
               (_, w) \<leftarrow> complain p ''could not connect'' w;
               Some ((False, c), w)
             }
             else if \<not> use_tls then Some ((True, c), w)
             else do {
               (tunnelled, w) \<leftarrow>
                 (if cp_enabled proxy then establish_proxy_tunnel p fd host port w else Some (True, w));
               if \<not> tunnelled then
                 fail_open p ''HTTP proxy refused or malformed the TLS tunnel''
                   (c\<lparr>co_failure_code := if timed_out (errno w) then 11 else 14\<rparr>) w
               else start_tls p host c w
             }
           })"

section \<open>Writing and reading\<close>

fun write_all :: "nat \<Rightarrow> platform \<Rightarrow> connection \<Rightarrow> bytes \<Rightarrow> world \<Rightarrow> (bool \<times> world) option" where
  "write_all 0 p c rest w = (if rest = [] then Some (True, w) else None)"
| "write_all (Suc fuel) p c rest w =
     (if rest = [] then Some (True, w)
      else if co_tls c \<noteq> 0 then do {
        (r, w) \<leftarrow> sys p (Ssl_write (co_tls c) (take 16384 rest)) w;
        if ret r \<le> 0 then do {
          (e, w) \<leftarrow> sys p (Ssl_get_error (co_tls c) (ret r)) w;
          if ret e = SSL_ERROR_WANT_READ \<or> ret e = SSL_ERROR_WANT_WRITE
          then write_all fuel p c rest w else Some (False, w)
        }
        else write_all fuel p c (drop (nat (ret r)) rest) w
      }
      else do {
        (r, w) \<leftarrow> sys p (Send (co_socket_fd c) rest) w;
        if ret r < 0 \<and> errno w = EINTR then write_all fuel p c rest w
        else if ret r \<le> 0 then Some (False, w)
        else write_all fuel p c (drop (nat (ret r)) rest) w
      })"

text \<open>The amount, the bytes stored in the buffer and the connection, whose failure code a failed read sets.\<close>

fun recv_loop :: "nat \<Rightarrow> platform \<Rightarrow> connection \<Rightarrow> nat \<Rightarrow> world \<Rightarrow> ((int \<times> bytes \<times> connection) \<times> world) option" where
  "recv_loop 0 p c capacity w = None"
| "recv_loop (Suc fuel) p c capacity w = do {
     (r, w) \<leftarrow> sys p (Recv (co_socket_fd c) capacity) w;
     if ret r < 0 \<and> errno w = EINTR then recv_loop fuel p c capacity w
     else Some ((ret r, stored r,
                 if ret r < 0 then c\<lparr>co_failure_code := if timed_out (errno w) then 11 else 7\<rparr> else c), w)
   }"

definition read_some :: "nat \<Rightarrow> platform \<Rightarrow> connection \<Rightarrow> nat \<Rightarrow> world \<Rightarrow> ((int \<times> bytes \<times> connection) \<times> world) option" where
  "read_some fuel p c capacity w =
     (if co_tls c \<noteq> 0 then do {
        (r, w) \<leftarrow> sys p (Ssl_read (co_tls c) (if capacity > 16384 then 16384 else capacity)) w;
        if ret r > 0 then Some ((ret r, stored r, c), w)
        else do {
          (e, w) \<leftarrow> sys p (Ssl_get_error (co_tls c) (ret r)) w;
          if ret e = SSL_ERROR_WANT_READ \<or> ret e = SSL_ERROR_WANT_WRITE
          then Some ((-1, [], c\<lparr>co_failure_code := 11\<rparr>), w)
          else if ret e \<noteq> SSL_ERROR_ZERO_RETURN
          then Some ((-1, [], c\<lparr>co_failure_code := if timed_out (errno w) then 11 else 7\<rparr>), w)
          else Some ((0, [], c), w)
        }
      }
      else recv_loop fuel p c capacity w)"

section \<open>Resources\<close>

lemma poll_loop_holds: "holds w F \<Longrightarrow> post (poll_loop fuel p fd w) (\<lambda>_ w'. holds w' F)"
  by (induction fuel arbitrary: w) (auto simp: post_None intro!: post_intros)

lemma wait_connected_holds: "holds w F \<Longrightarrow> post (wait_connected fuel p fd w) (\<lambda>_ w'. holds w' F)"
  unfolding wait_connected_def
  by (rule post_callI[OF poll_loop_holds]) (auto simp: post_bind_if intro!: post_intros)

lemma close_socket_holds:
  "holds w (add_mset (Fd fd) F) \<Longrightarrow> post (close_socket p fd w) (\<lambda>r w'. r < 0 \<and> holds w' F)"
  unfolding close_socket_def by (auto simp: resource_simps intro!: post_intros)

text \<open>What a function that returns a descriptor leaves behind.\<close>

definition fd_result :: "int \<Rightarrow> resource multiset \<Rightarrow> resource multiset" where
  "fd_result fd F = (if 0 \<le> fd then add_mset (Fd fd) F else F)"

lemma holds_socket: "holds w F \<Longrightarrow> holds (after (Socket a) r w) (fd_result (ret r) F)"
  by (auto simp: resource_simps fd_result_def)

lemma close_socket_result:
  "holds w (fd_result fd F) \<Longrightarrow> 0 \<le> fd \<Longrightarrow> post (close_socket p fd w) (\<lambda>r w'. holds w' (fd_result r F))"
  by (rule post_mono[OF close_socket_holds]) (auto simp: fd_result_def)

lemma try_address_holds:
  assumes "holds w F"
  shows "post (try_address fuel p address w) (\<lambda>fd w'. holds w' (fd_result fd F))"
  unfolding try_address_def Let_def
  apply (rule post_sys_bindI)
  subgoal for r
    using holds_socket[OF assms, of address r]
    by (auto simp: post_bind_if intro!: post_intros close_socket_result
        post_callI[OF wait_connected_holds[where F = "fd_result (ret r) F"]])
  done

lemma address_loop_holds:
  "holds w F \<Longrightarrow> fd < 0 \<Longrightarrow> post (address_loop fuel p as fd w) (\<lambda>fd w'. holds w' (fd_result fd F))"
proof (induction as arbitrary: fd w)
  case (Cons a as)
  show ?case unfolding address_loop.simps
    by (rule post_callI[OF try_address_holds[OF Cons.prems(1)]])
       (auto simp: fd_result_def intro!: post_intros Cons.IH[unfolded fd_result_def])
qed (auto simp: post_Some fd_result_def)

lemma holds_getaddrinfo:
  "holds w F \<Longrightarrow> holds (after (Getaddrinfo h s) r w) (if ret r = 0 then add_mset Addresses F else F)"
  by (auto simp: resource_simps)

lemma holds_freeaddrinfo:
  "holds w (fd_result fd (add_mset Addresses F)) \<Longrightarrow> holds (after Freeaddrinfo r w) (fd_result fd F)"
  by (auto simp: resource_simps fd_result_def add_mset_commute)

lemma connect_tcp_holds:
  assumes "holds w F"
  shows "post (connect_tcp fuel p host port w) (\<lambda>fd w'. holds w' (fd_result fd F))"
proof -
  let ?c = "Getaddrinfo host (show_int port)"
  have g: "holds (after ?c r w) (add_mset Addresses F)" if "ret r = 0" for r
    using holds_getaddrinfo[OF assms, of host "show_int port" r] that by simp
  have e: "holds (after ?c r w) F" if "ret r \<noteq> 0" for r
    using holds_getaddrinfo[OF assms, of host "show_int port" r] that by simp
  show ?thesis unfolding connect_tcp_def using assms
    by (auto simp: fd_result_def[of "-1"] e
        intro!: post_intros post_callI[OF address_loop_holds[OF g]] holds_freeaddrinfo)
qed

lemma tunnel_send_holds: "holds w F \<Longrightarrow> post (tunnel_send p fd bs w) (\<lambda>_ w'. holds w' F)"
proof (induction p fd bs w rule: tunnel_send.induct)
  case (1 p fd bs w)
  show ?case
    by (subst tunnel_send.simps) (auto simp: sys_def Let_def 1 intro!: post_intros)
qed

lemma tunnel_receive_holds: "holds w F \<Longrightarrow> post (tunnel_receive p fd bs w) (\<lambda>_ w'. holds w' F)"
proof (induction p fd bs w rule: tunnel_receive.induct)
  case (1 p fd bs w)
  show ?case
    by (subst tunnel_receive.simps) (auto simp: sys_def Let_def 1 intro!: post_intros)
qed

lemma establish_proxy_tunnel_holds:
  assumes "holds w F" shows "post (establish_proxy_tunnel p fd host port w) (\<lambda>_ w'. holds w' F)"
  unfolding establish_proxy_tunnel_def Let_def using assms
  by (auto intro!: post_intros post_callI[OF tunnel_send_holds] tunnel_receive_holds)

text \<open>The resources a connection structure owns.\<close>

definition conn_resources :: "connection \<Rightarrow> resource multiset" where
  "conn_resources c = res_if (0 \<le> co_socket_fd c) (Fd (co_socket_fd c))
     + res_if (co_tls_context c \<noteq> 0) (Ctx (co_tls_context c)) + res_if (co_tls c \<noteq> 0) (Ssl (co_tls c))"

lemma close_connection_holds:
  assumes "holds w (conn_resources c + F)"
  shows "post (close_connection p c w)
           (\<lambda>c' w'. holds w' F \<and> co_failure_code c' = co_failure_code c)"
  unfolding close_connection_def using assms
  by (auto simp: post_bind_if resource_simps conn_resources_def intro!: post_intros)

lemma fail_open_holds:
  assumes "holds w (conn_resources c + F)"
  shows "post (fail_open p m c w) (\<lambda>(ok, c') w'. \<not> ok \<and> holds w' F \<and> co_failure_code c' = co_failure_code c)"
  unfolding fail_open_def using assms
  by (auto intro!: post_intros post_callI[OF close_connection_holds])

lemma set_identity_holds: "holds w F \<Longrightarrow> post (set_identity p tls host w) (\<lambda>_ w'. holds w' F)"
  unfolding set_identity_def by (auto intro!: post_intros)

lemma handshake_holds: "holds w F \<Longrightarrow> post (handshake p tls fd w) (\<lambda>_ w'. holds w' F)"
  unfolding handshake_def by (auto intro!: post_intros)

definition open_result :: "bool \<Rightarrow> connection \<Rightarrow> resource multiset \<Rightarrow> resource multiset" where
  "open_result ok c F = (if ok then conn_resources c + F else F)"

lemma fail_open_result:
  "holds w (conn_resources c + F) \<Longrightarrow> post (fail_open p m c w) (\<lambda>(ok, c') w'. holds w' (open_result ok c' F))"
  by (rule post_mono[OF fail_open_holds]) (auto simp: open_result_def)

lemma conn_resources_failure [simp]: "conn_resources (c\<lparr>co_failure_code := e\<rparr>) = conn_resources c"
  by (simp add: conn_resources_def)

lemma verified_handshake_holds:
  assumes "holds w (conn_resources c + F)"
  shows "post (verified_handshake p host c w) (\<lambda>(ok, c') w'. holds w' (open_result ok c' F))"
  unfolding verified_handshake_def
  by (rule post_callI[OF set_identity_holds[OF assms]], rule post_ifI, erule fail_open_result,
      erule post_callI[OF handshake_holds])
     (auto simp: open_result_def[of True] intro!: post_intros fail_open_result)

lemma start_tls_holds:
  assumes "holds w (conn_resources c + F)" "co_tls_context c = 0" "co_tls c = 0"
  shows "post (start_tls p host c w) (\<lambda>(ok, c') w'. holds w' (open_result ok c' F))"
  unfolding start_tls_def Let_def
  apply (rule post_sys_bindI)
  subgoal for r
  proof -
    let ?c = "c\<lparr>co_failure_code := 5, co_tls_context := ret r\<rparr>"
    have h: "holds (after Ctx_new r w) (conn_resources ?c + F)"
      using assms by (auto simp: resource_simps conn_resources_def)
    have n: "holds (after (Ssl_new (ret r)) t w') (conn_resources (?c\<lparr>co_tls := ret t\<rparr>) + F)"
      if "holds w' (conn_resources ?c + F)" for t w'
      using that assms(3) by (auto simp: resource_simps conn_resources_def)
    have z: "holds (after (Ssl_new (ret r)) t w') (conn_resources (?c\<lparr>co_tls := 0\<rparr>) + F)"
      if "holds w' (conn_resources ?c + F)" "ret t = 0" for t w'
      using n[OF that(1), of t] that(2) by simp
    show ?thesis using h
      by (cases "ret r = 0") (auto intro!: post_intros fail_open_result verified_handshake_holds n z)
  qed
  done

lemma open_connection_holds:
  assumes "holds w F"
  shows "post (open_connection fuel p host port use_tls w) (\<lambda>(ok, c') w'. holds w' (open_result ok c' F))"
proof (cases "proxy_configuration (env p) (ipv6 p) host use_tls")
  case None
  with assms show ?thesis unfolding open_connection_def
    by (auto simp: open_result_def intro!: post_intros)
next
  case (Some proxy)
  have r: "conn_resources \<lparr>co_socket_fd = fd, co_tls_context = 0, co_tls = 0, co_failure_code = e\<rparr> + F = fd_result fd F" for fd e
    by (simp add: conn_resources_def fd_result_def res_if_def)
  have t: "post (start_tls p host \<lparr>co_socket_fd = fd, co_tls_context = 0, co_tls = 0, co_failure_code = 4\<rparr> w')
         (\<lambda>(ok, c') w'. holds w' (open_result ok c' F))" if "holds w' (fd_result fd F)" for fd w'
    using that by (intro start_tls_holds) (simp_all add: r)
  have f: "post (fail_open p m \<lparr>co_socket_fd = fd, co_tls_context = 0, co_tls = 0, co_failure_code = e\<rparr> w')
         (\<lambda>(ok, c') w'. holds w' (open_result ok c' F))" if "holds w' (fd_result fd F)" for m fd e w'
    using that by (intro fail_open_result) (simp add: r)
  show ?thesis
    unfolding open_connection_def Let_def Some option.case
    apply (rule post_callI[OF connect_tcp_holds[OF assms]])
    subgoal for fd w'
      by (auto simp: post_bind_if open_result_def[of True] open_result_def[of False] r fd_result_def[of "fd" F, symmetric]
          intro!: post_intros t f post_callI[OF establish_proxy_tunnel_holds[where F = "fd_result fd F"]]; simp add: fd_result_def)
    done
qed

lemma write_all_holds: "holds w F \<Longrightarrow> post (write_all fuel p c bs w) (\<lambda>_ w'. holds w' F)"
  by (induction fuel arbitrary: bs w) (auto simp: post_None intro!: post_intros)

lemma recv_loop_holds:
  "holds w F \<Longrightarrow> post (recv_loop fuel p c n w) (\<lambda>(_, _, c') w'. holds w' F \<and> conn_resources c' = conn_resources c)"
  by (induction fuel arbitrary: w) (auto simp: post_None intro!: post_intros)

lemma read_some_holds:
  "holds w F \<Longrightarrow> post (read_some fuel p c n w) (\<lambda>(_, _, c') w'. holds w' F \<and> conn_resources c' = conn_resources c)"
  unfolding read_some_def by (auto intro!: post_intros recv_loop_holds)

section \<open>Functions that make plain calls only\<close>

lemma poll_loop_plain: "plain_ext w0 w \<Longrightarrow> post (poll_loop fuel p fd w) (\<lambda>_ w'. plain_ext w0 w')"
  by (induction fuel arbitrary: w) (auto simp: post_None intro!: post_intros)

lemma close_socket_plain: "plain_ext w0 w \<Longrightarrow> post (close_socket p fd w) (\<lambda>_ w'. plain_ext w0 w')"
  unfolding close_socket_def by (auto intro!: post_intros)

lemma wait_connected_plain: "plain_ext w0 w \<Longrightarrow> post (wait_connected fuel p fd w) (\<lambda>_ w'. plain_ext w0 w')"
  unfolding wait_connected_def
  by (rule post_callI[OF poll_loop_plain]) (auto simp: post_bind_if intro!: post_intros)

lemma try_address_plain: "plain_ext w0 w \<Longrightarrow> post (try_address fuel p a w) (\<lambda>_ w'. plain_ext w0 w')"
  unfolding try_address_def Let_def
  by (auto simp: post_bind_if intro!: post_intros close_socket_plain post_callI[OF wait_connected_plain[of w0]])

lemma address_loop_plain: "plain_ext w0 w \<Longrightarrow> post (address_loop fuel p as fd w) (\<lambda>_ w'. plain_ext w0 w')"
  by (induction as arbitrary: fd w) (auto intro!: post_intros post_callI[OF try_address_plain[of w0]])

lemma connect_tcp_plain: "post (connect_tcp fuel p host port w) (\<lambda>_ w'. plain_ext w w')"
  unfolding connect_tcp_def by (auto intro!: post_intros post_callI[OF address_loop_plain[of w]])

lemma tunnel_receive_plain: "plain_ext w0 w \<Longrightarrow> post (tunnel_receive p fd bs w) (\<lambda>_ w'. plain_ext w0 w')"
proof (induction p fd bs w rule: tunnel_receive.induct)
  case (1 p fd bs w)
  show ?case
    by (subst tunnel_receive.simps) (auto simp: sys_def Let_def 1 intro!: post_intros)
qed

lemma close_connection_plain: "plain_ext w0 w \<Longrightarrow> post (close_connection p c w) (\<lambda>_ w'. plain_ext w0 w')"
  unfolding close_connection_def by (auto simp: post_bind_if intro!: post_intros)

lemma fail_open_plain: "plain_ext w0 w \<Longrightarrow> post (fail_open p m c w) (\<lambda>(ok, _) w'. \<not> ok \<and> plain_ext w0 w')"
  unfolding fail_open_def by (auto intro!: post_intros post_callI[OF close_connection_plain[of w0]])

lemma recv_loop_plain:
  "plain_ext w0 w \<Longrightarrow> post (recv_loop fuel p c n w) (\<lambda>(_, _, c') w'. plain_ext w0 w' \<and> co_tls c' = co_tls c \<and> co_socket_fd c' = co_socket_fd c)"
  by (induction fuel arbitrary: w) (auto simp: post_None intro!: post_intros)

lemma read_some_plain:
  "plain_ext w0 w \<Longrightarrow> post (read_some fuel p c n w) (\<lambda>(_, _, c') w'. plain_ext w0 w' \<and> co_tls c' = co_tls c \<and> co_socket_fd c' = co_socket_fd c)"
  unfolding read_some_def by (auto intro!: post_intros post_mono[OF recv_loop_plain])

section \<open>Authenticated sessions\<close>

text \<open>
  What the history says about a TLS session. A context is trusted from the moment the default
  verification paths are loaded and peer verification is required; a session inherits that when it
  is created. It expects the identity that was last set on it, and it is authenticated for a host when its
  handshake succeeded while it was trusted and expected that host.
\<close>

fun ctx_paths :: "history \<Rightarrow> int \<Rightarrow> bool" where
  "ctx_paths [] k = False"
| "ctx_paths ((c, r) # h) k =
     (case c of Ctx_new \<Rightarrow> ret r \<noteq> k \<and> ctx_paths h k
      | Ctx_set_default_verify_paths k' \<Rightarrow> (if k' = k then ret r = 1 else ctx_paths h k) | _ \<Rightarrow> ctx_paths h k)"

fun ctx_verifies_peer :: "history \<Rightarrow> int \<Rightarrow> bool" where
  "ctx_verifies_peer [] k = False"
| "ctx_verifies_peer ((c, r) # h) k =
     (case c of Ctx_new \<Rightarrow> ret r \<noteq> k \<and> ctx_verifies_peer h k
      | Ctx_set_verify_peer k' \<Rightarrow> k' = k \<or> ctx_verifies_peer h k | _ \<Rightarrow> ctx_verifies_peer h k)"

fun session_trusted :: "history \<Rightarrow> int \<Rightarrow> bool" where
  "session_trusted [] s = False"
| "session_trusted ((c, r) # h) s =
     (case c of Ssl_new k \<Rightarrow> (if ret r = s then ctx_paths h k \<and> ctx_verifies_peer h k else session_trusted h s)
      | _ \<Rightarrow> session_trusted h s)"

fun expects :: "history \<Rightarrow> int \<Rightarrow> bytes \<Rightarrow> bool" where
  "expects [] s host = False"
| "expects ((c, r) # h) s host =
     (case c of Ssl_new k \<Rightarrow> ret r \<noteq> s \<and> expects h s host
      | Ssl_set1_ip_asc s' x \<Rightarrow> (if s' = s then x = host \<and> ret r = 1 else expects h s host)
      | Ssl_set1_host s' x \<Rightarrow> (if s' = s then x = host \<and> ret r = 1 else expects h s host)
      | _ \<Rightarrow> expects h s host)"

fun authenticated :: "history \<Rightarrow> int \<Rightarrow> bytes \<Rightarrow> bool" where
  "authenticated [] s host = False"
| "authenticated ((c, r) # h) s host =
     (case c of Ssl_new k \<Rightarrow> ret r \<noteq> s \<and> authenticated h s host
      | Ssl_connect s' \<Rightarrow> (if s' = s then ret r = 1 \<and> session_trusted h s \<and> expects h s host
                           else authenticated h s host)
      | _ \<Rightarrow> authenticated h s host)"

text \<open>Every TLS write of the history was on a session authenticated for some host.\<close>

fun tls_safe :: "history \<Rightarrow> bool" where
  "tls_safe [] = True"
| "tls_safe ((c, r) # h) \<longleftrightarrow>
     tls_safe h \<and> (case c of Ssl_write s b \<Rightarrow> \<exists>host. authenticated h s host | _ \<Rightarrow> True)"

lemma plain_tls_safe: "plain_ext w w' \<Longrightarrow> tls_safe (trace w') = tls_safe (trace w)"
  by (erule plain_ext_inv) (auto simp: plain_def split: call.splits)

lemma plain_authenticated: "plain_ext w w' \<Longrightarrow> authenticated (trace w') s host = authenticated (trace w) s host"
  by (erule plain_ext_inv[where I = "\<lambda>h. authenticated h s host"]) (auto simp: plain_def split: call.splits)

lemma set_identity_expects:
  "post (set_identity p tls host w)
     (\<lambda>ok w'. (ok \<longrightarrow> expects (trace w') tls host) \<and> session_trusted (trace w') tls = session_trusted (trace w) tls
        \<and> tls_safe (trace w') = tls_safe (trace w))"
  unfolding set_identity_def by (auto intro!: post_intros)

lemma handshake_authenticates:
  assumes "session_trusted (trace w) tls" "expects (trace w) tls host"
  shows "post (handshake p tls fd w) (\<lambda>ok w'. (ok \<longrightarrow> authenticated (trace w') tls host) \<and> tls_safe (trace w') = tls_safe (trace w))"
  unfolding handshake_def using assms by (auto intro!: post_intros)

lemma fail_open_tls: "post (fail_open p m c w) (\<lambda>(ok, c') w'. \<not> ok \<and> tls_safe (trace w') = tls_safe (trace w))"
  by (rule post_mono[OF fail_open_plain[OF plain_ext_refl]]) (auto simp: plain_tls_safe)

definition tls_ready :: "bytes \<Rightarrow> bool \<Rightarrow> connection \<Rightarrow> world \<Rightarrow> world \<Rightarrow> bool" where
  "tls_ready host ok c w w' \<longleftrightarrow> (ok \<longrightarrow> co_tls c \<noteq> 0 \<and> authenticated (trace w') (co_tls c) host)
      \<and> tls_safe (trace w') = tls_safe (trace w)"

lemma verified_handshake_authenticates:
  assumes "session_trusted (trace w) (co_tls c)" "co_tls c \<noteq> 0"
  shows "post (verified_handshake p host c w) (\<lambda>(ok, c') w'. tls_ready host ok c' w w')"
  unfolding verified_handshake_def tls_ready_def
  apply (rule post_callI[OF set_identity_expects])
  subgoal for ok w'
    using assms
    by (auto intro!: post_intros post_callI[OF handshake_authenticates[of w' "co_tls c" host]]
        post_mono[OF fail_open_tls])
  done

lemma start_tls_authenticates: "post (start_tls p host c w) (\<lambda>(ok, c') w'. tls_ready host ok c' w w')"
  unfolding start_tls_def Let_def
  by (auto simp: post_bind_if tls_ready_def intro!: post_intros post_mono[OF fail_open_tls]
     post_mono[OF verified_handshake_authenticates])

lemma tunnel_send_tls:
  "post (tunnel_send p fd bs w) (\<lambda>_ w'. tls_safe (trace w') = tls_safe (trace w))"
proof (induction p fd bs w rule: tunnel_send.induct)
  case (1 p fd bs w)
  show ?case
    by (subst tunnel_send.simps) (auto simp: sys_def Let_def intro!: post_intros post_mono[OF 1])
qed

lemma establish_proxy_tunnel_tls:
  "post (establish_proxy_tunnel p fd host port w) (\<lambda>_ w'. tls_safe (trace w') = tls_safe (trace w))"
  unfolding establish_proxy_tunnel_def Let_def
  by (auto simp: plain_tls_safe intro!: post_intros post_callI[OF tunnel_send_tls]
      post_mono[OF tunnel_receive_plain[OF plain_ext_refl]])

lemma open_connection_tls:
  "post (open_connection fuel p host port use_tls w)
     (\<lambda>(ok, c) w'. (ok \<longrightarrow> (if use_tls then co_tls c \<noteq> 0 \<and> authenticated (trace w') (co_tls c) host else co_tls c = 0))
        \<and> tls_safe (trace w') = tls_safe (trace w))"
proof (cases "proxy_configuration (env p) (ipv6 p) host use_tls")
  case None
  then show ?thesis unfolding open_connection_def by (auto intro!: post_intros)
next
  case (Some proxy)
  show ?thesis
    unfolding open_connection_def Let_def Some option.case
    apply (rule post_callI[OF connect_tcp_plain])
    subgoal for fd w'
      by (drule plain_tls_safe)
        (auto simp: post_bind_if tls_ready_def intro!: post_intros post_mono[OF start_tls_authenticates]
          post_mono[OF fail_open_tls] post_callI[OF establish_proxy_tunnel_tls])
    done
qed

section \<open>What was sent\<close>

text \<open>The bytes the system accepted on a socket and on a TLS session, in order.\<close>

fun sent_plain :: "history \<Rightarrow> int \<Rightarrow> bytes" where
  "sent_plain [] fd = []"
| "sent_plain ((c, r) # h) fd =
     (case c of Send fd' b \<Rightarrow> (if fd' = fd then sent_plain h fd @ take (nat (ret r)) b else sent_plain h fd)
      | _ \<Rightarrow> sent_plain h fd)"

fun sent_tls :: "history \<Rightarrow> int \<Rightarrow> bytes" where
  "sent_tls [] s = []"
| "sent_tls ((c, r) # h) s =
     (case c of Ssl_write s' b \<Rightarrow> (if s' = s then sent_tls h s @ take (nat (ret r)) b else sent_tls h s)
      | _ \<Rightarrow> sent_tls h s)"

definition transmitted :: "history \<Rightarrow> connection \<Rightarrow> bytes" where
  "transmitted h c = (if co_tls c \<noteq> 0 then sent_tls h (co_tls c) else sent_plain h (co_socket_fd c))"

text \<open>Documented of \<open>SSL_write\<close>: it reports at most the number of bytes it was given.\<close>

definition write_law :: "platform \<Rightarrow> bool" where
  "write_law p \<longleftrightarrow> (\<forall>h s b. ret (os p h (Ssl_write s b)) \<le> int (length b))"

lemma transmitted_steps:
  "co_tls c = 0 \<Longrightarrow> transmitted ((Send (co_socket_fd c) b, r) # h) c = transmitted h c @ take (nat (ret r)) b"
  "co_tls c \<noteq> 0 \<Longrightarrow> transmitted ((Ssl_write (co_tls c) b, r) # h) c = transmitted h c @ take (nat (ret r)) b"
  "transmitted ((Ssl_get_error s i, r) # h) c = transmitted h c"
  by (simp_all add: transmitted_def)

lemma write_all_transmits:
  assumes "write_law p"
  shows "post (write_all fuel p c bs w)
           (\<lambda>ok w'. ok \<longrightarrow> transmitted (trace w') c = transmitted (trace w) c @ bs)"
proof (induction fuel arbitrary: bs w)
  case 0
  show ?case by (auto simp: wp)
next
  case (Suc fuel)
  let ?c = "Ssl_write (co_tls c) (take 16384 bs)"
  let ?r = "os p (trace w) ?c"
  have law: "nat (ret ?r) \<le> 16384"
    using assms[unfolded write_law_def, rule_format, of "trace w" "co_tls c" "take 16384 bs"] by simp
  have step: "post (write_all fuel p c bs' w')
     (\<lambda>ok w''. ok \<longrightarrow> transmitted (trace w'') c = transmitted (trace w) c @ bs)"
    if "transmitted (trace w') c @ bs' = transmitted (trace w) c @ bs" for bs' w'
    by (rule post_mono[OF Suc.IH]) (use that in auto)
  show ?case
  proof (cases "co_tls c = 0")
    case True
    then show ?thesis
      by (auto intro!: post_intros step simp: transmitted_steps)
  next
    case False
    have t: "take (nat (ret ?r)) (take 16384 bs) @ drop (nat (ret ?r)) bs = bs" using law by (simp add: min_def)
    show ?thesis using False t
      by (auto intro!: post_sys_bind_exactI post_ifI post_SomeI step simp: transmitted_steps)
  qed
qed

text \<open>The tunnel request, sent in full before the proxy is believed.\<close>

lemma tunnel_send_exact:
  "post (tunnel_send p fd bs w) (\<lambda>ok w'. ok \<longrightarrow> sent_plain (trace w') fd = sent_plain (trace w) fd @ bs)"
proof (induction p fd bs w rule: tunnel_send.induct)
  case (1 p fd bs w)
  show ?case
    by (subst tunnel_send.simps)
       (auto simp: sys_def Let_def wp intro!: post_intros post_mono[OF 1])
qed

lemma plain_sent: "plain_ext w w' \<Longrightarrow> sent_plain (trace w') fd = sent_plain (trace w) fd"
  by (erule plain_ext_inv[where I = "\<lambda>h. sent_plain h fd"]) (auto simp: plain_def split: call.splits)

lemma start_tls_sends_nothing:
  "post (start_tls p host c w) (\<lambda>(ok, c') w'. ok \<longrightarrow> co_socket_fd c' = co_socket_fd c
      \<and> sent_plain (trace w') fd = sent_plain (trace w) fd)"
  unfolding start_tls_def verified_handshake_def set_identity_def handshake_def Let_def
  by (auto simp: post_bind_if intro!: post_intros post_mono[OF fail_open_tls])

definition clear_text :: "platform \<Rightarrow> bytes \<Rightarrow> int \<Rightarrow> bytes" where
  "clear_text p host port =
     (case proxy_configuration (env p) (ipv6 p) host True of
        Some proxy \<Rightarrow> if cp_enabled proxy then connect_request host port else []
      | None \<Rightarrow> [])"

lemma establish_proxy_tunnel_exact:
  "post (establish_proxy_tunnel p fd host port w)
     (\<lambda>ok w'. ok \<longrightarrow> sent_plain (trace w') fd = sent_plain (trace w) fd @ connect_request host port)"
  unfolding establish_proxy_tunnel_def Let_def
  apply (intro post_ifI post_SomeI, simp)
  apply (rule post_callI[OF tunnel_send_exact])
  by (auto simp: plain_sent intro!: post_intros post_mono[OF tunnel_receive_plain[OF plain_ext_refl]])

lemma open_connection_clear_text:
  "post (open_connection fuel p host port True w)
     (\<lambda>(ok, c) w'. ok \<longrightarrow> sent_plain (trace w') (co_socket_fd c)
                        = sent_plain (trace w) (co_socket_fd c) @ clear_text p host port)"
proof (cases "proxy_configuration (env p) (ipv6 p) host True")
  case None
  then show ?thesis unfolding open_connection_def by (auto intro!: post_intros)
next
  case (Some proxy)
  show ?thesis
    unfolding open_connection_def Let_def Some option.case
    apply (rule post_callI[OF connect_tcp_plain])
    subgoal for fd w'
      by (drule plain_sent[where fd = fd])
        (auto simp: post_bind_if clear_text_def Some
          intro!: post_intros post_mono[OF start_tls_sends_nothing[where fd = fd]]
          post_mono[OF fail_open_tls] post_callI[OF establish_proxy_tunnel_exact])
    done
qed


section \<open>Termination\<close>

lemma poll_loop_returns: "uninterrupted p \<Longrightarrow> 0 < fuel \<Longrightarrow> returns (poll_loop fuel p fd w)"
  by (cases fuel) (auto intro!: returns_sys_exactI returns_ifI dest: uninterruptedD)

lemma wait_connected_returns: "uninterrupted p \<Longrightarrow> 0 < fuel \<Longrightarrow> returns (wait_connected fuel p fd w)"
  unfolding wait_connected_def
  by (rule returns_callI[OF poll_loop_returns]) (auto simp: returns_bind_if intro!: returns_intros)

lemma close_socket_returns: "returns (close_socket p fd w)"
  unfolding close_socket_def by (auto intro!: returns_intros)

lemma try_address_returns: "uninterrupted p \<Longrightarrow> 0 < fuel \<Longrightarrow> returns (try_address fuel p a w)"
  unfolding try_address_def Let_def
  by (auto simp: returns_bind_if intro!: returns_intros close_socket_returns returns_callI[OF wait_connected_returns])

lemma address_loop_returns: "uninterrupted p \<Longrightarrow> 0 < fuel \<Longrightarrow> returns (address_loop fuel p as fd w)"
  by (induction as arbitrary: fd w) (auto intro!: returns_intros returns_callI[OF try_address_returns])

lemma connect_tcp_returns: "uninterrupted p \<Longrightarrow> 0 < fuel \<Longrightarrow> returns (connect_tcp fuel p host port w)"
  unfolding connect_tcp_def by (auto intro!: returns_intros returns_callI[OF address_loop_returns])

lemma tunnel_send_returns: "returns (tunnel_send p fd bs w)"
proof (induction p fd bs w rule: tunnel_send.induct)
  case (1 p fd bs w)
  show ?case by (subst tunnel_send.simps) (auto simp: sys_def Let_def intro!: returns_intros 1)
qed

lemma tunnel_receive_returns: "returns (tunnel_receive p fd bs w)"
proof (induction p fd bs w rule: tunnel_receive.induct)
  case (1 p fd bs w)
  show ?case by (subst tunnel_receive.simps) (auto simp: sys_def Let_def intro!: returns_intros 1)
qed

lemma close_connection_returns: "returns (close_connection p c w)"
  unfolding close_connection_def by (auto simp: returns_bind_if intro!: returns_intros)

lemma fail_open_returns: "returns (fail_open p m c w)"
  unfolding fail_open_def by (auto intro!: returns_intros returns_callI[OF close_connection_returns])

lemma start_tls_returns: "returns (start_tls p host c w)"
  unfolding start_tls_def verified_handshake_def set_identity_def handshake_def Let_def
  by (auto simp: returns_bind_if intro!: returns_intros fail_open_returns)

lemma open_connection_returns:
  "uninterrupted p \<Longrightarrow> 0 < fuel \<Longrightarrow> returns (open_connection fuel p host port use_tls w)"
  unfolding open_connection_def establish_proxy_tunnel_def Let_def
  by (auto simp: returns_bind_if split: option.splits
      intro!: returns_intros returns_callI[OF connect_tcp_returns] returns_callI[OF tunnel_send_returns]
        returns_callI[OF tunnel_receive_returns] start_tls_returns fail_open_returns)

lemma write_all_returns: "uninterrupted p \<Longrightarrow> length bs \<le> fuel \<Longrightarrow> returns (write_all fuel p c bs w)"
proof (induction fuel arbitrary: bs w)
  case (Suc fuel)
  then show ?case
    by (auto simp: SSL_ERROR_WANT_READ_def SSL_ERROR_WANT_WRITE_def
        intro!: returns_sys_exactI returns_ifI dest: uninterruptedD)
qed simp

lemma read_some_returns: "uninterrupted p \<Longrightarrow> 0 < fuel \<Longrightarrow> returns (read_some fuel p c n w)"
  unfolding read_some_def
  by (cases fuel) (auto intro!: returns_sys_exactI returns_ifI dest: uninterruptedD)

section \<open>Properties\<close>

text \<open>
  C6: TLS identity. When \<open>open_connection\<close> succeeds with TLS for a host, whatever the system answers and
  with or without a proxy, the connection carries a session whose handshake succeeded while its
  context trusted the default verification paths, required peer verification, and the session
  expected exactly that host; and the only bytes sent in the clear are the CONNECT request
  of a configured proxy.
\<close>

theorem open_connection_tls_verified:
  assumes "open_connection fuel p host port True w = Some ((True, c), w')"
  shows "co_tls c \<noteq> 0 \<and> authenticated (trace w') (co_tls c) host
     \<and> sent_plain (trace w') (co_socket_fd c) = sent_plain (trace w) (co_socket_fd c) @ clear_text p host port"
  using postD[OF open_connection_tls assms] postD[OF open_connection_clear_text assms] by simp

lemma Some_the: "m \<noteq> None \<Longrightarrow> fst (fst (the m)) = a \<Longrightarrow> m = Some ((a, snd (fst (the m))), snd (the m))"
  by (cases m) auto

theorem open_connection_tls_verified_witness:
  "(let m = open_connection 1 (scripted [] []) ''example.org'' 443 True start
    in co_tls (snd (fst (the m))) \<noteq> 0
       \<and> authenticated (trace (snd (the m))) (co_tls (snd (fst (the m)))) ''example.org'')"
proof -
  let ?m = "open_connection 1 (scripted [] []) ''example.org'' 443 True start"
  have "?m \<noteq> None" "fst (fst (the ?m)) = True" by code_simp+
  from open_connection_tls_verified[OF Some_the[OF this]] show ?thesis unfolding Let_def by blast
qed

text \<open>
  no leak and no double release when a connection is opened. Whatever the system answers, after
  \<open>open_connection\<close> the run holds what it held before plus, on success only, exactly the socket,
  the TLS context and the session of the connection; on every failure path all three, and the
  address list, were given back exactly once.
\<close>

theorem open_connection_no_leak:
  assumes "holds w F" "open_connection fuel p host port use_tls w = Some ((ok, c), w')"
  shows "holds w' (if ok then conn_resources c + F else F)"
  using postD[OF open_connection_holds[OF assms(1)] assms(2)] by (simp add: open_result_def)

theorem open_connection_no_leak_witness:
  "(let m = open_connection 1 (scripted [] []) ''example.org'' 443 True start
    in holds (snd (the m)) (conn_resources (snd (fst (the m)))))"
proof -
  let ?m = "open_connection 1 (scripted [] []) ''example.org'' 443 True start"
  have "?m \<noteq> None" "fst (fst (the ?m)) = True" by code_simp+
  from open_connection_no_leak[OF holds_start Some_the[OF this]] show ?thesis by simp
qed

text \<open>
  \<open>write_all\<close> is exact. When it reports success on a connection, over the socket or over TLS,
  the system accepted exactly the given bytes, in order, whatever pieces it took them in and however
  often it interrupted the loop; \<open>SSL_write\<close> never reports more bytes than it was given.
\<close>

theorem write_all_exact:
  assumes "write_law p" "write_all fuel p c bs w = Some (True, w')"
  shows "transmitted (trace w') c = transmitted (trace w) c @ bs"
  using postD[OF write_all_transmits[OF assms(1)] assms(2)] by simp

lemma scripted_write_law: "write_law (scripted responses body)"
  by (simp add: write_law_def scripted_def scripted_os_def reply_of_def)

theorem write_all_exact_witness:
  "(let c = \<lparr>co_socket_fd = 3, co_tls_context = 7, co_tls = 9, co_failure_code = 5\<rparr>
    in transmitted (trace (snd (the (write_all 1 (scripted [] []) c ''GET'' start)))) c = ''GET'')"
proof -
  let ?c = "\<lparr>co_socket_fd = 3, co_tls_context = 7, co_tls = 9, co_failure_code = 5\<rparr>"
  let ?m = "write_all 1 (scripted [] []) ?c ''GET'' start"
  have "?m \<noteq> None" "fst (the ?m) = True" by code_simp+
  then have "?m = Some (True, snd (the ?m))" by (cases ?m) auto
  from write_all_exact[OF scripted_write_law this] show ?thesis
    by (simp add: transmitted_def start_def)
qed

end
