(* ===== verification/Icu_Headers.thy ===== *)
theory Icu_Headers
  imports CString
begin

text \<open>
  The response head of \<open>native/transport.c\<close>: finding its end, the status line, the lookup and
  the counting of header lines, \<open>Content-Length\<close>, and the \<open>response_head\<close> structure that
  \<open>read_response_head\<close> fills from a complete head. The head is a byte region with a length, which
  may hold any bytes the server sent; a value copied out of it is read back as a C string.
\<close>

section \<open>Data\<close>

record response_head =
  rh_status :: int
  rh_has_location :: bool
  rh_location :: bytes
  rh_content_length :: int
  rh_content_type :: bytes
  rh_content_encoding :: bytes
  rh_invalid_framing :: bool

section \<open>Operations\<close>

definition find_header_end :: "bytes \<Rightarrow> nat option" where
  "find_header_end bs = map_option (\<lambda>index. index + 4) (find_sub (CRLF @ CRLF) bs)"

definition parse_status :: "bytes \<Rightarrow> int" where
  "parse_status headers =
     (let line_length = (case index_of LF headers of Some i \<Rightarrow> i | None \<Rightarrow> length headers)
      in if line_length < 13 \<or> take 7 headers \<noteq> ''HTTP/1.''
            \<or> (headers ! 7 \<noteq> CHR ''0'' \<and> headers ! 7 \<noteq> CHR ''1'') \<or> headers ! 8 \<noteq> CHR '' '' then -1
         else if line_length - 8 < 4 then -1
         else if \<not> isdigit (headers ! 9) \<or> \<not> isdigit (headers ! 10) \<or> \<not> isdigit (headers ! 11)
            \<or> (headers ! 12 \<noteq> CHR '' '' \<and> headers ! 12 \<noteq> CR) then -1
         else digit_val (headers ! 9) * 100 + digit_val (headers ! 10) * 10 + digit_val (headers ! 11))"

definition rstrip :: "(char \<Rightarrow> bool) \<Rightarrow> bytes \<Rightarrow> bytes" where
  "rstrip P bs = rev (dropWhile P (rev bs))"

text \<open>The line that starts at the cursor: up to the line feed, without a trailing CR.\<close>

definition line_length_at :: "bytes \<Rightarrow> nat" where
  "line_length_at cursor = (case index_of LF cursor of Some i \<Rightarrow> i | None \<Rightarrow> length cursor)"

definition trimmed_line :: "bytes \<Rightarrow> bytes" where
  "trimmed_line cursor =
     (let line = take (line_length_at cursor) cursor
      in if line \<noteq> [] \<and> last line = CR then butlast line else line)"

definition after_line :: "bytes \<Rightarrow> bytes" where
  "after_line cursor = drop (Suc (line_length_at cursor)) cursor"

definition header_line_matches :: "bytes \<Rightarrow> bytes \<Rightarrow> bool" where
  "header_line_matches line wanted \<longleftrightarrow>
     index_of (CHR '':'') line = Some (length wanted) \<and> strncaseeq (length wanted) line wanted"

function copy_header_loop :: "bytes \<Rightarrow> bytes \<Rightarrow> nat \<Rightarrow> bytes option" where
  "copy_header_loop cursor wanted output_capacity =
     (if cursor = [] then None
      else let line = trimmed_line cursor
           in if line = [] then None
              else if header_line_matches line wanted
                then let value = rstrip is_blank (dropWhile is_blank (drop (Suc (length wanted)) line))
                     in if value = [] \<or> output_capacity \<le> length value then None else Some value
              else copy_header_loop (after_line cursor) wanted output_capacity)"
  by pat_completeness auto
termination
  by (relation "measure (\<lambda>(cursor, _, _). length cursor)") (auto simp: after_line_def)

declare copy_header_loop.simps [simp del]

definition copy_header_value :: "bytes \<Rightarrow> bytes \<Rightarrow> nat \<Rightarrow> bytes option" where
  "copy_header_value headers wanted output_capacity =
     (case index_of LF headers of
        None \<Rightarrow> None
      | Some i \<Rightarrow> copy_header_loop (drop (Suc i) headers) wanted output_capacity)"

fun parse_content_length_loop :: "int \<Rightarrow> bytes \<Rightarrow> int" where
  "parse_content_length_loop value [] = value"
| "parse_content_length_loop value (c # cs) =
     (if \<not> isdigit c then -1
      else if value > (LLONG_MAX - digit_val c) div 10 then -1
      else parse_content_length_loop (value * 10 + digit_val c) cs)"

definition parse_content_length :: "bytes \<Rightarrow> int" where
  "parse_content_length text = (if text = [] then -1 else parse_content_length_loop 0 text)"

function header_count_loop :: "bytes \<Rightarrow> bytes \<Rightarrow> nat" where
  "header_count_loop line name =
     (if line = [] then 0
      else case index_of LF line of
             None \<Rightarrow> 0
           | Some next \<Rightarrow>
               (if next > length name \<and> line ! length name = CHR '':''
                   \<and> strncaseeq (length name) line name then 1 else 0)
               + header_count_loop (drop (Suc next) line) name)"
  by pat_completeness auto
termination
  by (relation "measure (\<lambda>(line, _). length line)") (auto dest: index_of_SomeD)

declare header_count_loop.simps [simp del]

definition header_count :: "bytes \<Rightarrow> bytes \<Rightarrow> nat" where
  "header_count headers name =
     (case index_of LF headers of
        None \<Rightarrow> 0
      | Some i \<Rightarrow> header_count_loop (drop (Suc i) headers) name)"

text \<open>What \<open>read_response_head\<close> does with a complete head; \<open>None\<close> is the invalid status line.\<close>

definition interpret_head :: "bytes \<Rightarrow> response_head option" where
  "interpret_head headers =
     (let status = parse_status headers
      in if status < 100 \<or> status > 599 then None
         else let location = copy_header_value headers ''Location'' 4096;
                  content_length =
                    (case copy_header_value headers ''Content-Length'' 32 of
                       Some length_text \<Rightarrow> parse_content_length (cstr length_text) | None \<Rightarrow> -1);
                  lengths = header_count headers ''Content-Length'';
                  content_type = copy_header_value headers ''Content-Type'' 256;
                  encoding = copy_header_value headers ''Content-Encoding'' 64;
                  encodings = header_count headers ''Content-Encoding''
              in Some \<lparr>rh_status = status,
                       rh_has_location = (location \<noteq> None),
                       rh_location = (case location of Some l \<Rightarrow> l | None \<Rightarrow> []),
                       rh_content_length = content_length,
                       rh_content_type = (case content_type of Some t \<Rightarrow> t | None \<Rightarrow> []),
                       rh_content_encoding =
                         (if encodings > 1 \<or> (encodings = 1 \<and> encoding = None) then ''unsupported''
                          else case encoding of Some e \<Rightarrow> e | None \<Rightarrow> ''identity''),
                       rh_invalid_framing =
                         (lengths > 1 \<or> (lengths = 1 \<and> content_length < 0)
                          \<or> header_count headers ''Transfer-Encoding'' \<noteq> 0)\<rparr>)"

section \<open>The Content-Length loop is a digit loop\<close>

definition length_step :: "int \<Rightarrow> int \<Rightarrow> int option" where
  "length_step v d = (if v > (LLONG_MAX - d) div 10 then None else Some (v * 10 + d))"

interpretation clen: digit_loop 10 LLONG_MAX LLONG_MAX length_step
  by unfold_locales
    (auto simp: length_step_def guard_exact not_less split: if_splits)

lemma content_length_loop_run:
  "list_all isdigit cs \<Longrightarrow> parse_content_length_loop v cs =
     (case clen.run v (map digit_val cs) of Some r \<Rightarrow> r | None \<Rightarrow> -1)"
  by (induction cs arbitrary: v) (auto simp: length_step_def)

lemma content_length_loop_nondigit:
  "\<not> list_all isdigit cs \<Longrightarrow> parse_content_length_loop v cs = -1"
  by (induction cs arbitrary: v) auto

lemma parse_content_length_eq:
  "parse_content_length cs =
     (if cs \<noteq> [] \<and> list_all isdigit cs \<and> decimal_value cs \<le> LLONG_MAX then decimal_value cs else -1)"
proof (cases "list_all isdigit cs")
  case True
  note ok = digit_vals_ok[OF True]
  show ?thesis
  proof (cases "clen.run 0 (map digit_val cs)")
    case None
    with clen.run_refuses[OF _ ok None] content_length_loop_run[OF True] show ?thesis
      by (auto simp: parse_content_length_def)
  next
    case (Some r)
    moreover have "0 \<le> LLONG_MAX" by (simp add: LLONG_MAX_def)
    ultimately show ?thesis
      using clen.run_value[OF _ ok Some] clen.run_cap[OF _ _ ok Some] content_length_loop_run[OF True] True
      by (auto simp: parse_content_length_def)
  qed
next
  case False
  then show ?thesis by (auto simp: parse_content_length_def content_length_loop_nondigit)
qed

text \<open>
  \<open>parse_content_length\<close> reads exactly the decimal numbers that fit \<open>long long\<close>: the value of
  a non-empty run of digits when it is at most \<open>LLONG_MAX\<close>, and -1 for everything else, so an
  overlong number can never wrap around into a small accepted length.
\<close>

theorem parse_content_length_spec:
  "parse_content_length cs =
     (if cs \<noteq> [] \<and> list_all isdigit cs \<and> decimal_value cs \<le> LLONG_MAX then decimal_value cs else -1)"
  by (rule parse_content_length_eq)

section \<open>Lines and header names\<close>

lemma trimmed_line_prefix:
  "trimmed_line cur = take (length (trimmed_line cur)) cur"
  "length (trimmed_line cur) \<le> line_length_at cur"
proof -
  have "line_length_at cur \<le> length cur"
    by (auto simp: line_length_at_def dest: index_of_SomeD split: option.splits)
  then show "trimmed_line cur = take (length (trimmed_line cur)) cur"
    "length (trimmed_line cur) \<le> line_length_at cur"
    by (auto simp: trimmed_line_def Let_def butlast_take min_def)
qed

lemma after_line_LF: "index_of LF cur = Some i \<Longrightarrow> after_line cur = drop (Suc i) cur"
  by (simp add: after_line_def line_length_at_def)

lemma header_line_matches_counted:
  assumes "header_line_matches (trimmed_line cur) name" "index_of LF cur = Some i"
  shows "length name < i" "cur ! length name = CHR '':''" "strncaseeq (length name) cur name"
proof -
  note D = index_of_SomeD[OF assms(1)[unfolded header_line_matches_def, THEN conjunct1]]
  note P = trimmed_line_prefix[of cur]
  show "length name < i" using D(1) P(2) assms(2) by (simp add: line_length_at_def)
  show "cur ! length name = CHR '':''" using D(1,2) P(1) by (metis nth_take)
  have "take (length name) (trimmed_line cur) = take (length name) cur"
    using P(1) D(1) by (metis min.absorb1 order_less_imp_le take_take)
  then show "strncaseeq (length name) cur name"
    using assms(1) by (simp add: header_line_matches_def strncaseeq_def)
qed

lemma copy_header_loop_counted:
  "copy_header_loop cur name capacity = Some v \<Longrightarrow> last cur = LF \<Longrightarrow> 1 \<le> header_count_loop cur name"
proof (induction cur name capacity rule: copy_header_loop.induct)
  case (1 cur name capacity)
  from "1.prems" have ne: "cur \<noteq> []" "trimmed_line cur \<noteq> []"
    by (auto simp: copy_header_loop.simps[of cur] Let_def split: if_splits)
  with "1.prems"(2) have "LF \<in> set cur" by (metis last_in_set)
  then obtain i where i: "index_of LF cur = Some i" by (metis index_of_None not_Some_eq)
  show ?case
  proof (cases "header_line_matches (trimmed_line cur) name")
    case True
    from header_line_matches_counted[OF this i] ne i show ?thesis
      by (simp add: header_count_loop.simps[of cur])
  next
    case False
    with "1.prems"(1) ne have rec: "copy_header_loop (after_line cur) name capacity = Some v"
      by (simp add: copy_header_loop.simps[of cur])
    then have "after_line cur \<noteq> []" by (auto simp: copy_header_loop.simps)
    with "1.prems"(2) i have "last (after_line cur) = LF"
      by (simp add: after_line_LF)
    with "1.IH" ne False rec have "1 \<le> header_count_loop (after_line cur) name" by simp
    with ne i show ?thesis by (simp add: header_count_loop.simps[of cur] after_line_LF)
  qed
qed

lemma copy_header_value_counted:
  assumes "copy_header_value h name capacity = Some v" "last h = LF"
  shows "1 \<le> header_count h name"
proof -
  from assms(1) obtain i where i: "index_of LF h = Some i"
    and c: "copy_header_loop (drop (Suc i) h) name capacity = Some v"
    by (auto simp: copy_header_value_def split: option.splits)
  then have "drop (Suc i) h \<noteq> []" by (auto simp: copy_header_loop.simps)
  with assms(2) have "last (drop (Suc i) h) = LF" by simp
  from copy_header_loop_counted[OF c this] i show ?thesis by (simp add: header_count_def)
qed

lemma interpret_head_SomeD:
  assumes "interpret_head h = Some rh"
  shows "100 \<le> rh_status rh" "rh_status rh \<le> 599" "rh_status rh = parse_status h"
    "rh_content_length rh = (case copy_header_value h ''Content-Length'' 32 of
        Some t \<Rightarrow> parse_content_length (cstr t) | None \<Rightarrow> -1)"
    "rh_invalid_framing rh \<longleftrightarrow> header_count h ''Content-Length'' > 1
       \<or> (header_count h ''Content-Length'' = 1 \<and> rh_content_length rh < 0)
       \<or> header_count h ''Transfer-Encoding'' \<noteq> 0"
  using assms by (auto simp: interpret_head_def Let_def split: if_splits)

lemma content_length_range: "-1 \<le> parse_content_length t" "parse_content_length t \<le> LLONG_MAX"
proof -
  have m: "(-1::int) \<le> LLONG_MAX" by (simp add: LLONG_MAX_def)
  have "0 \<le> decimal_value t" if "list_all isdigit t"
    using digits_value_ge[of 0 10 "map digit_val t"] digit_vals_ok[OF that] by auto
  with m show "-1 \<le> parse_content_length t" "parse_content_length t \<le> LLONG_MAX"
    unfolding parse_content_length_eq by (auto simp: order_trans[of "-1" 0])
qed

text \<open>
  C17: body framing is unambiguous. Whenever a complete head (its last byte is the line feed of
  the empty line) is accepted without the invalid-framing mark, it has no \<open>Transfer-Encoding\<close>
  line, and either no \<open>Content-Length\<close> line at all (the recorded length is then -1, unknown) or
  exactly one, with a value that fits \<open>long long\<close>.
\<close>

theorem accepted_framing_unambiguous:
  assumes "interpret_head h = Some rh" and "last h = LF" and "\<not> rh_invalid_framing rh"
  shows "header_count h ''Transfer-Encoding'' = 0
     \<and> (header_count h ''Content-Length'' = 0 \<and> rh_content_length rh = -1
        \<or> header_count h ''Content-Length'' = 1 \<and> 0 \<le> rh_content_length rh
          \<and> rh_content_length rh \<le> LLONG_MAX)"
proof -
  note D = interpret_head_SomeD[OF assms(1)]
  have none: "rh_content_length rh = -1" if "header_count h ''Content-Length'' = 0"
    using D(4) copy_header_value_counted[of h "''Content-Length''" 32, OF _ assms(2)] that
    by (fastforce split: option.splits)
  have "rh_content_length rh \<le> LLONG_MAX"
    using D(4) content_length_range(2) by (auto simp: LLONG_MAX_def split: option.splits)
  with D(5) assms(3) none show ?thesis by (metis less_one not_less linorder_neqE_nat)
qed

definition sample_head :: bytes where
  "sample_head = ''HTTP/1.1 200 OK'' @ CRLF @ ''content-LENGTH:  12 '' @ CRLF @ ''X: y'' @ CRLF @ CRLF"

theorem accepted_framing_unambiguous_witness:
  "header_count sample_head ''Transfer-Encoding'' = 0
   \<and> rh_content_length (the (interpret_head sample_head)) = 12"
proof -
  obtain rh where 1: "interpret_head sample_head = Some rh" and 3: "\<not> rh_invalid_framing rh"
    and l: "rh_content_length rh = 12"
  proof -
    have "interpret_head sample_head \<noteq> None \<and> \<not> rh_invalid_framing (the (interpret_head sample_head))
      \<and> rh_content_length (the (interpret_head sample_head)) = 12" by code_simp
    with that show ?thesis by force
  qed
  have 2: "last sample_head = LF" by code_simp
  show ?thesis using accepted_framing_unambiguous[OF 1 2 3] 1 l by simp
qed

section \<open>Lookup in a rendered header list\<close>

text \<open>The wire form of a header list, and the headers that have one.\<close>

definition header_line :: "bytes \<times> bytes \<Rightarrow> bytes" where
  "header_line h = fst h @ '': '' @ snd h"

definition wf_header :: "bytes \<times> bytes \<Rightarrow> bool" where
  "wf_header h \<longleftrightarrow> CHR '':'' \<notin> set (fst h) \<and> LF \<notin> set (fst h) \<and> LF \<notin> set (snd h)
     \<and> (snd h = [] \<or> \<not> is_blank (hd (snd h)) \<and> \<not> is_blank (last (snd h)))"

fun render_headers :: "(bytes \<times> bytes) list \<Rightarrow> bytes" where
  "render_headers [] = CRLF"
| "render_headers (h # hs) = header_line h @ CRLF @ render_headers hs"

definition render_head :: "bytes \<Rightarrow> (bytes \<times> bytes) list \<Rightarrow> bytes" where
  "render_head status_line hs = status_line @ CRLF @ render_headers hs"

lemma line_CRLF:
  assumes "LF \<notin> set line"
  shows "index_of LF (line @ CRLF @ rest) = Some (Suc (length line))"
    and "trimmed_line (line @ CRLF @ rest) = line"
    and "after_line (line @ CRLF @ rest) = rest"
proof -
  show i: "index_of LF (line @ CRLF @ rest) = Some (Suc (length line))"
    using assms by (simp add: index_of_append)
  then show "trimmed_line (line @ CRLF @ rest) = line" "after_line (line @ CRLF @ rest) = rest"
    by (simp_all add: trimmed_line_def after_line_def line_length_at_def)
qed

lemma strcaseeq_length: "strcaseeq a b \<Longrightarrow> length a = length b"
  by (metis strcaseeq_def length_map)

lemma tolower_colon [simp]: "tolower c = CHR '':'' \<longleftrightarrow> c = CHR '':''"
  by (auto intro: tolower_eq_other simp: byte_val_def tolower_def)

lemma header_line_facts:
  assumes "wf_header h"
  shows "LF \<notin> set (header_line h)" "header_line h \<noteq> []"
    "index_of (CHR '':'') (header_line h) = Some (length (fst h))"
    "take (length (fst h)) (header_line h) = fst h"
  using assms by (auto simp: wf_header_def header_line_def)

lemma header_line_matches_iff:
  assumes "wf_header h"
  shows "header_line_matches (header_line h) name \<longleftrightarrow> strcaseeq (fst h) name"
  using header_line_facts(3,4)[OF assms] strcaseeq_length[of "fst h" name]
  by (auto simp: header_line_matches_def strncaseeq_def strcaseeq_def)

lemma rstrip_id: "v = [] \<or> \<not> P (last v) \<Longrightarrow> rstrip P v = v"
  by (cases v rule: rev_cases) (auto simp: rstrip_def)

lemma header_line_value:
  assumes "wf_header h" "length name = length (fst h)"
  shows "rstrip is_blank (dropWhile is_blank (drop (Suc (length name)) (header_line h))) = snd h"
proof -
  have "drop (Suc (length name)) (header_line h) = CHR '' '' # snd h"
    using assms(2) by (simp add: header_line_def)
  moreover have "dropWhile is_blank (CHR '' '' # snd h) = snd h"
    using assms(1) by (cases "snd h") (auto simp: wf_header_def is_blank_def)
  moreover have "rstrip is_blank (snd h) = snd h"
    using assms(1) by (auto simp: wf_header_def intro: rstrip_id)
  ultimately show ?thesis by simp
qed

lemma copy_header_loop_render:
  "\<forall>h \<in> set hs. wf_header h \<Longrightarrow>
   copy_header_loop (render_headers hs) name capacity =
     (case find (\<lambda>h. strcaseeq (fst h) name) hs of
        None \<Rightarrow> None
      | Some h \<Rightarrow> if snd h = [] \<or> capacity \<le> length (snd h) then None else Some (snd h))"
proof (induction hs)
  case Nil
  show ?case by (simp add: copy_header_loop.simps trimmed_line_def line_length_at_def)
next
  case (Cons h hs)
  let ?cur = "header_line h @ CRLF @ render_headers hs"
  have wf: "wf_header h" using Cons.prems by simp
  note H = header_line_facts[OF wf]
  note L = line_CRLF[OF H(1), of "render_headers hs"]
  have step: "copy_header_loop ?cur name capacity =
     (if strcaseeq (fst h) name
      then let value = rstrip is_blank (dropWhile is_blank (drop (Suc (length name)) (header_line h)))
           in if value = [] \<or> capacity \<le> length value then None else Some value
      else copy_header_loop (render_headers hs) name capacity)"
    by (subst copy_header_loop.simps) (simp only: L H header_line_matches_iff[OF wf] Let_def if_False
        append_is_Nil_conv simp_thms)
  show ?case
  proof (cases "strcaseeq (fst h) name")
    case True
    with step header_line_value[OF wf, of name] strcaseeq_length[OF True] show ?thesis by simp
  next
    case False
    with step Cons show ?thesis by simp
  qed
qed

lemma counted_iff:
  assumes "wf_header h" "CHR '':'' \<notin> set name"
  shows "length name < Suc (length (header_line h))
          \<and> (header_line h @ CRLF @ rest) ! length name = CHR '':''
          \<and> strncaseeq (length name) (header_line h @ CRLF @ rest) name \<longleftrightarrow> strcaseeq (fst h) name"
    (is "?L \<longleftrightarrow> ?R")
proof
  let ?w = "header_line h @ CRLF @ rest"
  have colon: "index_of (CHR '':'') ?w = Some (length (fst h))"
    using header_line_facts(3)[OF assms(1)] by (simp add: index_of_append)
  have pre: "take (length (fst h)) ?w = fst h" by (simp add: header_line_def)
  { assume ?R
    note len = strcaseeq_length[OF \<open>?R\<close>]
    have "length name < Suc (length (header_line h))" using len by (simp add: header_line_def)
    with index_of_SomeD(2)[OF colon] pre len \<open>?R\<close> show ?L
      by (simp add: strncaseeq_def strcaseeq_def)
  next
    assume L: ?L
    then have lower: "map tolower (take (length name) ?w) = map tolower name"
      by (simp add: strncaseeq_def del: take_append)
    have colons: "CHR '':'' \<in> set (map tolower xs) \<longleftrightarrow> CHR '':'' \<in> set xs" for xs
      by (induction xs) (auto simp: eq_commute[of "CHR '':''"])
    have "CHR '':'' \<notin> set (take (length name) ?w)"
      using assms(2) colons[of name] colons[of "take (length name) ?w"] lower by metis
    then have "index_of (CHR '':'') ?w = Some (length name)"
      using L by (simp add: index_of_Some_iff)
    with colon pre lower show ?R by (simp add: strcaseeq_def del: take_append) }
qed

lemma header_count_loop_render:
  assumes "CHR '':'' \<notin> set name"
  shows "\<forall>h \<in> set hs. wf_header h \<Longrightarrow>
   header_count_loop (render_headers hs) name = length (filter (\<lambda>h. strcaseeq (fst h) name) hs)"
proof (induction hs)
  case Nil
  show ?case by (auto simp: header_count_loop.simps)
next
  case (Cons h hs)
  let ?rest = "render_headers hs"
  have wf: "wf_header h" using Cons.prems by simp
  note H = header_line_facts[OF wf]
  have "header_count_loop (header_line h @ CRLF @ ?rest) name =
      (if strcaseeq (fst h) name then 1 else 0) + header_count_loop ?rest name"
    unfolding counted_iff[OF wf assms, of ?rest, symmetric]
    by (subst header_count_loop.simps) (simp add: line_CRLF(1)[OF H(1), simplified] H(2))
  with Cons show ?case by simp
qed

text \<open>
  header lookup. On the wire form of any list of well-formed headers,
  \<open>copy_header_value\<close> returns the value of the first header whose name equals the wanted one up to
  case (and fails when there is none, its value is empty or does not fit the buffer with its
  terminator), and \<open>header_count\<close> is the number of headers of that name.
\<close>

theorem header_lookup_correct:
  assumes "\<forall>h \<in> set hs. wf_header h" and "LF \<notin> set status_line" and "CHR '':'' \<notin> set name"
  shows "copy_header_value (render_head status_line hs) name capacity =
           (case find (\<lambda>h. strcaseeq (fst h) name) hs of
              None \<Rightarrow> None
            | Some h \<Rightarrow> if snd h = [] \<or> capacity \<le> length (snd h) then None else Some (snd h))
     \<and> header_count (render_head status_line hs) name =
           length (filter (\<lambda>h. strcaseeq (fst h) name) hs)"
  using line_CRLF(1)[OF assms(2), of "render_headers hs"]
    copy_header_loop_render[OF assms(1), of name capacity]
    header_count_loop_render[OF assms(3,1)]
  by (simp add: copy_header_value_def header_count_def render_head_def)

theorem header_lookup_correct_witness:
  "copy_header_value (render_head ''HTTP/1.0 302 Found'' [(''Server'', ''x''), (''LOCATION'', ''/b'')]) ''Location'' 4096
     = Some ''/b''"
proof -
  have 1: "\<forall>h \<in> set [(''Server'', ''x''), (''LOCATION'', ''/b'')]. wf_header h" by code_simp
  have 2: "LF \<notin> set ''HTTP/1.0 302 Found''" "CHR '':'' \<notin> set ''Location''" by code_simp+
  have 3: "find (\<lambda>h. strcaseeq (fst h) ''Location'') [(''Server'', ''x''), (''LOCATION'', ''/b'')] =
    Some (''LOCATION'', ''/b'')" by code_simp
  show ?thesis using header_lookup_correct[OF 1 2, of 4096] 3 by simp
qed

end
