(* ===== verification/Icu_Utf8.thy ===== *)
theory Icu_Utf8
  imports Prelude
begin

text \<open>
  UTF-8 at both ends of ICU: \<open>valid_utf8_bytes\<close> of \<open>native/transport.c\<close>, which classifies a
  captured body, and the conversion of a Java string (UTF-16 code units) into UTF-8 bytes of
  \<open>android/jni_transport.c\<close>. The reference is the encoding of a list of Unicode scalar values.
  A \<open>uint32_t\<close> code point is a 32-bit word and a \<open>jchar\<close> a 16-bit word; the wrap-around of the
  subtractions in the surrogate formula is that of the words.
\<close>

unbundle bit_operations_syntax

section \<open>The validator\<close>

definition continuation :: "char \<Rightarrow> bool" where
  "continuation b \<longleftrightarrow> 0x80 \<le> byte_val b \<and> byte_val b \<le> 0xBF"

fun valid_utf8_bytes :: "bytes \<Rightarrow> bool" where
  "valid_utf8_bytes [] = True"
| "valid_utf8_bytes (first # rest) =
     (if byte_val first \<le> 0x7F then valid_utf8_bytes rest
      else if 0xC2 \<le> byte_val first \<and> byte_val first \<le> 0xDF then
        (case rest of [] \<Rightarrow> False | second # rest' \<Rightarrow> continuation second \<and> valid_utf8_bytes rest')
      else if 0xE0 \<le> byte_val first \<and> byte_val first \<le> 0xEF then
        (case rest of
           second # third # rest' \<Rightarrow>
             (if \<not> continuation third then False
              else if byte_val first = 0xE0 then
                0xA0 \<le> byte_val second \<and> byte_val second \<le> 0xBF \<and> valid_utf8_bytes rest'
              else if byte_val first = 0xED then
                0x80 \<le> byte_val second \<and> byte_val second \<le> 0x9F \<and> valid_utf8_bytes rest'
              else continuation second \<and> valid_utf8_bytes rest')
         | _ \<Rightarrow> False)
      else if 0xF0 \<le> byte_val first \<and> byte_val first \<le> 0xF4 then
        (case rest of
           second # third # fourth # rest' \<Rightarrow>
             (if \<not> continuation third \<or> \<not> continuation fourth then False
              else if byte_val first = 0xF0 then
                0x90 \<le> byte_val second \<and> byte_val second \<le> 0xBF \<and> valid_utf8_bytes rest'
              else if byte_val first = 0xF4 then
                0x80 \<le> byte_val second \<and> byte_val second \<le> 0x8F \<and> valid_utf8_bytes rest'
              else continuation second \<and> valid_utf8_bytes rest')
         | _ \<Rightarrow> False)
      else False)"

section \<open>Java strings\<close>

text \<open>
  \<open>append_code_point\<close> writes at \<open>*length\<close> in a buffer of \<open>capacity\<close> bytes; the buffer is the list
  of the bytes written so far, \<open>None\<close> is the return value 0.
\<close>

definition narrow :: "32 word \<Rightarrow> char" where
  "narrow w = char_of (unat w)"

definition append_code_point :: "bytes \<Rightarrow> nat \<Rightarrow> 32 word \<Rightarrow> bytes option" where
  "append_code_point output capacity code_point =
     (if code_point \<le> 0x7F then
        (if capacity \<le> length output + 1 then None else Some (output @ [narrow code_point]))
      else if code_point \<le> 0x7FF then
        (if capacity \<le> length output + 2 then None
         else Some (output @ [narrow (0xC0 OR drop_bit 6 code_point),
                              narrow (0x80 OR (code_point AND 0x3F))]))
      else if code_point \<le> 0xFFFF then
        (if capacity \<le> length output + 3 then None
         else Some (output @ [narrow (0xE0 OR drop_bit 12 code_point),
                              narrow (0x80 OR (drop_bit 6 code_point AND 0x3F)),
                              narrow (0x80 OR (code_point AND 0x3F))]))
      else if code_point \<le> 0x10FFFF then
        (if capacity \<le> length output + 4 then None
         else Some (output @ [narrow (0xF0 OR drop_bit 18 code_point),
                              narrow (0x80 OR (drop_bit 12 code_point AND 0x3F)),
                              narrow (0x80 OR (drop_bit 6 code_point AND 0x3F)),
                              narrow (0x80 OR (code_point AND 0x3F))]))
      else None)"

fun utf16_loop :: "16 word list \<Rightarrow> nat \<Rightarrow> bytes \<Rightarrow> bytes option" where
  "utf16_loop [] capacity output = Some output"
| "utf16_loop (u # us) capacity output =
     (let code_point = (ucast u :: 32 word)
      in if 0xD800 \<le> code_point \<and> code_point \<le> 0xDBFF then
           (case us of
              [] \<Rightarrow> None
            | l # us' \<Rightarrow>
                (let low = (ucast l :: 32 word)
                 in if low < 0xDC00 \<or> 0xDFFF < low then None
                    else case append_code_point output capacity
                                (0x10000 + push_bit 10 (code_point - 0xD800) + (low - 0xDC00)) of
                           None \<Rightarrow> None
                         | Some output' \<Rightarrow> utf16_loop us' capacity output'))
         else if 0xDC00 \<le> code_point \<and> code_point \<le> 0xDFFF then None
         else case append_code_point output capacity code_point of
                None \<Rightarrow> None
              | Some output' \<Rightarrow> utf16_loop us capacity output')"

text \<open>
  \<open>value\<close> is \<open>None\<close> for a null reference; \<open>chars_ok\<close> and \<open>malloc_ok\<close> are the answers of
  \<open>GetStringChars\<close> and of the allocator.
\<close>

definition jstring_to_utf8 :: "16 word list option \<Rightarrow> bool \<Rightarrow> bool \<Rightarrow> bytes option" where
  "jstring_to_utf8 value chars_ok malloc_ok =
     (case value of
        None \<Rightarrow> None
      | Some units \<Rightarrow>
          (if \<not> chars_ok then None
           else if \<not> malloc_ok then None
           else utf16_loop units (length units * 4 + 1) []))"

section \<open>Reference: scalar values and their encoding\<close>

definition scalar_value :: "nat \<Rightarrow> bool" where
  "scalar_value cp \<longleftrightarrow> cp < 0xD800 \<or> (0xE000 \<le> cp \<and> cp \<le> 0x10FFFF)"

definition utf8_encode :: "nat \<Rightarrow> bytes" where
  "utf8_encode cp =
     map char_of
       (if cp < 0x80 then [cp]
        else if cp < 0x800 then [0xC0 + cp div 64, 0x80 + cp mod 64]
        else if cp < 0x10000 then [0xE0 + cp div 4096, 0x80 + cp div 64 mod 64, 0x80 + cp mod 64]
        else [0xF0 + cp div 262144, 0x80 + cp div 4096 mod 64, 0x80 + cp div 64 mod 64, 0x80 + cp mod 64])"

definition utf8_encode_all :: "nat list \<Rightarrow> bytes" where
  "utf8_encode_all cps = concat (map utf8_encode cps)"

fun utf16_decode :: "nat list \<Rightarrow> nat list option" where
  "utf16_decode [] = Some []"
| "utf16_decode (u # us) =
     (if 0xD800 \<le> u \<and> u \<le> 0xDBFF then
        (case us of
           [] \<Rightarrow> None
         | l # us' \<Rightarrow>
             (if 0xDC00 \<le> l \<and> l \<le> 0xDFFF
              then map_option ((#) (0x10000 + (u - 0xD800) * 1024 + (l - 0xDC00))) (utf16_decode us')
              else None))
      else if 0xDC00 \<le> u \<and> u \<le> 0xDFFF then None
      else map_option ((#) u) (utf16_decode us))"

section \<open>The validator accepts exactly the encodings\<close>

lemma valid_two:
  fixes a b :: nat
  assumes "0xC2 \<le> a" "a \<le> 0xDF" "0x80 \<le> b" "b \<le> 0xBF"
  shows "valid_utf8_bytes (char_of a # char_of b # rest) = valid_utf8_bytes rest"
  using assms by (simp add: continuation_def)

lemma valid_three:
  fixes a b c :: nat
  assumes "0xE0 \<le> a" "a \<le> 0xEF" "0x80 \<le> b" "b \<le> 0xBF" "0x80 \<le> c" "c \<le> 0xBF"
    "a = 0xE0 \<Longrightarrow> 0xA0 \<le> b" "a = 0xED \<Longrightarrow> b \<le> 0x9F"
  shows "valid_utf8_bytes (char_of a # char_of b # char_of c # rest) = valid_utf8_bytes rest"
  using assms by (simp add: continuation_def)

lemma valid_four:
  fixes a b c d :: nat
  assumes "0xF0 \<le> a" "a \<le> 0xF4" "0x80 \<le> b" "b \<le> 0xBF" "0x80 \<le> c" "c \<le> 0xBF" "0x80 \<le> d" "d \<le> 0xBF"
    "a = 0xF0 \<Longrightarrow> 0x90 \<le> b" "a = 0xF4 \<Longrightarrow> b \<le> 0x8F"
  shows "valid_utf8_bytes (char_of a # char_of b # char_of c # char_of d # rest) = valid_utf8_bytes rest"
  using assms by (simp add: continuation_def)

lemma split64: "(cp::nat) = cp div 64 * 64 + cp mod 64" "cp mod 64 \<le> 63"
  using mod_less_divisor[of 64 cp] by (simp, linarith)

lemma div_4096: "(cp::nat) div 4096 = cp div 64 div 64"
  by (simp add: div_mult2_eq)

lemma div_262144: "(cp::nat) div 262144 = cp div 64 div 64 div 64"
  by (simp add: div_mult2_eq)

lemma valid_encode_append:
  assumes "scalar_value cp"
  shows "valid_utf8_bytes (utf8_encode cp @ rest) = valid_utf8_bytes rest"
proof -
  let ?c = "cp mod 64" let ?q = "cp div 64" let ?b = "?q mod 64" let ?p = "?q div 64"
  let ?e = "?p mod 64" let ?f = "?p div 64"
  note f = split64[of cp] split64[of ?q] split64[of ?p]
  consider "cp < 0x80" | "0x80 \<le> cp" "cp < 0x800" | "0x800 \<le> cp" "cp < 0x10000" "cp < 0xD800 \<or> 0xE000 \<le> cp"
    | "0x10000 \<le> cp" "cp \<le> 0x10FFFF"
    using assms unfolding scalar_value_def by linarith
  then show ?thesis
  proof cases
    case 1
    then show ?thesis by (simp add: utf8_encode_def)
  next
    case 2
    have e: "utf8_encode cp @ rest = char_of (0xC0 + ?q) # char_of (0x80 + ?c) # rest"
      using 2 by (simp add: utf8_encode_def)
    have "2 \<le> ?q" "?q < 32" using 2 f(1,2) by linarith+
    then show ?thesis unfolding e using f(2) by (intro valid_two) linarith+
  next
    case 3
    have e: "utf8_encode cp @ rest = char_of (0xE0 + ?p) # char_of (0x80 + ?b) # char_of (0x80 + ?c) # rest"
      using 3 by (simp add: utf8_encode_def div_4096)
    have "?p \<le> 15" using 3 f by linarith
    moreover have "?p = 0 \<Longrightarrow> 32 \<le> ?b" using 3 f by linarith
    moreover have "?p = 13 \<Longrightarrow> ?b < 32" using 3 f by linarith
    ultimately show ?thesis unfolding e using f(2,4) by (intro valid_three) linarith+
  next
    case 4
    have e: "utf8_encode cp @ rest
        = char_of (0xF0 + ?f) # char_of (0x80 + ?e) # char_of (0x80 + ?b) # char_of (0x80 + ?c) # rest"
      using 4 by (simp add: utf8_encode_def div_4096 div_262144)
    have "?f \<le> 4" using 4 f by linarith
    moreover have "?f = 0 \<Longrightarrow> 16 \<le> ?e" using 4 f by linarith
    moreover have "?f = 4 \<Longrightarrow> ?e < 16" using 4 f by linarith
    ultimately show ?thesis unfolding e using f(2,4,6) by (intro valid_four) linarith+
  qed
qed

lemma valid_encode_all: "list_all scalar_value cps \<Longrightarrow> valid_utf8_bytes (utf8_encode_all cps)"
  by (induction cps) (auto simp: utf8_encode_all_def valid_encode_append)

text \<open>Each accepted sequence of the validator is the encoding of one scalar value.\<close>

lemma glue64: "z < 64 \<Longrightarrow> (y * 64 + z) div 64 = (y::nat)" "z < 64 \<Longrightarrow> (y * 64 + z) mod 64 = (z::nat)"
  by simp_all

definition encodes :: "bytes \<Rightarrow> bool" where
  "encodes bs \<longleftrightarrow> (\<exists>cps. list_all scalar_value cps \<and> bs = utf8_encode_all cps)"

lemma encodes_prefix:
  assumes "scalar_value cp" "utf8_encode cp = xs" "encodes rest"
  shows "encodes (xs @ rest)"
proof -
  from assms obtain cps where "list_all scalar_value (cp # cps)" "rest = utf8_encode_all cps"
    by (auto simp: encodes_def)
  with assms(2) have "xs @ rest = utf8_encode_all (cp # cps)" by (simp add: utf8_encode_all_def)
  with \<open>list_all scalar_value (cp # cps)\<close> show ?thesis unfolding encodes_def by blast
qed

lemma encodes_one:
  fixes a :: nat
  assumes "a < 0x80" "encodes rest" shows "encodes (char_of a # rest)"
  using assms encodes_prefix[of a "[char_of a]" rest] by (simp add: scalar_value_def utf8_encode_def)

lemma encodes_two:
  fixes x y :: nat
  assumes "2 \<le> x" "x < 32" "y < 64" "encodes rest"
  shows "encodes (char_of (0xC0 + x) # char_of (0x80 + y) # rest)"
proof -
  let ?cp = "x * 64 + y"
  have "\<not> ?cp < 0x80" "?cp < 0x800" using assms by linarith+
  then have "scalar_value ?cp" "utf8_encode ?cp = [char_of (0xC0 + x), char_of (0x80 + y)]"
    using assms(3) by (simp_all add: scalar_value_def utf8_encode_def glue64)
  from encodes_prefix[OF this assms(4)] show ?thesis by simp
qed

lemma encodes_three:
  fixes x y z :: nat
  assumes "x < 16" "y < 64" "z < 64" "x = 0 \<Longrightarrow> 32 \<le> y" "x = 13 \<Longrightarrow> y < 32" "encodes rest"
  shows "encodes (char_of (0xE0 + x) # char_of (0x80 + y) # char_of (0x80 + z) # rest)"
proof -
  let ?cp = "(x * 64 + y) * 64 + z"
  have r: "\<not> ?cp < 0x80" "\<not> ?cp < 0x800" "?cp < 0x10000"
    using assms(1-3) assms(4) by (cases "x = 0"; simp; linarith?)+
  have "x < 13 \<or> x = 13 \<or> 13 < x" by linarith
  then have "?cp < 0xD800 \<or> 0xE000 \<le> ?cp" using assms(1-3) assms(5)
    by (elim disjE; simp; linarith?)
  then have s: "scalar_value ?cp" using r unfolding scalar_value_def by linarith
  have "utf8_encode ?cp = [char_of (0xE0 + x), char_of (0x80 + y), char_of (0x80 + z)]"
    unfolding utf8_encode_def div_4096 glue64[OF assms(3)] glue64[OF assms(2)] using r by simp
  from encodes_prefix[OF s this assms(6)] show ?thesis by simp
qed

lemma encodes_four:
  fixes x y z w :: nat
  assumes "x \<le> 4" "y < 64" "z < 64" "w < 64" "x = 0 \<Longrightarrow> 16 \<le> y" "x = 4 \<Longrightarrow> y < 16" "encodes rest"
  shows "encodes (char_of (0xF0 + x) # char_of (0x80 + y) # char_of (0x80 + z) # char_of (0x80 + w) # rest)"
proof -
  let ?cp = "((x * 64 + y) * 64 + z) * 64 + w"
  have r: "\<not> ?cp < 0x80" "\<not> ?cp < 0x800" "\<not> ?cp < 0x10000"
    using assms(1-4) assms(5) by (cases "x = 0"; simp; linarith?)+
  have "x < 4 \<or> x = 4" using assms(1) by linarith
  then have "?cp \<le> 0x10FFFF" using assms(2-4) assms(6)
    by (elim disjE; simp; linarith?)
  then have s: "scalar_value ?cp" using r unfolding scalar_value_def by linarith
  have "utf8_encode ?cp = [char_of (0xF0 + x), char_of (0x80 + y), char_of (0x80 + z), char_of (0x80 + w)]"
    unfolding utf8_encode_def div_4096 div_262144 glue64[OF assms(4)] glue64[OF assms(3)] glue64[OF assms(2)]
    using r by simp
  from encodes_prefix[OF s this assms(7)] show ?thesis by simp
qed

lemma byte_offset:
  assumes "k \<le> byte_val b" obtains x :: nat where "b = char_of (k + x)" "byte_val b = k + x"
  using assms that[of "byte_val b - k"] by simp

lemma continuation_offset:
  assumes "continuation b" obtains x :: nat where "b = char_of (0x80 + x)" "byte_val b = 0x80 + x" "x < 64"
  using assms that[of "byte_val b - 0x80"] by (auto simp: continuation_def)

lemma valid_imp_encoding: "valid_utf8_bytes bs \<Longrightarrow> encodes bs"
proof (induction bs rule: length_induct)
  case (1 bs)
  then have IH: "\<And>r. length r < length bs \<Longrightarrow> valid_utf8_bytes r \<Longrightarrow> encodes r" by blast
  consider (nil) "bs = []" | (one) f r where "byte_val f \<le> 0x7F" "bs = f # r" "valid_utf8_bytes r"
    | (two) f s r where "0xC2 \<le> byte_val f" "byte_val f \<le> 0xDF" "bs = f # s # r" "continuation s" "valid_utf8_bytes r"
    | (three) f s t r where "0xE0 \<le> byte_val f" "byte_val f \<le> 0xEF" "bs = f # s # t # r" "continuation s"
        "continuation t" "byte_val f = 0xE0 \<longrightarrow> 0xA0 \<le> byte_val s" "byte_val f = 0xED \<longrightarrow> byte_val s \<le> 0x9F"
        "valid_utf8_bytes r"
    | (four) f s t q r where "0xF0 \<le> byte_val f" "byte_val f \<le> 0xF4" "bs = f # s # t # q # r" "continuation s"
        "continuation t" "continuation q" "byte_val f = 0xF0 \<longrightarrow> 0x90 \<le> byte_val s"
        "byte_val f = 0xF4 \<longrightarrow> byte_val s \<le> 0x8F" "valid_utf8_bytes r"
    using "1.prems" by (cases bs rule: valid_utf8_bytes.cases) (auto simp: continuation_def split: if_splits list.splits)
  then show ?case
  proof cases
    case nil
    then show ?thesis unfolding encodes_def by (intro exI[of _ "[]"]) (simp add: utf8_encode_all_def)
  next
    case one
    with encodes_one[of "byte_val f" r] IH[of r] show ?thesis by simp
  next
    case two
    from two(1) obtain x :: nat where x: "f = char_of (0xC2 + x)" "byte_val f = 0xC2 + x" by (rule byte_offset)
    from two(4) obtain y :: nat where y: "s = char_of (0x80 + y)" "y < 64" by (rule continuation_offset)
    from encodes_two[of "2 + x" y r] IH[of r] two x y show ?thesis by simp
  next
    case three
    from three(1) obtain x :: nat where x: "f = char_of (0xE0 + x)" "byte_val f = 0xE0 + x" by (rule byte_offset)
    from three(4) obtain y :: nat where y: "s = char_of (0x80 + y)" "byte_val s = 0x80 + y" "y < 64" by (rule continuation_offset)
    from three(5) obtain z :: nat where z: "t = char_of (0x80 + z)" "z < 64" by (rule continuation_offset)
    have "encodes r" using IH[of r] three by simp
    then show ?thesis unfolding three(3) x(1) y(1) z(1) using three(2,6,7) x(2) y(2,3) z(2)
      by (intro encodes_three) auto
  next
    case four
    from four(1) obtain x :: nat where x: "f = char_of (0xF0 + x)" "byte_val f = 0xF0 + x" by (rule byte_offset)
    from four(4) obtain y :: nat where y: "s = char_of (0x80 + y)" "byte_val s = 0x80 + y" "y < 64" by (rule continuation_offset)
    from four(5) obtain z :: nat where z: "t = char_of (0x80 + z)" "z < 64" by (rule continuation_offset)
    from four(6) obtain w :: nat where w: "q = char_of (0x80 + w)" "w < 64" by (rule continuation_offset)
    have "encodes r" using IH[of r] four by simp
    then show ?thesis unfolding four(3) x(1) y(1) z(1) w(1) using four(2,7,8) x(2) y(2,3) z(2) w(2)
      by (intro encodes_four) auto
  qed
qed

text \<open>
  C15: the validator is exact. \<open>valid_utf8_bytes\<close> accepts a byte string exactly when it is the
  concatenation of the UTF-8 encodings of Unicode scalar values: no overlong form, no surrogate,
  nothing above U+10FFFF and no truncated sequence passes, and every proper encoding does.
\<close>

theorem valid_utf8_bytes_exact:
  "valid_utf8_bytes bs \<longleftrightarrow> (\<exists>cps. list_all scalar_value cps \<and> bs = utf8_encode_all cps)"
  using valid_imp_encoding valid_encode_all unfolding encodes_def by blast

section \<open>The conversion of a Java string\<close>

lemma or_high_low:
  fixes x :: nat
  assumes "x < 2 ^ n" shows "push_bit n k OR x = push_bit n k + x"
proof -
  have "push_bit n k AND take_bit n x = 0" by (rule bit_eqI) (auto simp: bit_simps)
  moreover have "take_bit n x = x" using assms by (simp add: take_bit_nat_eq_self)
  ultimately show ?thesis by (simp add: disjunctive_add_eq_or)
qed

lemma unat_and_3F: "unat ((w :: 32 word) AND 0x3F) = unat w mod 64"
proof -
  have "unat w AND 0x3F = take_bit 6 (unat w)" by (simp add: take_bit_eq_mask mask_eq_exp_minus_1)
  then show ?thesis by (simp add: unsigned_and_eq take_bit_eq_mod)
qed

lemma unat_drop: "unat (drop_bit n (w :: 32 word)) = unat w div 2 ^ n"
proof -
  have "unat w < 2 ^ 32" using unsigned_less[of w] by simp
  then have "take_bit 32 (unat w) = unat w" by (simp add: take_bit_nat_eq_self)
  then have "unat (drop_bit n w) = drop_bit n (unat w)" by (simp only: unsigned_drop_bit_eq) simp
  then show ?thesis by (simp only: drop_bit_eq_div)
qed

lemma narrow_tail: "narrow (0x80 OR (w AND 0x3F)) = char_of (0x80 + unat w mod 64)"
proof -
  have "unat (0x80 OR (w AND 0x3F)) = push_bit 6 2 OR (unat w mod 64)"
    by (simp add: unsigned_or_eq unat_and_3F push_bit_eq_mult)
  also have "\<dots> = 0x80 + unat w mod 64" by (subst or_high_low) (simp_all add: push_bit_eq_mult)
  finally show ?thesis by (simp add: narrow_def)
qed
lemma narrow_C0: "unat w < 32 \<Longrightarrow> narrow (0xC0 OR w) = char_of (0xC0 + unat w)"
  using or_high_low[of "unat w" 5 6] by (simp add: narrow_def unsigned_or_eq push_bit_eq_mult)
lemma narrow_E0: "unat w < 16 \<Longrightarrow> narrow (0xE0 OR w) = char_of (0xE0 + unat w)"
  using or_high_low[of "unat w" 4 14] by (simp add: narrow_def unsigned_or_eq push_bit_eq_mult)
lemma narrow_F0: "unat w < 8 \<Longrightarrow> narrow (0xF0 OR w) = char_of (0xF0 + unat w)"
  using or_high_low[of "unat w" 3 30] by (simp add: narrow_def unsigned_or_eq push_bit_eq_mult)


lemma append_code_point_encode:
  assumes "unat cp \<le> 0x10FFFF"
  shows "append_code_point output capacity cp =
     (if capacity \<le> length output + length (utf8_encode (unat cp)) then None
      else Some (output @ utf8_encode (unat cp)))"
proof -
  let ?n = "unat cp"
  have le: "cp \<le> 0x7F \<longleftrightarrow> ?n < 0x80" "cp \<le> 0x7FF \<longleftrightarrow> ?n < 0x800" "cp \<le> 0xFFFF \<longleftrightarrow> ?n < 0x10000" "cp \<le> 0x10FFFF"
    using assms by (simp_all add: word_le_nat_alt less_Suc_eq_le[symmetric])
  note narrows = narrow_tail narrow_C0 narrow_E0 narrow_F0 unat_drop
  consider "?n < 0x80" | "0x80 \<le> ?n" "?n < 0x800" | "0x800 \<le> ?n" "?n < 0x10000" | "0x10000 \<le> ?n" by linarith
  then show ?thesis
  proof cases
    case 1
    then show ?thesis by (simp add: append_code_point_def le utf8_encode_def narrow_def)
  next
    case 2
    then have "?n div 64 < 32" by (simp add: less_mult_imp_div_less)
    with 2 show ?thesis by (simp add: append_code_point_def le utf8_encode_def narrows)
  next
    case 3
    then have "?n div 4096 < 16" by (simp add: less_mult_imp_div_less)
    with 3 show ?thesis by (simp add: append_code_point_def le utf8_encode_def narrows)
  next
    case 4
    then have "?n div 262144 < 8" using assms by (simp add: less_mult_imp_div_less)
    with 4 show ?thesis by (simp add: append_code_point_def le utf8_encode_def narrows)
  qed
qed

lemma length_utf8_encode: "length (utf8_encode cp) \<le> 4"
  by (simp add: utf8_encode_def)

lemma surrogate_value:
  fixes u l :: "16 word"
  assumes "0xD800 \<le> unat u" "unat u \<le> 0xDBFF" "0xDC00 \<le> unat l" "unat l \<le> 0xDFFF"
  shows "unat (0x10000 + push_bit 10 (ucast u - 0xD800) + (ucast l - 0xDC00) :: 32 word)
       = 0x10000 + (unat u - 0xD800) * 1024 + (unat l - 0xDC00)"
proof -
  have u: "unat (ucast u - 0xD800 :: 32 word) = unat u - 0xD800"
    using assms by (subst unat_sub) (simp_all add: word_le_nat_alt unsigned_ucast_eq take_bit_nat_eq_self)
  have l: "unat (ucast l - 0xDC00 :: 32 word) = unat l - 0xDC00"
    using assms by (subst unat_sub) (simp_all add: word_le_nat_alt unsigned_ucast_eq take_bit_nat_eq_self)
  define x :: "32 word" where "x = ucast u - 0xD800"
  have "unat x * 1024 < 2 ^ 32" using assms by (simp add: x_def u)
  then have "unat (x * 1024) = unat x * 1024" by (simp add: unat_word_ariths)
  then have p: "unat (push_bit 10 x) = (unat u - 0xD800) * 1024"
    using u by (simp add: push_bit_eq_mult x_def[symmetric])
  have "unat (0x10000 + push_bit 10 x + (ucast l - 0xDC00) :: 32 word)
      = 0x10000 + unat (push_bit 10 x) + unat (ucast l - 0xDC00 :: 32 word)"
    using assms unfolding unat_word_ariths p l by simp
  then show ?thesis unfolding x_def[symmetric] p l .
qed

lemma unat_16_less: "unat (u :: 16 word) < 65536"
  using unsigned_less[of u] by simp

lemma unat_ucast_16_32: "unat (ucast (u :: 16 word) :: 32 word) = unat u"
  using unat_16_less[of u] by (simp add: unsigned_ucast_eq take_bit_nat_eq_self)

lemma utf16_loop_decode:
  assumes "length buf + 4 * length us < capacity"
  shows "utf16_loop us capacity buf
       = map_option (\<lambda>cps. buf @ utf8_encode_all cps) (utf16_decode (map unat us))"
  using assms
proof (induction us capacity buf rule: utf16_loop.induct)
  case (1 capacity buf)
  then show ?case by (simp add: utf8_encode_all_def)
next
  case (2 u us capacity buf)
  have cmp: "0xD800 \<le> (ucast u :: 32 word) \<longleftrightarrow> 0xD800 \<le> unat u" "(ucast u :: 32 word) \<le> 0xDBFF \<longleftrightarrow> unat u \<le> 0xDBFF"
    "0xDC00 \<le> (ucast u :: 32 word) \<longleftrightarrow> 0xDC00 \<le> unat u" "(ucast u :: 32 word) \<le> 0xDFFF \<longleftrightarrow> unat u \<le> 0xDFFF" for u :: "16 word"
    by (simp_all add: word_le_nat_alt unat_ucast_16_32)
  have append: "append_code_point buf capacity cp = Some (buf @ utf8_encode (unat cp))"
    if "unat cp \<le> 0x10FFFF" for cp
    using "2.prems" length_utf8_encode[of "unat cp"] append_code_point_encode[OF that, of buf capacity] by simp
  show ?case
  proof (cases "0xD800 \<le> unat u \<and> unat u \<le> 0xDBFF")
    case pair: True
    show ?thesis
    proof (cases us)
      case Nil
      with pair show ?thesis by (simp add: cmp)
    next
      case (Cons l us')
      show ?thesis
      proof (cases "0xDC00 \<le> unat l \<and> unat l \<le> 0xDFFF")
        case True
        define cp :: "32 word" where "cp = 0x10000 + push_bit 10 (ucast u - 0xD800) + (ucast l - 0xDC00)"
        have v: "unat cp = 0x10000 + (unat u - 0xD800) * 1024 + (unat l - 0xDC00)"
          unfolding cp_def using surrogate_value[of u l] pair True by blast
        then have "unat cp \<le> 0x10FFFF" using pair True by linarith
        note a = append[OF this]
        have IH: "utf16_loop us' capacity (buf @ utf8_encode (unat cp))
            = map_option (\<lambda>cps. (buf @ utf8_encode (unat cp)) @ utf8_encode_all cps) (utf16_decode (map unat us'))"
          using "2.prems" Cons length_utf8_encode[of "unat cp"] pair True a
          by (intro "2.IH"(1)[OF refl _ Cons refl]) (simp_all add: cmp linorder_not_le[symmetric] cp_def[symmetric])
        show ?thesis using Cons pair True a IH
          by (simp add: cmp linorder_not_le[symmetric] cp_def[symmetric] v utf8_encode_all_def option.map_comp comp_def)
      next
        case False
        with Cons pair show ?thesis by (auto simp: cmp linorder_not_le[symmetric])
      qed
    qed
  next
    case False
    show ?thesis
    proof (cases "0xDC00 \<le> unat u \<and> unat u \<le> 0xDFFF")
      case True
      with False show ?thesis by (simp add: cmp)
    next
      case F2: False
      have "unat (ucast u :: 32 word) \<le> 0x10FFFF" using unat_16_less[of u] by (simp add: unat_ucast_16_32)
      note a = append[OF this]
      have IH: "utf16_loop us capacity (buf @ utf8_encode (unat u))
            = map_option (\<lambda>cps. (buf @ utf8_encode (unat u)) @ utf8_encode_all cps) (utf16_decode (map unat us))"
        using "2.prems" length_utf8_encode[of "unat u"] False F2 a
        by (intro "2.IH"(2)[OF refl]) (simp_all add: cmp unat_ucast_16_32)
      show ?thesis using a IH
        by (simp add: cmp False F2 unat_ucast_16_32 utf8_encode_all_def option.map_comp comp_def)
    qed
  qed
qed

lemma utf16_decode_scalars: "utf16_decode us = Some cps \<Longrightarrow> list_all (\<lambda>u. u < 65536) us \<Longrightarrow> list_all scalar_value cps"
  by (induction us arbitrary: cps rule: utf16_decode.induct)
     (auto simp: scalar_value_def split: if_splits list.splits)

text \<open>
  C16: the conversion of a Java string is exact. When the runtime hands over the characters and the
  buffer is allocated, \<open>jstring_to_utf8\<close> produces the UTF-8 encoding of the scalar values the UTF-16
  units denote, and fails exactly when the units hold an unpaired surrogate. The buffer of four bytes
  per unit plus a terminator is therefore always large enough: no branch of \<open>append_code_point\<close>
  fails for lack of room.
\<close>

theorem jstring_to_utf8_exact:
  "jstring_to_utf8 (Some units) True True = map_option utf8_encode_all (utf16_decode (map unat units))"
  by (simp add: jstring_to_utf8_def utf16_loop_decode)

end
