(* ===== verification/Icu_Response.thy ===== *)
theory Icu_Response
  imports Icu_Connection Icu_Headers Icu_Utf8
begin

text \<open>
  Receiving a response in \<open>native/transport.c\<close>: \<open>read_response_head\<close>, \<open>write_output\<close>,
  \<open>private_output\<close>, \<open>copy_remaining_body\<close>, \<open>valid_utf8_file\<close>, \<open>write_response_metadata\<close> and
  \<open>icu_response_directory\<close>. The head loop ends by itself, because it stops at 64 KiB; the loop over
  the body and the one over a file take fuel. The unsigned subtraction of the capture limit is
  written with its wrap-around.
\<close>

section \<open>Operations\<close>

definition MAX_CAPTURE_BYTES :: nat where "MAX_CAPTURE_BYTES = 8 * 1024 * 1024"

text \<open>\<open>mkdtemp\<close> is a parameter: the created path, or \<open>None\<close>.\<close>

definition icu_response_directory :: "(bytes \<Rightarrow> bytes option) \<Rightarrow> bytes" where
  "icu_response_directory mkdtemp =
     (case mkdtemp ''/tmp/icu-response-XXXXXX'' of None \<Rightarrow> [] | Some path \<Rightarrow> path)"

text \<open>A stream is its number, 0 for a null pointer.\<close>

definition private_output :: "platform \<Rightarrow> bytes \<Rightarrow> bytes \<Rightarrow> world \<Rightarrow> (int \<times> world) option" where
  "private_output p path mode w = do {
     (opened, w) \<leftarrow> sys p (Open_private path) w;
     let fd = ret opened;
     if fd < 0 then Some (0, w)
     else do {
       (f, w) \<leftarrow> sys p (Fdopen fd mode) w;
       if ret f = 0 then do { (_, w) \<leftarrow> sys p (Close fd) w; Some (0, w) }
       else Some (ret f, w)
     }
   }"

definition write_output :: "platform \<Rightarrow> stream \<Rightarrow> bytes \<Rightarrow> world \<Rightarrow> (bool \<times> world) option" where
  "write_output p st bs w = do { (r, w) \<leftarrow> sys p (Fwrite st bs) w; Some (ret r = int (length bs), w) }"

lemma recv_loop_length: "post (recv_loop fuel p c n w) (\<lambda>(amount, data, _) _. length data = nat amount)"
  by (induction fuel arbitrary: w) (auto simp: post_None intro!: post_intros)

lemma read_some_post: "post (read_some fuel p c n w) (\<lambda>(amount, data, _) _. length data = nat amount)"
  unfolding read_some_def by (auto intro!: post_intros recv_loop_length)

lemma read_some_length:
  "read_some fuel p c n w = Some ((amount, data, c'), w') \<Longrightarrow> length data = nat amount"
  using postD[OF read_some_post] by fastforce

definition head_failure ::
    "platform \<Rightarrow> bytes \<Rightarrow> connection \<Rightarrow> world \<Rightarrow> (((response_head \<times> bytes) option \<times> connection) \<times> world) option" where
  "head_failure p message c w = do { (_, w) \<leftarrow> complain p message w; Some ((None, c), w) }"

function head_loop ::
    "nat \<Rightarrow> platform \<Rightarrow> connection \<Rightarrow> nat \<Rightarrow> bytes \<Rightarrow> world
     \<Rightarrow> (((response_head \<times> bytes) option \<times> connection) \<times> world) option" where
  "head_loop fuel p c body_capacity headers w =
     (if MAX_HEADER_BYTES \<le> length headers then head_failure p ''response headers are too large'' c w
      else case read_some fuel p c 16384 w of
        None \<Rightarrow> None
      | Some ((amount, data, c), w) \<Rightarrow>
          (if amount \<le> 0 then
             head_failure p (if amount = 0 then ''response ended before its headers'' else ''response read failed'') c w
           else if length headers + length data > MAX_HEADER_BYTES then
             head_failure p ''response headers are too large'' c w
           else let headers = headers @ data
                in case find_header_end headers of
                     None \<Rightarrow> head_loop fuel p c body_capacity headers w
                   | Some head_length \<Rightarrow>
                       (case interpret_head (take head_length headers) of
                          None \<Rightarrow> head_failure p ''invalid HTTP status line'' c w
                        | Some head \<Rightarrow>
                            (let available_body = drop head_length headers
                             in if length available_body > body_capacity
                                then head_failure p ''response prefix is too large'' c w
                                else Some ((Some (head, available_body), c), w)))))"
  by pat_completeness auto
termination
  by (relation "measure (\<lambda>(_, _, _, _, headers, _). MAX_HEADER_BYTES - length headers)")
     (auto dest: read_some_length)

declare head_loop.simps [simp del]

definition read_response_head ::
    "nat \<Rightarrow> platform \<Rightarrow> connection \<Rightarrow> nat \<Rightarrow> world
     \<Rightarrow> (((response_head \<times> bytes) option \<times> connection) \<times> world) option" where
  "read_response_head fuel p c body_capacity w =
     head_loop fuel p (c\<lparr>co_failure_code := 13\<rparr>) body_capacity [] w"

text \<open>\<open>MAX_CAPTURE_BYTES - *received_length\<close>, of the unsigned type \<open>size_t\<close>.\<close>

definition capture_room :: "nat \<Rightarrow> int" where
  "capture_room received = (int MAX_CAPTURE_BYTES - int received) mod 2 ^ 64"

fun body_loop ::
    "nat \<Rightarrow> nat \<Rightarrow> platform \<Rightarrow> connection \<Rightarrow> stream \<Rightarrow> nat \<Rightarrow> world
     \<Rightarrow> ((bool \<times> nat \<times> connection) \<times> world) option" where
  "body_loop 0 fuel p c st received w = None"
| "body_loop (Suc k) fuel p c st received w = do {
     ((amount, data, c), w) \<leftarrow> read_some fuel p c 16384 w;
     if amount = 0 then do { (f, w) \<leftarrow> sys p (Fflush st) w; Some ((ret f = 0, received, c), w) }
     else if st \<noteq> Stdout \<and> amount > 0 \<and> amount > capture_room received then do {
       (_, w) \<leftarrow> complain p ''captured response exceeds 8 MiB'' w;
       Some ((False, received, c\<lparr>co_failure_code := 12\<rparr>), w)
     }
     else if amount < 0 then do {
       (_, w) \<leftarrow> complain p ''response read failed'' w;
       Some ((False, received, c), w)
     }
     else do {
       (written, w) \<leftarrow> write_output p st data w;
       if \<not> written then do {
         (_, w) \<leftarrow> complain p ''could not write response body'' w;
         Some ((False, received, c), w)
       }
       else body_loop k fuel p c st (received + nat amount) w
     }
   }"

definition copy_remaining_body ::
    "nat \<Rightarrow> platform \<Rightarrow> connection \<Rightarrow> stream \<Rightarrow> bytes \<Rightarrow> world
     \<Rightarrow> ((bool \<times> nat \<times> connection) \<times> world) option" where
  "copy_remaining_body fuel p c st prefix w =
     (if st \<noteq> Stdout \<and> length prefix > MAX_CAPTURE_BYTES then
        Some ((False, 0, c\<lparr>co_failure_code := 12\<rparr>), w)
      else do {
        (written, w) \<leftarrow> (if prefix \<noteq> [] then write_output p st prefix w else Some (True, w));
        if \<not> written then do {
          (_, w) \<leftarrow> complain p ''could not write response body'' w;
          Some ((False, 0, c), w)
        }
        else body_loop fuel fuel p c st (length prefix) w
      })"

text \<open>The blocks \<open>all\<close> and the bytes read so far; \<open>-1\<close> when the file cannot be read or stored.\<close>

definition abandon_file :: "platform \<Rightarrow> int \<Rightarrow> int \<Rightarrow> world \<Rightarrow> (int \<times> world) option" where
  "abandon_file p all f w = do {
     (_, w) \<leftarrow> sys p (Free all) w;
     (_, w) \<leftarrow> sys p (Fclose (Stream f)) w;
     Some (-1, w)
   }"

fun utf8_file_loop :: "nat \<Rightarrow> platform \<Rightarrow> int \<Rightarrow> int \<Rightarrow> bytes \<Rightarrow> world \<Rightarrow> (int \<times> world) option" where
  "utf8_file_loop 0 p f all used w = None"
| "utf8_file_loop (Suc k) p f all used w = do {
     (r, w) \<leftarrow> sys p (Fread (Stream f) 16384) w;
     let data = stored r;
     (grown, w) \<leftarrow>
       (if data \<noteq> [] then do { (g, w) \<leftarrow> sys p (Realloc all (length used + length data)) w; Some (ret g, w) }
        else Some (all, w));
     if data \<noteq> [] \<and> grown = 0 then abandon_file p all f w
     else if length data < 16384 then do {
       (e, w) \<leftarrow> sys p (Ferror (Stream f)) w;
       if ret e \<noteq> 0 then abandon_file p grown f w
       else do {
         (_, w) \<leftarrow> sys p (Fclose (Stream f)) w;
         let valid = valid_utf8_bytes (used @ data);
         (_, w) \<leftarrow> sys p (Free grown) w;
         Some (if valid then 1 else 0, w)
       }
     }
     else utf8_file_loop k p f grown (used @ data) w
   }"

definition valid_utf8_file :: "nat \<Rightarrow> platform \<Rightarrow> bytes option \<Rightarrow> world \<Rightarrow> (int \<times> world) option" where
  "valid_utf8_file fuel p path w =
     (case path of
        None \<Rightarrow> Some (-1, w)
      | Some path \<Rightarrow> do {
          (f, w) \<leftarrow> sys p (Fopen_rb path) w;
          if ret f = 0 then Some (-1, w) else utf8_file_loop fuel p (ret f) 0 [] w
        })"

definition metadata_text :: "response_head \<Rightarrow> nat \<Rightarrow> bool \<Rightarrow> bytes" where
  "metadata_text head received valid =
     ''http_status'' @ [HT] @ show_int (rh_status head) @ [LF]
     @ ''content_type'' @ [HT]
     @ (if cstr (rh_content_type head) = [] then ''unknown'' else cstr (rh_content_type head)) @ [LF]
     @ ''content_encoding'' @ [HT]
     @ (if cstr (rh_content_encoding head) = [] then ''identity'' else cstr (rh_content_encoding head)) @ [LF]
     @ ''declared_length'' @ [HT] @ show_int (rh_content_length head) @ [LF]
     @ ''received_length'' @ [HT] @ show_nat received @ [LF]
     @ ''utf8'' @ [HT] @ (if valid then ''valid'' else ''invalid'') @ [LF]"

definition write_response_metadata ::
    "nat \<Rightarrow> platform \<Rightarrow> bytes option \<Rightarrow> response_head \<Rightarrow> nat \<Rightarrow> bytes option \<Rightarrow> world \<Rightarrow> (bool \<times> world) option" where
  "write_response_metadata fuel p path head received body_path w =
     (case path of
        None \<Rightarrow> Some (True, w)
      | Some path \<Rightarrow> do {
          (f, w) \<leftarrow> private_output p path ''w'' w;
          if f = 0 then Some (False, w)
          else do {
            (valid, w) \<leftarrow> valid_utf8_file fuel p body_path w;
            (r, w) \<leftarrow> sys p (Fprintf (Stream f) (metadata_text head received (valid = 1))) w;
            (x, w) \<leftarrow> sys p (Fclose (Stream f)) w;
            Some (ret r > 0 \<and> ret x = 0, w)
          }
        })"

section \<open>Resources\<close>

definition file_result :: "int \<Rightarrow> resource multiset \<Rightarrow> resource multiset" where
  "file_result f F = (if f \<noteq> 0 then add_mset (File f) F else F)"

lemma private_output_holds:
  assumes "holds w F" shows "post (private_output p path mode w) (\<lambda>f w'. holds w' (file_result f F))"
  unfolding private_output_def Let_def using assms
  by (auto simp: resource_simps file_result_def intro!: post_intros)

lemma write_output_holds: "holds w F \<Longrightarrow> post (write_output p st bs w) (\<lambda>_ w'. holds w' F)"
  unfolding write_output_def by (auto intro!: post_intros)

lemma head_failure_post: "(\<And>r. Q (None, c) (after (Complain m) r w)) \<Longrightarrow> post (head_failure p m c w) Q"
  unfolding head_failure_def by (auto intro!: post_intros)

text \<open>Induction over the turns of the head loop.\<close>

lemma head_loop_turns:
  assumes "\<And>c headers w.
      (\<And>amount data c' w'. read_some fuel p c 16384 w = Some ((amount, data, c'), w') \<Longrightarrow> 0 < amount
         \<Longrightarrow> length headers + length data \<le> MAX_HEADER_BYTES \<Longrightarrow> find_header_end (headers @ data) = None
         \<Longrightarrow> P c' (headers @ data) w') \<Longrightarrow> P c headers w"
  shows "P c headers w"
proof (induction "MAX_HEADER_BYTES - length headers" arbitrary: c headers w rule: less_induct)
  case (less headers c w)
  have step: "P c' (headers @ data) w'"
    if r: "read_some fuel p c 16384 w = Some ((amount, data, c'), w')" "0 < amount"
      and len: "length headers + length data \<le> MAX_HEADER_BYTES" for amount data c' w'
  proof -
    have "0 < length data" using read_some_length[OF r(1)] r(2) by simp
    then have "MAX_HEADER_BYTES - length (headers @ data) < MAX_HEADER_BYTES - length headers"
      using len unfolding length_append by linarith
    then show ?thesis by (rule less)
  qed
  show ?case by (rule assms) (rule step)
qed

lemma head_loop_holds:
  "holds w F \<Longrightarrow> post (head_loop fuel p c cap headers w) (\<lambda>(_, c') w'. holds w' F \<and> conn_resources c' = conn_resources c)"
proof (induction c headers w rule: head_loop_turns[of fuel p])
  case (1 c headers w)
  show ?case
  proof (cases "read_some fuel p c 16384 w")
    case None
    with "1.prems" show ?thesis by (subst head_loop.simps) (auto simp: post_None intro!: post_intros head_failure_post)
  next
    case (Some x)
    obtain amount data c' w' where x: "x = ((amount, data, c'), w')" by (cases x) auto
    have h: "holds w' F" "conn_resources c' = conn_resources c"
      using postD[OF read_some_holds[OF "1.prems"]] Some x by fastforce+
    note IH = "1.IH"[OF Some[unfolded x] _ _ _ h(1), unfolded h(2)]
    show ?thesis using "1.prems" h
      by (subst head_loop.simps) (auto simp: Some x Let_def split: option.splits intro!: IH post_intros head_failure_post)
  qed
qed

lemma body_loop_holds:
  "holds w F \<Longrightarrow> post (body_loop k fuel p c st n w) (\<lambda>(_, _, c') w'. holds w' F \<and> conn_resources c' = conn_resources c)"
proof (induction k arbitrary: c n w)
  case (Suc k)
  show ?case unfolding body_loop.simps
    by (rule post_callI[OF read_some_holds[OF Suc.prems]])
       (auto intro!: post_intros post_callI[OF write_output_holds] post_mono[OF Suc.IH])
qed (simp add: post_None)

lemma copy_remaining_body_holds:
  "holds w F \<Longrightarrow> post (copy_remaining_body fuel p c st prefix w) (\<lambda>(_, _, c') w'. holds w' F \<and> conn_resources c' = conn_resources c)"
  unfolding copy_remaining_body_def
  by (auto simp: post_bind_if intro!: post_intros post_callI[OF write_output_holds] body_loop_holds)

definition block_if :: "int \<Rightarrow> resource multiset" where
  "block_if b = (if b \<noteq> 0 then {#Block b#} else {#})"

lemma abandon_file_holds:
  "holds w (add_mset (File f) (block_if all + F)) \<Longrightarrow> post (abandon_file p all f w) (\<lambda>_ w'. holds w' F)"
  unfolding abandon_file_def by (auto simp: resource_simps block_if_def intro!: post_intros)

lemma utf8_file_loop_holds:
  "holds w (add_mset (File f) (block_if all + F)) \<Longrightarrow> post (utf8_file_loop k p f all used w) (\<lambda>_ w'. holds w' F)"
proof (induction k arbitrary: all used w)
  case (Suc k)
  have g: "holds (after (Realloc all n) r w') (add_mset (File f) (block_if (ret r) + F))"
    if "holds w' (add_mset (File f) (block_if all + F))" "ret r \<noteq> 0" for r n w'
    using that by (auto simp: resource_simps block_if_def)
  have z: "holds (after (Realloc all n) r w') (add_mset (File f) (block_if all + F))"
    if "holds w' (add_mset (File f) (block_if all + F))" "ret r = 0" for r n w'
    using that by (auto simp: resource_simps block_if_def)
  have fin: "holds (after (Free b) r (after (Fclose (Stream f)) r' w')) F"
    if "holds w' (add_mset (File f) (block_if b + F))" for b r r' w'
    using that by (auto simp: resource_simps block_if_def)
  show ?case unfolding utf8_file_loop.simps Let_def using Suc.prems
    by (auto simp: post_bind_if intro!: post_intros abandon_file_holds Suc.IH g z fin)
qed (simp add: post_None)

lemma valid_utf8_file_holds: "holds w F \<Longrightarrow> post (valid_utf8_file fuel p path w) (\<lambda>_ w'. holds w' F)"
  unfolding valid_utf8_file_def
  by (auto simp: resource_simps block_if_def split: option.splits
      intro!: post_intros post_mono[OF utf8_file_loop_holds[where F = F]])

lemma write_response_metadata_holds:
  "holds w F \<Longrightarrow> post (write_response_metadata fuel p path head n body_path w) (\<lambda>_ w'. holds w' F)"
  unfolding write_response_metadata_def
  apply (cases path; simp add: post_Some)
  apply (erule post_callI[OF private_output_holds])
  apply (auto simp: file_result_def intro!: post_intros post_callI[OF valid_utf8_file_holds])
  by (auto simp: resource_simps)

section \<open>Plain calls\<close>

lemma private_output_plain: "plain_ext w0 w \<Longrightarrow> post (private_output p path mode w) (\<lambda>_ w'. plain_ext w0 w')"
  unfolding private_output_def Let_def by (auto intro!: post_intros)

lemma write_output_plain: "plain_ext w0 w \<Longrightarrow> post (write_output p st bs w) (\<lambda>_ w'. plain_ext w0 w')"
  unfolding write_output_def by (auto intro!: post_intros)

lemma head_loop_plain:
  "plain_ext w0 w \<Longrightarrow> post (head_loop fuel p c cap headers w)
     (\<lambda>(_, c') w'. plain_ext w0 w' \<and> co_tls c' = co_tls c \<and> co_socket_fd c' = co_socket_fd c)"
proof (induction c headers w rule: head_loop_turns[of fuel p])
  case (1 c headers w)
  show ?case
  proof (cases "read_some fuel p c 16384 w")
    case None
    with "1.prems" show ?thesis by (subst head_loop.simps) (auto simp: post_None intro!: post_intros head_failure_post)
  next
    case (Some x)
    obtain amount data c' w' where x: "x = ((amount, data, c'), w')" by (cases x) auto
    have h: "plain_ext w0 w'" "co_tls c' = co_tls c" "co_socket_fd c' = co_socket_fd c"
      using postD[OF read_some_plain[OF "1.prems"]] Some x by fastforce+
    note IH = "1.IH"[OF Some[unfolded x] _ _ _ h(1), unfolded h(2,3)]
    show ?thesis using "1.prems" h
      by (subst head_loop.simps) (auto simp: Some x Let_def split: option.splits intro!: IH post_intros head_failure_post)
  qed
qed

lemma body_loop_plain: "plain_ext w0 w \<Longrightarrow> post (body_loop k fuel p c st n w) (\<lambda>_ w'. plain_ext w0 w')"
proof (induction k arbitrary: c n w)
  case (Suc k)
  show ?case unfolding body_loop.simps
    by (rule post_callI[OF read_some_plain[OF Suc.prems]])
       (auto intro!: post_intros post_callI[OF write_output_plain[where ?w0.0 = w0]] Suc.IH)
qed (simp add: post_None)

lemma copy_remaining_body_plain:
  "plain_ext w0 w \<Longrightarrow> post (copy_remaining_body fuel p c st prefix w) (\<lambda>_ w'. plain_ext w0 w')"
  unfolding copy_remaining_body_def
  by (auto simp: post_bind_if intro!: post_intros post_callI[OF write_output_plain[where ?w0.0 = w0]] body_loop_plain)

lemma utf8_file_loop_plain: "plain_ext w0 w \<Longrightarrow> post (utf8_file_loop k p f all used w) (\<lambda>_ w'. plain_ext w0 w')"
  by (induction k arbitrary: all used w)
     (auto simp: post_None post_bind_if Let_def abandon_file_def intro!: post_intros)

lemma valid_utf8_file_plain: "plain_ext w0 w \<Longrightarrow> post (valid_utf8_file fuel p path w) (\<lambda>_ w'. plain_ext w0 w')"
  unfolding valid_utf8_file_def
  by (auto simp: post_Some split: option.splits intro!: post_intros utf8_file_loop_plain)

lemma write_response_metadata_plain:
  "plain_ext w0 w \<Longrightarrow> post (write_response_metadata fuel p path head n body_path w) (\<lambda>_ w'. plain_ext w0 w')"
  unfolding write_response_metadata_def
  by (cases path) (auto intro!: post_intros post_callI[OF private_output_plain[where ?w0.0 = w0]]
      post_callI[OF valid_utf8_file_plain[where ?w0.0 = w0]])

section \<open>Termination\<close>

lemma write_output_returns: "returns (write_output p st bs w)"
  unfolding write_output_def by (auto intro!: returns_intros)

lemma private_output_returns: "returns (private_output p path mode w)"
  unfolding private_output_def Let_def by (auto intro!: returns_intros)

lemma head_failure_returns: "returns (head_failure p m c w)"
  unfolding head_failure_def by (auto intro!: returns_intros)

lemma head_loop_returns:
  assumes "uninterrupted p" "0 < fuel"
  shows "returns (head_loop fuel p c cap headers w)"
proof (induction c headers w rule: head_loop_turns[of fuel p])
  case (1 c headers w)
  obtain amount data c' w' where x: "read_some fuel p c 16384 w = Some ((amount, data, c'), w')"
    using read_some_returns[OF assms, of c 16384 w] by (auto simp: returns_def)
  show ?case
    by (subst head_loop.simps)
       (auto simp: x Let_def split: option.splits intro!: 1[OF x] returns_intros head_failure_returns)
qed

text \<open>A capture is bounded: the loop ends after at most \<open>MAX_CAPTURE_BYTES\<close> productive reads.\<close>

lemma capture_room_small: "n \<le> MAX_CAPTURE_BYTES \<Longrightarrow> capture_room n = int (MAX_CAPTURE_BYTES - n)"
  by (auto simp: capture_room_def MAX_CAPTURE_BYTES_def mod_pos_pos_trivial)

lemma body_loop_returns:
  assumes "uninterrupted p" "0 < fuel" "st \<noteq> Stdout"
  shows "n \<le> MAX_CAPTURE_BYTES \<Longrightarrow> MAX_CAPTURE_BYTES - n < k \<Longrightarrow> returns (body_loop k fuel p c st n w)"
proof (induction k arbitrary: c n w)
  case (Suc k)
  have room: "capture_room n = int (MAX_CAPTURE_BYTES - n)" using Suc.prems by (simp add: capture_room_small)
  have IH: "returns (body_loop k fuel p c' st (n + nat a) w')"
    if "a \<noteq> 0" "\<not> a < 0" "\<not> (0 < a \<and> int (MAX_CAPTURE_BYTES - n) < a)" for a c' w'
    using Suc.prems that by (intro Suc.IH) linarith+
  show ?case unfolding body_loop.simps room using assms
    by (auto intro!: returns_intros returns_callI[OF read_some_returns] returns_callI[OF write_output_returns] IH)
qed simp

lemma copy_remaining_body_returns:
  assumes "uninterrupted p" "MAX_CAPTURE_BYTES < fuel" "st \<noteq> Stdout"
  shows "returns (copy_remaining_body fuel p c st prefix w)"
  unfolding copy_remaining_body_def using assms
  by (auto simp: returns_bind_if intro!: returns_intros returns_callI[OF write_output_returns] body_loop_returns)

section \<open>What was received and written\<close>

text \<open>The bytes a connection delivered and the bytes a stream took, in order.\<close>

fun delivered_plain :: "history \<Rightarrow> int \<Rightarrow> bytes" where
  "delivered_plain [] fd = []"
| "delivered_plain ((c, r) # h) fd =
     (case c of Recv fd' n \<Rightarrow> (if fd' = fd then delivered_plain h fd @ stored r else delivered_plain h fd)
      | _ \<Rightarrow> delivered_plain h fd)"

fun delivered_tls :: "history \<Rightarrow> int \<Rightarrow> bytes" where
  "delivered_tls [] s = []"
| "delivered_tls ((c, r) # h) s =
     (case c of Ssl_read s' n \<Rightarrow> (if s' = s then delivered_tls h s @ stored r else delivered_tls h s)
      | _ \<Rightarrow> delivered_tls h s)"

definition delivered :: "history \<Rightarrow> connection \<Rightarrow> bytes" where
  "delivered h c = (if co_tls c \<noteq> 0 then delivered_tls h (co_tls c) else delivered_plain h (co_socket_fd c))"

fun written :: "history \<Rightarrow> stream \<Rightarrow> bytes" where
  "written [] st = []"
| "written ((c, r) # h) st =
     (case c of Fwrite st' b \<Rightarrow> (if st' = st then written h st @ take (nat (ret r)) b else written h st)
      | _ \<Rightarrow> written h st)"

lemma delivered_steps [simp]:
  "delivered ((Fwrite st b, r) # h) c = delivered h c" "delivered ((Fflush st, r) # h) c = delivered h c"
  "delivered ((Complain b, r) # h) c = delivered h c"
  "delivered ((Ssl_get_error s i, r) # h) c = delivered h c"
  "delivered h (c\<lparr>co_failure_code := e\<rparr>) = delivered h c"
  "co_tls c = 0 \<Longrightarrow> delivered ((Recv (co_socket_fd c) n, r) # h) c = delivered h c @ stored r"
  "co_tls c \<noteq> 0 \<Longrightarrow> delivered ((Ssl_read (co_tls c) n, r) # h) c = delivered h c @ stored r"
  by (simp_all add: delivered_def)

text \<open>A read: the bytes it hands over are the ones the connection delivered.\<close>

definition reads :: "world \<Rightarrow> connection \<Rightarrow> bytes \<Rightarrow> connection \<Rightarrow> world \<Rightarrow> bool" where
  "reads w c data c' w' \<longleftrightarrow> delivered (trace w') c' = delivered (trace w) c @ data
     \<and> (\<forall>st. written (trace w') st = written (trace w) st)"

lemma recv_loop_reads:
  "co_tls c = 0 \<Longrightarrow> post (recv_loop fuel p c n w) (\<lambda>(amount, data, c') w'. reads w c data c' w')"
proof (induction fuel arbitrary: w)
  case (Suc fuel)
  have "post (recv_loop fuel p c n (after (Recv (co_socket_fd c) n) r w)) (\<lambda>(amount, data, c') w'. reads w c data c' w')"
    if "ret r < 0" for r
    by (rule post_mono[OF Suc.IH[OF Suc.prems]]) (use that Suc.prems in \<open>auto simp: reads_def\<close>)
  with Suc.prems show ?case by (auto simp: reads_def intro!: post_intros)
qed (simp add: post_None)

lemma read_some_reads: "post (read_some fuel p c n w) (\<lambda>(amount, data, c') w'. reads w c data c' w')"
  unfolding read_some_def by (auto simp: reads_def intro!: post_intros post_mono[OF recv_loop_reads])

text \<open>The head loop: what it returns is a decomposition of what was delivered.\<close>

definition head_of :: "bytes \<Rightarrow> response_head \<Rightarrow> bytes \<Rightarrow> bool" where
  "head_of received head body \<longleftrightarrow>
     (\<exists>n. find_header_end received = Some n \<and> interpret_head (take n received) = Some head
        \<and> body = drop n received \<and> length received \<le> MAX_HEADER_BYTES)"

lemma head_loop_delivers:
  "post (head_loop fuel p c cap headers w)
     (\<lambda>(result, c') w'. \<forall>head body. result = Some (head, body) \<longrightarrow>
        (\<exists>new. head_of (headers @ new) head body \<and> length body \<le> cap
           \<and> delivered (trace w') c' = delivered (trace w) c @ new
           \<and> (\<forall>st. written (trace w') st = written (trace w) st)))"
  (is "post _ (?Q c headers w)")
proof (induction c headers w rule: head_loop_turns[of fuel p])
  case (1 c headers w)
  show ?case
  proof (cases "read_some fuel p c 16384 w")
    case None
    then show ?thesis by (subst head_loop.simps) (auto simp: post_None intro!: post_intros head_failure_post)
  next
    case (Some x)
    obtain amount data c' w' where x: "x = ((amount, data, c'), w')" by (cases x) auto
    have r: "reads w c data c' w'" using postD[OF read_some_reads] Some x by fastforce
    have IH: "post (head_loop fuel p c' cap (headers @ data) w') (?Q c headers w)"
      if "0 < amount" "length headers + length data \<le> MAX_HEADER_BYTES" "find_header_end (headers @ data) = None"
      by (rule post_mono[OF "1.IH"[OF Some[unfolded x] that]]) (use r in \<open>fastforce simp: reads_def\<close>)
    have D: "\<exists>new. head_of (headers @ new) head (drop n (headers @ data))
        \<and> delivered (trace w') c' = delivered (trace w) c @ new \<and> (\<forall>st. written (trace w') st = written (trace w) st)"
      if "find_header_end (headers @ data) = Some n" "interpret_head (take n (headers @ data)) = Some head"
        "length headers + length data \<le> 65536" for n head
      using that r by (auto simp: reads_def head_of_def intro!: exI[of _ data])
    show ?thesis
      by (subst head_loop.simps)
         (auto simp: Some x Let_def not_le not_less simp del: drop_append take_append length_drop
           split: option.splits intro!: IH D post_intros head_failure_post)
  qed
qed

lemma write_output_writes:
  "post (write_output p st bs w) (\<lambda>ok w'. (ok \<longrightarrow> written (trace w') st = written (trace w) st @ bs)
      \<and> (\<forall>c. delivered (trace w') c = delivered (trace w) c))"
  unfolding write_output_def by (auto intro!: post_intros)

text \<open>The body loop: the stream takes exactly what the connection delivers, and a capture stays bounded.\<close>

definition copies :: "stream \<Rightarrow> connection \<Rightarrow> nat \<Rightarrow> world \<Rightarrow> bool \<Rightarrow> nat \<Rightarrow> connection \<Rightarrow> world \<Rightarrow> bool" where
  "copies st c n w ok n' c' w' \<longleftrightarrow>
     (ok \<longrightarrow> (\<exists>new. delivered (trace w') c' = delivered (trace w) c @ new
                 \<and> written (trace w') st = written (trace w) st @ new \<and> n' = n + length new))
     \<and> (st \<noteq> Stdout \<longrightarrow> n \<le> MAX_CAPTURE_BYTES \<longrightarrow> n' \<le> MAX_CAPTURE_BYTES)"

lemma copies_step:
  assumes "copies st c1 n1 w1 ok n' c' w'"
    "delivered (trace w1) c1 = delivered (trace w) c @ data" "written (trace w1) st = written (trace w) st @ data"
    "n1 = n + length data" "st \<noteq> Stdout \<longrightarrow> n \<le> MAX_CAPTURE_BYTES \<longrightarrow> n1 \<le> MAX_CAPTURE_BYTES"
  shows "copies st c n w ok n' c' w'"
  using assms by (auto simp: copies_def)

lemma body_loop_copies:
  "post (body_loop k fuel p c st n w) (\<lambda>(ok, n', c') w'. copies st c n w ok n' c' w')"
proof (induction k arbitrary: c n w)
  case (Suc k)
  have fail: "copies st c n w False n c' w'" for c' w' by (simp add: copies_def)
  show ?case unfolding body_loop.simps
    apply (rule post_callI[OF post_conj[OF read_some_reads read_some_post]], clarify)
    subgoal for amount data c1 w1
    proof -
      assume r: "reads w c data c1 w1" and len: "length data = nat amount"
      have step: "post (body_loop k fuel p c1 st (n + nat amount) w2) (\<lambda>(ok, n', c') w'. copies st c n w ok n' c' w')"
        if w2: "written (trace w2) st = written (trace w1) st @ data" "delivered (trace w2) c1 = delivered (trace w1) c1"
          and room: "\<not> (st \<noteq> Stdout \<and> 0 < amount \<and> capture_room n < amount)" "amount \<noteq> 0" "\<not> amount < 0" for w2
      proof (rule post_mono[OF Suc.IH], clarify)
        fix ok n' c' w'
        assume c: "copies st c1 (n + nat amount) w2 ok n' c' w'"
        have "st \<noteq> Stdout \<longrightarrow> n \<le> MAX_CAPTURE_BYTES \<longrightarrow> n + nat amount \<le> MAX_CAPTURE_BYTES"
          using room capture_room_small[of n] by auto
        then show "copies st c n w ok n' c' w'"
          using w2 r len by (intro copies_step[OF c, of _ _ data]) (simp_all add: reads_def)
      qed
      have flush: "copies st c n w (ret f = 0) n c1 (after (Fflush st) f w1)" if "amount = 0" for f
        using that r len by (auto simp: copies_def reads_def)
      show ?thesis
        by (intro post_ifI post_callI[OF write_output_writes] post_sys_bindI post_complain_bindI post_SomeI;
            (simp add: fail flush; fail)?) (rule step; simp)
    qed
    done
qed (simp add: post_None)

lemma copy_remaining_body_copies:
  "post (copy_remaining_body fuel p c st prefix w)
     (\<lambda>(ok, n', c') w'. (ok \<longrightarrow> (\<exists>new. delivered (trace w') c' = delivered (trace w) c @ new
          \<and> written (trace w') st = written (trace w) st @ prefix @ new \<and> n' = length (prefix @ new)))
      \<and> (st \<noteq> Stdout \<longrightarrow> n' \<le> MAX_CAPTURE_BYTES))"
  unfolding copy_remaining_body_def
  by (auto simp: post_bind_if copies_def intro!: post_intros post_callI[OF write_output_writes]
      post_mono[OF body_loop_copies])

section \<open>The body prefix always fits\<close>

text \<open>Documented of \<open>recv\<close> and \<open>SSL_read\<close>: at most the requested number of bytes.\<close>

definition read_law :: "platform \<Rightarrow> bool" where
  "read_law p \<longleftrightarrow> (\<forall>h fd s n. ret (os p h (Recv fd n)) \<le> int n \<and> ret (os p h (Ssl_read s n)) \<le> int n)"

lemma recv_loop_amount:
  assumes "read_law p" shows "post (recv_loop fuel p c n w) (\<lambda>(amount, _, _) _. amount \<le> int n)"
  using assms by (induction fuel arbitrary: w) (auto simp: post_None read_law_def intro!: post_sys_bind_exactI post_ifI post_SomeI)

lemma read_some_amount:
  assumes "read_law p" "n \<le> 16384" shows "post (read_some fuel p c n w) (\<lambda>(amount, _, _) _. amount \<le> int n)"
  unfolding read_some_def using assms
  by (auto simp: read_law_def intro!: post_sys_bind_exactI post_ifI post_SomeI post_mono[OF recv_loop_amount[OF assms(1)]])

lemma head_loop_capacity:
  assumes "read_law p" "16384 \<le> cap"
  shows "find_header_end headers = None \<Longrightarrow> head_loop fuel p c cap headers w = head_loop fuel p c 16384 headers w"
proof (induction c headers w rule: head_loop_turns[of fuel p])
  case (1 c headers w)
  show ?case
  proof (cases "read_some fuel p c 16384 w")
    case None
    then show ?thesis by (simp add: head_loop.simps[of fuel p c _ headers w])
  next
    case (Some x)
    obtain amount data c' w' where x: "x = ((amount, data, c'), w')" by (cases x) auto
    have len: "length data \<le> 16384"
      using read_some_length[OF Some[unfolded x]] postD[OF read_some_amount[OF assms(1)] Some[unfolded x]] by simp
    have fits: "length (drop n (headers @ data)) \<le> 16384" if "find_header_end (headers @ data) = Some n" for n
      using find_sub_append_None[of "CRLF @ CRLF" headers data] that "1.prems" len by (auto simp: find_header_end_def)
    show ?thesis using "1.IH"[OF Some[unfolded x]] fits assms(2)
      by (simp add: head_loop.simps[of fuel p c _ headers w] Some x Let_def del: length_drop drop_append take_append split: option.splits)
         fastforce
  qed
qed

section \<open>The metadata\<close>

text \<open>
  A file of at most 8 MiB is read in at most 512 full blocks of 16384 bytes: once that many were read,
  the next \<open>fread\<close> comes up short.
\<close>

fun full_reads :: "history \<Rightarrow> nat" where
  "full_reads [] = 0"
| "full_reads ((c, r) # h) =
     (case c of Fread st n \<Rightarrow> (if 16384 \<le> ret r then Suc (full_reads h) else full_reads h)
      | Fopen_rb path \<Rightarrow> 0 | _ \<Rightarrow> full_reads h)"

definition file_law :: "platform \<Rightarrow> bool" where
  "file_law p \<longleftrightarrow> (\<forall>h st. 512 \<le> full_reads h \<longrightarrow> ret (os p h (Fread st 16384)) < 16384)"

lemma abandon_file_returns: "returns (abandon_file p all f w)"
  unfolding abandon_file_def by (auto intro!: returns_intros)

lemma utf8_file_loop_returns:
  assumes "file_law p"
  shows "512 - full_reads (trace w) < k \<Longrightarrow> returns (utf8_file_loop k p f all used w)"
proof (induction k arbitrary: all used w)
  case (Suc k)
  let ?r = "os p (trace w) (Fread (Stream f) 16384)"
  have step: "returns (utf8_file_loop k p f b u w')"
    if "full_reads (trace w') = Suc (full_reads (trace w))" "\<not> nat (ret ?r) < 16384" for b u w'
    using that Suc.prems assms[unfolded file_law_def, rule_format, of "trace w" "Stream f"]
    by (intro Suc.IH) (cases "512 \<le> full_reads (trace w)"; simp; linarith)
  show ?case unfolding utf8_file_loop.simps Let_def
    by (rule returns_sys_exactI)
       (auto simp: returns_bind_if intro!: returns_intros abandon_file_returns step)
qed simp

lemma valid_utf8_file_returns: "file_law p \<Longrightarrow> 512 < fuel \<Longrightarrow> returns (valid_utf8_file fuel p path w)"
  unfolding valid_utf8_file_def
  by (auto split: option.splits intro!: returns_intros utf8_file_loop_returns)

lemma write_response_metadata_returns:
  "file_law p \<Longrightarrow> 512 < fuel \<Longrightarrow> returns (write_response_metadata fuel p path head n body_path w)"
  unfolding write_response_metadata_def
  by (auto split: option.splits intro!: returns_intros returns_callI[OF private_output_returns]
      returns_callI[OF valid_utf8_file_returns])

section \<open>Properties\<close>

text \<open>
  C34: the response head is what the server sent. When \<open>read_response_head\<close> succeeds, the bytes the
  connection delivered, in however many pieces they came, are a head that ends at the first empty line,
  of which the returned structure is the interpretation, followed by exactly the returned
  body prefix; head and prefix together are at most 64 KiB.
\<close>

theorem read_response_head_correct:
  assumes "read_response_head fuel p c 16384 w = Some ((Some (head, body), c'), w')"
  shows "\<exists>received. delivered (trace w') c' = delivered (trace w) c @ received \<and> head_of received head body"
  using postD[OF head_loop_delivers assms[unfolded read_response_head_def]] by auto

definition sample_connection :: connection where
  "sample_connection = \<lparr>co_socket_fd = 3, co_tls_context = 0, co_tls = 0, co_failure_code = 4\<rparr>"

definition sample_response :: bytes where
  "sample_response = ''HTTP/1.0 200 OK'' @ CRLF @ ''Content-Length: 2'' @ CRLF @ CRLF @ ''hi''"

definition connected :: world where
  "connected = after (Socket 1) (reply_of 3) start"

lemma connected_start [simp]: "delivered (trace connected) sample_connection = []" "written (trace connected) st = []"
  by (simp_all add: connected_def start_def sample_connection_def delivered_def)

theorem read_response_head_correct_witness:
  "(let m = read_response_head 1 (scripted [sample_response] []) sample_connection 16384 connected
    in \<exists>received head. delivered (trace (snd (the m))) (snd (fst (the m))) = received \<and> head_of received head ''hi'')"
proof -
  let ?m = "read_response_head 1 (scripted [sample_response] []) sample_connection 16384 connected"
  have m: "?m \<noteq> None" "fst (fst (the ?m)) \<noteq> None" "snd (the (fst (fst (the ?m)))) = ''hi''" by code_simp+
  then obtain head c' w' where e: "?m = Some ((Some (head, ''hi''), c'), w')" by auto
  from read_response_head_correct[OF e] show ?thesis unfolding e Let_def by auto
qed

text \<open>
  the body prefix always fits. As long as a read returns at most the requested bytes, the check
  that the prefix fits the caller's 16384-byte buffer never fails: any larger buffer gives the same
  result, in every world.
\<close>

theorem body_prefix_always_fits:
  assumes "read_law p" "16384 \<le> cap"
  shows "read_response_head fuel p c cap w = read_response_head fuel p c 16384 w"
  unfolding read_response_head_def
  by (rule head_loop_capacity[OF assms]) (simp add: find_header_end_def)

definition silent :: platform where
  "silent = (scripted [] [])\<lparr>os := (\<lambda>_ _. reply_of 0)\<rparr>"

theorem body_prefix_always_fits_witness:
  "read_response_head 1 silent sample_connection 20000 start = read_response_head 1 silent sample_connection 16384 start"
  by (rule body_prefix_always_fits) (simp_all add: read_law_def silent_def reply_of_def)

text \<open>
  a capture is exact and bounded. When \<open>copy_remaining_body\<close> reports success for a file, the file
  took the prefix followed by exactly the bytes the connection delivered until its end, the
  reported length is their number, and it is at most 8 MiB; so the unsigned subtraction of the
  limit never wraps.
\<close>

theorem copy_remaining_body_exact:
  assumes "copy_remaining_body fuel p c (Stream f) prefix w = Some ((True, n, c'), w')"
  shows "\<exists>new. delivered (trace w') c' = delivered (trace w) c @ new
     \<and> written (trace w') (Stream f) = written (trace w) (Stream f) @ prefix @ new
     \<and> n = length (prefix @ new) \<and> n \<le> MAX_CAPTURE_BYTES"
  using postD[OF copy_remaining_body_copies assms] by auto

theorem copy_remaining_body_exact_witness:
  "(let m = copy_remaining_body 2 (scripted [''there''] []) sample_connection (Stream 21) ''hi '' connected
    in \<exists>new. delivered (trace (snd (the m))) (snd (snd (fst (the m)))) = new
         \<and> written (trace (snd (the m))) (Stream 21) = ''hi '' @ new \<and> fst (snd (fst (the m))) = length (''hi '' @ new))"
proof -
  let ?m = "copy_remaining_body 2 (scripted [''there''] []) sample_connection (Stream 21) ''hi '' connected"
  have m: "?m \<noteq> None" "fst (fst (the ?m)) = True" by code_simp+
  then obtain n c' w' where e: "?m = Some ((True, n, c'), w')" by auto
  from copy_remaining_body_exact[OF e] show ?thesis unfolding e Let_def by auto
qed

end
