(* ===== verification/Icu_Rewrite.thy ===== *)
theory Icu_Rewrite
  imports Icu_Url
begin

text \<open>
  Rewriting a GET request for a redirect, in \<open>native/transport.c\<close>: the header-name tests and
  \<open>rewrite_get_request_with_policy\<close>, which replaces the request line and the \<open>Host\<close> lines and, for
  a different origin, drops the credential headers. The output buffer is the list of bytes
  written so far; every capacity check of the code is a branch. The properties relate the
  request's header lines before and after.
\<close>

section \<open>Operations\<close>

definition header_line_named :: "bytes \<Rightarrow> bytes \<Rightarrow> bool" where
  "header_line_named line name \<longleftrightarrow>
     length line > length name \<and> line ! length name = CHR '':'' \<and> strncaseeq (length name) line name"

function names_loop :: "bytes \<Rightarrow> bytes \<Rightarrow> bool" where
  "names_loop line cursor =
     (if cursor = [] then False
      else let line_end = index_of LF cursor;
               name_length = (case line_end of None \<Rightarrow> length cursor | Some i \<Rightarrow> i)
           in if name_length \<noteq> 0 \<and> length line > name_length \<and> line ! name_length = CHR '':''
                 \<and> strncaseeq name_length line cursor
              then True
              else case line_end of None \<Rightarrow> False | Some i \<Rightarrow> names_loop line (drop (Suc i) cursor))"
  by pat_completeness auto
termination
  by (relation "measure (\<lambda>(_, cursor). length cursor)") auto

declare names_loop.simps [simp del]

text \<open>\<open>None\<close> is the null pointer.\<close>

definition header_line_named_in_list :: "bytes \<Rightarrow> bytes option \<Rightarrow> bool" where
  "header_line_named_in_list line names =
     (case names of None \<Rightarrow> False | Some cursor \<Rightarrow> names_loop line cursor)"

definition sensitive_line :: "bool \<Rightarrow> bytes option \<Rightarrow> bytes \<Rightarrow> bool" where
  "sensitive_line preserve_sensitive names line \<longleftrightarrow>
     \<not> preserve_sensitive \<and> (header_line_named line ''Authorization''
       \<or> header_line_named line ''Cookie'' \<or> header_line_named_in_list line names)"

function rewrite_loop :: "nat \<Rightarrow> bytes \<Rightarrow> bool \<Rightarrow> bytes option \<Rightarrow> bytes \<Rightarrow> bytes \<Rightarrow> bool \<Rightarrow> (bytes \<times> bool) option" where
  "rewrite_loop capacity authority preserve_sensitive names cursor output replaced_host =
     (if cursor = [] then Some (output, replaced_host)
      else case find_sub CRLF cursor of
             None \<Rightarrow> None
           | Some line_length \<Rightarrow>
               (if line_length = 0 then Some (output, replaced_host)
                else let line = take line_length cursor;
                         rest = drop (line_length + 2) cursor;
                         host_line = ''Host: '' @ authority @ CRLF
                     in if header_line_named line ''Host'' then
                          (if capacity - length output \<le> length host_line then None
                           else rewrite_loop capacity authority preserve_sensitive names rest
                                  (output @ host_line) True)
                        else if sensitive_line preserve_sensitive names line then
                          rewrite_loop capacity authority preserve_sensitive names rest
                            output replaced_host
                        else if capacity - length output \<le> line_length + 2 then None
                        else rewrite_loop capacity authority preserve_sensitive names rest
                               (output @ line @ CRLF) replaced_host))"
  by pat_completeness auto
termination
  by (relation "measure (\<lambda>(_, _, _, _, cursor, _, _). length cursor)") (auto dest: find_sub_SomeD)

declare rewrite_loop.simps [simp del]

text \<open>\<open>malloc_ok\<close> is the answer of the allocator; \<open>None\<close> is the null result.\<close>

definition rewrite_get_request_with_policy ::
    "bool \<Rightarrow> bytes \<Rightarrow> endpoint \<Rightarrow> bool \<Rightarrow> bytes option \<Rightarrow> bytes option" where
  "rewrite_get_request_with_policy malloc_ok request next preserve_sensitive names =
     (case find_sub CRLF request of
        None \<Rightarrow> None
      | Some line_end \<Rightarrow>
          (let headers = drop (line_end + 2) request;
               capacity = length request + length (ep_target next) + length (ep_host next) + 128
           in if \<not> malloc_ok then None
              else case endpoint_authority next (MAX_HOST_BYTES + 16) of
                     None \<Rightarrow> None
                   | Some authority \<Rightarrow>
                       (let request_line = ''GET '' @ ep_target next @ '' HTTP/1.0'' @ CRLF
                        in if capacity \<le> length request_line then None
                           else case rewrite_loop capacity authority preserve_sensitive names
                                       headers request_line False of
                                  None \<Rightarrow> None
                                | Some (output, replaced_host) \<Rightarrow>
                                    (let host_line = ''Host: '' @ authority @ CRLF
                                     in if \<not> replaced_host \<and> capacity - length output \<le> length host_line
                                        then None
                                        else let output = (if replaced_host then output
                                                           else output @ host_line)
                                             in if capacity \<le> length output + 2 then None
                                                else Some (output @ CRLF)))))"

definition rewrite_get_request :: "bool \<Rightarrow> bytes \<Rightarrow> endpoint \<Rightarrow> bytes option" where
  "rewrite_get_request malloc_ok request next =
     rewrite_get_request_with_policy malloc_ok request next True (Some [])"

section \<open>Header lines\<close>

text \<open>The header lines of a request: the CRLF-terminated lines up to the empty one.\<close>

function header_lines :: "bytes \<Rightarrow> bytes list option" where
  "header_lines cursor =
     (if cursor = [] then Some []
      else case find_sub CRLF cursor of
             None \<Rightarrow> None
           | Some n \<Rightarrow> if n = 0 then Some []
                       else map_option ((#) (take n cursor)) (header_lines (drop (n + 2) cursor)))"
  by pat_completeness auto
termination
  by (relation "measure length") auto

declare header_lines.simps [simp del]

definition request_header_lines :: "bytes \<Rightarrow> bytes list option" where
  "request_header_lines request =
     (case find_sub CRLF request of None \<Rightarrow> None | Some n \<Rightarrow> header_lines (drop (n + 2) request))"

definition unlines :: "bytes list \<Rightarrow> bytes" where
  "unlines ls = concat (map (\<lambda>l. l @ CRLF) ls)"

lemma unlines_simps [simp]:
  "unlines [] = []" "unlines (l # ls) = l @ CRLF @ unlines ls"
  "unlines (ls @ ls') = unlines ls @ unlines ls'"
  by (simp_all add: unlines_def)

lemma find_sub_CRLF_append:
  "find_sub CRLF l = None \<Longrightarrow> find_sub CRLF (l @ CRLF @ rest) = Some (length l)"
proof (induction l)
  case (Cons c l)
  then show ?case
    by (cases l) (auto split: if_splits simp: numeral_2_eq_2)
qed simp

lemma find_sub_CRLF_take:
  "find_sub CRLF xs = Some n \<Longrightarrow> find_sub CRLF (take n xs) = None"
proof (induction xs arbitrary: n)
  case (Cons c xs)
  then show ?case
    by (cases n; cases xs; cases "n - 1") (auto split: if_splits simp: numeral_2_eq_2)
qed simp

lemma find_sub_CRLF_None: "CR \<notin> set l \<Longrightarrow> find_sub CRLF l = None"
  by (induction l) auto

lemma header_lines_unlines:
  "\<forall>l \<in> set ls. l \<noteq> [] \<and> find_sub CRLF l = None \<Longrightarrow> header_lines (unlines ls @ CRLF) = Some ls"
proof (induction ls)
  case Nil
  show ?case by (simp add: header_lines.simps)
next
  case (Cons l ls)
  have "find_sub CRLF (l @ CRLF @ unlines ls @ CRLF) = Some (length l)"
    using Cons.prems by (intro find_sub_CRLF_append) auto
  with Cons show ?case by (simp add: header_lines.simps[of "l @ CRLF @ unlines ls @ CRLF", simplified])
qed

lemma header_lines_no_crlf:
  "header_lines cur = Some ls \<Longrightarrow> \<forall>l \<in> set ls. l \<noteq> [] \<and> find_sub CRLF l = None"
proof (induction cur arbitrary: ls rule: header_lines.induct)
  case (1 cur)
  show ?case
  proof (cases "cur = [] \<or> find_sub CRLF cur = Some 0")
    case True
    with "1.prems" show ?thesis by (auto simp: header_lines.simps[of cur] split: if_splits)
  next
    case False
    with "1.prems" obtain n ls' where n: "find_sub CRLF cur = Some n" "n \<noteq> 0" "cur \<noteq> []"
      and ls: "header_lines (drop (n + 2) cur) = Some ls'" "ls = take n cur # ls'"
      by (auto simp: header_lines.simps[of cur] split: option.splits)
    moreover have "take n cur \<noteq> []" using n by auto
    ultimately show ?thesis using "1.IH" find_sub_CRLF_take[OF n(1)] by auto
  qed
qed

section \<open>What the loop computes\<close>

definition rewrite_line :: "bytes \<Rightarrow> bool \<Rightarrow> bytes option \<Rightarrow> bytes \<Rightarrow> bytes list" where
  "rewrite_line authority preserve names line =
     (if header_line_named line ''Host'' then [''Host: '' @ authority]
      else if sensitive_line preserve names line then [] else [line])"

definition rewrite_lines :: "bytes \<Rightarrow> bool \<Rightarrow> bytes option \<Rightarrow> bytes list \<Rightarrow> bytes list" where
  "rewrite_lines authority preserve names ls = concat (map (rewrite_line authority preserve names) ls)"

abbreviation has_host :: "bytes list \<Rightarrow> bool" where
  "has_host ls \<equiv> list_ex (\<lambda>l. header_line_named l ''Host'') ls"

lemma rewrite_loop_lines:
  "rewrite_loop capacity auth preserve names cur out rep = Some (out', rep') \<Longrightarrow>
     \<exists>ls. header_lines cur = Some ls \<and> out' = out @ unlines (rewrite_lines auth preserve names ls)
       \<and> rep' = (rep \<or> has_host ls)"
proof (induction capacity auth preserve names cur out rep rule: rewrite_loop.induct)
  case (1 capacity auth preserve names cur out rep)
  show ?case
  proof (cases "cur = [] \<or> find_sub CRLF cur = Some 0")
    case True
    with "1.prems" show ?thesis
      by (auto simp: rewrite_loop.simps[of _ _ _ _ cur] header_lines.simps[of cur] rewrite_lines_def)
  next
    case False
    with "1.prems" obtain n where n: "find_sub CRLF cur = Some n" "n \<noteq> 0" "cur \<noteq> []"
      by (auto simp: rewrite_loop.simps[of _ _ _ _ cur] split: option.splits)
    then have hl: "header_lines cur = map_option ((#) (take n cur)) (header_lines (drop (n + 2) cur))"
      by (simp add: header_lines.simps[of cur])
    show ?thesis
    proof (cases "header_line_named (take n cur) ''Host''")
      case True
      with "1.prems" n have "rewrite_loop capacity auth preserve names (drop (n + 2) cur)
          (out @ ''Host: '' @ auth @ CRLF) True = Some (out', rep')"
        by (simp add: rewrite_loop.simps[of _ _ _ _ cur] Let_def split: if_splits)
      with "1.IH"(1)[OF n(3,1,2) refl refl refl True] "1.prems" n True hl show ?thesis
        by (auto simp: rewrite_loop.simps[of _ _ _ _ cur] rewrite_lines_def rewrite_line_def Let_def split: if_splits)
    next
      case F: False
      show ?thesis
      proof (cases "sensitive_line preserve names (take n cur)")
        case True
        with "1.prems" n F "1.IH"(2)[OF n(3,1,2) refl refl refl F True] hl show ?thesis
          by (auto simp: rewrite_loop.simps[of _ _ _ _ cur] rewrite_lines_def rewrite_line_def Let_def)
      next
        case False
        with "1.prems" n F "1.IH"(3)[OF n(3,1,2) refl refl refl F False] hl show ?thesis
          by (auto simp: rewrite_loop.simps[of _ _ _ _ cur] rewrite_lines_def rewrite_line_def Let_def split: if_splits)
      qed
    qed
  qed
qed

text \<open>The rendered result, and when it is produced.\<close>

definition rewritten :: "bytes \<Rightarrow> endpoint \<Rightarrow> bool \<Rightarrow> bytes option \<Rightarrow> bytes list \<Rightarrow> bytes list" where
  "rewritten authority next preserve names ls =
     rewrite_lines authority preserve names ls @ (if has_host ls then [] else [''Host: '' @ authority])"

lemma rewrite_SomeD:
  assumes "rewrite_get_request_with_policy ok request next preserve names = Some out"
  obtains authority ls where "endpoint_authority next (MAX_HOST_BYTES + 16) = Some authority"
    "request_header_lines request = Some ls"
    "out = (''GET '' @ ep_target next @ '' HTTP/1.0'') @ CRLF
             @ unlines (rewritten authority next preserve names ls) @ CRLF"
proof -
  from assms obtain n authority out' rep where
    n: "find_sub CRLF request = Some n" and a: "endpoint_authority next (MAX_HOST_BYTES + 16) = Some authority"
    and l: "rewrite_loop (length request + length (ep_target next) + length (ep_host next) + 128) authority
      preserve names (drop (n + 2) request) (''GET '' @ ep_target next @ '' HTTP/1.0'' @ CRLF) False
      = Some (out', rep)"
    and o: "out = (if rep then out' else out' @ ''Host: '' @ authority @ CRLF) @ CRLF"
    by (auto simp: rewrite_get_request_with_policy_def Let_def split: option.splits if_splits)
  from rewrite_loop_lines[OF l] n a o that show thesis
    by (auto simp: request_header_lines_def rewritten_def)
qed

lemma authority_visible:
  assumes "authority_ok next" "endpoint_authority next capacity = Some authority"
  shows "visible_url_bytes authority"
proof -
  have "visible_url_bytes (show_nat n)" for n
    using show_nat_digits[of n] by (auto simp: visible_url_bytes_def list_all_iff url_byte_def isdigit_def)
  moreover have "url_byte (CHR '':'')" by (simp add: url_byte_def byte_val_def)
  ultimately show ?thesis using assms
    by (auto simp: endpoint_authority_def authority_ok_def show_int_def Let_def split: if_splits)
qed

lemma rewritten_no_crlf:
  assumes "\<forall>l \<in> set ls. l \<noteq> [] \<and> find_sub CRLF l = None" "visible_url_bytes authority"
  shows "\<forall>l \<in> set (rewritten authority next preserve names ls). l \<noteq> [] \<and> find_sub CRLF l = None"
proof -
  have "find_sub CRLF (''Host: '' @ authority) = None"
    using visible_no_space[OF assms(2)] by (intro find_sub_CRLF_None) auto
  with assms(1) show ?thesis
    by (auto simp: rewritten_def rewrite_lines_def rewrite_line_def)
qed

lemma request_header_lines_render:
  assumes "find_sub CRLF first = None" "\<forall>l \<in> set ls. l \<noteq> [] \<and> find_sub CRLF l = None"
  shows "request_header_lines (first @ CRLF @ unlines ls @ CRLF) = Some ls"
  using find_sub_CRLF_append[OF assms(1), of "unlines ls @ CRLF"] header_lines_unlines[OF assms(2)]
  by (simp add: request_header_lines_def)

lemma rewrite_reads_back:
  assumes "endpoint_ok next"
    and "rewrite_get_request_with_policy ok request next preserve names = Some out"
  obtains authority ls where "endpoint_authority next (MAX_HOST_BYTES + 16) = Some authority"
    "request_header_lines request = Some ls"
    "request_target out MAX_TARGET_BYTES = Some (ep_target next)"
    "request_header_lines out = Some (rewritten authority next preserve names ls)"
proof -
  from rewrite_SomeD[OF assms(2)] obtain authority ls where
    a: "endpoint_authority next (MAX_HOST_BYTES + 16) = Some authority" and
    ls: "request_header_lines request = Some ls" and
    out: "out = (''GET '' @ ep_target next @ '' HTTP/1.0'') @ CRLF
             @ unlines (rewritten authority next preserve names ls) @ CRLF" by blast
  from ls have lines: "\<forall>l \<in> set ls. l \<noteq> [] \<and> find_sub CRLF l = None"
    by (auto simp: request_header_lines_def split: option.splits dest: header_lines_no_crlf)
  have ok: "visible_url_bytes (ep_target next)" "ep_target next \<noteq> []"
    "length (ep_target next) < MAX_TARGET_BYTES" "authority_ok next"
    using assms(1) by (auto simp: endpoint_ok_def path_ok_def)
  have "find_sub CRLF (''GET '' @ ep_target next @ '' HTTP/1.0'') = None"
    using visible_no_space[OF ok(1)] by (intro find_sub_CRLF_None) auto
  from request_header_lines_render[OF this rewritten_no_crlf[OF lines authority_visible[OF ok(4) a]]]
  have "request_header_lines out = Some (rewritten authority next preserve names ls)"
    unfolding out .
  moreover have "request_target out MAX_TARGET_BYTES = Some (ep_target next)"
    using request_target_render[OF ok(1,2,3)] by (simp add: out)
  ultimately show thesis using a ls that by blast
qed

text \<open>The output buffer is large enough for every request with at most one \<open>Host\<close> line.\<close>

lemma endpoint_authority_fits:
  assumes "authority_ok ep"
  shows "\<exists>authority. endpoint_authority ep (MAX_HOST_BYTES + 16) = Some authority
     \<and> length authority \<le> length (ep_host ep) + 6"
proof -
  have "length (show_nat (nat (ep_port ep))) \<le> 5"
    using assms by (intro length_show_nat_le) (auto simp: authority_ok_def)
  with assms show ?thesis
    by (simp add: endpoint_authority_def authority_ok_def show_int_def Let_def)
qed

lemma rewrite_loop_stop:
  "cur = [] \<or> find_sub CRLF cur = Some 0 \<Longrightarrow>
     rewrite_loop capacity auth preserve names cur out rep = Some (out, rep)"
  by (subst rewrite_loop.simps) auto

lemma rewrite_loop_fits:
  "header_lines cur = Some ls \<Longrightarrow> length (filter (\<lambda>l. header_line_named l ''Host'') ls) \<le> (if rep then 0 else 1) \<Longrightarrow>
   length out + length cur + (if rep then 0 else length auth + 8) + 2 < capacity \<Longrightarrow>
   \<exists>out' rep'. rewrite_loop capacity auth preserve names cur out rep = Some (out', rep')
     \<and> length out' + (if rep' then 0 else length auth + 8) + 2 < capacity"
proof (induction capacity auth preserve names cur out rep arbitrary: ls rule: rewrite_loop.induct)
  case (1 capacity auth preserve names cur out rep)
  show ?case
  proof (cases "cur = [] \<or> find_sub CRLF cur = Some 0")
    case True
    show ?thesis unfolding rewrite_loop_stop[OF True] using "1.prems"(3) by (auto split: if_splits)
  next
    case False
    with "1.prems"(1) obtain n ls' where n: "find_sub CRLF cur = Some n" "n \<noteq> 0" "cur \<noteq> []"
      and ls: "header_lines (drop (n + 2) cur) = Some ls'" "ls = take n cur # ls'"
      by (auto simp: header_lines.simps[of cur] split: option.splits)
    have len: "n + 2 \<le> length cur" using find_sub_SomeD[OF n(1)] by simp
    note unfold = rewrite_loop.simps[of capacity auth preserve names cur out rep]
    consider (host) "header_line_named (take n cur) ''Host''"
      | (drop) "\<not> header_line_named (take n cur) ''Host''" "sensitive_line preserve names (take n cur)"
      | (keep) "\<not> header_line_named (take n cur) ''Host''" "\<not> sensitive_line preserve names (take n cur)"
      by blast
    then show ?thesis
    proof cases
      case host
      with ls "1.prems"(2) have rep: "\<not> rep" "filter (\<lambda>l. header_line_named l ''Host'') ls' = []"
        by (auto split: if_splits)
      have room: "\<not> capacity - length out \<le> length (''Host: '' @ auth @ CRLF)"
        using "1.prems"(3) rep len by simp
      have "\<exists>out' rep'. rewrite_loop capacity auth preserve names (drop (n + 2) cur)
          (out @ ''Host: '' @ auth @ CRLF) True = Some (out', rep')
          \<and> length out' + (if rep' then 0 else length auth + 8) + 2 < capacity"
        using "1.prems"(3) rep len by (intro "1.IH"(1)[OF n(3,1,2) refl refl refl host room ls(1)]) auto
      then show ?thesis unfolding unfold using host n room by simp
    next
      case drop
      have "\<exists>out' rep'. rewrite_loop capacity auth preserve names (drop (n + 2) cur) out rep
          = Some (out', rep') \<and> length out' + (if rep' then 0 else length auth + 8) + 2 < capacity"
        using "1.prems"(2,3) len ls(2) drop
        by (intro "1.IH"(2)[OF n(3,1,2) refl refl refl drop ls(1)]) auto
      then show ?thesis unfolding unfold using drop n by simp
    next
      case keep
      have room: "\<not> capacity - length out \<le> n + 2" using "1.prems"(3) len by simp
      have "\<exists>out' rep'. rewrite_loop capacity auth preserve names (drop (n + 2) cur)
          (out @ take n cur @ CRLF) rep = Some (out', rep')
          \<and> length out' + (if rep' then 0 else length auth + 8) + 2 < capacity"
        using "1.prems"(2,3) len ls(2) keep
        by (intro "1.IH"(3)[OF n(3,1,2) refl refl refl keep room ls(1)]) auto
      then show ?thesis unfolding unfold using keep n room by simp
    qed
  qed
qed

section \<open>Properties\<close>

text \<open>
  C36: the redirected request. Whenever the rewrite succeeds for an acceptable endpoint, reading
  the produced bytes back gives the new target in the request line and exactly these header
  lines, in order: every \<open>Host\<close> line of the old request replaced by the new authority, the
  credential lines dropped when the policy says so, all others unchanged, and a \<open>Host\<close> line added
  when there was none.
\<close>

theorem rewrite_header_lines:
  assumes "endpoint_ok next"
    and "rewrite_get_request_with_policy ok request next preserve names = Some out"
  shows "\<exists>authority ls. endpoint_authority next (MAX_HOST_BYTES + 16) = Some authority
     \<and> request_header_lines request = Some ls
     \<and> request_target out MAX_TARGET_BYTES = Some (ep_target next)
     \<and> request_header_lines out = Some (rewritten authority next preserve names ls)"
  using rewrite_reads_back[OF assms] by metis

definition sample_next :: endpoint where
  "sample_next = \<lparr>ep_use_tls = True, ep_port = 443, ep_host = ''other.example'', ep_target = ''/next''\<rparr>"

definition credential_request :: bytes where
  "credential_request = ''GET /start HTTP/1.0'' @ CRLF @ ''Host: example.com'' @ CRLF
     @ ''Authorization: Bearer secret'' @ CRLF @ ''X-Api-Key: k'' @ CRLF @ ''X-Trace: keep-me'' @ CRLF @ CRLF"

definition stripped_request :: bytes where
  "stripped_request = ''GET /next HTTP/1.0'' @ CRLF @ ''Host: other.example'' @ CRLF
     @ ''X-Trace: keep-me'' @ CRLF @ CRLF"

lemma credential_request_rewritten:
  "rewrite_get_request_with_policy True credential_request sample_next False (Some (''x-api-key'' @ [LF]))
     = Some stripped_request"
  by code_simp

lemma sample_next_ok: "endpoint_ok sample_next"
  by code_simp

theorem rewrite_header_lines_witness:
  "request_target stripped_request MAX_TARGET_BYTES = Some ''/next''
   \<and> request_header_lines stripped_request = Some [''Host: other.example'', ''X-Trace: keep-me'']"
proof -
  have lines: "request_header_lines credential_request =
    Some [''Host: example.com'', ''Authorization: Bearer secret'', ''X-Api-Key: k'', ''X-Trace: keep-me'']"
    by code_simp
  have auth: "endpoint_authority sample_next (MAX_HOST_BYTES + 16) = Some ''other.example''" by code_simp
  have val: "rewritten ''other.example'' sample_next False (Some (''x-api-key'' @ [LF]))
      [''Host: example.com'', ''Authorization: Bearer secret'', ''X-Api-Key: k'', ''X-Trace: keep-me'']
    = [''Host: other.example'', ''X-Trace: keep-me'']" by code_simp
  show ?thesis
    using rewrite_header_lines[OF sample_next_ok credential_request_rewritten] lines auth val
    by (auto simp: sample_next_def)
qed

text \<open>
  credentials stay with their origin. When the policy does not preserve sensitive headers, no
  header line of the redirected request other than its \<open>Host\<close> line is an \<open>Authorization\<close> line, a
  \<open>Cookie\<close> line or a line of any caller-declared credential name, whatever the old request held.
\<close>

theorem rewrite_strips_credentials:
  assumes "endpoint_ok next"
    and "rewrite_get_request_with_policy ok request next False names = Some out"
    and "request_header_lines out = Some ls'" and "line \<in> set ls'"
    and "\<not> header_line_named line ''Host''"
  shows "\<not> header_line_named line ''Authorization'' \<and> \<not> header_line_named line ''Cookie''
     \<and> \<not> header_line_named_in_list line names"
proof -
  from assms(1,2) obtain authority ls where
    "request_header_lines out = Some (rewritten authority next False names ls)"
    by (rule rewrite_reads_back)
  with assms(3) have "ls' = rewritten authority next False names ls" by simp
  moreover have "header_line_named (''Host: '' @ authority) ''Host''"
    by (simp add: header_line_named_def strncaseeq_def)
  ultimately show ?thesis using assms(4,5)
    by (auto simp: rewritten_def rewrite_lines_def rewrite_line_def sensitive_line_def split: if_splits)
qed

theorem rewrite_strips_credentials_witness:
  "\<not> header_line_named ''X-Trace: keep-me'' ''Authorization''
   \<and> \<not> header_line_named ''X-Trace: keep-me'' ''Cookie''
   \<and> \<not> header_line_named_in_list ''X-Trace: keep-me'' (Some (''x-api-key'' @ [LF]))"
proof -
  have 1: "request_header_lines stripped_request = Some [''Host: other.example'', ''X-Trace: keep-me'']"
    by code_simp
  have 2: "''X-Trace: keep-me'' \<in> set [''Host: other.example'', ''X-Trace: keep-me'']" by simp
  have 3: "\<not> header_line_named ''X-Trace: keep-me'' ''Host''" by code_simp
  show ?thesis
    by (rule rewrite_strips_credentials[OF sample_next_ok credential_request_rewritten 1 2 3])
qed

text \<open>
  the rewrite does not fail spuriously. For an acceptable endpoint, a request whose header
  section is properly terminated and has at most one \<open>Host\<close> line is always rewritten when the
  allocation succeeds: the computed capacity suffices for every \<open>snprintf\<close> and \<open>memcpy\<close>.
\<close>

theorem rewrite_succeeds:
  assumes "endpoint_ok next" and "request_header_lines request = Some ls"
    and "length (filter (\<lambda>l. header_line_named l ''Host'') ls) \<le> 1"
  shows "\<exists>out. rewrite_get_request_with_policy True request next preserve names = Some out"
proof -
  from assms(2) obtain n where n: "find_sub CRLF request = Some n"
    and hl: "header_lines (drop (n + 2) request) = Some ls"
    by (auto simp: request_header_lines_def split: option.splits)
  from assms(1) have "authority_ok next" by (simp add: endpoint_ok_def)
  from endpoint_authority_fits[OF this] obtain authority where
    a: "endpoint_authority next (MAX_HOST_BYTES + 16) = Some authority"
    and la: "length authority \<le> length (ep_host next) + 6" by blast
  let ?cap = "length request + length (ep_target next) + length (ep_host next) + 128"
  let ?line = "''GET '' @ ep_target next @ '' HTTP/1.0'' @ CRLF"
  have "\<exists>out' rep'. rewrite_loop ?cap authority preserve names (drop (n + 2) request) ?line False
      = Some (out', rep') \<and> length out' + (if rep' then 0 else length authority + 8) + 2 < ?cap"
    using assms(3) la by (intro rewrite_loop_fits[OF hl]) auto
  with n a show ?thesis
    by (auto simp: rewrite_get_request_with_policy_def Let_def)
qed

theorem rewrite_succeeds_witness:
  "\<exists>out. rewrite_get_request_with_policy True credential_request sample_next True None = Some out"
proof (rule rewrite_succeeds[OF sample_next_ok])
  show lines: "request_header_lines credential_request =
    Some [''Host: example.com'', ''Authorization: Bearer secret'', ''X-Api-Key: k'', ''X-Trace: keep-me'']"
    by code_simp
  show "length (filter (\<lambda>l. header_line_named l ''Host'')
    [''Host: example.com'', ''Authorization: Bearer secret'', ''X-Api-Key: k'', ''X-Trace: keep-me'']) \<le> 1"
    by code_simp
qed

end
