(* ===== verification/Icu_Transport.thy ===== *)
theory Icu_Transport
  imports Icu_Response Icu_Rewrite
begin

text \<open>
  The transport of \<open>native/transport.c\<close>: one request over one connection, the redirect loop of
  \<open>send_request\<close>, and the eight entry points. A heap block is a pair of its address and its
  contents. A request body is the region the caller passes, of at least the declared length; \<open>None\<close>
  is a null pointer, for a body, a list of credential names or a path. The redirect loop ends by
  itself: it is cut off after \<open>MAX_REDIRECTS\<close> turns that follow a redirect.
\<close>

section \<open>Operations\<close>

definition MAX_REDIRECTS :: nat where "MAX_REDIRECTS = 8"

definition redirect_status :: "int \<Rightarrow> bool" where
  "redirect_status status \<longleftrightarrow> status = 301 \<or> status = 302 \<or> status = 303 \<or> status = 307 \<or> status = 308"

definition valid_wire_request :: "bytes \<Rightarrow> bool" where
  "valid_wire_request request \<longleftrightarrow> strneq 4 request ''GET '' \<or> strneq 5 request ''POST ''"

text \<open>The result code, 0 with the head and the body prefix, and the connection that stays open.\<close>

definition one_request ::
    "nat \<Rightarrow> platform \<Rightarrow> endpoint \<Rightarrow> bytes \<Rightarrow> bytes \<Rightarrow> world
     \<Rightarrow> ((int \<times> (response_head \<times> bytes) option \<times> connection) \<times> world) option" where
  "one_request fuel p target request_headers request_body w = do {
     ((ok, opened), w) \<leftarrow> open_connection fuel p (ep_host target) (ep_port target) (ep_use_tls target) w;
     if \<not> ok then Some ((co_failure_code opened, None, opened), w)
     else do {
       (sent, w) \<leftarrow> write_all fuel p opened request_headers w;
       (sent, w) \<leftarrow> (if sent \<and> request_body \<noteq> [] then write_all fuel p opened request_body w else Some (sent, w));
       if \<not> sent then do {
         (_, w) \<leftarrow> complain p ''request write failed'' w;
         (opened, w) \<leftarrow> close_connection p opened w;
         Some ((6, None, opened), w)
       }
       else do {
         ((result, opened), w) \<leftarrow> read_response_head fuel p opened 16384 w;
         case result of
           None \<Rightarrow> do {
             (closed, w) \<leftarrow> close_connection p opened w;
             Some ((co_failure_code opened, None, closed), w)
           }
         | Some received \<Rightarrow> Some ((0, Some received, opened), w)
       }
     }
   }"

text \<open>Give up on an open connection: close it, free the request, complain.\<close>

definition give_up :: "platform \<Rightarrow> connection \<Rightarrow> int \<Rightarrow> bytes \<Rightarrow> int \<Rightarrow> world \<Rightarrow> (int \<times> world) option" where
  "give_up p opened request_block message code w = do {
     (_, w) \<leftarrow> close_connection p opened w;
     (_, w) \<leftarrow> sys p (Free request_block) w;
     (_, w) \<leftarrow> complain p message w;
     Some (code, w)
   }"

text \<open>The body goes to \<open>st\<close>: standard output, or the capture file, which is closed afterwards.\<close>

definition deliver_to ::
    "nat \<Rightarrow> platform \<Rightarrow> connection \<Rightarrow> int \<Rightarrow> response_head \<Rightarrow> bytes \<Rightarrow> stream
     \<Rightarrow> bytes option \<Rightarrow> bytes option \<Rightarrow> world \<Rightarrow> (int \<times> world) option" where
  "deliver_to fuel p opened request_block head prefix st body_path metadata_path w = do {
     ((copied, received, opened), w) \<leftarrow> copy_remaining_body fuel p opened st prefix w;
     let copy_failure = co_failure_code opened;
     (copied, w) \<leftarrow>
       (if body_path \<noteq> None then do { (f, w) \<leftarrow> sys p (Fclose st) w; Some (copied \<and> ret f = 0, w) }
        else Some (copied, w));
     (metadata_written, w) \<leftarrow> write_response_metadata fuel p metadata_path head received body_path w;
     (_, w) \<leftarrow> close_connection p opened w;
     (_, w) \<leftarrow> sys p (Free request_block) w;
     if \<not> copied \<or> \<not> metadata_written then
       Some (if body_path \<noteq> None \<and> \<not> copied \<and> copy_failure \<ge> 11 then copy_failure else 7, w)
     else if body_path \<noteq> None \<and> rh_content_length head \<ge> 0 \<and> rh_content_length head \<noteq> int received then do {
       (_, w) \<leftarrow> complain p ''response body length does not match Content-Length'' w;
       Some (9, w)
     }
     else if body_path \<noteq> None \<and> (rh_status head < 200 \<or> rh_status head \<ge> 300) then Some (10, w)
     else Some (0, w)
   }"

definition deliver ::
    "nat \<Rightarrow> platform \<Rightarrow> connection \<Rightarrow> int \<Rightarrow> response_head \<Rightarrow> bytes
     \<Rightarrow> bytes option \<Rightarrow> bytes option \<Rightarrow> world \<Rightarrow> (int \<times> world) option" where
  "deliver fuel p opened request_block head prefix body_path metadata_path w =
     (case body_path of
        None \<Rightarrow> deliver_to fuel p opened request_block head prefix Stdout body_path metadata_path w
      | Some path \<Rightarrow>
          (if rh_invalid_framing head then
             give_up p opened request_block ''unsupported or malformed HTTP body framing'' 13 w
           else if rh_content_length head > int MAX_CAPTURE_BYTES then
             give_up p opened request_block ''captured response exceeds 8 MiB'' 12 w
           else do {
             (f, w) \<leftarrow> private_output p path ''wb'' w;
             if f = 0 then give_up p opened request_block ''could not open response body output'' 7 w
             else deliver_to fuel p opened request_block head prefix (Stream f) body_path metadata_path w
           }))"

text \<open>
  \<open>rewrite_get_request_with_policy\<close> with its allocation: no block is allocated for a request
  without a line end, and the block is freed when the rewriting fails.
\<close>

definition rewrite_allocated ::
    "platform \<Rightarrow> bytes \<Rightarrow> endpoint \<Rightarrow> bool \<Rightarrow> bytes option \<Rightarrow> world \<Rightarrow> ((int \<times> bytes) option \<times> world) option" where
  "rewrite_allocated p request next preserve_sensitive names w =
     (if find_sub CRLF request = None then Some (None, w)
      else do {
        (b, w) \<leftarrow> sys p (Malloc (length request + length (ep_target next) + length (ep_host next) + 128)) w;
        if ret b = 0 then Some (None, w)
        else case rewrite_get_request_with_policy True request next preserve_sensitive names of
               None \<Rightarrow> do { (_, w) \<leftarrow> sys p (Free (ret b)) w; Some (None, w) }
             | Some output \<Rightarrow> Some (Some (ret b, output), w)
      })"

datatype turn = Done int | Follow endpoint int bytes

text \<open>The second half of a turn of the loop, for a response that is a redirect to follow.\<close>

definition follow_redirect ::
    "platform \<Rightarrow> nat \<Rightarrow> endpoint \<Rightarrow> int \<Rightarrow> bytes \<Rightarrow> connection \<Rightarrow> response_head \<Rightarrow> bytes option
     \<Rightarrow> world \<Rightarrow> (turn \<times> world) option" where
  "follow_redirect p redirects current request_block request opened head names w =
     (if redirects \<ge> MAX_REDIRECTS then do {
        (code, w) \<leftarrow> give_up p opened request_block ''too many redirects'' 8 w;
        Some (Done code, w)
      }
      else case resolve_location current request (cstr (rh_location head)) of
             None \<Rightarrow> do {
               (code, w) \<leftarrow> give_up p opened request_block ''unsupported redirect location'' 8 w;
               Some (Done code, w)
             }
           | Some next \<Rightarrow> do {
               (rewritten, w) \<leftarrow>
                 (if same_origin current next then rewrite_allocated p request next True (Some []) w
                  else rewrite_allocated p request next False names w);
               case rewritten of
                 None \<Rightarrow> do {
                   (code, w) \<leftarrow> give_up p opened request_block ''could not construct redirected GET request'' 8 w;
                   Some (Done code, w)
                 }
               | Some (block, next_request) \<Rightarrow> do {
                   (_, w) \<leftarrow> close_connection p opened w;
                   (_, w) \<leftarrow> sys p (Free request_block) w;
                   Some (Follow next block next_request, w)
                 }
             })"

definition can_follow :: "bytes \<Rightarrow> response_head \<Rightarrow> bool" where
  "can_follow request head \<longleftrightarrow>
     strneq 4 request ''GET '' \<and> redirect_status (rh_status head) \<and> rh_has_location head"

definition request_turn ::
    "nat \<Rightarrow> platform \<Rightarrow> bytes \<Rightarrow> bytes option \<Rightarrow> bytes option \<Rightarrow> bytes option
     \<Rightarrow> nat \<Rightarrow> endpoint \<Rightarrow> int \<Rightarrow> bytes \<Rightarrow> world \<Rightarrow> (turn \<times> world) option" where
  "request_turn fuel p request_body names body_path metadata_path redirects current request_block request w = do {
     ((result, received, opened), w) \<leftarrow> one_request fuel p current request request_body w;
     case received of
       None \<Rightarrow> do {
         (_, w) \<leftarrow> sys p (Free request_block) w;
         Some (Done (if body_path = None \<and> (result = 4 \<or> result = 14) \<and> ep_use_tls current then 5
                     else if body_path = None \<and> result \<ge> 11 then 7
                     else result), w)
       }
     | Some (head, prefix) \<Rightarrow>
         (if \<not> can_follow request head then do {
            (code, w) \<leftarrow> deliver fuel p opened request_block head prefix body_path metadata_path w;
            Some (Done code, w)
          }
          else follow_redirect p redirects current request_block request opened head names w)
   }"

lemma follow_redirect_follows:
  "post (follow_redirect p redirects current b r opened head names w)
     (\<lambda>t _. case t of Done code \<Rightarrow> True | Follow next b' r' \<Rightarrow> redirects < MAX_REDIRECTS)"
  unfolding follow_redirect_def give_up_def
  by (auto simp: post_def bind_Some_iff split: option.splits if_splits)

lemma request_turn_follows:
  "post (request_turn fuel p body names body_path metadata_path redirects current b r w)
     (\<lambda>t _. case t of Done code \<Rightarrow> True | Follow next b' r' \<Rightarrow> redirects < MAX_REDIRECTS)"
  unfolding request_turn_def
  by (rule post_anyI) (auto split: option.splits intro!: post_intros post_anyI follow_redirect_follows)

function redirect_loop ::
    "nat \<Rightarrow> platform \<Rightarrow> bytes \<Rightarrow> bytes option \<Rightarrow> bytes option \<Rightarrow> bytes option
     \<Rightarrow> nat \<Rightarrow> endpoint \<Rightarrow> int \<Rightarrow> bytes \<Rightarrow> world \<Rightarrow> (int \<times> world) option" where
  "redirect_loop fuel p request_body names body_path metadata_path redirects current request_block request w =
     (case request_turn fuel p request_body names body_path metadata_path redirects current request_block request w of
        None \<Rightarrow> None
      | Some (Done code, w) \<Rightarrow> Some (code, w)
      | Some (Follow next block next_request, w) \<Rightarrow>
          redirect_loop fuel p request_body names body_path metadata_path (redirects + 1) next block next_request w)"
  by pat_completeness auto
termination
proof (relation "measure (\<lambda>(_, _, _, _, _, _, redirects, _). Suc MAX_REDIRECTS - redirects)", goal_cases)
  case (2 fuel p body names body_path metadata_path redirects current b r w x t w' nxt b' r')
  then show ?case
    using postD[OF request_turn_follows[of fuel p body names body_path metadata_path redirects current b r w]] by fastforce
qed simp

declare redirect_loop.simps [simp del]

definition send_request ::
    "nat \<Rightarrow> platform \<Rightarrow> bytes \<Rightarrow> int \<Rightarrow> bytes \<Rightarrow> bytes option \<Rightarrow> int \<Rightarrow> bool \<Rightarrow> bytes option
     \<Rightarrow> bytes option \<Rightarrow> bytes option \<Rightarrow> world \<Rightarrow> (int \<times> world) option" where
  "send_request fuel p host port request_headers request_body request_body_length use_tls names
       body_path metadata_path w =
     (if request_body_length < 0 \<or> (request_body_length \<noteq> 0 \<and> request_body = None) then do {
        (_, w) \<leftarrow> complain p ''invalid request body length'' w;
        Some (2, w)
      }
      else if \<not> valid_wire_request request_headers then do {
        (_, w) \<leftarrow> complain p ''transport accepts only GET and POST requests'' w;
        Some (2, w)
      }
      else let names = (case names of None \<Rightarrow> Some [] | Some n \<Rightarrow> Some n);
               is_get = strneq 4 request_headers ''GET ''
      in if is_get \<and> request_body_length \<noteq> 0 then do {
        (_, w) \<leftarrow> complain p ''GET request body must be empty'' w;
        Some (2, w)
      }
      else if MAX_HOST_BYTES \<le> length host then do {
        (_, w) \<leftarrow> complain p ''host is too long'' w;
        Some (3, w)
      }
      else let target = request_target request_headers MAX_TARGET_BYTES
      in if target = None \<and> is_get then do {
        (_, w) \<leftarrow> complain p ''invalid GET request target'' w;
        Some (3, w)
      }
      else do {
        (b, w) \<leftarrow> sys p (Strdup request_headers) w;
        if ret b = 0 then do {
          (_, w) \<leftarrow> complain p ''out of memory'' w;
          Some (3, w)
        }
        else redirect_loop fuel p
               (case request_body of None \<Rightarrow> [] | Some body \<Rightarrow> take (nat request_body_length) body)
               names body_path metadata_path 0
               \<lparr>ep_use_tls = use_tls, ep_port = port, ep_host = host,
                ep_target = (case target of Some t \<Rightarrow> t | None \<Rightarrow> [])\<rparr>
               (ret b) request_headers w
      })"

section \<open>Entry points\<close>

definition icu_send_http where
  "icu_send_http fuel p host port request_headers request_body request_body_length w =
     send_request fuel p host port request_headers request_body request_body_length False (Some []) None None w"

definition icu_send_https where
  "icu_send_https fuel p host port request_headers request_body request_body_length w =
     send_request fuel p host port request_headers request_body request_body_length True (Some []) None None w"

definition icu_send_http_with_credentials where
  "icu_send_http_with_credentials fuel p host port request_headers request_body request_body_length names w =
     send_request fuel p host port request_headers request_body request_body_length False names None None w"

definition icu_send_https_with_credentials where
  "icu_send_https_with_credentials fuel p host port request_headers request_body request_body_length names w =
     send_request fuel p host port request_headers request_body request_body_length True names None None w"

definition icu_fetch_http where
  "icu_fetch_http fuel p host port request_headers request_body request_body_length body_path metadata_path w =
     send_request fuel p host port request_headers request_body request_body_length False (Some [])
       body_path metadata_path w"

definition icu_fetch_https where
  "icu_fetch_https fuel p host port request_headers request_body request_body_length body_path metadata_path w =
     send_request fuel p host port request_headers request_body request_body_length True (Some [])
       body_path metadata_path w"

definition icu_fetch_http_with_credentials where
  "icu_fetch_http_with_credentials fuel p host port request_headers request_body request_body_length
       body_path metadata_path names w =
     send_request fuel p host port request_headers request_body request_body_length False names
       body_path metadata_path w"

definition icu_fetch_https_with_credentials where
  "icu_fetch_https_with_credentials fuel p host port request_headers request_body request_body_length
       body_path metadata_path names w =
     send_request fuel p host port request_headers request_body request_body_length True names
       body_path metadata_path w"

section \<open>Resources\<close>

lemma read_response_head_holds:
  "holds w F \<Longrightarrow> post (read_response_head fuel p c cap w) (\<lambda>(_, c') w'. holds w' F \<and> conn_resources c' = conn_resources c)"
  unfolding read_response_head_def by (rule post_mono[OF head_loop_holds]) auto

definition request_result :: "'a option \<Rightarrow> connection \<Rightarrow> resource multiset \<Rightarrow> resource multiset" where
  "request_result received c F = (if received = None then F else conn_resources c + F)"

lemma one_request_holds:
  assumes "holds w F"
  shows "post (one_request fuel p target headers body w)
           (\<lambda>(_, received, c) w'. holds w' (request_result received c F))"
  unfolding one_request_def
  apply (rule post_callI[OF open_connection_holds[OF assms]], clarify)
  subgoal for ok c w'
    by (cases ok)
       (auto simp: open_result_def request_result_def post_bind_if split: option.splits
        intro!: post_intros post_callI[OF write_all_holds[where F = "conn_resources c + F"]]
          post_callI[OF close_connection_holds[where F = F]]
          post_callI[OF read_response_head_holds[where F = "conn_resources c + F"]])
  done

lemma give_up_holds:
  assumes "holds w (conn_resources c + add_mset (Block b) F)" "b \<noteq> 0"
  shows "post (give_up p c b m code w) (\<lambda>r w'. r = code \<and> holds w' F)"
  unfolding give_up_def using assms
  by (auto simp: resource_simps intro!: post_intros post_callI[OF close_connection_holds[OF assms(1)]])

definition stream_resource :: "stream \<Rightarrow> bytes option \<Rightarrow> resource multiset" where
  "stream_resource st body_path = (case st of Stream f \<Rightarrow> (if body_path \<noteq> None then {#File f#} else {#}) | Stdout \<Rightarrow> {#})"

lemma deliver_to_holds:
  assumes "holds w (conn_resources c + (stream_resource st body_path + add_mset (Block b) F))" "b \<noteq> 0"
  shows "post (deliver_to fuel p c b head prefix st body_path meta w) (\<lambda>_ w'. holds w' F)"
proof -
  let ?B = "add_mset (Block b) F"
  have fc: "holds (after (Fclose st) r w') (add_mset (Block b) (conn_resources c + F))"
    if "holds w' (add_mset (Block b) (conn_resources c + (stream_resource st (Some y) + F)))" for r w' y
    using that by (auto simp: resource_simps stream_resource_def split: stream.splits)
  have nofc: "holds w' (add_mset (Block b) (conn_resources c + F))"
    if "holds w' (add_mset (Block b) (conn_resources c + (stream_resource st None + F)))" for w'
    using that by (auto simp: stream_resource_def split: stream.splits)
  have fr: "holds (after (Free b) r w') F" if "holds w' ?B" for r w'
    using that assms(2) by (auto simp: resource_simps)
  show ?thesis unfolding deliver_to_def Let_def
    apply (rule post_callI[OF copy_remaining_body_holds[OF assms(1)]], clarify)
    subgoal for copied n c' w'
      by (auto simp: post_bind_if fr intro: fc nofc
         intro!: post_intros post_callI[OF write_response_metadata_holds[where F = "conn_resources c + ?B"]]
          post_callI[OF close_connection_holds[where F = ?B]])
    done
qed

lemma deliver_holds:
  assumes "holds w (conn_resources c + add_mset (Block b) F)" "b \<noteq> 0"
  shows "post (deliver fuel p c b head prefix body_path meta w) (\<lambda>_ w'. holds w' F)"
proof (cases body_path)
  case None
  then show ?thesis unfolding deliver_def using assms
    by (auto simp: stream_resource_def intro!: deliver_to_holds)
next
  case (Some path)
  have g: "post (give_up p c b m code w') (\<lambda>_ w'. holds w' F)"
    if "holds w' (conn_resources c + add_mset (Block b) F)" for m code w'
    by (rule post_mono[OF give_up_holds[OF that assms(2)]]) simp
  show ?thesis unfolding deliver_def Some option.case using assms g
    by (auto simp: file_result_def stream_resource_def add_mset_commute
        intro!: post_intros post_callI[OF private_output_holds[OF assms(1)]] deliver_to_holds)
qed

lemma rewrite_allocated_holds:
  assumes "holds w F"
  shows "post (rewrite_allocated p r nxt keep names w)
     (\<lambda>res w'. case res of None \<Rightarrow> holds w' F | Some (b, _) \<Rightarrow> b \<noteq> 0 \<and> holds w' (add_mset (Block b) F))"
  unfolding rewrite_allocated_def using assms
  by (auto simp: resource_simps split: option.splits intro!: post_intros)

definition turn_result :: "turn \<Rightarrow> resource multiset \<Rightarrow> world \<Rightarrow> bool" where
  "turn_result t F w = (case t of Done code \<Rightarrow> holds w F | Follow nxt b r \<Rightarrow> b \<noteq> 0 \<and> holds w (add_mset (Block b) F))"

lemma follow_redirect_holds:
  assumes "holds w (conn_resources c + add_mset (Block b) F)" "b \<noteq> 0"
  shows "post (follow_redirect p n current b r c head names w) (\<lambda>t w'. turn_result t F w')"
proof -
  let ?B = "conn_resources c + add_mset (Block b) F"
  have g: "post (Option.bind (give_up p c b m code w') (\<lambda>(code, w). Some (Done code, w))) (\<lambda>t w'. turn_result t F w')"
    if "holds w' ?B" for m code w'
    by (rule post_callI[OF give_up_holds[OF that assms(2)]]) (auto simp: post_Some turn_result_def)
  have f: "holds (after (Free b) r w') (add_mset x F)" if "holds w' (add_mset (Block b) (add_mset x F))" for r w' x
    using that assms(2) by (auto simp: resource_simps)
  have fin: "post (Option.bind (close_connection p c w') (\<lambda>(_, w). Option.bind (sys p (Free b) w)
      (\<lambda>(_, w). Some (Follow nxt b' r', w)))) (\<lambda>t w'. turn_result t F w')"
    if "holds w' (add_mset (Block b') ?B)" "b' \<noteq> 0" for b' nxt r' w'
    using that
    by (auto simp: turn_result_def f add_mset_commute
        intro!: post_intros post_callI[OF close_connection_holds[where F = "add_mset (Block b) (add_mset (Block b') F)"]])
  note ra = post_callI[OF rewrite_allocated_holds[OF assms(1)]]
  show ?thesis unfolding follow_redirect_def
    by (auto simp: post_bind_if split: option.splits intro!: post_ifI g[OF assms(1)] ra fin) (auto intro!: g)
qed

lemma request_turn_holds:
  assumes "holds w (add_mset (Block b) F)" "b \<noteq> 0"
  shows "post (request_turn fuel p body names bp mp n current b r w) (\<lambda>t w'. turn_result t F w')"
proof -
  have f: "holds (after (Free b) r w') F" if "holds w' (add_mset (Block b) F)" for r w'
    using that assms(2) by (auto simp: resource_simps)
  show ?thesis unfolding request_turn_def
    apply (rule post_callI[OF one_request_holds[OF assms(1)]], clarify)
    subgoal for code received c w'
      using assms(2)
      by (auto simp: request_result_def turn_result_def[of "Done x" for x] f split: option.splits
        intro!: post_intros follow_redirect_holds post_callI[OF deliver_holds[where b = b and F = F]])
    done
qed

lemma redirect_loop_holds:
  "holds w (add_mset (Block b) F) \<Longrightarrow> b \<noteq> 0 \<Longrightarrow>
   post (redirect_loop fuel p body names bp mp n current b r w) (\<lambda>_ w'. holds w' F)"
proof (induction fuel p body names bp mp n current b r w rule: redirect_loop.induct)
  case (1 fuel p body names bp mp n current b r w)
  note t = request_turn_holds[OF "1.prems", of fuel p body names bp mp n current r]
  show ?case
    using 1(1) postD[OF t]
    by (subst redirect_loop.simps)
       (auto simp: post_Some post_None turn_result_def split: option.splits turn.splits)
qed

lemma send_request_holds:
  assumes "holds w F"
  shows "post (send_request fuel p host port headers body len tls names bp mp w) (\<lambda>_ w'. holds w' F)"
proof -
  have s: "holds (after (Strdup x) r w) (if ret r = 0 then F else add_mset (Block (ret r)) F)" for x r
    using assms by (auto simp: resource_simps)
  have s0: "holds (after (Strdup x) r w) F" if "ret r = 0" for x r using s[of x r] that by simp
  have s1: "holds (after (Strdup x) r w) (add_mset (Block (ret r)) F)" if "ret r \<noteq> 0" for x r using s[of x r] that by simp
  show ?thesis unfolding send_request_def Let_def using assms
    by (auto simp: s0 intro!: post_intros redirect_loop_holds s1)
qed

section \<open>Result codes\<close>

lemma fail_open_code: "post (fail_open p m c w) (\<lambda>(ok, c') _. \<not> ok \<and> co_failure_code c' = co_failure_code c)"
  unfolding fail_open_def close_connection_def
  by (auto simp: post_bind_if intro!: post_intros)

lemma open_connection_code:
  "post (open_connection fuel p host port tls w) (\<lambda>(_, c) _. co_failure_code c \<in> {4, 5, 11, 14})"
proof -
  have s: "post (start_tls p host c w) (\<lambda>(_, c') _. co_failure_code c' \<in> {4, 5, 11, 14})" for c w
    unfolding start_tls_def verified_handshake_def Let_def
    by (auto simp: post_bind_if split: if_splits intro!: post_intros post_anyI post_mono[OF fail_open_code])
  have f: "post (fail_open p m c w) (\<lambda>(_, c') _. co_failure_code c' \<in> {4, 5, 11, 14})"
    if "co_failure_code c \<in> {4, 5, 11, 14}" for m c w
    by (rule post_mono[OF fail_open_code]) (use that in auto)
  show ?thesis unfolding open_connection_def Let_def
    by (auto simp: post_bind_if split: option.splits simp del: insert_iff
        intro!: post_intros post_anyI[where m = "connect_tcp f p h q v" for f h q v]
          post_anyI[where m = "establish_proxy_tunnel p f h q v" for f h q v] s f) (auto split: if_splits)
qed

definition read_code :: "connection \<Rightarrow> int \<Rightarrow> connection \<Rightarrow> bool" where
  "read_code c amount c' = (if amount < 0 then co_failure_code c' \<in> {7, 11} else co_failure_code c' = co_failure_code c)"

lemma read_some_code: "post (read_some fuel p c n w) (\<lambda>(amount, _, c') _. read_code c amount c')"
proof -
  have "post (recv_loop fuel p c n w) (\<lambda>(amount, _, c') _. read_code c amount c')"
    by (induction fuel arbitrary: w) (auto simp: post_None read_code_def split: if_splits intro!: post_intros)
  then show ?thesis unfolding read_some_def by (auto simp: read_code_def[of c "-1"] read_code_def[of c 0] read_code_def[of c "ret r" for r] split: if_splits intro!: post_intros)
qed

lemma head_loop_code:
  "post (head_loop fuel p c cap headers w) (\<lambda>(result, c') _.
     if result = None then co_failure_code c' \<in> {7, 11, co_failure_code c} else co_failure_code c' = co_failure_code c)"
proof (induction c headers w rule: head_loop_turns[of fuel p])
  case (1 c headers w)
  show ?case
  proof (cases "read_some fuel p c 16384 w")
    case None
    then show ?thesis by (subst head_loop.simps) (auto simp: post_None intro!: post_intros head_failure_post)
  next
    case (Some x)
    obtain amount data c' w' where x: "x = ((amount, data, c'), w')" by (cases x) auto
    have h: "read_code c amount c'"
      using postD[OF read_some_code] Some x by fastforce
    show ?thesis
    proof (cases "amount \<le> 0")
      case True
      with h show ?thesis
        by (subst head_loop.simps) (auto simp: Some x read_code_def split: if_splits intro!: post_intros head_failure_post)
    next
      case False
      with h have e: "co_failure_code c' = co_failure_code c" by (simp add: read_code_def)
      note IH = "1.IH"[OF Some[unfolded x], unfolded e]
      show ?thesis using False e
        by (subst head_loop.simps) (auto simp: Some x Let_def split: option.splits intro!: post_intros head_failure_post IH)
    qed
  qed
qed

lemma body_loop_code:
  "post (body_loop k fuel p c st n w) (\<lambda>(ok, _, c') _.
     co_failure_code c' \<in> {7, 11, 12, co_failure_code c} \<and> (ok \<longrightarrow> co_failure_code c' = co_failure_code c))"
proof (induction k arbitrary: c n w)
  case (Suc k)
  show ?case unfolding body_loop.simps
    by (rule post_callI[OF read_some_code])
       (auto simp: read_code_def split: if_splits intro!: post_intros post_anyI post_mono[OF Suc.IH])
qed (simp add: post_None)

lemma copy_remaining_body_code:
  "post (copy_remaining_body fuel p c st prefix w) (\<lambda>(ok, _, c') _.
     co_failure_code c' \<in> {7, 11, 12, co_failure_code c} \<and> (ok \<longrightarrow> co_failure_code c' = co_failure_code c))"
  unfolding copy_remaining_body_def
  by (auto simp: post_bind_if intro!: post_intros post_anyI post_mono[OF body_loop_code])

lemma one_request_code:
  "post (one_request fuel p target headers body w) (\<lambda>(code, received, c) _.
     if received = None then code \<in> {4, 5, 6, 7, 11, 13, 14} else code = 0 \<and> co_failure_code c = 13)"
  unfolding one_request_def read_response_head_def
  apply (rule post_callI[OF open_connection_code], clarify)
  subgoal for ok c w'
    by (cases ok) (auto simp: post_bind_if split: option.splits if_splits
        intro!: post_intros post_anyI[where m = "write_all f p c b v" for f b v]
          post_anyI[where m = "close_connection p d v" for d v] post_callI[OF head_loop_code])
  done

lemma give_up_code: "post (give_up p c b m code w) (\<lambda>r _. r = code)"
  unfolding give_up_def by (auto intro!: post_intros post_anyI)

lemma deliver_to_code:
  assumes "co_failure_code c = 13"
  shows "post (deliver_to fuel p c b head prefix st bp mp w)
    (\<lambda>code _. if bp = None then code \<in> {0, 7} else code \<in> {0, 7, 9, 10, 11, 12, 13})"
  unfolding deliver_to_def Let_def
  apply (rule post_callI[OF copy_remaining_body_code], clarify)
  subgoal for ok n c' w'
    using assms
    by (auto simp: post_bind_if intro!: post_intros post_anyI[where m = "write_response_metadata f p m h n b v" for f m h n b v]
          post_anyI[where m = "close_connection p d v" for d v])
  done

lemma deliver_code:
  assumes "co_failure_code c = 13"
  shows "post (deliver fuel p c b head prefix bp mp w)
    (\<lambda>code _. if bp = None then code \<in> {0, 7} else code \<in> {0, 7, 9, 10, 11, 12, 13})"
  unfolding deliver_def
  by (cases bp) (use deliver_to_code[OF assms, of fuel p b head prefix _ bp mp] in
    \<open>auto intro!: post_intros post_mono[OF give_up_code] post_anyI[where m = "private_output p x m v" for x m v]\<close>)

definition stdout_codes :: "int set" where "stdout_codes = {0, 2, 3, 4, 5, 6, 7, 8}"
definition capture_codes :: "int set" where "capture_codes = {0, 2, 3, 4, 5, 6, 7, 8, 9, 10, 11, 12, 13, 14}"

definition turn_code :: "int set \<Rightarrow> turn \<Rightarrow> bool" where
  "turn_code S t = (case t of Done code \<Rightarrow> code \<in> S | Follow x y z \<Rightarrow> True)"

lemma follow_redirect_code: "post (follow_redirect p n current b r c head names w) (\<lambda>t _. turn_code {8} t)"
  unfolding follow_redirect_def
  by (auto simp: post_bind_if turn_code_def split: option.splits
      intro!: post_intros post_callI[OF give_up_code] post_anyI[where m = "rewrite_allocated p x y z u v" for x y z u v]
       post_anyI[where m = "close_connection p d v" for d v])

lemma request_turn_code:
  "post (request_turn fuel p body names bp mp n current b r w)
     (\<lambda>t _. turn_code (if bp = None then stdout_codes else capture_codes) t)"
proof -
  have f: "post (follow_redirect p n current b r c head names w) (\<lambda>t _. turn_code S t)" if "8 \<in> S" for c head w S
    by (rule post_mono[OF follow_redirect_code]) (use that in \<open>auto simp: turn_code_def split: turn.splits\<close>)
  show ?thesis unfolding request_turn_def
    apply (rule post_callI[OF one_request_code], clarify)
    subgoal for code received c w'
      by (cases bp)
       (auto simp: stdout_codes_def capture_codes_def turn_code_def[of _ "Done x" for x] split: option.splits if_splits
        intro!: post_intros f post_callI[OF deliver_code])
    done
qed

lemma redirect_loop_code:
  "post (redirect_loop fuel p body names bp mp n current b r w)
     (\<lambda>code _. code \<in> (if bp = None then stdout_codes else capture_codes))"
proof (induction fuel p body names bp mp n current b r w rule: redirect_loop.induct)
  case (1 fuel p body names bp mp n current b r w)
  show ?case
    using 1 postD[OF request_turn_code[of fuel p body names bp mp n current b r w]]
    by (subst redirect_loop.simps)
       (auto simp: post_Some post_None turn_code_def split: option.splits turn.splits)
qed

lemma send_request_code:
  "post (send_request fuel p host port headers body len tls names bp mp w)
     (\<lambda>code _. code \<in> (if bp = None then stdout_codes else capture_codes))"
  unfolding send_request_def Let_def
  by (intro post_ifI post_complain_bindI post_sys_bindI post_SomeI redirect_loop_code)
     (simp_all add: stdout_codes_def capture_codes_def)

section \<open>TLS\<close>

definition tls_ok :: "connection \<Rightarrow> bytes \<Rightarrow> world \<Rightarrow> bool" where
  "tls_ok c host w \<longleftrightarrow> tls_safe (trace w) \<and> (co_tls c \<noteq> 0 \<longrightarrow> authenticated (trace w) (co_tls c) host)"

lemma write_all_tls: "tls_ok c host w \<Longrightarrow> post (write_all fuel p c bs w) (\<lambda>_ w'. tls_ok c host w')"
proof (induction fuel arbitrary: bs w)
  case (Suc fuel)
  have "tls_ok c host v \<Longrightarrow> co_tls c \<noteq> 0 \<Longrightarrow> tls_ok c host (after (Ssl_write (co_tls c) b) r v)"
    "tls_ok c host v \<Longrightarrow> tls_ok c host (after (Ssl_get_error s i) r v)"
    "tls_ok c host v \<Longrightarrow> tls_ok c host (after (Send s b) r v)" for b r s i v
    by (auto simp: tls_ok_def)
  with Suc show ?case by (auto intro!: post_intros)
qed (auto simp: wp)

lemma head_plain_tls: "post (read_response_head fuel p c cap w) (\<lambda>(_, c') w'. co_tls c' = co_tls c \<and> tls_ok c host w' = tls_ok c host w)"
  unfolding read_response_head_def
  by (rule post_mono[OF head_loop_plain[OF plain_ext_refl]]) (auto simp: tls_ok_def plain_tls_safe plain_authenticated)

lemma close_connection_tls: "post (close_connection p c w) (\<lambda>_ w'. tls_safe (trace w') = tls_safe (trace w))"
  by (rule post_mono[OF close_connection_plain[OF plain_ext_refl]]) (auto simp: plain_tls_safe)

lemma one_request_tls:
  assumes "tls_safe (trace w)"
  shows "post (one_request fuel p target headers body w) (\<lambda>(_, received, c) w'. tls_safe (trace w')
     \<and> (received \<noteq> None \<longrightarrow> ep_use_tls target \<longrightarrow> co_tls c \<noteq> 0 \<and> authenticated (trace w') (co_tls c) (ep_host target)))"
  unfolding one_request_def
  apply (rule post_callI[OF open_connection_tls], clarify)
  subgoal for ok c w'
  proof -
    assume a: "ok \<longrightarrow> (if ep_use_tls target then co_tls c \<noteq> 0 \<and> authenticated (trace w') (co_tls c) (ep_host target) else co_tls c = 0)"
      and safe: "tls_safe (trace w') = tls_safe (trace w)"
    note wr = post_callI[OF write_all_tls[where host = "ep_host target"]]
    note rd = post_callI[OF head_plain_tls[where host = "ep_host target"]]
    show ?thesis
    proof (cases ok)
      case False
      with safe assms show ?thesis by (auto simp: post_Some)
    next
      case True
      with a safe assms have ok: "tls_ok c (ep_host target) w'" by (auto simp: tls_ok_def split: if_splits)
      have tls: "ep_use_tls target \<Longrightarrow> co_tls c \<noteq> 0" using a True by auto
      have D: "tls_ok c (ep_host target) v \<Longrightarrow> tls_safe (trace v)"
        "tls_ok c (ep_host target) v \<Longrightarrow> ep_use_tls target \<Longrightarrow> authenticated (trace v) (co_tls c) (ep_host target)" for v
        using tls by (auto simp: tls_ok_def)
      have C: "tls_ok c (ep_host target) (after (Complain m) r v) = tls_ok c (ep_host target) v" for m r v
        by (simp add: tls_ok_def)
      show ?thesis using True tls ok
        by (auto simp: post_bind_if D split: option.splits
            intro!: post_intros wr rd post_callI[OF close_connection_tls])
    qed
  qed
  done

lemma give_up_plain: "plain_ext w0 w \<Longrightarrow> post (give_up p c b m code w) (\<lambda>_ w'. plain_ext w0 w')"
  unfolding give_up_def by (auto intro!: post_intros post_callI[OF close_connection_plain[where ?w0.0 = w0]])

lemma deliver_to_plain: "plain_ext w0 w \<Longrightarrow> post (deliver_to fuel p c b head prefix st bp mp w) (\<lambda>_ w'. plain_ext w0 w')"
  unfolding deliver_to_def Let_def
  by (auto simp: post_bind_if intro!: post_intros post_callI[OF copy_remaining_body_plain[where ?w0.0 = w0]]
      post_callI[OF write_response_metadata_plain[where ?w0.0 = w0]] post_callI[OF close_connection_plain[where ?w0.0 = w0]])

lemma deliver_plain: "plain_ext w0 w \<Longrightarrow> post (deliver fuel p c b head prefix bp mp w) (\<lambda>_ w'. plain_ext w0 w')"
  unfolding deliver_def
  by (cases bp) (auto intro!: post_intros deliver_to_plain give_up_plain post_callI[OF private_output_plain[where ?w0.0 = w0]])

lemma rewrite_allocated_plain: "plain_ext w0 w \<Longrightarrow> post (rewrite_allocated p r nxt keep names w) (\<lambda>_ w'. plain_ext w0 w')"
  unfolding rewrite_allocated_def by (auto split: option.splits intro!: post_intros)

lemma follow_redirect_plain:
  "plain_ext w0 w \<Longrightarrow> post (follow_redirect p n current b r c head names w) (\<lambda>_ w'. plain_ext w0 w')"
  unfolding follow_redirect_def
  by (auto simp: post_bind_if split: option.splits intro!: post_intros post_callI[OF give_up_plain[where ?w0.0 = w0]]
      post_callI[OF rewrite_allocated_plain[where ?w0.0 = w0]] post_callI[OF close_connection_plain[where ?w0.0 = w0]])

lemma request_turn_tls:
  assumes "tls_safe (trace w)"
  shows "post (request_turn fuel p body names bp mp n current b r w) (\<lambda>_ w'. tls_safe (trace w'))"
  unfolding request_turn_def
  apply (rule post_callI[OF one_request_tls[OF assms]], clarify)
  subgoal for code received c w'
    by (auto split: option.splits intro!: post_intros post_callI[OF deliver_plain[OF plain_ext_refl]]
        post_mono[OF follow_redirect_plain[OF plain_ext_refl]] simp: plain_tls_safe)
  done

lemma redirect_loop_tls:
  "tls_safe (trace w) \<Longrightarrow> post (redirect_loop fuel p body names bp mp n current b r w) (\<lambda>_ w'. tls_safe (trace w'))"
proof (induction fuel p body names bp mp n current b r w rule: redirect_loop.induct)
  case (1 fuel p body names bp mp n current b r w)
  show ?case
    using 1(1) postD[OF request_turn_tls[OF 1(2), of fuel p body names bp mp n current b r]]
    by (subst redirect_loop.simps) (auto simp: post_Some post_None split: option.splits turn.splits)
qed

lemma send_request_tls:
  "tls_safe (trace w) \<Longrightarrow> post (send_request fuel p host port headers body len tls names bp mp w) (\<lambda>_ w'. tls_safe (trace w'))"
  unfolding send_request_def Let_def by (auto intro!: post_intros redirect_loop_tls)

section \<open>Termination\<close>

lemma give_up_returns: "returns (give_up p c b m code w)"
  unfolding give_up_def by (auto intro!: returns_intros returns_callI[OF close_connection_returns])

lemma one_request_returns:
  assumes "uninterrupted p" "0 < fuel" "length headers \<le> fuel" "length body \<le> fuel"
  shows "returns (one_request fuel p target headers body w)"
  unfolding one_request_def read_response_head_def using assms
  by (auto simp: returns_bind_if split: option.splits
      intro!: returns_intros returns_callI[OF open_connection_returns] returns_callI[OF write_all_returns]
       returns_callI[OF close_connection_returns] returns_callI[OF head_loop_returns])

lemma deliver_returns:
  assumes "uninterrupted p" "file_law p" "MAX_CAPTURE_BYTES < fuel" "bp \<noteq> None"
  shows "returns (deliver fuel p c b head prefix bp mp w)"
proof -
  have "512 < fuel" using assms(3) by (simp add: MAX_CAPTURE_BYTES_def)
  with assms show ?thesis unfolding deliver_def deliver_to_def Let_def
    by (auto simp: returns_bind_if split: option.splits
      intro!: returns_intros give_up_returns returns_callI[OF private_output_returns]
       returns_callI[OF copy_remaining_body_returns] returns_callI[OF write_response_metadata_returns]
       returns_callI[OF close_connection_returns])
qed

lemma follow_redirect_returns: "returns (follow_redirect p n current b r c head names w)"
  unfolding follow_redirect_def rewrite_allocated_def
  by (auto simp: returns_bind_if split: option.splits
      intro!: returns_intros returns_callI[OF give_up_returns] returns_callI[OF close_connection_returns])

lemma request_turn_returns:
  assumes "uninterrupted p" "file_law p" "MAX_CAPTURE_BYTES < fuel" "bp \<noteq> None" "length r \<le> fuel" "length body \<le> fuel"
  shows "returns (request_turn fuel p body names bp mp n current b r w)"
  unfolding request_turn_def using assms
  by (auto split: option.splits intro!: returns_intros returns_callI[OF one_request_returns]
     returns_callI[OF deliver_returns] follow_redirect_returns)

lemma resolve_location_lengths:
  assumes "resolve_location current request raw = Some nxt" "length (ep_host current) < MAX_HOST_BYTES"
  shows "length (ep_host nxt) < MAX_HOST_BYTES \<and> length (ep_target nxt) < MAX_TARGET_BYTES"
  using assms
  by (auto simp: resolve_location_def parse_absolute_location_def parse_authority_def set_target_def Let_def
      split: if_splits option.splits prod.splits)

lemma rewrite_length:
  "rewrite_get_request_with_policy ok request nxt keep names = Some out \<Longrightarrow>
   length out < length request + length (ep_target nxt) + length (ep_host nxt) + 128"
  by (auto simp: rewrite_get_request_with_policy_def Let_def split: option.splits if_splits)

text \<open>A followed redirect gives a request that is at most 17536 bytes longer.\<close>

definition hop_length :: nat where "hop_length = 17536"

lemma request_turn_lengths:
  assumes "length (ep_host current) < MAX_HOST_BYTES"
  shows "post (request_turn fuel p body names bp mp n current b r w)
     (\<lambda>t _. case t of Done code \<Rightarrow> True
            | Follow nxt b' r' \<Rightarrow> length (ep_host nxt) < MAX_HOST_BYTES \<and> length r' \<le> length r + hop_length)"
proof -
  have rl: "length r' \<le> length r + hop_length"
    if "resolve_location current r l = Some nxt" "rewrite_get_request_with_policy True r nxt k ns = Some r'" for l nxt k ns r'
    using resolve_location_lengths[OF that(1) assms] rewrite_length[OF that(2)] by (simp add: hop_length_def)
  have hl: "length (ep_host nxt) < MAX_HOST_BYTES" if "resolve_location current r l = Some nxt" for l nxt
    using resolve_location_lengths[OF that assms] by simp
  have ra: "post (rewrite_allocated p r nxt k ns w)
      (\<lambda>res _. case res of None \<Rightarrow> True | Some (b, r') \<Rightarrow> rewrite_get_request_with_policy True r nxt k ns = Some r')" for nxt k ns w
    unfolding rewrite_allocated_def by (auto split: option.splits intro!: post_intros)
  have "post (follow_redirect p n current b r c head names w)
     (\<lambda>t _. case t of Done code \<Rightarrow> True
            | Follow nxt b' r' \<Rightarrow> length (ep_host nxt) < MAX_HOST_BYTES \<and> length r' \<le> length r + hop_length)" for c head w
    unfolding follow_redirect_def
    by (auto simp: post_bind_if split: option.splits simp del: MAX_HOST_BYTES_def
        intro!: post_intros rl hl post_callI[OF ra] post_anyI[where m = "give_up p c b m i v" for m i v]
          post_anyI[where m = "close_connection p d v" for d v])
  then show ?thesis unfolding request_turn_def
    by (auto split: option.splits intro!: post_intros post_anyI)
qed

lemma redirect_loop_returns:
  assumes "uninterrupted p" "file_law p" "MAX_CAPTURE_BYTES < fuel" "bp \<noteq> None" "length body \<le> fuel"
  shows "n \<le> MAX_REDIRECTS \<Longrightarrow> length (ep_host current) < MAX_HOST_BYTES \<Longrightarrow>
    length r + (MAX_REDIRECTS - n) * hop_length \<le> fuel \<Longrightarrow> returns (redirect_loop fuel p body names bp mp n current b r w)"
proof (induction "MAX_REDIRECTS - n" arbitrary: n current b r w)
  case 0
  note t = request_turn_returns[OF assms(1-4) _ assms(5), of r names mp n current b w]
  show ?case using t 0 postD[OF request_turn_follows[of fuel p body names bp mp n current b r w]]
    by (subst redirect_loop.simps) (fastforce simp: returns_def split: turn.splits option.splits)
next
  case (Suc k)
  have "returns (request_turn fuel p body names bp mp n current b r w)"
    using Suc.prems(3) by (intro request_turn_returns[OF assms(1-4) _ assms(5)]) simp
  then obtain t w' where t: "request_turn fuel p body names bp mp n current b r w = Some (t, w')"
    by (auto simp: returns_def)
  show ?case
  proof (cases t)
    case (Done code)
    then show ?thesis by (subst redirect_loop.simps) (simp add: t)
  next
    case (Follow nxt b' r')
    have l: "length (ep_host nxt) < MAX_HOST_BYTES" "length r' \<le> length r + hop_length"
      using postD[OF request_turn_lengths[OF Suc.prems(2)] t] Follow by auto
    have k: "MAX_REDIRECTS - n = Suc k" "MAX_REDIRECTS - (n + 1) = k" "n + 1 \<le> MAX_REDIRECTS" using Suc.hyps(2) by auto
    have "returns (redirect_loop fuel p body names bp mp (n + 1) nxt b' r' w')"
      using Suc.prems(3) l k by (intro Suc.hyps(1)) (simp_all add: k(1))
    then show ?thesis by (subst redirect_loop.simps) (simp add: t Follow)
  qed
qed

section \<open>The chain of requests\<close>

text \<open>The endpoints and requests of the turns the loop makes, in order.\<close>

function requests_made ::
    "nat \<Rightarrow> platform \<Rightarrow> bytes \<Rightarrow> bytes option \<Rightarrow> bytes option \<Rightarrow> bytes option
     \<Rightarrow> nat \<Rightarrow> endpoint \<Rightarrow> int \<Rightarrow> bytes \<Rightarrow> world \<Rightarrow> (endpoint \<times> bytes) list" where
  "requests_made fuel p body names bp mp n current b r w =
     (current, r) # (case request_turn fuel p body names bp mp n current b r w of
                       None \<Rightarrow> []
                     | Some (Done code, w) \<Rightarrow> []
                     | Some (Follow nxt b r, w) \<Rightarrow> requests_made fuel p body names bp mp (n + 1) nxt b r w)"
  by pat_completeness auto
termination
proof (relation "measure (\<lambda>(_, _, _, _, _, _, redirects, _). Suc MAX_REDIRECTS - redirects)", goal_cases)
  case (2 fuel p body names body_path metadata_path redirects current b r w x t w' nxt b' r')
  then show ?case
    using postD[OF request_turn_follows[of fuel p body names body_path metadata_path redirects current b r w]] by fastforce
qed simp

declare requests_made.simps [simp del]

lemma requests_made_bound:
  "n \<le> MAX_REDIRECTS \<Longrightarrow> length (requests_made fuel p body names bp mp n current b r w) \<le> Suc (MAX_REDIRECTS - n)"
proof (induction fuel p body names bp mp n current b r w rule: requests_made.induct)
  case (1 fuel p body names bp mp n current b r w)
  show ?case
  proof (cases "request_turn fuel p body names bp mp n current b r w")
    case None
    then show ?thesis by (subst requests_made.simps) simp
  next
    case (Some x)
    obtain t w' where x: "x = (t, w')" by (cases x)
    show ?thesis
    proof (cases t)
      case (Done code)
      with Some x show ?thesis by (subst requests_made.simps) simp
    next
      case (Follow nxt b' r')
      have "n < MAX_REDIRECTS" using postD[OF request_turn_follows Some[unfolded x]] Follow by simp
      then have "length (requests_made fuel p body names bp mp (n + 1) nxt b' r' w') \<le> Suc (MAX_REDIRECTS - (n + 1))"
        using 1(1)[OF Some _ Follow] x by simp
      with \<open>n < MAX_REDIRECTS\<close> Some x Follow show ?thesis by (subst requests_made.simps) simp
    qed
  qed
qed

lemma requests_made_post:
  "\<not> strneq 4 r ''GET '' \<Longrightarrow> requests_made fuel p body names bp mp n current b r w = [(current, r)]"
proof -
  assume "\<not> strneq 4 r ''GET ''"
  then have "post (request_turn fuel p body names bp mp n current b r w) (\<lambda>t _. \<exists>code. t = Done code)"
    unfolding request_turn_def can_follow_def
    by (intro post_anyI) (auto split: option.splits intro!: post_intros post_anyI)
  then show ?thesis
    by (subst requests_made.simps) (fastforce simp: post_def split: option.splits turn.splits)
qed

text \<open>A hop: what a followed redirect makes of the endpoint and the request.\<close>

definition hop :: "bytes option \<Rightarrow> endpoint \<times> bytes \<Rightarrow> endpoint \<times> bytes \<Rightarrow> bool" where
  "hop names x y = (case (x, y) of ((e, r), (e', r')) \<Rightarrow>
     (\<exists>location. resolve_location e r location = Some e')
     \<and> rewrite_get_request_with_policy True r e' (same_origin e e') (if same_origin e e' then Some [] else names) = Some r')"

lemma request_turn_hop:
  "post (request_turn fuel p body names bp mp n current b r w)
     (\<lambda>t _. case t of Done code \<Rightarrow> True | Follow nxt b' r' \<Rightarrow> hop names (current, r) (nxt, r'))"
proof -
  have ra: "post (rewrite_allocated p r nxt k ns w)
      (\<lambda>res _. case res of None \<Rightarrow> True | Some (b, r') \<Rightarrow> rewrite_get_request_with_policy True r nxt k ns = Some r')" for nxt k ns w
    unfolding rewrite_allocated_def by (auto split: option.splits intro!: post_intros)
  have "post (follow_redirect p n current b r c head names w)
     (\<lambda>t _. case t of Done code \<Rightarrow> True | Follow nxt b' r' \<Rightarrow> hop names (current, r) (nxt, r'))" for c head w
    unfolding follow_redirect_def
    by (auto simp: post_bind_if hop_def split: option.splits
        intro!: post_intros post_callI[OF ra] post_anyI[where m = "give_up p c b m i v" for m i v]
          post_anyI[where m = "close_connection p d v" for d v]) blast+
  then show ?thesis unfolding request_turn_def
    by (auto split: option.splits intro!: post_intros post_anyI)
qed

text \<open>No header line but the \<open>Host\<close> line is a credential.\<close>

definition credential_free :: "bytes option \<Rightarrow> bytes \<Rightarrow> bool" where
  "credential_free names r \<longleftrightarrow>
     (\<forall>ls. request_header_lines r = Some ls \<longrightarrow>
        (\<forall>line \<in> set ls. header_line_named line ''Host'' \<or> \<not> sensitive_line False names line))"

definition consistent :: "endpoint \<times> bytes \<Rightarrow> bool" where
  "consistent x \<longleftrightarrow> endpoint_ok (fst x) \<and> request_target (snd x) MAX_TARGET_BYTES = Some (ep_target (fst x))"

lemma hop_consistent:
  assumes "hop names (e, r) (e', r')" "consistent (e, r)"
  shows "consistent (e', r') \<and> (same_origin e e' \<longrightarrow> credential_free names r \<longrightarrow> credential_free names r')
     \<and> (\<not> same_origin e e' \<longrightarrow> credential_free names r')"
proof -
  obtain l where l: "resolve_location e r l = Some e'" using assms(1) by (auto simp: hop_def)
  have ok: "endpoint_ok e'" using resolve_endpoint_ok[OF _ _ l] assms(2) by (simp add: consistent_def)
  obtain keep ns where rw: "rewrite_get_request_with_policy True r e' keep ns = Some r'"
    and k: "keep = same_origin e e'" "\<not> keep \<Longrightarrow> ns = names" using assms(1) by (auto simp: hop_def)
  obtain authority ls where tgt: "request_target r' MAX_TARGET_BYTES = Some (ep_target e')"
    and ls: "request_header_lines r = Some ls"
    and out: "request_header_lines r' = Some (rewritten authority e' keep ns ls)"
    by (rule rewrite_reads_back[OF ok rw])
  have host: "header_line_named (''Host: '' @ authority) ''Host''"
    by (simp add: header_line_named_def strncaseeq_def)
  show ?thesis
    using ok tgt ls out host k
    by (auto simp: consistent_def credential_free_def rewritten_def rewrite_lines_def rewrite_line_def
        sensitive_line_def split: if_splits)
qed

lemma same_origin_trans: "same_origin a b \<Longrightarrow> same_origin b c \<Longrightarrow> same_origin a c"
  by (auto simp: same_origin_def strcaseeq_def)

lemma requests_made_cases:
  assumes "x \<in> set (requests_made fuel p body names bp mp n current b r w)" "x \<noteq> (current, r)"
  obtains nxt b' r' w' where "request_turn fuel p body names bp mp n current b r w = Some (Follow nxt b' r', w')"
    "x \<in> set (requests_made fuel p body names bp mp (n + 1) nxt b' r' w')"
proof (cases "request_turn fuel p body names bp mp n current b r w")
  case None
  with assms show ?thesis by (simp add: requests_made.simps[of fuel p body names bp mp n current b r w])
next
  case (Some y)
  obtain t w' where y: "y = (t, w')" by (cases y)
  show ?thesis using assms Some y that
    by (cases t) (auto simp: requests_made.simps[of fuel p body names bp mp n current b r w])
qed

lemma requests_made_credentials:
  "consistent (current, r) \<Longrightarrow> same_origin e0 current \<or> credential_free names r \<Longrightarrow>
   (e, q) \<in> set (requests_made fuel p body names bp mp n current b r w) \<Longrightarrow>
   same_origin e0 e \<or> credential_free names q"
proof (induction fuel p body names bp mp n current b r w rule: requests_made.induct)
  case (1 fuel p body names bp mp n current b r w)
  show ?case
  proof (cases "(e, q) = (current, r)")
    case True
    with 1 show ?thesis by simp
  next
    case False
    with "1.prems"(3) obtain nxt b' r' w'
      where t: "request_turn fuel p body names bp mp n current b r w = Some (Follow nxt b' r', w')"
      and m: "(e, q) \<in> set (requests_made fuel p body names bp mp (n + 1) nxt b' r' w')"
      by (rule requests_made_cases)
    from postD[OF request_turn_hop t] have "hop names (current, r) (nxt, r')" by simp
    from hop_consistent[OF this "1.prems"(1)] have "consistent (nxt, r')"
      "same_origin e0 nxt \<or> credential_free names r'" using "1.prems"(2) same_origin_trans by blast+
    from "1.IH"[OF t refl refl this m] show ?thesis .
  qed
qed

section \<open>What a capture holds\<close>

text \<open>Nothing is read from a connection or written to a stream.\<close>

definition still :: "world \<Rightarrow> world \<Rightarrow> bool" where
  "still w w' \<longleftrightarrow> (\<forall>st. written (trace w') st = written (trace w) st)
     \<and> (\<forall>fd. delivered_plain (trace w') fd = delivered_plain (trace w) fd)
     \<and> (\<forall>s. delivered_tls (trace w') s = delivered_tls (trace w) s)"

lemma stillD: "still w w' \<Longrightarrow> delivered (trace w') c = delivered (trace w) c \<and> written (trace w') st = written (trace w) st"
  by (simp add: still_def delivered_def)

lemma still_refl [simp]: "still w w"
  by (simp add: still_def)

lemma still_after [simp]:
  "still w w' \<Longrightarrow> (case c of Fwrite st b \<Rightarrow> False | Recv fd n \<Rightarrow> False | Ssl_read s n \<Rightarrow> False | _ \<Rightarrow> True)
   \<Longrightarrow> still w (after c r w')"
  by (auto simp: still_def split: call.splits)

lemma private_output_still: "still w0 w \<Longrightarrow> post (private_output p path mode w) (\<lambda>_ w'. still w0 w')"
  unfolding private_output_def Let_def by (auto intro!: post_intros)

lemma close_connection_still: "still w0 w \<Longrightarrow> post (close_connection p c w) (\<lambda>_ w'. still w0 w')"
  unfolding close_connection_def by (auto simp: post_bind_if intro!: post_intros)

lemma utf8_file_loop_still: "still w0 w \<Longrightarrow> post (utf8_file_loop k p f all used w) (\<lambda>_ w'. still w0 w')"
  by (induction k arbitrary: all used w)
     (auto simp: post_None post_bind_if Let_def abandon_file_def intro!: post_intros)

lemma write_response_metadata_still:
  "still w0 w \<Longrightarrow> post (write_response_metadata fuel p path head n body_path w) (\<lambda>_ w'. still w0 w')"
  unfolding write_response_metadata_def valid_utf8_file_def
  by (auto simp: post_bind_if split: option.splits intro!: post_intros post_callI[OF private_output_still[where ?w0.0 = w0]]
      post_callI[OF utf8_file_loop_still[where ?w0.0 = w0]])

definition captured :: "response_head \<Rightarrow> bytes \<Rightarrow> bool" where
  "captured head body \<longleftrightarrow> \<not> rh_invalid_framing head \<and> 200 \<le> rh_status head \<and> rh_status head < 300
     \<and> (rh_content_length head < 0 \<or> rh_content_length head = int (length body))
     \<and> length body \<le> MAX_CAPTURE_BYTES"

definition takes :: "response_head \<Rightarrow> bytes \<Rightarrow> world \<Rightarrow> connection \<Rightarrow> world \<Rightarrow> bool" where
  "takes head prefix w c w' \<longleftrightarrow> (\<exists>new c' f. captured head (prefix @ new)
      \<and> delivered (trace w') c' = delivered (trace w) c @ new
      \<and> written (trace w') (Stream f) = written (trace w) (Stream f) @ prefix @ new)"

lemma takes_still: "takes head prefix w c w' \<Longrightarrow> still w0 w \<Longrightarrow> takes head prefix w0 c w'"
  using stillD[of w0 w] by (simp add: takes_def)

lemma deliver_to_captures:
  assumes "\<not> rh_invalid_framing head"
  shows "post (deliver_to fuel p c b head prefix (Stream f) (Some path) mp w)
     (\<lambda>code w'. code = 0 \<longrightarrow> takes head prefix w c w')"
  unfolding deliver_to_def Let_def
  apply (rule post_callI[OF post_conj[OF copy_remaining_body_copies copy_remaining_body_code]], clarify)
  subgoal for ok n c' w1
  proof -
    assume c: "ok \<longrightarrow> (\<exists>new. delivered (trace w1) c' = delivered (trace w) c @ new
          \<and> written (trace w1) (Stream f) = written (trace w) (Stream f) @ prefix @ new \<and> n = length (prefix @ new))"
      and m: "Stream f \<noteq> Stdout \<longrightarrow> n \<le> MAX_CAPTURE_BYTES"
    have fin: "takes head prefix w c w'"
      if st: "still w1 w'" and "ok" "0 \<le> rh_content_length head \<longrightarrow> rh_content_length head = int n"
        "\<not> rh_status head < 200" "\<not> 300 \<le> rh_status head" for w'
    proof -
      from c \<open>ok\<close> obtain new where new: "delivered (trace w1) c' = delivered (trace w) c @ new"
        "written (trace w1) (Stream f) = written (trace w) (Stream f) @ prefix @ new" "n = length (prefix @ new)" by blast
      have "captured head (prefix @ new)" using that new(3) m assms by (auto simp: captured_def)
      with new stillD[OF st] show ?thesis unfolding takes_def by metis
    qed
    show ?thesis
      by (auto split: if_splits intro!: post_intros post_callI[OF write_response_metadata_still[where ?w0.0 = w1]]
          post_callI[OF close_connection_still[where ?w0.0 = w1]] fin)
  qed
  done

lemma deliver_captures:
  "post (deliver fuel p c b head prefix (Some path) mp w) (\<lambda>code w'. code = 0 \<longrightarrow> takes head prefix w c w')"
proof -
  have g: "post (give_up p c b m code w1) (\<lambda>r w'. r = 0 \<longrightarrow> takes head prefix w c w')" if "code \<noteq> 0" for m code w1
    by (rule post_mono[OF give_up_code]) (use that in simp)
  have d: "post (deliver_to fuel p c b head prefix (Stream f) (Some path) mp w1)
     (\<lambda>code w'. code = 0 \<longrightarrow> takes head prefix w c w')"
    if "still w w1" "\<not> rh_invalid_framing head" for f w1
    by (rule post_mono[OF deliver_to_captures[OF that(2)]]) (use takes_still[OF _ that(1)] in simp)
  show ?thesis unfolding deliver_def option.case
    by (intro post_ifI post_callI[OF private_output_still[OF still_refl]]) (simp_all add: g d)
qed

text \<open>
  The bytes of a captured response: a connection delivered a head, up to the first empty line, and the
  body, and a file took the same body.
\<close>

definition capture_of :: "history \<Rightarrow> response_head \<Rightarrow> bytes \<Rightarrow> bool" where
  "capture_of h head body \<longleftrightarrow>
     captured head body
     \<and> (\<exists>c before head_bytes. delivered h c = before @ head_bytes @ body
          \<and> find_header_end (head_bytes @ body) = Some (length head_bytes) \<and> interpret_head head_bytes = Some head)
     \<and> (\<exists>f before. written h (Stream f) = before @ body)"

lemma takes_capture:
  assumes "takes head prefix w c w'" "head_of received head prefix" "delivered (trace w) c = before @ received"
  shows "\<exists>body. capture_of (trace w') head body"
proof -
  from assms(2) obtain n where n: "find_header_end received = Some n" "interpret_head (take n received) = Some head"
    "prefix = drop n received" by (auto simp: head_of_def)
  have len: "n \<le> length received" using n(1) find_sub_SomeD[of "CRLF @ CRLF" received] by (auto simp: find_header_end_def)
  from assms(1) obtain new c' f where new: "captured head (prefix @ new)"
    "delivered (trace w') c' = delivered (trace w) c @ new"
    "written (trace w') (Stream f) = written (trace w) (Stream f) @ prefix @ new" by (auto simp: takes_def)
  have split: "received @ new = take n received @ prefix @ new" using n(3) by simp
  have "find_header_end (received @ new) = Some n"
    using n(1) find_sub_append[of "CRLF @ CRLF" received] by (auto simp: find_header_end_def)
  then have "find_header_end (take n received @ prefix @ new) = Some (length (take n received))"
    using len split by simp
  with new n(2) assms(3) split show ?thesis unfolding capture_of_def
    by (intro exI[of _ "prefix @ new"] conjI exI[of _ c'] exI[of _ f] exI[of _ "take n received"] exI[of _ before]
        exI[of _ "written (trace w) (Stream f)"]) auto
qed

lemma one_request_head:
  "post (one_request fuel p target headers body w) (\<lambda>(_, received, c) w'. \<forall>head prefix. received = Some (head, prefix) \<longrightarrow>
     (\<exists>before bs. delivered (trace w') c = before @ bs \<and> head_of bs head prefix))"
  unfolding one_request_def read_response_head_def
  apply (rule post_anyI, clarify)
  subgoal for ok c w'
    by (cases ok) (fastforce simp: post_bind_if post_Some split: option.splits if_splits
        intro!: post_intros post_anyI[where m = "write_all f p c b v" for f b v]
          post_anyI[where m = "close_connection p d v" for d v] post_callI[OF head_loop_delivers])+
  done

lemma request_turn_captures:
  "post (request_turn fuel p body names (Some path) mp n current b r w)
     (\<lambda>t w'. t = Done 0 \<longrightarrow> (\<exists>head body. capture_of (trace w') head body))"
  unfolding request_turn_def
  apply (rule post_callI[OF post_conj[OF one_request_head one_request_code]], clarify)
  subgoal for code received c w1
  proof (cases received)
    case None
    assume "if received = None then code \<in> {4, 5, 6, 7, 11, 13, 14} else code = 0 \<and> co_failure_code c = 13"
    then have "code \<noteq> 0" using None by auto
    then show ?thesis by (auto simp: None intro!: post_intros)
  next
    case (Some hp)
    obtain head prefix where hp: "hp = (head, prefix)" by (cases hp)
    assume "\<forall>head prefix. received = Some (head, prefix) \<longrightarrow>
       (\<exists>before bs. delivered (trace w1) c = before @ bs \<and> head_of bs head prefix)"
    then obtain before bs where bs: "delivered (trace w1) c = before @ bs" "head_of bs head prefix"
      using Some hp by auto
    have f: "post (follow_redirect p n current b r c head names w1)
        (\<lambda>t w'. t = Done 0 \<longrightarrow> (\<exists>head body. capture_of (trace w') head body))"
      by (rule post_mono[OF follow_redirect_code]) (auto simp: turn_code_def)
    show ?thesis using takes_capture[OF _ bs(2,1)] f
      by (auto simp: Some hp intro!: post_intros post_callI[OF deliver_captures]) blast
  qed
  done

lemma redirect_loop_captures:
  "bp = Some path \<Longrightarrow> post (redirect_loop fuel p body names bp mp n current b r w)
     (\<lambda>code w'. code = 0 \<longrightarrow> (\<exists>head body. capture_of (trace w') head body))"
proof (induction fuel p body names bp mp n current b r w rule: redirect_loop.induct)
  case (1 fuel p body names bp mp n current b r w)
  show ?case
    using 1 postD[OF request_turn_captures[of fuel p body names path mp n current b r w]]
    by (subst redirect_loop.simps) (auto simp: post_Some post_None split: option.splits turn.splits)
qed

lemma send_request_captures:
  "post (send_request fuel p host port headers body len tls names (Some path) mp w)
     (\<lambda>code w'. code = 0 \<longrightarrow> (\<exists>head body. capture_of (trace w') head body))"
  unfolding send_request_def Let_def
  by (intro post_ifI post_complain_bindI post_sys_bindI post_SomeI redirect_loop_captures) simp_all

section \<open>Properties\<close>

text \<open>
  C4: no leak. Whatever the system answers, however many redirects are followed and wherever the
  request fails, \<open>send_request\<close> gives back every socket, address list, TLS context, TLS session, file and
  heap block it acquired, each exactly once.
\<close>

theorem send_request_no_leak:
  assumes "holds w F"
    "send_request fuel p host port headers body len tls names body_path metadata_path w = Some (code, w')"
  shows "holds w' F"
  using postD[OF send_request_holds[OF assms(1)] assms(2)] .

definition get_request :: bytes where
  "get_request = ''GET /a HTTP/1.0'' @ CRLF @ ''Host: example.org'' @ CRLF @ ''Cookie: s=1'' @ CRLF @ CRLF"

definition redirect_response :: bytes where
  "redirect_response = ''HTTP/1.0 302 Found'' @ CRLF @ ''Location: http://other.example/b'' @ CRLF @ CRLF"

definition ok_response :: bytes where
  "ok_response = ''HTTP/1.0 200 OK'' @ CRLF @ ''Content-Length: 2'' @ CRLF @ CRLF @ ''hi''"

definition demo :: platform where
  "demo = scripted [redirect_response, ok_response] ''hi''"

definition demo_fetch :: "(int \<times> world) option" where
  "demo_fetch = send_request 100 demo ''example.org'' 443 get_request None 0 True None (Some ''body'') (Some ''meta'') start"

lemma demo_fetch_ok: "demo_fetch = Some (0, snd (the demo_fetch))"
proof -
  have "demo_fetch \<noteq> None \<and> fst (the demo_fetch) = 0" by code_simp
  then show ?thesis by (metis option.collapse prod.collapse)
qed

theorem send_request_no_leak_witness: "holds (snd (the demo_fetch)) {#}"
  using send_request_no_leak[OF holds_start demo_fetch_ok[unfolded demo_fetch_def]] by (simp add: demo_fetch_def)



text \<open>
  C2: credentials stay with their origin along any chain of redirects. The loop starts from an
  acceptable endpoint whose target is the one of the request line; any request it makes to an endpoint that is
  not of the first origin has no \<open>Authorization\<close>, \<open>Cookie\<close> or declared credential header line,
  even when the chain returns through several origins.
\<close>

theorem redirects_protect_credentials:
  assumes "endpoint_ok first" "request_target request MAX_TARGET_BYTES = Some (ep_target first)"
    "(target, sent) \<in> set (requests_made fuel p body names body_path metadata_path 0 first block request w)"
    "\<not> same_origin first target"
  shows "credential_free names sent"
  using requests_made_credentials[of first request first names target sent] assms
  by (auto simp: consistent_def same_origin_def)

definition demo_first :: endpoint where
  "demo_first = \<lparr>ep_use_tls = True, ep_port = 443, ep_host = ''example.org'', ep_target = ''/a''\<rparr>"

definition demo_requests :: "(endpoint \<times> bytes) list" where
  "demo_requests = requests_made 100 demo [] (Some []) (Some ''body'') (Some ''meta'') 0 demo_first 31 get_request start"

theorem redirects_protect_credentials_witness:
  "length demo_requests = 2 \<and> credential_free (Some []) (snd (demo_requests ! 1))"
proof -
  have len: "length demo_requests = 2" by code_simp
  have ok: "endpoint_ok demo_first" by code_simp
  have t: "request_target get_request MAX_TARGET_BYTES = Some (ep_target demo_first)" by code_simp
  have o: "\<not> same_origin demo_first (fst (demo_requests ! 1))" by code_simp
  have m: "(fst (demo_requests ! 1), snd (demo_requests ! 1)) \<in> set demo_requests" using len by simp
  from redirects_protect_credentials[OF ok t m[unfolded demo_requests_def] o[unfolded demo_requests_def]] len
  show ?thesis by (simp add: demo_requests_def)
qed

text \<open>
  redirects are bounded, and only GET requests follow them. A call makes at most nine requests;
  one whose request is not a GET makes exactly one.
\<close>

theorem redirects_bounded:
  "length (requests_made fuel p body names body_path metadata_path 0 first block request w)
     \<le> (if strneq 4 request ''GET '' then 9 else 1)"
  using requests_made_bound[of 0 fuel p body names body_path metadata_path first block request w]
    requests_made_post[of request fuel p body names body_path metadata_path 0 first block w]
  by (simp add: MAX_REDIRECTS_def)

text \<open>
  C3: request bytes only ever enter an authenticated session. From a history in which every TLS write
  was on an authenticated session, \<open>send_request\<close> leads only to such histories: no byte is written
  to a session before its handshake succeeded with peer verification and the expected host set.
\<close>

theorem send_request_tls_safe:
  assumes "tls_safe (trace w)"
    "send_request fuel p host port headers body len tls names body_path metadata_path w = Some (code, w')"
  shows "tls_safe (trace w')"
  using postD[OF send_request_tls[OF assms(1)] assms(2)] .

theorem send_request_tls_safe_witness: "tls_safe (trace (snd (the demo_fetch)))"
  using send_request_tls_safe[OF _ demo_fetch_ok[unfolded demo_fetch_def]] by (simp add: demo_fetch_def start_def)

text \<open>
  the result codes are the documented ones. Without an output path the result is one of 0 and 2 to 8;
  with one it is one of 0 and 2 to 14.
\<close>

theorem send_request_codes:
  assumes "send_request fuel p host port headers body len tls names body_path metadata_path w = Some (code, w')"
  shows "code \<in> (if body_path = None then {0, 2, 3, 4, 5, 6, 7, 8}
                 else {0, 2, 3, 4, 5, 6, 7, 8, 9, 10, 11, 12, 13, 14})"
  using postD[OF send_request_code assms] unfolding stdout_codes_def capture_codes_def .

theorem send_request_codes_witness:
  "fst (the demo_fetch) \<in> {0, 2, 3, 4, 5, 6, 7, 8, 9, 10, 11, 12, 13, 14 :: int}"
proof -
  have "fst (the demo_fetch) = 0" by (subst demo_fetch_ok) simp
  with send_request_codes[OF demo_fetch_ok[unfolded demo_fetch_def]] show ?thesis by simp
qed



text \<open>
  a failed write of the capture file is reported as a malformed response. After a response head was
  read the failure code of the connection is 13, and nothing resets it; when the output file then
  refuses the body prefix, the result is 13 and not the 7 of an output failure.
\<close>

theorem capture_write_failure_code:
  assumes "co_failure_code c = 13" "prefix \<noteq> []" "length prefix \<le> MAX_CAPTURE_BYTES"
    "ret (os p (trace w) (Fwrite (Stream f) prefix)) \<noteq> int (length prefix)"
    "deliver_to fuel p c block head prefix (Stream f) (Some path) metadata_path w = Some (code, w')"
  shows "code = 13"
proof -
  have copy: "\<exists>w1. copy_remaining_body fuel p c (Stream f) prefix w = Some ((False, 0, c), w1)"
    using assms(2-4) by (simp add: copy_remaining_body_def write_output_def complain_def sys_def Let_def)
  then obtain w1 where "copy_remaining_body fuel p c (Stream f) prefix w = Some ((False, 0, c), w1)" by blast
  then have "post (deliver_to fuel p c block head prefix (Stream f) (Some path) metadata_path w) (\<lambda>code _. code = 13)"
    unfolding deliver_to_def using assms(1) by (auto simp: Let_def intro!: post_intros post_anyI)
  from postD[OF this assms(5)] show ?thesis .
qed

definition full_disk :: platform where
  "full_disk = demo\<lparr>os := (\<lambda>h c. case c of Fwrite st b \<Rightarrow> reply_of 0 | _ \<Rightarrow> scripted_os [redirect_response, ok_response] ''hi'' h c)\<rparr>"

definition full_disk_delivery :: "(int \<times> world) option" where
  "full_disk_delivery =
     deliver_to 10 full_disk (sample_connection\<lparr>co_failure_code := 13\<rparr>) 31
       (the (interpret_head ok_response)) ''hi'' (Stream 21) (Some ''body'') None connected"

theorem capture_write_failure_code_witness: "fst (the full_disk_delivery) = 13"
proof -
  have "full_disk_delivery \<noteq> None" by code_simp
  then have "full_disk_delivery = Some (fst (the full_disk_delivery), snd (the full_disk_delivery))" by auto
  from capture_write_failure_code[OF _ _ _ _ this[unfolded full_disk_delivery_def], folded full_disk_delivery_def]
  show ?thesis by (simp add: full_disk_def demo_def scripted_def reply_of_def MAX_CAPTURE_BYTES_def)
qed

end
