(* ===== verification/Icu_Jni.thy ===== *)
theory Icu_Jni
  imports Icu_Transport
begin

text \<open>
  The two Java bridges: \<open>native/android_jni.c\<close>, which serves the generated Idric program on Android, and
  \<open>android/jni_transport.c\<close>. The Java runtime is a parameter like the system: \<open>J\<close> answers each
  JNI call from the history of calls, and says whether the call left an exception pending. A
  reference is a number, 0 for null; a block is its address with its contents. \<open>bridge_abort\<close> ends the
  process, so an operation either returns or exits.
\<close>

section \<open>The Java runtime\<close>

datatype jcall =
    FindClass bytes | GetMethodID int bytes bytes | NewStringUTF bytes | CallGetBytes int int int
  | GetArrayLength int | GetByteArrayRegion int int | GetObjectArrayElement int int
  | NewGlobalRef int | DeleteGlobalRef int | DeleteLocalRef int | ExceptionClear
  | JMalloc int | JFree int | Eprint bytes | Put_stdout bytes | Flush_stdout | Flush_stderr | Flush_all

record jreply =
  jret :: int
  jbytes :: bytes
  jthrows :: bool

record jvm =
  jtrace :: "(jcall \<times> jreply) list"
  pending :: bool
  captured_arguments :: int

type_synonym runtime = "(jcall \<times> jreply) list \<Rightarrow> jcall \<Rightarrow> jreply"

datatype 'a outcome = Returned 'a | Exited int

definition jni :: "runtime \<Rightarrow> jcall \<Rightarrow> jvm \<Rightarrow> jreply \<times> jvm" where
  "jni J c v = (let r = J (jtrace v) c
                in (r, v\<lparr>jtrace := (c, r) # jtrace v, pending := pending v \<or> jthrows r\<rparr>))"

definition jdo :: "runtime \<Rightarrow> jcall \<Rightarrow> jvm \<Rightarrow> jvm" where
  "jdo J c v = snd (jni J c v)"

fun jdo_all :: "runtime \<Rightarrow> jcall list \<Rightarrow> jvm \<Rightarrow> jvm" where
  "jdo_all J [] v = v"
| "jdo_all J (c # cs) v = jdo_all J cs (jdo J c v)"

definition clear_exception :: "runtime \<Rightarrow> bytes \<Rightarrow> jvm \<Rightarrow> bool \<times> jvm" where
  "clear_exception J stage v =
     (if \<not> pending v then (True, v)
      else (False, jdo_all J [Eprint (''icu: Android JNI bridge failed during '' @ stage @ [LF]), Flush_stderr]
                     ((jdo J ExceptionClear v)\<lparr>pending := False\<rparr>)))"

section \<open>native/android_jni.c\<close>

text \<open>A null reference, or a reference with an exception that was pending: refused.\<close>

definition checked_ref :: "runtime \<Rightarrow> jcall \<Rightarrow> bytes \<Rightarrow> jvm \<Rightarrow> (int option) \<times> jvm" where
  "checked_ref J c stage v =
     (let (r, v) = jni J c v
      in if jret r = 0 then (None, v)
         else let (clear, v) = clear_exception J stage v
              in (if clear then Some (jret r) else None, v))"

text \<open>The bytes a region copy stored, as many as it was asked for.\<close>

definition copied_bytes :: "jreply \<Rightarrow> int \<Rightarrow> bytes" where
  "copied_bytes g n = take (nat n) (jbytes g @ replicate (nat n) NUL)"

definition copy_bytes :: "runtime \<Rightarrow> int \<Rightarrow> jvm \<Rightarrow> ((int \<times> bytes) option) \<times> jvm" where
  "copy_bytes J array v =
     (let (l, v) = jni J (GetArrayLength array) v;
          (clear, v) = clear_exception J ''measuring UTF-8'' v
      in if \<not> clear then (None, v)
         else let (m, v) = jni J (JMalloc (jret l + 1)) v
              in if jret m = 0 then (None, v)
                 else if jret l = 0 then (Some (jret m, []), v)
                 else let (g, v) = jni J (GetByteArrayRegion array (jret l)) v;
                          (clear, v) = clear_exception J ''copying UTF-8'' v
                      in if clear then (Some (jret m, copied_bytes g (jret l)), v)
                         else (None, jdo J (JFree (jret m)) v))"

definition copy_java_utf8 :: "runtime \<Rightarrow> int \<Rightarrow> jvm \<Rightarrow> ((int \<times> bytes) option) \<times> jvm" where
  "copy_java_utf8 J value v =
     (if value = 0 then (None, v)
      else case checked_ref J (FindClass ''java/lang/String'') ''finding String'' v of
        (None, v) \<Rightarrow> (None, v)
      | (Some string_class, v) \<Rightarrow>
          (case checked_ref J (GetMethodID string_class ''getBytes'' ''(Ljava/lang/String;)[B'')
                  ''finding String.getBytes'' v of
             (None, v) \<Rightarrow> (None, jdo J (DeleteLocalRef string_class) v)
           | (Some get_bytes, v) \<Rightarrow>
               (case checked_ref J (NewStringUTF ''UTF-8'') ''selecting UTF-8'' v of
                  (None, v) \<Rightarrow> (None, jdo J (DeleteLocalRef string_class) v)
                | (Some utf8, v) \<Rightarrow>
                    (case checked_ref J (CallGetBytes value get_bytes utf8) ''encoding UTF-8'' v of
                       (None, v) \<Rightarrow> (None, jdo_all J [DeleteLocalRef utf8, DeleteLocalRef string_class] v)
                     | (Some array, v) \<Rightarrow>
                         (case copy_bytes J array v of
                            (result, v) \<Rightarrow>
                              (result, jdo_all J [DeleteLocalRef array, DeleteLocalRef utf8,
                                                  DeleteLocalRef string_class] v))))))"

definition bridge_abort :: "runtime \<Rightarrow> bytes \<Rightarrow> jvm \<Rightarrow> 'a outcome \<times> jvm" where
  "bridge_abort J message v =
     (Exited 1, jdo_all J [Eprint (''icu: Android JNI bridge: '' @ message @ [LF]), Flush_stderr] v)"

definition captureArguments :: "runtime \<Rightarrow> int \<Rightarrow> jvm \<Rightarrow> unit outcome \<times> jvm" where
  "captureArguments J arguments v =
     (if arguments = 0 then bridge_abort J ''app_process supplied no argument array'' v
      else case checked_ref J (NewGlobalRef arguments) ''capturing arguments'' v of
             (None, v) \<Rightarrow> bridge_abort J ''could not retain app_process arguments'' v
           | (Some saved, v) \<Rightarrow>
               (let v = (if captured_arguments v \<noteq> 0 then jdo J (DeleteGlobalRef (captured_arguments v)) v else v)
                in (Returned (), v\<lparr>captured_arguments := saved\<rparr>)))"

definition idricArgumentCount :: "runtime \<Rightarrow> jvm \<Rightarrow> int outcome \<times> jvm" where
  "idricArgumentCount J v =
     (if captured_arguments v = 0 then bridge_abort J ''arguments were read before captureArguments'' v
      else let (l, v) = jni J (GetArrayLength (captured_arguments v)) v;
               (clear, v) = clear_exception J ''counting arguments'' v
           in if \<not> clear \<or> jret l = INT_MAX then bridge_abort J ''could not count arguments'' v
              else (Returned (jret l + 1), v))"

definition idricArgument :: "runtime \<Rightarrow> int \<Rightarrow> jvm \<Rightarrow> int outcome \<times> jvm" where
  "idricArgument J index v =
     (if captured_arguments v = 0 then bridge_abort J ''arguments were read before captureArguments'' v
      else if index = 0 then
        (case checked_ref J (NewStringUTF ''icu'') ''creating argv[0]'' v of
           (None, v) \<Rightarrow> bridge_abort J ''could not create argv[0]'' v
         | (Some executable, v) \<Rightarrow> (Returned executable, v))
      else let (l, v) = jni J (GetArrayLength (captured_arguments v)) v;
               (clear, v) = clear_exception J ''checking argument index'' v
           in if \<not> clear \<or> index < 1 \<or> index > jret l then bridge_abort J ''argument index is out of range'' v
              else case checked_ref J (GetObjectArrayElement (captured_arguments v) (index - 1)) ''reading argument'' v of
                     (None, v) \<Rightarrow> bridge_abort J ''could not read argument'' v
                   | (Some value, v) \<Rightarrow> (Returned value, v))"

definition idricPutString :: "runtime \<Rightarrow> int \<Rightarrow> jvm \<Rightarrow> unit outcome \<times> jvm" where
  "idricPutString J text_ref v =
     (case copy_java_utf8 J text_ref v of
        (None, v) \<Rightarrow> bridge_abort J ''could not encode stdout text'' v
      | (Some (block, bs), v) \<Rightarrow>
          (let (written, v) = (if bs = [] then (True, v)
                               else let (r, v) = jni J (Put_stdout bs) v in (jret r = int (length bs), v));
               v = jdo J (JFree block) v
           in if \<not> written then bridge_abort J ''stdout write failed'' v
              else (Returned (), jdo J Flush_stdout v)))"

definition idricExit :: "runtime \<Rightarrow> int \<Rightarrow> jvm \<Rightarrow> unit outcome \<times> jvm" where
  "idricExit J status v = (Exited status, jdo J Flush_all v)"

text \<open>
  \<open>send\<close>: the three copies in order, stopping at the first that fails, the checks, the transport, and
  the common exit that frees what was copied.
\<close>

definition block_of :: "(int \<times> bytes) option \<Rightarrow> int" where
  "block_of x = (case x of None \<Rightarrow> 0 | Some (block, bs) \<Rightarrow> block)"

definition copy_three :: "runtime \<Rightarrow> int \<Rightarrow> int \<Rightarrow> int \<Rightarrow> jvm
    \<Rightarrow> ((int \<times> bytes) option \<times> (int \<times> bytes) option \<times> (int \<times> bytes) option) \<times> jvm" where
  "copy_three J host_value head_value body_value v =
     (let (host, v) = copy_java_utf8 J host_value v
      in if host = None then ((None, None, None), v)
         else let (head, v) = copy_java_utf8 J head_value v
              in if head = None then ((host, None, None), v)
                 else let (body, v) = copy_java_utf8 J body_value v in ((host, head, body), v))"

definition send_done :: "runtime \<Rightarrow> int \<Rightarrow> int \<Rightarrow> int \<Rightarrow> jvm \<Rightarrow> jvm" where
  "send_done J host head body v = jdo_all J [JFree body, JFree head, JFree host, Flush_stdout, Flush_stderr] v"

definition send ::
    "runtime \<Rightarrow> nat \<Rightarrow> platform \<Rightarrow> int \<Rightarrow> int \<Rightarrow> int \<Rightarrow> int \<Rightarrow> int \<Rightarrow> bool \<Rightarrow> jvm \<Rightarrow> world
     \<Rightarrow> ((int \<times> jvm) \<times> world) option" where
  "send J fuel p host_value port head_value body_value body_length secure v w =
     (if body_length < 0 then
        Some ((255, send_done J 0 0 0
                      (jdo J (Eprint (''icu: Android JNI bridge could not encode transport text'' @ [LF])) v)), w)
      else case copy_three J host_value head_value body_value v of
        ((Some (host_block, host), Some (head_block, head), Some (body_block, body)), v) \<Rightarrow>
          (if NUL \<in> set host \<or> NUL \<in> set head then
             Some ((255, send_done J host_block head_block body_block
                           (jdo J (Eprint (''icu: Android JNI bridge rejected embedded NUL metadata'' @ [LF])) v)), w)
           else if int (length body) \<noteq> body_length then
             Some ((255, send_done J host_block head_block body_block
                           (jdo J (Eprint (''icu: Android JNI bridge UTF-8 length disagrees with checked byte count'' @ [LF])) v)), w)
           else do {
             (result, w) \<leftarrow>
               (if secure then icu_send_https fuel p host port head (Some body) body_length w
                else icu_send_http fuel p host port head (Some body) body_length w);
             Some ((result, send_done J host_block head_block body_block v), w)
           })
      | ((host, head, body), v) \<Rightarrow>
          Some ((255, send_done J (block_of host) (block_of head) (block_of body)
                        (jdo J (Eprint (''icu: Android JNI bridge could not encode transport text'' @ [LF])) v)), w))"

definition icuSendHttp where
  "icuSendHttp J fuel p host port head body body_length v w = send J fuel p host port head body body_length False v w"

definition icuSendHttps where
  "icuSendHttps J fuel p host port head body body_length v w = send J fuel p host port head body body_length True v w"

section \<open>android/jni_transport.c\<close>

text \<open>A Java string argument with the answers of \<open>GetStringChars\<close> and \<open>malloc\<close> for it.\<close>

type_synonym jstring_arg = "16 word list option \<times> bool \<times> bool"

definition convert :: "jstring_arg \<Rightarrow> bytes option" where
  "convert x = (case x of (value, chars_ok, malloc_ok) \<Rightarrow> jstring_to_utf8 value chars_ok malloc_ok)"

definition send_request_from_java ::
    "nat \<Rightarrow> platform \<Rightarrow> bool \<Rightarrow> jstring_arg \<Rightarrow> int \<Rightarrow> jstring_arg \<Rightarrow> jstring_arg \<Rightarrow> int \<Rightarrow> world
     \<Rightarrow> (int \<times> world) option" where
  "send_request_from_java fuel p use_tls host_text port headers_text body_text declared_body_length w =
     (case (convert host_text, convert headers_text, convert body_text) of
        (Some host, Some request_headers, Some request_body) \<Rightarrow>
          (if declared_body_length < 0 \<or> declared_body_length \<noteq> int (length request_body) then Some (-1, w)
           else if use_tls then
             icu_send_https fuel p (cstr host) port (cstr request_headers) (Some request_body) (int (length request_body)) w
           else
             icu_send_http fuel p (cstr host) port (cstr request_headers) (Some request_body) (int (length request_body)) w)
      | _ \<Rightarrow> Some (-1, w))"

definition nativeSendHttp where
  "nativeSendHttp fuel p host port headers body body_length w =
     send_request_from_java fuel p False host port headers body body_length w"

definition nativeSendHttps where
  "nativeSendHttps fuel p host port headers body body_length w =
     send_request_from_java fuel p True host port headers body body_length w"

section \<open>References and blocks\<close>

datatype jresource = Local int | JBlock int

definition jacquired :: "jcall \<Rightarrow> jreply \<Rightarrow> jresource multiset" where
  "jacquired c r =
     (case c of
        FindClass n \<Rightarrow> if jret r \<noteq> 0 then {#Local (jret r)#} else {#}
      | NewStringUTF b \<Rightarrow> if jret r \<noteq> 0 then {#Local (jret r)#} else {#}
      | CallGetBytes x y z \<Rightarrow> if jret r \<noteq> 0 then {#Local (jret r)#} else {#}
      | JMalloc n \<Rightarrow> if jret r \<noteq> 0 then {#JBlock (jret r)#} else {#}
      | _ \<Rightarrow> {#})"

definition jreleased :: "jcall \<Rightarrow> jresource multiset" where
  "jreleased c = (case c of DeleteLocalRef x \<Rightarrow> {#Local x#} | JFree b \<Rightarrow> if b \<noteq> 0 then {#JBlock b#} else {#} | _ \<Rightarrow> {#})"

fun jlive :: "(jcall \<times> jreply) list \<Rightarrow> jresource multiset" where
  "jlive [] = {#}"
| "jlive ((c, r) # h) = jlive h - jreleased c + jacquired c r"

fun jbalanced :: "(jcall \<times> jreply) list \<Rightarrow> bool" where
  "jbalanced [] = True"
| "jbalanced ((c, r) # h) \<longleftrightarrow> jbalanced h \<and> jreleased c \<subseteq># jlive h"

definition jholds :: "jvm \<Rightarrow> jresource multiset \<Rightarrow> bool" where
  "jholds v R \<longleftrightarrow> jbalanced (jtrace v) \<and> jlive (jtrace v) = R"

lemmas jresource_simps = jholds_def jacquired_def jreleased_def

lemma jholds_pending [simp]: "jholds (v\<lparr>pending := b\<rparr>) R = jholds v R"
  by (simp add: jholds_def)

lemma jholds_captured [simp]: "jholds (v\<lparr>captured_arguments := b\<rparr>) R = jholds v R"
  by (simp add: jholds_def)

lemma jdo_holds:
  assumes "jholds v R" "\<And>r. jacquired c r = {#}" "jreleased c \<subseteq># R"
  shows "jholds (jdo J c v) (R - jreleased c)"
  using assms by (simp add: jdo_def jni_def Let_def jholds_def)

text \<open>Documented of JNI: a call that throws returns a null reference.\<close>

definition runtime_law :: "runtime \<Rightarrow> bool" where
  "runtime_law J \<longleftrightarrow> (\<forall>h c. jthrows (J h c) \<longrightarrow> jret (J h c) = 0)"

lemma clear_exception_holds:
  "clear_exception J stage v = (ok, v') \<Longrightarrow> jholds v R \<Longrightarrow> jholds v' R \<and> (ok \<longrightarrow> \<not> pending v') \<and> (\<not> pending v \<longrightarrow> ok)"
  by (auto simp: clear_exception_def jdo_def jni_def Let_def jresource_simps split: if_splits)

lemma checked_ref_holds:
  assumes "checked_ref J c stage v = (res, v')" "runtime_law J" "\<not> pending v" "jholds v R" "jreleased c = {#}"
  shows "case res of None \<Rightarrow> jholds v' R
         | Some x \<Rightarrow> x \<noteq> 0 \<and> \<not> pending v' \<and> (\<exists>r. jret r = x \<and> jholds v' (jacquired c r + R))"
proof -
  let ?r = "J (jtrace v) c"
  let ?v = "v\<lparr>jtrace := (c, ?r) # jtrace v, pending := jthrows ?r\<rparr>"
  have h: "jholds ?v (jacquired c ?r + R)" using assms(4,5) by (simp add: jholds_def)
  show ?thesis
  proof (cases "jret ?r = 0")
    case True
    then have "jacquired c ?r = {#}" by (simp add: jacquired_def split: jcall.splits)
    with assms(1,3) True h show ?thesis by (auto simp: checked_ref_def jni_def Let_def)
  next
    case False
    then have "\<not> jthrows ?r" using assms(2) by (auto simp: runtime_law_def)
    then have "res = Some (jret ?r)" "v' = ?v"
      using assms(1,3) False by (auto simp: checked_ref_def jni_def Let_def clear_exception_def)
    with h False \<open>\<not> jthrows ?r\<close> show ?thesis by auto
  qed
qed

lemma copy_bytes_holds:
  assumes "copy_bytes J a v = (res, v')" "runtime_law J" "\<not> pending v" "jholds v R"
  shows "case res of None \<Rightarrow> jholds v' R | Some (b, bs) \<Rightarrow> b \<noteq> 0 \<and> \<not> pending v' \<and> jholds v' (add_mset (JBlock b) R)"
  using assms
  by (auto simp: copy_bytes_def jni_def jdo_def Let_def clear_exception_def runtime_law_def jresource_simps
      split: if_splits)

lemma delete_holds:
  "jholds v (add_mset (Local x) R) \<Longrightarrow> jholds (jdo J (DeleteLocalRef x) v) R"
  "pending (jdo J (DeleteLocalRef x) v) = (pending v \<or> jthrows (J (jtrace v) (DeleteLocalRef x)))"
  by (auto simp: jdo_def jni_def Let_def jresource_simps)

lemma checked_class:
  assumes "checked_ref J (FindClass n) stage v = (Some x, v')" "runtime_law J" "\<not> pending v" "jholds v R"
  shows "x \<noteq> 0 \<and> \<not> pending v' \<and> jholds v' (add_mset (Local x) R)"
  using checked_ref_holds[OF assms] by (auto simp: jreleased_def jacquired_def)

lemma checked_method:
  assumes "checked_ref J (GetMethodID c n m) stage v = (Some x, v')" "runtime_law J" "\<not> pending v" "jholds v R"
  shows "\<not> pending v' \<and> jholds v' R"
  using checked_ref_holds[OF assms] by (auto simp: jreleased_def jacquired_def)

lemma checked_string:
  assumes "checked_ref J (NewStringUTF b) stage v = (Some x, v')" "runtime_law J" "\<not> pending v" "jholds v R"
  shows "x \<noteq> 0 \<and> \<not> pending v' \<and> jholds v' (add_mset (Local x) R)"
  using checked_ref_holds[OF assms] by (auto simp: jreleased_def jacquired_def)

lemma checked_array:
  assumes "checked_ref J (CallGetBytes a b c) stage v = (Some x, v')" "runtime_law J" "\<not> pending v" "jholds v R"
  shows "x \<noteq> 0 \<and> \<not> pending v' \<and> jholds v' (add_mset (Local x) R)"
  using checked_ref_holds[OF assms] by (auto simp: jreleased_def jacquired_def)

lemma checked_none:
  assumes "checked_ref J c stage v = (None, v')" "runtime_law J" "\<not> pending v" "jholds v R" "jreleased c = {#}"
  shows "jholds v' R"
  using checked_ref_holds[OF assms] by simp

definition copy_result :: "(int \<times> bytes) option \<Rightarrow> jresource multiset" where
  "copy_result res = (case res of None \<Rightarrow> {#} | Some (b, bs) \<Rightarrow> if b \<noteq> 0 then {#JBlock b#} else {#})"

lemma copy_bytes_result:
  assumes "copy_bytes J a v = (res, v')" "runtime_law J" "\<not> pending v" "jholds v R"
  shows "jholds v' (copy_result res + R)"
  using copy_bytes_holds[OF assms] by (auto simp: copy_result_def split: option.splits)

text \<open>Releasing a reference or a block does not throw.\<close>

definition release_law :: "runtime \<Rightarrow> bool" where
  "release_law J \<longleftrightarrow> (\<forall>h c. jreleased c \<noteq> {#} \<longrightarrow> \<not> jthrows (J h c))"

lemma copy_java_utf8_holds:
  assumes "copy_java_utf8 J x v = (res, v')" "runtime_law J" "release_law J" "\<not> pending v" "jholds v R"
  shows "jholds v' (copy_result res + R) \<and> (res \<noteq> None \<longrightarrow> \<not> pending v')"
proof -
  have del: "\<not> pending u \<Longrightarrow> \<not> pending (jdo J (DeleteLocalRef y) u)" for u y
    using assms(3) by (simp add: delete_holds(2) release_law_def jreleased_def)
  show ?thesis
  proof (cases "x = 0")
    case True
    with assms show ?thesis by (simp add: copy_java_utf8_def copy_result_def)
  next
    case False
    obtain c v1 where 1: "checked_ref J (FindClass ''java/lang/String'') ''finding String'' v = (c, v1)" by fastforce
    show ?thesis
    proof (cases c)
      case None
      with 1 False assms checked_none[OF 1[unfolded None] assms(2,4,5)] show ?thesis
        by (simp add: copy_java_utf8_def copy_result_def jreleased_def)
    next
      case (Some cls)
      note h1 = checked_class[OF 1[unfolded Some] assms(2,4,5)]
      obtain m v2 where 2: "checked_ref J (GetMethodID cls ''getBytes'' ''(Ljava/lang/String;)[B'') ''finding String.getBytes'' v1 = (m, v2)" by fastforce
      show ?thesis
      proof (cases m)
        case None
        have "jholds v2 (add_mset (Local cls) R)"
          using checked_none[OF 2[unfolded None] assms(2)] h1 by (simp add: jreleased_def)
        with 1 2 Some None False assms(1) show ?thesis
          by (auto simp: copy_java_utf8_def copy_result_def intro: delete_holds(1))
      next
        case m: (Some meth)
        have h2: "\<not> pending v2" "jholds v2 (add_mset (Local cls) R)"
          using checked_method[OF 2[unfolded m] assms(2)] h1 by auto
        obtain u v3 where 3: "checked_ref J (NewStringUTF ''UTF-8'') ''selecting UTF-8'' v2 = (u, v3)" by fastforce
        show ?thesis
        proof (cases u)
          case None
          have "jholds v3 (add_mset (Local cls) R)"
            using checked_none[OF 3[unfolded None] assms(2) h2] by (simp add: jreleased_def)
          with 1 2 3 Some m None False assms(1) show ?thesis
            by (auto simp: copy_java_utf8_def copy_result_def intro: delete_holds(1))
        next
          case u: (Some utf)
          note h3 = checked_string[OF 3[unfolded u] assms(2) h2]
          obtain a v4 where 4: "checked_ref J (CallGetBytes x meth utf) ''encoding UTF-8'' v3 = (a, v4)" by fastforce
          show ?thesis
          proof (cases a)
            case None
            have "jholds v4 (add_mset (Local utf) (add_mset (Local cls) R))"
              using checked_none[OF 4[unfolded None] assms(2)] h3 by (simp add: jreleased_def)
            with 1 2 3 4 Some m u None False assms(1) show ?thesis
              by (auto simp: copy_java_utf8_def copy_result_def intro!: delete_holds(1))
          next
            case a: (Some arr)
            have h4: "\<not> pending v4" "jholds v4 (add_mset (Local arr) (add_mset (Local utf) (add_mset (Local cls) R)))"
              using checked_array[OF 4[unfolded a] assms(2)] h3 by auto
            obtain res' v5 where 5: "copy_bytes J arr v4 = (res', v5)" by fastforce
            have h5: "jholds v5 (add_mset (Local arr) (add_mset (Local utf) (add_mset (Local cls) (copy_result res' + R))))"
              using copy_bytes_result[OF 5 assms(2) h4] by simp
            have p5: "res' \<noteq> None \<longrightarrow> \<not> pending v5"
              using copy_bytes_holds[OF 5 assms(2) h4] by (auto split: option.splits)
            from 1 2 3 4 5 Some m u a False assms(1) h5 p5 show ?thesis
              by (auto simp: copy_java_utf8_def intro!: delete_holds(1) del)
          qed
        qed
      qed
    qed
  qed
qed

lemma copy_three_holds:
  assumes "copy_three J a b c v = ((x, y, z), v')" "runtime_law J" "release_law J" "\<not> pending v" "jholds v R"
  shows "jholds v' (copy_result x + copy_result y + copy_result z + R)"
proof -
  obtain x' v1 where 1: "copy_java_utf8 J a v = (x', v1)" by fastforce
  note h1 = copy_java_utf8_holds[OF 1 assms(2-5)]
  obtain y' v2 where 2: "copy_java_utf8 J b v1 = (y', v2)" by fastforce
  obtain z' v3 where 3: "copy_java_utf8 J c v2 = (z', v3)" by fastforce
  show ?thesis
  proof (cases "x' = None")
    case True
    with assms(1) 1 h1 show ?thesis by (simp add: copy_three_def copy_result_def)
  next
    case False
    note h2 = copy_java_utf8_holds[OF 2 assms(2,3)]
    have g2: "jholds v2 (copy_result y' + (copy_result x' + R)) \<and> (y' \<noteq> None \<longrightarrow> \<not> pending v2)" using h1 False by (intro h2) auto
    show ?thesis
    proof (cases "y' = None")
      case True
      with assms(1) 1 2 False g2 show ?thesis by (auto simp: copy_three_def copy_result_def)
    next
      case y: False
      have "jholds v3 (copy_result z' + (copy_result y' + (copy_result x' + R)))"
        using copy_java_utf8_holds[OF 3 assms(2,3)] g2 y by blast
      with assms(1) 1 2 3 False y show ?thesis by (auto simp: copy_three_def ac_simps)
    qed
  qed
qed

lemma send_done_holds:
  assumes "jholds v (copy_result x + copy_result y + copy_result z + R)"
  shows "jholds (send_done J (block_of x) (block_of y) (block_of z) v) R"
  using assms
  by (auto simp: send_done_def jdo_def jni_def Let_def jresource_simps copy_result_def block_of_def split: option.splits if_splits)

section \<open>Properties\<close>

text \<open>A runtime in which every string encodes to the same bytes and every array has their length.\<close>

definition plain_runtime :: "bytes \<Rightarrow> runtime" where
  "plain_runtime bs h c =
     (let n = (case c of GetArrayLength a \<Rightarrow> int (length bs) | Put_stdout b \<Rightarrow> int (length b)
               | GetObjectArrayElement a i \<Rightarrow> 40 + i | _ \<Rightarrow> 7)
      in \<lparr>jret = n, jbytes = bs, jthrows = False\<rparr>)"

definition fresh_jvm :: jvm where
  "fresh_jvm = \<lparr>jtrace = [], pending = False, captured_arguments = 5\<rparr>"

lemma plain_runtime_laws: "runtime_law (plain_runtime bs)" "release_law (plain_runtime bs)" "jholds fresh_jvm {#}"
  by (simp_all add: runtime_law_def release_law_def plain_runtime_def Let_def fresh_jvm_def jholds_def)


definition bridge_call :: "((int \<times> jvm) \<times> world) option" where
  "bridge_call = send (plain_runtime ''PUT'') 1 (scripted [] []) 1 80 2 3 3 False fresh_jvm start"


text \<open>
  the Android bridge leaks nothing. In a Java runtime whose throwing calls return null and whose
  releases do not throw, whatever else it answers, \<open>send\<close> releases every local reference and frees every
  copy exactly once, on success and on every failure path.
\<close>

theorem send_releases:
  assumes "runtime_law J" "release_law J" "\<not> pending v" "jholds v R"
    "send J fuel p host_value port head_value body_value body_length secure v w = Some ((code, v'), w')"
  shows "jholds v' R"
proof -
  obtain x y z v1 where c: "copy_three J host_value head_value body_value v = ((x, y, z), v1)"
    by (cases "copy_three J host_value head_value body_value v") auto
  note h = copy_three_holds[OF c assms(1-4)]
  have e: "jholds (jdo J (Eprint m) u) S = jholds u S" for m u S
    by (auto simp: jdo_def jni_def Let_def jresource_simps)
  have z: "jholds (send_done J 0 0 0 u) S = jholds u S" for u S
    by (auto simp: send_done_def jdo_def jni_def Let_def jresource_simps)
  have d: "jholds (send_done J (block_of x) (block_of y) (block_of z) (jdo J (Eprint m) v1)) R"
    "jholds (send_done J (block_of x) (block_of y) (block_of z) v1) R" for m
    using h by (auto simp: e intro!: send_done_holds)
  show ?thesis
  proof (cases "body_length < 0")
    case True
    with assms(4,5) show ?thesis by (auto simp: send_def e z)
  next
    case False
    with assms(5) c d show ?thesis
      by (cases x; cases y; cases z)
         (auto simp: send_def block_of_def bind_Some_iff split: if_splits)
  qed
qed

theorem send_releases_witness: "jholds (snd (fst (the bridge_call))) {#}"
proof -
  have r: "bridge_call \<noteq> None" "fst (fst (the bridge_call)) = 2" by code_simp+
  then have c: "bridge_call = Some ((2, snd (fst (the bridge_call))), snd (the bridge_call))"
    by (metis option.collapse prod.collapse)
  have "\<not> pending fresh_jvm" by (simp add: fresh_jvm_def)
  from send_releases[OF plain_runtime_laws(1,2) this plain_runtime_laws(3) c[unfolded bridge_call_def], folded bridge_call_def]
  show ?thesis .
qed

text \<open>
  the program arguments. Once an array of \<open>n\<close> non-null strings is captured, the argument count is
  \<open>n + 1\<close>, argument \<open>i\<close> is the array's element \<open>i - 1\<close> for every \<open>i\<close> from 1 to \<open>n\<close>, and any other index but 0
  ends the process with status 1 instead of reading outside the array.
\<close>

definition serves :: "runtime \<Rightarrow> int \<Rightarrow> int list \<Rightarrow> bool" where
  "serves J array xs \<longleftrightarrow> 0 \<notin> set xs
     \<and> (\<forall>h. jret (J h (GetArrayLength array)) = int (length xs) \<and> \<not> jthrows (J h (GetArrayLength array)))
     \<and> (\<forall>h. \<forall>i < length xs. jret (J h (GetObjectArrayElement array (int i))) = xs ! i
              \<and> \<not> jthrows (J h (GetObjectArrayElement array (int i))))"

theorem arguments_served:
  assumes "captured_arguments v \<noteq> 0" "\<not> pending v" "serves J (captured_arguments v) xs" "int (length xs) < INT_MAX"
  shows "fst (idricArgumentCount J v) = Returned (int (length xs) + 1)
    \<and> (\<forall>i. i \<noteq> 0 \<longrightarrow> fst (idricArgument J i v) =
         (if 1 \<le> i \<and> i \<le> int (length xs) then Returned (xs ! (nat i - 1)) else Exited 1))"
proof (intro conjI allI impI)
  show "fst (idricArgumentCount J v) = Returned (int (length xs) + 1)"
    using assms by (auto simp: idricArgumentCount_def jni_def Let_def clear_exception_def serves_def)
  fix i :: int
  assume "i \<noteq> 0"
  show "fst (idricArgument J i v) =
         (if 1 \<le> i \<and> i \<le> int (length xs) then Returned (xs ! (nat i - 1)) else Exited 1)"
  proof (cases "1 \<le> i \<and> i \<le> int (length xs)")
    case True
    define k where "k = nat i - 1"
    have k: "k < length xs" "i - 1 = int k" "nat i - Suc 0 = k" using True by (auto simp: k_def)
    then have "xs ! k \<noteq> 0" using assms(3) by (metis nth_mem serves_def)
    with True k assms \<open>i \<noteq> 0\<close> show ?thesis
      by (simp add: idricArgument_def jni_def Let_def clear_exception_def serves_def checked_ref_def)
  next
    case False
    with assms \<open>i \<noteq> 0\<close> show ?thesis
      by (auto simp: idricArgument_def jni_def Let_def clear_exception_def serves_def bridge_abort_def)
  qed
qed

theorem arguments_served_witness:
  "fst (idricArgument (plain_runtime ''abc'') 2 fresh_jvm) = Returned 41
   \<and> fst (idricArgument (plain_runtime ''abc'') 4 fresh_jvm) = Exited 1"
proof -
  have s: "serves (plain_runtime ''abc'') (captured_arguments fresh_jvm) [40, 41, 42]"
    by (auto simp: serves_def plain_runtime_def Let_def numeral_3_eq_3 less_Suc_eq)
  from arguments_served[OF _ _ s] show ?thesis by (simp add: fresh_jvm_def INT_MAX_def)
qed

text \<open>
  the second bridge. \<open>send_request_from_java\<close> returns -1 without calling the transport, or calls it
  with the UTF-8 encodings of the three Java strings: the body whole and of the declared length, the
  host and the headers as C strings, which end at the first NUL byte of the encoding.
\<close>

theorem send_request_from_java_exact:
  assumes "send_request_from_java fuel p use_tls (Some hs, True, True) port (Some rs, True, True) (Some bs, True, True)
             declared w = Some (code, w')"
  shows "code = -1 \<and> w' = w \<or>
    (\<exists>host headers body. utf16_decode (map unat hs) = Some host \<and> utf16_decode (map unat rs) = Some headers
       \<and> utf16_decode (map unat bs) = Some body \<and> int (length (utf8_encode_all body)) = declared
       \<and> (if use_tls then icu_send_https else icu_send_http) fuel p (cstr (utf8_encode_all host)) port
            (cstr (utf8_encode_all headers)) (Some (utf8_encode_all body)) declared w = Some (code, w'))"
  using assms
  by (auto simp: send_request_from_java_def convert_def jstring_to_utf8_def utf16_loop_decode
      split: option.splits if_splits)

theorem send_request_from_java_exact_witness:
  "(\<exists>host headers body. utf16_decode [0x68] = Some host \<and> utf16_decode [0x50, 0x20] = Some headers
      \<and> utf16_decode [0xE9] = Some body \<and> length (utf8_encode_all body) = 2)"
proof -
  let ?c = "send_request_from_java 1 (scripted [] []) False (Some [0x68], True, True) 80 (Some [0x50, 0x20], True, True)
       (Some [0xE9], True, True) 2 start"
  have r: "?c \<noteq> None" "fst (the ?c) = 2" by code_simp+
  then have "?c = Some (2, snd (the ?c))" by (metis option.collapse prod.collapse)
  from send_request_from_java_exact[OF this] show ?thesis by auto
qed

end
