(* ===== verification/Curl_Code.thy ===== *)
theory Curl_Code
  imports CString
begin

text \<open>
  What the curl libraries under \<open>src/old/lib\<close> share: the result codes of \<open>curl/curl.h\<close> they
  return, the 64-bit \<open>size_t\<close> limits they guard against, and the writes into an allocated block.
  \<open>CURLE_OTHER\<close> stands for any further code, which only a callback can report.

  An allocator is a stream of outcomes: the \<open>i\<close>-th request of a run succeeds when the \<open>i\<close>-th
  entry is true. The theorems hold for every stream, so for every placement of failures.
\<close>

datatype CURLcode =
    CURLE_OK
  | CURLE_UNSUPPORTED_PROTOCOL
  | CURLE_OUT_OF_MEMORY
  | CURLE_BAD_FUNCTION_ARGUMENT
  | CURLE_URL_MALFORMAT
  | CURLE_WEIRD_SERVER_REPLY
  | CURLE_PARTIAL_FILE
  | CURLE_WRITE_ERROR
  | CURLE_READ_ERROR
  | CURLE_ABORTED_BY_CALLBACK
  | CURLE_RECV_ERROR
  | CURLE_BAD_CONTENT_ENCODING
  | CURLE_AGAIN
  | CURLE_TOO_LARGE
  | CURLE_OTHER nat

definition SIZE_MAX :: nat where "SIZE_MAX = 18446744073709551615"

type_synonym heap = "nat \<Rightarrow> bool"

definition request :: "heap \<Rightarrow> bool \<times> heap" where
  "request h = (h 0, \<lambda>i. h (Suc i))"

lemma request_always [simp]: "request (\<lambda>_. b) = (b, \<lambda>_. b)"
  by (simp add: request_def)

text \<open>\<open>memcpy(&data[off], bs, strlen)\<close> into a block: the bytes around the written ones stay.\<close>

definition mem_write :: "bytes \<Rightarrow> nat \<Rightarrow> bytes \<Rightarrow> bytes" where
  "mem_write data off bs = take off data @ bs @ drop (off + length bs) data"

lemma length_mem_write [simp]:
  "off + length bs \<le> length data \<Longrightarrow> length (mem_write data off bs) = length data"
  by (simp add: mem_write_def)

lemma take_mem_write:
  "off \<le> length data \<Longrightarrow> n = off + length bs \<Longrightarrow> take n (mem_write data off bs) = take off data @ bs"
  by (simp add: mem_write_def)

lemma drop_take_mem_write:
  assumes "r \<le> off" "off \<le> length data" "n = off + length bs"
  shows "drop r (take n (mem_write data off bs)) = drop r (take off data) @ bs"
  using assms by (simp add: take_mem_write)

lemma take_mem_write_before:
  "n \<le> off \<Longrightarrow> off \<le> length data \<Longrightarrow> take n (mem_write data off bs) = take n data"
  by (simp add: mem_write_def min_def)

end
