(* ===== verification/Curl_Bufq.thy ===== *)
theory Curl_Bufq
  imports Curl_Code
begin

text \<open>
  The buffer queue of \<open>old/lib/bufq.c\<close> and \<open>bufq.h\<close>: bytes are kept in chunks of one size, read
  from the head chunk and written to the tail chunk, with spare chunks kept per queue or in a pool
  that queues share. A queue's \<open>head\<close> list is the list of its chunks; the C \<open>tail\<close> pointer is the
  last one of them (and \<open>NULL\<close> exactly when there is none), which every operation of the source
  maintains. Pools live in a store, so that two queues can share one. \<open>size_t\<close> counts are naturals:
  the invariant \<open>bufq_ok\<close> contains the \<open>DEBUGASSERT\<close>s that rule out each subtraction below zero.

  The abstraction of a queue is the list of its unread bytes, \<open>content\<close>.
\<close>

section \<open>Data\<close>

record buf_chunk =
  dlen :: nat
  r_offset :: nat
  w_offset :: nat
  chunk_data :: bytes

record bufc_pool =
  p_spare :: "buf_chunk list"
  p_chunk_size :: nat
  p_spare_count :: nat
  p_spare_max :: nat

record bufq =
  q_head :: "buf_chunk list"
  q_spare :: "buf_chunk list"
  q_pool :: "nat option"
  q_chunk_count :: nat
  q_max_chunks :: nat
  q_chunk_size :: nat
  q_opts :: int

record bufmem =
  allocs :: heap
  pools :: "nat \<Rightarrow> bufc_pool"

definition BUFQ_OPT_NONE :: int where "BUFQ_OPT_NONE = 0"
definition BUFQ_OPT_SOFT_LIMIT :: int where "BUFQ_OPT_SOFT_LIMIT = 1"
definition BUFQ_OPT_NO_SPARES :: int where "BUFQ_OPT_NO_SPARES = 2"

definition soft_limit :: "bufq \<Rightarrow> bool" where
  "soft_limit q \<longleftrightarrow> and (q_opts q) BUFQ_OPT_SOFT_LIMIT \<noteq> 0"

definition no_spares :: "bufq \<Rightarrow> bool" where
  "no_spares q \<longleftrightarrow> and (q_opts q) BUFQ_OPT_NO_SPARES \<noteq> 0"

text \<open>\<open>sizeof(struct buf_chunk)\<close> of an LP64 target: a pointer, three \<open>size_t\<close> and the union.\<close>

definition sizeof_buf_chunk :: nat where "sizeof_buf_chunk = 40"

definition new_chunk :: "nat \<Rightarrow> buf_chunk" where
  "new_chunk n = \<lparr>dlen = n, r_offset = 0, w_offset = 0, chunk_data = replicate n NUL\<rparr>"

section \<open>Chunks\<close>

definition chunk_is_empty :: "buf_chunk \<Rightarrow> bool" where
  "chunk_is_empty c \<longleftrightarrow> r_offset c \<ge> w_offset c"

definition chunk_is_full :: "buf_chunk \<Rightarrow> bool" where
  "chunk_is_full c \<longleftrightarrow> w_offset c \<ge> dlen c"

definition chunk_len :: "buf_chunk \<Rightarrow> nat" where
  "chunk_len c = w_offset c - r_offset c"

definition chunk_reset :: "buf_chunk \<Rightarrow> buf_chunk" where
  "chunk_reset c = c\<lparr>r_offset := 0, w_offset := 0\<rparr>"

definition chunk_append :: "buf_chunk \<Rightarrow> bytes \<Rightarrow> nat \<times> buf_chunk" where
  "chunk_append c buf =
     (let n = dlen c - w_offset c in
      if n \<noteq> 0 then
        let n = min n (length buf) in
        (n, c\<lparr>chunk_data := mem_write (chunk_data c) (w_offset c) (take n buf),
              w_offset := w_offset c + n\<rparr>)
      else (n, c))"

definition chunk_read :: "buf_chunk \<Rightarrow> nat \<Rightarrow> nat \<times> bytes \<times> buf_chunk" where
  "chunk_read c len =
     (let p = drop (r_offset c) (chunk_data c); n = w_offset c - r_offset c in
      if n = 0 then (0, [], c)
      else if n \<le> len then (n, take n p, c\<lparr>r_offset := 0, w_offset := 0\<rparr>)
      else (len, take len p, c\<lparr>r_offset := r_offset c + len\<rparr>))"

text \<open>
  A reader callback fills at most the room it is given: its answer is a result code and the bytes
  it stored. The stored bytes land in the chunk whatever the code; they count on success only.
\<close>

type_synonym 's reader = "'s \<Rightarrow> nat \<Rightarrow> CURLcode \<times> bytes \<times> 's"
type_synonym 's writer = "'s \<Rightarrow> bytes \<Rightarrow> CURLcode \<times> nat \<times> 's"

definition chunk_slurpn ::
  "buf_chunk \<Rightarrow> nat \<Rightarrow> 's reader \<Rightarrow> 's \<Rightarrow> CURLcode \<times> nat \<times> buf_chunk \<times> 's" where
  "chunk_slurpn c max_len reader ctx =
     (let n = dlen c - w_offset c in
      if n = 0 then (CURLE_AGAIN, 0, c, ctx)
      else
        let n = (if max_len \<noteq> 0 \<and> n > max_len then max_len else n) in
        case reader ctx n of (result, bs, ctx) \<Rightarrow>
          let c = c\<lparr>chunk_data := mem_write (chunk_data c) (w_offset c) bs\<rparr> in
          (result, length bs,
           (if result = CURLE_OK then c\<lparr>w_offset := w_offset c + length bs\<rparr> else c), ctx))"

definition chunk_peek :: "buf_chunk \<Rightarrow> bytes" where
  "chunk_peek c = take (w_offset c - r_offset c) (drop (r_offset c) (chunk_data c))"

definition chunk_peek_at :: "buf_chunk \<Rightarrow> nat \<Rightarrow> bytes" where
  "chunk_peek_at c offset =
     (let offset = offset + r_offset c in take (w_offset c - offset) (drop offset (chunk_data c)))"

definition chunk_skip :: "buf_chunk \<Rightarrow> nat \<Rightarrow> nat \<times> buf_chunk" where
  "chunk_skip c amount =
     (let n = w_offset c - r_offset c in
      if n \<noteq> 0 then
        let n = min n amount; c = c\<lparr>r_offset := r_offset c + n\<rparr> in
        (n, if r_offset c = w_offset c then c\<lparr>r_offset := 0, w_offset := 0\<rparr> else c)
      else (n, c))"

section \<open>Chunk pools\<close>

definition Curl_bufcp_init :: "nat \<Rightarrow> nat \<Rightarrow> bufc_pool" where
  "Curl_bufcp_init chunk_size spare_max =
     \<lparr>p_spare = [], p_chunk_size = chunk_size, p_spare_count = 0, p_spare_max = spare_max\<rparr>"

definition calloc_chunk :: "nat \<Rightarrow> bufmem \<Rightarrow> buf_chunk option \<times> bufmem" where
  "calloc_chunk n m =
     (if n > SIZE_MAX - sizeof_buf_chunk then (None, m)
      else case request (allocs m) of (ok, h) \<Rightarrow>
        (if ok then Some (new_chunk n) else None, m\<lparr>allocs := h\<rparr>))"

definition bufcp_take :: "nat \<Rightarrow> bufmem \<Rightarrow> CURLcode \<times> buf_chunk option \<times> bufmem" where
  "bufcp_take p m =
     (let P = pools m p in
      case p_spare P of
        c # rest \<Rightarrow>
          (CURLE_OK, Some (chunk_reset c),
           m\<lparr>pools := (pools m)(p := P\<lparr>p_spare := rest, p_spare_count := p_spare_count P - 1\<rparr>)\<rparr>)
      | [] \<Rightarrow>
          (case calloc_chunk (p_chunk_size P) m of
             (None, m) \<Rightarrow> (CURLE_OUT_OF_MEMORY, None, m)
           | (Some c, m) \<Rightarrow> (CURLE_OK, Some c, m)))"

definition bufcp_put :: "nat \<Rightarrow> buf_chunk \<Rightarrow> bufmem \<Rightarrow> bufmem" where
  "bufcp_put p c m =
     (let P = pools m p in
      if p_spare_count P \<ge> p_spare_max P then m
      else m\<lparr>pools := (pools m)(p :=
             P\<lparr>p_spare := chunk_reset c # p_spare P, p_spare_count := Suc (p_spare_count P)\<rparr>)\<rparr>)"

definition Curl_bufcp_free :: "nat \<Rightarrow> bufmem \<Rightarrow> bufmem" where
  "Curl_bufcp_free p m =
     m\<lparr>pools := (pools m)(p := (pools m p)\<lparr>p_spare := [], p_spare_count := 0\<rparr>)\<rparr>"

section \<open>Queues\<close>

definition bufq_init :: "nat option \<Rightarrow> nat \<Rightarrow> nat \<Rightarrow> int \<Rightarrow> bufq" where
  "bufq_init pool chunk_size max_chunks opts =
     \<lparr>q_head = [], q_spare = [], q_pool = pool, q_chunk_count = 0, q_max_chunks = max_chunks,
      q_chunk_size = chunk_size, q_opts = opts\<rparr>"

definition Curl_bufq_init2 :: "nat \<Rightarrow> nat \<Rightarrow> int \<Rightarrow> bufq" where
  "Curl_bufq_init2 chunk_size max_chunks opts = bufq_init None chunk_size max_chunks opts"

definition Curl_bufq_init :: "nat \<Rightarrow> nat \<Rightarrow> bufq" where
  "Curl_bufq_init chunk_size max_chunks = bufq_init None chunk_size max_chunks BUFQ_OPT_NONE"

definition Curl_bufq_initp :: "nat \<Rightarrow> bufmem \<Rightarrow> nat \<Rightarrow> int \<Rightarrow> bufq" where
  "Curl_bufq_initp p m max_chunks opts =
     bufq_init (Some p) (p_chunk_size (pools m p)) max_chunks opts"

definition Curl_bufq_free :: "bufq \<Rightarrow> bufq" where
  "Curl_bufq_free q = q\<lparr>q_head := [], q_spare := [], q_chunk_count := 0\<rparr>"

fun move_to_spare :: "buf_chunk list \<Rightarrow> buf_chunk list \<Rightarrow> buf_chunk list" where
  "move_to_spare [] spare = spare"
| "move_to_spare (c # cs) spare = move_to_spare cs (c # spare)"

definition Curl_bufq_reset :: "bufq \<Rightarrow> bufq" where
  "Curl_bufq_reset q = q\<lparr>q_head := [], q_spare := move_to_spare (q_head q) (q_spare q)\<rparr>"

definition Curl_bufq_len :: "bufq \<Rightarrow> nat" where
  "Curl_bufq_len q = foldl (\<lambda>len c. len + chunk_len c) 0 (q_head q)"

definition Curl_bufq_is_empty :: "bufq \<Rightarrow> bool" where
  "Curl_bufq_is_empty q \<longleftrightarrow> (case q_head q of [] \<Rightarrow> True | c # _ \<Rightarrow> chunk_is_empty c)"

definition Curl_bufq_is_full :: "bufq \<Rightarrow> bool" where
  "Curl_bufq_is_full q =
     (if q_head q = [] \<or> q_spare q \<noteq> [] then False
      else if q_chunk_count q < q_max_chunks q then False
      else if q_chunk_count q > q_max_chunks q then True
      else chunk_is_full (last (q_head q)))"

definition get_spare :: "bufq \<Rightarrow> bufmem \<Rightarrow> buf_chunk option \<times> bufq \<times> bufmem" where
  "get_spare q m =
     (case q_spare q of
        c # rest \<Rightarrow> (Some (chunk_reset c), q\<lparr>q_spare := rest\<rparr>, m)
      | [] \<Rightarrow>
          if q_chunk_count q \<ge> q_max_chunks q \<and> \<not> soft_limit q then (None, q, m)
          else
            (case q_pool q of
               Some p \<Rightarrow>
                 (case bufcp_take p m of (result, c, m) \<Rightarrow>
                    if result \<noteq> CURLE_OK then (None, q, m)
                    else (c, q\<lparr>q_chunk_count := Suc (q_chunk_count q)\<rparr>, m))
             | None \<Rightarrow>
                 (case calloc_chunk (q_chunk_size q) m of
                    (None, m) \<Rightarrow> (None, q, m)
                  | (Some c, m) \<Rightarrow> (Some c, q\<lparr>q_chunk_count := Suc (q_chunk_count q)\<rparr>, m))))"

definition retire_chunk :: "bufq \<Rightarrow> bufmem \<Rightarrow> buf_chunk \<Rightarrow> bufq \<times> bufmem" where
  "retire_chunk q m c =
     (case q_pool q of
        Some p \<Rightarrow> (q\<lparr>q_chunk_count := q_chunk_count q - 1\<rparr>, bufcp_put p c m)
      | None \<Rightarrow>
          if q_chunk_count q > q_max_chunks q \<or> no_spares q
          then (q\<lparr>q_chunk_count := q_chunk_count q - 1\<rparr>, m)
          else (q\<lparr>q_spare := c # q_spare q\<rparr>, m))"

fun prune_chunks :: "buf_chunk list \<Rightarrow> bufq \<Rightarrow> bufmem \<Rightarrow> bufq \<times> bufmem" where
  "prune_chunks [] q m = (q\<lparr>q_head := []\<rparr>, m)"
| "prune_chunks (c # cs) q m =
     (if chunk_is_empty c
      then (case retire_chunk (q\<lparr>q_head := cs\<rparr>) m c of (q, m) \<Rightarrow> prune_chunks cs q m)
      else (q\<lparr>q_head := c # cs\<rparr>, m))"

definition prune_head :: "bufq \<Rightarrow> bufmem \<Rightarrow> bufq \<times> bufmem" where
  "prune_head q m = prune_chunks (q_head q) q m"

text \<open>The tail of a queue is the last chunk of its list; the result says whether there is one.\<close>

definition get_non_full_tail :: "bufq \<Rightarrow> bufmem \<Rightarrow> bool \<times> bufq \<times> bufmem" where
  "get_non_full_tail q m =
     (if q_head q \<noteq> [] \<and> \<not> chunk_is_full (last (q_head q)) then (True, q, m)
      else case get_spare q m of
             (None, q, m) \<Rightarrow> (False, q, m)
           | (Some c, q, m) \<Rightarrow> (True, q\<lparr>q_head := q_head q @ [c]\<rparr>, m))"

definition set_tail :: "buf_chunk \<Rightarrow> bufq \<Rightarrow> bufq" where
  "set_tail c q = q\<lparr>q_head := butlast (q_head q) @ [c]\<rparr>"

definition write_code :: "nat \<Rightarrow> nat \<Rightarrow> CURLcode" where
  "write_code written len = (if written = 0 \<and> len \<noteq> 0 then CURLE_AGAIN else CURLE_OK)"

function write_loop :: "bufq \<Rightarrow> bufmem \<Rightarrow> bytes \<Rightarrow> nat \<Rightarrow> CURLcode \<times> nat \<times> bufq \<times> bufmem" where
  "write_loop q m buf written =
     (if buf = [] then (write_code written 0, written, q, m)
      else case get_non_full_tail q m of (found, q', m') \<Rightarrow>
        if \<not> found then
          (if q_chunk_count q' < q_max_chunks q' \<or> soft_limit q'
           then (CURLE_OUT_OF_MEMORY, written, q', m')
           else (write_code written (length buf), written, q', m'))
        else case chunk_append (last (q_head q')) buf of (n, c) \<Rightarrow>
          if n = 0 then (write_code written (length buf), written, q', m')
          else write_loop (set_tail c q') m' (drop n buf) (written + n))"
  by pat_completeness auto
termination
  by (relation "measure (\<lambda>(q, m, buf, written). length buf)") auto

declare write_loop.simps [simp del]

definition Curl_bufq_write :: "bufq \<Rightarrow> bufmem \<Rightarrow> bytes \<Rightarrow> CURLcode \<times> nat \<times> bufq \<times> bufmem" where
  "Curl_bufq_write q m buf = write_loop q m buf 0"

definition Curl_bufq_cwrite :: "bufq \<Rightarrow> bufmem \<Rightarrow> bytes \<Rightarrow> CURLcode \<times> nat \<times> bufq \<times> bufmem" where
  "Curl_bufq_cwrite q m buf = Curl_bufq_write q m buf"

section \<open>Invariant and abstraction\<close>

definition spare_ok :: "nat \<Rightarrow> buf_chunk \<Rightarrow> bool" where
  "spare_ok cs c \<longleftrightarrow> dlen c = cs \<and> length (chunk_data c) = cs"

definition chunk_ok :: "nat \<Rightarrow> buf_chunk \<Rightarrow> bool" where
  "chunk_ok cs c \<longleftrightarrow> spare_ok cs c \<and> r_offset c \<le> w_offset c \<and> w_offset c \<le> dlen c \<and>
     (r_offset c = w_offset c \<longrightarrow> w_offset c = 0)"

text \<open>Only the tail may have room left or hold nothing at all.\<close>

definition sealed :: "buf_chunk \<Rightarrow> bool" where
  "sealed c \<longleftrightarrow> r_offset c < w_offset c \<and> w_offset c = dlen c"

definition chunks_ok :: "nat \<Rightarrow> buf_chunk list \<Rightarrow> bool" where
  "chunks_ok cs chunks \<longleftrightarrow> list_all (chunk_ok cs) chunks \<and> list_all sealed (butlast chunks)"

definition pool_ok :: "bufc_pool \<Rightarrow> bool" where
  "pool_ok P \<longleftrightarrow> list_all (spare_ok (p_chunk_size P)) (p_spare P) \<and>
     p_spare_count P = length (p_spare P) \<and> p_spare_count P \<le> p_spare_max P"

definition pool_fits :: "nat option \<Rightarrow> nat \<Rightarrow> bufmem \<Rightarrow> bool" where
  "pool_fits pool cs m =
     (case pool of None \<Rightarrow> True | Some p \<Rightarrow> pool_ok (pools m p) \<and> p_chunk_size (pools m p) = cs)"

lemma pool_fits_simps [simp]:
  "pool_fits None cs m" "pool_fits (Some p) cs m \<longleftrightarrow> pool_ok (pools m p) \<and> p_chunk_size (pools m p) = cs"
  by (simp_all add: pool_fits_def)

text \<open>The accounts of a queue that has \<open>k\<close> chunks in use.\<close>

definition store_ok :: "nat \<Rightarrow> bufq \<Rightarrow> bufmem \<Rightarrow> bool" where
  "store_ok k q m \<longleftrightarrow>
     0 < q_chunk_size q \<and> 0 < q_max_chunks q \<and> list_all (spare_ok (q_chunk_size q)) (q_spare q) \<and>
     q_chunk_count q = k + length (q_spare q) \<and>
     (soft_limit q \<or> q_chunk_count q \<le> q_max_chunks q) \<and>
     pool_fits (q_pool q) (q_chunk_size q) m"

definition bufq_ok :: "bufq \<Rightarrow> bufmem \<Rightarrow> bool" where
  "bufq_ok q m \<longleftrightarrow> store_ok (length (q_head q)) q m \<and> chunks_ok (q_chunk_size q) (q_head q)"

definition content :: "bufq \<Rightarrow> bytes" where
  "content q = concat (map chunk_peek (q_head q))"

text \<open>What no operation on a queue does to the rest of the system: the pools stay in order.\<close>

definition pools_kept :: "bufmem \<Rightarrow> bufmem \<Rightarrow> bool" where
  "pools_kept m m' \<longleftrightarrow> (\<forall>p. p_chunk_size (pools m' p) = p_chunk_size (pools m p) \<and>
     (pool_ok (pools m p) \<longrightarrow> pool_ok (pools m' p)))"

definition same_setup :: "bufq \<Rightarrow> bufq \<Rightarrow> bool" where
  "same_setup q q' \<longleftrightarrow> q_pool q' = q_pool q \<and> q_max_chunks q' = q_max_chunks q \<and>
     q_chunk_size q' = q_chunk_size q \<and> q_opts q' = q_opts q"

named_theorems bufq_simps \<open>the parts of the buffer queue invariant\<close>

lemmas chunk_defs = chunk_ok_def spare_ok_def sealed_def chunk_is_empty_def chunk_is_full_def
  chunk_len_def chunk_reset_def new_chunk_def

lemma pools_kept_refl [simp]: "pools_kept m m"
  by (simp add: pools_kept_def)

lemma pools_kept_trans: "pools_kept m m1 \<Longrightarrow> pools_kept m1 m2 \<Longrightarrow> pools_kept m m2"
  by (simp add: pools_kept_def)

lemma same_setup_refl [simp]: "same_setup q q"
  by (simp add: same_setup_def)

lemma same_setup_trans: "same_setup q q1 \<Longrightarrow> same_setup q1 q2 \<Longrightarrow> same_setup q q2"
  by (simp add: same_setup_def)

lemma same_setup_options:
  "same_setup q q' \<Longrightarrow> soft_limit q' = soft_limit q \<and> no_spares q' = no_spares q"
  by (simp add: same_setup_def soft_limit_def no_spares_def)

lemma soft_limit_update [simp]:
  "soft_limit (q\<lparr>q_head := h\<rparr>) = soft_limit q" "soft_limit (q\<lparr>q_spare := h\<rparr>) = soft_limit q"
  "soft_limit (q\<lparr>q_chunk_count := n\<rparr>) = soft_limit q"
  by (simp_all add: soft_limit_def)

lemma spare_ok_reset [simp]: "spare_ok cs (chunk_reset c) = spare_ok cs c"
  by (simp add: chunk_defs)

lemma chunk_ok_reset [simp]: "chunk_ok cs (chunk_reset c) = spare_ok cs c"
  by (auto simp: chunk_defs)

lemma w_offset_fresh [simp]: "w_offset (chunk_reset c) = 0" "w_offset (new_chunk n) = 0"
  by (simp_all add: chunk_defs)

lemma chunk_ok_new [simp]: "chunk_ok cs (new_chunk cs)"
  by (simp add: chunk_defs)

lemma chunk_ok_spare: "chunk_ok cs c \<Longrightarrow> spare_ok cs c"
  by (simp add: chunk_ok_def)

lemma length_chunk_peek: "chunk_ok cs c \<Longrightarrow> length (chunk_peek c) = chunk_len c"
  by (auto simp: chunk_defs chunk_peek_def)

lemma chunk_peek_drop_take: "chunk_peek c = drop (r_offset c) (take (w_offset c) (chunk_data c))"
  by (simp add: chunk_peek_def drop_take)

lemma chunk_peek_empty: "chunk_is_empty c \<Longrightarrow> chunk_peek c = []"
  by (simp add: chunk_peek_def chunk_is_empty_def)

lemma chunk_peek_fresh [simp]: "chunk_peek (new_chunk cs) = []" "chunk_peek (chunk_reset c) = []"
  by (simp_all add: chunk_peek_empty chunk_defs)

lemma chunks_ok_Nil [simp]: "chunks_ok cs []"
  by (simp add: chunks_ok_def)

lemma chunks_ok_single [simp]: "chunks_ok cs [c] = chunk_ok cs c"
  by (simp add: chunks_ok_def)

lemma chunks_ok_Cons:
  "chunks_ok cs (c # rest) \<longleftrightarrow> chunk_ok cs c \<and> (rest \<noteq> [] \<longrightarrow> sealed c) \<and> chunks_ok cs rest"
  by (auto simp: chunks_ok_def)

lemma chunks_ok_snoc:
  "chunks_ok cs (xs @ [c]) \<longleftrightarrow> list_all (chunk_ok cs) xs \<and> list_all sealed xs \<and> chunk_ok cs c"
  by (auto simp: chunks_ok_def)

lemma chunks_ok_all: "chunks_ok cs xs \<Longrightarrow> list_all (chunk_ok cs) xs"
  by (simp add: chunks_ok_def)

lemma length_content: "list_all (chunk_ok cs) (q_head q) \<Longrightarrow> length (content q) = Curl_bufq_len q"
proof -
  have fold: "foldl (\<lambda>len c. len + chunk_len c) k xs = k + sum_list (map chunk_len xs)" for k xs
    by (induction xs arbitrary: k) auto
  assume "list_all (chunk_ok cs) (q_head q)"
  then have "map (length \<circ> chunk_peek) (q_head q) = map chunk_len (q_head q)"
    by (auto simp: list_all_iff length_chunk_peek)
  then show ?thesis by (simp add: content_def Curl_bufq_len_def fold length_concat del: map_eq_conv)
qed

section \<open>Keeping the accounts\<close>

lemma store_ok_head [simp]: "store_ok k (q\<lparr>q_head := h\<rparr>) m = store_ok k q m"
  by (simp add: store_ok_def)

lemma pool_fits_kept: "pool_fits pool cs m \<Longrightarrow> pools_kept m m' \<Longrightarrow> pool_fits pool cs m'"
  by (cases pool) (auto simp: pools_kept_def)

lemma store_ok_kept:
  "store_ok k q m \<Longrightarrow> pools_kept m m' \<Longrightarrow> store_ok k q m'"
  by (auto simp: store_ok_def intro: pool_fits_kept)

lemma bufq_ok_kept: "bufq_ok q m \<Longrightarrow> pools_kept m m' \<Longrightarrow> bufq_ok q m'"
  by (auto simp: bufq_ok_def intro: store_ok_kept)

lemma calloc_chunk_SomeD:
  "calloc_chunk n m = (Some c, m') \<Longrightarrow> c = new_chunk n \<and> pools m' = pools m \<and> n \<le> SIZE_MAX - sizeof_buf_chunk"
  by (auto simp: calloc_chunk_def split: if_splits prod.splits)

lemma calloc_chunk_pools: "calloc_chunk n m = (x, m') \<Longrightarrow> pools m' = pools m"
  by (auto simp: calloc_chunk_def split: if_splits prod.splits)

lemma pools_kept_same: "pools m' = pools m \<Longrightarrow> pools_kept m m'"
  by (simp add: pools_kept_def)

lemma bufcp_put_kept: "pool_ok (pools m p) \<Longrightarrow> spare_ok (p_chunk_size (pools m p)) c \<Longrightarrow> pools_kept m (bufcp_put p c m)"
  by (auto simp: bufcp_put_def pools_kept_def pool_ok_def Let_def)

lemma bufcp_take_kept: "bufcp_take p m = (r, c, m') \<Longrightarrow> pools_kept m m'"
  by (auto simp: bufcp_take_def pools_kept_def pool_ok_def Let_def
           dest: calloc_chunk_pools split: list.splits prod.splits option.splits)

lemma bufcp_take_OK_Some: "bufcp_take p m = (CURLE_OK, c, m') \<Longrightarrow> c \<noteq> None"
  by (auto simp: bufcp_take_def Let_def split: list.splits prod.splits option.splits)

lemma bufcp_take_chunk:
  assumes "bufcp_take p m = (CURLE_OK, c, m')" "pool_ok (pools m p)"
  shows "\<exists>d. c = Some d \<and> chunk_ok (p_chunk_size (pools m p)) d \<and> chunk_peek d = [] \<and> w_offset d = 0"
  using assms
  by (auto simp: bufcp_take_def pool_ok_def Let_def chunk_reset_def[of "hd _"] new_chunk_def
           dest!: calloc_chunk_SomeD split: list.splits prod.splits option.splits)
     (auto simp: chunk_defs chunk_peek_def)

lemma retire_chunk_ok:
  assumes "store_ok (Suc k) q m" "spare_ok (q_chunk_size q) c" "retire_chunk q m c = (q', m')"
  shows "store_ok k q' m' \<and> pools_kept m m' \<and> same_setup q q' \<and> q_head q' = q_head q"
proof (cases "q_pool q")
  case (Some p)
  with assms have "pools_kept m m'" by (auto simp: store_ok_def retire_chunk_def intro: bufcp_put_kept)
  with assms Some show ?thesis
    by (auto simp: retire_chunk_def store_ok_def same_setup_def pools_kept_def)
next
  case None
  with assms show ?thesis by (auto simp: retire_chunk_def store_ok_def same_setup_def split: if_splits)
qed

lemma prune_chunks_ok:
  assumes "store_ok (length cs) q m" "list_all (spare_ok (q_chunk_size q)) cs" "prune_chunks cs q m = (q', m')"
  shows "q_head q' = dropWhile chunk_is_empty cs \<and> store_ok (length (q_head q')) q' m' \<and>
         pools_kept m m' \<and> same_setup q q'"
  using assms
proof (induction cs q m rule: prune_chunks.induct)
  case (2 c cs q m)
  show ?case
  proof (cases "chunk_is_empty c")
    case True
    obtain q1 m1 where r: "retire_chunk (q\<lparr>q_head := cs\<rparr>) m c = (q1, m1)" by fastforce
    from 2 have R: "store_ok (length cs) q1 m1 \<and> pools_kept m m1 \<and> same_setup (q\<lparr>q_head := cs\<rparr>) q1"
      using retire_chunk_ok[OF _ _ r, of "length cs"] by simp
    then have "same_setup q q1" by (simp add: same_setup_def)
    moreover have "q_chunk_size q1 = q_chunk_size q" using R by (simp add: same_setup_def)
    ultimately show ?thesis using "2.IH"[OF True r[symmetric]] R 2 True r
      by (auto intro: pools_kept_trans same_setup_trans)
  qed (use 2 in \<open>auto simp: same_setup_def\<close>)
qed (auto simp: same_setup_def)

lemma chunks_ok_dropWhile: "chunks_ok cs xs \<Longrightarrow> chunks_ok cs (dropWhile P xs)"
  by (induction xs) (auto simp: chunks_ok_Cons)

lemma concat_peek_dropWhile:
  "concat (map chunk_peek (dropWhile chunk_is_empty xs)) = concat (map chunk_peek xs)"
  by (induction xs) (auto simp: chunk_peek_empty)

lemma prune_head_ok:
  assumes "store_ok (length (q_head q)) q m" "chunks_ok (q_chunk_size q) (q_head q)" "prune_head q m = (q', m')"
  shows "bufq_ok q' m'" "content q' = content q" "q_head q' = dropWhile chunk_is_empty (q_head q)"
    "pools_kept m m'" "same_setup q q'"
proof -
  have "list_all (spare_ok (q_chunk_size q)) (q_head q)"
    using assms(2) by (auto simp: chunks_ok_def list_all_iff chunk_ok_spare)
  note P = prune_chunks_ok[OF assms(1) this assms(3)[unfolded prune_head_def]]
  then have "q_chunk_size q' = q_chunk_size q" by (simp add: same_setup_def)
  with P show "bufq_ok q' m'" "content q' = content q" "q_head q' = dropWhile chunk_is_empty (q_head q)"
    "pools_kept m m'" "same_setup q q'"
    using assms(2) by (auto simp: bufq_ok_def content_def chunks_ok_dropWhile concat_peek_dropWhile)
qed

section \<open>Reading and skipping\<close>

definition total :: "buf_chunk list \<Rightarrow> nat" where
  "total xs = sum_list (map chunk_len xs)"

lemma total_Cons [simp]: "total (c # xs) = chunk_len c + total xs"
  by (simp add: total_def)

lemma total_Nil [simp]: "total [] = 0"
  by (simp add: total_def)

lemma chunk_is_empty_len: "chunk_is_empty c \<longleftrightarrow> chunk_len c = 0"
  by (auto simp: chunk_defs)

lemma total_dropWhile [simp]: "total (dropWhile chunk_is_empty xs) = total xs"
  by (induction xs) (auto simp: chunk_is_empty_len)

lemma prune_chunks_head: "q_head (fst (prune_chunks cs q m)) = dropWhile chunk_is_empty cs"
  by (induction cs q m rule: prune_chunks.induct) (auto split: prod.splits)

lemma prune_head_head: "prune_head q m = (q', m') \<Longrightarrow> q_head q' = dropWhile chunk_is_empty (q_head q)"
  by (metis prune_head_def prune_chunks_head fst_conv)

lemma length_prune_head_le: "prune_head q m = (q', m') \<Longrightarrow> length (q_head q') \<le> length (q_head q)"
  by (simp add: prune_head_head length_dropWhile_le)

lemma chunk_read_zero: "chunk_read c len = (n, bs, c') \<Longrightarrow> 0 < len \<Longrightarrow> n = 0 \<Longrightarrow> chunk_is_empty c'"
  by (auto simp: chunk_read_def chunk_defs Let_def split: if_splits)

lemma chunk_skip_zero: "chunk_skip c amount = (n, c') \<Longrightarrow> 0 < amount \<Longrightarrow> n = 0 \<Longrightarrow> chunk_is_empty c'"
  by (auto simp: chunk_skip_def chunk_defs Let_def split: if_splits)

lemma prune_after_zero:
  assumes "prune_head (q\<lparr>q_head := c # cs\<rparr>) m = (q', m')" "chunk_is_empty c"
  shows "length (q_head q') \<le> length cs"
  using prune_head_head[OF assms(1)] assms(2) by (simp add: length_dropWhile_le)

function read_loop :: "bufq \<Rightarrow> bufmem \<Rightarrow> nat \<Rightarrow> bytes \<Rightarrow> bytes \<times> bufq \<times> bufmem" where
  "read_loop q m len out =
     (case q_head q of
        [] \<Rightarrow> (out, q, m)
      | c # cs \<Rightarrow>
          if len = 0 then (out, q, m)
          else case chunk_read c len of (n, bs, c') \<Rightarrow>
            case prune_head (q\<lparr>q_head := c' # cs\<rparr>) m of (q', m') \<Rightarrow>
              read_loop q' m' (len - n) (out @ bs))"
  by pat_completeness auto
termination
proof (relation "measure (\<lambda>(q, m, len, out). len + length (q_head q))", goal_cases)
  case (2 q m len out c cs n y bs c' q' m')
  then have p: "prune_head (q\<lparr>q_head := c' # cs\<rparr>) m = (q', m')" by simp
  show ?case
  proof (cases "n = 0")
    case True
    with 2 have "chunk_is_empty c'" using chunk_read_zero[of c len n bs c'] by simp
    from prune_after_zero[OF p this] 2 show ?thesis by simp
  qed (use 2 length_prune_head_le[OF p] in simp)
qed simp

declare read_loop.simps [simp del]

definition Curl_bufq_read :: "bufq \<Rightarrow> bufmem \<Rightarrow> nat \<Rightarrow> CURLcode \<times> bytes \<times> bufq \<times> bufmem" where
  "Curl_bufq_read q m len =
     (case read_loop q m len [] of (out, q, m) \<Rightarrow>
        (if length out = 0 then CURLE_AGAIN else CURLE_OK, out, q, m))"

definition Curl_bufq_cread :: "bufq \<Rightarrow> bufmem \<Rightarrow> nat \<Rightarrow> CURLcode \<times> bytes \<times> bufq \<times> bufmem" where
  "Curl_bufq_cread q m len = Curl_bufq_read q m len"

definition Curl_bufq_peek :: "bufq \<Rightarrow> bufmem \<Rightarrow> bytes option \<times> bufq \<times> bufmem" where
  "Curl_bufq_peek q m =
     (case (if q_head q \<noteq> [] \<and> chunk_is_empty (hd (q_head q)) then prune_head q m else (q, m)) of
        (q, m) \<Rightarrow>
          (case q_head q of
             [] \<Rightarrow> (None, q, m)
           | c # _ \<Rightarrow> if \<not> chunk_is_empty c then (Some (chunk_peek c), q, m) else (None, q, m)))"

fun peek_at_loop :: "buf_chunk list \<Rightarrow> nat \<Rightarrow> bytes option" where
  "peek_at_loop [] offset = None"
| "peek_at_loop (c # cs) offset =
     (let clen = chunk_len c in
      if clen = 0 then None
      else if offset \<ge> clen then peek_at_loop cs (offset - clen)
      else Some (chunk_peek_at c offset))"

definition Curl_bufq_peek_at :: "bufq \<Rightarrow> nat \<Rightarrow> bytes option" where
  "Curl_bufq_peek_at q offset = peek_at_loop (q_head q) offset"

function Curl_bufq_skip :: "bufq \<Rightarrow> bufmem \<Rightarrow> nat \<Rightarrow> bufq \<times> bufmem" where
  "Curl_bufq_skip q m amount =
     (case q_head q of
        [] \<Rightarrow> (q, m)
      | c # cs \<Rightarrow>
          if amount = 0 then (q, m)
          else case chunk_skip c amount of (n, c') \<Rightarrow>
            case prune_head (q\<lparr>q_head := c' # cs\<rparr>) m of (q', m') \<Rightarrow>
              Curl_bufq_skip q' m' (amount - n))"
  by pat_completeness auto
termination
proof (relation "measure (\<lambda>(q, m, amount). amount + length (q_head q))", goal_cases)
  case (2 q m amount c cs n c' q' m')
  then have p: "prune_head (q\<lparr>q_head := c' # cs\<rparr>) m = (q', m')" by simp
  show ?case
  proof (cases "n = 0")
    case True
    with 2 have "chunk_is_empty c'" using chunk_skip_zero[of c amount n c'] by simp
    from prune_after_zero[OF p this] 2 show ?thesis by simp
  qed (use 2 length_prune_head_le[OF p] in simp)
qed simp

declare Curl_bufq_skip.simps [simp del]

lemma chunk_skip_len: "chunk_skip c amount = (n, c') \<Longrightarrow> chunk_len c' = chunk_len c - n \<and> n = min (chunk_len c) amount"
  by (auto simp: chunk_skip_def chunk_defs Let_def split: if_splits)

lemma skip_total: "Curl_bufq_skip q m amount = (q', m') \<Longrightarrow> total (q_head q') = total (q_head q) - amount"
proof (induction q m amount rule: Curl_bufq_skip.induct)
  case (1 q m amount)
  show ?case
  proof (cases "q_head q = [] \<or> amount = 0")
    case False
    then obtain c cs where h: "q_head q = c # cs" and a: "amount \<noteq> 0" by (auto simp: neq_Nil_conv)
    obtain n c' where k: "chunk_skip c amount = (n, c')" by fastforce
    obtain q1 m1 where p: "prune_head (q\<lparr>q_head := c' # cs\<rparr>) m = (q1, m1)" by fastforce
    have "Curl_bufq_skip q1 m1 (amount - n) = (q', m')" using "1.prems" h a k p
      by (simp add: Curl_bufq_skip.simps[of q])
    from "1.IH"[OF h a k[symmetric] p[symmetric] this]
    have "total (q_head q') = total (q_head q1) - (amount - n)" .
    moreover have "total (q_head q1) = chunk_len c' + total cs"
      using prune_head_head[OF p] total_dropWhile[of "c' # cs"] by (simp del: dropWhile.simps)
    ultimately show ?thesis using chunk_skip_len[OF k] h by auto
  qed (use 1 in \<open>auto simp: Curl_bufq_skip.simps[of q] split: list.splits\<close>)
qed

section \<open>Moving bytes through callbacks\<close>

lemma peek_Some:
  assumes "Curl_bufq_peek q m = (Some buf, q', m')"
  shows "total (q_head q') = total (q_head q) \<and>
    (\<exists>c cs. q_head q' = c # cs \<and> 0 < chunk_len c \<and> buf = chunk_peek c)"
proof -
  obtain q1 m1 where
    s: "(if q_head q \<noteq> [] \<and> chunk_is_empty (hd (q_head q)) then prune_head q m else (q, m)) = (q1, m1)"
    by fastforce
  then have "total (q_head q1) = total (q_head q)"
    by (auto dest!: prune_head_head split: if_splits)
  moreover have "\<exists>c cs. q_head q1 = c # cs \<and> \<not> chunk_is_empty c \<and> buf = chunk_peek c \<and> q1 = q' \<and> m1 = m'"
    using assms unfolding Curl_bufq_peek_def s by (cases "q_head q1") (auto split: if_splits)
  ultimately show ?thesis by (auto simp: chunk_is_empty_len)
qed

function pass_loop ::
  "bufq \<Rightarrow> bufmem \<Rightarrow> 's writer \<Rightarrow> 's \<Rightarrow> nat \<Rightarrow> CURLcode \<times> nat \<times> bufq \<times> bufmem \<times> 's" where
  "pass_loop q m writer ctx written =
     (case Curl_bufq_peek q m of (peeked, q1, m1) \<Rightarrow>
        (case peeked of
           None \<Rightarrow> (CURLE_OK, written, q1, m1, ctx)
         | Some buf \<Rightarrow>
             (case writer ctx buf of (result, chunk_written, ctx1) \<Rightarrow>
                if result \<noteq> CURLE_OK
                then (if result = CURLE_AGAIN \<and> written \<noteq> 0 then CURLE_OK else result, written, q1, m1, ctx1)
                else if chunk_written = 0
                then (if written = 0 then CURLE_AGAIN else CURLE_OK, written, q1, m1, ctx1)
                else case Curl_bufq_skip q1 m1 chunk_written of (q2, m2) \<Rightarrow>
                  pass_loop q2 m2 writer ctx1 (written + chunk_written))))"
  by pat_completeness auto
termination
proof (relation "measure (\<lambda>(q, m, writer, ctx, written). total (q_head q))", goal_cases)
  case (2 q m writer ctx written peeked y q1 m1 buf result z chunk_written ctx1 q2 m2)
  then have "Curl_bufq_peek q m = (Some buf, q1, m1)" and "Curl_bufq_skip q1 m1 chunk_written = (q2, m2)"
    and n: "chunk_written \<noteq> 0" by simp_all
  note peek_Some[OF this(1)] skip_total[OF this(2)]
  with n show ?case by auto
qed simp

declare pass_loop.simps [simp del]

definition Curl_bufq_pass ::
  "bufq \<Rightarrow> bufmem \<Rightarrow> 's writer \<Rightarrow> 's \<Rightarrow> CURLcode \<times> nat \<times> bufq \<times> bufmem \<times> 's" where
  "Curl_bufq_pass q m writer ctx = pass_loop q m writer ctx 0"

function write_pass_loop ::
  "bufq \<Rightarrow> bufmem \<Rightarrow> bytes \<Rightarrow> 's writer \<Rightarrow> 's \<Rightarrow> nat \<Rightarrow> CURLcode \<times> nat \<times> bufq \<times> bufmem \<times> 's" where
  "write_pass_loop q m buf writer ctx written =
     (if buf = [] then (write_code written 0, written, q, m, ctx)
      else case (if Curl_bufq_is_full q then Curl_bufq_pass q m writer ctx else (CURLE_OK, 0, q, m, ctx)) of
        (result, _, q1, m1, ctx1) \<Rightarrow>
          if result \<noteq> CURLE_OK
          then (if result \<noteq> CURLE_AGAIN then result else write_code written (length buf), written, q1, m1, ctx1)
          else case Curl_bufq_write q1 m1 buf of (result, n, q2, m2) \<Rightarrow>
            if result \<noteq> CURLE_OK
            then (if result \<noteq> CURLE_AGAIN then result else if written \<noteq> 0 then CURLE_OK else result,
                  written, q2, m2, ctx1)
            else if n = 0 then (write_code written (length buf), written, q2, m2, ctx1)
            else write_pass_loop q2 m2 (drop n buf) writer ctx1 (written + n))"
  by pat_completeness auto
termination
  by (relation "measure (\<lambda>(q, m, buf, writer, ctx, written). length buf)") auto

declare write_pass_loop.simps [simp del]

definition Curl_bufq_write_pass ::
  "bufq \<Rightarrow> bufmem \<Rightarrow> bytes \<Rightarrow> 's writer \<Rightarrow> 's \<Rightarrow> CURLcode \<times> nat \<times> bufq \<times> bufmem \<times> 's" where
  "Curl_bufq_write_pass q m buf writer ctx = write_pass_loop q m buf writer ctx 0"

definition Curl_bufq_sipn ::
  "bufq \<Rightarrow> bufmem \<Rightarrow> nat \<Rightarrow> 's reader \<Rightarrow> 's \<Rightarrow> CURLcode \<times> nat \<times> bufq \<times> bufmem \<times> 's" where
  "Curl_bufq_sipn q m max_len reader ctx =
     (case get_non_full_tail q m of (found, q, m) \<Rightarrow>
        if \<not> found then
          (if q_chunk_count q < q_max_chunks q then CURLE_OUT_OF_MEMORY else CURLE_AGAIN, 0, q, m, ctx)
        else case chunk_slurpn (last (q_head q)) max_len reader ctx of (result, n, c, ctx) \<Rightarrow>
          (result, n, set_tail c q, m, ctx))"

text \<open>
  The loop of \<open>bufq_slurpn\<close> need not end on a soft-limited queue with an endless reader, so it is a
  partial function: \<open>None\<close> is a run that never returns.
\<close>

partial_function (option) slurpn_loop ::
  "bufq \<Rightarrow> bufmem \<Rightarrow> nat \<Rightarrow> 's reader \<Rightarrow> 's \<Rightarrow> nat \<Rightarrow> (CURLcode \<times> nat \<times> bufq \<times> bufmem \<times> 's) option" where
  "slurpn_loop q m max_len reader ctx nread =
     (case Curl_bufq_sipn q m max_len reader ctx of (result, n, q, m, ctx) \<Rightarrow>
        if result \<noteq> CURLE_OK
        then Some (if nread = 0 \<or> result \<noteq> CURLE_AGAIN then result else CURLE_OK, nread, q, m, ctx)
        else if n = 0 then Some (CURLE_OK, nread, q, m, ctx)
        else
          let left = max_len - n in
          if max_len \<noteq> 0 \<and> left = 0 then Some (CURLE_OK, nread + n, q, m, ctx)
          else if q_head q \<noteq> [] \<and> \<not> chunk_is_full (last (q_head q)) then Some (CURLE_OK, nread + n, q, m, ctx)
          else slurpn_loop q m left reader ctx (nread + n))"

declare slurpn_loop.simps [code]

definition bufq_slurpn ::
  "bufq \<Rightarrow> bufmem \<Rightarrow> nat \<Rightarrow> 's reader \<Rightarrow> 's \<Rightarrow> (CURLcode \<times> nat \<times> bufq \<times> bufmem \<times> 's) option" where
  "bufq_slurpn q m max_len reader ctx = slurpn_loop q m max_len reader ctx 0"

definition Curl_bufq_slurp ::
  "bufq \<Rightarrow> bufmem \<Rightarrow> 's reader \<Rightarrow> 's \<Rightarrow> (CURLcode \<times> nat \<times> bufq \<times> bufmem \<times> 's) option" where
  "Curl_bufq_slurp q m reader ctx = bufq_slurpn q m 0 reader ctx"

section \<open>Effect of the chunk operations on the unread bytes\<close>

lemma chunk_append_ok:
  assumes "chunk_ok cs c" "chunk_append c buf = (n, c')"
  shows "chunk_ok cs c' \<and> chunk_peek c' = chunk_peek c @ take n buf \<and>
         n = min (dlen c - w_offset c) (length buf) \<and> w_offset c' = w_offset c + n"
proof -
  have n: "n = min (dlen c - w_offset c) (length buf)"
    using assms(2) by (auto simp: chunk_append_def Let_def split: if_splits)
  show ?thesis
  proof (cases "dlen c = w_offset c")
    case True
    with assms show ?thesis by (auto simp: chunk_append_def Let_def)
  next
    case False
    with assms have c': "c' = c\<lparr>chunk_data := mem_write (chunk_data c) (w_offset c) (take n buf), w_offset := w_offset c + n\<rparr>"
      by (auto simp: chunk_append_def Let_def chunk_defs)
    from assms(1) n have "w_offset c + length (take n buf) \<le> length (chunk_data c)" "n = length (take n buf)"
      by (auto simp: chunk_defs)
    with assms(1) c' n show ?thesis
      by (auto simp: chunk_defs chunk_peek_drop_take drop_take_mem_write)
  qed
qed

lemma chunk_read_ok:
  assumes "chunk_ok cs c" "chunk_read c len = (n, bs, c')" "0 < len"
  shows "chunk_ok cs c'" "bs = take len (chunk_peek c)" "n = length bs"
    "chunk_peek c' = drop len (chunk_peek c)" "sealed c \<Longrightarrow> sealed c' \<or> chunk_is_empty c'"
  using assms by (auto simp: chunk_read_def chunk_defs chunk_peek_def Let_def min_def drop_take add.commute split: if_splits)

lemma chunk_skip_ok:
  assumes "chunk_ok cs c" "chunk_skip c len = (n, c')" "0 < len"
  shows "chunk_ok cs c'" "n = min len (length (chunk_peek c))"
    "chunk_peek c' = drop len (chunk_peek c)" "sealed c \<Longrightarrow> sealed c' \<or> chunk_is_empty c'"
  using assms by (auto simp: chunk_skip_def chunk_defs chunk_peek_def Let_def min_def drop_take add.commute split: if_splits)

lemma chunk_slurpn_ok:
  assumes "chunk_ok cs c" "chunk_slurpn c max_len reader ctx = (r, n, c', ctx')"
    "\<And>room r bs ctx'. reader ctx room = (r, bs, ctx') \<Longrightarrow> length bs \<le> room" "\<not> chunk_is_full c"
  shows "\<exists>room bs. reader ctx room = (r, bs, ctx') \<and> 0 < room \<and> (max_len \<noteq> 0 \<longrightarrow> room \<le> max_len) \<and>
    n = length bs \<and> chunk_ok cs c' \<and> chunk_peek c' = chunk_peek c @ (if r = CURLE_OK then bs else []) \<and>
    w_offset c' = w_offset c + (if r = CURLE_OK then n else 0)"
proof -
  define room where "room = (if max_len \<noteq> 0 \<and> dlen c - w_offset c > max_len then max_len else dlen c - w_offset c)"
  obtain r1 bs ctx1 where e: "reader ctx room = (r1, bs, ctx1)" by (cases "reader ctx room")
  have w: "w_offset c < dlen c" using assms(4) by (simp add: chunk_is_full_def)
  have fit: "w_offset c + length bs \<le> length (chunk_data c)"
    using assms(1) assms(3)[OF e] w by (auto simp: chunk_defs room_def split: if_splits)
  have "r = r1 \<and> n = length bs \<and> ctx' = ctx1 \<and>
      c' = (let d = c\<lparr>chunk_data := mem_write (chunk_data c) (w_offset c) bs\<rparr> in
            if r = CURLE_OK then d\<lparr>w_offset := w_offset c + length bs\<rparr> else d)"
    using assms(2) e w unfolding chunk_slurpn_def room_def[symmetric] Let_def by auto
  with assms(1) fit e w show ?thesis
    by (intro exI[of _ room] exI[of _ bs])
       (auto simp: Let_def chunk_defs chunk_peek_drop_take drop_take_mem_write take_mem_write_before room_def)
qed

section \<open>The tail\<close>

lemma get_spare_ok:
  assumes "store_ok k q m" "get_spare q m = (x, q', m')"
  shows "pools_kept m m' \<and> same_setup q q' \<and> q_head q' = q_head q \<and>
    (case x of
       None \<Rightarrow> store_ok k q' m' \<and> q_spare q' = []
     | Some c \<Rightarrow> store_ok (Suc k) q' m' \<and> chunk_ok (q_chunk_size q) c \<and> chunk_peek c = [] \<and> w_offset c = 0)"
proof (cases "q_spare q")
  case (Cons c rest)
  with assms show ?thesis by (auto simp: get_spare_def store_ok_def same_setup_def)
next
  case Nil
  show ?thesis
  proof (cases "q_chunk_count q \<ge> q_max_chunks q \<and> \<not> soft_limit q")
    case True
    with Nil assms show ?thesis by (simp add: get_spare_def)
  next
    case False
    show ?thesis
    proof (cases "q_pool q")
      case (Some p)
      obtain r c m1 where t: "bufcp_take p m = (r, c, m1)" by (cases "bufcp_take p m")
      note kept = bufcp_take_kept[OF t]
      from Some assms(1) have "pool_ok (pools m p)" "p_chunk_size (pools m p) = q_chunk_size q"
        by (simp_all add: store_ok_def)
      with t bufcp_take_chunk[of p m c m1] False Nil Some assms kept show ?thesis
        by (cases "r = CURLE_OK")
           (auto simp: get_spare_def store_ok_def same_setup_def pools_kept_def)
    next
      case None
      obtain c m1 where t: "calloc_chunk (q_chunk_size q) m = (c, m1)" by (cases "calloc_chunk (q_chunk_size q) m")
      with None Nil False assms calloc_chunk_SomeD[of "q_chunk_size q" m _ m1] calloc_chunk_pools[OF t]
      show ?thesis
        by (cases c) (auto simp: get_spare_def store_ok_def same_setup_def pools_kept_same)
    qed
  qed
qed

lemma get_spare_None:
  assumes "get_spare q m = (None, q', m')"
  shows "q_spare q = [] \<and> q' = q \<and>
    ((q_chunk_count q \<ge> q_max_chunks q \<and> \<not> soft_limit q) \<or> q_chunk_size q > SIZE_MAX - sizeof_buf_chunk \<or>
     (\<exists>p. q_pool q = Some p) \<or> \<not> allocs m 0)"
  using assms by (auto dest: bufcp_take_OK_Some simp: get_spare_def calloc_chunk_def request_def split: list.splits if_splits option.splits prod.splits)

definition used :: "bufq \<Rightarrow> nat" where
  "used q = sum_list (map w_offset (q_head q))"

lemma full_sealed: "chunk_ok cs c \<Longrightarrow> 0 < cs \<Longrightarrow> chunk_is_full c \<Longrightarrow> sealed c"
  by (auto simp: chunk_defs)

lemma get_non_full_tail_ok:
  assumes "bufq_ok q m" "get_non_full_tail q m = (found, q', m')"
  shows "bufq_ok q' m'" "pools_kept m m'" "same_setup q q'" "content q' = content q" "used q' = used q"
    "found \<Longrightarrow> q_head q' \<noteq> [] \<and> \<not> chunk_is_full (last (q_head q'))"
    "\<not> found \<Longrightarrow> q_spare q' = [] \<and> q_head q' = q_head q \<and> (q_head q \<noteq> [] \<longrightarrow> chunk_is_full (last (q_head q)))"
proof -
  have "bufq_ok q' m' \<and> pools_kept m m' \<and> same_setup q q' \<and> content q' = content q \<and> used q' = used q \<and>
    (found \<longrightarrow> q_head q' \<noteq> [] \<and> \<not> chunk_is_full (last (q_head q'))) \<and>
    (\<not> found \<longrightarrow> q_spare q' = [] \<and> q_head q' = q_head q \<and> (q_head q \<noteq> [] \<longrightarrow> chunk_is_full (last (q_head q))))"
  proof (cases "q_head q \<noteq> [] \<and> \<not> chunk_is_full (last (q_head q))")
    case True
    with assms show ?thesis by (auto simp: get_non_full_tail_def)
  next
    case False
    obtain x q1 m1 where g: "get_spare q m = (x, q1, m1)" by (cases "get_spare q m")
    have st: "store_ok (length (q_head q)) q m" and ch: "chunks_ok (q_chunk_size q) (q_head q)" and cs: "0 < q_chunk_size q"
      using assms(1) by (auto simp: bufq_ok_def store_ok_def)
    note G = get_spare_ok[OF st g]
    show ?thesis
    proof (cases x)
      case None
      with False g G ch assms(2) show ?thesis
        by (auto simp: get_non_full_tail_def bufq_ok_def content_def used_def same_setup_def)
    next
      case (Some c)
      have "list_all sealed (q_head q)"
      proof (cases "q_head q" rule: rev_cases)
        case (snoc xs d)
        with ch False full_sealed[OF _ cs, of d] show ?thesis by (simp add: chunks_ok_snoc)
      qed simp
      moreover have "\<not> chunk_is_full c" using G Some cs by (auto simp: chunk_defs)
      moreover have "q_chunk_size q1 = q_chunk_size q" using G by (simp add: same_setup_def)
      ultimately show ?thesis using False g G ch assms(2) Some chunks_ok_all[OF ch]
        by (auto simp: get_non_full_tail_def bufq_ok_def content_def used_def same_setup_def chunks_ok_snoc)
    qed
  qed
  then show "bufq_ok q' m'" "pools_kept m m'" "same_setup q q'" "content q' = content q" "used q' = used q"
    "found \<Longrightarrow> q_head q' \<noteq> [] \<and> \<not> chunk_is_full (last (q_head q'))"
    "\<not> found \<Longrightarrow> q_spare q' = [] \<and> q_head q' = q_head q \<and> (q_head q \<noteq> [] \<longrightarrow> chunk_is_full (last (q_head q)))"
    by simp_all
qed

text \<open>A refused tail on a queue below its limit, or with no limit, is a failed allocation.\<close>

lemma tail_refused_full:
  assumes "bufq_ok q m" "get_non_full_tail q m = (False, q', m')" "\<not> soft_limit q" "q_chunk_count q' \<ge> q_max_chunks q'"
  shows "Curl_bufq_is_full q'"
proof -
  note T = get_non_full_tail_ok[OF assms(1,2)]
  have s: "store_ok (length (q_head q')) q' m'" using T(1) by (simp add: bufq_ok_def)
  then have "0 < q_chunk_count q'" using assms(4) by (auto simp: store_ok_def)
  with s T(7) have ne: "q_head q' \<noteq> []" by (auto simp: store_ok_def)
  have "\<not> soft_limit q'" using assms(3) same_setup_options[OF T(3)] by simp
  with s assms(4) have "q_chunk_count q' = q_max_chunks q'" by (auto simp: store_ok_def)
  with T(7) ne show ?thesis by (simp add: Curl_bufq_is_full_def)
qed

lemma set_tail_ok:
  assumes "bufq_ok q m" "q_head q \<noteq> []" "chunk_ok (q_chunk_size q) c" "chunk_peek c = chunk_peek (last (q_head q)) @ bs"
  shows "bufq_ok (set_tail c q) m \<and> content (set_tail c q) = content q @ bs \<and> same_setup q (set_tail c q)"
proof -
  from assms(2) obtain xs d where h: "q_head q = xs @ [d]" by (cases "q_head q" rule: rev_cases) auto
  with assms show ?thesis
    by (auto simp: bufq_ok_def set_tail_def content_def same_setup_def chunks_ok_snoc)
qed

lemma used_set_tail:
  "q_head q \<noteq> [] \<Longrightarrow> w_offset c = w_offset (last (q_head q)) + n \<Longrightarrow> used (set_tail c q) = used q + n"
  by (cases "q_head q" rule: rev_cases) (auto simp: used_def set_tail_def)

section \<open>Writing\<close>

text \<open>What a call left behind that appended \<open>bs\<close> to the queue.\<close>

definition appended :: "bufq \<Rightarrow> bufmem \<Rightarrow> bytes \<Rightarrow> bufq \<Rightarrow> bufmem \<Rightarrow> bool" where
  "appended q m bs q' m' \<longleftrightarrow> bufq_ok q' m' \<and> content q' = content q @ bs \<and> same_setup q q' \<and> pools_kept m m'"

lemma appended_refl: "bufq_ok q m \<Longrightarrow> appended q m [] q m"
  by (simp add: appended_def)

lemma appended_trans: "appended q m bs q1 m1 \<Longrightarrow> appended q1 m1 cs q2 m2 \<Longrightarrow> appended q m (bs @ cs) q2 m2"
  by (auto simp: appended_def intro: same_setup_trans pools_kept_trans)

lemma get_non_full_tail_appended:
  "bufq_ok q m \<Longrightarrow> get_non_full_tail q m = (found, q', m') \<Longrightarrow> appended q m [] q' m'"
  using get_non_full_tail_ok[of q m found q' m'] by (simp add: appended_def)

lemma append_to_tail:
  assumes "bufq_ok q m" "q_head q \<noteq> []" "chunk_append (last (q_head q)) buf = (n, c)"
  shows "appended q m (take n buf) (set_tail c q) m \<and>
    n = min (dlen (last (q_head q)) - w_offset (last (q_head q))) (length buf)"
proof -
  have "chunk_ok (q_chunk_size q) (last (q_head q))"
    using assms(1,2) chunks_ok_all by (auto simp: bufq_ok_def list_all_iff)
  note A = chunk_append_ok[OF this assms(3)]
  then show ?thesis using set_tail_ok[OF assms(1,2)] by (simp add: appended_def)
qed

lemma write_loop_ok:
  assumes "bufq_ok q m" "write_loop q m buf written = (r, w, q', m')"
  shows "\<exists>k\<le>length buf. w = written + k \<and> appended q m (take k buf) q' m' \<and>
    (if r = CURLE_OUT_OF_MEMORY
     then k < length buf \<and> (q_chunk_count q' < q_max_chunks q' \<or> soft_limit q')
     else r = write_code w (length buf - k) \<and> (k < length buf \<longrightarrow> Curl_bufq_is_full q'))"
  using assms
proof (induction q m buf written rule: write_loop.induct)
  case (1 q m buf written)
  show ?case
  proof (cases "buf = []")
    case True
    with 1 show ?thesis by (auto simp: write_loop.simps[of q] appended_refl write_code_def)
  next
    case False
    obtain found q1 m1 where t: "get_non_full_tail q m = (found, q1, m1)" by (cases "get_non_full_tail q m")
    note T = get_non_full_tail_ok[OF "1.prems"(1) t]
    note A1 = get_non_full_tail_appended[OF "1.prems"(1) t]
    show ?thesis
    proof (cases found)
      case f: False
      note E = "1.prems"(2)[unfolded write_loop.simps[of q]]
      show ?thesis
      proof (cases "q_chunk_count q1 < q_max_chunks q1 \<or> soft_limit q1")
        case True
        with E t f False A1 show ?thesis by (auto intro!: exI[of _ 0])
      next
        case full: False
        then have "\<not> soft_limit q" using same_setup_options[OF T(3)] by simp
        with full t f "1.prems"(1) have "Curl_bufq_is_full q1" by (auto intro: tail_refused_full)
        with E t f False full A1 show ?thesis by (auto intro!: exI[of _ 0] simp: write_code_def)
      qed
    next
      case True
      obtain n c where a: "chunk_append (last (q_head q1)) buf = (n, c)" by fastforce
      have ne: "q_head q1 \<noteq> []" "\<not> chunk_is_full (last (q_head q1))" using T(6) True by auto
      note A2 = append_to_tail[OF T(1) ne(1) a]
      from A2 ne(2) False have n: "0 < n" "n \<le> length buf" by (auto simp: chunk_is_full_def)
      have "bufq_ok (set_tail c q1) m1" using A2 by (simp add: appended_def)
      moreover have "write_loop (set_tail c q1) m1 (drop n buf) (written + n) = (r, w, q', m')"
        using "1.prems"(2) False t True a n by (simp add: write_loop.simps[of q])
      moreover note "1.IH"[OF False t[symmetric] refl _ a[symmetric]]
      ultimately obtain k where k: "k \<le> length (drop n buf)" "w = written + n + k"
        "appended (set_tail c q1) m1 (take k (drop n buf)) q' m'" "if r = CURLE_OUT_OF_MEMORY
         then k < length (drop n buf) \<and> (q_chunk_count q' < q_max_chunks q' \<or> soft_limit q')
         else r = write_code w (length (drop n buf) - k) \<and> (k < length (drop n buf) \<longrightarrow> Curl_bufq_is_full q')"
        using True n by auto
      have "appended q m (take (n + k) buf) q' m'"
        using appended_trans[OF appended_trans[OF A1 conjunct1[OF A2]] k(3)] by (simp add: take_add)
      then show ?thesis using k n by (intro exI[of _ "n + k"]) (auto split: if_splits)
    qed
  qed
qed

section \<open>Reading and skipping\<close>

text \<open>Replacing the head chunk by what an operation left of it, and pruning, keeps the invariant.\<close>

lemma prune_after_head:
  assumes "bufq_ok q m" "q_head q = c # cs" "chunk_ok (q_chunk_size q) c'"
    "sealed c \<Longrightarrow> sealed c' \<or> chunk_is_empty c'" "prune_head (q\<lparr>q_head := c' # cs\<rparr>) m = (q', m')"
  shows "bufq_ok q' m' \<and> content q' = chunk_peek c' @ concat (map chunk_peek cs) \<and> same_setup q q' \<and> pools_kept m m'"
proof -
  from assms(1,2) have st: "store_ok (length (c' # cs)) (q\<lparr>q_head := c' # cs\<rparr>) m"
    and cs: "chunks_ok (q_chunk_size q) cs" and c: "cs \<noteq> [] \<longrightarrow> sealed c"
    by (auto simp: bufq_ok_def chunks_ok_Cons)
  have "list_all (spare_ok (q_chunk_size q)) (c' # cs)"
    using chunk_ok_spare[OF assms(3)] chunks_ok_all[OF cs] by (auto simp: list_all_iff chunk_ok_spare)
  then have P: "q_head q' = dropWhile chunk_is_empty (c' # cs) \<and> store_ok (length (q_head q')) q' m' \<and>
      pools_kept m m' \<and> same_setup (q\<lparr>q_head := c' # cs\<rparr>) q'"
    using prune_chunks_ok[OF st] assms(5) by (auto simp: prune_head_def)
  have "chunks_ok (q_chunk_size q) (dropWhile chunk_is_empty (c' # cs))"
    using assms(3,4) cs c by (auto simp: chunks_ok_dropWhile chunks_ok_Cons)
  with P show ?thesis
    using concat_peek_dropWhile[of "c' # cs"] by (auto simp: bufq_ok_def same_setup_def content_def simp del: dropWhile.simps)
qed

text \<open>What a call left behind that took \<open>n\<close> bytes from the front of the queue.\<close>

definition consumed :: "bufq \<Rightarrow> bufmem \<Rightarrow> nat \<Rightarrow> bufq \<Rightarrow> bufmem \<Rightarrow> bool" where
  "consumed q m n q' m' \<longleftrightarrow> bufq_ok q' m' \<and> content q' = drop n (content q) \<and> same_setup q q' \<and> pools_kept m m'"

lemma drop_rest: "drop (len - min len (length xs)) (drop len xs @ ys) = drop len (xs @ (ys::'a list))"
  by (cases "len \<le> length xs") (auto simp: min_def)

lemma take_rest: "take len xs @ take (len - min len (length xs)) (drop len xs @ ys) = take len (xs @ (ys::'a list))"
  by (cases "len \<le> length xs") (auto simp: min_def)

lemma consumed_trans:
  "consumed q m 0 q1 m1 \<Longrightarrow> consumed q1 m1 n q2 m2 \<Longrightarrow> consumed q m n q2 m2"
  by (auto simp: consumed_def intro: same_setup_trans pools_kept_trans)

lemma read_loop_ok:
  assumes "bufq_ok q m" "read_loop q m len out = (out', q', m')"
  shows "out' = out @ take len (content q) \<and> consumed q m len q' m'"
  using assms
proof (induction q m len out rule: read_loop.induct)
  case (1 q m len out)
  show ?case
  proof (cases "q_head q = [] \<or> len = 0")
    case True
    with 1 show ?thesis by (cases "q_head q") (auto simp: read_loop.simps[of q] consumed_def content_def)
  next
    case False
    then obtain c cs where h: "q_head q = c # cs" and l: "len \<noteq> 0" by (cases "q_head q") auto
    obtain n bs c' where k: "chunk_read c len = (n, bs, c')" by (cases "chunk_read c len")
    obtain q1 m1 where p: "prune_head (q\<lparr>q_head := c' # cs\<rparr>) m = (q1, m1)" by fastforce
    have ck: "chunk_ok (q_chunk_size q) c" using "1.prems"(1) h by (simp add: bufq_ok_def chunks_ok_Cons)
    note C = chunk_read_ok[OF ck k] 
    have P: "bufq_ok q1 m1 \<and> content q1 = chunk_peek c' @ concat (map chunk_peek cs) \<and> same_setup q q1 \<and> pools_kept m m1"
      using C l by (intro prune_after_head[OF "1.prems"(1) h _ _ p]) auto
    have "read_loop q1 m1 (len - n) (out @ bs) = (out', q', m')"
      using "1.prems"(2) h l k p by (simp add: read_loop.simps[of q])
    from "1.IH"[OF h l k[symmetric] refl p[symmetric] _ this] P
    have I: "out' = (out @ bs) @ take (len - n) (content q1) \<and> consumed q1 m1 (len - n) q' m'" by simp
    have n: "n = min len (length (chunk_peek c))" using C l by simp
    have "content q = chunk_peek c @ concat (map chunk_peek cs)" using h by (simp add: content_def)
    with I P C l n show ?thesis
      by (auto simp: consumed_def drop_rest take_rest simp del: drop_append take_append
               intro: same_setup_trans pools_kept_trans)
  qed
qed

lemma skip_ok: "bufq_ok q m \<Longrightarrow> Curl_bufq_skip q m n = (q', m') \<Longrightarrow> consumed q m n q' m'"
proof (induction q m n rule: Curl_bufq_skip.induct)
  case (1 q m len)
  show ?case
  proof (cases "q_head q = [] \<or> len = 0")
    case True
    with 1 show ?thesis by (cases "q_head q") (auto simp: Curl_bufq_skip.simps[of q] consumed_def content_def)
  next
    case False
    then obtain c cs where h: "q_head q = c # cs" and l: "len \<noteq> 0" by (cases "q_head q") auto
    obtain n c' where k: "chunk_skip c len = (n, c')" by (cases "chunk_skip c len")
    obtain q1 m1 where p: "prune_head (q\<lparr>q_head := c' # cs\<rparr>) m = (q1, m1)" by fastforce
    have ck: "chunk_ok (q_chunk_size q) c" using "1.prems"(1) h by (simp add: bufq_ok_def chunks_ok_Cons)
    note C = chunk_skip_ok[OF ck k] 
    have P: "bufq_ok q1 m1 \<and> content q1 = chunk_peek c' @ concat (map chunk_peek cs) \<and> same_setup q q1 \<and> pools_kept m m1"
      using C l by (intro prune_after_head[OF "1.prems"(1) h _ _ p]) auto
    have "Curl_bufq_skip q1 m1 (len - n) = (q', m')"
      using "1.prems"(2) h l k p by (simp add: Curl_bufq_skip.simps[of q])
    from "1.IH"[OF h l k[symmetric] p[symmetric] _ this] P
    have I: "consumed q1 m1 (len - n) q' m'" by simp
    have "content q = chunk_peek c @ concat (map chunk_peek cs)" using h by (simp add: content_def)
    with I P C l show ?thesis
      by (auto simp: consumed_def drop_rest simp del: drop_append intro: same_setup_trans pools_kept_trans)
  qed
qed

lemma content_empty_head:
  assumes "chunks_ok cs (q_head q)" "q_head q = c # rest"
  shows "content q = [] \<longleftrightarrow> chunk_is_empty c"
proof
  assume "chunk_is_empty c"
  with assms have "rest = []" by (auto simp: chunks_ok_Cons chunk_defs)
  with assms(2) \<open>chunk_is_empty c\<close> show "content q = []" by (simp add: content_def chunk_peek_empty)
next
  assume "content q = []"
  with assms have "chunk_peek c = []" "chunk_ok cs c" by (auto simp: content_def chunks_ok_Cons)
  with length_chunk_peek[of cs c] show "chunk_is_empty c" by (simp add: chunk_is_empty_len)
qed

lemma is_empty_content: "bufq_ok q m \<Longrightarrow> Curl_bufq_is_empty q \<longleftrightarrow> content q = []"
  using content_empty_head[of "q_chunk_size q" q]
  by (cases "q_head q") (auto simp: Curl_bufq_is_empty_def bufq_ok_def content_def)

lemma peek_ok:
  assumes "bufq_ok q m" "Curl_bufq_peek q m = (x, q', m')"
  shows "consumed q m 0 q' m' \<and>
    (case x of None \<Rightarrow> content q = [] | Some buf \<Rightarrow> buf \<noteq> [] \<and> (\<exists>rest. content q = buf @ rest))"
proof -
  obtain q1 m1 where
    s: "(if q_head q \<noteq> [] \<and> chunk_is_empty (hd (q_head q)) then prune_head q m else (q, m)) = (q1, m1)"
    by fastforce
  from assms(1) have b: "store_ok (length (q_head q)) q m" "chunks_ok (q_chunk_size q) (q_head q)"
    by (simp_all add: bufq_ok_def)
  have c: "consumed q m 0 q1 m1"
    using s assms(1) prune_head_ok[OF b, of q1 m1] by (auto simp: consumed_def split: if_splits)
  then have ok: "chunks_ok (q_chunk_size q1) (q_head q1)" "content q1 = content q"
    by (simp_all add: consumed_def bufq_ok_def)
  have e: "(case q_head q1 of [] \<Rightarrow> (None, q1, m1)
        | c # _ \<Rightarrow> if \<not> chunk_is_empty c then (Some (chunk_peek c), q1, m1) else (None, q1, m1)) = (x, q', m')"
    using assms(2) unfolding Curl_bufq_peek_def s by simp
  show ?thesis
  proof (cases "q_head q1")
    case Nil
    with e c ok show ?thesis by (auto simp: content_def)
  next
    case (Cons d ds)
    from content_empty_head[OF ok(1) Cons] ok(2) have E: "content q = [] \<longleftrightarrow> chunk_is_empty d" by simp
    have "content q = chunk_peek d @ concat (map chunk_peek ds)"
      unfolding ok(2)[symmetric] by (simp add: content_def Cons)
    moreover have "chunk_peek d \<noteq> []" if "\<not> chunk_is_empty d"
      using that ok(1) Cons length_chunk_peek[of "q_chunk_size q1" d] by (auto simp: chunks_ok_Cons chunk_is_empty_len)
    ultimately show ?thesis using e Cons c E by (cases "chunk_is_empty d") auto
  qed
qed

lemma peek_at_loop_ok:
  assumes "chunks_ok cs xs"
  shows "case peek_at_loop xs offset of
      None \<Rightarrow> length (concat (map chunk_peek xs)) \<le> offset
    | Some buf \<Rightarrow> buf \<noteq> [] \<and> (\<exists>rest. drop offset (concat (map chunk_peek xs)) = buf @ rest)"
  using assms
proof (induction xs offset rule: peek_at_loop.induct)
  case (2 c xs offset)
  then have ck: "chunk_ok cs c" "chunks_ok cs xs" by (simp_all add: chunks_ok_Cons)
  note L = length_chunk_peek[OF ck(1)]
  show ?case
  proof (cases "chunk_len c = 0")
    case True
    with 2 have "xs = []" by (auto simp: chunks_ok_Cons chunk_defs)
    with True L show ?thesis by simp
  next
    case False
    show ?thesis
    proof (cases "chunk_len c \<le> offset")
      case True
      with False 2 ck L show ?thesis by (auto split: option.splits)
    next
      case inside: False
      have "chunk_peek_at c offset = drop offset (chunk_peek c)"
        by (simp add: chunk_peek_at_def chunk_peek_def drop_take Let_def add.commute)
      with False inside L show ?thesis by simp
    qed
  qed
qed simp

section \<open>Moving bytes through callbacks\<close>

text \<open>
  What the callbacks promise. \<open>received\<close> and \<open>delivered\<close> read off a callback's context the bytes it
  has taken or produced so far.
\<close>

definition sink_ok :: "'s writer \<Rightarrow> ('s \<Rightarrow> bytes) \<Rightarrow> bool" where
  "sink_ok writer received \<longleftrightarrow> (\<forall>ctx buf r n ctx'. writer ctx buf = (r, n, ctx') \<longrightarrow>
     (if r = CURLE_OK then n \<le> length buf \<and> received ctx' = received ctx @ take n buf
      else received ctx' = received ctx))"

definition source_ok :: "'s reader \<Rightarrow> ('s \<Rightarrow> bytes) \<Rightarrow> bool" where
  "source_ok reader delivered \<longleftrightarrow> (\<forall>ctx room r bs ctx'. reader ctx room = (r, bs, ctx') \<longrightarrow>
     length bs \<le> room \<and> delivered ctx' = delivered ctx @ (if r = CURLE_OK then bs else []))"

lemma sink_okD:
  "sink_ok writer received \<Longrightarrow> writer ctx buf = (r, n, ctx') \<Longrightarrow>
     (if r = CURLE_OK then n \<le> length buf \<and> received ctx' = received ctx @ take n buf
      else received ctx' = received ctx)"
  by (simp add: sink_ok_def)

lemma source_okD:
  "source_ok reader delivered \<Longrightarrow> reader ctx room = (r, bs, ctx') \<Longrightarrow>
     length bs \<le> room \<and> delivered ctx' = delivered ctx @ (if r = CURLE_OK then bs else [])"
  by (simp add: source_ok_def)

definition passed :: "('s \<Rightarrow> bytes) \<Rightarrow> nat \<Rightarrow> bufq \<Rightarrow> bufmem \<Rightarrow> 's \<Rightarrow> bufq \<Rightarrow> bufmem \<Rightarrow> 's \<Rightarrow> bool" where
  "passed received n q m ctx q' m' ctx' \<longleftrightarrow> n \<le> length (content q) \<and> consumed q m n q' m' \<and>
     received ctx' = received ctx @ take n (content q)"

lemma passed_trans:
  assumes "passed received n q m ctx q1 m1 ctx1" "passed received k q1 m1 ctx1 q2 m2 ctx2"
  shows "passed received (n + k) q m ctx q2 m2 ctx2"
  using assms by (auto simp: passed_def consumed_def take_add add.commute[of k n] intro: same_setup_trans pools_kept_trans)

lemma pass_loop_ok:
  assumes "sink_ok writer received" "bufq_ok q m" "pass_loop q m writer ctx written = (r, w, q', m', ctx')"
  shows "\<exists>k. w = written + k \<and> passed received k q m ctx q' m' ctx' \<and> (r = CURLE_AGAIN \<longrightarrow> w = 0)"
  using assms
proof (induction q m writer ctx written rule: pass_loop.induct)
  case (1 q m writer ctx written)
  obtain x q1 m1 where p: "Curl_bufq_peek q m = (x, q1, m1)" by (cases "Curl_bufq_peek q m")
  note P = peek_ok[OF "1.prems"(2) p]
  then have c1: "bufq_ok q1 m1" "content q1 = content q" by (simp_all add: consumed_def)
  show ?case
  proof (cases x)
    case None
    with 1 p P show ?thesis by (auto simp: pass_loop.simps[of q] passed_def)
  next
    case (Some buf)
    obtain r1 n ctx1 where w: "writer ctx buf = (r1, n, ctx1)" by (cases "writer ctx buf")
    note S = sink_okD[OF "1.prems"(1) w]
    show ?thesis
    proof (cases "r1 \<noteq> CURLE_OK \<or> n = 0")
      case True
      with S have "passed received 0 q m ctx q1 m1 ctx1" using P by (auto simp: passed_def split: if_splits)
      with True 1 p Some w show ?thesis by (auto simp: pass_loop.simps[of q] split: if_splits)
    next
      case False
      obtain q2 m2 where k: "Curl_bufq_skip q1 m1 n = (q2, m2)" by fastforce
      note K = skip_ok[OF c1(1) k]
      from P Some obtain rest where "content q = buf @ rest" by auto
      with S False K P c1 have A: "passed received n q m ctx q2 m2 ctx1"
        by (auto simp: passed_def consumed_def intro: same_setup_trans pools_kept_trans)
      have "pass_loop q2 m2 writer ctx1 (written + n) = (r, w, q', m', ctx')"
        using "1.prems"(3) p Some w False k by (simp add: pass_loop.simps[of q])
      moreover have "bufq_ok q2 m2" using K by (simp add: consumed_def)
      ultimately obtain j where "w = written + n + j" "passed received j q2 m2 ctx1 q' m' ctx'" "r = CURLE_AGAIN \<longrightarrow> w = 0"
        using "1.IH"[OF p[symmetric] refl Some w[symmetric] refl _ _ k[symmetric] "1.prems"(1)] False by auto
      then show ?thesis using passed_trans[OF A] by (intro exI[of _ "n + j"]) auto
    qed
  qed
qed

lemma write_pass_loop_ok:
  assumes "sink_ok writer received" "bufq_ok q m"
    "write_pass_loop q m buf writer ctx written = (r, w, q', m', ctx')"
  shows "\<exists>k\<le>length buf. w \<le> written + k \<and> (r \<in> {CURLE_OK, CURLE_AGAIN} \<longrightarrow> w = written + k) \<and>
    bufq_ok q' m' \<and> received ctx' @ content q' = received ctx @ content q @ take k buf"
  using assms
proof (induction q m buf writer ctx written rule: write_pass_loop.induct)
  case (1 q m buf writer ctx written)
  show ?case
  proof (cases "buf = []")
    case True
    with 1 show ?thesis by (auto simp: write_pass_loop.simps[of q])
  next
    case False
    obtain r1 n1 q1 m1 ctx1 where
      f: "(if Curl_bufq_is_full q then Curl_bufq_pass q m writer ctx else (CURLE_OK, 0, q, m, ctx)) = (r1, n1, q1, m1, ctx1)"
      by (metis prod_cases5)
    have F: "bufq_ok q1 m1 \<and> received ctx1 @ content q1 = received ctx @ content q"
      using f "1.prems"(2) pass_loop_ok[OF "1.prems"(1,2), of ctx 0 r1 n1 q1 m1 ctx1]
      by (auto simp: Curl_bufq_pass_def passed_def consumed_def split: if_splits)
    note E = "1.prems"(3)[unfolded write_pass_loop.simps[of q] f]
    show ?thesis
    proof (cases "r1 = CURLE_OK")
      case r1: False
      with E False F show ?thesis by (auto intro!: exI[of _ 0] split: if_splits)
    next
      case r1: True
      obtain r2 n q2 m2 where w: "Curl_bufq_write q1 m1 buf = (r2, n, q2, m2)" by (metis prod_cases4)
      from F write_loop_ok[of q1 m1 buf 0 r2 n q2 m2] w have W: "n \<le> length buf"
        "appended q1 m1 (take n buf) q2 m2" "r2 \<noteq> CURLE_OUT_OF_MEMORY \<Longrightarrow> r2 = write_code n (length buf - n)"
        by (auto simp: Curl_bufq_write_def split: if_splits)
      have A: "received ctx1 @ content q2 = received ctx @ content q @ take n buf"
        using F W(2) by (simp add: appended_def flip: append_assoc)
      have ok2: "bufq_ok q2 m2" using W(2) by (simp add: appended_def)
      show ?thesis
      proof (cases "r2 = CURLE_OK \<and> n \<noteq> 0")
        case False
        then show ?thesis using E \<open>buf \<noteq> []\<close> r1 w W A ok2
          by (intro exI[of _ n]) (auto simp: write_code_def split: if_splits)
      next
        case True
        have "write_pass_loop q2 m2 (drop n buf) writer ctx1 (written + n) = (r, w, q', m', ctx')"
          using E \<open>buf \<noteq> []\<close> r1 w True by simp
        then obtain k where k: "k \<le> length (drop n buf)" "w \<le> written + n + k" "r \<in> {CURLE_OK, CURLE_AGAIN} \<longrightarrow> w = written + n + k"
          "bufq_ok q' m'" "received ctx' @ content q' = received ctx1 @ content q2 @ take k (drop n buf)"
          using "1.IH"[OF False f[symmetric] refl refl refl _ w[symmetric] refl refl _ _ "1.prems"(1) ok2] r1 True
          by auto
        with A have "received ctx' @ content q' = received ctx @ content q @ take (n + k) buf"
          by (simp add: take_add flip: append_assoc)
        with k W(1) show ?thesis by (intro exI[of _ "n + k"]) auto
      qed
    qed
  qed
qed

lemma sipn_ok:
  assumes "source_ok reader delivered" "bufq_ok q m" "Curl_bufq_sipn q m max_len reader ctx = (r, n, q', m', ctx')"
  shows "\<exists>bs. appended q m bs q' m' \<and> delivered ctx' = delivered ctx @ bs \<and> used q' = used q + length bs \<and>
    (if r = CURLE_OK then n = length bs \<and> (max_len \<noteq> 0 \<longrightarrow> n \<le> max_len) else bs = [])"
proof -
  obtain found q1 m1 where t: "get_non_full_tail q m = (found, q1, m1)" by (cases "get_non_full_tail q m")
  note T = get_non_full_tail_ok[OF assms(2) t]
  note A1 = get_non_full_tail_appended[OF assms(2) t]
  show ?thesis
  proof (cases found)
    case False
    with assms(3) t A1 T(5) show ?thesis by (auto simp: Curl_bufq_sipn_def split: if_splits)
  next
    case True
    obtain r1 n1 c ctx1 where s: "chunk_slurpn (last (q_head q1)) max_len reader ctx = (r1, n1, c, ctx1)"
      by (metis prod_cases4)
    have ne: "q_head q1 \<noteq> []" "\<not> chunk_is_full (last (q_head q1))" using T(6) True by auto
    have ck: "chunk_ok (q_chunk_size q1) (last (q_head q1))"
      using T(1) ne(1) chunks_ok_all by (auto simp: bufq_ok_def list_all_iff)
    obtain room bs where S: "reader ctx room = (r1, bs, ctx1)" "max_len \<noteq> 0 \<longrightarrow> room \<le> max_len" "n1 = length bs"
      "chunk_ok (q_chunk_size q1) c" "chunk_peek c = chunk_peek (last (q_head q1)) @ (if r1 = CURLE_OK then bs else [])"
      "w_offset c = w_offset (last (q_head q1)) + (if r1 = CURLE_OK then n1 else 0)"
      using chunk_slurpn_ok[OF ck s _ ne(2)] source_okD[OF assms(1)] by metis
    have res: "r = r1" "n = n1" "q' = set_tail c q1" "m' = m1" "ctx' = ctx1"
      using assms(3) t True s by (auto simp: Curl_bufq_sipn_def)
    have "appended q1 m1 (if r1 = CURLE_OK then bs else []) (set_tail c q1) m1"
      using set_tail_ok[OF T(1) ne(1) S(4,5)] by (simp add: appended_def)
    with appended_trans[OF A1 this] res S source_okD[OF assms(1) S(1)] used_set_tail[OF ne(1) S(6)] T(5)
    show ?thesis by (intro exI[of _ "if r1 = CURLE_OK then bs else []"]) auto
  qed
qed

lemma used_bound:
  assumes "bufq_ok q m" "\<not> soft_limit q"
  shows "used q \<le> q_max_chunks q * q_chunk_size q"
proof -
  have all: "list_all (chunk_ok (q_chunk_size q)) (q_head q)" and n: "length (q_head q) \<le> q_max_chunks q"
    using assms chunks_ok_all by (auto simp: bufq_ok_def store_ok_def)
  have "sum_list (map w_offset xs) \<le> length xs * cs" if "list_all (chunk_ok cs) xs" for xs cs
    using that by (induction xs) (auto simp: chunk_defs)
  from this[OF all] have "used q \<le> length (q_head q) * q_chunk_size q" by (simp add: used_def)
  with n show ?thesis by (meson mult_le_mono1 order_trans)
qed

lemma slurpn_loop_ok:
  assumes "source_ok reader delivered" "bufq_ok q m" "\<not> soft_limit q"
  shows "\<exists>r n q' m' ctx' bs. slurpn_loop q m max_len reader ctx nread = Some (r, n, q', m', ctx') \<and>
    appended q m bs q' m' \<and> delivered ctx' = delivered ctx @ bs \<and> n = nread + length bs \<and>
    (max_len \<noteq> 0 \<longrightarrow> length bs \<le> max_len)"
  using assms(2,3)
proof (induction "q_max_chunks q * q_chunk_size q - used q" arbitrary: q m max_len ctx nread rule: less_induct)
  case (less q m max_len ctx nread)
  obtain r n q1 m1 ctx1 where s: "Curl_bufq_sipn q m max_len reader ctx = (r, n, q1, m1, ctx1)" by (metis prod_cases5)
  obtain bs where S: "appended q m bs q1 m1" "delivered ctx1 = delivered ctx @ bs" "used q1 = used q + length bs"
    "if r = CURLE_OK then n = length bs \<and> (max_len \<noteq> 0 \<longrightarrow> n \<le> max_len) else bs = []"
    using sipn_ok[OF assms(1) less.prems(1) s] by auto
  note E = slurpn_loop.simps[of q m max_len reader ctx nread, unfolded s, simplified]
  let ?stop = "r \<noteq> CURLE_OK \<or> n = 0 \<or> (max_len \<noteq> 0 \<and> max_len - n = 0) \<or>
    (q_head q1 \<noteq> [] \<and> \<not> chunk_is_full (last (q_head q1)))"
  show ?case
  proof (cases ?stop)
    case True
    then show ?thesis using S E by (auto simp: Let_def)
  next
    case False
    have set1: "q_max_chunks q1 = q_max_chunks q" "q_chunk_size q1 = q_chunk_size q" "bufq_ok q1 m1" "\<not> soft_limit q1"
      using S(1) less.prems(2) same_setup_options[of q q1] by (auto simp: appended_def same_setup_def)
    have "used q1 \<le> q_max_chunks q * q_chunk_size q" using used_bound[OF set1(3,4)] set1 by simp
    then have "q_max_chunks q1 * q_chunk_size q1 - used q1 < q_max_chunks q * q_chunk_size q - used q"
    proof -
      have "0 < length bs" "used q1 = used q + length bs" using S(3,4) False by auto
      with \<open>used q1 \<le> q_max_chunks q * q_chunk_size q\<close> set1(1,2) show ?thesis by (metis diff_less_mono2 less_add_same_cancel1 order_less_le_trans)
    qed
    from less.hyps[OF this set1(3,4), of "max_len - n" ctx1 "nread + n"]
    obtain r2 n2 q2 m2 ctx2 cs where I: "slurpn_loop q1 m1 (max_len - n) reader ctx1 (nread + n) = Some (r2, n2, q2, m2, ctx2)"
      "appended q1 m1 cs q2 m2" "delivered ctx2 = delivered ctx1 @ cs" "n2 = nread + n + length cs"
      "max_len - n \<noteq> 0 \<longrightarrow> length cs \<le> max_len - n" by blast
    have "slurpn_loop q m max_len reader ctx nread = Some (r2, n2, q2, m2, ctx2)"
      using E I(1) False by (auto simp: Let_def)
    with I S False appended_trans[OF S(1) I(2)] show ?thesis
      by (intro exI[of _ r2] exI[of _ n2] exI[of _ q2] exI[of _ m2] exI[of _ ctx2] exI[of _ "bs @ cs"]) auto
  qed
qed

section \<open>The contract of a byte queue\<close>

text \<open>
  A client that only puts and gets: the queue hands out, in order and once, the bytes it accepted.
\<close>

datatype 'a fifo_call = Put "'a list" | Get nat

fun fifo_run ::
  "('q \<Rightarrow> 'a list \<Rightarrow> nat \<times> 'q) \<Rightarrow> ('q \<Rightarrow> nat \<Rightarrow> 'a list \<times> 'q) \<Rightarrow> 'a fifo_call list \<Rightarrow> 'q \<Rightarrow> 'a list \<times> 'a list \<times> 'q"
where
  "fifo_run put get [] q = ([], [], q)"
| "fifo_run put get (Put xs # calls) q =
     (case put q xs of (n, q) \<Rightarrow>
        (case fifo_run put get calls q of (ins, outs, q) \<Rightarrow> (take n xs @ ins, outs, q)))"
| "fifo_run put get (Get n # calls) q =
     (case get q n of (xs, q) \<Rightarrow>
        (case fifo_run put get calls q of (ins, outs, q) \<Rightarrow> (ins, xs @ outs, q)))"

locale byte_fifo =
  fixes invar :: "'q \<Rightarrow> bool"
    and elems :: "'q \<Rightarrow> 'a list"
    and put :: "'q \<Rightarrow> 'a list \<Rightarrow> nat \<times> 'q"
    and get :: "'q \<Rightarrow> nat \<Rightarrow> 'a list \<times> 'q"
  assumes put_law: "invar q \<Longrightarrow> put q xs = (n, q') \<Longrightarrow> invar q' \<and> elems q' = elems q @ take n xs"
    and get_law: "invar q \<Longrightarrow> get q n = (xs, q') \<Longrightarrow> invar q' \<and> xs = take n (elems q) \<and> elems q' = drop n (elems q)"
begin

lemma run_in_order:
  "invar q \<Longrightarrow> fifo_run put get calls q = (ins, outs, q') \<Longrightarrow> invar q' \<and> elems q @ ins = outs @ elems q'"
proof (induction calls arbitrary: q ins outs q')
  case (Cons call calls)
  show ?case
  proof (cases call)
    case (Put xs)
    obtain n q1 where p: "put q xs = (n, q1)" by fastforce
    obtain i o1 q2 where r: "fifo_run put get calls q1 = (i, o1, q2)" by (metis prod_cases3)
    from Cons.IH[OF _ r] put_law[OF Cons.prems(1) p] Cons.prems(2) Put p r show ?thesis by auto
  next
    case (Get n)
    obtain xs q1 where g: "get q n = (xs, q1)" by fastforce
    obtain i o1 q2 where r: "fifo_run put get calls q1 = (i, o1, q2)" by (metis prod_cases3)
    from Cons.IH[OF _ r] get_law[OF Cons.prems(1) g] Cons.prems(2) Get g r
    have "invar q' \<and> drop n (elems q) @ ins = o1 @ elems q'" "outs = take n (elems q) @ o1" by auto
    then show ?thesis by (metis append.assoc append_take_drop_id)
  qed
qed simp

lemma drained:
  assumes "invar q" "elems q = []" "put q xs = (length xs, q1)" "get q1 (length xs) = (ys, q2)"
  shows "ys = xs \<and> elems q2 = []"
  using put_law[OF assms(1,3)] get_law[OF _ assms(4)] assms(2) by simp

end

definition bufq_put :: "bufq \<times> bufmem \<Rightarrow> bytes \<Rightarrow> nat \<times> bufq \<times> bufmem" where
  "bufq_put s xs = (case s of (q, m) \<Rightarrow> case Curl_bufq_write q m xs of (_, n, q, m) \<Rightarrow> (n, q, m))"

definition bufq_get :: "bufq \<times> bufmem \<Rightarrow> nat \<Rightarrow> bytes \<times> bufq \<times> bufmem" where
  "bufq_get s n = (case s of (q, m) \<Rightarrow> case Curl_bufq_read q m n of (_, xs, q, m) \<Rightarrow> (xs, q, m))"

interpretation bq: byte_fifo "\<lambda>(q, m). bufq_ok q m" "\<lambda>(q, m). content q" bufq_put bufq_get
proof (unfold_locales, goal_cases)
  case (1 s xs n s')
  obtain q m q' m' where s: "s = (q, m)" "s' = (q', m')" by fastforce
  from 1 s obtain r where "write_loop q m xs 0 = (r, n, q', m')"
    by (auto simp: bufq_put_def Curl_bufq_write_def split: prod.splits)
  with 1 s write_loop_ok[of q m xs 0 r n q' m'] show ?case by (auto simp: appended_def)
next
  case (2 s n xs s')
  obtain q m q' m' where s: "s = (q, m)" "s' = (q', m')" by fastforce
  from 2 s have "read_loop q m n [] = (xs, q', m')"
    by (auto simp: bufq_get_def Curl_bufq_read_def split: prod.splits)
  with 2 s read_loop_ok[of q m n "[]" xs q' m'] show ?case by (auto simp: consumed_def)
qed

section \<open>Reachable queues\<close>

text \<open>
  The states a queue and the memory around it can be in: any sequence of the operations, with any
  arguments and callbacks, and, between them, steps of other queues, which keep the pools in order.
\<close>

inductive reachable :: "bufq \<Rightarrow> bufmem \<Rightarrow> bool" where
  init: "0 < cs \<Longrightarrow> 0 < mx \<Longrightarrow> reachable (Curl_bufq_init cs mx) m"
| init2: "0 < cs \<Longrightarrow> 0 < mx \<Longrightarrow> reachable (Curl_bufq_init2 cs mx opts) m"
| initp: "0 < p_chunk_size (pools m p) \<Longrightarrow> 0 < mx \<Longrightarrow> pool_ok (pools m p) \<Longrightarrow> reachable (Curl_bufq_initp p m mx opts) m"
| others: "reachable q m \<Longrightarrow> pools_kept m m' \<Longrightarrow> reachable q m'"
| written: "reachable q m \<Longrightarrow> Curl_bufq_write q m buf = (r, n, q', m') \<Longrightarrow> reachable q' m'"
| read: "reachable q m \<Longrightarrow> Curl_bufq_read q m len = (r, bs, q', m') \<Longrightarrow> reachable q' m'"
| peek: "reachable q m \<Longrightarrow> Curl_bufq_peek q m = (x, q', m') \<Longrightarrow> reachable q' m'"
| skip: "reachable q m \<Longrightarrow> Curl_bufq_skip q m amount = (q', m') \<Longrightarrow> reachable q' m'"
| pass: "reachable q m \<Longrightarrow> sink_ok writer received \<Longrightarrow> Curl_bufq_pass q m writer (ctx :: bytes) = (r, n, q', m', ctx') \<Longrightarrow>
    reachable q' m'"
| sipn: "reachable q m \<Longrightarrow> source_ok reader delivered \<Longrightarrow>
    Curl_bufq_sipn q m mx reader (ctx :: bytes) = (r, n, q', m', ctx') \<Longrightarrow> reachable q' m'"
| reset: "reachable q m \<Longrightarrow> reachable (Curl_bufq_reset q) m"
| free: "reachable q m \<Longrightarrow> reachable (Curl_bufq_free q) m"

lemma move_to_spare_eq: "move_to_spare xs spare = rev xs @ spare"
  by (induction xs arbitrary: spare) auto

lemma bufq_init_ok: "0 < cs \<Longrightarrow> 0 < mx \<Longrightarrow> pool_fits p cs m \<Longrightarrow> bufq_ok (bufq_init p cs mx opts) m"
  by (simp add: bufq_init_def bufq_ok_def store_ok_def)

lemma reset_ok: "bufq_ok q m \<Longrightarrow> bufq_ok (Curl_bufq_reset q) m \<and> content (Curl_bufq_reset q) = []"
  using chunks_ok_all[of "q_chunk_size q" "q_head q"]
  by (auto simp: Curl_bufq_reset_def bufq_ok_def store_ok_def content_def move_to_spare_eq soft_limit_def list_all_iff chunk_ok_spare)

lemma free_ok: "bufq_ok q m \<Longrightarrow> bufq_ok (Curl_bufq_free q) m \<and> content (Curl_bufq_free q) = []"
  by (auto simp: Curl_bufq_free_def bufq_ok_def store_ok_def content_def soft_limit_def)

lemma reachable_ok: "reachable q m \<Longrightarrow> bufq_ok q m"
proof (induction rule: reachable.induct)
  case (written q m buf r n q' m')
  with write_loop_ok[of q m buf 0] show ?case by (auto simp: Curl_bufq_write_def appended_def)
next
  case (read q m len r bs q' m')
  obtain out q1 m1 where l: "read_loop q m len [] = (out, q1, m1)" by (metis prod_cases3)
  from read_loop_ok[OF read.IH l] l read.hyps(2) show ?case by (auto simp: Curl_bufq_read_def consumed_def)
next
  case (peek q m x q' m')
  with peek_ok[of q m x q' m'] show ?case by (simp add: consumed_def)
next
  case (skip q m amount q' m')
  with skip_ok[of q m amount q' m'] show ?case by (simp add: consumed_def)
next
  case (pass q m writer received ctx r n q' m' ctx')
  with pass_loop_ok[of writer received q m ctx 0 r n q' m' ctx'] show ?case
    by (auto simp: Curl_bufq_pass_def passed_def consumed_def)
next
  case (sipn q m reader delivered mx ctx r n q' m' ctx')
  with sipn_ok[of reader delivered q m mx ctx r n q' m' ctx'] show ?case by (auto simp: appended_def)
qed (auto simp: Curl_bufq_init_def Curl_bufq_init2_def Curl_bufq_initp_def reset_ok free_ok
     intro: bufq_init_ok bufq_ok_kept)

lemma len_content: "bufq_ok q m \<Longrightarrow> Curl_bufq_len q = length (content q)"
  using length_content[OF chunks_ok_all] by (auto simp: bufq_ok_def)

lemma len_bound:
  assumes "bufq_ok q m" "\<not> soft_limit q"
  shows "Curl_bufq_len q \<le> q_max_chunks q * q_chunk_size q"
proof -
  have "sum_list (map (length \<circ> chunk_peek) xs) \<le> sum_list (map w_offset xs)" for xs
    by (induction xs) (auto simp: chunk_peek_def)
  from this[of "q_head q"] have "length (content q) \<le> used q" by (simp add: content_def used_def length_concat)
  then show ?thesis using used_bound[OF assms] len_content[OF assms(1)] by simp
qed

section \<open>Properties\<close>

text \<open>
  In every reachable state of a buffer queue the internal accounts are in order, the length it
  reports is the number of unread bytes, it calls itself empty exactly when there are none, peeking
  at an offset shows the bytes there, and a queue without the soft limit never holds more than
  \<open>max_chunks\<close> chunks or \<open>max_chunks * chunk_size\<close> bytes.
\<close>

theorem bufq_reachable_sound:
  assumes "reachable q m"
  shows "bufq_ok q m \<and> Curl_bufq_len q = length (content q) \<and> (Curl_bufq_is_empty q \<longleftrightarrow> content q = []) \<and>
    (case Curl_bufq_peek_at q offset of
       None \<Rightarrow> length (content q) \<le> offset
     | Some buf \<Rightarrow> buf \<noteq> [] \<and> (\<exists>rest. drop offset (content q) = buf @ rest)) \<and>
    (\<not> soft_limit q \<longrightarrow> length (q_head q) \<le> q_max_chunks q \<and> Curl_bufq_len q \<le> q_max_chunks q * q_chunk_size q)"
proof -
  note ok = reachable_ok[OF assms]
  then have "chunks_ok (q_chunk_size q) (q_head q)" by (simp add: bufq_ok_def)
  from peek_at_loop_ok[OF this, of offset] ok show ?thesis
    using len_content[OF ok] is_empty_content[OF ok] len_bound[OF ok]
    by (auto simp: Curl_bufq_peek_at_def content_def bufq_ok_def store_ok_def split: option.splits)
qed

definition sample_mem :: bufmem where
  "sample_mem = \<lparr>allocs = \<lambda>_. True, pools = \<lambda>_. Curl_bufcp_init 4 2\<rparr>"

lemma sample_init:
  "bufq_ok (Curl_bufq_init 4 2) sample_mem" "content (Curl_bufq_init 4 2) = []" "\<not> soft_limit (Curl_bufq_init 4 2)"
  by (simp_all add: Curl_bufq_init_def bufq_init_ok)
     (simp_all add: bufq_init_def content_def soft_limit_def BUFQ_OPT_NONE_def)

definition sample_queue :: "bufq \<times> bufmem" where
  "sample_queue = (case Curl_bufq_write (Curl_bufq_init 4 2) sample_mem ''hello w'' of (_, _, q, m) \<Rightarrow> (q, m))"

theorem bufq_reachable_sound_witness:
  "Curl_bufq_len (fst sample_queue) = length (content (fst sample_queue)) \<and> content (fst sample_queue) = ''hello w''"
proof -
  obtain r n q m where w: "Curl_bufq_write (Curl_bufq_init 4 2) sample_mem ''hello w'' = (r, n, q, m)"
    by (metis prod_cases4)
  have "reachable (Curl_bufq_init 4 2) sample_mem" by (rule reachable.init) simp_all
  then have "reachable q m" using w by (rule reachable.written)
  then have "reachable (fst sample_queue) (snd sample_queue)" by (simp add: sample_queue_def w)
  from bufq_reachable_sound[OF this, of 0] have "Curl_bufq_len (fst sample_queue) = length (content (fst sample_queue))" by simp
  moreover have "content (fst sample_queue) = ''hello w''" by code_simp
  ultimately show ?thesis by simp
qed

text \<open>
  C8: The buffer queue refines a byte list: over any sequence of writes and reads, whatever
  allocations fail, the bytes read followed by the bytes still queued are the bytes queued before
  followed by the bytes the writes accepted, so no byte is lost, repeated or reordered.
\<close>

theorem bufq_refines_fifo:
  assumes "bufq_ok q m" "fifo_run bufq_put bufq_get calls (q, m) = (ins, outs, q', m')"
  shows "bufq_ok q' m' \<and> content q @ ins = outs @ content q'"
  using bq.run_in_order[OF _ assms(2)] assms(1) by simp

theorem bufq_refines_fifo_witness:
  "content (Curl_bufq_init 4 2) @ ''hello world''
   = ''hello w'' @ content (fst (snd (snd (fifo_run bufq_put bufq_get
       [Put ''hello wo'', Get 3, Put ''!'', Get 4, Put ''rld'', Get 0] (Curl_bufq_init 4 2, sample_mem)))))"
proof -
  let ?calls = "[Put ''hello wo'', Get 3, Put ''!'', Get 4, Put ''rld'', Get 0]"
  obtain ins outs q m where r: "fifo_run bufq_put bufq_get ?calls (Curl_bufq_init 4 2, sample_mem) = (ins, outs, q, m)"
    by (metis prod_cases4)
  have v: "fst (fifo_run bufq_put bufq_get ?calls (Curl_bufq_init 4 2, sample_mem)) = ''hello world''"
    "fst (snd (fifo_run bufq_put bufq_get ?calls (Curl_bufq_init 4 2, sample_mem))) = ''hello w''"
    by code_simp+
  from bufq_refines_fifo[OF sample_init(1) r] r v show ?thesis by simp
qed

text \<open>
  A write appends exactly the prefix it reports. It reports out of memory only when bytes are
  left and the limit did not stop it; otherwise a short write means that the queue is full
  afterwards, and \<open>CURLE_AGAIN\<close> that not a byte was taken.
\<close>

theorem Curl_bufq_write_exact:
  assumes "bufq_ok q m" "Curl_bufq_write q m buf = (r, n, q', m')"
  shows "n \<le> length buf \<and> content q' = content q @ take n buf \<and> bufq_ok q' m' \<and>
    (if r = CURLE_OUT_OF_MEMORY
     then n < length buf \<and> (q_chunk_count q' < q_max_chunks q' \<or> soft_limit q')
     else r = (if n = 0 \<and> buf \<noteq> [] then CURLE_AGAIN else CURLE_OK) \<and> (n < length buf \<longrightarrow> Curl_bufq_is_full q'))"
proof -
  obtain k where k: "k \<le> length buf" "n = 0 + k" "appended q m (take k buf) q' m'"
    "if r = CURLE_OUT_OF_MEMORY then k < length buf \<and> (q_chunk_count q' < q_max_chunks q' \<or> soft_limit q')
     else r = write_code n (length buf - k) \<and> (k < length buf \<longrightarrow> Curl_bufq_is_full q')"
    using write_loop_ok[OF assms(1) assms(2)[unfolded Curl_bufq_write_def]] by blast
  then show ?thesis by (cases "r = CURLE_OUT_OF_MEMORY") (auto simp: appended_def write_code_def)
qed

theorem Curl_bufq_write_exact_witness:
  "content (fst (snd (snd (Curl_bufq_write (Curl_bufq_init 4 2) sample_mem ''hello world'')))) = ''hello wo''"
proof -
  obtain r n q m where w: "Curl_bufq_write (Curl_bufq_init 4 2) sample_mem ''hello world'' = (r, n, q, m)"
    by (metis prod_cases4)
  have v: "fst (snd (Curl_bufq_write (Curl_bufq_init 4 2) sample_mem ''hello world'')) = 8" by code_simp
  from Curl_bufq_write_exact[OF sample_init(1) w] w v sample_init(2) show ?thesis by simp
qed

text \<open>
  Slurping into a queue with the hard limit always returns, whatever the reader does, and
  appends exactly the bytes the reader delivered, in order; the count it reports is their number.
\<close>

theorem bufq_slurpn_returns:
  assumes "source_ok reader delivered" "bufq_ok q m" "\<not> soft_limit q"
  shows "\<exists>r n q' m' ctx' bs. bufq_slurpn q m max_len reader ctx = Some (r, n, q', m', ctx') \<and> bufq_ok q' m' \<and>
    content q' = content q @ bs \<and> delivered ctx' = delivered ctx @ bs \<and> n = length bs \<and>
    (max_len \<noteq> 0 \<longrightarrow> n \<le> max_len)"
  using slurpn_loop_ok[OF assms, of max_len ctx 0] by (auto simp: bufq_slurpn_def appended_def)

text \<open>A reader over a byte string, for the witnesses: the context is what was delivered and what is left.\<close>

definition string_reader :: "(bytes \<times> bytes) reader" where
  "string_reader ctx room = (case ctx of (done, left) \<Rightarrow>
     (CURLE_OK, take room left, done @ take room left, drop room left))"

lemma string_reader_ok: "source_ok string_reader fst"
  by (auto simp: source_ok_def string_reader_def)

theorem bufq_slurpn_returns_witness:
  "\<exists>r n q' m' ctx'. bufq_slurpn (Curl_bufq_init 4 2) sample_mem 0 string_reader ([], ''hello world'') = Some (r, n, q', m', ctx') \<and>
     content q' = fst ctx'"
  using bufq_slurpn_returns[OF string_reader_ok sample_init(1,3), of 0 "([], ''hello world'')"] sample_init(2)
  by fastforce

text \<open>
  Writing through a queue to a writer that consumes some of what it is offered keeps the stream:
  what the writer has received, followed by what is still queued, grows by exactly the bytes
  reported as accepted, unless an error other than blocking is reported, when the stream is still a
  prefix of the bytes offered and at least what was reported.
\<close>

theorem Curl_bufq_write_pass_in_order:
  assumes "sink_ok writer received" "bufq_ok q m" "Curl_bufq_write_pass q m buf writer ctx = (r, w, q', m', ctx')"
  shows "\<exists>k\<le>length buf. w \<le> k \<and> (r = CURLE_OK \<or> r = CURLE_AGAIN \<longrightarrow> w = k) \<and> bufq_ok q' m' \<and>
    received ctx' @ content q' = received ctx @ content q @ take k buf"
  using write_pass_loop_ok[OF assms(1,2), of buf ctx 0 r w q' m' ctx'] assms(3)
  by (auto simp: Curl_bufq_write_pass_def)

definition slow_writer :: "bytes writer" where
  "slow_writer ctx buf = (CURLE_OK, min 3 (length buf), ctx @ take 3 buf)"

lemma slow_writer_ok: "sink_ok slow_writer (\<lambda>ctx. ctx)"
  by (auto simp: sink_ok_def slow_writer_def min_def)

theorem Curl_bufq_write_pass_in_order_witness:
  "case Curl_bufq_write_pass (Curl_bufq_init 4 2) sample_mem ''hello world!'' slow_writer [] of
     (r, w, q', m', ctx') \<Rightarrow> w = 12 \<and> ctx' @ content q' = ''hello world!''"
proof -
  obtain r w q' m' ctx' where e:
    "Curl_bufq_write_pass (Curl_bufq_init 4 2) sample_mem ''hello world!'' slow_writer [] = (r, w, q', m', ctx')"
    by (metis prod_cases5)
  have "fst (Curl_bufq_write_pass (Curl_bufq_init 4 2) sample_mem ''hello world!'' slow_writer []) = CURLE_OK"
    "fst (snd (Curl_bufq_write_pass (Curl_bufq_init 4 2) sample_mem ''hello world!'' slow_writer [])) = 12" by code_simp+
  with e have v: "r = CURLE_OK" "w = 12" by simp_all
  with Curl_bufq_write_pass_in_order[OF slow_writer_ok sample_init(1) e] sample_init(2) e show ?thesis by auto
qed

end
