(* ===== verification/Curl_Dynbuf.thy ===== *)
theory Curl_Dynbuf
  imports Curl_Code
begin

text \<open>
  The growing string buffer of \<open>old/lib/curlx/dynbuf.c\<close> and \<open>dynbuf.h\<close>. The block \<open>bufr\<close> points to
  is a byte list of length \<open>allc\<close>; the string the buffer holds is its first \<open>leng\<close> bytes, \<open>dyn_str\<close>.
  Bytes of a block nobody has written yet are \<open>garbage\<close>, which is not a terminator, so a missing
  terminator cannot pass unnoticed. The printf engine of \<open>mprintf.c\<close> is not modelled: the formatted
  appends take the bytes it emits as an argument.

  The contract of an append-only buffer is the locale \<open>append_buffer\<close>; its clients are proved
  against it.
\<close>

section \<open>Data and operations\<close>

record dynbuf =
  bufr :: "bytes option"
  leng :: nat
  allc :: nat
  toobig :: nat

definition MIN_FIRST_ALLOC :: nat where "MIN_FIRST_ALLOC = 32"
definition MAX_DYNBUF_SIZE :: nat where "MAX_DYNBUF_SIZE = SIZE_MAX div 2"

definition garbage :: char where "garbage = CHR 0xA5"

definition dyn_block :: "dynbuf \<Rightarrow> bytes" where
  "dyn_block s = (case bufr s of None \<Rightarrow> [] | Some b \<Rightarrow> b)"

definition curlx_dyn_init :: "nat \<Rightarrow> dynbuf" where
  "curlx_dyn_init big = \<lparr>bufr = None, leng = 0, allc = 0, toobig = big\<rparr>"

definition curlx_dyn_free :: "dynbuf \<Rightarrow> dynbuf" where
  "curlx_dyn_free s = s\<lparr>bufr := None, leng := 0, allc := 0\<rparr>"

text \<open>\<open>while(a < fit) a *= 2;\<close>, entered with a non-zero \<open>a\<close> only.\<close>

function grow :: "nat \<Rightarrow> nat \<Rightarrow> nat" where
  "grow a fit = (if a = 0 \<or> fit \<le> a then a else grow (a * 2) fit)"
  by pat_completeness auto
termination
  by (relation "measure (\<lambda>(a, fit). fit - a)") auto

declare grow.simps [simp del]

definition alloc_size :: "dynbuf \<Rightarrow> nat \<Rightarrow> nat" where
  "alloc_size s fit =
     (if allc s = 0 then
        (if MIN_FIRST_ALLOC > toobig s then toobig s
         else if fit < MIN_FIRST_ALLOC then MIN_FIRST_ALLOC
         else fit)
      else
        let a = grow (allc s) fit in
        if a > toobig s then toobig s else a)"

definition dyn_realloc :: "dynbuf \<Rightarrow> nat \<Rightarrow> heap \<Rightarrow> bytes option \<times> heap" where
  "dyn_realloc s a h =
     (if a \<noteq> allc s then
        (case request h of (ok, h) \<Rightarrow>
           (if ok then Some (take a (dyn_block s) @ replicate (a - length (dyn_block s)) garbage) else None, h))
      else (Some (dyn_block s), h))"

definition dyn_nappend :: "dynbuf \<Rightarrow> heap \<Rightarrow> bytes \<Rightarrow> CURLcode \<times> dynbuf \<times> heap" where
  "dyn_nappend s h mem =
     (let idx = leng s; fit = length mem + idx + 1 in
      if fit > toobig s then (CURLE_TOO_LARGE, curlx_dyn_free s, h)
      else
        let a = alloc_size s fit in
        case dyn_realloc s a h of
          (None, h) \<Rightarrow> (CURLE_OUT_OF_MEMORY, curlx_dyn_free s, h)
        | (Some b, h) \<Rightarrow>
            (CURLE_OK,
             s\<lparr>bufr := Some (mem_write (mem_write b idx mem) (idx + length mem) [NUL]),
               leng := idx + length mem, allc := a\<rparr>, h))"

definition curlx_dyn_reset :: "dynbuf \<Rightarrow> dynbuf" where
  "curlx_dyn_reset s =
     (let s = (if leng s \<noteq> 0 then s\<lparr>bufr := Some (mem_write (dyn_block s) 0 [NUL])\<rparr> else s) in
      s\<lparr>leng := 0\<rparr>)"

definition curlx_dyn_tail :: "dynbuf \<Rightarrow> nat \<Rightarrow> CURLcode \<times> dynbuf" where
  "curlx_dyn_tail s trail =
     (if trail > leng s then (CURLE_BAD_FUNCTION_ARGUMENT, s)
      else if trail = leng s then (CURLE_OK, s)
      else if trail = 0 then (CURLE_OK, curlx_dyn_reset s)
      else
        let b = mem_write (dyn_block s) 0 (take trail (drop (leng s - trail) (dyn_block s))) in
        (CURLE_OK, s\<lparr>bufr := Some (mem_write b trail [NUL]), leng := trail\<rparr>))"

definition curlx_dyn_addn :: "dynbuf \<Rightarrow> heap \<Rightarrow> bytes \<Rightarrow> CURLcode \<times> dynbuf \<times> heap" where
  "curlx_dyn_addn s h mem = dyn_nappend s h mem"

definition curlx_dyn_add :: "dynbuf \<Rightarrow> heap \<Rightarrow> bytes \<Rightarrow> CURLcode \<times> dynbuf \<times> heap" where
  "curlx_dyn_add s h str = dyn_nappend s h (cstr str)"

text \<open>
  The formatted appends, over the bytes \<open>fmt\<close> the printf engine emits: the stream callback adds them
  one by one, the engine stops at the first it refuses, and a failure empties the buffer.
\<close>

datatype MERR = MERR_OK | MERR_MEM | MERR_TOO_LARGE

definition alloc_addbyter :: "dynbuf \<Rightarrow> heap \<Rightarrow> char \<Rightarrow> MERR \<times> dynbuf \<times> heap" where
  "alloc_addbyter s h outc =
     (case curlx_dyn_addn s h [outc] of (result, s, h) \<Rightarrow>
        (if result \<noteq> CURLE_OK then (if result = CURLE_TOO_LARGE then MERR_TOO_LARGE else MERR_MEM) else MERR_OK, s, h))"

fun alloc_addbyter_loop :: "dynbuf \<Rightarrow> heap \<Rightarrow> bytes \<Rightarrow> MERR \<times> dynbuf \<times> heap" where
  "alloc_addbyter_loop s h [] = (MERR_OK, s, h)"
| "alloc_addbyter_loop s h (c # fmt) =
     (case alloc_addbyter s h c of (merr, s, h) \<Rightarrow>
        if merr \<noteq> MERR_OK then (merr, s, h) else alloc_addbyter_loop s h fmt)"

definition curlx_dyn_vprintf :: "dynbuf \<Rightarrow> heap \<Rightarrow> bytes \<Rightarrow> MERR \<times> dynbuf \<times> heap" where
  "curlx_dyn_vprintf s h fmt =
     (case alloc_addbyter_loop s h fmt of (merr, s, h) \<Rightarrow>
        if merr \<noteq> MERR_OK then (merr, curlx_dyn_free s, h) else (MERR_OK, s, h))"

definition curlx_dyn_vaddf :: "dynbuf \<Rightarrow> heap \<Rightarrow> bytes \<Rightarrow> CURLcode \<times> dynbuf \<times> heap" where
  "curlx_dyn_vaddf s h fmt =
     (case curlx_dyn_vprintf s h fmt of (rc, s, h) \<Rightarrow>
        (if rc = MERR_OK then CURLE_OK else if rc = MERR_TOO_LARGE then CURLE_TOO_LARGE else CURLE_OUT_OF_MEMORY, s, h))"

definition curlx_dyn_addf :: "dynbuf \<Rightarrow> heap \<Rightarrow> bytes \<Rightarrow> CURLcode \<times> dynbuf \<times> heap" where
  "curlx_dyn_addf s h fmt = curlx_dyn_vaddf s h fmt"

definition curlx_dyn_ptr :: "dynbuf \<Rightarrow> bytes option" where
  "curlx_dyn_ptr s = bufr s"

definition curlx_dyn_take :: "dynbuf \<Rightarrow> bytes option \<times> nat \<times> dynbuf" where
  "curlx_dyn_take s = (bufr s, leng s, s\<lparr>bufr := None, leng := 0, allc := 0\<rparr>)"

definition curlx_dyn_uptr :: "dynbuf \<Rightarrow> bytes option" where
  "curlx_dyn_uptr s = bufr s"

definition curlx_dyn_len :: "dynbuf \<Rightarrow> nat" where
  "curlx_dyn_len s = leng s"

text \<open>\<open>None\<close> is the store through a null pointer that a zero length on a buffer without a block makes.\<close>

definition curlx_dyn_setlen :: "dynbuf \<Rightarrow> nat \<Rightarrow> (CURLcode \<times> dynbuf) option" where
  "curlx_dyn_setlen s n =
     (if n > leng s then Some (CURLE_BAD_FUNCTION_ARGUMENT, s)
      else case bufr s of
             None \<Rightarrow> None
           | Some b \<Rightarrow> Some (CURLE_OK, s\<lparr>leng := n, bufr := Some (mem_write b n [NUL])\<rparr>))"

section \<open>Invariant\<close>

definition dyn_str :: "dynbuf \<Rightarrow> bytes" where
  "dyn_str s = take (leng s) (dyn_block s)"

definition dyn_ok :: "dynbuf \<Rightarrow> bool" where
  "dyn_ok s \<longleftrightarrow> 0 < toobig s \<and> toobig s \<le> MAX_DYNBUF_SIZE \<and>
     (case bufr s of
        None \<Rightarrow> leng s = 0 \<and> allc s = 0
      | Some b \<Rightarrow> length b = allc s \<and> leng s < allc s \<and> allc s \<le> toobig s \<and> b ! leng s = NUL)"

lemma dyn_ok_init: "0 < n \<Longrightarrow> n \<le> MAX_DYNBUF_SIZE \<Longrightarrow> dyn_ok (curlx_dyn_init n)"
  by (simp add: dyn_ok_def curlx_dyn_init_def)

lemma dyn_str_init [simp]: "dyn_str (curlx_dyn_init n) = []"
  by (simp add: dyn_str_def curlx_dyn_init_def)

lemma toobig_ops [simp]: "toobig (curlx_dyn_init n) = n" "toobig (curlx_dyn_free s) = toobig s"
  by (simp_all add: curlx_dyn_init_def curlx_dyn_free_def)

lemma dyn_free_ok [simp]: "dyn_ok s \<Longrightarrow> dyn_ok (curlx_dyn_free s)" "dyn_str (curlx_dyn_free s) = []"
  by (simp_all add: dyn_ok_def curlx_dyn_free_def dyn_str_def)

lemma dyn_ok_block: "dyn_ok s \<Longrightarrow> length (dyn_block s) = allc s \<and> leng s \<le> allc s \<and> allc s \<le> toobig s"
  by (auto simp: dyn_ok_def dyn_block_def split: option.splits)

lemma length_dyn_str: "dyn_ok s \<Longrightarrow> length (dyn_str s) = leng s"
  using dyn_ok_block[of s] by (simp add: dyn_str_def)

lemma dyn_len_str: "dyn_ok s \<Longrightarrow> curlx_dyn_len s = length (dyn_str s)"
  by (simp add: curlx_dyn_len_def length_dyn_str)

lemma dyn_ok_terminated: "dyn_ok s \<Longrightarrow> bufr s = Some b \<Longrightarrow> leng s < length b \<and> b ! leng s = NUL"
  by (auto simp: dyn_ok_def)

lemma dyn_okI:
  assumes "0 < toobig s" "toobig s \<le> MAX_DYNBUF_SIZE" "bufr s = Some (mem_write b (leng s) [NUL])"
    "length b = allc s" "leng s < allc s" "allc s \<le> toobig s"
  shows "dyn_ok s" "dyn_str s = take (leng s) b"
  using assms by (auto simp: dyn_ok_def dyn_str_def dyn_block_def nth_append take_mem_write_before)
     (simp add: mem_write_def nth_append)

section \<open>Appending\<close>

lemma grow_ge: "0 < a \<Longrightarrow> fit \<le> grow a fit \<and> a \<le> grow a fit"
proof (induction a fit rule: grow.induct)
  case (1 a fit)
  then show ?case by (cases "fit \<le> a") (auto simp: grow.simps[of a fit])
qed

lemma grow_bound: "0 < a \<Longrightarrow> grow a fit = a \<or> grow a fit < 2 * fit"
proof (induction a fit rule: grow.induct)
  case (1 a fit)
  then show ?case by (cases "fit \<le> a") (auto simp: grow.simps[of a fit])
qed

lemma alloc_size_ok:
  assumes "dyn_ok s" "leng s < fit" "fit \<le> toobig s"
  shows "fit \<le> alloc_size s fit \<and> alloc_size s fit \<le> toobig s \<and> allc s \<le> alloc_size s fit"
  using assms grow_ge[of "allc s" fit] dyn_ok_block[OF assms(1)]
  by (auto simp: alloc_size_def MIN_FIRST_ALLOC_def Let_def)

lemma dyn_realloc_ok:
  assumes "dyn_ok s" "allc s \<le> a" "dyn_realloc s a h = (Some b, h')"
  shows "length b = a \<and> take (leng s) b = dyn_str s"
  using assms dyn_ok_block[OF assms(1)]
  by (auto simp: dyn_realloc_def dyn_str_def split: if_splits prod.splits)

lemma dyn_nappend_OK:
  assumes "dyn_ok s" "dyn_nappend s h mem = (CURLE_OK, s', h')"
  shows "dyn_ok s' \<and> dyn_str s' = dyn_str s @ mem \<and> toobig s' = toobig s"
proof -
  let ?fit = "length mem + leng s + 1" and ?a = "alloc_size s (length mem + leng s + 1)"
  from assms(2) have fits: "?fit \<le> toobig s" by (auto simp: dyn_nappend_def Let_def split: if_splits)
  obtain b where r: "dyn_realloc s ?a h = (Some b, h')"
    and s': "s' = s\<lparr>bufr := Some (mem_write (mem_write b (leng s) mem) (leng s + length mem) [NUL]),
                    leng := leng s + length mem, allc := ?a\<rparr>"
    using assms(2) fits by (auto simp: dyn_nappend_def Let_def split: prod.splits option.splits)
  note A = alloc_size_ok[OF assms(1) _ fits]
  then have "length b = ?a \<and> take (leng s) b = dyn_str s" using dyn_realloc_ok[OF assms(1) _ r] by simp
  moreover have "0 < toobig s" "toobig s \<le> MAX_DYNBUF_SIZE" using assms(1) by (simp_all add: dyn_ok_def)
  ultimately show ?thesis
    using A dyn_okI[of s' "mem_write b (leng s) mem"] by (auto simp: s' take_mem_write)
qed

lemma dyn_nappend_fail:
  assumes "dyn_ok s" "dyn_nappend s h mem = (r, s', h')" "r \<noteq> CURLE_OK"
  shows "dyn_ok s' \<and> dyn_str s' = [] \<and> toobig s' = toobig s \<and>
    (r = CURLE_TOO_LARGE \<and> toobig s \<le> length (dyn_str s @ mem) \<or>
     r = CURLE_OUT_OF_MEMORY \<and> length (dyn_str s @ mem) < toobig s \<and> \<not> h 0)"
  using assms length_dyn_str[OF assms(1)]
  by (auto simp: dyn_nappend_def dyn_realloc_def request_def Let_def split: if_splits prod.splits option.splits)

section \<open>The contract of an append-only buffer\<close>

locale append_buffer =
  fixes invar :: "'b \<Rightarrow> bool"
    and str :: "'b \<Rightarrow> bytes"
    and cap :: "'b \<Rightarrow> nat"
    and addn :: "'b \<Rightarrow> heap \<Rightarrow> bytes \<Rightarrow> CURLcode \<times> 'b \<times> heap"
  assumes addn_OK: "invar s \<Longrightarrow> addn s h mem = (CURLE_OK, s', h') \<Longrightarrow>
      invar s' \<and> str s' = str s @ mem \<and> cap s' = cap s"
    and addn_fail: "invar s \<Longrightarrow> addn s h mem = (r, s', h') \<Longrightarrow> r \<noteq> CURLE_OK \<Longrightarrow>
      invar s' \<and> str s' = [] \<and> cap s' = cap s \<and>
      (r = CURLE_TOO_LARGE \<and> cap s \<le> length (str s @ mem) \<or>
       r = CURLE_OUT_OF_MEMORY \<and> length (str s @ mem) < cap s \<and> \<not> h 0)"
    and addn_heap: "addn s h mem = (r, s', h') \<Longrightarrow> \<exists>k. h' = (\<lambda>i. h (k + i))"

fun add_pieces ::
  "('b \<Rightarrow> heap \<Rightarrow> bytes \<Rightarrow> CURLcode \<times> 'b \<times> heap) \<Rightarrow> 'b \<Rightarrow> heap \<Rightarrow> bytes list \<Rightarrow> CURLcode \<times> 'b \<times> heap"
where
  "add_pieces addn s h [] = (CURLE_OK, s, h)"
| "add_pieces addn s h (p # ps) =
     (case addn s h p of (result, s, h) \<Rightarrow>
        if result \<noteq> CURLE_OK then (result, s, h) else add_pieces addn s h ps)"

context append_buffer
begin

lemma add_pieces_OK:
  "invar s \<Longrightarrow> add_pieces addn s h ps = (CURLE_OK, s', h') \<Longrightarrow>
     invar s' \<and> str s' = str s @ concat ps \<and> cap s' = cap s"
proof (induction ps arbitrary: s h)
  case (Cons p ps)
  obtain r s1 h1 where a: "addn s h p = (r, s1, h1)" by (cases "addn s h p")
  with Cons.prems have r: "r = CURLE_OK" and "add_pieces addn s1 h1 ps = (CURLE_OK, s', h')"
    by (auto split: if_splits)
  with Cons.IH[of s1 h1] addn_OK[OF Cons.prems(1) a[unfolded r]] show ?case by auto
qed simp

text \<open>A failing sequence of additions leaves the buffer empty, and says truly why it failed.\<close>

lemma add_pieces_fail:
  "invar s \<Longrightarrow> add_pieces addn s h ps = (r, s', h') \<Longrightarrow> r \<noteq> CURLE_OK \<Longrightarrow>
     invar s' \<and> str s' = [] \<and> cap s' = cap s \<and>
     (r = CURLE_TOO_LARGE \<and> cap s \<le> length (str s @ concat ps) \<or> r = CURLE_OUT_OF_MEMORY \<and> (\<exists>i. \<not> h i))"
proof (induction ps arbitrary: s h)
  case (Cons p ps)
  obtain r1 s1 h1 where a: "addn s h p = (r1, s1, h1)" by (cases "addn s h p")
  show ?case
  proof (cases "r1 = CURLE_OK")
    case True
    with Cons.prems a have "add_pieces addn s1 h1 ps = (r, s', h')" by simp
    with Cons.IH[of s1 h1] addn_OK[OF Cons.prems(1) a[unfolded True]] addn_heap[OF a] Cons.prems(3)
    show ?thesis by auto
  next
    case False
    with Cons.prems a have "r = r1" "s' = s1" by auto
    with addn_fail[OF Cons.prems(1) a False] show ?thesis by auto
  qed
qed simp

lemma add_pieces_total:
  assumes "invar s" "length (str s @ concat ps) < cap s" "\<And>i. h i"
  shows "\<exists>s' h'. add_pieces addn s h ps = (CURLE_OK, s', h')"
proof -
  obtain r s' h' where a: "add_pieces addn s h ps = (r, s', h')" by (cases "add_pieces addn s h ps")
  with add_pieces_fail[OF assms(1) a] assms(2,3) have "r = CURLE_OK" by force
  with a show ?thesis by simp
qed

lemma add_pieces_heap: "add_pieces addn s h ps = (r, s', h') \<Longrightarrow> \<exists>k. h' = (\<lambda>i. h (k + i))"
proof (induction ps arbitrary: s h)
  case Nil
  then show ?case by (auto intro: exI[of _ 0])
next
  case (Cons p ps)
  obtain r1 s1 h1 where a: "addn s h p = (r1, s1, h1)" by (cases "addn s h p")
  obtain k where k: "h1 = (\<lambda>i. h (k + i))" using addn_heap[OF a] by blast
  show ?case
  proof (cases "r1 = CURLE_OK")
    case True
    with Cons.IH[of s1 h1] Cons.prems a obtain j where "h' = (\<lambda>i. h1 (j + i))" by auto
    then have "h' = (\<lambda>i. h ((k + j) + i))" using k by (simp add: add.assoc)
    then show ?thesis by blast
  next
    case False
    with Cons.prems a k show ?thesis by auto
  qed
qed

end

lemma dyn_nappend_heap: "dyn_nappend s h mem = (r, s', h') \<Longrightarrow> \<exists>k. h' = (\<lambda>i. h (k + i))"
proof -
  assume e: "dyn_nappend s h mem = (r, s', h')"
  then have "h' = h \<or> h' = (\<lambda>i. h (Suc i))"
    by (auto simp: dyn_nappend_def dyn_realloc_def request_def Let_def split: if_splits)
  then have "h' = (\<lambda>i. h (0 + i)) \<or> h' = (\<lambda>i. h (1 + i))" by simp
  then show ?thesis by (elim disjE) (rule exI, assumption)+
qed

interpretation dyn: append_buffer dyn_ok dyn_str toobig curlx_dyn_addn
proof (unfold_locales, unfold curlx_dyn_addn_def, goal_cases)
  case 1
  then show ?case by (rule dyn_nappend_OK)
next
  case 2
  then show ?case by (rule dyn_nappend_fail)
next
  case 3
  then show ?case by (rule dyn_nappend_heap)
qed

definition merr :: "CURLcode \<Rightarrow> MERR" where
  "merr result = (if result \<noteq> CURLE_OK then (if result = CURLE_TOO_LARGE then MERR_TOO_LARGE else MERR_MEM) else MERR_OK)"

lemma alloc_addbyter_pieces:
  "alloc_addbyter_loop s h fmt =
     (case add_pieces curlx_dyn_addn s h (map (\<lambda>c. [c]) fmt) of (result, s, h) \<Rightarrow> (merr result, s, h))"
  by (induction fmt arbitrary: s h) (auto simp: alloc_addbyter_def merr_def split: prod.splits)

lemma concat_singletons [simp]: "concat (map (\<lambda>c. [c]) xs) = xs"
  by (induction xs) auto

text \<open>A formatted append adds the whole text, or leaves the buffer empty and says truly why.\<close>

lemma dyn_addf_OK:
  assumes "dyn_ok s" "curlx_dyn_addf s h fmt = (r, s', h')"
  shows "dyn_ok s' \<and> (if r = CURLE_OK then dyn_str s' = dyn_str s @ fmt
    else dyn_str s' = [] \<and> (r = CURLE_TOO_LARGE \<and> toobig s \<le> length (dyn_str s @ fmt) \<or> r = CURLE_OUT_OF_MEMORY \<and> (\<exists>i. \<not> h i)))"
proof -
  obtain r1 s1 h1 where p: "add_pieces curlx_dyn_addn s h (map (\<lambda>c. [c]) fmt) = (r1, s1, h1)" by (metis prod_cases3)
  show ?thesis
  proof (cases "r1 = CURLE_OK")
    case True
    with dyn.add_pieces_OK[OF assms(1) p[unfolded True]] assms(2) p show ?thesis
      by (auto simp: curlx_dyn_addf_def curlx_dyn_vaddf_def curlx_dyn_vprintf_def alloc_addbyter_pieces merr_def)
  next
    case False
    from dyn.add_pieces_fail[OF assms(1) p False] False assms(2) p show ?thesis
      by (auto simp: curlx_dyn_addf_def curlx_dyn_vaddf_def curlx_dyn_vprintf_def alloc_addbyter_pieces merr_def)
  qed
qed

section \<open>Cutting\<close>

lemma dyn_reset_ok: "dyn_ok s \<Longrightarrow> dyn_ok (curlx_dyn_reset s) \<and> dyn_str (curlx_dyn_reset s) = [] \<and> toobig (curlx_dyn_reset s) = toobig s"
  by (cases "bufr s") (auto simp: dyn_ok_def curlx_dyn_reset_def dyn_str_def dyn_block_def mem_write_def Let_def)

lemma dyn_tail_ok:
  assumes "dyn_ok s" "curlx_dyn_tail s n = (r, s')"
  shows "dyn_ok s' \<and> (if n \<le> length (dyn_str s)
     then r = CURLE_OK \<and> dyn_str s' = drop (length (dyn_str s) - n) (dyn_str s)
     else r = CURLE_BAD_FUNCTION_ARGUMENT \<and> s' = s)"
proof (cases "0 < n \<and> n < leng s")
  case False
  then show ?thesis using assms length_dyn_str[OF assms(1)] dyn_reset_ok[OF assms(1)]
    by (auto simp: curlx_dyn_tail_def split: if_splits)
next
  case True
  define b where "b = mem_write (dyn_block s) 0 (take n (drop (leng s - n) (dyn_block s)))"
  note B = dyn_ok_block[OF assms(1)]
  have r: "r = CURLE_OK" and s': "s' = s\<lparr>bufr := Some (mem_write b n [NUL]), leng := n\<rparr>"
    using assms(2) True by (auto simp: curlx_dyn_tail_def b_def Let_def)
  have "length (take n (drop (leng s - n) (dyn_block s))) = n" using B True by auto
  then have "take n b = drop (leng s - n) (dyn_str s)"
    using True by (simp add: b_def mem_write_def dyn_str_def drop_take)
  moreover have "length b = allc s" unfolding b_def using B True by (subst length_mem_write) auto
  moreover have "0 < toobig s" "toobig s \<le> MAX_DYNBUF_SIZE" using assms(1) by (simp_all add: dyn_ok_def)
  ultimately show ?thesis using dyn_okI[of s' b] r B True length_dyn_str[OF assms(1)] by (simp add: s')
qed

lemma dyn_setlen_ok:
  assumes "dyn_ok s" "bufr s \<noteq> None \<or> length (dyn_str s) < n"
  shows "\<exists>r s'. curlx_dyn_setlen s n = Some (r, s') \<and> dyn_ok s' \<and>
    (if n \<le> length (dyn_str s) then r = CURLE_OK \<and> dyn_str s' = take n (dyn_str s)
     else r = CURLE_BAD_FUNCTION_ARGUMENT \<and> s' = s)"
proof (cases "leng s < n")
  case True
  with assms length_dyn_str[OF assms(1)] show ?thesis by (simp add: curlx_dyn_setlen_def)
next
  case False
  with assms length_dyn_str[OF assms(1)] obtain b where b: "bufr s = Some b" by auto
  let ?s = "s\<lparr>leng := n, bufr := Some (mem_write b n [NUL])\<rparr>"
  from assms(1) b False dyn_okI[of ?s b] have "dyn_ok ?s \<and> dyn_str ?s = take n b" by (simp add: dyn_ok_def)
  moreover have "take n (dyn_str s) = take n b" using False b by (simp add: dyn_str_def dyn_block_def min_def)
  ultimately show ?thesis using False b length_dyn_str[OF assms(1)] by (simp add: curlx_dyn_setlen_def)
qed

lemma dyn_string: "dyn_ok s \<Longrightarrow> NUL \<notin> set (dyn_str s) \<Longrightarrow> curlx_dyn_ptr s = Some b \<Longrightarrow> cstr b = dyn_str s"
proof -
  assume s: "dyn_ok s" "NUL \<notin> set (dyn_str s)" "curlx_dyn_ptr s = Some b"
  then have b: "leng s < length b" "b ! leng s = NUL" "dyn_str s = take (leng s) b"
    using dyn_ok_terminated[OF s(1)] by (simp_all add: curlx_dyn_ptr_def dyn_str_def dyn_block_def)
  then have e: "b = take (leng s) b @ NUL # drop (Suc (leng s)) b" using id_take_nth_drop[OF b(1)] by simp
  have "cstr (take (leng s) b @ NUL # drop (Suc (leng s)) b) = take (leng s) b"
    using s(2) b(3) by (auto simp: cstr_def takeWhile_append2 intro!: takeWhile_append2[THEN trans])
  with e b(3) show ?thesis by simp
qed

section \<open>Properties\<close>

text \<open>
  Appending either adds exactly the given bytes, null-terminated and within the limit, or fails
  and leaves the buffer empty: with \<open>CURLE_TOO_LARGE\<close> exactly when the string and its terminator
  would exceed the limit, with \<open>CURLE_OUT_OF_MEMORY\<close> only when the allocator refused.
\<close>

theorem dyn_nappend_correct:
  assumes "dyn_ok s" "dyn_nappend s h mem = (r, s', h')"
  shows "dyn_ok s' \<and> toobig s' = toobig s \<and>
    (if toobig s \<le> length (dyn_str s) + length mem then r = CURLE_TOO_LARGE \<and> dyn_str s' = []
     else r = CURLE_OK \<and> dyn_str s' = dyn_str s @ mem \<and>
            (\<exists>rest. curlx_dyn_ptr s' = Some ((dyn_str s @ mem) @ NUL # rest)) \<or>
          r = CURLE_OUT_OF_MEMORY \<and> dyn_str s' = [] \<and> \<not> h 0)"
proof (cases "r = CURLE_OK")
  case False
  then show ?thesis using dyn_nappend_fail[OF assms False] by auto
next
  case True
  note D = dyn_nappend_OK[OF assms(1) assms(2)[unfolded True]]
  from assms(2) True obtain b where b: "bufr s' = Some b"
    by (auto simp: dyn_nappend_def Let_def split: if_splits prod.splits option.splits)
  with D have "leng s' < length b \<and> b ! leng s' = NUL" using dyn_ok_terminated[of s' b] by simp
  then have "b = take (leng s') b @ NUL # drop (Suc (leng s')) b" by (metis id_take_nth_drop)
  then have "\<exists>rest. curlx_dyn_ptr s' = Some (dyn_str s' @ NUL # rest)"
    using b by (auto simp: curlx_dyn_ptr_def dyn_str_def dyn_block_def)
  moreover have "length (dyn_str s) + length mem < toobig s"
    using D length_dyn_str[of s'] dyn_ok_block[of s'] b by (auto simp: dyn_ok_def)
  ultimately show ?thesis using D True by auto
qed

theorem dyn_nappend_correct_witness:
  "dyn_str (fst (snd (dyn_nappend (curlx_dyn_init 8) (\<lambda>_. True) ''abc''))) = ''abc''"
proof -
  obtain r s' h' where e: "dyn_nappend (curlx_dyn_init 8) (\<lambda>_. True) ''abc'' = (r, s', h')"
    by (cases "dyn_nappend (curlx_dyn_init 8) (\<lambda>_. True) ''abc''")
  have "dyn_ok (curlx_dyn_init 8)" by (rule dyn_ok_init) (simp_all add: MAX_DYNBUF_SIZE_def SIZE_MAX_def)
  from dyn_nappend_correct[OF this e] e show ?thesis by simp
qed

text \<open>
  No size the buffer computes can wrap: with a limit of at most half of \<open>SIZE_MAX\<close>, as
  initialisation demands, and an object of at most that size to add, the requested total and every
  doubling stay below \<open>SIZE_MAX\<close>.
\<close>

theorem dyn_sizes_no_wrap:
  assumes "dyn_ok s" "length mem \<le> MAX_DYNBUF_SIZE"
  shows "length mem + leng s + 1 \<le> SIZE_MAX \<and>
    (allc s \<noteq> 0 \<and> length mem + leng s + 1 \<le> toobig s \<longrightarrow> grow (allc s) (length mem + leng s + 1) \<le> SIZE_MAX)"
proof -
  have big: "toobig s \<le> SIZE_MAX div 2" "allc s \<le> toobig s" and "leng s < toobig s"
    using assms(1) by (auto simp: dyn_ok_def MAX_DYNBUF_SIZE_def split: option.splits)
  then have "length mem + leng s + 1 \<le> SIZE_MAX" using assms(2) by (simp add: MAX_DYNBUF_SIZE_def SIZE_MAX_def)
  then show ?thesis using big grow_bound[of "allc s" "length mem + leng s + 1"]
    by (auto simp: SIZE_MAX_def)
qed

theorem dyn_sizes_no_wrap_witness: "length ''abc'' + leng (curlx_dyn_init 8) + 1 \<le> SIZE_MAX"
proof -
  have "dyn_ok (curlx_dyn_init 8)" by (rule dyn_ok_init) (simp_all add: MAX_DYNBUF_SIZE_def SIZE_MAX_def)
  from dyn_sizes_no_wrap[OF this, of "''abc''"] show ?thesis by (simp add: MAX_DYNBUF_SIZE_def SIZE_MAX_def)
qed

text \<open>
  Keeping a tail, cutting to a length and resetting act on the string as \<open>drop\<close>, \<open>take\<close> and the
  empty string do, refuse a length beyond the string without touching it, and keep the invariant.
\<close>

theorem dyn_cuts_exact:
  assumes "dyn_ok s" "n \<le> length (dyn_str s)" "0 < length (dyn_str s)"
  shows "\<exists>s1 s2. curlx_dyn_tail s n = (CURLE_OK, s1) \<and> dyn_ok s1 \<and> dyn_str s1 = drop (length (dyn_str s) - n) (dyn_str s) \<and>
    curlx_dyn_setlen s n = Some (CURLE_OK, s2) \<and> dyn_ok s2 \<and> dyn_str s2 = take n (dyn_str s) \<and>
    dyn_ok (curlx_dyn_reset s) \<and> dyn_str (curlx_dyn_reset s) = []"
proof -
  have "bufr s \<noteq> None" using assms(1,3) length_dyn_str[OF assms(1)] by (auto simp: dyn_ok_def split: option.splits)
  then obtain s2 where "curlx_dyn_setlen s n = Some (CURLE_OK, s2) \<and> dyn_ok s2 \<and> dyn_str s2 = take n (dyn_str s)"
    using dyn_setlen_ok[OF assms(1), of n] assms(2) by auto
  moreover obtain r s1 where "curlx_dyn_tail s n = (r, s1)" by fastforce
  ultimately show ?thesis using dyn_tail_ok[OF assms(1), of n r s1] assms(2) dyn_reset_ok[OF assms(1)] by auto
qed

definition sample_dyn :: dynbuf where
  "sample_dyn = fst (snd (curlx_dyn_addn (curlx_dyn_init 8) (\<lambda>_. True) ''abcde''))"

theorem dyn_cuts_exact_witness:
  "dyn_str (snd (curlx_dyn_tail sample_dyn 2)) = ''de'' \<and> (\<exists>s2. curlx_dyn_setlen sample_dyn 2 = Some (CURLE_OK, s2) \<and> dyn_str s2 = ''ab'')"
proof -
  have "dyn_ok sample_dyn" "dyn_str sample_dyn = ''abcde''" by code_simp+
  from dyn_cuts_exact[OF this(1), of 2] this(2) show ?thesis by (auto simp: numeral_eq_Suc)
qed

end
