(* ===== verification/Curl_Strparse.thy ===== *)
theory Curl_Strparse
  imports Curl_Code
begin

text \<open>
  The string scanner of \<open>old/lib/curlx/strparse.c\<close>. A \<open>const char *\<close> cursor is the list of bytes from
  it to the end of its string; a read at the end of the list is the terminator, and a NUL byte in the
  list ends the scan too. A \<open>struct Curl_str\<close> is the bytes it spans, or \<open>None\<close> for the null pointer
  of \<open>curlx_str_init\<close>. Every scanner returns its \<open>STRE_\<close> code, what it found, and the cursor, which
  an error leaves where it was. The numbers are an instance of the digit-loop interface.
\<close>

section \<open>Data\<close>

datatype STRE = STRE_OK | STRE_BIG | STRE_SHORT | STRE_BEGQUOTE | STRE_ENDQUOTE | STRE_BYTE
  | STRE_NEWLINE | STRE_OVERFLOW | STRE_NO_NUM

type_synonym Curl_str = "bytes option"

definition str_span :: "Curl_str \<Rightarrow> bytes" where
  "str_span s = (case s of None \<Rightarrow> [] | Some b \<Rightarrow> b)"

definition peek :: "bytes \<Rightarrow> char" where
  "peek s = (case s of [] \<Rightarrow> NUL | c # _ \<Rightarrow> c)"

definition ISNEWLINE :: "char \<Rightarrow> bool" where
  "ISNEWLINE c \<longleftrightarrow> c = LF \<or> c = CR"

definition ISBLANK :: "char \<Rightarrow> bool" where
  "ISBLANK c \<longleftrightarrow> c = CHR '' '' \<or> c = HT"

definition ISXDIGIT :: "char \<Rightarrow> bool" where
  "ISXDIGIT c \<longleftrightarrow> isdigit c \<or> (97 \<le> byte_val c \<and> byte_val c \<le> 102) \<or> (65 \<le> byte_val c \<and> byte_val c \<le> 70)"

section \<open>Spans\<close>

definition curlx_str_init :: Curl_str where
  "curlx_str_init = None"

definition curlx_str_assign :: "bytes \<Rightarrow> nat \<Rightarrow> Curl_str" where
  "curlx_str_assign str len = Some (take len str)"

definition curlx_str_trim :: "Curl_str \<Rightarrow> nat \<Rightarrow> Curl_str" where
  "curlx_str_trim out len = map_option (\<lambda>b. take (length b - len) b) out"

definition curlx_str_nudge :: "Curl_str \<Rightarrow> nat \<Rightarrow> STRE \<times> Curl_str" where
  "curlx_str_nudge s num =
     (if num \<le> length (str_span s) then (STRE_OK, map_option (drop num) s) else (STRE_OVERFLOW, s))"

text \<open>\<open>curl_strnequal\<close> is false when one of its arguments is the null pointer and the other is not.\<close>

definition curlx_str_casecompare :: "Curl_str \<Rightarrow> bytes option \<Rightarrow> bool" where
  "curlx_str_casecompare s chk =
     (case (s, chk) of
        (Some b, Some k) \<Rightarrow> length b = length (cstr k) \<and> strcaseeq b (cstr k)
      | _ \<Rightarrow> False)"

definition curlx_str_cmp :: "Curl_str \<Rightarrow> bytes option \<Rightarrow> bool" where
  "curlx_str_cmp s chk =
     (case chk of
        Some k \<Rightarrow> length (str_span s) = length (cstr k) \<and> str_span s = cstr k
      | None \<Rightarrow> length (str_span s) \<noteq> 0)"

fun trim_front :: "bytes \<Rightarrow> bytes" where
  "trim_front [] = []"
| "trim_front (c # s) = (if ISBLANK c then trim_front s else c # s)"

function trim_back :: "bytes \<Rightarrow> bytes" where
  "trim_back s = (if s \<noteq> [] \<and> ISBLANK (s ! (length s - 1)) then trim_back (take (length s - 1) s) else s)"
  by pat_completeness auto
termination
  by (relation "measure length") auto

declare trim_back.simps [simp del]

definition curlx_str_trimblanks :: "Curl_str \<Rightarrow> Curl_str" where
  "curlx_str_trimblanks out = map_option (\<lambda>b. trim_back (trim_front b)) out"

section \<open>Words\<close>

fun until_loop :: "(char \<Rightarrow> bool) \<Rightarrow> bytes \<Rightarrow> nat \<Rightarrow> nat \<Rightarrow> nat option" where
  "until_loop stop [] len mx = Some len"
| "until_loop stop (c # s) len mx =
     (if c = NUL \<or> stop c then Some len
      else if Suc len > mx then None
      else until_loop stop s (Suc len) mx)"

definition str_until :: "(char \<Rightarrow> bool) \<Rightarrow> bytes \<Rightarrow> nat \<Rightarrow> STRE \<times> Curl_str \<times> bytes" where
  "str_until stop line mx =
     (case until_loop stop line 0 mx of
        None \<Rightarrow> (STRE_BIG, curlx_str_init, line)
      | Some len \<Rightarrow>
          if len = 0 then (STRE_SHORT, curlx_str_init, line)
          else (STRE_OK, Some (take len line), drop len line))"

definition curlx_str_until :: "bytes \<Rightarrow> nat \<Rightarrow> char \<Rightarrow> STRE \<times> Curl_str \<times> bytes" where
  "curlx_str_until line mx delim = str_until (\<lambda>c. c = delim) line mx"

definition curlx_str_word :: "bytes \<Rightarrow> nat \<Rightarrow> STRE \<times> Curl_str \<times> bytes" where
  "curlx_str_word line mx = curlx_str_until line mx (CHR '' '')"

definition curlx_str_untilnl :: "bytes \<Rightarrow> nat \<Rightarrow> STRE \<times> Curl_str \<times> bytes" where
  "curlx_str_untilnl line mx = str_until ISNEWLINE line mx"

definition DQUOTE :: char where "DQUOTE = CHR 0x22"
definition BACKSLASH :: char where "BACKSLASH = CHR 0x5C"

fun quoted_loop :: "bytes \<Rightarrow> nat \<Rightarrow> nat \<Rightarrow> STRE \<times> nat" where
  "quoted_loop [] len mx = (STRE_ENDQUOTE, len)"
| "quoted_loop (c # s) len mx =
     (if c = NUL then (STRE_ENDQUOTE, len)
      else if c = DQUOTE then (STRE_OK, len)
      else if c = BACKSLASH \<and> peek s \<noteq> NUL
      then (if Suc len > mx then (STRE_BIG, len)
            else if Suc (Suc len) > mx then (STRE_BIG, len)
            else quoted_loop (tl s) (Suc (Suc len)) mx)
      else if Suc len > mx then (STRE_BIG, len)
      else quoted_loop s (Suc len) mx)"

definition curlx_str_quotedword :: "bytes \<Rightarrow> nat \<Rightarrow> STRE \<times> Curl_str \<times> bytes" where
  "curlx_str_quotedword line mx =
     (if peek line \<noteq> DQUOTE then (STRE_BEGQUOTE, curlx_str_init, line)
      else case quoted_loop (tl line) 0 mx of (code, len) \<Rightarrow>
        if code \<noteq> STRE_OK then (code, curlx_str_init, line)
        else (STRE_OK, Some (take len (tl line)), drop (len + 2) line))"

definition curlx_str_single :: "bytes \<Rightarrow> char \<Rightarrow> STRE \<times> bytes" where
  "curlx_str_single line b = (if peek line \<noteq> b then (STRE_BYTE, line) else (STRE_OK, tl line))"

definition curlx_str_singlespace :: "bytes \<Rightarrow> STRE \<times> bytes" where
  "curlx_str_singlespace line = curlx_str_single line (CHR '' '')"

definition curlx_str_newline :: "bytes \<Rightarrow> STRE \<times> bytes" where
  "curlx_str_newline line = (if ISNEWLINE (peek line) then (STRE_OK, tl line) else (STRE_NEWLINE, line))"

definition curlx_str_cspn :: "bytes \<Rightarrow> bytes \<Rightarrow> STRE \<times> Curl_str \<times> bytes" where
  "curlx_str_cspn line reject =
     (let len = length (takeWhile (\<lambda>c. c \<noteq> NUL \<and> c \<notin> set (cstr reject)) line) in
      if len \<noteq> 0 then (STRE_OK, Some (take len line), drop len line)
      else (STRE_SHORT, curlx_str_init, line))"

fun curlx_str_passblanks :: "bytes \<Rightarrow> bytes" where
  "curlx_str_passblanks [] = []"
| "curlx_str_passblanks (c # s) = (if ISBLANK c then curlx_str_passblanks s else c # s)"

section \<open>Numbers\<close>

definition curlx_hexasciitable :: "nat list" where
  "curlx_hexasciitable =
     [16, 1, 2, 3, 4, 5, 6, 7, 8, 9] @ replicate 7 0 @ [10, 11, 12, 13, 14, 15] @ replicate 26 0 @
     [10, 11, 12, 13, 14, 15]"

definition valid_digit :: "char \<Rightarrow> nat \<Rightarrow> bool" where
  "valid_digit c m \<longleftrightarrow> 48 \<le> byte_val c \<and> byte_val c \<le> m \<and> curlx_hexasciitable ! (byte_val c - 48) \<noteq> 0"

definition curlx_hexval :: "char \<Rightarrow> nat" where
  "curlx_hexval c = (curlx_hexasciitable ! (byte_val c - 48)) mod 16"

definition max_digit :: "int \<Rightarrow> nat" where
  "max_digit base = (if base = 10 then 57 else if base = 16 then 102 else 55)"

definition num_step :: "int \<Rightarrow> int \<Rightarrow> int \<Rightarrow> int \<Rightarrow> int option" where
  "num_step base mx num n =
     (if mx < base then
        let num = num * base + n in if num > mx then None else Some num
      else if num > (mx - n) div base then None
      else Some (num * base + n))"

fun num_loop :: "int \<Rightarrow> int \<Rightarrow> int \<Rightarrow> bytes \<Rightarrow> (int \<times> bytes) option" where
  "num_loop base mx num [] = Some (num, [])"
| "num_loop base mx num (c # p) =
     (if \<not> valid_digit c (max_digit base) then Some (num, c # p)
      else case num_step base mx num (int (curlx_hexval c)) of
             None \<Rightarrow> None
           | Some num \<Rightarrow> num_loop base mx num p)"

definition str_num_base :: "bytes \<Rightarrow> int \<Rightarrow> int \<Rightarrow> STRE \<times> int \<times> bytes" where
  "str_num_base line mx base =
     (if \<not> valid_digit (peek line) (max_digit base) then (STRE_NO_NUM, 0, line)
      else case num_loop base mx 0 line of
             None \<Rightarrow> (STRE_OVERFLOW, 0, line)
           | Some (num, p) \<Rightarrow> (STRE_OK, num, p))"

definition curlx_str_number :: "bytes \<Rightarrow> int \<Rightarrow> STRE \<times> int \<times> bytes" where
  "curlx_str_number line mx = str_num_base line mx 10"

definition curlx_str_hex :: "bytes \<Rightarrow> int \<Rightarrow> STRE \<times> int \<times> bytes" where
  "curlx_str_hex line mx = str_num_base line mx 16"

definition curlx_str_octal :: "bytes \<Rightarrow> int \<Rightarrow> STRE \<times> int \<times> bytes" where
  "curlx_str_octal line mx = str_num_base line mx 8"

definition CURL_OFF_T_MAX :: int where "CURL_OFF_T_MAX = 9223372036854775807"

definition curlx_str_numblanks :: "bytes \<Rightarrow> STRE \<times> int \<times> bytes" where
  "curlx_str_numblanks str = curlx_str_number (curlx_str_passblanks str) CURL_OFF_T_MAX"

section \<open>The digits of each base\<close>

definition digit_of_base :: "int \<Rightarrow> char \<Rightarrow> bool" where
  "digit_of_base base c \<longleftrightarrow> valid_digit c (max_digit base)"

lemma table_nth:
  assumes "k < 55"
  shows "curlx_hexasciitable ! k =
    (if k = 0 then 16 else if k < 10 then k else if k < 17 then 0 else if k < 23 then k - 7
     else if k < 49 then 0 else k - 39)"
proof -
  have "list_all (\<lambda>k. curlx_hexasciitable ! k =
    (if k = 0 then 16 else if k < 10 then k else if k < 17 then 0 else if k < 23 then k - 7
     else if k < 49 then 0 else k - 39)) [0..<55]" by code_simp
  with assms show ?thesis by (simp add: list_all_iff)
qed

lemma digit_of_base_iff:
  "digit_of_base 10 c \<longleftrightarrow> isdigit c" "digit_of_base 16 c \<longleftrightarrow> ISXDIGIT c"
  "digit_of_base 8 c \<longleftrightarrow> 48 \<le> byte_val c \<and> byte_val c \<le> 55"
  by (auto simp: digit_of_base_def valid_digit_def max_digit_def table_nth isdigit_def ISXDIGIT_def
           split: if_splits)

lemma hexval_digit: "isdigit c \<Longrightarrow> int (curlx_hexval c) = digit_val c"
  by (auto simp: curlx_hexval_def table_nth isdigit_def digit_val_def)

lemma hexval_less_base:
  "base \<in> {8, 10, 16} \<Longrightarrow> digit_of_base base c \<Longrightarrow> 0 \<le> int (curlx_hexval c) \<and> int (curlx_hexval c) < base"
  by (auto simp: digit_of_base_iff ISXDIGIT_def isdigit_def curlx_hexval_def table_nth)
     (simp_all add: mod_if, linarith?)

lemma num_step_laws:
  assumes "2 \<le> base" "0 \<le> v" "0 \<le> d" "d < base"
  shows "num_step base mx v d = (if mx < v * base + d then None else Some (v * base + d))"
  using assms guard_exact[of base mx d v] by (auto simp: num_step_def Let_def)

interpretation octal: digit_loop 8 mx mx "num_step 8 mx" for mx
  by unfold_locales (auto simp: num_step_laws split: if_splits)

interpretation decimal: digit_loop 10 mx mx "num_step 10 mx" for mx
  by unfold_locales (auto simp: num_step_laws split: if_splits)

interpretation hexadecimal: digit_loop 16 mx mx "num_step 16 mx" for mx
  by unfold_locales (auto simp: num_step_laws split: if_splits)

definition base_value :: "int \<Rightarrow> bytes \<Rightarrow> int" where
  "base_value base cs = digits_value base 0 (map (\<lambda>c. int (curlx_hexval c)) cs)"

lemma base_value_nonneg:
  assumes "0 \<le> base"
  shows "0 \<le> base_value base cs"
proof -
  have "0 \<le> v \<Longrightarrow> 0 \<le> digits_value base v (map (\<lambda>c. int (curlx_hexval c)) cs)" for v
    using assms by (induction cs arbitrary: v) simp_all
  then show ?thesis by (simp add: base_value_def)
qed

text \<open>The body of the number loop run over the digits, and the loop in terms of it.\<close>

fun num_run :: "int \<Rightarrow> int \<Rightarrow> int \<Rightarrow> int list \<Rightarrow> int option" where
  "num_run base mx v [] = Some v"
| "num_run base mx v (d # ds) = (case num_step base mx v d of None \<Rightarrow> None | Some v' \<Rightarrow> num_run base mx v' ds)"

lemma num_run_locale:
  "num_run 8 mx v ds = octal.run mx v ds" "num_run 10 mx v ds = decimal.run mx v ds"
  "num_run 16 mx v ds = hexadecimal.run mx v ds"
  by (induction ds arbitrary: v) (auto split: option.splits)

lemma num_run_exact:
  assumes "base \<in> {8, 10, 16}" "\<forall>d\<in>set ds. 0 \<le> d \<and> d < base"
  shows "num_run base mx 0 ds =
    (if ds = [] then Some 0 else if digits_value base 0 ds \<le> mx then Some (digits_value base 0 ds) else None)"
proof (cases "num_run base mx 0 ds")
  case None
  with assms have "mx < digits_value base 0 ds"
    using octal.run_refuses[of 0 ds mx] decimal.run_refuses[of 0 ds mx] hexadecimal.run_refuses[of 0 ds mx]
    by (auto simp: num_run_locale)
  with None show ?thesis by auto
next
  case (Some r)
  with assms have v: "r = digits_value base 0 ds"
    using octal.run_value[of 0 ds mx r] decimal.run_value[of 0 ds mx r] hexadecimal.run_value[of 0 ds mx r]
    by (auto simp: num_run_locale)
  have "ds = [] \<or> r \<le> mx"
  proof (cases ds)
    case (Cons d ds')
    have le: "num_run base mx w ds' = Some r \<Longrightarrow> 0 \<le> w \<Longrightarrow> w \<le> mx \<Longrightarrow> r \<le> mx" for w
      using assms Cons octal.run_cap[of w mx ds' r] decimal.run_cap[of w mx ds' r] hexadecimal.run_cap[of w mx ds' r]
      by (auto simp: num_run_locale)
    from Some Cons obtain w where "num_step base mx 0 d = Some w" "num_run base mx w ds' = Some r"
      by (auto split: option.splits)
    with assms Cons le[of w] num_step_laws[of base 0 d mx] show ?thesis by (auto split: if_splits)
  qed simp
  with Some v show ?thesis by auto
qed

lemma num_loop_run:
  "num_loop base mx v line =
     map_option (\<lambda>r. (r, dropWhile (digit_of_base base) line))
       (num_run base mx v (map (\<lambda>c. int (curlx_hexval c)) (takeWhile (digit_of_base base) line)))"
  by (induction line arbitrary: v) (auto simp: digit_of_base_def split: option.splits)

section \<open>The words\<close>

lemma until_loop_eq:
  "until_loop stop s len mx =
     (let w = takeWhile (\<lambda>c. c \<noteq> NUL \<and> \<not> stop c) s in
      if w = [] \<or> len + length w \<le> mx then Some (len + length w) else None)"
proof (induction stop s len mx rule: until_loop.induct)
  case (2 stop c s len mx)
  then show ?case by (cases "Suc len > mx") (auto simp: Let_def)
qed simp

text \<open>A quoted body: no NUL, and every quote and backslash escaped.\<close>

fun quoted_body :: "bytes \<Rightarrow> bool" where
  "quoted_body [] \<longleftrightarrow> True"
| "quoted_body (c # s) \<longleftrightarrow>
     (if c = BACKSLASH then s \<noteq> [] \<and> hd s \<noteq> NUL \<and> quoted_body (tl s)
      else c \<noteq> NUL \<and> c \<noteq> DQUOTE \<and> quoted_body s)"

lemma quote_chars [simp]: "BACKSLASH \<noteq> DQUOTE" "DQUOTE \<noteq> BACKSLASH" "BACKSLASH \<noteq> NUL" "DQUOTE \<noteq> NUL"
  by (simp_all add: BACKSLASH_def DQUOTE_def)

lemma quoted_loop_sound:
  "quoted_loop s len mx = (STRE_OK, n) \<Longrightarrow> len \<le> mx \<Longrightarrow>
     \<exists>w rest. s = w @ DQUOTE # rest \<and> n = len + length w \<and> n \<le> mx \<and> quoted_body w"
proof (induction s len mx rule: quoted_loop.induct)
  case (2 c s len mx)
  show ?case
  proof (cases "c = DQUOTE")
    case True
    with "2.prems" show ?thesis by (intro exI[of _ "[]"] exI[of _ s]) auto
  next
    case q: False
    show ?thesis
    proof (cases "c = BACKSLASH \<and> peek s \<noteq> NUL")
      case True
      then obtain d s' where s: "s = d # s'" "d \<noteq> NUL" by (cases s) (auto simp: peek_def)
      from 2 q True s obtain w rest where "s' = w @ DQUOTE # rest" "n = Suc (Suc len) + length w" "n \<le> mx" "quoted_body w"
        by (auto split: if_splits)
      with True s show ?thesis by (intro exI[of _ "c # d # w"] exI[of _ rest]) auto
    next
      case False
      with 2 q have "c \<noteq> NUL" and l: "quoted_loop s (Suc len) mx = (STRE_OK, n)" "Suc len \<le> mx" by (auto split: if_splits)
      with 2 q False obtain w rest where w: "s = w @ DQUOTE # rest" "n = Suc len + length w" "n \<le> mx" "quoted_body w"
        by (auto split: if_splits)
      then have "peek s \<noteq> NUL" by (cases w) (auto simp: peek_def split: if_splits)
      with False q w \<open>c \<noteq> NUL\<close> show ?thesis by (intro exI[of _ "c # w"] exI[of _ rest]) auto
    qed
  qed
qed simp

lemma quoted_loop_complete:
  "quoted_body w \<Longrightarrow> len + length w \<le> mx \<Longrightarrow> quoted_loop (w @ DQUOTE # rest) len mx = (STRE_OK, len + length w)"
proof (induction w arbitrary: len rule: quoted_body.induct)
  case (2 c s)
  show ?case
  proof (cases "c = BACKSLASH")
    case True
    with 2 obtain d s' where "s = d # s'" "d \<noteq> NUL" by (cases s) auto
    with 2 True show ?thesis by (auto simp: peek_def)
  qed (use 2 in auto)
qed simp

section \<open>Properties\<close>

lemma str_num_base_eq:
  assumes "base \<in> {8, 10, 16}" "0 \<le> mx"
  shows "str_num_base line mx base =
    (let ds = takeWhile (digit_of_base base) line in
     if ds = [] then (STRE_NO_NUM, 0, line)
     else if mx < base_value base ds then (STRE_OVERFLOW, 0, line)
     else (STRE_OK, base_value base ds, dropWhile (digit_of_base base) line))"
proof -
  let ?ds = "takeWhile (digit_of_base base) line"
  have none: "\<not> valid_digit (peek line) (max_digit base) \<longleftrightarrow> ?ds = []"
    by (cases line) (auto simp: peek_def digit_of_base_def valid_digit_def byte_val_def)
  have "\<forall>d\<in>set (map (\<lambda>c. int (curlx_hexval c)) ?ds). 0 \<le> d \<and> d < base"
    using hexval_less_base[OF assms(1)] by (auto dest: set_takeWhileD)
  from num_run_exact[OF assms(1) this, of mx] none show ?thesis
    by (auto simp: str_num_base_def num_loop_run base_value_def Let_def)
qed

lemma str_num_base_all:
  assumes "base \<in> {8, 10, 16}" "cs \<noteq> []" "\<forall>c\<in>set cs. digit_of_base base c" "base_value base cs \<le> mx" "0 \<le> mx"
  shows "str_num_base cs mx base = (STRE_OK, base_value base cs, [])"
proof -
  have "takeWhile (digit_of_base base) cs = cs" "dropWhile (digit_of_base base) cs = []" using assms(3) by simp_all
  with assms(2,4) show ?thesis unfolding str_num_base_eq[OF assms(1,5)] Let_def by (simp add: assms(2) del: takeWhile_eq_all_conv dropWhile_eq_Nil_conv)
qed

text \<open>
  In each of the bases 8, 10 and 16 the number scanner reads exactly the leading digits: it
  fails when there is none, reports an overflow exactly when their value is above the maximum, and
  otherwise returns that value and the cursor behind the last digit. The result never leaves the
  range from zero to the maximum, so no arithmetic overflows.
\<close>

theorem str_num_base_exact:
  assumes "base \<in> {8, 10, 16}" "0 \<le> mx"
  shows "str_num_base line mx base =
    (let ds = takeWhile (digit_of_base base) line in
     if ds = [] then (STRE_NO_NUM, 0, line)
     else if mx < base_value base ds then (STRE_OVERFLOW, 0, line)
     else (STRE_OK, base_value base ds, dropWhile (digit_of_base base) line))"
  by (rule str_num_base_eq[OF assms])

theorem str_num_base_exact_witness:
  "str_num_base ''1fz'' 31 16 = (STRE_OK, 31, ''z'') \<and> str_num_base ''1fz'' 30 16 = (STRE_OVERFLOW, 0, ''1fz'')"
proof -
  have "digits_value 16 0 [1, 15] = 31" by (simp add: digits_value_def)
  moreover have "takeWhile (digit_of_base 16) ''1fz'' = ''1f''" "dropWhile (digit_of_base 16) ''1fz'' = ''z''"
    "map (\<lambda>c. int (curlx_hexval c)) ''1f'' = [1, 15]" by code_simp+
  ultimately show ?thesis
    using str_num_base_exact[of 16 31 "''1fz''"] str_num_base_exact[of 16 30 "''1fz''"]
    by (simp add: Let_def base_value_def)
qed

text \<open>
  The word scanners cut exactly at the delimiter. A word read up to a delimiter is the longest
  prefix without one, refused when it is empty or longer than the maximum, and what follows is left
  for the next scan; a quoted word is accepted exactly when the string starts with a quote and a
  body, every quote of which is escaped and which fits, up to its closing quote.
\<close>

theorem str_words_exact:
  "curlx_str_until line mx delim =
     (let w = takeWhile (\<lambda>c. c \<noteq> NUL \<and> c \<noteq> delim) line in
      if w = [] then (STRE_SHORT, None, line)
      else if mx < length w then (STRE_BIG, None, line)
      else (STRE_OK, Some w, drop (length w) line)) \<and>
   (curlx_str_quotedword line mx = (STRE_OK, out, rest) \<longleftrightarrow>
     (\<exists>w. line = DQUOTE # w @ DQUOTE # rest \<and> out = Some w \<and> quoted_body w \<and> length w \<le> mx))"
proof
  have "take (length (takeWhile P line)) line = takeWhile P line" for P :: "char \<Rightarrow> bool"
    by (metis append_eq_conv_conj takeWhile_dropWhile_id)
  then show "curlx_str_until line mx delim =
     (let w = takeWhile (\<lambda>c. c \<noteq> NUL \<and> c \<noteq> delim) line in
      if w = [] then (STRE_SHORT, None, line)
      else if mx < length w then (STRE_BIG, None, line)
      else (STRE_OK, Some w, drop (length w) line))"
    by (auto simp: curlx_str_until_def str_until_def until_loop_eq curlx_str_init_def Let_def)
  show "curlx_str_quotedword line mx = (STRE_OK, out, rest) \<longleftrightarrow>
     (\<exists>w. line = DQUOTE # w @ DQUOTE # rest \<and> out = Some w \<and> quoted_body w \<and> length w \<le> mx)"
  proof
    assume q: "curlx_str_quotedword line mx = (STRE_OK, out, rest)"
    then obtain l where l: "line = DQUOTE # l"
      by (cases line) (auto simp: curlx_str_quotedword_def peek_def split: if_splits)
    with q obtain n where n: "quoted_loop l 0 mx = (STRE_OK, n)" "out = Some (take n l)" "rest = drop (n + 1) l"
      by (auto simp: curlx_str_quotedword_def peek_def split: prod.splits if_splits)
    from quoted_loop_sound[OF n(1)] obtain w r where "l = w @ DQUOTE # r" "n = length w" "n \<le> mx" "quoted_body w" by auto
    with l n show "\<exists>w. line = DQUOTE # w @ DQUOTE # rest \<and> out = Some w \<and> quoted_body w \<and> length w \<le> mx" by auto
  next
    assume "\<exists>w. line = DQUOTE # w @ DQUOTE # rest \<and> out = Some w \<and> quoted_body w \<and> length w \<le> mx"
    then show "curlx_str_quotedword line mx = (STRE_OK, out, rest)"
      using quoted_loop_complete by (auto simp: curlx_str_quotedword_def peek_def)
  qed
qed

lemma trim_back_eq: "trim_back s = rev (dropWhile ISBLANK (rev s))"
proof (induction s rule: trim_back.induct)
  case (1 s)
  show ?case
  proof (cases s rule: rev_cases)
    case (snoc xs c)
    with 1 show ?thesis by (subst trim_back.simps) (auto simp: nth_append)
  qed (simp add: trim_back.simps)
qed

lemma trim_front_eq: "trim_front s = dropWhile ISBLANK s"
  by (induction s) auto

end
