(* ===== verification/Curl_Chunks.thy ===== *)
theory Curl_Chunks
  imports Curl_Dynbuf Curl_Strparse
begin

text \<open>
  The decoder of HTTP/1.1 chunked transfer encoding, \<open>old/lib/http_chunks.c\<close> with the state and code
  enumerations of \<open>http_chunks.h\<close>, and the header check of \<open>http.c\<close> it applies to trailers. The
  decoder is a state machine driven by the bytes of a buffer; it keeps its state across calls, since
  the network cuts the stream anywhere. Decoded bytes go to the next writer of the chain, a callback
  with a context of its own.

  The number of hex digits read is the length of \<open>hexbuffer\<close>. \<open>datasize\<close> is a natural number: the
  only values it ever has are a parsed size, which the parser bounds by \<open>CURL_OFF_T_MAX\<close>, what is
  left of one, and a buffer length. Each state of the \<open>switch\<close> is a definition of its own; its result
  says whether the loop goes on or the function returns, and with which bytes still unread.
\<close>

section \<open>Data\<close>

datatype ChunkyState = CHUNK_HEX | CHUNK_LF | CHUNK_DATA | CHUNK_POSTLF | CHUNK_STOP | CHUNK_TRAILER
  | CHUNK_TRAILER_CR | CHUNK_TRAILER_POSTCR | CHUNK_DONE | CHUNK_FAILED

datatype CHUNKcode = CHUNKE_OK | CHUNKE_TOO_LONG_HEX | CHUNKE_ILLEGAL_HEX | CHUNKE_BAD_CHUNK
  | CHUNKE_BAD_ENCODING | CHUNKE_OUT_OF_MEMORY | CHUNKE_PASSTHRU_ERROR

definition CHUNK_MAXNUM_LEN :: nat where "CHUNK_MAXNUM_LEN = 16"
definition DYN_H1_TRAILER :: nat where "DYN_H1_TRAILER = 4096"

definition CLIENTWRITE_BODY :: nat where "CLIENTWRITE_BODY = 1"
definition CLIENTWRITE_HEADER :: nat where "CLIENTWRITE_HEADER = 4"
definition CLIENTWRITE_TRAILER :: nat where "CLIENTWRITE_TRAILER = 64"
definition CLIENTWRITE_EOS :: nat where "CLIENTWRITE_EOS = 128"

record Curl_chunker =
  datasize :: nat
  state :: ChunkyState
  last_code :: CHUNKcode
  trailer :: dynbuf
  hexbuffer :: bytes
  ignore_body :: bool

text \<open>What the decoder reads and sets of the transfer.\<close>

record easy =
  http_te_skip :: bool
  headerline :: int
  no_body :: bool
  req_chunk :: bool
  download_done :: bool

type_synonym 's cwriter = "'s \<Rightarrow> nat \<Rightarrow> bytes \<Rightarrow> CURLcode \<times> 's"

section \<open>Life cycle\<close>

definition Curl_httpchunk_init :: "Curl_chunker \<Rightarrow> bool \<Rightarrow> Curl_chunker" where
  "Curl_httpchunk_init ch ignore =
     ch\<lparr>hexbuffer := [], state := CHUNK_HEX, last_code := CHUNKE_OK,
        trailer := curlx_dyn_init DYN_H1_TRAILER, ignore_body := ignore\<rparr>"

definition Curl_httpchunk_reset :: "Curl_chunker \<Rightarrow> bool \<Rightarrow> Curl_chunker" where
  "Curl_httpchunk_reset ch ignore =
     ch\<lparr>hexbuffer := [], state := CHUNK_HEX, last_code := CHUNKE_OK,
        trailer := curlx_dyn_reset (trailer ch), ignore_body := ignore\<rparr>"

definition Curl_httpchunk_free :: "Curl_chunker \<Rightarrow> Curl_chunker" where
  "Curl_httpchunk_free ch = ch\<lparr>trailer := curlx_dyn_free (trailer ch)\<rparr>"

definition Curl_httpchunk_is_done :: "Curl_chunker \<Rightarrow> bool" where
  "Curl_httpchunk_is_done ch \<longleftrightarrow> state ch = CHUNK_DONE"

definition Curl_verify_header :: "easy \<Rightarrow> bytes \<Rightarrow> CURLcode" where
  "Curl_verify_header data hdr =
     (if NUL \<in> set hdr then CURLE_WEIRD_SERVER_REPLY
      else if length hdr > 2 \<and> CR \<in> set (take (length hdr - 2) hdr) then CURLE_WEIRD_SERVER_REPLY
      else if headerline data < 2 then CURLE_OK
      else if (peek hdr = CHR '' '' \<or> peek hdr = HT) \<and> headerline data > 2 then CURLE_OK
      else if CHR '':'' \<notin> set hdr then CURLE_WEIRD_SERVER_REPLY
      else CURLE_OK)"

section \<open>The states\<close>

text \<open>
  \<open>Inl r\<close>: the function returns \<open>r\<close>; \<open>Inr ()\<close>: the loop goes on. The bytes are those not consumed.
\<close>

type_synonym 's outcome = "(CURLcode + unit) \<times> Curl_chunker \<times> heap \<times> 's \<times> bytes"

definition failed :: "Curl_chunker \<Rightarrow> CHUNKcode \<Rightarrow> Curl_chunker" where
  "failed ch code = ch\<lparr>state := CHUNK_FAILED, last_code := code\<rparr>"

definition chunk_hex :: "Curl_chunker \<Rightarrow> heap \<Rightarrow> 's \<Rightarrow> bytes \<Rightarrow> 's outcome" where
  "chunk_hex ch h s buf =
     (if ISXDIGIT (hd buf) then
        if length (hexbuffer ch) \<ge> CHUNK_MAXNUM_LEN
        then (Inl CURLE_RECV_ERROR, failed ch CHUNKE_TOO_LONG_HEX, h, s, buf)
        else (Inr (), ch\<lparr>hexbuffer := hexbuffer ch @ [hd buf]\<rparr>, h, s, tl buf)
      else if length (hexbuffer ch) = 0
      then (Inl CURLE_RECV_ERROR, failed ch CHUNKE_ILLEGAL_HEX, h, s, buf)
      else case curlx_str_hex (hexbuffer ch) CURL_OFF_T_MAX of (code, sz, _) \<Rightarrow>
        if code \<noteq> STRE_OK
        then (Inl CURLE_RECV_ERROR, (failed ch CHUNKE_ILLEGAL_HEX)\<lparr>datasize := nat sz\<rparr>, h, s, buf)
        else (Inr (), ch\<lparr>datasize := nat sz, state := CHUNK_LF\<rparr>, h, s, buf))"

definition chunk_lf :: "Curl_chunker \<Rightarrow> heap \<Rightarrow> 's \<Rightarrow> bytes \<Rightarrow> 's outcome" where
  "chunk_lf ch h s buf =
     (Inr (),
      (if hd buf = LF
       then ch\<lparr>state := (if datasize ch = 0 then CHUNK_TRAILER else CHUNK_DATA)\<rparr> else ch),
      h, s, tl buf)"

definition chunk_data :: "easy \<Rightarrow> 's cwriter \<Rightarrow> Curl_chunker \<Rightarrow> heap \<Rightarrow> 's \<Rightarrow> bytes \<Rightarrow> 's outcome" where
  "chunk_data data cw ch h s buf =
     (let piece = (if datasize ch < length buf then datasize ch else length buf);
          (result, s) =
            (if \<not> http_te_skip data \<and> \<not> ignore_body ch then cw s CLIENTWRITE_BODY (take piece buf)
             else (CURLE_OK, s)) in
      if result \<noteq> CURLE_OK then (Inl result, failed ch CHUNKE_PASSTHRU_ERROR, h, s, buf)
      else
        let ch = ch\<lparr>datasize := datasize ch - piece\<rparr> in
        (Inr (), (if datasize ch = 0 then ch\<lparr>state := CHUNK_POSTLF\<rparr> else ch), h, s, drop piece buf))"

definition chunk_postlf :: "Curl_chunker \<Rightarrow> heap \<Rightarrow> 's \<Rightarrow> bytes \<Rightarrow> 's outcome" where
  "chunk_postlf ch h s buf =
     (if hd buf = LF then (Inr (), Curl_httpchunk_reset ch (ignore_body ch), h, s, tl buf)
      else if hd buf \<noteq> CR then (Inl CURLE_RECV_ERROR, failed ch CHUNKE_BAD_CHUNK, h, s, buf)
      else (Inr (), ch, h, s, tl buf))"

definition trailer_line :: "easy \<Rightarrow> 's cwriter \<Rightarrow> Curl_chunker \<Rightarrow> heap \<Rightarrow> 's \<Rightarrow> CURLcode \<times> Curl_chunker \<times> heap \<times> 's" where
  "trailer_line data cw ch h s =
     (case curlx_dyn_addn (trailer ch) h CRLF of (result, tr, h) \<Rightarrow>
        let ch = ch\<lparr>trailer := tr\<rparr> in
        if result \<noteq> CURLE_OK then (result, failed ch CHUNKE_OUT_OF_MEMORY, h, s)
        else
          let line = dyn_str tr; result = Curl_verify_header data line in
          if result \<noteq> CURLE_OK then (result, failed ch CHUNKE_BAD_CHUNK, h, s)
          else case (if \<not> http_te_skip data then cw s (CLIENTWRITE_HEADER + CLIENTWRITE_TRAILER) line
                     else (CURLE_OK, s)) of (result, s) \<Rightarrow>
            if result \<noteq> CURLE_OK then (result, failed ch CHUNKE_PASSTHRU_ERROR, h, s)
            else (CURLE_OK, ch\<lparr>trailer := curlx_dyn_reset tr, state := CHUNK_TRAILER_CR\<rparr>, h, s))"

definition chunk_trailer :: "easy \<Rightarrow> 's cwriter \<Rightarrow> Curl_chunker \<Rightarrow> heap \<Rightarrow> 's \<Rightarrow> bytes \<Rightarrow> 's outcome" where
  "chunk_trailer data cw ch h s buf =
     (if hd buf = CR \<or> hd buf = LF then
        (case curlx_dyn_ptr (trailer ch) of
           Some _ \<Rightarrow>
             (case trailer_line data cw ch h s of (result, ch, h, s) \<Rightarrow>
                if result \<noteq> CURLE_OK then (Inl result, ch, h, s, buf)
                else (Inr (), ch, h, s, if hd buf = LF then buf else tl buf))
         | None \<Rightarrow> (Inr (), ch\<lparr>state := CHUNK_TRAILER_POSTCR\<rparr>, h, s, buf))
      else case curlx_dyn_addn (trailer ch) h [hd buf] of (result, tr, h) \<Rightarrow>
        let ch = ch\<lparr>trailer := tr\<rparr> in
        if result \<noteq> CURLE_OK then (Inl result, failed ch CHUNKE_OUT_OF_MEMORY, h, s, buf)
        else (Inr (), ch, h, s, tl buf))"

definition chunk_trailer_cr :: "Curl_chunker \<Rightarrow> heap \<Rightarrow> 's \<Rightarrow> bytes \<Rightarrow> 's outcome" where
  "chunk_trailer_cr ch h s buf =
     (if hd buf = LF then (Inr (), ch\<lparr>state := CHUNK_TRAILER_POSTCR\<rparr>, h, s, tl buf)
      else (Inl CURLE_RECV_ERROR, failed ch CHUNKE_BAD_CHUNK, h, s, buf))"

definition chunk_trailer_postcr :: "Curl_chunker \<Rightarrow> heap \<Rightarrow> 's \<Rightarrow> bytes \<Rightarrow> 's outcome" where
  "chunk_trailer_postcr ch h s buf =
     (if hd buf \<noteq> CR \<and> hd buf \<noteq> LF then (Inr (), ch\<lparr>state := CHUNK_TRAILER\<rparr>, h, s, buf)
      else (Inr (), ch\<lparr>state := CHUNK_STOP\<rparr>, h, s, if hd buf = CR then tl buf else buf))"

definition chunk_stop :: "Curl_chunker \<Rightarrow> heap \<Rightarrow> 's \<Rightarrow> bytes \<Rightarrow> 's outcome" where
  "chunk_stop ch h s buf =
     (if hd buf = LF
      then (Inl CURLE_OK, ch\<lparr>datasize := length (tl buf), state := CHUNK_DONE\<rparr>, h, s, tl buf)
      else (Inl CURLE_RECV_ERROR, failed ch CHUNKE_BAD_CHUNK, h, s, buf))"

definition chunk_step :: "easy \<Rightarrow> 's cwriter \<Rightarrow> Curl_chunker \<Rightarrow> heap \<Rightarrow> 's \<Rightarrow> bytes \<Rightarrow> 's outcome" where
  "chunk_step data cw ch h s buf =
     (case state ch of
        CHUNK_HEX \<Rightarrow> chunk_hex ch h s buf
      | CHUNK_LF \<Rightarrow> chunk_lf ch h s buf
      | CHUNK_DATA \<Rightarrow> chunk_data data cw ch h s buf
      | CHUNK_POSTLF \<Rightarrow> chunk_postlf ch h s buf
      | CHUNK_TRAILER \<Rightarrow> chunk_trailer data cw ch h s buf
      | CHUNK_TRAILER_CR \<Rightarrow> chunk_trailer_cr ch h s buf
      | CHUNK_TRAILER_POSTCR \<Rightarrow> chunk_trailer_postcr ch h s buf
      | CHUNK_STOP \<Rightarrow> chunk_stop ch h s buf
      | CHUNK_DONE \<Rightarrow> (Inl CURLE_OK, ch, h, s, buf)
      | CHUNK_FAILED \<Rightarrow> (Inl CURLE_RECV_ERROR, ch, h, s, buf))"

text \<open>
  A step that goes on consumes a byte, or moves to a state of lower rank for the byte it looks at.
\<close>

definition rank :: "ChunkyState \<Rightarrow> char \<Rightarrow> nat" where
  "rank st c =
     (case st of
        CHUNK_HEX \<Rightarrow> 1
      | CHUNK_DATA \<Rightarrow> 1
      | CHUNK_TRAILER \<Rightarrow> if c = CR \<or> c = LF then 3 else 0
      | CHUNK_TRAILER_POSTCR \<Rightarrow> 2
      | _ \<Rightarrow> 0)"

lemmas chunk_states = chunk_hex_def chunk_lf_def chunk_data_def chunk_postlf_def chunk_trailer_def
  trailer_line_def chunk_trailer_cr_def chunk_trailer_postcr_def chunk_stop_def

lemma trailer_line_OK:
  "trailer_line data cw ch h s = (CURLE_OK, ch', h', s') \<Longrightarrow> state ch' = CHUNK_TRAILER_CR"
  by (auto simp: trailer_line_def Let_def failed_def split: prod.splits if_splits)

lemma chunk_step_progress:
  assumes "chunk_step data cw ch h s buf = (Inr u, ch', h', s', rest)" "buf \<noteq> []"
  shows "length rest < length buf \<or> rest = buf \<and> rank (state ch') (hd buf) < rank (state ch) (hd buf)"
proof (cases "state ch")
  case CHUNK_TRAILER
  show ?thesis
  proof (cases "(hd buf = CR \<or> hd buf = LF) \<and> curlx_dyn_ptr (trailer ch) \<noteq> None")
    case True
    obtain r c1 h1 s1 where t: "trailer_line data cw ch h s = (r, c1, h1, s1)" by (metis prod_cases4)
    with assms True CHUNK_TRAILER have "r = CURLE_OK" "ch' = c1" "rest = (if hd buf = LF then buf else tl buf)"
      by (auto simp: chunk_step_def chunk_trailer_def split: if_splits)
    with trailer_line_OK[of data cw ch h s c1 h1 s1] t True assms(2) CHUNK_TRAILER show ?thesis
      by (auto simp: rank_def)
  qed (use assms CHUNK_TRAILER in \<open>auto simp: chunk_step_def chunk_trailer_def rank_def Let_def split: if_splits prod.splits option.splits\<close>)
next
  case CHUNK_DATA
  with assms show ?thesis
    by (cases "datasize ch = 0")
       (auto simp: chunk_step_def chunk_data_def rank_def Let_def split: if_splits prod.splits)
qed (use assms in \<open>auto simp: chunk_step_def chunk_states rank_def Let_def split: if_splits prod.splits\<close>)

function readwrite_loop ::
  "easy \<Rightarrow> 's cwriter \<Rightarrow> Curl_chunker \<Rightarrow> heap \<Rightarrow> 's \<Rightarrow> bytes \<Rightarrow> CURLcode \<times> Curl_chunker \<times> heap \<times> 's \<times> bytes" where
  "readwrite_loop data cw ch h s buf =
     (if buf = [] then (CURLE_OK, ch, h, s, [])
      else case chunk_step data cw ch h s buf of (r, ch', h', s', rest) \<Rightarrow>
        case r of Inl code \<Rightarrow> (code, ch', h', s', rest)
        | Inr u \<Rightarrow> readwrite_loop data cw ch' h' s' rest)"
  by pat_completeness auto
termination
proof (relation "measures [\<lambda>(data, cw, ch, h, s, buf). length buf, \<lambda>(data, cw, ch, h, s, buf). rank (state ch) (hd buf)]", goal_cases)
  case (2 data cw ch h s buf r y ch' y1 h' y2 s' rest u)
  then have "chunk_step data cw ch h s buf = (Inr u, ch', h', s', rest)" by simp
  from chunk_step_progress[OF this 2(1)] show ?case by auto
qed simp

declare readwrite_loop.simps [simp del]

definition httpchunk_readwrite ::
  "easy \<Rightarrow> 's cwriter \<Rightarrow> Curl_chunker \<Rightarrow> heap \<Rightarrow> 's \<Rightarrow> bytes \<Rightarrow> CURLcode \<times> nat \<times> Curl_chunker \<times> heap \<times> 's" where
  "httpchunk_readwrite data cw ch h s buf =
     (if state ch = CHUNK_DONE then (CURLE_OK, 0, ch, h, s)
      else if state ch = CHUNK_FAILED then (CURLE_RECV_ERROR, 0, ch, h, s)
      else case (if http_te_skip data \<and> \<not> ignore_body ch then cw s CLIENTWRITE_BODY buf else (CURLE_OK, s)) of
        (result, s) \<Rightarrow>
          if result \<noteq> CURLE_OK then (result, 0, failed ch CHUNKE_PASSTHRU_ERROR, h, s)
          else case readwrite_loop data cw ch h s buf of (result, ch, h, s, rest) \<Rightarrow>
            (result, length buf - length rest, ch, h, s))"

definition Curl_chunked_strerror :: "CHUNKcode \<Rightarrow> bytes" where
  "Curl_chunked_strerror code =
     (case code of
        CHUNKE_TOO_LONG_HEX \<Rightarrow> ''Too long hexadecimal number''
      | CHUNKE_ILLEGAL_HEX \<Rightarrow> ''Illegal or missing hexadecimal sequence''
      | CHUNKE_BAD_CHUNK \<Rightarrow> ''Malformed encoding found''
      | CHUNKE_PASSTHRU_ERROR \<Rightarrow> ''Error writing data to client''
      | CHUNKE_BAD_ENCODING \<Rightarrow> ''Bad content-encoding found''
      | CHUNKE_OUT_OF_MEMORY \<Rightarrow> ''Out of memory''
      | _ \<Rightarrow> ''OK'')"

definition Curl_httpchunk_read ::
  "easy \<Rightarrow> 's cwriter \<Rightarrow> Curl_chunker \<Rightarrow> heap \<Rightarrow> 's \<Rightarrow> bytes \<Rightarrow> CURLcode \<times> nat \<times> Curl_chunker \<times> heap \<times> 's" where
  "Curl_httpchunk_read data client ch h s buf = httpchunk_readwrite data client ch h s buf"

section \<open>The decoder as a writer of the response chain\<close>

definition cw_chunked_init :: "easy \<Rightarrow> Curl_chunker \<Rightarrow> CURLcode \<times> easy \<times> Curl_chunker" where
  "cw_chunked_init data ch = (CURLE_OK, data\<lparr>req_chunk := True\<rparr>, Curl_httpchunk_init ch False)"

definition cw_chunked_close :: "Curl_chunker \<Rightarrow> Curl_chunker" where
  "cw_chunked_close ch = Curl_httpchunk_free ch"

definition cw_chunked_write ::
  "easy \<Rightarrow> 's cwriter \<Rightarrow> Curl_chunker \<Rightarrow> heap \<Rightarrow> 's \<Rightarrow> nat \<Rightarrow> bytes \<Rightarrow> CURLcode \<times> easy \<times> Curl_chunker \<times> heap \<times> 's" where
  "cw_chunked_write data cw ch h s typ buf =
     (if and typ CLIENTWRITE_BODY = 0 then
        (case cw s typ buf of (result, s) \<Rightarrow> (result, data, ch, h, s))
      else case httpchunk_readwrite data cw ch h s buf of (result, consumed, ch, h, s) \<Rightarrow>
        if result \<noteq> CURLE_OK then (result, data, ch, h, s)
        else if state ch = CHUNK_DONE then (CURLE_OK, data\<lparr>download_done := True\<rparr>, ch, h, s)
        else if and typ CLIENTWRITE_EOS \<noteq> 0 \<and> \<not> no_body data then (CURLE_PARTIAL_FILE, data, ch, h, s)
        else (CURLE_OK, data, ch, h, s))"

section \<open>Invariant\<close>

definition chunker_ok :: "Curl_chunker \<Rightarrow> bool" where
  "chunker_ok ch \<longleftrightarrow> length (hexbuffer ch) \<le> CHUNK_MAXNUM_LEN \<and> list_all ISXDIGIT (hexbuffer ch) \<and>
     int (datasize ch) \<le> CURL_OFF_T_MAX \<and> dyn_ok (trailer ch) \<and> toobig (trailer ch) = DYN_H1_TRAILER \<and>
     (state ch = CHUNK_DATA \<longrightarrow> 0 < datasize ch) \<and> (state ch = CHUNK_FAILED \<longleftrightarrow> last_code ch \<noteq> CHUNKE_OK)"

lemma addn_keeps:
  assumes "dyn_ok s" "curlx_dyn_addn s h mem = (r, s', h')"
  shows "dyn_ok s' \<and> toobig s' = toobig s"
  using dyn.addn_OK[OF assms(1)] dyn.addn_fail[OF assms] assms(2) by (cases "r = CURLE_OK") auto

lemma str_hex_bounds: "curlx_str_hex line CURL_OFF_T_MAX = (code, sz, rest) \<Longrightarrow> 0 \<le> sz \<and> sz \<le> CURL_OFF_T_MAX"
  by (auto simp: curlx_str_hex_def str_num_base_eq CURL_OFF_T_MAX_def Let_def base_value_nonneg split: if_splits)

lemma chunker_ok_reset [simp]: "chunker_ok ch \<Longrightarrow> chunker_ok (Curl_httpchunk_reset ch ign)"
  using dyn_reset_ok[of "trailer ch"] by (auto simp: chunker_ok_def Curl_httpchunk_reset_def)

lemma state_reset [simp]: "state (Curl_httpchunk_reset ch ign) = CHUNK_HEX"
  by (simp add: Curl_httpchunk_reset_def)

lemma chunker_ok_failed [simp]: "chunker_ok ch \<Longrightarrow> code \<noteq> CHUNKE_OK \<Longrightarrow> chunker_ok (failed ch code)"
  by (auto simp: chunker_ok_def failed_def)

lemma state_failed [simp]: "state (failed ch code) = CHUNK_FAILED"
  by (simp add: failed_def)

definition step_ok :: "bytes \<Rightarrow> 's outcome \<Rightarrow> bool" where
  "step_ok buf out =
     (case out of (r, ch', h', s', rest) \<Rightarrow>
        chunker_ok ch' \<and> length rest \<le> length buf \<and>
        (case r of
           Inl code \<Rightarrow> state ch' = CHUNK_FAILED \<and> code \<noteq> CURLE_OK \<or> state ch' = CHUNK_DONE \<and> code = CURLE_OK
         | Inr u \<Rightarrow> state ch' \<notin> {CHUNK_DONE, CHUNK_FAILED}))"

lemma chunk_hex_ok:
  assumes "chunker_ok ch" "state ch = CHUNK_HEX" "buf \<noteq> []"
  shows "step_ok buf (chunk_hex ch h s buf)"
  using assms str_hex_bounds[of "hexbuffer ch"]
  by (auto simp: chunk_hex_def step_ok_def chunker_ok_def failed_def split: prod.splits)

lemma chunk_data_ok:
  assumes "chunker_ok ch" "state ch = CHUNK_DATA" "buf \<noteq> []"
  shows "step_ok buf (chunk_data data cw ch h s buf)"
  using assms
  by (auto simp: chunk_data_def step_ok_def chunker_ok_def failed_def Let_def split: prod.splits if_splits)

lemma trailer_line_ok:
  assumes "chunker_ok ch" "state ch = CHUNK_TRAILER" "trailer_line data cw ch h s = (r, ch', h', s')"
  shows "chunker_ok ch' \<and> state ch' = (if r = CURLE_OK then CHUNK_TRAILER_CR else CHUNK_FAILED)"
proof -
  obtain r1 tr h1 where a: "curlx_dyn_addn (trailer ch) h CRLF = (r1, tr, h1)"
    by (cases "curlx_dyn_addn (trailer ch) h CRLF")
  have tr: "dyn_ok tr" "toobig tr = DYN_H1_TRAILER"
    using addn_keeps[OF _ a] assms(1) by (auto simp: chunker_ok_def)
  have ok: "chunker_ok (ch\<lparr>trailer := tr\<rparr>)" "chunker_ok (ch\<lparr>trailer := curlx_dyn_reset tr, state := CHUNK_TRAILER_CR\<rparr>)"
    using assms(1,2) tr dyn_reset_ok[OF tr(1)] by (auto simp: chunker_ok_def)
  show ?thesis
    using assms(3) a ok by (auto simp: trailer_line_def Let_def split: prod.splits if_splits)
qed

lemma chunk_trailer_ok:
  assumes "chunker_ok ch" "state ch = CHUNK_TRAILER" "buf \<noteq> []"
  shows "step_ok buf (chunk_trailer data cw ch h s buf)"
proof (cases "hd buf = CR \<or> hd buf = LF")
  case True
  show ?thesis
  proof (cases "curlx_dyn_ptr (trailer ch)")
    case None
    with True assms show ?thesis by (auto simp: chunk_trailer_def step_ok_def chunker_ok_def)
  next
    case (Some b)
    obtain r ch' h' s' where t: "trailer_line data cw ch h s = (r, ch', h', s')" by (metis prod_cases4)
    from trailer_line_ok[OF assms(1,2) t] True Some t show ?thesis
      by (auto simp: chunk_trailer_def step_ok_def)
  qed
next
  case False
  obtain r tr h' where a: "curlx_dyn_addn (trailer ch) h [hd buf] = (r, tr, h')"
    by (cases "curlx_dyn_addn (trailer ch) h [hd buf]")
  have "chunker_ok (ch\<lparr>trailer := tr\<rparr>)"
    using addn_keeps[OF _ a] assms(1,2) by (auto simp: chunker_ok_def)
  with False a assms(2) show ?thesis by (auto simp: chunk_trailer_def step_ok_def Let_def)
qed

lemma chunk_step_ok:
  assumes "chunker_ok ch" "buf \<noteq> []" "int (length buf) \<le> CURL_OFF_T_MAX"
  shows "step_ok buf (chunk_step data cw ch h s buf)"
proof (cases "state ch")
  case CHUNK_HEX
  with assms show ?thesis by (simp add: chunk_step_def chunk_hex_ok)
next
  case CHUNK_DATA
  with assms show ?thesis by (simp add: chunk_step_def chunk_data_ok)
next
  case CHUNK_TRAILER
  with assms show ?thesis by (simp add: chunk_step_def chunk_trailer_ok)
next
  case CHUNK_POSTLF
  with assms show ?thesis
    by (auto simp: chunk_step_def chunk_postlf_def step_ok_def)
qed (use assms in \<open>auto simp: chunk_step_def chunk_states step_ok_def chunker_ok_def failed_def\<close>)

lemma readwrite_loop_Nil [simp]: "readwrite_loop data cw ch h s [] = (CURLE_OK, ch, h, s, [])"
  by (simp add: readwrite_loop.simps)

lemma readwrite_loop_returns:
  "buf \<noteq> [] \<Longrightarrow> chunk_step data cw ch h s buf = (Inl code, ch', h', s', rest) \<Longrightarrow>
   readwrite_loop data cw ch h s buf = (code, ch', h', s', rest)"
  by (simp add: readwrite_loop.simps)

lemma readwrite_loop_continues:
  "buf \<noteq> [] \<Longrightarrow> chunk_step data cw ch h s buf = (Inr u, ch', h', s', rest) \<Longrightarrow>
   readwrite_loop data cw ch h s buf = readwrite_loop data cw ch' h' s' rest"
  by (simp add: readwrite_loop.simps)

lemma readwrite_loop_induct [case_names loop]:
  assumes "\<And>ch h s buf. (\<And>u ch' h' s' rest. buf \<noteq> [] \<Longrightarrow> chunk_step data cw ch h s buf = (Inr u, ch', h', s', rest) \<Longrightarrow>
      P ch' h' s' rest) \<Longrightarrow> P ch h s buf"
  shows "P ch h s buf"
proof -
  have "d = data \<longrightarrow> c = cw \<longrightarrow> P ch h s buf" for d c
  proof (induction d c ch h s buf rule: readwrite_loop.induct)
    case (1 d c ch h s buf)
    show ?case using "1.IH"[OF _ _ refl refl refl] by (auto intro: assms)
  qed
  then show ?thesis by blast
qed

lemma readwrite_loop_ok:
  assumes "chunker_ok ch" "state ch \<notin> {CHUNK_DONE, CHUNK_FAILED}" "int (length buf) \<le> CURL_OFF_T_MAX"
    "readwrite_loop data cw ch h s buf = (r, ch', h', s', rest)"
  shows "chunker_ok ch' \<and> length rest \<le> length buf \<and> (r \<noteq> CURLE_OK \<longleftrightarrow> state ch' = CHUNK_FAILED) \<and>
    (rest \<noteq> [] \<longrightarrow> state ch' \<in> {CHUNK_DONE, CHUNK_FAILED})"
  using assms
proof (induction ch h s buf rule: readwrite_loop_induct[where data = data and cw = cw])
  case (loop ch h s buf)
  show ?case
  proof (cases "buf = []")
    case True
    with loop.prems show ?thesis by auto
  next
    case False
    obtain r1 ch1 h1 s1 rest1 where st: "chunk_step data cw ch h s buf = (r1, ch1, h1, s1, rest1)"
      by (metis prod_cases5)
    note S = chunk_step_ok[OF loop.prems(1) False loop.prems(3), of data cw h s, unfolded st step_ok_def prod.case]
    show ?thesis
    proof (cases r1)
      case (Inl code)
      with loop.prems(4) S readwrite_loop_returns[OF False st[unfolded Inl]] show ?thesis by auto
    next
      case (Inr u)
      with loop.prems S loop.IH[OF False st[unfolded Inr]] readwrite_loop_continues[OF False st[unfolded Inr]]
      show ?thesis by auto
    qed
  qed
qed

section \<open>The stream may be cut anywhere\<close>

text \<open>
  A client that takes two pieces of body as it takes them joined. What one call over the joined
  buffer and two calls leave behind agrees, apart from \<open>datasize\<close> once the decoder has stopped: there
  it is not the size of a chunk any more.
\<close>

definition splittable :: "'s cwriter \<Rightarrow> bool" where
  "splittable cw \<longleftrightarrow> (\<forall>s p q. p \<noteq> [] \<longrightarrow> q \<noteq> [] \<longrightarrow>
     cw s CLIENTWRITE_BODY (p @ q) =
       (case cw s CLIENTWRITE_BODY p of (r, s') \<Rightarrow> if r \<noteq> CURLE_OK then (r, s') else cw s' CLIENTWRITE_BODY q))"

definition settled :: "Curl_chunker \<Rightarrow> Curl_chunker" where
  "settled ch = (if state ch = CHUNK_DONE \<or> state ch = CHUNK_FAILED then ch\<lparr>datasize := 0\<rparr> else ch)"

definition same_outcome ::
  "CURLcode \<times> Curl_chunker \<times> heap \<times> 's \<times> bytes \<Rightarrow> CURLcode \<times> Curl_chunker \<times> heap \<times> 's \<times> bytes \<Rightarrow> bool" where
  "same_outcome x y =
     (case (x, y) of ((r, ch, h, s, _), (r', ch', h', s', _)) \<Rightarrow> r = r' \<and> settled ch = settled ch' \<and> h = h' \<and> s = s')"

lemma same_outcome_refl [simp]: "same_outcome x x"
  by (auto simp: same_outcome_def split: prod.splits)

lemma chunk_step_append:
  assumes "a \<noteq> []" "state ch = CHUNK_DATA \<longrightarrow> datasize ch \<le> length a" "state ch \<noteq> CHUNK_STOP"
    "chunk_step data cw ch h s a = (r, ch', h', s', rest)"
  shows "chunk_step data cw ch h s (a @ b) = (r, ch', h', s', rest @ b)"
proof -
  have l: "datasize ch < length a + length b \<or> length a + length b = datasize ch" if "state ch = CHUNK_DATA"
    using assms(2) that by auto
  show ?thesis
  proof (cases "state ch")
    case CHUNK_DATA
    then have "(if datasize ch < length (a @ b) then datasize ch else length (a @ b)) = datasize ch"
      "(if datasize ch < length a then datasize ch else length a) = datasize ch" using assms(2) l by auto
    with CHUNK_DATA assms show ?thesis
      by (auto simp: chunk_step_def chunk_data_def Let_def split: prod.splits if_splits)
  next
    case CHUNK_TRAILER
    with assms show ?thesis
      by (auto simp: chunk_step_def chunk_trailer_def Let_def split: prod.splits if_splits option.splits)
  qed (use assms in \<open>auto simp: chunk_step_def chunk_hex_def chunk_lf_def chunk_postlf_def chunk_trailer_cr_def
         chunk_trailer_postcr_def split: prod.splits if_splits\<close>)
qed

lemma chunk_step_goes_on:
  assumes "chunk_step data cw ch h s buf = (Inr u, ch', h', s', rest)"
  shows "state ch' \<notin> {CHUNK_DONE, CHUNK_FAILED}"
proof (cases "state ch")
  case CHUNK_TRAILER
  with assms show ?thesis
    by (auto simp: chunk_step_def chunk_trailer_def Let_def dest: trailer_line_OK split: prod.splits if_splits option.splits)
qed (use assms in \<open>auto simp: chunk_step_def chunk_hex_def chunk_lf_def chunk_data_def chunk_postlf_def chunk_trailer_cr_def
       chunk_trailer_postcr_def chunk_stop_def Let_def split: prod.splits if_splits\<close>)

text \<open>A piece of body that ends in the middle of a chunk.\<close>

definition body_write :: "easy \<Rightarrow> 's cwriter \<Rightarrow> Curl_chunker \<Rightarrow> 's \<Rightarrow> bytes \<Rightarrow> CURLcode \<times> 's" where
  "body_write data cw ch s piece =
     (if \<not> http_te_skip data \<and> \<not> ignore_body ch then cw s CLIENTWRITE_BODY piece else (CURLE_OK, s))"

lemma body_write_split:
  assumes "splittable cw" "p \<noteq> []" "q \<noteq> []"
  shows "body_write data cw ch s (p @ q) =
    (case body_write data cw ch s p of (r, s') \<Rightarrow> if r \<noteq> CURLE_OK then (r, s') else body_write data cw ch s' q)"
  using assms by (auto simp: body_write_def splittable_def split: prod.splits)

lemma chunk_data_eq:
  "chunk_data data cw ch h s buf =
     (case body_write data cw ch s (take (datasize ch) buf) of (r, s') \<Rightarrow>
        if r \<noteq> CURLE_OK then (Inl r, failed ch CHUNKE_PASSTHRU_ERROR, h, s', buf)
        else (Inr (), ch\<lparr>datasize := datasize ch - length buf, state := if datasize ch \<le> length buf then CHUNK_POSTLF else state ch\<rparr>,
              h, s', drop (datasize ch) buf))"
  by (cases "datasize ch < length buf") (auto simp: chunk_data_def body_write_def Let_def split: prod.splits)

lemma ignore_body_update [simp]:
  "body_write data cw (ch\<lparr>datasize := n\<rparr>) = body_write data cw ch"
  "failed (ch\<lparr>datasize := n\<rparr>) code = (failed ch code)\<lparr>datasize := n\<rparr>"
  by (auto simp: body_write_def failed_def fun_eq_iff)

lemma readwrite_data_append:
  assumes "splittable cw" "state ch = CHUNK_DATA" "length a < datasize ch" "a \<noteq> []" "b \<noteq> []"
    "chunk_data data cw ch h s a = (r, ch', h', s', rest)"
  shows "same_outcome (readwrite_loop data cw ch h s (a @ b))
    (case r of Inl code \<Rightarrow> (code, ch', h', s', rest) | Inr u \<Rightarrow> readwrite_loop data cw ch' h' s' b)"
proof -
  let ?n = "datasize ch - length a"
  obtain r1 s1 where w: "body_write data cw ch s a = (r1, s1)" by fastforce
  have t: "take (datasize ch) (a @ b) = a @ take ?n b" "drop (datasize ch) (a @ b) = drop ?n b" "take ?n b \<noteq> []"
    "take (datasize ch) a = a" "drop (datasize ch) a = []" using assms(3,5) by auto
  note W = body_write_split[OF assms(1,4) t(3), of data ch s, unfolded w prod.case]
  have ab: "chunk_step data cw ch h s (a @ b) = chunk_data data cw ch h s (a @ b)"
    using assms(2) by (simp add: chunk_step_def)
  show ?thesis
  proof (cases "r1 = CURLE_OK")
    case False
    then have "chunk_data data cw ch h s (a @ b) = (Inl r1, failed ch CHUNKE_PASSTHRU_ERROR, h, s1, a @ b)"
      using W by (simp add: chunk_data_eq t)
    with readwrite_loop_returns[of "a @ b" data cw ch h s] ab assms(4) have
      "readwrite_loop data cw ch h s (a @ b) = (r1, failed ch CHUNKE_PASSTHRU_ERROR, h, s1, a @ b)" by simp
    then show ?thesis using assms(6) w False by (auto simp: chunk_data_eq t same_outcome_def)
  next
    case True
    then have c: "r = Inr ()" "h' = h" "s' = s1" "ch' = ch\<lparr>datasize := ?n\<rparr>"
      using assms(2,3,6) w by (auto simp: chunk_data_eq t)
    obtain r2 s2 where w2: "body_write data cw ch s1 (take ?n b) = (r2, s2)" by fastforce
    have st: "chunk_step data cw ch' h' s' b = chunk_data data cw ch' h' s' b" using c assms(2) by (simp add: chunk_step_def)
    show ?thesis
    proof (cases "r2 = CURLE_OK")
      case False
      have "readwrite_loop data cw ch h s (a @ b) = (r2, failed ch CHUNKE_PASSTHRU_ERROR, h, s2, a @ b)"
        using W True w2 False ab assms(4) by (intro readwrite_loop_returns) (auto simp: chunk_data_eq t)
      moreover have "readwrite_loop data cw ch' h' s' b = (r2, failed ch' CHUNKE_PASSTHRU_ERROR, h, s2, b)"
        using w2 False st assms(5) c by (intro readwrite_loop_returns) (auto simp: chunk_data_eq)
      ultimately show ?thesis using c by (simp add: same_outcome_def settled_def)
    next
      case ok: True
      have "readwrite_loop data cw ch h s (a @ b) = readwrite_loop data cw
          (ch\<lparr>datasize := ?n - length b, state := if ?n \<le> length b then CHUNK_POSTLF else CHUNK_DATA\<rparr>) h s2 (drop ?n b)"
        using W True w2 ok ab assms(2,4) by (intro readwrite_loop_continues) (auto simp: chunk_data_eq t)
      moreover have "readwrite_loop data cw ch' h' s' b = readwrite_loop data cw
          (ch'\<lparr>datasize := ?n - length b, state := if ?n \<le> length b then CHUNK_POSTLF else CHUNK_DATA\<rparr>) h s2 (drop ?n b)"
        using w2 ok st assms(2,5) c by (intro readwrite_loop_continues) (auto simp: chunk_data_eq)
      ultimately show ?thesis using c by simp
    qed
  qed
qed

lemma readwrite_stop:
  assumes "state ch = CHUNK_STOP" "a \<noteq> []" "readwrite_loop data cw ch h s a = (r, ch', h', s', rest)"
  shows "same_outcome (readwrite_loop data cw ch h s (a @ b)) (r, ch', h', s', rest) \<and> state ch' \<in> {CHUNK_DONE, CHUNK_FAILED} \<and>
    (r = CURLE_OK \<longrightarrow> state ch' = CHUNK_DONE)"
  using assms
  by (cases "hd a = LF")
     (auto simp: readwrite_loop.simps[of data cw ch] chunk_step_def chunk_stop_def same_outcome_def settled_def)

lemma trailer_line_fails:
  "trailer_line data cw ch h s = (r, ch', h', s') \<Longrightarrow> r \<noteq> CURLE_OK \<Longrightarrow> state ch' = CHUNK_FAILED"
  by (auto simp: trailer_line_def Let_def split: prod.splits if_splits)

lemma chunk_step_returns:
  assumes "state ch \<notin> {CHUNK_DONE, CHUNK_FAILED}" "chunk_step data cw ch h s buf = (Inl code, ch', h', s', rest)"
  shows "state ch' = (if code = CURLE_OK then CHUNK_DONE else CHUNK_FAILED)"
proof (cases "state ch")
  case CHUNK_TRAILER
  with assms show ?thesis
    by (auto simp: chunk_step_def chunk_trailer_def Let_def dest: trailer_line_fails split: prod.splits if_splits option.splits)
qed (use assms in \<open>auto simp: chunk_step_def chunk_hex_def chunk_lf_def chunk_data_def chunk_postlf_def chunk_trailer_cr_def
       chunk_trailer_postcr_def chunk_stop_def Let_def split: prod.splits if_splits\<close>)

lemma readwrite_loop_append:
  assumes "splittable cw" "state ch \<notin> {CHUNK_DONE, CHUNK_FAILED}" "readwrite_loop data cw ch h s a = (r, ch', h', s', rest)"
    "b \<noteq> []"
  shows "same_outcome (readwrite_loop data cw ch h s (a @ b))
    (if state ch' \<notin> {CHUNK_DONE, CHUNK_FAILED} then readwrite_loop data cw ch' h' s' b else (r, ch', h', s', rest))"
  using assms(2,3)
proof (induction ch h s a rule: readwrite_loop_induct[where data = data and cw = cw])
  case (loop ch h s a)
  show ?case
  proof (cases "a = []")
    case True
    with loop.prems show ?thesis by auto
  next
    case False
    obtain r1 ch1 h1 s1 rest1 where st: "chunk_step data cw ch h s a = (r1, ch1, h1, s1, rest1)"
      by (metis prod_cases5)
    consider (stop) "state ch = CHUNK_STOP" | (data) "state ch = CHUNK_DATA" "length a < datasize ch"
      | (other) "state ch = CHUNK_DATA \<longrightarrow> datasize ch \<le> length a" "state ch \<noteq> CHUNK_STOP" by linarith
    then show ?thesis
    proof cases
      case stop
      from readwrite_stop[OF stop False loop.prems(2), of b] show ?thesis by auto
    next
      case data
      with st have d: "chunk_data data cw ch h s a = (r1, ch1, h1, s1, rest1)" by (simp add: chunk_step_def)
      note D = readwrite_data_append[OF assms(1) data False assms(4) d]
      show ?thesis
      proof (cases r1)
        case (Inl code)
        note R = readwrite_loop_returns[OF False st[unfolded Inl]]
        have "state ch1 \<in> {CHUNK_DONE, CHUNK_FAILED}"
          using chunk_step_returns[OF loop.prems(1) st[unfolded Inl]] by simp
        with R loop.prems(2) D Inl show ?thesis by simp
      next
        case (Inr u)
        have "rest1 = []" using d data Inr by (auto simp: chunk_data_eq split: prod.splits if_splits)
        with readwrite_loop_continues[OF False st[unfolded Inr]] loop.prems(2)
        have "ch' = ch1" "h' = h1" "s' = s1" by simp_all
        with D Inr chunk_step_goes_on[OF st[unfolded Inr]] show ?thesis by simp
      qed
    next
      case other
      note A = chunk_step_append[OF False other st, of b]
      show ?thesis
      proof (cases r1)
        case (Inl code)
        have "state ch1 \<in> {CHUNK_DONE, CHUNK_FAILED}"
          using chunk_step_returns[OF loop.prems(1) st[unfolded Inl]] by simp
        with readwrite_loop_returns[OF False st[unfolded Inl]] loop.prems(2)
          readwrite_loop_returns[OF _ A[unfolded Inl]] False
        show ?thesis by (simp add: same_outcome_def)
      next
        case (Inr u)
        have "readwrite_loop data cw ch1 h1 s1 rest1 = (r, ch', h', s', rest)"
          using loop.prems(2) readwrite_loop_continues[OF False st[unfolded Inr]] by simp
        from loop.IH[OF False st[unfolded Inr] chunk_step_goes_on[OF st[unfolded Inr]] this]
          readwrite_loop_continues[OF _ A[unfolded Inr]] False
        show ?thesis by simp
      qed
    qed
  qed
qed

text \<open>Feeding a stream in pieces, as the network delivers it, until a call fails.\<close>

fun feed :: "easy \<Rightarrow> 's cwriter \<Rightarrow> Curl_chunker \<Rightarrow> heap \<Rightarrow> 's \<Rightarrow> bytes list \<Rightarrow> CURLcode \<times> Curl_chunker \<times> heap \<times> 's" where
  "feed data cw ch h s [] = (CURLE_OK, ch, h, s)"
| "feed data cw ch h s (p # ps) =
     (case httpchunk_readwrite data cw ch h s p of (r, n, ch, h, s) \<Rightarrow>
        if r \<noteq> CURLE_OK then (r, ch, h, s) else feed data cw ch h s ps)"

lemma readwrite_eq_loop:
  assumes "\<not> http_te_skip data" "state ch \<notin> {CHUNK_DONE, CHUNK_FAILED}"
  shows "httpchunk_readwrite data cw ch h s buf =
    (case readwrite_loop data cw ch h s buf of (r, ch, h, s, rest) \<Rightarrow> (r, length buf - length rest, ch, h, s))"
  using assms by (simp add: httpchunk_readwrite_def)

lemma readwrite_loop_result:
  assumes "state ch \<notin> {CHUNK_DONE, CHUNK_FAILED}" "readwrite_loop data cw ch h s buf = (r, ch', h', s', rest)"
  shows "r \<noteq> CURLE_OK \<longleftrightarrow> state ch' = CHUNK_FAILED"
  using assms
proof (induction ch h s buf rule: readwrite_loop_induct[where data = data and cw = cw])
  case (loop ch h s buf)
  show ?case
  proof (cases "buf = []")
    case False
    obtain r1 ch1 h1 s1 rest1 where st: "chunk_step data cw ch h s buf = (r1, ch1, h1, s1, rest1)"
      by (metis prod_cases5)
    show ?thesis
    proof (cases r1)
      case (Inl code)
      with readwrite_loop_returns[OF False st[unfolded Inl]] loop.prems(2)
        chunk_step_returns[OF loop.prems(1) st[unfolded Inl]] show ?thesis by auto
    next
      case (Inr u)
      with readwrite_loop_continues[OF False st[unfolded Inr]] loop.prems(2)
        loop.IH[OF False st[unfolded Inr] chunk_step_goes_on[OF st[unfolded Inr]]] show ?thesis by simp
    qed
  qed (use loop.prems in auto)
qed

lemma readwrite_loop_cut:
  assumes "splittable cw" "state ch \<notin> {CHUNK_DONE, CHUNK_FAILED}" "readwrite_loop data cw ch h s a = (r, ch', h', s', rest)"
  shows "same_outcome (readwrite_loop data cw ch h s (a @ b))
    (if state ch' \<notin> {CHUNK_DONE, CHUNK_FAILED} then readwrite_loop data cw ch' h' s' b else (r, ch', h', s', rest))"
proof (cases "b = []")
  case True
  with assms(3) readwrite_loop_result[OF assms(2,3)] show ?thesis by (auto simp: same_outcome_def)
qed (use readwrite_loop_append[OF assms] in simp)

lemma feed_done: "state ch = CHUNK_DONE \<Longrightarrow> feed data cw ch h s ps = (CURLE_OK, ch, h, s)"
  by (induction ps) (auto simp: httpchunk_readwrite_def)

lemma feed_loop:
  assumes "splittable cw" "\<not> http_te_skip data" "state ch \<notin> {CHUNK_DONE, CHUNK_FAILED}"
    "feed data cw ch h s ps = (r, ch', h', s')"
  shows "same_outcome (readwrite_loop data cw ch h s (concat ps)) (r, ch', h', s', [])"
  using assms(3,4)
proof (induction ps arbitrary: ch h s)
  case (Cons p ps)
  obtain r1 ch1 h1 s1 rest1 where l: "readwrite_loop data cw ch h s p = (r1, ch1, h1, s1, rest1)" by (metis prod_cases5)
  note R = readwrite_loop_result[OF Cons.prems(1) l]
  have f: "(if r1 \<noteq> CURLE_OK then (r1, ch1, h1, s1) else feed data cw ch1 h1 s1 ps) = (r, ch', h', s')"
    using Cons.prems l by (simp add: readwrite_eq_loop[OF assms(2)])
  note A = readwrite_loop_cut[OF assms(1) Cons.prems(1) l, of "concat ps"]
  show ?case
  proof (cases "r1 = CURLE_OK \<and> state ch1 \<noteq> CHUNK_DONE")
    case go: True
    with R f Cons.IH[of ch1 h1 s1] A show ?thesis by (auto simp: same_outcome_def)
  next
    case False
    with R f A feed_done[of ch1 data cw h1 s1 ps] show ?thesis by (auto simp: same_outcome_def split: if_splits)
  qed
qed (auto simp: same_outcome_def)

section \<open>Well-formed streams\<close>

text \<open>
  A chunk on the wire is its size in hexadecimal digits, an extension, which the decoder skips, the
  body and its line end. The stream ends with a chunk of size zero, the trailer lines and an empty line.
\<close>

record wire_chunk =
  digits :: bytes
  extension :: bytes
  payload :: bytes

definition wire :: "wire_chunk \<Rightarrow> bytes" where
  "wire c = digits c @ extension c @ CRLF @ payload c @ CRLF"

definition size_line_ok :: "bytes \<Rightarrow> bytes \<Rightarrow> nat \<Rightarrow> bool" where
  "size_line_ok ds ext n \<longleftrightarrow> ds \<noteq> [] \<and> list_all ISXDIGIT ds \<and> length ds \<le> CHUNK_MAXNUM_LEN \<and>
     base_value 16 ds = int n \<and> int n \<le> CURL_OFF_T_MAX \<and> LF \<notin> set ext \<and> (ext = [] \<or> \<not> ISXDIGIT (hd ext))"

definition wire_ok :: "wire_chunk \<Rightarrow> bool" where
  "wire_ok c \<longleftrightarrow> payload c \<noteq> [] \<and> size_line_ok (digits c) (extension c) (length (payload c))"

definition trailer_ok :: "bytes \<Rightarrow> bool" where
  "trailer_ok t \<longleftrightarrow> CHR '':'' \<in> set t \<and> set t \<inter> {NUL, CR, LF} = {} \<and> length t + 2 < DYN_H1_TRAILER"

definition wire_stream :: "wire_chunk list \<Rightarrow> bytes \<Rightarrow> bytes \<Rightarrow> bytes list \<Rightarrow> bytes" where
  "wire_stream chunks zero ext trailers =
     concat (map wire chunks) @ zero @ ext @ CRLF @ concat (map (\<lambda>t. t @ CRLF) trailers) @ CRLF"

text \<open>A client that takes everything: what it has received of the body, and the trailer lines.\<close>

definition delivers :: "'s cwriter \<Rightarrow> ('s \<Rightarrow> bytes) \<Rightarrow> ('s \<Rightarrow> bytes list) \<Rightarrow> bool" where
  "delivers cw body lines \<longleftrightarrow> (\<forall>s bs.
     (\<exists>s'. cw s CLIENTWRITE_BODY bs = (CURLE_OK, s') \<and> body s' = body s @ bs \<and> lines s' = lines s) \<and>
     (\<exists>s'. cw s (CLIENTWRITE_HEADER + CLIENTWRITE_TRAILER) bs = (CURLE_OK, s') \<and> body s' = body s \<and> lines s' = lines s @ [bs]))"

definition fresh :: "Curl_chunker \<Rightarrow> bool" where
  "fresh ch \<longleftrightarrow> state ch = CHUNK_HEX \<and> hexbuffer ch = [] \<and> \<not> ignore_body ch \<and>
     dyn_ok (trailer ch) \<and> bufr (trailer ch) = None \<and> toobig (trailer ch) = DYN_H1_TRAILER"

lemma loop_Cons:
  "chunk_step data cw ch h s (c # buf) = (Inr u, ch', h', s', rest) \<Longrightarrow>
   readwrite_loop data cw ch h s (c # buf) = readwrite_loop data cw ch' h' s' rest"
  by (rule readwrite_loop_continues) simp_all

lemma loop_hex_digits:
  "state ch = CHUNK_HEX \<Longrightarrow> list_all ISXDIGIT ds \<Longrightarrow> length (hexbuffer ch) + length ds \<le> CHUNK_MAXNUM_LEN \<Longrightarrow>
   readwrite_loop data cw ch h s (ds @ rest) = readwrite_loop data cw (ch\<lparr>hexbuffer := hexbuffer ch @ ds\<rparr>) h s rest"
proof (induction ds arbitrary: ch)
  case (Cons d ds)
  then have "readwrite_loop data cw ch h s (d # ds @ rest) =
      readwrite_loop data cw (ch\<lparr>hexbuffer := hexbuffer ch @ [d]\<rparr>) h s (ds @ rest)"
    by (intro loop_Cons) (simp add: chunk_step_def chunk_hex_def)
  with Cons show ?case by simp
qed simp

lemma loop_skip_extension:
  "state ch = CHUNK_LF \<Longrightarrow> LF \<notin> set ext \<Longrightarrow>
   readwrite_loop data cw ch h s (ext @ LF # rest) =
     readwrite_loop data cw (ch\<lparr>state := (if datasize ch = 0 then CHUNK_TRAILER else CHUNK_DATA)\<rparr>) h s rest"
proof (induction ext)
  case Nil
  then show ?case by (auto intro!: loop_Cons simp: chunk_step_def chunk_lf_def)
next
  case (Cons c ext)
  then have "readwrite_loop data cw ch h s (c # ext @ LF # rest) = readwrite_loop data cw ch h s (ext @ LF # rest)"
    by (intro loop_Cons) (auto simp: chunk_step_def chunk_lf_def)
  with Cons show ?case by simp
qed

lemma str_hex_digits:
  assumes "size_line_ok ds ext n"
  shows "curlx_str_hex ds CURL_OFF_T_MAX = (STRE_OK, int n, [])"
  using assms str_num_base_all[of 16 ds CURL_OFF_T_MAX]
  by (simp add: curlx_str_hex_def size_line_ok_def list_all_iff digit_of_base_iff CURL_OFF_T_MAX_def)

lemma CR_no_digit [simp]: "\<not> ISXDIGIT CR"
  by code_simp

lemma loop_size_line:
  assumes "state ch = CHUNK_HEX" "hexbuffer ch = []" "size_line_ok ds ext n"
  shows "readwrite_loop data cw ch h s (ds @ ext @ CRLF @ rest) =
    readwrite_loop data cw (ch\<lparr>hexbuffer := ds, datasize := n, state := (if n = 0 then CHUNK_TRAILER else CHUNK_DATA)\<rparr>) h s rest"
proof -
  let ?c = "ch\<lparr>hexbuffer := ds\<rparr>" and ?d = "ch\<lparr>hexbuffer := ds, datasize := n, state := CHUNK_LF\<rparr>"
  obtain c l where cl: "ext @ CRLF @ rest = c # l" "\<not> ISXDIGIT c"
    using assms(3) by (cases ext) (auto simp: size_line_ok_def)
  have "readwrite_loop data cw ch h s (ds @ ext @ CRLF @ rest) = readwrite_loop data cw ?c h s (ext @ CRLF @ rest)"
    using assms by (subst loop_hex_digits) (auto simp: size_line_ok_def)
  also have "\<dots> = readwrite_loop data cw ?d h s (ext @ CRLF @ rest)"
    using assms str_hex_digits[OF assms(3)] cl(2) unfolding cl(1)
    by (intro loop_Cons) (auto simp: chunk_step_def chunk_hex_def size_line_ok_def)
  also have "\<dots> = readwrite_loop data cw ?d h s ((ext @ [CR]) @ LF # rest)" by simp
  also have "\<dots> = readwrite_loop data cw (?d\<lparr>state := (if n = 0 then CHUNK_TRAILER else CHUNK_DATA)\<rparr>) h s rest"
    using assms(3) by (subst loop_skip_extension) (auto simp: size_line_ok_def)
  finally show ?thesis by simp
qed

lemma loop_body:
  assumes "state ch = CHUNK_DATA" "datasize ch = length bs" "bs \<noteq> []" "\<not> http_te_skip data" "\<not> ignore_body ch"
    "delivers cw body lines"
  shows "\<exists>s'. readwrite_loop data cw ch h s (bs @ rest) =
      readwrite_loop data cw (ch\<lparr>datasize := 0, state := CHUNK_POSTLF\<rparr>) h s' rest \<and>
    body s' = body s @ bs \<and> lines s' = lines s"
proof -
  obtain s' where s': "cw s CLIENTWRITE_BODY bs = (CURLE_OK, s')" "body s' = body s @ bs" "lines s' = lines s"
    using assms(6) by (auto simp: delivers_def)
  then have "chunk_step data cw ch h s (bs @ rest) = (Inr (), ch\<lparr>datasize := 0, state := CHUNK_POSTLF\<rparr>, h, s', rest)"
    using assms by (simp add: chunk_step_def chunk_data_eq body_write_def)
  then show ?thesis using readwrite_loop_continues[of "bs @ rest" data cw ch h s] assms(3) s' by auto
qed

lemma loop_chunk_end:
  assumes "state ch = CHUNK_POSTLF"
  shows "readwrite_loop data cw ch h s (CRLF @ rest) = readwrite_loop data cw (Curl_httpchunk_reset ch (ignore_body ch)) h s rest"
proof -
  have "readwrite_loop data cw ch h s (CR # LF # rest) = readwrite_loop data cw ch h s (LF # rest)"
    using assms by (intro loop_Cons) (simp add: chunk_step_def chunk_postlf_def)
  also have "\<dots> = readwrite_loop data cw (Curl_httpchunk_reset ch (ignore_body ch)) h s rest"
    using assms by (intro loop_Cons) (simp add: chunk_step_def chunk_postlf_def)
  finally show ?thesis by simp
qed

lemma fresh_reset:
  "fresh ch \<Longrightarrow> trailer ch' = trailer ch \<Longrightarrow> ignore_body ch' = ignore_body ch \<Longrightarrow> fresh (Curl_httpchunk_reset ch' (ignore_body ch'))"
  by (auto simp: fresh_def Curl_httpchunk_reset_def curlx_dyn_reset_def dyn_ok_def)

lemma loop_chunk:
  assumes "fresh ch" "wire_ok c" "\<not> http_te_skip data" "delivers cw body lines"
  shows "\<exists>ch' s'. readwrite_loop data cw ch h s (wire c @ rest) = readwrite_loop data cw ch' h s' rest \<and> fresh ch' \<and>
    body s' = body s @ payload c \<and> lines s' = lines s"
proof -
  let ?n = "length (payload c)"
  let ?d = "ch\<lparr>hexbuffer := digits c, datasize := ?n, state := CHUNK_DATA\<rparr>"
  obtain s' where s': "readwrite_loop data cw ?d h s (payload c @ CRLF @ rest) =
      readwrite_loop data cw (?d\<lparr>datasize := 0, state := CHUNK_POSTLF\<rparr>) h s' (CRLF @ rest)"
    "body s' = body s @ payload c" "lines s' = lines s"
    using loop_body[of ?d "payload c" data cw body lines h s "CRLF @ rest"] assms by (auto simp: wire_ok_def fresh_def)
  have "readwrite_loop data cw ch h s (wire c @ rest) = readwrite_loop data cw ?d h s (payload c @ CRLF @ rest)"
    using loop_size_line[of ch "digits c" "extension c" ?n data cw h s "payload c @ CRLF @ rest"] assms(1,2)
    by (simp add: wire_def wire_ok_def fresh_def)
  with s' loop_chunk_end[of "?d\<lparr>datasize := 0, state := CHUNK_POSTLF\<rparr>" data cw h s' rest]
    fresh_reset[OF assms(1), of "?d\<lparr>datasize := 0, state := CHUNK_POSTLF\<rparr>"]
  show ?thesis by auto
qed

lemma loop_chunks:
  assumes "fresh ch" "list_all wire_ok cs" "\<not> http_te_skip data" "delivers cw body lines"
  shows "\<exists>ch' s'. readwrite_loop data cw ch h s (concat (map wire cs) @ rest) = readwrite_loop data cw ch' h s' rest \<and>
    fresh ch' \<and> body s' = body s @ concat (map payload cs) \<and> lines s' = lines s"
  using assms(1,2)
proof (induction cs arbitrary: ch s)
  case (Cons c cs)
  from loop_chunk[OF Cons.prems(1) _ assms(3,4), of c h s "concat (map wire cs) @ rest"] Cons.prems(2)
  obtain ch1 s1 where 1: "readwrite_loop data cw ch h s (wire c @ concat (map wire cs) @ rest) =
      readwrite_loop data cw ch1 h s1 (concat (map wire cs) @ rest)" "fresh ch1"
    "body s1 = body s @ payload c" "lines s1 = lines s" by auto
  from Cons.IH[OF 1(2)] Cons.prems(2) obtain ch2 s2 where
    "readwrite_loop data cw ch1 h s1 (concat (map wire cs) @ rest) = readwrite_loop data cw ch2 h s2 rest"
    "fresh ch2" "body s2 = body s1 @ concat (map payload cs)" "lines s2 = lines s1" by fastforce
  with 1 show ?case by auto
qed auto

lemma addn_fits:
  assumes "dyn_ok s" "length (dyn_str s @ mem) < toobig s"
  shows "\<exists>s'. curlx_dyn_addn s (\<lambda>_. True) mem = (CURLE_OK, s', \<lambda>_. True) \<and> dyn_ok s' \<and> dyn_str s' = dyn_str s @ mem \<and>
    toobig s' = toobig s"
proof -
  obtain r s' h' where a: "curlx_dyn_addn s (\<lambda>_. True) mem = (r, s', h')" by (cases "curlx_dyn_addn s (\<lambda>_. True) mem")
  have r: "r = CURLE_OK" using dyn.addn_fail[OF assms(1) a] assms(2) by auto
  moreover have "h' = (\<lambda>_. True)" using dyn.addn_heap[OF a] by auto
  ultimately show ?thesis using a dyn.addn_OK[OF assms(1) a[unfolded r]] by simp
qed

definition in_trailer :: "dynbuf \<Rightarrow> bool" where
  "in_trailer tr \<longleftrightarrow> dyn_ok tr \<and> toobig tr = DYN_H1_TRAILER"

lemma loop_trailer_text:
  assumes "state ch = CHUNK_TRAILER" "in_trailer (trailer ch)" "set t \<inter> {CR, LF} = {}"
    "length (dyn_str (trailer ch) @ t) < DYN_H1_TRAILER"
  shows "\<exists>tr. readwrite_loop data cw ch (\<lambda>_. True) s (t @ rest) = readwrite_loop data cw (ch\<lparr>trailer := tr\<rparr>) (\<lambda>_. True) s rest \<and>
    in_trailer tr \<and> dyn_str tr = dyn_str (trailer ch) @ t"
  using assms
proof (induction t arbitrary: ch)
  case Nil
  then show ?case by (intro exI[of _ "trailer ch"]) simp
next
  case (Cons c t)
  obtain tr where tr: "curlx_dyn_addn (trailer ch) (\<lambda>_. True) [c] = (CURLE_OK, tr, \<lambda>_. True)" "in_trailer tr"
    "dyn_str tr = dyn_str (trailer ch) @ [c]"
    using addn_fits[of "trailer ch" "[c]"] Cons.prems by (auto simp: in_trailer_def)
  then have "readwrite_loop data cw ch (\<lambda>_. True) s (c # t @ rest) =
      readwrite_loop data cw (ch\<lparr>trailer := tr\<rparr>) (\<lambda>_. True) s (t @ rest)"
    using Cons.prems by (intro loop_Cons) (auto simp: chunk_step_def chunk_trailer_def)
  moreover from Cons.IH[of "ch\<lparr>trailer := tr\<rparr>"] Cons.prems tr obtain tr' where
    "readwrite_loop data cw (ch\<lparr>trailer := tr\<rparr>) (\<lambda>_. True) s (t @ rest) = readwrite_loop data cw (ch\<lparr>trailer := tr'\<rparr>) (\<lambda>_. True) s rest"
    "in_trailer tr'" "dyn_str tr' = dyn_str tr @ t" by auto
  ultimately show ?case using tr by auto
qed

lemma verify_trailer: "trailer_ok t \<Longrightarrow> Curl_verify_header data (t @ CRLF) = CURLE_OK"
  by (auto simp: Curl_verify_header_def trailer_ok_def)

text \<open>One trailer line, and the lines up to the end of the stream.\<close>

lemma loop_trailer_line:
  assumes "state ch = CHUNK_TRAILER" "in_trailer (trailer ch)" "dyn_str (trailer ch) = []" "trailer_ok t"
    "\<not> http_te_skip data" "delivers cw body lines"
  shows "\<exists>tr s'. readwrite_loop data cw ch (\<lambda>_. True) s (t @ CRLF @ rest) =
      readwrite_loop data cw (ch\<lparr>trailer := tr, state := CHUNK_TRAILER_POSTCR\<rparr>) (\<lambda>_. True) s' rest \<and>
    in_trailer tr \<and> dyn_str tr = [] \<and> body s' = body s \<and> lines s' = lines s @ [t @ CRLF]"
proof -
  have t: "set t \<inter> {CR, LF} = {}" "t \<noteq> []" "length t + 2 < DYN_H1_TRAILER" using assms(4) by (auto simp: trailer_ok_def)
  obtain tr1 where 1: "readwrite_loop data cw ch (\<lambda>_. True) s (t @ CRLF @ rest) =
      readwrite_loop data cw (ch\<lparr>trailer := tr1\<rparr>) (\<lambda>_. True) s (CRLF @ rest)" "in_trailer tr1" "dyn_str tr1 = t"
    using loop_trailer_text[OF assms(1,2) t(1), of data cw s "CRLF @ rest"] t assms(3) by auto
  obtain tr2 where 2: "curlx_dyn_addn tr1 (\<lambda>_. True) CRLF = (CURLE_OK, tr2, \<lambda>_. True)" "in_trailer tr2" "dyn_str tr2 = t @ CRLF"
    using addn_fits[of tr1 CRLF] 1 t(3) by (auto simp: in_trailer_def)
  obtain s' where s': "cw s (CLIENTWRITE_HEADER + CLIENTWRITE_TRAILER) (t @ CRLF) = (CURLE_OK, s')" "body s' = body s"
    "lines s' = lines s @ [t @ CRLF]" using assms(6) unfolding delivers_def by blast
  have "bufr tr1 \<noteq> None" using 1(3) t(2) by (cases "bufr tr1") (auto simp: dyn_block_def dyn_str_def)
  then have "readwrite_loop data cw (ch\<lparr>trailer := tr1\<rparr>) (\<lambda>_. True) s (CR # LF # rest) =
      readwrite_loop data cw (ch\<lparr>trailer := curlx_dyn_reset tr2, state := CHUNK_TRAILER_CR\<rparr>) (\<lambda>_. True) s' (LF # rest)"
    using assms(1,5) 2 s'(1) verify_trailer[OF assms(4)]
    by (intro loop_Cons) (auto simp: chunk_step_def chunk_trailer_def trailer_line_def curlx_dyn_ptr_def Let_def)
  also have "\<dots> = readwrite_loop data cw (ch\<lparr>trailer := curlx_dyn_reset tr2, state := CHUNK_TRAILER_POSTCR\<rparr>) (\<lambda>_. True) s' rest"
    by (intro loop_Cons) (simp add: chunk_step_def chunk_trailer_cr_def)
  finally show ?thesis using 1 s' dyn_reset_ok[of tr2] 2(2) by (auto simp: in_trailer_def)
qed

lemma loop_end:
  assumes "state ch = CHUNK_TRAILER_POSTCR \<or> state ch = CHUNK_TRAILER \<and> bufr (trailer ch) = None"
  shows "readwrite_loop data cw ch h s (CRLF @ rest) = (CURLE_OK, ch\<lparr>datasize := length rest, state := CHUNK_DONE\<rparr>, h, s, rest)"
proof -
  have post: "readwrite_loop data cw (ch\<lparr>state := CHUNK_TRAILER_POSTCR\<rparr>) h s (CR # LF # rest) =
    (CURLE_OK, ch\<lparr>datasize := length rest, state := CHUNK_DONE\<rparr>, h, s, rest)"
    using loop_Cons[of data cw "ch\<lparr>state := CHUNK_TRAILER_POSTCR\<rparr>" h s CR "LF # rest" "()" "ch\<lparr>state := CHUNK_STOP\<rparr>" h s "LF # rest"]
      readwrite_loop_returns[of "LF # rest" data cw "ch\<lparr>state := CHUNK_STOP\<rparr>" h s CURLE_OK "ch\<lparr>datasize := length rest, state := CHUNK_DONE\<rparr>" h s rest]
    by (auto simp: chunk_step_def chunk_trailer_postcr_def chunk_stop_def)
  show ?thesis
  proof (cases "state ch = CHUNK_TRAILER_POSTCR")
    case True
    then have "ch\<lparr>state := CHUNK_TRAILER_POSTCR\<rparr> = ch" by simp
    with post show ?thesis by simp
  next
    case False
    with assms have "readwrite_loop data cw ch h s (CR # LF # rest) =
      readwrite_loop data cw (ch\<lparr>state := CHUNK_TRAILER_POSTCR\<rparr>) h s (CR # LF # rest)"
      by (intro loop_Cons) (auto simp: chunk_step_def chunk_trailer_def curlx_dyn_ptr_def)
    with post show ?thesis by simp
  qed
qed

lemma loop_more_trailers:
  assumes "state ch = CHUNK_TRAILER_POSTCR" "c \<noteq> CR" "c \<noteq> LF"
  shows "readwrite_loop data cw ch h s (c # rest) = readwrite_loop data cw (ch\<lparr>state := CHUNK_TRAILER\<rparr>) h s (c # rest)"
  using assms by (intro loop_Cons) (simp add: chunk_step_def chunk_trailer_postcr_def)

lemma loop_trailers:
  assumes "state ch = CHUNK_TRAILER_POSTCR \<or> state ch = CHUNK_TRAILER \<and> bufr (trailer ch) = None" "in_trailer (trailer ch)"
    "dyn_str (trailer ch) = []" "list_all trailer_ok ts" "\<not> http_te_skip data" "delivers cw body lines"
  shows "\<exists>ch' s'. readwrite_loop data cw ch (\<lambda>_. True) s (concat (map (\<lambda>t. t @ CRLF) ts) @ CRLF @ rest) = (CURLE_OK, ch', \<lambda>_. True, s', rest) \<and>
    state ch' = CHUNK_DONE \<and> datasize ch' = length rest \<and> body s' = body s \<and> lines s' = lines s @ map (\<lambda>t. t @ CRLF) ts"
  using assms(1-4)
proof (induction ts arbitrary: ch s)
  case Nil
  from loop_end[OF Nil(1), of data cw "\<lambda>_. True" s rest] show ?case by auto
next
  case (Cons t ts)
  let ?ch = "ch\<lparr>state := CHUNK_TRAILER\<rparr>" and ?rest = "concat (map (\<lambda>t. t @ CRLF) ts) @ CRLF @ rest"
  have t: "trailer_ok t" "list_all trailer_ok ts" using Cons.prems(4) by auto
  then obtain c l where cl: "t = c # l" "c \<noteq> CR" "c \<noteq> LF" by (cases t) (auto simp: trailer_ok_def)
  have "readwrite_loop data cw ch (\<lambda>_. True) s (t @ CRLF @ ?rest) = readwrite_loop data cw ?ch (\<lambda>_. True) s (t @ CRLF @ ?rest)"
  proof (cases "state ch = CHUNK_TRAILER_POSTCR")
    case True
    with loop_more_trailers[OF True cl(2,3)] cl(1) show ?thesis by simp
  next
    case False
    with Cons.prems(1) have "?ch = ch" by simp
    then show ?thesis by simp
  qed
  moreover from loop_trailer_line[of ?ch t data cw body lines s ?rest] Cons.prems(2,3) t(1) assms(5,6)
  obtain tr s1 where 1: "readwrite_loop data cw ?ch (\<lambda>_. True) s (t @ CRLF @ ?rest) =
      readwrite_loop data cw (ch\<lparr>trailer := tr, state := CHUNK_TRAILER_POSTCR\<rparr>) (\<lambda>_. True) s1 ?rest"
    "in_trailer tr" "dyn_str tr = []" "body s1 = body s" "lines s1 = lines s @ [t @ CRLF]" by auto
  moreover note Cons.IH[of "ch\<lparr>trailer := tr, state := CHUNK_TRAILER_POSTCR\<rparr>" s1]
  ultimately show ?case using t(2) by auto
qed

lemma stream_decodes:
  assumes "fresh ch" "list_all wire_ok cs" "size_line_ok zero ext 0" "list_all trailer_ok ts" "\<not> http_te_skip data"
    "delivers cw body lines"
  shows "\<exists>ch' s'. readwrite_loop data cw ch (\<lambda>_. True) s (wire_stream cs zero ext ts @ rest) = (CURLE_OK, ch', \<lambda>_. True, s', rest) \<and>
    state ch' = CHUNK_DONE \<and> datasize ch' = length rest \<and>
    body s' = body s @ concat (map payload cs) \<and> lines s' = lines s @ map (\<lambda>t. t @ CRLF) ts"
proof -
  let ?tail = "concat (map (\<lambda>t. t @ CRLF) ts) @ CRLF @ rest"
  obtain ch1 s1 where 1: "readwrite_loop data cw ch (\<lambda>_. True) s (concat (map wire cs) @ zero @ ext @ CRLF @ ?tail) =
      readwrite_loop data cw ch1 (\<lambda>_. True) s1 (zero @ ext @ CRLF @ ?tail)" "fresh ch1"
    "body s1 = body s @ concat (map payload cs)" "lines s1 = lines s"
    using loop_chunks[OF assms(1,2,5,6), of "\<lambda>_. True" s "zero @ ext @ CRLF @ ?tail"] by blast
  let ?ch2 = "ch1\<lparr>hexbuffer := zero, datasize := 0, state := CHUNK_TRAILER\<rparr>"
  have "readwrite_loop data cw ch1 (\<lambda>_. True) s1 (zero @ ext @ CRLF @ ?tail) = readwrite_loop data cw ?ch2 (\<lambda>_. True) s1 ?tail"
    using loop_size_line[OF _ _ assms(3), of ch1 data cw "\<lambda>_. True" s1 ?tail] 1(2) by (simp add: fresh_def)
  moreover have "in_trailer (trailer ?ch2)" "dyn_str (trailer ?ch2) = []" "bufr (trailer ?ch2) = None"
    using 1(2) by (auto simp: fresh_def in_trailer_def dyn_str_def dyn_block_def)
  moreover note loop_trailers[OF _ _ _ assms(4,5,6), of ?ch2 s1 rest]
  ultimately show ?thesis using 1 by (auto simp: wire_stream_def)
qed

section \<open>Truncation\<close>

lemma readwrite_done_append:
  assumes "readwrite_loop data cw ch h s a = (CURLE_OK, ch', h', s', rest)" "state ch \<notin> {CHUNK_DONE, CHUNK_FAILED}"
    "state ch' = CHUNK_DONE"
  shows "\<exists>ch''. readwrite_loop data cw ch h s (a @ b) = (CURLE_OK, ch'', h', s', rest @ b)"
  using assms(1,2)
proof (induction ch h s a rule: readwrite_loop_induct[where data = data and cw = cw])
  case (loop ch h s a)
  have ne: "a \<noteq> []" using loop.prems assms(3) by (cases a) auto
  obtain r1 ch1 h1 s1 rest1 where st: "chunk_step data cw ch h s a = (r1, ch1, h1, s1, rest1)"
    by (metis prod_cases5)
  show ?case
  proof (cases "state ch = CHUNK_STOP")
    case True
    with loop.prems ne assms(3) show ?thesis
      by (cases "hd a = LF") (auto simp: readwrite_loop.simps[of data cw ch] chunk_step_def chunk_stop_def)
  next
    case False
    show ?thesis
    proof (cases r1)
      case (Inl code)
      with readwrite_loop_returns[OF ne st[unfolded Inl]] loop.prems st assms(3) False have False
        by (cases "state ch") (auto simp: chunk_step_def chunk_hex_def chunk_lf_def chunk_data_def chunk_postlf_def
            chunk_trailer_def chunk_trailer_cr_def chunk_trailer_postcr_def Let_def split: prod.splits if_splits option.splits)
      then show ?thesis ..
    next
      case (Inr u)
      note L = readwrite_loop_continues[OF ne st[unfolded Inr]]
      have d: "state ch = CHUNK_DATA \<longrightarrow> datasize ch \<le> length a"
      proof (rule impI, rule ccontr)
        assume "state ch = CHUNK_DATA" "\<not> datasize ch \<le> length a"
        with st Inr have "rest1 = []" "state ch1 = CHUNK_DATA"
          by (auto simp: chunk_step_def chunk_data_eq split: prod.splits if_splits)
        with L loop.prems(1) assms(3) show False by auto
      qed
      from readwrite_loop_continues[OF _ chunk_step_append[OF ne d False st, of b, unfolded Inr]] ne
        loop.IH[OF ne st[unfolded Inr] _ chunk_step_goes_on[OF st[unfolded Inr]]] loop.prems(1) L
      show ?thesis by auto
    qed
  qed
qed

text \<open>A proper prefix of a well-formed stream is taken without an error, and never for the whole.\<close>

lemma prefix_goes_on:
  assumes "fresh ch" "list_all wire_ok cs" "size_line_ok zero ext 0" "list_all trailer_ok ts" "\<not> http_te_skip data"
    "delivers cw body lines" "splittable cw" "p @ q = wire_stream cs zero ext ts" "q \<noteq> []"
    "readwrite_loop data cw ch (\<lambda>_. True) s p = (r, ch', h', s', rest)"
  shows "r = CURLE_OK \<and> state ch' \<notin> {CHUNK_DONE, CHUNK_FAILED}"
proof -
  have st: "state ch \<notin> {CHUNK_DONE, CHUNK_FAILED}" using assms(1) by (simp add: fresh_def)
  from stream_decodes[OF assms(1-6), of s "[]", unfolded append_Nil2, folded assms(8)]
  obtain ch2 h2 s2 where all: "readwrite_loop data cw ch (\<lambda>_. True) s (p @ q) = (CURLE_OK, ch2, h2, s2, [])" by blast
  note R = readwrite_loop_result[OF st assms(10)]
  have ok: "r = CURLE_OK"
    using readwrite_loop_cut[OF assms(7) st assms(10), of q] all R
    by (cases "r = CURLE_OK") (auto simp: same_outcome_def)
  moreover have "state ch' \<noteq> CHUNK_DONE"
  proof
    assume "state ch' = CHUNK_DONE"
    from readwrite_done_append[OF assms(10)[unfolded ok] st this, of q] all assms(9) show False by auto
  qed
  ultimately show ?thesis using R by simp
qed

section \<open>Properties\<close>

lemma fresh_init: "fresh (Curl_httpchunk_init ch False)"
  by (simp add: fresh_def Curl_httpchunk_init_def dyn_ok_init DYN_H1_TRAILER_def MAX_DYNBUF_SIZE_def SIZE_MAX_def)
     (simp add: curlx_dyn_init_def)

text \<open>
  Whatever bytes arrive, one call of the decoder keeps its invariant: at most sixteen size digits
  are stored, the size of a chunk stays in the range of \<open>curl_off_t\<close>, the trailer buffer within its
  limit. It never counts more bytes than it was given; it stops before the end of the buffer only when
  the stream is complete or has failed; and it returns an error exactly when it is left in the failed
  state, with the reason recorded.
\<close>

theorem chunk_decoder_invariant:
  assumes "chunker_ok ch" "int (length buf) \<le> CURL_OFF_T_MAX" "httpchunk_readwrite data cw ch h s buf = (r, n, ch', h', s')"
  shows "chunker_ok ch' \<and> n \<le> length buf \<and> (r \<noteq> CURLE_OK \<longleftrightarrow> state ch' = CHUNK_FAILED) \<and>
    (state ch' \<notin> {CHUNK_DONE, CHUNK_FAILED} \<longrightarrow> n = length buf)"
proof (cases "state ch \<in> {CHUNK_DONE, CHUNK_FAILED}")
  case True
  with assms show ?thesis by (auto simp: httpchunk_readwrite_def split: if_splits)
next
  case False
  obtain r0 s0 where w: "(if http_te_skip data \<and> \<not> ignore_body ch then cw s CLIENTWRITE_BODY buf else (CURLE_OK, s)) = (r0, s0)"
    by fastforce
  obtain r1 ch1 h1 s1 rest where l: "readwrite_loop data cw ch h s0 buf = (r1, ch1, h1, s1, rest)" by (metis prod_cases5)
  have "(if r0 \<noteq> CURLE_OK then (r0, 0, failed ch CHUNKE_PASSTHRU_ERROR, h, s0) else (r1, length buf - length rest, ch1, h1, s1)) =
      (r, n, ch', h', s')"
    using assms(3) False w l by (cases "r0 = CURLE_OK") (simp_all add: httpchunk_readwrite_def)
  with readwrite_loop_ok[OF assms(1) False assms(2) l] assms(1) show ?thesis by (cases "r0 = CURLE_OK") auto
qed

text \<open>A client that keeps all it gets, and a transfer for it.\<close>

definition collect :: "(bytes \<times> bytes list) cwriter" where
  "collect s typ bs = (CURLE_OK, if typ = CLIENTWRITE_BODY then (fst s @ bs, snd s) else (fst s, snd s @ [bs]))"

lemma collect_delivers: "delivers collect fst snd" "splittable collect"
  by (auto simp: delivers_def splittable_def collect_def CLIENTWRITE_BODY_def CLIENTWRITE_HEADER_def)

definition sample_easy :: easy where
  "sample_easy = \<lparr>http_te_skip = False, headerline = 3, no_body = False, req_chunk = True, download_done = False\<rparr>"

definition zeroed_chunker :: Curl_chunker where
  "zeroed_chunker = \<lparr>datasize = 0, state = CHUNK_HEX, last_code = CHUNKE_OK,
     trailer = curlx_dyn_init 0, hexbuffer = [], ignore_body = False\<rparr>"

definition sample_chunker :: Curl_chunker where
  "sample_chunker = Curl_httpchunk_init zeroed_chunker False"

lemma sample_chunker_ok: "chunker_ok sample_chunker" "fresh sample_chunker" "state sample_chunker = CHUNK_HEX"
  using fresh_init by (auto simp: sample_chunker_def zeroed_chunker_def fresh_def Curl_httpchunk_init_def chunker_ok_def CURL_OFF_T_MAX_def)

theorem chunk_decoder_invariant_witness:
  "state (fst (snd (snd (httpchunk_readwrite sample_easy collect sample_chunker (\<lambda>_. True) ([], []) ''xyz'')))) = CHUNK_FAILED"
proof -
  obtain r n ch' h' s' where e: "httpchunk_readwrite sample_easy collect sample_chunker (\<lambda>_. True) ([], []) ''xyz'' = (r, n, ch', h', s')"
    by (metis prod_cases5)
  have "fst (httpchunk_readwrite sample_easy collect sample_chunker (\<lambda>_. True) ([], []) ''xyz'') = CURLE_RECV_ERROR" by code_simp
  with chunk_decoder_invariant[OF sample_chunker_ok(1) _ e] e show ?thesis by (simp add: CURL_OFF_T_MAX_def)
qed

text \<open>
  C13: The decoder does not depend on how the network cuts the stream: fed in pieces, whatever they
  are, it reports the same result, gives the client the same, and ends in the same state as when it
  gets all the bytes in one call, errors included.
\<close>

theorem chunked_pieces_equal:
  assumes "splittable cw" "\<not> http_te_skip data" "state ch \<noteq> CHUNK_FAILED"
    "feed data cw ch h s pieces = (r, ch', h', s')"
  shows "\<exists>n ch''. httpchunk_readwrite data cw ch h s (concat pieces) = (r, n, ch'', h', s') \<and> settled ch'' = settled ch'"
proof (cases "state ch = CHUNK_DONE")
  case True
  with assms(4) feed_done[OF True, of data cw h s pieces] show ?thesis by (auto simp: httpchunk_readwrite_def)
next
  case False
  with assms(3) have st: "state ch \<notin> {CHUNK_DONE, CHUNK_FAILED}" by simp
  from feed_loop[OF assms(1,2) st assms(4)] show ?thesis
    by (auto simp: readwrite_eq_loop[OF assms(2) st] same_outcome_def split: prod.splits)
qed

theorem chunked_pieces_equal_witness:
  "fst (httpchunk_readwrite sample_easy collect sample_chunker (\<lambda>_. True) ([], []) (concat [''3'', CRLF @ ''a'', ''b''])) = CURLE_OK"
proof -
  obtain r ch' h' s' where f: "feed sample_easy collect sample_chunker (\<lambda>_. True) ([], []) [''3'', CRLF @ ''a'', ''b''] = (r, ch', h', s')"
    by (metis prod_cases4)
  have "fst (feed sample_easy collect sample_chunker (\<lambda>_. True) ([], []) [''3'', CRLF @ ''a'', ''b'']) = CURLE_OK" by code_simp
  with f have "r = CURLE_OK" by simp
  with chunked_pieces_equal[OF collect_delivers(2) _ _ f] sample_chunker_ok(3) show ?thesis by (auto simp: sample_easy_def)
qed

text \<open>
  A well-formed chunked stream is decoded to exactly the bytes it carries. A new decoder given the
  whole stream, chunk extensions and trailers included, and whatever follows it on the connection,
  delivers the payloads joined, then each trailer line, counts the bytes of the stream and none of
  what follows, and is done.
\<close>

theorem chunked_stream_decodes:
  assumes "list_all wire_ok cs" "size_line_ok zero ext 0" "list_all trailer_ok ts" "\<not> http_te_skip data"
    "delivers cw body lines"
  shows "\<exists>ch' s'. httpchunk_readwrite data cw (Curl_httpchunk_init ch False) (\<lambda>_. True) s (wire_stream cs zero ext ts @ rest) =
      (CURLE_OK, length (wire_stream cs zero ext ts), ch', \<lambda>_. True, s') \<and> Curl_httpchunk_is_done ch' \<and>
    body s' = body s @ concat (map payload cs) \<and> lines s' = lines s @ map (\<lambda>t. t @ CRLF) ts"
proof -
  have "state (Curl_httpchunk_init ch False) \<notin> {CHUNK_DONE, CHUNK_FAILED}" by (simp add: Curl_httpchunk_init_def)
  from readwrite_eq_loop[OF assms(4) this, of cw "\<lambda>_. True" s "wire_stream cs zero ext ts @ rest"]
    stream_decodes[OF fresh_init assms, of ch s rest] show ?thesis
    by (auto simp: Curl_httpchunk_is_done_def)
qed

definition sample_wire :: "wire_chunk list" where
  "sample_wire = [\<lparr>digits = ''3'', extension = '';x=y'', payload = ''abc''\<rparr>, \<lparr>digits = ''02'', extension = [], payload = ''de''\<rparr>]"

lemma sample_wire_ok: "list_all wire_ok sample_wire" "size_line_ok ''0'' [] 0" "list_all trailer_ok [''a: b'']"
  by (simp_all add: sample_wire_def wire_ok_def size_line_ok_def trailer_ok_def base_value_def CHUNK_MAXNUM_LEN_def
      DYN_H1_TRAILER_def CURL_OFF_T_MAX_def) code_simp+

theorem chunked_stream_decodes_witness:
  "\<exists>ch' s'. httpchunk_readwrite sample_easy collect sample_chunker (\<lambda>_. True) ([], []) (wire_stream sample_wire ''0'' [] [''a: b'']) =
     (CURLE_OK, 31, ch', \<lambda>_. True, s') \<and> s' = (''abcde'', [''a: b'' @ CRLF])"
proof -
  have l: "length (wire_stream sample_wire ''0'' [] [''a: b'']) = 31" by code_simp
  have c: "concat (map payload sample_wire) = ''abcde''" by (simp add: sample_wire_def)
  from chunked_stream_decodes[OF sample_wire_ok _ collect_delivers(1), of sample_easy _ "([], [])" "[]"] l c
  show ?thesis by (fastforce simp: sample_chunker_def sample_easy_def)
qed

text \<open>
  C14: A chunked body the server cut short is never taken for a complete one. When the connection ends
  anywhere inside a well-formed stream, the writer gets all there is with the end-of-stream flag and
  reports a partial file, and the download is not marked done.
\<close>

theorem chunked_truncation_detected:
  assumes "list_all wire_ok cs" "size_line_ok zero ext 0" "list_all trailer_ok ts" "\<not> http_te_skip data"
    "delivers cw body lines" "splittable cw" "p @ q = wire_stream cs zero ext ts" "q \<noteq> []" "\<not> no_body data"
    "cw_chunked_write data cw (Curl_httpchunk_init ch False) (\<lambda>_. True) s (CLIENTWRITE_BODY + CLIENTWRITE_EOS) p = (r, data', ch', h', s')"
  shows "r = CURLE_PARTIAL_FILE \<and> data' = data \<and> \<not> Curl_httpchunk_is_done ch'"
proof -
  obtain r1 ch1 h1 s1 rest where l: "readwrite_loop data cw (Curl_httpchunk_init ch False) (\<lambda>_. True) s p = (r1, ch1, h1, s1, rest)"
    by (metis prod_cases5)
  have f: "and (CLIENTWRITE_BODY + CLIENTWRITE_EOS) CLIENTWRITE_BODY \<noteq> 0" "and (CLIENTWRITE_BODY + CLIENTWRITE_EOS) CLIENTWRITE_EOS \<noteq> 0"
    by code_simp+
  have "state (Curl_httpchunk_init ch False) \<notin> {CHUNK_DONE, CHUNK_FAILED}" by (simp add: Curl_httpchunk_init_def)
  from readwrite_eq_loop[OF assms(4) this, of cw "\<lambda>_. True" s p] prefix_goes_on[OF fresh_init assms(1-8) l] l assms(9,10) f
  show ?thesis by (auto simp: cw_chunked_write_def Curl_httpchunk_is_done_def)
qed

theorem chunked_truncation_detected_witness:
  "fst (cw_chunked_write sample_easy collect sample_chunker (\<lambda>_. True) ([], []) (CLIENTWRITE_BODY + CLIENTWRITE_EOS)
      (take 7 (wire_stream sample_wire ''0'' [] [''a: b'']))) = CURLE_PARTIAL_FILE"
proof -
  let ?w = "wire_stream sample_wire ''0'' [] [''a: b'']"
  obtain r data' ch' h' s' where e: "cw_chunked_write sample_easy collect sample_chunker (\<lambda>_. True) ([], [])
      (CLIENTWRITE_BODY + CLIENTWRITE_EOS) (take 7 ?w) = (r, data', ch', h', s')" by (metis prod_cases5)
  have "drop 7 ?w \<noteq> []" by code_simp
  from chunked_truncation_detected[OF sample_wire_ok _ collect_delivers append_take_drop_id this _ e[unfolded sample_chunker_def]] e
  show ?thesis by (simp add: sample_easy_def)
qed

end
