(* ===== verification/Curl_Mprintf.thy ===== *)
theory Curl_Mprintf
  imports Curl_Strparse
begin

text \<open>
  The output side of the printf engine, \<open>old/lib/mprintf.c\<close>: how a number, a string or a pointer is
  laid out in its field, and the writer into a buffer of fixed size. Every \<open>OUTCHAR\<close> goes through the
  stream callback, which may refuse a byte and so end the output; the bytes an operation hands to the
  callback as long as none is refused are the value of its definition, and the callback is applied to
  them afterwards. The format parser and the engine that calls these are in the theories \<open>Curl_Format\<close> and
  \<open>Curl_Formatf\<close>.

  The work buffer of a number is written backwards from its end. Its part that is in use is a list;
  \<open>zeros\<close> says how many leading zeros fit.
\<close>

section \<open>Data\<close>

definition FLAGS_SPACE :: nat where "FLAGS_SPACE = 1"
definition FLAGS_SHOWSIGN :: nat where "FLAGS_SHOWSIGN = 2"
definition FLAGS_LEFT :: nat where "FLAGS_LEFT = 4"
definition FLAGS_ALT :: nat where "FLAGS_ALT = 8"
definition FLAGS_LONG :: nat where "FLAGS_LONG = 32"
definition FLAGS_PAD_NIL :: nat where "FLAGS_PAD_NIL = 256"
definition FLAGS_UNSIGNED :: nat where "FLAGS_UNSIGNED = 512"
definition FLAGS_OCTAL :: nat where "FLAGS_OCTAL = 1024"
definition FLAGS_HEX :: nat where "FLAGS_HEX = 2048"
definition FLAGS_UPPER :: nat where "FLAGS_UPPER = 4096"
definition FLAGS_CHAR :: nat where "FLAGS_CHAR = 131072"

definition BUFFSIZE :: nat where "BUFFSIZE = 326"
definition INT_MAX :: int where "INT_MAX = 2147483647"

definition Curl_udigits :: bytes where "Curl_udigits = ''0123456789ABCDEF''"
definition Curl_ldigits :: bytes where "Curl_ldigits = ''0123456789abcdef''"

record mproperty =
  width :: int
  prec :: int
  flags :: nat

definition flag :: "nat \<Rightarrow> nat \<Rightarrow> bool" where
  "flag fl f \<longleftrightarrow> and fl f \<noteq> 0"

section \<open>Output\<close>

definition pad :: "int \<Rightarrow> char \<Rightarrow> bytes" where
  "pad n c = replicate (nat n) c"

text \<open>The loop that puts the digits in the work buffer, last digit first.\<close>

function number_loop :: "nat \<Rightarrow> (nat \<Rightarrow> char) \<Rightarrow> nat \<Rightarrow> bytes \<Rightarrow> bytes" where
  "number_loop base digit num w =
     (if num = 0 \<or> base < 2 then w else number_loop base digit (num div base) (digit (num mod base) # w))"
  by pat_completeness auto
termination
  by (relation "measure (\<lambda>(base, digit, num, w). num)") auto

declare number_loop.simps [simp del]

definition number_base :: "nat \<Rightarrow> nat" where
  "number_base fl = (if flag fl FLAGS_OCTAL then 8 else if flag fl FLAGS_HEX then 16 else 10)"

definition number_digit :: "nat \<Rightarrow> nat \<Rightarrow> char" where
  "number_digit fl d =
     (if number_base fl = 10 then char_of (48 + d)
      else if flag fl FLAGS_HEX \<and> \<not> flag fl FLAGS_OCTAL \<and> flag fl FLAGS_UPPER then Curl_udigits ! d
      else Curl_ldigits ! d)"

text \<open>The digits, the zero of the alternative octal form, and the zeros of the precision.\<close>

definition number_work :: "nat \<Rightarrow> int \<Rightarrow> nat \<Rightarrow> bytes" where
  "number_work fl pr num =
     (let w = number_loop (number_base fl) (number_digit fl) num [];
          p = pr - int (length w);
          w = (if flag fl FLAGS_ALT \<and> number_base fl = 8 \<and> p \<le> 0 then CHR ''0'' # w else w);
          zeros = min (nat p) (BUFFSIZE - 1 - length w) in
      replicate zeros CHR ''0'' @ w)"

definition number_width :: "nat \<Rightarrow> bool \<Rightarrow> int \<Rightarrow> int \<Rightarrow> nat \<Rightarrow> int" where
  "number_width fl is_neg wd pr num =
     (let n = int (length (number_loop (number_base fl) (number_digit fl) num []));
          wd = wd - n; p = pr - n;
          wd = (if flag fl FLAGS_ALT \<and> number_base fl = 8 \<and> p \<le> 0 then wd - 1 else wd);
          wd = (if p > 0 then wd - p else wd);
          wd = (if flag fl FLAGS_ALT \<and> number_base fl = 16 then wd - 2 else wd) in
      if is_neg \<or> flag fl FLAGS_SHOWSIGN \<or> flag fl FLAGS_SPACE then wd - 1 else wd)"

definition out_number :: "mproperty \<Rightarrow> nat \<Rightarrow> int \<Rightarrow> bytes" where
  "out_number p num nums =
     (let fl = flags p in
      if flag fl FLAGS_CHAR then
        (if \<not> flag fl FLAGS_LEFT then pad (width p - 1) CHR '' '' else []) @ [char_of (num mod 256)] @
        (if flag fl FLAGS_LEFT then pad (width p - 1) CHR '' '' else [])
      else
        let is_neg = (\<not> flag fl FLAGS_OCTAL \<and> \<not> flag fl FLAGS_HEX \<and> \<not> flag fl FLAGS_UNSIGNED \<and> nums < 0);
            num = (if is_neg then nat (- nums) else num);
            pr = (if prec p = -1 then 1 else prec p);
            wd = number_width fl is_neg (width p) pr num in
        (if \<not> flag fl FLAGS_LEFT \<and> \<not> flag fl FLAGS_PAD_NIL then pad wd CHR '' '' else []) @
        (if is_neg then ''-'' else if flag fl FLAGS_SHOWSIGN then ''+'' else if flag fl FLAGS_SPACE then '' '' else []) @
        (if flag fl FLAGS_ALT \<and> number_base fl = 16
         then CHR ''0'' # (if flag fl FLAGS_UPPER then ''X'' else ''x'') else []) @
        (if \<not> flag fl FLAGS_LEFT \<and> flag fl FLAGS_PAD_NIL then pad wd CHR ''0'' else []) @
        number_work fl pr num @
        (if flag fl FLAGS_LEFT then pad wd CHR '' '' else []))"

definition nilstr :: bytes where "nilstr = ''(nil)''"

text \<open>A string argument is the bytes up to its terminator, or \<open>None\<close> for the null pointer.\<close>

definition out_string :: "mproperty \<Rightarrow> bytes option \<Rightarrow> bytes" where
  "out_string p str =
     (let nil = (str = None \<and> (prec p = -1 \<or> prec p \<ge> int (length nilstr)));
          fl = (if nil then and (flags p) (4294967295 - FLAGS_ALT) else flags p);
          s = (case str of None \<Rightarrow> if nil then nilstr else [] | Some s \<Rightarrow> cstr s);
          len = (case str of
                   None \<Rightarrow> length s
                 | Some _ \<Rightarrow> if prec p \<noteq> -1 then nat (prec p mod 2 ^ 64) else length s);
          wd = width p - (if int len > INT_MAX then INT_MAX else int len) in
      (if flag fl FLAGS_ALT then [CHR 0x22] else []) @
      (if \<not> flag fl FLAGS_LEFT then pad wd CHR '' '' else []) @
      take len s @
      (if flag fl FLAGS_LEFT then pad wd CHR '' '' else []) @
      (if flag fl FLAGS_ALT then [CHR 0x22] else []))"

text \<open>A pointer argument is the number its bits spell, zero for the null pointer.\<close>

definition out_pointer :: "mproperty \<Rightarrow> nat \<Rightarrow> bytes" where
  "out_pointer p ptr =
     (if ptr \<noteq> 0 then out_number (p\<lparr>flags := or (flags p) (or FLAGS_HEX FLAGS_ALT)\<rparr>) ptr 0
      else
        let wd = width p - int (length nilstr) in
        (if flag (flags p) FLAGS_LEFT then pad wd CHR '' '' else []) @ nilstr @
        (if \<not> flag (flags p) FLAGS_LEFT then pad wd CHR '' '' else []))"

section \<open>Output into a buffer of fixed size\<close>

record nsprintf =
  n_stored :: bytes
  n_max :: nat

definition addbyter :: "char \<Rightarrow> nsprintf \<Rightarrow> bool \<times> nsprintf" where
  "addbyter c info =
     (if length (n_stored info) < n_max info then (False, info\<lparr>n_stored := n_stored info @ [c]\<rparr>) else (True, info))"

fun addbyter_loop :: "bytes \<Rightarrow> nsprintf \<Rightarrow> nat \<Rightarrow> nat \<times> nsprintf" where
  "addbyter_loop [] info n = (n, info)"
| "addbyter_loop (c # out) info n =
     (case addbyter c info of (stop, info) \<Rightarrow> if stop then (n, info) else addbyter_loop out info (n + 1))"

text \<open>The result and the string left in the buffer, for the bytes \<open>out\<close> the format produces.\<close>

definition curl_mvsnprintf :: "nat \<Rightarrow> bytes \<Rightarrow> nat \<times> bytes" where
  "curl_mvsnprintf maxlength out =
     (case addbyter_loop out \<lparr>n_stored = [], n_max = maxlength\<rparr> 0 of (retcode, info) \<Rightarrow>
        if n_max info \<noteq> 0 \<and> n_max info = length (n_stored info) then (retcode - 1, butlast (n_stored info))
        else (retcode, n_stored info))"

section \<open>Lemmas\<close>

lemma digit_chars:
  "n < 16 \<Longrightarrow> ISXDIGIT (Curl_udigits ! n) \<and> curlx_hexval (Curl_udigits ! n) = n \<and> ISXDIGIT (Curl_ldigits ! n) \<and> curlx_hexval (Curl_ldigits ! n) = n"
  "n < 10 \<Longrightarrow> isdigit (char_of (48 + n)) \<and> curlx_hexval (char_of (48 + n)) = n"
  "n < 8 \<Longrightarrow> digit_of_base 8 (Curl_ldigits ! n)"
proof -
  have "list_all (\<lambda>n. ISXDIGIT (Curl_udigits ! n) \<and> curlx_hexval (Curl_udigits ! n) = n \<and> ISXDIGIT (Curl_ldigits ! n) \<and>
      curlx_hexval (Curl_ldigits ! n) = n) [0..<16]" by code_simp
  then show "n < 16 \<Longrightarrow> ISXDIGIT (Curl_udigits ! n) \<and> curlx_hexval (Curl_udigits ! n) = n \<and> ISXDIGIT (Curl_ldigits ! n) \<and> curlx_hexval (Curl_ldigits ! n) = n"
    by (simp add: list_all_iff)
  have "list_all (\<lambda>n. isdigit (char_of (48 + n)) \<and> curlx_hexval (char_of (48 + n)) = n) [0..<10]" by code_simp
  then show "n < 10 \<Longrightarrow> isdigit (char_of (48 + n)) \<and> curlx_hexval (char_of (48 + n)) = n" by (simp add: list_all_iff)
  have "list_all (\<lambda>n. digit_of_base 8 (Curl_ldigits ! n)) [0..<8]" by code_simp
  then show "n < 8 \<Longrightarrow> digit_of_base 8 (Curl_ldigits ! n)" by (simp add: list_all_iff)
qed

lemma number_digit_ok:
  assumes "d < number_base fl"
  shows "digit_of_base (int (number_base fl)) (number_digit fl d) \<and> curlx_hexval (number_digit fl d) = d"
proof -
  consider "number_base fl = 8" | "number_base fl = 16" "flag fl FLAGS_HEX" "\<not> flag fl FLAGS_OCTAL" | "number_base fl = 10"
    by (cases "flag fl FLAGS_OCTAL"; cases "flag fl FLAGS_HEX") (simp_all add: number_base_def)
  then show ?thesis
  proof cases
    case 1
    then have "flag fl FLAGS_OCTAL" by (auto simp: number_base_def split: if_splits)
    with 1 assms digit_chars(1)[of d] digit_chars(3)[of d] show ?thesis by (simp add: number_digit_def)
  next
    case 2
    with assms digit_chars(1)[of d] show ?thesis by (simp add: number_digit_def digit_of_base_iff)
  next
    case 3
    with assms digit_chars(2)[of d] show ?thesis by (simp add: number_digit_def digit_of_base_iff)
  qed
qed

lemma number_base_cases: "int (number_base fl) \<in> {8, 10, 16}" "8 \<le> number_base fl"
  by (auto simp: number_base_def)

lemma number_loop_value:
  "digits_value (int (number_base fl)) 0 (map (\<lambda>c. int (curlx_hexval c)) (number_loop (number_base fl) (number_digit fl) num w)) =
     digits_value (int (number_base fl)) (int num) (map (\<lambda>c. int (curlx_hexval c)) w)"
proof (induction "number_base fl" "number_digit fl" num w rule: number_loop.induct)
  case (1 num w)
  show ?case
  proof (cases "num = 0")
    case False
    have b: "2 \<le> number_base fl" using number_base_cases(2)[of fl] by simp
    have "int (num div number_base fl) * int (number_base fl) + int (num mod number_base fl) = int num"
      by (metis div_mult_mod_eq of_nat_add of_nat_mult)
    moreover have "num mod number_base fl < number_base fl" using b by simp
    ultimately show ?thesis
      using 1 False b number_digit_ok[of "num mod number_base fl" fl] by (simp add: number_loop.simps[of _ _ num w])
  qed (simp add: number_loop.simps[of _ _ 0])
qed

lemma number_loop_digits:
  "list_all (digit_of_base (int (number_base fl))) w \<Longrightarrow>
   list_all (digit_of_base (int (number_base fl))) (number_loop (number_base fl) (number_digit fl) num w)"
proof (induction "number_base fl" "number_digit fl" num w rule: number_loop.induct)
  case (1 num w)
  have "num mod number_base fl < number_base fl" using number_base_cases(2)[of fl] by simp
  then show ?case
    using 1 number_digit_ok[of "num mod number_base fl" fl] by (auto simp: number_loop.simps[of _ _ num w])
qed

lemma number_loop_length:
  "num < 8 ^ k \<Longrightarrow> length (number_loop (number_base fl) (number_digit fl) num w) \<le> k + length w"
proof (induction k arbitrary: num w)
  case (Suc k)
  show ?case
  proof (cases "num = 0")
    case False
    have "num div number_base fl \<le> num div 8" using number_base_cases(2) by (intro div_le_mono2) auto
    also have "\<dots> < 8 ^ k" using Suc.prems by (simp add: less_mult_imp_div_less mult.commute)
    finally show ?thesis
      using Suc.IH[of "num div number_base fl" "number_digit fl (num mod number_base fl) # w"]
      by (simp add: number_loop.simps[of _ _ num w])
  qed (simp add: number_loop.simps)
qed (simp add: number_loop.simps)

lemma zero_digit: "digit_of_base (int (number_base fl)) (CHR ''0'')" "curlx_hexval (CHR ''0'') = 0"
proof -
  have "digit_of_base 8 (CHR ''0'') \<and> digit_of_base 10 (CHR ''0'') \<and> digit_of_base 16 (CHR ''0'')" by code_simp
  then show "digit_of_base (int (number_base fl)) (CHR ''0'')" using number_base_cases(1)[of fl] by auto
  show "curlx_hexval (CHR ''0'') = 0" by code_simp
qed

lemma leading_zeros: "digits_value b 0 (replicate k 0 @ ds) = digits_value b 0 ds"
  by (induction k) simp_all

text \<open>The bytes in the work buffer are digits that spell the number, and they fit.\<close>

lemma number_work_zeros:
  "\<exists>n. number_work fl pr num = replicate n CHR ''0'' @ number_loop (number_base fl) (number_digit fl) num []"
proof (cases "flag fl FLAGS_ALT \<and> number_base fl = 8 \<and> pr - int (length (number_loop (number_base fl) (number_digit fl) num [])) \<le> 0")
  case True
  then have "number_work fl pr num = CHR ''0'' # number_loop (number_base fl) (number_digit fl) num []"
    unfolding number_work_def Let_def by (subst if_P; simp)
  then show ?thesis by (intro exI[of _ 1]) simp
next
  case False
  then show ?thesis unfolding number_work_def Let_def by (subst if_not_P) blast+
qed

lemma number_work_ok:
  "list_all (digit_of_base (int (number_base fl))) (number_work fl pr num)"
  "base_value (int (number_base fl)) (replicate k CHR ''0'' @ number_work fl pr num) = int num"
proof -
  obtain n where n: "number_work fl pr num = replicate n CHR ''0'' @ number_loop (number_base fl) (number_digit fl) num []"
    using number_work_zeros by blast
  with number_loop_digits[of fl "[]" num] zero_digit(1)[of fl]
  show "list_all (digit_of_base (int (number_base fl))) (number_work fl pr num)" by (auto simp: list_all_iff)
  have "base_value (int (number_base fl)) (replicate (k + n) CHR ''0'' @ number_loop (number_base fl) (number_digit fl) num []) = int num"
    using number_loop_value[of fl num "[]"] by (simp add: base_value_def zero_digit leading_zeros)
  then show "base_value (int (number_base fl)) (replicate k CHR ''0'' @ number_work fl pr num) = int num"
    by (simp add: n replicate_add)
qed

lemma number_work_fits:
  assumes "num < 2 ^ 64"
  shows "length (number_work fl pr num) < BUFFSIZE"
proof -
  have "num < 8 ^ 22" using assms by simp
  from number_loop_length[OF this, of fl "[]"] show ?thesis
    by (auto simp: number_work_def BUFFSIZE_def Let_def)
qed

lemma number_loop_nonempty: "num \<noteq> 0 \<Longrightarrow> number_loop (number_base fl) (number_digit fl) num [] \<noteq> []"
  using number_loop_value[of fl num "[]"] by auto

lemma number_work_nonempty: "0 < pr \<Longrightarrow> number_work fl pr num \<noteq> []"
  using number_loop_nonempty[of num fl]
  by (cases "num = 0") (auto simp: number_work_def Let_def BUFFSIZE_def number_loop.simps[of _ _ 0])

text \<open>Writing into a buffer of fixed size keeps the first bytes that fit before the terminator.\<close>

lemma addbyter_loop_eq:
  "length (n_stored info) \<le> n_max info \<Longrightarrow> addbyter_loop out info n =
     (n + min (length out) (n_max info - length (n_stored info)),
      info\<lparr>n_stored := n_stored info @ take (n_max info - length (n_stored info)) out\<rparr>)"
proof (induction out arbitrary: info n)
  case (Cons c out)
  then show ?case by (auto simp: addbyter_def take_Cons' Suc_diff_Suc)
qed simp

lemma mvsnprintf_eq:
  "0 < maxlength \<Longrightarrow> curl_mvsnprintf maxlength out = (min (length out) (maxlength - 1), take (maxlength - 1) out)"
  by (cases "length out < maxlength")
     (auto simp: curl_mvsnprintf_def addbyter_loop_eq butlast_take butlast_conv_take)

text \<open>What the field takes, sign and prefix included, is what the width leaves room for.\<close>

lemma number_width_eq:
  assumes "num < 2 ^ 64" "pr \<le> 300"
  shows "number_width fl is_neg wd pr num + int (length (number_work fl pr num)) +
      (if is_neg \<or> flag fl FLAGS_SHOWSIGN \<or> flag fl FLAGS_SPACE then 1 else 0) +
      (if flag fl FLAGS_ALT \<and> number_base fl = 16 then 2 else 0) = wd"
proof -
  define n where "n = length (number_loop (number_base fl) (number_digit fl) num [])"
  have "num < 8 ^ 22" using assms by simp
  then have n: "n \<le> 22" using number_loop_length[of num 22 fl "[]"] by (simp add: n_def)
  define alt where "alt \<longleftrightarrow> flag fl FLAGS_ALT \<and> number_base fl = 8 \<and> pr - int n \<le> 0"
  have w: "length (number_work fl pr num) = (if alt then Suc n else nat (pr - int n) + n)"
    using n assms(2) unfolding number_work_def Let_def n_def[symmetric] alt_def[symmetric]
    by (cases alt) (auto simp: alt_def n_def BUFFSIZE_def)
  show ?thesis unfolding w unfolding number_width_def Let_def n_def[symmetric]
    by (cases alt) (auto simp: alt_def)
qed

section \<open>Properties\<close>

text \<open>
  A number that is printed can be read back: in each of the bases, with any width filled with
  zeros and any positive precision, the bytes printed are digits the number scanner reads to exactly
  the number, to the last byte.
\<close>

theorem out_number_reads_back:
  assumes "int num \<le> CURL_OFF_T_MAX" "flag (flags p) FLAGS_UNSIGNED" "flag (flags p) FLAGS_PAD_NIL"
    "\<not> flag (flags p) FLAGS_CHAR" "\<not> flag (flags p) FLAGS_ALT" "\<not> flag (flags p) FLAGS_SHOWSIGN"
    "\<not> flag (flags p) FLAGS_SPACE" "\<not> flag (flags p) FLAGS_LEFT" "prec p = -1 \<or> 0 < prec p"
  shows "str_num_base (out_number p num nums) CURL_OFF_T_MAX (int (number_base (flags p))) = (STRE_OK, int num, [])"
proof -
  define pr where "pr = (if prec p = -1 then 1 else prec p)"
  have pr: "0 < pr" using assms(9) by (auto simp: pr_def)
  obtain k where e: "out_number p num nums = replicate k CHR ''0'' @ number_work (flags p) pr num"
    using assms by (auto simp: out_number_def pr_def pad_def Let_def)
  let ?out = "out_number p num nums"
  have d: "\<forall>c\<in>set ?out. digit_of_base (int (number_base (flags p))) c"
    using number_work_ok(1)[of "flags p" pr num] zero_digit(1) by (auto simp: e list_all_iff)
  have "?out \<noteq> []" using number_work_nonempty[OF pr] by (simp add: e)
  moreover have "base_value (int (number_base (flags p))) ?out = int num" using number_work_ok(2) by (simp add: e)
  ultimately show ?thesis
    using assms(1) str_num_base_all[OF number_base_cases(1) _ d] by (simp add: CURL_OFF_T_MAX_def)
qed

theorem out_number_reads_back_witness:
  "str_num_base (out_number \<lparr>width = 6, prec = -1, flags = 512 + 2048 + 256\<rparr> 48879 0) CURL_OFF_T_MAX 16 = (STRE_OK, 48879, [])"
proof -
  let ?p = "\<lparr>width = 6, prec = -1, flags = 512 + 2048 + 256\<rparr> :: mproperty"
  have f: "flag (flags ?p) FLAGS_UNSIGNED" "flag (flags ?p) FLAGS_PAD_NIL" "\<not> flag (flags ?p) FLAGS_CHAR" "\<not> flag (flags ?p) FLAGS_ALT"
    "\<not> flag (flags ?p) FLAGS_SHOWSIGN" "\<not> flag (flags ?p) FLAGS_SPACE" "\<not> flag (flags ?p) FLAGS_LEFT"
    "number_base (flags ?p) = 16" by code_simp+
  from out_number_reads_back[OF _ f(1-7), of 48879 0] f(8) show ?thesis by (simp add: CURL_OFF_T_MAX_def)
qed

text \<open>
  Printing a 64-bit number never leaves the work buffer, whatever the width and the precision, and
  the field is at least as wide as asked for, as long as the precision itself fits in the buffer.
\<close>

theorem out_number_bounds:
  assumes "num < 2 ^ 64" "- (2 ^ 63) \<le> nums" "prec p \<le> 300"
  shows "length (number_work (flags p) (prec p) num) < BUFFSIZE \<and> width p \<le> int (length (out_number p num nums))"
proof
  show "length (number_work (flags p) (prec p) num) < BUFFSIZE" by (rule number_work_fits[OF assms(1)])
  show "width p \<le> int (length (out_number p num nums))"
  proof (cases "flag (flags p) FLAGS_CHAR")
    case True
    then show ?thesis by (auto simp: out_number_def pad_def Let_def)
  next
    case False
    define neg where "neg \<longleftrightarrow> \<not> flag (flags p) FLAGS_OCTAL \<and> \<not> flag (flags p) FLAGS_HEX \<and> \<not> flag (flags p) FLAGS_UNSIGNED \<and> nums < 0"
    define pr where "pr = (if prec p = -1 then 1 else prec p)"
    define n where "n = (if neg then nat (- nums) else num)"
    have "n < 2 ^ 64" "pr \<le> 300" using assms by (auto simp: n_def pr_def)
    note W = number_width_eq[OF this, of "flags p" neg "width p"]
    have "int (length (out_number p num nums)) = int (nat (number_width (flags p) neg (width p) pr n)) + int (length (number_work (flags p) pr n)) +
      (if neg \<or> flag (flags p) FLAGS_SHOWSIGN \<or> flag (flags p) FLAGS_SPACE then 1 else 0) +
      (if flag (flags p) FLAGS_ALT \<and> number_base (flags p) = 16 then 2 else 0)"
      using False unfolding out_number_def Let_def neg_def[symmetric] pr_def[symmetric] n_def[symmetric]
      by (simp add: pad_def)
    with W show ?thesis by linarith
  qed
qed

theorem out_number_bounds_witness:
  "10 \<le> length (out_number \<lparr>width = 10, prec = 3, flags = 4\<rparr> 0 (-5))"
  using out_number_bounds[of 0 "-5" "\<lparr>width = 10, prec = 3, flags = 4\<rparr>"] by simp

end
