(* ===== verification/Curl_Chunk_Encoder.thy ===== *)
theory Curl_Chunk_Encoder
  imports Curl_Bufq Curl_Chunks Curl_Mprintf
begin

text \<open>
  The encoder of HTTP/1.1 chunked transfer encoding, the client reader of \<open>old/lib/http_chunks.c\<close>. It
  pulls bytes from the next reader of the chain, wraps them into a chunk in its own buffer queue and
  hands out that queue; the last chunk and the trailers of the application follow the end of the
  input. The next reader and the trailer callback are parameters over a common context \<open>'r\<close>.

  The properties join the encoder to the decoder of theory \<open>Curl_Chunks\<close>: what one writes, the other
  reads back.
\<close>

section \<open>Operations\<close>

definition CURL_CHUNKED_MINLEN :: nat where "CURL_CHUNKED_MINLEN = 1024"
definition CURL_CHUNKED_MAXLEN :: nat where "CURL_CHUNKED_MAXLEN = 65536"
definition CURL_TRAILERFUNC_OK :: int where "CURL_TRAILERFUNC_OK = 0"

record chunked_reader =
  chunkbuf :: bufq
  read_eos :: bool
  eos :: bool

text \<open>
  A reader gets the room it may fill and says what it put there and whether that was the end. The
  trailer callback, when the application set one, returns its code and the list of trailers.
\<close>

type_synonym 'r creader = "'r \<Rightarrow> nat \<Rightarrow> CURLcode \<times> bytes \<times> bool \<times> 'r"
type_synonym 'r trailer_callback = "('r \<Rightarrow> int \<times> bytes list \<times> 'r) option"

definition cr_chunked_init :: "CURLcode \<times> chunked_reader" where
  "cr_chunked_init = (CURLE_OK, \<lparr>chunkbuf = Curl_bufq_init2 CURL_CHUNKED_MAXLEN 2 BUFQ_OPT_SOFT_LIMIT, read_eos = False, eos = False\<rparr>)"

definition cr_chunked_close :: "chunked_reader \<Rightarrow> chunked_reader" where
  "cr_chunked_close ctx = ctx\<lparr>chunkbuf := Curl_bufq_free (chunkbuf ctx)\<rparr>"

text \<open>A trailer is written only when a space follows its first colon.\<close>

definition formatted :: "bytes \<Rightarrow> bool" where
  "formatted tr \<longleftrightarrow> CHR '':'' \<in> set (cstr tr) \<and>
     peek (tl (dropWhile (\<lambda>c. c \<noteq> CHR '':'') (cstr tr))) = CHR '' ''"

fun add_trailers :: "bufq \<Rightarrow> bufmem \<Rightarrow> bytes list \<Rightarrow> CURLcode \<times> bufq \<times> bufmem" where
  "add_trailers q m [] = (CURLE_OK, q, m)"
| "add_trailers q m (tr # trailers) =
     (if \<not> formatted tr then add_trailers q m trailers
      else case Curl_bufq_cwrite q m (cstr tr) of (result, n, q, m) \<Rightarrow>
        case (if result = CURLE_OK then Curl_bufq_cwrite q m CRLF else (result, n, q, m)) of (result, n, q, m) \<Rightarrow>
          if result \<noteq> CURLE_OK then (result, q, m) else add_trailers q m trailers)"

definition add_last_chunk ::
  "'r trailer_callback \<Rightarrow> chunked_reader \<Rightarrow> bufmem \<Rightarrow> 'r \<Rightarrow> CURLcode \<times> chunked_reader \<times> bufmem \<times> 'r" where
  "add_last_chunk callback ctx m r =
     (case callback of
        None \<Rightarrow>
          (case Curl_bufq_cwrite (chunkbuf ctx) m (''0'' @ CRLF @ CRLF) of (result, n, q, m) \<Rightarrow>
             (result, ctx\<lparr>chunkbuf := q\<rparr>, m, r))
      | Some trailer_callback \<Rightarrow>
          (case Curl_bufq_cwrite (chunkbuf ctx) m (''0'' @ CRLF) of (result, n, q, m) \<Rightarrow>
             if result \<noteq> CURLE_OK then (result, ctx\<lparr>chunkbuf := q\<rparr>, m, r)
             else case trailer_callback r of (rc, trailers, r) \<Rightarrow>
               if rc \<noteq> CURL_TRAILERFUNC_OK then (CURLE_ABORTED_BY_CALLBACK, ctx\<lparr>chunkbuf := q\<rparr>, m, r)
               else case add_trailers q m trailers of (result, q, m) \<Rightarrow>
                 if result \<noteq> CURLE_OK then (result, ctx\<lparr>chunkbuf := q\<rparr>, m, r)
                 else case Curl_bufq_cwrite q m CRLF of (result, n, q, m) \<Rightarrow>
                   (result, ctx\<lparr>chunkbuf := q\<rparr>, m, r)))"

text \<open>\<open>curl_msnprintf(hd, sizeof(hd), "%zx\r\n", nread)\<close>: the conversion, then the rest of the format.\<close>

definition chunk_header :: "nat \<Rightarrow> nat \<times> bytes" where
  "chunk_header nread =
     curl_mvsnprintf 11 (out_number \<lparr>width = 0, prec = -1, flags = or FLAGS_LONG (or FLAGS_HEX FLAGS_UNSIGNED)\<rparr> nread 0 @ CRLF)"

definition chunk_room :: "nat \<Rightarrow> nat" where
  "chunk_room blen =
     (let blen = min blen CURL_CHUNKED_MAXLEN in
      if blen < CURL_CHUNKED_MINLEN then CURL_CHUNKED_MINLEN else blen - (8 + 2 + 2))"

definition wrap_chunk :: "bufq \<Rightarrow> bufmem \<Rightarrow> bytes \<Rightarrow> CURLcode \<times> bufq \<times> bufmem" where
  "wrap_chunk q m bytes =
     (case chunk_header (length bytes) of (hdlen, hdr) \<Rightarrow>
        if hdlen \<le> 0 then (CURLE_READ_ERROR, q, m)
        else case Curl_bufq_cwrite q m hdr of (result, n, q, m) \<Rightarrow>
          case (if result = CURLE_OK then Curl_bufq_cwrite q m bytes else (result, n, q, m)) of (result, n, q, m) \<Rightarrow>
            case (if result = CURLE_OK then Curl_bufq_cwrite q m CRLF else (result, n, q, m)) of (result, n, q, m) \<Rightarrow>
              (result, q, m))"

definition add_chunk ::
  "'r creader \<Rightarrow> 'r trailer_callback \<Rightarrow> chunked_reader \<Rightarrow> bufmem \<Rightarrow> 'r \<Rightarrow> nat \<Rightarrow> CURLcode \<times> chunked_reader \<times> bufmem \<times> 'r" where
  "add_chunk reader callback ctx m r blen =
     (case reader r (chunk_room blen) of (result, bytes, end_of_input, r) \<Rightarrow>
        if result \<noteq> CURLE_OK then (result, ctx, m, r)
        else
          let ctx = (if end_of_input then ctx\<lparr>read_eos := True\<rparr> else ctx) in
          case (if length bytes \<noteq> 0 then wrap_chunk (chunkbuf ctx) m bytes else (CURLE_OK, chunkbuf ctx, m)) of (result, q, m) \<Rightarrow>
            if result \<noteq> CURLE_OK then (result, ctx\<lparr>chunkbuf := q\<rparr>, m, r)
            else if read_eos ctx then add_last_chunk callback (ctx\<lparr>chunkbuf := q\<rparr>) m r
            else (CURLE_OK, ctx\<lparr>chunkbuf := q\<rparr>, m, r))"

text \<open>The result, the bytes put in the caller's buffer, and whether they are the last ones.\<close>

definition cr_chunked_read ::
  "'r creader \<Rightarrow> 'r trailer_callback \<Rightarrow> chunked_reader \<Rightarrow> bufmem \<Rightarrow> 'r \<Rightarrow> nat \<Rightarrow>
     CURLcode \<times> bytes \<times> bool \<times> chunked_reader \<times> bufmem \<times> 'r" where
  "cr_chunked_read reader callback ctx m r blen =
     (if eos ctx then (CURLE_OK, [], True, ctx, m, r)
      else case (if \<not> read_eos ctx \<and> Curl_bufq_is_empty (chunkbuf ctx) then add_chunk reader callback ctx m r blen
                 else (CURLE_OK, ctx, m, r)) of (result, ctx, m, r) \<Rightarrow>
        if result \<noteq> CURLE_OK then (result, [], False, ctx, m, r)
        else if \<not> Curl_bufq_is_empty (chunkbuf ctx) then
          (case Curl_bufq_cread (chunkbuf ctx) m blen of (result, out, q, m) \<Rightarrow>
             if result = CURLE_OK \<and> read_eos ctx \<and> Curl_bufq_is_empty q
             then (CURLE_OK, out, True, ctx\<lparr>chunkbuf := q, eos := True\<rparr>, m, r)
             else (result, out, False, ctx\<lparr>chunkbuf := q\<rparr>, m, r))
        else (CURLE_OK, [], False, ctx, m, r))"

definition cr_chunked_total_length :: "chunked_reader \<Rightarrow> int" where
  "cr_chunked_total_length ctx = -1"

section \<open>Writing to a queue with the soft limit\<close>

text \<open>Such a queue takes everything, or reports that memory has run out.\<close>

lemma write_loop_soft:
  assumes "bufq_ok q m" "soft_limit q" "write_loop q m buf written = (r, w, q', m')" "r \<noteq> CURLE_OUT_OF_MEMORY"
  shows "w = written + length buf"
  using assms(1-3)
proof (induction q m buf written rule: write_loop.induct)
  case (1 q m buf written)
  show ?case
  proof (cases "buf = []")
    case True
    with 1 show ?thesis by (auto simp: write_loop.simps[of q])
  next
    case False
    obtain found q1 m1 where t: "get_non_full_tail q m = (found, q1, m1)" by (cases "get_non_full_tail q m")
    note T = get_non_full_tail_ok[OF "1.prems"(1) t]
    have soft: "soft_limit q1" using same_setup_options[OF T(3)] "1.prems"(2) by simp
    have found using "1.prems"(3) False t soft assms(4) by (cases found) (auto simp: write_loop.simps[of q])
    obtain n c where a: "chunk_append (last (q_head q1)) buf = (n, c)" by fastforce
    have ne: "q_head q1 \<noteq> []" "\<not> chunk_is_full (last (q_head q1))" using T(6) \<open>found\<close> by auto
    note A = append_to_tail[OF T(1) ne(1) a]
    from A ne(2) False have n: "0 < n" "n \<le> length buf" by (auto simp: chunk_is_full_def)
    have q1: "bufq_ok (set_tail c q1) m1" "soft_limit (set_tail c q1)"
      using A soft same_setup_options[of q1 "set_tail c q1"] by (auto simp: appended_def)
    have "write_loop (set_tail c q1) m1 (drop n buf) (written + n) = (r, w, q', m')"
      using "1.prems"(3) False t \<open>found\<close> a n by (simp add: write_loop.simps[of q])
    with "1.IH"[OF False t[symmetric] refl _ a[symmetric]] \<open>found\<close> n q1 show ?thesis by simp
  qed
qed

lemma cwrite_soft:
  assumes "bufq_ok q m" "soft_limit q" "Curl_bufq_cwrite q m bs = (CURLE_OK, n, q', m')"
  shows "appended q m bs q' m' \<and> soft_limit q'"
proof -
  have w: "write_loop q m bs 0 = (CURLE_OK, n, q', m')" using assms(3) by (simp add: Curl_bufq_cwrite_def Curl_bufq_write_def)
  have "n = length bs" using write_loop_soft[OF assms(1,2) w] by simp
  with write_loop_ok[OF assms(1) w] have "appended q m bs q' m'" by auto
  then show ?thesis using same_setup_options[of q q'] assms(2) by (auto simp: appended_def)
qed

lemma cwrite_soft_result:
  assumes "bufq_ok q m" "soft_limit q" "Curl_bufq_cwrite q m bs = (r, n, q', m')"
  shows "r = CURLE_OK \<or> r = CURLE_OUT_OF_MEMORY"
proof (rule ccontr)
  assume r: "\<not> ?thesis"
  have w: "write_loop q m bs 0 = (r, n, q', m')" using assms(3) by (simp add: Curl_bufq_cwrite_def Curl_bufq_write_def)
  with write_loop_soft[OF assms(1,2) w] write_loop_ok[OF assms(1) w] r show False by (auto simp: write_code_def)
qed

section \<open>What is put in the queue\<close>

lemma chunk_header_flags:
  "number_base 2592 = 16" "\<not> flag 2592 FLAGS_CHAR" "\<not> flag 2592 FLAGS_LEFT" "\<not> flag 2592 FLAGS_PAD_NIL" "\<not> flag 2592 FLAGS_ALT"
  "\<not> flag 2592 FLAGS_SHOWSIGN" "\<not> flag 2592 FLAGS_SPACE" "flag 2592 FLAGS_HEX" "or FLAGS_LONG (or FLAGS_HEX FLAGS_UNSIGNED) = 2592"
  by code_simp+

lemma chunk_header_ok:
  assumes "0 < n" "n \<le> CURL_CHUNKED_MAXLEN"
  shows "\<exists>ds. chunk_header n = (length ds + 2, ds @ CRLF) \<and> size_line_ok ds [] n"
proof -
  define ds where "ds = number_work 2592 1 n"
  have l: "length (number_loop (number_base 2592) (number_digit 2592) n []) \<le> 6"
    using number_loop_length[of n 6 2592 "[]"] assms(2) by (simp add: CURL_CHUNKED_MAXLEN_def)
  have ne: "number_loop (number_base 2592) (number_digit 2592) n [] \<noteq> []" using assms(1) by (simp add: number_loop_nonempty)
  then have w: "ds = number_loop (number_base 2592) (number_digit 2592) n []"
    by (cases "number_loop (number_base 2592) (number_digit 2592) n []")
       (auto simp: ds_def number_work_def Let_def chunk_header_flags)
  have "number_width 2592 False 0 1 n \<le> 0" using ne
    by (cases "number_loop (number_base 2592) (number_digit 2592) n []")
       (auto simp: number_width_def Let_def chunk_header_flags)
  then have o: "out_number \<lparr>width = 0, prec = -1, flags = 2592\<rparr> n 0 = ds"
    by (simp add: out_number_def Let_def chunk_header_flags pad_def ds_def)
  have "chunk_header n = (length ds + 2, ds @ CRLF)"
    using l w by (simp add: chunk_header_def chunk_header_flags o mvsnprintf_eq)
  moreover have "size_line_ok ds [] n"
    using number_work_ok(1)[of 2592 1 n, folded ds_def] number_work_ok(2)[of 2592 0 1 n, folded ds_def] l ne assms(2)
    unfolding chunk_header_flags(1)
    by (simp add: size_line_ok_def w list_all_iff digit_of_base_iff CHUNK_MAXNUM_LEN_def CURL_OFF_T_MAX_def CURL_CHUNKED_MAXLEN_def
        chunk_header_flags)
  ultimately show ?thesis by blast
qed

lemma appended_soft: "soft_limit q \<Longrightarrow> appended q m bs q' m' \<Longrightarrow> soft_limit q' \<and> bufq_ok q' m'"
  using same_setup_options[of q q'] by (auto simp: appended_def)

text \<open>The encoder writes no extensions.\<close>

definition plain :: "wire_chunk \<Rightarrow> bool" where
  "plain c \<longleftrightarrow> wire_ok c \<and> extension c = []"

lemma wrap_chunk_ok:
  assumes "bufq_ok q m" "soft_limit q" "bs \<noteq> []" "length bs \<le> CURL_CHUNKED_MAXLEN" "wrap_chunk q m bs = (CURLE_OK, q', m')"
  shows "\<exists>c. plain c \<and> payload c = bs \<and> appended q m (wire c) q' m'"
proof -
  obtain ds where ds: "chunk_header (length bs) = (length ds + 2, ds @ CRLF)" "size_line_ok ds [] (length bs)"
    using chunk_header_ok[of "length bs"] assms(3,4) by auto
  obtain n1 q1 m1 where 1: "Curl_bufq_cwrite q m (ds @ CRLF) = (CURLE_OK, n1, q1, m1)"
    using assms(5) ds(1) by (auto simp: wrap_chunk_def split: prod.splits if_splits)
  obtain n2 q2 m2 where 2: "Curl_bufq_cwrite q1 m1 bs = (CURLE_OK, n2, q2, m2)"
    using assms(5) ds(1) 1 by (auto simp: wrap_chunk_def split: prod.splits if_splits)
  obtain n3 where 3: "Curl_bufq_cwrite q2 m2 CRLF = (CURLE_OK, n3, q', m')"
    using assms(5) ds(1) 1 2 by (auto simp: wrap_chunk_def split: prod.splits if_splits)
  note A1 = cwrite_soft[OF assms(1,2) 1]
  note A2 = cwrite_soft[OF _ _ 2]
  note A3 = cwrite_soft[OF _ _ 3]
  from A1 A2 A3 have "appended q m ((ds @ CRLF) @ bs @ CRLF) q' m'"
    by (meson appended_def appended_trans)
  then show ?thesis using ds(2) assms(3)
    by (intro exI[of _ "\<lparr>digits = ds, extension = [], payload = bs\<rparr>"]) (simp add: plain_def wire_ok_def wire_def)
qed

lemma add_trailers_ok:
  assumes "bufq_ok q m" "soft_limit q" "add_trailers q m trs = (CURLE_OK, q', m')"
  shows "appended q m (concat (map (\<lambda>t. t @ CRLF) (map cstr (filter formatted trs)))) q' m'"
  using assms
proof (induction trs arbitrary: q m)
  case Nil
  then show ?case by (simp add: appended_refl)
next
  case (Cons t trs)
  show ?case
  proof (cases "formatted t")
    case False
    with Cons show ?thesis by simp
  next
    case True
    obtain n1 q1 m1 where 1: "Curl_bufq_cwrite q m (cstr t) = (CURLE_OK, n1, q1, m1)"
      using Cons.prems(3) True by (auto split: prod.splits if_splits)
    obtain n2 q2 m2 where 2: "Curl_bufq_cwrite q1 m1 CRLF = (CURLE_OK, n2, q2, m2)" "add_trailers q2 m2 trs = (CURLE_OK, q', m')"
      using Cons.prems(3) True 1 by (auto split: prod.splits if_splits)
    note A1 = cwrite_soft[OF Cons.prems(1,2) 1]
    then have A2: "appended q1 m1 CRLF q2 m2 \<and> soft_limit q2" using cwrite_soft[OF _ _ 2(1)] by (simp add: appended_def)
    with Cons.IH[OF _ _ 2(2)] have "appended q2 m2 (concat (map (\<lambda>t. t @ CRLF) (map cstr (filter formatted trs)))) q' m'"
      by (simp add: appended_def)
    with A1 A2 True appended_trans[OF appended_trans[of q m _ q1 m1 _ q2 m2]] show ?thesis by fastforce
  qed
qed

text \<open>
  What the encoder relies on: a reader never returns more than it was given room for. \<open>taken\<close> is what
  it has delivered so far, \<open>given\<close> the well-formed trailers the callback has returned.
\<close>

definition feeds :: "'r creader \<Rightarrow> 'r trailer_callback \<Rightarrow> ('r \<Rightarrow> bytes) \<Rightarrow> ('r \<Rightarrow> bytes list) \<Rightarrow> bool" where
  "feeds reader callback taken given \<longleftrightarrow>
     (\<forall>r n bs e r'. reader r n = (CURLE_OK, bs, e, r') \<longrightarrow> length bs \<le> n \<and> taken r' = taken r @ bs \<and> given r' = given r) \<and>
     (\<forall>cb r rc ts r'. callback = Some cb \<longrightarrow> cb r = (rc, ts, r') \<longrightarrow>
        taken r' = taken r \<and> given r' = given r @ map cstr (filter formatted ts))"

definition encoded :: "chunked_reader \<Rightarrow> bufmem \<Rightarrow> bytes \<Rightarrow> bytes list \<Rightarrow> bytes \<Rightarrow> bool" where
  "encoded ctx m input trailers out \<longleftrightarrow> bufq_ok (chunkbuf ctx) m \<and> soft_limit (chunkbuf ctx) \<and>
     (eos ctx \<longleftrightarrow> read_eos ctx \<and> content (chunkbuf ctx) = []) \<and>
     (\<exists>cs. list_all plain cs \<and> concat (map payload cs) = input \<and>
        (if read_eos ctx then out @ content (chunkbuf ctx) = wire_stream cs ''0'' [] trailers
         else out @ content (chunkbuf ctx) = concat (map wire cs) \<and> trailers = []))"

lemma add_last_chunk_ok:
  assumes "feeds reader callback taken given" "bufq_ok (chunkbuf ctx) m" "soft_limit (chunkbuf ctx)"
    "add_last_chunk callback ctx m r = (CURLE_OK, ctx', m', r')"
  shows "\<exists>q' ts. ctx' = ctx\<lparr>chunkbuf := q'\<rparr> \<and> appended (chunkbuf ctx) m (wire_stream [] ''0'' [] ts) q' m' \<and>
    taken r' = taken r \<and> given r' = given r @ ts"
proof (cases callback)
  case None
  with assms(4) obtain n q' where w: "Curl_bufq_cwrite (chunkbuf ctx) m (''0'' @ CRLF @ CRLF) = (CURLE_OK, n, q', m')"
    "ctx' = ctx\<lparr>chunkbuf := q'\<rparr>" "r' = r" by (auto simp: add_last_chunk_def split: prod.splits)
  with cwrite_soft[OF assms(2,3) w(1)] show ?thesis by (auto simp: wire_stream_def)
next
  case (Some cb)
  obtain n1 q1 m1 where 1: "Curl_bufq_cwrite (chunkbuf ctx) m (''0'' @ CRLF) = (CURLE_OK, n1, q1, m1)"
    using assms(4) Some by (auto simp: add_last_chunk_def split: prod.splits if_splits)
  obtain rc ts where cb: "cb r = (rc, ts, r')" "rc = CURL_TRAILERFUNC_OK"
    using assms(4) Some 1 by (auto simp: add_last_chunk_def split: prod.splits if_splits)
  obtain q2 m2 where 2: "add_trailers q1 m1 ts = (CURLE_OK, q2, m2)"
    using assms(4) Some 1 cb by (auto simp: add_last_chunk_def split: prod.splits if_splits)
  obtain n3 q3 where 3: "Curl_bufq_cwrite q2 m2 CRLF = (CURLE_OK, n3, q3, m')" "ctx' = ctx\<lparr>chunkbuf := q3\<rparr>"
    using assms(4) Some 1 cb 2 by (auto simp: add_last_chunk_def split: prod.splits if_splits)
  let ?ts = "map cstr (filter formatted ts)"
  note A1 = cwrite_soft[OF assms(2,3) 1]
  then have A2: "appended q1 m1 (concat (map (\<lambda>t. t @ CRLF) ?ts)) q2 m2" using add_trailers_ok[OF _ _ 2] by (simp add: appended_def)
  then have "appended q2 m2 CRLF q3 m'" using cwrite_soft[OF _ _ 3(1)] A1 appended_soft by blast
  from appended_trans[OF appended_trans[OF conjunct1[OF A1] A2] this]
  have "appended (chunkbuf ctx) m (wire_stream [] ''0'' [] ?ts) q3 m'" by (simp add: wire_stream_def)
  moreover have "taken r' = taken r \<and> given r' = given r @ ?ts" using assms(1) Some cb(1) by (auto simp: feeds_def)
  ultimately show ?thesis using 3(2) by blast
qed

lemma chunk_room_bound: "chunk_room blen \<le> CURL_CHUNKED_MAXLEN"
  by (auto simp: chunk_room_def CURL_CHUNKED_MAXLEN_def CURL_CHUNKED_MINLEN_def Let_def)

lemma add_chunk_ok:
  assumes "feeds reader callback taken given" "encoded ctx m (taken r) (given r) out" "\<not> read_eos ctx" "given r = []"
    "add_chunk reader callback ctx m r blen = (CURLE_OK, ctx', m', r')"
  shows "encoded ctx' m' (taken r') (given r') out \<and> eos ctx' = eos ctx"
proof -
  obtain bs e r1 where rd: "reader r (chunk_room blen) = (CURLE_OK, bs, e, r1)"
    using assms(5) by (auto simp: add_chunk_def split: prod.splits if_splits)
  then have bs: "length bs \<le> CURL_CHUNKED_MAXLEN" "taken r1 = taken r @ bs" "given r1 = []"
    using assms(1,4) chunk_room_bound[of blen] by (fastforce simp: feeds_def)+
  define c1 where "c1 = (if e then ctx\<lparr>read_eos := True\<rparr> else ctx)"
  have q: "chunkbuf c1 = chunkbuf ctx" "read_eos c1 = e" "eos c1 = eos ctx" using assms(3) by (auto simp: c1_def)
  obtain q1 m1 where w: "(if length bs \<noteq> 0 then wrap_chunk (chunkbuf ctx) m bs else (CURLE_OK, chunkbuf ctx, m)) = (CURLE_OK, q1, m1)"
    "(if e then add_last_chunk callback (c1\<lparr>chunkbuf := q1\<rparr>) m1 r1 else (CURLE_OK, c1\<lparr>chunkbuf := q1\<rparr>, m1, r1)) = (CURLE_OK, ctx', m', r')"
  proof -
    obtain res q1 m1 where w: "(if length bs \<noteq> 0 then wrap_chunk (chunkbuf ctx) m bs else (CURLE_OK, chunkbuf ctx, m)) = (res, q1, m1)"
      by (metis prod_cases3)
    have "add_chunk reader callback ctx m r blen =
      (if res \<noteq> CURLE_OK then (res, c1\<lparr>chunkbuf := q1\<rparr>, m1, r1)
       else if e then add_last_chunk callback (c1\<lparr>chunkbuf := q1\<rparr>) m1 r1 else (CURLE_OK, c1\<lparr>chunkbuf := q1\<rparr>, m1, r1))"
      unfolding add_chunk_def rd prod.case Let_def c1_def[symmetric] q w by simp
    with assms(5) w that[of q1 m1] show ?thesis by (cases "res = CURLE_OK") auto
  qed
  from assms(2) have ok: "bufq_ok (chunkbuf ctx) m" "soft_limit (chunkbuf ctx)" "\<not> eos ctx" using assms(3) by (auto simp: encoded_def)
  obtain cs where cs: "list_all plain cs" "concat (map payload cs) = taken r" "out @ content (chunkbuf ctx) = concat (map wire cs)"
    using assms(2,3) by (auto simp: encoded_def)
  obtain ds where ds: "list_all plain ds" "concat (map payload ds) = bs" "appended (chunkbuf ctx) m (concat (map wire ds)) q1 m1"
  proof (cases "bs = []")
    case True
    with w(1) ok that[of "[]"] show ?thesis by (auto simp: appended_refl)
  next
    case False
    with w(1) wrap_chunk_ok[OF ok(1,2) False bs(1), of q1 m1] obtain c where "plain c" "payload c = bs" "appended (chunkbuf ctx) m (wire c) q1 m1"
      by auto
    with that[of "[c]"] show ?thesis by simp
  qed
  have q1: "bufq_ok q1 m1" "soft_limit q1" using appended_soft[OF ok(2) ds(3)] by auto
  have out: "out @ content q1 = concat (map wire (cs @ ds))" using cs(3) ds(3) by (simp add: appended_def)
  show ?thesis
  proof (cases e)
    case False
    with w(2) have "ctx' = c1\<lparr>chunkbuf := q1\<rparr>" "m' = m1" "r' = r1" by auto
    with False q q1 out cs ds bs ok(3) show ?thesis
      by (auto simp: encoded_def intro!: exI[of _ "cs @ ds"])
  next
    case True
    with w(2) have "add_last_chunk callback (c1\<lparr>chunkbuf := q1\<rparr>) m1 r1 = (CURLE_OK, ctx', m', r')" by simp
    from add_last_chunk_ok[OF assms(1) _ _ this] q1 obtain q2 ts where
      2: "ctx' = c1\<lparr>chunkbuf := q2\<rparr>" "appended q1 m1 (wire_stream [] ''0'' [] ts) q2 m'" "taken r' = taken r1" "given r' = given r1 @ ts"
      by auto
    have "out @ content q2 = wire_stream (cs @ ds) ''0'' [] ts" "content q2 \<noteq> []"
      using out 2(2) by (simp_all add: appended_def wire_stream_def)
    with 2 True q cs ds bs ok(3) appended_soft[OF q1(2) 2(2)] show ?thesis
      by (auto simp: encoded_def intro!: exI[of _ "cs @ ds"])
  qed
qed

lemma cread_ok:
  assumes "bufq_ok q m" "soft_limit q" "Curl_bufq_cread q m blen = (res, out, q', m')"
  shows "out = take blen (content q) \<and> consumed q m blen q' m' \<and> soft_limit q' \<and> (res = CURLE_OK \<longleftrightarrow> out \<noteq> [])"
proof -
  obtain o1 q1 m1 where l: "read_loop q m blen [] = (o1, q1, m1)" by (cases "read_loop q m blen []")
  then have e: "out = o1" "q' = q1" "m' = m1" "res = (if length o1 = 0 then CURLE_AGAIN else CURLE_OK)"
    using assms(3) by (auto simp: Curl_bufq_cread_def Curl_bufq_read_def)
  from read_loop_ok[OF assms(1) l] e have c: "out = take blen (content q)" "consumed q m blen q' m'" by auto
  then have "soft_limit q'" using assms(2) same_setup_options[of q q'] by (simp add: Curl_Bufq.consumed_def)
  moreover have "res = CURLE_OK \<longleftrightarrow> out \<noteq> []" unfolding e by simp
  ultimately show ?thesis using c by blast
qed

lemma cr_chunked_read_ok:
  assumes "feeds reader callback taken given" "encoded ctx m (taken r) (given r) out"
    "cr_chunked_read reader callback ctx m r blen = (CURLE_OK, bs, e, ctx', m', r')"
  shows "encoded ctx' m' (taken r') (given r') (out @ bs) \<and> e = eos ctx'"
proof (cases "eos ctx")
  case True
  with assms(2,3) show ?thesis by (auto simp: cr_chunked_read_def)
next
  case False
  obtain res c1 m1 r1 where a: "(if \<not> read_eos ctx \<and> Curl_bufq_is_empty (chunkbuf ctx) then add_chunk reader callback ctx m r blen
      else (CURLE_OK, ctx, m, r)) = (res, c1, m1, r1)" by (metis prod_cases4)
  then have res: "res = CURLE_OK" using assms(3) False by (auto simp: cr_chunked_read_def split: if_splits)
  have enc: "encoded c1 m1 (taken r1) (given r1) out \<and> eos c1 = eos ctx"
  proof (cases "\<not> read_eos ctx \<and> Curl_bufq_is_empty (chunkbuf ctx)")
    case True
    then have "given r = []" using assms(2) by (auto simp: encoded_def)
    with add_chunk_ok[OF assms(1,2)] a res True show ?thesis by auto
  qed (use a assms(2) in auto)
  then have c1: "bufq_ok (chunkbuf c1) m1" "soft_limit (chunkbuf c1)" by (auto simp: encoded_def)
  show ?thesis
  proof (cases "Curl_bufq_is_empty (chunkbuf c1)")
    case True
    with assms(3) a res False enc show ?thesis by (auto simp: cr_chunked_read_def)
  next
    case ne: False
    obtain res2 o2 q2 m2 where rd: "Curl_bufq_cread (chunkbuf c1) m1 blen = (res2, o2, q2, m2)" by (metis prod_cases4)
    note R = cread_ok[OF c1 rd]
    have q2: "bufq_ok q2 m2" "o2 @ content q2 = content (chunkbuf c1)" using R by (auto simp: Curl_Bufq.consumed_def)
    have empty: "Curl_bufq_is_empty q2 \<longleftrightarrow> content q2 = []" by (rule is_empty_content[OF q2(1)])
    have "(if res2 = CURLE_OK \<and> read_eos c1 \<and> Curl_bufq_is_empty q2
       then (CURLE_OK, o2, True, c1\<lparr>chunkbuf := q2, eos := True\<rparr>, m2, r1)
       else (res2, o2, False, c1\<lparr>chunkbuf := q2\<rparr>, m2, r1)) = (CURLE_OK, bs, e, ctx', m', r')"
      using assms(3) False a res ne rd by (simp add: cr_chunked_read_def)
    with enc False q2 empty R show ?thesis by (auto simp: encoded_def split: if_splits)
  qed
qed

text \<open>Reading until the end of the stream, with the room each caller has.\<close>

fun read_all ::
  "'r creader \<Rightarrow> 'r trailer_callback \<Rightarrow> chunked_reader \<Rightarrow> bufmem \<Rightarrow> 'r \<Rightarrow> nat list \<Rightarrow>
     CURLcode \<times> bytes \<times> bool \<times> chunked_reader \<times> bufmem \<times> 'r" where
  "read_all reader callback ctx m r [] = (CURLE_OK, [], False, ctx, m, r)"
| "read_all reader callback ctx m r (blen # blens) =
     (case cr_chunked_read reader callback ctx m r blen of (result, bs, e, ctx, m, r) \<Rightarrow>
        if result \<noteq> CURLE_OK \<or> e then (result, bs, e, ctx, m, r)
        else case read_all reader callback ctx m r blens of (result, cs, e, ctx, m, r) \<Rightarrow> (result, bs @ cs, e, ctx, m, r))"

lemma read_all_ok:
  assumes "feeds reader callback taken given" "encoded ctx m (taken r) (given r) out" "\<not> eos ctx"
    "read_all reader callback ctx m r blens = (CURLE_OK, bs, e, ctx', m', r')"
  shows "encoded ctx' m' (taken r') (given r') (out @ bs) \<and> e = eos ctx'"
  using assms(2-4)
proof (induction blens arbitrary: ctx m r out bs)
  case (Cons blen blens)
  obtain res cs e1 c1 m1 r1 where 1: "cr_chunked_read reader callback ctx m r blen = (res, cs, e1, c1, m1, r1)" by (metis prod_cases6)
  with Cons.prems(3) have res: "res = CURLE_OK" by (auto split: if_splits prod.splits)
  note R = cr_chunked_read_ok[OF assms(1) Cons.prems(1) 1[unfolded res]]
  show ?case
  proof (cases e1)
    case True
    with Cons.prems(3) 1 res R show ?thesis by auto
  next
    case False
    obtain ds where 2: "read_all reader callback c1 m1 r1 blens = (CURLE_OK, ds, e, ctx', m', r')" "bs = cs @ ds"
      using Cons.prems(3) 1 res False by (auto split: prod.splits)
    with Cons.IH[OF _ _ 2(1), of "out @ cs"] R False show ?thesis by auto
  qed
qed auto

lemma encoded_init: "encoded (snd cr_chunked_init) m [] [] []"
proof -
  have "bufq_ok (Curl_bufq_init2 CURL_CHUNKED_MAXLEN 2 BUFQ_OPT_SOFT_LIMIT) m"
    by (simp add: Curl_bufq_init2_def bufq_init_ok CURL_CHUNKED_MAXLEN_def)
  moreover have "soft_limit (Curl_bufq_init2 CURL_CHUNKED_MAXLEN 2 BUFQ_OPT_SOFT_LIMIT)"
    "content (Curl_bufq_init2 CURL_CHUNKED_MAXLEN 2 BUFQ_OPT_SOFT_LIMIT) = []"
    by (simp_all add: Curl_bufq_init2_def bufq_init_def soft_limit_def BUFQ_OPT_SOFT_LIMIT_def content_def)
  ultimately show ?thesis by (auto simp: encoded_def cr_chunked_init_def intro: exI[of _ "[]"])
qed

section \<open>With memory and a willing reader, every read succeeds\<close>

definition plenty :: "bufq \<Rightarrow> bufmem \<Rightarrow> bool" where
  "plenty q m \<longleftrightarrow> bufq_ok q m \<and> soft_limit q \<and> q_pool q = None \<and> q_chunk_size q \<le> SIZE_MAX - sizeof_buf_chunk \<and> allocs m = (\<lambda>_. True)"

lemma get_spare_plenty:
  assumes "plenty q m" "get_spare q m = (x, q', m')"
  shows "x \<noteq> None \<and> allocs m' = (\<lambda>_. True)"
  using assms by (auto simp: plenty_def get_spare_def calloc_chunk_def request_def split: list.splits if_splits)

lemma tail_plenty:
  assumes "plenty q m" "get_non_full_tail q m = (found, q', m')"
  shows "found \<and> plenty q' m'"
proof -
  have ok: "bufq_ok q m" using assms(1) by (simp add: plenty_def)
  note T = get_non_full_tail_ok[OF ok assms(2)]
  have "found \<and> allocs m' = (\<lambda>_. True)"
    using assms get_spare_plenty[OF assms(1)]
    by (auto simp: get_non_full_tail_def plenty_def split: if_splits prod.splits option.splits)
  with assms(1) T(1,3) same_setup_options[OF T(3)] show ?thesis by (auto simp: plenty_def same_setup_def)
qed

lemma write_loop_plenty:
  assumes "plenty q m" "write_loop q m buf written = (r, w, q', m')"
  shows "r \<noteq> CURLE_OUT_OF_MEMORY \<and> plenty q' m'"
  using assms
proof (induction q m buf written rule: write_loop.induct)
  case (1 q m buf written)
  show ?case
  proof (cases "buf = []")
    case True
    with 1 show ?thesis by (auto simp: write_loop.simps[of q] write_code_def)
  next
    case False
    obtain found q1 m1 where t: "get_non_full_tail q m = (found, q1, m1)" by (cases "get_non_full_tail q m")
    note P = tail_plenty[OF "1.prems"(1) t]
    have ok: "bufq_ok q m" using "1.prems"(1) by (simp add: plenty_def)
    note T = get_non_full_tail_ok[OF ok t]
    obtain n c where a: "chunk_append (last (q_head q1)) buf = (n, c)" by fastforce
    have ne: "q_head q1 \<noteq> []" "\<not> chunk_is_full (last (q_head q1))" using T(6) P by auto
    note A = append_to_tail[OF T(1) ne(1) a]
    from A ne(2) False have n: "0 < n" by (auto simp: chunk_is_full_def)
    have "plenty (set_tail c q1) m1"
      using P A same_setup_options[of q1 "set_tail c q1"] by (auto simp: plenty_def appended_def same_setup_def)
    moreover have "write_loop (set_tail c q1) m1 (drop n buf) (written + n) = (r, w, q', m')"
      using "1.prems"(2) False t P a n by (simp add: write_loop.simps[of q])
    ultimately show ?thesis using "1.IH"[OF False t[symmetric] refl _ a[symmetric]] P n by simp
  qed
qed

lemma cwrite_plenty:
  assumes "plenty q m"
  shows "\<exists>n q' m'. Curl_bufq_cwrite q m bs = (CURLE_OK, n, q', m') \<and> plenty q' m'"
proof -
  obtain r n q' m' where w: "Curl_bufq_cwrite q m bs = (r, n, q', m')" by (metis prod_cases4)
  then have "write_loop q m bs 0 = (r, n, q', m')" by (simp add: Curl_bufq_cwrite_def Curl_bufq_write_def)
  from write_loop_plenty[OF assms this] cwrite_soft_result[OF _ _ w] assms w show ?thesis by (auto simp: plenty_def)
qed

lemma wrap_chunk_plenty:
  assumes "plenty q m" "bs \<noteq> []" "length bs \<le> CURL_CHUNKED_MAXLEN"
  shows "\<exists>q' m'. wrap_chunk q m bs = (CURLE_OK, q', m') \<and> plenty q' m'"
proof -
  obtain ds where ds: "chunk_header (length bs) = (length ds + 2, ds @ CRLF)"
    using chunk_header_ok[of "length bs"] assms(2,3) by auto
  obtain n1 q1 m1 where 1: "Curl_bufq_cwrite q m (ds @ CRLF) = (CURLE_OK, n1, q1, m1)" "plenty q1 m1"
    using cwrite_plenty[OF assms(1)] by blast
  obtain n2 q2 m2 where 2: "Curl_bufq_cwrite q1 m1 bs = (CURLE_OK, n2, q2, m2)" "plenty q2 m2"
    using cwrite_plenty[OF 1(2)] by blast
  obtain n3 q3 m3 where 3: "Curl_bufq_cwrite q2 m2 CRLF = (CURLE_OK, n3, q3, m3)" "plenty q3 m3"
    using cwrite_plenty[OF 2(2)] by blast
  show ?thesis using ds 1 2 3 by (simp add: wrap_chunk_def)
qed

lemma add_trailers_plenty: "plenty q m \<Longrightarrow> \<exists>q' m'. add_trailers q m trs = (CURLE_OK, q', m') \<and> plenty q' m'"
proof (induction trs arbitrary: q m)
  case (Cons t trs)
  obtain n1 q1 m1 where 1: "Curl_bufq_cwrite q m (cstr t) = (CURLE_OK, n1, q1, m1)" "plenty q1 m1"
    using cwrite_plenty[OF Cons.prems] by blast
  obtain n2 q2 m2 where 2: "Curl_bufq_cwrite q1 m1 CRLF = (CURLE_OK, n2, q2, m2)" "plenty q2 m2"
    using cwrite_plenty[OF 1(2)] by blast
  show ?case using Cons.IH[OF Cons.prems] Cons.IH[OF 2(2)] 1(1) 2(1) by (cases "formatted t") auto
qed simp

definition willing :: "'r creader \<Rightarrow> 'r trailer_callback \<Rightarrow> bool" where
  "willing reader callback \<longleftrightarrow> (\<forall>r n. fst (reader r n) = CURLE_OK) \<and>
     (\<forall>cb r. callback = Some cb \<longrightarrow> fst (cb r) = CURL_TRAILERFUNC_OK)"

lemma add_last_chunk_plenty:
  assumes "willing reader callback" "plenty (chunkbuf ctx) m"
  shows "\<exists>q' m' r'. add_last_chunk callback ctx m r = (CURLE_OK, ctx\<lparr>chunkbuf := q'\<rparr>, m', r') \<and> plenty q' m'"
proof (cases callback)
  case None
  from cwrite_plenty[OF assms(2), of "''0'' @ CRLF @ CRLF"] show ?thesis by (auto simp: add_last_chunk_def None)
next
  case (Some cb)
  obtain n1 q1 m1 where 1: "Curl_bufq_cwrite (chunkbuf ctx) m (''0'' @ CRLF) = (CURLE_OK, n1, q1, m1)" "plenty q1 m1"
    using cwrite_plenty[OF assms(2)] by blast
  obtain ts r1 where cb: "cb r = (CURL_TRAILERFUNC_OK, ts, r1)"
    using assms(1) Some by (cases "cb r") (auto simp: willing_def dest: spec[of _ r])
  obtain q2 m2 where 2: "add_trailers q1 m1 ts = (CURLE_OK, q2, m2)" "plenty q2 m2" using add_trailers_plenty[OF 1(2)] by blast
  obtain n3 q3 m3 where 3: "Curl_bufq_cwrite q2 m2 CRLF = (CURLE_OK, n3, q3, m3)" "plenty q3 m3"
    using cwrite_plenty[OF 2(2)] by blast
  show ?thesis using 1 cb 2 3 by (auto simp: add_last_chunk_def Some)
qed

lemma add_chunk_plenty:
  assumes "feeds reader callback taken given" "willing reader callback" "plenty (chunkbuf ctx) m"
  shows "\<exists>ctx' m' r'. add_chunk reader callback ctx m r blen = (CURLE_OK, ctx', m', r') \<and> plenty (chunkbuf ctx') m'"
proof -
  obtain bs e r1 where rd: "reader r (chunk_room blen) = (CURLE_OK, bs, e, r1)"
    using assms(2) by (metis willing_def prod.collapse)
  then have bs: "length bs \<le> CURL_CHUNKED_MAXLEN"
    using assms(1) chunk_room_bound[of blen] by (fastforce simp: feeds_def)
  obtain q1 m1 where w: "(if length bs \<noteq> 0 then wrap_chunk (chunkbuf ctx) m bs else (CURLE_OK, chunkbuf ctx, m)) = (CURLE_OK, q1, m1)" "plenty q1 m1"
    using wrap_chunk_plenty[OF assms(3) _ bs] assms(3) by (cases "bs = []") auto
  define c1 where "c1 = (if e then ctx\<lparr>read_eos := True\<rparr> else ctx)"
  have q: "chunkbuf c1 = chunkbuf ctx" by (simp add: c1_def)
  obtain q2 m2 r2 where l: "add_last_chunk callback (c1\<lparr>chunkbuf := q1\<rparr>) m1 r1 = (CURLE_OK, c1\<lparr>chunkbuf := q2\<rparr>, m2, r2)" "plenty q2 m2"
    using add_last_chunk_plenty[OF assms(2), of "c1\<lparr>chunkbuf := q1\<rparr>" m1 r1] w(2) by auto
  show ?thesis unfolding add_chunk_def rd prod.case Let_def c1_def[symmetric] q w(1) using l w(2) by simp
qed

lemma prune_chunks_allocs: "prune_chunks cs q m = (q', m') \<Longrightarrow> allocs m' = allocs m"
proof (induction cs q m rule: prune_chunks.induct)
  case (2 c cs q m)
  obtain q1 m1 where r: "retire_chunk (q\<lparr>q_head := cs\<rparr>) m c = (q1, m1)" by fastforce
  then have "allocs m1 = allocs m" by (auto simp: retire_chunk_def bufcp_put_def Let_def split: option.splits if_splits)
  with 2 r show ?case by (auto split: if_splits)
qed auto

lemma read_loop_allocs: "read_loop q m len out = (out', q', m') \<Longrightarrow> allocs m' = allocs m"
proof (induction q m len out rule: read_loop.induct)
  case (1 q m len out)
  show ?case
  proof (cases "q_head q = [] \<or> len = 0")
    case True
    with 1 show ?thesis by (cases "q_head q") (auto simp: read_loop.simps[of q])
  next
    case False
    then obtain c cs where h: "q_head q = c # cs" "len \<noteq> 0" by (cases "q_head q") auto
    obtain n bs c' where k: "chunk_read c len = (n, bs, c')" by (cases "chunk_read c len")
    obtain q1 m1 where p: "prune_head (q\<lparr>q_head := c' # cs\<rparr>) m = (q1, m1)" by fastforce
    have "read_loop q1 m1 (len - n) (out @ bs) = (out', q', m')"
      using "1.prems" h k p by (simp add: read_loop.simps[of q])
    with "1.IH"[OF h k[symmetric] refl p[symmetric]] prune_chunks_allocs[OF p[unfolded prune_head_def]] show ?thesis by simp
  qed
qed

lemma cread_plenty:
  assumes "plenty q m" "Curl_bufq_cread q m blen = (res, out, q', m')"
  shows "plenty q' m'"
proof -
  obtain o1 q1 m1 where l: "read_loop q m blen [] = (o1, q1, m1)" by (cases "read_loop q m blen []")
  then have "m' = m1" using assms(2) by (auto simp: Curl_bufq_cread_def Curl_bufq_read_def)
  with read_loop_allocs[OF l] cread_ok[OF _ _ assms(2)] assms(1) show ?thesis
    by (auto simp: plenty_def Curl_Bufq.consumed_def same_setup_def)
qed

lemma cr_chunked_read_plenty:
  assumes "feeds reader callback taken given" "willing reader callback" "encoded ctx m (taken r) (given r) out" "plenty (chunkbuf ctx) m" "0 < blen"
  shows "\<exists>bs e ctx' m' r'. cr_chunked_read reader callback ctx m r blen = (CURLE_OK, bs, e, ctx', m', r') \<and>
    plenty (chunkbuf ctx') m' \<and> length bs \<le> blen \<and> (read_eos ctx' \<longrightarrow> e \<or> length bs = blen)"
proof (cases "eos ctx")
  case True
  with assms(4) show ?thesis by (auto simp: cr_chunked_read_def)
next
  case False
  obtain c1 m1 r1 where a: "(if \<not> read_eos ctx \<and> Curl_bufq_is_empty (chunkbuf ctx) then add_chunk reader callback ctx m r blen
      else (CURLE_OK, ctx, m, r)) = (CURLE_OK, c1, m1, r1)" and c1: "plenty (chunkbuf c1) m1"
    using add_chunk_plenty[OF assms(1,2,4), of r blen] assms(4) by (cases "\<not> read_eos ctx \<and> Curl_bufq_is_empty (chunkbuf ctx)") auto
  have enc: "encoded c1 m1 (taken r1) (given r1) out \<and> eos c1 = eos ctx"
  proof (cases "\<not> read_eos ctx \<and> Curl_bufq_is_empty (chunkbuf ctx)")
    case True
    then have "given r = []" using assms(3) by (auto simp: encoded_def)
    with add_chunk_ok[OF assms(1,3)] a True show ?thesis by auto
  qed (use a assms(3) in auto)
  have ok: "bufq_ok (chunkbuf c1) m1" "soft_limit (chunkbuf c1)" using c1 by (simp_all add: plenty_def)
  note empty = is_empty_content[OF ok(1)]
  show ?thesis
  proof (cases "Curl_bufq_is_empty (chunkbuf c1)")
    case True
    with enc empty False have "\<not> read_eos c1" by (auto simp: encoded_def)
    with True a False c1 show ?thesis by (auto simp: cr_chunked_read_def)
  next
    case ne: False
    obtain res2 o2 q2 m2 where rd: "Curl_bufq_cread (chunkbuf c1) m1 blen = (res2, o2, q2, m2)" by (metis prod_cases4)
    note R = cread_ok[OF ok rd]
    have q2: "bufq_ok q2 m2" "content q2 = drop blen (content (chunkbuf c1))" using R by (auto simp: Curl_Bufq.consumed_def)
    have "o2 \<noteq> []" using R ne assms(5) empty by auto
    then have "res2 = CURLE_OK" using R by simp
    moreover have "Curl_bufq_is_empty q2 \<or> length o2 = blen" using R q2 is_empty_content[OF q2(1)] by auto
    moreover have "length o2 \<le> blen" using R by simp
    ultimately show ?thesis using a False ne rd cread_plenty[OF c1 rd] by (auto simp: cr_chunked_read_def)
  qed
qed

section \<open>Properties\<close>

text \<open>
  C7: Chunked encoding and decoding are inverse. Whatever pieces the input arrives in, however much
  room the callers give, and with the trailers of the application, the bytes the encoder hands out up
  to the end of its stream are decoded without an error to exactly the bytes the encoder was fed, and
  the trailers arrive line by line; the decoder is done with the last byte.
\<close>

theorem chunked_roundtrip:
  assumes "feeds reader callback taken given" "taken r = []" "given r = []"
    "read_all reader callback (snd cr_chunked_init) m r blens = (CURLE_OK, out, True, ctx', m', r')"
    "list_all trailer_ok (given r')" "\<not> http_te_skip data" "delivers cw body lines"
  shows "\<exists>ch' s'. httpchunk_readwrite data cw (Curl_httpchunk_init ch False) (\<lambda>_. True) s out =
      (CURLE_OK, length out, ch', \<lambda>_. True, s') \<and> Curl_httpchunk_is_done ch' \<and>
    body s' = body s @ taken r' \<and> lines s' = lines s @ map (\<lambda>t. t @ CRLF) (given r')"
proof -
  have "\<not> eos (snd cr_chunked_init)" by (simp add: cr_chunked_init_def)
  from read_all_ok[OF assms(1) _ this assms(4), of "[]"] encoded_init[of m] assms(2,3)
  have "encoded ctx' m' (taken r') (given r') out" "eos ctx'" by auto
  then obtain cs where cs: "list_all plain cs" "concat (map payload cs) = taken r'" "out = wire_stream cs ''0'' [] (given r')"
    by (auto simp: encoded_def)
  have "list_all wire_ok cs" using cs(1) by (auto simp: list_all_iff plain_def)
  moreover have "size_line_ok ''0'' [] 0" by (rule sample_wire_ok)
  moreover have "state (Curl_httpchunk_init ch False) \<notin> {CHUNK_DONE, CHUNK_FAILED}" by (simp add: Curl_httpchunk_init_def)
  ultimately show ?thesis
    using stream_decodes[OF fresh_init _ _ assms(5-7), of cs "''0''" "[]" ch s "[]"] cs(2,3)
      readwrite_eq_loop[OF assms(6), of "Curl_httpchunk_init ch False" cw "\<lambda>_. True" s out]
    by (auto simp: Curl_httpchunk_is_done_def)
qed

text \<open>A reader over a byte string: what it has delivered, and what is left.\<close>

definition string_source :: "(bytes \<times> bytes) creader" where
  "string_source r n = (CURLE_OK, take n (snd r), length (snd r) \<le> n, fst r @ take n (snd r), drop n (snd r))"

lemma string_source_ok: "feeds string_source None fst (\<lambda>_. [])" "willing string_source None"
  by (auto simp: feeds_def willing_def string_source_def)

lemma init_plenty: "plenty (chunkbuf (snd cr_chunked_init)) sample_mem"
  using encoded_init[of sample_mem]
  by (auto simp: plenty_def encoded_def cr_chunked_init_def Curl_bufq_init2_def bufq_init_def sample_mem_def
      CURL_CHUNKED_MAXLEN_def SIZE_MAX_def sizeof_buf_chunk_def)

lemma length_wire:
  assumes "list_all plain cs"
  shows "length (concat (map wire cs)) \<le> 21 * length (concat (map payload cs))"
  using assms
proof (induction cs)
  case (Cons c cs)
  then have "length (digits c) \<le> 16" "length (extension c) = 0" "1 \<le> length (payload c)"
    by (auto simp: plain_def wire_ok_def size_line_ok_def CHUNK_MAXNUM_LEN_def Suc_le_eq)
  then have "length (wire c) \<le> 21 * length (payload c)" unfolding wire_def length_append list.size by linarith
  with Cons show ?case by simp
qed simp

lemma add_chunk_ends:
  assumes "reader r (chunk_room blen) = (CURLE_OK, bs, True, r1)" "add_chunk reader None ctx m r blen = (CURLE_OK, ctx', m', r')"
  shows "read_eos ctx' \<and> r' = r1"
  using assms by (auto simp: add_chunk_def add_last_chunk_def Let_def split: if_splits prod.splits)

lemma string_source_read:
  assumes "length input \<le> 1000" "21 * length input + 5 < blen"
  shows "\<exists>out ctx m. read_all string_source None (snd cr_chunked_init) sample_mem ([], input) [blen] = (CURLE_OK, out, True, ctx, m, (input, []))"
proof -
  let ?c = "snd cr_chunked_init"
  have enc: "encoded ?c sample_mem (fst ([], input)) [] []" by (simp add: encoded_init)
  have b: "0 < blen" using assms(2) by simp
  from cr_chunked_read_plenty[OF string_source_ok enc init_plenty b] obtain bs e ctx' m' r' where
    rd: "cr_chunked_read string_source None ?c sample_mem ([], input) blen = (CURLE_OK, bs, e, ctx', m', r')" "read_eos ctx' \<longrightarrow> e \<or> length bs = blen"
    by blast
  have i: "\<not> eos ?c" "\<not> read_eos ?c" "Curl_bufq_is_empty (chunkbuf ?c)"
    using enc is_empty_content[of "chunkbuf ?c" sample_mem] by (auto simp: encoded_def cr_chunked_init_def Curl_bufq_init2_def bufq_init_def content_def)
  have room: "length input \<le> chunk_room blen"
    using assms by (auto simp: chunk_room_def CURL_CHUNKED_MAXLEN_def CURL_CHUNKED_MINLEN_def Let_def min_def)
  then have src: "string_source ([], input) (chunk_room blen) = (CURLE_OK, input, True, (input, []))" by (simp add: string_source_def)
  obtain c1 m1 r1 where a: "add_chunk string_source None ?c sample_mem ([], input) blen = (CURLE_OK, c1, m1, r1)"
    using rd(1) i by (auto simp: cr_chunked_read_def split: prod.splits if_splits)
  from add_chunk_ends[OF src a] have c1: "read_eos c1" "r1 = (input, [])" by auto
  have eos': "read_eos ctx' \<and> r' = (input, [])" using rd(1) i a c1 by (auto simp: cr_chunked_read_def split: prod.splits if_splits)
  from cr_chunked_read_ok[OF string_source_ok(1) enc rd(1)] eos' obtain cs where
    cs: "list_all plain cs" "concat (map payload cs) = input" "bs @ content (chunkbuf ctx') = wire_stream cs ''0'' [] []"
    by (auto simp: encoded_def)
  have "length bs \<le> length (wire_stream cs ''0'' [] [])" by (metis cs(3) length_append le_add1)
  also have "\<dots> \<le> 21 * length input + 5" using length_wire[OF cs(1)] cs(2) by (simp add: wire_stream_def)
  finally have "e" using rd(2) eos' assms(2) by auto
  with rd(1) eos' show ?thesis by auto
qed

theorem chunked_roundtrip_witness:
  "\<exists>out n ch' h' s'. httpchunk_readwrite sample_easy collect sample_chunker (\<lambda>_. True) ([], []) out = (CURLE_OK, n, ch', h', s') \<and>
     fst s' = ''hello'' \<and> Curl_httpchunk_is_done ch'"
proof -
  have l: "length ''hello'' \<le> 1000" "21 * length ''hello'' + 5 < 200" by simp_all
  obtain out ctx m where rd: "read_all string_source None (snd cr_chunked_init) sample_mem ([], ''hello'') [200] =
      (CURLE_OK, out, True, ctx, m, (''hello'', []))" using string_source_read[OF l] by blast
  have p: "fst ([], ''hello'') = []" "list_all trailer_ok []" "\<not> http_te_skip sample_easy" by (simp_all add: sample_easy_def)
  from chunked_roundtrip[OF string_source_ok(1) p(1) refl rd p(2,3) collect_delivers(1), of zeroed_chunker "([], [])",
      folded sample_chunker_def, unfolded fst_conv append_Nil]
  obtain ch' s' where r: "httpchunk_readwrite sample_easy collect sample_chunker (\<lambda>_. True) ([], []) out = (CURLE_OK, length out, ch', \<lambda>_. True, s')"
    "Curl_httpchunk_is_done ch'" "fst s' = ''hello''" by blast
  then show ?thesis by blast
qed

text \<open>
  The encoder makes progress. While memory lasts and the next reader and the trailer callback do
  not fail, every read of a non-empty buffer succeeds; once the input has ended, a read fills the
  whole buffer or hands out the end of the stream.
\<close>

theorem chunked_read_progress:
  assumes "feeds reader callback taken given" "willing reader callback" "encoded ctx m (taken r) (given r) out"
    "plenty (chunkbuf ctx) m" "0 < blen"
  shows "\<exists>bs e ctx' m' r'. cr_chunked_read reader callback ctx m r blen = (CURLE_OK, bs, e, ctx', m', r') \<and>
    encoded ctx' m' (taken r') (given r') (out @ bs) \<and> plenty (chunkbuf ctx') m' \<and>
    length bs \<le> blen \<and> (read_eos ctx' \<longrightarrow> e \<or> length bs = blen)"
proof -
  from cr_chunked_read_plenty[OF assms] obtain bs e ctx' m' r' where
    r: "cr_chunked_read reader callback ctx m r blen = (CURLE_OK, bs, e, ctx', m', r')" "plenty (chunkbuf ctx') m'"
    "length bs \<le> blen" "read_eos ctx' \<longrightarrow> e \<or> length bs = blen" by blast
  with cr_chunked_read_ok[OF assms(1,3) r(1)] show ?thesis by blast
qed

theorem chunked_read_progress_witness:
  "\<exists>bs e ctx' m' r'. cr_chunked_read string_source None (snd cr_chunked_init) sample_mem ([], ''hello'') 4 =
     (CURLE_OK, bs, e, ctx', m', r') \<and> length bs \<le> 4"
proof -
  have "\<exists>bs e ctx' m' r'. cr_chunked_read string_source None (snd cr_chunked_init) sample_mem ([], input) 4 =
     (CURLE_OK, bs, e, ctx', m', r') \<and> length bs \<le> 4" for input
  proof -
    have b: "(0::nat) < 4" by simp
    have "encoded (snd cr_chunked_init) sample_mem (fst ([], input)) [] []" by (simp add: encoded_init)
    from chunked_read_progress[OF string_source_ok this init_plenty b] show ?thesis by blast
  qed
  then show ?thesis .
qed

end
