(* ===== verification/Curl_Escape.thy ===== *)
theory Curl_Escape
  imports Curl_Dynbuf Curl_Mprintf
begin

text \<open>
  URL escaping of \<open>old/lib/escape.c\<close>. An input pointer is the memory region it points to, \<open>None\<close> for
  the null pointer; with a length of zero the functions read to the terminator, otherwise the first
  \<open>length\<close> bytes. An output is the allocated block, whose C string is what it holds. The escaper is a
  client of the append-only buffer contract, the decoder writes into a block of the input's size.
\<close>

section \<open>Character classes\<close>

definition ISALNUM :: "char \<Rightarrow> bool" where
  "ISALNUM c \<longleftrightarrow> isdigit c \<or> (97 \<le> byte_val c \<and> byte_val c \<le> 122) \<or> (65 \<le> byte_val c \<and> byte_val c \<le> 90)"

definition ISURLPUNTCS :: "char \<Rightarrow> bool" where
  "ISURLPUNTCS c \<longleftrightarrow> c = CHR ''-'' \<or> c = CHR ''.'' \<or> c = CHR ''_'' \<or> c = CHR ''~''"

definition ISUNRESERVED :: "char \<Rightarrow> bool" where
  "ISUNRESERVED c \<longleftrightarrow> ISALNUM c \<or> ISURLPUNTCS c"

definition Curl_hexbyte :: "char \<Rightarrow> bytes" where
  "Curl_hexbyte val = [Curl_udigits ! (byte_val val div 16), Curl_udigits ! (byte_val val mod 16)]"

section \<open>Escaping\<close>

fun escape_loop :: "dynbuf \<Rightarrow> heap \<Rightarrow> bytes \<Rightarrow> CURLcode \<times> dynbuf \<times> heap" where
  "escape_loop d h [] = (CURLE_OK, d, h)"
| "escape_loop d h (c # s) =
     (case curlx_dyn_addn d h (if ISUNRESERVED c then [c] else CHR ''%'' # Curl_hexbyte c) of
        (result, d, h) \<Rightarrow> if result \<noteq> CURLE_OK then (result, d, h) else escape_loop d h s)"

definition input_bytes :: "bytes \<Rightarrow> nat \<Rightarrow> bytes" where
  "input_bytes string n = (if n \<noteq> 0 then take n string else cstr string)"

definition curl_easy_escape :: "bytes option \<Rightarrow> int \<Rightarrow> heap \<Rightarrow> bytes option \<times> heap" where
  "curl_easy_escape string n h =
     (case string of
        None \<Rightarrow> (None, h)
      | Some str \<Rightarrow>
          if n < 0 then (None, h)
          else
            let inp = input_bytes str (nat n); len = length inp in
            if len = 0 then (case request h of (ok, h) \<Rightarrow> (if ok then Some [NUL] else None, h))
            else if len > SIZE_MAX div 16 then (None, h)
            else case escape_loop (curlx_dyn_init (len * 3 + 1)) h inp of (result, d, h) \<Rightarrow>
              if result \<noteq> CURLE_OK then (None, h) else (curlx_dyn_ptr d, h))"

definition curl_escape :: "bytes option \<Rightarrow> int \<Rightarrow> heap \<Rightarrow> bytes option \<times> heap" where
  "curl_escape string n h = curl_easy_escape string n h"

section \<open>Unescaping\<close>

datatype urlreject = REJECT_NADA | REJECT_CTRL | REJECT_ZERO

definition rejected :: "urlreject \<Rightarrow> char \<Rightarrow> bool" where
  "rejected ctrl c \<longleftrightarrow> (ctrl = REJECT_CTRL \<and> byte_val c < 32) \<or> (ctrl = REJECT_ZERO \<and> byte_val c = 0)"

definition urldecode_byte :: "bytes \<Rightarrow> char \<times> bytes" where
  "urldecode_byte s =
     (if hd s = CHR ''%'' \<and> length s > 2 \<and> ISXDIGIT (s ! 1) \<and> ISXDIGIT (s ! 2)
      then (char_of (curlx_hexval (s ! 1) * 16 + curlx_hexval (s ! 2)), drop 3 s)
      else (hd s, tl s))"

function urldecode_loop :: "urlreject \<Rightarrow> bytes \<Rightarrow> bytes \<Rightarrow> CURLcode \<times> bytes" where
  "urldecode_loop ctrl s ns =
     (if s = [] then (CURLE_OK, ns)
      else case urldecode_byte s of (c, s') \<Rightarrow>
        if rejected ctrl c then (CURLE_URL_MALFORMAT, ns)
        else urldecode_loop ctrl s' (ns @ [c]))"
  by pat_completeness auto
termination
  by (relation "measure (\<lambda>(ctrl, s, ns). length s)") (auto simp: urldecode_byte_def split: if_splits)

declare urldecode_loop.simps [simp del]

text \<open>The block, its length without the terminator, and the result code.\<close>

definition Curl_urldecode :: "bytes \<Rightarrow> nat \<Rightarrow> urlreject \<Rightarrow> heap \<Rightarrow> CURLcode \<times> bytes option \<times> nat \<times> heap" where
  "Curl_urldecode string n ctrl h =
     (case request h of (ok, h) \<Rightarrow>
        if \<not> ok then (CURLE_OUT_OF_MEMORY, None, 0, h)
        else case urldecode_loop ctrl (input_bytes string n) [] of (result, ns) \<Rightarrow>
          if result \<noteq> CURLE_OK then (result, None, 0, h)
          else (CURLE_OK, Some (ns @ [NUL]), length ns, h))"

definition curl_easy_unescape :: "bytes option \<Rightarrow> int \<Rightarrow> bool \<Rightarrow> heap \<Rightarrow> bytes option \<times> nat \<times> heap" where
  "curl_easy_unescape string inlength outlength h =
     (case string of
        None \<Rightarrow> (None, 0, h)
      | Some str \<Rightarrow>
          if inlength < 0 then (None, 0, h)
          else case Curl_urldecode str (nat inlength) REJECT_NADA h of (res, ns, outputlen, h) \<Rightarrow>
            if res \<noteq> CURLE_OK then (None, 0, h)
            else if outlength then
              (if int outputlen \<le> INT_MAX then (ns, outputlen, h) else (None, 0, h))
            else (ns, 0, h))"

definition curl_unescape :: "bytes option \<Rightarrow> int \<Rightarrow> heap \<Rightarrow> bytes option \<times> nat \<times> heap" where
  "curl_unescape string n h = curl_easy_unescape string n False h"

section \<open>Hexadecimal output\<close>

fun hexencode_loop :: "bytes \<Rightarrow> nat \<Rightarrow> bytes" where
  "hexencode_loop [] olen = [NUL]"
| "hexencode_loop (c # src) olen =
     (if olen \<ge> 3
      then Curl_ldigits ! (byte_val c div 16) # Curl_ldigits ! (byte_val c mod 16) # hexencode_loop src (olen - 2)
      else [NUL])"

text \<open>The bytes written to the output buffer of size \<open>olen\<close>.\<close>

definition Curl_hexencode :: "bytes option \<Rightarrow> nat \<Rightarrow> bytes" where
  "Curl_hexencode src olen =
     (case src of
        Some s \<Rightarrow> if s \<noteq> [] \<and> olen \<ge> 3 then hexencode_loop s olen else if olen \<noteq> 0 then [NUL] else []
      | None \<Rightarrow> if olen \<noteq> 0 then [NUL] else [])"

section \<open>Escaped text\<close>

definition esc_piece :: "char \<Rightarrow> bytes" where
  "esc_piece c = (if ISUNRESERVED c then [c] else CHR ''%'' # Curl_hexbyte c)"

lemma escape_loop_pieces: "escape_loop d h s = add_pieces curlx_dyn_addn d h (map esc_piece s)"
  by (induction s arbitrary: d h) (auto simp: esc_piece_def split: prod.splits)

lemma hexdigit_facts:
  assumes "n < 16"
  shows "ISXDIGIT (Curl_udigits ! n)" "curlx_hexval (Curl_udigits ! n) = n" "Curl_udigits ! n \<noteq> NUL"
    "ISXDIGIT (Curl_ldigits ! n)" "curlx_hexval (Curl_ldigits ! n) = n" "Curl_ldigits ! n \<noteq> NUL"
    "ISUNRESERVED (Curl_udigits ! n)"
proof -
  have "list_all (\<lambda>n. ISXDIGIT (Curl_udigits ! n) \<and> curlx_hexval (Curl_udigits ! n) = n \<and> Curl_udigits ! n \<noteq> NUL \<and>
    ISXDIGIT (Curl_ldigits ! n) \<and> curlx_hexval (Curl_ldigits ! n) = n \<and> Curl_ldigits ! n \<noteq> NUL \<and>
    ISUNRESERVED (Curl_udigits ! n)) [0..<16]" by code_simp
  with assms show "ISXDIGIT (Curl_udigits ! n)" "curlx_hexval (Curl_udigits ! n) = n" "Curl_udigits ! n \<noteq> NUL"
    "ISXDIGIT (Curl_ldigits ! n)" "curlx_hexval (Curl_ldigits ! n) = n" "Curl_ldigits ! n \<noteq> NUL"
    "ISUNRESERVED (Curl_udigits ! n)" by (auto simp: list_all_iff)
qed

lemma nibbles: "byte_val c div 16 < 16" "byte_val c mod 16 < 16"
  using byte_val_less[of c] by (simp_all add: less_mult_imp_div_less)

lemma percent_reserved [simp]: "\<not> ISUNRESERVED (CHR ''%'')" "\<not> ISUNRESERVED NUL"
  by (simp_all add: ISUNRESERVED_def ISALNUM_def ISURLPUNTCS_def isdigit_def byte_val_def)

lemma esc_piece_decodes: "urldecode_byte (esc_piece c @ rest) = (c, rest)"
proof (cases "ISUNRESERVED c")
  case True
  then have "c \<noteq> CHR ''%''" by auto
  with True show ?thesis by (simp add: esc_piece_def urldecode_byte_def)
next
  case False
  then show ?thesis
    by (simp add: esc_piece_def urldecode_byte_def Curl_hexbyte_def hexdigit_facts nibbles numeral_3_eq_3)
qed

lemma esc_piece_chars: "x \<in> set (esc_piece c) \<Longrightarrow> ISUNRESERVED x \<or> x = CHR ''%''"
  by (auto simp: esc_piece_def Curl_hexbyte_def hexdigit_facts nibbles split: if_splits)

lemma esc_piece_size: "0 < length (esc_piece c) \<and> length (esc_piece c) \<le> 3"
  by (simp add: esc_piece_def Curl_hexbyte_def)

definition escaped :: "bytes \<Rightarrow> bytes" where
  "escaped s = concat (map esc_piece s)"

lemma escaped_chars: "x \<in> set (escaped s) \<Longrightarrow> ISUNRESERVED x \<or> x = CHR ''%''"
  using esc_piece_chars by (auto simp: escaped_def)

lemma escaped_length: "length s \<le> length (escaped s) \<and> length (escaped s) \<le> 3 * length s"
  unfolding escaped_def
proof (induction s)
  case (Cons c s)
  moreover have "1 \<le> length (esc_piece c)" "length (esc_piece c) \<le> 3" using esc_piece_size[of c] by (simp_all add: Suc_leI)
  ultimately show ?case by simp
qed simp

lemma escaped_no_NUL: "NUL \<notin> set (escaped s)"
  using escaped_chars percent_reserved by fastforce

lemma urldecode_escaped: "urldecode_loop REJECT_NADA (escaped s) ns = (CURLE_OK, ns @ s)"
proof (induction s arbitrary: ns)
  case Nil
  show ?case by (simp add: escaped_def urldecode_loop.simps)
next
  case (Cons c s)
  have "escaped (c # s) = esc_piece c @ escaped s" "esc_piece c \<noteq> []" using esc_piece_size[of c] by (auto simp: escaped_def)
  with Cons show ?case
    by (subst urldecode_loop.simps) (simp add: esc_piece_decodes rejected_def)
qed

lemma curl_easy_escape_eq:
  assumes "\<And>i. h i" "s \<noteq> []" "length s \<le> SIZE_MAX div 16"
  shows "\<exists>blk h'. curl_easy_escape (Some (s @ beyond)) (int (length s)) h = (Some blk, h') \<and> cstr blk = escaped s"
proof -
  let ?d = "curlx_dyn_init (length s * 3 + 1)"
  have ok: "dyn_ok ?d" using assms(2,3) by (intro dyn_ok_init) (auto simp: MAX_DYNBUF_SIZE_def SIZE_MAX_def)
  have "length (escaped s) < length s * 3 + 1" using escaped_length[of s] by simp
  then obtain d h' where a: "add_pieces curlx_dyn_addn ?d h (map esc_piece s) = (CURLE_OK, d, h')"
    using dyn.add_pieces_total[OF ok, of "map esc_piece s" h] assms(1) by (auto simp: escaped_def)
  note A = dyn.add_pieces_OK[OF ok a]
  then have e: "dyn_str d = escaped s" "dyn_ok d" by (simp_all add: escaped_def)
  with assms(2) escaped_length[of s] have "dyn_str d \<noteq> []" by auto
  then obtain b where b: "bufr d = Some b" by (auto simp: dyn_str_def dyn_block_def split: option.splits)
  with dyn_ok_terminated[OF e(2) b] have "b = dyn_str d @ NUL # drop (Suc (leng d)) b"
    by (metis dyn_str_def dyn_block_def option.simps(5) id_take_nth_drop)
  moreover have "cstr (escaped s @ NUL # rest) = escaped s" for rest
    using escaped_no_NUL[of s] by (subst cstr_def, subst takeWhile_append2) auto
  ultimately have "cstr b = escaped s" unfolding e(1) by metis
  with a b assms(2,3) show ?thesis
    by (simp add: curl_easy_escape_def input_bytes_def escape_loop_pieces curlx_dyn_ptr_def Let_def)
qed

section \<open>Decoded text\<close>

lemma urldecode_loop_length: "urldecode_loop ctrl s ns = (r, out) \<Longrightarrow> length out \<le> length ns + length s"
proof (induction ctrl s ns rule: urldecode_loop.induct)
  case (1 ctrl s ns)
  show ?case
  proof (cases "s = []")
    case False
    obtain c s' where b: "urldecode_byte s = (c, s')" by fastforce
    then have "length s' < length s" using False by (auto simp: urldecode_byte_def split: if_splits)
    with 1 b False show ?thesis by (auto simp: urldecode_loop.simps[of ctrl s] split: if_splits)
  qed (use 1 in \<open>simp add: urldecode_loop.simps\<close>)
qed

lemma urldecode_loop_prefix: "\<exists>t. snd (urldecode_loop ctrl s ns) = ns @ t"
proof (induction ctrl s ns rule: urldecode_loop.induct)
  case (1 ctrl s ns)
  obtain c s' where b: "urldecode_byte s = (c, s')" by fastforce
  show ?case
  proof (cases "s = [] \<or> rejected ctrl c")
    case True
    with b show ?thesis by (auto simp: urldecode_loop.simps[of ctrl s])
  next
    case False
    with "1.IH"[of c s'] b obtain t where "snd (urldecode_loop ctrl s' (ns @ [c])) = (ns @ [c]) @ t" by auto
    with b False show ?thesis by (auto simp: urldecode_loop.simps[of ctrl s])
  qed
qed

text \<open>Rejection only filters: the outcome is decided by the plain decoding.\<close>

lemma urldecode_loop_reject:
  assumes "urldecode_loop REJECT_NADA s ns = (CURLE_OK, ns @ out)"
  shows "if list_ex (rejected ctrl) out
         then fst (urldecode_loop ctrl s ns) = CURLE_URL_MALFORMAT
         else urldecode_loop ctrl s ns = (CURLE_OK, ns @ out)"
  using assms
proof (induction "length s" arbitrary: s ns out rule: less_induct)
  case less
  show ?case
  proof (cases "s = []")
    case True
    with less.prems show ?thesis by (simp add: urldecode_loop.simps)
  next
    case False
    obtain c s' where b: "urldecode_byte s = (c, s')" by fastforce
    then have len: "length s' < length s" using False by (auto simp: urldecode_byte_def split: if_splits)
    have n: "urldecode_loop REJECT_NADA s' (ns @ [c]) = (CURLE_OK, ns @ out)"
      using less.prems False b by (simp add: urldecode_loop.simps[of _ s] rejected_def)
    obtain t where "snd (urldecode_loop REJECT_NADA s' (ns @ [c])) = (ns @ [c]) @ t" using urldecode_loop_prefix by blast
    with n have "\<exists>out'. out = c # out'" by simp
    then obtain out' where o: "out = c # out'" by auto
    with less.hyps[OF len, of "ns @ [c]" out'] n False b show ?thesis
      by (auto simp: urldecode_loop.simps[of ctrl s] split: if_splits)
  qed
qed

lemma urldecode_loop_NADA: "fst (urldecode_loop REJECT_NADA s ns) = CURLE_OK"
proof (induction REJECT_NADA s ns rule: urldecode_loop.induct)
  case (1 s ns)
  obtain c s' where "urldecode_byte s = (c, s')" by fastforce
  with 1 show ?case by (cases "s = []") (auto simp: urldecode_loop.simps[of _ s] urldecode_loop.simps[of _ "[]"] rejected_def)
qed

lemma hexencode_loop_eq:
  "hexencode_loop src olen =
     concat (map (\<lambda>c. [Curl_ldigits ! (byte_val c div 16), Curl_ldigits ! (byte_val c mod 16)]) (take ((olen - 1) div 2) src)) @ [NUL]"
proof (induction src olen rule: hexencode_loop.induct)
  case (2 c src olen)
  show ?case
  proof (cases "olen \<ge> 3")
    case True
    then have "(olen - 1) div 2 = Suc ((olen - 2 - 1) div 2)" by linarith
    with True 2 show ?thesis by simp
  next
    case False
    then have "(olen - 1) div 2 = 0" by auto
    with False show ?thesis by simp
  qed
qed simp

section \<open>Properties\<close>

text \<open>
  Escaping and unescaping are inverse: any non-empty byte string, NUL and high bytes included,
  is escaped, when memory lasts, to a C string of unreserved characters and percent triplets at most
  three times as long, and decoding that string gives back exactly the bytes and their number.
\<close>

theorem escape_unescape_roundtrip:
  assumes "\<And>i. h i" "s \<noteq> []" "int (length s) \<le> INT_MAX"
  shows "\<exists>blk h'. curl_easy_escape (Some s) (int (length s)) h = (Some blk, h') \<and>
    length (cstr blk) \<le> 3 * length s \<and> list_all (\<lambda>c. ISUNRESERVED c \<or> c = CHR ''%'') (cstr blk) \<and>
    (\<exists>h''. curl_easy_unescape (Some (cstr blk)) 0 True h = (Some (s @ [NUL]), length s, h''))"
proof -
  have "length s \<le> SIZE_MAX div 16" using assms(3) by (simp add: INT_MAX_def SIZE_MAX_def)
  with curl_easy_escape_eq[of h s "[]"] assms(1,2) obtain blk h' where e: "curl_easy_escape (Some s) (int (length s)) h = (Some blk, h')" "cstr blk = escaped s" by auto
  have "cstr (cstr blk) = escaped s" using e(2) escaped_no_NUL[of s] by simp
  then have "curl_easy_unescape (Some (cstr blk)) 0 True h = (Some (s @ [NUL]), length s, \<lambda>i. h (Suc i))"
    using assms e(2) escaped_no_NUL[of s] urldecode_escaped[of s "[]"]
    by (simp add: curl_easy_unescape_def Curl_urldecode_def input_bytes_def request_def)
  with e show ?thesis using escaped_length[of s] escaped_chars[of _ s] by (auto simp: list_all_iff)
qed

theorem escape_unescape_roundtrip_witness:
  "fst (curl_easy_escape (Some ''a b/c'') 5 (\<lambda>_. True)) \<noteq> None \<and>
   (\<exists>blk. fst (curl_easy_escape (Some ''a b/c'') 5 (\<lambda>_. True)) = Some blk \<and>
     fst (curl_easy_unescape (Some (cstr blk)) 0 True (\<lambda>_. True)) = Some (''a b/c'' @ [NUL]))"
  using escape_unescape_roundtrip[of "\<lambda>_. True" "''a b/c''"] by (auto simp: INT_MAX_def)

text \<open>
  Decoding stays within the block it allocates, and the reject options are exact: with memory at
  hand, plain decoding always succeeds, and decoding under an option succeeds with the same bytes
  exactly when none of them is a byte the option rejects, and reports a malformed URL otherwise.
\<close>

theorem Curl_urldecode_exact:
  assumes "h 0"
  shows "\<exists>out. length out \<le> length (input_bytes str n) \<and>
    Curl_urldecode str n REJECT_NADA h = (CURLE_OK, Some (out @ [NUL]), length out, \<lambda>i. h (Suc i)) \<and>
    Curl_urldecode str n ctrl h =
      (if list_ex (rejected ctrl) out then (CURLE_URL_MALFORMAT, None, 0, \<lambda>i. h (Suc i))
       else (CURLE_OK, Some (out @ [NUL]), length out, \<lambda>i. h (Suc i)))"
proof -
  let ?s = "input_bytes str n"
  obtain out where n: "urldecode_loop REJECT_NADA ?s [] = (CURLE_OK, out)"
    using urldecode_loop_NADA[of ?s "[]"] by (metis prod.collapse)
  have len: "length out \<le> length ?s" using urldecode_loop_length[OF n] by simp
  note R = urldecode_loop_reject[of ?s "[]" out ctrl, simplified, OF n]
  obtain r ns where l: "urldecode_loop ctrl ?s [] = (r, ns)" by fastforce
  from n len R l assms show ?thesis
    by (intro exI[of _ out]) (auto simp: Curl_urldecode_def request_def split: if_splits)
qed

theorem Curl_urldecode_exact_witness:
  "fst (Curl_urldecode ''a%0Ab'' 0 REJECT_CTRL (\<lambda>_. True)) = CURLE_URL_MALFORMAT \<and>
   (\<exists>out. Curl_urldecode ''a%0Ab'' 0 REJECT_NADA (\<lambda>_. True) = (CURLE_OK, Some (out @ [NUL]), length out, \<lambda>_. True))"
proof -
  have "fst (Curl_urldecode ''a%0Ab'' 0 REJECT_CTRL (\<lambda>_. True)) = CURLE_URL_MALFORMAT" by code_simp
  with Curl_urldecode_exact[of "\<lambda>_. True" "''a%0Ab''" 0 REJECT_CTRL] show ?thesis by auto
qed

end
