(* ===== verification/Curl_Base64.thy ===== *)
theory Curl_Base64
  imports Curl_Code
begin

text \<open>
  Base64 of \<open>old/lib/curlx/base64.c\<close>: encoding in the standard and in the URL alphabet, and decoding.
  Shifts and masks of the small unsigned values the code uses are written as quotients, remainders
  and sums: the operands of every \<open>|\<close> are disjoint bit fields. The accumulator of four sextets has
  24 bits, so the \<open>unsigned int\<close> that holds it never wraps. Results are the allocated block without
  its terminator.
\<close>

section \<open>Tables\<close>

definition curlx_base64encdec :: bytes where
  "curlx_base64encdec = ''ABCDEFGHIJKLMNOPQRSTUVWXYZabcdefghijklmnopqrstuvwxyz0123456789+/''"

definition base64url :: bytes where
  "base64url = ''ABCDEFGHIJKLMNOPQRSTUVWXYZabcdefghijklmnopqrstuvwxyz0123456789-_''"

definition decodetable :: "nat list" where
  "decodetable =
     [62,  255, 255, 255, 63,  52,  53, 54, 55, 56, 57, 58, 59, 60, 61, 255,
      255, 255, 255, 255, 255, 255, 0,  1,  2,  3,  4,  5,  6,  7,  8,  9,
      10,  11,  12,  13,  14,  15,  16, 17, 18, 19, 20, 21, 22, 23, 24, 25,
      255, 255, 255, 255, 255, 255, 26, 27, 28, 29, 30, 31, 32, 33, 34, 35,
      36,  37,  38,  39,  40,  41,  42, 43, 44, 45, 46, 47, 48, 49, 50, 51]"

definition CURL_MAX_BASE64_INPUT :: nat where "CURL_MAX_BASE64_INPUT = 16000000"

text \<open>The table of 256 entries filled with \<open>0xff\<close>, the 80 entries of \<open>decodetable\<close> copied to \<open>'+'\<close>.\<close>

definition lookup :: "char \<Rightarrow> nat" where
  "lookup c = (if 43 \<le> byte_val c \<and> byte_val c < 43 + 80 then decodetable ! (byte_val c - 43) else 255)"

abbreviation EQ :: char where "EQ \<equiv> CHR ''=''"

section \<open>Decoding\<close>

fun padding_loop :: "bytes \<Rightarrow> nat \<Rightarrow> nat option" where
  "padding_loop [] padding = Some padding"
| "padding_loop (c # bk) padding =
     (if c = EQ then (if Suc padding > 2 then None else padding_loop bk (Suc padding)) else Some padding)"

fun quantum :: "nat \<Rightarrow> bytes \<Rightarrow> nat option" where
  "quantum x [] = Some x"
| "quantum x (c # cs) = (if lookup c = 255 then None else quantum (x * 64 + lookup c) cs)"

fun full_quantums :: "nat \<Rightarrow> bytes \<Rightarrow> bytes \<Rightarrow> (bytes \<times> bytes) option" where
  "full_quantums 0 src pos = Some (src, pos)"
| "full_quantums (Suc n) src pos =
     (case quantum 0 (take 4 src) of
        None \<Rightarrow> None
      | Some x \<Rightarrow>
          full_quantums n (drop 4 src)
            (pos @ [char_of (x div 65536 mod 256), char_of (x div 256 mod 256), char_of (x mod 256)]))"

fun padded_quantum :: "nat \<Rightarrow> nat \<Rightarrow> nat \<Rightarrow> bytes \<Rightarrow> nat option" where
  "padded_quantum padding padc x [] = Some x"
| "padded_quantum padding padc x (c # cs) =
     (if c = EQ then
        (if Suc padc > padding then None else padded_quantum padding (Suc padc) (x * 64) cs)
      else if lookup c = 255 then None
      else padded_quantum padding padc (x * 64 + lookup c) cs)"

definition curlx_base64_decode :: "bytes \<Rightarrow> heap \<Rightarrow> CURLcode \<times> bytes option \<times> nat \<times> heap" where
  "curlx_base64_decode src h =
     (let src = cstr src; srclen = length src in
      if srclen = 0 \<or> srclen mod 4 \<noteq> 0 then (CURLE_BAD_CONTENT_ENCODING, None, 0, h)
      else case padding_loop (rev src) 0 of
        None \<Rightarrow> (CURLE_BAD_CONTENT_ENCODING, None, 0, h)
      | Some padding \<Rightarrow>
          let numQuantums = srclen div 4;
              fullQuantums = numQuantums - (if padding \<noteq> 0 then 1 else 0);
              rawlen = numQuantums * 3 - padding in
          case request h of (ok, h) \<Rightarrow>
            if \<not> ok then (CURLE_OUT_OF_MEMORY, None, 0, h)
            else case full_quantums fullQuantums src [] of
              None \<Rightarrow> (CURLE_BAD_CONTENT_ENCODING, None, 0, h)
            | Some (rest, pos) \<Rightarrow>
                if padding = 0 then (CURLE_OK, Some pos, rawlen, h)
                else case padded_quantum padding 0 0 (take 4 rest) of
                  None \<Rightarrow> (CURLE_BAD_CONTENT_ENCODING, None, 0, h)
                | Some x \<Rightarrow>
                    (CURLE_OK,
                     Some (pos @ [char_of (x div 65536 mod 256)] @
                           (if padding = 1 then [char_of (x div 256 mod 256)] else [])), rawlen, h))"

section \<open>Encoding\<close>

fun encode_loop :: "bytes \<Rightarrow> bytes \<Rightarrow> bytes \<Rightarrow> bytes" where
  "encode_loop t pad [] = []"
| "encode_loop t pad [a] =
     [t ! (byte_val a div 4), t ! (byte_val a mod 4 * 16)] @ pad @ pad"
| "encode_loop t pad [a, b] =
     [t ! (byte_val a div 4), t ! (byte_val a mod 4 * 16 + byte_val b div 16), t ! (byte_val b mod 16 * 4)] @ pad"
| "encode_loop t pad (a # b # c # inp) =
     t ! (byte_val a div 4) # t ! (byte_val a mod 4 * 16 + byte_val b div 16) #
     t ! (byte_val b mod 16 * 4 + byte_val c div 64) # t ! (byte_val c mod 64) # encode_loop t pad inp"

text \<open>\<open>pad\<close> holds the padding byte, or nothing when the C argument is zero.\<close>

definition base64_encode :: "bytes \<Rightarrow> bytes \<Rightarrow> bytes \<Rightarrow> heap \<Rightarrow> CURLcode \<times> bytes option \<times> nat \<times> heap" where
  "base64_encode t pad inp h =
     (if length inp = 0 then (CURLE_OK, None, 0, h)
      else if length inp > CURL_MAX_BASE64_INPUT then (CURLE_TOO_LARGE, None, 0, h)
      else case request h of (ok, h) \<Rightarrow>
        if \<not> ok then (CURLE_OUT_OF_MEMORY, None, 0, h)
        else let out = encode_loop t pad inp in (CURLE_OK, Some out, length out, h))"

definition curlx_base64_encode :: "bytes \<Rightarrow> heap \<Rightarrow> CURLcode \<times> bytes option \<times> nat \<times> heap" where
  "curlx_base64_encode inp h = base64_encode curlx_base64encdec [EQ] inp h"

definition curlx_base64url_encode :: "bytes \<Rightarrow> heap \<Rightarrow> CURLcode \<times> bytes option \<times> nat \<times> heap" where
  "curlx_base64url_encode inp h = base64_encode base64url [] inp h"

section \<open>The alphabet\<close>

lemma alphabet_nth:
  assumes "k < 64"
  shows "lookup (curlx_base64encdec ! k) = k" "curlx_base64encdec ! k \<noteq> EQ" "curlx_base64encdec ! k \<noteq> NUL"
proof -
  have "list_all (\<lambda>k. lookup (curlx_base64encdec ! k) = k \<and> curlx_base64encdec ! k \<noteq> EQ \<and> curlx_base64encdec ! k \<noteq> NUL) [0..<64]"
    by code_simp
  with assms show "lookup (curlx_base64encdec ! k) = k" "curlx_base64encdec ! k \<noteq> EQ" "curlx_base64encdec ! k \<noteq> NUL"
    by (auto simp: list_all_iff)
qed

lemma lookup_range: "lookup c = 255 \<or> lookup c < 64"
proof (cases "43 \<le> byte_val c \<and> byte_val c < 43 + 80")
  case True
  have "list_all (\<lambda>v. v = 255 \<or> v < 64) decodetable" by code_simp
  moreover have "length decodetable = 80" by code_simp
  moreover have "byte_val c - 43 < 80" using True by linarith
  ultimately have "decodetable ! (byte_val c - 43) = 255 \<or> decodetable ! (byte_val c - 43) < 64"
    unfolding list_all_length by metis
  with True show ?thesis by (simp add: lookup_def)
qed (auto simp: lookup_def)

lemma lookup_EQ [simp]: "lookup EQ = 255"
  by code_simp

lemma sextets:
  fixes a b c :: nat
  shows "((a div 4 * 64 + (a mod 4 * 16 + b div 16)) * 64 + (b mod 16 * 4 + c div 64)) * 64 + c mod 64 =
         a * 65536 + b * 256 + c"
proof -
  have "((p * 64 + (q * 16 + r)) * 64 + (s * 4 + t)) * 64 + u = (4 * p + q) * 65536 + (16 * r + s) * 256 + (64 * t + u)"
    for p q r s t u :: nat by simp
  from this[of "a div 4" "a mod 4" "b div 16" "b mod 16" "c div 64" "c mod 64"] show ?thesis by simp
qed

lemma octets:
  fixes a b c :: nat
  assumes "a < 256" "b < 256" "c < 256"
  shows "(a * 65536 + b * 256 + c) div 65536 mod 256 = a" "(a * 65536 + b * 256 + c) div 256 mod 256 = b"
    "(a * 65536 + b * 256 + c) mod 256 = c"
proof -
  have e: "a * 65536 + b * 256 + c = (a * 256 + b) * 256 + c" by simp
  have d: "((a * 256 + b) * 256 + c) div 256 = a * 256 + b" using assms by simp
  show "(a * 65536 + b * 256 + c) div 256 mod 256 = b" unfolding e d using assms by simp
  have "((a * 256 + b) * 256 + c) div 65536 = ((a * 256 + b) * 256 + c) div 256 div 256"
    by (simp add: div_mult2_eq[symmetric])
  then show "(a * 65536 + b * 256 + c) div 65536 mod 256 = a" unfolding e d using assms by simp
  have "((a * 256 + b) * 256 + c) mod 256 = c mod 256" by (simp only: mod_mult_self3)
  then show "(a * 65536 + b * 256 + c) mod 256 = c" unfolding e using assms by simp
qed

section \<open>Decoding an encoding\<close>

abbreviation enc :: "bytes \<Rightarrow> bytes" where
  "enc s \<equiv> encode_loop curlx_base64encdec [EQ] s"

lemma sextet_less:
  "byte_val a div 4 < 64" "byte_val a mod 4 * 16 + byte_val b div 16 < 64"
  "byte_val b mod 16 * 4 + byte_val c div 64 < 64" "byte_val c mod 64 < 64"
  "byte_val a mod 4 * 16 < 64" "byte_val b mod 16 * 4 < 64"
proof -
  have d: "byte_val a div 4 < 64" "byte_val b div 16 < 16" "byte_val c div 64 < 4" "byte_val a mod 4 < 4" "byte_val b mod 16 < 16"
    using byte_val_less[of a] byte_val_less[of b] byte_val_less[of c] by (simp_all add: less_mult_imp_div_less)
  then show "byte_val a div 4 < 64" "byte_val a mod 4 * 16 + byte_val b div 16 < 64"
    "byte_val b mod 16 * 4 + byte_val c div 64 < 64" "byte_val c mod 64 < 64"
    "byte_val a mod 4 * 16 < 64" "byte_val b mod 16 * 4 < 64" by linarith+
qed

lemmas sextet_facts = alphabet_nth[OF sextet_less(1)] alphabet_nth[OF sextet_less(2)] alphabet_nth[OF sextet_less(3)]
  alphabet_nth[OF sextet_less(4)] alphabet_nth[OF sextet_less(5)] alphabet_nth[OF sextet_less(6)]

lemma small_ne_255: "(k::nat) < 64 \<Longrightarrow> k \<noteq> 255"
  by simp

lemmas sextet_small = sextet_less[THEN small_ne_255]

lemma quantum4:
  "lookup w \<noteq> 255 \<Longrightarrow> lookup x \<noteq> 255 \<Longrightarrow> lookup y \<noteq> 255 \<Longrightarrow> lookup z \<noteq> 255 \<Longrightarrow>
     quantum 0 [w, x, y, z] = Some (((lookup w * 64 + lookup x) * 64 + lookup y) * 64 + lookup z)"
  by simp

lemma full_quantum_enc:
  "quantum 0 (take 4 (enc (a # b # c # s))) = Some (byte_val a * 65536 + byte_val b * 256 + byte_val c)"
proof -
  have "take 4 (enc (a # b # c # s)) =
    [curlx_base64encdec ! (byte_val a div 4), curlx_base64encdec ! (byte_val a mod 4 * 16 + byte_val b div 16),
     curlx_base64encdec ! (byte_val b mod 16 * 4 + byte_val c div 64), curlx_base64encdec ! (byte_val c mod 64)]" by simp
  then show ?thesis
    by (simp only: quantum4 sextet_facts sextet_small not_False_eq_True sextets)
qed

lemma three_more: "3 * Suc n \<le> length s \<Longrightarrow> \<exists>a b c r. s = a # b # c # r \<and> length r = length s - 3"
  by (cases s; cases "tl s"; cases "tl (tl s)") auto

lemma full_quantums_enc:
  "3 * n \<le> length s \<Longrightarrow> full_quantums n (enc s) pos = Some (enc (drop (3 * n) s), pos @ take (3 * n) s)"
proof (induction n arbitrary: s pos)
  case (Suc n)
  from three_more[OF Suc.prems] obtain a b c r where s: "s = a # b # c # r" by auto
  have "drop 4 (enc s) = enc r" by (simp add: s)
  moreover have "3 * n \<le> length r" using Suc.prems s by simp
  moreover have "3 * Suc n = Suc (Suc (Suc (3 * n)))" by simp
  then have "take (3 * Suc n) s = a # b # c # take (3 * n) r" "drop (3 * Suc n) s = drop (3 * n) r"
    by (simp_all only: s take_Suc_Cons drop_Suc_Cons)
  ultimately show ?case
    using Suc.IH[of r "pos @ [a, b, c]"] full_quantum_enc[of a b c r] octets[OF byte_val_less byte_val_less byte_val_less, of a b c]
    by (simp add: s del: encode_loop.simps)
qed simp

lemma enc_append: "length s = 3 * n \<Longrightarrow> enc (s @ r) = enc s @ enc r"
proof (induction n arbitrary: s)
  case (Suc n)
  then obtain a b c t where "s = a # b # c # t" using three_more[of n s] by auto
  with Suc show ?case by simp
qed simp

lemma enc_no_NUL: "NUL \<notin> set (enc s)"
  by (induction curlx_base64encdec "[EQ]" s rule: encode_loop.induct)
     (auto simp: sextet_facts dest: sym)

lemma enc_length: "length (enc s) = 4 * ((length s + 2) div 3)"
proof (induction curlx_base64encdec "[EQ]" s rule: encode_loop.induct)
  case (4 a b c inp)
  have "(5 + length inp) div 3 = Suc ((length inp + 2) div 3)"
    using div_add_self2[of 3 "length inp + 2"] by (simp add: add.commute)
  with 4 show ?case by simp
qed auto

lemma enc_last: "length s = 3 * n \<Longrightarrow> s \<noteq> [] \<Longrightarrow> last (enc s) \<noteq> EQ"
proof (induction n arbitrary: s)
  case (Suc n)
  then obtain a b c t where s: "s = a # b # c # t" "length t = 3 * n" using three_more[of n s] by auto
  have "t = [] \<or> enc t \<noteq> []" using enc_length[of t] s(2) by (cases t) auto
  with s Suc.IH[of t] show ?case by (cases "t = []") (auto simp: sextet_facts)
qed simp

lemma padding_loop_enc:
  assumes "length f = 3 * n" "length t < 3" "f @ t \<noteq> []"
  shows "padding_loop (rev (enc (f @ t))) 0 = Some (if t = [] then 0 else 3 - length t)"
proof -
  consider "t = []" | a where "t = [a]" | a b where "t = [a, b]"
    using assms(2) by (cases t; cases "tl t"; cases "tl (tl t)") auto
  then show ?thesis
  proof cases
    case 1
    with assms have "enc f \<noteq> []" using enc_length[of f] by (cases f) auto
    then obtain xs x where "enc f = xs @ [x]" by (cases "enc f" rule: rev_cases) auto
    with enc_last[OF assms(1)] assms(3) 1 show ?thesis by simp
  qed (simp_all add: enc_append[OF assms(1)] sextet_facts)
qed

lemma split3: "\<exists>f t n. s = f @ t \<and> length f = 3 * n \<and> length t < 3"
proof -
  let ?k = "3 * (length s div 3)"
  have "length (take ?k s) = ?k" by simp
  moreover have "length (drop ?k s) < 3" by (simp add: minus_mult_div_eq_mod)
  ultimately show ?thesis by (metis append_take_drop_id)
qed

lemma base64_decode_enc_split:
  assumes "h 0" "f @ t \<noteq> []" "length f = 3 * n" "length t < 3"
  shows "curlx_base64_decode (enc (f @ t)) h = (CURLE_OK, Some (f @ t), length (f @ t), \<lambda>i. h (Suc i))"
proof -
  have fl: "full_quantums n (enc (f @ t)) [] = Some (enc t, f)"
    using full_quantums_enc[of n "f @ t" "[]"] assms(3) by simp
  have len: "length (enc (f @ t)) = 4 * (if t = [] then n else Suc n)"
    using assms(3,4) enc_length[of "f @ t"] by (cases t; cases "tl t") auto
  have pos: "0 < (if t = [] then n else Suc n)" using assms(2,3) by (cases n) auto
  have ne: "enc (f @ t) \<noteq> []" using len pos by (metis list.size(3) mult_is_0 not_gr_zero zero_neq_numeral)
  note P = padding_loop_enc[OF assms(3,4,2)]
  have c: "cstr (enc (f @ t)) = enc (f @ t)" using enc_no_NUL by simp
  consider "t = []" | a where "t = [a]" | a b where "t = [a, b]"
    using assms(4) by (cases t; cases "tl t"; cases "tl (tl t)") auto
  then show ?thesis
  proof cases
    case 1
    with fl len pos ne P c assms(1,3) show ?thesis by (simp add: curlx_base64_decode_def request_def Let_def)
  next
    case (2 a)
    have q: "padded_quantum 2 0 0 (take 4 (enc t)) = Some (byte_val a * 65536)"
      using sextets[of "byte_val a" 0 0] by (simp add: 2 sextet_facts sextet_small)
    have "byte_val a * 65536 div 65536 mod 256 = byte_val a" by simp
    with 2 q fl len ne P c assms(1,3) show ?thesis
      by (simp add: curlx_base64_decode_def request_def Let_def del: encode_loop.simps)
  next
    case (3 a b)
    have q: "padded_quantum 1 0 0 (take 4 (enc t)) = Some (byte_val a * 65536 + byte_val b * 256)"
      using sextets[of "byte_val a" "byte_val b" 0] by (simp add: 3 sextet_facts sextet_small)
    have "(byte_val a * 65536 + byte_val b * 256) div 65536 mod 256 = byte_val a"
      "(byte_val a * 65536 + byte_val b * 256) div 256 mod 256 = byte_val b"
      using octets[of "byte_val a" "byte_val b" 0] by simp_all
    with 3 q fl len ne P c assms(1,3) show ?thesis
      by (simp add: curlx_base64_decode_def request_def Let_def del: encode_loop.simps)
  qed
qed

lemma base64_decode_enc:
  assumes "h 0" "s \<noteq> []"
  shows "curlx_base64_decode (enc s) h = (CURLE_OK, Some s, length s, \<lambda>i. h (Suc i))"
proof -
  obtain f t n where "s = f @ t" "length f = 3 * n" "length t < 3" using split3 by blast
  with base64_decode_enc_split[of h f t n] assms show ?thesis by simp
qed

section \<open>What is accepted\<close>

lemma padding_loop_iff:
  "padding_loop bk p = Some q \<Longrightarrow> p \<le> 2 \<Longrightarrow>
     \<exists>n rest. bk = replicate n EQ @ rest \<and> q = p + n \<and> q \<le> 2 \<and> (rest = [] \<or> hd rest \<noteq> EQ)"
proof (induction bk p rule: padding_loop.induct)
  case (2 c bk p)
  show ?case
  proof (cases "c = EQ")
    case True
    with 2 obtain n rest where "bk = replicate n EQ @ rest" "q = Suc p + n" "q \<le> 2" "rest = [] \<or> hd rest \<noteq> EQ"
      by (auto split: if_splits)
    with True show ?thesis by (intro exI[of _ "Suc n"] exI[of _ rest]) auto
  next
    case False
    with "2.prems" show ?thesis by (intro exI[of _ 0] exI[of _ "c # bk"]) auto
  qed
qed simp

lemma padding_loop_None: "padding_loop bk p = None \<Longrightarrow> p \<le> 2 \<Longrightarrow> \<exists>rest. bk = replicate (3 - p) EQ @ rest"
proof (induction bk p rule: padding_loop.induct)
  case (2 c bk p)
  then show ?case
  proof (cases "Suc p > 2")
    case True
    with "2.prems" have "c = EQ" "3 - p = 1" by (auto split: if_splits)
    then show ?thesis by simp
  next
    case False
    with 2 obtain rest where "c = EQ" "bk = replicate (3 - Suc p) EQ @ rest" by (auto split: if_splits)
    moreover have "3 - p = Suc (3 - Suc p)" using False by simp
    ultimately show ?thesis by auto
  qed
qed simp

abbreviation b64 :: "char \<Rightarrow> bool" where
  "b64 c \<equiv> lookup c \<noteq> 255"

lemma quantum_iff: "quantum x cs \<noteq> None \<longleftrightarrow> list_all b64 cs"
  by (induction cs arbitrary: x) auto

lemma full_quantums_iff:
  "full_quantums n src pos \<noteq> None \<longleftrightarrow> list_all b64 (take (4 * n) src)"
proof (induction n arbitrary: src pos)
  case (Suc n)
  have "take (4 * Suc n) src = take 4 src @ take (4 * n) (drop 4 src)" by (simp add: take_add)
  with Suc quantum_iff[of 0 "take 4 src"] show ?case by (auto split: option.splits)
qed simp

lemma full_quantums_rest: "full_quantums n src pos = Some (rest, out) \<Longrightarrow> rest = drop (4 * n) src \<and> length out = length pos + 3 * n"
proof (induction n arbitrary: src pos)
  case (Suc n)
  then obtain x :: nat where "full_quantums n (drop 4 src)
    (pos @ [char_of (x div 65536 mod 256), char_of (x div 256 mod 256), char_of (x mod 256)]) = Some (rest, out)"
    by (auto split: option.splits)
  from Suc.IH[OF this] show ?case by (simp add: add.commute)
qed simp

lemma padded_quantum_iff:
  "padded_quantum padding padc x cs \<noteq> None \<longleftrightarrow>
     list_all (\<lambda>c. c = EQ \<or> b64 c) cs \<and> (filter (\<lambda>c. c = EQ) cs = [] \<or> padc + length (filter (\<lambda>c. c = EQ) cs) \<le> padding)"
  by (induction cs arbitrary: padc x) auto

lemma dropWhile_replicate: "rest = [] \<or> hd rest \<noteq> c \<Longrightarrow> dropWhile (\<lambda>x. x = c) (replicate n c @ rest) = rest"
  by (induction n) (cases rest; auto)+

lemma no_EQ: "list_all b64 body \<Longrightarrow> EQ \<notin> set body"
  by (auto simp: list_all_iff)

definition well_formed :: "bytes \<Rightarrow> bool" where
  "well_formed s \<longleftrightarrow> s \<noteq> [] \<and> length s mod 4 = 0 \<and> (\<exists>body pad. s = body @ replicate pad EQ \<and> pad \<le> 2 \<and> list_all b64 body)"

lemma well_formed_split:
  assumes "s = body @ replicate p EQ" "p \<le> 2" "body = [] \<or> last body \<noteq> EQ" "s \<noteq> []" "length s mod 4 = 0"
  shows "well_formed s \<longleftrightarrow> list_all b64 body"
proof
  assume "well_formed s"
  then obtain body' pad where b: "s = body' @ replicate pad EQ" "list_all b64 body'" by (auto simp: well_formed_def)
  have "rev body' = [] \<or> hd (rev body') \<noteq> EQ" using no_EQ[OF b(2)] by (cases "body' = []") (auto simp: hd_rev dest: last_in_set)
  then have "dropWhile (\<lambda>x. x = EQ) (rev s) = rev body'" using b(1) dropWhile_replicate[of "rev body'" EQ pad] by simp
  moreover have "dropWhile (\<lambda>x. x = EQ) (rev s) = rev body"
    using assms(1,3) dropWhile_replicate[of "rev body"] by (simp add: hd_rev)
  ultimately show "list_all b64 body" using b(2) by simp
qed (use assms in \<open>auto simp: well_formed_def\<close>)

lemma padding_None_ill_formed:
  assumes "padding_loop (rev s) 0 = None"
  shows "\<not> well_formed s"
proof
  assume "well_formed s"
  then obtain body pad where b: "s = body @ replicate pad EQ" "pad \<le> 2" "list_all b64 body" by (auto simp: well_formed_def)
  from padding_loop_None[OF assms] obtain rest where "rev s = replicate 3 EQ @ rest" by auto
  then have r: "s = rev rest @ replicate 3 EQ" by (metis rev_append rev_replicate rev_rev_ident)
  have "s ! (length s - 3) = EQ" using r by (simp add: nth_append)
  moreover have "length s - 3 < length body"
  proof -
    have "3 \<le> length s" using r by simp
    moreover have "length s = length body + pad" using b(1) by simp
    ultimately show ?thesis using b(2) by linarith
  qed
  ultimately have "EQ \<in> set body" using b(1) by (metis nth_append nth_mem)
  with no_EQ[OF b(3)] show False by simp
qed

text \<open>The last quantum of a padded input: its \<open>=\<close> signs are exactly the trailing ones.\<close>

lemma padded_tail_iff:
  "padded_quantum p 0 x (body @ replicate p EQ) \<noteq> None \<longleftrightarrow> list_all b64 body"
proof -
  have all: "list_all (\<lambda>c. c = EQ \<or> b64 c) (replicate p EQ)" by (simp add: list_all_iff)
  have cnt: "length (filter (\<lambda>c. c = EQ) (body @ replicate p EQ)) \<le> p \<longleftrightarrow> filter (\<lambda>c. c = EQ) body = []"
    by simp
  have "list_all b64 body \<longleftrightarrow> list_all (\<lambda>c. c = EQ \<or> b64 c) body \<and> filter (\<lambda>c. c = EQ) body = []"
    by (auto simp: list_all_iff filter_empty_conv)
  then show ?thesis unfolding padded_quantum_iff using all cnt by (auto simp: filter_empty_conv)
qed

lemma base64_decode_split:
  assumes "h 0" "s = body @ replicate p EQ" "p \<le> 2" "s \<noteq> []" "length s mod 4 = 0" "NUL \<notin> set s"
    "padding_loop (rev s) 0 = Some p"
  shows "if list_all b64 body
    then \<exists>out. curlx_base64_decode s h = (CURLE_OK, Some out, length out, \<lambda>i. h (Suc i)) \<and> length out = length s div 4 * 3 - p
    else fst (curlx_base64_decode s h) = CURLE_BAD_CONTENT_ENCODING"
proof -
  obtain m where m: "length s = 4 * m" using assms(5) by (metis mod_eq_0_iff_dvd dvdE)
  with assms(4) have m0: "0 < m" by (cases m) auto
  define n where "n = m - (if p \<noteq> 0 then 1 else 0)"
  have c: "cstr s = s" using assms(6) by simp
  have full: "full_quantums n s [] \<noteq> None \<longleftrightarrow> list_all b64 (take (4 * n) body)"
  proof -
    have "4 * n \<le> length body" using m m0 assms(2,3) by (auto simp: n_def)
    then show ?thesis using full_quantums_iff[of n s "[]"] assms(2) by simp
  qed
  show ?thesis
  proof (cases "full_quantums n s []")
    case None
    then have "\<not> list_all b64 body" using full by (auto simp: list_all_iff dest: in_set_takeD)
    with None assms c m show ?thesis
      by (simp add: curlx_base64_decode_def request_def Let_def n_def)
  next
    case (Some ro)
    obtain rest pos where ro: "ro = (rest, pos)" by fastforce
    note R = full_quantums_rest[OF Some[unfolded ro]]
    show ?thesis
    proof (cases "p = 0")
      case True
      with m assms(2) have "take (4 * n) body = body" by (simp add: n_def)
      with full Some have "list_all b64 body" by simp
      with True Some ro R assms c m show ?thesis
        by (simp add: curlx_base64_decode_def request_def Let_def n_def)
    next
      case False
      have "4 * n \<le> length body" and n4: "length s - 4 * n = 4" using m m0 assms(2,3) False by (auto simp: n_def)
      then have rest: "take 4 rest = drop (4 * n) body @ replicate p EQ" using R assms(2) by simp
      have iff: "list_all b64 body \<longleftrightarrow> padded_quantum p 0 0 (take 4 rest) \<noteq> None"
        using full Some padded_tail_iff[of p 0 "drop (4 * n) body"] rest
        by (metis append_take_drop_id list_all_append option.distinct(1))
      have p12: "p = 1 \<or> p = 2" using False assms(3) by auto
      have l: "m * 3 = length pos + 3" using R False m0 by (cases m) (auto simp: n_def)
      show ?thesis
      proof (cases "padded_quantum p 0 0 (take 4 rest)")
        case None
        with iff False Some ro assms c m show ?thesis
          by (simp add: curlx_base64_decode_def request_def Let_def n_def)
      next
        case x: (Some x)
        with iff False Some ro assms c p12 l m m0 show ?thesis
          by (auto simp: curlx_base64_decode_def request_def Let_def n_def)
      qed
    qed
  qed
qed

section \<open>Properties\<close>





lemma encode_loop_chars: "length t = 64 \<Longrightarrow> set (encode_loop t pad s) \<subseteq> set t \<union> set pad"
  by (induction t pad s rule: encode_loop.induct) (use sextet_less in \<open>auto intro!: nth_mem\<close>)

text \<open>
  The URL variant encodes, for a non-empty input, to characters of the URL alphabet only, with no
  padding; an input of length zero gives success with no text at all, whatever the pointer holds.
\<close>

theorem base64url_encode_safe:
  "curlx_base64url_encode [] h = (CURLE_OK, None, 0, h) \<and>
   (case fst (snd (curlx_base64url_encode s h)) of None \<Rightarrow> True | Some out \<Rightarrow>
      set out \<subseteq> set base64url \<and> EQ \<notin> set out \<and> CHR ''+'' \<notin> set out \<and> CHR ''/'' \<notin> set out)"
proof -
  have "length base64url = 64" "EQ \<notin> set base64url \<and> CHR ''+'' \<notin> set base64url \<and> CHR ''/'' \<notin> set base64url"
    by code_simp+
  with encode_loop_chars[of base64url "[]" s] show ?thesis
    by (auto simp: curlx_base64url_encode_def base64_encode_def request_def Let_def split: if_splits)
qed

end
