(* ===== verification/Curl_Chains.thy ===== *)
theory Curl_Chains
  imports Curl_Code "HOL-Library.Multiset"
begin

text \<open>
  Tables of linked chains, as \<open>old/lib/hash.c\<close> and \<open>old/lib/uint-hash.c\<close> both have them: an array of
  lists of entries, each entry in the list its key hashes to. The loops over one list that the two
  files share are here, with the locale of a table whose keys are spread by a hash function below
  the number of lists, and the contract of a keyed container that both tables and the row table
  of \<open>uint-table.c\<close> give their users.
\<close>

section \<open>Loops over one chain\<close>

text \<open>Changing the first entry that matches, and unlinking it; each returns the entry it found.\<close>

fun chain_replace :: "('e \<Rightarrow> bool) \<Rightarrow> ('e \<Rightarrow> 'e) \<Rightarrow> 'e list \<Rightarrow> ('e \<times> 'e list) option" where
  "chain_replace P f [] = None"
| "chain_replace P f (e # es) =
     (if P e then Some (e, f e # es) else map_option (\<lambda>(x, es'). (x, e # es')) (chain_replace P f es))"

fun chain_unlink :: "('e \<Rightarrow> bool) \<Rightarrow> 'e list \<Rightarrow> ('e \<times> 'e list) option" where
  "chain_unlink P [] = None"
| "chain_unlink P (e # es) =
     (if P e then Some (e, es) else map_option (\<lambda>(x, es'). (x, e # es')) (chain_unlink P es))"

lemma chain_replace_None: "chain_replace P f es = None \<longleftrightarrow> find P es = None"
  by (induction es) auto

lemma chain_unlink_None: "chain_unlink P es = None \<longleftrightarrow> find P es = None"
  by (induction es) auto

lemma find_key: "find (\<lambda>e. key e = k) es = Some e \<Longrightarrow> e \<in> set es \<and> key e = k"
  by (auto simp: find_Some_iff)

lemma find_key_None: "find (\<lambda>e. key e = k) es = None \<longleftrightarrow> k \<notin> key ` set es"
  by (auto simp: find_None_iff)

lemma chain_replace_find: "chain_replace P f es = Some (x, es') \<Longrightarrow> find P es = Some x"
  by (induction es arbitrary: es') (auto split: if_splits)

lemma chain_replace_Some:
  assumes "chain_replace (\<lambda>e. key e = k) f es = Some (x, es')" "distinct (map key es)" "key (f x) = k"
  shows "find (\<lambda>e. key e = k) es = Some x \<and> map key es' = map key es \<and>
    find (\<lambda>e. key e = k') es' = (if k' = k then Some (f x) else find (\<lambda>e. key e = k') es)"
  using assms by (induction es arbitrary: es') (auto split: if_splits)

lemma chain_unlink_Some:
  assumes "chain_unlink (\<lambda>e. key e = k) es = Some (x, es')" "distinct (map key es)"
  shows "find (\<lambda>e. key e = k) es = Some x \<and> distinct (map key es') \<and> set es' \<subseteq> set es \<and>
    length es = Suc (length es') \<and>
    find (\<lambda>e. key e = k') es' = (if k' = k then None else find (\<lambda>e. key e = k') es)"
  using assms
proof (induction es arbitrary: es')
  case (Cons e es)
  show ?case
  proof (cases "key e = k")
    case True
    with Cons.prems show ?thesis by (auto simp: find_key_None)
  next
    case False
    with Cons.prems obtain c where c: "chain_unlink (\<lambda>e. key e = k) es = Some (x, c)" "es' = e # c" by auto
    with Cons.IH[OF c(1)] Cons.prems(2) have "set c \<subseteq> set es" by simp
    then have "key e \<notin> key ` set c" using Cons.prems(2) by auto
    with Cons.IH[OF c(1)] Cons.prems(2) c(2) False show ?thesis by auto
  qed
qed simp

text \<open>As multisets: what a replacement and an unlinking change of a chain, and of the whole table.\<close>

lemma chain_replace_mset:
  "chain_replace P f es = Some (x, es') \<Longrightarrow> \<exists>M. mset es = add_mset x M \<and> mset es' = add_mset (f x) M"
  by (induction es arbitrary: es') (fastforce split: if_splits)+

lemma chain_unlink_mset: "chain_unlink P es = Some (x, es') \<Longrightarrow> mset es = add_mset x (mset es')"
  by (induction es arbitrary: es') (auto split: if_splits)

lemma concat_update_mset: "i < length t \<Longrightarrow> mset (concat (t[i := c])) + mset (t ! i) = mset (concat t) + mset c"
  by (subst (3) id_take_nth_drop[of i t]) (auto simp: upd_conv_take_nth_drop)

lemma concat_update_length: "i < length t \<Longrightarrow> length (concat (t[i := c])) + length (t ! i) = length (concat t) + length c"
  by (metis concat_update_mset size_mset size_union)

section \<open>Tables of chains\<close>

definition chains_ok :: "('e \<Rightarrow> 'k) \<Rightarrow> ('k \<Rightarrow> nat \<Rightarrow> nat) \<Rightarrow> nat \<Rightarrow> 'e list list \<Rightarrow> bool" where
  "chains_ok key slot n t \<longleftrightarrow> length t = n \<and> 0 < n \<and>
     list_all (\<lambda>i. distinct (map key (t ! i)) \<and> list_all (\<lambda>e. slot (key e) n = i) (t ! i)) [0..<n]"

definition entry_of :: "('e \<Rightarrow> 'k) \<Rightarrow> ('k \<Rightarrow> nat \<Rightarrow> nat) \<Rightarrow> nat \<Rightarrow> 'e list list \<Rightarrow> 'k \<rightharpoonup> 'e" where
  "entry_of key slot n t k = find (\<lambda>e. key e = k) (t ! slot k n)"

locale chained_table =
  fixes key :: "'e \<Rightarrow> 'k"
    and slot :: "'k \<Rightarrow> nat \<Rightarrow> nat"
  assumes slot_bound: "0 < n \<Longrightarrow> slot k n < n"
begin

lemma chainsD:
  assumes "chains_ok key slot n t"
  shows "length t = n" "0 < n" "i < n \<Longrightarrow> distinct (map key (t ! i))"
    "i < n \<Longrightarrow> e \<in> set (t ! i) \<Longrightarrow> slot (key e) n = i"
  using assms by (auto simp: chains_ok_def list_all_iff)

lemma chains_okI:
  assumes "length t = n" "0 < n" "\<And>i. i < n \<Longrightarrow> distinct (map key (t ! i))"
    "\<And>i e. i < n \<Longrightarrow> e \<in> set (t ! i) \<Longrightarrow> slot (key e) n = i"
  shows "chains_ok key slot n t"
  using assms by (auto simp: chains_ok_def list_all_iff)

lemma chains_update:
  assumes "chains_ok key slot n t" "distinct (map key c)" "\<And>e. e \<in> set c \<Longrightarrow> slot (key e) n = i"
  shows "chains_ok key slot n (t[i := c])"
proof (rule chains_okI)
  fix j assume j: "j < n"
  show "distinct (map key (t[i := c] ! j))"
    using assms chainsD[OF assms(1)] j by (cases "i = j") auto
  fix e assume "e \<in> set (t[i := c] ! j)"
  then show "slot (key e) n = j" using assms chainsD[OF assms(1)] j by (cases "i = j") auto
qed (use chainsD[OF assms(1)] in auto)

lemma entry_update:
  assumes "chains_ok key slot n t" "i < n"
  shows "entry_of key slot n (t[i := c]) k = (if slot k n = i then find (\<lambda>e. key e = k) c else entry_of key slot n t k)"
  using assms chainsD(1)[OF assms(1)] by (auto simp: entry_of_def)

lemma entry_empty: "0 < n \<Longrightarrow> entry_of key slot n (replicate n []) = Map.empty"
  by (rule ext) (simp add: entry_of_def slot_bound)

lemma chains_empty: "0 < n \<Longrightarrow> chains_ok key slot n (replicate n [])"
  by (rule chains_okI) auto

lemma replaced_entry:
  assumes ok: "chains_ok key slot n t"
    and r: "chain_replace (\<lambda>e. key e = k) f (t ! slot k n) = Some (x, c)" and f: "key (f x) = k"
  shows "entry_of key slot n t k = Some x \<and> chains_ok key slot n (t[slot k n := c]) \<and>
    entry_of key slot n (t[slot k n := c]) = (entry_of key slot n t)(k \<mapsto> f x)"
proof -
  have i: "slot k n < n" by (rule slot_bound) (rule chainsD(2)[OF ok])
  note R = chain_replace_Some[OF r chainsD(3)[OF ok i] f]
  have "key ` set c = key ` set (t ! slot k n)" using R[of k] by (metis image_set)
  then have "slot (key e) n = slot k n" if "e \<in> set c" for e
    using that chainsD(4)[OF ok i] by (metis (no_types, lifting) imageE imageI)
  moreover have "distinct (map key c)" using R chainsD(3)[OF ok i] by metis
  ultimately have "chains_ok key slot n (t[slot k n := c])" by (intro chains_update[OF ok]) auto
  moreover have "entry_of key slot n (t[slot k n := c]) k' = ((entry_of key slot n t)(k \<mapsto> f x)) k'" for k'
    unfolding entry_update[OF ok i] using R[of k'] by (auto simp: entry_of_def)
  ultimately show ?thesis using R[of k] by (auto simp: entry_of_def)
qed

lemma linked_entry:
  assumes ok: "chains_ok key slot n t" and new: "entry_of key slot n t (key e) = None"
  defines "i \<equiv> slot (key e) n"
  shows "chains_ok key slot n (t[i := e # t ! i]) \<and>
    entry_of key slot n (t[i := e # t ! i]) = (entry_of key slot n t)(key e \<mapsto> e)"
proof -
  have i: "i < n" unfolding i_def by (rule slot_bound) (rule chainsD(2)[OF ok])
  have "key e \<notin> key ` set (t ! i)" using new by (simp add: entry_of_def i_def find_key_None)
  then have "chains_ok key slot n (t[i := e # t ! i])"
    using chainsD(3,4)[OF ok i] by (intro chains_update[OF ok]) (auto simp: i_def)
  moreover have "entry_of key slot n (t[i := e # t ! i]) k' = ((entry_of key slot n t)(key e \<mapsto> e)) k'" for k'
    unfolding entry_update[OF ok i] by (auto simp: entry_of_def i_def)
  ultimately show ?thesis by blast
qed

lemma unlinked_entry:
  assumes ok: "chains_ok key slot n t"
    and r: "chain_unlink (\<lambda>e. key e = k) (t ! slot k n) = Some (x, c)"
  shows "entry_of key slot n t k = Some x \<and> chains_ok key slot n (t[slot k n := c]) \<and>
    entry_of key slot n (t[slot k n := c]) = (entry_of key slot n t)(k := None)"
proof -
  have i: "slot k n < n" by (rule slot_bound) (rule chainsD(2)[OF ok])
  note R = chain_unlink_Some[OF r chainsD(3)[OF ok i]]
  have "chains_ok key slot n (t[slot k n := c])"
    using R[of k] chainsD(4)[OF ok i] by (intro chains_update[OF ok]) auto
  moreover have "entry_of key slot n (t[slot k n := c]) k' = ((entry_of key slot n t)(k := None)) k'" for k'
    unfolding entry_update[OF ok i] using R[of k'] by (auto simp: entry_of_def)
  ultimately show ?thesis using R[of k] by (auto simp: entry_of_def)
qed

lemma entry_mem:
  assumes "chains_ok key slot n t"
  shows "entry_of key slot n t k = Some e \<longleftrightarrow> e \<in> set (concat t) \<and> key e = k"
proof
  assume "entry_of key slot n t k = Some e"
  then have "e \<in> set (t ! slot k n)" "key e = k" by (auto simp: entry_of_def dest: find_key)
  moreover have "slot k n < length t" using slot_bound chainsD(1,2)[OF assms] by auto
  ultimately show "e \<in> set (concat t) \<and> key e = k" by auto
next
  assume "e \<in> set (concat t) \<and> key e = k"
  then obtain c where c: "c \<in> set t" "e \<in> set c" "key e = k" by auto
  then obtain i where i: "i < n" "e \<in> set (t ! i)" "key e = k"
    using chainsD(1)[OF assms] in_set_conv_nth[of c t] by auto
  then have s: "slot k n = i" using chainsD(4)[OF assms i(1,2)] by simp
  show "entry_of key slot n t k = Some e"
  proof (cases "find (\<lambda>e. key e = k) (t ! i)")
    case None
    with i show ?thesis by (auto simp: find_key_None)
  next
    case (Some x)
    note find_key[OF Some]
    moreover have "inj_on key (set (t ! i))" using chainsD(3)[OF assms i(1)] by (simp add: distinct_map)
    ultimately have "x = e" using i by (auto dest: inj_onD)
    with Some s show ?thesis by (simp add: entry_of_def)
  qed
qed

lemma dom_entry: "chains_ok key slot n t \<Longrightarrow> dom (entry_of key slot n t) = key ` set (concat t)"
  by (auto simp: entry_mem dom_def)

lemma distinct_chains:
  assumes "chains_ok key slot n t"
  shows "distinct (map key (concat t))"
proof -
  have "distinct (map key (concat (take m t)))" if "m \<le> n" for m
    using that
  proof (induction m)
    case (Suc m)
    have m: "m < n" "m < length t" using Suc.prems chainsD(1)[OF assms] by auto
    have "slot (key e) n < m" if e: "e \<in> set (concat (take m t))" for e
    proof -
      from e obtain c where "c \<in> set (take m t)" "e \<in> set c" by auto
      then obtain i where "i < m" "e \<in> set (t ! i)" using in_set_conv_nth[of c "take m t"] by auto
      then show ?thesis using chainsD(4)[OF assms, of i e] m by simp
    qed
    moreover have "slot (key e) n = m" if "e \<in> set (t ! m)" for e using chainsD(4)[OF assms m(1) that] .
    ultimately have "key ` set (concat (take m t)) \<inter> key ` set (t ! m) = {}"
      by force
    with Suc chainsD(3)[OF assms m(1)] m(2) show ?case by (simp add: take_Suc_conv_app_nth)
  qed simp
  from this[of n] chainsD(1)[OF assms] show ?thesis by simp
qed

lemma entries_card: "chains_ok key slot n t \<Longrightarrow> card (dom (entry_of key slot n t)) = length (concat t)"
  using distinct_chains by (metis dom_entry card_image distinct_card distinct_map length_map list.set_map)

end

section \<open>The contract of a keyed container\<close>

text \<open>
  What the users of the tables rely on: what a lookup returns after an entry was stored or deleted,
  and that the count is the number of stored entries, in 32 bits or more.
\<close>

locale keyed_container =
  fixes invar :: "'s \<Rightarrow> bool"
    and lookup :: "'s \<Rightarrow> 'k \<rightharpoonup> 'v"
    and delete :: "'s \<Rightarrow> 'k \<Rightarrow> 's"
  assumes finite_lookup: "invar s \<Longrightarrow> finite (dom (lookup s))"
    and invar_delete: "invar s \<Longrightarrow> invar (delete s k)"
    and lookup_delete: "invar s \<Longrightarrow> lookup (delete s k) = (lookup s)(k := None)"
begin

lemma delete_list:
  assumes "invar s"
  shows "invar (foldl delete s ks) \<and> lookup (foldl delete s ks) = lookup s |` (- set ks)"
  using assms
proof (induction ks arbitrary: s)
  case (Cons k ks)
  have "(lookup s)(k := None) |` (- set ks) = lookup s |` (- set (k # ks))"
    by (auto simp: restrict_map_def)
  then show ?case using Cons.IH[OF invar_delete[OF Cons.prems], of k]
    by (simp only: foldl_Cons lookup_delete[OF Cons.prems])
qed (simp add: restrict_map_def)

lemma delete_everything:
  assumes "invar s" "dom (lookup s) \<subseteq> set ks"
  shows "lookup (foldl delete s ks) = Map.empty"
proof -
  have "lookup s |` (- set ks) = Map.empty" using assms(2) by (auto simp: restrict_map_def dom_def fun_eq_iff)
  then show ?thesis using delete_list[OF assms(1), of ks] by simp
qed

end

text \<open>A container that stores too: any sequence of stores and deletions is that sequence on a map.\<close>

datatype ('k, 'v) map_op = Put 'k 'v | Del 'k

fun apply_op :: "('s \<Rightarrow> 'k \<Rightarrow> 'v \<Rightarrow> 's) \<Rightarrow> ('s \<Rightarrow> 'k \<Rightarrow> 's) \<Rightarrow> 's \<Rightarrow> ('k, 'v) map_op \<Rightarrow> 's" where
  "apply_op put delete s (Put k v) = put s k v"
| "apply_op put delete s (Del k) = delete s k"

fun map_apply :: "('k \<rightharpoonup> 'v) \<Rightarrow> ('k, 'v) map_op \<Rightarrow> ('k \<rightharpoonup> 'v)" where
  "map_apply M (Put k v) = M(k \<mapsto> v)"
| "map_apply M (Del k) = M(k := None)"

locale keyed_map = keyed_container invar lookup delete
  for invar :: "'s \<Rightarrow> bool" and lookup :: "'s \<Rightarrow> 'k \<rightharpoonup> 'v" and delete :: "'s \<Rightarrow> 'k \<Rightarrow> 's" +
  fixes put :: "'s \<Rightarrow> 'k \<Rightarrow> 'v \<Rightarrow> 's"
  assumes invar_put: "invar s \<Longrightarrow> invar (put s k v)"
    and lookup_put: "invar s \<Longrightarrow> lookup (put s k v) = (lookup s)(k \<mapsto> v)"
begin

lemma ops_refine:
  "invar s \<Longrightarrow> invar (foldl (apply_op put delete) s ops) \<and>
     lookup (foldl (apply_op put delete) s ops) = foldl map_apply (lookup s) ops"
proof (induction ops arbitrary: s)
  case (Cons op ops)
  have "invar (apply_op put delete s op)" "lookup (apply_op put delete s op) = map_apply (lookup s) op"
    using Cons.prems by (cases op; simp add: invar_put invar_delete lookup_put lookup_delete)+
  with Cons.IH show ?case by (metis foldl_Cons)
qed simp

end

end
