(* ===== verification/Curl_Uint_Hash.thy ===== *)
theory Curl_Uint_Hash
  imports Curl_Chains
begin

text \<open>
  The hash of values by 32-bit id of \<open>old/lib/uint-hash.c\<close>. A value is a pointer the table does
  not look into: \<open>None\<close> is the null pointer. The chains are lists of entries, the size and the ids
  32-bit words. Operations return the values they hand to the destructor, with their ids, in the
  order of the calls. The table is a finite map, and every value that was stored is handed to the
  destructor exactly once.
\<close>

section \<open>Data and operations\<close>

record 'v uint_hash_entry =
  he_id :: "32 word"
  he_value :: "'v option"

record 'v uint_hash =
  table :: "'v uint_hash_entry list list option"
  dtor :: bool
  hsize :: "32 word"
  slots :: "32 word"

type_synonym 'v destroyed = "(32 word \<times> 'v) list"

definition uint32_hash_hash :: "32 word \<Rightarrow> 32 word \<Rightarrow> 32 word" where
  "uint32_hash_hash i n = i mod n"

definition Curl_uint32_hash_init :: "32 word \<Rightarrow> bool \<Rightarrow> 'v uint_hash" where
  "Curl_uint32_hash_init n d = \<lparr>table = None, dtor = d, hsize = 0, slots = n\<rparr>"

definition uint32_hash_mk_entry :: "32 word \<Rightarrow> 'v option \<Rightarrow> heap \<Rightarrow> 'v uint_hash_entry option \<times> heap" where
  "uint32_hash_mk_entry i v m =
     (case request m of (ok, m) \<Rightarrow> (if ok then Some \<lparr>he_id = i, he_value = v\<rparr> else None, m))"

definition uint32_hash_entry_clear ::
    "'v uint_hash \<Rightarrow> 'v uint_hash_entry \<Rightarrow> 'v destroyed \<times> 'v uint_hash_entry" where
  "uint32_hash_entry_clear h e =
     (case he_value e of
        None \<Rightarrow> ([], e)
      | Some v \<Rightarrow> (if dtor h then [(he_id e, v)] else [], e\<lparr>he_value := None\<rparr>))"

definition uint32_hash_entry_destroy :: "'v uint_hash \<Rightarrow> 'v uint_hash_entry \<Rightarrow> 'v destroyed" where
  "uint32_hash_entry_destroy h e = fst (uint32_hash_entry_clear h e)"

text \<open>Unlinking an entry of the chain \<open>i\<close> leaves the chain \<open>c\<close>; linking puts an entry in front.\<close>

definition uint32_hash_entry_unlink ::
    "'v uint_hash \<Rightarrow> 'v uint_hash_entry list list \<Rightarrow> nat \<Rightarrow> 'v uint_hash_entry list \<Rightarrow> 'v uint_hash" where
  "uint32_hash_entry_unlink h t i c = h\<lparr>table := Some (t[i := c]), hsize := hsize h - 1\<rparr>"

definition uint32_hash_elem_link ::
    "'v uint_hash \<Rightarrow> 'v uint_hash_entry list list \<Rightarrow> nat \<Rightarrow> 'v uint_hash_entry \<Rightarrow> 'v uint_hash" where
  "uint32_hash_elem_link h t i e = h\<lparr>table := Some (t[i := e # t ! i]), hsize := hsize h + 1\<rparr>"

definition slot_of :: "'v uint_hash \<Rightarrow> 32 word \<Rightarrow> nat" where
  "slot_of h i = unat (uint32_hash_hash i (slots h))"

definition set_in_table ::
    "'v uint_hash \<Rightarrow> 'v uint_hash_entry list list \<Rightarrow> 32 word \<Rightarrow> 'v option \<Rightarrow> heap
     \<Rightarrow> bool \<times> 'v destroyed \<times> 'v uint_hash \<times> heap" where
  "set_in_table h t i v m =
     (let s = slot_of h i in
      case chain_replace (\<lambda>e. he_id e = i) (\<lambda>e. (snd (uint32_hash_entry_clear h e))\<lparr>he_value := v\<rparr>) (t ! s) of
        Some (e, c) \<Rightarrow>
          (True, fst (uint32_hash_entry_clear h e), h\<lparr>table := Some (t[s := c])\<rparr>, m)
      | None \<Rightarrow>
          case uint32_hash_mk_entry i v m of
            (None, m) \<Rightarrow> (False, [], h, m)
          | (Some e, m) \<Rightarrow> (True, [], uint32_hash_elem_link h t s e, m))"

definition Curl_uint32_hash_set ::
    "'v uint_hash \<Rightarrow> 32 word \<Rightarrow> 'v option \<Rightarrow> heap \<Rightarrow> bool \<times> 'v destroyed \<times> 'v uint_hash \<times> heap" where
  "Curl_uint32_hash_set h i v m =
     (case table h of
        Some t \<Rightarrow> set_in_table h t i v m
      | None \<Rightarrow>
          case request m of (ok, m) \<Rightarrow>
            if \<not> ok then (False, [], h, m)
            else
              let t = replicate (unat (slots h)) [] in
              set_in_table (h\<lparr>table := Some t\<rparr>) t i v m)"

definition Curl_uint32_hash_remove :: "'v uint_hash \<Rightarrow> 32 word \<Rightarrow> bool \<times> 'v destroyed \<times> 'v uint_hash" where
  "Curl_uint32_hash_remove h i =
     (case table h of
        None \<Rightarrow> (False, [], h)
      | Some t \<Rightarrow>
          case chain_unlink (\<lambda>e. he_id e = i) (t ! slot_of h i) of
            None \<Rightarrow> (False, [], h)
          | Some (e, c) \<Rightarrow>
              let h = uint32_hash_entry_unlink h t (slot_of h i) c in
              (True, uint32_hash_entry_destroy h e, h))"

definition Curl_uint32_hash_get :: "'v uint_hash \<Rightarrow> 32 word \<Rightarrow> 'v option" where
  "Curl_uint32_hash_get h i =
     (case table h of
        None \<Rightarrow> None
      | Some t \<Rightarrow>
          case find (\<lambda>e. he_id e = i) (t ! slot_of h i) of
            None \<Rightarrow> None
          | Some e \<Rightarrow> he_value e)"

text \<open>Clearing: for every chain, unlink and destroy its first entry until none is left.\<close>

fun clear_chain ::
    "'v uint_hash \<Rightarrow> 'v uint_hash_entry list list \<Rightarrow> nat \<Rightarrow> 'v uint_hash_entry list \<Rightarrow> 'v destroyed \<times> 'v uint_hash" where
  "clear_chain h t i [] = ([], h)"
| "clear_chain h t i (e # es) =
     (let h = uint32_hash_entry_unlink h t i es;
          gone = uint32_hash_entry_destroy h e;
          (rest, h) = clear_chain h (t[i := es]) i es in
      (gone @ rest, h))"

fun clear_slots :: "'v uint_hash \<Rightarrow> nat list \<Rightarrow> 'v destroyed \<times> 'v uint_hash" where
  "clear_slots h [] = ([], h)"
| "clear_slots h (i # is) =
     (case table h of
        None \<Rightarrow> ([], h)
      | Some t \<Rightarrow>
          let (gone, h) = clear_chain h t i (t ! i);
              (rest, h) = clear_slots h is in
          (gone @ rest, h))"

definition uint_hash_clear :: "'v uint_hash \<Rightarrow> 'v destroyed \<times> 'v uint_hash" where
  "uint_hash_clear h = (case table h of None \<Rightarrow> ([], h) | Some t \<Rightarrow> clear_slots h [0..<unat (slots h)])"

definition Curl_uint32_hash_destroy :: "'v uint_hash \<Rightarrow> 'v destroyed \<times> 'v uint_hash" where
  "Curl_uint32_hash_destroy h =
     (case table h of
        None \<Rightarrow> ([], h\<lparr>slots := 0\<rparr>)
      | Some t \<Rightarrow> (case uint_hash_clear h of (gone, h) \<Rightarrow> (gone, h\<lparr>table := None, slots := 0\<rparr>)))"

definition Curl_uint32_hash_count :: "'v uint_hash \<Rightarrow> 32 word" where
  "Curl_uint32_hash_count h = hsize h"

text \<open>The visitor returns whether to go on, and its own state.\<close>

fun visit_chain ::
    "('s \<Rightarrow> 32 word \<Rightarrow> 'v option \<Rightarrow> bool \<times> 's) \<Rightarrow> 's \<Rightarrow> 'v uint_hash_entry list \<Rightarrow> bool \<times> 's" where
  "visit_chain cb s [] = (True, s)"
| "visit_chain cb s (e # es) =
     (case cb s (he_id e) (he_value e) of (go, s) \<Rightarrow> if \<not> go then (False, s) else visit_chain cb s es)"

fun visit_slots ::
    "('s \<Rightarrow> 32 word \<Rightarrow> 'v option \<Rightarrow> bool \<times> 's) \<Rightarrow> 's \<Rightarrow> 'v uint_hash_entry list list \<Rightarrow> 's" where
  "visit_slots cb s [] = s"
| "visit_slots cb s (c # cs) =
     (case visit_chain cb s c of (go, s) \<Rightarrow> if \<not> go then s else visit_slots cb s cs)"

definition Curl_uint32_hash_visit ::
    "'v uint_hash \<Rightarrow> ('s \<Rightarrow> 32 word \<Rightarrow> 'v option \<Rightarrow> bool \<times> 's) \<Rightarrow> 's \<Rightarrow> 's" where
  "Curl_uint32_hash_visit h cb s =
     (case table h of None \<Rightarrow> s | Some t \<Rightarrow> visit_slots cb s (take (unat (slots h)) t))"

section \<open>The map a table stands for\<close>

definition id_slot :: "32 word \<Rightarrow> nat \<Rightarrow> nat" where
  "id_slot i n = unat i mod n"

definition hash_ok :: "'v uint_hash \<Rightarrow> bool" where
  "hash_ok h \<longleftrightarrow> slots h \<noteq> 0 \<and>
     (case table h of
        None \<Rightarrow> hsize h = 0
      | Some t \<Rightarrow> chains_ok he_id id_slot (unat (slots h)) t \<and> hsize h = of_nat (length (concat t)))"

definition lookup :: "'v uint_hash \<Rightarrow> 32 word \<rightharpoonup> 'v option" where
  "lookup h i =
     (case table h of
        None \<Rightarrow> None
      | Some t \<Rightarrow> map_option he_value (entry_of he_id id_slot (unat (slots h)) t i))"

interpretation ids: chained_table he_id id_slot
  by unfold_locales (simp add: id_slot_def)

lemma slot_of_id: "slot_of h i = id_slot i (unat (slots h))"
  by (simp add: slot_of_def uint32_hash_hash_def id_slot_def unat_mod)

text \<open>The values a table holds, with their ids.\<close>

definition stored :: "'v uint_hash_entry \<Rightarrow> (32 word \<times> 'v) multiset" where
  "stored e = (case he_value e of None \<Rightarrow> {#} | Some v \<Rightarrow> {#(he_id e, v)#})"

definition holds :: "'v uint_hash \<Rightarrow> (32 word \<times> 'v) multiset" where
  "holds h = (case table h of None \<Rightarrow> {#} | Some t \<Rightarrow> (\<Sum>e\<in>#mset (concat t). stored e))"

lemma entry_clear_log: "mset (fst (uint32_hash_entry_clear h e)) = (if dtor h then stored e else {#})"
  by (simp add: uint32_hash_entry_clear_def stored_def split: option.split)

lemma entry_clear_id [simp]: "he_id (snd (uint32_hash_entry_clear h e)) = he_id e"
  by (simp add: uint32_hash_entry_clear_def split: option.split)

lemma holds_update:
  assumes "i < length t"
  shows "(\<Sum>e\<in>#mset (concat (t[i := c])). stored e) + (\<Sum>e\<in>#mset (t ! i). stored e) =
    (\<Sum>e\<in>#mset (concat t). stored e) + (\<Sum>e\<in>#mset c. stored e)"
  using arg_cong[OF concat_update_mset[OF assms, of c], of "\<lambda>M. \<Sum>e\<in>#M. stored e"]
  by (simp only: image_mset_union sum_mset.union)


section \<open>What each operation does\<close>

text \<open>What the destructor is called with when the entry of \<open>i\<close> is overwritten or removed.\<close>

definition handed :: "'v uint_hash \<Rightarrow> 32 word \<Rightarrow> 'v destroyed" where
  "handed h i = (case lookup h i of Some (Some v) \<Rightarrow> if dtor h then [(i, v)] else [] | _ \<Rightarrow> [])"

lemma uhash_okD:
  assumes "hash_ok h" "table h = Some t"
  shows "chains_ok he_id id_slot (unat (slots h)) t" "hsize h = of_nat (length (concat t))" "slot_of h i < length t"
proof -
  show c: "chains_ok he_id id_slot (unat (slots h)) t" and "hsize h = of_nat (length (concat t))"
    using assms by (auto simp: hash_ok_def)
  show "slot_of h i < length t" using ids.chainsD(1,2)[OF c] ids.slot_bound by (simp add: slot_of_id)
qed

lemma table_sum:
  assumes "i < length t" "mset (t ! i) = add_mset x M" "mset c = N + M"
  shows "(\<Sum>e\<in>#mset (concat (t[i := c])). stored e) + stored x = (\<Sum>e\<in>#mset (concat t). stored e) + (\<Sum>e\<in>#N. stored e)"
  using holds_update[OF assms(1), of c] assms(2,3) by (simp add: ac_simps)

lemma set_in_table_ok:
  assumes ok: "hash_ok h" and t: "table h = Some t" and s: "set_in_table h t i v m = (r, gone, h', m')"
  shows "hash_ok h' \<and> dtor h' = dtor h \<and>
    (if r then lookup h' = (lookup h)(i \<mapsto> v) \<and> gone = handed h i \<and>
        (dtor h \<longrightarrow> mset gone + holds h' = holds h + stored \<lparr>he_id = i, he_value = v\<rparr>)
     else gone = [] \<and> h' = h \<and> \<not> m 0)"
proof -
  let ?n = "unat (slots h)"
  define f where "f = (\<lambda>e. (snd (uint32_hash_entry_clear h e))\<lparr>he_value := v\<rparr>)"
  note C = uhash_okD(1,2)[OF ok t] uhash_okD(3)[OF ok t, of i]
  have len: "?n = length t" "0 < ?n" using ids.chainsD(1,2)[OF C(1)] by auto
  note S = s[unfolded set_in_table_def Let_def f_def[symmetric]]
  show ?thesis
  proof (cases "chain_replace (\<lambda>e. he_id e = i) f (t ! slot_of h i)")
    case None
    then have new: "entry_of he_id id_slot ?n t i = None" by (simp add: entry_of_def slot_of_id chain_replace_None)
    let ?e = "\<lparr>he_id = i, he_value = v\<rparr>"
    show ?thesis
    proof (cases "m 0")
      case False
      with None s S ok show ?thesis by (auto simp: uint32_hash_mk_entry_def request_def)
    next
      case True
      then have h': "r" "gone = []" "h' = uint32_hash_elem_link h t (slot_of h i) ?e"
        using None S by (auto simp: uint32_hash_mk_entry_def request_def)
      note L = ids.linked_entry[OF C(1), of ?e, simplified, OF new, folded slot_of_id]
      have "length (concat (t[slot_of h i := ?e # t ! slot_of h i])) = Suc (length (concat t))"
        using concat_update_length[OF C(3), of "?e # t ! slot_of h i"] by simp
      then have ok': "hash_ok h'" using h' L C(2) len
        by (simp add: hash_ok_def uint32_hash_elem_link_def del: length_concat) (use ok in \<open>simp add: hash_ok_def\<close>)
      have "lookup h' = (lookup h)(i \<mapsto> v)"
        using h' L t by (auto simp: lookup_def uint32_hash_elem_link_def fun_eq_iff)
      moreover have "handed h i = []" using new t by (simp add: handed_def lookup_def)
      moreover have "holds h' = holds h + stored ?e"
        using h' t holds_update[OF C(3), of "?e # t ! slot_of h i"]
        by (simp add: holds_def uint32_hash_elem_link_def add.commute)
      ultimately show ?thesis using h' ok' by (simp add: uint32_hash_elem_link_def)
    qed
  next
    case (Some xc)
    obtain x c where xc: "xc = (x, c)" by fastforce
    note R = Some[unfolded xc]
    then have h': "r" "gone = fst (uint32_hash_entry_clear h x)" "h' = h\<lparr>table := Some (t[slot_of h i := c])\<rparr>"
      using S by auto
    have x: "he_id x = i" using chain_replace_find[OF R] by (auto dest: find_key)
    then have fx: "he_id (f x) = i" by (simp add: f_def)
    have he: "he_value (f x) = v" by (simp add: f_def)
    note L = ids.replaced_entry[OF C(1) R[unfolded slot_of_id] fx, folded slot_of_id]
    have mem: "map he_id c = map he_id (t ! slot_of h i)"
      using chain_replace_Some[OF R ids.chainsD(3)[OF C(1)] fx, of i] C(3) len by simp
    then have "length c = length (t ! slot_of h i)" by (rule map_eq_imp_length_eq)
    then have "length (concat (t[slot_of h i := c])) = length (concat t)"
      using concat_update_length[OF C(3), of c] by simp
    then have ok': "hash_ok h'" using h' L C(2) ok by (simp add: hash_ok_def del: length_concat)
    have "lookup h' = (lookup h)(i \<mapsto> v)" using h' L t he by (auto simp: lookup_def fun_eq_iff)
    moreover have "gone = handed h i"
      using h' L t x by (auto simp: handed_def lookup_def uint32_hash_entry_clear_def split: option.splits)
    moreover have "mset gone + holds h' = holds h + stored \<lparr>he_id = i, he_value = v\<rparr>" if d: "dtor h"
    proof -
      obtain M where M: "mset (t ! slot_of h i) = add_mset x M" "mset c = {#f x#} + M"
        using chain_replace_mset[OF R] by auto
      have "stored (f x) = stored \<lparr>he_id = i, he_value = v\<rparr>" using fx he by (simp add: stored_def split: option.split)
      with table_sum[OF C(3) M] h' t d show ?thesis by (simp add: holds_def entry_clear_log add.commute)
    qed
    ultimately show ?thesis using h' ok' by simp
  qed
qed

lemma ufresh_table_ok:
  assumes "hash_ok h" "table h = None"
  shows "hash_ok (h\<lparr>table := Some (replicate (unat (slots h)) [])\<rparr>)"
    "lookup (h\<lparr>table := Some (replicate (unat (slots h)) [])\<rparr>) = lookup h"
    "holds (h\<lparr>table := Some (replicate (unat (slots h)) [])\<rparr>) = holds h"
proof -
  have n: "0 < unat (slots h)" using assms by (simp add: hash_ok_def unat_gt_0)
  have c: "concat (replicate k []) = []" for k by (induction k) auto
  show "hash_ok (h\<lparr>table := Some (replicate (unat (slots h)) [])\<rparr>)"
    using assms ids.chains_empty[OF n] c by (simp add: hash_ok_def del: length_concat)
  show "lookup (h\<lparr>table := Some (replicate (unat (slots h)) [])\<rparr>) = lookup h"
    using assms(2) ids.entry_empty[OF n] by (simp add: lookup_def fun_eq_iff)
  show "holds (h\<lparr>table := Some (replicate (unat (slots h)) [])\<rparr>) = holds h"
    using assms(2) c by (simp add: holds_def)
qed

lemma uset_ok:
  assumes ok: "hash_ok h" and s: "Curl_uint32_hash_set h i v m = (r, gone, h', m')"
  shows "hash_ok h' \<and> dtor h' = dtor h \<and>
    (if r then lookup h' = (lookup h)(i \<mapsto> v) \<and> gone = handed h i \<and>
        (dtor h \<longrightarrow> mset gone + holds h' = holds h + stored \<lparr>he_id = i, he_value = v\<rparr>)
     else gone = [] \<and> lookup h' = lookup h \<and> holds h' = holds h \<and> (\<exists>k. \<not> m k))"
proof (cases "table h")
  case (Some t)
  with s have "set_in_table h t i v m = (r, gone, h', m')" by (simp add: Curl_uint32_hash_set_def)
  from set_in_table_ok[OF ok Some this] show ?thesis by (auto split: if_splits)
next
  case None
  let ?h = "h\<lparr>table := Some (replicate (unat (slots h)) [])\<rparr>"
  note F = ufresh_table_ok[OF ok None]
  show ?thesis
  proof (cases "m 0")
    case False
    with s None ok show ?thesis by (auto simp: Curl_uint32_hash_set_def request_def)
  next
    case True
    with s None have "set_in_table ?h (replicate (unat (slots h)) []) i v (\<lambda>j. m (Suc j)) = (r, gone, h', m')"
      by (simp add: Curl_uint32_hash_set_def request_def Let_def)
    note S = set_in_table_ok[OF F(1) _ this, simplified]
    have "handed ?h i = handed h i" using F(2) by (simp add: handed_def split: option.split)
    with S F show ?thesis by (auto split: if_splits)
  qed
qed

lemma uremove_ok:
  assumes ok: "hash_ok h" and s: "Curl_uint32_hash_remove h i = (r, gone, h')"
  shows "hash_ok h' \<and> dtor h' = dtor h \<and> (r \<longleftrightarrow> i \<in> dom (lookup h)) \<and> lookup h' = (lookup h)(i := None) \<and>
    gone = handed h i \<and> (dtor h \<longrightarrow> mset gone + holds h' = holds h)"
proof (cases "table h")
  case None
  with s ok show ?thesis by (auto simp: Curl_uint32_hash_remove_def lookup_def handed_def fun_eq_iff)
next
  case (Some t)
  note C = uhash_okD(1,2)[OF ok Some] uhash_okD(3)[OF ok Some, of i]
  show ?thesis
  proof (cases "chain_unlink (\<lambda>e. he_id e = i) (t ! slot_of h i)")
    case None
    then have "entry_of he_id id_slot (unat (slots h)) t i = None"
      by (simp add: entry_of_def slot_of_id chain_unlink_None)
    then have "lookup h i = None" using Some by (simp add: lookup_def)
    with s Some None ok show ?thesis
      by (auto simp: Curl_uint32_hash_remove_def handed_def fun_upd_idem)
  next
    case (Some xc)
    obtain x c where xc: "xc = (x, c)" by fastforce
    note U = Some[unfolded xc]
    have h': "r" "gone = uint32_hash_entry_destroy h' x" "h' = uint32_hash_entry_unlink h t (slot_of h i) c"
      using s U \<open>table h = Some t\<close> by (auto simp: Curl_uint32_hash_remove_def Let_def)
    note L = ids.unlinked_entry[OF C(1) U[unfolded slot_of_id], folded slot_of_id]
    have x: "he_id x = i" using L by (auto simp: entry_of_def dest: find_key)
    have M: "mset (t ! slot_of h i) = add_mset x (mset c)" by (rule chain_unlink_mset[OF U])
    then have "length (t ! slot_of h i) = Suc (length c)" by (metis size_add_mset size_mset)
    then have "length (concat t) = Suc (length (concat (t[slot_of h i := c])))"
      using concat_update_length[OF C(3), of c] by simp
    then have "hash_ok h'" using h' L C(2) ok by (simp add: hash_ok_def uint32_hash_entry_unlink_def del: length_concat)
    moreover have "lookup h' = (lookup h)(i := None)"
      using h' L \<open>table h = Some t\<close> by (auto simp: lookup_def fun_eq_iff uint32_hash_entry_unlink_def)
    moreover have "gone = handed h i" using h'(2,3) L \<open>table h = Some t\<close> x
      by (auto simp: handed_def lookup_def uint32_hash_entry_destroy_def uint32_hash_entry_clear_def
          uint32_hash_entry_unlink_def split: option.splits)
    moreover have "mset gone + holds h' = holds h" if "dtor h"
      using table_sum[OF C(3) M, of c "{#}"] h' that \<open>table h = Some t\<close>
      by (simp add: holds_def uint32_hash_entry_destroy_def entry_clear_log uint32_hash_entry_unlink_def add.commute)
    moreover have "i \<in> dom (lookup h)" using L \<open>table h = Some t\<close> by (auto simp: lookup_def)
    ultimately show ?thesis using h' by (simp add: uint32_hash_entry_unlink_def)
  qed
qed

lemma uget_ok: "hash_ok h \<Longrightarrow> Curl_uint32_hash_get h i = (case lookup h i of None \<Rightarrow> None | Some v \<Rightarrow> v)"
  by (auto simp: Curl_uint32_hash_get_def lookup_def entry_of_def slot_of_id split: option.splits)

lemma dom_lookup: "table h = Some t \<Longrightarrow> dom (lookup h) = dom (entry_of he_id id_slot (unat (slots h)) t)"
  by (auto simp: lookup_def dom_def)

lemma finite_dom_lookup: "hash_ok h \<Longrightarrow> finite (dom (lookup h))"
  by (cases "table h") (auto simp: lookup_def dom_def)

lemma ucount_ok: "hash_ok h \<Longrightarrow> Curl_uint32_hash_count h = of_nat (card (dom (lookup h)))"
proof (cases "table h")
  case None
  moreover assume "hash_ok h"
  moreover have "dom (lookup h) = {}" using None by (auto simp: lookup_def)
  ultimately show ?thesis by (simp add: Curl_uint32_hash_count_def hash_ok_def)
next
  case (Some t)
  assume "hash_ok h"
  note uhash_okD(1,2)[OF this Some]
  with ids.entries_card dom_lookup[OF Some] show ?thesis by (metis Curl_uint32_hash_count_def)
qed

definition removed :: "'v uint_hash \<Rightarrow> 32 word \<Rightarrow> 'v uint_hash" where
  "removed h i = snd (snd (Curl_uint32_hash_remove h i))"

definition stored_in :: "'v uint_hash \<Rightarrow> 32 word \<Rightarrow> 'v option \<Rightarrow> 'v uint_hash" where
  "stored_in h i v = fst (snd (snd (Curl_uint32_hash_set h i v (\<lambda>_. True))))"

interpretation uhash: keyed_map hash_ok lookup removed stored_in
proof unfold_locales
  fix h :: "'v uint_hash" and k v assume ok: "hash_ok h"
  obtain r gone h' where e: "Curl_uint32_hash_remove h k = (r, gone, h')" by (metis prod_cases3)
  obtain r2 gone2 h2 m2 where a: "Curl_uint32_hash_set h k v (\<lambda>_. True) = (r2, gone2, h2, m2)" by (metis prod_cases4)
  show "finite (dom (lookup h))" by (rule finite_dom_lookup[OF ok])
  from uremove_ok[OF ok e] e show "hash_ok (removed h k)" "lookup (removed h k) = (lookup h)(k := None)"
    by (simp_all add: removed_def)
  from uset_ok[OF ok a] a show "hash_ok (stored_in h k v)" "lookup (stored_in h k v) = (lookup h)(k \<mapsto> v)"
    by (auto simp: stored_in_def split: if_splits)
qed

section \<open>Clearing\<close>

lemma destroy_dtor: "dtor h = dtor h' \<Longrightarrow> uint32_hash_entry_destroy h = uint32_hash_entry_destroy h'"
  by (auto simp: uint32_hash_entry_destroy_def uint32_hash_entry_clear_def fun_eq_iff split: option.split)

lemma clear_chain_eq:
  assumes "i < length t" "t ! i = c" "table h = Some t"
  shows "clear_chain h t i c =
    (concat (map (uint32_hash_entry_destroy h) c), h\<lparr>table := Some (t[i := []]), hsize := hsize h - of_nat (length c)\<rparr>)"
  using assms
proof (induction c arbitrary: h t)
  case Nil
  then have "t[i := []] = t" by (metis list_update_id)
  with Nil show ?case by simp
next
  case (Cons e es)
  define h1 where "h1 = uint32_hash_entry_unlink h t i es"
  have t1: "table h1 = Some (t[i := es])" "hsize h1 = hsize h - 1" by (simp_all add: h1_def uint32_hash_entry_unlink_def)
  have d: "uint32_hash_entry_destroy h1 = uint32_hash_entry_destroy h"
    by (rule destroy_dtor) (simp add: h1_def uint32_hash_entry_unlink_def)
  have "clear_chain h1 (t[i := es]) i es =
    (concat (map (uint32_hash_entry_destroy h) es), h1\<lparr>table := Some (t[i := []]), hsize := hsize h - 1 - of_nat (length es)\<rparr>)"
    using Cons.IH[of "t[i := es]" h1] Cons.prems t1 d by simp
  then show ?case by (simp add: h1_def[symmetric] d Let_def) (simp add: h1_def uint32_hash_entry_unlink_def)
qed

lemma clear_slots_eq:
  assumes "table h = Some t" "k \<le> length t"
  shows "clear_slots h [k..<length t] =
    (concat (map (uint32_hash_entry_destroy h) (concat (drop k t))),
     h\<lparr>table := Some (take k t @ replicate (length t - k) []), hsize := hsize h - of_nat (length (concat (drop k t)))\<rparr>)"
  using assms
proof (induction "length t - k" arbitrary: h t k)
  case 0
  then show ?case by simp
next
  case (Suc n)
  then have k: "k < length t" "n = length (t[k := []]) - Suc k" "Suc k \<le> length (t[k := []])" by auto
  define h1 where "h1 = h\<lparr>table := Some (t[k := []]), hsize := hsize h - of_nat (length (t ! k))\<rparr>"
  have d: "uint32_hash_entry_destroy h1 = uint32_hash_entry_destroy h" by (rule destroy_dtor) (simp add: h1_def)
  have c: "clear_chain h t k (t ! k) = (concat (map (uint32_hash_entry_destroy h) (t ! k)), h1)"
    using clear_chain_eq[OF k(1) refl Suc.prems(1)] by (simp add: h1_def)
  have t1: "table h1 = Some (t[k := []])" by (simp add: h1_def)
  have r: "take (Suc k) (t[k := []]) @ replicate (length t - Suc k) [] = take k t @ replicate (length t - k) []"
    using k(1) by (simp add: take_Suc_conv_app_nth replicate_Suc[symmetric] Suc_diff_Suc del: replicate_Suc)
  have dr: "drop k t = t ! k # drop (Suc k) t" by (rule Cons_nth_drop_Suc[OF k(1), symmetric])
  show ?case
    using Suc.hyps(1)[OF k(2) t1 k(3)] Suc.prems(1) k(1) c r
    by (simp add: upt_conv_Cons Let_def d[unfolded h1_def] dr h1_def algebra_simps)
qed

lemma uclear_ok:
  assumes ok: "hash_ok h" and c: "uint_hash_clear h = (gone, h')"
  shows "hash_ok h' \<and> dtor h' = dtor h \<and> lookup h' = Map.empty \<and> holds h' = {#} \<and> Curl_uint32_hash_count h' = 0 \<and>
    (dtor h \<longrightarrow> mset gone = holds h)"
proof (cases "table h")
  case None
  with assms show ?thesis
    by (auto simp: uint_hash_clear_def lookup_def holds_def hash_ok_def Curl_uint32_hash_count_def fun_eq_iff)
next
  case (Some t)
  note C = uhash_okD(1,2)[OF ok Some]
  have n: "unat (slots h) = length t" "0 < length t" using ids.chainsD(1,2)[OF C(1)] by auto
  have z: "concat (replicate k []) = []" for k by (induction k) auto
  have h': "gone = concat (map (uint32_hash_entry_destroy h) (concat t))"
      "h' = h\<lparr>table := Some (replicate (length t) []), hsize := 0\<rparr>"
    using c Some clear_slots_eq[OF Some, of 0] C(2) n by (auto simp: uint_hash_clear_def)
  have "mset (concat (map (uint32_hash_entry_destroy h) es)) = (\<Sum>e\<in>#mset es. stored e)" if "dtor h" for es
    using that by (induction es) (simp_all add: uint32_hash_entry_destroy_def entry_clear_log)
  then have "dtor h \<longrightarrow> mset gone = holds h" using h'(1) Some by (simp add: holds_def)
  moreover have "hash_ok h'" using ok n ids.chains_empty[OF n(2)] by (simp add: h' hash_ok_def z del: length_concat)
  moreover have "lookup h' = Map.empty" using n ids.entry_empty[OF n(2)] by (simp add: h' lookup_def fun_eq_iff)
  moreover have "holds h' = {#}" by (simp add: h' holds_def z)
  ultimately show ?thesis by (simp add: h' Curl_uint32_hash_count_def)
qed

section \<open>Runs of operations\<close>

datatype 'v hash_op = Op_set "32 word" "'v option" | Op_remove "32 word" | Op_clear

text \<open>
  One operation: the values it accepted, the values it gave to the destructor, and the new states
  of the table and the allocator.
\<close>

fun hash_step :: "'v hash_op \<Rightarrow> 'v uint_hash \<Rightarrow> heap \<Rightarrow> 'v destroyed \<times> 'v destroyed \<times> 'v uint_hash \<times> heap" where
  "hash_step (Op_set i v) h m =
     (case Curl_uint32_hash_set h i v m of (r, gone, h, m) \<Rightarrow>
        (case v of Some x \<Rightarrow> if r then [(i, x)] else [] | None \<Rightarrow> [], gone, h, m))"
| "hash_step (Op_remove i) h m = (case Curl_uint32_hash_remove h i of (r, gone, h) \<Rightarrow> ([], gone, h, m))"
| "hash_step Op_clear h m = (case uint_hash_clear h of (gone, h) \<Rightarrow> ([], gone, h, m))"

fun hash_run :: "'v hash_op list \<Rightarrow> 'v uint_hash \<Rightarrow> heap \<Rightarrow> 'v destroyed \<times> 'v destroyed \<times> 'v uint_hash \<times> heap" where
  "hash_run [] h m = ([], [], h, m)"
| "hash_run (op # ops) h m =
     (case hash_step op h m of (a, g, h, m) \<Rightarrow>
        case hash_run ops h m of (a', g', h, m) \<Rightarrow> (a @ a', g @ g', h, m))"

lemma hash_step_ok:
  assumes "hash_ok h" "hash_step op h m = (a, g, h', m')"
  shows "hash_ok h' \<and> dtor h' = dtor h \<and> (dtor h \<longrightarrow> mset g + holds h' = holds h + mset a)"
proof (cases op)
  case (Op_set i v)
  obtain r gone h1 m1 where s: "Curl_uint32_hash_set h i v m = (r, gone, h1, m1)" by (metis prod_cases4)
  from uset_ok[OF assms(1) s] assms(2) Op_set s show ?thesis
    by (cases r; cases v) (auto simp: stored_def)
next
  case (Op_remove i)
  obtain r gone h1 where s: "Curl_uint32_hash_remove h i = (r, gone, h1)" by (metis prod_cases3)
  from uremove_ok[OF assms(1) s] assms(2) Op_remove s show ?thesis by auto
next
  case Op_clear
  obtain gone h1 where s: "uint_hash_clear h = (gone, h1)" by fastforce
  from uclear_ok[OF assms(1) s] assms(2) Op_clear s show ?thesis by auto
qed

lemma hash_run_ok:
  assumes "hash_ok h" "hash_run ops h m = (a, g, h', m')"
  shows "hash_ok h' \<and> dtor h' = dtor h \<and> (dtor h \<longrightarrow> mset g + holds h' = holds h + mset a)"
  using assms
proof (induction ops arbitrary: h m a g)
  case Nil
  then show ?case by simp
next
  case (Cons op ops)
  obtain a1 g1 h1 m1 where s: "hash_step op h m = (a1, g1, h1, m1)" by (metis prod_cases4)
  obtain a2 g2 h2 m2 where r: "hash_run ops h1 m1 = (a2, g2, h2, m2)" by (metis prod_cases4)
  note S = hash_step_ok[OF Cons.prems(1) s]
  have e: "a = a1 @ a2" "g = g1 @ g2" "h' = h2" "m' = m2" using Cons.prems(2) s r by simp_all
  have R: "hash_ok h2 \<and> dtor h2 = dtor h1 \<and> (dtor h1 \<longrightarrow> mset g2 + holds h2 = holds h1 + mset a2)"
    using Cons.IH[of h1 m1 a2 g2] S r e by simp
  have "mset (g1 @ g2) + holds h2 = holds h + mset (a1 @ a2)" if "dtor h"
  proof -
    have "mset g2 + holds h2 = holds h1 + mset a2" "mset g1 + holds h1 = holds h + mset a1" using S R that by auto
    then show ?thesis by (metis add.assoc add.commute mset_append)
  qed
  with S R e show ?case by simp
qed

lemma init_ok: "n \<noteq> 0 \<Longrightarrow> hash_ok (Curl_uint32_hash_init n d)" "holds (Curl_uint32_hash_init n d) = {#}"
  "lookup (Curl_uint32_hash_init n d) = Map.empty"
  by (simp_all add: Curl_uint32_hash_init_def hash_ok_def holds_def lookup_def fun_eq_iff)

section \<open>Properties\<close>

text \<open>
  The id hash is a finite map. A lookup returns the value last stored under the id, and the null
  pointer for an id that is absent; storing replaces exactly the entry of its id, or fails for lack
  of memory and changes nothing that can be looked up; removing deletes exactly that entry and tells
  whether there was one; the destructor is called with the value that was replaced or removed; the
  count is the number of ids, in 32 bits; and the representation stays well formed.
\<close>

theorem uint_hash_refines_map:
  assumes "hash_ok h"
  shows "Curl_uint32_hash_get h i = (case lookup h i of None \<Rightarrow> None | Some v \<Rightarrow> v) \<and>
    Curl_uint32_hash_count h = of_nat (card (dom (lookup h))) \<and>
    (case Curl_uint32_hash_set h i v m of (r, gone, h', m') \<Rightarrow>
       hash_ok h' \<and>
       (if r then lookup h' = (lookup h)(i \<mapsto> v) \<and> gone = handed h i
        else gone = [] \<and> lookup h' = lookup h \<and> (\<exists>k. \<not> m k))) \<and>
    (case Curl_uint32_hash_remove h i of (r, gone, h') \<Rightarrow>
       hash_ok h' \<and> r = (lookup h i \<noteq> None) \<and> lookup h' = (lookup h)(i := None) \<and> gone = handed h i)"
proof -
  obtain r gone h' m' where s: "Curl_uint32_hash_set h i v m = (r, gone, h', m')" by (metis prod_cases4)
  obtain r2 gone2 h2 where q: "Curl_uint32_hash_remove h i = (r2, gone2, h2)" by (metis prod_cases3)
  show ?thesis
    using uset_ok[OF assms s] uremove_ok[OF assms q] uget_ok[OF assms, of i] ucount_ok[OF assms] s q
    by (auto split: if_splits)
qed

theorem uint_hash_refines_map_witness:
  "Curl_uint32_hash_get (fst (snd (snd (Curl_uint32_hash_set (Curl_uint32_hash_init 3 True) 7 (Some CHR ''a'') (\<lambda>_. True))))) 7 =
     Some CHR ''a'' \<and>
   hash_ok (Curl_uint32_hash_init 3 True :: char uint_hash) \<and>
   Curl_uint32_hash_get (Curl_uint32_hash_init 3 True :: char uint_hash) 7 = None"
proof -
  have ok: "hash_ok (Curl_uint32_hash_init 3 True :: char uint_hash)" by (rule init_ok) simp
  have "Curl_uint32_hash_get (fst (snd (snd (Curl_uint32_hash_set (Curl_uint32_hash_init 3 True) 7 (Some CHR ''a'') (\<lambda>_. True))))) 7 =
     Some CHR ''a''" by code_simp
  with ok uint_hash_refines_map[OF ok, of 7 None "\<lambda>_. True"] show ?thesis by (simp add: init_ok)
qed

text \<open>
  C28: Nothing is leaked and nothing is freed twice: after any sequence of stores, removals and
  clearings of a fresh table with a destructor, and the final destruction of the table, the
  destructor was called exactly once for every non-null value that a store accepted, overwritten
  values included, whatever allocations failed on the way; and the destroyed table holds nothing.
\<close>

theorem uint_hash_destroys_each_once:
  assumes "n \<noteq> 0" "hash_run ops (Curl_uint32_hash_init n True) m = (accepted, gone, h, m')"
    "Curl_uint32_hash_destroy h = (rest, h')"
  shows "mset (gone @ rest) = mset accepted \<and> Curl_uint32_hash_count h' = 0 \<and> table h' = None"
proof -
  note R = hash_run_ok[OF init_ok(1)[OF assms(1)] assms(2), unfolded init_ok(2)]
  have d: "dtor h" using R by (simp add: Curl_uint32_hash_init_def)
  obtain g h1 where c: "uint_hash_clear h = (g, h1)" by fastforce
  note C = uclear_ok[OF conjunct1[OF R] c]
  have D: "dtor (Curl_uint32_hash_init n True :: 'a uint_hash)" by (simp add: Curl_uint32_hash_init_def)
  show ?thesis
  proof (cases "table h")
    case None
    then have "holds h = {#}" "hsize h = 0" using R by (simp_all add: holds_def hash_ok_def)
    with None R D assms(3) show ?thesis by (auto simp: Curl_uint32_hash_destroy_def Curl_uint32_hash_count_def)
  next
    case (Some t)
    with C c R D d assms(3) show ?thesis by (auto simp: Curl_uint32_hash_destroy_def Curl_uint32_hash_count_def)
  qed
qed

theorem uint_hash_destroys_each_once_witness:
  "case hash_run [Op_set 1 (Some CHR ''a''), Op_set 4 (Some CHR ''b''), Op_set 1 (Some CHR ''c''), Op_remove 4]
      (Curl_uint32_hash_init 3 True) (\<lambda>_. True) of (accepted, gone, h, m') \<Rightarrow>
     mset (gone @ fst (Curl_uint32_hash_destroy h)) = mset accepted \<and> length accepted = 3"
proof -
  let ?r = "hash_run [Op_set 1 (Some CHR ''a''), Op_set 4 (Some CHR ''b''), Op_set 1 (Some CHR ''c''), Op_remove 4]
      (Curl_uint32_hash_init 3 True) (\<lambda>_. True)"
  obtain accepted gone h m' where r: "?r = (accepted, gone, h, m')" by (metis prod_cases4)
  obtain rest h' where d: "Curl_uint32_hash_destroy h = (rest, h')" by fastforce
  have "length (fst ?r) = 3" by code_simp
  with r d uint_hash_destroys_each_once[OF _ r d] show ?thesis by simp
qed

end
