(* ===== verification/Curl_Hash.thy ===== *)
theory Curl_Hash
  imports Curl_Chains
begin

text \<open>
  The hash of \<open>old/lib/hash.c\<close> and \<open>hash.h\<close>: values by key, a key being a region of bytes. The hash
  and comparison functions are fields of the table, as in the source; the two that the file itself
  provides, \<open>Curl_hash_str\<close> and \<open>curlx_str_key_compare\<close>, are defined here. A value is a pointer the
  table does not look into, \<open>None\<close> the null pointer; an element may carry a destructor of its own.
  Operations return the destructor calls they make. An iterator is the number of the next chain and
  the rest of the current chain from the current element on. Sizes are naturals: the invariant
  bounds them by the number of allocated elements.
\<close>

unbundle bit_operations_syntax

section \<open>Data\<close>

record ('v, 'd) Curl_hash_element =
  he_key :: bytes
  he_ptr :: "'v option"
  he_dtor :: "'d option"

record ('v, 'd) Curl_hash =
  table :: "('v, 'd) Curl_hash_element list list option"
  hash_func :: "bytes \<Rightarrow> nat \<Rightarrow> nat"
  comp_func :: "bytes \<Rightarrow> bytes \<Rightarrow> bool"
  slots :: nat
  hsize :: nat

text \<open>A call of a destructor: of the element's own, with the key, or of the table's.\<close>

datatype ('v, 'd) dtor_call = Elem_dtor 'd bytes 'v | Hash_dtor 'v

section \<open>The string key functions\<close>

text \<open>\<open>(size_t)*key_str\<close>, where \<open>char\<close> is signed as on x86-64: the byte is sign-extended.\<close>

definition char_to_size :: "char \<Rightarrow> 64 word" where
  "char_to_size c = (if byte_val c < 128 then of_nat (byte_val c) else of_nat (byte_val c) - 256)"

fun str_hash_loop :: "bytes \<Rightarrow> 64 word \<Rightarrow> 64 word" where
  "str_hash_loop [] h = h"
| "str_hash_loop (c # cs) h = (let h = h + push_bit 5 h in str_hash_loop cs (h XOR char_to_size c))"

definition Curl_hash_str :: "bytes \<Rightarrow> nat \<Rightarrow> nat" where
  "Curl_hash_str key slots_num = unat (str_hash_loop key 5381) mod slots_num"

definition curlx_str_key_compare :: "bytes \<Rightarrow> bytes \<Rightarrow> bool" where
  "curlx_str_key_compare k1 k2 \<longleftrightarrow> length k1 = length k2 \<and> take (length k1) k1 = take (length k1) k2"

section \<open>Operations\<close>

definition Curl_hash_init ::
    "nat \<Rightarrow> (bytes \<Rightarrow> nat \<Rightarrow> nat) \<Rightarrow> (bytes \<Rightarrow> bytes \<Rightarrow> bool) \<Rightarrow> ('v, 'd) Curl_hash" where
  "Curl_hash_init n hfunc comparator =
     \<lparr>table = None, hash_func = hfunc, comp_func = comparator, slots = n, hsize = 0\<rparr>"

definition hash_elem_create ::
    "bytes \<Rightarrow> 'v option \<Rightarrow> 'd option \<Rightarrow> heap \<Rightarrow> ('v, 'd) Curl_hash_element option \<times> heap" where
  "hash_elem_create key p d m =
     (case request m of (ok, m) \<Rightarrow>
        (if ok then Some \<lparr>he_key = key, he_ptr = p, he_dtor = d\<rparr> else None, m))"

definition hash_elem_clear_ptr ::
    "('v, 'd) Curl_hash_element \<Rightarrow> ('v, 'd) dtor_call list \<times> ('v, 'd) Curl_hash_element" where
  "hash_elem_clear_ptr he =
     (case he_ptr he of
        None \<Rightarrow> ([], he)
      | Some p \<Rightarrow>
          ([case he_dtor he of Some d \<Rightarrow> Elem_dtor d (he_key he) p | None \<Rightarrow> Hash_dtor p],
           he\<lparr>he_ptr := None\<rparr>))"

definition hash_elem_destroy :: "('v, 'd) Curl_hash_element \<Rightarrow> ('v, 'd) dtor_call list" where
  "hash_elem_destroy he = fst (hash_elem_clear_ptr he)"

definition hash_elem_unlink ::
    "('v, 'd) Curl_hash \<Rightarrow> ('v, 'd) Curl_hash_element list list \<Rightarrow> nat \<Rightarrow> ('v, 'd) Curl_hash_element list
     \<Rightarrow> ('v, 'd) Curl_hash" where
  "hash_elem_unlink h t i c = h\<lparr>table := Some (t[i := c]), hsize := hsize h - 1\<rparr>"

definition hash_elem_link ::
    "('v, 'd) Curl_hash \<Rightarrow> ('v, 'd) Curl_hash_element list list \<Rightarrow> nat \<Rightarrow> ('v, 'd) Curl_hash_element
     \<Rightarrow> ('v, 'd) Curl_hash" where
  "hash_elem_link h t i he = h\<lparr>table := Some (t[i := he # t ! i]), hsize := hsize h + 1\<rparr>"

definition add_in_table ::
    "('v, 'd) Curl_hash \<Rightarrow> ('v, 'd) Curl_hash_element list list \<Rightarrow> bytes \<Rightarrow> 'v option \<Rightarrow> 'd option \<Rightarrow> heap
     \<Rightarrow> 'v option \<times> ('v, 'd) dtor_call list \<times> ('v, 'd) Curl_hash \<times> heap" where
  "add_in_table h t key p d m =
     (let s = hash_func h key (slots h) in
      case chain_replace (\<lambda>he. comp_func h (he_key he) key)
             (\<lambda>he. (snd (hash_elem_clear_ptr he))\<lparr>he_ptr := p, he_dtor := d\<rparr>) (t ! s) of
        Some (he, c) \<Rightarrow> (p, fst (hash_elem_clear_ptr he), h\<lparr>table := Some (t[s := c])\<rparr>, m)
      | None \<Rightarrow>
          case hash_elem_create key p d m of
            (None, m) \<Rightarrow> (None, [], h, m)
          | (Some he, m) \<Rightarrow> (p, [], hash_elem_link h t s he, m))"

definition Curl_hash_add2 ::
    "('v, 'd) Curl_hash \<Rightarrow> bytes \<Rightarrow> 'v option \<Rightarrow> 'd option \<Rightarrow> heap
     \<Rightarrow> 'v option \<times> ('v, 'd) dtor_call list \<times> ('v, 'd) Curl_hash \<times> heap" where
  "Curl_hash_add2 h key p d m =
     (case table h of
        Some t \<Rightarrow> add_in_table h t key p d m
      | None \<Rightarrow>
          case request m of (ok, m) \<Rightarrow>
            if \<not> ok then (None, [], h, m)
            else let t = replicate (slots h) [] in add_in_table (h\<lparr>table := Some t\<rparr>) t key p d m)"

definition Curl_hash_add ::
    "('v, 'd) Curl_hash \<Rightarrow> bytes \<Rightarrow> 'v option \<Rightarrow> heap
     \<Rightarrow> 'v option \<times> ('v, 'd) dtor_call list \<times> ('v, 'd) Curl_hash \<times> heap" where
  "Curl_hash_add h key p m = Curl_hash_add2 h key p None m"

definition Curl_hash_delete ::
    "('v, 'd) Curl_hash \<Rightarrow> bytes \<Rightarrow> int \<times> ('v, 'd) dtor_call list \<times> ('v, 'd) Curl_hash" where
  "Curl_hash_delete h key =
     (case table h of
        None \<Rightarrow> (1, [], h)
      | Some t \<Rightarrow>
          let s = hash_func h key (slots h) in
          case chain_unlink (\<lambda>he. comp_func h (he_key he) key) (t ! s) of
            None \<Rightarrow> (1, [], h)
          | Some (he, c) \<Rightarrow> (0, hash_elem_destroy he, hash_elem_unlink h t s c))"

definition Curl_hash_pick :: "('v, 'd) Curl_hash \<Rightarrow> bytes \<Rightarrow> 'v option" where
  "Curl_hash_pick h key =
     (case table h of
        None \<Rightarrow> None
      | Some t \<Rightarrow>
          case find (\<lambda>he. comp_func h (he_key he) key) (t ! hash_func h key (slots h)) of
            None \<Rightarrow> None
          | Some he \<Rightarrow> he_ptr he)"

text \<open>
  The sweep over one chain: an element is unlinked and destroyed when the criterion holds of its
  pointer, or when there is no criterion, and kept otherwise. \<open>Curl_hash_clean\<close> unlinks every element.
\<close>

fun sweep_chain ::
    "('v option \<Rightarrow> bool) option \<Rightarrow> ('v, 'd) Curl_hash_element list \<Rightarrow> nat
     \<Rightarrow> ('v, 'd) dtor_call list \<times> ('v, 'd) Curl_hash_element list \<times> nat" where
  "sweep_chain crit [] n = ([], [], n)"
| "sweep_chain crit (he # hes) n =
     (if (case crit of None \<Rightarrow> True | Some p \<Rightarrow> p (he_ptr he)) then
        (case sweep_chain crit hes (n - 1) of (gone, kept, n) \<Rightarrow> (hash_elem_destroy he @ gone, kept, n))
      else
        (case sweep_chain crit hes n of (gone, kept, n) \<Rightarrow> (gone, he # kept, n)))"

fun sweep_slots ::
    "('v option \<Rightarrow> bool) option \<Rightarrow> ('v, 'd) Curl_hash_element list list \<Rightarrow> nat
     \<Rightarrow> ('v, 'd) dtor_call list \<times> ('v, 'd) Curl_hash_element list list \<times> nat" where
  "sweep_slots crit [] n = ([], [], n)"
| "sweep_slots crit (c # cs) n =
     (case sweep_chain crit c n of (gone, kept, n) \<Rightarrow>
        case sweep_slots crit cs n of (gone', kept', n) \<Rightarrow> (gone @ gone', kept # kept', n))"

definition Curl_hash_clean_with_criterium ::
    "('v, 'd) Curl_hash \<Rightarrow> ('v option \<Rightarrow> bool) option \<Rightarrow> ('v, 'd) dtor_call list \<times> ('v, 'd) Curl_hash" where
  "Curl_hash_clean_with_criterium h crit =
     (case table h of
        None \<Rightarrow> ([], h)
      | Some t \<Rightarrow>
          case sweep_slots crit (take (slots h) t) (hsize h) of (gone, t', n) \<Rightarrow>
            (gone, h\<lparr>table := Some (t' @ drop (slots h) t), hsize := n\<rparr>))"

definition Curl_hash_clean :: "('v, 'd) Curl_hash \<Rightarrow> ('v, 'd) dtor_call list \<times> ('v, 'd) Curl_hash" where
  "Curl_hash_clean h =
     (case table h of
        None \<Rightarrow> ([], h)
      | Some t \<Rightarrow>
          case sweep_slots None (take (slots h) t) (hsize h) of (gone, t', n) \<Rightarrow>
            (gone, h\<lparr>table := Some (t' @ drop (slots h) t), hsize := n\<rparr>))"

definition Curl_hash_destroy :: "('v, 'd) Curl_hash \<Rightarrow> ('v, 'd) dtor_call list \<times> ('v, 'd) Curl_hash" where
  "Curl_hash_destroy h =
     (case table h of
        None \<Rightarrow> ([], h\<lparr>slots := 0\<rparr>)
      | Some t \<Rightarrow> (case Curl_hash_clean h of (gone, h) \<Rightarrow> (gone, h\<lparr>table := None, slots := 0\<rparr>)))"

definition Curl_hash_count :: "('v, 'd) Curl_hash \<Rightarrow> nat" where
  "Curl_hash_count h = hsize h"

section \<open>Iteration\<close>

record ('v, 'd) Curl_hash_iterator =
  slot_index :: nat
  current :: "('v, 'd) Curl_hash_element list"

definition Curl_hash_start_iterate :: "('v, 'd) Curl_hash_iterator" where
  "Curl_hash_start_iterate = \<lparr>slot_index = 0, current = []\<rparr>"

fun next_slot :: "'e list list \<Rightarrow> nat \<Rightarrow> (nat \<times> 'e list) option" where
  "next_slot [] i = None"
| "next_slot (c # cs) i = (if c \<noteq> [] then Some (i, c) else next_slot cs (Suc i))"

definition Curl_hash_next_element ::
    "('v, 'd) Curl_hash \<Rightarrow> ('v, 'd) Curl_hash_iterator
     \<Rightarrow> ('v, 'd) Curl_hash_element option \<times> ('v, 'd) Curl_hash_iterator" where
  "Curl_hash_next_element h iter =
     (case table h of
        None \<Rightarrow> (None, iter)
      | Some t \<Rightarrow>
          let iter = (if current iter \<noteq> [] then iter\<lparr>current := tl (current iter)\<rparr> else iter);
              iter = (if current iter = [] then
                        (case next_slot (drop (slot_index iter) (take (slots h) t)) (slot_index iter) of
                           Some (i, c) \<Rightarrow> iter\<lparr>current := c, slot_index := i + 1\<rparr>
                         | None \<Rightarrow> iter)
                      else iter) in
          (case current iter of [] \<Rightarrow> None | he # _ \<Rightarrow> Some he, iter))"

text \<open>The caller's loop: ask for elements until there is none; with fuel.\<close>

fun iterate :: "nat \<Rightarrow> ('v, 'd) Curl_hash \<Rightarrow> ('v, 'd) Curl_hash_iterator \<Rightarrow> ('v, 'd) Curl_hash_element list option" where
  "iterate 0 h iter = None"
| "iterate (Suc fuel) h iter =
     (case Curl_hash_next_element h iter of
        (None, _) \<Rightarrow> Some []
      | (Some he, iter) \<Rightarrow> map_option (\<lambda>hes. he # hes) (iterate fuel h iter))"

section \<open>The map a table stands for\<close>

text \<open>What the table relies on of its function pointers: a slot below the bound, and equality of keys.\<close>

definition key_functions :: "('v, 'd) Curl_hash \<Rightarrow> bool" where
  "key_functions h \<longleftrightarrow> chained_table (hash_func h) \<and> (\<forall>k k'. comp_func h k k' = (k = k'))"

definition hash_ok :: "('v, 'd) Curl_hash \<Rightarrow> bool" where
  "hash_ok h \<longleftrightarrow> key_functions h \<and> 0 < slots h \<and>
     (case table h of
        None \<Rightarrow> hsize h = 0
      | Some t \<Rightarrow> chains_ok he_key (hash_func h) (slots h) t \<and> hsize h = length (concat t))"

definition element :: "('v, 'd) Curl_hash \<Rightarrow> bytes \<rightharpoonup> ('v, 'd) Curl_hash_element" where
  "element h key = (case table h of None \<Rightarrow> None | Some t \<Rightarrow> entry_of he_key (hash_func h) (slots h) t key)"

text \<open>The destructor call due when the element of a key goes or is overwritten.\<close>

definition due :: "('v, 'd) Curl_hash \<Rightarrow> bytes \<Rightarrow> ('v, 'd) dtor_call list" where
  "due h key = (case element h key of None \<Rightarrow> [] | Some he \<Rightarrow> hash_elem_destroy he)"

interpretation str_keys: chained_table he_key Curl_hash_str
  by unfold_locales (simp add: Curl_hash_str_def)

lemma str_key_compare_eq: "curlx_str_key_compare k1 k2 \<longleftrightarrow> k1 = k2"
  by (auto simp: curlx_str_key_compare_def)

lemma string_hash_ok: "0 < n \<Longrightarrow> hash_ok (Curl_hash_init n Curl_hash_str curlx_str_key_compare)"
  using str_keys.chained_table_axioms
  by (simp add: hash_ok_def key_functions_def Curl_hash_init_def str_key_compare_eq)

lemma chash_okD:
  assumes "hash_ok h"
  shows "chained_table (hash_func h)" "comp_func h k k' = (k = k')" "0 < slots h"
    "table h = Some t \<Longrightarrow> chains_ok he_key (hash_func h) (slots h) t"
    "table h = Some t \<Longrightarrow> hsize h = length (concat t)"
    "table h = Some t \<Longrightarrow> hash_func h key (slots h) < length t"
proof -
  show ct: "chained_table (hash_func h)" and n: "0 < slots h" and "comp_func h k k' = (k = k')"
    using assms by (simp_all add: hash_ok_def key_functions_def)
  show "table h = Some t \<Longrightarrow> chains_ok he_key (hash_func h) (slots h) t"
    "table h = Some t \<Longrightarrow> hsize h = length (concat t)" using assms by (simp_all add: hash_ok_def)
  then show "table h = Some t \<Longrightarrow> hash_func h key (slots h) < length t"
    using chained_table.slot_bound[OF ct n, of key] by (simp add: chains_ok_def)
qed

lemma same_keys: "hash_ok h \<Longrightarrow> (\<lambda>he. comp_func h (he_key he) key) = (\<lambda>he. he_key he = key)"
  by (simp add: chash_okD(2))

lemma clear_ptr_key [simp]: "he_key (snd (hash_elem_clear_ptr he)) = he_key he"
  by (simp add: hash_elem_clear_ptr_def split: option.split)

lemma add_in_table_ok:
  assumes ok: "hash_ok h" and t: "table h = Some t" and s: "add_in_table h t key p d m = (q, gone, h', m')"
  shows "hash_ok h' \<and> slots h' = slots h \<and> hash_func h' = hash_func h \<and>
    (q = p \<and> gone = due h key \<and> element h' = (element h)(key \<mapsto> \<lparr>he_key = key, he_ptr = p, he_dtor = d\<rparr>) \<or>
     q = None \<and> gone = [] \<and> h' = h \<and> element h key = None \<and> \<not> m 0)"
proof -
  define f where "f = (\<lambda>he::('a, 'b) Curl_hash_element. (snd (hash_elem_clear_ptr he))\<lparr>he_ptr := p, he_dtor := d\<rparr>)"
  define i where "i = hash_func h key (slots h)"
  let ?e = "\<lparr>he_key = key, he_ptr = p, he_dtor = d\<rparr>"
  note ct = chash_okD(1)[OF ok] and C = chash_okD(4)[OF ok t] and n = chash_okD(5)[OF ok t]
  have i: "i < length t" unfolding i_def by (rule chash_okD(6)[OF ok t])
  note S = s[unfolded add_in_table_def Let_def f_def[symmetric] same_keys[OF ok] i_def[symmetric]]
  show ?thesis
  proof (cases "chain_replace (\<lambda>he. he_key he = key) f (t ! i)")
    case None
    then have new: "entry_of he_key (hash_func h) (slots h) t key = None"
      by (simp add: entry_of_def i_def chain_replace_None)
    show ?thesis
    proof (cases "m 0")
      case False
      with None S ok new t show ?thesis by (auto simp: hash_elem_create_def request_def element_def)
    next
      case True
      then have h': "q = p" "gone = []" "h' = hash_elem_link h t i ?e"
        using None S by (auto simp: hash_elem_create_def request_def)
      note L = chained_table.linked_entry[OF ct C, of ?e, simplified, OF new, folded i_def]
      have "length (concat (t[i := ?e # t ! i])) = Suc (length (concat t))"
        using concat_update_length[OF i, of "?e # t ! i"] by simp
      then have ok': "hash_ok h'" using h' L n ok
        by (simp add: hash_ok_def hash_elem_link_def key_functions_def del: length_concat)
      have "element h' = (element h)(key \<mapsto> ?e)"
        using h' L t by (simp add: element_def hash_elem_link_def fun_eq_iff)
      moreover have "due h key = []" using new t by (simp add: due_def element_def)
      ultimately show ?thesis using h' ok' by (simp add: hash_elem_link_def)
    qed
  next
    case (Some xc)
    obtain x c where xc: "xc = (x, c)" by fastforce
    note R = Some[unfolded xc]
    then have h': "q = p" "gone = hash_elem_destroy x" "h' = h\<lparr>table := Some (t[i := c])\<rparr>"
      using S by (auto simp: hash_elem_destroy_def)
    have x: "he_key x = key" using chain_replace_find[OF R] by (auto dest: find_key)
    then have fx: "he_key (f x) = key" "f x = ?e"
      by (simp_all add: f_def hash_elem_clear_ptr_def split: option.split)
    note L = chained_table.replaced_entry[OF ct C R[unfolded i_def] fx(1), folded i_def, unfolded fx(2)]
    obtain M where "mset (t ! i) = add_mset x M" "mset c = add_mset (f x) M" using chain_replace_mset[OF R] by auto
    then have "length c = length (t ! i)" by (metis size_add_mset size_mset)
    then have "length (concat (t[i := c])) = length (concat t)" using concat_update_length[OF i, of c] by simp
    then have ok': "hash_ok h'" using h' L n ok by (simp add: hash_ok_def key_functions_def del: length_concat)
    have "element h' = (element h)(key \<mapsto> ?e)" using h' L t by (simp add: element_def fun_eq_iff)
    moreover have "gone = due h key" using h' L t by (simp add: due_def element_def)
    ultimately show ?thesis using h' ok' by simp
  qed
qed

lemma cfresh_table_ok:
  assumes "hash_ok h" "table h = None"
  shows "hash_ok (h\<lparr>table := Some (replicate (slots h) [])\<rparr>)"
    "element (h\<lparr>table := Some (replicate (slots h) [])\<rparr>) = element h"
proof -
  note ct = chash_okD(1)[OF assms(1)] and n = chash_okD(3)[OF assms(1)]
  have c: "concat (replicate k []) = []" for k by (induction k) auto
  show "hash_ok (h\<lparr>table := Some (replicate (slots h) [])\<rparr>)"
    using assms chained_table.chains_empty[OF ct n] c by (simp add: hash_ok_def key_functions_def del: length_concat)
  show "element (h\<lparr>table := Some (replicate (slots h) [])\<rparr>) = element h"
    using assms(2) chained_table.entry_empty[OF ct n] by (simp add: element_def fun_eq_iff)
qed

lemma add2_ok:
  assumes ok: "hash_ok h" and s: "Curl_hash_add2 h key p d m = (q, gone, h', m')"
  shows "hash_ok h' \<and> slots h' = slots h \<and> hash_func h' = hash_func h \<and>
    (q = p \<and> gone = due h key \<and> element h' = (element h)(key \<mapsto> \<lparr>he_key = key, he_ptr = p, he_dtor = d\<rparr>) \<or>
     q = None \<and> gone = [] \<and> element h' = element h \<and> element h key = None \<and> (\<exists>k. \<not> m k))"
proof (cases "table h")
  case (Some t)
  with s have "add_in_table h t key p d m = (q, gone, h', m')" by (simp add: Curl_hash_add2_def)
  from add_in_table_ok[OF ok Some this] show ?thesis by blast
next
  case None
  let ?h = "h\<lparr>table := Some (replicate (slots h) [])\<rparr>"
  note F = cfresh_table_ok[OF ok None]
  show ?thesis
  proof (cases "m 0")
    case False
    with s None ok show ?thesis by (auto simp: Curl_hash_add2_def request_def element_def)
  next
    case True
    with s None have "add_in_table ?h (replicate (slots h) []) key p d (\<lambda>j. m (Suc j)) = (q, gone, h', m')"
      by (simp add: Curl_hash_add2_def request_def Let_def)
    note S = add_in_table_ok[OF F(1) _ this, simplified]
    have "due ?h key = due h key" using F(2) by (simp add: due_def)
    with S F show ?thesis by auto
  qed
qed

lemma cdelete_ok:
  assumes ok: "hash_ok h" and s: "Curl_hash_delete h key = (r, gone, h')"
  shows "hash_ok h' \<and> r = (if element h key = None then 1 else 0) \<and> element h' = (element h)(key := None) \<and> gone = due h key"
proof (cases "table h")
  case None
  with s ok show ?thesis by (auto simp: Curl_hash_delete_def element_def due_def fun_eq_iff)
next
  case (Some t)
  define i where "i = hash_func h key (slots h)"
  note ct = chash_okD(1)[OF ok] and C = chash_okD(4)[OF ok Some] and n = chash_okD(5)[OF ok Some]
  have i: "i < length t" unfolding i_def by (rule chash_okD(6)[OF ok Some])
  note S = s[unfolded Curl_hash_delete_def Some option.case Let_def same_keys[OF ok] i_def[symmetric]]
  show ?thesis
  proof (cases "chain_unlink (\<lambda>he. he_key he = key) (t ! i)")
    case None
    then have "element h key = None" using Some by (simp add: element_def entry_of_def i_def chain_unlink_None)
    with S None ok show ?thesis by (auto simp: due_def fun_upd_idem)
  next
    case (Some xc)
    obtain x c where xc: "xc = (x, c)" by fastforce
    note U = Some[unfolded xc]
    have h': "r = 0" "gone = hash_elem_destroy x" "h' = hash_elem_unlink h t i c" using S U by auto
    note L = chained_table.unlinked_entry[OF ct C U[unfolded i_def], folded i_def]
    have "length (t ! i) = Suc (length c)" by (metis chain_unlink_mset[OF U] size_add_mset size_mset)
    then have "length (concat t) = Suc (length (concat (t[i := c])))" using concat_update_length[OF i, of c] by simp
    then have "hash_ok h'" using h' L n ok by (simp add: hash_ok_def key_functions_def hash_elem_unlink_def del: length_concat)
    with h' L \<open>table h = Some t\<close> show ?thesis by (simp add: element_def due_def hash_elem_unlink_def fun_eq_iff)
  qed
qed

lemma cpick_ok: "hash_ok h \<Longrightarrow> Curl_hash_pick h key = (case element h key of None \<Rightarrow> None | Some he \<Rightarrow> he_ptr he)"
  by (auto simp: Curl_hash_pick_def element_def entry_of_def same_keys split: option.splits)

lemma ccount_ok: "hash_ok h \<Longrightarrow> Curl_hash_count h = card (dom (element h))"
proof (cases "table h")
  case None
  moreover assume "hash_ok h"
  moreover have "dom (element h) = {}" using None by (auto simp: element_def)
  ultimately show ?thesis by (simp add: Curl_hash_count_def hash_ok_def)
next
  case (Some t)
  assume ok: "hash_ok h"
  have "element h = entry_of he_key (hash_func h) (slots h) t" using Some by (simp add: element_def fun_eq_iff)
  with chained_table.entries_card[OF chash_okD(1)[OF ok] chash_okD(4)[OF ok Some]] chash_okD(5)[OF ok Some]
  show ?thesis by (simp add: Curl_hash_count_def)
qed

section \<open>Sweeping and iterating\<close>

abbreviation swept :: "('v option \<Rightarrow> bool) option \<Rightarrow> ('v, 'd) Curl_hash_element \<Rightarrow> bool" where
  "swept crit he \<equiv> (case crit of None \<Rightarrow> True | Some p \<Rightarrow> p (he_ptr he))"

lemma sweep_chain_eq:
  "sweep_chain crit c n =
     (concat (map hash_elem_destroy (filter (swept crit) c)), filter (\<lambda>he. \<not> swept crit he) c,
      n - length (filter (swept crit) c))"
  by (induction c arbitrary: n) (auto simp del: map_filter_simps split: option.splits)

lemma sweep_slots_eq:
  "sweep_slots crit t n =
     (concat (map hash_elem_destroy (filter (swept crit) (concat t))), map (filter (\<lambda>he. \<not> swept crit he)) t,
      n - length (filter (swept crit) (concat t)))"
  by (induction t arbitrary: n) (simp_all add: sweep_chain_eq)

lemma find_filter_key:
  assumes "distinct (map key es)"
  shows "find (\<lambda>e. key e = k) (filter P es) =
    (case find (\<lambda>e. key e = k) es of Some e \<Rightarrow> if P e then Some e else None | None \<Rightarrow> None)"
  using assms
proof (induction es)
  case (Cons e es)
  have "find (\<lambda>x. key x = k) es = None" if "key e = k" using that Cons.prems by (auto simp: find_key_None)
  with Cons show ?case by (auto split: option.splits)
qed simp

lemma criterium_ok:
  assumes ok: "hash_ok h" and s: "Curl_hash_clean_with_criterium h crit = (gone, h')"
  shows "hash_ok h' \<and>
    element h' = (\<lambda>key. case element h key of Some he \<Rightarrow> if swept crit he then None else Some he | None \<Rightarrow> None) \<and>
    gone = concat (map hash_elem_destroy (filter (swept crit) (case table h of None \<Rightarrow> [] | Some t \<Rightarrow> concat t)))"
proof (cases "table h")
  case None
  with s ok show ?thesis by (auto simp: Curl_hash_clean_with_criterium_def element_def)
next
  case (Some t)
  note ct = chash_okD(1)[OF ok] and C = chash_okD(4)[OF ok Some] and n = chash_okD(5)[OF ok Some]
  note D = chained_table.chainsD[OF ct C]
  let ?F = "filter (\<lambda>he. \<not> swept crit he)"
  have h': "gone = concat (map hash_elem_destroy (filter (swept crit) (concat t)))"
    "h' = h\<lparr>table := Some (map ?F t), hsize := hsize h - length (filter (swept crit) (concat t))\<rparr>"
    using s Some D(1) by (auto simp: Curl_hash_clean_with_criterium_def sweep_slots_eq)
  have "chains_ok he_key (hash_func h) (slots h) (map ?F t)"
  proof (rule chained_table.chains_okI[OF ct])
    fix i assume i: "i < slots h"
    have "distinct (map he_key (?F (t ! i)))" using D(3)[OF i] by (rule distinct_map_filter)
    with i D(1) show "distinct (map he_key (map ?F t ! i))" by simp
    fix e assume "e \<in> set (map ?F t ! i)"
    with i D(1) D(4)[OF i, of e] show "hash_func h (he_key e) (slots h) = i" by simp
  qed (use D in auto)
  moreover have "hsize h - length (filter (swept crit) (concat t)) = length (concat (map ?F t))"
    using n sum_length_filter_compl[of "swept crit" "concat t"] by (simp add: filter_concat del: length_concat)
  ultimately have "hash_ok h'" using ok h' by (simp add: hash_ok_def key_functions_def del: length_concat)
  moreover have "element h' key = (case element h key of Some he \<Rightarrow> if swept crit he then None else Some he | None \<Rightarrow> None)" for key
  proof -
    have "hash_func h key (slots h) < slots h" by (rule chained_table.slot_bound[OF ct D(2)])
    then show ?thesis using D(1) h'(2) Some find_filter_key[OF D(3)]
      by (auto simp: element_def entry_of_def split: option.splits)
  qed
  ultimately show ?thesis using h' Some by auto
qed

lemma clean_criterium: "Curl_hash_clean h = Curl_hash_clean_with_criterium h None"
  by (simp add: Curl_hash_clean_def Curl_hash_clean_with_criterium_def)

text \<open>What an iterator has still to deliver: the rest of its chain and the chains from its slot on.\<close>

definition pending :: "('v, 'd) Curl_hash_element list list \<Rightarrow> ('v, 'd) Curl_hash_iterator \<Rightarrow> ('v, 'd) Curl_hash_element list" where
  "pending t iter = tl (current iter) @ concat (drop (slot_index iter) t)"

lemma next_slot_Some:
  "next_slot cs i = Some (j, c) \<Longrightarrow> i \<le> j \<and> j - i < length cs \<and> c \<noteq> [] \<and> concat cs = c @ concat (drop (Suc (j - i)) cs)"
proof (induction cs i rule: next_slot.induct)
  case (2 d cs i)
  show ?case
  proof (cases "d = []")
    case True
    with 2 have I: "Suc i \<le> j" "j - Suc i < length cs" "c \<noteq> []" "concat cs = c @ concat (drop (Suc (j - Suc i)) cs)" by auto
    then have "Suc (j - i) = Suc (Suc (j - Suc i))" by simp
    with I True show ?thesis by simp
  qed (use 2 in auto)
qed simp

lemma next_slot_None: "next_slot cs i = None \<Longrightarrow> concat cs = []"
  by (induction cs i rule: next_slot.induct) (auto split: if_splits)

lemma next_element_ok:
  assumes t: "table h = Some t" "length t = slots h" and e: "Curl_hash_next_element h iter = (r, iter')"
  shows "case pending t iter of [] \<Rightarrow> r = None | he # hes \<Rightarrow> r = Some he \<and> pending t iter' = hes"
proof (cases "tl (current iter)")
  case (Cons he hes)
  then have "current iter \<noteq> []" by auto
  with Cons assms show ?thesis by (auto simp: Curl_hash_next_element_def pending_def)
next
  case Nil
  define iter1 where "iter1 = (if current iter \<noteq> [] then iter\<lparr>current := tl (current iter)\<rparr> else iter)"
  have i1: "current iter1 = []" "slot_index iter1 = slot_index iter" using Nil by (simp_all add: iter1_def)
  let ?cs = "drop (slot_index iter) t"
  show ?thesis
  proof (cases "next_slot ?cs (slot_index iter)")
    case None
    then have "pending t iter = []" using Nil next_slot_None[OF None] by (simp add: pending_def)
    with None e t i1 show ?thesis by (auto simp: Curl_hash_next_element_def iter1_def[symmetric])
  next
    case (Some jc)
    obtain j c where jc: "jc = (j, c)" by fastforce
    note N = next_slot_Some[OF Some[unfolded jc]]
    have "Suc (j - slot_index iter) + slot_index iter = Suc j" using N by simp
    then have p: "pending t iter = c @ concat (drop (Suc j) t)" using N Nil by (simp add: pending_def)
    have "r = (case c of [] \<Rightarrow> None | he # _ \<Rightarrow> Some he)" "iter' = iter1\<lparr>current := c, slot_index := Suc j\<rparr>"
      using Some jc e t i1 by (auto simp: Curl_hash_next_element_def iter1_def[symmetric])
    with p N show ?thesis by (auto simp: pending_def neq_Nil_conv)
  qed
qed

lemma iterate_pending:
  assumes "table h = Some t" "length t = slots h" "length (pending t iter) < fuel"
  shows "iterate fuel h iter = Some (pending t iter)"
  using assms(3)
proof (induction fuel arbitrary: iter)
  case (Suc fuel)
  obtain r iter' where e: "Curl_hash_next_element h iter = (r, iter')" by fastforce
  with next_element_ok[OF assms(1,2) e] Suc show ?case by (cases "pending t iter") auto
qed simp

text \<open>The hash as a keyed container, with memory that does not run out.\<close>

definition deleted :: "('v, 'd) Curl_hash \<Rightarrow> bytes \<Rightarrow> ('v, 'd) Curl_hash" where
  "deleted h key = snd (snd (Curl_hash_delete h key))"

definition stored_pointer :: "('v, 'd) Curl_hash \<Rightarrow> bytes \<rightharpoonup> 'v option" where
  "stored_pointer h key = map_option he_ptr (element h key)"

definition add_pointer :: "('v, 'd) Curl_hash \<Rightarrow> bytes \<Rightarrow> 'v option \<Rightarrow> ('v, 'd) Curl_hash" where
  "add_pointer h key p = fst (snd (snd (Curl_hash_add h key p (\<lambda>_. True))))"

lemma finite_elements: "hash_ok h \<Longrightarrow> finite (dom (stored_pointer h))"
proof (cases "table h")
  case (Some t)
  assume ok: "hash_ok h"
  have "dom (stored_pointer h) = dom (entry_of he_key (hash_func h) (slots h) t)"
    using Some by (auto simp: stored_pointer_def element_def dom_def)
  then show ?thesis using chained_table.dom_entry[OF chash_okD(1)[OF ok] chash_okD(4)[OF ok Some]] by simp
qed (simp add: stored_pointer_def element_def dom_def)

interpretation chash: keyed_map hash_ok stored_pointer deleted add_pointer
proof unfold_locales
  fix h :: "('v, 'd) Curl_hash" and k p assume ok: "hash_ok h"
  obtain r gone h' where e: "Curl_hash_delete h k = (r, gone, h')" by (metis prod_cases3)
  obtain q gone2 h2 m2 where a: "Curl_hash_add2 h k p None (\<lambda>_. True) = (q, gone2, h2, m2)" by (metis prod_cases4)
  show "finite (dom (stored_pointer h))" by (rule finite_elements[OF ok])
  from cdelete_ok[OF ok e] e show "hash_ok (deleted h k)" "stored_pointer (deleted h k) = (stored_pointer h)(k := None)"
    by (simp_all add: deleted_def stored_pointer_def fun_eq_iff)
  from add2_ok[OF ok a] a show "hash_ok (add_pointer h k p)" "stored_pointer (add_pointer h k p) = (stored_pointer h)(k \<mapsto> p)"
    by (auto simp: add_pointer_def Curl_hash_add_def stored_pointer_def fun_eq_iff)
qed

section \<open>Properties\<close>

text \<open>
  C27: A hash whose hash function stays below the number of slots and whose comparison is equality of
  keys, such as one set up with the file's own string functions, is a finite map. Picking returns
  the pointer stored last; adding replaces exactly the element of its key, or fails for lack of
  memory with the map unchanged; deleting removes exactly that element and returns 0 when there was
  one and 1 otherwise; a cleaning removes exactly the elements its criterion selects; the count is the
  number of keys; the destructor calls made are exactly those due; the table stays well formed.
\<close>

theorem hash_refines_map:
  assumes "hash_ok h"
  shows "Curl_hash_pick h key = (case element h key of None \<Rightarrow> None | Some he \<Rightarrow> he_ptr he) \<and>
    Curl_hash_count h = card (dom (element h)) \<and>
    (case Curl_hash_add2 h key p d m of (q, gone, h', m') \<Rightarrow>
       hash_ok h' \<and>
       (q = p \<and> gone = due h key \<and> element h' = (element h)(key \<mapsto> \<lparr>he_key = key, he_ptr = p, he_dtor = d\<rparr>) \<or>
        q = None \<and> gone = [] \<and> element h' = element h \<and> element h key = None \<and> (\<exists>k. \<not> m k))) \<and>
    (case Curl_hash_delete h key of (r, gone, h') \<Rightarrow>
       hash_ok h' \<and> r = (if element h key = None then 1 else 0) \<and> element h' = (element h)(key := None) \<and> gone = due h key) \<and>
    (case Curl_hash_clean_with_criterium h (Some crit) of (gone, h') \<Rightarrow>
       hash_ok h' \<and>
       element h' = (\<lambda>k. case element h k of Some he \<Rightarrow> if crit (he_ptr he) then None else Some he | None \<Rightarrow> None)) \<and>
    (case Curl_hash_clean h of (gone, h') \<Rightarrow> hash_ok h' \<and> element h' = Map.empty)"
proof -
  obtain q gone h1 m1 where a: "Curl_hash_add2 h key p d m = (q, gone, h1, m1)" by (metis prod_cases4)
  obtain r gone2 h2 where b: "Curl_hash_delete h key = (r, gone2, h2)" by (metis prod_cases3)
  obtain gone3 h3 where c: "Curl_hash_clean_with_criterium h (Some crit) = (gone3, h3)" by fastforce
  obtain gone4 h4 where e: "Curl_hash_clean_with_criterium h None = (gone4, h4)" by fastforce
  have "element h4 = Map.empty" "hash_ok h4" using criterium_ok[OF assms e] by (auto split: option.split)
  then show ?thesis
    using cpick_ok[OF assms, of key] ccount_ok[OF assms] add2_ok[OF assms a] cdelete_ok[OF assms b] criterium_ok[OF assms c]
    unfolding clean_criterium a b c e prod.case option.case by blast
qed

theorem hash_refines_map_witness:
  "hash_ok (Curl_hash_init 7 Curl_hash_str curlx_str_key_compare :: (nat, nat) Curl_hash) \<and>
   Curl_hash_pick (Curl_hash_init 7 Curl_hash_str curlx_str_key_compare :: (nat, nat) Curl_hash) ''host'' = None \<and>
   Curl_hash_pick (fst (snd (snd (Curl_hash_add (Curl_hash_init 7 Curl_hash_str curlx_str_key_compare :: (nat, nat) Curl_hash)
     ''host'' (Some 5) (\<lambda>_. True))))) ''host'' = Some 5"
proof -
  let ?h = "Curl_hash_init 7 Curl_hash_str curlx_str_key_compare :: (nat, nat) Curl_hash"
  have ok: "hash_ok ?h" by (rule string_hash_ok) simp
  have "element ?h ''host'' = None" by (simp add: element_def Curl_hash_init_def)
  moreover have "Curl_hash_pick (fst (snd (snd (Curl_hash_add ?h ''host'' (Some 5) (\<lambda>_. True))))) ''host'' = Some 5"
    by code_simp
  ultimately show ?thesis using ok hash_refines_map[OF ok, of "''host''"] by simp
qed

text \<open>
  Iterating a hash ends and delivers every element exactly once: starting an iteration and asking
  for the next element, at most once more than there are elements, returns the elements one by one,
  with no key twice, and then the null pointer.
\<close>

theorem hash_iteration_complete:
  assumes "hash_ok h" "Curl_hash_count h < fuel"
  shows "\<exists>hes. iterate fuel h Curl_hash_start_iterate = Some hes \<and> distinct (map he_key hes) \<and>
    (\<forall>key he. element h key = Some he \<longleftrightarrow> he \<in> set hes \<and> he_key he = key)"
proof (cases "table h")
  case None
  with assms(2) show ?thesis
    by (cases fuel) (simp_all add: Curl_hash_next_element_def element_def)
next
  case (Some t)
  note ct = chash_okD(1)[OF assms(1)] and C = chash_okD(4)[OF assms(1) Some] and n = chash_okD(5)[OF assms(1) Some]
  have p: "pending t Curl_hash_start_iterate = concat t" by (simp add: pending_def Curl_hash_start_iterate_def)
  have "iterate fuel h Curl_hash_start_iterate = Some (concat t)"
    using iterate_pending[OF Some chained_table.chainsD(1)[OF ct C], of Curl_hash_start_iterate fuel] assms(2) n p
    by (simp add: Curl_hash_count_def del: length_concat)
  moreover have "element h key = Some he \<longleftrightarrow> he \<in> set (concat t) \<and> he_key he = key" for key he
    using chained_table.entry_mem[OF ct C, of key he] Some by (simp add: element_def)
  ultimately show ?thesis using chained_table.distinct_chains[OF ct C] by blast
qed

theorem hash_iteration_complete_witness:
  "\<exists>hes. iterate 2 (fst (snd (snd (Curl_hash_add (Curl_hash_init 7 Curl_hash_str curlx_str_key_compare :: (nat, nat) Curl_hash)
     ''a'' (Some 5) (\<lambda>_. True))))) Curl_hash_start_iterate = Some hes \<and> distinct (map he_key hes)"
proof -
  let ?h0 = "Curl_hash_init 7 Curl_hash_str curlx_str_key_compare :: (nat, nat) Curl_hash"
  obtain q gone h' m' where a: "Curl_hash_add ?h0 ''a'' (Some 5) (\<lambda>_. True) = (q, gone, h', m')" by (metis prod_cases4)
  have "hash_ok h'" using add2_ok[OF string_hash_ok a[unfolded Curl_hash_add_def]] by simp
  moreover have "Curl_hash_count (fst (snd (snd (Curl_hash_add ?h0 ''a'' (Some 5) (\<lambda>_. True))))) = 1" by code_simp
  ultimately show ?thesis using hash_iteration_complete[of h' 2] a by auto
qed

text \<open>
  Sequences of operations: with memory at hand, after any sequence of additions and deletions on
  a fresh hash with the file's string functions, picking a key returns what the same sequence leaves
  in a map, and the count is the number of keys left.
\<close>

theorem hash_sequences:
  assumes "0 < n" "h = foldl (apply_op add_pointer deleted) (Curl_hash_init n Curl_hash_str curlx_str_key_compare) ops"
  shows "Curl_hash_pick h key = (case foldl map_apply Map.empty ops key of None \<Rightarrow> None | Some p \<Rightarrow> p) \<and>
    Curl_hash_count h = card (dom (foldl map_apply Map.empty ops))"
proof -
  have e: "stored_pointer (Curl_hash_init n Curl_hash_str curlx_str_key_compare :: ('a, 'b) Curl_hash) = Map.empty"
    by (simp add: stored_pointer_def element_def Curl_hash_init_def fun_eq_iff)
  have ok0: "hash_ok (Curl_hash_init n Curl_hash_str curlx_str_key_compare :: ('a, 'b) Curl_hash)"
    by (rule string_hash_ok[OF assms(1)])
  have R: "hash_ok h \<and> stored_pointer h = foldl map_apply Map.empty ops"
    unfolding assms(2) using chash.ops_refine[OF ok0, of ops] by (simp add: e)
  have "dom (element h) = dom (stored_pointer h)" by (auto simp: stored_pointer_def dom_def)
  moreover have "Curl_hash_pick h key = (case stored_pointer h key of None \<Rightarrow> None | Some p \<Rightarrow> p)"
    using cpick_ok[OF conjunct1[OF R], of key] by (simp add: stored_pointer_def split: option.split)
  ultimately show ?thesis using R ccount_ok[OF conjunct1[OF R]] by simp
qed

theorem hash_sequences_witness:
  "Curl_hash_pick (foldl (apply_op add_pointer deleted)
       (Curl_hash_init 2 Curl_hash_str curlx_str_key_compare :: (nat, nat) Curl_hash)
       [Put ''a'' (Some 1), Put ''b'' (Some 2), Put ''a'' (Some 3), Del ''b'']) ''a'' = Some 3"
proof -
  let ?ops = "[Put ''a'' (Some 1), Put ''b'' (Some 2), Put ''a'' (Some 3), Del ''b'']"
  let ?h = "foldl (apply_op add_pointer deleted)
    (Curl_hash_init 2 Curl_hash_str curlx_str_key_compare :: (nat, nat) Curl_hash) ?ops"
  have "Curl_hash_pick ?h ''a'' = (case foldl map_apply Map.empty ?ops ''a'' of None \<Rightarrow> None | Some p \<Rightarrow> p)"
    using hash_sequences[of 2 ?h ?ops "''a''"] by simp
  then show ?thesis by simp
qed

end
