(* ===== verification/Curl_Bits.thy ===== *)
theory Curl_Bits
  imports Curl_Code
begin

text \<open>
  The portable bit tricks of \<open>old/lib/uint-bset.c\<close>, for builds whose compiler offers no builtin: the
  number of ones and the number of trailing zeros of a 64-bit word. Both are proved equal to what
  they stand for. The count adds neighbouring fields of 2, 4 and 8 bits in parallel; the proof
  follows the fields as the digits of the word to base 4, 16 and 256.
\<close>

unbundle bit_operations_syntax

section \<open>The routines\<close>

definition Curl_popcount64 :: "64 word \<Rightarrow> nat" where
  "Curl_popcount64 x =
     (let m1 = 0x5555555555555555; m2 = 0x3333333333333333; m4 = 0x0f0f0f0f0f0f0f0f;
          h01 = 0x0101010101010101;
          x = x - (drop_bit 1 x AND m1);
          x = (x AND m2) + (drop_bit 2 x AND m2);
          x = (x + drop_bit 4 x) AND m4 in
      unat (drop_bit 56 (x * h01)))"

definition ctz_step :: "nat \<Rightarrow> 64 word \<Rightarrow> 64 word \<times> nat \<Rightarrow> 64 word \<times> nat" where
  "ctz_step k ml s = (case s of (x, n) \<Rightarrow> if x AND ml = 0 then (drop_bit k x, n + k) else (x, n))"

definition Curl_ctz64 :: "64 word \<Rightarrow> nat" where
  "Curl_ctz64 x =
     (if x = 0 then 64
      else
        let s = (x, 1);
            s = ctz_step 32 0xFFFFFFFF s;
            s = ctz_step 16 0x0000FFFF s;
            s = ctz_step 8 0x000000FF s;
            s = ctz_step 4 0x0000000F s;
            s = ctz_step 2 0x00000003 s in
        case s of (x, n) \<Rightarrow> n - unat (x AND 1))"

section \<open>Counting trailing zeros\<close>

definition lowest :: "64 word \<Rightarrow> nat" where
  "lowest x = (LEAST n. bit x n)"

lemma lowest_props:
  assumes "x \<noteq> 0"
  shows "bit x (lowest x)" "lowest x < 64" "\<And>m. m < lowest x \<Longrightarrow> \<not> bit x m"
proof -
  obtain n where "bit x n" using assms bit_eq_iff[of x 0] by auto
  then show b: "bit x (lowest x)" unfolding lowest_def by (rule LeastI)
  from bit_imp_le_length[OF b] show "lowest x < 64" by simp
  show "\<And>m. m < lowest x \<Longrightarrow> \<not> bit x m" unfolding lowest_def by (rule not_less_Least)
qed

lemma lowest_eqI: "bit x n \<Longrightarrow> (\<And>m. m < n \<Longrightarrow> \<not> bit x m) \<Longrightarrow> lowest x = n"
  unfolding lowest_def by (rule Least_equality) (auto simp: not_less[symmetric])

lemma and_mask_zero: "(x::64 word) AND mask k = 0 \<longleftrightarrow> (\<forall>m<k. \<not> bit x m)"
proof -
  have "bit x m \<Longrightarrow> m < 64" for m using bit_imp_le_length[of x m] by simp
  then show ?thesis by (auto simp: bit_eq_iff bit_simps)
qed

lemma ctz_step_ok:
  assumes "x \<noteq> 0" "lowest x < 2 * k" "ctz_step k (mask k) (x, n) = (x', n')"
  shows "x' \<noteq> 0 \<and> lowest x' < k \<and> n' + lowest x' = n + lowest x"
proof (cases "x AND mask k = 0")
  case True
  note L = lowest_props[OF assms(1)]
  from True have k: "k \<le> lowest x" using L(1) by (auto simp: and_mask_zero not_less[symmetric])
  have b: "bit (drop_bit k x) (lowest x - k)" using L(1) k by (simp add: bit_simps)
  have "lowest (drop_bit k x) = lowest x - k"
    using b L(3) k by (intro lowest_eqI) (auto simp: bit_simps less_diff_conv add.commute)
  moreover have "drop_bit k x \<noteq> 0" using b by auto
  ultimately show ?thesis using True assms k by (auto simp: ctz_step_def)
next
  case False
  then obtain m where "m < k" "bit x m" by (auto simp: and_mask_zero)
  then have "lowest x < k" using lowest_props(3)[OF assms(1), of m] by (meson le_less_trans not_less)
  with False assms show ?thesis by (auto simp: ctz_step_def)
qed

lemma masks:
  "(0xFFFFFFFF :: 64 word) = mask 32" "(0xFFFF :: 64 word) = mask 16" "(0xFF :: 64 word) = mask 8"
  "(0xF :: 64 word) = mask 4" "(3 :: 64 word) = mask 2"
  by (simp_all add: mask_eq_exp_minus_1)

lemma Curl_ctz64_lowest:
  assumes "x \<noteq> 0"
  shows "Curl_ctz64 x = lowest x"
proof -
  obtain x1 n1 where s1: "ctz_step 32 (mask 32) (x, 1) = (x1, n1)" by fastforce
  obtain x2 n2 where s2: "ctz_step 16 (mask 16) (x1, n1) = (x2, n2)" by fastforce
  obtain x3 n3 where s3: "ctz_step 8 (mask 8) (x2, n2) = (x3, n3)" by fastforce
  obtain x4 n4 where s4: "ctz_step 4 (mask 4) (x3, n3) = (x4, n4)" by fastforce
  obtain x5 n5 where s5: "ctz_step 2 (mask 2) (x4, n4) = (x5, n5)" by fastforce
  have 1: "x1 \<noteq> 0 \<and> lowest x1 < 32 \<and> n1 + lowest x1 = 1 + lowest x"
    using ctz_step_ok[OF assms _ s1] lowest_props(2)[OF assms] by simp
  have 2: "x2 \<noteq> 0 \<and> lowest x2 < 16 \<and> n2 + lowest x2 = 1 + lowest x" using ctz_step_ok[OF _ _ s2] 1 by simp
  have 3: "x3 \<noteq> 0 \<and> lowest x3 < 8 \<and> n3 + lowest x3 = 1 + lowest x" using ctz_step_ok[OF _ _ s3] 2 by simp
  have 4: "x4 \<noteq> 0 \<and> lowest x4 < 4 \<and> n4 + lowest x4 = 1 + lowest x" using ctz_step_ok[OF _ _ s4] 3 by simp
  have 5: "x5 \<noteq> 0 \<and> lowest x5 < 2 \<and> n5 + lowest x5 = 1 + lowest x" using ctz_step_ok[OF _ _ s5] 4 by simp
  have "unat (x5 AND 1) = 1 - lowest x5"
  proof (cases "bit x5 0")
    case True
    then have "lowest x5 = 0" by (intro lowest_eqI) auto
    with True show ?thesis by (simp add: and_one_eq odd_iff_mod_2_eq_one bit_0)
  next
    case False
    then have "lowest x5 \<noteq> 0" using lowest_props(1)[of x5] 5 by metis
    with False 5 show ?thesis by (simp add: and_one_eq bit_0 even_iff_mod_2_eq_zero)
  qed
  with 5 have "n5 - unat (x5 AND 1) = lowest x" by linarith
  then show ?thesis using assms
    by (simp add: Curl_ctz64_def Let_def masks s1[unfolded One_nat_def] s2 s3 s4 s5)
qed

section \<open>Counting ones\<close>

fun val :: "nat \<Rightarrow> nat list \<Rightarrow> nat" where
  "val b [] = 0"
| "val b (d # ds) = d + 2 ^ b * val b ds"

definition ones :: "nat \<Rightarrow> nat \<Rightarrow> nat" where
  "ones k x = (\<Sum>n<k. of_bool (bit x n))"

lemma digits_exist: "x < (2 ^ b) ^ n \<Longrightarrow> \<exists>ds. length ds = n \<and> list_all (\<lambda>d. d < 2 ^ b) ds \<and> x = val b ds"
proof (induction n arbitrary: x)
  case (Suc n)
  have "x div 2 ^ b < (2 ^ b) ^ n" using Suc.prems by (simp add: less_mult_imp_div_less mult.commute)
  from Suc.IH[OF this] obtain ds where "length ds = n" "list_all (\<lambda>d. d < 2 ^ b) ds" "x div 2 ^ b = val b ds" by auto
  moreover have "x = x mod 2 ^ b + 2 ^ b * (x div 2 ^ b)" by simp
  ultimately show ?case by (intro exI[of _ "x mod 2 ^ b # ds"]) auto
qed simp

text \<open>One field of a masked shift: the mask keeps the bits that stay inside the field.\<close>

lemma field_and:
  fixes d e r s :: nat
  assumes "k \<le> b" "d < 2 ^ b" "e < 2 ^ (b - k)"
  shows "drop_bit k (d + 2 ^ b * r) AND (e + 2 ^ b * s) = (drop_bit k d AND e) + 2 ^ b * (drop_bit k r AND s)"
proof -
  let ?X = "d + 2 ^ b * r" and ?Y = "e + 2 ^ b * s"
  have e: "e < 2 ^ b" using assms(1,3) by (meson le_less_trans less_imp_le not_less diff_le_self one_le_numeral power_increasing order_less_le_trans)
  have X: "take_bit b ?X = d" "drop_bit b ?X = r" using assms(2) by (simp_all add: take_bit_eq_mod drop_bit_eq_div)
  have Y: "take_bit b ?Y = e" "drop_bit b ?Y = s" using e by (simp_all add: take_bit_eq_mod drop_bit_eq_div)
  have "take_bit b (drop_bit k ?X AND ?Y) = drop_bit k d AND e"
  proof (rule bit_eqI)
    fix n
    have "bit e n \<Longrightarrow> n < b - k" using assms(3) by (metis bit_take_bit_iff take_bit_nat_eq_self)
    moreover have "bit ?Y n \<longleftrightarrow> bit e n" if "n < b" using Y(1) that by (metis bit_take_bit_iff)
    moreover have "bit ?X n' \<longleftrightarrow> bit d n'" if "n' < b" for n' using X(1) that by (metis bit_take_bit_iff)
    ultimately show "bit (take_bit b (drop_bit k ?X AND ?Y)) n \<longleftrightarrow> bit (drop_bit k d AND e) n"
      using assms(1) by (auto simp: bit_simps)
  qed
  moreover have "drop_bit b (drop_bit k ?X AND ?Y) = drop_bit k r AND s"
  proof (rule bit_eqI)
    fix n
    have "bit ?Y (b + n) \<longleftrightarrow> bit s n" using Y(2) by (metis bit_drop_bit_eq comp_apply)
    moreover have "bit ?X (b + (k + n)) \<longleftrightarrow> bit r (k + n)" using X(2) by (metis bit_drop_bit_eq comp_apply)
    ultimately show "bit (drop_bit b (drop_bit k ?X AND ?Y)) n \<longleftrightarrow> bit (drop_bit k r AND s) n"
      by (simp add: bit_simps ac_simps)
  qed
  ultimately show ?thesis
    using bits_ident[of b "drop_bit k ?X AND ?Y"] by (simp add: push_bit_eq_mult mult.commute)
qed

lemma val_and:
  assumes "k \<le> b" "e < 2 ^ (b - k)" "list_all (\<lambda>d. d < 2 ^ b) ds"
  shows "drop_bit k (val b ds) AND val b (replicate (length ds) e) = val b (map (\<lambda>d. drop_bit k d AND e) ds)"
  using assms(3)
proof (induction ds)
  case (Cons d ds)
  then show ?case using field_and[OF assms(1) _ assms(2), of d "val b ds" "val b (replicate (length ds) e)"] by simp
qed simp

lemma val_minus:
  "list_all (\<lambda>d. g d \<le> f d) ds \<Longrightarrow> val b (map g ds) \<le> val b (map f ds) \<and>
     val b (map f ds) - val b (map g ds) = val b (map (\<lambda>d. f d - g d) ds)"
proof (induction ds)
  case (Cons d ds)
  then have "val b (map g ds) \<le> val b (map f ds)" "g d \<le> f d"
    and IH: "val b (map (\<lambda>d. f d - g d) ds) = val b (map f ds) - val b (map g ds)" by auto
  then have "2 ^ b * val b (map g ds) \<le> 2 ^ b * val b (map f ds)" by simp
  with \<open>g d \<le> f d\<close> have "g d + 2 ^ b * val b (map g ds) \<le> f d + 2 ^ b * val b (map f ds)"
    "f d + 2 ^ b * val b (map f ds) - (g d + 2 ^ b * val b (map g ds)) = (f d - g d) + (2 ^ b * val b (map f ds) - 2 ^ b * val b (map g ds))"
    by linarith+
  then show ?case by (simp add: IH diff_mult_distrib2)
qed simp

lemma val_plus: "val b (map f ds) + val b (map g ds) = val b (map (\<lambda>d. f d + g d) ds)"
proof (induction ds)
  case (Cons d ds)
  have "2 ^ b * val b (map f ds) + 2 ^ b * val b (map g ds) = 2 ^ b * (val b (map f ds) + val b (map g ds))"
    by (simp only: distrib_left)
  with Cons show ?case by simp
qed simp

lemma val_bound: "list_all (\<lambda>d. d < 2 ^ b) ds \<Longrightarrow> val b ds < (2 ^ b) ^ length ds"
proof (induction ds)
  case (Cons d ds)
  then have "val b ds + 1 \<le> (2 ^ b) ^ length ds" "d < 2 ^ b" by auto
  then have "2 ^ b * (val b ds + 1) \<le> 2 ^ b * (2 ^ b) ^ length ds" by (intro mult_le_mono2)
  with \<open>d < 2 ^ b\<close> show ?case by (simp add: algebra_simps)
qed simp

text \<open>Reading two neighbouring digits as one of the square base.\<close>

fun pair_up :: "nat \<Rightarrow> nat list \<Rightarrow> nat list" where
  "pair_up b (p # q # ds) = (p + 2 ^ b * q) # pair_up b ds"
| "pair_up b ds = []"

lemma val_pair_up: "even (length ds) \<Longrightarrow> val b ds = val (2 * b) (pair_up b ds) \<and> length (pair_up b ds) = length ds div 2"
  by (induction b ds rule: pair_up.induct) (auto simp: algebra_simps mult_2_right power_add)

lemma pair_up_all:
  assumes "\<And>p q. P p \<Longrightarrow> P q \<Longrightarrow> Q (p + 2 ^ b * q)"
  shows "list_all P ds \<Longrightarrow> list_all Q (pair_up b ds)"
  using assms by (induction b ds rule: pair_up.induct) auto

lemma sum_pair_up:
  assumes "\<And>p q. P p \<Longrightarrow> P q \<Longrightarrow> f (p + 2 ^ b * q) = p + q"
  shows "list_all P ds \<Longrightarrow> even (length ds) \<Longrightarrow> sum_list (map f (pair_up b ds)) = sum_list ds"
  using assms by (induction b ds rule: pair_up.induct) auto

text \<open>First round: two bits hold at most two ones.\<close>

definition round1 :: "nat \<Rightarrow> nat" where "round1 d = d - d div 2"

lemma ones_Suc: "ones (Suc k) x = of_bool (odd x) + ones k (x div 2)"
  unfolding ones_def sum.lessThan_Suc_shift by (simp add: bit_0 bit_Suc)

lemma ones_val4: "list_all (\<lambda>d. d < 4) ds \<Longrightarrow> ones (2 * length ds) (val 2 ds) = sum_list (map round1 ds)"
proof (induction ds)
  case (Cons d ds)
  have v: "(d + 4 * val 2 ds) div 2 = d div 2 + 2 * val 2 ds" by (simp add: div_add1_eq[of d "4 * val 2 ds"])
  have "d div 2 < 2" using Cons.prems by auto
  then have "(d div 2 + 2 * val 2 ds) div 2 = val 2 ds" by simp
  with v have "ones (2 * length (d # ds)) (d + 4 * val 2 ds) = of_bool (odd d) + of_bool (odd (d div 2)) + ones (2 * length ds) (val 2 ds)"
    by (simp add: ones_Suc)
  moreover have "of_bool (odd d) + of_bool (odd (d div 2)) = round1 d"
  proof -
    have "d = 0 \<or> d = 1 \<or> d = 2 \<or> d = 3" using Cons.prems by auto
    then show ?thesis by (auto simp: round1_def)
  qed
  ultimately show ?case using Cons by simp
qed (simp add: ones_def)

lemma and_low: "(x::nat) AND 1 = x mod 2" "x AND 3 = x mod 4" "x AND 15 = x mod 16"
proof -
  have "x AND mask k = x mod 2 ^ k" for k by (simp add: take_bit_eq_mod flip: take_bit_eq_mask)
  from this[of 1] this[of 2] this[of 4] show "(x::nat) AND 1 = x mod 2" "x AND 3 = x mod 4" "x AND 15 = x mod 16"
    by (simp_all add: mask_eq_exp_minus_1)
qed

lemma round1_val:
  assumes "list_all (\<lambda>d. d < 4) ds"
  shows "drop_bit 1 (val 2 ds) AND val 2 (replicate (length ds) 1) \<le> val 2 ds"
    "val 2 ds - (drop_bit 1 (val 2 ds) AND val 2 (replicate (length ds) 1)) = val 2 (map round1 ds)"
proof -
  have "drop_bit 1 (val 2 ds) AND val 2 (replicate (length ds) 1) = val 2 (map (\<lambda>d. drop_bit 1 d AND 1) ds)"
    using assms by (intro val_and) simp_all
  also have "map (\<lambda>d. drop_bit 1 d AND 1) ds = map (\<lambda>d. d div 2) ds"
    using assms by (auto simp: list_all_iff and_low drop_bit_eq_div)
  finally have e: "drop_bit 1 (val 2 ds) AND val 2 (replicate (length ds) 1) = val 2 (map (\<lambda>d. d div 2) ds)" .
  have "list_all (\<lambda>d. d div 2 \<le> d) ds" by (simp add: list_all_iff)
  from val_minus[OF this, of 2] show "drop_bit 1 (val 2 ds) AND val 2 (replicate (length ds) 1) \<le> val 2 ds"
    "val 2 ds - (drop_bit 1 (val 2 ds) AND val 2 (replicate (length ds) 1)) = val 2 (map round1 ds)"
    unfolding e by (simp_all add: round1_def[abs_def])
qed

definition round2 :: "nat \<Rightarrow> nat" where "round2 e = e mod 4 + e div 4 mod 4"

lemma round2_val:
  assumes "list_all (\<lambda>e. e < 16) es"
  shows "(val 4 es AND val 4 (replicate (length es) 3)) + (drop_bit 2 (val 4 es) AND val 4 (replicate (length es) 3)) =
    val 4 (map round2 es)"
proof -
  have "drop_bit 0 (val 4 es) AND val 4 (replicate (length es) 3) = val 4 (map (\<lambda>d. drop_bit 0 d AND 3) es)"
    using assms by (intro val_and) simp_all
  moreover have "drop_bit 2 (val 4 es) AND val 4 (replicate (length es) 3) = val 4 (map (\<lambda>d. drop_bit 2 d AND 3) es)"
    using assms by (intro val_and) simp_all
  ultimately show ?thesis by (simp add: val_plus and_low drop_bit_eq_div round2_def[abs_def])
qed

definition round3 :: "nat \<Rightarrow> nat" where "round3 f = f mod 16 + f div 16"

lemma nibble_carry:
  fixes f r :: nat
  assumes "f mod 16 \<le> 4" "f div 16 \<le> 4" "r mod 16 \<le> 4"
  shows "(f + 256 * r + (f + 256 * r) div 16) mod 16 = round3 f"
    "(f + 256 * r + (f + 256 * r) div 16) div 256 = r + r div 16"
proof -
  define p q where "p = f mod 16" and "q = f div 16"
  have f: "f = p + 16 * q" by (simp add: p_def q_def)
  define a b where "a = r mod 16" and "b = r div 16"
  have r: "r = a + 16 * b" by (simp add: a_def b_def)
  have le: "p \<le> 4" "q \<le> 4" "a \<le> 4" using assms by (simp_all add: p_def q_def a_def)
  have d: "(f + 256 * r) div 16 = q + 16 * r" using le unfolding f by simp
  have t: "f + 256 * r + (f + 256 * r) div 16 = (p + q) + 16 * (q + r + 16 * r)" unfolding d unfolding f by simp
  have "((p + q) + 16 * (q + r + 16 * r)) mod 16 = (p + q) mod 16" by (rule mod_mult_self2)
  then show "(f + 256 * r + (f + 256 * r) div 16) mod 16 = round3 f"
    unfolding t using le by (simp add: round3_def p_def[symmetric] q_def[symmetric])
  have "(p + q) + 16 * (q + r + 16 * r) = (p + q + 16 * (q + a)) + 256 * (r + b)" unfolding r by simp
  moreover have "((p + q + 16 * (q + a)) + 256 * (r + b)) div 256 = r + b" using le by simp
  ultimately show "(f + 256 * r + (f + 256 * r) div 16) div 256 = r + r div 16"
    unfolding t by (simp only: b_def)
qed

lemma round3_val:
  assumes "list_all (\<lambda>f. f mod 16 \<le> 4 \<and> f div 16 \<le> 4) fs"
  shows "(val 8 fs + drop_bit 4 (val 8 fs)) AND val 8 (replicate (length fs) 15) = val 8 (map round3 fs)"
  using assms
proof (induction fs)
  case (Cons f fs)
  let ?r = "val 8 fs" and ?s = "val 8 (replicate (length fs) 15)"
  let ?T = "f + 256 * ?r + (f + 256 * ?r) div 16"
  have r: "?r mod 16 \<le> 4"
  proof (cases fs)
    case c: (Cons g gs)
    have "(g + 16 * (16 * val 8 gs)) mod 16 = g mod 16" by (rule mod_mult_self2)
    then have "(g + 256 * val 8 gs) mod 16 = g mod 16" by simp
    with \<open>fs = g # gs\<close> Cons.prems show ?thesis by simp
  qed simp
  have N: "?T mod 16 = round3 f" "?T div 256 = ?r + ?r div 16"
    using nibble_carry[of f ?r] Cons.prems r by auto
  have "?T AND (15 + 256 * ?s) = (?T mod 256 AND 15) + 256 * (?T div 256 AND ?s)"
    using field_and[of 0 8 "?T mod 256" 15 "?T div 256" ?s] by simp
  also have "?T mod 256 AND 15 = ?T mod 16" by (simp add: and_low mod_mod_cancel)
  finally show ?case using Cons N by (simp add: drop_bit_eq_div)
qed simp

lemma round4_val:
  assumes "length cs = 8" "list_all (\<lambda>c. c \<le> 8) cs"
  shows "val 8 cs * 0x0101010101010101 mod 2 ^ 64 div 2 ^ 56 = sum_list cs"
proof -
  obtain a b c d e f g h where cs: "cs = [a, b, c, d, e, f, g, h]"
    using assms(1) by (auto simp: numeral_eq_Suc length_Suc_conv)
  have le: "a \<le> 8" "b \<le> 8" "c \<le> 8" "d \<le> 8" "e \<le> 8" "f \<le> 8" "g \<le> 8" "h \<le> 8" using assms(2) cs by simp_all
  define L where "L = a + 256 * (a + b) + 65536 * (a + b + c) + 16777216 * (a + b + c + d) + 4294967296 * (a + b + c + d + e) +
    1099511627776 * (a + b + c + d + e + f) + 281474976710656 * (a + b + c + d + e + f + g)"
  define S where "S = a + b + c + d + e + f + g + h"
  define H where "H = (b + c + d + e + f + g + h) + 256 * (c + d + e + f + g + h) + 65536 * (d + e + f + g + h) +
    16777216 * (e + f + g + h) + 4294967296 * (f + g + h) + 1099511627776 * (g + h) + 281474976710656 * h"
  have "val 8 cs * 0x0101010101010101 = L + 72057594037927936 * S + 18446744073709551616 * H"
    by (simp add: cs L_def S_def H_def)
  moreover have L: "L < 72057594037927936" and "S \<le> 64" using le by (auto simp: L_def S_def)
  ultimately have "val 8 cs * 0x0101010101010101 mod 2 ^ 64 = L + 72057594037927936 * S" by simp
  with L show ?thesis by (simp add: cs S_def)
qed

lemma masks_val:
  "unat (0x5555555555555555 :: 64 word) = val 2 (replicate 32 1)"
  "unat (0x3333333333333333 :: 64 word) = val 4 (replicate 16 3)"
  "unat (0x0f0f0f0f0f0f0f0f :: 64 word) = val 8 (replicate 8 15)"
proof -
  have "val 2 (replicate 32 1) = 0x5555555555555555" "val 4 (replicate 16 3) = 0x3333333333333333"
    "val 8 (replicate 8 15) = 0x0f0f0f0f0f0f0f0f" by code_simp+
  then show "unat (0x5555555555555555 :: 64 word) = val 2 (replicate 32 1)"
    "unat (0x3333333333333333 :: 64 word) = val 4 (replicate 16 3)"
    "unat (0x0f0f0f0f0f0f0f0f :: 64 word) = val 8 (replicate 8 15)" by simp_all
qed

lemma unat_drop_bit: "unat (drop_bit n (x :: 64 word)) = drop_bit n (unat x)"
  using unsigned_less[of x, where 'a = nat] by (simp add: unsigned_drop_bit_eq take_bit_nat_eq_self)

lemma unat_and: "unat ((x :: 64 word) AND y) = unat x AND unat y"
  by (rule unsigned_and_eq)

lemma unat_plus_small: "unat (x :: 64 word) + unat y < 2 ^ 64 \<Longrightarrow> unat (x + y) = unat x + unat y"
  by (simp add: unat_word_ariths)

lemma Curl_popcount64_ones: "Curl_popcount64 x = ones 64 (unat x)"
proof -
  have "unat x < (2 ^ 2) ^ 32" using unsigned_less[of x, where 'a = nat] by simp
  from digits_exist[OF this] obtain ds where ds: "length ds = 32" "list_all (\<lambda>d. d < 4) ds" "unat x = val 2 ds" by auto
  define r1 where "r1 = map round1 ds"
  define es where "es = pair_up 2 r1"
  define r2 where "r2 = map round2 es"
  define fs where "fs = pair_up 4 r2"
  define r3 where "r3 = map round3 fs"
  have r1: "list_all (\<lambda>d. d \<le> 2) r1" "length r1 = 32"
    using ds by (auto simp: r1_def round1_def list_all_iff)
  have es: "list_all (\<lambda>e. e < 16 \<and> e mod 4 \<le> 2 \<and> e div 4 \<le> 2) es" "length es = 16" "val 2 r1 = val 4 es"
    unfolding es_def using r1 val_pair_up[of r1 2]
    by (auto intro: pair_up_all[where P = "\<lambda>d. d \<le> 2" and b = 2])
  have r2: "list_all (\<lambda>d. d \<le> 4) r2" "length r2 = 16"
    using es by (auto simp: r2_def round2_def list_all_iff)
  have fs: "list_all (\<lambda>f. f mod 16 \<le> 4 \<and> f div 16 \<le> 4) fs" "length fs = 8" "val 4 r2 = val 8 fs"
    unfolding fs_def using r2 val_pair_up[of r2 4]
    by (auto intro: pair_up_all[where P = "\<lambda>d. d \<le> 4" and b = 4])
  have r3: "list_all (\<lambda>d. d \<le> 8) r3" "length r3 = 8"
    using fs by (auto simp: r3_def round3_def list_all_iff)
  define x1 where "x1 = x - (drop_bit 1 x AND 0x5555555555555555)"
  define x2 where "x2 = (x1 AND 0x3333333333333333) + (drop_bit 2 x1 AND 0x3333333333333333)"
  define x3 where "x3 = (x2 + drop_bit 4 x2) AND 0x0f0f0f0f0f0f0f0f"
  have y: "unat (drop_bit 1 x AND 0x5555555555555555) = drop_bit 1 (val 2 ds) AND val 2 (replicate (length ds) 1)"
    by (simp only: unat_and unat_drop_bit masks_val ds(1,3))
  then have "drop_bit 1 x AND 0x5555555555555555 \<le> x"
    unfolding word_le_nat_alt y using round1_val(1)[OF ds(2)] ds(3) by simp
  from unat_sub[OF this] have u1: "unat x1 = val 2 r1"
    unfolding y using round1_val(2)[OF ds(2)] ds(3) by (simp add: x1_def r1_def)
  have "list_all (\<lambda>d. d < 2 ^ 4) r2" using r2(1) by (auto simp: list_all_iff)
  from val_bound[OF this] have b2: "val 4 r2 < 2 ^ 64" using r2(2) by simp
  have "list_all (\<lambda>e. e < 16) es" using es(1) by (simp add: list_all_iff)
  from round2_val[OF this] have e2: "(val 4 es AND val 4 (replicate 16 3)) + (drop_bit 2 (val 4 es) AND val 4 (replicate 16 3)) = val 4 r2"
    using es(2) by (simp add: r2_def)
  have y2: "unat (x1 AND 0x3333333333333333) = val 4 es AND val 4 (replicate 16 3)"
    "unat (drop_bit 2 x1 AND 0x3333333333333333) = drop_bit 2 (val 4 es) AND val 4 (replicate 16 3)"
    by (simp_all only: unat_and unat_drop_bit masks_val u1 es(3))
  have u2: "unat x2 = val 4 r2"
    unfolding x2_def using b2 e2 by (subst unat_plus_small; simp only: y2)
  have "val 8 fs + drop_bit 4 (val 8 fs) < 2 ^ 64"
  proof -
    have "f + f < 256" if "f mod 16 \<le> 4" "f div 16 \<le> 4" for f :: nat
      using that div_mult_mod_eq[of f 16] by linarith
    then have "list_all (\<lambda>d. d < 2 ^ 8) (map (\<lambda>f. f + f) fs)" using fs(1) by (auto simp: list_all_iff)
    from val_bound[OF this] have "val 8 (map (\<lambda>f. f + f) fs) < 2 ^ 64" using fs(2) by simp
    then have "val 8 fs + val 8 fs < 2 ^ 64" using val_plus[of 8 "\<lambda>f. f" fs "\<lambda>f. f"] by simp
    moreover have "drop_bit 4 (val 8 fs) \<le> val 8 fs" by (simp add: drop_bit_eq_div)
    ultimately show ?thesis by linarith
  qed
  then have "unat (x2 + drop_bit 4 x2) = val 8 fs + drop_bit 4 (val 8 fs)"
    using u2 fs(3) by (subst unat_plus_small) (simp_all add: unat_drop_bit)
  then have u3: "unat x3 = val 8 r3"
    unfolding x3_def unat_and masks_val r3_def using round3_val[OF fs(1)] fs(2) by simp
  have "Curl_popcount64 x = unat (drop_bit 56 (x3 * 0x0101010101010101))"
    by (simp add: Curl_popcount64_def Let_def x1_def x2_def x3_def)
  also have "\<dots> = sum_list r3"
    using round4_val[OF r3(2,1)] u3 by (simp add: unat_drop_bit unat_word_ariths drop_bit_eq_div)
  also have "sum_list r3 = sum_list r2"
    unfolding r3_def fs_def using r2 by (intro sum_pair_up[where P = "\<lambda>d. d \<le> 4"]) (auto simp: round3_def)
  also have "sum_list r2 = sum_list r1"
    unfolding r2_def es_def using r1 by (intro sum_pair_up[where P = "\<lambda>d. d \<le> 2"]) (auto simp: round2_def)
  also have "sum_list r1 = ones 64 (unat x)" using ones_val4[OF ds(2)] ds(1,3) by (simp add: r1_def)
  finally show ?thesis .
qed

lemma ones_card: "ones 64 (unat (x :: 64 word)) = card {n. bit x n}"
proof -
  have b: "bit (unat x) n \<longleftrightarrow> bit x n" for n by (simp add: bit_unsigned_iff)
  have "{n. bit x n} = {n \<in> {..<64}. bit x n}" using bit_imp_le_length[of x] by auto
  then show ?thesis by (simp add: ones_def b sum.If_cases of_bool_def Int_def)
qed

section \<open>Properties\<close>

text \<open>
  The portable bit routines compute what they are named for, on every 64-bit word: the parallel
  count is the number of one bits, and the bisection finds the position of the lowest one bit, or
  64 when there is none.
\<close>

theorem bit_routines_exact:
  "Curl_popcount64 x = card {n. bit x n} \<and>
   (if x = 0 then Curl_ctz64 x = 64
    else bit x (Curl_ctz64 x) \<and> Curl_ctz64 x < 64 \<and> {m. m < Curl_ctz64 x \<and> bit x m} = {})"
  using Curl_popcount64_ones[of x] ones_card[of x] Curl_ctz64_lowest[of x] lowest_props[of x]
  by (auto simp: Curl_ctz64_def)

end
