(* ===== verification/Curl_Bset.thy ===== *)
theory Curl_Bset
  imports Curl_Bits
begin

text \<open>
  The bit set of unsigned integers of \<open>old/lib/uint-bset.c\<close> and \<open>uint-bset.h\<close>. Members, slot numbers
  and limits are 32-bit words and slots 64-bit words, so that every increment and shift has the
  width of the source. \<open>first_slot_used\<close> is a lower bound kept to speed up scans. The set a value of
  the type stands for is \<open>members\<close>, a set of naturals; counting ones and finding the lowest
  one are the routines of \<open>Curl_Bits\<close>.
\<close>

unbundle bit_operations_syntax

section \<open>Data and operations\<close>

record uint32_bset =
  slots :: "64 word list"
  nslots :: "32 word"
  first_slot_used :: "32 word"

definition UINT32_MAX :: "32 word" where "UINT32_MAX = 0xFFFFFFFF"

definition Curl_uint32_bset_init :: uint32_bset where
  "Curl_uint32_bset_init = \<lparr>slots = [], nslots = 0, first_slot_used = 0\<rparr>"

definition slots_for :: "32 word \<Rightarrow> 32 word" where
  "slots_for nmax = (if nmax < UINT32_MAX - 63 then (nmax + 63) div 64 else UINT32_MAX div 64)"

definition Curl_uint32_bset_resize :: "uint32_bset \<Rightarrow> 32 word \<Rightarrow> heap \<Rightarrow> CURLcode \<times> uint32_bset \<times> heap" where
  "Curl_uint32_bset_resize bset nmax h =
     (let n = slots_for nmax in
      if n \<noteq> nslots bset then
        (case request h of (ok, h) \<Rightarrow>
           if \<not> ok then (CURLE_OUT_OF_MEMORY, bset, h)
           else
             (CURLE_OK,
              \<lparr>slots = take (unat n) (slots bset) @ replicate (unat n - length (slots bset)) 0,
               nslots = n, first_slot_used = 0\<rparr>, h))
      else (CURLE_OK, bset, h))"

definition Curl_uint32_bset_destroy :: "uint32_bset \<Rightarrow> uint32_bset" where
  "Curl_uint32_bset_destroy bset = \<lparr>slots = [], nslots = 0, first_slot_used = 0\<rparr>"

definition uint32_bset_capacity :: "uint32_bset \<Rightarrow> 32 word" where
  "uint32_bset_capacity bset = nslots bset * 64"

definition Curl_uint32_bset_count :: "uint32_bset \<Rightarrow> nat" where
  "Curl_uint32_bset_count bset =
     foldl (\<lambda>n s. if s \<noteq> 0 then n + Curl_popcount64 s else n) 0 (take (unat (nslots bset)) (slots bset))"

text \<open>The scans: the first non-zero slot of a list whose first entry has number \<open>i\<close>.\<close>

fun scan :: "64 word list \<Rightarrow> nat \<Rightarrow> (nat \<times> 64 word) option" where
  "scan [] i = None"
| "scan (s # ss) i = (if s \<noteq> 0 then Some (i, s) else scan ss (Suc i))"

definition slots_from :: "uint32_bset \<Rightarrow> nat \<Rightarrow> 64 word list" where
  "slots_from bset i = drop i (take (unat (nslots bset)) (slots bset))"

definition Curl_uint32_bset_empty :: "uint32_bset \<Rightarrow> bool" where
  "Curl_uint32_bset_empty bset \<longleftrightarrow>
     scan (slots_from bset (unat (first_slot_used bset))) (unat (first_slot_used bset)) = None"

definition Curl_uint32_bset_clear :: "uint32_bset \<Rightarrow> uint32_bset" where
  "Curl_uint32_bset_clear bset =
     (if nslots bset \<noteq> 0
      then bset\<lparr>slots := replicate (length (slots bset)) 0, first_slot_used := UINT32_MAX\<rparr>
      else bset)"

definition Curl_uint32_bset_add :: "uint32_bset \<Rightarrow> 32 word \<Rightarrow> bool \<times> uint32_bset" where
  "Curl_uint32_bset_add bset i =
     (let islot = i div 64 in
      if islot \<ge> nslots bset then (False, bset)
      else
        let k = unat islot;
            bset = bset\<lparr>slots := (slots bset)[k := slots bset ! k OR push_bit (unat (i mod 64)) 1]\<rparr> in
        (True, if islot < first_slot_used bset then bset\<lparr>first_slot_used := islot\<rparr> else bset))"

definition Curl_uint32_bset_remove :: "uint32_bset \<Rightarrow> 32 word \<Rightarrow> uint32_bset" where
  "Curl_uint32_bset_remove bset i =
     (let islot = i div 64; k = unat islot in
      if islot < nslots bset
      then bset\<lparr>slots := (slots bset)[k := slots bset ! k AND NOT (push_bit (unat (i mod 64)) 1)]\<rparr>
      else bset)"

definition Curl_uint32_bset_contains :: "uint32_bset \<Rightarrow> 32 word \<Rightarrow> bool" where
  "Curl_uint32_bset_contains bset i =
     (let islot = i div 64 in
      if islot \<ge> nslots bset then False
      else (slots bset ! unat islot AND push_bit (unat (i mod 64)) 1) \<noteq> 0)"

definition Curl_uint32_bset_first :: "uint32_bset \<Rightarrow> bool \<times> 32 word \<times> uint32_bset" where
  "Curl_uint32_bset_first bset =
     (let start = unat (first_slot_used bset) in
      case scan (slots_from bset start) start of
        Some (i, s) \<Rightarrow>
          (True, of_nat i * 64 + of_nat (Curl_ctz64 s), bset\<lparr>first_slot_used := of_nat i\<rparr>)
      | None \<Rightarrow> (False, UINT32_MAX, bset\<lparr>first_slot_used := UINT32_MAX\<rparr>))"

definition Curl_uint32_bset_next :: "uint32_bset \<Rightarrow> 32 word \<Rightarrow> bool \<times> 32 word" where
  "Curl_uint32_bset_next bset last0 =
     (let last1 = last0 + 1; islot = last1 div 64 in
      if islot < nslots bset then
        let x = drop_bit (unat (last1 mod 64)) (slots bset ! unat islot) in
        if x \<noteq> 0 then (True, last1 + of_nat (Curl_ctz64 x))
        else case scan (slots_from bset (Suc (unat islot))) (Suc (unat islot)) of
               Some (i, s) \<Rightarrow> (True, of_nat i * 64 + of_nat (Curl_ctz64 s))
             | None \<Rightarrow> (False, UINT32_MAX)
      else (False, UINT32_MAX))"

section \<open>The set a bit set stands for\<close>

definition members :: "uint32_bset \<Rightarrow> nat set" where
  "members b = {n. n div 64 < length (slots b) \<and> bit (slots b ! (n div 64)) (n mod 64)}"

text \<open>The slot count is at most \<open>UINT32_MAX / 64\<close>, and the slots below the scan bound are zero.\<close>

definition bset_ok :: "uint32_bset \<Rightarrow> bool" where
  "bset_ok b \<longleftrightarrow> length (slots b) = unat (nslots b) \<and> unat (nslots b) \<le> 67108863 \<and>
     list_all (\<lambda>s. s = 0) (take (unat (first_slot_used b)) (slots b))"

abbreviation capacity :: "uint32_bset \<Rightarrow> nat" where
  "capacity b \<equiv> 64 * unat (nslots b)"

lemma unat_split64 [simp]: "unat ((i::32 word) div 64) = unat i div 64" "unat ((i::32 word) mod 64) = unat i mod 64"
  by (simp_all add: unat_div unat_mod)

lemma div64_less: "n div 64 < k \<longleftrightarrow> n < 64 * (k::nat)"
  by (simp add: less_mult_imp_div_less div_less_iff_less_mult mult.commute)

lemma slot_compare:
  "(i::32 word) div 64 \<ge> nslots b \<longleftrightarrow> capacity b \<le> unat i" "(i::32 word) div 64 < nslots b \<longleftrightarrow> unat i < capacity b"
  by (simp_all add: word_le_nat_alt word_less_nat_alt div64_less not_less[symmetric])

lemma members_bound: "bset_ok b \<Longrightarrow> n \<in> members b \<Longrightarrow> n < capacity b"
  by (simp add: members_def bset_ok_def div64_less)

lemma finite_members [simp]: "bset_ok b \<Longrightarrow> finite (members b)"
  by (rule finite_subset[of _ "{..<capacity b}"]) (auto dest: members_bound)

lemma capacity_bound: "bset_ok b \<Longrightarrow> capacity b \<le> 4294967232"
  by (simp add: bset_ok_def)

lemma member_slot: "k < length (slots b) \<Longrightarrow> m < 64 \<Longrightarrow> 64 * k + m \<in> members b \<longleftrightarrow> bit (slots b ! k) m"
  by (simp add: members_def)

lemma same_number: "(n::nat) div 64 = m div 64 \<Longrightarrow> n mod 64 = m mod 64 \<Longrightarrow> n = m"
  by (metis div_mult_mod_eq)

lemma contains_ok: "bset_ok b \<Longrightarrow> Curl_uint32_bset_contains b i \<longleftrightarrow> unat i \<in> members b"
  by (auto simp: Curl_uint32_bset_contains_def Let_def slot_compare members_def bset_ok_def div64_less
      bit_iff_and_push_bit_not_eq_0)

lemma member_update:
  assumes "k < length (slots b)"
  shows "n \<in> members (b\<lparr>slots := (slots b)[k := s], first_slot_used := f\<rparr>) \<longleftrightarrow>
    (if n div 64 = k then bit s (n mod 64) else n \<in> members b)"
  using assms by (simp add: members_def)

lemma same_slot: "n div 64 = m div 64 \<Longrightarrow> (n::nat) = m \<longleftrightarrow> n mod 64 = m mod 64"
  using same_number by blast

lemma members_first_slot [simp]: "members (b\<lparr>first_slot_used := f\<rparr>) = members b"
  by (simp add: members_def)

lemma zero_prefix_iff: "list_all (\<lambda>s. s = 0) (take n xs) \<longleftrightarrow> (\<forall>j<length xs. j < n \<longrightarrow> xs ! j = (0::64 word))"
  by (auto simp: list_all_length)

lemma bset_okD: "bset_ok b \<Longrightarrow> j < length (slots b) \<Longrightarrow> j < unat (first_slot_used b) \<Longrightarrow> slots b ! j = 0"
  by (simp add: bset_ok_def zero_prefix_iff)

text \<open>Changing the slot \<open>k\<close>, with the scan bound lowered to it when needed, keeps the invariant.\<close>

lemma bset_ok_update:
  assumes "bset_ok b" "unat f \<le> unat (first_slot_used b)" "s \<noteq> 0 \<Longrightarrow> unat f \<le> k"
  shows "bset_ok (b\<lparr>slots := (slots b)[k := s], first_slot_used := f\<rparr>)"
proof -
  have "(slots b)[k := s] ! j = 0" if "j < length (slots b)" "j < unat f" for j
    using that assms bset_okD[OF assms(1), of j] by (cases "j = k"; cases "s = 0") auto
  with assms(1) show ?thesis by (auto simp: bset_ok_def zero_prefix_iff)
qed

lemma add_ok:
  assumes "bset_ok b" "Curl_uint32_bset_add b i = (r, b')"
  shows "bset_ok b' \<and> nslots b' = nslots b \<and> (r \<longleftrightarrow> unat i < capacity b) \<and>
    members b' = (if unat i < capacity b then insert (unat i) (members b) else members b)"
proof (cases "unat i < capacity b")
  case False
  with assms show ?thesis by (auto simp: Curl_uint32_bset_add_def slot_compare Let_def)
next
  case True
  define k where "k = unat i div 64"
  define f where "f = (if i div 64 < first_slot_used b then i div 64 else first_slot_used b)"
  let ?s = "slots b ! k OR push_bit (unat i mod 64) 1"
  have k: "k < length (slots b)" using True assms(1) by (simp add: k_def bset_ok_def div64_less)
  have r: "r" and b': "b' = b\<lparr>slots := (slots b)[k := ?s], first_slot_used := f\<rparr>"
    using assms(2) True by (auto simp: Curl_uint32_bset_add_def slot_compare Let_def k_def f_def split: if_splits)
  have f: "unat f \<le> k" "unat f \<le> unat (first_slot_used b)"
    by (auto simp: f_def k_def word_less_nat_alt split: if_splits)
  have bit: "bit ?s m \<longleftrightarrow> bit (slots b ! k) m \<or> m = unat i mod 64" if "m < 64" for m
    using that by (auto simp: bit_simps)
  have "members b' = insert (unat i) (members b)"
  proof (rule set_eqI)
    fix n
    have m: "n \<in> members b \<longleftrightarrow> bit (slots b ! k) (n mod 64)" if "n div 64 = k" using that k by (simp add: members_def)
    show "n \<in> members b' \<longleftrightarrow> n \<in> insert (unat i) (members b)"
      unfolding b' member_update[OF k] using bit[of "n mod 64"] same_slot[of n "unat i"] m by (auto simp: k_def)
  qed
  moreover have "bset_ok b'" unfolding b' using bset_ok_update[OF assms(1) f(2)] f(1) by simp
  ultimately show ?thesis using r True by (auto simp: b')
qed

lemma remove_ok:
  assumes "bset_ok b"
  shows "bset_ok (Curl_uint32_bset_remove b i) \<and> nslots (Curl_uint32_bset_remove b i) = nslots b \<and>
    members (Curl_uint32_bset_remove b i) = members b - {unat i}"
proof (cases "unat i < capacity b")
  case False
  with assms show ?thesis by (auto simp: Curl_uint32_bset_remove_def slot_compare Let_def dest: members_bound)
next
  case True
  define k where "k = unat i div 64"
  let ?s = "slots b ! k AND NOT (push_bit (unat i mod 64) 1)"
  have k: "k < length (slots b)" using True assms by (simp add: k_def bset_ok_def div64_less)
  have b': "Curl_uint32_bset_remove b i = b\<lparr>slots := (slots b)[k := ?s], first_slot_used := first_slot_used b\<rparr>"
    using True by (simp add: Curl_uint32_bset_remove_def slot_compare Let_def k_def)
  have bit: "bit ?s m \<longleftrightarrow> bit (slots b ! k) m \<and> m \<noteq> unat i mod 64" if "m < 64" for m
    using that by (auto simp: bit_simps)
  have "members (Curl_uint32_bset_remove b i) = members b - {unat i}"
  proof (rule set_eqI)
    fix n
    have m: "n \<in> members b \<longleftrightarrow> bit (slots b ! k) (n mod 64)" if "n div 64 = k" using that k by (simp add: members_def)
    show "n \<in> members (Curl_uint32_bset_remove b i) \<longleftrightarrow> n \<in> members b - {unat i}"
      unfolding b' member_update[OF k] using bit[of "n mod 64"] same_slot[of n "unat i"] m by (auto simp: k_def)
  qed
  moreover have "?s \<noteq> 0 \<Longrightarrow> unat (first_slot_used b) \<le> k"
    using bset_okD[OF assms k] by (cases "k < unat (first_slot_used b)") auto
  ultimately show ?thesis unfolding b' using bset_ok_update[OF assms order_refl] by simp
qed

lemma clear_ok:
  assumes "bset_ok b"
  shows "bset_ok (Curl_uint32_bset_clear b) \<and> nslots (Curl_uint32_bset_clear b) = nslots b \<and> members (Curl_uint32_bset_clear b) = {}"
  using assms by (auto simp: Curl_uint32_bset_clear_def bset_ok_def members_def zero_prefix_iff)

lemma slots_for_bound: "unat (slots_for n) \<le> 67108863"
proof (cases "n < UINT32_MAX - 63")
  case True
  then have "unat n < 4294967232" by (simp add: word_less_nat_alt UINT32_MAX_def)
  then have "unat (n + 63) = unat n + 63" by (simp add: unat_word_ariths)
  with True \<open>unat n < 4294967232\<close> show ?thesis by (simp add: slots_for_def unat_div)
next
  case False
  then show ?thesis by (simp add: slots_for_def UINT32_MAX_def)
qed

lemma slots_for_capacity:
  assumes "unat n < 4294967232"
  shows "unat n \<le> 64 * unat (slots_for n)" "64 * unat (slots_for n) < unat n + 64"
proof -
  have "unat (n + 63) = unat n + 63" using assms by (simp add: unat_word_ariths)
  then have e: "unat (slots_for n) = (unat n + 63) div 64"
    using assms by (simp add: slots_for_def unat_div word_less_nat_alt UINT32_MAX_def)
  show "unat n \<le> 64 * unat (slots_for n)" "64 * unat (slots_for n) < unat n + 64" unfolding e by simp_all
qed

lemma resize_ok:
  assumes "bset_ok b" "Curl_uint32_bset_resize b n h = (r, b', h')"
  shows "bset_ok b' \<and>
    (if r = CURLE_OK then nslots b' = slots_for n \<and> members b' = {m \<in> members b. m < capacity b'}
     else r = CURLE_OUT_OF_MEMORY \<and> \<not> h 0 \<and> b' = b)"
proof (cases "slots_for n = nslots b")
  case True
  with assms members_bound[OF assms(1)] show ?thesis by (auto simp: Curl_uint32_bset_resize_def Let_def)
next
  case False
  show ?thesis
  proof (cases "h 0")
    case False
    with assms \<open>slots_for n \<noteq> nslots b\<close> show ?thesis
      by (auto simp: Curl_uint32_bset_resize_def Let_def request_def)
  next
    case True
    let ?k = "unat (slots_for n)"
    have b': "r = CURLE_OK" "b' = \<lparr>slots = take ?k (slots b) @ replicate (?k - length (slots b)) 0,
         nslots = slots_for n, first_slot_used = 0\<rparr>"
      using assms(2) True False by (auto simp: Curl_uint32_bset_resize_def Let_def request_def)
    have "members b' = {m \<in> members b. m < 64 * ?k}"
    proof (rule set_eqI)
      fix m
      show "m \<in> members b' \<longleftrightarrow> m \<in> {m \<in> members b. m < 64 * ?k}"
        unfolding b' members_def div64_less[symmetric]
        by (cases "m div 64 < length (slots b)"; cases "m div 64 < ?k") (auto simp: nth_append min_def)
    qed
    with b' slots_for_bound[of n] show ?thesis by (auto simp: bset_ok_def)
  qed
qed

section \<open>Scans\<close>

lemma scan_Some:
  "scan ss i = Some (j, s) \<Longrightarrow> i \<le> j \<and> j - i < length ss \<and> ss ! (j - i) = s \<and> s \<noteq> 0 \<and> (\<forall>k<j - i. ss ! k = 0)"
proof (induction ss i rule: scan.induct)
  case (2 t ss i)
  show ?case
  proof (cases "t = 0")
    case True
    with 2 have I: "Suc i \<le> j" "j - Suc i < length ss" "ss ! (j - Suc i) = s" "s \<noteq> 0" "\<forall>k<j - Suc i. ss ! k = 0" by auto
    then have "j - i = Suc (j - Suc i)" by simp
    with I True show ?thesis by (auto simp: less_Suc_eq_0_disj)
  qed (use 2 in auto)
qed simp

lemma scan_None: "scan ss i = None \<longleftrightarrow> (\<forall>s\<in>set ss. s = 0)"
  by (induction ss i rule: scan.induct) auto

text \<open>The first member at or above slot \<open>i\<close>.\<close>

lemma slots_from_eq: "bset_ok b \<Longrightarrow> slots_from b i = drop i (slots b)"
  by (simp add: slots_from_def bset_ok_def)

lemma scan_from_ok:
  assumes "bset_ok b"
  shows "case scan (slots_from b i) i of
      None \<Rightarrow> {n \<in> members b. 64 * i \<le> n} = {}
    | Some (j, s) \<Rightarrow> i \<le> j \<and> j < length (slots b) \<and> 64 * j + Curl_ctz64 s \<in> members b \<and> Curl_ctz64 s < 64 \<and>
        (\<forall>n\<in>members b. 64 * i \<le> n \<longrightarrow> 64 * j + Curl_ctz64 s \<le> n)"
proof (cases "scan (slots_from b i) i")
  case None
  have z: "slots b ! k = 0" if "i \<le> k" "k < length (slots b)" for k
  proof -
    have "drop i (slots b) ! (k - i) \<in> set (drop i (slots b))" using that by (intro nth_mem) simp
    with None that show ?thesis by (auto simp: scan_None slots_from_eq[OF assms])
  qed
  have "n \<notin> members b" if "64 * i \<le> n" for n
  proof -
    have "i \<le> n div 64" using that by (simp add: div64_less not_less[symmetric])
    with z[of "n div 64"] show ?thesis by (auto simp: members_def)
  qed
  with None show ?thesis by auto
next
  case (Some js)
  obtain j s where js: "js = (j, s)" by fastforce
  note S = scan_Some[OF Some[unfolded js]]
  then have j: "i \<le> j" "j < length (slots b)" "slots b ! j = s" "s \<noteq> 0" by (auto simp: slots_from_eq[OF assms])
  have z: "slots b ! k = 0" if "i \<le> k" "k < j" for k
  proof -
    have "k - i < j - i" using that by simp
    with S have "drop i (slots b) ! (k - i) = 0" by (simp add: slots_from_eq[OF assms])
    with that j show ?thesis by simp
  qed
  note L = lowest_props[OF j(4)]
  have c: "Curl_ctz64 s = lowest s" by (rule Curl_ctz64_lowest[OF j(4)])
  have "64 * j + lowest s \<le> n" if n: "n \<in> members b" "64 * i \<le> n" for n
  proof (rule ccontr)
    assume less: "\<not> 64 * j + lowest s \<le> n"
    have i: "i \<le> n div 64" using n(2) by (simp add: div64_less not_less[symmetric])
    show False
    proof (cases "n div 64 < j")
      case True
      with z[OF i] n(1) show False by (simp add: members_def)
    next
      case False
      with less L(2) have e: "n div 64 = j" by linarith
      have "n = 64 * (n div 64) + n mod 64" by simp
      with e less have "n mod 64 < lowest s" by linarith
      with L(3) n(1) e j(3) show False by (auto simp: members_def)
    qed
  qed
  with j L c Some js show ?thesis by (auto simp: members_def)
qed

section \<open>Iteration\<close>

lemma zero_slot:
  assumes "k < length (slots b)" "\<And>n. n \<in> members b \<Longrightarrow> n div 64 \<noteq> k"
  shows "slots b ! k = 0"
proof (rule ccontr)
  assume "slots b ! k \<noteq> 0"
  note L = lowest_props[OF this]
  from L assms(1) have "64 * k + lowest (slots b ! k) \<in> members b" by (simp add: member_slot)
  from assms(2)[OF this] L(2) show False by simp
qed

lemma members_above_first: "bset_ok b \<Longrightarrow> n \<in> members b \<Longrightarrow> 64 * unat (first_slot_used b) \<le> n"
  using bset_okD[of b "n div 64"] by (auto simp: members_def div64_less not_less[symmetric])

lemma scan_from_split:
  assumes "bset_ok b"
  obtains (none) "scan (slots_from b i) i = None" "{n \<in> members b. 64 * i \<le> n} = {}"
  | (found) j s where "scan (slots_from b i) i = Some (j, s)" "j < length (slots b)" "64 * j + Curl_ctz64 s \<in> members b"
      "Curl_ctz64 s < 64" "Min {n \<in> members b. 64 * i \<le> n} = 64 * j + Curl_ctz64 s" "{n \<in> members b. 64 * i \<le> n} \<noteq> {}"
proof (cases "scan (slots_from b i) i")
  case None
  with scan_from_ok[OF assms, of i] none show ?thesis by simp
next
  case (Some js)
  obtain j s where js: "js = (j, s)" by fastforce
  from scan_from_ok[OF assms, of i] Some js have S: "i \<le> j" "j < length (slots b)" "64 * j + Curl_ctz64 s \<in> members b"
    "Curl_ctz64 s < 64" "\<And>n. n \<in> members b \<Longrightarrow> 64 * i \<le> n \<Longrightarrow> 64 * j + Curl_ctz64 s \<le> n" by auto
  have "Min {n \<in> members b. 64 * i \<le> n} = 64 * j + Curl_ctz64 s"
    using S assms by (intro Min_eqI) (auto intro: finite_subset[OF _ finite_members[OF assms]])
  moreover have "64 * j + Curl_ctz64 s \<in> {n \<in> members b. 64 * i \<le> n}" using S by auto
  ultimately show ?thesis using found Some js S by blast
qed

lemma number_fits:
  assumes "bset_ok b" "j < length (slots b)" "c < 64"
  shows "unat (of_nat j * 64 + of_nat c :: 32 word) = 64 * j + c"
proof -
  have "j < 67108863" using assms(1,2) by (simp add: bset_ok_def)
  then have "64 * j + c < 2 ^ 32" using assms(3) by simp
  then have "unat (of_nat (64 * j + c) :: 32 word) = 64 * j + c"
    by (subst unat_of_nat) (simp add: take_bit_nat_eq_self)
  moreover have "of_nat j * 64 + of_nat c = (of_nat (64 * j + c) :: 32 word)" by simp
  ultimately show ?thesis by (simp only:)
qed

lemma first_ok:
  assumes "bset_ok b" "Curl_uint32_bset_first b = (r, x, b')"
  shows "bset_ok b' \<and> members b' = members b \<and> nslots b' = nslots b \<and>
    (if members b = {} then \<not> r \<and> x = UINT32_MAX else r \<and> unat x = Min (members b))"
proof -
  let ?i = "unat (first_slot_used b)"
  have all: "{n \<in> members b. 64 * ?i \<le> n} = members b" using members_above_first[OF assms(1)] by auto
  have len: "length (slots b) = unat (nslots b)" "unat (nslots b) \<le> 67108863" using assms(1) by (simp_all add: bset_ok_def)
  show ?thesis
  proof (cases rule: scan_from_split[OF assms(1), of ?i])
    case 1
    with all have e: "members b = {}" by simp
    have "bset_ok (b\<lparr>first_slot_used := UINT32_MAX\<rparr>)"
      using len zero_slot[of _ b] e by (auto simp: bset_ok_def zero_prefix_iff)
    with 1 e assms(2) show ?thesis by (auto simp: Curl_uint32_bset_first_def Let_def)
  next
    case (2 j s)
    have b': "r" "x = of_nat j * 64 + of_nat (Curl_ctz64 s)" "b' = b\<lparr>first_slot_used := of_nat j\<rparr>"
      using assms(2) 2(1) by (simp_all add: Curl_uint32_bset_first_def Let_def)
    have "unat x = Min (members b)" "members b \<noteq> {}" using b'(2) number_fits[OF assms(1) 2(2,4)] 2(5,6) all by simp_all
    moreover have "bset_ok b'"
    proof -
      have "unat (of_nat j :: 32 word) = j" using 2(2) len by (simp add: unat_of_nat take_bit_nat_eq_self)
      moreover have "slots b ! k = 0" if "k < length (slots b)" "k < j" for k
      proof (rule zero_slot[OF that(1)])
        fix n assume "n \<in> members b"
        then have "64 * j + Curl_ctz64 s \<le> n" using 2(5) all assms(1) by (metis Min_le finite_members)
        then show "n div 64 \<noteq> k" using that(2) by linarith
      qed
      ultimately show ?thesis using len by (simp add: b' bset_ok_def zero_prefix_iff)
    qed
    ultimately show ?thesis using b' by simp
  qed
qed

lemma next_from:
  assumes "bset_ok b" "Curl_uint32_bset_next b last0 = (r, x)"
  defines "S \<equiv> {n \<in> members b. unat (last0 + 1) \<le> n}"
  shows "if S = {} then \<not> r \<and> x = UINT32_MAX else r \<and> unat x = Min S"
proof -
  define l where "l = last0 + 1"
  define k where "k = unat l div 64"
  define m where "m = unat l mod 64"
  have l: "unat l = 64 * k + m" "m < 64" by (simp_all add: k_def m_def)
  have S: "S = {n \<in> members b. unat l \<le> n}" by (simp add: S_def l_def)
  have fin: "finite S" using finite_members[OF assms(1)] by (simp add: S)
  show ?thesis
  proof (cases "unat l < capacity b")
    case False
    then have "S = {}" using members_bound[OF assms(1)] unfolding S by (metis (no_types, lifting) Collect_empty_eq le_less_trans)
    with False assms(2) show ?thesis
      by (auto simp: Curl_uint32_bset_next_def Let_def slot_compare l_def[symmetric])
  next
    case True
    have kl: "k < length (slots b)" using True assms(1) by (simp add: bset_ok_def k_def div64_less)
    let ?x = "drop_bit m (slots b ! k)"
    note E = assms(2)[unfolded Curl_uint32_bset_next_def Let_def l_def[symmetric] slot_compare unat_split64 k_def[symmetric] m_def[symmetric]]
    show ?thesis
    proof (cases "?x = 0")
      case False
      note L = lowest_props[OF False]
      have b: "bit (slots b ! k) (m + lowest ?x)" using L(1) by (simp add: bit_simps)
      then have ml: "m + lowest ?x < 64" using bit_imp_le_length[of "slots b ! k"] by simp
      have in_S: "unat l + lowest ?x \<in> S"
        using member_slot[OF kl ml] b l by (simp add: S add.assoc)
      have le: "unat l + lowest ?x \<le> n" if n: "n \<in> S" for n
      proof (rule ccontr)
        assume c: "\<not> unat l + lowest ?x \<le> n"
        with n l ml have d: "n div 64 = k" by (auto simp: S)
        have "n = 64 * (n div 64) + n mod 64" by simp
        with d have n64: "n = 64 * k + n mod 64" by simp
        with n l have "m \<le> n mod 64" by (auto simp: S)
        moreover have "n mod 64 < m + lowest ?x"
        proof -
          have "n < 64 * k + m + lowest ?x" using c l(1) by simp
          with n64 show ?thesis by (metis add.assoc add_less_cancel_left)
        qed
        then have "n mod 64 - m < lowest ?x" using \<open>m \<le> n mod 64\<close> by (simp add: less_diff_conv2 add.commute)
        ultimately show False using L(3)[of "n mod 64 - m"] n d by (auto simp: bit_simps S members_def)
      qed
      have M: "Min S = unat l + lowest ?x" using fin in_S le by (intro Min_eqI) auto
      have "unat l + lowest ?x < 2 ^ 32" using in_S members_bound[OF assms(1)] capacity_bound[OF assms(1)] by (force simp: S)
      then have "unat (l + of_nat (lowest ?x)) = unat l + lowest ?x"
        by (simp add: unat_word_ariths unat_of_nat take_bit_nat_eq_self)
      with M E True False in_S Curl_ctz64_lowest[OF False] show ?thesis by (auto split: if_splits)
    next
      case z: True
      have "S = {n \<in> members b. 64 * Suc k \<le> n}"
      proof -
        have "64 * Suc k \<le> n" if n: "n \<in> members b" "unat l \<le> n" for n
        proof (rule ccontr)
          assume c: "\<not> 64 * Suc k \<le> n"
          with n l have "64 * k \<le> n" "n < 64 * Suc k" by simp_all
          then have d: "n div 64 = k" by (rule div_nat_eqI)
          have "n = 64 * (n div 64) + n mod 64" by simp
          with d n(2) l(1) have "64 * k + m \<le> 64 * k + n mod 64" by metis
          then have "m \<le> n mod 64" by simp
          moreover have "bit (slots b ! k) (n mod 64)" using n d by (simp add: members_def)
          ultimately have "bit ?x (n mod 64 - m)" by (simp add: bit_simps)
          with z show False by simp
        qed
        then show ?thesis using l by (auto simp: S)
      qed
      then show ?thesis
        using E True z by (cases rule: scan_from_split[OF assms(1), of "Suc k"])
          (auto simp: number_fits[OF assms(1)])
    qed
  qed
qed

section \<open>Counting\<close>

lemma popcount_card: "Curl_popcount64 x = card {n. bit x n}"
  using Curl_popcount64_ones ones_card by simp

lemma count_fold:
  "foldl (\<lambda>n s. if s \<noteq> 0 then n + Curl_popcount64 s else n) k ss = k + (\<Sum>i<length ss. card {n. bit (ss ! i) n})"
proof (induction ss arbitrary: k)
  case (Cons s ss)
  have "(if s \<noteq> 0 then k + Curl_popcount64 s else k) = k + card {n. bit s n}" by (simp add: popcount_card)
  with Cons show ?case by (simp only: foldl_Cons length_Cons sum.lessThan_Suc_shift nth_Cons_0 nth_Cons_Suc add.assoc)
qed simp

lemma count_ok:
  assumes "bset_ok b"
  shows "Curl_uint32_bset_count b = card (members b)"
proof -
  let ?B = "\<lambda>k. (\<lambda>m. 64 * k + m) ` {m. bit (slots b ! k) m}"
  have fin: "finite {m. bit s m}" for s :: "64 word"
    by (rule finite_subset[of _ "{..<64}"]) (use bit_imp_le_length[of s] in auto)
  have range: "m < 64" if "bit (slots b ! k) m" for k m using bit_imp_le_length[OF that] by simp
  have "members b = (\<Union>k<length (slots b). ?B k)"
  proof (intro set_eqI iffI)
    fix n assume "n \<in> members b"
    then show "n \<in> (\<Union>k<length (slots b). ?B k)"
      by (auto simp: members_def intro!: bexI[of _ "n div 64"] image_eqI[of _ _ "n mod 64"])
  next
    fix n assume "n \<in> (\<Union>k<length (slots b). ?B k)"
    then show "n \<in> members b" using range by (auto simp: member_slot)
  qed
  moreover have "card (\<Union>k<length (slots b). ?B k) = (\<Sum>k<length (slots b). card (?B k))"
  proof (rule card_UN_disjoint)
    show "\<forall>k\<in>{..<length (slots b)}. \<forall>j\<in>{..<length (slots b)}. k \<noteq> j \<longrightarrow> ?B k \<inter> ?B j = {}"
    proof (intro ballI impI)
      fix k j :: nat assume "k \<noteq> j"
      have "(64 * k + m) div 64 = k" if "bit (slots b ! k) m" for k m using range[OF that] by simp
      with \<open>k \<noteq> j\<close> show "?B k \<inter> ?B j = {}" by (auto, metis)
    qed
  qed (auto intro: fin)
  moreover have "card (?B k) = card {m. bit (slots b ! k) m}" for k by (rule card_image) (simp add: inj_on_def)
  ultimately show ?thesis using assms by (simp add: Curl_uint32_bset_count_def count_fold bset_ok_def)
qed

lemma empty_ok: "bset_ok b \<Longrightarrow> Curl_uint32_bset_empty b \<longleftrightarrow> members b = {}"
proof -
  assume ok: "bset_ok b"
  let ?i = "unat (first_slot_used b)"
  have "{n \<in> members b. 64 * ?i \<le> n} = members b" using members_above_first[OF ok] by auto
  then show ?thesis
    by (cases rule: scan_from_split[OF ok, of ?i]) (simp_all add: Curl_uint32_bset_empty_def)
qed

section \<open>The contract of an ordered set of numbers\<close>

text \<open>
  What the users of the set rely on when they walk it: the first number and, from any member, the
  next one. A walk with enough steps then lists the set in ascending order.
\<close>

fun walk :: "('b \<Rightarrow> nat \<Rightarrow> nat option) \<Rightarrow> 'b \<Rightarrow> nat \<Rightarrow> nat \<Rightarrow> nat list" where
  "walk nxt b 0 x = [x]"
| "walk nxt b (Suc fuel) x = x # (case nxt b x of None \<Rightarrow> [] | Some y \<Rightarrow> walk nxt b fuel y)"

locale ordered_numbers =
  fixes invar :: "'b \<Rightarrow> bool"
    and elems :: "'b \<Rightarrow> nat set"
    and fst_of :: "'b \<Rightarrow> nat option"
    and nxt :: "'b \<Rightarrow> nat \<Rightarrow> nat option"
  assumes finite_elems: "invar b \<Longrightarrow> finite (elems b)"
    and fst_law: "invar b \<Longrightarrow> fst_of b = (if elems b = {} then None else Some (Min (elems b)))"
    and nxt_law: "invar b \<Longrightarrow> x \<in> elems b \<Longrightarrow>
      nxt b x = (if {n \<in> elems b. x < n} = {} then None else Some (Min {n \<in> elems b. x < n}))"
begin

lemma walk_from:
  assumes "invar b" "x \<in> elems b" "card {n \<in> elems b. x < n} \<le> fuel"
  shows "walk nxt b fuel x = x # sorted_list_of_set {n \<in> elems b. x < n}"
  using assms(2,3)
proof (induction fuel arbitrary: x)
  case 0
  then have "{n \<in> elems b. x < n} = {}" using finite_elems[OF assms(1)] by simp
  then show ?case by (simp only: walk.simps sorted_list_of_set.sorted_key_list_of_set_empty)
next
  case (Suc fuel)
  let ?S = "{n \<in> elems b. x < n}"
  have fin: "finite ?S" using finite_elems[OF assms(1)] by simp
  show ?case
  proof (cases "?S = {}")
    case True
    then have "nxt b x = None" using nxt_law[OF assms(1) Suc.prems(1)] by auto
    moreover have "sorted_list_of_set ?S = []" unfolding True by simp
    ultimately show ?thesis by simp
  next
    case False
    let ?y = "Min ?S"
    have y: "?y \<in> ?S" using Min_in[OF fin False] .
    have rest: "{n \<in> elems b. ?y < n} = ?S - {?y}"
      using Min_le[OF fin] y by (auto simp: le_less)
    have "card (?S - {?y}) \<le> fuel" using Suc.prems(2) y fin by simp
    then have "walk nxt b fuel ?y = ?y # sorted_list_of_set (?S - {?y})"
      using Suc.IH[of ?y] y unfolding rest by simp
    moreover have "nxt b x = Some ?y" using nxt_law[OF assms(1) Suc.prems(1)] False by simp
    moreover have "sorted_list_of_set ?S = ?y # sorted_list_of_set (?S - {?y})"
      using sorted_list_of_set_nonempty[OF fin False] .
    ultimately show ?thesis by simp
  qed
qed

lemma walk_all:
  assumes "invar b" "fst_of b = Some x"
  shows "walk nxt b (card (elems b)) x = sorted_list_of_set (elems b)"
proof -
  let ?S = "elems b"
  have fin: "finite ?S" by (rule finite_elems[OF assms(1)])
  have ne: "?S \<noteq> {}" and x: "x = Min ?S" using assms fst_law[OF assms(1)] by (auto split: if_splits)
  have above: "{n \<in> ?S. x < n} = ?S - {x}" using Min_le[OF fin] x by (auto simp: le_less)
  have "x \<in> ?S" using Min_in[OF fin ne] x by simp
  then have "walk nxt b (card ?S) x = x # sorted_list_of_set (?S - {x})"
    using walk_from[OF assms(1), of x "card ?S"] fin above by (simp add: card_Diff1_le)
  then show ?thesis using sorted_list_of_set_nonempty[OF fin ne] x by simp
qed

end

definition bset_first_number :: "uint32_bset \<Rightarrow> nat option" where
  "bset_first_number b = (case Curl_uint32_bset_first b of (r, x, _) \<Rightarrow> if r then Some (unat x) else None)"

definition bset_next_number :: "uint32_bset \<Rightarrow> nat \<Rightarrow> nat option" where
  "bset_next_number b last0 = (case Curl_uint32_bset_next b (of_nat last0) of (r, x) \<Rightarrow> if r then Some (unat x) else None)"

lemma next_number_ok:
  assumes "bset_ok b" "x < 4294967295"
  shows "bset_next_number b x =
    (if {n \<in> members b. x < n} = {} then None else Some (Min {n \<in> members b. x < n}))"
proof -
  obtain r y where e: "Curl_uint32_bset_next b (of_nat x) = (r, y)" by fastforce
  have "unat (of_nat x + 1 :: 32 word) = Suc x"
  proof -
    have "unat (of_nat (Suc x) :: 32 word) = Suc x"
      by (subst unat_of_nat) (use assms(2) in \<open>simp add: take_bit_nat_eq_self\<close>)
    then show ?thesis by (simp add: add.commute)
  qed
  with next_from[OF assms(1) e] e show ?thesis by (auto simp: bset_next_number_def Suc_le_eq split: if_splits)
qed

interpretation bset: ordered_numbers bset_ok members bset_first_number bset_next_number
proof (unfold_locales, goal_cases)
  case (1 b)
  then show ?case by (rule finite_members)
next
  case (2 b)
  obtain r x b' where e: "Curl_uint32_bset_first b = (r, x, b')" by (metis prod_cases3)
  with first_ok[OF 2 e] show ?case by (auto simp: bset_first_number_def split: if_splits)
next
  case (3 b x)
  then have "x < 4294967295" using members_bound[OF 3] capacity_bound[OF 3(1)] by simp
  with 3(1) show ?case by (rule next_number_ok)
qed

section \<open>Properties\<close>

text \<open>
  The bit set is a set of numbers: adding below the capacity inserts, and is refused above it
  without a change, removing deletes, clearing empties, and containment, emptiness and the count
  report membership and cardinality; the representation stays well formed.
\<close>

theorem bset_refines_set:
  assumes "bset_ok b"
  shows "Curl_uint32_bset_contains b i = (unat i \<in> members b) \<and>
    Curl_uint32_bset_empty b = (members b = {}) \<and> Curl_uint32_bset_count b = card (members b) \<and>
    (case Curl_uint32_bset_add b i of (r, b') \<Rightarrow> bset_ok b' \<and> (r \<longleftrightarrow> unat i < 64 * unat (nslots b)) \<and>
       members b' = (if r then insert (unat i) (members b) else members b)) \<and>
    bset_ok (Curl_uint32_bset_remove b i) \<and> members (Curl_uint32_bset_remove b i) = members b - {unat i} \<and>
    bset_ok (Curl_uint32_bset_clear b) \<and> members (Curl_uint32_bset_clear b) = {}"
proof -
  obtain r b' where a: "Curl_uint32_bset_add b i = (r, b')" by fastforce
  with add_ok[OF assms a] contains_ok[OF assms] empty_ok[OF assms] count_ok[OF assms] remove_ok[OF assms] clear_ok[OF assms]
  show ?thesis by auto
qed

definition sample_bset :: uint32_bset where
  "sample_bset = snd (Curl_uint32_bset_add (snd (Curl_uint32_bset_add
     (fst (snd (Curl_uint32_bset_resize Curl_uint32_bset_init 100 (\<lambda>_. True)))) 70)) 3)"

lemma sample_bset_ok: "bset_ok sample_bset"
  by code_simp

theorem bset_refines_set_witness:
  "Curl_uint32_bset_count sample_bset = card (members sample_bset) \<and> 70 \<in> members sample_bset"
proof -
  have "Curl_uint32_bset_contains sample_bset 70" by code_simp
  with bset_refines_set[OF sample_bset_ok, of 70] show ?thesis by simp
qed

text \<open>
  Walking a non-empty set from its first number with the next operation visits every member
  exactly once, in ascending order, within as many steps as it has members.
\<close>

theorem bset_walk_sorted:
  assumes "bset_ok b" "bset_first_number b = Some x"
  shows "walk bset_next_number b (card (members b)) x = sorted_list_of_set (members b)"
  by (rule bset.walk_all[OF assms])

theorem bset_walk_sorted_witness:
  "walk bset_next_number sample_bset (card (members sample_bset)) 3 = sorted_list_of_set (members sample_bset) \<and>
   walk bset_next_number sample_bset 2 3 = [3, 70]"
proof -
  have "bset_first_number sample_bset = Some 3" "walk bset_next_number sample_bset 2 3 = [3, 70]" by code_simp+
  with bset_walk_sorted[OF sample_bset_ok] show ?thesis by simp
qed

text \<open>
  Looking for the number after \<open>UINT32_MAX\<close> wraps around: the increment overflows to zero and
  the smallest member is returned as the next one, although no number can be greater.
\<close>

theorem bset_next_wraps:
  assumes "bset_ok b" "n \<in> members b"
  shows "\<exists>x. Curl_uint32_bset_next b UINT32_MAX = (True, x) \<and> unat x = Min (members b)"
proof -
  obtain r x where e: "Curl_uint32_bset_next b UINT32_MAX = (r, x)" by fastforce
  have "unat (UINT32_MAX + 1) = 0" by (simp add: UINT32_MAX_def)
  with next_from[OF assms(1) e] e assms(2) show ?thesis by (auto split: if_splits)
qed

theorem bset_next_wraps_witness: "\<exists>x. Curl_uint32_bset_next sample_bset UINT32_MAX = (True, x) \<and> unat x = Min (members sample_bset)"
proof -
  have "Curl_uint32_bset_contains sample_bset 70" by code_simp
  then have "unat (70 :: 32 word) \<in> members sample_bset" using contains_ok[OF sample_bset_ok] by simp
  from bset_next_wraps[OF sample_bset_ok this] show ?thesis .
qed

end
