(* ===== verification/Curl_Uint_Table.thy ===== *)
theory Curl_Uint_Table
  imports Curl_Chains Curl_Bset
begin

text \<open>
  The table of entries by 32-bit key of \<open>old/lib/uint-table.c\<close> and \<open>uint-table.h\<close>, in which a
  multi handle keeps its transfers: rows hold an entry or the null pointer, and an added entry gets
  the next free key, round robin. Keys and counters are 32-bit words, so that the increments of the
  search wrap as they do in the source; an access beyond the rows is undefined and makes the
  operation \<open>None\<close>, which the invariant excludes. Operations return the destructor calls they make.
\<close>

section \<open>Data and operations\<close>

record 'e uint32_tbl =
  rows :: "'e option list"
  entry_dtor :: bool
  nrows :: "32 word"
  nentries :: "32 word"
  last_key_added :: "32 word"

definition Curl_uint32_tbl_init :: "bool \<Rightarrow> 'e uint32_tbl" where
  "Curl_uint32_tbl_init d = \<lparr>rows = [], entry_dtor = d, nrows = 0, nentries = 0, last_key_added = UINT32_MAX\<rparr>"

fun clear_rows_loop :: "'e uint32_tbl \<Rightarrow> nat list \<Rightarrow> (nat \<times> 'e) list \<times> 'e uint32_tbl" where
  "clear_rows_loop tbl [] = ([], tbl)"
| "clear_rows_loop tbl (i # is) =
     (case rows tbl ! i of
        None \<Rightarrow> clear_rows_loop tbl is
      | Some e \<Rightarrow>
          let gone = (if entry_dtor tbl then [(i, e)] else []);
              (rest, tbl) = clear_rows_loop (tbl\<lparr>rows := (rows tbl)[i := None], nentries := nentries tbl - 1\<rparr>) is in
          (gone @ rest, tbl))"

definition uint32_tbl_clear_rows :: "'e uint32_tbl \<Rightarrow> 32 word \<Rightarrow> 32 word \<Rightarrow> (nat \<times> 'e) list \<times> 'e uint32_tbl" where
  "uint32_tbl_clear_rows tbl from upto_excluding =
     clear_rows_loop tbl [unat from..<unat (min upto_excluding (nrows tbl))]"

definition Curl_uint32_tbl_resize ::
    "'e uint32_tbl \<Rightarrow> 32 word \<Rightarrow> heap \<Rightarrow> CURLcode \<times> (nat \<times> 'e) list \<times> 'e uint32_tbl \<times> heap" where
  "Curl_uint32_tbl_resize tbl n m =
     (if n = 0 then (CURLE_BAD_FUNCTION_ARGUMENT, [], tbl, m)
      else if n \<noteq> nrows tbl then
        (case request m of (ok, m) \<Rightarrow>
           if \<not> ok then (CURLE_OUT_OF_MEMORY, [], tbl, m)
           else
             let copy = take (unat (min n (nrows tbl))) (rows tbl);
                 new = copy @ replicate (unat n - length copy) None;
                 (gone, tbl) = (if n < nrows tbl then uint32_tbl_clear_rows tbl n (nrows tbl) else ([], tbl)) in
             (CURLE_OK, gone, tbl\<lparr>rows := new, nrows := n\<rparr>, m))
      else (CURLE_OK, [], tbl, m))"

definition uint32_tbl_clear :: "'e uint32_tbl \<Rightarrow> (nat \<times> 'e) list \<times> 'e uint32_tbl" where
  "uint32_tbl_clear tbl =
     (case uint32_tbl_clear_rows tbl 0 (nrows tbl) of (gone, tbl) \<Rightarrow> (gone, tbl\<lparr>last_key_added := UINT32_MAX\<rparr>))"

definition Curl_uint32_tbl_destroy :: "'e uint32_tbl \<Rightarrow> (nat \<times> 'e) list \<times> 'e uint32_tbl" where
  "Curl_uint32_tbl_destroy tbl =
     (case uint32_tbl_clear tbl of (gone, tbl) \<Rightarrow>
        (gone, \<lparr>rows = [], entry_dtor = False, nrows = 0, nentries = 0, last_key_added = 0\<rparr>))"

definition Curl_uint32_tbl_capacity :: "'e uint32_tbl \<Rightarrow> 32 word" where
  "Curl_uint32_tbl_capacity tbl = nrows tbl"

definition Curl_uint32_tbl_count :: "'e uint32_tbl \<Rightarrow> 32 word" where
  "Curl_uint32_tbl_count tbl = nentries tbl"

definition Curl_uint32_tbl_get :: "'e uint32_tbl \<Rightarrow> 32 word \<Rightarrow> 'e option" where
  "Curl_uint32_tbl_get tbl key = (if key < nrows tbl then rows tbl ! unat key else None)"

text \<open>
  The search for a free row: \<open>Some (Some k)\<close> when row \<open>k\<close> is free, \<open>Some None\<close> when the rows looked at
  are all taken, and \<open>None\<close> when the search reads a row beyond the array.
\<close>

fun find_free :: "'e option list \<Rightarrow> nat list \<Rightarrow> nat option option" where
  "find_free rs [] = Some None"
| "find_free rs (k # ks) =
     (if length rs \<le> k then None else if rs ! k = None then Some (Some k) else find_free rs ks)"

definition put_row :: "'e uint32_tbl \<Rightarrow> 'e \<Rightarrow> nat \<Rightarrow> 'e uint32_tbl" where
  "put_row tbl entry k =
     tbl\<lparr>rows := (rows tbl)[k := Some entry], nentries := nentries tbl + 1, last_key_added := of_nat k\<rparr>"

definition start_pos :: "'e uint32_tbl \<Rightarrow> 32 word" where
  "start_pos tbl = min (last_key_added tbl) (nrows tbl) + 1"

text \<open>The result is the return value and the key written to \<open>*pkey\<close>, when it is written.\<close>

definition Curl_uint32_tbl_add ::
    "'e uint32_tbl \<Rightarrow> 'e option \<Rightarrow> bool \<Rightarrow> (bool \<times> 32 word option \<times> 'e uint32_tbl) option" where
  "Curl_uint32_tbl_add tbl entry pkey =
     (case entry of
        None \<Rightarrow> Some (False, None, tbl)
      | Some e \<Rightarrow>
          if \<not> pkey then Some (False, None, tbl)
          else if nentries tbl = nrows tbl then Some (False, Some UINT32_MAX, tbl)
          else do {
            first \<leftarrow> find_free (rows tbl) [unat (start_pos tbl)..<unat (nrows tbl)];
            case first of
              Some k \<Rightarrow> Some (True, Some (of_nat k), put_row tbl e k)
            | None \<Rightarrow> do {
                second \<leftarrow> find_free (rows tbl) [0..<unat (start_pos tbl)];
                case second of
                  Some k \<Rightarrow> Some (True, Some (of_nat k), put_row tbl e k)
                | None \<Rightarrow> Some (False, Some UINT32_MAX, tbl)
              }
          })"

definition Curl_uint32_tbl_remove :: "'e uint32_tbl \<Rightarrow> 32 word \<Rightarrow> (nat \<times> 'e) list \<times> 'e uint32_tbl" where
  "Curl_uint32_tbl_remove tbl key = uint32_tbl_clear_rows tbl key (key + 1)"

definition Curl_uint32_tbl_contains :: "'e uint32_tbl \<Rightarrow> 32 word \<Rightarrow> bool" where
  "Curl_uint32_tbl_contains tbl key = (if key < nrows tbl then rows tbl ! unat key \<noteq> None else False)"

fun scan_rows :: "'e option list \<Rightarrow> nat list \<Rightarrow> (nat \<times> 'e) option" where
  "scan_rows rs [] = None"
| "scan_rows rs (k # ks) = (case rs ! k of Some e \<Rightarrow> Some (k, e) | None \<Rightarrow> scan_rows rs ks)"

definition uint32_tbl_next_at :: "'e uint32_tbl \<Rightarrow> 32 word \<Rightarrow> bool \<times> 32 word \<times> 'e option" where
  "uint32_tbl_next_at tbl key =
     (case scan_rows (rows tbl) [unat key..<unat (nrows tbl)] of
        Some (k, e) \<Rightarrow> (True, of_nat k, Some e)
      | None \<Rightarrow> (False, UINT32_MAX, None))"

text \<open>The two iterators, for callers that pass both result pointers.\<close>

definition Curl_uint32_tbl_first :: "'e uint32_tbl \<Rightarrow> bool \<times> 32 word \<times> 'e option" where
  "Curl_uint32_tbl_first tbl =
     (if nentries tbl \<noteq> 0 then
        (case uint32_tbl_next_at tbl 0 of (r, k, e) \<Rightarrow> if r then (True, k, e) else (False, UINT32_MAX, None))
      else (False, UINT32_MAX, None))"

definition Curl_uint32_tbl_next :: "'e uint32_tbl \<Rightarrow> 32 word \<Rightarrow> bool \<times> 32 word \<times> 'e option" where
  "Curl_uint32_tbl_next tbl last_key =
     (case uint32_tbl_next_at tbl (last_key + 1) of (r, k, e) \<Rightarrow> if r then (True, k, e) else (False, UINT32_MAX, None))"

section \<open>The map a table stands for\<close>

definition taken :: "'e option list \<Rightarrow> nat set" where
  "taken rs = {k. k < length rs \<and> rs ! k \<noteq> None}"

definition tbl_ok :: "'e uint32_tbl \<Rightarrow> bool" where
  "tbl_ok tbl \<longleftrightarrow> length (rows tbl) = unat (nrows tbl) \<and> unat (nentries tbl) = card (taken (rows tbl))"

definition entries :: "'e uint32_tbl \<Rightarrow> 32 word \<rightharpoonup> 'e" where
  "entries tbl key = (if unat key < length (rows tbl) then rows tbl ! unat key else None)"

lemma finite_taken [simp]: "finite (taken rs)"
  by (rule finite_subset[of _ "{..<length rs}"]) (auto simp: taken_def)

lemma taken_update: "k < length rs \<Longrightarrow> taken (rs[k := x]) = (if x = None then taken rs - {k} else insert k (taken rs))"
  by (auto simp: taken_def nth_list_update)

lemma card_taken_le: "card (taken rs) \<le> length rs"
  using card_mono[of "{..<length rs}" "taken rs"] by (auto simp: taken_def)

lemma taken_full: "card (taken rs) = length rs \<longleftrightarrow> taken rs = {..<length rs}"
proof
  assume "card (taken rs) = length rs"
  then have "card (taken rs) = card {..<length rs}" by simp
  then show "taken rs = {..<length rs}" by (intro card_subset_eq) (auto simp: taken_def)
qed simp

lemma keys_taken: "dom (entries tbl) = {k. unat k \<in> taken (rows tbl)}"
  by (auto simp: entries_def taken_def dom_def split: if_splits)

lemma keys_taken_nat: "tbl_ok tbl \<Longrightarrow> unat ` dom (entries tbl) = taken (rows tbl)"
proof -
  assume ok: "tbl_ok tbl"
  have "k \<in> unat ` {k :: 32 word. unat k \<in> taken (rows tbl)}" if k: "k \<in> taken (rows tbl)" for k
  proof -
    have "k < unat (nrows tbl)" using k ok by (simp add: taken_def tbl_ok_def)
    then have "unat (of_nat k :: 32 word) = k" by (intro le_unat_uoi less_imp_le)
    with k show ?thesis by (metis (mono_tags, lifting) image_eqI mem_Collect_eq)
  qed
  then show ?thesis by (auto simp: keys_taken)
qed

lemma count_entries: "tbl_ok tbl \<Longrightarrow> unat (nentries tbl) = card (dom (entries tbl))"
  using card_image[of unat "dom (entries tbl)"] keys_taken_nat[of tbl] by (simp add: tbl_ok_def inj_on_def word_unat_eq_iff)

lemma nentries_le: "tbl_ok tbl \<Longrightarrow> nentries tbl \<le> nrows tbl"
  using card_taken_le[of "rows tbl"] by (simp add: tbl_ok_def word_le_nat_alt)

section \<open>Adding\<close>

lemma find_free_None: "find_free rs ks = Some None \<longleftrightarrow> (\<forall>k\<in>set ks. k \<in> taken rs)"
  by (induction ks) (auto simp: taken_def)

lemma find_free_Some:
  "find_free rs ks = Some (Some k) \<Longrightarrow>
     k \<in> set ks \<and> k < length rs \<and> k \<notin> taken rs \<and> (\<forall>j\<in>set (takeWhile (\<lambda>j. j \<noteq> k) ks). j \<in> taken rs)"
  by (induction ks) (auto simp: taken_def split: if_splits)

lemma find_free_bounded:
  "(\<exists>k\<in>set ks. k < length rs \<and> k \<notin> taken rs) \<and> sorted_wrt (<) ks \<or> (\<forall>k\<in>set ks. k < length rs) \<Longrightarrow>
    find_free rs ks \<noteq> None"
proof (induction ks)
  case (Cons j ks)
  have "j < length rs" using Cons.prems by (auto dest: less_trans)
  with Cons show ?case by (auto simp: taken_def)
qed simp

lemma takeWhile_upt: "a \<le> k \<Longrightarrow> k < b \<Longrightarrow> takeWhile (\<lambda>j. j \<noteq> k) [a..<b] = [a..<k]"
proof -
  assume "a \<le> k" "k < b"
  then have "[a..<b] = [a..<k] @ k # [Suc k..<b]" by (metis less_imp_le_nat upt_add_eq_append upt_conv_Cons le_Suc_ex)
  then show ?thesis by (simp add: takeWhile_tail)
qed

lemma unat_lt2p_32: "unat (x :: 32 word) < 4294967296"
  using unsigned_less[of x, where 'a = nat] by simp

lemma put_row_ok:
  assumes "tbl_ok tbl" "k < length (rows tbl)" "k \<notin> taken (rows tbl)"
  shows "tbl_ok (put_row tbl e k) \<and> entries (put_row tbl e k) = (entries tbl)(of_nat k \<mapsto> e)"
proof -
  have k: "unat (of_nat k :: 32 word) = k" using assms(1,2) by (intro le_unat_uoi[of _ "nrows tbl"]) (simp add: tbl_ok_def)
  have "card (taken (rows tbl)) < length (rows tbl)"
    using card_taken_le[of "rows tbl"] taken_full[of "rows tbl"] assms(2,3) by (auto simp: le_less)
  then have "unat (nentries tbl) < unat (nrows tbl)" using assms(1) by (simp add: tbl_ok_def)
  then have "unat (nentries tbl + 1) = Suc (unat (nentries tbl))"
    using unat_lt2p_32[of "nrows tbl"] by (simp add: unat_word_ariths)
  then have "tbl_ok (put_row tbl e k)" using assms by (simp add: tbl_ok_def put_row_def taken_update)
  moreover have "entries (put_row tbl e k) j = ((entries tbl)(of_nat k \<mapsto> e)) j" for j
    using assms(2) k by (auto simp: entries_def put_row_def nth_list_update)
  ultimately show ?thesis by blast
qed

text \<open>Free rows in the cyclic order of the search: first those from the start on, then from row 0.\<close>

definition next_key :: "'e uint32_tbl \<Rightarrow> nat" where
  "next_key tbl = (let free = {k. k < length (rows tbl)} - taken (rows tbl); s = unat (start_pos tbl) in
     if {k \<in> free. s \<le> k} \<noteq> {} then Min {k \<in> free. s \<le> k} else Min free)"

lemma find_free_upt:
  assumes "find_free rs [a..<b] = Some (Some k)"
  shows "k < length rs \<and> k \<notin> taken rs \<and> a \<le> k \<and> k < b \<and> (\<forall>j. a \<le> j \<and> j < k \<longrightarrow> j \<in> taken rs)"
  using find_free_Some[OF assms] takeWhile_upt[of a k b] by auto

lemma add_ok_tbl:
  assumes ok: "tbl_ok tbl" and room: "nentries tbl \<noteq> nrows tbl"
  shows "Curl_uint32_tbl_add tbl (Some e) True = Some (True, Some (of_nat (next_key tbl)), put_row tbl e (next_key tbl)) \<and>
    next_key tbl < length (rows tbl) \<and> next_key tbl \<notin> taken (rows tbl)"
proof -
  let ?rs = "rows tbl" and ?n = "unat (nrows tbl)" and ?s = "unat (start_pos tbl)"
  define free where "free = {k. k < length ?rs} - taken ?rs"
  have len: "length ?rs = ?n" using ok by (simp add: tbl_ok_def)
  have "taken ?rs \<noteq> {..<length ?rs}" using ok room taken_full[of ?rs] by (auto simp: tbl_ok_def word_unat_eq_iff)
  moreover have "taken ?rs \<subseteq> {..<length ?rs}" by (auto simp: taken_def)
  ultimately obtain f where f: "f \<in> free" unfolding free_def by blast
  have fin: "finite free" by (simp add: free_def)
  obtain r where r: "find_free ?rs [?s..<?n] = Some r" using find_free_bounded[of "[?s..<?n]" ?rs] len by auto
  show ?thesis
  proof (cases r)
    case (Some k)
    note F = find_free_upt[OF r[unfolded Some]]
    have "{k \<in> free. ?s \<le> k} \<noteq> {}" using F by (auto simp: free_def)
    moreover have "Min {k \<in> free. ?s \<le> k} = k" using F fin by (intro Min_eqI) (auto simp: free_def not_less[symmetric])
    ultimately have "next_key tbl = k" by (simp add: next_key_def Let_def free_def)
    with F r Some room show ?thesis by (simp add: Curl_uint32_tbl_add_def)
  next
    case None
    then have high: "k \<in> taken ?rs" if "?s \<le> k" "k < ?n" for k using r that find_free_None[of ?rs "[?s..<?n]"] by auto
    then have none: "{k \<in> free. ?s \<le> k} = {}" using len by (auto simp: free_def)
    have fs: "f < ?s" using f none by (auto simp: not_less[symmetric])
    have "find_free ?rs [0..<?s] \<noteq> None"
      by (rule find_free_bounded) (use f fs in \<open>auto simp: free_def\<close>)
    then obtain r2 where r2: "find_free ?rs [0..<?s] = Some r2" by auto
    moreover have "r2 \<noteq> None"
    proof
      assume "r2 = None"
      with r2 find_free_None[of ?rs "[0..<?s]"] fs f show False by (auto simp: free_def)
    qed
    ultimately obtain k where k: "find_free ?rs [0..<?s] = Some (Some k)" by auto
    note F = find_free_upt[OF k]
    have "Min free = k" using F fin by (intro Min_eqI) (auto simp: free_def not_less[symmetric])
    then have "next_key tbl = k" using none unfolding next_key_def Let_def free_def[symmetric] by (simp only: simp_thms if_False)
    with F r None k room show ?thesis by (simp add: Curl_uint32_tbl_add_def)
  qed
qed

section \<open>Clearing and resizing\<close>

lemma clear_rows_loop_ok:
  assumes "tbl_ok tbl" "clear_rows_loop tbl ks = (gone, tbl')" "\<forall>k\<in>set ks. k < length (rows tbl)" "distinct ks"
  shows "tbl_ok tbl' \<and> nrows tbl' = nrows tbl \<and> entry_dtor tbl' = entry_dtor tbl \<and> last_key_added tbl' = last_key_added tbl \<and>
    rows tbl' = map (\<lambda>k. if k \<in> set ks then None else rows tbl ! k) [0..<length (rows tbl)] \<and>
    gone = (if entry_dtor tbl then [(k, the (rows tbl ! k)). k \<leftarrow> ks, rows tbl ! k \<noteq> None] else [])"
  using assms
proof (induction ks arbitrary: tbl gone)
  case Nil
  then show ?case by (auto simp: map_nth)
next
  case (Cons k ks)
  show ?case
  proof (cases "rows tbl ! k")
    case None
    with Cons.prems have "clear_rows_loop tbl ks = (gone, tbl')" by simp
    with Cons.IH[of tbl gone] Cons.prems None show ?thesis by auto
  next
    case (Some e)
    define tbl1 where "tbl1 = tbl\<lparr>rows := (rows tbl)[k := None], nentries := nentries tbl - 1\<rparr>"
    obtain rest tbl2 where r: "clear_rows_loop tbl1 ks = (rest, tbl2)" by fastforce
    have g: "gone = (if entry_dtor tbl then [(k, e)] else []) @ rest" "tbl' = tbl2"
      using Cons.prems(2) Some r by (simp_all add: tbl1_def Let_def)
    have k: "k \<in> taken (rows tbl)" using Some Cons.prems(3) by (simp add: taken_def)
    then have "unat (nentries tbl) = Suc (unat (nentries tbl - 1))"
    proof -
      have n0: "unat (nentries tbl) \<noteq> 0" using Cons.prems(1) k by (auto simp: tbl_ok_def)
      then have "nentries tbl \<noteq> 0" by auto
      from unat_minus_one[OF this] n0 show ?thesis by simp
    qed
    then have ok1: "tbl_ok tbl1"
      using Cons.prems(1,3) k by (auto simp: tbl_ok_def tbl1_def taken_update)
    note IH = Cons.IH[OF ok1 r[folded g(2)]]
    have "rows tbl1 ! j = rows tbl ! j" if "j \<in> set ks" for j
      using that Cons.prems(4) by (cases "j = k") (simp_all add: tbl1_def)
    then have c: "[(j, the (rows tbl1 ! j)). j \<leftarrow> ks, rows tbl1 ! j \<noteq> None] = [(j, the (rows tbl ! j)). j \<leftarrow> ks, rows tbl ! j \<noteq> None]"
      by (intro arg_cong[of _ _ concat] map_cong) auto
    have "map (\<lambda>j. if j \<in> set ks then None else rows tbl1 ! j) [0..<length (rows tbl1)] =
      map (\<lambda>j. if j \<in> set (k # ks) then None else rows tbl ! j) [0..<length (rows tbl)]"
      by (intro map_cong) (auto simp: tbl1_def)
    with IH Cons.prems g c Some show ?thesis by (simp add: tbl1_def)
  qed
qed

lemma clear_rows_ok:
  assumes ok: "tbl_ok tbl" and c: "uint32_tbl_clear_rows tbl from lim = (gone, tbl')"
  shows "tbl_ok tbl' \<and> nrows tbl' = nrows tbl \<and> entry_dtor tbl' = entry_dtor tbl \<and> last_key_added tbl' = last_key_added tbl \<and>
    rows tbl' = map (\<lambda>k. if unat from \<le> k \<and> k < unat lim then None else rows tbl ! k) [0..<length (rows tbl)] \<and>
    gone = (if entry_dtor tbl
            then [(k, the (rows tbl ! k)). k \<leftarrow> [unat from..<min (unat lim) (unat (nrows tbl))], rows tbl ! k \<noteq> None] else [])"
proof -
  have m: "unat (min lim (nrows tbl)) = min (unat lim) (unat (nrows tbl))" by (simp add: min_def word_le_nat_alt)
  have len: "length (rows tbl) = unat (nrows tbl)" using ok by (simp add: tbl_ok_def)
  let ?ks = "[unat from..<min (unat lim) (unat (nrows tbl))]"
  note L = clear_rows_loop_ok[OF ok c[unfolded uint32_tbl_clear_rows_def m] _ distinct_upt]
  have "map (\<lambda>k. if k \<in> set ?ks then None else rows tbl ! k) [0..<length (rows tbl)] =
    map (\<lambda>k. if unat from \<le> k \<and> k < unat lim then None else rows tbl ! k) [0..<length (rows tbl)]"
    by (rule map_cong) (auto simp: len)
  with L len show ?thesis by auto
qed

lemma clear_entries:
  assumes "rows tbl' = map (\<lambda>k. if P k then None else rows tbl ! k) [0..<length (rows tbl)]"
  shows "entries tbl' = (\<lambda>k. if P (unat k) then None else entries tbl k)"
  using assms by (auto simp: entries_def fun_eq_iff)

lemma remove_ok_tbl:
  assumes ok: "tbl_ok tbl" and c: "Curl_uint32_tbl_remove tbl key = (gone, tbl')"
  shows "tbl_ok tbl' \<and> nrows tbl' = nrows tbl \<and> entry_dtor tbl' = entry_dtor tbl \<and> entries tbl' = (entries tbl)(key := None) \<and>
    gone = (case entries tbl key of Some e \<Rightarrow> if entry_dtor tbl then [(unat key, e)] else [] | None \<Rightarrow> [])"
proof (cases "key = UINT32_MAX")
  case True
  have "key + 1 = 0" using True by (simp add: UINT32_MAX_def word_unat_eq_iff unat_word_ariths)
  then have "uint32_tbl_clear_rows tbl key (key + 1) = ([], tbl)" by (simp add: uint32_tbl_clear_rows_def)
  moreover have "entries tbl key = None"
  proof -
    have "nrows tbl \<le> key" using True unat_lt2p_32[of "nrows tbl"] by (simp add: UINT32_MAX_def word_le_nat_alt)
    then show ?thesis using ok by (simp add: entries_def tbl_ok_def word_le_nat_alt)
  qed
  ultimately show ?thesis using ok c by (auto simp: Curl_uint32_tbl_remove_def fun_upd_idem)
next
  case False
  have up: "unat (key + 1) = Suc (unat key)"
  proof -
    have "unat key \<noteq> 4294967295" using False by (simp add: UINT32_MAX_def word_unat_eq_iff)
    then show ?thesis using unat_lt2p_32[of key] by (simp add: unat_word_ariths)
  qed
  note C = clear_rows_ok[OF ok c[unfolded Curl_uint32_tbl_remove_def], unfolded up]
  have len: "length (rows tbl) = unat (nrows tbl)" using ok by (simp add: tbl_ok_def)
  have P: "(unat key \<le> k \<and> k < Suc (unat key)) = (k = unat key)" for k by auto
  have "entries tbl' = (entries tbl)(key := None)"
    using clear_entries[of tbl' "\<lambda>k. unat key \<le> k \<and> k < Suc (unat key)" tbl] C
    by (auto simp: P fun_eq_iff word_unat_eq_iff)
  moreover have "gone = (case entries tbl key of Some e \<Rightarrow> if entry_dtor tbl then [(unat key, e)] else [] | None \<Rightarrow> [])"
  proof (cases "unat key < unat (nrows tbl)")
    case True
    then have "[unat key..<min (Suc (unat key)) (unat (nrows tbl))] = [unat key]" by (simp add: min_def)
    with C True len show ?thesis by (auto simp: entries_def split: option.splits)
  next
    case False
    with C len show ?thesis by (auto simp: entries_def min_def)
  qed
  ultimately show ?thesis using C by simp
qed

lemma resize_ok_tbl:
  assumes ok: "tbl_ok tbl" and c: "Curl_uint32_tbl_resize tbl n m = (r, gone, tbl', m')"
  shows "tbl_ok tbl' \<and>
    (if n = 0 then r = CURLE_BAD_FUNCTION_ARGUMENT \<and> tbl' = tbl \<and> gone = []
     else if r = CURLE_OK then nrows tbl' = n \<and> entries tbl' = (\<lambda>k. if k < n then entries tbl k else None) \<and>
       (entry_dtor tbl \<longrightarrow> gone = [(k, the (rows tbl ! k)). k \<leftarrow> [unat n..<unat (nrows tbl)], rows tbl ! k \<noteq> None])
     else r = CURLE_OUT_OF_MEMORY \<and> \<not> m 0 \<and> tbl' = tbl \<and> gone = [])"
proof -
  have len: "length (rows tbl) = unat (nrows tbl)" using ok by (simp add: tbl_ok_def)
  consider (zero) "n = 0" | (same) "n \<noteq> 0" "n = nrows tbl" | (oom) "n \<noteq> 0" "n \<noteq> nrows tbl" "\<not> m 0"
    | (grow) "nrows tbl < n" "m 0" | (shrink) "n \<noteq> 0" "n < nrows tbl" "m 0" by fastforce
  then show ?thesis
  proof cases
    case zero
    with ok c show ?thesis by (auto simp: Curl_uint32_tbl_resize_def)
  next
    case same
    have "entries tbl = (\<lambda>k. if k < nrows tbl then entries tbl k else None)"
      by (auto simp: entries_def len word_less_nat_alt fun_eq_iff)
    with same ok c show ?thesis by (auto simp: Curl_uint32_tbl_resize_def)
  next
    case oom
    with ok c show ?thesis by (auto simp: Curl_uint32_tbl_resize_def request_def)
  next
    case grow
    then have n: "n \<noteq> 0" "n \<noteq> nrows tbl" "\<not> n < nrows tbl" "unat (nrows tbl) < unat n" by (auto simp: word_less_nat_alt)
    have t: "r = CURLE_OK" "gone = []" "tbl' = tbl\<lparr>rows := rows tbl @ replicate (unat n - unat (nrows tbl)) None, nrows := n\<rparr>"
      using c grow n len by (auto simp: Curl_uint32_tbl_resize_def request_def Let_def min_def)
    have "j \<in> taken (rows tbl @ replicate k None) \<longleftrightarrow> j \<in> taken (rows tbl)" for j k
      by (cases "j < length (rows tbl)") (auto simp: taken_def nth_append)
    then have "taken (rows tbl @ replicate k None) = taken (rows tbl)" for k by blast
    then have "tbl_ok tbl'" using ok n t len by (simp add: tbl_ok_def)
    moreover have "entries tbl' = (\<lambda>k. if k < n then entries tbl k else None)"
      using n len by (auto simp: t entries_def fun_eq_iff nth_append word_less_nat_alt)
    ultimately show ?thesis using n t by simp
  next
    case shrink
    then have n: "unat n < unat (nrows tbl)" and ne: "n \<noteq> nrows tbl" by (auto simp: word_less_nat_alt)
    obtain g tbl1 where g: "uint32_tbl_clear_rows tbl n (nrows tbl) = (g, tbl1)" by fastforce
    note C = clear_rows_ok[OF ok g]
    have t: "r = CURLE_OK" "gone = g" "tbl' = tbl1\<lparr>rows := take (unat n) (rows tbl), nrows := n\<rparr>"
      using c shrink ne n g len by (auto simp: Curl_uint32_tbl_resize_def request_def Let_def min_def)
    have "taken (rows tbl1) = taken (take (unat n) (rows tbl))"
      using C len n by (auto simp: taken_def split: if_splits)
    then have "tbl_ok tbl'" using C len n by (simp add: tbl_ok_def t)
    moreover have "entries tbl' = (\<lambda>k. if k < n then entries tbl k else None)"
      using n len by (auto simp: t entries_def fun_eq_iff word_less_nat_alt)
    ultimately show ?thesis using shrink t C by simp
  qed
qed

section \<open>Iterating\<close>

lemma scan_rows_upt:
  assumes "b \<le> length rs"
  shows "scan_rows rs [a..<b] = (if {k \<in> taken rs. a \<le> k \<and> k < b} = {} then None
    else let k = Min {k \<in> taken rs. a \<le> k \<and> k < b} in Some (k, the (rs ! k)))"
  using assms
proof (induction "b - a" arbitrary: a)
  case 0
  then have "[a..<b] = []" "{k \<in> taken rs. a \<le> k \<and> k < b} = {}" by auto
  then show ?case by (simp only: scan_rows.simps) simp
next
  case (Suc n)
  then have a: "a < b" "n = b - Suc a" by auto
  let ?S = "\<lambda>a. {k \<in> taken rs. a \<le> k \<and> k < b}"
  show ?case
  proof (cases "rs ! a")
    case None
    then have "?S a = ?S (Suc a)" by (auto simp: taken_def Suc_le_eq le_less)
    moreover have "scan_rows rs [a..<b] = scan_rows rs [Suc a..<b]" using None a(1) by (simp add: upt_conv_Cons del: upt_Suc)
    ultimately show ?thesis using Suc.hyps(1)[OF a(2) Suc.prems] by (simp only:)
  next
    case (Some e)
    have "a \<in> ?S a" using Some a Suc.prems by (simp add: taken_def)
    moreover from this have "Min (?S a) = a" by (intro Min_eqI) auto
    ultimately show ?thesis using Some a(1) by (auto simp: upt_conv_Cons Let_def simp del: upt_Suc)
  qed
qed

lemma next_at_ok:
  assumes ok: "tbl_ok tbl" and c: "uint32_tbl_next_at tbl key = (r, k, e)"
  defines "S \<equiv> {j \<in> taken (rows tbl). unat key \<le> j}"
  shows "if S = {} then \<not> r \<and> k = UINT32_MAX \<and> e = None else r \<and> unat k = Min S \<and> e = entries tbl k \<and> e \<noteq> None"
proof -
  have len: "length (rows tbl) = unat (nrows tbl)" using ok by (simp add: tbl_ok_def)
  have S: "{j \<in> taken (rows tbl). unat key \<le> j \<and> j < unat (nrows tbl)} = S" by (auto simp: S_def taken_def len)
  note sc = scan_rows_upt[of "unat (nrows tbl)" "rows tbl" "unat key", unfolded S len, OF order_refl]
  show ?thesis
  proof (cases "S = {}")
    case True
    with sc c show ?thesis by (simp add: uint32_tbl_next_at_def)
  next
    case False
    have M: "Min S \<in> S" using False by (intro Min_in) (auto simp: S_def)
    then have l: "Min S < unat (nrows tbl)" by (simp add: S_def taken_def len)
    then have u: "unat (of_nat (Min S) :: 32 word) = Min S" by (intro le_unat_uoi less_imp_le)
    from sc False c have "r" "k = of_nat (Min S)" "e = Some (the (rows tbl ! Min S))"
      by (auto simp: uint32_tbl_next_at_def Let_def)
    with False M l u show ?thesis by (auto simp: entries_def len S_def taken_def)
  qed
qed

definition tbl_first_key :: "'e uint32_tbl \<Rightarrow> nat option" where
  "tbl_first_key tbl = (case Curl_uint32_tbl_first tbl of (r, k, _) \<Rightarrow> if r then Some (unat k) else None)"

definition tbl_next_key :: "'e uint32_tbl \<Rightarrow> nat \<Rightarrow> nat option" where
  "tbl_next_key tbl k = (case Curl_uint32_tbl_next tbl (of_nat k) of (r, k, _) \<Rightarrow> if r then Some (unat k) else None)"

definition tbl_keys :: "'e uint32_tbl \<Rightarrow> nat set" where
  "tbl_keys tbl = taken (rows tbl)"

interpretation tbl: ordered_numbers tbl_ok tbl_keys tbl_first_key tbl_next_key
proof (unfold_locales, goal_cases)
  case (1 b)
  then show ?case by (simp add: tbl_keys_def)
next
  case (2 b)
  obtain r k e where n: "uint32_tbl_next_at b 0 = (r, k, e)" by (metis prod_cases3)
  have "nentries b \<noteq> 0 \<longleftrightarrow> taken (rows b) \<noteq> {}" using 2 by (auto simp: tbl_ok_def word_unat_eq_iff)
  with next_at_ok[OF 2 n] n show ?case
    by (auto simp: tbl_first_key_def tbl_keys_def Curl_uint32_tbl_first_def split: if_splits)
next
  case (3 b x)
  have x: "x < unat (nrows b)" using 3 by (simp add: tbl_ok_def tbl_keys_def taken_def)
  have "unat (of_nat x + 1 :: 32 word) = Suc x"
    using le_unat_uoi[of "Suc x" "nrows b"] x by (simp add: add.commute Suc_le_eq)
  moreover obtain r k e where n: "uint32_tbl_next_at b (of_nat x + 1) = (r, k, e)" by (metis prod_cases3)
  ultimately show ?case using next_at_ok[OF 3(1) n] n
    by (auto simp: tbl_next_key_def tbl_keys_def Curl_uint32_tbl_next_def Suc_le_eq split: if_splits)
qed

definition row_removed :: "'e uint32_tbl \<Rightarrow> 32 word \<Rightarrow> 'e uint32_tbl" where
  "row_removed tbl key = snd (Curl_uint32_tbl_remove tbl key)"

interpretation tblmap: keyed_container tbl_ok entries row_removed
proof unfold_locales
  fix tbl :: "'e uint32_tbl" and key assume ok: "tbl_ok tbl"
  obtain gone tbl' where e: "Curl_uint32_tbl_remove tbl key = (gone, tbl')" by fastforce
  show "finite (dom (entries tbl))" by simp
  from remove_ok_tbl[OF ok e] e show "tbl_ok (row_removed tbl key)" "entries (row_removed tbl key) = (entries tbl)(key := None)"
    by (simp_all add: row_removed_def)
qed

section \<open>Properties\<close>

lemma tbl_add_full: "tbl_ok tbl \<Longrightarrow> nentries tbl = nrows tbl \<longleftrightarrow> card (dom (entries tbl)) = unat (nrows tbl)"
  using count_entries[of tbl] by (simp add: word_unat_eq_iff)

lemma next_key_word:
  assumes "tbl_ok tbl" "next_key tbl < length (rows tbl)"
  shows "unat (of_nat (next_key tbl) :: 32 word) = next_key tbl" "of_nat (next_key tbl) < nrows tbl"
proof -
  have "next_key tbl < unat (nrows tbl)" using assms by (simp add: tbl_ok_def)
  moreover from this show "unat (of_nat (next_key tbl) :: 32 word) = next_key tbl" by (intro le_unat_uoi less_imp_le)
  ultimately show "of_nat (next_key tbl) < nrows tbl" by (simp add: word_less_nat_alt)
qed

text \<open>
  C29: Adding to the key table is safe and fair. The search for a free row never reads beyond the rows,
  although its last position may lie behind them. A full table refuses and does not change. Otherwise
  the entry is stored under a key that was free, below the capacity and so never \<open>UINT32_MAX\<close>, and
  nothing else changes: the key is the first free one after the key added last, in cyclic order.
\<close>

theorem tbl_add_round_robin:
  assumes "tbl_ok tbl"
  shows "case Curl_uint32_tbl_add tbl (Some e) True of
      None \<Rightarrow> False
    | Some (r, k, tbl') \<Rightarrow> tbl_ok tbl' \<and> nrows tbl' = nrows tbl \<and>
        (if card (dom (entries tbl)) = unat (nrows tbl) then \<not> r \<and> tbl' = tbl
         else r \<and> k = Some (of_nat (next_key tbl)) \<and> of_nat (next_key tbl) < nrows tbl \<and>
           entries tbl (of_nat (next_key tbl)) = None \<and> entries tbl' = (entries tbl)(of_nat (next_key tbl) \<mapsto> e) \<and>
           last_key_added tbl' = of_nat (next_key tbl))"
proof (cases "nentries tbl = nrows tbl")
  case True
  then show ?thesis using assms tbl_add_full[OF assms] by (simp add: Curl_uint32_tbl_add_def)
next
  case False
  note A = add_ok_tbl[OF assms False, of e]
  note P = put_row_ok[OF assms, of "next_key tbl" e] and W = next_key_word[OF assms]
  have "entries tbl (of_nat (next_key tbl)) = None" using A W by (simp add: entries_def taken_def)
  with A P W False tbl_add_full[OF assms] show ?thesis by (simp add: put_row_def)
qed

definition sample_tbl :: "char uint32_tbl" where
  "sample_tbl = \<lparr>rows = [Some CHR ''a'', None, Some CHR ''c''], entry_dtor = True, nrows = 3, nentries = 2, last_key_added = 2\<rparr>"

lemma taken_filter: "taken rs = set (filter (\<lambda>k. rs ! k \<noteq> None) [0..<length rs])"
  by (auto simp: taken_def)

lemma sample_tbl_ok: "tbl_ok sample_tbl"
  by (simp add: tbl_ok_def sample_tbl_def taken_filter upt_rec)

theorem tbl_add_round_robin_witness:
  "tbl_ok sample_tbl \<and> Curl_uint32_tbl_add sample_tbl (Some CHR ''x'') True \<noteq> None \<and>
   map_option (\<lambda>(r, k, t). k) (Curl_uint32_tbl_add sample_tbl (Some CHR ''x'') True) = Some (Some 1)"
proof -
  have "map_option (\<lambda>(r, k, t). k) (Curl_uint32_tbl_add sample_tbl (Some CHR ''x'') True) = Some (Some 1)" by code_simp
  then show ?thesis using tbl_add_round_robin[OF sample_tbl_ok, of "CHR ''x''"] sample_tbl_ok by (auto split: option.splits)
qed

text \<open>
  The key table is a finite map with ordered keys. Lookup, containment and count report the
  entries; removing a key deletes exactly its entry and calls the destructor on it; a resize keeps
  exactly the entries below the new capacity, destroying the others, and is refused without a change
  for capacity 0 and when memory runs out; walking from the first key by the next key lists all
  keys in ascending order.
\<close>

theorem tbl_refines_map:
  assumes "tbl_ok tbl"
  shows "Curl_uint32_tbl_get tbl key = entries tbl key \<and>
    Curl_uint32_tbl_contains tbl key = (entries tbl key \<noteq> None) \<and>
    unat (Curl_uint32_tbl_count tbl) = card (dom (entries tbl)) \<and>
    (case Curl_uint32_tbl_remove tbl key of (gone, tbl') \<Rightarrow>
       tbl_ok tbl' \<and> entries tbl' = (entries tbl)(key := None) \<and>
       gone = (case entries tbl key of Some e \<Rightarrow> if entry_dtor tbl then [(unat key, e)] else [] | None \<Rightarrow> [])) \<and>
    (case Curl_uint32_tbl_resize tbl n m of (r, gone, tbl', m') \<Rightarrow>
       tbl_ok tbl' \<and>
       (if n = 0 then r = CURLE_BAD_FUNCTION_ARGUMENT \<and> tbl' = tbl
        else if r = CURLE_OK then nrows tbl' = n \<and> entries tbl' = (\<lambda>k. if k < n then entries tbl k else None)
        else r = CURLE_OUT_OF_MEMORY \<and> \<not> m 0 \<and> tbl' = tbl)) \<and>
    (case tbl_first_key tbl of
       None \<Rightarrow> dom (entries tbl) = {}
     | Some k \<Rightarrow> walk tbl_next_key tbl (card (dom (entries tbl))) k = sorted_list_of_set (unat ` dom (entries tbl)))"
proof -
  obtain gone tbl1 where a: "Curl_uint32_tbl_remove tbl key = (gone, tbl1)" by fastforce
  obtain r gone2 tbl2 m2 where b: "Curl_uint32_tbl_resize tbl n m = (r, gone2, tbl2, m2)" by (metis prod_cases4)
  have len: "length (rows tbl) = unat (nrows tbl)" using assms by (simp add: tbl_ok_def)
  have keys: "tbl_keys tbl = unat ` dom (entries tbl)" "card (tbl_keys tbl) = card (dom (entries tbl))"
    using keys_taken_nat[OF assms] count_entries[OF assms] assms by (simp_all add: tbl_keys_def tbl_ok_def)
  have "case tbl_first_key tbl of None \<Rightarrow> dom (entries tbl) = {}
    | Some k \<Rightarrow> walk tbl_next_key tbl (card (dom (entries tbl))) k = sorted_list_of_set (unat ` dom (entries tbl))"
    using tbl.walk_all[OF assms] tbl.fst_law[OF assms] keys by (auto split: option.split if_splits)
  moreover have "Curl_uint32_tbl_get tbl key = entries tbl key" "Curl_uint32_tbl_contains tbl key = (entries tbl key \<noteq> None)"
    by (simp_all add: Curl_uint32_tbl_get_def Curl_uint32_tbl_contains_def entries_def len word_less_nat_alt)
  ultimately show ?thesis
    using remove_ok_tbl[OF assms a] resize_ok_tbl[OF assms b] count_entries[OF assms]
    unfolding a b by (simp add: Curl_uint32_tbl_count_def split: if_splits)
qed

theorem tbl_refines_map_witness:
  "tbl_ok sample_tbl \<and> Curl_uint32_tbl_get sample_tbl 2 = entries sample_tbl 2 \<and>
   tbl_first_key sample_tbl = Some 0 \<and> walk tbl_next_key sample_tbl (card (dom (entries sample_tbl))) 0 = [0, 2]"
proof -
  have f: "tbl_first_key sample_tbl = Some 0" by code_simp
  have "card (dom (entries sample_tbl)) = 2" using count_entries[OF sample_tbl_ok] by (simp add: sample_tbl_def)
  moreover have "walk tbl_next_key sample_tbl 2 0 = [0, 2]" by code_simp
  ultimately show ?thesis using tbl_refines_map[OF sample_tbl_ok, of 2] f sample_tbl_ok by auto
qed

end
