(* ===== verification/Curl_Spbset.thy ===== *)
theory Curl_Spbset
  imports Curl_Bset
begin

text \<open>
  The sparse bit set of \<open>old/lib/uint-spbset.c\<close> and \<open>uint-spbset.h\<close>: a list of chunks of 256 bits in
  the order of their offsets. The first chunk is a field of the set and the others hang on its
  \<open>next\<close> pointer; here the set is its head chunk and the list of the others. A pointer to a chunk is its
  position in that list. A chunk without members is reused before a new one is allocated. A chunk's
  four slots are a small bit set, so the facts of \<open>Curl_Bset\<close> carry the proofs.
\<close>

unbundle bit_operations_syntax

section \<open>Data and operations\<close>

record uint32_spbset_chunk =
  ch_slots :: "64 word list"
  offset :: "32 word"

record uint32_spbset =
  head :: uint32_spbset_chunk
  tail_chunks :: "uint32_spbset_chunk list"

definition CURL_UINT32_SPBSET_CH_SLOTS :: nat where "CURL_UINT32_SPBSET_CH_SLOTS = 4"

definition CURL_UINT32_SPBSET_CH_MASK :: "32 word" where "CURL_UINT32_SPBSET_CH_MASK = 4 * 64 - 1"

definition zero_chunk :: uint32_spbset_chunk where
  "zero_chunk = \<lparr>ch_slots = replicate CURL_UINT32_SPBSET_CH_SLOTS 0, offset = 0\<rparr>"

definition Curl_uint32_spbset_init :: uint32_spbset where
  "Curl_uint32_spbset_init = \<lparr>head = zero_chunk, tail_chunks = []\<rparr>"

definition uint32_spbset_clear :: "uint32_spbset \<Rightarrow> uint32_spbset" where
  "uint32_spbset_clear bset = bset\<lparr>head := zero_chunk, tail_chunks := []\<rparr>"

definition Curl_uint32_spbset_destroy :: "uint32_spbset \<Rightarrow> uint32_spbset" where
  "Curl_uint32_spbset_destroy bset = uint32_spbset_clear bset"

definition chunks :: "uint32_spbset \<Rightarrow> uint32_spbset_chunk list" where
  "chunks bset = head bset # tail_chunks bset"

definition from_chunks :: "uint32_spbset_chunk list \<Rightarrow> uint32_spbset" where
  "from_chunks cs = \<lparr>head = hd cs, tail_chunks = tl cs\<rparr>"

definition chunk_count :: "uint32_spbset_chunk \<Rightarrow> nat \<Rightarrow> nat" where
  "chunk_count chunk n = foldl (\<lambda>n s. if s \<noteq> 0 then n + Curl_popcount64 s else n) n (ch_slots chunk)"

text \<open>The count is a \<open>uint32_t\<close> that wraps; its value here is the sum before the wrap.\<close>

definition Curl_uint32_spbset_count :: "uint32_spbset \<Rightarrow> 32 word" where
  "Curl_uint32_spbset_count bset = of_nat (foldl (\<lambda>n chunk. chunk_count chunk n) 0 (chunks bset))"

definition uint32_spbset_empty_chunk :: "uint32_spbset_chunk \<Rightarrow> bool" where
  "uint32_spbset_empty_chunk chunk \<longleftrightarrow> list_all (\<lambda>s. s = 0) (ch_slots chunk)"

text \<open>
  Reusing a chunk without members: none exists, it is the head and stays linked, or it was taken
  out of the list and zeroed.
\<close>

datatype reuse = No_empty | Empty_head | Unlinked

fun unlink_first_empty :: "uint32_spbset_chunk list \<Rightarrow> uint32_spbset_chunk list option" where
  "unlink_first_empty [] = None"
| "unlink_first_empty (c # cs) =
     (if uint32_spbset_empty_chunk c then Some cs else map_option (\<lambda>cs'. c # cs') (unlink_first_empty cs))"

definition uint32_spbset_unlink_empty :: "uint32_spbset \<Rightarrow> 32 word \<Rightarrow> reuse \<times> uint32_spbset" where
  "uint32_spbset_unlink_empty bset for_offset =
     (if uint32_spbset_empty_chunk (head bset) then
        (case tail_chunks bset of
           [] \<Rightarrow> (Empty_head, bset)
         | c # cs \<Rightarrow>
             if for_offset < offset c then (Empty_head, bset)
             else (Unlinked, bset\<lparr>head := c, tail_chunks := cs\<rparr>))
      else
        (case unlink_first_empty (tail_chunks bset) of
           None \<Rightarrow> (No_empty, bset)
         | Some cs \<Rightarrow> (Unlinked, bset\<lparr>tail_chunks := cs\<rparr>)))"

fun insert_sorted :: "uint32_spbset_chunk \<Rightarrow> uint32_spbset_chunk list \<Rightarrow> nat \<Rightarrow> nat \<times> uint32_spbset_chunk list" where
  "insert_sorted n [] k = (k, [n])"
| "insert_sorted n (c # cs) k =
     (if offset c > offset n then (k, n # c # cs)
      else case insert_sorted n cs (Suc k) of (j, cs) \<Rightarrow> (j, c # cs))"

definition uint32_spbset_insert_chunk :: "uint32_spbset \<Rightarrow> uint32_spbset_chunk \<Rightarrow> nat \<times> uint32_spbset" where
  "uint32_spbset_insert_chunk bset nchunk =
     (if offset nchunk < offset (head bset) then
        (0, bset\<lparr>head := zero_chunk\<lparr>offset := offset nchunk\<rparr>, tail_chunks := head bset # tail_chunks bset\<rparr>)
      else case insert_sorted nchunk (tail_chunks bset) 1 of (k, cs) \<Rightarrow> (k, bset\<lparr>tail_chunks := cs\<rparr>))"

fun find_chunk :: "uint32_spbset_chunk list \<Rightarrow> 32 word \<Rightarrow> nat \<Rightarrow> nat option" where
  "find_chunk [] i_offset k = None"
| "find_chunk (c # cs) i_offset k =
     (if offset c = i_offset then Some k
      else if offset c > i_offset then None
      else find_chunk cs i_offset (Suc k))"

definition uint32_spbset_get_chunk ::
    "uint32_spbset \<Rightarrow> 32 word \<Rightarrow> bool \<Rightarrow> heap \<Rightarrow> nat option \<times> uint32_spbset \<times> heap" where
  "uint32_spbset_get_chunk bset i grow m =
     (let i_offset = i AND NOT CURL_UINT32_SPBSET_CH_MASK in
      case find_chunk (chunks bset) i_offset 0 of
        Some k \<Rightarrow> (Some k, bset, m)
      | None \<Rightarrow>
          if \<not> grow then (None, bset, m)
          else
            case uint32_spbset_unlink_empty bset i_offset of
              (Empty_head, bset) \<Rightarrow> (Some 0, bset\<lparr>head := (head bset)\<lparr>offset := i_offset\<rparr>\<rparr>, m)
            | (Unlinked, bset) \<Rightarrow>
                (case uint32_spbset_insert_chunk bset (zero_chunk\<lparr>offset := i_offset\<rparr>) of (k, bset) \<Rightarrow> (Some k, bset, m))
            | (No_empty, bset) \<Rightarrow>
                (case request m of (ok, m) \<Rightarrow>
                   if \<not> ok then (None, bset, m)
                   else case uint32_spbset_insert_chunk bset (zero_chunk\<lparr>offset := i_offset\<rparr>) of (k, bset) \<Rightarrow> (Some k, bset, m)))"

definition Curl_uint32_spbset_add :: "uint32_spbset \<Rightarrow> 32 word \<Rightarrow> heap \<Rightarrow> bool \<times> uint32_spbset \<times> heap" where
  "Curl_uint32_spbset_add bset i m =
     (case uint32_spbset_get_chunk bset i True m of
        (None, bset, m) \<Rightarrow> (False, bset, m)
      | (Some k, bset, m) \<Rightarrow>
          let chunk = chunks bset ! k; i = i - offset chunk; s = unat (i div 64);
              chunk = chunk\<lparr>ch_slots := (ch_slots chunk)[s := ch_slots chunk ! s OR push_bit (unat (i mod 64)) 1]\<rparr> in
          (True, from_chunks ((chunks bset)[k := chunk]), m))"

definition Curl_uint32_spbset_remove :: "uint32_spbset \<Rightarrow> 32 word \<Rightarrow> uint32_spbset" where
  "Curl_uint32_spbset_remove bset i =
     (case uint32_spbset_get_chunk bset i False (\<lambda>_. False) of
        (None, bset, _) \<Rightarrow> bset
      | (Some k, bset, _) \<Rightarrow>
          let chunk = chunks bset ! k; i = i - offset chunk; s = unat (i div 64);
              chunk = chunk\<lparr>ch_slots := (ch_slots chunk)[s := ch_slots chunk ! s AND NOT (push_bit (unat (i mod 64)) 1)]\<rparr> in
          from_chunks ((chunks bset)[k := chunk]))"

definition Curl_uint32_spbset_contains :: "uint32_spbset \<Rightarrow> 32 word \<Rightarrow> bool" where
  "Curl_uint32_spbset_contains bset i =
     (case uint32_spbset_get_chunk bset i False (\<lambda>_. False) of
        (None, bset, _) \<Rightarrow> False
      | (Some k, bset, _) \<Rightarrow>
          let chunk = chunks bset ! k; i = i - offset chunk in
          (ch_slots chunk ! unat (i div 64) AND push_bit (unat (i mod 64)) 1) \<noteq> 0)"

definition uint32_spbset_chunk_first :: "uint32_spbset_chunk \<Rightarrow> bool \<times> 32 word" where
  "uint32_spbset_chunk_first chunk =
     (case scan (ch_slots chunk) 0 of
        Some (i, s) \<Rightarrow> (True, offset chunk + (of_nat i * 64 + of_nat (Curl_ctz64 s)))
      | None \<Rightarrow> (False, UINT32_MAX))"

fun first_chunk :: "uint32_spbset_chunk list \<Rightarrow> 32 word option" where
  "first_chunk [] = None"
| "first_chunk (c # cs) = (case uint32_spbset_chunk_first c of (r, x) \<Rightarrow> if r then Some x else first_chunk cs)"

definition Curl_uint32_spbset_first :: "uint32_spbset \<Rightarrow> bool \<times> 32 word" where
  "Curl_uint32_spbset_first bset = (case first_chunk (chunks bset) of Some x \<Rightarrow> (True, x) | None \<Rightarrow> (False, 0))"

definition uint32_spbset_chunk_next :: "uint32_spbset_chunk \<Rightarrow> 32 word \<Rightarrow> bool \<times> 32 word" where
  "uint32_spbset_chunk_next chunk last1 =
     (if offset chunk \<le> last1 then
        let i = unat ((last1 - offset chunk) div 64) in
        if i < CURL_UINT32_SPBSET_CH_SLOTS then
          let x = drop_bit (unat (last1 mod 64)) (ch_slots chunk ! i) in
          if x \<noteq> 0 then (True, last1 + of_nat (Curl_ctz64 x))
          else case scan (drop (i + 1) (ch_slots chunk)) (i + 1) of
                 Some (j, s) \<Rightarrow> (True, offset chunk + (of_nat j * 64 + of_nat (Curl_ctz64 s)))
               | None \<Rightarrow> (False, UINT32_MAX)
        else (False, UINT32_MAX)
      else (False, UINT32_MAX))"

definition Curl_uint32_spbset_next :: "uint32_spbset \<Rightarrow> 32 word \<Rightarrow> bool \<times> 32 word" where
  "Curl_uint32_spbset_next bset last0 =
     (let last1 = last0 + 1; last_offset = last1 AND NOT CURL_UINT32_SPBSET_CH_MASK;
          cs = dropWhile (\<lambda>c. offset c < last_offset) (chunks bset);
          higher = (\<lambda>cs. case first_chunk cs of Some x \<Rightarrow> (True, x) | None \<Rightarrow> (False, UINT32_MAX)) in
      case cs of
        [] \<Rightarrow> (False, UINT32_MAX)
      | c # cs' \<Rightarrow>
          if offset c = last_offset then
            (case uint32_spbset_chunk_next c last1 of (r, x) \<Rightarrow> if r then (True, x) else higher cs')
          else higher cs)"

section \<open>The set a sparse bit set stands for\<close>

definition chunk_bset :: "uint32_spbset_chunk \<Rightarrow> uint32_bset" where
  "chunk_bset c = \<lparr>slots = ch_slots c, nslots = 4, first_slot_used = 0\<rparr>"

definition chunk_ok :: "uint32_spbset_chunk \<Rightarrow> bool" where
  "chunk_ok c \<longleftrightarrow> length (ch_slots c) = 4 \<and> unat (offset c) mod 256 = 0"

definition chunks_ok :: "uint32_spbset_chunk list \<Rightarrow> bool" where
  "chunks_ok cs \<longleftrightarrow> list_all chunk_ok cs \<and> sorted_wrt (\<lambda>c d. offset c < offset d) cs"

definition spbset_ok :: "uint32_spbset \<Rightarrow> bool" where
  "spbset_ok b \<longleftrightarrow> chunks_ok (chunks b)"

abbreviation base :: "nat \<Rightarrow> nat" where "base n \<equiv> 256 * (n div 256)"

definition list_members :: "uint32_spbset_chunk list \<Rightarrow> nat set" where
  "list_members cs = {n. \<exists>c\<in>set cs. unat (offset c) = base n \<and> n mod 256 \<in> members (chunk_bset c)}"

definition sp_members :: "uint32_spbset \<Rightarrow> nat set" where
  "sp_members b = list_members (chunks b)"

lemma chunk_bset_ok: "chunk_ok c \<Longrightarrow> bset_ok (chunk_bset c)"
  by (simp add: chunk_ok_def chunk_bset_def bset_ok_def)

lemma chunk_capacity [simp]: "nslots (chunk_bset c) = 4" "slots (chunk_bset c) = ch_slots c" "first_slot_used (chunk_bset c) = 0"
  by (simp_all add: chunk_bset_def)

lemma chunk_member_bound: "chunk_ok c \<Longrightarrow> m \<in> members (chunk_bset c) \<Longrightarrow> m < 256"
  using members_bound[OF chunk_bset_ok] by fastforce

lemma mask_base: "unat (i AND NOT CURL_UINT32_SPBSET_CH_MASK) = base (unat i)"
proof -
  have m: "CURL_UINT32_SPBSET_CH_MASK = mask 8" by (simp add: CURL_UINT32_SPBSET_CH_MASK_def mask_eq_exp_minus_1)
  have "i AND NOT CURL_UINT32_SPBSET_CH_MASK = push_bit 8 (drop_bit 8 i)"
    unfolding m by (rule bit_word_eqI) (auto simp: bit_simps)
  also have "\<dots> = (i div 256) * 256" by (simp add: push_bit_eq_mult drop_bit_eq_div)
  finally have e: "i AND NOT CURL_UINT32_SPBSET_CH_MASK = (i div 256) * 256" .
  have "unat i div 256 * 256 < 2 ^ 32" using unsigned_less[of i, where 'a = nat] by simp
  then show ?thesis unfolding e by (simp add: unat_word_ariths unat_div)
qed

lemma base_offset: "chunk_ok c \<Longrightarrow> base (unat (offset c)) = unat (offset c)"
  by (auto simp: chunk_ok_def)

lemma chunks_okD:
  assumes "chunks_ok cs"
  shows "k < length cs \<Longrightarrow> chunk_ok (cs ! k)" "c \<in> set cs \<Longrightarrow> chunk_ok c"
    "k < length cs \<Longrightarrow> j < length cs \<Longrightarrow> offset (cs ! k) = offset (cs ! j) \<Longrightarrow> k = j"
proof -
  show "k < length cs \<Longrightarrow> chunk_ok (cs ! k)" "c \<in> set cs \<Longrightarrow> chunk_ok c"
    using assms by (auto simp: chunks_ok_def list_all_iff)
  assume "k < length cs" "j < length cs" "offset (cs ! k) = offset (cs ! j)"
  then show "k = j" using assms sorted_wrt_nth_less[of "\<lambda>c d. offset c < offset d" cs]
    by (metis chunks_ok_def less_irrefl linorder_neqE_nat)
qed

lemma member_at:
  assumes "chunks_ok cs" "k < length cs" "unat (offset (cs ! k)) = base n"
  shows "n \<in> list_members cs \<longleftrightarrow> n mod 256 \<in> members (chunk_bset (cs ! k))"
proof -
  have "c = cs ! k" if c: "c \<in> set cs" "unat (offset c) = base n" for c
  proof -
    obtain j where j: "j < length cs" "c = cs ! j" using c(1) by (auto simp: in_set_conv_nth)
    with c assms have "offset (cs ! j) = offset (cs ! k)" by (simp add: word_unat_eq_iff)
    with chunks_okD(3)[OF assms(1) j(1) assms(2)] j show ?thesis by simp
  qed
  with assms show ?thesis by (auto simp: list_members_def)
qed

lemma member_nowhere: "\<forall>c\<in>set cs. unat (offset c) \<noteq> base n \<Longrightarrow> n \<notin> list_members cs"
  by (auto simp: list_members_def)

section \<open>Finding and making chunks\<close>

lemma find_chunk_Some:
  "find_chunk cs off k = Some j \<Longrightarrow> k \<le> j \<and> j - k < length cs \<and> offset (cs ! (j - k)) = off"
proof (induction cs off k rule: find_chunk.induct)
  case (2 c cs off k)
  show ?case
  proof (cases "offset c = off")
    case False
    with 2 have I: "Suc k \<le> j" "j - Suc k < length cs" "offset (cs ! (j - Suc k)) = off" by (auto split: if_splits)
    then have "j - k = Suc (j - Suc k)" by simp
    with I show ?thesis by simp
  qed (use 2 in auto)
qed simp

lemma find_chunk_None:
  "sorted_wrt (\<lambda>c d. offset c < offset d) cs \<Longrightarrow> find_chunk cs off k = None \<Longrightarrow> \<forall>c\<in>set cs. offset c \<noteq> off"
  by (induction cs off k rule: find_chunk.induct) (auto split: if_splits dest: less_trans)

lemma zero_chunk_ok: "unat off mod 256 = 0 \<Longrightarrow> chunk_ok (zero_chunk\<lparr>offset := off\<rparr>)"
  by (simp add: chunk_ok_def zero_chunk_def CURL_UINT32_SPBSET_CH_SLOTS_def)

lemma empty_chunk_members: "uint32_spbset_empty_chunk c \<Longrightarrow> members (chunk_bset c) = {}"
  by (auto simp: uint32_spbset_empty_chunk_def members_def list_all_length)

lemma zero_chunk_empty: "members (chunk_bset (zero_chunk\<lparr>offset := off\<rparr>)) = {}"
  by (rule empty_chunk_members)
    (simp add: uint32_spbset_empty_chunk_def zero_chunk_def list_all_iff)

lemma unlink_first_empty_Some:
  "unlink_first_empty cs = Some cs' \<Longrightarrow> sorted_wrt P cs \<Longrightarrow>
     sorted_wrt P cs' \<and> set cs' \<subseteq> set cs \<and> (\<forall>c\<in>set cs. c \<in> set cs' \<or> uint32_spbset_empty_chunk c)"
  by (induction cs arbitrary: cs') (auto split: if_splits, blast)

lemma insert_sorted_ok:
  assumes "insert_sorted n cs k = (j, cs')" "sorted_wrt (\<lambda>c d. offset c < offset d) cs" "\<forall>c\<in>set cs. offset c \<noteq> offset n"
  shows "k \<le> j \<and> j - k < length cs' \<and> cs' ! (j - k) = n \<and> set cs' = insert n (set cs) \<and> sorted_wrt (\<lambda>c d. offset c < offset d) cs'"
  using assms
proof (induction n cs k arbitrary: cs' rule: insert_sorted.induct)
  case (2 n c cs k)
  show ?case
  proof (cases "offset c > offset n")
    case True
    then have "offset n < offset d" if "d \<in> set cs" for d using that "2.prems"(2) by (auto elim: less_trans)
    with True 2 show ?thesis by auto
  next
    case False
    obtain j' cs1 where r: "insert_sorted n cs (Suc k) = (j', cs1)" by fastforce
    with False 2 have e: "j' = j" "cs' = c # cs1" by auto
    note I = "2.IH"[OF False r[unfolded e(1)]]
    have "offset c < offset n" using False "2.prems"(3) by auto
    moreover have "j - k = Suc (j - Suc k)" if "Suc k \<le> j" using that by simp
    ultimately show ?thesis using I e "2.prems" by auto
  qed
qed auto

lemma list_members_same:
  assumes "\<And>c. c \<in> set cs \<Longrightarrow> c \<in> set cs' \<or> members (chunk_bset c) = {}"
    "\<And>c. c \<in> set cs' \<Longrightarrow> c \<in> set cs \<or> members (chunk_bset c) = {}"
  shows "list_members cs' = list_members cs"
  using assms by (fastforce simp: list_members_def)

text \<open>Taking an unused chunk out of the list changes no member.\<close>

lemma unlink_empty_ok:
  assumes "spbset_ok b" "uint32_spbset_unlink_empty b off = (r, b')"
  shows "(r = Empty_head \<longrightarrow> b' = b \<and> uint32_spbset_empty_chunk (head b) \<and> (\<forall>c\<in>set (tail_chunks b). off < offset c)) \<and>
    (r = No_empty \<longrightarrow> b' = b) \<and>
    (r = Unlinked \<longrightarrow> spbset_ok b' \<and> sp_members b' = sp_members b \<and> set (chunks b') \<subseteq> set (chunks b))"
proof (cases "uint32_spbset_empty_chunk (head b)")
  case True
  note H = empty_chunk_members[OF True]
  show ?thesis
  proof (cases "tail_chunks b")
    case Nil
    with True assms show ?thesis by (auto simp: uint32_spbset_unlink_empty_def)
  next
    case (Cons c cs)
    have "off < offset d" if "off < offset c" "d \<in> set cs" for d
      using that assms(1) Cons by (auto simp: spbset_ok_def chunks_ok_def chunks_def dest: less_trans)
    moreover have "list_members (c # cs) = list_members (head b # c # cs)"
      by (rule list_members_same) (auto simp: H)
    ultimately show ?thesis using assms True Cons
      by (auto simp: uint32_spbset_unlink_empty_def spbset_ok_def chunks_ok_def chunks_def sp_members_def split: if_splits)
  qed
next
  case False
  show ?thesis
  proof (cases "unlink_first_empty (tail_chunks b)")
    case None
    with False assms show ?thesis by (auto simp: uint32_spbset_unlink_empty_def)
  next
    case (Some cs)
    have "sorted_wrt (\<lambda>c d. offset c < offset d) (tail_chunks b)" using assms(1) by (simp add: spbset_ok_def chunks_ok_def chunks_def)
    note U = unlink_first_empty_Some[OF Some this]
    have "list_members (head b # cs) = list_members (head b # tail_chunks b)"
      by (rule list_members_same) (use U in \<open>auto dest: empty_chunk_members\<close>)
    with U False Some assms show ?thesis
      by (auto simp: uint32_spbset_unlink_empty_def spbset_ok_def chunks_ok_def chunks_def sp_members_def list_all_iff)
  qed
qed

lemma insert_chunk_ok:
  assumes "spbset_ok b" "unat off mod 256 = 0" "\<forall>c\<in>set (chunks b). offset c \<noteq> off"
    "uint32_spbset_insert_chunk b (zero_chunk\<lparr>offset := off\<rparr>) = (k, b')"
  shows "spbset_ok b' \<and> sp_members b' = sp_members b \<and> k < length (chunks b') \<and> offset (chunks b' ! k) = off"
proof -
  let ?n = "zero_chunk\<lparr>offset := off\<rparr>"
  note z = zero_chunk_ok[OF assms(2)]
  show ?thesis
  proof (cases "off < offset (head b)")
    case True
    then have b': "k = 0" "chunks b' = ?n # chunks b" using assms(4) by (auto simp: uint32_spbset_insert_chunk_def chunks_def)
    have "\<forall>c\<in>set (chunks b). off < offset c" using True assms(1) by (auto simp: spbset_ok_def chunks_ok_def chunks_def dest: less_trans)
    then have "spbset_ok b'" using assms(1) z by (auto simp: spbset_ok_def chunks_ok_def b')
    moreover have "list_members (chunks b') = list_members (chunks b)"
      by (rule list_members_same) (auto simp: b' zero_chunk_empty)
    ultimately show ?thesis by (simp add: b' sp_members_def)
  next
    case False
    obtain j cs where i: "insert_sorted ?n (tail_chunks b) 1 = (j, cs)" by fastforce
    then have b': "k = j" "chunks b' = head b # cs" using assms(4) False by (auto simp: uint32_spbset_insert_chunk_def chunks_def)
    have s: "sorted_wrt (\<lambda>c d. offset c < offset d) (tail_chunks b)" using assms(1) by (simp add: spbset_ok_def chunks_ok_def chunks_def)
    have ne: "\<forall>c\<in>set (tail_chunks b). offset c \<noteq> offset ?n" using assms(3) by (simp add: chunks_def)
    note I = insert_sorted_ok[OF i s ne]
    have "offset (head b) < off" using False assms(3) by (auto simp: chunks_def)
    then have "spbset_ok b'" unfolding spbset_ok_def b' using assms(1) z I
      by (auto simp: spbset_ok_def chunks_ok_def chunks_def list_all_iff)
    moreover have "list_members (chunks b') = list_members (chunks b)"
      unfolding b'(2) by (rule list_members_same) (use I in \<open>auto simp: chunks_def zero_chunk_empty\<close>)
    moreover have "chunks b' ! k = ?n" "k < length (chunks b')" using I by (auto simp: b' nth_Cons')
    ultimately show ?thesis by (simp add: sp_members_def)
  qed
qed

lemma get_chunk_ok:
  assumes "spbset_ok b" "uint32_spbset_get_chunk b i grow m = (r, b', m')"
  shows "spbset_ok b' \<and> sp_members b' = sp_members b \<and>
    (case r of
       Some k \<Rightarrow> k < length (chunks b') \<and> unat (offset (chunks b' ! k)) = base (unat i)
     | None \<Rightarrow> b' = b \<and> (\<forall>c\<in>set (chunks b). unat (offset c) \<noteq> base (unat i)) \<and> (grow \<longrightarrow> \<not> m 0))"
proof -
  define off where "off = i AND NOT CURL_UINT32_SPBSET_CH_MASK"
  have off: "unat off = base (unat i)" "unat off mod 256 = 0" by (simp_all add: off_def mask_base)
  note G = assms(2)[unfolded uint32_spbset_get_chunk_def Let_def off_def[symmetric]]
  show ?thesis
  proof (cases "find_chunk (chunks b) off 0")
    case (Some k)
    then have "r = Some k" "b' = b" using G by auto
    with find_chunk_Some[OF Some] assms(1) off show ?thesis by simp
  next
    case None
    have "sorted_wrt (\<lambda>c d. offset c < offset d) (chunks b)" using assms(1) by (simp add: spbset_ok_def chunks_ok_def)
    note N = find_chunk_None[OF this None]
    then have ne: "\<forall>c\<in>set (chunks b). unat (offset c) \<noteq> base (unat i)"
      using off by (simp add: word_unat_eq_iff)
    obtain u b1 where u: "uint32_spbset_unlink_empty b off = (u, b1)" by fastforce
    note U = unlink_empty_ok[OF assms(1) u]
    consider (no) "\<not> grow" | (head) "grow" "u = Empty_head" | (oom) "grow" "u = No_empty" "\<not> m 0"
      | (ins) "grow" "u = Unlinked \<or> u = No_empty \<and> m 0" by (cases u) auto
    then show ?thesis
    proof cases
      case no
      with G None assms(1) ne show ?thesis by auto
    next
      case head
      then have H: "b1 = b" "uint32_spbset_empty_chunk (uint32_spbset.head b)" "\<forall>c\<in>set (tail_chunks b). off < offset c" using U by auto
      let ?h = "(uint32_spbset.head b)\<lparr>offset := off\<rparr>"
      have b': "r = Some 0" "b' = b\<lparr>head := ?h\<rparr>" using G None head u H by auto
      have e: "members (chunk_bset ?h) = {}" "members (chunk_bset (uint32_spbset.head b)) = {}"
        using H(2) by (auto intro!: empty_chunk_members simp: uint32_spbset_empty_chunk_def)
      have "list_members (chunks b') = list_members (chunks b)"
        by (rule list_members_same) (use e in \<open>auto simp: b' chunks_def\<close>)
      moreover have "spbset_ok b'" using assms(1) H(3) off by (auto simp: b' spbset_ok_def chunks_ok_def chunks_def chunk_ok_def)
      ultimately show ?thesis using off by (simp add: b' sp_members_def chunks_def)
    next
      case oom
      with G None u U assms(1) ne show ?thesis by (auto simp: request_def)
    next
      case ins
      have b1: "spbset_ok b1" "sp_members b1 = sp_members b" "\<forall>c\<in>set (chunks b1). offset c \<noteq> off"
        using U ins N assms(1) by auto
      obtain k b2 where k: "uint32_spbset_insert_chunk b1 (zero_chunk\<lparr>offset := off\<rparr>) = (k, b2)" by fastforce
      with G None u ins have "r = Some k" "b' = b2" by (auto simp: request_def)
      with insert_chunk_ok[OF b1(1) off(2) b1(3) k] b1(2) off show ?thesis by simp
    qed
  qed
qed

section \<open>Adding, removing and looking up\<close>

lemma in_chunk_word:
  assumes "unat (offset c) = base (unat i)"
  shows "unat (i - offset c) = unat i mod 256"
proof -
  have "offset c \<le> i" using assms by (simp add: word_le_nat_alt)
  then have "unat (i - offset c) = unat i - unat (offset c)" by (rule unat_sub)
  then show ?thesis using assms by (simp add: minus_mult_div_eq_mod)
qed

lemma chunk_slot: "unat (i - offset c) = m \<Longrightarrow> m < 256 \<Longrightarrow> (i - offset c) div 64 < nslots (chunk_bset c)"
  by (simp add: word_less_nat_alt div64_less)

text \<open>Changing one chunk's slots changes the members of that chunk only.\<close>

lemma update_chunk_ok:
  assumes ok: "spbset_ok b" and k: "k < length (chunks b)" and len: "length ss = 4"
  defines "c \<equiv> chunks b ! k"
  defines "b' \<equiv> from_chunks ((chunks b)[k := c\<lparr>ch_slots := ss\<rparr>])"
  shows "spbset_ok b'" "n \<in> sp_members b' \<longleftrightarrow> (if base n = unat (offset c) then n mod 256 \<in> members (chunk_bset (c\<lparr>ch_slots := ss\<rparr>))
      else n \<in> sp_members b)"
proof -
  have ch: "chunks b' = (chunks b)[k := c\<lparr>ch_slots := ss\<rparr>]" using k by (simp add: b'_def from_chunks_def chunks_def split: nat.split)
  have cok: "chunk_ok (c\<lparr>ch_slots := ss\<rparr>)"
    using chunks_okD(1)[OF ok[unfolded spbset_ok_def] k] len by (simp add: chunk_ok_def c_def)
  have off: "map offset (chunks b') = map offset (chunks b)"
    unfolding ch by (simp add: map_update c_def list_update_id[of "map offset (chunks b)" k, simplified nth_map[OF k]])
  have "sorted_wrt (\<lambda>c d. offset c < offset d) xs \<longleftrightarrow> sorted_wrt (<) (map offset xs)" for xs :: "uint32_spbset_chunk list"
    by (simp add: sorted_wrt_map)
  then have "sorted_wrt (\<lambda>c d. offset c < offset d) (chunks b')" using ok off by (simp add: spbset_ok_def chunks_ok_def)
  moreover have "list_all chunk_ok (chunks b')" using ok cok
    by (auto simp: ch spbset_ok_def chunks_ok_def list_all_iff dest!: set_update_subset_insert[THEN subsetD])
  ultimately show ok': "spbset_ok b'" by (simp add: spbset_ok_def chunks_ok_def)
  show "n \<in> sp_members b' \<longleftrightarrow> (if base n = unat (offset c) then n mod 256 \<in> members (chunk_bset (c\<lparr>ch_slots := ss\<rparr>))
      else n \<in> sp_members b)"
  proof (cases "base n = unat (offset c)")
    case True
    then show ?thesis using member_at[OF ok'[unfolded spbset_ok_def], of k n] k by (simp add: ch sp_members_def c_def)
  next
    case False
    have "(\<exists>d\<in>set (chunks b'). unat (offset d) = base n \<and> n mod 256 \<in> members (chunk_bset d)) \<longleftrightarrow>
      (\<exists>d\<in>set (chunks b). unat (offset d) = base n \<and> n mod 256 \<in> members (chunk_bset d))"
    proof -
      have "chunks b' ! j = chunks b ! j" if "j < length (chunks b)" "unat (offset (chunks b ! j)) = base n" for j
        using that False by (cases "j = k") (auto simp: ch c_def)
      moreover have "offset (chunks b' ! j) = offset (chunks b ! j)" if "j < length (chunks b)" for j
        using that by (cases "j = k") (auto simp: ch c_def)
      moreover have "length (chunks b') = length (chunks b)" by (simp add: ch)
      ultimately show ?thesis by (metis (no_types, lifting) in_set_conv_nth)
    qed
    with False show ?thesis by (simp add: sp_members_def list_members_def)
  qed
qed

lemma base_eq_iff: "base n = base i \<Longrightarrow> n mod 256 = i mod 256 \<longleftrightarrow> n = (i::nat)"
  by (metis mult_div_mod_eq)

lemma sp_add_ok:
  assumes ok: "spbset_ok b" and a: "Curl_uint32_spbset_add b i m = (r, b', m')"
  shows "spbset_ok b' \<and> (if r then sp_members b' = insert (unat i) (sp_members b) else b' = b \<and> \<not> m 0)"
proof -
  obtain g b1 m1 where g: "uint32_spbset_get_chunk b i True m = (g, b1, m1)" by (metis prod_cases3)
  note G = get_chunk_ok[OF ok g]
  show ?thesis
  proof (cases g)
    case None
    with a g G show ?thesis by (auto simp: Curl_uint32_spbset_add_def)
  next
    case (Some k)
    define c where "c = chunks b1 ! k"
    define j where "j = i - offset c"
    define ss where "ss = (ch_slots c)[unat (j div 64) := ch_slots c ! unat (j div 64) OR push_bit (unat (j mod 64)) 1]"
    have k: "k < length (chunks b1)" "unat (offset c) = base (unat i)" and b1: "spbset_ok b1" "sp_members b1 = sp_members b"
      using G Some by (auto simp: c_def)
    have b': "r" "b' = from_chunks ((chunks b1)[k := c\<lparr>ch_slots := ss\<rparr>])"
      using a g Some by (auto simp: Curl_uint32_spbset_add_def Let_def c_def j_def ss_def)
    have cok: "chunk_ok c" unfolding c_def by (rule chunks_okD(1)[OF b1(1)[unfolded spbset_ok_def] k(1)])
    have j: "unat j = unat i mod 256" unfolding j_def by (rule in_chunk_word[OF k(2)])
    have "Curl_uint32_bset_add (chunk_bset c) j = (True, chunk_bset (c\<lparr>ch_slots := ss\<rparr>))"
      using chunk_slot[OF j[unfolded j_def]]
      by (simp add: Curl_uint32_bset_add_def Let_def ss_def chunk_bset_def j_def[symmetric] not_le)
    from add_ok[OF chunk_bset_ok[OF cok] this] j
    have M: "members (chunk_bset (c\<lparr>ch_slots := ss\<rparr>)) = insert (unat i mod 256) (members (chunk_bset c))" by simp
    have "length ss = 4" using cok by (simp add: ss_def chunk_ok_def)
    note U = update_chunk_ok[OF b1(1) k(1) this, folded c_def, folded b'(2)]
    have "n \<in> sp_members b' \<longleftrightarrow> n \<in> insert (unat i) (sp_members b)" for n
      using U(2)[of n] M member_at[OF b1(1)[unfolded spbset_ok_def] k(1), of n] k(2) b1(2) base_eq_iff[of n "unat i"]
      by (auto simp: c_def sp_members_def)
    with U(1) b'(1) show ?thesis by auto
  qed
qed

lemma sp_remove_ok:
  assumes ok: "spbset_ok b"
  shows "spbset_ok (Curl_uint32_spbset_remove b i) \<and> sp_members (Curl_uint32_spbset_remove b i) = sp_members b - {unat i}"
proof -
  obtain g b1 m1 where g: "uint32_spbset_get_chunk b i False (\<lambda>_. False) = (g, b1, m1)" by (metis prod_cases3)
  note G = get_chunk_ok[OF ok g]
  show ?thesis
  proof (cases g)
    case None
    with G have "unat i \<notin> sp_members b" by (auto simp: sp_members_def intro!: member_nowhere)
    with None g G show ?thesis by (auto simp: Curl_uint32_spbset_remove_def)
  next
    case (Some k)
    define c where "c = chunks b1 ! k"
    define j where "j = i - offset c"
    define ss where "ss = (ch_slots c)[unat (j div 64) := ch_slots c ! unat (j div 64) AND NOT (push_bit (unat (j mod 64)) 1)]"
    have k: "k < length (chunks b1)" "unat (offset c) = base (unat i)" and b1: "spbset_ok b1" "sp_members b1 = sp_members b"
      using G Some by (auto simp: c_def)
    have b': "Curl_uint32_spbset_remove b i = from_chunks ((chunks b1)[k := c\<lparr>ch_slots := ss\<rparr>])"
      using g Some by (auto simp: Curl_uint32_spbset_remove_def Let_def c_def j_def ss_def)
    have cok: "chunk_ok c" unfolding c_def by (rule chunks_okD(1)[OF b1(1)[unfolded spbset_ok_def] k(1)])
    have j: "unat j = unat i mod 256" unfolding j_def by (rule in_chunk_word[OF k(2)])
    have "Curl_uint32_bset_remove (chunk_bset c) j = chunk_bset (c\<lparr>ch_slots := ss\<rparr>)"
      using chunk_slot[OF j[unfolded j_def]]
      by (simp add: Curl_uint32_bset_remove_def Let_def ss_def chunk_bset_def j_def[symmetric])
    with remove_ok[OF chunk_bset_ok[OF cok], of j] j
    have M: "members (chunk_bset (c\<lparr>ch_slots := ss\<rparr>)) = members (chunk_bset c) - {unat i mod 256}" by simp
    have "length ss = 4" using cok by (simp add: ss_def chunk_ok_def)
    note U = update_chunk_ok[OF b1(1) k(1) this, folded c_def, folded b']
    have "n \<in> sp_members (Curl_uint32_spbset_remove b i) \<longleftrightarrow> n \<in> sp_members b - {unat i}" for n
      using U(2)[of n] M member_at[OF b1(1)[unfolded spbset_ok_def] k(1), of n] k(2) b1(2) base_eq_iff[of n "unat i"]
      by (auto simp: c_def sp_members_def)
    with U(1) show ?thesis by auto
  qed
qed

lemma sp_contains_ok:
  assumes ok: "spbset_ok b"
  shows "Curl_uint32_spbset_contains b i \<longleftrightarrow> unat i \<in> sp_members b"
proof -
  obtain g b1 m1 where g: "uint32_spbset_get_chunk b i False (\<lambda>_. False) = (g, b1, m1)" by (metis prod_cases3)
  note G = get_chunk_ok[OF ok g]
  show ?thesis
  proof (cases g)
    case None
    with G have "unat i \<notin> sp_members b" by (auto simp: sp_members_def intro!: member_nowhere)
    with None g show ?thesis by (simp add: Curl_uint32_spbset_contains_def)
  next
    case (Some k)
    define c where "c = chunks b1 ! k"
    have k: "k < length (chunks b1)" "unat (offset c) = base (unat i)" and b1: "spbset_ok b1" "sp_members b1 = sp_members b"
      using G Some by (auto simp: c_def)
    have cok: "chunk_ok c" unfolding c_def by (rule chunks_okD(1)[OF b1(1)[unfolded spbset_ok_def] k(1)])
    note j = in_chunk_word[OF k(2)]
    have "\<not> 4 \<le> (i - offset c) div 64" using chunk_slot[OF j] by (simp add: not_le)
    then have "Curl_uint32_spbset_contains b i = Curl_uint32_bset_contains (chunk_bset c) (i - offset c)"
      using g Some by (simp add: Curl_uint32_spbset_contains_def Curl_uint32_bset_contains_def Let_def c_def[symmetric])
    also have "\<dots> = (unat i mod 256 \<in> members (chunk_bset c))" using contains_ok[OF chunk_bset_ok[OF cok]] j by simp
    also have "\<dots> = (unat i \<in> sp_members b)"
      using member_at[OF b1(1)[unfolded spbset_ok_def] k(1), of "unat i"] k(2) b1(2) by (simp add: c_def sp_members_def)
    finally show ?thesis .
  qed
qed

section \<open>Scans\<close>

lemma offset_fits:
  assumes "chunk_ok c" "unat x < 256"
  shows "unat (offset c + x) = unat (offset c) + unat x"
proof -
  have "unat (offset c) < 2 ^ 32" using unsigned_less[of "offset c", where 'a = nat] by simp
  moreover obtain q where "unat (offset c) = 256 * q" using assms(1) by (auto simp: chunk_ok_def)
  ultimately have "unat (offset c) + unat x < 2 ^ 32" using assms(2) by simp
  then show ?thesis by (simp add: unat_word_ariths)
qed

definition chunk_numbers :: "uint32_spbset_chunk \<Rightarrow> nat set" where
  "chunk_numbers c = (\<lambda>m. unat (offset c) + m) ` members (chunk_bset c)"

lemma chunk_numbers_base: "chunk_ok c \<Longrightarrow> n \<in> chunk_numbers c \<longleftrightarrow> unat (offset c) = base n \<and> n mod 256 \<in> members (chunk_bset c)"
proof
  assume c: "chunk_ok c" and "n \<in> chunk_numbers c"
  then obtain m where m: "n = unat (offset c) + m" "m \<in> members (chunk_bset c)" by (auto simp: chunk_numbers_def)
  moreover obtain q where "unat (offset c) = 256 * q" using c by (auto simp: chunk_ok_def)
  ultimately show "unat (offset c) = base n \<and> n mod 256 \<in> members (chunk_bset c)"
    using chunk_member_bound[OF c m(2)] by simp
next
  assume "unat (offset c) = base n \<and> n mod 256 \<in> members (chunk_bset c)"
  then show "n \<in> chunk_numbers c"
    by (auto simp: chunk_numbers_def intro!: image_eqI[of _ _ "n mod 256"])
qed

lemma list_members_Cons: "chunk_ok c \<Longrightarrow> list_members (c # cs) = chunk_numbers c \<union> list_members cs"
  using chunk_numbers_base[of c] by (auto simp: list_members_def)

lemma list_members_Nil [simp]: "list_members [] = {}"
  by (simp add: list_members_def)

lemma finite_chunk_numbers: "chunk_ok c \<Longrightarrow> finite (chunk_numbers c)"
  by (simp add: chunk_numbers_def chunk_bset_ok)

lemma finite_list_members: "list_all chunk_ok cs \<Longrightarrow> finite (list_members cs)"
  by (induction cs) (simp_all add: list_members_Cons finite_chunk_numbers)

lemma chunk_first_ok:
  assumes "chunk_ok c" "uint32_spbset_chunk_first c = (r, x)"
  shows "if chunk_numbers c = {} then \<not> r \<and> x = UINT32_MAX else r \<and> unat x \<in> chunk_numbers c \<and> (\<forall>n\<in>chunk_numbers c. unat x \<le> n)"
proof -
  have ok: "bset_ok (chunk_bset c)" by (rule chunk_bset_ok[OF assms(1)])
  have sf: "slots_from (chunk_bset c) 0 = ch_slots c" using slots_from_eq[OF ok, of 0] by simp
  show ?thesis
  proof (cases rule: scan_from_split[OF ok, of 0])
    case 1
    with sf assms(2) show ?thesis by (auto simp: uint32_spbset_chunk_first_def chunk_numbers_def)
  next
    case (2 j s)
    note N = number_fits[OF ok 2(2,4)]
    have r: "r" "x = offset c + (of_nat j * 64 + of_nat (Curl_ctz64 s))"
      using 2(1) sf assms(2) by (auto simp: uint32_spbset_chunk_first_def)
    have "64 * j + Curl_ctz64 s < 256" by (rule chunk_member_bound[OF assms(1) 2(3)])
    then have u: "unat x = unat (offset c) + (64 * j + Curl_ctz64 s)" using offset_fits[OF assms(1)] N r(2) by simp
    have "64 * j + Curl_ctz64 s \<le> m" if "m \<in> members (chunk_bset c)" for m
      using Min_le[OF finite_members[OF ok] that] 2(5) by simp
    with u r 2(3) show ?thesis by (auto simp: chunk_numbers_def)
  qed
qed

lemma chunks_above:
  assumes "chunks_ok (c # cs)" "n \<in> chunk_numbers c" "k \<in> list_members cs"
  shows "n < k"
proof -
  obtain d where d: "d \<in> set cs" "unat (offset d) = base k" using assms(3) by (auto simp: list_members_def)
  have "unat (offset c) < unat (offset d)" using assms(1) d(1) by (auto simp: chunks_ok_def word_less_nat_alt)
  moreover have "unat (offset c) = base n" using assms chunk_numbers_base by (auto simp: chunks_ok_def)
  ultimately have "n div 256 < k div 256" using d(2) by simp
  then show ?thesis by (meson div_le_mono leD not_le_imp_less)
qed

lemma sp_chunks_ok_Cons: "chunks_ok (c # cs) \<Longrightarrow> chunk_ok c \<and> chunks_ok cs"
  by (simp add: chunks_ok_def)

lemma first_chunk_ok:
  assumes "chunks_ok cs"
  shows "case first_chunk cs of
      None \<Rightarrow> list_members cs = {}
    | Some x \<Rightarrow> unat x \<in> list_members cs \<and> (\<forall>n\<in>list_members cs. unat x \<le> n)"
  using assms
proof (induction cs)
  case (Cons c cs)
  note C = sp_chunks_ok_Cons[OF Cons.prems]
  obtain r x where f: "uint32_spbset_chunk_first c = (r, x)" by fastforce
  note F = chunk_first_ok[OF conjunct1[OF C] f]
  show ?case
  proof (cases "chunk_numbers c = {}")
    case True
    then have "list_members (c # cs) = list_members cs" using C by (simp add: list_members_Cons)
    moreover have "first_chunk (c # cs) = first_chunk cs" using True F f by simp
    ultimately show ?thesis using Cons.IH C by (simp only:)
  next
    case False
    with F have "r" "unat x \<in> chunk_numbers c" "\<forall>n\<in>chunk_numbers c. unat x \<le> n" by auto
    moreover have "\<forall>n\<in>list_members cs. unat x \<le> n" using chunks_above[OF Cons.prems] calculation(2) by (auto intro: less_imp_le)
    ultimately show ?thesis using f C by (auto simp: list_members_Cons)
  qed
qed simp

lemma chunk_next_bset:
  assumes "chunk_ok c" "unat (offset c) = base (unat l)"
  shows "uint32_spbset_chunk_next c l =
    (case Curl_uint32_bset_next (chunk_bset c) (l - offset c - 1) of (r, y) \<Rightarrow> if r then (True, offset c + y) else (False, UINT32_MAX))"
proof -
  have le: "offset c \<le> l" using assms(2) by (simp add: word_le_nat_alt)
  note j = in_chunk_word[OF assms(2)]
  have "unat ((l - offset c) div 64) < 4" using chunk_slot[OF j] by (simp add: word_less_nat_alt)
  moreover have "(l - offset c) div 64 < 4" using chunk_slot[OF j] by simp
  moreover have "unat ((l - offset c) mod 64) = unat (l mod 64)"
    by (simp add: j mod_mod_cancel)
  moreover have "slots_from (chunk_bset c) k = drop k (ch_slots c)" for k
    using slots_from_eq[OF chunk_bset_ok[OF assms(1)], of k] by simp
  ultimately show ?thesis using le
    by (simp add: uint32_spbset_chunk_next_def Curl_uint32_bset_next_def CURL_UINT32_SPBSET_CH_SLOTS_def Let_def add.assoc
        split: option.split prod.split)
qed

lemma chunk_next_ok:
  assumes "chunk_ok c" "unat (offset c) = base (unat l)" "uint32_spbset_chunk_next c l = (r, x)"
  defines "S \<equiv> {n \<in> chunk_numbers c. unat l \<le> n}"
  shows "if S = {} then \<not> r else r \<and> unat x \<in> S \<and> (\<forall>n\<in>S. unat x \<le> n)"
proof -
  obtain r' y where n: "Curl_uint32_bset_next (chunk_bset c) (l - offset c - 1) = (r', y)" by fastforce
  let ?T = "{m \<in> members (chunk_bset c). unat l mod 256 \<le> m}"
  have ok: "bset_ok (chunk_bset c)" by (rule chunk_bset_ok[OF assms(1)])
  have N: "if ?T = {} then \<not> r' \<and> y = UINT32_MAX else r' \<and> unat y = Min ?T"
    using next_from[OF ok n] in_chunk_word[OF assms(2)] by simp
  have "unat l \<le> unat (offset c) + m \<longleftrightarrow> unat l mod 256 \<le> m" for m
    unfolding assms(2) by (metis add_le_cancel_left mult_div_mod_eq)
  then have S: "S = (\<lambda>m. unat (offset c) + m) ` ?T" by (auto simp: S_def chunk_numbers_def)
  have rx: "r = r'" "r' \<Longrightarrow> x = offset c + y" using assms(3) chunk_next_bset[OF assms(1,2)] n by (auto split: if_splits)
  show ?thesis
  proof (cases "?T = {}")
    case True
    with N rx S show ?thesis by auto
  next
    case False
    have fin: "finite ?T" using finite_members[OF ok] by simp
    have M: "Min ?T \<in> ?T" by (rule Min_in[OF fin False])
    with chunk_member_bound[OF assms(1)] N False have "unat y < 256" by auto
    with offset_fits[OF assms(1)] rx N False have "unat x = unat (offset c) + Min ?T" "r" by auto
    with M S Min_le[OF fin] False show ?thesis by auto
  qed
qed

lemma sp_next_from:
  assumes ok: "spbset_ok b" and e: "Curl_uint32_spbset_next b last0 = (r, x)"
  defines "S \<equiv> {n \<in> sp_members b. unat (last0 + 1) \<le> n}"
  shows "if S = {} then \<not> r \<and> x = UINT32_MAX else r \<and> unat x = Min S"
proof -
  define l where "l = last0 + 1"
  define off where "off = l AND NOT CURL_UINT32_SPBSET_CH_MASK"
  have off: "unat off = base (unat l)" by (simp add: off_def mask_base)
  define lo where "lo = takeWhile (\<lambda>c. offset c < off) (chunks b)"
  define hi where "hi = dropWhile (\<lambda>c. offset c < off) (chunks b)"
  have split: "chunks b = lo @ hi" by (simp add: lo_def hi_def)
  have hi_ok: "chunks_ok hi" using ok by (simp add: spbset_ok_def split chunks_ok_def sorted_wrt_append)
  have "n < unat l" if "n \<in> list_members lo" for n
  proof -
    obtain c where c: "c \<in> set lo" "unat (offset c) = base n" using \<open>n \<in> list_members lo\<close> by (auto simp: list_members_def)
    have "offset c < off" using c(1) unfolding lo_def by (auto dest: set_takeWhileD)
    then have "n div 256 < unat l div 256" using c(2) off by (simp add: word_less_nat_alt)
    then show ?thesis by (meson div_le_mono leD not_le_imp_less)
  qed
  moreover have "sp_members b = list_members lo \<union> list_members hi" by (auto simp: sp_members_def split list_members_def)
  ultimately have S: "S = {n \<in> list_members hi. unat l \<le> n}" by (auto simp: S_def l_def[symmetric] not_less[symmetric])
  have fin: "finite S" using finite_list_members[of hi] hi_ok by (simp add: S chunks_ok_def)
  have above: "{n \<in> list_members cs. unat l \<le> n} = list_members cs" if "\<forall>c\<in>set cs. off < offset c" for cs
  proof -
    have "unat l \<le> n" if "n \<in> list_members cs" for n
    proof -
      obtain c where "c \<in> set cs" "unat (offset c) = base n" using \<open>n \<in> list_members cs\<close> by (auto simp: list_members_def)
      then have "unat l div 256 < n div 256" using \<open>\<forall>c\<in>set cs. off < offset c\<close> off by (auto simp: word_less_nat_alt)
      then show ?thesis by (meson div_le_mono leD nat_le_linear)
    qed
    then show ?thesis by auto
  qed
  note E = e[unfolded Curl_uint32_spbset_next_def Let_def l_def[symmetric] off_def[symmetric] hi_def[symmetric]]
  have least: "Min S = y" if "y \<in> S" "\<forall>n\<in>S. y \<le> n" for y using that fin by (intro Min_eqI) auto
  show ?thesis
  proof (cases hi)
    case Nil
    with E S show ?thesis by auto
  next
    case (Cons c cs)
    have C: "chunk_ok c" "chunks_ok cs" using sp_chunks_ok_Cons[OF hi_ok[unfolded Cons]] by auto
    have "\<not> offset c < off" using Cons hi_def by (metis hd_dropWhile list.distinct(1) list.sel(1))
    moreover have "\<forall>d\<in>set cs. offset c < offset d" using hi_ok Cons by (simp add: chunks_ok_def)
    ultimately have cs_above: "\<forall>d\<in>set cs. off < offset d" by (auto simp: not_less dest: le_less_trans)
    show ?thesis
    proof (cases "offset c = off")
      case True
      obtain r1 x1 where n: "uint32_spbset_chunk_next c l = (r1, x1)" by fastforce
      note N = chunk_next_ok[OF C(1) off[folded True] n]
      have S': "S = {n \<in> chunk_numbers c. unat l \<le> n} \<union> list_members cs"
        using above[OF cs_above] by (auto simp: S Cons list_members_Cons[OF C(1)])
      show ?thesis
      proof (cases r1)
        case r1: True
        then have "unat x1 \<in> {n \<in> chunk_numbers c. unat l \<le> n}" "\<forall>n\<in>{n \<in> chunk_numbers c. unat l \<le> n}. unat x1 \<le> n"
          using N by (auto split: if_splits)
        moreover have "\<forall>n\<in>list_members cs. unat x1 \<le> n"
          using chunks_above[OF hi_ok[unfolded Cons]] calculation(1) by (auto intro: less_imp_le)
        ultimately have "Min S = unat x1" "S \<noteq> {}" using least[of "unat x1"] by (auto simp: S')
        with E Cons True n r1 show ?thesis by auto
      next
        case r1: False
        then have "S = list_members cs" using N S' by (auto split: if_splits)
        with E Cons True n r1 first_chunk_ok[OF C(2)] least show ?thesis by (auto split: option.splits)
      qed
    next
      case False
      then have "\<forall>d\<in>set hi. off < offset d" using cs_above \<open>\<not> offset c < off\<close> Cons by auto
      from above[OF this] have "S = list_members hi" by (simp add: S)
      with E Cons False first_chunk_ok[OF hi_ok] least show ?thesis by (auto split: option.splits)
    qed
  qed
qed

lemma sp_first_ok:
  assumes ok: "spbset_ok b" and e: "Curl_uint32_spbset_first b = (r, x)"
  shows "if sp_members b = {} then \<not> r \<and> x = 0 else r \<and> unat x = Min (sp_members b)"
proof -
  have fin: "finite (sp_members b)" using finite_list_members ok by (simp add: sp_members_def spbset_ok_def chunks_ok_def)
  have least: "Min (sp_members b) = y" if "y \<in> sp_members b" "\<forall>n\<in>sp_members b. y \<le> n" for y
    using that fin by (intro Min_eqI) auto
  show ?thesis using first_chunk_ok[of "chunks b"] ok e least
    by (auto simp: Curl_uint32_spbset_first_def spbset_ok_def sp_members_def split: option.splits)
qed

section \<open>Counting\<close>

lemma chunk_count_ok: "chunk_ok c \<Longrightarrow> chunk_count c n = n + card (members (chunk_bset c))"
proof -
  assume c: "chunk_ok c"
  have "chunk_count c n = n + chunk_count c 0" unfolding chunk_count_def count_fold by simp
  moreover have "Curl_uint32_bset_count (chunk_bset c) = chunk_count c 0"
    using c by (simp add: Curl_uint32_bset_count_def chunk_count_def chunk_ok_def)
  ultimately show ?thesis using count_ok[OF chunk_bset_ok[OF c]] by simp
qed

lemma count_list:
  "chunks_ok cs \<Longrightarrow> foldl (\<lambda>n chunk. chunk_count chunk n) k cs = k + card (list_members cs)"
proof (induction cs arbitrary: k)
  case (Cons c cs)
  note C = sp_chunks_ok_Cons[OF Cons.prems]
  have "chunk_numbers c \<inter> list_members cs = {}" using chunks_above[OF Cons.prems] by blast
  moreover have "card (chunk_numbers c) = card (members (chunk_bset c))"
    unfolding chunk_numbers_def by (rule card_image) (simp add: inj_on_def)
  ultimately have "card (list_members (c # cs)) = card (members (chunk_bset c)) + card (list_members cs)"
    using C finite_chunk_numbers[of c] finite_list_members[of cs] by (simp add: list_members_Cons card_Un_disjoint chunks_ok_def)
  with Cons.IH C chunk_count_ok show ?case by simp
qed simp

section \<open>The contract of an ordered set of numbers\<close>

definition spbset_first_number :: "uint32_spbset \<Rightarrow> nat option" where
  "spbset_first_number b = (case Curl_uint32_spbset_first b of (r, x) \<Rightarrow> if r then Some (unat x) else None)"

definition spbset_next_number :: "uint32_spbset \<Rightarrow> nat \<Rightarrow> nat option" where
  "spbset_next_number b last0 = (case Curl_uint32_spbset_next b (of_nat last0) of (r, x) \<Rightarrow> if r then Some (unat x) else None)"

text \<open>A set that can be walked: well formed and without the largest number.\<close>

definition walkable :: "uint32_spbset \<Rightarrow> bool" where
  "walkable b \<longleftrightarrow> spbset_ok b \<and> 4294967295 \<notin> sp_members b"

lemma sp_members_bound: "spbset_ok b \<Longrightarrow> n \<in> sp_members b \<Longrightarrow> n < 4294967296"
proof -
  assume ok: "spbset_ok b" and "n \<in> sp_members b"
  then obtain c where c: "c \<in> set (chunks b)" "unat (offset c) = base n" by (auto simp: sp_members_def list_members_def)
  have "unat (offset c) < 4294967296" using unsigned_less[of "offset c", where 'a = nat] by simp
  with c(2) have "n div 256 < 16777216" by simp
  then show ?thesis by (simp add: div_less_iff_less_mult)
qed

lemma finite_sp_members: "spbset_ok b \<Longrightarrow> finite (sp_members b)"
  using finite_list_members by (simp add: sp_members_def spbset_ok_def chunks_ok_def)

interpretation spbset: ordered_numbers walkable sp_members spbset_first_number spbset_next_number
proof (unfold_locales, goal_cases)
  case (1 b)
  then show ?case by (simp add: walkable_def finite_sp_members)
next
  case (2 b)
  obtain r x where e: "Curl_uint32_spbset_first b = (r, x)" by fastforce
  from 2 sp_first_ok[OF _ e] e show ?case by (auto simp: spbset_first_number_def walkable_def split: if_splits)
next
  case (3 b x)
  have "x < 4294967295" using 3 sp_members_bound[of b x] by (cases "x = 4294967295") (auto simp: walkable_def)
  then have "unat (of_nat (Suc x) :: 32 word) = Suc x" by (simp only: unat_of_nat) (simp add: take_bit_nat_eq_self)
  then have s: "unat (of_nat x + 1 :: 32 word) = Suc x" by (simp add: add.commute)
  obtain r y where e: "Curl_uint32_spbset_next b (of_nat x) = (r, y)" by fastforce
  from 3 sp_next_from[OF _ e] e s show ?case by (auto simp: spbset_next_number_def walkable_def Suc_le_eq split: if_splits)
qed

section \<open>Properties\<close>

lemma spbset_init_ok: "spbset_ok Curl_uint32_spbset_init" "sp_members Curl_uint32_spbset_init = {}"
proof -
  have z: "zero_chunk = zero_chunk\<lparr>offset := 0\<rparr>" by (simp add: zero_chunk_def)
  show "spbset_ok Curl_uint32_spbset_init"
    using zero_chunk_ok[of 0] z by (simp add: spbset_ok_def chunks_ok_def chunks_def Curl_uint32_spbset_init_def)
  have "members (chunk_bset zero_chunk) = {}" by (subst z) (rule zero_chunk_empty)
  then show "sp_members Curl_uint32_spbset_init = {}"
    by (simp add: sp_members_def list_members_def chunks_def Curl_uint32_spbset_init_def)
qed

text \<open>
  C26: The sparse bit set is a set of 32-bit numbers: it starts empty; adding inserts, or fails when
  a chunk is needed and cannot be allocated, with the set unchanged; removing deletes; containment
  reports membership; the count is the cardinality, in 32 bits. The reuse of empty chunks, the swap
  of the head chunk and the insertion of new chunks keep the list sorted and lose no member.
\<close>

theorem spbset_refines_set:
  assumes "spbset_ok b"
  shows "Curl_uint32_spbset_contains b i = (unat i \<in> sp_members b) \<and>
    Curl_uint32_spbset_count b = of_nat (card (sp_members b)) \<and>
    (case Curl_uint32_spbset_add b i m of (r, b', m') \<Rightarrow>
       spbset_ok b' \<and> (if r then sp_members b' = insert (unat i) (sp_members b) else sp_members b' = sp_members b \<and> \<not> m 0)) \<and>
    spbset_ok (Curl_uint32_spbset_remove b i) \<and> sp_members (Curl_uint32_spbset_remove b i) = sp_members b - {unat i} \<and>
    spbset_ok (uint32_spbset_clear b) \<and> sp_members (uint32_spbset_clear b) = {}"
proof -
  obtain r b' m' where a: "Curl_uint32_spbset_add b i m = (r, b', m')" by (metis prod_cases3)
  have "uint32_spbset_clear b = Curl_uint32_spbset_init" by (simp add: uint32_spbset_clear_def Curl_uint32_spbset_init_def)
  moreover have "Curl_uint32_spbset_count b = of_nat (card (sp_members b))"
    using count_list[of "chunks b" 0] assms by (simp add: Curl_uint32_spbset_count_def spbset_ok_def sp_members_def)
  ultimately show ?thesis
    using sp_contains_ok[OF assms, of i] sp_add_ok[OF assms a] sp_remove_ok[OF assms, of i] a spbset_init_ok by simp
qed

definition sample_spbset :: uint32_spbset where
  "sample_spbset = \<lparr>head = \<lparr>ch_slots = [8, 0, 0, 0], offset = 0\<rparr>, tail_chunks = [\<lparr>ch_slots = [0, 1, 0, 0], offset = 512\<rparr>]\<rparr>"

lemma sample_spbset_ok: "spbset_ok sample_spbset"
  by (simp add: spbset_ok_def chunks_ok_def chunks_def sample_spbset_def chunk_ok_def)

theorem spbset_refines_set_witness:
  "spbset_ok sample_spbset \<and> Curl_uint32_spbset_contains sample_spbset 576 \<and> 576 \<in> sp_members sample_spbset \<and>
   fst (Curl_uint32_spbset_add sample_spbset 300 (\<lambda>_. True))"
proof -
  have "Curl_uint32_spbset_contains sample_spbset 576" "fst (Curl_uint32_spbset_add sample_spbset 300 (\<lambda>_. True))" by code_simp+
  with spbset_refines_set[OF sample_spbset_ok, of 576 "\<lambda>_. True"] sample_spbset_ok show ?thesis by simp
qed

text \<open>
  The first and the next number of the sparse set: a walk from the first number that asks for the
  next one lists the whole set in ascending order, unless 4294967295 is a member. From any number
  below that one, member or not, the next number is the least greater member.
\<close>

theorem spbset_walk_sorted:
  assumes "spbset_ok b" "4294967295 \<notin> sp_members b" "spbset_first_number b = Some x"
  shows "walk spbset_next_number b (card (sp_members b)) x = sorted_list_of_set (sp_members b)"
  using spbset.walk_all[of b x] assms by (simp add: walkable_def)

theorem spbset_walk_sorted_witness:
  "4294967295 \<notin> sp_members sample_spbset \<and> spbset_first_number sample_spbset = Some 3 \<and>
   walk spbset_next_number sample_spbset (card (sp_members sample_spbset)) 3 = sorted_list_of_set (sp_members sample_spbset)"
proof -
  have f: "spbset_first_number sample_spbset = Some 3" by code_simp
  have n: "\<not> Curl_uint32_spbset_contains sample_spbset 4294967295" by code_simp
  then have "4294967295 \<notin> sp_members sample_spbset" using sp_contains_ok[OF sample_spbset_ok, of 4294967295] by simp
  with f spbset_walk_sorted[OF sample_spbset_ok] show ?thesis by simp
qed

text \<open>
  With 4294967295 in the set, which the header allows, asking for the number after it returns the
  least member: the increment wraps, and a walk that stops at the first failure does not end.
\<close>

theorem spbset_next_wraps:
  assumes "spbset_ok b" "4294967295 \<in> sp_members b"
  shows "spbset_next_number b 4294967295 = spbset_first_number b \<and> spbset_first_number b \<noteq> None"
proof -
  obtain r x where e: "Curl_uint32_spbset_next b (of_nat 4294967295) = (r, x)" by fastforce
  obtain r1 x1 where f: "Curl_uint32_spbset_first b = (r1, x1)" by fastforce
  have z: "(of_nat 4294967295 + 1 :: 32 word) = 0" by simp
  have ne: "sp_members b \<noteq> {}" using assms(2) by auto
  have "r" "unat x = Min (sp_members b)" using sp_next_from[OF assms(1) e, unfolded z] ne by simp_all
  moreover have "r1" "unat x1 = Min (sp_members b)" using sp_first_ok[OF assms(1) f] ne by simp_all
  ultimately show ?thesis using e f by (simp add: spbset_next_number_def spbset_first_number_def)
qed

theorem spbset_next_wraps_witness:
  "case Curl_uint32_spbset_add sample_spbset 4294967295 (\<lambda>_. True) of (r, b, m) \<Rightarrow>
     r \<and> spbset_next_number b 4294967295 = spbset_first_number b"
proof -
  obtain r b m where a: "Curl_uint32_spbset_add sample_spbset 4294967295 (\<lambda>_. True) = (r, b, m)" by (metis prod_cases3)
  have "fst (Curl_uint32_spbset_add sample_spbset 4294967295 (\<lambda>_. True))" by code_simp
  with a have "r" by simp
  with sp_add_ok[OF sample_spbset_ok a] spbset_next_wraps[of b] a show ?thesis by simp
qed

end
