(* ===== verification/Curl_Timeval.thy ===== *)
theory Curl_Timeval
  imports Curl_Code "HOL-Library.Signed_Division"
begin

text \<open>
  Time differences of \<open>old/lib/curlx/timeval.c\<close> and \<open>timediff.c\<close>: a time is a number of seconds and of
  microseconds, a difference a 64-bit number. Division is C's, which rounds towards zero (\<open>sdiv\<close> and
  \<open>smod\<close>); values are integers, and the theorems give the bounds that keep them in 64 bits. Seconds
  are a 64-bit \<open>time_t\<close>, so \<open>curlx_mstotv\<close> needs no cut.
\<close>

section \<open>Definitions\<close>

record curltime =
  tv_sec :: int
  tv_usec :: int

definition TIMEDIFF_T_MAX :: int where "TIMEDIFF_T_MAX = 0x7FFFFFFFFFFFFFFF"
definition TIMEDIFF_T_MIN :: int where "TIMEDIFF_T_MIN = - TIMEDIFF_T_MAX - 1"

definition curlx_ptimediff_ms :: "curltime \<Rightarrow> curltime \<Rightarrow> int" where
  "curlx_ptimediff_ms newer older =
     (let diff = tv_sec newer - tv_sec older in
      if diff \<ge> TIMEDIFF_T_MAX sdiv 1000 then TIMEDIFF_T_MAX
      else if diff \<le> TIMEDIFF_T_MIN sdiv 1000 then TIMEDIFF_T_MIN
      else diff * 1000 + (tv_usec newer - tv_usec older) sdiv 1000)"

definition curlx_timediff_ms :: "curltime \<Rightarrow> curltime \<Rightarrow> int" where
  "curlx_timediff_ms newer older = curlx_ptimediff_ms newer older"

definition curlx_timediff_ceil_ms :: "curltime \<Rightarrow> curltime \<Rightarrow> int" where
  "curlx_timediff_ceil_ms newer older =
     (let diff = tv_sec newer - tv_sec older in
      if diff \<ge> TIMEDIFF_T_MAX sdiv 1000 then TIMEDIFF_T_MAX
      else if diff \<le> TIMEDIFF_T_MIN sdiv 1000 then TIMEDIFF_T_MIN
      else diff * 1000 + (tv_usec newer - tv_usec older + 999) sdiv 1000)"

definition curlx_us_to_ceil_ms :: "int \<Rightarrow> int" where
  "curlx_us_to_ceil_ms us = us sdiv 1000 + (if us > 0 \<and> us smod 1000 \<noteq> 0 then 1 else 0)"

definition curlx_ptimediff_us :: "curltime \<Rightarrow> curltime \<Rightarrow> int" where
  "curlx_ptimediff_us newer older =
     (let diff = tv_sec newer - tv_sec older in
      if diff \<ge> TIMEDIFF_T_MAX sdiv 1000000 then TIMEDIFF_T_MAX
      else if diff \<le> TIMEDIFF_T_MIN sdiv 1000000 then TIMEDIFF_T_MIN
      else diff * 1000000 + tv_usec newer - tv_usec older)"

definition curlx_timediff_us :: "curltime \<Rightarrow> curltime \<Rightarrow> int" where
  "curlx_timediff_us newer older = curlx_ptimediff_us newer older"

definition curlx_mstotv :: "int \<Rightarrow> (int \<times> int) option" where
  "curlx_mstotv ms =
     (if ms < 0 then None
      else if ms > 0 then Some (ms sdiv 1000, (ms smod 1000) * 1000)
      else Some (0, 0))"

definition curlx_tvtoms :: "int \<times> int \<Rightarrow> int" where
  "curlx_tvtoms tv = fst tv * 1000 + snd tv sdiv 1000"

section \<open>Exactness\<close>

definition time_ok :: "curltime \<Rightarrow> bool" where
  "time_ok t \<longleftrightarrow> 0 \<le> tv_usec t \<and> tv_usec t < 1000000"

definition micros :: "curltime \<Rightarrow> int" where
  "micros t = tv_sec t * 1000000 + tv_usec t"

lemma sdiv_nonneg: "0 \<le> a \<Longrightarrow> 0 < b \<Longrightarrow> a sdiv b = a div (b::int)"
  by (simp add: signed_divide_int_def sgn_if)

lemma smod_nonneg: "0 \<le> a \<Longrightarrow> 0 < b \<Longrightarrow> a smod b = a mod (b::int)"
  by (cases "a = 0") (simp_all add: signed_modulo_int_def sdiv_nonneg)

lemma sdiv_neg: "a < 0 \<Longrightarrow> 0 < b \<Longrightarrow> a sdiv b = - ((- a) div (b::int))"
  by (simp add: signed_divide_int_def sgn_if)

lemma us_limits: "TIMEDIFF_T_MAX sdiv 1000000 = 9223372036854" "TIMEDIFF_T_MIN sdiv 1000000 = -9223372036854"
  by (simp_all add: TIMEDIFF_T_MAX_def TIMEDIFF_T_MIN_def sdiv_nonneg sdiv_neg)

lemma ms_limits: "TIMEDIFF_T_MAX sdiv 1000 = 9223372036854775" "TIMEDIFF_T_MIN sdiv 1000 = -9223372036854775"
  by (simp_all add: TIMEDIFF_T_MAX_def TIMEDIFF_T_MIN_def sdiv_nonneg sdiv_neg)

lemma us_to_ceil_ms_ok:
  assumes "0 < us"
  shows "us \<le> 1000 * curlx_us_to_ceil_ms us" "1000 * (curlx_us_to_ceil_ms us - 1) < us"
proof -
  have q: "us = 1000 * (us div 1000) + us mod 1000" "0 \<le> us mod 1000" "us mod 1000 < 1000" by simp_all
  have e: "curlx_us_to_ceil_ms us = us div 1000 + (if us mod 1000 \<noteq> 0 then 1 else 0)"
    using assms by (simp add: curlx_us_to_ceil_ms_def sdiv_nonneg smod_nonneg)
  show "us \<le> 1000 * curlx_us_to_ceil_ms us" "1000 * (curlx_us_to_ceil_ms us - 1) < us"
    unfolding e using q assms by (cases "us mod 1000 = 0"; simp; linarith)+
qed

section \<open>Properties\<close>

text \<open>
  Time differences never leave 64 bits, and are exact up to the range of the result: with
  microsecond parts below a million, the difference in microseconds is the true one when the seconds
  differ by less than 9223372036854, and otherwise the largest or smallest 64-bit number; the difference
  in milliseconds is within one of the true one and never outside 64 bits.
\<close>

theorem timediff_exact:
  assumes "time_ok newer" "time_ok older"
  shows "(let d = tv_sec newer - tv_sec older; us = curlx_timediff_us newer older; ms = curlx_timediff_ms newer older in
    (us = (if 9223372036854 \<le> d then TIMEDIFF_T_MAX else if d \<le> -9223372036854 then TIMEDIFF_T_MIN
           else micros newer - micros older)) \<and>
    TIMEDIFF_T_MIN \<le> us \<and> us \<le> TIMEDIFF_T_MAX \<and> TIMEDIFF_T_MIN \<le> ms \<and> ms \<le> TIMEDIFF_T_MAX \<and>
    (\<bar>d\<bar> < 9223372036854775 \<longrightarrow> \<bar>1000 * ms - (micros newer - micros older)\<bar> < 1000))"
proof -
  define u where "u = tv_usec newer - tv_usec older"
  define d where "d = tv_sec newer - tv_sec older"
  have u: "-1000000 < u" "u < 1000000" using assms by (auto simp: time_ok_def u_def)
  have m: "micros newer - micros older = d * 1000000 + u" by (simp add: micros_def u_def d_def algebra_simps)
  have us: "curlx_timediff_us newer older = (if 9223372036854 \<le> d then TIMEDIFF_T_MAX else if d \<le> -9223372036854 then TIMEDIFF_T_MIN else d * 1000000 + u)"
    by (simp add: curlx_timediff_us_def curlx_ptimediff_us_def us_limits d_def u_def Let_def)
  have ms: "curlx_timediff_ms newer older = (if 9223372036854775 \<le> d then TIMEDIFF_T_MAX else if d \<le> -9223372036854775 then TIMEDIFF_T_MIN else d * 1000 + u sdiv 1000)"
    by (simp add: curlx_timediff_ms_def curlx_ptimediff_ms_def ms_limits d_def u_def Let_def)
  have q: "\<bar>1000 * (u sdiv 1000) - u\<bar> < 1000" "\<bar>u sdiv 1000\<bar> < 1000"
    using u by (cases "0 \<le> u"; simp add: sdiv_nonneg sdiv_neg; linarith)+
  have "TIMEDIFF_T_MIN \<le> curlx_timediff_us newer older \<and> curlx_timediff_us newer older \<le> TIMEDIFF_T_MAX"
    unfolding us using u by (simp add: TIMEDIFF_T_MIN_def TIMEDIFF_T_MAX_def)
  moreover have "TIMEDIFF_T_MIN \<le> curlx_timediff_ms newer older \<and> curlx_timediff_ms newer older \<le> TIMEDIFF_T_MAX"
    unfolding ms using q(2) by (simp add: TIMEDIFF_T_MIN_def TIMEDIFF_T_MAX_def) linarith
  moreover have "\<bar>1000 * curlx_timediff_ms newer older - (d * 1000000 + u)\<bar> < 1000" if "\<bar>d\<bar> < 9223372036854775"
  proof -
    have "\<not> 9223372036854775 \<le> d" "\<not> d \<le> -9223372036854775" using that by auto
    with q(1) show ?thesis by (simp add: ms)
  qed
  ultimately show ?thesis unfolding Let_def m d_def[symmetric] us by simp
qed

theorem timediff_exact_witness:
  "time_ok \<lparr>tv_sec = 3, tv_usec = 5\<rparr> \<and> time_ok \<lparr>tv_sec = 1, tv_usec = 7\<rparr> \<and>
   curlx_timediff_us \<lparr>tv_sec = 3, tv_usec = 5\<rparr> \<lparr>tv_sec = 1, tv_usec = 7\<rparr> = 1999998"
  using timediff_exact[of "\<lparr>tv_sec = 3, tv_usec = 5\<rparr>" "\<lparr>tv_sec = 1, tv_usec = 7\<rparr>"]
  by (simp add: time_ok_def micros_def Let_def)

text \<open>Milliseconds survive the way through a \<open>timeval\<close>.\<close>

theorem mstotv_roundtrip:
  assumes "0 \<le> ms"
  shows "\<exists>tv. curlx_mstotv ms = Some tv \<and> curlx_tvtoms tv = ms \<and> 0 \<le> snd tv \<and> snd tv \<le> 999000"
proof -
  have "curlx_tvtoms (ms div 1000, ms mod 1000 * 1000) = ms" by (simp add: curlx_tvtoms_def sdiv_nonneg)
  moreover have "ms mod 1000 * 1000 \<le> 999000" using pos_mod_bound[of 1000 ms] by simp
  ultimately show ?thesis using assms
    by (cases "ms = 0") (auto simp: curlx_mstotv_def sdiv_nonneg smod_nonneg curlx_tvtoms_def)
qed

theorem mstotv_roundtrip_witness: "\<exists>tv. curlx_mstotv 1234 = Some tv \<and> curlx_tvtoms tv = 1234"
  using mstotv_roundtrip[of 1234] by auto

text \<open>
  The rounded-up difference is one millisecond too large when the microseconds go down and do not
  divide: C rounds the negative quotient up already.
\<close>

theorem timediff_ceil_ms_excess:
  "curlx_timediff_ceil_ms \<lparr>tv_sec = 1, tv_usec = 0\<rparr> \<lparr>tv_sec = 0, tv_usec = 1500\<rparr> = 1000 \<and>
   micros \<lparr>tv_sec = 1, tv_usec = 0\<rparr> - micros \<lparr>tv_sec = 0, tv_usec = 1500\<rparr> = 998500"
  by (simp add: curlx_timediff_ceil_ms_def ms_limits sdiv_neg micros_def)

end
