(* ===== verification/Curl_Splay.thy ===== *)
theory Curl_Splay
  imports Curl_Timeval "HOL-Library.Multiset"
begin

text \<open>
  The timers of \<open>old/lib/splay.c\<close> and \<open>splay.h\<close>: a splay tree of the transfers' next timeouts, keyed
  by their offset in microseconds. A node of the tree is the first of the nodes with its key, with the
  list of the others, the \<open>same\<close> chain, in the order of their insertion. A node is named by its
  address; its own fields (key, id and whether it is registered) are in a store by address. The
  top-down splay keeps the two assembly trees of the source as the lists of the links it has made.
  The tree stands for a queue of timers in the order in which they fire, first in first out among
  equal times, and every operation is the operation on that queue.
\<close>

section \<open>Data\<close>

record node_data =
  nkey :: int
  nid :: "32 word"
  registered :: bool

type_synonym node_store = "nat \<Rightarrow> node_data"

datatype Curl_tree = Leaf | Node Curl_tree int nat "nat list" Curl_tree

section \<open>Splaying\<close>

text \<open>
  A link on the left assembly tree is a node with its smaller branch, waiting for its larger one;
  on the right, a node with its larger branch. The last link made comes first.
\<close>

type_synonym link = "Curl_tree \<times> int \<times> nat \<times> nat list"

definition plug_left :: "link list \<Rightarrow> Curl_tree \<Rightarrow> Curl_tree" where
  "plug_left l t = foldl (\<lambda>t (s, k, a, sm). Node s k a sm t) t l"

definition plug_right :: "link list \<Rightarrow> Curl_tree \<Rightarrow> Curl_tree" where
  "plug_right r t = foldl (\<lambda>t (g, k, a, sm). Node t k a sm g) t r"

definition reassemble :: "Curl_tree \<Rightarrow> int \<Rightarrow> nat \<Rightarrow> nat list \<Rightarrow> Curl_tree \<Rightarrow> link list \<Rightarrow> link list \<Rightarrow> Curl_tree" where
  "reassemble s k a sm g l r = Node (plug_left l s) k a sm (plug_right r g)"

fun splay_loop :: "int \<Rightarrow> Curl_tree \<Rightarrow> link list \<Rightarrow> link list \<Rightarrow> Curl_tree" where
  "splay_loop key Leaf l r = Leaf"
| "splay_loop key (Node s k a sm g) l r =
     (if key < k then
        (case s of
           Leaf \<Rightarrow> reassemble s k a sm g l r
         | Node s' k' a' sm' g' \<Rightarrow>
             if key < k' then
               (let y = Node g' k a sm g in
                if s' = Leaf then reassemble s' k' a' sm' y l r
                else splay_loop key s' l ((y, k', a', sm') # r))
             else splay_loop key s l ((g, k, a, sm) # r))
      else if key > k then
        (case g of
           Leaf \<Rightarrow> reassemble s k a sm g l r
         | Node s' k' a' sm' g' \<Rightarrow>
             if key > k' then
               (let y = Node s k a sm s' in
                if g' = Leaf then reassemble y k' a' sm' g' l r
                else splay_loop key g' ((y, k', a', sm') # l) r)
             else splay_loop key g ((s, k, a, sm) # l) r)
      else reassemble s k a sm g l r)"

definition Curl_splay :: "int \<Rightarrow> Curl_tree \<Rightarrow> Curl_tree" where
  "Curl_splay key root = splay_loop key root [] []"

section \<open>Inserting and removing\<close>

definition Curl_splayinsert :: "int \<Rightarrow> Curl_tree \<Rightarrow> nat \<Rightarrow> 32 word \<Rightarrow> node_store \<Rightarrow> Curl_tree \<times> node_store" where
  "Curl_splayinsert key root node i st =
     (let st = st(node := \<lparr>nkey = key, nid = i, registered = True\<rparr>) in
      (case (if root = Leaf then Leaf else Curl_splay key root) of
         Leaf \<Rightarrow> Node Leaf key node [] Leaf
       | Node s k a sm g \<Rightarrow>
           if key = k then Node s k a (sm @ [node]) g
           else if key < k then Node s key node [] (Node Leaf k a sm g)
           else Node (Node s k a sm Leaf) key node [] g, st))"

definition unregister :: "nat \<Rightarrow> node_store \<Rightarrow> node_store" where
  "unregister a st = st(a := (st a)\<lparr>registered := False\<rparr>)"

definition Curl_splaygetbest :: "int \<Rightarrow> Curl_tree \<Rightarrow> node_store \<Rightarrow> nat option \<times> Curl_tree \<times> node_store" where
  "Curl_splaygetbest key root st =
     (case (if root = Leaf then Leaf else Curl_splay TIMEDIFF_T_MIN root) of
        Leaf \<Rightarrow> (None, Leaf, st)
      | Node s k a sm g \<Rightarrow>
          if key < k then (None, Node s k a sm g, st)
          else
            (case sm of
               x # same \<Rightarrow> (Some a, Node s k x same g, unregister a st)
             | [] \<Rightarrow> (Some a, g, unregister a st)))"

text \<open>
  The result is the return code, the new root when it is written, and the store. In the last case the
  smaller branch is splayed to its largest node, which takes the larger branch of the removed root.
\<close>

definition Curl_splayremove :: "Curl_tree \<Rightarrow> nat \<Rightarrow> node_store \<Rightarrow> int \<times> Curl_tree option \<times> node_store" where
  "Curl_splayremove root removenode st =
     (if root = Leaf then (1, None, st)
      else if \<not> registered (st removenode) then (2, None, st)
      else
        case Curl_splay (nkey (st removenode)) root of
          Leaf \<Rightarrow> (2, None, st)
        | Node s k a sm g \<Rightarrow>
            if k \<noteq> nkey (st removenode) then (2, None, st)
            else if a \<noteq> removenode then
              (if removenode \<in> set sm
               then (0, Some (Node s k a (remove1 removenode sm) g), unregister removenode st)
               else (2, None, st))
            else
              let x = (case sm of
                         y # same \<Rightarrow> Node s k y same g
                       | [] \<Rightarrow>
                           (case s of
                              Leaf \<Rightarrow> g
                            | _ \<Rightarrow>
                                (case Curl_splay (nkey (st removenode)) s of
                                   Leaf \<Rightarrow> Leaf
                                 | Node s' k' a' sm' g' \<Rightarrow> Node s' k' a' sm' g))) in
              (0, Some x, unregister removenode st))"

definition Curl_splayset :: "nat \<Rightarrow> 32 word \<Rightarrow> node_store \<Rightarrow> node_store" where
  "Curl_splayset node i st = st(node := (st node)\<lparr>nid := i\<rparr>)"

definition Curl_splayget :: "nat \<Rightarrow> node_store \<Rightarrow> 32 word" where
  "Curl_splayget node st = nid (st node)"

section \<open>The timers of a multi handle\<close>

record Curl_timeouts =
  timer_tree :: Curl_tree
  time_base :: curltime

definition Curl_timeouts_init :: "curltime \<Rightarrow> Curl_timeouts" where
  "Curl_timeouts_init base = \<lparr>timer_tree = Leaf, time_base = base\<rparr>"

definition Curl_timeouts_has :: "nat \<Rightarrow> node_store \<Rightarrow> bool" where
  "Curl_timeouts_has node st = registered (st node)"

definition Curl_timeouts_offset_us :: "Curl_timeouts \<Rightarrow> curltime \<Rightarrow> int" where
  "Curl_timeouts_offset_us timeouts ts = curlx_ptimediff_us ts (time_base timeouts)"

definition INT_MAX :: int where "INT_MAX = 2147483647"

definition Curl_timeouts_next_ms ::
    "Curl_timeouts \<Rightarrow> curltime \<Rightarrow> node_store \<Rightarrow> int \<times> int \<times> 32 word \<times> Curl_timeouts" where
  "Curl_timeouts_next_ms timeouts now st =
     (let tree = (if timer_tree timeouts = Leaf then Leaf else Curl_splay TIMEDIFF_T_MIN (timer_tree timeouts));
          timeouts = timeouts\<lparr>timer_tree := tree\<rparr> in
      case tree of
        Leaf \<Rightarrow> (-1, 0, 0xFFFFFFFF, timeouts)
      | Node s k a sm g \<Rightarrow>
          let delta_us = k - Curl_timeouts_offset_us timeouts now in
          if delta_us > 0 then
            let ms = curlx_us_to_ceil_ms delta_us in
            (if ms > INT_MAX then INT_MAX else ms, k, nid (st a), timeouts)
          else (0, k, nid (st a), timeouts))"

definition Curl_timeouts_remove_expired ::
    "Curl_timeouts \<Rightarrow> curltime \<Rightarrow> node_store \<Rightarrow> (bool \<times> 32 word) \<times> Curl_timeouts \<times> node_store" where
  "Curl_timeouts_remove_expired timeouts ts st =
     (if timer_tree timeouts \<noteq> Leaf then
        (case Curl_splaygetbest (Curl_timeouts_offset_us timeouts ts) (timer_tree timeouts) st of (t, tree, st') \<Rightarrow>
           (case t of Some a \<Rightarrow> (True, nid (st' a)) | None \<Rightarrow> (False, 0xFFFFFFFF),
            timeouts\<lparr>timer_tree := tree\<rparr>, st'))
      else ((False, 0xFFFFFFFF), timeouts, st))"

definition Curl_timeouts_add ::
    "Curl_timeouts \<Rightarrow> nat \<Rightarrow> 32 word \<Rightarrow> int \<Rightarrow> node_store \<Rightarrow> Curl_timeouts \<times> node_store" where
  "Curl_timeouts_add timeouts node mid offset_us st =
     (case Curl_splayinsert offset_us (timer_tree timeouts) node mid st of (tree, st) \<Rightarrow>
        (timeouts\<lparr>timer_tree := tree\<rparr>, st))"

definition Curl_timeouts_remove :: "Curl_timeouts \<Rightarrow> nat \<Rightarrow> node_store \<Rightarrow> bool \<times> Curl_timeouts \<times> node_store" where
  "Curl_timeouts_remove timeouts node st =
     (if registered (st node) then
        (case Curl_splayremove (timer_tree timeouts) node st of (rc, newroot, st) \<Rightarrow>
           (True, case newroot of Some t \<Rightarrow> timeouts\<lparr>timer_tree := t\<rparr> | None \<Rightarrow> timeouts, st))
      else (False, timeouts, st))"

section \<open>The sorted list of a tree\<close>

fun inorder :: "Curl_tree \<Rightarrow> (int \<times> nat list) list" where
  "inorder Leaf = []"
| "inorder (Node s k a sm g) = inorder s @ (k, a # sm) # inorder g"

definition left_list :: "link list \<Rightarrow> (int \<times> nat list) list" where
  "left_list l = concat (map (\<lambda>(s, k, a, sm). inorder s @ [(k, a # sm)]) (rev l))"

definition right_list :: "link list \<Rightarrow> (int \<times> nat list) list" where
  "right_list r = concat (map (\<lambda>(g, k, a, sm). (k, a # sm) # inorder g) r)"

lemma link_lists [simp]:
  "left_list [] = []" "right_list [] = []"
  "left_list ((s, k, a, sm) # l) = left_list l @ inorder s @ [(k, a # sm)]"
  "right_list ((g, k, a, sm) # r) = (k, a # sm) # inorder g @ right_list r"
  by (simp_all add: left_list_def right_list_def)

lemma inorder_plug [simp]:
  "inorder (plug_left l t) = left_list l @ inorder t" "inorder (plug_right r t) = inorder t @ right_list r"
proof -
  show "inorder (plug_left l t) = left_list l @ inorder t"
    unfolding plug_left_def by (induction l arbitrary: t) auto
  show "inorder (plug_right r t) = inorder t @ right_list r"
    unfolding plug_right_def by (induction r arbitrary: t) auto
qed

text \<open>One round of the loop: it ends, or it moves a node to one of the assembly trees and goes on below.\<close>

lemma splay_round:
  assumes "t \<noteq> Leaf"
  obtains (ends) s1 k1 a1 sm1 g1 where "splay_loop key t l r = reassemble s1 k1 a1 sm1 g1 l r"
      "inorder t = inorder s1 @ (k1, a1 # sm1) # inorder g1" "key < k1 \<Longrightarrow> s1 = Leaf" "k1 < key \<Longrightarrow> g1 = Leaf"
  | (to_right) t1 g1 k1 a1 sm1 where "splay_loop key t l r = splay_loop key t1 l ((g1, k1, a1, sm1) # r)"
      "t1 \<noteq> Leaf" "size t1 < size t" "inorder t = inorder t1 @ (k1, a1 # sm1) # inorder g1" "key < k1"
  | (to_left) t1 s1 k1 a1 sm1 where "splay_loop key t l r = splay_loop key t1 ((s1, k1, a1, sm1) # l) r"
      "t1 \<noteq> Leaf" "size t1 < size t" "inorder t = inorder s1 @ (k1, a1 # sm1) # inorder t1" "k1 < key"
proof -
  obtain s k a sm g where t: "t = Node s k a sm g" using assms by (cases t) auto
  consider (less) "key < k" | (greater) "k < key" | (equal) "key = k" by linarith
  then show thesis
  proof cases
    case less
    show thesis
    proof (cases s)
      case Leaf
      with less t ends[of s k a sm g] show thesis by simp
    next
      case (Node s' k' a' sm' g')
      show thesis
      proof (cases "key < k'")
        case zig: True
        show thesis
        proof (cases "s' = Leaf")
          case True
          with less t Node zig ends[of s' k' a' sm' "Node g' k a sm g"] show thesis by simp
        next
          case False
          with less t Node zig to_right[of s' "Node g' k a sm g" k' a' sm'] show thesis by simp
        qed
      next
        case False
        with less t Node to_right[of s g k a sm] show thesis by simp
      qed
    qed
  next
    case greater
    then have k: "\<not> key < k" by simp
    show thesis
    proof (cases g)
      case Leaf
      with greater k t ends[of s k a sm g] show thesis by simp
    next
      case (Node s' k' a' sm' g')
      show thesis
      proof (cases "k' < key")
        case zig: True
        show thesis
        proof (cases "g' = Leaf")
          case True
          with greater k t Node zig ends[of "Node s k a sm s'" k' a' sm' g'] show thesis by simp
        next
          case False
          with greater k t Node zig to_left[of g' "Node s k a sm s'" k' a' sm'] show thesis by simp
        qed
      next
        case False
        with greater k t Node to_left[of g s k a sm] show thesis by simp
      qed
    qed
  next
    case equal
    with t ends[of s k a sm g] show thesis by simp
  qed
qed

lemma inorder_splay_loop: "t \<noteq> Leaf \<Longrightarrow> inorder (splay_loop key t l r) = left_list l @ inorder t @ right_list r"
proof (induction "size t" arbitrary: t l r rule: less_induct)
  case less
  show ?case
    by (cases rule: splay_round[OF less.prems, of key l r]) (simp_all add: reassemble_def less.hyps)
qed

lemma inorder_splay: "inorder (Curl_splay key t) = inorder t"
  by (cases "t = Leaf") (simp_all add: Curl_splay_def inorder_splay_loop)

lemma splay_Leaf: "Curl_splay key t = Leaf \<longleftrightarrow> t = Leaf"
  using inorder_splay[of key t] by (cases "Curl_splay key t"; cases t) auto

definition keys :: "(int \<times> nat list) list \<Rightarrow> int list" where
  "keys xs = map fst xs"

lemma keys_simps [simp]: "keys [] = []" "keys ((k, as) # xs) = k # keys xs" "keys (xs @ ys) = keys xs @ keys ys"
  by (simp_all add: keys_def)

definition bst :: "Curl_tree \<Rightarrow> bool" where
  "bst t \<longleftrightarrow> sorted_wrt (<) (keys (inorder t))"

text \<open>What a splay leaves at the root, as the comment at its definition has it.\<close>

lemma splay_loop_splits:
  assumes "t \<noteq> Leaf" "splay_loop key t l r = Node s k a sm g" "sorted_wrt (<) (keys (inorder t))"
    "\<forall>x\<in>set (keys (left_list l)). x < key" "\<forall>x\<in>set (keys (right_list r)). key < x"
  shows "(\<forall>x\<in>set (keys (inorder s)). x < key) \<and> (\<forall>x\<in>set (keys (inorder g)). key < x)"
  using assms
proof (induction "size t" arbitrary: t l r rule: less_induct)
  case less
  show ?case
  proof (cases rule: splay_round[OF less.prems(1), of key l r])
    case (1 s1 k1 a1 sm1 g1)
    have e: "s = plug_left l s1" "g = plug_right r g1" using 1(1) less.prems(2) by (auto simp: reassemble_def)
    have o: "\<forall>x\<in>set (keys (inorder s1)). x < k1" "\<forall>x\<in>set (keys (inorder g1)). k1 < x"
      using less.prems(3) 1(2) by (auto simp: sorted_wrt_append)
    consider "key < k1" | "k1 < key" | "key = k1" by linarith
    then show ?thesis
    proof cases
      assume "key < k1"
      with 1(3) o e less.prems(4,5) show ?thesis by (auto dest: less_trans)
    next
      assume "k1 < key"
      with 1(4) o e less.prems(4,5) show ?thesis by (auto intro: less_trans)
    next
      assume "key = k1"
      with o e less.prems(4,5) show ?thesis by auto
    qed
  next
    case (2 t1 g1 k1 a1 sm1)
    have "\<forall>x\<in>set (keys (right_list ((g1, k1, a1, sm1) # r))). key < x"
      using less.prems(3,5) 2(4,5) by (auto simp: sorted_wrt_append intro: less_trans)
    with less.hyps[OF 2(3,2), of l "(g1, k1, a1, sm1) # r"] less.prems 2 show ?thesis by (simp add: sorted_wrt_append)
  next
    case (3 t1 s1 k1 a1 sm1)
    have "\<forall>x\<in>set (keys (left_list ((s1, k1, a1, sm1) # l))). x < key"
      using less.prems(3,4) 3(4,5) by (auto simp: sorted_wrt_append intro: less_trans)
    with less.hyps[OF 3(3,2), of "(s1, k1, a1, sm1) # l" r] less.prems 3 show ?thesis by (simp add: sorted_wrt_append)
  qed
qed

lemma splay_splits:
  assumes "bst t" "Curl_splay key t = Node s k a sm g"
  shows "inorder t = inorder s @ (k, a # sm) # inorder g" "\<forall>x\<in>set (keys (inorder s)). x < key"
    "\<forall>x\<in>set (keys (inorder g)). key < x"
proof -
  have ne: "t \<noteq> Leaf" using assms(2) splay_Leaf[of key t] by auto
  show "inorder t = inorder s @ (k, a # sm) # inorder g" using inorder_splay[of key t] assms(2) by simp
  show "\<forall>x\<in>set (keys (inorder s)). x < key" "\<forall>x\<in>set (keys (inorder g)). key < x"
    using splay_loop_splits[OF ne assms(2)[unfolded Curl_splay_def]] assms(1) by (auto simp: bst_def)
qed

section \<open>The queue of timers\<close>

definition flat :: "(int \<times> nat list) list \<Rightarrow> (int \<times> nat) list" where
  "flat xs = concat (map (\<lambda>(k, as). map (Pair k) as) xs)"

definition timers :: "Curl_tree \<Rightarrow> (int \<times> nat) list" where
  "timers t = flat (inorder t)"

lemma flat_simps [simp]: "flat [] = []" "flat ((k, as) # xs) = map (Pair k) as @ flat xs" "flat (xs @ ys) = flat xs @ flat ys"
  by (simp_all add: flat_def)

text \<open>A new timer goes behind the timers that fire earlier or at the same time.\<close>

definition enqueue :: "int \<Rightarrow> nat \<Rightarrow> (int \<times> nat) list \<Rightarrow> (int \<times> nat) list" where
  "enqueue key a q = takeWhile (\<lambda>x. fst x \<le> key) q @ (key, a) # dropWhile (\<lambda>x. fst x \<le> key) q"

lemma enqueue_split:
  assumes "\<forall>x\<in>set xs. fst x \<le> key" "\<forall>y\<in>set ys. key < fst y"
  shows "enqueue key a (xs @ ys) = xs @ (key, a) # ys"
proof -
  have "takeWhile (\<lambda>x. fst x \<le> key) ys = []" "dropWhile (\<lambda>x. fst x \<le> key) ys = ys"
    using assms(2) by (cases ys; auto)+
  then show ?thesis using assms(1) by (simp add: enqueue_def takeWhile_append2 dropWhile_append2)
qed

lemma flat_keys: "x \<in> set (flat xs) \<Longrightarrow> fst x \<in> set (keys xs)"
  by (auto simp: flat_def keys_def intro: rev_image_eqI)

lemma insert_refines:
  assumes "bst root" "Curl_splayinsert key root node i st = (t, st')"
  shows "bst t \<and> timers t = enqueue key node (timers root) \<and> set (keys (inorder t)) = insert key (set (keys (inorder root))) \<and>
    st' = st(node := \<lparr>nkey = key, nid = i, registered = True\<rparr>)"
proof (cases "root = Leaf")
  case True
  with assms show ?thesis by (auto simp: Curl_splayinsert_def bst_def timers_def enqueue_def)
next
  case False
  then obtain s k a sm g where sp: "Curl_splay key root = Node s k a sm g"
    using splay_Leaf[of key root] by (cases "Curl_splay key root") auto
  note S = splay_splits[OF assms(1) sp]
  have st': "st' = st(node := \<lparr>nkey = key, nid = i, registered = True\<rparr>)" using assms(2) by (auto simp: Curl_splayinsert_def)
  have T: "timers root = flat (inorder s) @ map (Pair k) (a # sm) @ flat (inorder g)" using S(1) by (simp add: timers_def)
  have lo: "\<forall>x\<in>set (flat (inorder s)). fst x < key" and hi: "\<forall>x\<in>set (flat (inorder g)). key < fst x"
    using S(2,3) flat_keys by blast+
  have srt: "sorted_wrt (<) (keys (inorder s))" "sorted_wrt (<) (keys (inorder g))"
    "\<forall>x\<in>set (keys (inorder s)). x < k" "\<forall>x\<in>set (keys (inorder g)). k < x" "\<forall>x\<in>set (keys (inorder s)). \<forall>y\<in>set (keys (inorder g)). x < y"
    using assms(1) S(1) by (auto simp: bst_def sorted_wrt_append)
  consider (equal) "key = k" | (less) "key < k" | (greater) "k < key" by linarith
  then show ?thesis
  proof cases
    case equal
    then have t: "t = Node s k a (sm @ [node]) g" using assms(2) False sp by (auto simp: Curl_splayinsert_def)
    have "enqueue key node (timers root) = timers t"
    proof -
      have "\<forall>x\<in>set (flat (inorder s) @ map (Pair k) (a # sm)). fst x \<le> key" "\<forall>y\<in>set (flat (inorder g)). key < fst y"
        using lo hi equal by (auto simp: less_imp_le)
      from enqueue_split[OF this, of node] show ?thesis unfolding T t by (simp add: timers_def equal)
    qed
    then show ?thesis using assms(1) S(1) st' equal by (auto simp: t bst_def)
  next
    case less
    then have t: "t = Node s key node [] (Node Leaf k a sm g)" using assms(2) False sp by (auto simp: Curl_splayinsert_def)
    have "enqueue key node (timers root) = timers t"
    proof -
      have "\<forall>x\<in>set (flat (inorder s)). fst x \<le> key" "\<forall>y\<in>set (map (Pair k) (a # sm) @ flat (inorder g)). key < fst y"
        using lo hi less by (auto simp: less_imp_le)
      from enqueue_split[OF this, of node] show ?thesis unfolding T t by (simp add: timers_def)
    qed
    then show ?thesis using srt S st' less by (auto simp: t bst_def sorted_wrt_append)
  next
    case greater
    then have t: "t = Node (Node s k a sm Leaf) key node [] g" using assms(2) False sp by (auto simp: Curl_splayinsert_def)
    have "enqueue key node (timers root) = timers t"
    proof -
      have "\<forall>x\<in>set (flat (inorder s) @ map (Pair k) (a # sm)). fst x \<le> key" "\<forall>y\<in>set (flat (inorder g)). key < fst y"
        using lo hi greater by (auto simp: less_imp_le)
      from enqueue_split[OF this, of node] show ?thesis unfolding T t by (simp add: timers_def)
    qed
    then show ?thesis using srt S st' greater by (auto simp: t bst_def sorted_wrt_append)
  qed
qed

text \<open>The tree and the store agree: the timers are the registered nodes with their keys, each once.\<close>

definition timers_ok :: "Curl_tree \<Rightarrow> node_store \<Rightarrow> bool" where
  "timers_ok t st \<longleftrightarrow> bst t \<and> (\<forall>x\<in>set (keys (inorder t)). TIMEDIFF_T_MIN \<le> x) \<and> distinct (map snd (timers t)) \<and>
     (\<forall>k a. (k, a) \<in> set (timers t) \<longleftrightarrow> registered (st a) \<and> nkey (st a) = k)"

lemma smallest_at_root:
  assumes "timers_ok t st" "t \<noteq> Leaf"
  obtains k a sm g where "Curl_splay TIMEDIFF_T_MIN t = Node Leaf k a sm g" "inorder t = (k, a # sm) # inorder g"
proof -
  have "bst t" "\<forall>x\<in>set (keys (inorder t)). TIMEDIFF_T_MIN \<le> x" using assms(1) by (simp_all add: timers_ok_def)
  obtain s k a sm g where sp: "Curl_splay TIMEDIFF_T_MIN t = Node s k a sm g"
    using splay_Leaf[of TIMEDIFF_T_MIN t] assms(2) by (cases "Curl_splay TIMEDIFF_T_MIN t") auto
  note S = splay_splits[OF \<open>bst t\<close> sp]
  have "\<forall>x\<in>set (keys (inorder s)). TIMEDIFF_T_MIN \<le> x"
    using \<open>\<forall>x\<in>set (keys (inorder t)). TIMEDIFF_T_MIN \<le> x\<close> S(1) by simp
  with S(2) have "keys (inorder s) = []" by (cases "keys (inorder s)") auto
  then have "s = Leaf" by (cases s) (auto simp: keys_def)
  with sp splay_splits(1)[OF \<open>bst t\<close> sp] that show thesis by simp
qed

lemma unregister_simps [simp]:
  "registered (unregister a st b) \<longleftrightarrow> b \<noteq> a \<and> registered (st b)" "nkey (unregister a st b) = nkey (st b)"
  "nid (unregister a st b) = nid (st b)"
  by (auto simp: unregister_def)

text \<open>Taking a node out of the queue and out of the store together keeps them in agreement.\<close>

lemma timers_ok_drop:
  assumes "timers_ok t st" "bst t'" "set (keys (inorder t')) \<subseteq> set (keys (inorder t))"
    "timers t' = filter (\<lambda>x. snd x \<noteq> a) (timers t)"
  shows "timers_ok t' (unregister a st)"
proof -
  have "distinct (map snd (timers t'))" using assms(1,4) by (simp add: timers_ok_def distinct_map_filter)
  with assms show ?thesis by (auto simp: timers_ok_def)
qed

lemma distinct_filter_hd:
  "distinct (map snd (x # xs)) \<Longrightarrow> filter (\<lambda>y. snd y \<noteq> snd x) (x # xs) = xs"
  by (auto intro!: filter_True simp: rev_image_eqI)

lemma getbest_refines:
  assumes ok: "timers_ok root st" and e: "Curl_splaygetbest key root st = (r, t, st')"
  shows "timers_ok t st' \<and>
    (case timers root of
       [] \<Rightarrow> r = None \<and> timers t = [] \<and> st' = st
     | (k, a) # q \<Rightarrow>
         if key < k then r = None \<and> timers t = timers root \<and> st' = st
         else r = Some a \<and> timers t = q \<and> st' = unregister a st)"
proof (cases "root = Leaf")
  case True
  with assms show ?thesis by (auto simp: Curl_splaygetbest_def timers_def)
next
  case False
  obtain k a sm g where sp: "Curl_splay TIMEDIFF_T_MIN root = Node Leaf k a sm g" and io: "inorder root = (k, a # sm) # inorder g"
    by (rule smallest_at_root[OF ok False])
  have T: "timers root = (k, a) # map (Pair k) sm @ flat (inorder g)" by (simp add: timers_def io)
  have D: "distinct (map snd ((k, a) # map (Pair k) sm @ flat (inorder g)))" using ok T by (simp add: timers_ok_def)
  show ?thesis
  proof (cases "key < k")
    case True
    then have r: "r = None" "t = Node Leaf k a sm g" "st' = st" using e False sp by (auto simp: Curl_splaygetbest_def)
    have "inorder t = inorder root" by (simp add: r io)
    then have "timers_ok t st'" using ok r by (simp add: timers_ok_def bst_def timers_def)
    with True r T io show ?thesis by (simp add: timers_def)
  next
    case k: False
    have t: "r = Some a" "st' = unregister a st" "inorder t = (case sm of [] \<Rightarrow> inorder g | x # same \<Rightarrow> (k, x # same) # inorder g)"
      using e False sp k by (auto simp: Curl_splaygetbest_def split: list.splits)
    have q: "timers t = map (Pair k) sm @ flat (inorder g)" using t(3) by (cases sm) (simp_all add: timers_def)
    have "bst t" "set (keys (inorder t)) \<subseteq> set (keys (inorder root))"
      using ok t(3) io by (cases sm; auto simp: timers_ok_def bst_def)+
    moreover have "timers t = filter (\<lambda>x. snd x \<noteq> a) (timers root)" using distinct_filter_hd[OF D] q T by simp
    ultimately have "timers_ok t st'" unfolding t(2) by (rule timers_ok_drop[OF ok])
    with k t q T show ?thesis by simp
  qed
qed

lemma remove_refines:
  assumes ok: "timers_ok root st" and reg: "registered (st node)" and e: "Curl_splayremove root node st = (rc, nr, st')"
  shows "rc = 0 \<and> (\<exists>t. nr = Some t \<and> timers_ok t st' \<and> timers t = filter (\<lambda>x. snd x \<noteq> node) (timers root)) \<and> st' = unregister node st"
proof -
  let ?key = "nkey (st node)"
  have b: "bst root" and D: "distinct (map snd (timers root))" using ok by (simp_all add: timers_ok_def)
  have mem: "(?key, node) \<in> set (timers root)" using ok reg by (simp add: timers_ok_def)
  then have ne: "root \<noteq> Leaf" by (auto simp: timers_def)
  obtain s k a sm g where sp: "Curl_splay ?key root = Node s k a sm g"
    using splay_Leaf[of ?key root] ne by (cases "Curl_splay ?key root") auto
  note S = splay_splits[OF b sp]
  have T: "timers root = flat (inorder s) @ map (Pair k) (a # sm) @ flat (inorder g)" using S(1) by (simp add: timers_def)
  have "(?key, node) \<notin> set (flat (inorder s))" "(?key, node) \<notin> set (flat (inorder g))"
    using S(2,3) flat_keys by fastforce+
  then have k: "k = ?key" and n: "node = a \<or> node \<in> set sm" using mem T by auto
  have srt: "sorted_wrt (<) (keys (inorder s))" "sorted_wrt (<) (keys (inorder g))"
    "\<forall>x\<in>set (keys (inorder s)). \<forall>y\<in>set (keys (inorder g)). x < y" using b S(1) by (auto simp: bst_def sorted_wrt_append)
  have out: "filter (\<lambda>x. snd x \<noteq> node) (timers root) = flat (inorder s) @ map (Pair k) (filter (\<lambda>x. x \<noteq> node) (a # sm)) @ flat (inorder g)"
  proof -
    have "node \<notin> snd ` set (flat (inorder s))" "node \<notin> snd ` set (flat (inorder g))" using D T n by auto
    then have "filter (\<lambda>x. snd x \<noteq> node) (flat (inorder s)) = flat (inorder s)" "filter (\<lambda>x. snd x \<noteq> node) (flat (inorder g)) = flat (inorder g)"
      by (auto intro!: filter_True simp: rev_image_eqI)
    then show ?thesis by (simp add: T filter_map comp_def)
  qed
  have dsm: "distinct (a # sm)" using D by (simp add: T distinct_map comp_def)
  have finish: ?thesis if t: "rc = 0" "nr = Some t" "st' = unregister node st"
      "flat (inorder t) = flat (inorder s) @ map (Pair k) (filter (\<lambda>x. x \<noteq> node) (a # sm)) @ flat (inorder g)"
      "keys (inorder t) = keys (inorder root) \<or> keys (inorder t) = keys (inorder s) @ keys (inorder g)" for t
  proof -
    have "bst t" "set (keys (inorder t)) \<subseteq> set (keys (inorder root))" using t(5) b srt S(1) by (auto simp: bst_def sorted_wrt_append)
    then have "timers_ok t (unregister node st)" by (rule timers_ok_drop[OF ok]) (simp only: out timers_def[of t] t(4))
    with t out show ?thesis by (simp add: timers_def)
  qed
  show ?thesis
  proof (cases "a = node")
    case False
    with n have "node \<in> set sm" by auto
    with e ne reg sp k False have "rc = 0" "nr = Some (Node s k a (remove1 node sm) g)" "st' = unregister node st"
      by (auto simp: Curl_splayremove_def)
    moreover have "remove1 node sm = filter (\<lambda>x. x \<noteq> node) sm" using dsm
      by (induction sm) (auto intro!: filter_True[symmetric])
    ultimately show ?thesis using finish[of "Node s k a (remove1 node sm) g"] False S(1) by simp
  next
    case True
    have f: "filter (\<lambda>x. x \<noteq> node) (a # sm) = sm" using dsm True by (auto intro!: filter_True)
    show ?thesis
    proof (cases sm)
      case (Cons y same)
      with e ne reg sp k True have "rc = 0" "nr = Some (Node s k y same g)" "st' = unregister node st"
        by (auto simp: Curl_splayremove_def)
      then show ?thesis by (rule finish) (use f Cons S(1) in auto)
    next
      case Nil
      show ?thesis
      proof (cases "s = Leaf")
        case True
        with e ne reg sp k \<open>a = node\<close> Nil have "rc = 0" "nr = Some g" "st' = unregister node st"
          by (auto simp: Curl_splayremove_def)
        then show ?thesis by (rule finish) (use f Nil True in auto)
      next
        case False
        then obtain s' k' a' sm' g' where sp': "Curl_splay ?key s = Node s' k' a' sm' g'"
          using splay_Leaf[of ?key s] by (cases "Curl_splay ?key s") auto
        have "bst s" using srt by (simp add: bst_def)
        note S' = splay_splits[OF this sp']
        have "\<forall>x\<in>set (keys (inorder g')). x < ?key" using S(2) S'(1) by simp
        with S'(3) have "keys (inorder g') = []" by (cases "keys (inorder g')") auto
        then have "inorder g' = []" by (simp add: keys_def)
        with e ne reg sp k \<open>a = node\<close> Nil False sp' have "rc = 0" "nr = Some (Node s' k' a' sm' g)" "st' = unregister node st"
          by (auto simp: Curl_splayremove_def split: Curl_tree.splits)
        then show ?thesis by (rule finish) (use f Nil S'(1) \<open>inorder g' = []\<close> in auto)
      qed
    qed
  qed
qed

section \<open>Timers of a handle\<close>

lemma timers_sorted: "bst t \<Longrightarrow> sorted (map fst (timers t))"
proof -
  have "sorted_wrt (<) (keys xs) \<Longrightarrow> sorted (map fst (flat xs))" for xs
  proof (induction xs)
    case (Cons x xs)
    obtain k as where x: "x = (k, as)" by fastforce
    have "\<forall>y\<in>set (flat xs). k < fst y" using Cons.prems x flat_keys[of _ xs] by auto
    moreover have "sorted (map fst (map (Pair k) as))" by (induction as) auto
    ultimately show ?case using Cons x by (auto simp: sorted_append less_imp_le)
  qed simp
  then show "bst t \<Longrightarrow> ?thesis" by (simp add: timers_def bst_def)
qed

definition ready :: "Curl_timeouts \<Rightarrow> node_store \<Rightarrow> bool" where
  "ready timeouts st \<longleftrightarrow> timers_ok (timer_tree timeouts) st"

abbreviation queue :: "Curl_timeouts \<Rightarrow> (int \<times> nat) list" where
  "queue timeouts \<equiv> timers (timer_tree timeouts)"

lemma set_enqueue: "set (enqueue key a q) = insert (key, a) (set q)"
  by (simp add: enqueue_def) (metis set_append takeWhile_dropWhile_id)

lemma mset_enqueue: "mset (enqueue key a q) = add_mset (key, a) (mset q)"
proof -
  have "mset q = mset (takeWhile (\<lambda>x. fst x \<le> key) q) + mset (dropWhile (\<lambda>x. fst x \<le> key) q)"
    by (metis mset_append takeWhile_dropWhile_id)
  then show ?thesis by (simp add: enqueue_def)
qed

lemma add_ready:
  assumes "ready timeouts st" "\<not> registered (st node)" "TIMEDIFF_T_MIN \<le> offset_us"
    "Curl_timeouts_add timeouts node mid offset_us st = (timeouts', st')"
  shows "ready timeouts' st' \<and> queue timeouts' = enqueue offset_us node (queue timeouts) \<and> nid (st' node) = mid \<and>
    time_base timeouts' = time_base timeouts"
proof -
  obtain t st1 where i: "Curl_splayinsert offset_us (timer_tree timeouts) node mid st = (t, st1)" by fastforce
  have to: "timeouts' = timeouts\<lparr>timer_tree := t\<rparr>" "st' = st1" using assms(4) i by (auto simp: Curl_timeouts_add_def)
  have ok: "timers_ok (timer_tree timeouts) st" using assms(1) by (simp add: ready_def)
  then have b: "bst (timer_tree timeouts)" by (simp add: timers_ok_def)
  note R = insert_refines[OF b i]
  have "node \<notin> snd ` set (queue timeouts)" using ok assms(2) by (auto simp: timers_ok_def)
  then have "distinct (map snd (timers t))"
  proof -
    have "mset (map snd (timers t)) = mset (node # map snd (queue timeouts))" using R by (simp add: mset_enqueue)
    then have "distinct (map snd (timers t)) \<longleftrightarrow> distinct (node # map snd (queue timeouts))" by (rule mset_eq_imp_distinct_iff)
    with ok \<open>node \<notin> snd ` set (queue timeouts)\<close> show ?thesis by (simp add: timers_ok_def)
  qed
  moreover have "(k, a) \<in> set (timers t) \<longleftrightarrow> registered (st' a) \<and> nkey (st' a) = k" for k a
    using ok R to assms(2) \<open>node \<notin> snd ` set (queue timeouts)\<close> by (auto simp: set_enqueue timers_ok_def rev_image_eqI)
  ultimately have "timers_ok t st'" using R ok assms(3) by (simp add: timers_ok_def)
  with R to show ?thesis by (simp add: ready_def)
qed

lemma remove_ready:
  assumes "ready timeouts st" "Curl_timeouts_remove timeouts node st = (r, timeouts', st')"
  shows "ready timeouts' st' \<and> r = registered (st node) \<and> \<not> registered (st' node) \<and>
    queue timeouts' = filter (\<lambda>x. snd x \<noteq> node) (queue timeouts) \<and> time_base timeouts' = time_base timeouts"
proof (cases "registered (st node)")
  case True
  obtain rc nr st1 where e: "Curl_splayremove (timer_tree timeouts) node st = (rc, nr, st1)" by (metis prod_cases3)
  note R = remove_refines[OF assms(1)[unfolded ready_def] True e]
  then obtain t where "nr = Some t" by auto
  with R True e assms(2) show ?thesis by (auto simp: Curl_timeouts_remove_def ready_def)
next
  case False
  then have "(k, node) \<notin> set (queue timeouts)" for k using assms(1) by (auto simp: ready_def timers_ok_def)
  then have "filter (\<lambda>x. snd x \<noteq> node) (queue timeouts) = queue timeouts" by (intro filter_True) auto
  with False assms show ?thesis by (auto simp: Curl_timeouts_remove_def)
qed

lemma remove_expired_ready:
  assumes "ready timeouts st" "Curl_timeouts_remove_expired timeouts ts st = ((r, mid), timeouts', st')"
  shows "ready timeouts' st' \<and> time_base timeouts' = time_base timeouts \<and>
    (case queue timeouts of
       [] \<Rightarrow> \<not> r \<and> queue timeouts' = [] \<and> st' = st
     | (k, a) # q \<Rightarrow>
         if Curl_timeouts_offset_us timeouts ts < k then \<not> r \<and> queue timeouts' = queue timeouts \<and> st' = st
         else r \<and> mid = nid (st a) \<and> queue timeouts' = q \<and> st' = unregister a st)"
proof (cases "timer_tree timeouts = Leaf")
  case True
  with assms show ?thesis by (auto simp: Curl_timeouts_remove_expired_def timers_def)
next
  case False
  obtain t tree st1 where e: "Curl_splaygetbest (Curl_timeouts_offset_us timeouts ts) (timer_tree timeouts) st = (t, tree, st1)"
    by (metis prod_cases3)
  note G = getbest_refines[OF assms(1)[unfolded ready_def] e]
  have to: "(r, mid) = (case t of Some a \<Rightarrow> (True, nid (st1 a)) | None \<Rightarrow> (False, 0xFFFFFFFF))"
    "timeouts' = timeouts\<lparr>timer_tree := tree\<rparr>" "st' = st1"
    using assms(2) False e by (auto simp: Curl_timeouts_remove_expired_def)
  show ?thesis
    using G to by (cases "queue timeouts") (auto simp: ready_def split: if_splits)
qed

text \<open>The loop of a caller that handles every expired timer, with fuel.\<close>

fun drain :: "nat \<Rightarrow> Curl_timeouts \<Rightarrow> curltime \<Rightarrow> node_store \<Rightarrow> (32 word list \<times> Curl_timeouts \<times> node_store) option" where
  "drain 0 timeouts ts st = None"
| "drain (Suc fuel) timeouts ts st =
     (case Curl_timeouts_remove_expired timeouts ts st of ((r, mid), timeouts, st) \<Rightarrow>
        if \<not> r then Some ([], timeouts, st)
        else map_option (\<lambda>(mids, timeouts, st). (mid # mids, timeouts, st)) (drain fuel timeouts ts st))"

lemma drain_ready:
  assumes "ready timeouts st" "length (queue timeouts) < fuel"
  shows "\<exists>timeouts' st'. drain fuel timeouts ts st =
      Some (map (\<lambda>x. nid (st (snd x))) (takeWhile (\<lambda>x. fst x \<le> Curl_timeouts_offset_us timeouts ts) (queue timeouts)), timeouts', st') \<and>
    ready timeouts' st' \<and> queue timeouts' = dropWhile (\<lambda>x. fst x \<le> Curl_timeouts_offset_us timeouts ts) (queue timeouts)"
  using assms
proof (induction fuel arbitrary: timeouts st)
  case (Suc fuel)
  obtain r mid timeouts1 st1 where e: "Curl_timeouts_remove_expired timeouts ts st = ((r, mid), timeouts1, st1)"
    by (metis prod_cases3 surj_pair)
  note R = remove_expired_ready[OF Suc.prems(1) e]
  have off: "Curl_timeouts_offset_us timeouts1 ts = Curl_timeouts_offset_us timeouts ts"
    using R by (simp add: Curl_timeouts_offset_us_def)
  show ?case
  proof (cases "queue timeouts")
    case Nil
    with R e show ?thesis by auto
  next
    case (Cons ka q)
    obtain k a where ka: "ka = (k, a)" by fastforce
    show ?thesis
    proof (cases "Curl_timeouts_offset_us timeouts ts < k")
      case True
      with R e Cons ka show ?thesis by auto
    next
      case False
      with R Cons ka have R': "r" "mid = nid (st a)" "queue timeouts1 = q" "st1 = unregister a st" "ready timeouts1 st1" by auto
      from Suc.IH[OF R'(5)] Suc.prems(2) Cons R'(3)
      obtain timeouts2 st2 where d: "drain fuel timeouts1 ts st1 =
          Some (map (\<lambda>x. nid (st1 (snd x))) (takeWhile (\<lambda>x. fst x \<le> Curl_timeouts_offset_us timeouts ts) q), timeouts2, st2)"
        "ready timeouts2 st2" "queue timeouts2 = dropWhile (\<lambda>x. fst x \<le> Curl_timeouts_offset_us timeouts ts) q"
        by (auto simp: off)
      have "nid (st1 b) = nid (st b)" for b by (simp add: R'(4))
      with d e R'(1,2) Cons ka False show ?thesis by auto
    qed
  qed
qed simp

lemma sorted_take_filter: "sorted (map fst q) \<Longrightarrow> takeWhile (\<lambda>x. fst x \<le> b) q = filter (\<lambda>x. fst x \<le> (b::int)) q"
  by (induction q) (auto intro!: filter_False[symmetric])

lemma sorted_drop_filter: "sorted (map fst q) \<Longrightarrow> dropWhile (\<lambda>x. fst x \<le> b) q = filter (\<lambda>x. (b::int) < fst x) q"
  by (induction q) (auto intro!: filter_True[symmetric])

section \<open>Properties\<close>

text \<open>
  C11: The splay tree of timers is a queue in the order of firing. Adding a timer puts it behind those
  that fire earlier or at the same time, removing a transfer's timer takes out exactly that one and
  tells whether there was one, and taking the next expired timer takes the first one when it has
  expired and leaves everything as it is otherwise. Tree and registration flags stay in agreement, so
  the internal errors of a removal do not occur and no timer is lost.
\<close>

theorem timeouts_refine_queue:
  assumes "ready timeouts st"
  shows "(\<not> registered (st node) \<and> TIMEDIFF_T_MIN \<le> offset_us \<longrightarrow>
      (case Curl_timeouts_add timeouts node mid offset_us st of (timeouts', st') \<Rightarrow>
         ready timeouts' st' \<and> queue timeouts' = enqueue offset_us node (queue timeouts))) \<and>
    (case Curl_timeouts_remove timeouts node st of (r, timeouts', st') \<Rightarrow>
       ready timeouts' st' \<and> r = registered (st node) \<and> queue timeouts' = filter (\<lambda>x. snd x \<noteq> node) (queue timeouts)) \<and>
    (case Curl_timeouts_remove_expired timeouts ts st of ((r, m), timeouts', st') \<Rightarrow>
       ready timeouts' st' \<and>
       (case queue timeouts of
          [] \<Rightarrow> \<not> r \<and> queue timeouts' = []
        | (k, a) # q \<Rightarrow>
            if Curl_timeouts_offset_us timeouts ts < k then \<not> r \<and> queue timeouts' = queue timeouts
            else r \<and> m = nid (st a) \<and> queue timeouts' = q)) \<and>
    sorted (map fst (queue timeouts))"
proof -
  obtain t1 s1 where a: "Curl_timeouts_add timeouts node mid offset_us st = (t1, s1)" by fastforce
  obtain r t2 s2 where b: "Curl_timeouts_remove timeouts node st = (r, t2, s2)" by (metis prod_cases3)
  obtain r3 m3 t3 s3 where c: "Curl_timeouts_remove_expired timeouts ts st = ((r3, m3), t3, s3)" by (metis prod_cases3 surj_pair)
  have "sorted (map fst (queue timeouts))" using assms timers_sorted by (auto simp: ready_def timers_ok_def)
  then show ?thesis
    using add_ready[OF assms _ _ a] remove_ready[OF assms b] remove_expired_ready[OF assms c]
    unfolding a b c by (cases "queue timeouts") auto
qed

definition sample_base :: curltime where "sample_base = \<lparr>tv_sec = 0, tv_usec = 0\<rparr>"

definition no_nodes :: node_store where
  "no_nodes = (\<lambda>_. \<lparr>nkey = 0, nid = 0, registered = False\<rparr>)"

lemma init_ready: "ready (Curl_timeouts_init base) no_nodes"
  by (auto simp: ready_def timers_ok_def Curl_timeouts_init_def bst_def timers_def no_nodes_def)

theorem timeouts_refine_queue_witness:
  "ready (Curl_timeouts_init sample_base) no_nodes \<and>
   queue (fst (Curl_timeouts_add (Curl_timeouts_init sample_base) 1 7 500 no_nodes)) = [(500, 1)]"
proof -
  have "queue (Curl_timeouts_init sample_base) = []" by (simp add: Curl_timeouts_init_def timers_def)
  moreover have "\<not> registered (no_nodes 1) \<and> TIMEDIFF_T_MIN \<le> 500" by (simp add: no_nodes_def TIMEDIFF_T_MIN_def TIMEDIFF_T_MAX_def)
  moreover obtain t st where a: "Curl_timeouts_add (Curl_timeouts_init sample_base) 1 7 500 no_nodes = (t, st)" by fastforce
  ultimately show ?thesis
    using timeouts_refine_queue[OF init_ready[of sample_base], where node = 1 and mid = 7 and offset_us = 500 and ts = sample_base] init_ready
    unfolding a by (simp add: enqueue_def)
qed

text \<open>
  C30: Handling the expired timers ends and is complete: asking for expired timers until there is none
  delivers the ids of exactly the timers that are due at the given time, the earliest first and equal
  ones in the order they were added, and leaves exactly the others.
\<close>

theorem timers_fire_in_order:
  assumes "ready timeouts st" "length (queue timeouts) < fuel"
  shows "\<exists>timeouts' st'. drain fuel timeouts ts st =
      Some (map (\<lambda>x. nid (st (snd x))) (filter (\<lambda>x. fst x \<le> Curl_timeouts_offset_us timeouts ts) (queue timeouts)), timeouts', st') \<and>
    ready timeouts' st' \<and> queue timeouts' = filter (\<lambda>x. Curl_timeouts_offset_us timeouts ts < fst x) (queue timeouts)"
proof -
  let ?o = "Curl_timeouts_offset_us timeouts ts"
  have "sorted (map fst (queue timeouts))" using assms(1) timers_sorted by (auto simp: ready_def timers_ok_def)
  note F = sorted_take_filter[OF this, of ?o] sorted_drop_filter[OF this, of ?o]
  from drain_ready[OF assms, of ts] show ?thesis unfolding F .
qed

theorem timers_fire_in_order_witness:
  "case Curl_timeouts_add (Curl_timeouts_init sample_base) 1 7 500 no_nodes of (timeouts, st) \<Rightarrow>
     ready timeouts st \<and> length (queue timeouts) < 2 \<and>
     (\<exists>timeouts' st'. drain 2 timeouts \<lparr>tv_sec = 1, tv_usec = 0\<rparr> st = Some ([7], timeouts', st'))"
proof -
  obtain t st where a: "Curl_timeouts_add (Curl_timeouts_init sample_base) 1 7 500 no_nodes = (t, st)" by fastforce
  have q0: "queue (Curl_timeouts_init sample_base) = []" by (simp add: Curl_timeouts_init_def timers_def)
  have "TIMEDIFF_T_MIN \<le> 500" "\<not> registered (no_nodes 1)" by (simp_all add: no_nodes_def TIMEDIFF_T_MIN_def TIMEDIFF_T_MAX_def)
  with add_ready[OF init_ready _ _ a] q0
  have A: "ready t st" "queue t = [(500, 1)]" "nid (st 1) = 7" "time_base t = sample_base"
    by (auto simp: enqueue_def Curl_timeouts_init_def)
  have "Curl_timeouts_offset_us t \<lparr>tv_sec = 1, tv_usec = 0\<rparr> = 1000000"
    using A(4) by (simp add: Curl_timeouts_offset_us_def curlx_ptimediff_us_def us_limits sample_base_def)
  with timers_fire_in_order[OF A(1), of 2 "\<lparr>tv_sec = 1, tv_usec = 0\<rparr>"] A a show ?thesis by auto
qed

text \<open>
  The time to wait: with no timer the answer is -1. Otherwise it is the shortest number of
  milliseconds after which the earliest timer has expired, 0 when it has expired already, and cut to
  the largest \<open>int\<close>; the id reported is that of the earliest timer, and no timer is lost by asking.
\<close>

theorem timeouts_next_ms_exact:
  assumes "ready timeouts st" "Curl_timeouts_next_ms timeouts now st = (ms, expire, mid, timeouts')"
  shows "ready timeouts' st \<and> queue timeouts' = queue timeouts \<and>
    (case queue timeouts of
       [] \<Rightarrow> ms = -1
     | (k, a) # q \<Rightarrow>
         expire = k \<and> mid = nid (st a) \<and> 0 \<le> ms \<and> ms \<le> INT_MAX \<and>
         (let delta = k - Curl_timeouts_offset_us timeouts now in
          (ms = 0 \<longleftrightarrow> delta \<le> 0) \<and> (0 < delta \<longrightarrow> 1000 * (ms - 1) < delta \<and> (ms < INT_MAX \<longrightarrow> delta \<le> 1000 * ms))))"
proof (cases "timer_tree timeouts = Leaf")
  case True
  with assms show ?thesis by (auto simp: Curl_timeouts_next_ms_def timers_def ready_def)
next
  case False
  obtain k a sm g where sp: "Curl_splay TIMEDIFF_T_MIN (timer_tree timeouts) = Node Leaf k a sm g"
      and io: "inorder (timer_tree timeouts) = (k, a # sm) # inorder g"
    by (rule smallest_at_root[OF assms(1)[unfolded ready_def] False])
  define delta where "delta = k - Curl_timeouts_offset_us timeouts now"
  have off: "Curl_timeouts_offset_us (timeouts\<lparr>timer_tree := Node Leaf k a sm g\<rparr>) now = Curl_timeouts_offset_us timeouts now"
    by (simp add: Curl_timeouts_offset_us_def)
  have to: "timeouts' = timeouts\<lparr>timer_tree := Node Leaf k a sm g\<rparr>" "expire = k" "mid = nid (st a)"
    "ms = (if delta > 0 then min INT_MAX (curlx_us_to_ceil_ms delta) else 0)"
    using assms(2) False sp by (auto simp: Curl_timeouts_next_ms_def Let_def off delta_def min_def split: if_splits)
  have "inorder (Node Leaf k a sm g) = inorder (timer_tree timeouts)" by (simp add: io)
  then have q: "timers (Node Leaf k a sm g) = queue timeouts" "timers_ok (Node Leaf k a sm g) st"
    using assms(1) by (simp_all add: timers_def timers_ok_def ready_def bst_def del: inorder.simps)
  have "1000 * (ms - 1) < delta \<and> (ms < INT_MAX \<longrightarrow> delta \<le> 1000 * ms) \<and> 0 < ms \<and> ms \<le> INT_MAX" if "0 < delta"
    using us_to_ceil_ms_ok[OF that] that to(4) by (auto simp: min_def INT_MAX_def split: if_splits)
  moreover have "ms = 0" if "\<not> 0 < delta" using that to(4) by simp
  moreover have "queue timeouts = (k, a) # map (Pair k) sm @ flat (inorder g)" by (simp add: timers_def io)
  ultimately show ?thesis using q to by (cases "0 < delta") (auto simp: ready_def Let_def delta_def INT_MAX_def)
qed

theorem timeouts_next_ms_exact_witness:
  "ready (Curl_timeouts_init sample_base) no_nodes \<and>
   (\<exists>expire mid timeouts'. Curl_timeouts_next_ms (Curl_timeouts_init sample_base) sample_base no_nodes = (-1, expire, mid, timeouts'))"
proof -
  obtain ms expire mid timeouts' where e: "Curl_timeouts_next_ms (Curl_timeouts_init sample_base) sample_base no_nodes = (ms, expire, mid, timeouts')"
    by (metis prod_cases4)
  have "queue (Curl_timeouts_init sample_base) = []" by (simp add: Curl_timeouts_init_def timers_def)
  with timeouts_next_ms_exact[OF init_ready e] e init_ready show ?thesis by auto
qed

end
