(* ===== verification/Curl_Llist.thy ===== *)
theory Curl_Llist
  imports Curl_Code
begin

text \<open>
  The doubly linked list of \<open>old/lib/llist.c\<close> and \<open>llist.h\<close>. The nodes live inside the objects of the
  callers and are linked by pointers, so the model has an explicit store: nodes and lists by address,
  \<open>None\<close> being the null pointer. A null pointer that the code would follow makes the operation
  \<open>None\<close>. A list stands for the sequence of the addresses of its nodes; operations on one list leave
  every other list as it is.
\<close>

section \<open>Data\<close>

type_synonym addr = nat

record 'v Curl_llist_node =
  n_list :: "addr option"
  n_ptr :: "'v option"
  n_prev :: "addr option"
  n_next :: "addr option"

record Curl_llist =
  l_head :: "addr option"
  l_tail :: "addr option"
  l_size :: nat
  l_dtor :: bool

record 'v llist_store =
  nodes :: "addr \<Rightarrow> 'v Curl_llist_node"
  lists :: "addr \<Rightarrow> Curl_llist"

abbreviation upd_node :: "addr \<Rightarrow> ('v Curl_llist_node \<Rightarrow> 'v Curl_llist_node) \<Rightarrow> 'v llist_store \<Rightarrow> 'v llist_store" where
  "upd_node a f h \<equiv> h\<lparr>nodes := (nodes h)(a := f (nodes h a))\<rparr>"

abbreviation upd_list :: "addr \<Rightarrow> (Curl_llist \<Rightarrow> Curl_llist) \<Rightarrow> 'v llist_store \<Rightarrow> 'v llist_store" where
  "upd_list a f h \<equiv> h\<lparr>lists := (lists h)(a := f (lists h a))\<rparr>"

section \<open>Operations\<close>

definition Curl_llist_init :: "addr \<Rightarrow> bool \<Rightarrow> 'v llist_store \<Rightarrow> 'v llist_store" where
  "Curl_llist_init l dtor h =
     upd_list l (\<lambda>_. \<lparr>l_head = None, l_tail = None, l_size = 0, l_dtor = dtor\<rparr>) h"

definition Curl_llist_insert_next ::
    "addr \<Rightarrow> addr option \<Rightarrow> 'v option \<Rightarrow> addr \<Rightarrow> 'v llist_store \<Rightarrow> 'v llist_store option" where
  "Curl_llist_insert_next l e p ne h =
     (let h = upd_node ne (\<lambda>n. n\<lparr>n_ptr := p, n_list := Some l\<rparr>) h in
      do {
        h \<leftarrow>
          (if l_size (lists h l) = 0 then
             (let h = upd_list l (\<lambda>x. x\<lparr>l_head := Some ne\<rparr>) h;
                  h = upd_node ne (\<lambda>n. n\<lparr>n_prev := None, n_next := None\<rparr>) h in
              Some (upd_list l (\<lambda>x. x\<lparr>l_tail := Some ne\<rparr>) h))
           else
             (let h = upd_node ne (\<lambda>n. n\<lparr>n_next := (case e of Some a \<Rightarrow> n_next (nodes h a) | None \<Rightarrow> l_head (lists h l)),
                                         n_prev := e\<rparr>) h in
              case e of
                None \<Rightarrow> do {
                  b \<leftarrow> l_head (lists h l);
                  let h = upd_node b (\<lambda>n. n\<lparr>n_prev := Some ne\<rparr>) h;
                  Some (upd_list l (\<lambda>x. x\<lparr>l_head := Some ne\<rparr>) h)
                }
              | Some a \<Rightarrow>
                  let h = (case n_next (nodes h a) of
                             Some b \<Rightarrow> upd_node b (\<lambda>n. n\<lparr>n_prev := Some ne\<rparr>) h
                           | None \<Rightarrow> upd_list l (\<lambda>x. x\<lparr>l_tail := Some ne\<rparr>) h) in
                  Some (upd_node a (\<lambda>n. n\<lparr>n_next := Some ne\<rparr>) h)));
        Some (upd_list l (\<lambda>x. x\<lparr>l_size := l_size x + 1\<rparr>) h)
      })"

definition Curl_llist_append :: "addr \<Rightarrow> 'v option \<Rightarrow> addr \<Rightarrow> 'v llist_store \<Rightarrow> 'v llist_store option" where
  "Curl_llist_append l p ne h = Curl_llist_insert_next l (l_tail (lists h l)) p ne h"

definition unlink_node :: "addr \<Rightarrow> addr \<Rightarrow> 'v llist_store \<Rightarrow> 'v llist_store" where
  "unlink_node l e h =
     (let nx = n_next (nodes h e); pv = n_prev (nodes h e);
          h = (if l_head (lists h l) = Some e then
                 (let h = upd_list l (\<lambda>x. x\<lparr>l_head := nx\<rparr>) h in
                  case nx of
                    None \<Rightarrow> upd_list l (\<lambda>x. x\<lparr>l_tail := None\<rparr>) h
                  | Some b \<Rightarrow> upd_node b (\<lambda>n. n\<lparr>n_prev := None\<rparr>) h)
               else
                 (let h = (case pv of Some a \<Rightarrow> upd_node a (\<lambda>n. n\<lparr>n_next := nx\<rparr>) h | None \<Rightarrow> h) in
                  case nx of
                    None \<Rightarrow> upd_list l (\<lambda>x. x\<lparr>l_tail := pv\<rparr>) h
                  | Some b \<Rightarrow> upd_node b (\<lambda>n. n\<lparr>n_prev := pv\<rparr>) h)) in
      upd_list l (\<lambda>x. x\<lparr>l_size := l_size x - 1\<rparr>) h)"

definition Curl_node_take_elem :: "addr option \<Rightarrow> 'v llist_store \<Rightarrow> 'v option \<times> 'v llist_store" where
  "Curl_node_take_elem e h =
     (case e of
        None \<Rightarrow> (None, h)
      | Some e \<Rightarrow>
          let h = (case n_list (nodes h e) of Some l \<Rightarrow> unlink_node l e h | None \<Rightarrow> h) in
          (n_ptr (nodes h e),
           upd_node e (\<lambda>n. n\<lparr>n_list := None, n_ptr := None, n_prev := None, n_next := None\<rparr>) h))"

text \<open>Removing with the list's destructor: the elements it is called with.\<close>

definition node_uremove :: "addr option \<Rightarrow> 'v llist_store \<Rightarrow> 'v option list \<times> 'v llist_store" where
  "node_uremove e h =
     (case e of
        None \<Rightarrow> ([], h)
      | Some a \<Rightarrow>
          case n_list (nodes h a) of
            None \<Rightarrow> ([], h)
          | Some l \<Rightarrow>
              case Curl_node_take_elem e h of (ptr, h) \<Rightarrow> (if l_dtor (lists h l) then [ptr] else [], h))"

definition Curl_node_remove :: "addr option \<Rightarrow> 'v llist_store \<Rightarrow> 'v option list \<times> 'v llist_store" where
  "Curl_node_remove e h = node_uremove e h"

text \<open>The destruction loop; \<open>None\<close> when the fuel is used up.\<close>

fun llist_destroy_loop :: "nat \<Rightarrow> addr \<Rightarrow> 'v llist_store \<Rightarrow> ('v option list \<times> 'v llist_store) option" where
  "llist_destroy_loop 0 l h = None"
| "llist_destroy_loop (Suc fuel) l h =
     (if l_size (lists h l) > 0 then
        (case node_uremove (l_tail (lists h l)) h of (gone, h) \<Rightarrow>
           map_option (\<lambda>(rest, h). (gone @ rest, h)) (llist_destroy_loop fuel l h))
      else Some ([], h))"

definition Curl_llist_destroy :: "nat \<Rightarrow> addr \<Rightarrow> 'v llist_store \<Rightarrow> ('v option list \<times> 'v llist_store) option" where
  "Curl_llist_destroy fuel l h = llist_destroy_loop fuel l h"

definition Curl_llist_head :: "addr \<Rightarrow> 'v llist_store \<Rightarrow> addr option" where
  "Curl_llist_head l h = l_head (lists h l)"

definition llist_tail :: "addr \<Rightarrow> 'v llist_store \<Rightarrow> addr option" where
  "llist_tail l h = l_tail (lists h l)"

definition Curl_llist_count :: "addr \<Rightarrow> 'v llist_store \<Rightarrow> nat" where
  "Curl_llist_count l h = l_size (lists h l)"

definition Curl_node_elem :: "addr \<Rightarrow> 'v llist_store \<Rightarrow> 'v option" where
  "Curl_node_elem n h = n_ptr (nodes h n)"

definition Curl_node_next :: "addr \<Rightarrow> 'v llist_store \<Rightarrow> addr option" where
  "Curl_node_next n h = n_next (nodes h n)"

definition llist_node_prev :: "addr \<Rightarrow> 'v llist_store \<Rightarrow> addr option" where
  "llist_node_prev n h = n_prev (nodes h n)"

definition Curl_node_llist :: "addr \<Rightarrow> 'v llist_store \<Rightarrow> addr option" where
  "Curl_node_llist n h = n_list (nodes h n)"

section \<open>The sequence a list stands for\<close>

definition first_of :: "addr list \<Rightarrow> addr option \<Rightarrow> addr option" where
  "first_of xs d = (case xs of [] \<Rightarrow> d | x # _ \<Rightarrow> Some x)"

definition last_of :: "addr list \<Rightarrow> addr option \<Rightarrow> addr option" where
  "last_of xs d = (if xs = [] then d else Some (last xs))"

lemma ends_simps [simp]:
  "first_of [] d = d" "first_of (x # xs) d = Some x" "last_of [] d = d" "last_of (xs @ [x]) d = Some x"
  "last_of (x # xs) d = last_of xs (Some x)" "first_of (xs @ ys) d = first_of xs (first_of ys d)"
  "last_of (xs @ ys) d = last_of ys (last_of xs d)"
  by (auto simp: first_of_def last_of_def split: list.split)

text \<open>The nodes \<open>xs\<close> of list \<open>l\<close> are linked both ways, between the neighbours \<open>p\<close> and \<open>q\<close>.\<close>

fun linked :: "(addr \<Rightarrow> 'v Curl_llist_node) \<Rightarrow> addr \<Rightarrow> addr option \<Rightarrow> addr list \<Rightarrow> addr option \<Rightarrow> bool" where
  "linked N l p [] q \<longleftrightarrow> True"
| "linked N l p (x # xs) q \<longleftrightarrow>
     n_list (N x) = Some l \<and> n_prev (N x) = p \<and> n_next (N x) = first_of xs q \<and> linked N l (Some x) xs q"

definition represents :: "'v llist_store \<Rightarrow> addr \<Rightarrow> addr list \<Rightarrow> bool" where
  "represents h l xs \<longleftrightarrow> distinct xs \<and> l_head (lists h l) = first_of xs None \<and> l_tail (lists h l) = last_of xs None \<and>
     l_size (lists h l) = length xs \<and> linked (nodes h) l None xs None"

lemma linked_append: "linked N l p (xs @ ys) q \<longleftrightarrow> linked N l p xs (first_of ys q) \<and> linked N l (last_of xs p) ys q"
  by (induction xs arbitrary: p) auto

lemma linked_frame [simp]: "a \<notin> set xs \<Longrightarrow> linked (N(a := v)) l p xs q = linked N l p xs q"
  by (induction xs arbitrary: p) auto

lemma linked_list: "linked N l p xs q \<Longrightarrow> x \<in> set xs \<Longrightarrow> n_list (N x) = Some l"
  by (induction xs arbitrary: p) auto

text \<open>Changing the neighbour after the last node, and before the first.\<close>

lemma linked_new_next:
  assumes "linked N l p (xs @ [a]) q" "distinct (xs @ [a])" "n_list v = n_list (N a)" "n_prev v = n_prev (N a)" "n_next v = q'"
  shows "linked (N(a := v)) l p (xs @ [a]) q'"
  using assms by (auto simp: linked_append)

lemma linked_new_prev:
  assumes "linked N l p (b # xs) q" "b \<notin> set xs" "n_list v = n_list (N b)" "n_next v = n_next (N b)" "n_prev v = p'"
  shows "linked (N(b := v)) l p' (b # xs) q"
  using assms by auto

section \<open>What each operation does\<close>

text \<open>What an operation on list \<open>l\<close> leaves alone: other lists, and nodes that are in none of its places.\<close>

definition only :: "addr \<Rightarrow> addr set \<Rightarrow> 'v llist_store \<Rightarrow> 'v llist_store \<Rightarrow> bool" where
  "only l A h h' \<longleftrightarrow> (\<forall>l'. l' \<noteq> l \<longrightarrow> lists h' l' = lists h l') \<and> (\<forall>a. a \<notin> A \<longrightarrow> nodes h' a = nodes h a) \<and>
     l_dtor (lists h' l) = l_dtor (lists h l)"

lemma linked_outside: "(\<forall>x\<in>set xs. N' x = N x) \<Longrightarrow> linked N' l p xs q = linked N l p xs q"
  by (induction xs arbitrary: p) auto

lemma only_other:
  assumes "only l A h h'" "represents h l' ys" "l' \<noteq> l" "set ys \<inter> A = {}"
  shows "represents h' l' ys"
proof -
  have "\<forall>x\<in>set ys. nodes h' x = nodes h x" using assms(1,4) by (auto simp: only_def)
  from linked_outside[OF this] assms show ?thesis by (simp add: represents_def only_def)
qed

lemma insert_next_ok:
  assumes r: "represents h l (as @ bs)" and ne: "ne \<notin> set (as @ bs)" and e: "e = last_of as None"
  shows "\<exists>h'. Curl_llist_insert_next l e p ne h = Some h' \<and> represents h' l (as @ ne # bs) \<and>
    only l (insert ne (set (as @ bs))) h h' \<and> n_ptr (nodes h' ne) = p \<and> (\<forall>x\<in>set (as @ bs). n_ptr (nodes h' x) = n_ptr (nodes h x))"
proof -
  have L: "linked (nodes h) l None (as @ bs) None" and D: "distinct (as @ bs)" using r by (simp_all add: represents_def)
  consider (empty) "as = []" "bs = []" | (front) b bs' where "as = []" "bs = b # bs'"
    | (at_end) as' a where "as = as' @ [a]" "bs = []" | (middle) as' a b bs' where "as = as' @ [a]" "bs = b # bs'"
    by (metis list.exhaust rev_exhaust)
  then show ?thesis
  proof cases
    case empty
    with r e show ?thesis by (auto simp: Curl_llist_insert_next_def represents_def only_def Let_def)
  next
    case front
    with r ne e D show ?thesis
      by (auto simp: Curl_llist_insert_next_def represents_def only_def Let_def)
  next
    case at_end
    with r ne e D show ?thesis
      by (auto simp: Curl_llist_insert_next_def represents_def only_def Let_def linked_append)
  next
    case middle
    with r ne e D show ?thesis
      by (auto simp: Curl_llist_insert_next_def represents_def only_def Let_def linked_append)
  qed
qed

lemma unlink_node_ok:
  assumes r: "represents h l (as @ e # bs)"
  shows "represents (unlink_node l e h) l (as @ bs) \<and> only l (set (as @ bs)) h (unlink_node l e h) \<and>
    (\<forall>x. n_ptr (nodes (unlink_node l e h) x) = n_ptr (nodes h x))"
proof -
  have D: "distinct (as @ e # bs)" using r by (simp add: represents_def)
  consider (single) "as = []" "bs = []" | (front) b bs' where "as = []" "bs = b # bs'"
    | (at_end) as' a where "as = as' @ [a]" "bs = []" | (middle) as' a b bs' where "as = as' @ [a]" "bs = b # bs'"
    by (metis list.exhaust rev_exhaust)
  then show ?thesis
  proof cases
    case single
    with r show ?thesis by (auto simp: unlink_node_def represents_def only_def Let_def)
  next
    case front
    with r D show ?thesis by (auto simp: unlink_node_def represents_def only_def Let_def)
  next
    case at_end
    have "first_of (as' @ [a]) None \<noteq> Some e" using D at_end by (cases as') auto
    with at_end r D show ?thesis by (auto simp: unlink_node_def represents_def only_def Let_def linked_append)
  next
    case middle
    have "first_of (as' @ [a]) None \<noteq> Some e" using D middle by (cases as') auto
    with middle r D show ?thesis by (auto simp: unlink_node_def represents_def only_def Let_def linked_append)
  qed
qed

lemma only_trans: "only l A h h1 \<Longrightarrow> only l B h1 h2 \<Longrightarrow> A \<subseteq> C \<Longrightarrow> B \<subseteq> C \<Longrightarrow> only l C h h2"
  unfolding only_def by (metis subsetD)

lemma take_elem_ok:
  assumes r: "represents h l (as @ e # bs)"
  shows "\<exists>h'. Curl_node_take_elem (Some e) h = (n_ptr (nodes h e), h') \<and> represents h' l (as @ bs) \<and>
    only l (set (as @ e # bs)) h h' \<and> n_list (nodes h' e) = None \<and> (\<forall>x. x \<noteq> e \<longrightarrow> n_ptr (nodes h' x) = n_ptr (nodes h x))"
proof -
  have l: "n_list (nodes h e) = Some l" using r by (auto simp: represents_def linked_append)
  define h1 where "h1 = unlink_node l e h"
  define h2 where "h2 = upd_node e (\<lambda>n. n\<lparr>n_list := None, n_ptr := None, n_prev := None, n_next := None\<rparr>) h1"
  note U = unlink_node_ok[OF r, folded h1_def]
  have d: "e \<notin> set (as @ bs)" using r by (auto simp: represents_def)
  have "Curl_node_take_elem (Some e) h = (n_ptr (nodes h1 e), h2)"
    by (simp add: Curl_node_take_elem_def l h1_def h2_def Let_def)
  moreover have "represents h2 l (as @ bs)" using U d by (simp add: represents_def h2_def)
  moreover have "only l (set (as @ e # bs)) h h2" using U by (auto simp: only_def h2_def)
  ultimately show ?thesis using U by (auto simp: h2_def)
qed

lemma node_uremove_ok:
  assumes r: "represents h l (as @ e # bs)"
  shows "\<exists>h'. node_uremove (Some e) h = (if l_dtor (lists h l) then [n_ptr (nodes h e)] else [], h') \<and> represents h' l (as @ bs) \<and>
    only l (set (as @ e # bs)) h h' \<and> n_list (nodes h' e) = None \<and> (\<forall>x. x \<noteq> e \<longrightarrow> n_ptr (nodes h' x) = n_ptr (nodes h x))"
proof -
  have l: "n_list (nodes h e) = Some l" using r by (auto simp: represents_def linked_append)
  obtain h' where "Curl_node_take_elem (Some e) h = (n_ptr (nodes h e), h')" "represents h' l (as @ bs)"
    "only l (set (as @ e # bs)) h h'" "n_list (nodes h' e) = None" "\<forall>x. x \<noteq> e \<longrightarrow> n_ptr (nodes h' x) = n_ptr (nodes h x)"
    using take_elem_ok[OF r] by auto
  then show ?thesis using l by (auto simp: node_uremove_def only_def)
qed

lemma destroy_ok:
  assumes "represents h l xs" "length xs < fuel"
  shows "\<exists>h'. llist_destroy_loop fuel l h = Some (if l_dtor (lists h l) then map (\<lambda>x. n_ptr (nodes h x)) (rev xs) else [], h') \<and>
    represents h' l [] \<and> only l (set xs) h h' \<and> (\<forall>x\<in>set xs. n_list (nodes h' x) = None)"
  using assms
proof (induction fuel arbitrary: h xs)
  case (Suc fuel)
  show ?case
  proof (cases xs rule: rev_cases)
    case Nil
    with Suc.prems show ?thesis by (auto simp: represents_def only_def)
  next
    case (snoc ys e)
    have r: "represents h l (ys @ e # [])" using Suc.prems(1) snoc by simp
    obtain h1 where u: "node_uremove (Some e) h = (if l_dtor (lists h l) then [n_ptr (nodes h e)] else [], h1)" "represents h1 l ys"
      "only l (set xs) h h1" "n_list (nodes h1 e) = None" "\<forall>x. x \<noteq> e \<longrightarrow> n_ptr (nodes h1 x) = n_ptr (nodes h x)"
      using node_uremove_ok[OF r] snoc by auto
    obtain h2 where d: "llist_destroy_loop fuel l h1 = Some (if l_dtor (lists h1 l) then map (\<lambda>x. n_ptr (nodes h1 x)) (rev ys) else [], h2)"
      "represents h2 l []" "only l (set ys) h1 h2" "\<forall>x\<in>set ys. n_list (nodes h2 x) = None"
      using Suc.IH[OF u(2)] Suc.prems(2) snoc by auto
    have e: "e \<notin> set ys" using r by (simp add: represents_def)
    then have p: "map (\<lambda>x. n_ptr (nodes h1 x)) (rev ys) = map (\<lambda>x. n_ptr (nodes h x)) (rev ys)" using u(5) by auto
    have dt: "l_dtor (lists h1 l) = l_dtor (lists h l)" using u(3) by (simp add: only_def)
    have "l_size (lists h l) > 0" "l_tail (lists h l) = Some e" using r by (simp_all add: represents_def)
    then have "llist_destroy_loop (Suc fuel) l h = Some (if l_dtor (lists h l) then map (\<lambda>x. n_ptr (nodes h x)) (rev xs) else [], h2)"
      using u(1) d(1) dt p snoc by simp
    moreover have "only l (set xs) h h2" using only_trans[OF u(3) d(3)] snoc by auto
    moreover have "n_list (nodes h2 e) = None" using d(3) u(4) e by (simp add: only_def)
    ultimately show ?thesis using d snoc by auto
  qed
qed simp

lemma neighbours:
  assumes "represents h l (as @ e # bs)"
  shows "Curl_node_next e h = first_of bs None" "llist_node_prev e h = last_of as None" "Curl_node_llist e h = Some l"
  using assms by (auto simp: represents_def linked_append Curl_node_next_def llist_node_prev_def Curl_node_llist_def)

section \<open>Properties\<close>

text \<open>
  C12: The linked list is a sequence of nodes. Inserting a node after a given one, or in front when none
  is given, and appending put it at that place; taking a node out removes it and returns its element;
  head, tail, neighbours and count are those of the sequence; pointers in both directions stay
  consistent, no null pointer is followed, and another list with other nodes is not touched.
\<close>

theorem llist_refines_sequence:
  assumes "represents h l (as @ bs)" "represents h l' ys" "l' \<noteq> l" "set ys \<inter> set (as @ bs) = {}" "ne \<notin> set (as @ bs @ ys)"
  shows "Curl_llist_head l h = first_of (as @ bs) None \<and> llist_tail l h = last_of (as @ bs) None \<and>
    Curl_llist_count l h = length (as @ bs) \<and>
    (case Curl_llist_insert_next l (last_of as None) p ne h of
       None \<Rightarrow> False
     | Some h' \<Rightarrow> represents h' l (as @ ne # bs) \<and> represents h' l' ys \<and> Curl_node_elem ne h' = p) \<and>
    (case Curl_llist_append l p ne h of
       None \<Rightarrow> False
     | Some h' \<Rightarrow> represents h' l (as @ bs @ [ne]) \<and> represents h' l' ys \<and> Curl_node_elem ne h' = p) \<and>
    (case bs of
       [] \<Rightarrow> True
     | e # cs \<Rightarrow>
         Curl_node_next e h = first_of cs None \<and> llist_node_prev e h = last_of as None \<and>
         (case Curl_node_take_elem (Some e) h of (ptr, h') \<Rightarrow>
            ptr = Curl_node_elem e h \<and> represents h' l (as @ cs) \<and> represents h' l' ys \<and> Curl_node_llist e h' = None))"
proof -
  have ne: "ne \<notin> set (as @ bs)" and ys: "set ys \<inter> insert ne (set (as @ bs)) = {}" using assms(4,5) by auto
  obtain h1 where i: "Curl_llist_insert_next l (last_of as None) p ne h = Some h1" "represents h1 l (as @ ne # bs)"
    "only l (insert ne (set (as @ bs))) h h1" "n_ptr (nodes h1 ne) = p" using insert_next_ok[OF assms(1) ne refl, of p] by auto
  have "represents h l ((as @ bs) @ [])" "ne \<notin> set ((as @ bs) @ [])" "l_tail (lists h l) = last_of (as @ bs) None"
    using assms(1) ne by (simp_all add: represents_def)
  then obtain h2 where a: "Curl_llist_append l p ne h = Some h2" "represents h2 l (as @ bs @ [ne])"
    "only l (insert ne (set (as @ bs))) h h2" "n_ptr (nodes h2 ne) = p"
    using insert_next_ok[of h l "as @ bs" "[]" ne "last_of (as @ bs) None" p] by (auto simp: Curl_llist_append_def)
  have o1: "represents h1 l' ys" "represents h2 l' ys" using only_other[OF i(3) assms(2,3) ys] only_other[OF a(3) assms(2,3) ys] by auto
  have t: "case bs of [] \<Rightarrow> True
     | e # cs \<Rightarrow>
         Curl_node_next e h = first_of cs None \<and> llist_node_prev e h = last_of as None \<and>
         (case Curl_node_take_elem (Some e) h of (ptr, h') \<Rightarrow>
            ptr = Curl_node_elem e h \<and> represents h' l (as @ cs) \<and> represents h' l' ys \<and> Curl_node_llist e h' = None)"
  proof (cases bs)
    case (Cons e cs)
    obtain h3 where k: "Curl_node_take_elem (Some e) h = (n_ptr (nodes h e), h3)" "represents h3 l (as @ cs)"
      "only l (set (as @ e # cs)) h h3" "n_list (nodes h3 e) = None" using take_elem_ok[OF assms(1)[unfolded Cons]] by auto
    have "represents h3 l' ys" by (rule only_other[OF k(3) assms(2,3)]) (use assms(4) Cons in auto)
    with k Cons neighbours[OF assms(1)[unfolded Cons]] show ?thesis by (simp add: Curl_node_elem_def Curl_node_llist_def)
  qed simp
  show ?thesis using i a o1 t assms(1)
    by (simp add: represents_def Curl_llist_head_def llist_tail_def Curl_llist_count_def Curl_node_elem_def)
qed

definition blank_store :: "nat llist_store" where
  "blank_store = \<lparr>nodes = (\<lambda>_. \<lparr>n_list = None, n_ptr = None, n_prev = None, n_next = None\<rparr>),
     lists = (\<lambda>_. \<lparr>l_head = None, l_tail = None, l_size = 0, l_dtor = True\<rparr>)\<rparr>"

lemma blank_represents: "represents blank_store l []"
  by (simp add: represents_def blank_store_def)

theorem llist_refines_sequence_witness:
  "represents blank_store 1 [] \<and> represents blank_store 2 [] \<and>
   (\<exists>h'. Curl_llist_append 1 (Some 9) 5 blank_store = Some h' \<and> represents h' 1 [5] \<and> represents h' 2 [])"
  using llist_refines_sequence[of blank_store 1 "[]" "[]" 2 "[]" 5 "Some 9"] blank_represents[of 1] blank_represents[of 2]
  by (auto split: option.splits)

text \<open>
  Destroying a list ends after one step per node: the destructor is called with every element
  exactly once, from the last to the first, the list is empty, its nodes belong to no list any more, and
  another list with other nodes is not touched.
\<close>

theorem llist_destroy_complete:
  assumes "represents h l xs" "length xs < fuel" "represents h l' ys" "l' \<noteq> l" "set ys \<inter> set xs = {}"
  shows "\<exists>h'. Curl_llist_destroy fuel l h =
      Some (if l_dtor (lists h l) then map (\<lambda>x. Curl_node_elem x h) (rev xs) else [], h') \<and>
    represents h' l [] \<and> Curl_llist_count l h' = 0 \<and> (\<forall>x\<in>set xs. Curl_node_llist x h' = None) \<and> represents h' l' ys"
proof -
  obtain h' where d: "llist_destroy_loop fuel l h = Some (if l_dtor (lists h l) then map (\<lambda>x. n_ptr (nodes h x)) (rev xs) else [], h')"
    "represents h' l []" "only l (set xs) h h'" "\<forall>x\<in>set xs. n_list (nodes h' x) = None" using destroy_ok[OF assms(1,2)] by auto
  with only_other[OF d(3) assms(3-5)] show ?thesis
    by (auto simp: Curl_llist_destroy_def Curl_node_elem_def Curl_node_llist_def Curl_llist_count_def represents_def)
qed

theorem llist_destroy_complete_witness:
  "\<exists>h h'. Curl_llist_append 1 (Some 9) 5 blank_store = Some h \<and> represents h 1 [5] \<and>
     Curl_llist_destroy 2 1 h = Some ([Some 9], h') \<and> represents h' 1 []"
proof -
  obtain h where h: "Curl_llist_append 1 (Some 9) 5 blank_store = Some h" "represents h 1 [5]" "only 1 {5} blank_store h"
    "n_ptr (nodes h 5) = Some 9"
    using insert_next_ok[of blank_store 1 "[]" "[]" 5 None "Some 9"] blank_represents[of 1]
    by (auto simp: Curl_llist_append_def blank_store_def)
  have "represents h 2 []" "l_dtor (lists h 1)"
    using only_other[OF h(3) blank_represents[of 2]] h(3) by (auto simp: only_def blank_store_def)
  with llist_destroy_complete[OF h(2), of 2 2 "[]"] h show ?thesis by (auto simp: Curl_node_elem_def)
qed

end
