(* ===== verification/Curl_Format.thy ===== *)
theory Curl_Format
  imports Curl_Mprintf "HOL-Library.Sublist"
begin

text \<open>
  The parser of format strings, \<open>old/lib/mprintf.c\<close>: flags, widths, precisions, conversions,
  positional arguments, and the two arrays \<open>parsefmt\<close> fills, output segments and typed inputs.

  A \<open>const char *\<close> into the format is the rest of the format, so the length of a literal piece is a
  difference of lengths. The array of inputs is a map from its indexes, undefined where nothing was
  stored yet; the bit array of used inputs is the list of its bytes. Errors are the \<open>PFMT_\<close> codes, and \<open>OUT_OF_BOUNDS\<close>, which
  is no code of the source: it stands for a read beyond that bit array.
  Integer sizes are those of the 64-bit Unix targets (\<open>long\<close>, \<open>size_t\<close> and pointers have 64 bits).
\<close>

section \<open>Data\<close>

datatype FormatType = MTYPE_STRING | MTYPE_PTR | MTYPE_INTPTR | MTYPE_INT | MTYPE_LONG | MTYPE_LONGLONG
  | MTYPE_INTU | MTYPE_LONGU | MTYPE_LONGLONGU | MTYPE_DOUBLE | MTYPE_LONGDOUBLE | MTYPE_WIDTH | MTYPE_PRECISION

definition FLAGS_SHORT :: nat where "FLAGS_SHORT = 16"
definition FLAGS_LONGLONG :: nat where "FLAGS_LONGLONG = 64"
definition FLAGS_LONGDOUBLE :: nat where "FLAGS_LONGDOUBLE = 128"
definition FLAGS_WIDTH :: nat where "FLAGS_WIDTH = 8192"
definition FLAGS_WIDTHPARAM :: nat where "FLAGS_WIDTHPARAM = 16384"
definition FLAGS_PREC :: nat where "FLAGS_PREC = 32768"
definition FLAGS_PRECPARAM :: nat where "FLAGS_PRECPARAM = 65536"
definition FLAGS_FLOATE :: nat where "FLAGS_FLOATE = 262144"
definition FLAGS_FLOATG :: nat where "FLAGS_FLOATG = 524288"
definition FLAGS_SUBSTR :: nat where "FLAGS_SUBSTR = 1048576"

definition MAX_PARAMETERS :: int where "MAX_PARAMETERS = 128"
definition MAX_SEGMENTS :: nat where "MAX_SEGMENTS = 128"

datatype dollar = DOLLAR_UNKNOWN | DOLLAR_NOPE | DOLLAR_USE

datatype PFMT = PFMT_DOLLAR | PFMT_DOLLARWIDTH | PFMT_DOLLARPREC | PFMT_MANYARGS | PFMT_PREC | PFMT_PRECMIX
  | PFMT_WIDTH | PFMT_INPUTGAP | PFMT_WIDTHARG | PFMT_PRECARG | PFMT_MANYSEGS
  | OUT_OF_BOUNDS

record outsegment =
  sg_width :: int
  sg_precision :: int
  sg_flags :: nat
  sg_input :: nat
  sg_start :: bytes
  sg_outlen :: nat

text \<open>The flags without one of them, as \<open>flags &= ~(unsigned int)f\<close> leaves them.\<close>

definition flag_clear :: "nat \<Rightarrow> nat \<Rightarrow> nat" where
  "flag_clear fl f = and fl (4294967295 - f)"

definition err_bind :: "'e + 'a \<Rightarrow> ('a \<Rightarrow> 'e + 'b) \<Rightarrow> 'e + 'b" where
  "err_bind m f = (case m of Inl e \<Rightarrow> Inl e | Inr x \<Rightarrow> f x)"

section \<open>One directive\<close>

definition dollarstring :: "bytes \<Rightarrow> int \<times> bytes" where
  "dollarstring p =
     (case curlx_str_number p MAX_PARAMETERS of (rc, num, q) \<Rightarrow>
        if rc \<noteq> STRE_OK then (-1, p)
        else case curlx_str_single q (CHR ''$'') of (rc, q) \<Rightarrow>
          if rc \<noteq> STRE_OK \<or> num = 0 then (-1, p) else (num - 1, q))"

definition parse_precision :: "dollar \<Rightarrow> bytes \<Rightarrow> nat \<Rightarrow> int \<Rightarrow> PFMT + bytes \<times> nat \<times> int \<times> int" where
  "parse_precision ud fmt fl wd =
     err_bind
       (if peek fmt = CHR ''*'' then
          (let fl = or fl FLAGS_PRECPARAM; fmt = tl fmt in
           if ud = DOLLAR_USE then
             (case dollarstring fmt of (pr, fmt) \<Rightarrow>
                if pr < 0 then Inl PFMT_DOLLARPREC else Inr (fmt, fl, pr))
           else Inr (fmt, fl, -1))
        else
          (let fl = or fl FLAGS_PREC; is_neg = (peek fmt = CHR ''-''); fmt = (if is_neg then tl fmt else fmt) in
           case curlx_str_number fmt INT_MAX of (rc, num, fmt) \<Rightarrow>
             if rc \<noteq> STRE_OK then Inl PFMT_PREC else Inr (fmt, fl, if is_neg then - num else num)))
       (\<lambda>(fmt, fl, pr).
          if flag fl FLAGS_PREC \<and> flag fl FLAGS_PRECPARAM then Inl PFMT_PRECMIX else Inr (fmt, fl, pr, wd))"

definition parse_width :: "bytes \<Rightarrow> nat \<Rightarrow> int \<Rightarrow> PFMT + bytes \<times> nat \<times> int \<times> int" where
  "parse_width fmt fl pr =
     (case curlx_str_number fmt INT_MAX of (rc, num, fmt) \<Rightarrow>
        if rc \<noteq> STRE_OK then Inl PFMT_WIDTH else Inr (fmt, or fl FLAGS_WIDTH, pr, num))"

definition parse_star :: "dollar \<Rightarrow> bytes \<Rightarrow> nat \<Rightarrow> int \<Rightarrow> PFMT + bytes \<times> nat \<times> int \<times> int" where
  "parse_star ud fmt fl pr =
     (let fl = or fl FLAGS_WIDTHPARAM in
      if ud = DOLLAR_USE then
        (case dollarstring fmt of (wd, fmt) \<Rightarrow> if wd < 0 then Inl PFMT_DOLLARWIDTH else Inr (fmt, fl, pr, wd))
      else Inr (fmt, fl, pr, -1))"

text \<open>The flags after a flag character that only sets or clears some; \<open>None\<close> for another character.\<close>

definition simple_flag :: "char \<Rightarrow> nat \<Rightarrow> nat option" where
  "simple_flag c fl =
     (if c = CHR '' '' then Some (or fl FLAGS_SPACE)
      else if c = CHR ''+'' then Some (or fl FLAGS_SHOWSIGN)
      else if c = CHR ''-'' then Some (flag_clear (or fl FLAGS_LEFT) FLAGS_PAD_NIL)
      else if c = CHR ''#'' then Some (or fl FLAGS_ALT)
      else if c = CHR ''h'' then Some (or fl FLAGS_SHORT)
      else if c = CHR ''l'' then Some (or fl (if flag fl FLAGS_LONG then FLAGS_LONGLONG else FLAGS_LONG))
      else if c = CHR ''L'' then Some (or fl FLAGS_LONGDOUBLE)
      else if c = CHR ''q'' then Some (or fl FLAGS_LONGLONG)
      else if c = CHR ''z'' \<or> c = CHR ''O'' then Some (or fl FLAGS_LONG)
      else None)"

text \<open>One round of the \<open>switch\<close> over a flag character \<open>c\<close>; \<open>None\<close> is its default branch.\<close>

definition parse_flag ::
  "dollar \<Rightarrow> char \<Rightarrow> bytes \<Rightarrow> nat \<Rightarrow> int \<Rightarrow> int \<Rightarrow> (PFMT + bytes \<times> nat \<times> int \<times> int) option" where
  "parse_flag ud c fmt fl pr wd =
     (case simple_flag c fl of
        Some fl \<Rightarrow> Some (Inr (fmt, fl, pr, wd))
      | None \<Rightarrow>
          if c = CHR ''.'' then Some (parse_precision ud fmt fl wd)
          else if isdigit c then
            Some (parse_width (c # fmt) (if c = CHR ''0'' \<and> \<not> flag fl FLAGS_LEFT then or fl FLAGS_PAD_NIL else fl) pr)
          else if c = CHR ''*'' then Some (parse_star ud fmt fl pr)
          else None)"

section \<open>The cursor only moves forward\<close>

lemma err_bind_Inr_iff: "err_bind m f = Inr y \<longleftrightarrow> (\<exists>x. m = Inr x \<and> f x = Inr y)"
  by (cases m) (auto simp: err_bind_def)

lemma err_bindE:
  assumes "err_bind m f = Inr y"
  obtains x where "m = Inr x" "f x = Inr y"
  using assms by (auto simp: err_bind_Inr_iff)

lemma err_bind_Inr [simp]: "err_bind (Inr x) f = f x"
  by (simp add: err_bind_def)

lemma err_bind_Inl [simp]: "err_bind (Inl e) f = Inl e"
  by (simp add: err_bind_def)

lemma str_number_eq:
  "0 \<le> mx \<Longrightarrow> curlx_str_number line mx =
     (let ds = takeWhile isdigit line in
      if ds = [] then (STRE_NO_NUM, 0, line)
      else if mx < base_value 10 ds then (STRE_OVERFLOW, 0, line)
      else (STRE_OK, base_value 10 ds, dropWhile isdigit line))"
proof -
  have "digit_of_base 10 = isdigit" by (rule ext) (simp add: digit_of_base_iff)
  then show "0 \<le> mx \<Longrightarrow> ?thesis" by (simp add: curlx_str_number_def str_num_base_eq Let_def)
qed

lemma str_number_OK:
  assumes "curlx_str_number line mx = (STRE_OK, num, rest)" "0 \<le> mx"
  shows "0 \<le> num \<and> num \<le> mx \<and> suffix rest line \<and> length rest < length line"
proof -
  from assms have r: "takeWhile isdigit line \<noteq> []" "num = base_value 10 (takeWhile isdigit line)"
    "rest = dropWhile isdigit line" "num \<le> mx" by (auto simp: str_number_eq Let_def split: if_splits)
  have "length line = length (takeWhile isdigit line) + length rest"
    by (metis r(3) length_append takeWhile_dropWhile_id)
  with r base_value_nonneg[of 10] show ?thesis by (simp add: suffix_dropWhile)
qed

lemma limits [simp]: "0 \<le> INT_MAX" "0 \<le> MAX_PARAMETERS" "0 < MAX_PARAMETERS"
  by (simp_all add: INT_MAX_def MAX_PARAMETERS_def)

lemma dollarstring_suffix:
  assumes "dollarstring p = (n, q)"
  shows "suffix q p \<and> -1 \<le> n \<and> n < MAX_PARAMETERS \<and> (n < 0 \<longrightarrow> q = p) \<and> (0 \<le> n \<longrightarrow> CHR ''$'' \<in> set p)"
proof -
  obtain rc num r where s: "curlx_str_number p MAX_PARAMETERS = (rc, num, r)" by (metis prod_cases3)
  show ?thesis
  proof (cases "rc = STRE_OK \<and> peek r = CHR ''$'' \<and> num \<noteq> 0")
    case True
    with s str_number_OK[of p MAX_PARAMETERS num r] have n: "0 \<le> num" "num \<le> MAX_PARAMETERS" "suffix r p" by auto
    from True have "r \<noteq> []" "hd r = CHR ''$''" by (cases r; auto simp: peek_def)+
    then have "CHR ''$'' \<in> set r" by (metis hd_in_set)
    moreover have "suffix (tl r) p" using n(3) suffix_tl suffix_order.trans by blast
    ultimately show ?thesis
      using assms s True n set_mono_suffix[OF n(3)] by (auto simp: dollarstring_def curlx_str_single_def)
  next
    case False
    then have "n = -1 \<and> q = p" using assms s by (auto simp: dollarstring_def curlx_str_single_def split: if_splits)
    then show ?thesis by (simp add: MAX_PARAMETERS_def)
  qed
qed

lemma parse_precision_suffix:
  assumes "parse_precision ud fmt fl wd = Inr (fmt', fl', pr, wd')"
  shows "suffix fmt' fmt"
proof (cases "peek fmt = CHR ''*''")
  case True
  obtain n q where d: "dollarstring (tl fmt) = (n, q)" by force
  have "suffix q fmt" using dollarstring_suffix[OF d] suffix_tl suffix_order.trans by blast
  with assms True d show ?thesis
    by (auto simp: parse_precision_def Let_def suffix_tl split: if_splits)
next
  case False
  define f where "f = (if peek fmt = CHR ''-'' then tl fmt else fmt)"
  have f: "suffix f fmt" by (simp add: f_def suffix_tl)
  obtain rc num r where s: "curlx_str_number f INT_MAX = (rc, num, r)" by (metis prod_cases3)
  from assms False s have "rc = STRE_OK" "fmt' = r"
    by (auto simp: parse_precision_def Let_def f_def[symmetric] split: if_splits)
  with s str_number_OK[of f INT_MAX num r] f show ?thesis using suffix_order.trans by auto
qed

lemma parse_width_suffix:
  assumes "parse_width (c # fmt) fl pr = Inr (fmt', fl', pr', wd')" "isdigit c"
  shows "suffix fmt' fmt"
proof -
  obtain rc num r where s: "curlx_str_number (c # fmt) INT_MAX = (rc, num, r)" by (metis prod_cases3)
  from assms s have "rc = STRE_OK" "fmt' = r" by (auto simp: parse_width_def split: if_splits)
  with s assms(2) have "fmt' = dropWhile isdigit fmt" by (auto simp: str_number_eq Let_def split: if_splits)
  then show ?thesis by (simp add: suffix_dropWhile)
qed

lemma parse_star_suffix: "parse_star ud fmt fl pr = Inr (fmt', fl', pr', wd') \<Longrightarrow> suffix fmt' fmt"
  by (auto simp: parse_star_def Let_def dest: dollarstring_suffix split: if_splits prod.splits)

lemma parse_flag_cases:
  assumes "parse_flag ud c fmt fl pr wd = Some (Inr (fmt', fl', pr', wd'))"
  obtains (simple) "simple_flag c fl = Some fl'" "fmt' = fmt" "pr' = pr" "wd' = wd"
    | (precision) "parse_precision ud fmt fl wd = Inr (fmt', fl', pr', wd')"
    | (width) fl1 where "parse_width (c # fmt) fl1 pr = Inr (fmt', fl', pr', wd')" "isdigit c" "fl1 = fl \<or> fl1 = or fl FLAGS_PAD_NIL"
    | (star) "parse_star ud fmt fl pr = Inr (fmt', fl', pr', wd')"
proof (cases "simple_flag c fl")
  case (Some f)
  with assms simple show ?thesis by (simp add: parse_flag_def)
next
  case n: None
  show ?thesis
  proof (cases "c = CHR ''.''")
    case True
    with assms n precision show ?thesis by (simp add: parse_flag_def)
  next
    case False
    with assms n width star show ?thesis by (simp add: parse_flag_def split: if_split_asm)
  qed
qed

lemma parse_flag_suffix:
  assumes "parse_flag ud c fmt fl pr wd = Some (Inr (fmt', fl', pr', wd'))"
  shows "suffix fmt' fmt"
  using assms
  by (cases rule: parse_flag_cases) (auto dest: parse_precision_suffix parse_width_suffix parse_star_suffix)

text \<open>The \<open>do ... while\<close> loop over the flag characters.\<close>

function parse_flags_loop :: "dollar \<Rightarrow> bytes \<Rightarrow> nat \<Rightarrow> int \<Rightarrow> int \<Rightarrow> PFMT + bytes \<times> nat \<times> int \<times> int" where
  "parse_flags_loop ud fmt fl pr wd =
     (case fmt of
        [] \<Rightarrow> Inr ([], fl, pr, wd)
      | c # rest \<Rightarrow>
          (case parse_flag ud c rest fl pr wd of
             None \<Rightarrow> Inr (fmt, fl, pr, wd)
           | Some (Inl e) \<Rightarrow> Inl e
           | Some (Inr (rest, fl, pr, wd)) \<Rightarrow> parse_flags_loop ud rest fl pr wd))"
  by pat_completeness auto
termination
  by (relation "measure (\<lambda>(ud, fmt, fl, pr, wd). length fmt)") (auto dest!: parse_flag_suffix suffix_length_le)

declare parse_flags_loop.simps [simp del]

definition parse_flags :: "bytes \<Rightarrow> dollar \<Rightarrow> PFMT + bytes \<times> nat \<times> int \<times> int" where
  "parse_flags fmt ud = parse_flags_loop ud fmt 0 0 0"

definition int_type :: "nat \<Rightarrow> FormatType" where
  "int_type fl = (if flag fl FLAGS_LONGLONG then MTYPE_LONGLONG else if flag fl FLAGS_LONG then MTYPE_LONG else MTYPE_INT)"

definition uint_type :: "nat \<Rightarrow> FormatType" where
  "uint_type fl = (if flag fl FLAGS_LONGLONG then MTYPE_LONGLONGU else if flag fl FLAGS_LONG then MTYPE_LONGU else MTYPE_INTU)"

text \<open>The conversion character: the flags it adds and the type of its argument, \<open>None\<close> when it is invalid.\<close>

definition conversion :: "char \<Rightarrow> nat \<Rightarrow> (nat \<times> FormatType) option" where
  "conversion f fl =
     (if f = CHR ''S'' then Some (or fl FLAGS_ALT, MTYPE_STRING)
      else if f = CHR ''s'' then Some (fl, MTYPE_STRING)
      else if f = CHR ''n'' then Some (fl, MTYPE_INTPTR)
      else if f = CHR ''p'' then Some (fl, MTYPE_PTR)
      else if f = CHR ''d'' \<or> f = CHR ''i'' then Some (fl, int_type fl)
      else if f = CHR ''u'' then Some (or fl FLAGS_UNSIGNED, uint_type fl)
      else if f = CHR ''o'' then Some (or fl (or FLAGS_OCTAL FLAGS_UNSIGNED), uint_type fl)
      else if f = CHR ''x'' then Some (or fl (or FLAGS_HEX FLAGS_UNSIGNED), uint_type fl)
      else if f = CHR ''X'' then Some (or fl (or FLAGS_HEX (or FLAGS_UPPER FLAGS_UNSIGNED)), uint_type fl)
      else if f = CHR ''c'' then Some (or fl FLAGS_CHAR, MTYPE_INT)
      else if f = CHR ''f'' then Some (fl, MTYPE_DOUBLE)
      else if f = CHR ''e'' then Some (or fl FLAGS_FLOATE, MTYPE_DOUBLE)
      else if f = CHR ''E'' then Some (or fl (or FLAGS_FLOATE FLAGS_UPPER), MTYPE_DOUBLE)
      else if f = CHR ''g'' then Some (or fl FLAGS_FLOATG, MTYPE_DOUBLE)
      else if f = CHR ''G'' then Some (or fl (or FLAGS_FLOATG FLAGS_UPPER), MTYPE_DOUBLE)
      else None)"

definition parse_conversion :: "char \<Rightarrow> nat \<Rightarrow> (nat \<times> FormatType) option" where
  "parse_conversion f fl = map_option (\<lambda>(flags, t). (or fl flags, t)) (conversion f fl)"

section \<open>The arrays\<close>

definition is_arg_used :: "nat list \<Rightarrow> nat \<Rightarrow> bool" where
  "is_arg_used x y \<longleftrightarrow> and (x ! (y div 8)) (2 ^ (y mod 8)) \<noteq> 0"

definition mark_arg_used :: "nat list \<Rightarrow> nat \<Rightarrow> nat list" where
  "mark_arg_used x y = x[y div 8 := or (x ! (y div 8)) (2 ^ (y mod 8))]"

record pstate =
  param_num :: int
  max_param :: int
  segments :: "outsegment list"
  in_type :: "nat \<rightharpoonup> FormatType"
  usedinput :: "nat list"
  use_dollar :: dollar
  seg_start :: bytes

definition parse_start :: "bytes \<Rightarrow> pstate" where
  "parse_start fmt = \<lparr>param_num = 0, max_param = -1, segments = [], in_type = Map.empty,
     usedinput = replicate (nat MAX_PARAMETERS div 8) 0, use_dollar = DOLLAR_UNKNOWN, seg_start = fmt\<rparr>"

definition add_segment :: "outsegment \<Rightarrow> pstate \<Rightarrow> PFMT + pstate" where
  "add_segment seg st =
     (if length (segments st) + 1 > MAX_SEGMENTS then Inl PFMT_MANYSEGS
      else Inr (st\<lparr>segments := segments st @ [seg]\<rparr>))"

text \<open>A piece of the format as it is; its width and precision are not set and not read.\<close>

definition substring :: "bytes \<Rightarrow> nat \<Rightarrow> outsegment" where
  "substring start len =
     \<lparr>sg_width = 0, sg_precision = 0, sg_flags = FLAGS_SUBSTR, sg_input = 0, sg_start = start, sg_outlen = len\<rparr>"

definition claim_arg :: "int \<Rightarrow> FormatType \<Rightarrow> pstate \<Rightarrow> PFMT + pstate" where
  "claim_arg n t st =
     (if n \<ge> MAX_PARAMETERS then Inl PFMT_MANYARGS
      else Inr (st\<lparr>max_param := if n \<ge> max_param st then n else max_param st,
                   in_type := (in_type st)(nat n \<mapsto> t),
                   usedinput := mark_arg_used (usedinput st) (nat n)\<rparr>))"

definition next_param :: "pstate \<Rightarrow> int \<times> pstate" where
  "next_param st = (param_num st, st\<lparr>param_num := param_num st + 1\<rparr>)"

text \<open>A width or precision given as an argument: the next one, or the named one if it is unused.\<close>

definition star_param :: "PFMT \<Rightarrow> FormatType \<Rightarrow> int \<Rightarrow> pstate \<Rightarrow> PFMT + int \<times> pstate" where
  "star_param e t n st =
     err_bind
       (if n < 0 then Inr (next_param st)
        else if nat n div 8 \<ge> length (usedinput st) then Inl OUT_OF_BOUNDS
        else if is_arg_used (usedinput st) (nat n) then Inl e else Inr (n, st))
       (\<lambda>(n, st). err_bind (claim_arg n t st) (\<lambda>st. Inr (n, st)))"

definition width_param :: "nat \<Rightarrow> int \<Rightarrow> pstate \<Rightarrow> PFMT + int \<times> pstate" where
  "width_param fl n st = (if flag fl FLAGS_WIDTHPARAM then star_param PFMT_WIDTHARG MTYPE_WIDTH n st else Inr (n, st))"

definition prec_param :: "nat \<Rightarrow> int \<Rightarrow> pstate \<Rightarrow> PFMT + int \<times> pstate" where
  "prec_param fl n st = (if flag fl FLAGS_PRECPARAM then star_param PFMT_PRECARG MTYPE_PRECISION n st else Inr (n, st))"

definition main_param :: "int \<Rightarrow> FormatType \<Rightarrow> pstate \<Rightarrow> PFMT + int \<times> pstate" where
  "main_param n t st =
     (case (if n < 0 then next_param st else (n, st)) of (n, st) \<Rightarrow>
        err_bind (claim_arg n t st) (\<lambda>st. Inr (n, st)))"

text \<open>The argument a directive names, or -1 for the next one.\<close>

definition pick_param :: "bytes \<Rightarrow> pstate \<Rightarrow> PFMT + int \<times> bytes \<times> pstate" where
  "pick_param fmt st =
     (if use_dollar st = DOLLAR_NOPE then Inr (-1, fmt, st)
      else case dollarstring fmt of (param, fmt) \<Rightarrow>
        if param < 0 then
          (if use_dollar st = DOLLAR_USE then Inl PFMT_DOLLAR else Inr (-1, fmt, st\<lparr>use_dollar := DOLLAR_NOPE\<rparr>))
        else Inr (param, fmt, st\<lparr>use_dollar := DOLLAR_USE\<rparr>))"

text \<open>A whole directive, from behind its percent sign.\<close>

definition parse_directive :: "bytes \<Rightarrow> pstate \<Rightarrow> PFMT + bytes \<times> pstate" where
  "parse_directive fmt st =
     (let outlen = length (seg_start st) - length fmt - 1 in
      if peek fmt = CHR ''%'' then
        err_bind (if outlen \<noteq> 0 then add_segment (substring (seg_start st) outlen) st else Inr st)
          (\<lambda>st. Inr (tl fmt, st\<lparr>seg_start := fmt\<rparr>))
      else
        err_bind (pick_param fmt st) (\<lambda>(param, fmt, st).
        err_bind (parse_flags fmt (use_dollar st)) (\<lambda>(fmt, fl, precision, width).
        case parse_conversion (peek fmt) fl of
          None \<Rightarrow> Inr (fmt, st)
        | Some (fl, t) \<Rightarrow>
            err_bind (width_param fl width st) (\<lambda>(width, st).
            err_bind (prec_param fl precision st) (\<lambda>(precision, st).
            err_bind (main_param param t st) (\<lambda>(param, st).
            err_bind (add_segment \<lparr>sg_width = width, sg_precision = precision, sg_flags = fl, sg_input = nat param,
                                   sg_start = seg_start st, sg_outlen = outlen\<rparr> st) (\<lambda>st.
            Inr (tl fmt, st\<lparr>seg_start := tl fmt\<rparr>))))))))"

lemma parse_flags_loop_suffix:
  "parse_flags_loop ud fmt fl pr wd = Inr (fmt', fl', pr', wd') \<Longrightarrow> suffix fmt' fmt"
proof (induction ud fmt fl pr wd rule: parse_flags_loop.induct)
  case (1 ud fmt fl pr wd)
  show ?case
  proof (cases fmt)
    case (Cons c rest)
    consider "parse_flag ud c rest fl pr wd = None" | e where "parse_flag ud c rest fl pr wd = Some (Inl e)"
      | r f p w where "parse_flag ud c rest fl pr wd = Some (Inr (r, f, p, w))"
      by (metis option.exhaust sum.exhaust prod_cases4)
    then show ?thesis
    proof cases
      case (3 r f p w)
      with 1 Cons have "suffix fmt' r" by (auto simp: parse_flags_loop.simps[of ud "c # rest"])
      then show ?thesis using parse_flag_suffix[OF 3] Cons suffix_order.trans suffix_ConsI by metis
    qed (use 1 Cons in \<open>auto simp: parse_flags_loop.simps[of ud "c # rest"]\<close>)
  qed (use 1 in \<open>auto simp: parse_flags_loop.simps\<close>)
qed

lemma pick_param_suffix:
  "pick_param fmt st = Inr (n, fmt', st') \<Longrightarrow> suffix fmt' fmt"
  by (auto simp: pick_param_def dest: dollarstring_suffix split: if_splits prod.splits)

lemma parse_directive_suffix:
  assumes "parse_directive fmt st = Inr (fmt', st')"
  shows "suffix fmt' fmt"
proof (cases "peek fmt = CHR ''%''")
  case True
  with assms show ?thesis by (auto simp: parse_directive_def Let_def err_bind_Inr_iff suffix_tl)
next
  case False
  with assms obtain n f1 st1 f2 fl pr wd where
    d: "pick_param fmt st = Inr (n, f1, st1)" "parse_flags f1 (use_dollar st1) = Inr (f2, fl, pr, wd)" "fmt' = f2 \<or> fmt' = tl f2"
    by (auto simp: parse_directive_def Let_def err_bind_Inr_iff split: option.splits)
  then have "suffix f2 f1" by (auto simp: parse_flags_def dest: parse_flags_loop_suffix)
  then have "suffix f2 fmt" using pick_param_suffix[OF d(1)] suffix_order.trans by blast
  then show ?thesis using d(3) suffix_tl suffix_order.trans by blast
qed

function parse_loop :: "bytes \<Rightarrow> pstate \<Rightarrow> PFMT + pstate" where
  "parse_loop [] st = Inr st"
| "parse_loop (c # fmt) st =
     (if c = CHR ''%'' then
        (case parse_directive fmt st of Inl e \<Rightarrow> Inl e | Inr (fmt, st) \<Rightarrow> parse_loop fmt st)
      else parse_loop fmt st)"
  by pat_completeness auto
termination
  by (relation "measure (\<lambda>(fmt, st). length fmt)") (auto dest!: parse_directive_suffix suffix_length_le)

definition parse_segments :: "bytes \<Rightarrow> PFMT + pstate" where
  "parse_segments format =
     err_bind (parse_loop (cstr format) (parse_start (cstr format))) (\<lambda>st.
       if length (seg_start st) \<noteq> 0 then add_segment (substring (seg_start st) (length (seg_start st))) st else Inr st)"

section \<open>The arguments\<close>

text \<open>
  An argument of the call with its type after the default promotions, as its bits. Reading it as
  another type is undefined (\<open>None\<close>), but for the signed and the unsigned type of one size when the
  number is in both, and for pointers.
\<close>

datatype arg = A_ptr "64 word" | A_int "32 word" | A_uint "32 word" | A_long "64 word" | A_ulong "64 word"
  | A_double "64 word"

fun va_arg :: "FormatType \<Rightarrow> arg \<Rightarrow> 64 word option" where
  "va_arg t (A_ptr w) = (if t \<in> {MTYPE_STRING, MTYPE_PTR, MTYPE_INTPTR} then Some w else None)"
| "va_arg t (A_int w) =
     (if t \<in> {MTYPE_INT, MTYPE_WIDTH, MTYPE_PRECISION} \<or> t = MTYPE_INTU \<and> 0 \<le> sint w then Some (scast w) else None)"
| "va_arg t (A_uint w) =
     (if t = MTYPE_INTU \<or> t \<in> {MTYPE_INT, MTYPE_WIDTH, MTYPE_PRECISION} \<and> 0 \<le> sint w then Some (ucast w) else None)"
| "va_arg t (A_long w) =
     (if t \<in> {MTYPE_LONG, MTYPE_LONGLONG} \<or> t \<in> {MTYPE_LONGU, MTYPE_LONGLONGU} \<and> 0 \<le> sint w then Some w else None)"
| "va_arg t (A_ulong w) =
     (if t \<in> {MTYPE_LONGU, MTYPE_LONGLONGU} \<or> t \<in> {MTYPE_LONG, MTYPE_LONGLONG} \<and> 0 \<le> sint w then Some w else None)"
| "va_arg t (A_double w) = (if t = MTYPE_DOUBLE then Some w else None)"

text \<open>\<open>struct va_input\<close>: the type, and the bits of the union, all of whose members have 64 bits.\<close>

record va_input =
  vi_type :: FormatType
  vi_val :: "64 word"

fun read_args :: "pstate \<Rightarrow> nat list \<Rightarrow> arg list \<Rightarrow> (PFMT + va_input list) option" where
  "read_args st [] args = Some (Inr [])"
| "read_args st (i # is) args =
     (if \<not> is_arg_used (usedinput st) i then Some (Inl PFMT_INPUTGAP)
      else case (in_type st i, args) of
        (Some t, a # args) \<Rightarrow>
          (case va_arg t a of
             None \<Rightarrow> None
           | Some v \<Rightarrow>
               map_option (\<lambda>r. err_bind r (\<lambda>ins. Inr (\<lparr>vi_type = t, vi_val = v\<rparr> # ins))) (read_args st is args))
      | _ \<Rightarrow> None)"

definition parsefmt :: "bytes \<Rightarrow> arg list \<Rightarrow> (PFMT + outsegment list \<times> va_input list) option" where
  "parsefmt format arglist =
     (case parse_segments format of
        Inl e \<Rightarrow> if e = OUT_OF_BOUNDS then None else Some (Inl e)
      | Inr st \<Rightarrow>
          map_option (\<lambda>r. err_bind r (\<lambda>ins. Inr (segments st, ins)))
            (read_args st [0..<nat (max_param st + 1)] arglist))"

section \<open>The arrays stay within their bounds\<close>

lemma arg_used_mark:
  assumes "i div 8 < length x"
  shows "is_arg_used (mark_arg_used x i) j \<longleftrightarrow> i = j \<or> is_arg_used x j"
proof -
  have "i = j \<longleftrightarrow> i div 8 = j div 8 \<and> i mod 8 = j mod 8" by (metis div_mult_mod_eq)
  then show ?thesis
    using assms
    by (auto simp: is_arg_used_def mark_arg_used_def nth_list_update and_exp_eq_0_iff_not_bit bit_or_iff bit_exp_iff)
qed

lemma length_mark [simp]: "length (mark_arg_used x i) = length x"
  by (simp add: mark_arg_used_def)

text \<open>A segment that refers to stored inputs only, and to bytes of the format.\<close>

definition segment_ok :: "bytes \<Rightarrow> nat set \<Rightarrow> outsegment \<Rightarrow> bool" where
  "segment_ok format ins seg \<longleftrightarrow>
     suffix (sg_start seg) format \<and> sg_outlen seg \<le> length (sg_start seg) \<and>
     (if flag (sg_flags seg) FLAGS_SUBSTR then 0 < sg_outlen seg
      else sg_input seg \<in> ins \<and>
           (flag (sg_flags seg) FLAGS_WIDTHPARAM \<longrightarrow> 0 \<le> sg_width seg \<and> nat (sg_width seg) \<in> ins) \<and>
           (flag (sg_flags seg) FLAGS_PRECPARAM \<longrightarrow> 0 \<le> sg_precision seg \<and> nat (sg_precision seg) \<in> ins))"

definition arrays_ok :: "pstate \<Rightarrow> bool" where
  "arrays_ok st \<longleftrightarrow> length (usedinput st) = 16 \<and> 0 \<le> param_num st \<and> -1 \<le> max_param st \<and> max_param st < 128 \<and>
     dom (in_type st) \<subseteq> {..<nat (max_param st + 1)} \<and>
     (\<forall>i<128. is_arg_used (usedinput st) i \<longleftrightarrow> i \<in> dom (in_type st))"

lemma arrays_ok_update [simp]:
  "arrays_ok (st\<lparr>segments := sg\<rparr>) = arrays_ok st" "arrays_ok (st\<lparr>seg_start := b\<rparr>) = arrays_ok st"
  "arrays_ok (st\<lparr>use_dollar := ud\<rparr>) = arrays_ok st" "arrays_ok st \<Longrightarrow> arrays_ok (st\<lparr>param_num := param_num st + 1\<rparr>)"
  by (simp_all add: arrays_ok_def)

definition parse_ok :: "bytes \<Rightarrow> pstate \<Rightarrow> bool" where
  "parse_ok format st \<longleftrightarrow> arrays_ok st \<and> suffix (seg_start st) format \<and> length (segments st) \<le> MAX_SEGMENTS \<and>
     (\<forall>seg\<in>set (segments st). segment_ok format (dom (in_type st)) seg)"

definition same_segments :: "pstate \<Rightarrow> pstate \<Rightarrow> bool" where
  "same_segments st st' \<longleftrightarrow> segments st' = segments st \<and> seg_start st' = seg_start st \<and> use_dollar st' = use_dollar st \<and>
     dom (in_type st) \<subseteq> dom (in_type st')"

lemma same_segments_trans: "same_segments a b \<Longrightarrow> same_segments b c \<Longrightarrow> same_segments a c"
  by (auto simp: same_segments_def)

lemma claim_arg_ok:
  assumes "claim_arg n t st = Inr st'" "arrays_ok st" "0 \<le> n"
  shows "arrays_ok st' \<and> same_segments st st' \<and> nat n \<in> dom (in_type st')"
proof -
  from assms have n: "n < 128" and st': "st' = st\<lparr>max_param := if n \<ge> max_param st then n else max_param st,
      in_type := (in_type st)(nat n \<mapsto> t), usedinput := mark_arg_used (usedinput st) (nat n)\<rparr>"
    by (auto simp: claim_arg_def MAX_PARAMETERS_def split: if_splits)
  have "nat n div 8 < length (usedinput st)" using assms n by (auto simp: arrays_ok_def)
  note used = arg_used_mark[OF this]
  have "dom (in_type st) \<subseteq> {..<nat (max_param st + 1)}" using assms(2) by (simp add: arrays_ok_def)
  then have "insert (nat n) (dom (in_type st)) \<subseteq> {..<nat (max_param st' + 1)}" using assms(3) st' by force
  then show ?thesis using assms n by (auto simp: st' arrays_ok_def used same_segments_def)
qed

lemma next_param_ok: "arrays_ok st \<Longrightarrow> next_param st = (n, st') \<Longrightarrow> arrays_ok st' \<and> same_segments st st' \<and> 0 \<le> n"
  by (auto simp: next_param_def same_segments_def) (auto simp: arrays_ok_def)

lemma star_param_ok:
  assumes "star_param e t n st = Inr (n', st')" "arrays_ok st"
  shows "arrays_ok st' \<and> same_segments st st' \<and> 0 \<le> n' \<and> nat n' \<in> dom (in_type st')"
proof -
  from assms obtain st1 where 1: "arrays_ok st1 \<and> same_segments st st1 \<and> 0 \<le> n'" "claim_arg n' t st1 = Inr st'"
  proof (cases "n < 0")
    case True
    with assms that[of "snd (next_param st)"] show ?thesis
      using next_param_ok[of st] by (auto simp: star_param_def err_bind_Inr_iff next_param_def)
  next
    case False
    with assms that[of st] show ?thesis
      by (auto simp: star_param_def err_bind_Inr_iff same_segments_def split: if_splits)
  qed
  with claim_arg_ok[of n' t st1 st'] show ?thesis by (auto intro: same_segments_trans)
qed

lemma main_param_ok:
  assumes "main_param n t st = Inr (n', st')" "arrays_ok st"
  shows "arrays_ok st' \<and> same_segments st st' \<and> 0 \<le> n' \<and> nat n' \<in> dom (in_type st')"
proof -
  from assms obtain st1 where 1: "arrays_ok st1 \<and> same_segments st st1 \<and> 0 \<le> n'" "claim_arg n' t st1 = Inr st'"
  proof (cases "n < 0")
    case True
    with assms that[of "snd (next_param st)"] show ?thesis
      using next_param_ok[of st] by (auto simp: main_param_def err_bind_Inr_iff next_param_def)
  next
    case False
    with assms that[of st] show ?thesis
      by (auto simp: main_param_def err_bind_Inr_iff same_segments_def split: if_splits)
  qed
  with claim_arg_ok[of n' t st1 st'] show ?thesis by (auto intro: same_segments_trans)
qed

lemma width_prec_param_ok:
  assumes "width_param fl n st = Inr (n', st')" "arrays_ok st"
  shows "arrays_ok st' \<and> same_segments st st' \<and>
    (flag fl FLAGS_WIDTHPARAM \<longrightarrow> 0 \<le> n' \<and> nat n' \<in> dom (in_type st'))"
  using assms star_param_ok[of PFMT_WIDTHARG MTYPE_WIDTH n st n' st']
  by (auto simp: width_param_def same_segments_def split: if_splits)

lemma prec_param_ok:
  assumes "prec_param fl n st = Inr (n', st')" "arrays_ok st"
  shows "arrays_ok st' \<and> same_segments st st' \<and>
    (flag fl FLAGS_PRECPARAM \<longrightarrow> 0 \<le> n' \<and> nat n' \<in> dom (in_type st'))"
  using assms star_param_ok[of PFMT_PRECARG MTYPE_PRECISION n st n' st']
  by (auto simp: prec_param_def same_segments_def split: if_splits)

lemma segment_ok_mono: "segment_ok format I seg \<Longrightarrow> I \<subseteq> J \<Longrightarrow> segment_ok format J seg"
  by (auto simp: segment_ok_def)

lemma parse_ok_same: "parse_ok format st \<Longrightarrow> same_segments st st' \<Longrightarrow> arrays_ok st' \<Longrightarrow> parse_ok format st'"
  by (auto simp: parse_ok_def same_segments_def intro: segment_ok_mono)

lemma add_segment_ok:
  assumes "add_segment seg st = Inr st'" "parse_ok format st" "segment_ok format (dom (in_type st)) seg"
  shows "parse_ok format st' \<and> seg_start st' = seg_start st \<and> use_dollar st' = use_dollar st"
  using assms by (auto simp: add_segment_def parse_ok_def split: if_splits)

lemma parse_ok_start [simp]: "parse_ok format st \<Longrightarrow> suffix fmt format \<Longrightarrow> parse_ok format (st\<lparr>seg_start := fmt\<rparr>)"
  by (simp add: parse_ok_def)

lemma parse_ok_dollar [simp]: "parse_ok format (st\<lparr>use_dollar := ud\<rparr>) = parse_ok format st"
  by (simp add: parse_ok_def)

lemma pick_param_ok:
  assumes "pick_param fmt st = Inr (n, fmt', st')" "parse_ok format st"
  shows "parse_ok format st' \<and> seg_start st' = seg_start st"
  using assms by (auto simp: pick_param_def split: if_splits prod.splits)

section \<open>Flags\<close>

lemma flag_iff_bit: "flag fl f \<longleftrightarrow> (\<exists>n. bit fl n \<and> bit f n)"
  by (auto simp: flag_def bit_eq_iff bit_and_iff simp del: neq0_conv)

lemma flag_or [simp]: "flag (or a b) f \<longleftrightarrow> flag a f \<or> flag b f"
  by (auto simp: flag_iff_bit bit_or_iff)

lemma flag_zero [simp]: "\<not> flag 0 f"
  by (simp add: flag_def)

lemma flag_clear_subset: "flag (flag_clear fl g) f \<Longrightarrow> flag fl f"
  by (auto simp: flag_iff_bit flag_clear_def bit_and_iff)

lemmas flag_values = FLAGS_SPACE_def FLAGS_SHOWSIGN_def FLAGS_LEFT_def FLAGS_ALT_def FLAGS_SHORT_def FLAGS_LONG_def
  FLAGS_LONGLONG_def FLAGS_LONGDOUBLE_def FLAGS_PAD_NIL_def FLAGS_UNSIGNED_def FLAGS_OCTAL_def FLAGS_HEX_def
  FLAGS_UPPER_def FLAGS_WIDTH_def FLAGS_WIDTHPARAM_def FLAGS_PREC_def FLAGS_PRECPARAM_def FLAGS_CHAR_def
  FLAGS_FLOATE_def FLAGS_FLOATG_def FLAGS_SUBSTR_def

text \<open>No conversion is a plain piece of the format.\<close>

lemma substr_flags [simp]:
  "\<not> flag FLAGS_SPACE FLAGS_SUBSTR" "\<not> flag FLAGS_SHOWSIGN FLAGS_SUBSTR" "\<not> flag FLAGS_LEFT FLAGS_SUBSTR"
  "\<not> flag FLAGS_ALT FLAGS_SUBSTR" "\<not> flag FLAGS_SHORT FLAGS_SUBSTR" "\<not> flag FLAGS_LONG FLAGS_SUBSTR"
  "\<not> flag FLAGS_LONGLONG FLAGS_SUBSTR" "\<not> flag FLAGS_LONGDOUBLE FLAGS_SUBSTR" "\<not> flag FLAGS_PAD_NIL FLAGS_SUBSTR"
  "\<not> flag FLAGS_UNSIGNED FLAGS_SUBSTR" "\<not> flag FLAGS_OCTAL FLAGS_SUBSTR" "\<not> flag FLAGS_HEX FLAGS_SUBSTR"
  "\<not> flag FLAGS_UPPER FLAGS_SUBSTR" "\<not> flag FLAGS_WIDTH FLAGS_SUBSTR" "\<not> flag FLAGS_WIDTHPARAM FLAGS_SUBSTR"
  "\<not> flag FLAGS_PREC FLAGS_SUBSTR" "\<not> flag FLAGS_PRECPARAM FLAGS_SUBSTR" "\<not> flag FLAGS_CHAR FLAGS_SUBSTR"
  "\<not> flag FLAGS_FLOATE FLAGS_SUBSTR" "\<not> flag FLAGS_FLOATG FLAGS_SUBSTR" "flag FLAGS_SUBSTR FLAGS_SUBSTR"
  by (simp_all add: flag_values flag_def)

lemma prec_flags:
  "\<not> flag FLAGS_SPACE FLAGS_PRECPARAM" "\<not> flag FLAGS_SHOWSIGN FLAGS_PRECPARAM" "\<not> flag FLAGS_LEFT FLAGS_PRECPARAM"
  "\<not> flag FLAGS_ALT FLAGS_PRECPARAM" "\<not> flag FLAGS_SHORT FLAGS_PRECPARAM" "\<not> flag FLAGS_LONG FLAGS_PRECPARAM"
  "\<not> flag FLAGS_LONGLONG FLAGS_PRECPARAM" "\<not> flag FLAGS_LONGDOUBLE FLAGS_PRECPARAM" "\<not> flag FLAGS_PAD_NIL FLAGS_PRECPARAM"
  "\<not> flag FLAGS_WIDTH FLAGS_PRECPARAM" "\<not> flag FLAGS_WIDTHPARAM FLAGS_PRECPARAM" "\<not> flag FLAGS_PREC FLAGS_PRECPARAM"
  "flag FLAGS_PRECPARAM FLAGS_PRECPARAM" "flag FLAGS_PREC FLAGS_PREC"
  by (simp_all add: flag_values flag_def)

lemma parse_parts_flags:
  "parse_precision ud fmt fl wd = Inr (fmt', fl', pr', wd') \<Longrightarrow> fl' = or fl FLAGS_PREC \<or> fl' = or fl FLAGS_PRECPARAM"
  "parse_width fmt fl pr = Inr (fmt', fl', pr', wd') \<Longrightarrow> fl' = or fl FLAGS_WIDTH"
  "parse_star ud fmt fl pr = Inr (fmt', fl', pr', wd') \<Longrightarrow> fl' = or fl FLAGS_WIDTHPARAM"
    apply (cases "peek fmt = CHR ''*''")
     apply (auto simp: parse_precision_def Let_def err_bind_Inr_iff split: if_splits prod.splits)[2]
   apply (auto simp: parse_width_def split: if_splits prod.splits)[1]
  apply (auto simp: parse_star_def Let_def split: if_splits prod.splits)[1]
  done

lemma simple_flag_substr: "simple_flag c fl = Some fl' \<Longrightarrow> flag fl' FLAGS_SUBSTR \<Longrightarrow> flag fl FLAGS_SUBSTR"
  unfolding simple_flag_def by (simp split: if_split_asm; hypsubst; (drule flag_clear_subset)?; simp)

lemma parse_flag_substr:
  assumes "parse_flag ud c fmt fl pr wd = Some (Inr (fmt', fl', pr', wd'))" "\<not> flag fl FLAGS_SUBSTR"
  shows "\<not> flag fl' FLAGS_SUBSTR"
  using assms(1)
proof (cases rule: parse_flag_cases)
  case simple
  with assms(2) simple_flag_substr show ?thesis by blast
qed (use assms(2) in \<open>auto dest!: parse_parts_flags\<close>)

lemma parse_flags_loop_invariant:
  assumes "\<And>c fmt fl pr wd fmt' fl' pr' wd'. parse_flag ud c fmt fl pr wd = Some (Inr (fmt', fl', pr', wd')) \<Longrightarrow>
      P fl pr wd \<Longrightarrow> P fl' pr' wd'"
    and "parse_flags_loop ud fmt fl pr wd = Inr (fmt', fl', pr', wd')" "P fl pr wd"
  shows "P fl' pr' wd'"
  using assms
proof (induction ud fmt fl pr wd rule: parse_flags_loop.induct)
  case (1 ud fmt fl pr wd)
  show ?case
  proof (cases fmt)
    case (Cons c rest)
    consider "parse_flag ud c rest fl pr wd = None" | e where "parse_flag ud c rest fl pr wd = Some (Inl e)"
      | r f p w where "parse_flag ud c rest fl pr wd = Some (Inr (r, f, p, w))"
      by (metis option.exhaust sum.exhaust prod_cases4)
    then show ?thesis
    proof cases
      case (3 r f p w)
      with 1 Cons "1.prems"(1)[OF 3] show ?thesis by (auto simp: parse_flags_loop.simps[of ud "c # rest"])
    qed (use 1 Cons in \<open>auto simp: parse_flags_loop.simps[of ud "c # rest"]\<close>)
  qed (use 1 in \<open>auto simp: parse_flags_loop.simps\<close>)
qed

lemma parse_conversion_flags:
  assumes "parse_conversion c fl = Some (fl', t)"
  shows "flag fl' FLAGS_SUBSTR = flag fl FLAGS_SUBSTR"
    "t \<notin> {MTYPE_LONGDOUBLE, MTYPE_WIDTH, MTYPE_PRECISION}"
    "flag fl' FLAGS_WIDTHPARAM = flag fl FLAGS_WIDTHPARAM" "flag fl' FLAGS_PRECPARAM = flag fl FLAGS_PRECPARAM"
  using assms
  by (auto simp: parse_conversion_def conversion_def int_type_def uint_type_def split: if_splits)
     (simp_all add: flag_values flag_def)

lemma parse_flags_substr: "parse_flags fmt ud = Inr (fmt', fl, pr, wd) \<Longrightarrow> \<not> flag fl FLAGS_SUBSTR"
  using parse_flags_loop_invariant[of ud "\<lambda>fl pr wd. \<not> flag fl FLAGS_SUBSTR" fmt 0 0 0 fmt' fl pr wd] parse_flag_substr[of ud]
  by (auto simp: parse_flags_def)

text \<open>A precision that is an argument is not overwritten by a number: the mix is refused.\<close>

lemma simple_flag_prec: "simple_flag c fl = Some fl' \<Longrightarrow> flag fl' FLAGS_PRECPARAM \<Longrightarrow> flag fl FLAGS_PRECPARAM"
  unfolding simple_flag_def by (simp split: if_split_asm; hypsubst; (drule flag_clear_subset)?; simp add: prec_flags)

lemma parse_flag_prec:
  assumes "parse_flag DOLLAR_NOPE c fmt fl pr wd = Some (Inr (fmt', fl', pr', wd'))" "flag fl FLAGS_PRECPARAM \<longrightarrow> pr < 0"
  shows "flag fl' FLAGS_PRECPARAM \<longrightarrow> pr' < 0"
  using assms(1)
proof (cases rule: parse_flag_cases)
  case simple
  with assms(2) simple_flag_prec show ?thesis by blast
next
  case precision
  then show ?thesis
    by (cases "peek fmt = CHR ''*''")
       (auto simp: parse_precision_def Let_def prec_flags elim!: err_bindE split: if_split_asm prod.split_asm)
next
  case (width fl1)
  then have "fl' = or fl1 FLAGS_WIDTH" "pr' = pr" by (auto simp: parse_width_def split: if_split_asm prod.split_asm)
  then show ?thesis using assms(2) width by (auto simp: prec_flags)
next
  case star
  then have "fl' = or fl FLAGS_WIDTHPARAM" "pr' = pr" by (auto simp: parse_star_def)
  then show ?thesis using assms(2) by (auto simp: prec_flags)
qed

lemma parse_flags_prec:
  "parse_flags fmt DOLLAR_NOPE = Inr (fmt', fl, pr, wd) \<Longrightarrow> flag fl FLAGS_PRECPARAM \<Longrightarrow> pr < 0"
  using parse_flags_loop_invariant[of DOLLAR_NOPE "\<lambda>fl pr wd. flag fl FLAGS_PRECPARAM \<longrightarrow> pr < 0" fmt 0 0 0 fmt' fl pr wd]
    parse_flag_prec
  by (auto simp: parse_flags_def)

text \<open>The steps of a directive that is a conversion or is invalid.\<close>

lemma parse_directive_cases:
  assumes "parse_directive fmt st = Inr (fmt', st')" "peek fmt \<noteq> CHR ''%''"
  obtains (invalid) n f1 fl pr wd where "pick_param fmt st = Inr (n, f1, st')"
      "parse_flags f1 (use_dollar st') = Inr (fmt', fl, pr, wd)" "parse_conversion (peek fmt') fl = None"
    | (conversion) n f1 st1 f2 fl1 pr wd fl t wd' st2 pr' st3 n' st4 st5 where
      "pick_param fmt st = Inr (n, f1, st1)" "parse_flags f1 (use_dollar st1) = Inr (f2, fl1, pr, wd)"
      "parse_conversion (peek f2) fl1 = Some (fl, t)" "width_param fl wd st1 = Inr (wd', st2)"
      "prec_param fl pr st2 = Inr (pr', st3)" "main_param n t st3 = Inr (n', st4)"
      "add_segment \<lparr>sg_width = wd', sg_precision = pr', sg_flags = fl, sg_input = nat n', sg_start = seg_start st4,
         sg_outlen = length (seg_start st) - length fmt - 1\<rparr> st4 = Inr st5"
      "fmt' = tl f2" "st' = st5\<lparr>seg_start := tl f2\<rparr>"
proof -
  from assms obtain n f1 st1 f2 fl pr wd where
    d: "pick_param fmt st = Inr (n, f1, st1)" "parse_flags f1 (use_dollar st1) = Inr (f2, fl, pr, wd)"
    by (auto simp: parse_directive_def Let_def err_bind_Inr_iff)
  show ?thesis
  proof (cases "parse_conversion (peek f2) fl")
    case None
    with assms d invalid show ?thesis by (simp add: parse_directive_def)
  next
    case (Some r)
    obtain fl' t where r: "r = (fl', t)" by force
    from assms(1) have "err_bind (width_param fl' wd st1) (\<lambda>(width, st').
            err_bind (prec_param fl' pr st') (\<lambda>(precision, st').
            err_bind (main_param n t st') (\<lambda>(param, st').
            err_bind (add_segment \<lparr>sg_width = width, sg_precision = precision, sg_flags = fl', sg_input = nat param,
                                   sg_start = seg_start st', sg_outlen = length (seg_start st) - length fmt - 1\<rparr> st') (\<lambda>st'.
            Inr (tl f2, st'\<lparr>seg_start := tl f2\<rparr>))))) = Inr (fmt', st')"
      using assms(2) d Some by (simp add: parse_directive_def r)
    then show ?thesis by (elim err_bindE) (auto elim!: err_bindE intro: conversion[OF d Some[unfolded r]])
  qed
qed

lemma parse_directive_ok:
  assumes "parse_directive fmt st = Inr (fmt', st')" "parse_ok format st" "suffix (CHR ''%'' # fmt) (seg_start st)"
  shows "parse_ok format st' \<and> suffix fmt' (seg_start st')"
proof (cases "peek fmt = CHR ''%''")
  case True
  define len where "len = length (seg_start st) - length fmt - 1"
  have s: "suffix fmt format" using suffix_order.trans[OF suffix_ConsD[OF assms(3)]] assms(2) by (simp add: parse_ok_def)
  have seg: "0 < len \<Longrightarrow> segment_ok format (dom (in_type st)) (substring (seg_start st) len)"
    using assms(2) by (auto simp: segment_ok_def substring_def parse_ok_def len_def)
  from assms(1) True obtain st1 where
    a: "(if len \<noteq> 0 then add_segment (substring (seg_start st) len) st else Inr st) = Inr st1"
       "fmt' = tl fmt" "st' = st1\<lparr>seg_start := fmt\<rparr>"
    unfolding parse_directive_def Let_def len_def[symmetric] by (auto elim!: err_bindE)
  from a(1) have "parse_ok format st1"
    using assms(2) add_segment_ok[OF _ assms(2) seg] by (auto split: if_split_asm)
  then show ?thesis using a s by (simp add: suffix_tl)
next
  case False
  from assms(1) False show ?thesis
  proof (cases rule: parse_directive_cases)
    case (invalid n f1 fl pr wd)
    have "suffix fmt' (seg_start st)"
      by (rule suffix_order.trans[OF parse_directive_suffix[OF assms(1)] suffix_ConsD[OF assms(3)]])
    then show ?thesis using pick_param_ok[OF invalid(1) assms(2)] by simp
  next
    case (conversion n f1 st1 f2 fl1 pr wd fl t wd' st2 pr' st3 n' st4 st5)
    note 1 = pick_param_ok[OF conversion(1) assms(2)]
    then have "arrays_ok st1" by (simp add: parse_ok_def)
    note 2 = width_prec_param_ok[OF conversion(4) this]
    note 3 = prec_param_ok[OF conversion(5) conjunct1[OF 2]]
    note 4 = main_param_ok[OF conversion(6) conjunct1[OF 3]]
    have same: "same_segments st1 st4" using 2 3 4 same_segments_trans by blast
    have p4: "parse_ok format st4" using parse_ok_same[OF conjunct1[OF 1] same] 4 by blast
    have sub: "dom (in_type st2) \<subseteq> dom (in_type st4)" "dom (in_type st3) \<subseteq> dom (in_type st4)"
      using 3 4 by (auto simp: same_segments_def)
    have st4: "seg_start st4 = seg_start st" using 1 same by (simp add: same_segments_def)
    have "\<not> flag fl FLAGS_SUBSTR" using parse_flags_substr[OF conversion(2)] parse_conversion_flags(1)[OF conversion(3)] by simp
    then have "segment_ok format (dom (in_type st4)) \<lparr>sg_width = wd', sg_precision = pr', sg_flags = fl, sg_input = nat n',
        sg_start = seg_start st4, sg_outlen = length (seg_start st) - length fmt - 1\<rparr>"
      using conjunct2[OF conjunct2[OF 2]] conjunct2[OF conjunct2[OF 3]] 4 sub p4
      by (auto simp: segment_ok_def parse_ok_def st4)
    note 5 = add_segment_ok[OF conversion(7) p4 this]
    have "suffix fmt' fmt" by (rule parse_directive_suffix[OF assms(1)])
    then have "suffix fmt' format"
      using suffix_order.trans[OF suffix_order.trans[OF _ suffix_ConsD[OF assms(3)]]] assms(2) by (simp add: parse_ok_def)
    then show ?thesis using 5 conversion(8,9) by simp
  qed
qed

lemma parse_loop_ok:
  "parse_loop fmt st = Inr st' \<Longrightarrow> parse_ok format st \<Longrightarrow> suffix fmt (seg_start st) \<Longrightarrow> parse_ok format st'"
proof (induction fmt st rule: parse_loop.induct)
  case (2 c fmt st)
  show ?case
  proof (cases "c = CHR ''%''")
    case True
    with 2 obtain f s where d: "parse_directive fmt st = Inr (f, s)" by (auto split: sum.splits)
    with True 2 parse_directive_ok[OF d] show ?thesis by auto
  next
    case False
    with 2 suffix_ConsD[of c fmt "seg_start st"] show ?thesis by simp
  qed
qed simp

lemma parse_ok_init: "parse_ok fmt (parse_start fmt)"
proof -
  have "i < 128 \<Longrightarrow> \<not> is_arg_used (replicate 16 0) i" for i by (simp add: is_arg_used_def)
  then show ?thesis by (simp add: parse_ok_def parse_start_def arrays_ok_def MAX_PARAMETERS_def)
qed

lemma parse_segments_ok:
  assumes "parse_segments format = Inr st"
  shows "parse_ok (cstr format) st"
proof -
  from assms obtain s where s: "parse_loop (cstr format) (parse_start (cstr format)) = Inr s"
    and a: "(if length (seg_start s) \<noteq> 0 then add_segment (substring (seg_start s) (length (seg_start s))) s else Inr s) = Inr st"
    by (auto simp: parse_segments_def err_bind_Inr_iff)
  from parse_loop_ok[OF s parse_ok_init] have p: "parse_ok (cstr format) s" by (simp add: parse_start_def)
  show ?thesis
  proof (cases "seg_start s = []")
    case True
    with a p show ?thesis by simp
  next
    case False
    then have "segment_ok (cstr format) (dom (in_type s)) (substring (seg_start s) (length (seg_start s)))"
      using p by (auto simp: segment_ok_def substring_def parse_ok_def)
    with a False add_segment_ok[OF _ p] show ?thesis by simp
  qed
qed

section \<open>Reading the arguments\<close>

lemma read_args_types:
  "read_args st is args = Some (Inr ins) \<Longrightarrow> map (\<lambda>i. in_type st i) is = map (\<lambda>v. Some (vi_type v)) ins"
proof (induction st "is" args arbitrary: ins rule: read_args.induct)
  case (2 st i "is" args)
  then obtain t a rest v r where r: "is_arg_used (usedinput st) i" "in_type st i = Some t" "args = a # rest" "va_arg t a = Some v"
    "read_args st is rest = Some (Inr r)" "ins = \<lparr>vi_type = t, vi_val = v\<rparr> # r"
    by (auto simp: err_bind_Inr_iff split: if_splits option.splits list.splits)
  from "2.IH"[OF _ refl r(2) r(3) r(4) r(5)] r show ?case by simp
qed auto

section \<open>Properties\<close>

text \<open>
  C31: The arrays of a format that is accepted: at most 128 segments and 128 inputs are filled, every literal piece lies in the format, every segment that converts an argument
  refers to an input that was read, for its value and for a width or precision given as an argument,
  and no input between is left unread.
\<close>

theorem parsefmt_bounds:
  assumes "parsefmt format args = Some (Inr (segs, ins))"
  shows "length segs \<le> MAX_SEGMENTS \<and> length ins \<le> nat MAX_PARAMETERS \<and>
    (\<forall>seg\<in>set segs. segment_ok (cstr format) {..<length ins} seg)"
proof -
  from assms obtain st where st: "parse_segments format = Inr st" "segs = segments st"
      "read_args st [0..<nat (max_param st + 1)] args = Some (Inr ins)"
    by (cases "parse_segments format") (auto simp: parsefmt_def err_bind_Inr_iff split: if_splits)
  have p: "parse_ok (cstr format) st" by (rule parse_segments_ok[OF st(1)])
  have "length ins = nat (max_param st + 1)" using arg_cong[OF read_args_types[OF st(3)], of length] by simp
  moreover have "dom (in_type st) \<subseteq> {..<nat (max_param st + 1)}" using p by (simp add: parse_ok_def arrays_ok_def)
  moreover have "\<forall>seg\<in>set segs. segment_ok (cstr format) (dom (in_type st)) seg" "length segs \<le> MAX_SEGMENTS" "max_param st < 128"
    using p st(2) by (simp_all add: parse_ok_def arrays_ok_def)
  ultimately show ?thesis using segment_ok_mono by (fastforce simp: MAX_PARAMETERS_def)
qed

theorem parsefmt_bounds_witness:
  "case parsefmt ''a%2$*1$d%%'' [A_int 5, A_int 7] of Some (Inr (segs, ins)) \<Rightarrow>
     length segs \<le> MAX_SEGMENTS \<and> length ins \<le> nat MAX_PARAMETERS \<and>
     (\<forall>seg\<in>set segs. segment_ok (cstr ''a%2$*1$d%%'') {..<length ins} seg) | _ \<Rightarrow> False"
proof -
  have "case parsefmt ''a%2$*1$d%%'' [A_int 5, A_int 7] of Some (Inr (segs, ins)) \<Rightarrow> True | _ \<Rightarrow> False" by code_simp
  then obtain segs ins where e: "parsefmt ''a%2$*1$d%%'' [A_int 5, A_int 7] = Some (Inr (segs, ins))"
    by (auto split: option.splits sum.splits)
  from parsefmt_bounds[OF e] show ?thesis unfolding e by simp
qed

text \<open>
  Corners of the parser. A width given as \<open>*\<close> and then as digits is taken for the number of an
  argument, which is looked up in the bit array before it is checked; a single dot is refused; the
  modifier \<open>L\<close> does not change the type that is read; a positional width may name the argument of its
  own conversion, whose type wins.
\<close>

lemma star_width_out_of_bounds: "map_sum id segments (parse_segments ''%*500d'') = Inl OUT_OF_BOUNDS"
  by code_simp

lemma single_dot_refused: "map_sum id segments (parse_segments ''%.s'') = Inl PFMT_PREC"
  by code_simp

lemma long_double_read_as_double: "map_sum id (\<lambda>st. in_type st 0) (parse_segments ''%Lf'') = Inr (Some MTYPE_DOUBLE)"
  by code_simp

lemma width_of_own_argument:
  "map_sum id (\<lambda>st. (in_type st 0, map (\<lambda>seg. (sg_width seg, sg_input seg)) (segments st))) (parse_segments ''%1$*1$s'') =
     Inr (Some MTYPE_STRING, [(0, 0)])"
  by code_simp

end
