(* ===== verification/Curl_Formatf.thy ===== *)
theory Curl_Formatf
  imports Curl_Format Curl_Dynbuf
begin

text \<open>
  The printf engine of \<open>old/lib/mprintf.c\<close> over the parsed format: \<open>formatf\<close>, floating point fields, and
  the functions of the family, each with its stream callback.

  What a segment does is a list of events: bytes for the callback, the store of \<open>%n\<close>, and \<open>Stuck\<close>,
  which stands for undefined behaviour and for a loop that does not end; \<open>emit\<close> performs them until the
  callback refuses a byte. \<open>mem\<close> gives the bytes a string argument points to and \<open>lib\<close> the text that
  \<open>snprintf\<close> of the C library makes of a \<open>double\<close>, given the format the code composes; a \<open>double\<close> is its
  64 bits, and comparison and division by ten are those of IEEE 754.
\<close>

section \<open>Floating point fields\<close>

definition dbl_infinity :: "64 word" where "dbl_infinity = 0x7FF0000000000000"

text \<open>\<open>val >= 10.0\<close>: of two positive doubles the greater has the greater bits; the other bit patterns
  are negative numbers and not-a-numbers.\<close>

definition dbl_ge10 :: "64 word \<Rightarrow> bool" where
  "dbl_ge10 w \<longleftrightarrow> 0x4024000000000000 \<le> w \<and> w \<le> dbl_infinity"

definition round_half_even :: "nat \<Rightarrow> nat \<Rightarrow> nat" where
  "round_half_even a b =
     (let q = a div b; r = a mod b in if 2 * r < b \<or> 2 * r = b \<and> even q then q else q + 1)"

text \<open>\<open>val / 10\<close> for a value from 10.0 on, where no result is subnormal: the quotient of the 53 bits of
  the significand, scaled to 53 bits again and rounded.\<close>

definition dbl_div10 :: "64 word \<Rightarrow> 64 word" where
  "dbl_div10 w =
     (if w = dbl_infinity then w
      else
        let e = unat w div 2 ^ 52; m = 2 ^ 52 + unat w mod 2 ^ 52;
            s = (if 10 * 2 ^ 52 \<le> 8 * m then 3 else 4) in
        word_of_nat ((e - s) * 2 ^ 52 + (round_half_even (m * 2 ^ s) 10 - 2 ^ 52)))"

partial_function (option) digits_loop :: "64 word \<Rightarrow> int \<Rightarrow> int option" where
  "digits_loop val maxprec = (if dbl_ge10 val then digits_loop (dbl_div10 val) (maxprec - 1) else Some maxprec)"

declare digits_loop.simps [code]

text \<open>What \<open>curl_msnprintf\<close> hands to its stream for the format \<open>%d\<close>.\<close>

definition decimal :: "int \<Rightarrow> bytes" where
  "decimal n = out_number \<lparr>width = 0, prec = -1, flags = 0\<rparr> (unat (word_of_int n :: 64 word)) n"

definition double_prec :: "int \<Rightarrow> int \<Rightarrow> 64 word \<Rightarrow> int option" where
  "double_prec wd pr dnum =
     (let maxprec = int BUFFSIZE - 1;
          pr = (if pr > maxprec then maxprec - 1 else pr);
          maxprec = (if wd > 0 \<and> pr \<le> wd then maxprec - wd else maxprec) in
      do {
        maxprec \<leftarrow> digits_loop dnum maxprec;
        let pr = (if pr > maxprec then maxprec - 1 else pr);
        Some (if pr < 0 then 0 else pr)
      })"

text \<open>The format composed for the C library, in a buffer of 32 bytes.\<close>

definition double_format :: "mproperty \<Rightarrow> 64 word \<Rightarrow> bytes option" where
  "double_format p dnum =
     (let fl = flags p; left = 31;
          fmt = ''%'' @ (if flag fl FLAGS_LEFT then ''-'' else []) @ (if flag fl FLAGS_SHOWSIGN then ''+'' else []) @
                (if flag fl FLAGS_SPACE then '' '' else []) @ (if flag fl FLAGS_ALT then ''#'' else []);
          wd = (if width p \<ge> int BUFFSIZE then int BUFFSIZE - 1 else width p);
          (dlen, ds) = (if width p \<ge> 0 then curl_mvsnprintf left (decimal wd) else (0, []));
          fmt = fmt @ ds; left = left - dlen in
      do {
        fmt \<leftarrow> (if prec p \<ge> 0 then
                  do { pr \<leftarrow> double_prec wd (prec p) dnum; Some (fmt @ snd (curl_mvsnprintf left (CHR ''.'' # decimal pr))) }
                else Some fmt);
        let fmt = fmt @ (if flag fl FLAGS_LONG then ''l'' else []);
        Some (fmt @
          (if flag fl FLAGS_FLOATE then if flag fl FLAGS_UPPER then ''E'' else ''e''
           else if flag fl FLAGS_FLOATG then if flag fl FLAGS_UPPER then ''G'' else ''g''
           else ''f''))
      })"

definition out_double :: "(bytes \<Rightarrow> 64 word \<Rightarrow> bytes) \<Rightarrow> mproperty \<Rightarrow> 64 word \<Rightarrow> bytes option" where
  "out_double lib p dnum = map_option (\<lambda>fmt. take (BUFFSIZE - 1) (cstr (lib fmt dnum))) (double_format p dnum)"

section \<open>The engine\<close>

datatype event = Out char | Count nat "64 word" | Stuck

type_synonym memory = "64 word \<Rightarrow> bytes"
type_synonym store = "64 word \<times> nat \<times> int"

definition read_int :: "64 word \<Rightarrow> int" where
  "read_int v = sint (ucast v :: 32 word)"

text \<open>The property block of a field: \<open>wv\<close> and \<open>pv\<close> are the inputs for a width or precision given as an
  argument.\<close>

definition field_width :: "nat \<Rightarrow> 64 word \<Rightarrow> int \<Rightarrow> int \<times> nat" where
  "field_width fl wv wd =
     (if flag fl FLAGS_WIDTHPARAM then
        let n = read_int wv in
        if n < 0 then (if n = - 2147483648 then INT_MAX else - n, flag_clear (or fl FLAGS_LEFT) FLAGS_PAD_NIL)
        else (n, fl)
      else (wd, fl))"

definition field_prec :: "nat \<Rightarrow> 64 word \<Rightarrow> int \<Rightarrow> int" where
  "field_prec fl pv pr =
     (if flag fl FLAGS_PRECPARAM then let n = read_int pv in if n < 0 then -1 else n
      else if flag fl FLAGS_PREC then pr else -1)"

definition field_property :: "nat \<Rightarrow> 64 word \<Rightarrow> int \<Rightarrow> 64 word \<Rightarrow> int \<Rightarrow> mproperty" where
  "field_property fl wv wd pv pr =
     (case field_width fl wv wd of (wd, fl) \<Rightarrow> \<lparr>width = wd, prec = field_prec fl pv pr, flags = fl\<rparr>)"

definition field_output :: "(bytes \<Rightarrow> 64 word \<Rightarrow> bytes) \<Rightarrow> memory \<Rightarrow> mproperty \<Rightarrow> FormatType \<Rightarrow> 64 word \<Rightarrow> event list" where
  "field_output lib mem p t v =
     (case t of
        MTYPE_INTU \<Rightarrow> map Out (out_number (p\<lparr>flags := or (flags p) FLAGS_UNSIGNED\<rparr>) (unat v) 0)
      | MTYPE_LONGU \<Rightarrow> map Out (out_number (p\<lparr>flags := or (flags p) FLAGS_UNSIGNED\<rparr>) (unat v) 0)
      | MTYPE_LONGLONGU \<Rightarrow> map Out (out_number (p\<lparr>flags := or (flags p) FLAGS_UNSIGNED\<rparr>) (unat v) 0)
      | MTYPE_INT \<Rightarrow> map Out (out_number p (unat v) (sint v))
      | MTYPE_LONG \<Rightarrow> map Out (out_number p (unat v) (sint v))
      | MTYPE_LONGLONG \<Rightarrow> map Out (out_number p (unat v) (sint v))
      | MTYPE_STRING \<Rightarrow> map Out (out_string p (if v = 0 then None else Some (mem v)))
      | MTYPE_PTR \<Rightarrow> map Out (out_pointer p (unat v))
      | MTYPE_DOUBLE \<Rightarrow> (case out_double lib p v of None \<Rightarrow> [Stuck] | Some out \<Rightarrow> map Out out)
      | MTYPE_INTPTR \<Rightarrow> [Count (flags p) v]
      | _ \<Rightarrow> [])"

text \<open>The body of the loop over the segments; an input that was not filled must not be read.\<close>

definition input_val :: "va_input list \<Rightarrow> int \<Rightarrow> 64 word" where
  "input_val ins i = vi_val (ins ! nat i)"

definition inputs_read :: "outsegment \<Rightarrow> int list" where
  "inputs_read seg = int (sg_input seg) #
     (if flag (sg_flags seg) FLAGS_WIDTHPARAM then [sg_width seg] else []) @
     (if flag (sg_flags seg) FLAGS_PRECPARAM then [sg_precision seg] else [])"

definition segment_field :: "(bytes \<Rightarrow> 64 word \<Rightarrow> bytes) \<Rightarrow> memory \<Rightarrow> va_input list \<Rightarrow> outsegment \<Rightarrow> event list" where
  "segment_field lib mem ins seg =
     (if list_all (\<lambda>i. 0 \<le> i \<and> i < int (length ins)) (inputs_read seg) then
        field_output lib mem
          (field_property (sg_flags seg) (input_val ins (sg_width seg)) (sg_width seg)
             (input_val ins (sg_precision seg)) (sg_precision seg))
          (vi_type (ins ! sg_input seg)) (vi_val (ins ! sg_input seg))
      else [Stuck])"

definition segment_output :: "(bytes \<Rightarrow> 64 word \<Rightarrow> bytes) \<Rightarrow> memory \<Rightarrow> va_input list \<Rightarrow> outsegment \<Rightarrow> event list" where
  "segment_output lib mem ins seg =
     map Out (take (sg_outlen seg) (cstr (sg_start seg))) @
     (if sg_outlen seg \<noteq> 0 \<and> flag (sg_flags seg) FLAGS_SUBSTR then [] else segment_field lib mem ins seg)"

text \<open>The store of \<open>%n\<close>: address, size of the integer, and the count as that integer.\<close>

definition count_store :: "nat \<Rightarrow> 64 word \<Rightarrow> nat \<Rightarrow> store" where
  "count_store fl ptr n =
     (if flag fl FLAGS_LONGLONG \<or> flag fl FLAGS_LONG then (ptr, 8, int n)
      else if \<not> flag fl FLAGS_SHORT then (ptr, 4, int n)
      else (ptr, 2, sint (word_of_nat n :: 16 word)))"

fun emit :: "(char \<Rightarrow> 'u \<Rightarrow> bool \<times> 'u) \<Rightarrow> event list \<Rightarrow> 'u \<Rightarrow> nat \<Rightarrow> store list \<Rightarrow> (bool \<times> 'u \<times> nat \<times> store list) option" where
  "emit stream [] u n sts = Some (False, u, n, sts)"
| "emit stream (Out c # es) u n sts =
     (case stream c u of (stop, u) \<Rightarrow> if stop then Some (True, u, n, sts) else emit stream es u (n + 1) sts)"
| "emit stream (Count fl ptr # es) u n sts = emit stream es u n (sts @ [count_store fl ptr n])"
| "emit stream (Stuck # es) u n sts = None"

fun formatf_loop ::
  "(bytes \<Rightarrow> 64 word \<Rightarrow> bytes) \<Rightarrow> memory \<Rightarrow> (char \<Rightarrow> 'u \<Rightarrow> bool \<times> 'u) \<Rightarrow> va_input list \<Rightarrow> outsegment list \<Rightarrow> 'u \<Rightarrow> nat \<Rightarrow>
     store list \<Rightarrow> ('u \<times> nat \<times> store list) option" where
  "formatf_loop lib mem stream ins [] u n sts = Some (u, n, sts)"
| "formatf_loop lib mem stream ins (seg # segs) u n sts =
     (case emit stream (segment_output lib mem ins seg) u n sts of
        None \<Rightarrow> None
      | Some (stop, u, n, sts) \<Rightarrow>
          if stop then Some (u, n, sts) else formatf_loop lib mem stream ins segs u n sts)"

definition formatf ::
  "(bytes \<Rightarrow> 64 word \<Rightarrow> bytes) \<Rightarrow> memory \<Rightarrow> (char \<Rightarrow> 'u \<Rightarrow> bool \<times> 'u) \<Rightarrow> 'u \<Rightarrow> bytes \<Rightarrow> arg list \<Rightarrow>
     ('u \<times> nat \<times> store list) option" where
  "formatf lib mem stream u format args =
     (case parsefmt format args of
        None \<Rightarrow> None
      | Some (Inl e) \<Rightarrow> Some (u, 0, [])
      | Some (Inr (segs, ins)) \<Rightarrow> formatf_loop lib mem stream ins segs u 0 [])"

section \<open>The family\<close>

text \<open>Each function with the result, the text it leaves, and the stores of \<open>%n\<close>.\<close>

definition mvsnprintf ::
  "(bytes \<Rightarrow> 64 word \<Rightarrow> bytes) \<Rightarrow> memory \<Rightarrow> nat \<Rightarrow> bytes \<Rightarrow> arg list \<Rightarrow> (nat \<times> bytes \<times> store list) option" where
  "mvsnprintf lib mem maxlength format args =
     map_option (\<lambda>(info, retcode, sts).
         if n_max info \<noteq> 0 \<and> n_max info = length (n_stored info) then (retcode - 1, butlast (n_stored info), sts)
         else (retcode, n_stored info, sts))
       (formatf lib mem addbyter \<lparr>n_stored = [], n_max = maxlength\<rparr> format args)"

definition curl_msnprintf ::
  "(bytes \<Rightarrow> 64 word \<Rightarrow> bytes) \<Rightarrow> memory \<Rightarrow> nat \<Rightarrow> bytes \<Rightarrow> arg list \<Rightarrow> (nat \<times> bytes \<times> store list) option" where
  "curl_msnprintf lib mem maxlength format args = mvsnprintf lib mem maxlength format args"

definition alloc_stream :: "char \<Rightarrow> MERR \<times> dynbuf \<times> heap \<Rightarrow> bool \<times> MERR \<times> dynbuf \<times> heap" where
  "alloc_stream c u =
     (case u of (err, s, h) \<Rightarrow>
        case alloc_addbyter s h c of (e, s, h) \<Rightarrow> if e \<noteq> MERR_OK then (True, e, s, h) else (False, err, s, h))"

definition dyn_vprintf ::
  "(bytes \<Rightarrow> 64 word \<Rightarrow> bytes) \<Rightarrow> memory \<Rightarrow> dynbuf \<Rightarrow> heap \<Rightarrow> bytes \<Rightarrow> arg list \<Rightarrow> (MERR \<times> dynbuf \<times> heap \<times> store list) option" where
  "dyn_vprintf lib mem s h format args =
     map_option (\<lambda>((err, s, h), n, sts). if err \<noteq> MERR_OK then (err, curlx_dyn_free s, h, sts) else (MERR_OK, s, h, sts))
       (formatf lib mem alloc_stream (MERR_OK, s, h) format args)"

definition DYN_APRINTF :: nat where "DYN_APRINTF = 8000000"

definition curl_mvaprintf ::
  "(bytes \<Rightarrow> 64 word \<Rightarrow> bytes) \<Rightarrow> memory \<Rightarrow> heap \<Rightarrow> bytes \<Rightarrow> arg list \<Rightarrow> (bytes option \<times> heap \<times> store list) option" where
  "curl_mvaprintf lib mem h format args =
     map_option (\<lambda>((err, s, h), n, sts).
         if err \<noteq> MERR_OK then (None, h, sts)
         else if curlx_dyn_len s \<noteq> 0 then (curlx_dyn_ptr s, h, sts)
         else case request h of (ok, h) \<Rightarrow> (if ok then Some [NUL] else None, h, sts))
       (formatf lib mem alloc_stream (MERR_OK, curlx_dyn_init DYN_APRINTF, h) format args)"

definition curl_maprintf ::
  "(bytes \<Rightarrow> 64 word \<Rightarrow> bytes) \<Rightarrow> memory \<Rightarrow> heap \<Rightarrow> bytes \<Rightarrow> arg list \<Rightarrow> (bytes option \<times> heap \<times> store list) option" where
  "curl_maprintf lib mem h format args = curl_mvaprintf lib mem h format args"

definition storebuffer :: "char \<Rightarrow> bytes \<Rightarrow> bool \<times> bytes" where
  "storebuffer c buf = (False, buf @ [c])"

definition curl_mvsprintf ::
  "(bytes \<Rightarrow> 64 word \<Rightarrow> bytes) \<Rightarrow> memory \<Rightarrow> bytes \<Rightarrow> arg list \<Rightarrow> (nat \<times> bytes \<times> store list) option" where
  "curl_mvsprintf lib mem format args =
     map_option (\<lambda>(buf, retcode, sts). (retcode, buf @ [NUL], sts)) (formatf lib mem storebuffer [] format args)"

definition curl_msprintf ::
  "(bytes \<Rightarrow> 64 word \<Rightarrow> bytes) \<Rightarrow> memory \<Rightarrow> bytes \<Rightarrow> arg list \<Rightarrow> (nat \<times> bytes \<times> store list) option" where
  "curl_msprintf lib mem format args =
     map_option (\<lambda>(buf, retcode, sts). (retcode, buf @ [NUL], sts)) (formatf lib mem storebuffer [] format args)"

text \<open>The C library's \<open>fputc\<close> on a stream is a parameter; it returns the byte, or \<open>None\<close> for \<open>EOF\<close>.\<close>

definition fputc_wrapper :: "(char \<Rightarrow> 'f \<Rightarrow> char option \<times> 'f) \<Rightarrow> char \<Rightarrow> 'f \<Rightarrow> bool \<times> 'f" where
  "fputc_wrapper fputc outc f = (case fputc outc f of (rc, f) \<Rightarrow> (rc = None, f))"

definition curl_mvfprintf ::
  "(bytes \<Rightarrow> 64 word \<Rightarrow> bytes) \<Rightarrow> memory \<Rightarrow> (char \<Rightarrow> 'f \<Rightarrow> char option \<times> 'f) \<Rightarrow> 'f \<Rightarrow> bytes \<Rightarrow> arg list \<Rightarrow>
     ('f \<times> nat \<times> store list) option" where
  "curl_mvfprintf lib mem fputc fd format args = formatf lib mem (fputc_wrapper fputc) fd format args"

definition curl_mfprintf ::
  "(bytes \<Rightarrow> 64 word \<Rightarrow> bytes) \<Rightarrow> memory \<Rightarrow> (char \<Rightarrow> 'f \<Rightarrow> char option \<times> 'f) \<Rightarrow> 'f \<Rightarrow> bytes \<Rightarrow> arg list \<Rightarrow>
     ('f \<times> nat \<times> store list) option" where
  "curl_mfprintf lib mem fputc fd format args = formatf lib mem (fputc_wrapper fputc) fd format args"

definition curl_mvprintf ::
  "(bytes \<Rightarrow> 64 word \<Rightarrow> bytes) \<Rightarrow> memory \<Rightarrow> (char \<Rightarrow> 'f \<Rightarrow> char option \<times> 'f) \<Rightarrow> 'f \<Rightarrow> bytes \<Rightarrow> arg list \<Rightarrow>
     ('f \<times> nat \<times> store list) option" where
  "curl_mvprintf lib mem fputc stdout format args = formatf lib mem (fputc_wrapper fputc) stdout format args"

definition curl_mprintf ::
  "(bytes \<Rightarrow> 64 word \<Rightarrow> bytes) \<Rightarrow> memory \<Rightarrow> (char \<Rightarrow> 'f \<Rightarrow> char option \<times> 'f) \<Rightarrow> 'f \<Rightarrow> bytes \<Rightarrow> arg list \<Rightarrow>
     ('f \<times> nat \<times> store list) option" where
  "curl_mprintf lib mem fputc stdout format args = formatf lib mem (fputc_wrapper fputc) stdout format args"

section \<open>The reference reading of a format\<close>

text \<open>
  The format as its documentation describes it, without arrays: ordinary characters are copied, and
  every directive takes the arguments it needs from the front of the list, first the width, then the
  precision, then the value. A directive with an invalid conversion is copied too.
\<close>

datatype directive = Lit bytes | Percent | Conv nat int int FormatType

lemma parse_flags_suffix: "parse_flags fmt ud = Inr (fmt', r) \<Longrightarrow> suffix fmt' fmt"
  by (cases r) (auto simp: parse_flags_def dest: parse_flags_loop_suffix)

function directives :: "bytes \<Rightarrow> PFMT + directive list" where
  "directives [] = Inr []"
| "directives (c # fmt) =
     (if c \<noteq> CHR ''%'' then err_bind (directives fmt) (\<lambda>ds. Inr (Lit [c] # ds))
      else if peek fmt = CHR ''%'' then err_bind (directives (tl fmt)) (\<lambda>ds. Inr (Percent # ds))
      else case parse_flags fmt DOLLAR_NOPE of
        Inl e \<Rightarrow> Inl e
      | Inr (rest, fl, pr, wd) \<Rightarrow>
          (case parse_conversion (peek rest) fl of
             None \<Rightarrow> err_bind (directives rest) (\<lambda>ds. Inr (Lit (c # take (length fmt - length rest) fmt) # ds))
           | Some (fl, t) \<Rightarrow> err_bind (directives (tl rest)) (\<lambda>ds. Inr (Conv fl wd pr t # ds))))"
  by pat_completeness auto
termination
  by (relation "measure length") (auto dest!: parse_flags_suffix suffix_length_le)

definition demand :: "directive \<Rightarrow> FormatType list" where
  "demand d =
     (case d of
        Conv fl wd pr t \<Rightarrow>
          (if flag fl FLAGS_WIDTHPARAM then [MTYPE_WIDTH] else []) @
          (if flag fl FLAGS_PRECPARAM then [MTYPE_PRECISION] else []) @ [t]
      | _ \<Rightarrow> [])"

definition demands :: "directive list \<Rightarrow> FormatType list" where
  "demands ds = concat (map demand ds)"

fun out_directives :: "(bytes \<Rightarrow> 64 word \<Rightarrow> bytes) \<Rightarrow> memory \<Rightarrow> directive list \<Rightarrow> 64 word list \<Rightarrow> event list" where
  "out_directives lib mem [] vs = []"
| "out_directives lib mem (Lit bs # ds) vs = map Out bs @ out_directives lib mem ds vs"
| "out_directives lib mem (Percent # ds) vs = Out CHR ''%'' # out_directives lib mem ds vs"
| "out_directives lib mem (Conv fl wd pr t # ds) vs =
     (let (wv, vs) = (if flag fl FLAGS_WIDTHPARAM then (hd vs, tl vs) else (0, vs));
          (pv, vs) = (if flag fl FLAGS_PRECPARAM then (hd vs, tl vs) else (0, vs)) in
      field_output lib mem (field_property fl wv wd pv pr) t (hd vs) @ out_directives lib mem ds (tl vs))"

fun read_values :: "FormatType list \<Rightarrow> arg list \<Rightarrow> 64 word list option" where
  "read_values [] args = Some []"
| "read_values (t # ts) [] = None"
| "read_values (t # ts) (a # args) = do { v \<leftarrow> va_arg t a; vs \<leftarrow> read_values ts args; Some (v # vs) }"

text \<open>
  The formats this is about: no directive names its argument by number, and none has a width that is
  an argument and then a number.
\<close>

fun unnumbered :: "bytes \<Rightarrow> bool" where
  "unnumbered [] = True"
| "unnumbered (c # fmt) = ((c = CHR ''%'' \<longrightarrow> fst (dollarstring fmt) < 0) \<and> unnumbered fmt)"

definition ordinary :: "directive \<Rightarrow> bool" where
  "ordinary d \<longleftrightarrow> (case d of Conv fl wd pr t \<Rightarrow> flag fl FLAGS_WIDTHPARAM \<longrightarrow> wd < 0 | _ \<Rightarrow> True)"

definition pieces :: "directive list \<Rightarrow> nat" where
  "pieces ds = length (filter (\<lambda>d. case d of Lit _ \<Rightarrow> False | _ \<Rightarrow> True) ds)"

section \<open>The parser numbers the arguments in their order\<close>

definition ordered :: "pstate \<Rightarrow> FormatType list \<Rightarrow> bool" where
  "ordered st ts \<longleftrightarrow> use_dollar st \<noteq> DOLLAR_USE \<and> param_num st = int (length ts) \<and> max_param st = int (length ts) - 1 \<and>
     length ts \<le> 128 \<and> length (usedinput st) = 16 \<and> (\<forall>i<length ts. is_arg_used (usedinput st) i) \<and>
     (\<forall>i<length ts. in_type st i = Some (ts ! i))"

text \<open>The state after the next argument was taken, for a type.\<close>

definition taken :: "FormatType \<Rightarrow> pstate \<Rightarrow> pstate" where
  "taken t st = st\<lparr>param_num := param_num st + 1, max_param := param_num st,
     in_type := (in_type st)(nat (param_num st) \<mapsto> t), usedinput := mark_arg_used (usedinput st) (nat (param_num st))\<rparr>"

lemma taken_simps [simp]:
  "segments (taken t st) = segments st" "seg_start (taken t st) = seg_start st" "use_dollar (taken t st) = use_dollar st"
  by (simp_all add: taken_def)

lemma ordered_taken: "ordered st ts \<Longrightarrow> length ts < 128 \<Longrightarrow> ordered (taken t st) (ts @ [t])"
  by (auto simp: ordered_def taken_def nth_append arg_used_mark less_Suc_eq)

lemma ordered_next:
  assumes "ordered st ts" "n < 0"
  shows "star_param e t n st = (if length ts < 128 then Inr (int (length ts), taken t st) else Inl PFMT_MANYARGS)"
    "main_param n t st = (if length ts < 128 then Inr (int (length ts), taken t st) else Inl PFMT_MANYARGS)"
  using assms
  by (auto simp: star_param_def main_param_def next_param_def claim_arg_def MAX_PARAMETERS_def ordered_def taken_def)

text \<open>A whole list of arguments, one after the other.\<close>

fun take_all :: "FormatType list \<Rightarrow> pstate \<Rightarrow> pstate" where
  "take_all [] st = st"
| "take_all (t # ts) st = take_all ts (taken t st)"

lemma take_all_simps [simp]:
  "segments (take_all ts st) = segments st" "seg_start (take_all ts st) = seg_start st" "use_dollar (take_all ts st) = use_dollar st"
  by (induction ts arbitrary: st) simp_all

lemma ordered_take_all: "ordered st ts \<Longrightarrow> length ts + length us \<le> 128 \<Longrightarrow> ordered (take_all us st) (ts @ us)"
proof (induction us arbitrary: st ts)
  case (Cons u us)
  then show ?case using Cons.IH[of "taken u st" "ts @ [u]"] ordered_taken[of st ts u] by simp
qed simp

text \<open>The three parameters of a conversion, in a state whose arguments were taken in order.\<close>

definition conv_params :: "nat \<Rightarrow> int \<Rightarrow> int \<Rightarrow> FormatType \<Rightarrow> pstate \<Rightarrow> PFMT + int \<times> int \<times> int \<times> pstate" where
  "conv_params fl wd pr t st =
     err_bind (width_param fl wd st) (\<lambda>(wd, st).
     err_bind (prec_param fl pr st) (\<lambda>(pr, st).
     err_bind (main_param (-1) t st) (\<lambda>(n, st). Inr (wd, pr, n, st))))"

lemma conv_params_in_order:
  assumes "ordered st ts" "flag fl FLAGS_WIDTHPARAM \<Longrightarrow> wd < 0" "flag fl FLAGS_PRECPARAM \<Longrightarrow> pr < 0"
    and k_def: "k = length ts" and us_def: "us = demand (Conv fl wd pr t)"
  shows "conv_params fl wd pr t st =
    (if length ts + length us \<le> 128 then
       Inr (if flag fl FLAGS_WIDTHPARAM then int k else wd,
            if flag fl FLAGS_PRECPARAM then int k + (if flag fl FLAGS_WIDTHPARAM then 1 else 0) else pr,
            int k + int (length us) - 1, take_all us st)
     else Inl PFMT_MANYARGS)"
proof -
  note [simp] = conv_params_def width_param_def prec_param_def demand_def
  show ?thesis
  proof (cases "flag fl FLAGS_WIDTHPARAM")
    case w: True
    show ?thesis
    proof (cases "length ts < 128")
      case True
      note o1 = ordered_taken[OF assms(1) True, of MTYPE_WIDTH]
      show ?thesis
      proof (cases "flag fl FLAGS_PRECPARAM \<and> Suc (length ts) < 128")
        case p: True
        then have "Suc (length ts) < 128" by simp
        then have o2: "ordered (taken MTYPE_PRECISION (taken MTYPE_WIDTH st)) (ts @ [MTYPE_WIDTH, MTYPE_PRECISION])"
          using ordered_taken[OF o1, of MTYPE_PRECISION] by simp
        show ?thesis using w p True assms(2,3)
          by (simp add: ordered_next[OF assms(1)] ordered_next[OF o1] ordered_next[OF o2] k_def us_def)
      next
        case False
        then show ?thesis using w True assms(2,3)
          by (auto simp: ordered_next[OF assms(1)] ordered_next[OF o1] k_def us_def)
      qed
    qed (use w assms(2) in \<open>simp add: ordered_next[OF assms(1)] us_def\<close>)
  next
    case w: False
    show ?thesis
    proof (cases "flag fl FLAGS_PRECPARAM \<and> length ts < 128")
      case p: True
      then have "length ts < 128" by simp
      note o1 = ordered_taken[OF assms(1) this, of MTYPE_PRECISION]
      show ?thesis using w p assms(3) by (simp add: ordered_next[OF assms(1)] ordered_next[OF o1] k_def us_def)
    qed (use w assms(3) in \<open>auto simp: ordered_next[OF assms(1)] k_def us_def\<close>)
  qed
qed

lemma ordered_update [simp]:
  "ordered (st\<lparr>segments := sg\<rparr>) ts = ordered st ts" "ordered (st\<lparr>seg_start := b\<rparr>) ts = ordered st ts"
  "ordered st ts \<Longrightarrow> ordered (st\<lparr>use_dollar := DOLLAR_NOPE\<rparr>) ts"
  by (auto simp: ordered_def)

lemma pick_param_in_order:
  assumes "ordered st ts" "fst (dollarstring fmt) < 0"
  shows "pick_param fmt st = Inr (-1, fmt, st\<lparr>use_dollar := DOLLAR_NOPE\<rparr>)"
proof -
  obtain n q where d: "dollarstring fmt = (n, q)" by force
  with assms(2) dollarstring_suffix[OF d] have "n < 0" "q = fmt" by auto
  with d assms(1) show ?thesis by (cases "use_dollar st") (auto simp: pick_param_def ordered_def)
qed

lemma conv_params_bind:
  "err_bind (width_param fl wd st) (\<lambda>(wd, st). err_bind (prec_param fl pr st) (\<lambda>(pr, st).
     err_bind (main_param (-1) t st) (\<lambda>(n, st). g wd pr n st))) =
   err_bind (conv_params fl wd pr t st) (\<lambda>(wd, pr, n, st). g wd pr n st)"
  by (simp add: conv_params_def err_bind_def split: sum.split prod.split)

lemma parse_conversion_in_order:
  assumes "ordered st ts" "fst (dollarstring fmt) < 0" "peek fmt \<noteq> CHR ''%''"
    "parse_flags fmt DOLLAR_NOPE = Inr (rest, fl1, pr, wd)"
  shows "parse_conversion (peek rest) fl1 = None \<Longrightarrow>
      parse_directive fmt st = Inr (rest, st\<lparr>use_dollar := DOLLAR_NOPE\<rparr>)"
    "parse_conversion (peek rest) fl1 = Some (fl, t) \<Longrightarrow> (flag fl FLAGS_WIDTHPARAM \<longrightarrow> wd < 0) \<Longrightarrow>
      us = demand (Conv fl wd pr t) \<Longrightarrow>
      parse_directive fmt st =
        (if length ts + length us > 128 then Inl PFMT_MANYARGS
         else if length (segments st) \<ge> 128 then Inl PFMT_MANYSEGS
         else Inr (tl rest, (take_all us (st\<lparr>use_dollar := DOLLAR_NOPE\<rparr>))
           \<lparr>segments := segments st @
              [\<lparr>sg_width = if flag fl FLAGS_WIDTHPARAM then int (length ts) else wd,
                sg_precision = if flag fl FLAGS_PRECPARAM then int (length ts) + (if flag fl FLAGS_WIDTHPARAM then 1 else 0) else pr,
                sg_flags = fl, sg_input = length ts + length us - 1, sg_start = seg_start st,
                sg_outlen = length (seg_start st) - length fmt - 1\<rparr>],
            seg_start := tl rest\<rparr>))"
proof -
  note p = pick_param_in_order[OF assms(1,2)]
  show "parse_conversion (peek rest) fl1 = None \<Longrightarrow> parse_directive fmt st = Inr (rest, st\<lparr>use_dollar := DOLLAR_NOPE\<rparr>)"
    using assms(3,4) by (simp add: parse_directive_def p)
  assume c: "parse_conversion (peek rest) fl1 = Some (fl, t)" and w: "flag fl FLAGS_WIDTHPARAM \<longrightarrow> wd < 0"
    and us: "us = demand (Conv fl wd pr t)"
  have o: "ordered (st\<lparr>use_dollar := DOLLAR_NOPE\<rparr>) ts" using assms(1) by simp
  have "flag fl FLAGS_PRECPARAM \<Longrightarrow> pr < 0"
    using parse_flags_prec[OF assms(4)] parse_conversion_flags(4)[OF c] by simp
  with w have cp: "conv_params fl wd pr t (st\<lparr>use_dollar := DOLLAR_NOPE\<rparr>) =
    (if length ts + length us \<le> 128 then
       Inr (if flag fl FLAGS_WIDTHPARAM then int (length ts) else wd,
            if flag fl FLAGS_PRECPARAM then int (length ts) + (if flag fl FLAGS_WIDTHPARAM then 1 else 0) else pr,
            int (length ts) + int (length us) - 1, take_all us (st\<lparr>use_dollar := DOLLAR_NOPE\<rparr>))
     else Inl PFMT_MANYARGS)"
    by (intro conv_params_in_order[OF o _ _ refl us]) auto
  have "us \<noteq> []" by (simp add: us demand_def)
  then have n: "nat (int (length ts) + int (length us) - 1) = length ts + length us - 1" by (cases us) auto
  show "parse_directive fmt st =
        (if length ts + length us > 128 then Inl PFMT_MANYARGS
         else if length (segments st) \<ge> 128 then Inl PFMT_MANYSEGS
         else Inr (tl rest, (take_all us (st\<lparr>use_dollar := DOLLAR_NOPE\<rparr>))
           \<lparr>segments := segments st @
              [\<lparr>sg_width = if flag fl FLAGS_WIDTHPARAM then int (length ts) else wd,
                sg_precision = if flag fl FLAGS_PRECPARAM then int (length ts) + (if flag fl FLAGS_WIDTHPARAM then 1 else 0) else pr,
                sg_flags = fl, sg_input = length ts + length us - 1, sg_start = seg_start st,
                sg_outlen = length (seg_start st) - length fmt - 1\<rparr>],
            seg_start := tl rest\<rparr>))"
    using assms(3,4) c unfolding parse_directive_def Let_def p
    by (simp add: conv_params_bind cp n add_segment_def MAX_SEGMENTS_def)
qed

text \<open>What a conversion segment puts out is what the directive puts out for the next values.\<close>

lemma field_property_cong:
  assumes "flag fl FLAGS_WIDTHPARAM \<Longrightarrow> wv = wv'" "\<not> flag fl FLAGS_WIDTHPARAM \<Longrightarrow> wd = wd'"
    "flag fl FLAGS_PRECPARAM \<Longrightarrow> pv = pv'" "\<not> flag fl FLAGS_PRECPARAM \<Longrightarrow> pr = pr'"
  shows "field_property fl wv wd pv pr = field_property fl wv' wd' pv' pr'"
proof -
  have "bit x 16 \<longleftrightarrow> flag x FLAGS_PRECPARAM" for x
    using and_exp_eq_0_iff_not_bit[of x 16] by (simp add: flag_def FLAGS_PRECPARAM_def)
  moreover have "bit (4294967295 - FLAGS_PAD_NIL) 16" by (simp add: FLAGS_PAD_NIL_def bit_iff_odd)
  moreover have "\<not> bit FLAGS_LEFT 16" by (simp add: FLAGS_LEFT_def bit_iff_odd)
  ultimately have c: "flag (flag_clear (or fl FLAGS_LEFT) FLAGS_PAD_NIL) FLAGS_PRECPARAM = flag fl FLAGS_PRECPARAM"
    unfolding flag_clear_def by (metis bit_and_iff bit_or_iff)
  have "field_prec f pv pr = field_prec f pv' pr'" if "flag f FLAGS_PRECPARAM = flag fl FLAGS_PRECPARAM" for f
    using that assms(3,4) by (simp add: field_prec_def)
  from this[OF refl] this[OF c] show ?thesis
    using assms(1,2) by (simp add: field_property_def field_width_def Let_def)
qed

lemma out_directives_Conv:
  "out_directives lib mem (Conv fl wd pr t # ds) vs =
     out_directives lib mem [Conv fl wd pr t] vs @ out_directives lib mem ds (drop (length (demand (Conv fl wd pr t))) vs)"
  by (cases "flag fl FLAGS_WIDTHPARAM"; cases "flag fl FLAGS_PRECPARAM") (simp_all add: demand_def drop_Suc tl_drop)

declare out_directives.simps(4) [simp del]

lemma conv_segment_output:
  fixes k :: nat and ins :: "va_input list"
  assumes "k + length us \<le> length ins" "us = demand (Conv fl wd pr t)" "vi_type (ins ! (k + length us - 1)) = t"
    "\<not> flag fl FLAGS_SUBSTR" "NUL \<notin> set (lit @ rest)"
  shows "segment_output lib mem ins
      \<lparr>sg_width = if flag fl FLAGS_WIDTHPARAM then int k else wd,
       sg_precision = if flag fl FLAGS_PRECPARAM then int k + (if flag fl FLAGS_WIDTHPARAM then 1 else 0) else pr,
       sg_flags = fl, sg_input = k + length us - 1, sg_start = lit @ rest, sg_outlen = length lit\<rparr> =
    map Out lit @ out_directives lib mem [Conv fl wd pr t] (drop k (map vi_val ins))"
proof -
  define vs where "vs = map vi_val ins"
  define w where "w \<longleftrightarrow> flag fl FLAGS_WIDTHPARAM"
  define p where "p \<longleftrightarrow> flag fl FLAGS_PRECPARAM"
  define pk where "pk = k + (if w then 1 else 0)"
  have cs: "cstr (lit @ rest) = lit @ rest" using assms(5) by (rule cstr_id)
  have l: "length us = 1 + (if w then 1 else 0) + (if p then 1 else 0)"
    by (simp add: assms(2) demand_def w_def p_def)
  have pk: "p \<Longrightarrow> pk < length ins" using assms(1) l by (simp add: pk_def split: if_splits)
  have hd: "hd (drop i vs) = vs ! i" if "i < length ins" for i using that by (simp add: hd_drop_conv_nth vs_def)
  have od: "out_directives lib mem [Conv fl wd pr t] (drop k vs) =
      field_output lib mem (field_property fl (if w then vs ! k else 0) wd (if p then vs ! pk else 0) pr) t (vs ! (k + length us - 1))"
    using assms(1) hd l by (cases w; cases p) (simp_all add: out_directives.simps(4) w_def[symmetric] p_def[symmetric] pk_def tl_drop drop_Suc[symmetric])
  have in_range: "list_all (\<lambda>i. 0 \<le> i \<and> i < int (length ins)) (inputs_read
      \<lparr>sg_width = if w then int k else wd, sg_precision = if p then int pk else pr, sg_flags = fl,
       sg_input = k + length us - 1, sg_start = lit @ rest, sg_outlen = length lit\<rparr>)"
    using assms(1) l by (simp add: inputs_read_def w_def[symmetric] p_def[symmetric] pk_def)
  have pr: "(if flag fl FLAGS_PRECPARAM then int k + (if flag fl FLAGS_WIDTHPARAM then 1 else 0) else pr) = (if p then int pk else pr)"
    by (simp add: p_def pk_def w_def)
  have "field_property fl (input_val ins (if w then int k else wd)) (if w then int k else wd)
      (input_val ins (if p then int pk else pr)) (if p then int pk else pr) =
    field_property fl (if w then vs ! k else 0) wd (if p then vs ! pk else 0) pr"
    using assms(1) l pk by (intro field_property_cong) (auto simp: w_def p_def input_val_def vs_def)
  moreover have "vi_val (ins ! (k + length us - 1)) = vs ! (k + length us - 1)" using assms(1) l by (simp add: vs_def)
  ultimately show ?thesis
    using in_range assms(3,4)
    unfolding pr unfolding w_def[symmetric] vs_def[symmetric] od segment_output_def segment_field_def
    by (simp add: cs split del: if_split)
qed

text \<open>
  The parser in step with the reference. \<open>lit\<close> is the literal text that waits for its segment; the
  output of the new segments and of the text still waiting is that of the directives.
\<close>

definition in_step ::
  "(bytes \<Rightarrow> 64 word \<Rightarrow> bytes) \<Rightarrow> memory \<Rightarrow> pstate \<Rightarrow> FormatType list \<Rightarrow> bytes \<Rightarrow> directive list \<Rightarrow> PFMT + pstate \<Rightarrow> bool" where
  "in_step lib mem st ts lit ds r \<longleftrightarrow>
     (case r of
        Inl e \<Rightarrow> e = PFMT_MANYARGS \<and> 128 < length ts + length (demands ds) \<or>
                 e = PFMT_MANYSEGS \<and> 128 < length (segments st) + pieces ds
      | Inr st' \<Rightarrow> ordered st' (ts @ demands ds) \<and> NUL \<notin> set (seg_start st') \<and>
          length (segments st') \<le> length (segments st) + pieces ds \<and>
          (\<exists>new. segments st' = segments st @ new \<and>
            (\<forall>ins. map vi_type ins = ts @ demands ds \<longrightarrow>
               concat (map (segment_output lib mem ins) new) @ map Out (seg_start st') =
               map Out lit @ out_directives lib mem ds (drop (length ts) (map vi_val ins)))))"

lemma demands_simps [simp]:
  "demands [] = []" "demands (Lit b # ds) = demands ds" "demands (Percent # ds) = demands ds"
  "demands (Conv fl wd pr t # ds) = demand (Conv fl wd pr t) @ demands ds"
  by (simp_all add: demands_def demand_def)

lemma pieces_simps [simp]:
  "pieces [] = 0" "pieces (Lit b # ds) = pieces ds" "pieces (Percent # ds) = Suc (pieces ds)"
  "pieces (Conv fl wd pr t # ds) = Suc (pieces ds)"
  by (simp_all add: pieces_def)

lemma in_step_Lit: "in_step lib mem st ts (lit @ b) ds r \<Longrightarrow> in_step lib mem st ts lit (Lit b # ds) r"
  by (auto simp: in_step_def split: sum.splits)

lemma in_step_Percent:
  assumes "in_step lib mem st1 ts ''%'' ds r" "lit = [] \<and> segments st1 = segments st \<or>
     segments st1 = segments st @ [substring (lit @ rest) (length lit)] \<and> lit \<noteq> [] \<and> NUL \<notin> set (lit @ rest)"
  shows "in_step lib mem st ts lit (Percent # ds) r"
  using assms(2)
proof
  assume "lit = [] \<and> segments st1 = segments st"
  with assms(1) show ?thesis by (auto simp: in_step_def split: sum.splits)
next
  assume a: "segments st1 = segments st @ [substring (lit @ rest) (length lit)] \<and> lit \<noteq> [] \<and> NUL \<notin> set (lit @ rest)"
  then have o: "segment_output lib mem ins (substring (lit @ rest) (length lit)) = map Out lit" for ins
    by (auto simp: segment_output_def substring_def)
  show ?thesis
  proof (cases r)
    case (Inl e)
    with assms(1) a show ?thesis by (auto simp: in_step_def)
  next
    case (Inr st')
    with assms(1) a obtain new where "segments st' = segments st1 @ new" and
      "\<And>ins. map vi_type ins = ts @ demands ds \<Longrightarrow>
        concat (map (segment_output lib mem ins) new) @ map Out (seg_start st') =
        map Out ''%'' @ out_directives lib mem ds (drop (length ts) (map vi_val ins))"
      by (auto simp: in_step_def)
    with assms(1) a o Inr show ?thesis
      by (auto simp: in_step_def intro!: exI[of _ "substring (lit @ rest) (length lit) # new"])
  qed
qed

lemma in_step_Conv:
  assumes "in_step lib mem st1 (ts @ demand (Conv fl wd pr t)) [] ds r" "segments st1 = segments st @ [seg]"
    "\<And>ins. map vi_type ins = ts @ demand (Conv fl wd pr t) @ demands ds \<Longrightarrow>
       segment_output lib mem ins seg = map Out lit @ out_directives lib mem [Conv fl wd pr t] (drop (length ts) (map vi_val ins))"
  shows "in_step lib mem st ts lit (Conv fl wd pr t # ds) r"
proof (cases r)
  case (Inl e)
  with assms(1,2) show ?thesis by (auto simp: in_step_def)
next
  case (Inr st')
  with assms(1) obtain new where new: "segments st' = segments st1 @ new" and
    "\<And>ins. map vi_type ins = ts @ demand (Conv fl wd pr t) @ demands ds \<Longrightarrow>
      concat (map (segment_output lib mem ins) new) @ map Out (seg_start st') =
      out_directives lib mem ds (drop (length (demand (Conv fl wd pr t))) (drop (length ts) (map vi_val ins)))"
    by (auto simp: in_step_def add.commute)
  then have "\<forall>ins. map vi_type ins = ts @ demands (Conv fl wd pr t # ds) \<longrightarrow>
      concat (map (segment_output lib mem ins) (seg # new)) @ map Out (seg_start st') =
      map Out lit @ out_directives lib mem (Conv fl wd pr t # ds) (drop (length ts) (map vi_val ins))"
    using assms(3) by (simp add: out_directives_Conv[of lib mem fl wd pr t ds])
  with assms(1,2) Inr new show ?thesis by (auto simp: in_step_def intro!: exI[of _ "seg # new"])
qed

lemma in_step_Nil: "ordered st ts \<Longrightarrow> NUL \<notin> set lit \<Longrightarrow> seg_start st = lit \<Longrightarrow> in_step lib mem st ts lit [] (Inr st)"
  by (auto simp: in_step_def)

text \<open>Only the segments of the first state matter.\<close>

lemma in_step_cong: "in_step lib mem st1 ts lit ds r \<Longrightarrow> segments st1 = segments st \<Longrightarrow> in_step lib mem st ts lit ds r"
  by (simp add: in_step_def split: sum.splits)

lemma unnumbered_suffix: "suffix a b \<Longrightarrow> unnumbered b \<Longrightarrow> unnumbered a"
proof (induction b)
  case (Cons c b)
  then show ?case by (cases "a = c # b") (auto simp: suffix_Cons)
qed simp

text \<open>The two directives that fill a segment, as steps of the parser.\<close>

lemma percent_step:
  assumes "ordered st ts" "seg_start st = lit @ CHR ''%'' # fmt" "NUL \<notin> set (lit @ fmt)" "peek fmt = CHR ''%''"
  obtains (full) "parse_directive fmt st = Inl PFMT_MANYSEGS" "128 \<le> length (segments st)"
    | (step) st1 where "parse_directive fmt st = Inr (tl fmt, st1)" "ordered st1 ts" "seg_start st1 = fmt"
      "lit = [] \<and> segments st1 = segments st \<or>
       segments st1 = segments st @ [substring (lit @ CHR ''%'' # fmt) (length lit)] \<and> lit \<noteq> [] \<and> NUL \<notin> set (lit @ CHR ''%'' # fmt)"
proof (cases "lit \<noteq> [] \<and> length (segments st) \<ge> 128")
  case True
  then show ?thesis using assms(2,4) full by (simp add: parse_directive_def Let_def add_segment_def MAX_SEGMENTS_def)
next
  case False
  define sg where "sg = (if lit = [] then segments st else segments st @ [substring (seg_start st) (length lit)])"
  have "parse_directive fmt st = Inr (tl fmt, st\<lparr>segments := sg, seg_start := fmt\<rparr>)"
    using False assms(2,4) by (auto simp: parse_directive_def Let_def add_segment_def MAX_SEGMENTS_def sg_def)
  then show ?thesis by (rule step) (use assms in \<open>auto simp: sg_def\<close>)
qed

lemma nth_last_part: "us \<noteq> [] \<Longrightarrow> (ts @ us @ vs) ! (length ts + length us - 1) = last us"
  by (cases us rule: rev_cases) (simp_all add: nth_append)

lemma conversion_step:
  fixes lib mem
  assumes "ordered st ts" "seg_start st = lit @ CHR ''%'' # fmt" "NUL \<notin> set (lit @ fmt)" "fst (dollarstring fmt) < 0"
    "peek fmt \<noteq> CHR ''%''" "parse_flags fmt DOLLAR_NOPE = Inr (rest, fl1, pr, wd)"
    "parse_conversion (peek rest) fl1 = Some (fl, t)" "ordinary (Conv fl wd pr t)" and us: "us = demand (Conv fl wd pr t)"
  obtains (args) "parse_directive fmt st = Inl PFMT_MANYARGS" "128 < length ts + length us"
    | (full) "parse_directive fmt st = Inl PFMT_MANYSEGS" "128 \<le> length (segments st)"
    | (step) st1 seg where "parse_directive fmt st = Inr (tl rest, st1)" "ordered st1 (ts @ us)" "seg_start st1 = tl rest"
      "segments st1 = segments st @ [seg]"
      "\<And>ins more. map vi_type ins = ts @ us @ more \<Longrightarrow> segment_output lib mem ins seg =
         map Out lit @ out_directives lib mem [Conv fl wd pr t] (drop (length ts) (map vi_val ins))"
proof -
  have w: "flag fl FLAGS_WIDTHPARAM \<longrightarrow> wd < 0" using assms(8) by (simp add: ordinary_def)
  note order = parse_conversion_in_order(2)[OF assms(1,4,5,6,7) w us]
  define seg where "seg = \<lparr>sg_width = if flag fl FLAGS_WIDTHPARAM then int (length ts) else wd,
      sg_precision = if flag fl FLAGS_PRECPARAM then int (length ts) + (if flag fl FLAGS_WIDTHPARAM then 1 else 0) else pr,
      sg_flags = fl, sg_input = length ts + length us - 1, sg_start = seg_start st,
      sg_outlen = length (seg_start st) - length fmt - 1\<rparr>"
  define st1 where "st1 = (take_all us (st\<lparr>use_dollar := DOLLAR_NOPE\<rparr>))\<lparr>segments := segments st @ [seg], seg_start := tl rest\<rparr>"
  consider "128 < length ts + length us" | "length ts + length us \<le> 128" "128 \<le> length (segments st)"
    | "length ts + length us \<le> 128" "length (segments st) < 128" by linarith
  then show ?thesis
  proof cases
    case 3
    have "ordered st1 (ts @ us)"
      using ordered_take_all[of "st\<lparr>use_dollar := DOLLAR_NOPE\<rparr>" ts us] assms(1) 3 by (simp add: st1_def)
    moreover have "segment_output lib mem ins seg =
        map Out lit @ out_directives lib mem [Conv fl wd pr t] (drop (length ts) (map vi_val ins))"
      if ty: "map vi_type ins = ts @ us @ more" for ins more
    proof -
      have l: "length ts + length us \<le> length ins" using arg_cong[OF ty, of length] by simp
      have ne: "us \<noteq> []" "last us = t" by (simp_all add: us demand_def)
      then have "length ts + length us - 1 < length ins" using l by (cases us) auto
      then have "vi_type (ins ! (length ts + length us - 1)) = t"
        using ty nth_last_part[OF ne(1), of ts more] ne(2) by (metis nth_map)
      moreover have "\<not> flag fl FLAGS_SUBSTR" using parse_flags_substr[OF assms(6)] parse_conversion_flags(1)[OF assms(7)] by simp
      ultimately show ?thesis
        using conv_segment_output[OF l us, of lit "CHR ''%'' # fmt" lib mem] assms(2,3) by (simp add: seg_def)
    qed
    moreover have "parse_directive fmt st = Inr (tl rest, st1)" using order 3 by (simp add: st1_def seg_def)
    ultimately show ?thesis using step[of st1 seg] by (simp add: st1_def)
  qed (use order args full in auto)
qed

lemma parse_loop_in_step:
  assumes "ordered st ts" "seg_start st = lit @ fmt" "NUL \<notin> set (lit @ fmt)" "unnumbered fmt" "directives fmt = Inr ds"
    "list_all ordinary ds"
  shows "in_step lib mem st ts lit ds (parse_loop fmt st)"
  using assms
proof (induction fmt arbitrary: st ts lit ds rule: directives.induct)
  case 1
  then show ?case by (simp add: in_step_Nil)
next
  case (2 c fmt)
  have fmt: "NUL \<notin> set (lit @ fmt)" "unnumbered fmt" using "2.prems"(3,4) by auto
  have sub: "unnumbered f \<and> NUL \<notin> set f" if "suffix f fmt" for f
    using unnumbered_suffix[OF that fmt(2)] set_mono_suffix[OF that] fmt(1) by auto
  consider (literal) "c \<noteq> CHR ''%''" | (percent) "c = CHR ''%''" "peek fmt = CHR ''%''"
    | (directive) "c = CHR ''%''" "peek fmt \<noteq> CHR ''%''" by blast
  then show ?case
  proof cases
    case literal
    with "2.prems"(5) obtain ds' where "directives fmt = Inr ds'" "ds = Lit [c] # ds'" by (auto elim!: err_bindE)
    with literal 2 show ?thesis using "2.IH"(1)[of st ts "lit @ [c]" ds'] by (simp add: in_step_Lit)
  next
    case percent
    with "2.prems"(5) obtain ds' where ds: "directives (tl fmt) = Inr ds'" "ds = Percent # ds'" by (auto elim!: err_bindE)
    have f: "fmt = ''%'' @ tl fmt" using percent(2) by (cases fmt) (auto simp: peek_def)
    show ?thesis
    proof (cases rule: percent_step[OF "2.prems"(1) "2.prems"(2)[unfolded percent(1)] fmt(1) percent(2), case_names full step])
      case (step st1)
      have "seg_start st1 = ''%'' @ tl fmt" using step(3) f by simp
      then have "in_step lib mem st1 ts ''%'' ds' (parse_loop (tl fmt) st1)"
        using "2.IH"(2)[OF _ percent(2), of st1 ts "''%''" ds'] percent(1) step(2) ds sub[OF suffix_tl] "2.prems"(6) by simp
      with step percent ds show ?thesis using in_step_Percent[OF _ step(4)] by simp
    qed (use percent ds in \<open>simp add: in_step_def\<close>)
  next
    case directive
    then have dollar: "fst (dollarstring fmt) < 0" using "2.prems"(4) by simp
    from "2.prems"(5) directive obtain rest fl1 pr wd where f: "parse_flags fmt DOLLAR_NOPE = Inr (rest, fl1, pr, wd)"
      by (cases "parse_flags fmt DOLLAR_NOPE") auto
    obtain pre where pre: "fmt = pre @ rest" using parse_flags_suffix[OF f] by (auto simp: suffix_def)
    have s: "suffix rest fmt" "suffix (tl rest) fmt" using parse_flags_suffix[OF f] suffix_tl suffix_order.trans by blast+
    show ?thesis
    proof (cases "parse_conversion (peek rest) fl1")
      case None
      with "2.prems"(5) directive f pre obtain ds' where ds: "directives rest = Inr ds'" "ds = Lit (c # pre) # ds'"
        by (auto elim!: err_bindE)
      define st1 where "st1 = st\<lparr>use_dollar := DOLLAR_NOPE\<rparr>"
      have "in_step lib mem st1 ts (lit @ c # pre) ds' (parse_loop rest st1)"
        using "2.IH"(3)[OF _ directive(2) f refl refl refl None, of st1 ts "lit @ c # pre" ds'] "2.prems" directive(1) ds pre sub[OF s(1)]
        by (simp add: st1_def)
      then have "in_step lib mem st ts (lit @ c # pre) ds' (parse_loop rest st1)" by (rule in_step_cong) (simp add: st1_def)
      with parse_conversion_in_order(1)[OF "2.prems"(1) dollar directive(2) f None] directive(1) ds
      show ?thesis by (simp add: in_step_Lit st1_def)
    next
      case (Some r)
      obtain fl t where r: "r = (fl, t)" by force
      with "2.prems"(5) directive f Some obtain ds' where ds: "directives (tl rest) = Inr ds'" "ds = Conv fl wd pr t # ds'"
        by (auto elim!: err_bindE)
      have o: "ordinary (Conv fl wd pr t)" using "2.prems"(6) ds by simp
      show ?thesis
      proof (cases rule: conversion_step[OF "2.prems"(1) "2.prems"(2)[unfolded directive(1)] fmt(1) dollar directive(2) f
            Some[unfolded r] o refl, where lib = lib and mem = mem, case_names args full step])
        case (step st1 seg)
        then have "in_step lib mem st1 (ts @ demand (Conv fl wd pr t)) [] ds' (parse_loop (tl rest) st1)"
          using "2.IH"(4)[OF _ directive(2) f refl refl refl Some r[symmetric], of st1 "ts @ demand (Conv fl wd pr t)" "[]" ds']
            "2.prems"(6) directive(1) ds sub[OF s(2)] by simp
        from in_step_Conv[OF this step(4) step(5)] step(1) directive(1) ds show ?thesis by simp
      qed (use directive(1) ds in \<open>auto simp: in_step_def\<close>)
    qed
  qed
qed

section \<open>Reading the arguments and performing the output\<close>

lemma read_args_in_order:
  assumes "ordered st ts" "k \<le> length ts"
  shows "read_args st [k..<length ts] args =
    map_option (\<lambda>vs. Inr (map2 (\<lambda>t v. \<lparr>vi_type = t, vi_val = v\<rparr>) (drop k ts) vs)) (read_values (drop k ts) args)"
  using assms(2)
proof (induction "length ts - k" arbitrary: k args)
  case (Suc n)
  then have k: "k < length ts" by simp
  then have d: "drop k ts = ts ! k # drop (Suc k) ts" "[k..<length ts] = k # [Suc k..<length ts]"
    by (simp_all add: Cons_nth_drop_Suc upt_conv_Cons)
  have u: "is_arg_used (usedinput st) k" "in_type st k = Some (ts ! k)" using assms(1) k by (auto simp: ordered_def)
  note IH = Suc.hyps(1)[of "Suc k"]
  show ?case
  proof (cases args)
    case (Cons a rest)
    with u d IH[of rest] Suc.hyps(2) k show ?thesis
      by (cases "va_arg (ts ! k) a"; cases "read_values (drop (Suc k) ts) rest") simp_all
  qed (use u d in simp)
qed simp

lemma read_values_length: "read_values ts args = Some vs \<Longrightarrow> length vs = length ts"
  by (induction ts args arbitrary: vs rule: read_values.induct) (auto simp: bind_Some_iff)

lemma emit_append:
  "emit stream (es @ fs) u n sts =
     (case emit stream es u n sts of
        None \<Rightarrow> None
      | Some (stop, u, n, sts) \<Rightarrow> if stop then Some (True, u, n, sts) else emit stream fs u n sts)"
  by (induction stream es u n sts rule: emit.induct) (auto split: prod.split option.split)

lemma formatf_loop_emit:
  "formatf_loop lib mem stream ins segs u n sts =
     map_option snd (emit stream (concat (map (segment_output lib mem ins) segs)) u n sts)"
proof (induction segs arbitrary: u n sts)
  case (Cons seg segs)
  then show ?case by (auto simp: emit_append split: option.split prod.split)
qed simp

lemma emit_returns: "Stuck \<notin> set es \<Longrightarrow> \<exists>r. emit stream es u n sts = Some r"
  by (induction stream es u n sts rule: emit.induct) (auto split: prod.split)

lemma parse_segments_in_order:
  assumes "unnumbered (cstr format)" "directives (cstr format) = Inr ds" "list_all ordinary ds"
    "length (demands ds) \<le> 128" "pieces ds < 128"
  obtains st where "parse_segments format = Inr st" "ordered st (demands ds)"
    "\<And>ins. map vi_type ins = demands ds \<Longrightarrow>
       concat (map (segment_output lib mem ins) (segments st)) = out_directives lib mem ds (map vi_val ins)"
proof -
  let ?f = "cstr format"
  have o: "ordered (parse_start ?f) []" by (simp add: ordered_def parse_start_def MAX_PARAMETERS_def)
  have "in_step lib mem (parse_start ?f) [] [] ds (parse_loop ?f (parse_start ?f))"
    by (rule parse_loop_in_step[OF o]) (use assms in \<open>simp_all add: parse_start_def\<close>)
  then obtain s where s: "parse_loop ?f (parse_start ?f) = Inr s" "ordered s (demands ds)" "NUL \<notin> set (seg_start s)"
      "length (segments s) \<le> pieces ds"
      "\<And>ins. map vi_type ins = demands ds \<Longrightarrow>
        concat (map (segment_output lib mem ins) (segments s)) @ map Out (seg_start s) = out_directives lib mem ds (map vi_val ins)"
    using assms(4,5) by (cases "parse_loop ?f (parse_start ?f)") (auto simp: in_step_def parse_start_def)
  show ?thesis
  proof (cases "seg_start s = []")
    case True
    then show ?thesis using s that[of s] by (simp add: parse_segments_def)
  next
    case False
    have "segment_output lib mem ins (substring (seg_start s) (length (seg_start s))) = map Out (seg_start s)" for ins
      using s(3) False by (simp add: segment_output_def substring_def)
    then show ?thesis
      using s False assms(5) that[of "s\<lparr>segments := segments s @ [substring (seg_start s) (length (seg_start s))]\<rparr>"]
      by (simp add: parse_segments_def add_segment_def MAX_SEGMENTS_def)
  qed
qed

text \<open>The engine equals the reference.\<close>

lemma formatf_reference:
  assumes "unnumbered (cstr format)" "directives (cstr format) = Inr ds" "list_all ordinary ds"
    "length (demands ds) \<le> 128" "pieces ds < 128"
  shows "formatf lib mem stream u format args =
    (case read_values (demands ds) args of
       None \<Rightarrow> None
     | Some vs \<Rightarrow> map_option snd (emit stream (out_directives lib mem ds vs) u 0 []))"
proof -
  obtain st where st: "parse_segments format = Inr st" "ordered st (demands ds)"
    "\<And>ins. map vi_type ins = demands ds \<Longrightarrow>
       concat (map (segment_output lib mem ins) (segments st)) = out_directives lib mem ds (map vi_val ins)"
    using parse_segments_in_order[OF assms, of lib mem] by blast
  have m: "nat (max_param st + 1) = length (demands ds)" using st(2) by (simp add: ordered_def)
  have p: "parsefmt format args = map_option (\<lambda>vs. Inr (segments st, map2 (\<lambda>t v. \<lparr>vi_type = t, vi_val = v\<rparr>) (demands ds) vs))
      (read_values (demands ds) args)"
    using read_args_in_order[OF st(2), of 0 args] by (simp add: parsefmt_def st(1) m option.map_comp comp_def)
  show ?thesis
  proof (cases "read_values (demands ds) args")
    case (Some vs)
    let ?ins = "map2 (\<lambda>t v. \<lparr>vi_type = t, vi_val = v\<rparr>) (demands ds) vs"
    have "length vs = length (demands ds)" by (rule read_values_length[OF Some])
    then have "map vi_type ?ins = demands ds" "map vi_val ?ins = vs" by (simp_all add: comp_def split_def)
    with st(3)[of ?ins] Some p show ?thesis by (simp add: formatf_def formatf_loop_emit)
  qed (simp add: formatf_def p)
qed

section \<open>Floating point\<close>

lemma round_half_even_bounds: "0 < b \<Longrightarrow> round_half_even a b \<le> a div b + 1"
  by (simp add: round_half_even_def Let_def)

text \<open>A quotient by ten loses at least two from the exponent.\<close>

lemma dbl_div10_less:
  assumes "dbl_ge10 w" "w \<noteq> dbl_infinity"
  shows "unat (dbl_div10 w) < unat w"
proof -
  define e where "e = unat w div 2 ^ 52"
  define m where "m = 2 ^ 52 + unat w mod 2 ^ 52"
  define s where "s = (if 10 * 2 ^ 52 \<le> 8 * m then 3 else 4 :: nat)"
  define q where "q = round_half_even (m * 2 ^ s) 10"
  have w: "4621819117588971520 \<le> unat w"
    using assms(1) unfolding dbl_ge10_def word_le_nat_alt by simp
  then have "4621819117588971520 div 2 ^ 52 \<le> e" unfolding e_def by (rule div_le_mono)
  then have e: "1026 \<le> e" by simp
  have "m < 2 ^ 53" using mod_less_divisor[of "2 ^ 52" "unat w"] by (simp add: m_def)
  then have "m * 2 ^ s div 10 < 2 ^ 53" by (auto simp: s_def)
  then have q: "q \<le> 2 ^ 53" using round_half_even_bounds[of 10 "m * 2 ^ s"] by (simp add: q_def)
  have "(e - s) * 2 ^ 52 + (q - 2 ^ 52) \<le> (e - s + 1) * 2 ^ 52" using q by simp
  also have "\<dots> \<le> (e - 2) * 2 ^ 52" using e by (intro mult_le_mono1) (auto simp: s_def)
  also have "\<dots> < e * 2 ^ 52" using e by simp
  also have "\<dots> \<le> unat w" by (simp add: e_def)
  finally have l: "(e - s) * 2 ^ 52 + (q - 2 ^ 52) < unat w" .
  then have "(e - s) * 2 ^ 52 + (q - 2 ^ 52) < 2 ^ 64" using unsigned_less[of w, where 'a = nat] by simp
  moreover have r: "dbl_div10 w = word_of_nat ((e - s) * 2 ^ 52 + (q - 2 ^ 52))"
    unfolding dbl_div10_def Let_def e_def[symmetric] m_def[symmetric] unfolding s_def[symmetric] unfolding q_def[symmetric]
    using assms(2) by (rule if_not_P)
  ultimately have "unat (dbl_div10 w) = (e - s) * 2 ^ 52 + (q - 2 ^ 52)"
    unfolding r by (simp add: unat_of_nat take_bit_nat_eq_self del: of_nat_add of_nat_mult)
  with l show ?thesis by simp
qed

lemma digits_loop_returns: "w \<noteq> dbl_infinity \<Longrightarrow> \<exists>k\<le>m. digits_loop w m = Some k"
proof (induction "unat w" arbitrary: w m rule: less_induct)
  case less
  show ?case
  proof (cases "dbl_ge10 w")
    case True
    have d: "unat (dbl_div10 w) < unat w" by (rule dbl_div10_less[OF True less.prems])
    have "unat w \<le> unat dbl_infinity" using True by (simp add: dbl_ge10_def word_le_nat_alt)
    with d have "dbl_div10 w \<noteq> dbl_infinity" by auto
    with less.hyps[OF d, of "m - 1"] True show ?thesis by (auto simp: digits_loop.simps[of w])
  qed (simp add: digits_loop.simps[of w])
qed

lemma digits_loop_infinity: "digits_loop w m = Some k \<Longrightarrow> w \<noteq> dbl_infinity"
proof (rule digits_loop.raw_induct[where P = "\<lambda>w m k. w \<noteq> dbl_infinity"])
  fix loop :: "64 word \<Rightarrow> int \<Rightarrow> int option" and w :: "64 word" and m k
  assume IH: "\<And>w m k. loop w m = Some k \<Longrightarrow> w \<noteq> dbl_infinity"
    and b: "(if dbl_ge10 w then loop (dbl_div10 w) (m - 1) else Some m) = Some k"
  show "w \<noteq> dbl_infinity"
  proof
    assume w: "w = dbl_infinity"
    then have "dbl_ge10 w" "dbl_div10 w = w" by (simp_all add: dbl_ge10_def dbl_div10_def dbl_infinity_def)
    with b w IH[of w "m - 1" k] show False by simp
  qed
qed

lemma out_double_returns: "(\<exists>out. out_double lib p d = Some out) \<longleftrightarrow> prec p < 0 \<or> d \<noteq> dbl_infinity"
proof -
  have dl: "(\<exists>k. digits_loop d m = Some k) \<longleftrightarrow> d \<noteq> dbl_infinity" for m
    using digits_loop_returns[of d m] digits_loop_infinity[of d m] by blast
  then have "(\<exists>pr. double_prec wd (prec p) d = Some pr) \<longleftrightarrow> d \<noteq> dbl_infinity" for wd
    by (auto simp: double_prec_def Let_def bind_Some_iff)
  then show ?thesis by (auto simp: out_double_def double_format_def Let_def bind_Some_iff split: prod.split)
qed

text \<open>The composed format fits its buffer.\<close>

lemma decimal_length:
  assumes "0 \<le> n" "n < 512"
  shows "length (decimal n) \<le> 3"
proof -
  have f: "\<not> flag 0 x" for x by simp
  define k where "k = nat n"
  have k: "k < 8 ^ 3" "unat (word_of_int n :: 64 word) = k"
    using assms by (auto simp: k_def unat_eq_nat_uint uint_word_of_int)
  from number_loop_length[OF k(1), of 0 "[]"] have l: "length (number_loop (number_base 0) (number_digit 0) k []) \<le> 3" by simp
  have "length (number_work 0 1 k) \<le> 3" using l by (auto simp: number_work_def Let_def)
  moreover have "number_width 0 False 0 1 k \<le> 0" by (simp add: number_width_def Let_def)
  ultimately show ?thesis using assms k(2) by (simp add: decimal_def out_number_def Let_def pad_def)
qed

lemma double_prec_range:
  assumes "double_prec wd pr d = Some n" "0 \<le> pr"
  shows "0 \<le> n \<and> n < 512"
proof -
  define mp where "mp = int BUFFSIZE - 1"
  define pr1 where "pr1 = (if pr > mp then mp - 1 else pr)"
  define mp1 where "mp1 = (if wd > 0 \<and> pr1 \<le> wd then mp - wd else mp)"
  from assms(1) obtain k where k: "digits_loop d mp1 = Some k" and n: "n = (let x = (if pr1 > k then k - 1 else pr1) in if x < 0 then 0 else x)"
    by (auto simp: double_prec_def Let_def bind_Some_iff mp_def[symmetric] pr1_def[symmetric] mp1_def[symmetric])
  then have "k \<le> mp1" using digits_loop_returns[OF digits_loop_infinity[OF k], of mp1] by auto
  then have "k \<le> 325" "pr1 \<le> 325" by (auto simp: mp1_def pr1_def mp_def BUFFSIZE_def split: if_splits)
  then show ?thesis using n by (auto simp: Let_def)
qed

lemma double_format_fits:
  assumes "double_format p d = Some fmt"
  shows "length fmt < 32"
proof -
  define wd where "wd = (if width p \<ge> int BUFFSIZE then int BUFFSIZE - 1 else width p)"
  define ds where "ds = (if width p \<ge> 0 then curl_mvsnprintf 31 (decimal wd) else (0, []))"
  have "0 \<le> width p \<Longrightarrow> length (decimal wd) \<le> 3" by (rule decimal_length) (auto simp: wd_def BUFFSIZE_def)
  then have ds: "length (snd ds) \<le> 3" "fst ds \<le> 3" by (auto simp: ds_def mvsnprintf_eq)
  have pr: "length (snd (curl_mvsnprintf (31 - fst ds) (CHR ''.'' # decimal n))) \<le> 4" if "double_prec wd (prec p) d = Some n" "0 \<le> prec p" for n
    using ds(2) decimal_length[of n] double_prec_range[OF that] by (simp add: mvsnprintf_eq)
  define head where "head = ''%'' @ (if flag (flags p) FLAGS_LEFT then ''-'' else []) @ (if flag (flags p) FLAGS_SHOWSIGN then ''+'' else []) @
      (if flag (flags p) FLAGS_SPACE then '' '' else []) @ (if flag (flags p) FLAGS_ALT then ''#'' else [])"
  define conv where "conv = (if flag (flags p) FLAGS_FLOATE then if flag (flags p) FLAGS_UPPER then ''E'' else ''e''
      else if flag (flags p) FLAGS_FLOATG then if flag (flags p) FLAGS_UPPER then ''G'' else ''g'' else ''f'')"
  define long where "long = (if flag (flags p) FLAGS_LONG then ''l'' else [])"
  have l: "length head \<le> 5" "length conv = 1" "length long \<le> 1" by (simp_all add: head_def conv_def long_def)
  have "\<exists>mid. fmt = head @ snd ds @ mid @ long @ conv \<and> length mid \<le> 4"
  proof (cases "0 \<le> prec p")
    case True
    with assms obtain n where n: "double_prec wd (prec p) d = Some n"
      and "fmt = head @ snd ds @ snd (curl_mvsnprintf (31 - fst ds) (CHR ''.'' # decimal n)) @ long @ conv"
      unfolding double_format_def Let_def wd_def[symmetric] ds_def[symmetric] head_def[symmetric] conv_def[symmetric] long_def[symmetric]
      by (cases ds) (simp only: prod.case if_True bind_Some_iff append_assoc fst_conv snd_conv, auto)
    with pr[OF n True] show ?thesis by blast
  next
    case False
    with assms have "fmt = head @ snd ds @ [] @ long @ conv"
      unfolding double_format_def Let_def wd_def[symmetric] ds_def[symmetric] head_def[symmetric] conv_def[symmetric] long_def[symmetric]
      by (cases ds) simp
    then show ?thesis by (intro exI[of _ "[]"]) simp
  qed
  with ds l show ?thesis by auto
qed

section \<open>Streams\<close>

definition out_bytes :: "event list \<Rightarrow> bytes" where
  "out_bytes es = concat (map (\<lambda>e. case e of Out c \<Rightarrow> [c] | _ \<Rightarrow> []) es)"

lemma out_bytes_simps [simp]:
  "out_bytes [] = []" "out_bytes (Out c # es) = c # out_bytes es" "out_bytes (Count fl p # es) = out_bytes es"
  "out_bytes (Stuck # es) = out_bytes es" "out_bytes (es @ fs) = out_bytes es @ out_bytes fs"
  "out_bytes (map Out bs) = bs"
  by (simp_all add: out_bytes_def comp_def)

text \<open>
  What the engine relies on in a stream callback: a byte it accepts is appended, and a byte it refuses
  has a reason, \<open>blame\<close>, which a longer text and an earlier state share.
\<close>

locale byte_sink =
  fixes put :: "char \<Rightarrow> 'u \<Rightarrow> bool \<times> 'u"
    and good :: "'u \<Rightarrow> bool"
    and sunk :: "'u \<Rightarrow> bytes"
    and blame :: "'u \<Rightarrow> bytes \<Rightarrow> bool"
  assumes accepts: "good u \<Longrightarrow> put c u = (False, u') \<Longrightarrow> good u' \<and> sunk u' = sunk u @ [c]"
    and refuses: "good u \<Longrightarrow> put c u = (True, u') \<Longrightarrow> blame u (sunk u @ [c])"
    and blame_before: "good u \<Longrightarrow> put c u = (False, u') \<Longrightarrow> blame u' bs \<Longrightarrow> blame u bs"
    and blame_longer: "blame u bs \<Longrightarrow> blame u (bs @ cs)"
begin

lemma emit_whole:
  "good u \<Longrightarrow> emit put es u n sts = Some (False, u', n', sts') \<Longrightarrow>
     good u' \<and> sunk u' = sunk u @ out_bytes es \<and> n' = n + length (out_bytes es)"
proof (induction es arbitrary: u n sts)
  case (Cons e es)
  show ?case
  proof (cases e)
    case (Out c)
    obtain stop v where p: "put c u = (stop, v)" by force
    with Out Cons.prems have "\<not> stop" "emit put es v (n + 1) sts = Some (False, u', n', sts')" by (auto split: if_splits)
    with Cons.IH[of v "n + 1" sts] accepts[OF Cons.prems(1), of c v] p Out show ?thesis by simp
  qed (use Cons in auto)
qed simp

lemma emit_refused:
  "good u \<Longrightarrow> emit put es u n sts = Some (True, u', n', sts') \<Longrightarrow> blame u (sunk u @ out_bytes es)"
proof (induction es arbitrary: u n sts)
  case (Cons e es)
  show ?case
  proof (cases e)
    case (Out c)
    obtain stop v where p: "put c u = (stop, v)" by force
    show ?thesis
    proof (cases stop)
      case True
      with p refuses[OF Cons.prems(1), of c v] blame_longer[of u "sunk u @ [c]" "out_bytes es"] Out show ?thesis by simp
    next
      case False
      with p Out Cons.prems have "emit put es v (n + 1) sts = Some (True, u', n', sts')" by simp
      with False p accepts[OF Cons.prems(1), of c v] Cons.IH[of v] blame_before[OF Cons.prems(1), of c v] Out show ?thesis by simp
    qed
  qed (use Cons in auto)
qed simp

end

interpretation fixed: byte_sink addbyter "\<lambda>u. length (n_stored u) \<le> n_max u" n_stored "\<lambda>u bs. n_max u < length bs"
  by unfold_locales (auto simp: addbyter_def split: if_splits)

interpretation unbounded: byte_sink storebuffer "\<lambda>u. True" "\<lambda>u. u" "\<lambda>u bs. False"
  by unfold_locales (auto simp: storebuffer_def)

definition alloc_good :: "nat \<Rightarrow> MERR \<times> dynbuf \<times> heap \<Rightarrow> bool" where
  "alloc_good lim u \<longleftrightarrow> fst u = MERR_OK \<and> dyn_ok (fst (snd u)) \<and> toobig (fst (snd u)) = lim"

definition alloc_blame :: "nat \<Rightarrow> MERR \<times> dynbuf \<times> heap \<Rightarrow> bytes \<Rightarrow> bool" where
  "alloc_blame lim u bs \<longleftrightarrow> lim \<le> length bs \<or> (\<exists>i. \<not> snd (snd u) i)"

lemma alloc_stream_cases:
  assumes "alloc_good lim u" "alloc_stream c u = (stop, u')"
  shows "if stop then alloc_blame lim u (dyn_str (fst (snd u)) @ [c]) \<and> fst u' \<noteq> MERR_OK
    else alloc_good lim u' \<and> dyn_str (fst (snd u')) = dyn_str (fst (snd u)) @ [c] \<and>
      (\<exists>k. snd (snd u') = (\<lambda>i. snd (snd u) (k + i)))"
proof -
  obtain s h where u: "u = (MERR_OK, s, h)" and s: "dyn_ok s" "toobig s = lim" using assms(1) by (cases u) (auto simp: alloc_good_def)
  obtain r s1 h1 where a: "curlx_dyn_addn s h [c] = (r, s1, h1)" by (metis prod_cases3)
  show ?thesis
  proof (cases "r = CURLE_OK")
    case True
    with a assms(2) u have "stop = False" "u' = (MERR_OK, s1, h1)" by (auto simp: alloc_stream_def alloc_addbyter_def)
    with dyn.addn_OK[OF s(1) a[unfolded True]] dyn.addn_heap[OF a] s u show ?thesis by (auto simp: alloc_good_def)
  next
    case False
    with a assms(2) u have "stop" "fst u' \<noteq> MERR_OK" by (auto simp: alloc_stream_def alloc_addbyter_def split: if_splits)
    with dyn.addn_fail[OF s(1) a False] s u show ?thesis by (auto simp: alloc_blame_def)
  qed
qed

interpretation growing: byte_sink alloc_stream "alloc_good lim" "\<lambda>u. dyn_str (fst (snd u))" "alloc_blame lim" for lim
proof (unfold_locales, goal_cases)
  case (1 u c u')
  from alloc_stream_cases[OF this] show ?case by simp
next
  case (2 u c u')
  from alloc_stream_cases[OF this] show ?case by simp
next
  case (3 u c u' bs)
  from alloc_stream_cases[OF 3(1,2)] 3(3) show ?case by (auto simp: alloc_blame_def)
qed (auto simp: alloc_blame_def)

lemma emit_alloc_refused:
  "alloc_good lim u \<Longrightarrow> emit alloc_stream es u n sts = Some (True, u', n', sts') \<Longrightarrow> fst u' \<noteq> MERR_OK"
proof (induction es arbitrary: u n sts)
  case (Cons e es)
  show ?case
  proof (cases e)
    case (Out c)
    obtain stop v where p: "alloc_stream c u = (stop, v)" by (cases "alloc_stream c u")
    from alloc_stream_cases[OF Cons.prems(1) p] Cons.IH[of v "n + 1" sts] Cons.prems(2) p Out show ?thesis by (cases stop) auto
  qed (use Cons in auto)
qed simp

lemma alloc_stream_heap: "alloc_stream c u = (stop, u') \<Longrightarrow> \<exists>k. snd (snd u') = (\<lambda>i. snd (snd u) (k + i))"
  using dyn.addn_heap by (fastforce simp: alloc_stream_def alloc_addbyter_def split: prod.splits if_splits)

lemma emit_heap:
  "emit alloc_stream es u n sts = Some (stop, u', n', sts') \<Longrightarrow> \<not> snd (snd u') i \<Longrightarrow> \<exists>j. \<not> snd (snd u) j"
proof (induction es arbitrary: u n sts)
  case (Cons e es)
  show ?case
  proof (cases e)
    case (Out c)
    obtain st v where p: "alloc_stream c u = (st, v)" by (cases "alloc_stream c u")
    then obtain k where k: "snd (snd v) = (\<lambda>i. snd (snd u) (k + i))" using alloc_stream_heap by blast
    have "\<exists>j. \<not> snd (snd v) j" using Cons.IH[of v "n + 1" sts] Cons.prems Out p by (auto split: if_splits)
    then show ?thesis using k by auto
  qed (use Cons in auto)
qed auto

text \<open>Into a buffer of fixed size goes what fits, refused bytes and all.\<close>

lemma emit_addbyter:
  "Stuck \<notin> set es \<Longrightarrow> length (n_stored u) \<le> n_max u \<Longrightarrow>
     \<exists>stop sts'. emit addbyter es u n sts =
       Some (stop, u\<lparr>n_stored := n_stored u @ take (n_max u - length (n_stored u)) (out_bytes es)\<rparr>,
             n + min (length (out_bytes es)) (n_max u - length (n_stored u)), sts')"
proof (induction es arbitrary: u n sts)
  case (Cons e es)
  show ?case
  proof (cases e)
    case (Out c)
    show ?thesis
    proof (cases "length (n_stored u) < n_max u")
      case True
      then have "n_max u - length (n_stored u) = Suc (n_max u - Suc (length (n_stored u)))" by simp
      then show ?thesis
        using Cons.IH[of "u\<lparr>n_stored := n_stored u @ [c]\<rparr>" "Suc n" sts] Cons.prems Out True by (auto simp: addbyter_def)
    qed (use Cons.prems Out in \<open>auto simp: addbyter_def\<close>)
  qed (use Cons in auto)
qed auto

section \<open>Arguments of the right types\<close>

definition args_match :: "FormatType list \<Rightarrow> arg list \<Rightarrow> bool" where
  "args_match ts args \<longleftrightarrow> length ts \<le> length args \<and> list_all2 (\<lambda>t a. va_arg t a \<noteq> None) ts (take (length ts) args)"

lemma read_values_match: "(\<exists>vs. read_values ts args = Some vs) \<longleftrightarrow> args_match ts args"
  by (induction ts args rule: read_values.induct) (auto simp: args_match_def bind_Some_iff)

definition finite_values :: "FormatType list \<Rightarrow> 64 word list \<Rightarrow> bool" where
  "finite_values ts vs \<longleftrightarrow> list_all2 (\<lambda>t v. t = MTYPE_DOUBLE \<longrightarrow> v \<noteq> dbl_infinity) ts vs"

lemma read_values_finite:
  "read_values ts args = Some vs \<Longrightarrow> A_double dbl_infinity \<notin> set args \<Longrightarrow> finite_values ts vs"
proof (induction ts args arbitrary: vs rule: read_values.induct)
  case (3 t ts a args)
  then obtain v vs' where v: "va_arg t a = Some v" "read_values ts args = Some vs'" "vs = v # vs'" by (auto simp: bind_Some_iff)
  have "t = MTYPE_DOUBLE \<Longrightarrow> v \<noteq> dbl_infinity" using v(1) "3.prems"(2) by (cases a) auto
  with 3 v show ?case by (simp add: finite_values_def)
qed (simp_all add: finite_values_def)

lemma field_output_not_stuck: "(t = MTYPE_DOUBLE \<longrightarrow> v \<noteq> dbl_infinity) \<Longrightarrow> Stuck \<notin> set (field_output lib mem p t v)"
  using out_double_returns[of lib p v] by (cases t) (auto simp: field_output_def)

lemma out_directives_not_stuck:
  "finite_values (demands ds) vs \<Longrightarrow> Stuck \<notin> set (out_directives lib mem ds vs)"
proof (induction ds arbitrary: vs)
  case (Cons d ds)
  show ?case
  proof (cases d)
    case (Conv fl wd pr t)
    define us where "us = demand (Conv fl wd pr t)"
    from Cons.prems Conv have f: "finite_values (us @ demands ds) vs" by (simp add: us_def)
    then have rest: "finite_values (demands ds) (drop (length us) vs)"
      unfolding finite_values_def by (metis append_eq_conv_conj list_all2_append1)
    have "vs ! (length us - 1) \<noteq> dbl_infinity" if "t = MTYPE_DOUBLE"
    proof -
      have "length us - 1 < length (us @ demands ds)" "(us @ demands ds) ! (length us - 1) = t"
        by (auto simp: us_def demand_def nth_append)
      then show ?thesis using list_all2_nthD[OF f[unfolded finite_values_def], of "length us - 1"] that by simp
    qed
    moreover have "length us \<le> length vs" using f by (auto simp: finite_values_def dest: list_all2_lengthD)
    then have "\<exists>p. out_directives lib mem [Conv fl wd pr t] vs = field_output lib mem p t (vs ! (length us - 1))"
      by (cases "flag fl FLAGS_WIDTHPARAM"; cases "flag fl FLAGS_PRECPARAM"; cases vs)
         (auto simp: us_def demand_def out_directives.simps(4) Suc_le_length_iff)
    ultimately show ?thesis
      using Cons.IH[OF rest] field_output_not_stuck[of t "vs ! (length us - 1)" lib mem] Conv
      by (auto simp: out_directives_Conv[of lib mem fl wd pr t ds] us_def)
  qed (use Cons in auto)
qed simp

text \<open>
  Formatting into a buffer of fixed size leaves as much of the text as fits before the terminator, and
  returns its length.
\<close>

lemma mvsnprintf_reference:
  assumes "unnumbered (cstr format)" "directives (cstr format) = Inr ds" "list_all ordinary ds"
    "length (demands ds) \<le> 128" "pieces ds < 128" "A_double dbl_infinity \<notin> set args"
    "read_values (demands ds) args = Some vs" "0 < maxlength"
  shows "\<exists>sts. mvsnprintf lib mem maxlength format args =
    (let out = out_bytes (out_directives lib mem ds vs) in Some (min (length out) (maxlength - 1), take (maxlength - 1) out, sts))"
proof -
  let ?es = "out_directives lib mem ds vs" and ?u = "\<lparr>n_stored = [], n_max = maxlength\<rparr>"
  have "Stuck \<notin> set ?es" by (rule out_directives_not_stuck[OF read_values_finite[OF assms(7,6)]])
  then obtain stop sts where "emit addbyter ?es ?u 0 [] =
      Some (stop, ?u\<lparr>n_stored := take maxlength (out_bytes ?es)\<rparr>, min (length (out_bytes ?es)) maxlength, sts)"
    using emit_addbyter[of ?es ?u 0 "[]"] by auto
  then have f: "formatf lib mem addbyter ?u format args =
      Some (?u\<lparr>n_stored := take maxlength (out_bytes ?es)\<rparr>, min (length (out_bytes ?es)) maxlength, sts)"
    by (simp add: formatf_reference[OF assms(1-5)] assms(7))
  show ?thesis
    using assms(8) by (intro exI[of _ sts], cases "length (out_bytes ?es) < maxlength")
      (auto simp: mvsnprintf_def f Let_def butlast_take butlast_conv_take)
qed

section \<open>Properties\<close>





text \<open>
  C32: Floating point fields. The format composed for the C library always fits its buffer of 32 bytes,
  and printing a field returns for every number but one: with a precision, positive infinity is
  divided by ten for ever.
\<close>

theorem out_double_returns_iff:
  "(out_double lib p d = None \<longleftrightarrow> 0 \<le> prec p \<and> d = dbl_infinity) \<and>
   (case double_format p d of None \<Rightarrow> True | Some fmt \<Rightarrow> length fmt < 32)"
  using out_double_returns[of lib p d] double_format_fits[of p d]
  by (cases "out_double lib p d"; cases "double_format p d") auto

text \<open>
  Formatting into allocated memory gives the whole text or nothing: the block holds exactly the
  bytes the reference puts out and a terminator, and there is no block only when the text has eight
  million bytes or more or when the allocator refused.
\<close>

theorem curl_mvaprintf_exact:
  assumes "unnumbered (cstr format)" "directives (cstr format) = Inr ds" "list_all ordinary ds"
    "length (demands ds) \<le> 128" "pieces ds < 128" "A_double dbl_infinity \<notin> set args"
    "read_values (demands ds) args = Some vs"
  shows "\<exists>r h' sts. curl_mvaprintf lib mem h format args = Some (r, h', sts) \<and>
    (let out = out_bytes (out_directives lib mem ds vs) in
     case r of
       None \<Rightarrow> 8000000 \<le> length out \<or> (\<exists>i. \<not> h i)
     | Some b \<Rightarrow> \<exists>rest. b = out @ NUL # rest)"
proof -
  let ?es = "out_directives lib mem ds vs" and ?u = "(MERR_OK, curlx_dyn_init DYN_APRINTF, h)"
  have g: "alloc_good DYN_APRINTF ?u" using dyn_ok_init[of DYN_APRINTF] by (simp add: alloc_good_def DYN_APRINTF_def MAX_DYNBUF_SIZE_def SIZE_MAX_def)
  have "Stuck \<notin> set ?es" by (rule out_directives_not_stuck[OF read_values_finite[OF assms(7,6)]])
  then obtain stop e s h1 n sts where em: "emit alloc_stream ?es ?u 0 [] = Some (stop, (e, s, h1), n, sts)"
    using emit_returns[of ?es alloc_stream ?u 0 "[]"] by auto
  then have f: "formatf lib mem alloc_stream ?u format args = Some ((e, s, h1), n, sts)"
    by (simp add: formatf_reference[OF assms(1-5)] assms(7))
  show ?thesis
  proof (cases stop)
    case True
    with em have em: "emit alloc_stream ?es ?u 0 [] = Some (True, (e, s, h1), n, sts)" by simp
    have "e \<noteq> MERR_OK" "alloc_blame DYN_APRINTF ?u (out_bytes ?es)"
      using emit_alloc_refused[OF g em] growing.emit_refused[OF g em] by simp_all
    with f show ?thesis by (simp add: curl_mvaprintf_def alloc_blame_def DYN_APRINTF_def)
  next
    case False
    with em growing.emit_whole[OF g, of ?es 0 "[]" "(e, s, h1)" n sts] have w: "alloc_good DYN_APRINTF (e, s, h1)" "dyn_str s = out_bytes ?es" by auto
    then have s: "e = MERR_OK" "dyn_ok s" by (simp_all add: alloc_good_def)
    show ?thesis
    proof (cases "curlx_dyn_len s = 0")
      case True
      then have "out_bytes ?es = []" using dyn_len_str[OF s(2)] w(2) by simp
      moreover have "\<exists>i. \<not> h i" if "\<not> h1 i" for i
        using emit_heap[OF em, of i] that by simp
      ultimately show ?thesis using f s True by (auto simp: curl_mvaprintf_def request_def)
    next
      case False
      then obtain b where b: "bufr s = Some b" using dyn_len_str[OF s(2)] by (cases "bufr s") (auto simp: dyn_str_def dyn_block_def)
      then have "leng s < length b \<and> b ! leng s = NUL" by (rule dyn_ok_terminated[OF s(2)])
      then have "b = take (leng s) b @ NUL # drop (Suc (leng s)) b" by (metis id_take_nth_drop)
      then have "\<exists>rest. b = out_bytes ?es @ NUL # rest" using w(2) b by (metis dyn_block_def dyn_str_def option.simps(5))
      then show ?thesis using f s False b by (simp add: curl_mvaprintf_def curlx_dyn_ptr_def)
    qed
  qed
qed

theorem curl_mvaprintf_exact_witness:
  "\<exists>r h' sts. curl_mvaprintf (\<lambda>f d. f) (\<lambda>a. ''abc'') (\<lambda>_. True) ''%%%s'' [A_ptr 16] = Some (r, h', sts) \<and>
     (\<exists>rest. r = Some (''%abc'' @ NUL # rest))"
proof -
  let ?ds = "[Percent, Conv 0 0 0 MTYPE_STRING]" and ?f = "''%%%s''"
  have c: "unnumbered (cstr ?f)" "directives (cstr ?f) = Inr ?ds" "list_all ordinary ?ds" "length (demands ?ds) \<le> 128" "pieces ?ds < 128"
    by code_simp+
  have i: "A_double dbl_infinity \<notin> set [A_ptr 16]" by simp
  have r: "read_values (demands ?ds) [A_ptr 16] = Some [16]" by code_simp
  have "field_output (\<lambda>f d. f) (\<lambda>a. ''abc'') (field_property 0 0 0 0 0) MTYPE_STRING 16 = map Out ''abc''" by code_simp
  then have o: "out_bytes (out_directives (\<lambda>f d. f) (\<lambda>a. ''abc'') ?ds [16]) = ''%abc''" by (simp add: out_directives.simps(4))
  from curl_mvaprintf_exact[OF c i r, of "\<lambda>f d. f" "\<lambda>a. ''abc''" "\<lambda>_. True"] show ?thesis
    unfolding o Let_def by (elim exE conjE) (auto split: option.splits)
qed

text \<open>The null pointer is padded on the wrong side: to the left of \<open>(nil)\<close> when the field is left-adjusted.\<close>

lemma nil_pointer_padding:
  "out_pointer \<lparr>width = 8, prec = -1, flags = FLAGS_LEFT\<rparr> 0 = ''   (nil)''"
  "out_pointer \<lparr>width = 8, prec = -1, flags = 0\<rparr> 0 = ''(nil)   ''"
  by code_simp+

text \<open>The recursive uses of \<open>curl_msnprintf\<close> in floating point fields put out what \<open>decimal\<close> says.\<close>

lemma msnprintf_decimal:
  assumes "0 < maxlength"
  shows "\<exists>sts. curl_msnprintf lib mem maxlength ''%d'' [A_int w] =
    (case curl_mvsnprintf maxlength (decimal (sint w)) of (n, out) \<Rightarrow> Some (n, out, sts))"
proof -
  let ?ds = "[Conv 0 0 0 MTYPE_INT]"
  have c: "unnumbered (cstr ''%d'')" "directives (cstr ''%d'') = Inr ?ds" "list_all ordinary ?ds" "length (demands ?ds) \<le> 128" "pieces ?ds < 128"
    by code_simp+
  have v: "(scast w :: 64 word) = word_of_int (sint w)" "sint (scast w :: 64 word) = sint w"
    by (simp, simp add: sint_up_scast is_up)
  have fp: "field_property 0 0 0 0 0 = \<lparr>width = 0, prec = -1, flags = 0\<rparr>" by code_simp
  have "out_bytes (out_directives lib mem ?ds [scast w]) = decimal (sint w)"
    using v by (simp add: out_directives.simps(4) field_output_def fp decimal_def)
  moreover have "read_values (demands ?ds) [A_int w] = Some [scast w]" by (simp add: demand_def)
  ultimately show ?thesis
    using mvsnprintf_reference[OF c, of "[A_int w]" "[scast w]" maxlength lib mem] assms
    by (simp add: curl_msnprintf_def mvsnprintf_eq Let_def)
qed

end
