(* ===== verification/Curl_Strcase.thy ===== *)
theory Curl_Strcase
  imports Curl_Strparse
begin

unbundle bit_operations_syntax

text \<open>
  Letter case and string comparison that do not depend on the locale: \<open>old/lib/strcase.c\<close> and
  \<open>strequal.c\<close>. A pointer to a string is the bytes it points to, \<open>None\<close> for the null pointer; the loops
  stop at the terminator, which is what a read at the end of the list gives.
\<close>

section \<open>Operations\<close>

definition touppermap :: "nat list" where
  "touppermap = [0..<97] @ [65..<91] @ [123..<256]"

definition tolowermap :: "nat list" where
  "tolowermap = [0..<65] @ [97..<123] @ [91..<256]"

definition Curl_raw_toupper :: "char \<Rightarrow> char" where
  "Curl_raw_toupper c = char_of (touppermap ! byte_val c)"

definition Curl_raw_tolower :: "char \<Rightarrow> char" where
  "Curl_raw_tolower c = char_of (tolowermap ! byte_val c)"

text \<open>Both copies stop after the terminator or after \<open>n\<close> bytes.\<close>

fun strnto_loop :: "(char \<Rightarrow> char) \<Rightarrow> bytes \<Rightarrow> nat \<Rightarrow> bytes" where
  "strnto_loop f src 0 = []"
| "strnto_loop f src (Suc n) = f (peek src) # (if peek src \<noteq> NUL then strnto_loop f (tl src) n else [])"

definition Curl_strntoupper :: "bytes \<Rightarrow> nat \<Rightarrow> bytes" where
  "Curl_strntoupper src n = strnto_loop Curl_raw_toupper src n"

definition Curl_strntolower :: "bytes \<Rightarrow> nat \<Rightarrow> bytes" where
  "Curl_strntolower src n = strnto_loop Curl_raw_tolower src n"

definition Curl_safecmp :: "bytes option \<Rightarrow> bytes option \<Rightarrow> bool" where
  "Curl_safecmp a b = (case (a, b) of (Some x, Some y) \<Rightarrow> cstr x = cstr y | _ \<Rightarrow> a = None \<and> b = None)"

text \<open>The value of a \<open>char\<close>, which is signed.\<close>

definition schar :: "char \<Rightarrow> int" where
  "schar c = (if byte_val c < 128 then int (byte_val c) else int (byte_val c) - 256)"

fun timestrcmp_loop :: "bytes \<Rightarrow> bytes \<Rightarrow> int \<Rightarrow> int" where
  "timestrcmp_loop [] b match = match OR (schar NUL XOR schar (peek b))"
| "timestrcmp_loop (x # a) b match =
     (let match = match OR (schar x XOR schar (peek b)) in
      if x = NUL \<or> peek b = NUL then match else timestrcmp_loop a (tl b) match)"

definition Curl_timestrcmp :: "bytes option \<Rightarrow> bytes option \<Rightarrow> int" where
  "Curl_timestrcmp a b =
     (case (a, b) of
        (Some x, Some y) \<Rightarrow> timestrcmp_loop x y 0
      | (None, None) \<Rightarrow> 0
      | _ \<Rightarrow> 1)"

fun casecompare :: "bytes \<Rightarrow> bytes \<Rightarrow> bool" where
  "casecompare [] second \<longleftrightarrow> peek second = NUL"
| "casecompare (c # first) second \<longleftrightarrow>
     (if c \<noteq> NUL then
        (if Curl_raw_toupper c \<noteq> Curl_raw_toupper (peek second) then False else casecompare first (tl second))
      else peek second = NUL)"

fun ncasecompare :: "bytes \<Rightarrow> bytes \<Rightarrow> nat \<Rightarrow> bool" where
  "ncasecompare first second 0 \<longleftrightarrow> True"
| "ncasecompare first second (Suc n) \<longleftrightarrow>
     (if peek first \<noteq> NUL then
        (if Curl_raw_toupper (peek first) \<noteq> Curl_raw_toupper (peek second) then False else ncasecompare (tl first) (tl second) n)
      else Curl_raw_toupper (peek first) = Curl_raw_toupper (peek second))"

definition curl_strequal :: "bytes option \<Rightarrow> bytes option \<Rightarrow> bool" where
  "curl_strequal s1 s2 =
     (case (s1, s2) of (Some a, Some b) \<Rightarrow> casecompare a b | _ \<Rightarrow> s1 = None \<and> s2 = None)"

definition curl_strnequal :: "bytes option \<Rightarrow> bytes option \<Rightarrow> nat \<Rightarrow> bool" where
  "curl_strnequal s1 s2 n =
     (case (s1, s2) of (Some a, Some b) \<Rightarrow> ncasecompare a b n | _ \<Rightarrow> s1 = None \<and> s2 = None \<and> n \<noteq> 0)"

definition checkprefix :: "bytes \<Rightarrow> bytes \<Rightarrow> bool" where
  "checkprefix a b = curl_strnequal (Some b) (Some a) (length a)"

section \<open>Letters\<close>

lemma nth_three:
  "n < a + (c - b) + (e - d) \<Longrightarrow>
   ([0..<a] @ [b..<c] @ [d..<e]) ! n = (if n < a then n else if n < a + (c - b) then b + (n - a) else d + (n - a - (c - b)))"
  by (auto simp: nth_append)

lemma raw_toupper: "Curl_raw_toupper c = (if 97 \<le> byte_val c \<and> byte_val c \<le> 122 then char_of (byte_val c - 32) else c)"
proof -
  have "touppermap ! n = (if 97 \<le> n \<and> n \<le> 122 then n - 32 else n)" if "n < 256" for n
    using that nth_three[of n 97 91 65 256 123] by (simp add: touppermap_def del: upt_rec_numeral)
  then show ?thesis by (simp add: Curl_raw_toupper_def)
qed

lemma raw_tolower: "Curl_raw_tolower c = tolower c"
proof -
  have "tolowermap ! n = (if 65 \<le> n \<and> n \<le> 90 then n + 32 else n)" if "n < 256" for n
    using that nth_three[of n 65 123 97 256 91] by (simp add: tolowermap_def del: upt_rec_numeral)
  then show ?thesis by (simp add: Curl_raw_tolower_def tolower_def)
qed

lemma raw_toupper_eq: "Curl_raw_toupper c = Curl_raw_toupper d \<longleftrightarrow> tolower c = tolower d"
proof -
  have char_of_eq: "(char_of m = (x::char)) \<longleftrightarrow> m = byte_val x" if "m < 256" for m x
    using that byte_val_inject[of "char_of m" x] by simp
  have "byte_val c < 256" "byte_val d < 256" by simp_all
  then show ?thesis unfolding raw_toupper tolower_def
    by (auto simp: char_of_eq byte_val_inject[symmetric] simp del: byte_val_inject)
qed

lemma tolower_NUL [simp]: "tolower NUL = NUL" "tolower c = NUL \<longleftrightarrow> c = NUL" "NUL = tolower c \<longleftrightarrow> c = NUL"
proof -
  show n: "tolower NUL = NUL" by (simp add: tolower_def byte_val_def)
  show z: "tolower c = NUL \<longleftrightarrow> c = NUL" using tolower_eq_other[of c NUL] n by (auto simp: byte_val_def)
  then show "NUL = tolower c \<longleftrightarrow> c = NUL" by (metis)
qed

section \<open>Comparisons\<close>

lemma casecompare_eq: "NUL \<notin> set a \<Longrightarrow> NUL \<notin> set b \<Longrightarrow> casecompare a b \<longleftrightarrow> strcaseeq a b"
proof (induction a arbitrary: b)
  case Nil
  then show ?case by (cases b) (auto simp: strcaseeq_def peek_def)
next
  case (Cons c a)
  then show ?case by (cases b) (auto simp: strcaseeq_def peek_def raw_toupper_eq)
qed

lemma ncasecompare_eq: "NUL \<notin> set a \<Longrightarrow> NUL \<notin> set b \<Longrightarrow> ncasecompare a b n \<longleftrightarrow> strncaseeq n a b"
proof (induction a b n rule: ncasecompare.induct)
  case (2 a b n)
  then show ?case by (cases a; cases b) (auto simp: strncaseeq_def peek_def raw_toupper_eq)
qed (simp add: strncaseeq_def)

lemma schar_inject: "schar c = schar d \<longleftrightarrow> c = d"
proof -
  have "byte_val c < 256" "byte_val d < 256" by simp_all
  then show ?thesis using byte_val_inject[of c d] by (auto simp: schar_def split: if_splits simp del: byte_val_inject byte_val_less)
qed

lemma or_xor_zero: "m OR (schar c XOR schar d) = 0 \<longleftrightarrow> m = 0 \<and> c = d"
proof -
  have "m OR k = 0 \<longleftrightarrow> m = 0 \<and> k = 0" for k :: int by (auto simp: bit_eq_iff bit_simps)
  moreover have "k XOR l = 0 \<longleftrightarrow> k = l" for k l :: int by (auto simp: bit_eq_iff bit_simps)
  ultimately show ?thesis by (simp add: schar_inject)
qed

lemma timestrcmp_loop_eq: "NUL \<notin> set a \<Longrightarrow> NUL \<notin> set b \<Longrightarrow> timestrcmp_loop a b m = 0 \<longleftrightarrow> m = 0 \<and> a = b"
proof (induction a arbitrary: b m)
  case Nil
  then show ?case by (cases b) (auto simp: peek_def or_xor_zero)
next
  case (Cons c a)
  then show ?case by (cases b) (auto simp: peek_def or_xor_zero Let_def)
qed

lemma strnto_loop_eq: "NUL \<notin> set s \<Longrightarrow> n \<le> length s \<Longrightarrow> strnto_loop f s n = map f (take n s)"
proof (induction n arbitrary: s)
  case (Suc n)
  then show ?case by (cases s) (auto simp: peek_def)
qed simp

lemma checkprefix_eq: "NUL \<notin> set a \<Longrightarrow> NUL \<notin> set b \<Longrightarrow> checkprefix a b \<longleftrightarrow> strncaseeq (length a) b a"
  by (simp add: checkprefix_def curl_strnequal_def ncasecompare_eq)

text \<open>
  The comparisons compare. Equality up to case is equality of the lower case forms, of the whole strings or of
  their first bytes, whichever end first; the comparison that takes the same time for every content of a string
  gives zero exactly for equal strings. The null pointer equals the null pointer only.
\<close>

theorem string_comparisons_exact:
  assumes "\<And>s. a = Some s \<Longrightarrow> NUL \<notin> set s" "\<And>s. b = Some s \<Longrightarrow> NUL \<notin> set s"
  shows "curl_strequal a b \<longleftrightarrow> (case (a, b) of (Some x, Some y) \<Rightarrow> strcaseeq x y | _ \<Rightarrow> a = b)"
    and "curl_strnequal a b n \<longleftrightarrow> (case (a, b) of (Some x, Some y) \<Rightarrow> strncaseeq n x y | _ \<Rightarrow> a = b \<and> n \<noteq> 0)"
    and "Curl_timestrcmp a b = 0 \<longleftrightarrow> a = b" and "Curl_safecmp a b \<longleftrightarrow> a = b"
  using assms
  by (auto simp: curl_strequal_def curl_strnequal_def Curl_timestrcmp_def Curl_safecmp_def casecompare_eq
      ncasecompare_eq timestrcmp_loop_eq split: option.splits)

end
