(* ===== verification/Curl_Protocol.thy ===== *)
theory Curl_Protocol
  imports Curl_Strcase "HOL-Library.Word"
begin

unbundle bit_operations_syntax

text \<open>
  The URL schemes of \<open>old/lib/protocol.c\<close> and \<open>protocol.h\<close>, and the lookup by name through a perfect hash. Which
  protocols are implemented depends on the features the library is built with, a parameter; a
  handler, \<open>sc_run\<close>, is the name of the object it is.
\<close>

section \<open>Constants\<close>

definition PROTOPT_ALPN :: nat where "PROTOPT_ALPN = 2 ^ 8"
definition PROTOPT_CLOSEACTION :: nat where "PROTOPT_CLOSEACTION = 2 ^ 2"
definition PROTOPT_CONN_REUSE :: nat where "PROTOPT_CONN_REUSE = 2 ^ 16"
definition PROTOPT_CREDSPERREQUEST :: nat where "PROTOPT_CREDSPERREQUEST = 2 ^ 7"
definition PROTOPT_DIRLOCK :: nat where "PROTOPT_DIRLOCK = 2 ^ 3"
definition PROTOPT_DUAL :: nat where "PROTOPT_DUAL = 2 ^ 1"
definition PROTOPT_HTTP_PROXY_TUNNEL :: nat where "PROTOPT_HTTP_PROXY_TUNNEL = 2 ^ 18"
definition PROTOPT_NEEDSPWD :: nat where "PROTOPT_NEEDSPWD = 2 ^ 5"
definition PROTOPT_NONE :: nat where "PROTOPT_NONE = 0"
definition PROTOPT_NONETWORK :: nat where "PROTOPT_NONETWORK = 2 ^ 4"
definition PROTOPT_NOTCPPROXY :: nat where "PROTOPT_NOTCPPROXY = 2 ^ 14"
definition PROTOPT_NOURLQUERY :: nat where "PROTOPT_NOURLQUERY = 2 ^ 6"
definition PROTOPT_NO_TRANSFER :: nat where "PROTOPT_NO_TRANSFER = 2 ^ 17"
definition PROTOPT_PROXY_AS_HTTP :: nat where "PROTOPT_PROXY_AS_HTTP = 2 ^ 11"
definition PROTOPT_SSL :: nat where "PROTOPT_SSL = 1"
definition PROTOPT_SSL_REUSE :: nat where "PROTOPT_SSL_REUSE = 2 ^ 15"
definition PROTOPT_URLOPTIONS :: nat where "PROTOPT_URLOPTIONS = 2 ^ 10"
definition PROTOPT_USERPWDCTRL :: nat where "PROTOPT_USERPWDCTRL = 2 ^ 13"
definition PROTOPT_WILDCARD :: nat where "PROTOPT_WILDCARD = 2 ^ 12"
definition PORT_DICT :: nat where "PORT_DICT = 2628"
definition PORT_FTP :: nat where "PORT_FTP = 21"
definition PORT_FTPS :: nat where "PORT_FTPS = 990"
definition PORT_GOPHER :: nat where "PORT_GOPHER = 70"
definition PORT_HTTP :: nat where "PORT_HTTP = 80"
definition PORT_HTTPS :: nat where "PORT_HTTPS = 443"
definition PORT_IMAP :: nat where "PORT_IMAP = 143"
definition PORT_IMAPS :: nat where "PORT_IMAPS = 993"
definition PORT_LDAP :: nat where "PORT_LDAP = 389"
definition PORT_LDAPS :: nat where "PORT_LDAPS = 636"
definition PORT_MQTT :: nat where "PORT_MQTT = 1883"
definition PORT_MQTTS :: nat where "PORT_MQTTS = 8883"
definition PORT_POP3 :: nat where "PORT_POP3 = 110"
definition PORT_POP3S :: nat where "PORT_POP3S = 995"
definition PORT_RTSP :: nat where "PORT_RTSP = 554"
definition PORT_SMB :: nat where "PORT_SMB = 445"
definition PORT_SMBS :: nat where "PORT_SMBS = 445"
definition PORT_SMTP :: nat where "PORT_SMTP = 25"
definition PORT_SMTPS :: nat where "PORT_SMTPS = 465"
definition PORT_SOCKS :: nat where "PORT_SOCKS = 1080"
definition PORT_SSH :: nat where "PORT_SSH = 22"
definition PORT_TELNET :: nat where "PORT_TELNET = 23"
definition PORT_TFTP :: nat where "PORT_TFTP = 69"
definition CURLPROTO_DICT :: nat where "CURLPROTO_DICT = 2 ^ 9"
definition CURLPROTO_FILE :: nat where "CURLPROTO_FILE = 2 ^ 10"
definition CURLPROTO_FTP :: nat where "CURLPROTO_FTP = 2 ^ 2"
definition CURLPROTO_FTPS :: nat where "CURLPROTO_FTPS = 2 ^ 3"
definition CURLPROTO_GOPHER :: nat where "CURLPROTO_GOPHER = 2 ^ 25"
definition CURLPROTO_GOPHERS :: nat where "CURLPROTO_GOPHERS = 2 ^ 29"
definition CURLPROTO_HTTP :: nat where "CURLPROTO_HTTP = 1"
definition CURLPROTO_HTTPS :: nat where "CURLPROTO_HTTPS = 2 ^ 1"
definition CURLPROTO_IMAP :: nat where "CURLPROTO_IMAP = 2 ^ 12"
definition CURLPROTO_IMAPS :: nat where "CURLPROTO_IMAPS = 2 ^ 13"
definition CURLPROTO_LDAP :: nat where "CURLPROTO_LDAP = 2 ^ 7"
definition CURLPROTO_LDAPS :: nat where "CURLPROTO_LDAPS = 2 ^ 8"
definition CURLPROTO_MQTT :: nat where "CURLPROTO_MQTT = 2 ^ 28"
definition CURLPROTO_MQTTS :: nat where "CURLPROTO_MQTTS = 2 ^ 32"
definition CURLPROTO_POP3 :: nat where "CURLPROTO_POP3 = 2 ^ 14"
definition CURLPROTO_POP3S :: nat where "CURLPROTO_POP3S = 2 ^ 15"
definition CURLPROTO_RTSP :: nat where "CURLPROTO_RTSP = 2 ^ 18"
definition CURLPROTO_SCP :: nat where "CURLPROTO_SCP = 2 ^ 4"
definition CURLPROTO_SFTP :: nat where "CURLPROTO_SFTP = 2 ^ 5"
definition CURLPROTO_SMB :: nat where "CURLPROTO_SMB = 2 ^ 26"
definition CURLPROTO_SMBS :: nat where "CURLPROTO_SMBS = 2 ^ 27"
definition CURLPROTO_SMTP :: nat where "CURLPROTO_SMTP = 2 ^ 16"
definition CURLPROTO_SMTPS :: nat where "CURLPROTO_SMTPS = 2 ^ 17"
definition CURLPROTO_SOCKS :: nat where "CURLPROTO_SOCKS = 2 ^ 33"
definition CURLPROTO_TELNET :: nat where "CURLPROTO_TELNET = 2 ^ 6"
definition CURLPROTO_TFTP :: nat where "CURLPROTO_TFTP = 2 ^ 11"
definition CURLPROTO_WS :: nat where "CURLPROTO_WS = 2 ^ 30"
definition CURLPROTO_WSS :: nat where "CURLPROTO_WSS = 2 ^ 31"

section \<open>Schemes\<close>

datatype feature = CURL_DISABLE_DICT | CURL_DISABLE_FILE | CURL_DISABLE_FTP | USE_SSL | CURL_DISABLE_GOPHER |
        CURL_DISABLE_HTTP | CURL_DISABLE_IMAP | CURL_DISABLE_LDAP | HAVE_LDAP_SSL | CURL_DISABLE_MQTT |
        CURL_DISABLE_POP3 | CURL_DISABLE_RTSP | USE_SSH | CURL_ENABLE_SMB | USE_CURL_NTLM_CORE | CURL_DISABLE_SMTP
        | CURL_DISABLE_TELNET | CURL_DISABLE_TFTP | CURL_DISABLE_WEBSOCKETS

record Curl_scheme =
  sc_name :: bytes
  sc_run :: "bytes option"
  sc_protocol :: nat
  sc_family :: nat
  sc_flags :: nat
  sc_defport :: nat

definition Curl_scheme_dict :: "(feature \<Rightarrow> bool) \<Rightarrow> Curl_scheme" where
  "Curl_scheme_dict cfg =
     \<lparr>sc_name = ''dict'', sc_run = (if cfg CURL_DISABLE_DICT then None else Some ''Curl_protocol_dict''),
      sc_protocol = CURLPROTO_DICT, sc_family = CURLPROTO_DICT,
      sc_flags = PROTOPT_NONE OR PROTOPT_NOURLQUERY, sc_defport = PORT_DICT\<rparr>"

definition Curl_scheme_file :: "(feature \<Rightarrow> bool) \<Rightarrow> Curl_scheme" where
  "Curl_scheme_file cfg =
     \<lparr>sc_name = ''file'', sc_run = (if cfg CURL_DISABLE_FILE then None else Some ''Curl_protocol_file''),
      sc_protocol = CURLPROTO_FILE, sc_family = CURLPROTO_FILE,
      sc_flags = PROTOPT_NONETWORK OR PROTOPT_NOURLQUERY, sc_defport = 0\<rparr>"

definition Curl_scheme_ftp :: "(feature \<Rightarrow> bool) \<Rightarrow> Curl_scheme" where
  "Curl_scheme_ftp cfg =
     \<lparr>sc_name = ''ftp'', sc_run = (if cfg CURL_DISABLE_FTP then None else Some ''Curl_protocol_ftp''),
      sc_protocol = CURLPROTO_FTP, sc_family = CURLPROTO_FTP,
      sc_flags = PROTOPT_DUAL OR PROTOPT_CLOSEACTION OR PROTOPT_NEEDSPWD OR PROTOPT_NOURLQUERY OR
        PROTOPT_PROXY_AS_HTTP OR PROTOPT_WILDCARD OR PROTOPT_SSL_REUSE OR PROTOPT_CONN_REUSE, sc_defport =
        PORT_FTP\<rparr>"

definition Curl_scheme_ftps :: "(feature \<Rightarrow> bool) \<Rightarrow> Curl_scheme" where
  "Curl_scheme_ftps cfg =
     \<lparr>sc_name = ''ftps'', sc_run = (if cfg CURL_DISABLE_FTP \<or> \<not> cfg USE_SSL then None else Some
        ''Curl_protocol_ftp''),
      sc_protocol = CURLPROTO_FTPS, sc_family = CURLPROTO_FTP,
      sc_flags = PROTOPT_SSL OR PROTOPT_DUAL OR PROTOPT_CLOSEACTION OR PROTOPT_NEEDSPWD OR PROTOPT_NOURLQUERY OR
        PROTOPT_WILDCARD OR PROTOPT_CONN_REUSE, sc_defport = PORT_FTPS\<rparr>"

definition Curl_scheme_gopher :: "(feature \<Rightarrow> bool) \<Rightarrow> Curl_scheme" where
  "Curl_scheme_gopher cfg =
     \<lparr>sc_name = ''gopher'', sc_run = (if cfg CURL_DISABLE_GOPHER then None else Some ''Curl_protocol_gopher''),
      sc_protocol = CURLPROTO_GOPHER, sc_family = CURLPROTO_GOPHER,
      sc_flags = PROTOPT_NONE, sc_defport = PORT_GOPHER\<rparr>"

definition Curl_scheme_gophers :: "(feature \<Rightarrow> bool) \<Rightarrow> Curl_scheme" where
  "Curl_scheme_gophers cfg =
     \<lparr>sc_name = ''gophers'', sc_run = (if cfg CURL_DISABLE_GOPHER \<or> \<not> cfg USE_SSL then None else
        Some ''Curl_protocol_gophers''),
      sc_protocol = CURLPROTO_GOPHERS, sc_family = CURLPROTO_GOPHER,
      sc_flags = PROTOPT_SSL, sc_defport = PORT_GOPHER\<rparr>"

definition Curl_scheme_http :: "(feature \<Rightarrow> bool) \<Rightarrow> Curl_scheme" where
  "Curl_scheme_http cfg =
     \<lparr>sc_name = ''http'', sc_run = (if cfg CURL_DISABLE_HTTP then None else Some ''Curl_protocol_http''),
      sc_protocol = CURLPROTO_HTTP, sc_family = CURLPROTO_HTTP,
      sc_flags = PROTOPT_CREDSPERREQUEST OR PROTOPT_USERPWDCTRL OR PROTOPT_CONN_REUSE, sc_defport = PORT_HTTP\<rparr>"

definition Curl_scheme_https :: "(feature \<Rightarrow> bool) \<Rightarrow> Curl_scheme" where
  "Curl_scheme_https cfg =
     \<lparr>sc_name = ''https'', sc_run = (if cfg CURL_DISABLE_HTTP \<or> \<not> cfg USE_SSL then None else Some
        ''Curl_protocol_http''),
      sc_protocol = CURLPROTO_HTTPS, sc_family = CURLPROTO_HTTP,
      sc_flags = PROTOPT_SSL OR PROTOPT_CREDSPERREQUEST OR PROTOPT_ALPN OR PROTOPT_USERPWDCTRL OR
        PROTOPT_CONN_REUSE OR PROTOPT_HTTP_PROXY_TUNNEL, sc_defport = PORT_HTTPS\<rparr>"

definition Curl_scheme_imap :: "(feature \<Rightarrow> bool) \<Rightarrow> Curl_scheme" where
  "Curl_scheme_imap cfg =
     \<lparr>sc_name = ''imap'', sc_run = (if cfg CURL_DISABLE_IMAP then None else Some ''Curl_protocol_imap''),
      sc_protocol = CURLPROTO_IMAP, sc_family = CURLPROTO_IMAP,
      sc_flags = PROTOPT_CLOSEACTION OR PROTOPT_URLOPTIONS OR PROTOPT_SSL_REUSE OR PROTOPT_CONN_REUSE, sc_defport =
        PORT_IMAP\<rparr>"

definition Curl_scheme_imaps :: "(feature \<Rightarrow> bool) \<Rightarrow> Curl_scheme" where
  "Curl_scheme_imaps cfg =
     \<lparr>sc_name = ''imaps'', sc_run = (if cfg CURL_DISABLE_IMAP \<or> \<not> cfg USE_SSL then None else Some
        ''Curl_protocol_imap''),
      sc_protocol = CURLPROTO_IMAPS, sc_family = CURLPROTO_IMAP,
      sc_flags = PROTOPT_CLOSEACTION OR PROTOPT_SSL OR PROTOPT_URLOPTIONS OR PROTOPT_CONN_REUSE, sc_defport =
        PORT_IMAPS\<rparr>"

definition Curl_scheme_ldap :: "(feature \<Rightarrow> bool) \<Rightarrow> Curl_scheme" where
  "Curl_scheme_ldap cfg =
     \<lparr>sc_name = ''ldap'', sc_run = (if cfg CURL_DISABLE_LDAP then None else Some ''Curl_protocol_ldap''),
      sc_protocol = CURLPROTO_LDAP, sc_family = CURLPROTO_LDAP,
      sc_flags = PROTOPT_SSL_REUSE, sc_defport = PORT_LDAP\<rparr>"

definition Curl_scheme_ldaps :: "(feature \<Rightarrow> bool) \<Rightarrow> Curl_scheme" where
  "Curl_scheme_ldaps cfg =
     \<lparr>sc_name = ''ldaps'', sc_run = (if cfg CURL_DISABLE_LDAP \<or> \<not> cfg HAVE_LDAP_SSL then None else
        Some ''Curl_protocol_ldap''),
      sc_protocol = CURLPROTO_LDAPS, sc_family = CURLPROTO_LDAP,
      sc_flags = PROTOPT_SSL, sc_defport = PORT_LDAPS\<rparr>"

definition Curl_scheme_mqtt :: "(feature \<Rightarrow> bool) \<Rightarrow> Curl_scheme" where
  "Curl_scheme_mqtt cfg =
     \<lparr>sc_name = ''mqtt'', sc_run = (if cfg CURL_DISABLE_MQTT then None else Some ''Curl_protocol_mqtt''),
      sc_protocol = CURLPROTO_MQTT, sc_family = CURLPROTO_MQTT,
      sc_flags = PROTOPT_NONE, sc_defport = PORT_MQTT\<rparr>"

definition Curl_scheme_mqtts :: "(feature \<Rightarrow> bool) \<Rightarrow> Curl_scheme" where
  "Curl_scheme_mqtts cfg =
     \<lparr>sc_name = ''mqtts'', sc_run = (if cfg CURL_DISABLE_MQTT \<or> \<not> cfg USE_SSL then None else Some
        ''Curl_protocol_mqtts''),
      sc_protocol = CURLPROTO_MQTTS, sc_family = CURLPROTO_MQTT,
      sc_flags = PROTOPT_SSL, sc_defport = PORT_MQTTS\<rparr>"

definition Curl_scheme_pop3 :: "(feature \<Rightarrow> bool) \<Rightarrow> Curl_scheme" where
  "Curl_scheme_pop3 cfg =
     \<lparr>sc_name = ''pop3'', sc_run = (if cfg CURL_DISABLE_POP3 then None else Some ''Curl_protocol_pop3''),
      sc_protocol = CURLPROTO_POP3, sc_family = CURLPROTO_POP3,
      sc_flags = PROTOPT_CLOSEACTION OR PROTOPT_NOURLQUERY OR PROTOPT_URLOPTIONS OR PROTOPT_SSL_REUSE OR
        PROTOPT_CONN_REUSE, sc_defport = PORT_POP3\<rparr>"

definition Curl_scheme_pop3s :: "(feature \<Rightarrow> bool) \<Rightarrow> Curl_scheme" where
  "Curl_scheme_pop3s cfg =
     \<lparr>sc_name = ''pop3s'', sc_run = (if cfg CURL_DISABLE_POP3 \<or> \<not> cfg USE_SSL then None else Some
        ''Curl_protocol_pop3''),
      sc_protocol = CURLPROTO_POP3S, sc_family = CURLPROTO_POP3,
      sc_flags = PROTOPT_CLOSEACTION OR PROTOPT_SSL OR PROTOPT_NOURLQUERY OR PROTOPT_URLOPTIONS OR
        PROTOPT_CONN_REUSE, sc_defport = PORT_POP3S\<rparr>"

definition Curl_scheme_rtsp :: "(feature \<Rightarrow> bool) \<Rightarrow> Curl_scheme" where
  "Curl_scheme_rtsp cfg =
     \<lparr>sc_name = ''rtsp'', sc_run = (if cfg CURL_DISABLE_RTSP then None else Some ''Curl_protocol_rtsp''),
      sc_protocol = CURLPROTO_RTSP, sc_family = CURLPROTO_RTSP,
      sc_flags = PROTOPT_CONN_REUSE, sc_defport = PORT_RTSP\<rparr>"

definition Curl_scheme_sftp :: "(feature \<Rightarrow> bool) \<Rightarrow> Curl_scheme" where
  "Curl_scheme_sftp cfg =
     \<lparr>sc_name = ''sftp'', sc_run = (if \<not> cfg USE_SSH then None else Some ''Curl_protocol_sftp''),
      sc_protocol = CURLPROTO_SFTP, sc_family = CURLPROTO_SFTP,
      sc_flags = PROTOPT_DIRLOCK OR PROTOPT_CLOSEACTION OR PROTOPT_NOURLQUERY OR PROTOPT_CONN_REUSE, sc_defport =
        PORT_SSH\<rparr>"

definition Curl_scheme_scp :: "(feature \<Rightarrow> bool) \<Rightarrow> Curl_scheme" where
  "Curl_scheme_scp cfg =
     \<lparr>sc_name = ''scp'', sc_run = (if \<not> cfg USE_SSH then None else Some ''Curl_protocol_scp''),
      sc_protocol = CURLPROTO_SCP, sc_family = CURLPROTO_SCP,
      sc_flags = PROTOPT_DIRLOCK OR PROTOPT_CLOSEACTION OR PROTOPT_NOURLQUERY OR PROTOPT_CONN_REUSE, sc_defport =
        PORT_SSH\<rparr>"

definition Curl_scheme_smb :: "(feature \<Rightarrow> bool) \<Rightarrow> Curl_scheme" where
  "Curl_scheme_smb cfg =
     \<lparr>sc_name = ''smb'', sc_run = (if cfg CURL_ENABLE_SMB \<and> cfg USE_CURL_NTLM_CORE then Some
        ''Curl_protocol_smb'' else None),
      sc_protocol = CURLPROTO_SMB, sc_family = CURLPROTO_SMB,
      sc_flags = PROTOPT_NONE, sc_defport = PORT_SMB\<rparr>"

definition Curl_scheme_smbs :: "(feature \<Rightarrow> bool) \<Rightarrow> Curl_scheme" where
  "Curl_scheme_smbs cfg =
     \<lparr>sc_name = ''smbs'', sc_run = (if cfg CURL_ENABLE_SMB \<and> cfg USE_CURL_NTLM_CORE \<and> cfg USE_SSL
        then Some ''Curl_protocol_smb'' else None),
      sc_protocol = CURLPROTO_SMBS, sc_family = CURLPROTO_SMB,
      sc_flags = PROTOPT_SSL, sc_defport = PORT_SMBS\<rparr>"

definition Curl_scheme_smtp :: "(feature \<Rightarrow> bool) \<Rightarrow> Curl_scheme" where
  "Curl_scheme_smtp cfg =
     \<lparr>sc_name = ''smtp'', sc_run = (if cfg CURL_DISABLE_SMTP then None else Some ''Curl_protocol_smtp''),
      sc_protocol = CURLPROTO_SMTP, sc_family = CURLPROTO_SMTP,
      sc_flags = PROTOPT_CLOSEACTION OR PROTOPT_NOURLQUERY OR PROTOPT_URLOPTIONS OR PROTOPT_SSL_REUSE OR
        PROTOPT_CONN_REUSE, sc_defport = PORT_SMTP\<rparr>"

definition Curl_scheme_smtps :: "(feature \<Rightarrow> bool) \<Rightarrow> Curl_scheme" where
  "Curl_scheme_smtps cfg =
     \<lparr>sc_name = ''smtps'', sc_run = (if cfg CURL_DISABLE_SMTP \<or> \<not> cfg USE_SSL then None else Some
        ''Curl_protocol_smtp''),
      sc_protocol = CURLPROTO_SMTPS, sc_family = CURLPROTO_SMTP,
      sc_flags = PROTOPT_CLOSEACTION OR PROTOPT_SSL OR PROTOPT_NOURLQUERY OR PROTOPT_URLOPTIONS OR
        PROTOPT_CONN_REUSE, sc_defport = PORT_SMTPS\<rparr>"

definition Curl_scheme_socks :: "(feature \<Rightarrow> bool) \<Rightarrow> Curl_scheme" where
  "Curl_scheme_socks cfg =
     \<lparr>sc_name = ''socks'', sc_run = (None),
      sc_protocol = CURLPROTO_SOCKS, sc_family = CURLPROTO_SOCKS,
      sc_flags = PROTOPT_NO_TRANSFER, sc_defport = PORT_SOCKS\<rparr>"

definition Curl_scheme_socks4 :: "(feature \<Rightarrow> bool) \<Rightarrow> Curl_scheme" where
  "Curl_scheme_socks4 cfg =
     \<lparr>sc_name = ''socks4'', sc_run = (None),
      sc_protocol = CURLPROTO_SOCKS, sc_family = CURLPROTO_SOCKS,
      sc_flags = PROTOPT_NO_TRANSFER, sc_defport = PORT_SOCKS\<rparr>"

definition Curl_scheme_socks4a :: "(feature \<Rightarrow> bool) \<Rightarrow> Curl_scheme" where
  "Curl_scheme_socks4a cfg =
     \<lparr>sc_name = ''socks4a'', sc_run = (None),
      sc_protocol = CURLPROTO_SOCKS, sc_family = CURLPROTO_SOCKS,
      sc_flags = PROTOPT_NO_TRANSFER, sc_defport = PORT_SOCKS\<rparr>"

definition Curl_scheme_socks5 :: "(feature \<Rightarrow> bool) \<Rightarrow> Curl_scheme" where
  "Curl_scheme_socks5 cfg =
     \<lparr>sc_name = ''socks5'', sc_run = (None),
      sc_protocol = CURLPROTO_SOCKS, sc_family = CURLPROTO_SOCKS,
      sc_flags = PROTOPT_NO_TRANSFER, sc_defport = PORT_SOCKS\<rparr>"

definition Curl_scheme_socks5h :: "(feature \<Rightarrow> bool) \<Rightarrow> Curl_scheme" where
  "Curl_scheme_socks5h cfg =
     \<lparr>sc_name = ''socks5h'', sc_run = (None),
      sc_protocol = CURLPROTO_SOCKS, sc_family = CURLPROTO_SOCKS,
      sc_flags = PROTOPT_NO_TRANSFER, sc_defport = PORT_SOCKS\<rparr>"

definition Curl_scheme_telnet :: "(feature \<Rightarrow> bool) \<Rightarrow> Curl_scheme" where
  "Curl_scheme_telnet cfg =
     \<lparr>sc_name = ''telnet'', sc_run = (if cfg CURL_DISABLE_TELNET then None else Some ''Curl_protocol_telnet''),
      sc_protocol = CURLPROTO_TELNET, sc_family = CURLPROTO_TELNET,
      sc_flags = PROTOPT_NONE OR PROTOPT_NOURLQUERY, sc_defport = PORT_TELNET\<rparr>"

definition Curl_scheme_tftp :: "(feature \<Rightarrow> bool) \<Rightarrow> Curl_scheme" where
  "Curl_scheme_tftp cfg =
     \<lparr>sc_name = ''tftp'', sc_run = (if cfg CURL_DISABLE_TFTP then None else Some ''Curl_protocol_tftp''),
      sc_protocol = CURLPROTO_TFTP, sc_family = CURLPROTO_TFTP,
      sc_flags = PROTOPT_NOTCPPROXY OR PROTOPT_NOURLQUERY, sc_defport = PORT_TFTP\<rparr>"

definition Curl_scheme_ws :: "(feature \<Rightarrow> bool) \<Rightarrow> Curl_scheme" where
  "Curl_scheme_ws cfg =
     \<lparr>sc_name = ''ws'', sc_run = (if cfg CURL_DISABLE_WEBSOCKETS \<or> cfg CURL_DISABLE_HTTP then None else
        Some ''Curl_protocol_ws''),
      sc_protocol = CURLPROTO_WS, sc_family = CURLPROTO_HTTP,
      sc_flags = PROTOPT_CREDSPERREQUEST OR PROTOPT_USERPWDCTRL OR PROTOPT_HTTP_PROXY_TUNNEL, sc_defport =
        PORT_HTTP\<rparr>"

definition Curl_scheme_wss :: "(feature \<Rightarrow> bool) \<Rightarrow> Curl_scheme" where
  "Curl_scheme_wss cfg =
     \<lparr>sc_name = ''wss'', sc_run = (if cfg CURL_DISABLE_WEBSOCKETS \<or> cfg CURL_DISABLE_HTTP \<or> \<not>
        cfg USE_SSL then None else Some ''Curl_protocol_ws''),
      sc_protocol = CURLPROTO_WSS, sc_family = CURLPROTO_HTTP,
      sc_flags = PROTOPT_SSL OR PROTOPT_CREDSPERREQUEST OR PROTOPT_USERPWDCTRL OR PROTOPT_HTTP_PROXY_TUNNEL,
        sc_defport = PORT_HTTPS\<rparr>"

definition all_schemes :: "(feature \<Rightarrow> bool) \<Rightarrow> Curl_scheme option list" where
  "all_schemes cfg =
     [None, Some (Curl_scheme_pop3 cfg), None, Some (Curl_scheme_smtps cfg),
      Some (Curl_scheme_socks cfg), Some (Curl_scheme_socks4 cfg), Some (Curl_scheme_socks5 cfg), None,
      None, Some (Curl_scheme_gophers cfg), Some (Curl_scheme_ws cfg), Some (Curl_scheme_sftp cfg),
      Some (Curl_scheme_socks4a cfg), Some (Curl_scheme_scp cfg), Some (Curl_scheme_rtsp cfg), Some
        (Curl_scheme_dict cfg),
      None, None, Some (Curl_scheme_gopher cfg), None,
      None, None, Some (Curl_scheme_wss cfg), None,
      Some (Curl_scheme_smb cfg), None, Some (Curl_scheme_ldap cfg), Some (Curl_scheme_ldaps cfg),
      Some (Curl_scheme_imap cfg), None, None, None,
      Some (Curl_scheme_imaps cfg), Some (Curl_scheme_https cfg), Some (Curl_scheme_tftp cfg), Some
        (Curl_scheme_telnet cfg),
      None, None, None, Some (Curl_scheme_file cfg),
      Some (Curl_scheme_smtp cfg), None, None, None,
      None, None, None, None,
      Some (Curl_scheme_ftp cfg), Some (Curl_scheme_mqtt cfg), None, Some (Curl_scheme_socks5h cfg),
      Some (Curl_scheme_http cfg), Some (Curl_scheme_pop3s cfg), None, Some (Curl_scheme_mqtts cfg),
      None, Some (Curl_scheme_smbs cfg), Some (Curl_scheme_ftps cfg)]"

lemmas scheme_defs =
  Curl_scheme_dict_def Curl_scheme_file_def Curl_scheme_ftp_def Curl_scheme_ftps_def Curl_scheme_gopher_def
        Curl_scheme_gophers_def Curl_scheme_http_def Curl_scheme_https_def Curl_scheme_imap_def
        Curl_scheme_imaps_def Curl_scheme_ldap_def Curl_scheme_ldaps_def Curl_scheme_mqtt_def Curl_scheme_mqtts_def
        Curl_scheme_pop3_def Curl_scheme_pop3s_def Curl_scheme_rtsp_def Curl_scheme_sftp_def Curl_scheme_scp_def
        Curl_scheme_smb_def Curl_scheme_smbs_def Curl_scheme_smtp_def Curl_scheme_smtps_def Curl_scheme_socks_def
        Curl_scheme_socks4_def Curl_scheme_socks4a_def Curl_scheme_socks5_def Curl_scheme_socks5h_def
        Curl_scheme_telnet_def Curl_scheme_tftp_def Curl_scheme_ws_def Curl_scheme_wss_def

section \<open>Lookup\<close>

fun scheme_hash :: "32 word \<Rightarrow> bytes \<Rightarrow> nat \<Rightarrow> 32 word" where
  "scheme_hash c s 0 = c"
| "scheme_hash c s (Suc l) = scheme_hash (push_bit 5 c + word_of_int (schar (Curl_raw_tolower (peek s)))) (tl s) l"

definition Curl_getn_scheme :: "(feature \<Rightarrow> bool) \<Rightarrow> bytes \<Rightarrow> nat \<Rightarrow> Curl_scheme option" where
  "Curl_getn_scheme cfg scheme len =
     (if len \<noteq> 0 \<and> len \<le> 7 then
        (case all_schemes cfg ! (unat (scheme_hash 443 scheme len) mod 59) of
           None \<Rightarrow> None
         | Some h \<Rightarrow>
             if curl_strnequal (Some scheme) (Some (sc_name h)) len \<and> peek (drop len (sc_name h)) = NUL then Some h else None)
      else None)"

definition Curl_get_scheme :: "(feature \<Rightarrow> bool) \<Rightarrow> bytes \<Rightarrow> Curl_scheme option" where
  "Curl_get_scheme cfg scheme = Curl_getn_scheme cfg scheme (length (cstr scheme))"

section \<open>The hash is perfect\<close>

definition name_table :: "bytes option list" where
  "name_table = map (map_option sc_name) (all_schemes (\<lambda>_. False))"

lemma name_table: "map (map_option sc_name) (all_schemes cfg) = name_table"
  by (simp add: name_table_def all_schemes_def scheme_defs)

text \<open>The hash of a lower case name, on integers.\<close>

fun name_hash :: "int \<Rightarrow> bytes \<Rightarrow> int" where
  "name_hash c [] = c"
| "name_hash c (x # s) = name_hash ((c * 32 + int (byte_val x)) mod 4294967296) s"

definition slot_ok :: "nat \<Rightarrow> bytes option \<Rightarrow> bool" where
  "slot_ok i e \<longleftrightarrow> (case e of
     None \<Rightarrow> True
   | Some n \<Rightarrow> n \<noteq> [] \<and> length n \<le> 7 \<and> list_all (\<lambda>c. c \<noteq> NUL \<and> tolower c = c \<and> byte_val c < 128) n \<and> name_hash 443 n mod 59 = int i)"

lemma slots_ok: "list_all2 slot_ok [0..<59] name_table"
  by code_simp


lemma hash_lower:
  "list_all (\<lambda>c. byte_val (tolower c) < 128) s \<Longrightarrow> uint (scheme_hash c s (length s)) = name_hash (uint c) (map tolower s)"
proof (induction s arbitrary: c)
  case (Cons x s)
  have "uint (push_bit 5 c + word_of_int (schar (tolower x))) = (uint c * 32 + int (byte_val (tolower x))) mod 4294967296"
    using Cons.prems
    by (simp add: push_bit_eq_mult uint_word_ariths schar_def mod_simps unsigned_of_nat take_bit_eq_mod zmod_int)
  with Cons show ?case by (simp add: peek_def raw_tolower)
qed simp

lemma length_all_schemes: "length (all_schemes cfg) = 59"
  by (simp add: all_schemes_def)

lemma table_entry:
  assumes "i < 59" "all_schemes cfg ! i = Some h"
  shows "slot_ok i (Some (sc_name h))"
proof -
  have "map (map_option sc_name) (all_schemes cfg) ! i = Some (sc_name h)" using assms by (simp add: length_all_schemes)
  then have "name_table ! i = Some (sc_name h)" unfolding name_table .
  then show ?thesis using slots_ok assms(1) by (auto simp: list_all2_conv_all_nth)
qed

lemma strcaseeq_same_length: "strcaseeq a b \<Longrightarrow> length a = length b"
  unfolding strcaseeq_def by (rule map_eq_imp_length_eq)

lemma get_scheme_eq:
  assumes "NUL \<notin> set s"
  shows "Curl_get_scheme cfg s = Some h \<longleftrightarrow> Some h \<in> set (all_schemes cfg) \<and> strcaseeq s (sc_name h)"
proof
  assume g: "Curl_get_scheme cfg s = Some h"
  let ?i = "unat (scheme_hash 443 s (length s)) mod 59"
  have i: "?i < 59" by simp
  from g assms have h: "all_schemes cfg ! ?i = Some h" "curl_strnequal (Some s) (Some (sc_name h)) (length s)"
      "peek (drop (length s) (sc_name h)) = NUL"
    by (auto simp: Curl_get_scheme_def Curl_getn_scheme_def split: if_splits option.splits)
  note e = table_entry[OF i h(1)]
  then have nul: "NUL \<notin> set (sc_name h)" by (auto simp: slot_ok_def list_all_iff)
  have short: "length (sc_name h) \<le> length s"
  proof (rule ccontr)
    assume "\<not> ?thesis"
    then have "peek (drop (length s) (sc_name h)) \<in> set (sc_name h)"
      by (metis Cons_nth_drop_Suc list.simps(5) not_le nth_mem peek_def)
    with h(3) nul show False by simp
  qed
  have "strncaseeq (length s) s (sc_name h)" using h(2) assms nul by (simp add: curl_strnequal_def ncasecompare_eq)
  then have "strcaseeq s (sc_name h)" using short by (simp add: strncaseeq_def strcaseeq_def)
  then show "Some h \<in> set (all_schemes cfg) \<and> strcaseeq s (sc_name h)" using h(1) i by (metis length_all_schemes nth_mem)
next
  assume a: "Some h \<in> set (all_schemes cfg) \<and> strcaseeq s (sc_name h)"
  then obtain i where i: "i < 59" "all_schemes cfg ! i = Some h" by (metis in_set_conv_nth length_all_schemes)
  note e = table_entry[OF i]
  have low: "map tolower s = sc_name h" "length s = length (sc_name h)"
  proof -
    have "map tolower (sc_name h) = sc_name h" using e by (intro map_idI) (auto simp: slot_ok_def list_all_iff)
    then show "map tolower s = sc_name h" using a by (simp add: strcaseeq_def)
    show "length s = length (sc_name h)" using a strcaseeq_same_length by blast
  qed
  have "list_all (\<lambda>c. byte_val c < 128) (map tolower s)" using e low(1) by (auto simp: slot_ok_def list_all_iff)
  then have "list_all (\<lambda>c. byte_val (tolower c) < 128) s" by (simp add: list_all_iff)
  then have "uint (scheme_hash 443 s (length s)) mod 59 = int i" using hash_lower[of s 443] e low(1) by (simp add: slot_ok_def)
  then have "int (unat (scheme_hash 443 s (length s)) mod 59) = int i" by (simp add: zmod_int)
  then have slot: "unat (scheme_hash 443 s (length s)) mod 59 = i" by simp
  have nul: "NUL \<notin> set (sc_name h)" using e by (auto simp: slot_ok_def list_all_iff)
  have "curl_strnequal (Some s) (Some (sc_name h)) (length s)"
    using a low(2) assms nul by (simp add: curl_strnequal_def ncasecompare_eq strncaseeq_def strcaseeq_def)
  moreover have "peek (drop (length s) (sc_name h)) = NUL" using low(2) by (simp add: peek_def)
  ultimately show "Curl_get_scheme cfg s = Some h"
    using slot i(2) assms e low(2) by (auto simp: Curl_get_scheme_def Curl_getn_scheme_def slot_ok_def)
qed

section \<open>Properties\<close>

text \<open>C23: The hash that finds a scheme is perfect: a scheme is found exactly when the table has one of that
  name, the case of letters aside, whatever the length and the bytes of the text that is looked up and
  whatever features are built in; 32-bit wrap-around and signed characters included.\<close>

theorem scheme_lookup_exact:
  "Curl_get_scheme cfg s = Some h \<longleftrightarrow> Some h \<in> set (all_schemes cfg) \<and> strcaseeq (cstr s) (sc_name h)"
proof -
  have take: "scheme_hash c s (length (cstr s)) = scheme_hash c (cstr s) (length (cstr s))" for c
  proof -
    have "scheme_hash c (a @ b) (length a) = scheme_hash c a (length a)" for a b
      by (induction a arbitrary: c) (simp_all add: peek_def)
    moreover have "s = cstr s @ dropWhile (\<lambda>c. c \<noteq> NUL) s" by (simp add: cstr_def)
    ultimately show ?thesis by metis
  qed
  have cmp: "ncasecompare s n (length (cstr s)) = ncasecompare (cstr s) n (length (cstr s))" for n
  proof -
    have "NUL \<notin> set a \<Longrightarrow> ncasecompare (a @ b) n (length a) = ncasecompare a n (length a)" for a b n
      by (induction a arbitrary: n) (simp_all add: peek_def)
    moreover have "s = cstr s @ dropWhile (\<lambda>c. c \<noteq> NUL) s" by (simp add: cstr_def)
    ultimately show ?thesis by (metis NUL_notin_cstr)
  qed
  have "Curl_get_scheme cfg s = Curl_get_scheme cfg (cstr s)"
    by (auto simp: Curl_get_scheme_def Curl_getn_scheme_def curl_strnequal_def take cmp split: option.splits)
  then show ?thesis using get_scheme_eq[of "cstr s" cfg h] by simp
qed

end
