(* ===== verification/Curl_Inet.thy ===== *)
theory Curl_Inet
  imports Curl_Strparse
begin

text \<open>
  Text and binary forms of network addresses, \<open>old/lib/curlx/inet_pton.c\<close> and \<open>inet_ntop.c\<close>. A binary
  address is the list of its bytes, 4 or 16 numbers below 256; a source string is a C string. The
  part of the array \<open>tmp\<close> that is filled, up to the write pointer \<open>tp\<close>, is a list, and \<open>colonp\<close> an index
  into it.
\<close>

section \<open>From text\<close>

fun pton4_loop :: "bytes \<Rightarrow> nat list \<Rightarrow> nat \<Rightarrow> bool \<Rightarrow> nat \<Rightarrow> nat list option" where
  "pton4_loop [] tmp cur saw_digit octets = (if octets < 4 then None else Some (tmp @ [cur]))"
| "pton4_loop (ch # src) tmp cur saw_digit octets =
     (if isdigit ch then
        (let val = cur * 10 + nat (digit_val ch) in
         if saw_digit \<and> cur = 0 then None
         else if val > 255 then None
         else if \<not> saw_digit then
           (if octets + 1 > 4 then None else pton4_loop src tmp val True (octets + 1))
         else pton4_loop src tmp val saw_digit octets)
      else if ch = CHR ''.'' \<and> saw_digit then
        (if octets = 4 then None else pton4_loop src (tmp @ [cur]) 0 False octets)
      else None)"

definition inet_pton4 :: "bytes \<Rightarrow> nat list option" where
  "inet_pton4 src = pton4_loop (cstr src) [] 0 False 0"

definition IN6ADDRSZ :: nat where "IN6ADDRSZ = 16"

definition word_bytes :: "nat \<Rightarrow> nat list" where
  "word_bytes val = [val div 256 mod 256, val mod 256]"

text \<open>The loop of \<open>inet_pton6\<close>: what is written, the place of \<open>::\<close>, and the digits still to be written.\<close>

fun pton6_loop :: "bytes \<Rightarrow> nat list \<Rightarrow> nat option \<Rightarrow> bytes \<Rightarrow> nat \<Rightarrow> nat \<Rightarrow> (nat list \<times> nat option \<times> nat \<times> nat) option" where
  "pton6_loop [] tp colonp curtok saw_xdigit val = Some (tp, colonp, saw_xdigit, val)"
| "pton6_loop (ch # src) tp colonp curtok saw_xdigit val =
     (if ISXDIGIT ch then
        (if saw_xdigit + 1 > 4 then None
         else pton6_loop src tp colonp curtok (saw_xdigit + 1) (val * 16 + curlx_hexval ch))
      else if ch = CHR '':'' then
        (if saw_xdigit = 0 then
           (if colonp \<noteq> None then None else pton6_loop src tp (Some (length tp)) src 0 val)
         else if length tp + 2 > IN6ADDRSZ then None
         else pton6_loop src (tp @ word_bytes val) colonp src 0 0)
      else if ch = CHR ''.'' \<and> length tp + 4 \<le> IN6ADDRSZ then
        (case inet_pton4 curtok of
           None \<Rightarrow> None
         | Some v4 \<Rightarrow> Some (tp @ v4, colonp, 0, val))
      else None)"

definition pton6_finish :: "nat list \<times> nat option \<times> nat \<times> nat \<Rightarrow> nat list option" where
  "pton6_finish r =
     (case r of (tp, colonp, saw_xdigit, val) \<Rightarrow>
        if saw_xdigit \<noteq> 0 \<and> length tp + 2 > IN6ADDRSZ then None
        else
          let tp = (if saw_xdigit \<noteq> 0 then tp @ word_bytes val else tp) in
          case colonp of
            Some c \<Rightarrow>
              if length tp = IN6ADDRSZ then None
              else Some (take c tp @ replicate (IN6ADDRSZ - length tp) 0 @ drop c tp)
          | None \<Rightarrow> if length tp \<noteq> IN6ADDRSZ then None else Some tp)"

definition inet_pton6 :: "bytes \<Rightarrow> nat list option" where
  "inet_pton6 s =
     (let src = cstr s in
      if peek src = CHR '':'' \<and> peek (tl src) \<noteq> CHR '':'' then None
      else
        let src = (if peek src = CHR '':'' then tl src else src) in
        case pton6_loop src [] None src 0 0 of None \<Rightarrow> None | Some r \<Rightarrow> pton6_finish r)"

datatype family = AF_INET | AF_INET6 | AF_OTHER int

definition curlx_inet_pton :: "family \<Rightarrow> bytes \<Rightarrow> int \<times> nat list" where
  "curlx_inet_pton af src =
     (case af of
        AF_INET \<Rightarrow> (case inet_pton4 src of None \<Rightarrow> (0, []) | Some a \<Rightarrow> (1, a))
      | AF_INET6 \<Rightarrow> (case inet_pton6 src of None \<Rightarrow> (0, []) | Some a \<Rightarrow> (1, a))
      | AF_OTHER _ \<Rightarrow> (-1, []))"

section \<open>To text\<close>

text \<open>The result is the text stored in \<open>dst\<close>, with its terminator within \<open>size\<close> bytes.\<close>

definition dotted :: "nat list \<Rightarrow> bytes" where
  "dotted a = show_nat (a ! 0) @ ''.'' @ show_nat (a ! 1) @ ''.'' @ show_nat (a ! 2) @ ''.'' @ show_nat (a ! 3)"

definition inet_ntop4 :: "nat list \<Rightarrow> nat \<Rightarrow> CURLcode \<times> bytes" where
  "inet_ntop4 src n =
     (let tmp = take 15 (dotted src) in
      if tmp = [] \<or> length tmp \<ge> n then (CURLE_TOO_LARGE, []) else (CURLE_OK, tmp))"

fun words6 :: "nat list \<Rightarrow> nat list" where
  "words6 (hi # lo # src) = (hi * 256 + lo) # words6 src"
| "words6 _ = []"

text \<open>A run of zero words: its base and its length; \<open>None\<close> is the base -1.\<close>

type_synonym zrun = "(nat \<times> nat) option"

definition longer :: "zrun \<Rightarrow> zrun \<Rightarrow> zrun" where
  "longer best cur =
     (case cur of
        None \<Rightarrow> best
      | Some (b, l) \<Rightarrow> (case best of None \<Rightarrow> cur | Some (b', l') \<Rightarrow> if l > l' then cur else best))"

fun best_loop :: "nat list \<Rightarrow> nat \<Rightarrow> zrun \<Rightarrow> zrun \<Rightarrow> zrun" where
  "best_loop [] i best cur = longer best cur"
| "best_loop (w # ws) i best cur =
     (if w = 0 then best_loop ws (i + 1) best (case cur of None \<Rightarrow> Some (i, 1) | Some (b, l) \<Rightarrow> Some (b, l + 1))
      else best_loop ws (i + 1) (longer best cur) None)"

definition best_run :: "nat list \<Rightarrow> zrun" where
  "best_run ws = (case best_loop ws 0 None None of Some (b, l) \<Rightarrow> if l < 2 then None else Some (b, l) | None \<Rightarrow> None)"

definition ldigits :: bytes where "ldigits = ''0123456789abcdef''"

definition hexword :: "nat \<Rightarrow> bytes" where
  "hexword w =
     (if w div 0x1000 \<noteq> 0 then [ldigits ! (w div 0x1000)] else []) @
     (if w div 0x100 \<noteq> 0 then [ldigits ! (w div 0x100 mod 16)] else []) @
     (if w div 0x10 \<noteq> 0 then [ldigits ! (w div 0x10 mod 16)] else []) @ [ldigits ! (w mod 16)]"

definition in_run :: "zrun \<Rightarrow> nat \<Rightarrow> bool" where
  "in_run best i \<longleftrightarrow> (case best of None \<Rightarrow> False | Some (b, l) \<Rightarrow> b \<le> i \<and> i < b + l)"

definition encapsulated :: "zrun \<Rightarrow> nat list \<Rightarrow> bool" where
  "encapsulated best ws \<longleftrightarrow> (case best of None \<Rightarrow> False | Some (b, l) \<Rightarrow> b = 0 \<and> (l = 6 \<or> l = 5 \<and> ws ! 5 = 0xffff))"

text \<open>The formatting loop over the words from \<open>i\<close> on; \<open>tmp\<close> has room for 46 bytes.\<close>

fun ntop6_loop :: "nat list \<Rightarrow> nat list \<Rightarrow> zrun \<Rightarrow> nat \<Rightarrow> nat list \<Rightarrow> bytes \<Rightarrow> CURLcode \<times> bytes" where
  "ntop6_loop src ws best i [] tp = (CURLE_OK, tp)"
| "ntop6_loop src ws best i (w # rest) tp =
     (if in_run best i then
        ntop6_loop src ws best (i + 1) rest (if best = Some (i, the (map_option snd best)) then tp @ '':'' else tp)
      else
        let tp = (if i \<noteq> 0 then tp @ '':'' else tp) in
        if i = 6 \<and> encapsulated best ws then
          (case inet_ntop4 (drop 12 src) (46 - length tp) of (result, v4) \<Rightarrow> (result, tp @ v4))
        else ntop6_loop src ws best (i + 1) rest (tp @ hexword w))"

definition inet_ntop6 :: "nat list \<Rightarrow> nat \<Rightarrow> CURLcode \<times> bytes" where
  "inet_ntop6 src n =
     (let ws = words6 src; best = best_run ws in
      case ntop6_loop src ws best 0 ws [] of (result, tp) \<Rightarrow>
        if result \<noteq> CURLE_OK then (result, [])
        else
          let tp = (case best of Some (b, l) \<Rightarrow> if b + l = 8 then tp @ '':'' else tp | None \<Rightarrow> tp) in
          if length tp \<ge> n then (CURLE_TOO_LARGE, []) else (CURLE_OK, tp))"

definition curlx_inet_ntop :: "family \<Rightarrow> nat list \<Rightarrow> nat \<Rightarrow> CURLcode \<times> bytes" where
  "curlx_inet_ntop af src n =
     (case af of
        AF_INET \<Rightarrow> inet_ntop4 src n
      | AF_INET6 \<Rightarrow> inet_ntop6 src n
      | AF_OTHER _ \<Rightarrow> (CURLE_UNSUPPORTED_PROTOCOL, []))"


section \<open>Dotted quads\<close>

fun dots :: "nat list \<Rightarrow> bytes" where
  "dots [] = []"
| "dots [x] = show_nat x"
| "dots (x # y # xs) = show_nat x @ CHR ''.'' # dots (y # xs)"

lemma dotted_dots: "length a = 4 \<Longrightarrow> dotted a = dots a"
  by (auto simp: dotted_def length_Suc_conv numeral_eq_Suc)

lemma digit_char: "isdigit c \<Longrightarrow> show_nat (nat (digit_val c)) = [c]"
proof -
  assume c: "isdigit c"
  then have "nat (digit_val c) = byte_val c - 48" "48 \<le> byte_val c" "byte_val c - 48 < 10"
    by (auto simp: isdigit_def digit_val_def)
  then show ?thesis by (simp add: show_nat.simps del: char_of_nat)
qed

lemma show_nat_snoc: "isdigit c \<Longrightarrow> n \<noteq> 0 \<Longrightarrow> show_nat (n * 10 + nat (digit_val c)) = show_nat n @ [c]"
proof -
  assume c: "isdigit c" and n: "n \<noteq> 0"
  have d: "nat (digit_val c) < 10" using digit_val_range[OF c] by linarith
  then have "show_nat (n * 10 + nat (digit_val c)) = show_nat n @ [char_of (48 + nat (digit_val c))]"
    using n by (subst show_nat.simps) simp
  moreover have "[char_of (48 + nat (digit_val c))] = [c]" using digit_char[OF c] d by (simp add: show_nat.simps)
  ultimately show ?thesis by simp
qed

lemma pton4_show_nat:
  "pton4_loop (show_nat n @ rest) tmp 0 False k = (if n \<le> 255 \<and> k < 4 then pton4_loop rest tmp n True (k + 1) else None)"
proof (induction n arbitrary: rest rule: show_nat.induct)
  case (1 n)
  show ?case
  proof (cases "n < 10")
    case True
    then show ?thesis by (subst show_nat.simps) (simp del: char_of_nat)
  next
    case False
    have "n div 10 * 10 + n mod 10 = n" by simp
    with False 1 show ?thesis by (subst show_nat.simps) (auto simp del: char_of_nat)
  qed
qed

lemma not_digit_dot [simp]: "\<not> isdigit (CHR ''.'')"
  by (simp add: isdigit_def byte_val_def)

lemma pton4_dots:
  "xs \<noteq> [] \<Longrightarrow> \<forall>x\<in>set xs. x \<le> 255 \<Longrightarrow> k + length xs = 4 \<Longrightarrow> pton4_loop (dots xs) tmp 0 False k = Some (tmp @ xs)"
proof (induction xs arbitrary: tmp k rule: dots.induct)
  case (2 x)
  then show ?case using pton4_show_nat[of x "[]"] by simp
next
  case (3 x y xs)
  then show ?case using pton4_show_nat[of x "CHR ''.'' # dots (y # xs)"] by simp
qed simp

text \<open>An accepted text spells the octets it gives, those begun and those to come.\<close>

lemma pton4_loop_sound:
  assumes "pton4_loop s tmp cur saw k = Some a" "cur \<le> 255" "k \<le> 4" "length tmp = (if saw then k - 1 else k)"
    "saw \<longrightarrow> 0 < k" "\<not> saw \<longrightarrow> cur = 0 \<and> k < 4"
  shows "length a = 4 \<and> take (length tmp) a = tmp \<and> (\<forall>x\<in>set (drop (length tmp) a). x \<le> 255) \<and>
    dots (drop (length tmp) a) = (if saw then show_nat cur else []) @ s"
  using assms
proof (induction s tmp cur saw k rule: pton4_loop.induct)
  case (1 tmp cur saw k)
  then have "saw" "k = 4" "a = tmp @ [cur]" by (auto split: if_splits)
  with 1 show ?case by simp
next
  case (2 ch src tmp cur saw k)
  show ?case
  proof (cases "isdigit ch")
    case True
    define val where "val = cur * 10 + nat (digit_val ch)"
    show ?thesis
    proof (cases saw)
      case s: True
      with True "2.prems" have v: "cur \<noteq> 0" "val \<le> 255" and "pton4_loop src tmp val True k = Some a"
        by (auto simp: val_def Let_def split: if_splits)
      with "2.IH"(2)[OF True val_def] s True "2.prems" have "length a = 4 \<and> take (length tmp) a = tmp \<and> (\<forall>x\<in>set (drop (length tmp) a). x \<le> 255) \<and>
          dots (drop (length tmp) a) = show_nat val @ src" by simp
      with s v(1) show ?thesis using show_nat_snoc[OF True v(1)] by (simp add: val_def)
    next
      case False
      with True "2.prems" have v: "cur = 0" "val \<le> 255" "k < 4" and "pton4_loop src tmp val True (k + 1) = Some a"
        by (auto simp: val_def Let_def split: if_splits)
      with "2.IH"(1)[OF True val_def] False True "2.prems" have "length a = 4 \<and> take (length tmp) a = tmp \<and> (\<forall>x\<in>set (drop (length tmp) a). x \<le> 255) \<and>
          dots (drop (length tmp) a) = show_nat val @ src" by simp
      with False v(1) show ?thesis using digit_char[OF True] by (simp add: val_def)
    qed
  next
    case False
    with "2.prems" have d: "ch = CHR ''.''" "saw" "k \<noteq> 4" "pton4_loop src (tmp @ [cur]) 0 False k = Some a" by (auto split: if_splits)
    with "2.IH"(3)[OF False] "2.prems" have r: "length a = 4" "take (Suc (length tmp)) a = tmp @ [cur]"
        "\<forall>x\<in>set (drop (Suc (length tmp)) a). x \<le> 255" "dots (drop (Suc (length tmp)) a) = src" by auto
    have l: "Suc (length tmp) < 4" using d(2,3) "2.prems"(3,4,5) by simp
    obtain y ys where y: "drop (Suc (length tmp)) a = y # ys" using l r(1) by (cases "drop (Suc (length tmp)) a") auto
    have "a = tmp @ [cur] @ drop (Suc (length tmp)) a" using r(2) append_take_drop_id[of "Suc (length tmp)" a] by simp
    then obtain zs where a: "a = tmp @ cur # zs" "zs = drop (Suc (length tmp)) a" by auto
    have "drop (length tmp) a = cur # drop (Suc (length tmp)) a" "take (length tmp) a = tmp"
      using a(1) by (simp_all add: a(2)[symmetric])
    then show ?thesis using r d(1,2) y "2.prems"(2) by simp
  qed
qed


lemma dots_NUL: "NUL \<notin> set (dots xs)"
proof -
  have "NUL \<notin> set (show_nat n)" for n by (rule show_nat_notin) (simp add: isdigit_def byte_val_def)
  then show ?thesis by (induction xs rule: dots.induct) auto
qed

lemma inet_pton4_dots: "length a = 4 \<Longrightarrow> \<forall>x\<in>set a. x \<le> 255 \<Longrightarrow> inet_pton4 (dots a) = Some a"
  using pton4_dots[of a 0 "[]"] by (cases "a = []") (auto simp: inet_pton4_def dots_NUL)

lemma inet_pton4_iff: "inet_pton4 s = Some a \<longleftrightarrow> length a = 4 \<and> (\<forall>x\<in>set a. x \<le> 255) \<and> cstr s = dots a"
proof
  assume "inet_pton4 s = Some a"
  then show "length a = 4 \<and> (\<forall>x\<in>set a. x \<le> 255) \<and> cstr s = dots a"
    using pton4_loop_sound[of "cstr s" "[]" 0 False 0 a] by (simp add: inet_pton4_def)
next
  assume a: "length a = 4 \<and> (\<forall>x\<in>set a. x \<le> 255) \<and> cstr s = dots a"
  then show "inet_pton4 s = Some a" using inet_pton4_dots[of a] by (simp add: inet_pton4_def dots_NUL)
qed

lemma length_dots: "\<forall>x\<in>set xs. x \<le> 255 \<Longrightarrow> length (dots xs) \<le> 4 * length xs - 1"
proof (induction xs rule: dots.induct)
  case (2 x)
  then show ?case using length_show_nat_le[of x 3] by simp
next
  case (3 x y xs)
  then show ?case using length_show_nat_le[of x 3] by simp
qed simp

lemma dots_nonempty: "xs \<noteq> [] \<Longrightarrow> dots xs \<noteq> []"
  by (cases xs rule: dots.cases) auto

lemma inet_ntop4_dots:
  assumes "length a = 4" "\<forall>x\<in>set a. x \<le> 255"
  shows "inet_ntop4 a n = (if length (dots a) \<ge> n then (CURLE_TOO_LARGE, []) else (CURLE_OK, dots a))"
proof -
  have "length (dots a) \<le> 15" using length_dots[OF assms(2)] assms(1) by simp
  moreover have "dots a \<noteq> []" using assms(1) by (auto intro!: dots_nonempty)
  ultimately show ?thesis by (simp add: inet_ntop4_def dotted_dots[OF assms(1)] Let_def)
qed

section \<open>Groups of hexadecimal digits\<close>

fun colons :: "nat list \<Rightarrow> bytes" where
  "colons [] = []"
| "colons (w # ws) = CHR '':'' # hexword w @ colons ws"

definition groups :: "nat list \<Rightarrow> bytes" where
  "groups ws = (case ws of [] \<Rightarrow> [] | w # ws \<Rightarrow> hexword w @ colons ws)"

definition bytes6 :: "nat list \<Rightarrow> nat list" where
  "bytes6 ws = concat (map word_bytes ws)"

lemma bytes6_simps [simp]:
  "bytes6 [] = []" "bytes6 (w # ws) = word_bytes w @ bytes6 ws" "bytes6 (us @ ws) = bytes6 us @ bytes6 ws"
  by (simp_all add: bytes6_def)

lemma length_bytes6 [simp]: "length (bytes6 ws) = 2 * length ws"
  by (induction ws) (simp_all add: word_bytes_def)

lemma bytes6_zeros: "bytes6 (replicate n 0) = replicate (2 * n) 0"
  by (induction n) (simp_all add: word_bytes_def)

lemma bytes6_words6: "even (length a) \<Longrightarrow> \<forall>x\<in>set a. x < 256 \<Longrightarrow> bytes6 (words6 a) = a"
  by (induction a rule: words6.induct) (auto simp: word_bytes_def)

lemma words6_range: "\<forall>x\<in>set a. x < 256 \<Longrightarrow> \<forall>w\<in>set (words6 a). w < 65536"
  by (induction a rule: words6.induct) auto

lemma length_words6: "length (words6 a) = length a div 2"
  by (induction a rule: words6.induct) auto

lemma ldigits_hex: "d < 16 \<Longrightarrow> ISXDIGIT (ldigits ! d) \<and> curlx_hexval (ldigits ! d) = d \<and> ldigits ! d \<noteq> NUL"
proof -
  assume d: "d < 16"
  have "list_all (\<lambda>d. ISXDIGIT (ldigits ! d) \<and> curlx_hexval (ldigits ! d) = d \<and> ldigits ! d \<noteq> NUL) [0..<16]" by code_simp
  with d show ?thesis by (simp add: list_all_iff)
qed

text \<open>The digits of a word without its leading zeros: one to four, and the same value.\<close>

lemma hexword_digits:
  assumes "w < 65536"
  obtains ds where "hexword w = map ((!) ldigits) ds" "ds \<noteq> []" "length ds \<le> 4" "\<forall>d\<in>set ds. d < 16"
    "foldl (\<lambda>v d. v * 16 + d) 0 ds = w"
proof -
  let ?ds = "(if w div 4096 \<noteq> 0 then [w div 4096] else []) @ (if w div 256 \<noteq> 0 then [w div 256 mod 16] else []) @
    (if w div 16 \<noteq> 0 then [w div 16 mod 16] else []) @ [w mod 16]"
  have "w div 4096 < 16" using assms by auto
  then have "\<forall>d\<in>set ?ds. d < 16" by auto
  moreover have "foldl (\<lambda>v d. v * 16 + d) 0 ?ds = w"
  proof -
    have "w div 4096 = w div 256 div 16" "w div 256 = w div 16 div 16" by (simp_all add: div_mult2_eq[symmetric])
    then have "w div 4096 * 16 + w div 256 mod 16 = w div 256" "w div 256 * 16 + w div 16 mod 16 = w div 16"
      "w div 16 * 16 + w mod 16 = w" by presburger+
    then show ?thesis by (cases "w div 4096 = 0"; cases "w div 256 = 0"; cases "w div 16 = 0") simp_all
  qed
  moreover have "hexword w = map ((!) ldigits) ?ds" by (simp add: hexword_def)
  moreover have "?ds \<noteq> []" "length ?ds \<le> 4" by simp_all
  ultimately show ?thesis using that by blast
qed

lemma pton6_digits:
  "\<forall>d\<in>set ds. d < 16 \<Longrightarrow> n + length ds \<le> 4 \<Longrightarrow>
   pton6_loop (map ((!) ldigits) ds @ rest) tp cp ct n v =
   pton6_loop rest tp cp ct (n + length ds) (foldl (\<lambda>v d. v * 16 + d) v ds)"
  by (induction ds arbitrary: n v) (auto simp: ldigits_hex)

lemma pton6_hexword:
  assumes "w < 65536"
  obtains k where "0 < k" "\<And>rest tp cp ct. pton6_loop (hexword w @ rest) tp cp ct 0 0 = pton6_loop rest tp cp ct k w"
proof -
  from hexword_digits[OF assms] obtain ds where "hexword w = map ((!) ldigits) ds" "ds \<noteq> []" "length ds \<le> 4"
    "\<forall>d\<in>set ds. d < 16" "foldl (\<lambda>v d. v * 16 + d) 0 ds = w" .
  then show ?thesis by (intro that[of "length ds"]) (auto simp: pton6_digits)
qed

lemma not_xdigit_colon [simp]: "\<not> ISXDIGIT (CHR '':'')" "\<not> ISXDIGIT (CHR ''.'')"
  by (simp_all add: ISXDIGIT_def isdigit_def byte_val_def)

lemma pton6_colons:
  assumes "\<forall>w\<in>set ws. w < 65536" "0 < k" "length tp + 2 * length ws \<le> 16"
  shows "\<exists>k' ct'. 0 < k' \<and> pton6_loop (colons ws @ rest) tp cp ct k v =
    pton6_loop rest (tp @ bytes6 (butlast (v # ws))) cp ct' k' (last (v # ws))"
  using assms
proof (induction ws arbitrary: tp ct k v)
  case Nil
  then show ?case by auto
next
  case (Cons w ws)
  obtain j where j: "0 < j" "\<And>rest tp cp ct. pton6_loop (hexword w @ rest) tp cp ct 0 0 = pton6_loop rest tp cp ct j w"
    using pton6_hexword[of w] Cons.prems(1) by auto
  have "pton6_loop (colons (w # ws) @ rest) tp cp ct k v =
      pton6_loop (colons ws @ rest) (tp @ word_bytes v) cp (hexword w @ colons ws @ rest) j w"
    using Cons.prems(2,3) by (simp add: j(2) IN6ADDRSZ_def)
  moreover have "length (tp @ word_bytes v) + 2 * length ws \<le> 16" using Cons.prems(3) by (simp add: word_bytes_def)
  moreover have "\<forall>w\<in>set ws. w < 65536" using Cons.prems(1) by simp
  ultimately show ?case using Cons.IH[of j "tp @ word_bytes v" "hexword w @ colons ws @ rest" w] j(1) by auto
qed

lemma hexword_chars:
  assumes "w < 65536"
  shows "hexword w \<noteq> [] \<and> length (hexword w) \<le> 4 \<and> (\<forall>c\<in>set (hexword w). ISXDIGIT c \<and> c \<noteq> NUL)"
proof -
  from hexword_digits[OF assms] obtain ds where "hexword w = map ((!) ldigits) ds" "ds \<noteq> []" "length ds \<le> 4"
    "\<forall>d\<in>set ds. d < 16" .
  then show ?thesis by (auto simp: ldigits_hex)
qed

lemma colons_chars: "\<forall>w\<in>set ws. w < 65536 \<Longrightarrow> NUL \<notin> set (colons ws) \<and> length (colons ws) \<le> 5 * length ws"
proof (induction ws)
  case (Cons w ws)
  then show ?case using hexword_chars[of w] by auto
qed simp

lemma groups_chars:
  assumes "\<forall>w\<in>set ws. w < 65536"
  shows "NUL \<notin> set (groups ws)" "length (groups ws) \<le> 5 * length ws - 1" "ws \<noteq> [] \<Longrightarrow> \<exists>c cs. groups ws = c # cs \<and> ISXDIGIT c"
proof -
  show "NUL \<notin> set (groups ws)" "length (groups ws) \<le> 5 * length ws - 1"
    using assms hexword_chars[of "hd ws"] colons_chars[of "tl ws"] by (auto simp: groups_def split: list.splits)
  show "\<exists>c cs. groups ws = c # cs \<and> ISXDIGIT c" if "ws \<noteq> []"
    using that assms hexword_chars[of "hd ws"] by (cases ws; cases "hexword (hd ws)") (auto simp: groups_def)
qed

section \<open>The zero run\<close>

definition zero_run :: "nat list \<Rightarrow> zrun \<Rightarrow> bool" where
  "zero_run ws r \<longleftrightarrow> (case r of None \<Rightarrow> True | Some (b, l) \<Rightarrow> 0 < l \<and> b + l \<le> length ws \<and> (\<forall>i. b \<le> i \<longrightarrow> i < b + l \<longrightarrow> ws ! i = 0))"

lemma zero_run_longer: "zero_run ws a \<Longrightarrow> zero_run ws b \<Longrightarrow> zero_run ws (longer a b)"
  by (auto simp: longer_def split: option.splits)

lemma best_loop_zero:
  "zero_run (pre @ ws) best \<Longrightarrow> zero_run (pre @ ws) cur \<Longrightarrow> (\<And>b l. cur = Some (b, l) \<Longrightarrow> b + l = length pre) \<Longrightarrow>
   zero_run (pre @ ws) (best_loop ws (length pre) best cur)"
proof (induction ws arbitrary: pre best cur)
  case Nil
  then show ?case by (simp add: zero_run_longer)
next
  case (Cons w ws)
  show ?case
  proof (cases "w = 0")
    case True
    let ?cur = "case cur of None \<Rightarrow> Some (length pre, 1) | Some (b, l) \<Rightarrow> Some (b, l + 1)"
    have "zero_run (pre @ w # ws) ?cur"
      using True Cons.prems(2,3) by (auto simp: zero_run_def nth_append less_Suc_eq split: option.splits)
    with Cons.IH[of "pre @ [w]" best ?cur] True Cons.prems show ?thesis by (auto split: option.splits)
  next
    case False
    with Cons.IH[of "pre @ [w]" "longer best cur" None] Cons.prems show ?thesis
      by (simp add: zero_run_longer) (simp add: zero_run_def)
  qed
qed

lemma best_run_zero:
  assumes "best_run ws = Some (b, l)"
  shows "2 \<le> l" "b + l \<le> length ws" "ws = take b ws @ replicate l 0 @ drop (b + l) ws"
proof -
  have z: "zero_run ws (best_loop ws 0 None None)" using best_loop_zero[of "[]" ws None None] by (simp add: zero_run_def)
  with assms show l: "2 \<le> l" "b + l \<le> length ws" by (auto simp: best_run_def zero_run_def split: option.splits if_splits)
  have "take l (drop b ws) = replicate l 0"
    using assms z l(2) by (intro nth_equalityI) (auto simp: best_run_def zero_run_def split: option.splits if_splits)
  then show "ws = take b ws @ replicate l 0 @ drop (b + l) ws"
    by (metis append_take_drop_id drop_drop add.commute)
qed

section \<open>The formatting loop\<close>

lemma ntop6_run:
  "(\<And>j. i \<le> j \<Longrightarrow> j < i + length xs \<Longrightarrow> b < j \<and> j < b + l) \<Longrightarrow>
   ntop6_loop src ws (Some (b, l)) i (xs @ ys) tp = ntop6_loop src ws (Some (b, l)) (i + length xs) ys tp"
proof (induction xs arbitrary: i)
  case (Cons x xs)
  then have "b < i \<and> i < b + l" by simp
  with Cons.IH[of "Suc i"] Cons.prems show ?case by (simp add: in_run_def)
qed simp

lemma ntop6_whole_run:
  assumes "0 < l"
  shows "ntop6_loop src ws (Some (b, l)) b (replicate l 0 @ ys) tp = ntop6_loop src ws (Some (b, l)) (b + l) ys (tp @ '':'')"
proof -
  obtain k where l: "l = Suc k" using assms by (cases l) auto
  have "ntop6_loop src ws (Some (b, l)) b (replicate l 0 @ ys) tp = ntop6_loop src ws (Some (b, l)) (Suc b) (replicate k 0 @ ys) (tp @ '':'')"
    by (simp add: l in_run_def)
  also have "\<dots> = ntop6_loop src ws (Some (b, l)) (Suc b + length (replicate k (0::nat))) ys (tp @ '':'')"
    by (rule ntop6_run) (simp add: l)
  finally show ?thesis by (simp add: l)
qed

lemma ntop6_colons:
  "0 < i \<Longrightarrow> (\<And>j. i \<le> j \<Longrightarrow> j < i + length xs \<Longrightarrow> \<not> in_run best j \<and> \<not> (j = 6 \<and> encapsulated best ws)) \<Longrightarrow>
   ntop6_loop src ws best i (xs @ ys) tp = ntop6_loop src ws best (i + length xs) ys (tp @ colons xs)"
proof (induction xs arbitrary: i tp)
  case (Cons x xs)
  have "\<not> in_run best i \<and> \<not> (i = 6 \<and> encapsulated best ws)" using Cons.prems(2)[of i] by simp
  with Cons.IH[of "Suc i"] Cons.prems show ?case by (cases "i = 6") (simp_all add: Let_def)
qed simp

lemma ntop6_groups:
  assumes "\<And>j. j < length xs \<Longrightarrow> \<not> in_run best j \<and> \<not> (j = 6 \<and> encapsulated best ws)"
  shows "ntop6_loop src ws best 0 (xs @ ys) [] = ntop6_loop src ws best (length xs) ys (groups xs)"
proof (cases xs)
  case (Cons x xs')
  then have "\<not> in_run best 0" using assms[of 0] by simp
  with Cons ntop6_colons[of 1 xs' best ws src ys "hexword x"] assms show ?thesis by (simp add: groups_def)
qed (simp add: groups_def)

section \<open>Reading the text back\<close>

definition after_run :: "nat list \<Rightarrow> bytes" where
  "after_run ws = (if ws = [] then '':'' else colons ws)"

lemma pton6_groups_end:
  assumes "ws \<noteq> []" "\<forall>w\<in>set ws. w < 65536" "length tp + 2 * length ws \<le> 16"
  shows "\<exists>k ct'. 0 < k \<and> pton6_loop (groups ws @ rest) tp cp ct 0 0 = pton6_loop rest (tp @ bytes6 (butlast ws)) cp ct' k (last ws)"
proof -
  have "hd ws < 65536" using assms(1,2) by simp
  from pton6_hexword[OF this] obtain k where k: "0 < k"
    "\<And>rest. pton6_loop (hexword (hd ws) @ rest) tp cp ct 0 0 = pton6_loop rest tp cp ct k (hd ws)" by metis
  have "hd ws # tl ws = ws" "\<forall>w\<in>set (tl ws). w < 65536" using assms(1,2) by (simp_all add: list.set_sel(2))
  moreover have "groups ws = hexword (hd ws) @ colons (tl ws)" using assms(1) by (cases ws) (simp_all add: groups_def)
  ultimately show ?thesis using pton6_colons[of "tl ws" k tp rest cp ct "hd ws"] k assms(3) by auto
qed

lemma bytes6_butlast: "ws \<noteq> [] \<Longrightarrow> bytes6 (butlast ws) @ word_bytes (last ws) = bytes6 ws"
  using bytes6_simps(3)[of "butlast ws" "[last ws]"] by simp

definition pton6_end :: "bytes \<Rightarrow> nat list \<Rightarrow> nat option \<Rightarrow> bytes \<Rightarrow> nat \<Rightarrow> nat \<Rightarrow> nat list option" where
  "pton6_end s tp cp ct k v = (case pton6_loop s tp cp ct k v of None \<Rightarrow> None | Some r \<Rightarrow> pton6_finish r)"

lemma pton6_whole:
  assumes "length ws = 8" "\<forall>w\<in>set ws. w < 65536"
  shows "pton6_end (groups ws) [] None ct 0 0 = Some (bytes6 ws)"
proof -
  have w: "ws \<noteq> []" using assms(1) by auto
  obtain k where k: "0 < k" "pton6_loop (groups ws) [] None ct 0 0 = Some (bytes6 (butlast ws), None, k, last ws)"
    using pton6_groups_end[OF w assms(2), of "[]" "[]"] assms(1) by auto
  then show ?thesis using assms(1) bytes6_butlast[OF w] by (simp add: pton6_end_def pton6_finish_def IN6ADDRSZ_def word_bytes_def)
qed

lemma pton6_after_run:
  assumes "length tp + 2 * length ws < 16" "\<forall>w\<in>set ws. w < 65536"
  shows "pton6_end (after_run ws) tp None ct 0 0 = Some (tp @ replicate (16 - (length tp + 2 * length ws)) 0 @ bytes6 ws)"
proof (cases "ws = []")
  case True
  then show ?thesis using assms by (simp add: pton6_end_def after_run_def pton6_finish_def IN6ADDRSZ_def)
next
  case False
  then have "after_run ws = CHR '':'' # groups ws" by (cases ws) (simp_all add: after_run_def groups_def)
  moreover obtain k where "0 < k"
    "pton6_loop (groups ws) tp (Some (length tp)) (groups ws) 0 0 = Some (tp @ bytes6 (butlast ws), Some (length tp), k, last ws)"
    using pton6_groups_end[OF False assms(2), of tp "[]"] assms(1) by auto
  moreover have "length (tp @ bytes6 (butlast ws)) + 2 = length tp + 2 * length ws" using False by (cases ws rule: rev_cases) simp_all
  ultimately show ?thesis using assms(1) bytes6_butlast[OF False]
    by (simp add: pton6_end_def pton6_finish_def IN6ADDRSZ_def word_bytes_def Let_def)
qed

lemma pton6_decimal:
  "\<forall>c\<in>set ds. isdigit c \<Longrightarrow> k + length ds \<le> 4 \<Longrightarrow>
   \<exists>v'. pton6_loop (ds @ rest) tp cp ct k v = pton6_loop rest tp cp ct (k + length ds) v'"
proof (induction ds arbitrary: k v)
  case (Cons d ds)
  then have "ISXDIGIT d" by (simp add: ISXDIGIT_def)
  with Cons.IH[of "Suc k" "v * 16 + curlx_hexval d"] Cons.prems show ?case by simp
qed auto

lemma pton6_dots:
  assumes "length q = 4" "\<forall>x\<in>set q. x \<le> 255" "length tp + 4 \<le> 16"
  shows "\<exists>v. pton6_loop (dots q) tp cp (dots q) 0 0 = Some (tp @ q, cp, 0, v)"
proof -
  obtain x y ys where q: "q = x # y # ys" using assms(1) by (auto simp: length_Suc_conv numeral_eq_Suc)
  have "length (show_nat x) \<le> 3" using length_show_nat_le[of x 3] assms(2) q by simp
  then obtain v where "pton6_loop (show_nat x @ CHR ''.'' # dots (y # ys)) tp cp (dots q) 0 0 =
      pton6_loop (CHR ''.'' # dots (y # ys)) tp cp (dots q) (length (show_nat x)) v"
    using pton6_decimal[OF show_nat_digits, of 0 x "CHR ''.'' # dots (y # ys)" tp cp "dots q" 0] by auto
  moreover have "inet_pton4 (dots q) = Some q" using inet_pton4_dots assms by simp
  ultimately show ?thesis using assms(3) q by (simp add: IN6ADDRSZ_def)
qed

lemma inet_pton6_colon:
  "NUL \<notin> set s \<Longrightarrow> inet_pton6 (CHR '':'' # CHR '':'' # s) = pton6_end (CHR '':'' # s) [] None (CHR '':'' # s) 0 0"
  by (simp add: inet_pton6_def pton6_end_def peek_def Let_def)

lemma inet_pton6_digit:
  "NUL \<notin> set s \<Longrightarrow> s = c # cs \<Longrightarrow> ISXDIGIT c \<Longrightarrow> inet_pton6 s = pton6_end s [] None s 0 0"
  by (auto simp: inet_pton6_def pton6_end_def peek_def Let_def)

lemma pton6_mapped:
  assumes "length q = 4" "\<forall>x\<in>set q. x \<le> 255"
  shows "inet_pton6 (''::'' @ dots q) = Some (replicate 12 0 @ q)"
    "inet_pton6 (''::ffff:'' @ dots q) = Some (replicate 10 0 @ [255, 255] @ q)"
proof -
  obtain v v' where v: "pton6_loop (dots q) [] (Some 0) (dots q) 0 0 = Some ([] @ q, Some 0, 0, v)"
    "pton6_loop (dots q) [255, 255] (Some 0) (dots q) 0 0 = Some ([255, 255] @ q, Some 0, 0, v')"
    using pton6_dots[OF assms, of "[]" "Some 0"] pton6_dots[OF assms, of "[255, 255]" "Some 0"] by auto
  have f: "ISXDIGIT (CHR ''f'')" "curlx_hexval (CHR ''f'') = 15" by code_simp+
  show "inet_pton6 (''::'' @ dots q) = Some (replicate 12 0 @ q)"
    using v(1) assms(1) by (simp add: inet_pton6_colon dots_NUL pton6_end_def pton6_finish_def IN6ADDRSZ_def)
  show "inet_pton6 (''::ffff:'' @ dots q) = Some (replicate 10 0 @ [255, 255] @ q)"
    using v(2) assms(1)
    by (simp add: inet_pton6_colon dots_NUL pton6_end_def pton6_finish_def IN6ADDRSZ_def f word_bytes_def)
qed

lemma pton6_with_run:
  assumes "\<forall>w\<in>set (us @ ws). w < 65536" "length us + l + length ws = 8" "2 \<le> l"
  shows "inet_pton6 (groups us @ '':'' @ after_run ws) = Some (bytes6 (us @ replicate l 0 @ ws))"
proof -
  have w: "\<forall>w\<in>set us. w < 65536" "\<forall>w\<in>set ws. w < 65536" using assms(1) by auto
  have zeros: "bytes6 (us @ replicate l 0 @ ws) = bytes6 us @ replicate (16 - (length (bytes6 us) + 2 * length ws)) 0 @ bytes6 ws"
    using assms(2) by (auto simp: bytes6_zeros)
  have fits: "length (bytes6 us) + 2 * length ws < 16" using assms(2,3) by simp
  note tail = pton6_after_run[OF fits w(2), folded zeros]
  have nul: "NUL \<notin> set (after_run ws)" using colons_chars[OF w(2)] by (auto simp: after_run_def)
  show ?thesis
  proof (cases "us = []")
    case True
    obtain s where s: "after_run ws = CHR '':'' # s" by (cases ws) (auto simp: after_run_def)
    with True nul tail show ?thesis by (simp add: groups_def inet_pton6_colon)
  next
    case False
    let ?rest = "'':'' @ after_run ws"
    obtain c cs where c: "groups us @ ?rest = c # cs" "ISXDIGIT c" using groups_chars(3)[OF w(1) False] by auto
    obtain k ct where k: "0 < k"
      "pton6_loop (groups us @ ?rest) [] None (groups us @ ?rest) 0 0 = pton6_loop ?rest (bytes6 (butlast us)) None ct k (last us)"
      using pton6_groups_end[OF False w(1), of "[]" ?rest None "groups us @ ?rest"] assms(2) by (auto simp del: pton6_loop.simps)
    have "length (butlast us) < 8" using assms(2,3) False by simp
    then have "pton6_loop (groups us @ ?rest) [] None (groups us @ ?rest) 0 0 = pton6_loop (after_run ws) (bytes6 us) None (after_run ws) 0 0"
      using k bytes6_butlast[OF False] by (simp add: IN6ADDRSZ_def)
    with inet_pton6_digit[OF _ c] tail groups_chars(1)[OF w(1)] nul show ?thesis by (simp add: pton6_end_def)
  qed
qed

section \<open>Text of an IPv6 address\<close>

text \<open>The text that \<open>inet_ntop6\<close> assembles before it looks at the size of the caller's buffer.\<close>

definition ntop6_gives :: "nat list \<Rightarrow> bytes \<Rightarrow> bool" where
  "ntop6_gives a t \<longleftrightarrow> length t \<le> 39 \<and> NUL \<notin> set t \<and> inet_pton6 t = Some a \<and>
     (\<forall>n. inet_ntop6 a n = (if n \<le> length t then (CURLE_TOO_LARGE, []) else (CURLE_OK, t)))"

lemma ntop6_no_run:
  assumes "length ws = 8" "\<forall>w\<in>set ws. w < 65536" "words6 a = ws" "bytes6 ws = a" "best_run ws = None"
  shows "ntop6_gives a (groups ws)"
proof -
  have "ntop6_loop a ws None 0 (ws @ []) [] = (CURLE_OK, groups ws)"
    by (subst ntop6_groups) (simp_all add: in_run_def encapsulated_def)
  moreover have "inet_pton6 (groups ws) = Some a"
  proof -
    have "ws \<noteq> []" using assms(1) by auto
    then obtain c cs where "groups ws = c # cs" "ISXDIGIT c" using groups_chars(3)[OF assms(2)] by blast
    then have "inet_pton6 (groups ws) = pton6_end (groups ws) [] None (groups ws) 0 0"
      by (rule inet_pton6_digit[OF groups_chars(1)[OF assms(2)]])
    then show ?thesis by (simp only: pton6_whole[OF assms(1,2)] assms(4))
  qed
  ultimately show ?thesis using groups_chars(1,2)[OF assms(2)] assms(1,3,5) by (simp add: ntop6_gives_def inet_ntop6_def)
qed

lemma ntop6_one_run:
  assumes "length ws = 8" "\<forall>w\<in>set ws. w < 65536" "words6 a = ws" "bytes6 ws = a" "best_run ws = Some (b, l)"
    "\<not> encapsulated (Some (b, l)) ws"
  shows "ntop6_gives a (groups (take b ws) @ '':'' @ after_run (drop (b + l) ws))"
proof -
  let ?us = "take b ws" and ?vs = "drop (b + l) ws" and ?best = "Some (b, l)"
  note run = best_run_zero[OF assms(5)]
  have b: "length ?us = b" using run(1,2) by simp
  have w: "\<forall>w\<in>set (?us @ ?vs). w < 65536" using assms(2) by (auto dest: in_set_takeD in_set_dropD)
  have "ntop6_loop a ws ?best 0 (?us @ replicate l 0 @ ?vs) [] = ntop6_loop a ws ?best b (replicate l 0 @ ?vs) (groups ?us)"
    using ntop6_groups[of ?us ?best ws a "replicate l 0 @ ?vs"] b assms(6) by (simp add: in_run_def)
  also have "\<dots> = ntop6_loop a ws ?best (b + l) ?vs (groups ?us @ '':'')" using run(1) by (simp add: ntop6_whole_run)
  also have "\<dots> = (CURLE_OK, (groups ?us @ '':'') @ colons ?vs)"
    using ntop6_colons[of "b + l" ?vs ?best ws a "[]" "groups ?us @ '':''"] run(1) assms(6) by (simp add: in_run_def)
  finally have loop: "ntop6_loop a ws ?best 0 ws [] = (CURLE_OK, groups ?us @ '':'' @ colons ?vs)"
    using run(3) by simp
  have "groups ?us @ '':'' @ after_run ?vs = (groups ?us @ '':'' @ colons ?vs) @ (if b + l = 8 then '':'' else [])"
    using run(2) assms(1) by (auto simp: after_run_def)
  moreover have "length (groups ?us @ '':'' @ after_run ?vs) \<le> 39"
    using groups_chars(2)[of ?us] colons_chars[of ?vs] w b run(1,2) assms(1) by (auto simp: after_run_def)
  moreover have "NUL \<notin> set (groups ?us @ '':'' @ after_run ?vs)"
    using groups_chars(1)[of ?us] colons_chars[of ?vs] w by (auto simp: after_run_def)
  moreover have "inet_pton6 (groups ?us @ '':'' @ after_run ?vs) = Some a"
    using pton6_with_run[OF w, of l] run b assms(1,4) by simp
  ultimately show ?thesis using loop assms(3,5) by (simp add: ntop6_gives_def inet_ntop6_def Let_def)
qed

lemma ntop6_encapsulated:
  assumes "length a = 16" "\<forall>x\<in>set a. x < 256" "words6 a = ws" "best_run ws = Some (b, l)" "encapsulated (Some (b, l)) ws"
  shows "ntop6_gives a ((if l = 6 then ''::'' else ''::ffff:'') @ dots (drop 12 a))"
proof -
  let ?q = "drop 12 a" and ?best = "Some (0, l)"
  have ws: "length ws = 8" "bytes6 ws = a" using assms(1,2,3) by (auto simp: length_words6 bytes6_words6)
  have b: "b = 0" "l = 6 \<or> l = 5 \<and> ws ! 5 = 65535" using assms(5) by (auto simp: encapsulated_def)
  note run = best_run_zero[OF assms(4), unfolded b(1), simplified]
  have q: "length ?q = 4" "\<forall>x\<in>set ?q. x \<le> 255" using assms(1,2) by (auto dest!: in_set_dropD)
  have dots: "length (dots ?q) \<le> 15" using length_dots[OF q(2)] q(1) by simp
  have v4: "inet_ntop4 ?q n = (CURLE_OK, dots ?q)" if "39 \<le> n" for n using inet_ntop4_dots[OF q, of n] dots that by simp
  have e: "encapsulated ?best ws" using assms(5) b(1) by simp
  have loop: "ntop6_loop a ws ?best 0 ws [] = ntop6_loop a ws ?best l (drop l ws) '':''"
    using ntop6_whole_run[of l a ws 0 "drop l ws" "[]"] run by simp
  have six: "drop 6 ws = ws ! 6 # drop 7 ws" and five: "drop 5 ws = ws ! 5 # drop 6 ws"
    using ws(1) Cons_nth_drop_Suc[of 6 ws] Cons_nth_drop_Suc[of 5 ws] by simp_all
  consider (compat) "l = 6" | (mapped) "l = 5" "ws ! 5 = 65535" using b(2) by auto
  then show ?thesis
  proof cases
    case compat
    have "a = bytes6 (replicate 6 0 @ drop 6 ws)" using run(3) compat ws(2) by simp
    also have "\<dots> = replicate 12 0 @ bytes6 (drop 6 ws)" by (simp add: bytes6_zeros)
    finally have a: "a = replicate 12 0 @ bytes6 (drop 6 ws)" .
    then have "replicate 12 0 @ ?q = a" by (metis append_eq_conv_conj length_replicate)
    with pton6_mapped(1)[OF q] have "inet_pton6 (''::'' @ dots ?q) = Some a" by simp
    moreover have "ntop6_loop a ws ?best 0 ws [] = (CURLE_OK, ''::'' @ dots ?q)"
      using loop compat e v4[of 44] by (simp add: six in_run_def)
    ultimately show ?thesis using compat dots assms(3,4) b(1) dots_NUL by (simp add: ntop6_gives_def inet_ntop6_def)
  next
    case mapped
    have ffff: "hexword 65535 = ''ffff''" by code_simp
    have "a = bytes6 (replicate 5 0 @ drop 5 ws)" using run(3) mapped(1) ws(2) by simp
    also have "\<dots> = (replicate 10 0 @ [255, 255]) @ bytes6 (drop 6 ws)" using five mapped(2) by (simp add: bytes6_zeros word_bytes_def)
    finally have a: "a = (replicate 10 0 @ [255, 255]) @ bytes6 (drop 6 ws)" .
    then have "(replicate 10 0 @ [255, 255]) @ ?q = a" by (simp add: append_eq_conv_conj)
    with pton6_mapped(2)[OF q] have "inet_pton6 (''::ffff:'' @ dots ?q) = Some a" by simp
    moreover have "ntop6_loop a ws ?best 0 ws [] = (CURLE_OK, ''::ffff:'' @ dots ?q)"
      using loop mapped e v4[of 39] by (simp add: five six in_run_def ffff)
    ultimately show ?thesis using mapped(1) dots assms(3,4) b(1) dots_NUL by (simp add: ntop6_gives_def inet_ntop6_def)
  qed
qed

lemma ntop6_text:
  assumes "length a = 16" "\<forall>x\<in>set a. x < 256"
  shows "\<exists>t. ntop6_gives a t"
proof -
  let ?ws = "words6 a"
  have ws: "length ?ws = 8" "\<forall>w\<in>set ?ws. w < 65536" "bytes6 ?ws = a"
    using assms words6_range[OF assms(2)] by (auto simp: length_words6 bytes6_words6)
  show ?thesis
  proof (cases "best_run ?ws")
    case None
    then show ?thesis using ntop6_no_run[OF ws(1,2) refl ws(3)] by blast
  next
    case (Some r)
    obtain b l where r: "r = (b, l)" by (cases r)
    with Some ntop6_one_run[OF ws(1,2) refl ws(3)] ntop6_encapsulated[OF assms refl] show ?thesis by blast
  qed
qed

section \<open>Properties\<close>

text \<open>C25: The IPv4 reader accepts exactly the texts the IPv4 writer produces: no leading zeros, no signs, no
  missing or extra part, every octet at most 255, and the octets are the ones that were written.\<close>

theorem ipv4_text_exact:
  "curlx_inet_pton AF_INET s = (1, a) \<longleftrightarrow>
     length a = 4 \<and> (\<forall>x\<in>set a. x \<le> 255) \<and> curlx_inet_ntop AF_INET a 16 = (CURLE_OK, cstr s)"
proof -
  have "curlx_inet_pton AF_INET s = (1, a) \<longleftrightarrow> inet_pton4 s = Some a" by (auto simp: curlx_inet_pton_def split: option.splits)
  moreover have "curlx_inet_ntop AF_INET a 16 = (CURLE_OK, cstr s) \<longleftrightarrow> cstr s = dots a"
    if "length a = 4" "\<forall>x\<in>set a. x \<le> 255"
    using that length_dots[OF that(2)] by (auto simp: curlx_inet_ntop_def inet_ntop4_dots)
  ultimately show ?thesis by (auto simp: inet_pton4_iff)
qed

theorem ipv4_text_exact_witness:
  "curlx_inet_pton AF_INET ''127.0.0.1'' = (1, [127, 0, 0, 1]) \<and> curlx_inet_pton AF_INET ''127.0.0.01'' \<noteq> (1, [127, 0, 0, 1])"
proof -
  have "curlx_inet_ntop AF_INET [127, 0, 0, 1] 16 = (CURLE_OK, ''127.0.0.1'')"
    "cstr ''127.0.0.1'' = ''127.0.0.1''" "cstr ''127.0.0.01'' = ''127.0.0.01''" by code_simp+
  then show ?thesis
    using ipv4_text_exact[of "''127.0.0.1''" "[127, 0, 0, 1]"] ipv4_text_exact[of "''127.0.0.01''" "[127, 0, 0, 1]"] by simp
qed

text \<open>C24: Every IPv6 address has a text of at most 39 characters, so the buffer of 46 bytes on the stack never
  overflows; the writer stores that text, with its terminator, in every buffer it fits and refuses the others,
  and the reader gives the address back from it: with or without a run of zeros and for the two forms
  that end in a dotted quad.\<close>

theorem ipv6_roundtrip:
  assumes "length a = 16" "\<forall>x\<in>set a. x < 256"
  shows "\<exists>t. length t \<le> 39 \<and> curlx_inet_pton AF_INET6 t = (1, a) \<and>
    (\<forall>n. curlx_inet_ntop AF_INET6 a n = (if n \<le> length t then (CURLE_TOO_LARGE, []) else (CURLE_OK, t)))"
  using ntop6_text[OF assms] by (auto simp: ntop6_gives_def curlx_inet_pton_def curlx_inet_ntop_def)

theorem ipv6_roundtrip_witness:
  "\<exists>t. length t \<le> 39 \<and> curlx_inet_pton AF_INET6 t = (1, replicate 15 0 @ [1]) \<and>
    curlx_inet_ntop AF_INET6 (replicate 15 0 @ [1]) 46 = (CURLE_OK, t)"
  using ipv6_roundtrip[of "replicate 15 0 @ [1]"] by (auto; force)

text \<open>A colon after the last group is accepted, although such a text is not an address.\<close>

lemma trailing_colon_accepted:
  "curlx_inet_pton AF_INET6 ''::1:'' = (1, replicate 15 0 @ [1])"
  "curlx_inet_pton AF_INET6 ''1:2:3:4:5:6:7:8:'' = curlx_inet_pton AF_INET6 ''1:2:3:4:5:6:7:8''"
  by code_simp+

end
