(* ===== verification/Curl_Urlhost.thy ===== *)
theory Curl_Urlhost
  imports Curl_Escape Curl_Protocol Curl_Inet
begin

unbundle bit_operations_syntax

text \<open>
  The authority of a URL, \<open>old/lib/urlapi.c\<close> and \<open>urlapi-int.h\<close>: login, host and port, with the
  normalization of numerical addresses; and \<open>Curl_parse_login_details\<close> of \<open>url.c\<close>. A pointer of the handle is
  the string it points to, \<open>None\<close> the null pointer. A pointer with a length is the bytes it spans. The allocator is
  the stream of outcomes of \<open>Curl_Code\<close>, threaded through in the order of the code's requests.
\<close>

section \<open>Data\<close>

datatype CURLUcode =
    CURLUE_OK | CURLUE_BAD_HANDLE | CURLUE_BAD_PARTPOINTER | CURLUE_MALFORMED_INPUT | CURLUE_BAD_PORT_NUMBER
  | CURLUE_UNSUPPORTED_SCHEME | CURLUE_URLDECODE | CURLUE_OUT_OF_MEMORY | CURLUE_USER_NOT_ALLOWED
  | CURLUE_UNKNOWN_PART | CURLUE_NO_SCHEME | CURLUE_NO_USER | CURLUE_NO_PASSWORD | CURLUE_NO_OPTIONS
  | CURLUE_NO_HOST | CURLUE_NO_PORT | CURLUE_NO_QUERY | CURLUE_NO_FRAGMENT | CURLUE_NO_ZONEID
  | CURLUE_BAD_FILE_URL | CURLUE_BAD_FRAGMENT | CURLUE_BAD_HOSTNAME | CURLUE_BAD_IPV6 | CURLUE_BAD_LOGIN
  | CURLUE_BAD_PASSWORD | CURLUE_BAD_PATH | CURLUE_BAD_QUERY | CURLUE_BAD_SCHEME | CURLUE_BAD_SLASHES
  | CURLUE_BAD_USER | CURLUE_LACKS_IDN | CURLUE_TOO_LARGE | CURLUE_BACKSLASH

record Curl_URL =
  u_scheme :: "bytes option"
  u_user :: "bytes option"
  u_password :: "bytes option"
  u_options :: "bytes option"
  u_host :: "bytes option"
  u_zoneid :: "bytes option"
  u_path :: "bytes option"
  u_query :: "bytes option"
  u_fragment :: "bytes option"
  u_portnum :: nat
  u_port_present :: bool
  u_query_present :: bool
  u_fragment_present :: bool
  u_guessed_scheme :: bool

type_synonym uflags = "32 word"

definition CURLU_DEFAULT_PORT :: uflags where "CURLU_DEFAULT_PORT = 0x1"
definition CURLU_NO_DEFAULT_PORT :: uflags where "CURLU_NO_DEFAULT_PORT = 0x2"
definition CURLU_DEFAULT_SCHEME :: uflags where "CURLU_DEFAULT_SCHEME = 0x4"
definition CURLU_NON_SUPPORT_SCHEME :: uflags where "CURLU_NON_SUPPORT_SCHEME = 0x8"
definition CURLU_PATH_AS_IS :: uflags where "CURLU_PATH_AS_IS = 0x10"
definition CURLU_DISALLOW_USER :: uflags where "CURLU_DISALLOW_USER = 0x20"
definition CURLU_URLDECODE :: uflags where "CURLU_URLDECODE = 0x40"
definition CURLU_URLENCODE :: uflags where "CURLU_URLENCODE = 0x80"
definition CURLU_APPENDQUERY :: uflags where "CURLU_APPENDQUERY = 0x100"
definition CURLU_GUESS_SCHEME :: uflags where "CURLU_GUESS_SCHEME = 0x200"
definition CURLU_NO_AUTHORITY :: uflags where "CURLU_NO_AUTHORITY = 0x400"
definition CURLU_ALLOW_SPACE :: uflags where "CURLU_ALLOW_SPACE = 0x800"
definition CURLU_PUNYCODE :: uflags where "CURLU_PUNYCODE = 0x1000"
definition CURLU_PUNY2IDN :: uflags where "CURLU_PUNY2IDN = 0x2000"
definition CURLU_GET_EMPTY :: uflags where "CURLU_GET_EMPTY = 0x4000"
definition CURLU_NO_GUESS_SCHEME :: uflags where "CURLU_NO_GUESS_SCHEME = 0x8000"

definition has_flag :: "uflags \<Rightarrow> uflags \<Rightarrow> bool" where
  "has_flag fl f \<longleftrightarrow> fl AND f \<noteq> 0"

definition CURL_MAX_INPUT_LENGTH :: nat where "CURL_MAX_INPUT_LENGTH = 8000000"
definition MAX_ZONEID_LEN :: nat where "MAX_ZONEID_LEN = 16"

definition HOSTNAME_INVALID_CHARS :: bytes where
  "HOSTNAME_INVALID_CHARS =
     [CHR '' '', CR, LF, HT] @ ''/:#?!@'' @ ''{}[]'' @ [CHR 0x5C, CHR ''$'', CHR 0x27, CHR 0x22, CHR ''^'', CHR 0x60] @ ''*<>=;,+&()%|''"

definition cc2cu :: "CURLcode \<Rightarrow> CURLUcode" where
  "cc2cu x = (if x = CURLE_TOO_LARGE then CURLUE_TOO_LARGE else CURLUE_OUT_OF_MEMORY)"

section \<open>Copies\<close>

definition curlx_memdup0 :: "bytes \<Rightarrow> heap \<Rightarrow> bytes option \<times> heap" where
  "curlx_memdup0 src h =
     (if length src < SIZE_MAX then (case request h of (ok, h) \<Rightarrow> (if ok then Some (cstr src) else None, h)) else (None, h))"

definition curlx_strdup :: "bytes \<Rightarrow> heap \<Rightarrow> bytes option \<times> heap" where
  "curlx_strdup str h = (case request h of (ok, h) \<Rightarrow> (if ok then Some (cstr str) else None, h))"

text \<open>The string a buffer points to.\<close>

definition dyn_cstr :: "dynbuf \<Rightarrow> bytes" where
  "dyn_cstr d = (case curlx_dyn_ptr d of None \<Rightarrow> [] | Some b \<Rightarrow> cstr b)"

section \<open>Login\<close>

definition login_parts :: "bytes \<Rightarrow> bool \<Rightarrow> bytes \<times> bytes option \<times> bytes" where
  "login_parts login opts =
     (let len = length login;
          psep = index_of (CHR '':'') login;
          osep = (if opts then index_of (CHR '';'') login else None);
          ulen = (case psep of
                    Some p \<Rightarrow> (case osep of Some o1 \<Rightarrow> if p > o1 then o1 else p | None \<Rightarrow> p)
                  | None \<Rightarrow> (case osep of Some o1 \<Rightarrow> o1 | None \<Rightarrow> len));
          plen = (case psep of
                    Some p \<Rightarrow> (case osep of Some o1 \<Rightarrow> if o1 > p then o1 - p else len - p | None \<Rightarrow> len - p) - 1
                  | None \<Rightarrow> 0);
          olen = (case osep of
                    Some o1 \<Rightarrow> (case psep of Some p \<Rightarrow> if p > o1 then p - o1 else len - o1 | None \<Rightarrow> len - o1) - 1
                  | None \<Rightarrow> 0)
      in (take ulen login,
          map_option (\<lambda>p. take plen (drop (p + 1) login)) psep,
          (case osep of Some o1 \<Rightarrow> take olen (drop (o1 + 1) login) | None \<Rightarrow> [])))"

text \<open>User, password and options, or a refused allocation.\<close>

definition Curl_parse_login_details ::
  "bytes \<Rightarrow> bool \<Rightarrow> heap \<Rightarrow> (CURLcode + bytes option \<times> bytes option \<times> bytes option) \<times> heap"
where
  "Curl_parse_login_details login opts h =
     (case login_parts login opts of (user, pass, options) \<Rightarrow>
        case curlx_memdup0 user h of
          (None, h) \<Rightarrow> (Inl CURLE_OUT_OF_MEMORY, h)
        | (ubuf, h) \<Rightarrow>
            (case (case pass of None \<Rightarrow> (Some None, h)
                   | Some p \<Rightarrow> (case curlx_memdup0 p h of (None, h) \<Rightarrow> (None, h) | (pbuf, h) \<Rightarrow> (Some pbuf, h))) of
               (None, h) \<Rightarrow> (Inl CURLE_OUT_OF_MEMORY, h)
             | (Some pbuf, h) \<Rightarrow>
                 if opts \<and> options \<noteq> [] then
                   (case curlx_memdup0 options h of
                      (None, h) \<Rightarrow> (Inl CURLE_OUT_OF_MEMORY, h)
                    | (obuf, h) \<Rightarrow> (Inr (ubuf, pbuf, obuf), h))
                 else (Inr (ubuf, pbuf, None), h)))"

definition clear_login :: "Curl_URL \<Rightarrow> Curl_URL" where
  "clear_login u = u\<lparr>u_user := None, u_password := None, u_options := None\<rparr>"

definition set_some :: "'a option \<Rightarrow> 'a option \<Rightarrow> 'a option" where
  "set_some v old = (case v of None \<Rightarrow> old | Some _ \<Rightarrow> v)"

definition parse_hostname_login ::
  "(feature \<Rightarrow> bool) \<Rightarrow> Curl_URL \<Rightarrow> bytes \<Rightarrow> uflags \<Rightarrow> heap \<Rightarrow> CURLUcode \<times> Curl_URL \<times> nat \<times> heap"
where
  "parse_hostname_login cfg u login fl h =
     (case index_of (CHR ''@'') login of
        None \<Rightarrow> (CURLUE_OK, clear_login u, 0, h)
      | Some i \<Rightarrow>
          let sch = (case u_scheme u of None \<Rightarrow> None | Some s \<Rightarrow> Curl_get_scheme cfg s);
              opts = (case sch of None \<Rightarrow> False | Some x \<Rightarrow> sc_flags x AND PROTOPT_URLOPTIONS \<noteq> 0) in
          case Curl_parse_login_details (take i login) opts h of
            (Inl _, h) \<Rightarrow> (CURLUE_OUT_OF_MEMORY, clear_login u, 0, h)
          | (Inr (userp, passwdp, optionsp), h) \<Rightarrow>
              if userp \<noteq> None \<and> has_flag fl CURLU_DISALLOW_USER then (CURLUE_USER_NOT_ALLOWED, clear_login u, 0, h)
              else (CURLUE_OK,
                    u\<lparr>u_user := set_some userp (u_user u), u_password := set_some passwdp (u_password u),
                      u_options := set_some optionsp (u_options u)\<rparr>, i + 1, h))"

section \<open>Port\<close>

definition host_setlen :: "dynbuf \<Rightarrow> nat \<Rightarrow> dynbuf" where
  "host_setlen host n = (case curlx_dyn_setlen host n of None \<Rightarrow> host | Some (_, host) \<Rightarrow> host)"

text \<open>Where the port starts: an error, or the place of its colon if there is one.\<close>

definition find_port :: "bytes \<Rightarrow> CURLUcode + nat option" where
  "find_port hostname =
     (if peek hostname = CHR ''['' then
        (case index_of (CHR '']'') hostname of
           None \<Rightarrow> Inl CURLUE_BAD_IPV6
         | Some i \<Rightarrow>
             let p = drop (i + 1) hostname in
             if p = [] then Inr None
             else if peek p \<noteq> CHR '':'' then Inl CURLUE_BAD_PORT_NUMBER
             else Inr (Some (i + 1)))
      else Inr (index_of (CHR '':'') hostname))"

definition parse_port :: "Curl_URL \<Rightarrow> dynbuf \<Rightarrow> bool \<Rightarrow> CURLUcode \<times> Curl_URL \<times> dynbuf" where
  "parse_port u host has_scheme =
     (let hostname = dyn_cstr host;
          u = u\<lparr>u_portnum := 0, u_port_present := False\<rparr> in
      case find_port hostname of
        Inl e \<Rightarrow> (e, u, host)
      | Inr None \<Rightarrow> (CURLUE_OK, u, host)
      | Inr (Some keep) \<Rightarrow>
          let host = host_setlen host keep; portptr = drop (keep + 1) hostname in
          if portptr = [] then (if has_scheme then CURLUE_OK else CURLUE_BAD_PORT_NUMBER, u, host)
          else if peek portptr = BACKSLASH then (CURLUE_BACKSLASH, u, host)
          else case curlx_str_number portptr 0xffff of (rc, port, portptr) \<Rightarrow>
            if rc \<noteq> STRE_OK then (CURLUE_BAD_PORT_NUMBER, u, host)
            else if peek portptr = BACKSLASH then (CURLUE_BACKSLASH, u, host)
            else if portptr \<noteq> [] then (CURLUE_BAD_PORT_NUMBER, u, host)
            else (CURLUE_OK, u\<lparr>u_portnum := nat port, u_port_present := True\<rparr>, host))"

section \<open>IPv6 addresses\<close>

definition zone_id :: "bytes \<Rightarrow> bytes option" where
  "zone_id s =
     (let s = (if take 2 s = ''25'' \<and> peek (drop 2 s) \<noteq> NUL \<and> peek (drop 2 s) \<noteq> CHR '']'' then drop 2 s else s);
          zoneid = take (MAX_ZONEID_LEN - 1) (takeWhile (\<lambda>c. c \<noteq> CHR '']'') s) in
      if zoneid = [] \<or> peek (drop (length zoneid) s) \<noteq> CHR '']'' then None else Some zoneid)"

text \<open>The address as it is written back over the text, if it is one.\<close>

definition ipv6_normalize :: "bytes \<Rightarrow> bytes option" where
  "ipv6_normalize hostname =
     (case curlx_inet_pton AF_INET6 hostname of (rc, dest) \<Rightarrow>
        if rc \<noteq> 1 then None
        else case curlx_inet_ntop AF_INET6 dest (length hostname + 1) of (result, t) \<Rightarrow>
          Some (if result = CURLE_OK then t else hostname))"

definition ipv6_parse :: "Curl_URL \<Rightarrow> bytes \<Rightarrow> heap \<Rightarrow> CURLUcode \<times> Curl_URL \<times> bytes \<times> heap" where
  "ipv6_parse u hostname h =
     (let hlen = length hostname in
      if hlen < 4 then (CURLUE_BAD_IPV6, u, hostname, h)
      else
        let s = tl hostname; hlen = hlen - 2;
            len = length (takeWhile (\<lambda>c. c \<in> set ''0123456789abcdefABCDEF:.'') s) in
        case (if hlen \<noteq> len then
                (if peek (drop len s) = CHR ''%'' then
                   (case zone_id (drop (len + 1) s) of
                      None \<Rightarrow> (CURLUE_BAD_IPV6, u, h)
                    | Some z \<Rightarrow>
                        (case curlx_strdup z h of
                           (None, h) \<Rightarrow> (CURLUE_OUT_OF_MEMORY, u\<lparr>u_zoneid := None\<rparr>, h)
                         | (zoneid, h) \<Rightarrow> (CURLUE_OK, u\<lparr>u_zoneid := zoneid\<rparr>, h)))
                 else (CURLUE_BAD_IPV6, u, h))
              else (CURLUE_OK, u, h)) of
          (uc, u, h) \<Rightarrow>
            if uc \<noteq> CURLUE_OK then (uc, u, hostname, h)
            else case ipv6_normalize (take len s) of
                   None \<Rightarrow> (CURLUE_BAD_IPV6, u, hostname, h)
                 | Some a \<Rightarrow> (CURLUE_OK, u, ''['' @ a @ '']'', h))"

definition hostname_check :: "Curl_URL \<Rightarrow> bytes \<Rightarrow> heap \<Rightarrow> CURLUcode \<times> Curl_URL \<times> bytes \<times> heap" where
  "hostname_check u hostname h =
     (let hlen = length hostname in
      if hlen = 0 then (CURLUE_NO_HOST, u, hostname, h)
      else if hostname ! 0 = CHR ''['' then ipv6_parse u hostname h
      else if hlen \<noteq> length (takeWhile (\<lambda>c. c \<notin> set HOSTNAME_INVALID_CHARS) hostname) then (CURLUE_BAD_HOSTNAME, u, hostname, h)
      else if hlen \<ge> 2 \<and> hostname ! (hlen - 1) = CHR ''.'' \<and> hostname ! (hlen - 2) = CHR ''.'' then (CURLUE_BAD_HOSTNAME, u, hostname, h)
      else if hlen = 1 \<and> hostname ! 0 = CHR ''.'' then (CURLUE_BAD_HOSTNAME, u, hostname, h)
      else (CURLUE_OK, u, hostname, h))"

section \<open>IPv4 addresses\<close>

datatype host_type = HOST_ERROR | HOST_NAME | HOST_IPV4 | HOST_IPV6

definition UINT_MAX :: int where "UINT_MAX = 4294967295"

text \<open>One number; \<open>None\<close> is the immediate return after a prefix without hexadecimal digits.\<close>

definition ipv4_part :: "bytes \<Rightarrow> (STRE \<times> int \<times> bytes) option" where
  "ipv4_part c =
     (if peek c = CHR ''0'' then
        (if Curl_raw_tolower (peek (tl c)) = CHR ''x'' then
           (case curlx_str_hex (drop 2 c) UINT_MAX of (rc, l, c) \<Rightarrow> if rc \<noteq> STRE_OK then None else Some (rc, l, c))
         else Some (curlx_str_octal c UINT_MAX))
      else Some (curlx_str_number c UINT_MAX))"

lemma str_num_base_length: "str_num_base line mx base = (rc, l, rest) \<Longrightarrow> length rest \<le> length line"
proof -
  have "num_loop base mx num line = Some (v, p) \<Longrightarrow> length p \<le> length line" for num v p
    by (induction line arbitrary: num) (auto split: if_splits option.splits intro: le_SucI)
  then show "str_num_base line mx base = (rc, l, rest) \<Longrightarrow> length rest \<le> length line"
    by (auto simp: str_num_base_def split: if_splits option.splits)
qed

lemma ipv4_part_length: "ipv4_part c = Some (rc, l, rest) \<Longrightarrow> length rest \<le> length c"
  by (auto simp: ipv4_part_def curlx_str_hex_def curlx_str_octal_def curlx_str_number_def
      dest!: str_num_base_length split: if_splits prod.splits)

text \<open>The numbers read, with \<open>n\<close> the length of the list; \<open>None\<close> is the answer \<open>HOST_NAME\<close>.\<close>

function ipv4_loop :: "bytes \<Rightarrow> int list \<Rightarrow> int list option" where
  "ipv4_loop c parts =
     (case ipv4_part c of
        None \<Rightarrow> None
      | Some (rc, l, c) \<Rightarrow>
          if rc \<noteq> STRE_OK then (if parts = [] \<or> rc \<noteq> STRE_NO_NUM \<or> c \<noteq> [] then None else Some parts)
          else if peek c = CHR ''.'' then
            (if length parts = 3 then (if tl c \<noteq> [] then None else Some (parts @ [l])) else ipv4_loop (tl c) (parts @ [l]))
          else if c = [] then Some (parts @ [l])
          else None)"
  by pat_completeness auto
termination
proof (relation "measure (\<lambda>(c, parts). length c)", goal_cases)
  case (2 c parts x rc y l c')
  then show ?case using ipv4_part_length[of c rc l c'] by (cases c') (auto simp: peek_def)
qed simp

declare ipv4_loop.simps [simp del]

definition byte_of :: "int \<Rightarrow> nat \<Rightarrow> nat" where
  "byte_of v k = nat (v div 2 ^ k mod 256)"

text \<open>The four octets of one to four numbers, if each is in its range.\<close>

definition ipv4_octets :: "int list \<Rightarrow> nat list option" where
  "ipv4_octets parts =
     (case parts of
        [a] \<Rightarrow> Some [nat (a div 2 ^ 24), byte_of a 16, byte_of a 8, byte_of a 0]
      | [a, b] \<Rightarrow> if a > 0xff \<or> b > 0xffffff then None else Some [nat a, byte_of b 16, byte_of b 8, byte_of b 0]
      | [a, b, c] \<Rightarrow> if a > 0xff \<or> b > 0xff \<or> c > 0xffff then None else Some [nat a, nat b, byte_of c 8, byte_of c 0]
      | [a, b, c, d] \<Rightarrow> if a > 0xff \<or> b > 0xff \<or> c > 0xff \<or> d > 0xff then None else Some [nat a, nat b, nat c, nat d]
      | _ \<Rightarrow> None)"

definition ipv4_normalize :: "dynbuf \<Rightarrow> heap \<Rightarrow> host_type \<times> dynbuf \<times> heap" where
  "ipv4_normalize host h =
     (let c = dyn_cstr host in
      if peek c = CHR ''['' then (HOST_IPV6, host, h)
      else case ipv4_loop c [] of
             None \<Rightarrow> (HOST_NAME, host, h)
           | Some parts \<Rightarrow>
               (case ipv4_octets parts of
                  None \<Rightarrow> (HOST_NAME, host, h)
                | Some a \<Rightarrow>
                    (case curlx_dyn_addf (curlx_dyn_reset host) h (dotted a) of (result, host, h) \<Rightarrow>
                       (if result \<noteq> CURLE_OK then HOST_ERROR else HOST_IPV4, host, h))))"

section \<open>The authority\<close>

definition urldecode_host :: "dynbuf \<Rightarrow> heap \<Rightarrow> CURLUcode \<times> dynbuf \<times> heap" where
  "urldecode_host host h =
     (let hostname = dyn_cstr host in
      if CHR ''%'' \<notin> set hostname then (CURLUE_OK, host, h)
      else case Curl_urldecode hostname 0 REJECT_CTRL h of (result, decoded, dlen, h) \<Rightarrow>
        if result \<noteq> CURLE_OK then (CURLUE_BAD_HOSTNAME, host, h)
        else case curlx_dyn_addn (curlx_dyn_reset host) h (take dlen (case decoded of None \<Rightarrow> [] | Some b \<Rightarrow> b)) of
               (result, host, h) \<Rightarrow> (if result \<noteq> CURLE_OK then cc2cu result else CURLUE_OK, host, h))"

text \<open>The checks of the host name write over the text of the buffer in place.\<close>

definition host_write :: "dynbuf \<Rightarrow> bytes \<Rightarrow> dynbuf" where
  "host_write host s = host\<lparr>bufr := Some (mem_write (dyn_block host) 0 (s @ [NUL]))\<rparr>"

definition check_host :: "Curl_URL \<Rightarrow> dynbuf \<Rightarrow> heap \<Rightarrow> CURLUcode \<times> Curl_URL \<times> dynbuf \<times> heap" where
  "check_host u host h =
     (case ipv4_normalize host h of (ty, host, h) \<Rightarrow>
        case ty of
          HOST_IPV4 \<Rightarrow> (CURLUE_OK, u, host, h)
        | HOST_IPV6 \<Rightarrow>
            (case ipv6_parse u (dyn_cstr host) h of (uc, u, s, h) \<Rightarrow> (uc, u, host_write host s, h))
        | HOST_NAME \<Rightarrow>
            (case hostname_check u (dyn_cstr host) h of (uc, u, s, h) \<Rightarrow> (uc, u, host_write host s, h))
        | HOST_ERROR \<Rightarrow> (CURLUE_OUT_OF_MEMORY, u, host, h))"

definition parse_authority ::
  "(feature \<Rightarrow> bool) \<Rightarrow> Curl_URL \<Rightarrow> bytes \<Rightarrow> uflags \<Rightarrow> dynbuf \<Rightarrow> bool \<Rightarrow> heap \<Rightarrow> CURLUcode \<times> Curl_URL \<times> dynbuf \<times> heap"
where
  "parse_authority cfg u auth fl host has_scheme h =
     (case parse_hostname_login cfg u auth fl h of (uc, u, offset, h) \<Rightarrow>
        if uc \<noteq> CURLUE_OK then (uc, u, host, h)
        else case curlx_dyn_addn host h (drop offset auth) of (result, host, h) \<Rightarrow>
          if result \<noteq> CURLE_OK then (cc2cu result, u, host, h)
          else case parse_port u host has_scheme of (uc, u, host) \<Rightarrow>
            let uc = (if curlx_dyn_len host = 0 then CURLUE_NO_HOST else uc) in
            case (if uc = CURLUE_OK then urldecode_host host h else (uc, host, h)) of (uc, host, h) \<Rightarrow>
              if uc \<noteq> CURLUE_OK then (uc, u, host, h) else check_host u host h)"

definition Curl_url_set_authority :: "(feature \<Rightarrow> bool) \<Rightarrow> Curl_URL \<Rightarrow> bytes \<Rightarrow> heap \<Rightarrow> CURLUcode \<times> Curl_URL \<times> heap" where
  "Curl_url_set_authority cfg u authority h =
     (case parse_authority cfg u (cstr authority) CURLU_DISALLOW_USER (curlx_dyn_init CURL_MAX_INPUT_LENGTH) (u_scheme u \<noteq> None) h of
        (ures, u, host, h) \<Rightarrow>
          if ures \<noteq> CURLUE_OK then (ures, u, h) else (ures, u\<lparr>u_host := map_option cstr (curlx_dyn_ptr host)\<rparr>, h))"

section \<open>Numerical hosts\<close>

text \<open>
  The reference: the fields between the dots, a last empty one not counted, each a number in one of three
  bases that fits 32 bits.
\<close>

definition dot_fields :: "bytes \<Rightarrow> bytes list" where
  "dot_fields s = split_on (CHR ''.'') s"

definition number_in :: "int \<Rightarrow> bytes \<Rightarrow> int option" where
  "number_in base ds =
     (if ds \<noteq> [] \<and> list_all (digit_of_base base) ds \<and> base_value base ds \<le> UINT_MAX then Some (base_value base ds) else None)"

definition field_value :: "bytes \<Rightarrow> int option" where
  "field_value f =
     (if peek f = CHR ''0'' \<and> tolower (peek (tl f)) = CHR ''x'' then number_in 16 (drop 2 f)
      else if peek f = CHR ''0'' then number_in 8 f
      else number_in 10 f)"

fun field_values :: "bytes list \<Rightarrow> int list option" where
  "field_values [] = Some []"
| "field_values (f # fs) =
     (case field_value f of None \<Rightarrow> None | Some v \<Rightarrow> (case field_values fs of None \<Rightarrow> None | Some vs \<Rightarrow> Some (v # vs)))"

definition numeric_host :: "bytes \<Rightarrow> int list option" where
  "numeric_host s =
     (let fs = dot_fields s; fs = (if 1 < length fs \<and> last fs = [] then butlast fs else fs) in
      if length fs \<le> 4 then field_values fs else None)"

definition parts_value :: "int list \<Rightarrow> int" where
  "parts_value ps = last ps + (\<Sum>i<length ps - 1. ps ! i * 256 ^ (3 - i))"

definition quad_value :: "nat list \<Rightarrow> int" where
  "quad_value a = ((int (a ! 0) * 256 + int (a ! 1)) * 256 + int (a ! 2)) * 256 + int (a ! 3)"

lemma UINT_MAX_nonneg [simp]: "0 \<le> UINT_MAX"
  by (simp add: UINT_MAX_def)

lemmas dot_fields_nonempty [simp] = split_on_nonempty[of "CHR ''.''", folded dot_fields_def]
lemmas dot_fields_cases = split_on_cases[where c = "CHR ''.''", folded dot_fields_def]

lemma no_digit_dot: "base \<in> {8, 10, 16} \<Longrightarrow> \<not> digit_of_base base (CHR ''.'')"
  by (auto simp: digit_of_base_iff ISXDIGIT_def isdigit_def byte_val_def)

text \<open>Scanning a field: it is read as a whole, or the scan fails, or it stops before the end of the field.\<close>

definition stops_within :: "bytes \<Rightarrow> (STRE \<times> int \<times> bytes) \<Rightarrow> bool" where
  "stops_within line r \<longleftrightarrow> (case r of (rc, l, c) \<Rightarrow>
     if rc = STRE_OK then c \<noteq> [] \<and> peek c \<noteq> CHR ''.'' else rc = STRE_NO_NUM \<and> c = line \<or> rc = STRE_OVERFLOW)"

lemma scan_field:
  assumes "base \<in> {8, 10, 16}" "CHR ''.'' \<notin> set f" "rest = [] \<or> peek rest = CHR ''.''"
  shows "case number_in base f of
      Some v \<Rightarrow> str_num_base (f @ rest) UINT_MAX base = (STRE_OK, v, rest)
    | None \<Rightarrow> stops_within (f @ rest) (str_num_base (f @ rest) UINT_MAX base)"
proof -
  let ?d = "digit_of_base base"
  have r: "takeWhile ?d rest = []" using assms(3) no_digit_dot[OF assms(1)] by (cases rest) (auto simp: peek_def)
  note eq = str_num_base_eq[OF assms(1) UINT_MAX_nonneg, of "f @ rest"]
  show ?thesis
  proof (cases "list_all ?d f")
    case True
    then have "takeWhile ?d (f @ rest) = f" "dropWhile ?d (f @ rest) = rest"
      using r by (simp_all add: list_all_iff takeWhile_eq_Nil_iff) (cases rest; simp)
    then show ?thesis using True unfolding eq Let_def number_in_def stops_within_def by (auto simp: not_le)
  next
    case False
    then obtain x where x: "x \<in> set f" "\<not> ?d x" by (auto simp: list_all_iff)
    then have "takeWhile ?d (f @ rest) = takeWhile ?d f" "dropWhile ?d (f @ rest) = dropWhile ?d f @ rest" by (auto simp: takeWhile_append1 dropWhile_append1)
    moreover have "dropWhile ?d f \<noteq> []" using x by (auto simp: dropWhile_eq_Nil_conv)
    moreover have "peek (dropWhile ?d f @ rest) \<noteq> CHR ''.''"
    proof -
      obtain y ys where y: "dropWhile ?d f = y # ys" using calculation(3) by (cases "dropWhile ?d f") auto
      then have "y \<in> set f" using set_dropWhileD[of y ?d f] by simp
      then show ?thesis using y assms(2) by (auto simp: peek_def)
    qed
    ultimately show ?thesis using False unfolding eq Let_def number_in_def stops_within_def by (auto simp: list_all_iff)
  qed
qed

lemma part_field:
  assumes "CHR ''.'' \<notin> set f" "rest = [] \<or> peek rest = CHR ''.''"
  shows "case field_value f of
      Some v \<Rightarrow> ipv4_part (f @ rest) = Some (STRE_OK, v, rest)
    | None \<Rightarrow> (case ipv4_part (f @ rest) of None \<Rightarrow> True | Some r \<Rightarrow> stops_within (f @ rest) r)"
proof -
  have same: "peek (f @ rest) = CHR ''0'' \<longleftrightarrow> peek f = CHR ''0''" "f \<noteq> [] \<Longrightarrow> tolower (peek (tl (f @ rest))) = CHR ''x'' \<longleftrightarrow> tolower (peek (tl f)) = CHR ''x''"
  proof -
    show "peek (f @ rest) = CHR ''0'' \<longleftrightarrow> peek f = CHR ''0''" using assms(2) by (cases f; cases rest) (auto simp: peek_def)
    have "tolower (CHR ''.'') = CHR ''.''" by (simp add: tolower_def byte_val_def)
    then show "tolower (peek (tl (f @ rest))) = CHR ''x'' \<longleftrightarrow> tolower (peek (tl f)) = CHR ''x''" if "f \<noteq> []"
      using that assms(2) by (cases f; cases "tl f"; cases rest) (auto simp: peek_def)
  qed
  consider (hex) "peek f = CHR ''0''" "tolower (peek (tl f)) = CHR ''x''" | (octal) "peek f = CHR ''0''" "tolower (peek (tl f)) \<noteq> CHR ''x''"
    | (decimal) "peek f \<noteq> CHR ''0''" by blast
  then show ?thesis
  proof cases
    case hex
    then have "drop 2 (f @ rest) = drop 2 f @ rest" "f \<noteq> []" by (cases f; cases "tl f"; auto simp: peek_def)+
    moreover have "CHR ''.'' \<notin> set (drop 2 f)" using assms(1) by (auto dest: in_set_dropD)
    ultimately show ?thesis using hex same scan_field[of 16 "drop 2 f" rest] assms(2)
      by (auto simp: field_value_def ipv4_part_def curlx_str_hex_def raw_tolower stops_within_def split: option.splits prod.splits)
  next
    case octal
    then have "f \<noteq> []" by (auto simp: peek_def)
    then show ?thesis using octal same scan_field[of 8 f rest] assms
      by (auto simp: field_value_def ipv4_part_def curlx_str_octal_def raw_tolower split: option.splits)
  next
    case decimal
    then show ?thesis using same scan_field[of 10 f rest] assms
      by (auto simp: field_value_def ipv4_part_def curlx_str_number_def split: option.splits)
  qed
qed

lemma field_values_butlast_Nil: "field_value [] = None"
  by (simp add: field_value_def number_in_def peek_def)

lemma ipv4_loop_fields:
  assumes "length parts \<le> 3"
  shows "ipv4_loop c parts =
    (let fs = dot_fields c; fs = (if (parts \<noteq> [] \<or> 1 < length fs) \<and> last fs = [] then butlast fs else fs) in
     if length parts + length fs \<le> 4 then map_option ((@) parts) (field_values fs) else None)"
  using assms
proof (induction c arbitrary: parts rule: length_induct)
  case (1 c)
  obtain f rest where c: "c = f @ rest" "CHR ''.'' \<notin> set f"
    "rest = [] \<and> dot_fields c = [f] \<or> (\<exists>r. rest = CHR ''.'' # r \<and> dot_fields c = f # dot_fields r)"
    by (rule dot_fields_cases)
  then have rest: "rest = [] \<or> peek rest = CHR ''.''" by (auto simp: peek_def)
  note part = part_field[OF c(2) rest, folded c(1)]
  show ?case
  proof (cases "field_value f")
    case None
    have "ipv4_loop c parts = (if parts \<noteq> [] \<and> c = [] then Some parts else None)"
    proof (cases "c = []")
      case True
      have "ipv4_part [] = Some (STRE_NO_NUM, 0, [])"
        by (simp add: ipv4_part_def peek_def curlx_str_number_def str_num_base_def valid_digit_def byte_val_def)
      then show ?thesis using True by (simp add: ipv4_loop.simps[of "[]"])
    next
      case False
      then show ?thesis using part None by (auto simp: ipv4_loop.simps[of c] stops_within_def split: option.splits)
    qed
    then show ?thesis using c None field_values_butlast_Nil "1.prems"
      by (cases rest) (auto simp: Let_def)
  next
    case (Some v)
    then have p: "ipv4_part c = Some (STRE_OK, v, rest)" using part by simp
    have f: "f \<noteq> []" using Some field_values_butlast_Nil by auto
    show ?thesis
    proof (cases "rest = []")
      case True
      then show ?thesis using c p Some f "1.prems" by (simp add: ipv4_loop.simps[of f] peek_def)
    next
      case False
      then obtain r where r: "rest = CHR ''.'' # r" "dot_fields c = f # dot_fields r" using c(3) by auto
      show ?thesis
      proof (cases "length parts = 3")
        case True
        have "dot_fields r = [[]] \<longleftrightarrow> r = []" by (cases r) (auto simp: dot_fields_def split: list.splits)
        moreover have "length (dot_fields r) = 1 \<or> 1 < length (dot_fields r)" by (cases "dot_fields r") auto
        ultimately show ?thesis using True p r Some f by (cases "dot_fields r") (auto simp: ipv4_loop.simps[of c] peek_def Let_def)
      next
        case False
        have "ipv4_loop c parts = ipv4_loop r (parts @ [v])" using False p r by (simp add: ipv4_loop.simps[of c] peek_def)
        moreover have "length r < length c" using c(1) r(1) by simp
        ultimately show ?thesis using "1.IH"[rule_format, of r "parts @ [v]"] False "1.prems" r(2) Some
          by (auto simp: Let_def split: option.splits)
      qed
    qed
  qed
qed

lemma numeric_host_loop: "ipv4_loop c [] = numeric_host c"
proof -
  have "map_option ((@) []) x = x" for x :: "int list option" by (cases x) auto
  then show ?thesis unfolding numeric_host_def using ipv4_loop_fields[of "[]" c] by (simp add: Let_def)
qed

lemma field_values_range: "field_values fs = Some vs \<Longrightarrow> length vs = length fs \<and> (\<forall>v\<in>set vs. 0 \<le> v \<and> v \<le> UINT_MAX)"
proof (induction fs arbitrary: vs)
  case (Cons f fs)
  then obtain v ws where v: "field_value f = Some v" "field_values fs = Some ws" "vs = v # ws" by (auto split: option.splits)
  have "0 \<le> v \<and> v \<le> UINT_MAX"
    using v(1) base_value_nonneg by (auto simp: field_value_def number_in_def split: if_splits)
  with Cons.IH[OF v(2)] v(3) show ?case by auto
qed simp

lemma numeric_host_range:
  assumes "numeric_host s = Some ps"
  shows "ps \<noteq> []" "length ps \<le> 4" "\<forall>p\<in>set ps. 0 \<le> p \<and> p \<le> UINT_MAX"
proof -
  define fs where "fs = (if 1 < length (dot_fields s) \<and> last (dot_fields s) = [] then butlast (dot_fields s) else dot_fields s)"
  have f: "length fs \<le> 4" "field_values fs = Some ps" using assms by (auto simp: numeric_host_def fs_def Let_def split: if_splits)
  moreover have "fs \<noteq> []" by (cases "dot_fields s" rule: rev_cases) (auto simp: fs_def)
  ultimately show "ps \<noteq> []" "length ps \<le> 4" "\<forall>p\<in>set ps. 0 \<le> p \<and> p \<le> UINT_MAX" using field_values_range[OF f(2)] by auto
qed

definition parts_in_range :: "int list \<Rightarrow> bool" where
  "parts_in_range ps \<longleftrightarrow> (\<forall>p\<in>set (butlast ps). p \<le> 255) \<and> last ps < 256 ^ (5 - length ps)"

lemma octet_sum: "v div 16777216 * 16777216 + v div 65536 mod 256 * 65536 + v div 256 mod 256 * 256 + v mod 256 = (v::int)"
proof -
  define x y z where "x = v div 256" and "y = x div 256" and "z = y div 256"
  have "v div 65536 = y" "v div 16777216 = z" by (simp_all add: x_def y_def z_def zdiv_zmult2_eq[symmetric])
  moreover have "256 * x + v mod 256 = v" "256 * y + x mod 256 = x" "256 * z + y mod 256 = y" by (simp_all add: x_def y_def z_def)
  ultimately show ?thesis unfolding x_def[symmetric] by simp
qed

lemma byte_of_facts: "0 \<le> v \<Longrightarrow> int (byte_of v k) = v div 2 ^ k mod 256" "byte_of v k \<le> 255"
  by (simp_all add: byte_of_def nat_le_iff)

lemma quad_value_simp: "quad_value [a, b, c, d] = int a * 16777216 + int b * 65536 + int c * 256 + int d"
  by (simp add: quad_value_def)

lemma parts_value_simps:
  "parts_value [a] = a" "parts_value [a, b] = a * 16777216 + b" "parts_value [a, b, c] = a * 16777216 + b * 65536 + c"
  "parts_value [a, b, c, d] = a * 16777216 + b * 65536 + c * 256 + d"
  by (simp_all add: parts_value_def numeral_eq_Suc)

definition octets_ok :: "int list \<Rightarrow> nat list option \<Rightarrow> bool" where
  "octets_ok ps r \<longleftrightarrow> (case r of
      None \<Rightarrow> \<not> parts_in_range ps
    | Some a \<Rightarrow> parts_in_range ps \<and> length a = 4 \<and> (\<forall>x\<in>set a. x \<le> 255) \<and> quad_value a = parts_value ps)"

lemma octets_ok_1: "0 \<le> a \<Longrightarrow> a \<le> UINT_MAX \<Longrightarrow> octets_ok [a] (ipv4_octets [a])"
proof -
  assume a: "0 \<le> a" "a \<le> UINT_MAX"
  have "int (nat (a div 16777216)) = a div 16777216" using a by simp
  moreover have "nat (a div 16777216) \<le> 255" using a zdiv_mono1[of a 4294967295 16777216] by (simp add: UINT_MAX_def nat_le_iff)
  moreover have "quad_value [nat (a div 16777216), byte_of a 16, byte_of a 8, byte_of a 0] = a"
  proof -
    have "int (byte_of a 16) = a div 65536 mod 256" "int (byte_of a 8) = a div 256 mod 256" "int (byte_of a 0) = a mod 256"
      using byte_of_facts(1)[OF a(1), of 16] byte_of_facts(1)[OF a(1), of 8] byte_of_facts(1)[OF a(1), of 0] by simp_all
    with calculation(1) octet_sum[of a] show ?thesis unfolding quad_value_simp by linarith
  qed
  ultimately show ?thesis using a by (simp add: octets_ok_def ipv4_octets_def parts_in_range_def parts_value_simps byte_of_facts UINT_MAX_def)
qed

lemma octets_ok_2: "0 \<le> a \<Longrightarrow> 0 \<le> b \<Longrightarrow> octets_ok [a, b] (ipv4_octets [a, b])"
proof -
  assume v: "0 \<le> a" "0 \<le> b"
  have "quad_value [nat a, byte_of b 16, byte_of b 8, byte_of b 0] = a * 16777216 + b" if "b \<le> 16777215"
    using v that octet_sum[of b] unfolding quad_value_simp by (simp add: byte_of_facts)
  then show ?thesis using v by (auto simp: octets_ok_def ipv4_octets_def parts_in_range_def parts_value_simps byte_of_facts nat_le_iff)
qed

lemma octets_ok_3: "0 \<le> a \<Longrightarrow> 0 \<le> b \<Longrightarrow> 0 \<le> c \<Longrightarrow> octets_ok [a, b, c] (ipv4_octets [a, b, c])"
proof -
  assume v: "0 \<le> a" "0 \<le> b" "0 \<le> c"
  have "quad_value [nat a, nat b, byte_of c 8, byte_of c 0] = a * 16777216 + b * 65536 + c" if "c \<le> 65535"
    using v that octet_sum[of c] unfolding quad_value_simp by (simp add: byte_of_facts)
  then show ?thesis using v by (auto simp: octets_ok_def ipv4_octets_def parts_in_range_def parts_value_simps byte_of_facts nat_le_iff)
qed

lemma octets_ok_4: "0 \<le> a \<Longrightarrow> 0 \<le> b \<Longrightarrow> 0 \<le> c \<Longrightarrow> 0 \<le> d \<Longrightarrow> octets_ok [a, b, c, d] (ipv4_octets [a, b, c, d])"
  by (auto simp: octets_ok_def ipv4_octets_def parts_in_range_def parts_value_simps quad_value_simp nat_le_iff)

lemma octets_exact:
  assumes "ps \<noteq> []" "length ps \<le> 4" "\<forall>p\<in>set ps. 0 \<le> p \<and> p \<le> UINT_MAX"
  shows "octets_ok ps (ipv4_octets ps)"
proof -
  consider a where "ps = [a]" | a b where "ps = [a, b]" | a b c where "ps = [a, b, c]" | a b c d where "ps = [a, b, c, d]"
    using assms(1,2) by (cases ps; cases "tl ps"; cases "tl (tl ps)"; cases "tl (tl (tl ps))") auto
  then show ?thesis using assms(3) by cases (simp_all add: octets_ok_1 octets_ok_2 octets_ok_3 octets_ok_4)
qed

section \<open>Text of the buffer\<close>

lemma dyn_cstr_str: "dyn_ok d \<Longrightarrow> NUL \<notin> set (dyn_str d) \<Longrightarrow> dyn_cstr d = dyn_str d"
proof (cases "curlx_dyn_ptr d")
  case None
  assume "dyn_ok d"
  with None show ?thesis using length_dyn_str[of d] by (auto simp: dyn_cstr_def curlx_dyn_ptr_def dyn_ok_def)
next
  case (Some b)
  assume "dyn_ok d" "NUL \<notin> set (dyn_str d)"
  with Some show ?thesis using dyn_string by (simp add: dyn_cstr_def)
qed

lemma dyn_cstr_write [simp]: "dyn_cstr (host_write d s) = cstr s"
proof -
  have "cstr (s @ NUL # r) = cstr s" for r by (induction s) (simp_all add: cstr_def)
  then show ?thesis by (simp add: dyn_cstr_def host_write_def curlx_dyn_ptr_def mem_write_def)
qed

lemma dyn_cstr_NUL [simp]: "NUL \<notin> set (dyn_cstr d)"
  by (simp add: dyn_cstr_def split: option.splits)

lemma length_dotted: "length a = 4 \<Longrightarrow> \<forall>x\<in>set a. x \<le> 255 \<Longrightarrow> length (dotted a) \<le> 15"
  using length_dots[of a] by (simp add: dotted_dots)

lemma dotted_no_NUL: "length a = 4 \<Longrightarrow> NUL \<notin> set (dotted a)"
  by (simp add: dotted_dots dots_NUL)

definition is_quad :: "nat list \<Rightarrow> bool" where
  "is_quad a \<longleftrightarrow> length a = 4 \<and> list_all (\<lambda>x. x \<le> 255) a"

lemma ipv4_normalize_facts:
  assumes "dyn_ok host" "peek (dyn_cstr host) \<noteq> CHR ''[''" "15 < toobig host" "ipv4_normalize host h = (ty, host', h')"
  shows "case numeric_host (dyn_cstr host) of
      None \<Rightarrow> ty = HOST_NAME \<and> host' = host \<and> h' = h
    | Some ps \<Rightarrow>
        if parts_in_range ps then
          ty = HOST_IPV4 \<and> (\<exists>a. is_quad a \<and> quad_value a = parts_value ps \<and> dyn_cstr host' = dotted a) \<or> ty = HOST_ERROR \<and> (\<exists>i. \<not> h i)
        else ty = HOST_NAME \<and> host' = host \<and> h' = h"
proof (cases "numeric_host (dyn_cstr host)")
  case None
  then show ?thesis using assms(2,4) by (simp add: ipv4_normalize_def numeric_host_loop Let_def)
next
  case (Some ps)
  have ok: "octets_ok ps (ipv4_octets ps)" using octets_exact numeric_host_range[OF Some] by blast
  show ?thesis
  proof (cases "ipv4_octets ps")
    case None
    then show ?thesis using Some ok assms(2,4) by (simp add: ipv4_normalize_def numeric_host_loop octets_ok_def Let_def)
  next
    case a: (Some a)
    then have quad: "parts_in_range ps" "is_quad a" "quad_value a = parts_value ps" using ok by (auto simp: octets_ok_def is_quad_def list_all_iff)
    note reset = dyn_reset_ok[OF assms(1)]
    obtain r host1 h1 where add: "curlx_dyn_addf (curlx_dyn_reset host) h (dotted a) = (r, host1, h1)" by (metis prod_cases3)
    note R = dyn_addf_OK[OF conjunct1[OF reset] add]
    have len: "length (dotted a) \<le> 15" "NUL \<notin> set (dotted a)" using quad(2) length_dotted dotted_no_NUL by (auto simp: is_quad_def list_all_iff)
    have res: "ty = (if r \<noteq> CURLE_OK then HOST_ERROR else HOST_IPV4)" "host' = host1"
      using Some a add assms(2,4) by (auto simp: ipv4_normalize_def numeric_host_loop Let_def)
    show ?thesis
    proof (cases "r = CURLE_OK")
      case True
      then have "dyn_cstr host1 = dotted a" using R reset len dyn_cstr_str[of host1] by simp
      then show ?thesis using Some quad res True by auto
    next
      case False
      then have "\<exists>i. \<not> h i" using R reset len(1) assms(3) by auto
      then show ?thesis using Some quad res False by auto
    qed
  qed
qed

section \<open>What the IPv6 reader accepts\<close>

definition addr_char :: "char \<Rightarrow> bool" where
  "addr_char c \<longleftrightarrow> ISXDIGIT c \<or> c = CHR '':'' \<or> c = CHR ''.''"

lemma dots_chars: "c \<in> set (dots xs) \<Longrightarrow> addr_char c"
  using show_nat_digits by (induction xs rule: dots.induct) (auto simp: addr_char_def ISXDIGIT_def)

lemma pton6_loop_bytes:
  assumes "pton6_loop s tp cp ct k v = Some (tp', cp', k', v')" "length tp \<le> 16" "\<forall>x\<in>set tp. x < 256"
    "NUL \<notin> set ct" "\<exists>p. ct = p @ s"
  shows "length tp' \<le> 16 \<and> (\<forall>x\<in>set tp'. x < 256) \<and> (\<forall>c\<in>set s. addr_char c)"
  using assms
proof (induction s tp cp ct k v rule: pton6_loop.induct)
  case (2 ch src tp cp ct k v)
  obtain p where p: "ct = p @ ch # src" using "2.prems"(5) by blast
  then have q: "\<exists>q. ct = q @ src" by (intro exI[of _ "p @ [ch]"]) simp
  have nul: "NUL \<notin> set src" using "2.prems"(4) p by simp
  consider (digit) "ISXDIGIT ch" | (colon) "ch = CHR '':''" | (dot) "ch = CHR ''.''" using "2.prems"(1) by (auto split: if_splits)
  then show ?case
  proof cases
    case digit
    then have k: "\<not> 4 < k + 1" "pton6_loop src tp cp ct (k + 1) (v * 16 + curlx_hexval ch) = Some (tp', cp', k', v')"
      using "2.prems"(1) by (auto split: if_splits)
    show ?thesis using "2.IH"(1)[OF digit k(1,2) "2.prems"(2,3,4) q] digit by (simp add: addr_char_def)
  next
    case colon
    have s: "\<exists>p. src = p @ src" by simp
    show ?thesis
    proof (cases "k = 0")
      case True
      then have c: "cp = None" "pton6_loop src tp (Some (length tp)) src 0 v = Some (tp', cp', k', v')"
        using "2.prems"(1) colon by (auto split: if_splits)
      show ?thesis using "2.IH"(2)[OF _ colon True _ c(2) "2.prems"(2,3) nul s] colon c(1) by (simp add: addr_char_def)
    next
      case False
      then have c: "\<not> 16 < length tp + 2" "pton6_loop src (tp @ word_bytes v) cp src 0 0 = Some (tp', cp', k', v')"
        using "2.prems"(1) colon by (auto simp: IN6ADDRSZ_def split: if_splits)
      have w: "length (tp @ word_bytes v) \<le> 16" "\<forall>x\<in>set (tp @ word_bytes v). x < 256"
        using c(1) "2.prems"(3) by (auto simp: word_bytes_def)
      show ?thesis using "2.IH"(3)[OF _ colon False _ c(2) w nul s] colon c(1) by (simp add: addr_char_def IN6ADDRSZ_def)
    qed
  next
    case dot
    then obtain v4 where v4: "inet_pton4 ct = Some v4" "length tp + 4 \<le> 16" "tp' = tp @ v4"
      using "2.prems"(1) by (auto simp: IN6ADDRSZ_def split: if_splits option.splits)
    then have "length v4 = 4" "\<forall>x\<in>set v4. x \<le> 255" "ct = dots v4" using inet_pton4_iff[of ct v4] "2.prems"(4) by simp_all
    moreover have "\<forall>c\<in>set (ch # src). addr_char c" using dots_chars[of _ v4] p calculation(3) by (metis Un_iff set_append)
    ultimately show ?thesis using v4 "2.prems"(3) by auto
  qed
qed simp

lemma inet_pton6_facts:
  assumes "inet_pton6 s = Some a"
  shows "length a = 16" "\<forall>x\<in>set a. x < 256" "\<forall>c\<in>set (cstr s). addr_char c"
proof -
  define src where "src = (if peek (cstr s) = CHR '':'' then tl (cstr s) else cstr s)"
  obtain tp cp k v where l: "pton6_loop src [] None src 0 0 = Some (tp, cp, k, v)" "pton6_finish (tp, cp, k, v) = Some a"
    using assms by (auto simp: inet_pton6_def src_def Let_def split: if_splits option.splits)
  have "NUL \<notin> set src" using NUL_notin_cstr[of s] by (auto simp: src_def dest: list.set_sel(2)[rotated] split: if_splits) (metis NUL_notin_cstr list.set_sel(2) tl_Nil)
  then have tp: "length tp \<le> 16" "\<forall>x\<in>set tp. x < 256" "\<forall>c\<in>set src. addr_char c"
    using pton6_loop_bytes[OF l(1)] by auto
  show "length a = 16" "\<forall>x\<in>set a. x < 256"
    using l(2) tp by (auto simp: pton6_finish_def IN6ADDRSZ_def word_bytes_def Let_def dest!: in_set_takeD in_set_dropD split: if_splits option.splits)
  show "\<forall>c\<in>set (cstr s). addr_char c"
    using tp(3) by (cases "cstr s") (auto simp: src_def addr_char_def peek_def split: if_splits)
qed

lemma ipv6_normalize_facts:
  assumes "ipv6_normalize s = Some t" "NUL \<notin> set s"
  shows "length t \<le> length s" "\<exists>a. inet_pton6 t = Some a \<and> inet_pton6 s = Some a" "NUL \<notin> set t"
proof -
  obtain a where a: "inet_pton6 s = Some a" using assms(1) by (auto simp: ipv6_normalize_def curlx_inet_pton_def split: option.splits)
  obtain t' where t': "ntop6_gives a t'" using ntop6_text inet_pton6_facts(1,2)[OF a] by blast
  have "t = (if length s + 1 \<le> length t' then s else t')"
    using assms(1) a t' by (auto simp: ipv6_normalize_def curlx_inet_pton_def curlx_inet_ntop_def ntop6_gives_def split: if_splits)
  moreover have "NUL \<notin> set t'" using t' by (simp add: ntop6_gives_def)
  ultimately show "length t \<le> length s" "\<exists>a. inet_pton6 t = Some a \<and> inet_pton6 s = Some a" "NUL \<notin> set t"
    using t' a assms(2) by (auto simp: ntop6_gives_def)
qed

section \<open>Accepted hosts\<close>

text \<open>
  A host that may be stored: in brackets, an IPv6 address; without them, not empty and free of every
  character that ends or separates the parts of a URL.
\<close>

definition safe_host :: "bytes \<Rightarrow> bool" where
  "safe_host s \<longleftrightarrow>
     (if peek s = CHR ''['' then
        (let a = butlast (tl s) in s = ''['' @ a @ '']'' \<and> inet_pton6 a \<noteq> None \<and> list_all addr_char a)
      else s \<noteq> [] \<and> list_all (\<lambda>c. c \<notin> set HOSTNAME_INVALID_CHARS) s)"

lemma safe_bracket: "inet_pton6 a \<noteq> None \<Longrightarrow> NUL \<notin> set a \<Longrightarrow> safe_host (''['' @ a @ '']'')"
  using inet_pton6_facts(3)[of a] by (auto simp: safe_host_def peek_def list_all_iff)

lemma safe_dotted: "is_quad a \<Longrightarrow> safe_host (dotted a)"
proof -
  assume a: "is_quad a"
  then have d: "dotted a = dots a" "dots a \<noteq> []" by (auto simp: is_quad_def dotted_dots intro!: dots_nonempty)
  have c: "c \<in> set (dots a) \<Longrightarrow> isdigit c \<or> c = CHR ''.''" for c
    using show_nat_digits by (induction a rule: dots.induct) auto
  have "isdigit c \<or> c = CHR ''.'' \<Longrightarrow> c \<notin> set HOSTNAME_INVALID_CHARS \<and> c \<noteq> CHR ''[''" for c
    by (auto simp: HOSTNAME_INVALID_CHARS_def isdigit_def byte_val_def)
  with c d show ?thesis by (cases "dots a") (auto simp: safe_host_def list_all_iff peek_def)
qed

lemma ipv6_parse_OK:
  assumes "ipv6_parse u s h = (CURLUE_OK, u', s', h')" "NUL \<notin> set s"
  shows "safe_host s'" "length s' \<le> length s" "NUL \<notin> set s'" "u_portnum u' = u_portnum u"
proof -
  define len where "len = length (takeWhile (\<lambda>c. c \<in> set ''0123456789abcdefABCDEF:.'') (tl s))"
  obtain a where a: "4 \<le> length s" "ipv6_normalize (take len (tl s)) = Some a" "s' = ''['' @ a @ '']''"
    and u: "u_portnum u' = u_portnum u"
    and l: "length s - 2 = len \<or> peek (drop len (tl s)) = CHR ''%'' \<and> zone_id (drop (len + 1) (tl s)) \<noteq> None"
    using assms(1) unfolding ipv6_parse_def Let_def len_def[symmetric]
    by (auto split: if_splits option.splits prod.splits)
  have nul: "NUL \<notin> set (take len (tl s))" using assms(2) a(1) by (cases s) (auto dest: in_set_takeD)
  note N = ipv6_normalize_facts[OF a(2) nul]
  show "safe_host s'" "NUL \<notin> set s'" "u_portnum u' = u_portnum u" using N a(3) u safe_bracket[of a] by auto
  have "len + 2 \<le> length s"
  proof (rule disjE[OF l])
    assume "peek (drop len (tl s)) = CHR ''%'' \<and> zone_id (drop (len + 1) (tl s)) \<noteq> None"
    then have "drop (len + 1) (tl s) \<noteq> []" by (auto simp: zone_id_def peek_def)
    then show ?thesis by simp
  qed (use a(1) in simp)
  then show "length s' \<le> length s" using N(1) a(3) by simp
qed

lemma takeWhile_all: "length xs = length (takeWhile P xs) \<Longrightarrow> list_all P xs"
  by (induction xs) (auto split: if_splits)

lemma hostname_check_OK:
  assumes "hostname_check u s h = (CURLUE_OK, u', s', h')" "NUL \<notin> set s"
  shows "safe_host s'" "length s' \<le> length s" "NUL \<notin> set s'" "u_portnum u' = u_portnum u"
proof -
  have ne: "s \<noteq> []" using assms(1) by (auto simp: hostname_check_def)
  have "safe_host s' \<and> length s' \<le> length s \<and> NUL \<notin> set s' \<and> u_portnum u' = u_portnum u"
  proof (cases "s ! 0 = CHR ''[''")
    case True
    then show ?thesis using assms ne ipv6_parse_OK[of u s h u' s' h'] by (simp add: hostname_check_def)
  next
    case False
    then have "s' = s" "u' = u" "length s = length (takeWhile (\<lambda>c. c \<notin> set HOSTNAME_INVALID_CHARS) s)"
      using assms(1) ne by (auto simp: hostname_check_def Let_def split: if_splits)
    moreover have "peek s \<noteq> CHR ''[''" using False ne by (cases s) (auto simp: peek_def)
    ultimately show ?thesis using takeWhile_all[of s] assms(2) ne by (auto simp: safe_host_def)
  qed
  then show "safe_host s'" "length s' \<le> length s" "NUL \<notin> set s'" "u_portnum u' = u_portnum u" by simp_all
qed

lemma check_host_OK:
  assumes "check_host u host h = (CURLUE_OK, u', host', h')" "dyn_ok host" "15 < toobig host"
  shows "safe_host (dyn_cstr host') \<and> u_portnum u' = u_portnum u"
proof -
  obtain ty host1 h1 where n: "ipv4_normalize host h = (ty, host1, h1)" by (metis prod_cases3)
  show ?thesis
  proof (cases "peek (dyn_cstr host) = CHR ''[''")
    case True
    then have ty: "ty = HOST_IPV6" "host1 = host" "h1 = h" using n by (auto simp: ipv4_normalize_def Let_def)
    obtain uc s' where "ipv6_parse u (dyn_cstr host) h = (CURLUE_OK, u', s', h')" "host' = host_write host s'"
      using assms(1) n ty by (auto simp: check_host_def split: prod.splits)
    with ipv6_parse_OK[OF this(1)] show ?thesis by simp
  next
    case False
    note F = ipv4_normalize_facts[OF assms(2) False assms(3) n]
    show ?thesis
    proof (cases ty)
      case HOST_IPV4
      then show ?thesis using F assms(1) n safe_dotted by (auto simp: check_host_def split: option.splits if_splits)
    next
      case HOST_NAME
      obtain s' where "hostname_check u (dyn_cstr host1) h1 = (CURLUE_OK, u', s', h')" "host' = host_write host1 s'"
        using assms(1) n HOST_NAME by (auto simp: check_host_def split: prod.splits)
      with hostname_check_OK[OF this(1)] show ?thesis by simp
    qed (use F assms(1) n in \<open>auto simp: check_host_def split: option.splits if_splits\<close>)
  qed
qed

section \<open>The authority as a whole\<close>

lemma host_setlen_ok:
  assumes "dyn_ok host"
  shows "dyn_ok (host_setlen host n) \<and> toobig (host_setlen host n) = toobig host \<and>
    (bufr host \<noteq> None \<and> n \<le> length (dyn_str host) \<longrightarrow> dyn_str (host_setlen host n) = take n (dyn_str host))"
proof (cases "bufr host \<noteq> None \<or> length (dyn_str host) < n")
  case True
  then obtain r s' where s': "curlx_dyn_setlen host n = Some (r, s')" "dyn_ok s'" "n \<le> length (dyn_str host) \<longrightarrow> dyn_str s' = take n (dyn_str host)"
    using dyn_setlen_ok[OF assms, of n] by (auto split: if_splits)
  moreover have "toobig s' = toobig host" using s'(1) by (auto simp: curlx_dyn_setlen_def split: if_splits option.splits)
  ultimately show ?thesis by (simp add: host_setlen_def)
next
  case False
  then have "curlx_dyn_setlen host n = None" using length_dyn_str[OF assms] by (simp add: curlx_dyn_setlen_def)
  then show ?thesis using assms False by (simp add: host_setlen_def)
qed

lemma str_number_range: "curlx_str_number s 0xffff = (rc, port, rest) \<Longrightarrow> 0 \<le> port \<and> port \<le> 65535"
  using base_value_nonneg unfolding curlx_str_number_def by (subst (asm) str_num_base_eq) (auto simp: Let_def split: if_splits)

lemma parse_port_keeps:
  assumes "parse_port u host has_scheme = (uc, u', host')" "dyn_ok host"
  shows "dyn_ok host' \<and> toobig host' = toobig host \<and> u_portnum u' \<le> 65535"
  using assms host_setlen_ok[OF assms(2)] str_number_range
  by (auto simp: parse_port_def Let_def nat_le_iff split: sum.splits option.splits if_splits prod.splits)

lemma urldecode_host_keeps:
  assumes "urldecode_host host h = (CURLUE_OK, host', h')" "dyn_ok host"
  shows "dyn_ok host' \<and> toobig host' = toobig host"
proof (cases "CHR ''%'' \<in> set (dyn_cstr host)")
  case True
  note reset = dyn_reset_ok[OF assms(2)]
  obtain t r h1 where add: "curlx_dyn_addn (curlx_dyn_reset host) h1 t = (r, host', h')" "r = CURLE_OK"
    using assms(1) True by (auto simp: urldecode_host_def cc2cu_def Let_def split: prod.splits if_splits)
  from dyn.addn_OK[OF conjunct1[OF reset] add(1)[unfolded add(2)]] reset show ?thesis by simp
qed (use assms in \<open>auto simp: urldecode_host_def Let_def\<close>)

lemma find_port_colon:
  assumes "find_port s = Inr (Some k)"
  shows "k < length s" "s = take k s @ CHR '':'' # drop (k + 1) s"
proof -
  have k: "k < length s \<and> s ! k = CHR '':''"
  proof (cases "peek s = CHR ''[''")
    case True
    then obtain i where i: "drop (i + 1) s \<noteq> []" "peek (drop (i + 1) s) = CHR '':''" "k = i + 1"
      using assms by (auto simp: find_port_def Let_def split: option.splits if_splits)
    then have "i + 1 < length s" by simp
    then show ?thesis using i by (simp add: Cons_nth_drop_Suc[symmetric] peek_def)
  next
    case False
    then show ?thesis using assms index_of_SomeD by (fastforce simp: find_port_def)
  qed
  then show "k < length s" "s = take k s @ CHR '':'' # drop (k + 1) s" using id_take_nth_drop[of k s] by auto
qed

lemma find_port_error: "find_port s \<noteq> Inl CURLUE_OK"
  by (auto simp: find_port_def Let_def split: option.splits)

lemma str_number_whole:
  assumes "curlx_str_number s mx = (STRE_OK, v, [])" "0 \<le> mx"
  shows "s \<noteq> []" "list_all isdigit s" "base_value 10 s = v"
proof -
  have b: "(10::int) \<in> {8, 10, 16}" by simp
  have e: "takeWhile (digit_of_base 10) s \<noteq> []" "dropWhile (digit_of_base 10) s = []" "v = base_value 10 (takeWhile (digit_of_base 10) s)"
    using assms(1) unfolding curlx_str_number_def str_num_base_eq[OF b assms(2)] by (auto simp: Let_def split: if_splits)
  then have t: "takeWhile (digit_of_base 10) s = s" by (metis takeWhile_dropWhile_id append_Nil2)
  show "base_value 10 s = v" using e(3) by (simp only: t)
  show "s \<noteq> []" "list_all isdigit s" using e(1) t by (auto simp: list_all_iff digit_of_base_iff takeWhile_eq_all_conv)
qed

lemma parse_authority_safe:
  assumes "dyn_ok host" "15 < toobig host" "parse_authority cfg u auth fl host has_scheme h = (CURLUE_OK, u', host', h')"
  shows "safe_host (dyn_cstr host') \<and> u_portnum u' \<le> 65535"
proof -
  obtain u1 off h1 where l: "parse_hostname_login cfg u auth fl h = (CURLUE_OK, u1, off, h1)"
    using assms(3) by (auto simp: parse_authority_def split: prod.splits if_splits)
  obtain r2 d2 h2 where a: "curlx_dyn_addn host h1 (drop off auth) = (r2, d2, h2)" by (metis prod_cases3)
  with assms(3) l have r2: "r2 = CURLE_OK" by (auto simp: parse_authority_def cc2cu_def split: if_splits)
  have d2: "dyn_ok d2" "toobig d2 = toobig host" using dyn.addn_OK[OF assms(1) a[unfolded r2]] by simp_all
  obtain uc u3 d3 where p: "parse_port u1 d2 has_scheme = (uc, u3, d3)" by (metis prod_cases3)
  note P = parse_port_keeps[OF p d2(1)]
  obtain d4 h4 where e: "urldecode_host d3 h2 = (CURLUE_OK, d4, h4)" "check_host u3 d4 h4 = (CURLUE_OK, u', host', h')"
    using assms(3) l a r2 p by (auto simp: parse_authority_def Let_def split: if_splits prod.splits)
  have "dyn_ok d4" "toobig d4 = toobig host" using urldecode_host_keeps[OF e(1)] P d2(2) by simp_all
  with check_host_OK[OF e(2)] P assms(2) show ?thesis by simp
qed

section \<open>Properties\<close>

text \<open>C22: Numerical hosts. A host is rewritten as four decimal octets exactly when it is one to four numbers, decimal,
  octal or hexadecimal, separated by dots and perhaps followed by one, every number but the last an octet and the
  last in the range of the octets left; the octets written have the value the numbers have. Every other text is
  left as it is and treated as a name. So no spelling of an address escapes the normalization.\<close>

theorem ipv4_normalize_exact:
  assumes "dyn_ok host" "15 < toobig host" "peek (dyn_cstr host) \<noteq> CHR ''[''" "ipv4_normalize host h = (ty, host', h')"
  shows "if \<exists>ps. numeric_host (dyn_cstr host) = Some ps \<and> parts_in_range ps
    then ty = HOST_IPV4 \<and> (\<exists>a. is_quad a \<and> dyn_cstr host' = dotted a \<and>
        quad_value a = parts_value (the (numeric_host (dyn_cstr host)))) \<or> ty = HOST_ERROR \<and> (\<exists>i. \<not> h i)
    else ty = HOST_NAME \<and> host' = host"
  using ipv4_normalize_facts[OF assms(1,3,2,4)] by (auto split: option.splits if_splits)

definition sample_host :: "bytes \<Rightarrow> dynbuf" where
  "sample_host s = fst (snd (curlx_dyn_addn (curlx_dyn_init 64) (\<lambda>_. True) s))"

theorem ipv4_normalize_exact_witness:
  "\<exists>ty host' h'. ipv4_normalize (sample_host ''0x7f.1'') (\<lambda>_. True) = (ty, host', h') \<and> ty = HOST_IPV4 \<and>
     (\<exists>a. is_quad a \<and> dyn_cstr host' = dotted a \<and> quad_value a = 2130706433)"
proof -
  let ?host = "sample_host ''0x7f.1''"
  obtain ty host' h' where n: "ipv4_normalize ?host (\<lambda>_. True) = (ty, host', h')" by (metis prod_cases3)
  have ok: "dyn_ok ?host" "15 < toobig ?host" and c: "dyn_cstr ?host = ''0x7f.1''" by code_simp+
  have v: "numeric_host ''0x7f.1'' = Some [127, 1]" by code_simp
  have "parts_in_range [127, 1]" "parts_value [127, 1] = 2130706433" by (simp_all add: parts_in_range_def parts_value_simps)
  then show ?thesis using ipv4_normalize_exact[OF ok _ n] n c v by (auto simp: peek_def)
qed


definition blank_url :: Curl_URL where
  "blank_url = \<lparr>u_scheme = None, u_user = None, u_password = None, u_options = None, u_host = None, u_zoneid = None,
     u_path = None, u_query = None, u_fragment = None, u_portnum = 0, u_port_present = False, u_query_present = False,
     u_fragment_present = False, u_guessed_scheme = False\<rparr>"


text \<open>The port. When an authority passes, its text is the host that is kept and then nothing, or a colon alone,
  which only a URL with a scheme may have, or a colon and decimal digits to the end, whose value, at most 65535, is
  the port that is stored.\<close>

theorem parse_port_exact:
  assumes "dyn_ok host" "NUL \<notin> set (dyn_str host)" "parse_port u host has_scheme = (CURLUE_OK, u', host')"
  shows "\<exists>rest. dyn_str host = dyn_str host' @ rest \<and>
    (if u_port_present u' then \<exists>ds. rest = CHR '':'' # ds \<and> ds \<noteq> [] \<and> list_all isdigit ds \<and>
        base_value 10 ds = int (u_portnum u') \<and> u_portnum u' \<le> 65535
     else u_portnum u' = 0 \<and> (rest = [] \<or> rest = '':'' \<and> has_scheme))"
proof -
  have s: "dyn_cstr host = dyn_str host" using dyn_cstr_str[OF assms(1,2)] .
  consider (none) "find_port (dyn_str host) = Inr None" | (some) k where "find_port (dyn_str host) = Inr (Some k)"
    using assms(3) s find_port_error[of "dyn_str host"] by (auto simp: parse_port_def Let_def split: sum.splits option.splits)
  then show ?thesis
  proof cases
    case none
    then show ?thesis using assms(3) s by (auto simp: parse_port_def Let_def)
  next
    case some
    note K = find_port_colon[OF some]
    define ds where "ds = drop (k + 1) (dyn_str host)"
    have "bufr host \<noteq> None" using K(1) assms(1) length_dyn_str[OF assms(1)] by (cases "bufr host") (auto simp: dyn_ok_def)
    then have cut: "dyn_str (host_setlen host k) = take k (dyn_str host)" using host_setlen_ok[OF assms(1), of k] K(1) by simp
    have host': "host' = host_setlen host k" using assms(3) s some by (auto simp: parse_port_def Let_def split: if_splits prod.splits)
    show ?thesis
    proof (cases "ds = []")
      case True
      then have "has_scheme \<and> \<not> u_port_present u' \<and> u_portnum u' = 0"
        using assms(3) s some by (auto simp: parse_port_def Let_def ds_def split: if_splits)
      then show ?thesis using K(2) True host' cut by (intro exI[of _ "'':''"]) (auto simp: ds_def)
    next
      case False
      then obtain port where n: "curlx_str_number ds 65535 = (STRE_OK, port, [])" "u_portnum u' = nat port" "u_port_present u'"
        using assms(3) s some by (auto simp: parse_port_def Let_def ds_def split: if_splits prod.splits)
      have "0 \<le> port \<and> port \<le> 65535" using str_number_range[of ds] n(1) by simp
      with str_number_whole[OF n(1)] n(2,3) K(2) host' cut show ?thesis
        by (intro exI[of _ "CHR '':'' # ds"]) (auto simp: ds_def nat_le_iff)
    qed
  qed
qed

theorem parse_port_exact_witness:
  "\<exists>u' host'. parse_port blank_url (sample_host ''[::1]:8080'') True = (CURLUE_OK, u', host') \<and>
     (\<exists>rest. dyn_str (sample_host ''[::1]:8080'') = dyn_str host' @ rest)"
proof -
  let ?d = "sample_host ''[::1]:8080''"
  have "fst (parse_port blank_url ?d True) = CURLUE_OK" by code_simp
  then obtain u' host' where p: "parse_port blank_url ?d True = (CURLUE_OK, u', host')" by (metis prod.collapse)
  have "dyn_ok ?d" "NUL \<notin> set (dyn_str ?d)" by code_simp+
  from parse_port_exact[OF this p] p show ?thesis by blast
qed

text \<open>The check of an IPv6 host takes the last character for the closing bracket without looking at it.\<close>

lemma bracket_not_checked:
  "fst (hostname_check blank_url ''[::1x'' (\<lambda>_. True)) = CURLUE_OK"
  "fst (parse_authority (\<lambda>_. False) blank_url ''%5B%3A%3A1x'' 0 (curlx_dyn_init 64) True (\<lambda>_. True)) = CURLUE_OK"
  by code_simp+

end
