(* ===== verification/Curl_Urlpath.thy ===== *)
theory Curl_Urlpath
  imports Curl_Escape
begin

unbundle bit_operations_syntax

text \<open>
  Removing dot segments from the path of a URL: \<open>is_dot\<close>, \<open>needs_dedotdot\<close> and \<open>dedotdotify\<close> of
  \<open>old/lib/urlapi.c\<close>. A path and its length are a byte list; a read at its end gives the
  terminator. The output is the growing buffer of \<open>Curl_Dynbuf\<close>.
\<close>

section \<open>Operations\<close>

definition is_dot :: "bytes \<Rightarrow> bytes option" where
  "is_dot p =
     (if peek p = CHR ''.'' then Some (tl p)
      else if length p \<ge> 3 \<and> p ! 0 = CHR ''%'' \<and> p ! 1 = CHR ''2'' \<and> byte_val (p ! 2) OR 0x20 = 0x65 then Some (drop 3 p)
      else None)"

definition ISSLASH :: "char \<Rightarrow> bool" where
  "ISSLASH x \<longleftrightarrow> x = CHR ''/''"

lemma is_dot_less: "is_dot p = Some q \<Longrightarrow> length q < length p"
  by (cases p) (auto simp: is_dot_def peek_def split: if_splits)

function needs_loop :: "bytes \<Rightarrow> bool" where
  "needs_loop p =
     (if p = [] then False
      else case is_dot p of
             Some p \<Rightarrow>
               if p = [] \<or> ISSLASH (peek p) then True
               else (case is_dot p of
                       Some p \<Rightarrow> if p = [] \<or> ISSLASH (peek p) then True else needs_loop p
                     | None \<Rightarrow> needs_loop p)
           | None \<Rightarrow> needs_loop (tl p))"
  by pat_completeness auto
termination
  by (relation "measure length") (auto dest!: is_dot_less)

declare needs_loop.simps [simp del]

definition needs_dedotdot :: "bytes \<Rightarrow> bool" where
  "needs_dedotdot p = (if length p < 2 then False else needs_loop p)"

text \<open>A dot segment after a slash: whether it goes up, and what follows it.\<close>

definition dot_segment :: "bytes \<Rightarrow> (bool \<times> bytes) option" where
  "dot_segment input =
     (if ISSLASH (peek input) then
        (case is_dot (tl input) of
           None \<Rightarrow> None
         | Some p \<Rightarrow>
             if p = [] \<or> ISSLASH (peek p) then Some (False, p)
             else (case is_dot p of
                     None \<Rightarrow> None
                   | Some p \<Rightarrow> if ISSLASH (peek p) \<or> p = [] then Some (True, p) else None))
      else None)"

lemma dot_segment_less: "dot_segment input = Some (up, p) \<Longrightarrow> length p < length input"
  by (cases input) (auto simp: dot_segment_def peek_def ISSLASH_def dest!: is_dot_less split: option.splits if_splits)

text \<open>Removing the last segment from the output buffer.\<close>

definition trim_output :: "dynbuf \<Rightarrow> dynbuf" where
  "trim_output out =
     (if curlx_dyn_len out \<noteq> 0 then
        (case last_index_of (CHR ''/'') (dyn_str out) of
           None \<Rightarrow> out
         | Some i \<Rightarrow> (case curlx_dyn_setlen out i of None \<Rightarrow> out | Some (_, out) \<Rightarrow> out))
      else out)"

function dedot_loop :: "bytes \<Rightarrow> dynbuf \<Rightarrow> heap \<Rightarrow> CURLcode \<times> dynbuf \<times> heap" where
  "dedot_loop input out h =
     (if input = [] then (CURLE_OK, out, h)
      else case dot_segment input of
             Some (up, p) \<Rightarrow>
               let out = (if up then trim_output out else out) in
               if p \<noteq> [] then dedot_loop p out h else curlx_dyn_addn out h ''/''
           | None \<Rightarrow>
               (case curlx_dyn_addn out h [hd input] of (result, out, h) \<Rightarrow>
                  if result \<noteq> CURLE_OK then (result, out, h) else dedot_loop (tl input) out h))"
  by pat_completeness auto
termination
  by (relation "measure (\<lambda>(input, out, h). length input)") (auto dest!: dot_segment_less)

declare dedot_loop.simps [simp del]

text \<open>The checks for leading dots; \<open>None\<close> is the jump to the end on a path that is \<open>..\<close> alone.\<close>

definition leading_dots :: "bytes \<Rightarrow> bytes option" where
  "leading_dots input =
     (case is_dot input of
        None \<Rightarrow> Some input
      | Some d \<Rightarrow>
          if ISSLASH (peek d) then Some (tl d)
          else (case is_dot d of
                  None \<Rightarrow> Some input
                | Some d \<Rightarrow> if d = [] then None else if ISSLASH (peek d) then Some (tl d) else Some input))"

definition dedotdotify :: "bytes \<Rightarrow> heap \<Rightarrow> int \<times> bytes option \<times> heap" where
  "dedotdotify input h =
     (if \<not> needs_dedotdot input then (0, None, h)
      else
        let out = curlx_dyn_init (length input + 1) in
        case (case leading_dots input of None \<Rightarrow> (CURLE_OK, out, h) | Some input \<Rightarrow> dedot_loop input out h) of
          (result, out, h) \<Rightarrow>
            if result = CURLE_OK then
              (if curlx_dyn_len out \<noteq> 0 then (0, map_option cstr (curlx_dyn_ptr out), h)
               else (case request h of (ok, h) \<Rightarrow> if ok then (0, Some [], h) else (1, None, h)))
            else (1, None, h))"

section \<open>Segments\<close>

definition segments :: "bytes \<Rightarrow> bytes list" where
  "segments s = split_on (CHR ''/'') s"

definition join_path :: "bytes list \<Rightarrow> bytes" where
  "join_path xs = concat (map (\<lambda>s. CHR ''/'' # s) xs)"

definition single_dot :: "bytes \<Rightarrow> bool" where
  "single_dot s \<longleftrightarrow> is_dot s = Some []"

definition double_dot :: "bytes \<Rightarrow> bool" where
  "double_dot s \<longleftrightarrow> (case is_dot s of None \<Rightarrow> False | Some q \<Rightarrow> single_dot q)"

text \<open>
  RFC 3986, section 5.2.4, on the segments of a path: a segment that is one dot is dropped, one that
  is two dots takes the segment before it along, and either of them at the end leaves an empty segment.
\<close>

fun remove_dots :: "bytes list \<Rightarrow> bytes list \<Rightarrow> bytes list" where
  "remove_dots [] out = out"
| "remove_dots (s # ss) out =
     (let out' = (if double_dot s then butlast out else if single_dot s then out else out @ [s]) in
      if ss = [] \<and> (double_dot s \<or> single_dot s) then out' @ [[]] else remove_dots ss out')"

definition remove_dot_segments :: "bytes \<Rightarrow> bytes" where
  "remove_dot_segments path = join_path (remove_dots (segments (tl path)) [])"

section \<open>Splitting a path\<close>

abbreviation SLASH :: char where "SLASH \<equiv> CHR ''/''"

lemmas segments_nonempty [simp] = split_on_nonempty[of SLASH, folded segments_def]
lemmas segments_append = split_on_append[of SLASH, folded segments_def]
lemmas segments_plain = split_on_plain[of SLASH, folded segments_def]
lemmas segments_no_slash = split_on_notin[of _ SLASH, folded segments_def]
lemmas segments_cases = split_on_cases[where c = SLASH, folded segments_def]

lemma join_path_simps [simp]:
  "join_path [] = []" "join_path (s # ss) = SLASH # s @ join_path ss" "join_path (us @ ss) = join_path us @ join_path ss"
  by (simp_all add: join_path_def)

lemma join_segments: "join_path (segments s) = SLASH # s"
  unfolding segments_def by (induction s) (auto split: list.splits)

section \<open>Dots\<close>

definition dot_text :: "bytes \<Rightarrow> bool" where
  "dot_text d \<longleftrightarrow> d = ''.'' \<or> d = ''%2e'' \<or> d = ''%2E''"

lemma letter_e: "byte_val c OR 32 = 101 \<longleftrightarrow> c = CHR ''e'' \<or> c = CHR ''E''"
proof -
  have "byte_val c OR 32 = byte_val c + of_bool (\<not> bit (byte_val c) 5) * 32"
    using set_bit_eq_or[of 5 "byte_val c"] set_bit_eq[of 5 "byte_val c"] by simp
  moreover have "(69::nat) OR 32 = 101" "(101::nat) OR 32 = 101" by simp_all
  ultimately have "(byte_val c OR 32 = 101) = (byte_val c = 101 \<or> byte_val c = 69)" by (cases "bit (byte_val c) 5") auto
  moreover have "c = CHR ''e'' \<longleftrightarrow> byte_val c = 101" "c = CHR ''E'' \<longleftrightarrow> byte_val c = 69"
    using byte_val_inject[of c "CHR ''e''"] byte_val_inject[of c "CHR ''E''"] by (simp_all add: byte_val_def del: byte_val_inject)
  ultimately show ?thesis by simp
qed

lemma is_dot_Some [simp]: "dot_text d \<Longrightarrow> is_dot (d @ q) = Some q"
  by (auto simp: dot_text_def is_dot_def peek_def letter_e)

lemma is_dot_SomeD: "is_dot p = Some q \<Longrightarrow> \<exists>d. dot_text d \<and> p = d @ q"
proof -
  assume p: "is_dot p = Some q"
  show ?thesis
  proof (cases "peek p = CHR ''.''")
    case True
    with p have "p = ''.'' @ q" by (cases p) (simp_all add: is_dot_def peek_def)
    then show ?thesis by (auto simp: dot_text_def)
  next
    case False
    then have h: "3 \<le> length p" "p ! 0 = CHR ''%''" "p ! 1 = CHR ''2''" "p ! 2 = CHR ''e'' \<or> p ! 2 = CHR ''E''" "q = drop 3 p"
      using p by (auto simp: is_dot_def letter_e split: if_splits)
    obtain a b c r where "p = a # b # c # r" using h(1) by (auto simp: Suc_le_length_iff numeral_eq_Suc)
    then have "p = [p ! 0, p ! 1, p ! 2] @ q" using h(5) by simp
    then have "p = [CHR ''%'', CHR ''2'', p ! 2] @ q" unfolding h(2,3) .
    then show ?thesis using h(4) by (intro exI[of _ "[CHR ''%'', CHR ''2'', p ! 2]"]) (auto simp: dot_text_def)
  qed
qed

lemma is_dot_iff: "is_dot p = Some q \<longleftrightarrow> (\<exists>d. dot_text d \<and> p = d @ q)"
  using is_dot_SomeD by auto

lemma dot_text_facts: "dot_text d \<Longrightarrow> SLASH \<notin> set d \<and> d \<noteq> []"
  by (auto simp: dot_text_def)

lemma dot_text_unique: "dot_text d \<Longrightarrow> dot_text e \<Longrightarrow> d @ q = e @ r \<Longrightarrow> d = e \<and> q = r"
  by (auto simp: dot_text_def)

lemma is_dot_within:
  assumes "SLASH \<notin> set s" "r = [] \<or> ISSLASH (peek r)"
  shows "is_dot (s @ r) = map_option (\<lambda>q. q @ r) (is_dot s)"
proof (cases "is_dot (s @ r)")
  case (Some q)
  then obtain d where d: "dot_text d" "s @ r = d @ q" by (auto simp: is_dot_iff)
  from d(2) obtain u where "s = d @ u \<and> u @ r = q \<or> s @ u = d \<and> r = u @ q" by (auto simp: append_eq_append_conv2)
  moreover have "u = []" if "s @ u = d" "r = u @ q"
    using that dot_text_facts[OF d(1)] assms(2) by (cases u) (auto simp: peek_def ISSLASH_def)
  ultimately have "s = d @ u" "q = u @ r" by auto
  then show ?thesis using Some d(1) by simp
next
  case None
  have "is_dot s = None"
  proof (cases "is_dot s")
    case (Some q)
    then obtain d where "dot_text d" "s = d @ q" by (auto simp: is_dot_iff)
    with None show ?thesis by simp
  qed
  with None show ?thesis by simp
qed

lemma single_dot_iff: "single_dot s \<longleftrightarrow> dot_text s"
  by (auto simp: single_dot_def is_dot_iff)

lemma double_dot_iff: "double_dot s \<longleftrightarrow> (\<exists>d e. dot_text d \<and> dot_text e \<and> s = d @ e)"
proof (cases "is_dot s")
  case None
  then have "\<nexists>d q. dot_text d \<and> s = d @ q" using is_dot_iff by auto
  with None show ?thesis by (auto simp: double_dot_def)
next
  case (Some q)
  then obtain d where "dot_text d" "s = d @ q" by (auto simp: is_dot_iff)
  with Some show ?thesis by (auto simp: double_dot_def single_dot_iff dest: dot_text_unique)
qed

lemma peek_slash: "ISSLASH (peek s) \<longleftrightarrow> (\<exists>t. s = SLASH # t)"
  by (cases s) (auto simp: peek_def ISSLASH_def)

lemma is_dot_no_slash: "is_dot s = Some q \<Longrightarrow> SLASH \<notin> set s \<Longrightarrow> SLASH \<notin> set q"
  by (auto simp: is_dot_iff)

lemma dot_segment_plain:
  assumes "SLASH \<notin> set x" "r = [] \<or> ISSLASH (peek r)"
  shows "dot_segment (SLASH # x @ r) = (if double_dot x then Some (True, r) else if single_dot x then Some (False, r) else None)"
proof (cases "is_dot x")
  case None
  then show ?thesis using is_dot_within[OF assms]
    by (simp add: dot_segment_def double_dot_def single_dot_def ISSLASH_def peek_def)
next
  case (Some q)
  have q: "SLASH \<notin> set q" using is_dot_no_slash[OF Some assms(1)] .
  have first: "is_dot (x @ r) = Some (q @ r)" using is_dot_within[OF assms] Some by simp
  have ends: "(u @ r = [] \<or> ISSLASH (peek (u @ r))) \<longleftrightarrow> u = []" if "SLASH \<notin> set u" for u
    using that assms(2) by (cases u) (auto simp: peek_def ISSLASH_def)
  show ?thesis
  proof (cases "is_dot q")
    case None
    then show ?thesis using first ends[OF q] is_dot_within[OF q assms(2)] Some
      by (simp add: dot_segment_def double_dot_def single_dot_def ISSLASH_def peek_def)
  next
    case q': (Some q')
    then have "q \<noteq> []" by (auto simp: is_dot_iff dot_text_def)
    then show ?thesis using first ends[OF q] ends[OF is_dot_no_slash[OF q' q]] is_dot_within[OF q assms(2)] Some q'
      by (auto simp: dot_segment_def double_dot_def single_dot_def ISSLASH_def peek_def)
  qed
qed

lemma needs_loop_dot:
  assumes "\<not> needs_loop p" "is_dot p = Some q"
  shows "q \<noteq> [] \<and> \<not> ISSLASH (peek q) \<and> \<not> needs_loop q"
  using assms
proof (induction p arbitrary: q rule: length_induct)
  case (1 p)
  have p: "p \<noteq> []" using "1.prems"(2) by (auto simp: is_dot_iff dot_text_def)
  have q: "q \<noteq> [] \<and> \<not> ISSLASH (peek q)" using 1(2,3) p by (auto simp: needs_loop.simps[of p])
  show ?case
  proof (cases "is_dot q")
    case None
    then show ?thesis using 1(2,3) p q by (simp add: needs_loop.simps[of p])
  next
    case (Some r)
    then have r: "r \<noteq> [] \<and> \<not> ISSLASH (peek r)" "\<not> needs_loop r" using 1(2,3) p q by (auto simp: needs_loop.simps[of p] split: if_splits)
    have "length r < length p" using is_dot_less[OF 1(3)] is_dot_less[OF Some] by simp
    with 1(1) r(2) have "is_dot r = Some s \<Longrightarrow> s \<noteq> [] \<and> \<not> ISSLASH (peek s) \<and> \<not> needs_loop s" for s by blast
    then show ?thesis using q r Some by (auto simp: needs_loop.simps[of q] split: option.splits)
  qed
qed

lemma needs_loop_tl: "\<not> needs_loop p \<Longrightarrow> is_dot p = None \<Longrightarrow> \<not> needs_loop (tl p)"
  by (cases "p = []") (simp_all add: needs_loop.simps[of p])

text \<open>A path in which the scan finds nothing has no dot before a slash or the end, wherever one looks.\<close>

lemma needs_loop_suffix:
  "\<not> needs_loop (u @ d @ r) \<Longrightarrow> dot_text d \<Longrightarrow> r \<noteq> [] \<and> \<not> ISSLASH (peek r)"
proof (induction u rule: length_induct)
  case (1 u)
  show ?case
  proof (cases u)
    case Nil
    then show ?thesis using needs_loop_dot[OF "1.prems"(1)] "1.prems"(2) by simp
  next
    case (Cons c u')
    show ?thesis
    proof (cases "is_dot (u @ d @ r)")
      case None
      then show ?thesis using needs_loop_tl[OF "1.prems"(1)] "1.prems"(2) "1.IH"[rule_format, of u'] Cons by simp
    next
      case (Some q)
      then obtain e where e: "dot_text e" "u @ d @ r = e @ q" by (auto simp: is_dot_iff)
      then obtain w where "u = e @ w \<and> q = w @ d @ r \<or> u @ w = e \<and> d @ r = w @ q" by (auto simp: append_eq_append_conv2)
      moreover have "w = []" if "u @ w = e" "d @ r = w @ q"
        using that e(1) "1.prems"(2) Cons by (auto simp: dot_text_def Cons_eq_append_conv append_eq_Cons_conv)
      ultimately have "u = e @ w" "q = w @ d @ r" by auto
      moreover have "\<not> needs_loop q" using needs_loop_dot[OF "1.prems"(1) Some] by simp
      ultimately show ?thesis using "1.IH"[rule_format, of w] "1.prems"(2) dot_text_facts[OF e(1)] by simp
    qed
  qed
qed

section \<open>The loop\<close>

lemma trim_output_join:
  assumes "dyn_ok out" "dyn_str out = join_path xs" "\<forall>x\<in>set xs. SLASH \<notin> set x"
  shows "dyn_ok (trim_output out) \<and> dyn_str (trim_output out) = join_path (butlast xs) \<and> toobig (trim_output out) = toobig out"
proof (cases xs rule: rev_cases)
  case Nil
  then show ?thesis using assms length_dyn_str[OF assms(1)] by (simp add: trim_output_def curlx_dyn_len_def)
next
  case (snoc ys y)
  then have str: "dyn_str out = join_path ys @ SLASH # y" "SLASH \<notin> set y" using assms(2,3) by simp_all
  then have len: "curlx_dyn_len out \<noteq> 0" using dyn_len_str[OF assms(1)] by simp
  then obtain b where b: "bufr out = Some b" using assms(1) by (cases "bufr out") (auto simp: dyn_ok_def curlx_dyn_len_def)
  let ?n = "length (join_path ys)"
  obtain r s' where s': "curlx_dyn_setlen out ?n = Some (r, s')" "dyn_ok s'" "dyn_str s' = take ?n (dyn_str out)"
    using dyn_setlen_ok[OF assms(1), of ?n] b str by auto
  moreover have "toobig s' = toobig out" using s'(1) b by (auto simp: curlx_dyn_setlen_def split: if_splits)
  moreover have "last_index_of SLASH (dyn_str out) = Some ?n" using str by simp
  ultimately show ?thesis using len str snoc by (simp add: trim_output_def)
qed

lemma dedot_copy:
  "SLASH \<notin> set t \<Longrightarrow> dedot_loop (t @ rest) out h =
    (case add_pieces curlx_dyn_addn out h (map (\<lambda>c. [c]) t) of (r, out, h) \<Rightarrow> if r \<noteq> CURLE_OK then (r, out, h) else dedot_loop rest out h)"
proof (induction t arbitrary: out h)
  case (Cons c t)
  then have "dot_segment (c # t @ rest) = None" by (auto simp: dot_segment_def peek_def ISSLASH_def)
  with Cons show ?case by (simp add: dedot_loop.simps[of "c # t @ rest"] split: prod.splits)
qed simp

text \<open>A segment that is no dot segment is copied with the slash before it.\<close>

lemma dedot_segment:
  assumes "SLASH \<notin> set x" "rest = [] \<or> ISSLASH (peek rest)" "\<not> double_dot x" "\<not> single_dot x"
  shows "dedot_loop (SLASH # x @ rest) out h =
    (case add_pieces curlx_dyn_addn out h (map (\<lambda>c. [c]) (SLASH # x)) of (r, out, h) \<Rightarrow> if r \<noteq> CURLE_OK then (r, out, h) else dedot_loop rest out h)"
proof -
  have "dot_segment (SLASH # x @ rest) = None" using dot_segment_plain[OF assms(1,2)] assms(3,4) by simp
  then show ?thesis using dedot_copy[OF assms(1), of rest] by (simp add: dedot_loop.simps[of "SLASH # x @ rest"] split: prod.splits)
qed

lemma add_chars:
  assumes "dyn_ok out" "length (dyn_str out) + length t < toobig out" "add_pieces curlx_dyn_addn out h (map (\<lambda>c. [c]) t) = (r, out', h')"
  shows "if r = CURLE_OK then dyn_ok out' \<and> dyn_str out' = dyn_str out @ t \<and> toobig out' = toobig out \<and> (\<exists>k. h' = (\<lambda>i. h (k + i)))
    else r = CURLE_OUT_OF_MEMORY \<and> (\<exists>i. \<not> h i)"
proof (cases "r = CURLE_OK")
  case True
  then show ?thesis using dyn.add_pieces_OK[OF assms(1) assms(3)[unfolded True]] dyn.add_pieces_heap[OF assms(3)] by simp
next
  case False
  then show ?thesis using dyn.add_pieces_fail[OF assms(1,3) False] assms(2) by auto
qed

definition dedot_result :: "heap \<Rightarrow> bytes \<Rightarrow> CURLcode \<times> dynbuf \<times> heap \<Rightarrow> bool" where
  "dedot_result h s res \<longleftrightarrow> (case res of (r, out, h') \<Rightarrow>
     if r = CURLE_OK then dyn_ok out \<and> dyn_str out = s else r = CURLE_OUT_OF_MEMORY \<and> (\<exists>i. \<not> h i))"

lemma dedot_result_later: "dedot_result (\<lambda>i. h (k + i)) s res \<Longrightarrow> dedot_result h s res"
  by (auto simp: dedot_result_def split: prod.splits if_splits)

lemma dedot_result_add:
  "dyn_ok out \<Longrightarrow> length (dyn_str out) + length t < toobig out \<Longrightarrow> dedot_result h (dyn_str out @ t) (curlx_dyn_addn out h t)"
proof -
  assume out: "dyn_ok out" "length (dyn_str out) + length t < toobig out"
  obtain r out' h' where a: "curlx_dyn_addn out h t = (r, out', h')" by (metis prod_cases3)
  show ?thesis using dyn.addn_OK[OF out(1), of h t out' h'] dyn.addn_fail[OF out(1) a] out(2) a
    by (auto simp: dedot_result_def)
qed

text \<open>The loop on a path that starts with a slash, with the segments already written.\<close>

lemma dedot_loop_segments:
  assumes "dyn_ok out" "dyn_str out = join_path xs" "\<forall>x\<in>set xs. SLASH \<notin> set x" "length (join_path xs) + length s + 1 < toobig out"
  shows "dedot_result h (join_path (remove_dots (segments s) xs)) (dedot_loop (SLASH # s) out h)"
  using assms
proof (induction s arbitrary: xs out h rule: length_induct)
  case (1 s)
  obtain x rest where s: "s = x @ rest" "SLASH \<notin> set x" "rest = [] \<and> segments s = [x] \<or> (\<exists>r. rest = SLASH # r \<and> segments s = x # segments r)"
    by (rule segments_cases)
  then have rest: "rest = [] \<or> ISSLASH (peek rest)" by (auto simp: peek_def ISSLASH_def)
  define up where "up = double_dot x"
  define out1 where "out1 = (if up then trim_output out else out)"
  define xs1 where "xs1 = (if up then butlast xs else xs)"
  have out1: "dyn_ok out1" "dyn_str out1 = join_path xs1" "toobig out1 = toobig out" "\<forall>x\<in>set xs1. SLASH \<notin> set x"
    using trim_output_join[OF "1.prems"(1,2,3)] "1.prems" by (auto simp: out1_def xs1_def dest: in_set_butlastD)
  have short: "length (join_path xs1) \<le> length (join_path xs)"
    by (cases xs rule: rev_cases) (auto simp: xs1_def)
  show ?case
  proof (cases "double_dot x \<or> single_dot x")
    case True
    then have seg: "dot_segment (SLASH # s) = Some (up, rest)" using dot_segment_plain[OF s(2) rest] s(1) by (auto simp: up_def)
    show ?thesis
    proof (cases "rest = []")
      case e: True
      then have "dedot_loop (SLASH # s) out h = curlx_dyn_addn out1 h ''/''" using seg by (simp add: dedot_loop.simps[of "SLASH # s"] out1_def)
      moreover have "join_path (remove_dots (segments s) xs) = dyn_str out1 @ ''/''" using True e s(3) out1(2) by (auto simp: xs1_def up_def)
      ultimately show ?thesis using dedot_result_add[OF out1(1), of "''/''" h] out1(2,3) short "1.prems"(4) by simp
    next
      case False
      then obtain r where r: "rest = SLASH # r" "segments s = x # segments r" using s(3) by auto
      have "dedot_loop (SLASH # s) out h = dedot_loop (SLASH # r) out1 h" using seg r(1) by (simp add: dedot_loop.simps[of "SLASH # s"] out1_def)
      moreover have "remove_dots (segments s) xs = remove_dots (segments r) xs1" using True r(2) by (auto simp: xs1_def up_def)
      ultimately show ?thesis using "1.IH"[rule_format, of r out1 xs1 h] out1 short "1.prems"(4) s(1) r(1) by simp
    qed
  next
    case False
    obtain r1 out2 h2 where p: "add_pieces curlx_dyn_addn out h (map (\<lambda>c. [c]) (SLASH # x)) = (r1, out2, h2)" by (metis prod_cases3)
    have loop: "dedot_loop (SLASH # s) out h = (if r1 \<noteq> CURLE_OK then (r1, out2, h2) else dedot_loop rest out2 h2)"
      using dedot_segment[OF s(2) rest, of out h] False s(1) p by simp
    note add = add_chars[OF "1.prems"(1) _ p]
    show ?thesis
    proof (cases "r1 = CURLE_OK")
      case r1: False
      then show ?thesis using add loop "1.prems"(2,4) s(1) by (simp add: dedot_result_def)
    next
      case r1: True
      then obtain k where o2: "dyn_ok out2" "dyn_str out2 = join_path (xs @ [x])" "toobig out2 = toobig out" "h2 = (\<lambda>i. h (k + i))"
        using add "1.prems"(2,4) s(1) by auto
      show ?thesis
      proof (cases "rest = []")
        case True
        then show ?thesis using loop r1 o2 False s(3) by (simp add: dedot_result_def dedot_loop.simps[of "[]"])
      next
        case ne: False
        then obtain r where r: "rest = SLASH # r" "segments s = x # segments r" using s(3) by auto
        have "dedot_result h2 (join_path (remove_dots (segments r) (xs @ [x]))) (dedot_loop (SLASH # r) out2 h2)"
          using "1.IH"[rule_format, of r out2 "xs @ [x]" h2] o2 "1.prems"(3,4) s(1,2) r(1) by auto
        then show ?thesis using loop r1 r False dedot_result_later[of h k] o2(4) by simp
      qed
    qed
  qed
qed

section \<open>Paths without dot segments\<close>

lemma in_join_path: "x \<in> set ss \<Longrightarrow> \<exists>u r. join_path ss = u @ x @ r \<and> (r = [] \<or> ISSLASH (peek r))"
proof -
  assume "x \<in> set ss"
  then obtain us vs where "ss = us @ x # vs" by (meson split_list)
  then have "join_path ss = (join_path us @ [SLASH]) @ x @ join_path vs" by simp
  moreover have "join_path vs = [] \<or> ISSLASH (peek (join_path vs))" by (cases vs) (auto simp: peek_def ISSLASH_def)
  ultimately show ?thesis by blast
qed

lemma remove_dots_plain: "\<forall>x\<in>set ss. \<not> double_dot x \<and> \<not> single_dot x \<Longrightarrow> remove_dots ss out = out @ ss"
  by (induction ss arbitrary: out) auto

lemma unneeded_segments:
  assumes "\<not> needs_dedotdot (SLASH # s)" "x \<in> set (segments s)"
  shows "\<not> double_dot x \<and> \<not> single_dot x"
proof (cases "s = []")
  case True
  then show ?thesis using assms(2) by (auto simp: segments_def double_dot_iff single_dot_iff dot_text_def)
next
  case False
  then have scan: "\<not> needs_loop (SLASH # s)" using assms(1) by (cases s) (auto simp: needs_dedotdot_def)
  obtain u r where r: "SLASH # s = u @ x @ r" "r = [] \<or> ISSLASH (peek r)" using in_join_path[OF assms(2)] join_segments by metis
  have "\<not> dot_text e" if "x = d @ e" for d e
    using needs_loop_suffix[of "u @ d" e r] scan r that by auto
  then show ?thesis by (auto simp: double_dot_iff single_dot_iff)
qed

text \<open>What is left are segments of the path that are no dot segments, and perhaps an empty one at the end.\<close>

lemma remove_dots_set:
  "x \<in> set (remove_dots ss out) \<Longrightarrow> x = [] \<or> x \<in> set out \<or> x \<in> set ss \<and> \<not> double_dot x \<and> \<not> single_dot x"
proof (induction ss arbitrary: out)
  case (Cons s ss)
  define out' where "out' = (if double_dot s then butlast out else if single_dot s then out else out @ [s])"
  have step: "remove_dots (s # ss) out = (if ss = [] \<and> (double_dot s \<or> single_dot s) then out' @ [[]] else remove_dots ss out')"
    by (simp add: out'_def)
  have "y \<in> set out' \<Longrightarrow> y \<in> set out \<or> y = s \<and> \<not> double_dot y \<and> \<not> single_dot y" for y
    by (auto simp: out'_def dest: in_set_butlastD split: if_splits)
  then show ?case using Cons.IH[of out'] Cons.prems unfolding step by (fastforce split: if_splits)
qed simp

lemma no_dots_Nil: "\<not> double_dot [] \<and> \<not> single_dot []"
  by (auto simp: double_dot_iff single_dot_iff dot_text_def)

lemma remove_dots_nonempty: "ss \<noteq> [] \<Longrightarrow> remove_dots ss out \<noteq> []"
proof (induction ss arbitrary: out)
  case (Cons s ss)
  then show ?case by (cases "ss = []") (simp_all add: Let_def)
qed simp

lemma segments_join: "\<forall>x\<in>set (y # ys). SLASH \<notin> set x \<Longrightarrow> segments (tl (join_path (y # ys))) = y # ys"
proof (induction ys arbitrary: y)
  case Nil
  then show ?case by (simp add: segments_plain)
next
  case (Cons z ys)
  have "segments (y @ SLASH # (z @ join_path ys)) = y # segments (z @ join_path ys)" using Cons.prems by (intro segments_append) simp
  with Cons.IH[of z] Cons.prems show ?case by simp
qed

lemma remove_dot_segments_idem: "remove_dot_segments (remove_dot_segments p) = remove_dot_segments p"
proof -
  let ?xs = "remove_dots (segments (tl p)) []"
  obtain y ys where xs: "?xs = y # ys" using remove_dots_nonempty[of "segments (tl p)" "[]"] by (cases ?xs) auto
  have "\<forall>x\<in>set ?xs. SLASH \<notin> set x" using remove_dots_set[of _ "segments (tl p)" "[]"] segments_no_slash by fastforce
  then have "segments (tl (join_path ?xs)) = ?xs" using segments_join[of y ys] xs by simp
  moreover have "remove_dots ?xs [] = ?xs" using remove_dots_plain[of ?xs "[]"] remove_dots_set[of _ "segments (tl p)" "[]"] no_dots_Nil by auto
  ultimately show ?thesis by (simp add: remove_dot_segments_def)
qed

lemma leading_slash: "leading_dots (SLASH # s) = Some (SLASH # s)"
proof -
  have "is_dot (SLASH # s) = None" by (simp add: is_dot_def peek_def)
  then show ?thesis by (simp add: leading_dots_def)
qed

lemma set_join_path: "c \<in> set (join_path xs) \<Longrightarrow> \<exists>x\<in>set xs. c = SLASH \<or> c \<in> set x"
  by (induction xs) auto

lemma remove_dots_chars: "c \<in> set (join_path (remove_dots (segments s) [])) \<Longrightarrow> c \<in> set (SLASH # s)"
proof -
  assume "c \<in> set (join_path (remove_dots (segments s) []))"
  then obtain x where x: "x \<in> set (remove_dots (segments s) [])" "c = SLASH \<or> c \<in> set x" using set_join_path by blast
  have "c = SLASH \<or> c \<in> set (join_path (segments s))" using remove_dots_set[OF x(1)] x(2) by (auto simp: join_path_def)
  then show ?thesis by (auto simp: join_segments)
qed

lemma dedotdotify_facts:
  assumes "path = SLASH # s" "NUL \<notin> set path" "length path < MAX_DYNBUF_SIZE" "dedotdotify path h = (rc, out, h')"
  shows "if rc = 0 then (case out of None \<Rightarrow> path | Some t \<Rightarrow> t) = remove_dot_segments path \<and>
      remove_dot_segments (remove_dot_segments path) = remove_dot_segments path
    else rc = 1 \<and> out = None \<and> (\<exists>i. \<not> h i)"
proof (cases "needs_dedotdot path")
  case False
  then have "remove_dot_segments path = path"
    using remove_dots_plain[of "segments s" "[]"] unneeded_segments[of s] join_segments[of s] assms(1) by (simp add: remove_dot_segments_def)
  then show ?thesis using False assms(4) by (auto simp: dedotdotify_def)
next
  case True
  obtain r o1 h1 where l: "dedot_loop path (curlx_dyn_init (length path + 1)) h = (r, o1, h1)" by (metis prod_cases3)
  have ok: "dyn_ok (curlx_dyn_init (length path + 1))" using assms(3) by (intro dyn_ok_init) simp_all
  have res: "dedot_result h (remove_dot_segments path) (r, o1, h1)"
    using dedot_loop_segments[OF ok, of "[]" s h] l assms(1) by (simp add: remove_dot_segments_def)
  show ?thesis
  proof (cases "r = CURLE_OK")
    case r: True
    then have o1: "dyn_ok o1" "dyn_str o1 = remove_dot_segments path" using res by (simp_all add: dedot_result_def)
    obtain y ys where "remove_dots (segments s) [] = y # ys" using remove_dots_nonempty[of "segments s" "[]"] by (cases "remove_dots (segments s) []") auto
    then have len: "curlx_dyn_len o1 \<noteq> 0" using dyn_len_str[OF o1(1)] o1(2) assms(1) by (simp add: remove_dot_segments_def)
    then obtain b where b: "curlx_dyn_ptr o1 = Some b" using o1(1) by (cases "bufr o1") (auto simp: dyn_ok_def curlx_dyn_len_def curlx_dyn_ptr_def)
    have "NUL \<notin> set (dyn_str o1)" using remove_dots_chars[of NUL s] assms(1,2) o1(2) by (auto simp: remove_dot_segments_def)
    then have "out = Some (remove_dot_segments path)" "rc = 0"
      using True assms(1,4) l r len b dyn_string[OF o1(1) _ b] o1(2) leading_slash[of s] by (simp_all add: dedotdotify_def)
    then show ?thesis by (simp add: remove_dot_segments_idem)
  next
    case False
    then have "\<exists>i. \<not> h i" using res by (simp add: dedot_result_def)
    moreover have "rc = 1 \<and> out = None" using True assms(1,4) l False leading_slash[of s] by (simp add: dedotdotify_def)
    ultimately show ?thesis by simp
  qed
qed

section \<open>Properties\<close>

text \<open>C20: Removing the dot segments of an absolute path. The scan that decides whether there is work to do never
  misses any, and the loop over the bytes, which trims its output at the last slash, gives exactly the path of
  RFC 3986, section 5.2.4, dots written as \<open>%2e\<close> included; or it reports that the allocator refused.
  Applied once more it changes nothing.\<close>

theorem dedotdotify_exact:
  assumes "path = SLASH # s" "NUL \<notin> set path" "length path < MAX_DYNBUF_SIZE" "dedotdotify path h = (rc, out, h')"
  shows "if rc = 0 then (case out of None \<Rightarrow> path | Some t \<Rightarrow> t) = remove_dot_segments path \<and>
      remove_dot_segments (remove_dot_segments path) = remove_dot_segments path
    else rc = 1 \<and> out = None \<and> (\<exists>i. \<not> h i)"
  using dedotdotify_facts[OF assms] .

theorem dedotdotify_exact_witness:
  "\<exists>out h'. dedotdotify ''/a/b/%2e%2E/./c'' (\<lambda>_. True) = (0, out, h') \<and> out = Some ''/a/c''"
proof -
  let ?p = "''/a/b/%2e%2E/./c''"
  obtain rc out h' where d: "dedotdotify ?p (\<lambda>_. True) = (rc, out, h')" by (metis prod_cases3)
  have "length ?p < MAX_DYNBUF_SIZE" by code_simp
  moreover have "remove_dot_segments ?p = ''/a/c''" by code_simp
  moreover have "?p \<noteq> ''/a/c''" by simp
  moreover have "needs_dedotdot ?p" by code_simp
  ultimately show ?thesis using dedotdotify_exact[of ?p "''a/b/%2e%2E/./c''" "\<lambda>_. True" rc out h'] d
    by (auto split: if_splits option.splits)
qed

text \<open>A path that does not start with a slash loses one pair of leading dots only.\<close>

lemma relative_dots_once:
  "fst (snd (dedotdotify ''../../a'' (\<lambda>_. True))) = Some ''../a''"
  by code_simp

end
