(* ===== verification/Curl_Urlapi.thy ===== *)
theory Curl_Urlapi
  imports Curl_Urlhost Curl_Urlpath
begin

unbundle bit_operations_syntax

text \<open>
  The URL API, the rest of \<open>old/lib/urlapi.c\<close>: encoding, the parser, relative references, getting and setting the
  parts of a handle, and the comparison of origins. What the library is built with is a parameter of every
  function that looks up a scheme; the conversion of international host names is a parameter too, \<open>None\<close> when the
  library lacks it. A formatted text is handed to the growing buffer as the bytes it consists of.
\<close>

section \<open>Encoding\<close>

datatype query_state = QUERY_NO | QUERY_NOT_YET | QUERY_YES

definition ISLOWER :: "char \<Rightarrow> bool" where
  "ISLOWER c \<longleftrightarrow> 97 \<le> byte_val c \<and> byte_val c \<le> 122"

definition ISALPHA :: "char \<Rightarrow> bool" where
  "ISALPHA c \<longleftrightarrow> ISLOWER c \<or> (65 \<le> byte_val c \<and> byte_val c \<le> 90)"

text \<open>The number of bytes before the end of the host.\<close>

definition find_host_sep :: "bytes \<Rightarrow> nat" where
  "find_host_sep url =
     (let start = (case find_sub ''//'' url of None \<Rightarrow> 0 | Some i \<Rightarrow> i + 2) in
      start + length (takeWhile (\<lambda>c. c \<noteq> CHR ''/'' \<and> c \<noteq> CHR ''?'') (drop start url)))"

definition percent :: "char \<Rightarrow> bytes" where
  "percent c = CHR ''%'' # Curl_hexbyte c"

text \<open>One step: what is written, what is left, and whether a query has begun.\<close>

definition urlencode_step :: "bytes \<Rightarrow> query_state \<Rightarrow> bytes \<times> bytes \<times> query_state" where
  "urlencode_step s query =
     (let c = hd s in
      if c = CHR '' '' then (if query \<noteq> QUERY_YES then ''%20'' else ''+'', tl s, query)
      else if byte_val c < 32 \<or> byte_val c \<ge> 127 then (percent c, tl s, query)
      else if c = CHR ''%'' \<and> length s \<ge> 3 \<and> ISXDIGIT (s ! 1) \<and> ISXDIGIT (s ! 2) \<and> (ISLOWER (s ! 1) \<or> ISLOWER (s ! 2)) then
        (percent (char_of (curlx_hexval (s ! 1) * 16 + curlx_hexval (s ! 2))), drop 3 s, query)
      else ([c], tl s, if c = CHR ''?'' \<and> query = QUERY_NOT_YET then QUERY_YES else query))"

lemma urlencode_step_less: "s \<noteq> [] \<Longrightarrow> urlencode_step s query = (out, s', query') \<Longrightarrow> length s' < length s"
  by (cases s) (auto simp: urlencode_step_def Let_def split: if_splits)

function urlencode_loop :: "dynbuf \<Rightarrow> heap \<Rightarrow> bytes \<Rightarrow> query_state \<Rightarrow> CURLcode \<times> dynbuf \<times> heap" where
  "urlencode_loop d h s query =
     (if s = [] then (CURLE_OK, d, h)
      else case urlencode_step s query of (out, s', query') \<Rightarrow>
        case curlx_dyn_addn d h out of (result, d, h) \<Rightarrow>
          if result \<noteq> CURLE_OK then (result, d, h) else urlencode_loop d h s' query')"
  by pat_completeness auto
termination
  by (relation "measure (\<lambda>(d, h, s, query). length s)") (auto dest: urlencode_step_less[OF _ sym])

declare urlencode_loop.simps [simp del]

definition urlencode_str :: "dynbuf \<Rightarrow> heap \<Rightarrow> bytes \<Rightarrow> bool \<Rightarrow> query_state \<Rightarrow> CURLUcode \<times> dynbuf \<times> heap" where
  "urlencode_str d h url relative query =
     (let n = (if relative then 0 else find_host_sep url) in
      case (if relative then (CURLE_OK, d, h) else curlx_dyn_addn d h (take n url)) of (result, d, h) \<Rightarrow>
        case (if result \<noteq> CURLE_OK then (result, d, h) else urlencode_loop d h (drop n url) query) of (result, d, h) \<Rightarrow>
          (if result \<noteq> CURLE_OK then cc2cu result else CURLUE_OK, d, h))"

section \<open>Schemes\<close>

definition MAX_SCHEME_LEN :: nat where "MAX_SCHEME_LEN = 40"
definition DEFAULT_SCHEME :: bytes where "DEFAULT_SCHEME = ''https''"

definition scheme_char :: "char \<Rightarrow> bool" where
  "scheme_char s \<longleftrightarrow> ISALNUM s \<or> s = CHR ''+'' \<or> s = CHR ''-'' \<or> s = CHR ''.''"

text \<open>The scheme in lower case, empty when the URL is relative.\<close>

definition Curl_is_absolute_url :: "bytes \<Rightarrow> bool \<Rightarrow> bytes" where
  "Curl_is_absolute_url url guess =
     (let i = (if ISALPHA (peek url) then 1 + length (takeWhile scheme_char (take (MAX_SCHEME_LEN - 1) (tl url))) else 0) in
      if i \<noteq> 0 \<and> peek (drop i url) = CHR '':'' \<and> (peek (drop (i + 1) url) = CHR ''/'' \<or> \<not> guess)
      then Curl_strntolower url i else [])"

definition Curl_junkscan :: "bytes \<Rightarrow> bool \<Rightarrow> CURLUcode" where
  "Curl_junkscan url allowspace =
     (let control = (if allowspace then 0x1f else 0x20) in
      if length url > CURL_MAX_INPUT_LENGTH then CURLUE_MALFORMED_INPUT
      else if list_ex (\<lambda>c. byte_val c \<le> control \<or> byte_val c = 127) url then CURLUE_MALFORMED_INPUT
      else CURLUE_OK)"

definition STARTS_WITH_URL_DRIVE_PREFIX :: "bytes \<Rightarrow> bool" where
  "STARTS_WITH_URL_DRIVE_PREFIX str \<longleftrightarrow>
     ISALPHA (peek str) \<and> (peek (drop 1 str) = CHR '':'' \<or> peek (drop 1 str) = CHR ''|'') \<and>
     (peek (drop 2 str) = CHR ''/'' \<or> peek (drop 2 str) = BACKSLASH \<or> peek (drop 2 str) = NUL)"

text \<open>A local path: without a host, or with one of the two names of this host.\<close>

definition file_path :: "bytes \<Rightarrow> bytes option" where
  "file_path path =
     (if peek (drop 1 path) \<noteq> CHR ''/'' then Some path
      else
        let p = drop 2 path in
        if peek p \<noteq> CHR ''/'' \<and> \<not> STARTS_WITH_URL_DRIVE_PREFIX p then
          (if checkprefix ''localhost/'' p \<or> checkprefix ''127.0.0.1/'' p then Some (drop 9 p) else None)
        else Some p)"

definition parse_file :: "bytes \<Rightarrow> Curl_URL \<Rightarrow> heap \<Rightarrow> CURLUcode \<times> Curl_URL \<times> bytes \<times> heap" where
  "parse_file url u h =
     (let path = drop 5 url in
      if length url \<le> 6 \<or> peek path \<noteq> CHR ''/'' then (CURLUE_BAD_FILE_URL, u, [], h)
      else case file_path path of
             None \<Rightarrow> (CURLUE_BAD_FILE_URL, u, [], h)
           | Some path \<Rightarrow>
               if peek path = CHR ''/'' \<and> STARTS_WITH_URL_DRIVE_PREFIX (drop 1 path) \<or> STARTS_WITH_URL_DRIVE_PREFIX path
               then (CURLUE_BAD_FILE_URL, u, [], h)
               else case curlx_strdup ''file'' h of
                      (None, h) \<Rightarrow> (CURLUE_OUT_OF_MEMORY, u\<lparr>u_scheme := None\<rparr>, [], h)
                    | (s, h) \<Rightarrow> (CURLUE_OK, u\<lparr>u_scheme := s\<rparr>, path, h))"

text \<open>Where the host starts and which scheme is stored, if any.\<close>

definition scheme_of_url :: "(feature \<Rightarrow> bool) \<Rightarrow> bytes \<Rightarrow> bytes \<Rightarrow> uflags \<Rightarrow> CURLUcode + bytes \<times> bytes option" where
  "scheme_of_url cfg url schemebuf fl =
     (if schemebuf \<noteq> [] then
        let p = drop (length schemebuf + 1) url; slashes = length (takeWhile ISSLASH p) in
        if Curl_get_scheme cfg schemebuf = None \<and> \<not> has_flag fl CURLU_NON_SUPPORT_SCHEME then Inl CURLUE_UNSUPPORTED_SCHEME
        else if slashes < 1 then Inl CURLUE_BAD_SLASHES
        else if has_flag fl CURLU_NO_AUTHORITY then Inr (drop (min slashes 2) p, Some schemebuf)
        else if slashes > 3 then Inl CURLUE_BAD_SLASHES
        else Inr (drop slashes p, Some schemebuf)
      else if \<not> has_flag fl (CURLU_DEFAULT_SCHEME OR CURLU_GUESS_SCHEME) then Inl CURLUE_BAD_SCHEME
      else Inr (url, if has_flag fl CURLU_DEFAULT_SCHEME then Some DEFAULT_SCHEME else None))"

definition parse_scheme ::
  "(feature \<Rightarrow> bool) \<Rightarrow> bytes \<Rightarrow> Curl_URL \<Rightarrow> bytes \<Rightarrow> uflags \<Rightarrow> heap \<Rightarrow> CURLUcode \<times> Curl_URL \<times> bytes \<times> heap"
where
  "parse_scheme cfg url u schemebuf fl h =
     (case scheme_of_url cfg url schemebuf fl of
        Inl e \<Rightarrow> (e, u, [], h)
      | Inr (hostp, None) \<Rightarrow> (CURLUE_OK, u, hostp, h)
      | Inr (hostp, Some schemep) \<Rightarrow>
          (case curlx_strdup schemep h of
             (None, h) \<Rightarrow> (CURLUE_OUT_OF_MEMORY, u\<lparr>u_scheme := None\<rparr>, hostp, h)
           | (s, h) \<Rightarrow> (CURLUE_OK, u\<lparr>u_scheme := s\<rparr>, hostp, h)))"

definition guessed :: "bytes \<Rightarrow> bytes" where
  "guessed hostname =
     (if checkprefix ''ftp.'' hostname then ''ftp''
      else if checkprefix ''dict.'' hostname then ''dict''
      else if checkprefix ''ldap.'' hostname then ''ldap''
      else if checkprefix ''imap.'' hostname then ''imap''
      else if checkprefix ''smtp.'' hostname then ''smtp''
      else if checkprefix ''pop3.'' hostname then ''pop3''
      else ''http'')"

definition guess_scheme :: "Curl_URL \<Rightarrow> dynbuf \<Rightarrow> heap \<Rightarrow> CURLUcode \<times> Curl_URL \<times> heap" where
  "guess_scheme u host h =
     (case curlx_strdup (guessed (dyn_cstr host)) h of
        (None, h) \<Rightarrow> (CURLUE_OUT_OF_MEMORY, u\<lparr>u_scheme := None\<rparr>, h)
      | (s, h) \<Rightarrow> (CURLUE_OK, u\<lparr>u_scheme := s, u_guessed_scheme := True\<rparr>, h))"

section \<open>Fragment, query and path\<close>

text \<open>A part of the URL as it is stored: encoded if the caller asks for it, a copy otherwise.\<close>

definition store_part :: "bytes \<Rightarrow> query_state \<Rightarrow> uflags \<Rightarrow> heap \<Rightarrow> CURLUcode \<times> bytes option \<times> heap" where
  "store_part s query fl h =
     (if has_flag fl CURLU_URLENCODE then
        (case urlencode_str (curlx_dyn_init CURL_MAX_INPUT_LENGTH) h s True query of (ures, enc, h) \<Rightarrow>
           if ures \<noteq> CURLUE_OK then (ures, None, h) else (CURLUE_OK, map_option cstr (curlx_dyn_ptr enc), h))
      else
        (case curlx_memdup0 s h of
           (None, h) \<Rightarrow> (CURLUE_OUT_OF_MEMORY, None, h)
         | (s, h) \<Rightarrow> (CURLUE_OK, s, h)))"

definition handle_fragment :: "Curl_URL \<Rightarrow> bytes \<Rightarrow> uflags \<Rightarrow> heap \<Rightarrow> CURLUcode \<times> Curl_URL \<times> heap" where
  "handle_fragment u fragment fl h =
     (let u = u\<lparr>u_fragment_present := True\<rparr> in
      if length fragment > 1 then
        (case store_part (tl fragment) QUERY_NO fl h of (ures, s, h) \<Rightarrow>
           (ures, if ures = CURLUE_OK then u\<lparr>u_fragment := s\<rparr> else u, h))
      else (CURLUE_OK, u, h))"

definition handle_query :: "Curl_URL \<Rightarrow> bytes \<Rightarrow> uflags \<Rightarrow> heap \<Rightarrow> CURLUcode \<times> Curl_URL \<times> heap" where
  "handle_query u query fl h =
     (let u = u\<lparr>u_query_present := True\<rparr> in
      if length query > 1 then
        (case store_part (tl query) QUERY_YES fl h of (ures, s, h) \<Rightarrow>
           (ures, if ures = CURLUE_OK then u\<lparr>u_query := s\<rparr> else u, h))
      else
        (case curlx_strdup [] h of
           (None, h) \<Rightarrow> (CURLUE_OUT_OF_MEMORY, u\<lparr>u_query := None\<rparr>, h)
         | (s, h) \<Rightarrow> (CURLUE_OK, u\<lparr>u_query := s\<rparr>, h)))"

definition clean_path :: "Curl_URL \<Rightarrow> bytes \<Rightarrow> uflags \<Rightarrow> heap \<Rightarrow> CURLUcode \<times> Curl_URL \<times> heap" where
  "clean_path u path fl h =
     (if \<not> has_flag fl CURLU_PATH_AS_IS then
        (case dedotdotify path h of (err, dedot, h) \<Rightarrow>
           if err \<noteq> 0 then (CURLUE_OUT_OF_MEMORY, u, h)
           else (CURLUE_OK, case dedot of None \<Rightarrow> u | Some d \<Rightarrow> u\<lparr>u_path := dedot\<rparr>, h))
      else (CURLUE_OK, u, h))"

definition handle_path :: "Curl_URL \<Rightarrow> bytes \<Rightarrow> uflags \<Rightarrow> bool \<Rightarrow> heap \<Rightarrow> CURLUcode \<times> Curl_URL \<times> heap" where
  "handle_path u path fl is_file h =
     (case (if path \<noteq> [] \<and> has_flag fl CURLU_URLENCODE then
              (case urlencode_str (curlx_dyn_init CURL_MAX_INPUT_LENGTH) h path True QUERY_NO of (ures, enc, h) \<Rightarrow>
                 if ures \<noteq> CURLUE_OK then (ures, u, path, h)
                 else (CURLUE_OK, u\<lparr>u_path := Some (dyn_cstr enc)\<rparr>, dyn_cstr enc, h))
            else (CURLUE_OK, u, path, h)) of
        (ures, u, path, h) \<Rightarrow>
          if ures \<noteq> CURLUE_OK then (ures, u, h)
          else if length path \<ge> (if is_file then 1 else 2) then
            (case u_path u of
               None \<Rightarrow>
                 (case curlx_memdup0 path h of
                    (None, h) \<Rightarrow> (CURLUE_OUT_OF_MEMORY, u, h)
                  | (Some p, h) \<Rightarrow> clean_path (u\<lparr>u_path := Some p\<rparr>) p fl h)
             | Some _ \<Rightarrow> clean_path u path fl h)
          else (CURLUE_OK, u, h))"

section \<open>The parser\<close>

text \<open>Nothing reads a handle again after its strings are freed; they are \<open>None\<close> from then on.\<close>

definition free_urlhandle :: "Curl_URL \<Rightarrow> Curl_URL" where
  "free_urlhandle u =
     u\<lparr>u_scheme := None, u_user := None, u_password := None, u_options := None, u_host := None, u_zoneid := None,
       u_path := None, u_query := None, u_fragment := None\<rparr>"

text \<open>The part of the parser up to the path: the handle, the host and what follows it.\<close>

definition parse_front ::
  "(feature \<Rightarrow> bool) \<Rightarrow> bytes \<Rightarrow> Curl_URL \<Rightarrow> bytes \<Rightarrow> uflags \<Rightarrow> heap \<Rightarrow> CURLUcode \<times> Curl_URL \<times> dynbuf \<times> bytes \<times> heap"
where
  "parse_front cfg url u schemebuf fl h =
     (let host = curlx_dyn_init CURL_MAX_INPUT_LENGTH in
      if schemebuf = ''file'' then
        (case parse_file url u h of (ures, u, path, h) \<Rightarrow> (ures, u, host, path, h))
      else
        (case parse_scheme cfg url u schemebuf fl h of (ures, u, hostp, h) \<Rightarrow>
           if ures \<noteq> CURLUE_OK then (ures, u, host, [], h)
           else
             let hostlen = length (takeWhile (\<lambda>c. c \<notin> set ''/?#'') hostp); path = drop hostlen hostp in
             if hostlen \<noteq> 0 then
               (case parse_authority cfg u (take hostlen hostp) fl host (u_scheme u \<noteq> None) h of (ures, u, host, h) \<Rightarrow>
                  if ures = CURLUE_OK \<and> has_flag fl CURLU_GUESS_SCHEME \<and> u_scheme u = None then
                    (case guess_scheme u host h of (ures, u, h) \<Rightarrow> (ures, u, host, path, h))
                  else (ures, u, host, path, h))
             else if has_flag fl CURLU_NO_AUTHORITY then
               (case curlx_dyn_add host h [] of (result, host, h) \<Rightarrow>
                  (if result \<noteq> CURLE_OK then CURLUE_OUT_OF_MEMORY else CURLUE_OK, u, host, path, h))
             else (CURLUE_NO_HOST, u, host, path, h)))"

text \<open>The rest: the fragment is cut off first, then the query, and the path is what remains.\<close>

definition parse_rest :: "Curl_URL \<Rightarrow> bytes \<Rightarrow> uflags \<Rightarrow> bool \<Rightarrow> heap \<Rightarrow> CURLUcode \<times> Curl_URL \<times> heap" where
  "parse_rest u path fl is_file h =
     (case (case index_of (CHR ''#'') path of
              None \<Rightarrow> (CURLUE_OK, u, path, h)
            | Some i \<Rightarrow> (case handle_fragment u (drop i path) fl h of (ures, u, h) \<Rightarrow> (ures, u, take i path, h))) of
        (ures, u, path, h) \<Rightarrow>
          if ures \<noteq> CURLUE_OK then (ures, u, h)
          else
            (case (case index_of (CHR ''?'') path of
                     None \<Rightarrow> (CURLUE_OK, u, path, h)
                   | Some i \<Rightarrow> (case handle_query u (drop i path) fl h of (ures, u, h) \<Rightarrow> (ures, u, take i path, h))) of
               (ures, u, path, h) \<Rightarrow>
                 if ures \<noteq> CURLUE_OK then (ures, u, h) else handle_path u path fl is_file h))"

definition parseurl :: "(feature \<Rightarrow> bool) \<Rightarrow> bytes \<Rightarrow> Curl_URL \<Rightarrow> uflags \<Rightarrow> heap \<Rightarrow> CURLUcode \<times> Curl_URL \<times> heap" where
  "parseurl cfg url u fl h =
     (let ures = Curl_junkscan url (has_flag fl CURLU_ALLOW_SPACE) in
      if ures \<noteq> CURLUE_OK then (ures, free_urlhandle u, h)
      else
        let schemebuf = Curl_is_absolute_url url (has_flag fl (CURLU_GUESS_SCHEME OR CURLU_DEFAULT_SCHEME)) in
        case parse_front cfg url u schemebuf fl h of (ures, u, host, path, h) \<Rightarrow>
          if ures \<noteq> CURLUE_OK then (ures, free_urlhandle u, h)
          else case parse_rest u path fl (schemebuf = ''file'') h of (ures, u, h) \<Rightarrow>
            if ures \<noteq> CURLUE_OK then (ures, free_urlhandle u, h)
            else (CURLUE_OK, u\<lparr>u_host := map_option cstr (curlx_dyn_ptr host)\<rparr>, h))"

definition parseurl_and_replace ::
  "(feature \<Rightarrow> bool) \<Rightarrow> bytes \<Rightarrow> Curl_URL \<Rightarrow> uflags \<Rightarrow> heap \<Rightarrow> CURLUcode \<times> Curl_URL \<times> heap"
where
  "parseurl_and_replace cfg url u fl h =
     (case parseurl cfg url blank_url fl h of (ures, tmpurl, h) \<Rightarrow>
        if ures = CURLUE_OK then (ures, tmpurl, h) else (ures, u, h))"

section \<open>Relative references\<close>

text \<open>How much of the base is kept, what is appended to it, and whether that starts with a host.\<close>

definition redirect_cut :: "bytes \<Rightarrow> bytes \<Rightarrow> Curl_URL \<Rightarrow> nat \<times> bytes \<times> bool" where
  "redirect_cut base relurl u =
     (let scheme = (case u_scheme u of None \<Rightarrow> DEFAULT_SCHEME | Some s \<Rightarrow> s);
          pre = length scheme + 3; protsep = drop pre base;
          keep = (\<lambda>c. case c of None \<Rightarrow> length base | Some i \<Rightarrow> pre + i) in
      if peek relurl = CHR ''/'' then
        (if peek (drop 1 relurl) = CHR ''/'' then (pre, drop 2 relurl, True)
         else (keep (index_of (CHR ''/'') protsep), relurl, False))
      else if peek relurl = CHR ''#'' then
        (keep (if u_fragment_present u then index_of (CHR ''#'') protsep else None), relurl, False)
      else
        let cutoff = (if u_query_present u then index_of (CHR ''?'') protsep
                      else if u_fragment_present u then index_of (CHR ''#'') protsep else None);
            cutoff = (if peek relurl \<noteq> CHR ''?'' then
                        map_option Suc (last_index_of (CHR ''/'') (case cutoff of None \<Rightarrow> protsep | Some i \<Rightarrow> take i protsep))
                      else cutoff)
        in (keep cutoff, relurl, False))"

definition redirect_url ::
  "(feature \<Rightarrow> bool) \<Rightarrow> bytes \<Rightarrow> bytes \<Rightarrow> Curl_URL \<Rightarrow> uflags \<Rightarrow> heap \<Rightarrow> CURLUcode \<times> Curl_URL \<times> heap"
where
  "redirect_url cfg base relurl u fl h =
     (case redirect_cut base relurl u of (prelen, useurl, host_changed) \<Rightarrow>
        case curlx_dyn_addn (curlx_dyn_init CURL_MAX_INPUT_LENGTH) h (take prelen base) of (result, urlbuf, h) \<Rightarrow>
          if result \<noteq> CURLE_OK then (CURLUE_OUT_OF_MEMORY, u, h)
          else case urlencode_str urlbuf h useurl (\<not> host_changed) QUERY_NOT_YET of (uc, urlbuf, h) \<Rightarrow>
            if uc \<noteq> CURLUE_OK then (CURLUE_OUT_OF_MEMORY, u, h)
            else parseurl_and_replace cfg (dyn_cstr urlbuf) u (fl AND NOT CURLU_PATH_AS_IS) h)"

section \<open>Handles\<close>

definition curl_url :: "heap \<Rightarrow> Curl_URL option \<times> heap" where
  "curl_url h = (case request h of (ok, h) \<Rightarrow> (if ok then Some blank_url else None, h))"

text \<open>\<open>curl_url_cleanup\<close> leaves nothing.\<close>

definition curl_url_cleanup :: "Curl_URL option \<Rightarrow> Curl_URL option" where
  "curl_url_cleanup u = None"

definition DUP :: "bytes option \<Rightarrow> heap \<Rightarrow> bytes option option \<times> heap" where
  "DUP src h =
     (case src of
        None \<Rightarrow> (Some None, h)
      | Some s \<Rightarrow> (case curlx_strdup s h of (None, h) \<Rightarrow> (None, h) | (d, h) \<Rightarrow> (Some d, h)))"

fun dup_all :: "bytes option list \<Rightarrow> heap \<Rightarrow> bytes option list option \<times> heap" where
  "dup_all [] h = (Some [], h)"
| "dup_all (s # ss) h =
     (case DUP s h of
        (None, h) \<Rightarrow> (None, h)
      | (Some d, h) \<Rightarrow> (case dup_all ss h of (None, h) \<Rightarrow> (None, h) | (Some ds, h) \<Rightarrow> (Some (d # ds), h)))"

definition curl_url_dup :: "Curl_URL \<Rightarrow> heap \<Rightarrow> Curl_URL option \<times> heap" where
  "curl_url_dup u h =
     (case curl_url h of
        (None, h) \<Rightarrow> (None, h)
      | (Some d, h) \<Rightarrow>
          (case dup_all [u_scheme u, u_user u, u_password u, u_options u, u_host u, u_path u, u_query u, u_fragment u, u_zoneid u] h of
             (Some [s, us, pw, op, ho, pa, qu, fr, zo], h) \<Rightarrow>
               (Some (d\<lparr>u_scheme := s, u_user := us, u_password := pw, u_options := op, u_host := ho, u_path := pa, u_query := qu,
                      u_fragment := fr, u_zoneid := zo, u_portnum := u_portnum u, u_port_present := u_port_present u,
                      u_fragment_present := u_fragment_present u, u_query_present := u_query_present u\<rparr>), h)
           | (_, h) \<Rightarrow> (None, h)))"

section \<open>Getting parts\<close>

datatype CURLUPart =
    CURLUPART_URL | CURLUPART_SCHEME | CURLUPART_USER | CURLUPART_PASSWORD | CURLUPART_OPTIONS | CURLUPART_HOST
  | CURLUPART_PORT | CURLUPART_PATH | CURLUPART_QUERY | CURLUPART_FRAGMENT | CURLUPART_ZONEID | CURLUPART_OTHER nat

text \<open>Conversion of international host names, to and from the form with ASCII letters only.\<close>

record idn_library =
  idn_decode :: "bytes \<Rightarrow> CURLcode \<times> bytes"
  idn_encode :: "bytes \<Rightarrow> CURLcode \<times> bytes"

definition Curl_is_ASCII_name :: "bytes option \<Rightarrow> bool" where
  "Curl_is_ASCII_name hostname = (case hostname of None \<Rightarrow> True | Some s \<Rightarrow> list_all (\<lambda>c. byte_val c < 128) (cstr s))"

definition idn_result :: "CURLcode \<times> bytes \<Rightarrow> CURLUcode + bytes" where
  "idn_result r =
     (case r of (result, s) \<Rightarrow>
        if result \<noteq> CURLE_OK then Inl (if result = CURLE_OUT_OF_MEMORY then CURLUE_OUT_OF_MEMORY else CURLUE_BAD_HOSTNAME)
        else Inr s)"

definition host_decode :: "idn_library option \<Rightarrow> bytes \<Rightarrow> CURLUcode + bytes" where
  "host_decode idn host = (case idn of None \<Rightarrow> Inl CURLUE_LACKS_IDN | Some l \<Rightarrow> idn_result (idn_decode l host))"

definition host_encode :: "idn_library option \<Rightarrow> bytes \<Rightarrow> CURLUcode + bytes" where
  "host_encode idn host = (case idn of None \<Rightarrow> Inl CURLUE_LACKS_IDN | Some l \<Rightarrow> idn_result (idn_encode l host))"

definition puny_part :: "idn_library option \<Rightarrow> Curl_URL \<Rightarrow> CURLUPart \<Rightarrow> uflags \<Rightarrow> bytes \<Rightarrow> CURLUcode + bytes" where
  "puny_part idn u what fl part =
     (if has_flag fl CURLU_PUNYCODE \<and> what = CURLUPART_HOST then
        (if \<not> Curl_is_ASCII_name (u_host u) then host_decode idn part else Inr part)
      else if has_flag fl CURLU_PUNY2IDN \<and> what = CURLUPART_HOST then
        (if Curl_is_ASCII_name (u_host u) then host_encode idn part else Inr part)
      else Inr part)"

definition urlget_format ::
  "idn_library option \<Rightarrow> Curl_URL \<Rightarrow> CURLUPart \<Rightarrow> bytes \<Rightarrow> bool \<Rightarrow> uflags \<Rightarrow> heap \<Rightarrow> CURLUcode \<times> bytes option \<times> heap"
where
  "urlget_format idn u what s plusdecode fl h =
     (case curlx_memdup0 s h of
        (None, h) \<Rightarrow> (CURLUE_OUT_OF_MEMORY, None, h)
      | (Some part, h) \<Rightarrow>
          let part = (if plusdecode then map (\<lambda>c. if c = CHR ''+'' then CHR '' '' else c) part else part) in
          case (if has_flag fl CURLU_URLDECODE then
                  (case Curl_urldecode part (length part) REJECT_CTRL h of (result, decoded, dlen, h) \<Rightarrow>
                     (if result \<noteq> CURLE_OK then Inl CURLUE_URLDECODE
                      else Inr (take dlen (case decoded of None \<Rightarrow> [] | Some b \<Rightarrow> b)), h))
                else (Inr part, h)) of
            (Inl e, h) \<Rightarrow> (e, None, h)
          | (Inr part, h) \<Rightarrow>
              if has_flag fl CURLU_URLENCODE then
                (case urlencode_str (curlx_dyn_init CURL_MAX_INPUT_LENGTH) h part True
                        (if what = CURLUPART_QUERY then QUERY_YES else QUERY_NO) of (uc, enc, h) \<Rightarrow>
                   if uc \<noteq> CURLUE_OK then (uc, None, h) else (CURLUE_OK, map_option cstr (curlx_dyn_ptr enc), h))
              else (case puny_part idn u what fl part of Inl e \<Rightarrow> (e, None, h) | Inr p \<Rightarrow> (CURLUE_OK, Some p, h)))"

text \<open>Formatting into allocated memory: the text is added byte by byte to a buffer of at most \<open>DYN_APRINTF\<close>.\<close>

definition aprintf :: "bytes \<Rightarrow> heap \<Rightarrow> bytes option \<times> heap" where
  "aprintf text h =
     (case alloc_addbyter_loop (curlx_dyn_init 8000000) h text of (err, d, h) \<Rightarrow>
        if err \<noteq> MERR_OK then (None, h)
        else if curlx_dyn_len d \<noteq> 0 then (map_option cstr (curlx_dyn_ptr d), h)
        else curlx_strdup [] h)"

definition opt_str :: "bytes option \<Rightarrow> bytes" where
  "opt_str s = (case s of None \<Rightarrow> [] | Some t \<Rightarrow> t)"

definition fragmentsep :: "Curl_URL \<Rightarrow> uflags \<Rightarrow> bytes" where
  "fragmentsep u fl = (if u_fragment u \<noteq> None \<or> (u_fragment_present u \<and> has_flag fl CURLU_GET_EMPTY) then ''#'' else [])"

definition querysep :: "Curl_URL \<Rightarrow> uflags \<Rightarrow> bytes" where
  "querysep u fl = (if opt_str (u_query u) \<noteq> [] \<or> (u_query_present u \<and> has_flag fl CURLU_GET_EMPTY) then ''?'' else [])"

definition got_text :: "bytes option \<times> heap \<Rightarrow> CURLUcode \<times> bytes option \<times> heap" where
  "got_text r = (case r of (None, h) \<Rightarrow> (CURLUE_OUT_OF_MEMORY, None, h) | (Some url, h) \<Rightarrow> (CURLUE_OK, Some url, h))"

text \<open>A null pointer for the path is printed as \<open>(nil)\<close> by the formatter; a parsed file URL has a path.\<close>

definition file_url :: "Curl_URL \<Rightarrow> uflags \<Rightarrow> heap \<Rightarrow> CURLUcode \<times> bytes option \<times> heap" where
  "file_url u fl h =
     got_text (aprintf (''file://'' @ (case u_path u of None \<Rightarrow> ''(nil)'' | Some p \<Rightarrow> p) @ querysep u fl @ opt_str (u_query u) @
       fragmentsep u fl @ opt_str (u_fragment u)) h)"

text \<open>The port as it is printed, and whether the options are.\<close>

definition port_text :: "Curl_scheme option \<Rightarrow> Curl_URL \<Rightarrow> uflags \<Rightarrow> bytes option" where
  "port_text sch u fl =
     (let port = (if u_port_present u then Some (show_nat (u_portnum u)) else None) in
      case sch of
        None \<Rightarrow> port
      | Some x \<Rightarrow>
          if \<not> u_port_present u \<and> has_flag fl CURLU_DEFAULT_PORT then Some (show_nat (sc_defport x))
          else if u_port_present u \<and> sc_defport x = u_portnum u \<and> has_flag fl CURLU_NO_DEFAULT_PORT then None
          else port)"

text \<open>The host as it is printed.\<close>

definition host_text :: "idn_library option \<Rightarrow> bytes \<Rightarrow> Curl_URL \<Rightarrow> uflags \<Rightarrow> heap \<Rightarrow> (CURLUcode + bytes) \<times> heap" where
  "host_text idn host u fl h =
     (if peek host = CHR ''['' then
        (case u_zoneid u of
           None \<Rightarrow> (Inr host, h)
         | Some z \<Rightarrow>
             (case curlx_dyn_addf (curlx_dyn_init CURL_MAX_INPUT_LENGTH) h (take (length host - 1) host @ ''%25'' @ z @ '']'') of
                (result, enc, h) \<Rightarrow> (if result \<noteq> CURLE_OK then Inl CURLUE_OUT_OF_MEMORY else Inr (dyn_cstr enc), h)))
      else if has_flag fl CURLU_URLENCODE then
        (case curl_easy_escape (Some host) 0 h of
           (None, h) \<Rightarrow> (Inl CURLUE_OUT_OF_MEMORY, h)
         | (Some b, h) \<Rightarrow> (Inr (cstr b), h))
      else if has_flag fl CURLU_PUNYCODE then (if \<not> Curl_is_ASCII_name (Some host) then host_decode idn host else Inr host, h)
      else if has_flag fl CURLU_PUNY2IDN then (if Curl_is_ASCII_name (Some host) then host_encode idn host else Inr host, h)
      else (Inr host, h))"

definition with_prefix :: "bytes \<Rightarrow> bytes option \<Rightarrow> bytes" where
  "with_prefix sep s = (case s of None \<Rightarrow> [] | Some t \<Rightarrow> sep @ t)"

definition urlget_url ::
  "(feature \<Rightarrow> bool) \<Rightarrow> idn_library option \<Rightarrow> Curl_URL \<Rightarrow> uflags \<Rightarrow> heap \<Rightarrow> CURLUcode \<times> bytes option \<times> heap"
where
  "urlget_url cfg idn u fl h =
     (if curl_strequal (Some ''file'') (u_scheme u) then file_url u fl h
      else case u_host u of
        None \<Rightarrow> (CURLUE_NO_HOST, None, h)
      | Some host \<Rightarrow>
          (case (case u_scheme u of Some s \<Rightarrow> Some s | None \<Rightarrow> if has_flag fl CURLU_DEFAULT_SCHEME then Some DEFAULT_SCHEME else None) of
             None \<Rightarrow> (CURLUE_NO_SCHEME, None, h)
           | Some scheme \<Rightarrow>
               let sch = Curl_get_scheme cfg scheme;
                   port = port_text sch u fl;
                   options = (case sch of
                                None \<Rightarrow> u_options u
                              | Some x \<Rightarrow> if sc_flags x AND PROTOPT_URLOPTIONS = 0 then None else u_options u) in
               (case host_text idn host u fl h of
                  (Inl e, h) \<Rightarrow> (e, None, h)
                | (Inr allochost, h) \<Rightarrow>
                    let schemebuf = (if \<not> has_flag fl CURLU_NO_GUESS_SCHEME \<or> \<not> u_guessed_scheme u
                                     then take (MAX_SCHEME_LEN + 4) (scheme @ ''://'') else []) in
                    got_text (aprintf
                      (schemebuf @ opt_str (u_user u) @ with_prefix '':'' (u_password u) @ with_prefix '';'' options @
                       (if u_user u \<noteq> None \<or> u_password u \<noteq> None \<or> options \<noteq> None then ''@'' else []) @
                       allochost @ with_prefix '':'' port @ (case u_path u of None \<Rightarrow> ''/'' | Some p \<Rightarrow> p) @
                       querysep u fl @ opt_str (u_query u) @ fragmentsep u fl @ opt_str (u_fragment u)) h))))"

text \<open>The part asked for, the code for a missing one, and the flags that remain.\<close>

definition part_of :: "(feature \<Rightarrow> bool) \<Rightarrow> Curl_URL \<Rightarrow> CURLUPart \<Rightarrow> uflags \<Rightarrow> bytes option \<times> CURLUcode \<times> uflags" where
  "part_of cfg u what fl =
     (case what of
        CURLUPART_SCHEME \<Rightarrow>
          (if has_flag fl CURLU_NO_GUESS_SCHEME \<and> u_guessed_scheme u then None else u_scheme u, CURLUE_NO_SCHEME, fl AND NOT CURLU_URLDECODE)
      | CURLUPART_USER \<Rightarrow> (u_user u, CURLUE_NO_USER, fl)
      | CURLUPART_PASSWORD \<Rightarrow> (u_password u, CURLUE_NO_PASSWORD, fl)
      | CURLUPART_OPTIONS \<Rightarrow> (u_options u, CURLUE_NO_OPTIONS, fl)
      | CURLUPART_HOST \<Rightarrow> (u_host u, CURLUE_NO_HOST, fl)
      | CURLUPART_ZONEID \<Rightarrow> (u_zoneid u, CURLUE_NO_ZONEID, fl)
      | CURLUPART_PORT \<Rightarrow>
          (let sch = (case u_scheme u of None \<Rightarrow> None | Some s \<Rightarrow> Curl_get_scheme cfg s) in port_text sch u fl,
           CURLUE_NO_PORT, fl AND NOT CURLU_URLDECODE)
      | CURLUPART_PATH \<Rightarrow> (Some (case u_path u of None \<Rightarrow> ''/'' | Some p \<Rightarrow> p), CURLUE_UNKNOWN_PART, fl)
      | CURLUPART_QUERY \<Rightarrow>
          (if u_query u = Some [] \<and> \<not> has_flag fl CURLU_GET_EMPTY then None else u_query u, CURLUE_NO_QUERY, fl)
      | CURLUPART_FRAGMENT \<Rightarrow>
          (if u_fragment u = None \<and> u_fragment_present u \<and> has_flag fl CURLU_GET_EMPTY then Some [] else u_fragment u,
           CURLUE_NO_FRAGMENT, fl)
      | _ \<Rightarrow> (None, CURLUE_UNKNOWN_PART, fl))"

definition curl_url_get ::
  "(feature \<Rightarrow> bool) \<Rightarrow> idn_library option \<Rightarrow> Curl_URL \<Rightarrow> CURLUPart \<Rightarrow> uflags \<Rightarrow> heap \<Rightarrow> CURLUcode \<times> bytes option \<times> heap"
where
  "curl_url_get cfg idn u what fl h =
     (if what = CURLUPART_URL then urlget_url cfg idn u fl h
      else case part_of cfg u what fl of (s, ifmissing, fl') \<Rightarrow>
        (case s of
           None \<Rightarrow> (ifmissing, None, h)
         | Some s \<Rightarrow> urlget_format idn u what s (what = CURLUPART_QUERY \<and> has_flag fl CURLU_URLDECODE) fl' h))"

section \<open>Setting parts\<close>

definition set_url_scheme :: "(feature \<Rightarrow> bool) \<Rightarrow> Curl_URL \<Rightarrow> bytes \<Rightarrow> uflags \<Rightarrow> CURLUcode \<times> Curl_URL" where
  "set_url_scheme cfg u scheme fl =
     (let plen = length scheme; sch = Curl_get_scheme cfg scheme in
      if plen > MAX_SCHEME_LEN \<or> plen < 1 then (CURLUE_BAD_SCHEME, u)
      else if \<not> has_flag fl CURLU_NON_SUPPORT_SCHEME \<and> (case sch of None \<Rightarrow> True | Some x \<Rightarrow> sc_run x = None)
      then (CURLUE_UNSUPPORTED_SCHEME, u)
      else if sch = None \<and> (\<not> ISALPHA (peek scheme) \<or> \<not> list_all scheme_char (tl scheme)) then (CURLUE_BAD_SCHEME, u)
      else (CURLUE_OK, u\<lparr>u_guessed_scheme := False\<rparr>))"

definition set_url_port :: "Curl_URL \<Rightarrow> bytes \<Rightarrow> CURLUcode \<times> Curl_URL" where
  "set_url_port u provided_port =
     (if \<not> isdigit (peek provided_port) then (CURLUE_BAD_PORT_NUMBER, u)
      else case curlx_str_number provided_port 0xffff of (rc, port, rest) \<Rightarrow>
        if rc \<noteq> STRE_OK \<or> rest \<noteq> [] then (CURLUE_BAD_PORT_NUMBER, u)
        else (CURLUE_OK, u\<lparr>u_portnum := nat port, u_port_present := True\<rparr>))"

definition set_url ::
  "(feature \<Rightarrow> bool) \<Rightarrow> idn_library option \<Rightarrow> Curl_URL \<Rightarrow> bytes \<Rightarrow> uflags \<Rightarrow> heap \<Rightarrow> CURLUcode \<times> Curl_URL \<times> heap"
where
  "set_url cfg idn u url fl h =
     (if url = [] then
        (case curl_url_get cfg idn u CURLUPART_URL fl h of (uc, oldurl, h) \<Rightarrow>
           if uc = CURLUE_OK then (CURLUE_OK, u\<lparr>u_fragment := None, u_fragment_present := False\<rparr>, h)
           else if uc = CURLUE_OUT_OF_MEMORY then (uc, u, h)
           else (CURLUE_MALFORMED_INPUT, u, h))
      else if Curl_is_absolute_url url (has_flag fl (CURLU_GUESS_SCHEME OR CURLU_DEFAULT_SCHEME)) \<noteq> [] then
        parseurl_and_replace cfg url u fl h
      else
        (case curl_url_get cfg idn u CURLUPART_URL ((fl AND NOT CURLU_NO_GUESS_SCHEME) OR CURLU_GET_EMPTY) h of (uc, oldurl, h) \<Rightarrow>
           if uc = CURLUE_OUT_OF_MEMORY then (uc, u, h)
           else if uc \<noteq> CURLUE_OK then parseurl_and_replace cfg url u fl h
           else redirect_url cfg (opt_str oldurl) url u fl h))"

definition urlset_clear :: "Curl_URL \<Rightarrow> CURLUPart \<Rightarrow> CURLUcode \<times> Curl_URL" where
  "urlset_clear u what =
     (case what of
        CURLUPART_URL \<Rightarrow> (CURLUE_OK, blank_url)
      | CURLUPART_SCHEME \<Rightarrow> (CURLUE_OK, u\<lparr>u_scheme := None, u_guessed_scheme := False\<rparr>)
      | CURLUPART_USER \<Rightarrow> (CURLUE_OK, u\<lparr>u_user := None\<rparr>)
      | CURLUPART_PASSWORD \<Rightarrow> (CURLUE_OK, u\<lparr>u_password := None\<rparr>)
      | CURLUPART_OPTIONS \<Rightarrow> (CURLUE_OK, u\<lparr>u_options := None\<rparr>)
      | CURLUPART_HOST \<Rightarrow> (CURLUE_OK, u\<lparr>u_host := None\<rparr>)
      | CURLUPART_ZONEID \<Rightarrow> (CURLUE_OK, u\<lparr>u_zoneid := None\<rparr>)
      | CURLUPART_PORT \<Rightarrow> (CURLUE_OK, u\<lparr>u_portnum := 0, u_port_present := False\<rparr>)
      | CURLUPART_PATH \<Rightarrow> (CURLUE_OK, u\<lparr>u_path := None\<rparr>)
      | CURLUPART_QUERY \<Rightarrow> (CURLUE_OK, u\<lparr>u_query := None, u_query_present := False\<rparr>)
      | CURLUPART_FRAGMENT \<Rightarrow> (CURLUE_OK, u\<lparr>u_fragment := None, u_fragment_present := False\<rparr>)
      | CURLUPART_OTHER _ \<Rightarrow> (CURLUE_UNKNOWN_PART, u))"

definition allowed_in_path :: "char \<Rightarrow> bool" where
  "allowed_in_path x \<longleftrightarrow> x \<in> set (''!$&'' @ [CHR 0x27] @ ''(){}[]*+,;=:@/'')"

fun url_encode_part :: "dynbuf \<Rightarrow> heap \<Rightarrow> bytes \<Rightarrow> bool \<Rightarrow> bool \<Rightarrow> bool \<Rightarrow> CURLUcode \<times> dynbuf \<times> heap" where
  "url_encode_part d h [] plusencode pathmode equalsencode = (CURLUE_OK, d, h)"
| "url_encode_part d h (c # part) plusencode pathmode equalsencode =
     (case (if c = CHR '' '' \<and> plusencode then (''+'', equalsencode)
            else if ISUNRESERVED c \<or> (pathmode \<and> allowed_in_path c) \<or> (c = CHR ''='' \<and> equalsencode)
            then ([c], equalsencode \<and> c \<noteq> CHR ''='')
            else (percent c, equalsencode)) of
        (out, equalsencode) \<Rightarrow>
          case curlx_dyn_addn d h out of (result, d, h) \<Rightarrow>
            if result \<noteq> CURLE_OK then (cc2cu result, d, h) else url_encode_part d h part plusencode pathmode equalsencode)"

fun uppercase_hex :: "bytes \<Rightarrow> bytes" where
  "uppercase_hex (p # a # b # s) =
     (if p = CHR ''%'' \<and> ISXDIGIT a \<and> ISXDIGIT b \<and> (ISLOWER a \<or> ISLOWER b)
      then p # Curl_raw_toupper a # Curl_raw_toupper b # uppercase_hex s
      else p # uppercase_hex (a # b # s))"
| "uppercase_hex (p # s) = p # uppercase_hex s"
| "uppercase_hex [] = []"

definition url_uppercasehex_part :: "dynbuf \<Rightarrow> heap \<Rightarrow> bytes \<Rightarrow> CURLUcode \<times> dynbuf \<times> heap" where
  "url_uppercasehex_part d h part =
     (case curlx_dyn_add d h part of (result, d, h) \<Rightarrow>
        if result \<noteq> CURLE_OK then (cc2cu result, d, h) else (CURLUE_OK, host_write d (uppercase_hex (dyn_cstr d)), h))"

definition url_append_query :: "Curl_URL \<Rightarrow> dynbuf \<Rightarrow> heap \<Rightarrow> CURLUcode \<times> Curl_URL \<times> heap" where
  "url_append_query u encp h =
     (let old = opt_str (u_query u) in
      if old \<noteq> [] then
        (case add_pieces curlx_dyn_addn (curlx_dyn_init CURL_MAX_INPUT_LENGTH) h
                ([old] @ (if last old \<noteq> CHR ''&'' then [''&''] else []) @ [dyn_cstr encp]) of (result, qbuf, h) \<Rightarrow>
           if result \<noteq> CURLE_OK then (cc2cu result, u, h)
           else (CURLUE_OK, u\<lparr>u_query := map_option cstr (curlx_dyn_ptr qbuf)\<rparr>, h))
      else (CURLUE_OK, u\<lparr>u_query := map_option cstr (curlx_dyn_ptr encp)\<rparr>, h))"

definition url_sethost :: "Curl_URL \<Rightarrow> dynbuf \<Rightarrow> bool \<Rightarrow> uflags \<Rightarrow> heap \<Rightarrow> CURLUcode \<times> Curl_URL \<times> dynbuf \<times> heap" where
  "url_sethost u encp urlencode fl h =
     (let newp = dyn_cstr encp in
      case (if curlx_dyn_len encp = 0 then (\<not> has_flag fl CURLU_NO_AUTHORITY, u, encp, h)
            else if \<not> urlencode then
              (case Curl_urldecode newp (curlx_dyn_len encp) REJECT_CTRL h of (result, decoded, dlen, h) \<Rightarrow>
                 if result \<noteq> CURLE_OK then (True, u, encp, h)
                 else case hostname_check u (take dlen (case decoded of None \<Rightarrow> [] | Some b \<Rightarrow> b)) h of
                        (uc, u, s, h) \<Rightarrow> (uc \<noteq> CURLUE_OK, u, encp, h))
            else
              (case hostname_check u newp h of (uc, u, s, h) \<Rightarrow> (uc \<noteq> CURLUE_OK, u, host_write encp s, h))) of
        (bad, u, encp, h) \<Rightarrow> (if bad then CURLUE_BAD_HOSTNAME else CURLUE_OK, u, encp, h))"

text \<open>Where a part is stored.\<close>

definition store_in :: "Curl_URL \<Rightarrow> CURLUPart \<Rightarrow> bytes option \<Rightarrow> Curl_URL" where
  "store_in u what s =
     (case what of
        CURLUPART_SCHEME \<Rightarrow> u\<lparr>u_scheme := s\<rparr>
      | CURLUPART_USER \<Rightarrow> u\<lparr>u_user := s\<rparr>
      | CURLUPART_PASSWORD \<Rightarrow> u\<lparr>u_password := s\<rparr>
      | CURLUPART_OPTIONS \<Rightarrow> u\<lparr>u_options := s\<rparr>
      | CURLUPART_HOST \<Rightarrow> u\<lparr>u_host := s\<rparr>
      | CURLUPART_ZONEID \<Rightarrow> u\<lparr>u_zoneid := s\<rparr>
      | CURLUPART_PATH \<Rightarrow> u\<lparr>u_path := s\<rparr>
      | CURLUPART_QUERY \<Rightarrow> u\<lparr>u_query := s\<rparr>
      | CURLUPART_FRAGMENT \<Rightarrow> u\<lparr>u_fragment := s\<rparr>
      | _ \<Rightarrow> u)"

text \<open>What the handle looks like before the new text is made.\<close>

definition prepare_part :: "(feature \<Rightarrow> bool) \<Rightarrow> Curl_URL \<Rightarrow> CURLUPart \<Rightarrow> bytes \<Rightarrow> uflags \<Rightarrow> CURLUcode \<times> Curl_URL" where
  "prepare_part cfg u what part fl =
     (case what of
        CURLUPART_SCHEME \<Rightarrow> set_url_scheme cfg u part fl
      | CURLUPART_HOST \<Rightarrow> (CURLUE_OK, u\<lparr>u_zoneid := None\<rparr>)
      | CURLUPART_QUERY \<Rightarrow> (CURLUE_OK, u\<lparr>u_query_present := True\<rparr>)
      | CURLUPART_FRAGMENT \<Rightarrow> (CURLUE_OK, u\<lparr>u_fragment_present := True\<rparr>)
      | CURLUPART_OTHER _ \<Rightarrow> (CURLUE_UNKNOWN_PART, u)
      | _ \<Rightarrow> (CURLUE_OK, u))"

definition set_part :: "Curl_URL \<Rightarrow> CURLUPart \<Rightarrow> bytes \<Rightarrow> uflags \<Rightarrow> heap \<Rightarrow> CURLUcode \<times> Curl_URL \<times> heap" where
  "set_part u what part fl h =
     (let urlencode = (what \<noteq> CURLUPART_SCHEME \<and> has_flag fl CURLU_URLENCODE);
          pathmode = (what = CURLUPART_PATH);
          plusencode = (what = CURLUPART_QUERY \<and> urlencode);
          appendquery = (what = CURLUPART_QUERY \<and> has_flag fl CURLU_APPENDQUERY);
          enc = curlx_dyn_init (length part * 3 + 1 + (if pathmode then 1 else 0)) in
      case (if pathmode \<and> peek part \<noteq> CHR ''/'' then curlx_dyn_addn enc h ''/'' else (CURLE_OK, enc, h)) of (result, enc, h) \<Rightarrow>
        if result \<noteq> CURLE_OK then (cc2cu result, u, h)
        else case (if urlencode then url_encode_part enc h part plusencode pathmode appendquery
                   else url_uppercasehex_part enc h part) of (status, enc, h) \<Rightarrow>
          if status \<noteq> CURLUE_OK then (status, u, h)
          else if appendquery \<and> curlx_dyn_ptr enc \<noteq> None then url_append_query u enc h
          else if what = CURLUPART_HOST then
            (case url_sethost u enc urlencode fl h of (status, u, enc, h) \<Rightarrow>
               if status \<noteq> CURLUE_OK then (status, u, h) else (CURLUE_OK, store_in u what (map_option cstr (curlx_dyn_ptr enc)), h))
          else (CURLUE_OK, store_in u what (map_option cstr (curlx_dyn_ptr enc)), h))"

definition curl_url_set ::
  "(feature \<Rightarrow> bool) \<Rightarrow> idn_library option \<Rightarrow> Curl_URL \<Rightarrow> CURLUPart \<Rightarrow> bytes option \<Rightarrow> uflags \<Rightarrow> heap \<Rightarrow> CURLUcode \<times> Curl_URL \<times> heap"
where
  "curl_url_set cfg idn u what part fl h =
     (case part of
        None \<Rightarrow> (case urlset_clear u what of (uc, u) \<Rightarrow> (uc, u, h))
      | Some s \<Rightarrow>
          let s = cstr s in
          if length s > CURL_MAX_INPUT_LENGTH then (CURLUE_MALFORMED_INPUT, u, h)
          else if what = CURLUPART_URL then set_url cfg idn u s fl h
          else if what = CURLUPART_PORT then (case set_url_port u s of (uc, u) \<Rightarrow> (uc, u, h))
          else case prepare_part cfg u what s fl of (uc, u) \<Rightarrow>
            if uc \<noteq> CURLUE_OK then (uc, u, h) else set_part u what s fl h)"

section \<open>Origins\<close>

definition Curl_url_same_origin :: "(feature \<Rightarrow> bool) \<Rightarrow> Curl_URL \<Rightarrow> Curl_URL \<Rightarrow> bool" where
  "Curl_url_same_origin cfg base href =
     (case (u_scheme base, u_host base) of
        (Some bs, Some bh) \<Rightarrow>
          if u_scheme href \<noteq> None \<and> \<not> curl_strequal (u_scheme base) (u_scheme href) then False
          else if u_host href \<noteq> None then
            (if \<not> curl_strequal (u_host base) (u_host href) then False
             else if (if u_port_present base \<noteq> u_port_present href then
                        (case Curl_get_scheme cfg bs of
                           None \<Rightarrow> True
                         | Some s \<Rightarrow> u_port_present base \<and> u_portnum base \<noteq> sc_defport s \<or> u_port_present href \<and> u_portnum href \<noteq> sc_defport s)
                      else u_portnum base \<noteq> u_portnum href) then False
             else curl_strequal (Some (opt_str (u_zoneid base))) (Some (opt_str (u_zoneid href))))
          else \<not> u_port_present href
      | _ \<Rightarrow> False)"

definition Curl_url_get_port :: "(feature \<Rightarrow> bool) \<Rightarrow> Curl_URL \<Rightarrow> CURLUcode \<times> nat" where
  "Curl_url_get_port cfg u =
     (if u_port_present u then (CURLUE_OK, u_portnum u)
      else case (case u_scheme u of None \<Rightarrow> None | Some s \<Rightarrow> Curl_get_scheme cfg s) of
             None \<Rightarrow> (CURLUE_NO_PORT, 0)
           | Some s \<Rightarrow> if sc_defport s \<noteq> 0 then (CURLUE_OK, sc_defport s) else (CURLUE_NO_PORT, 0))"

section \<open>Origins as values\<close>

text \<open>
  The reference: the origin of a URL is its scheme, host and zone in lower case and the port a connection to it
  uses, \<open>None\<close> when the scheme is unknown and the URL names no port.
\<close>

definition origin_port :: "(feature \<Rightarrow> bool) \<Rightarrow> Curl_URL \<Rightarrow> nat option" where
  "origin_port cfg u =
     (if u_port_present u then Some (u_portnum u) else map_option sc_defport (Curl_get_scheme cfg (opt_str (u_scheme u))))"

definition origin :: "(feature \<Rightarrow> bool) \<Rightarrow> Curl_URL \<Rightarrow> bytes \<times> bytes \<times> nat option \<times> bytes" where
  "origin cfg u =
     (map tolower (opt_str (u_scheme u)), map tolower (opt_str (u_host u)), origin_port cfg u, map tolower (opt_str (u_zoneid u)))"

text \<open>An absolute URL: its strings are strings, and without a port the number is zero.\<close>

definition absolute_url :: "Curl_URL \<Rightarrow> bool" where
  "absolute_url u \<longleftrightarrow>
     u_scheme u \<noteq> None \<and> u_host u \<noteq> None \<and> (u_port_present u \<or> u_portnum u = 0) \<and>
     list_all (\<lambda>s. NUL \<notin> set (opt_str s)) [u_scheme u, u_host u, u_zoneid u]"

lemma strequal_strings: "NUL \<notin> set a \<Longrightarrow> NUL \<notin> set b \<Longrightarrow> curl_strequal (Some a) (Some b) \<longleftrightarrow> strcaseeq a b"
  by (simp add: curl_strequal_def casecompare_eq)

lemma get_scheme_case:
  assumes "NUL \<notin> set a" "NUL \<notin> set b" "strcaseeq a b"
  shows "Curl_get_scheme cfg a = Curl_get_scheme cfg b"
proof -
  have "Curl_get_scheme cfg a = Some x \<longleftrightarrow> Curl_get_scheme cfg b = Some x" for x
    unfolding get_scheme_eq[OF assms(1)] get_scheme_eq[OF assms(2)] using assms(3) by (simp add: strcaseeq_def)
  then show ?thesis by (metis not_None_eq)
qed

section \<open>Copies of a handle\<close>

lemma dup_all_copies:
  assumes "dup_all ss h = (r, h')" "\<forall>s\<in>set ss. NUL \<notin> set (opt_str s)"
  shows "r = Some ss \<or> r = None \<and> (\<exists>i. \<not> h i)"
  using assms
proof (induction ss arbitrary: h r h')
  case (Cons s ss)
  obtain d h1 where d: "DUP s h = (d, h1)" by fastforce
  obtain r1 h2 where r1: "dup_all ss h1 = (r1, h2)" by fastforce
  have one: "d = Some s \<and> (\<forall>i. \<not> h1 i \<longrightarrow> (\<exists>j. \<not> h j)) \<or> d = None \<and> (\<exists>i. \<not> h i)"
    using d Cons.prems(2) by (auto simp: DUP_def curlx_strdup_def request_def opt_str_def split: option.splits prod.splits if_splits)
  show ?case using one Cons.IH[OF r1] Cons.prems d r1 by (auto split: option.splits)
qed simp

section \<open>Properties\<close>

text \<open>C21: Two absolute URLs have the same origin exactly when scheme, host and zone agree, the case of letters aside,
  and a connection to either goes to the same port, the port of the scheme counting when a URL names none. So the
  test is an equivalence relation, and no spelling of a port or a host makes two origins of one.\<close>

theorem same_origin_exact:
  assumes "absolute_url base" "absolute_url href"
  shows "Curl_url_same_origin cfg base href \<longleftrightarrow> origin cfg base = origin cfg href"
proof -
  obtain bs bh hs hh where s: "u_scheme base = Some bs" "u_host base = Some bh" "u_scheme href = Some hs" "u_host href = Some hh"
    using assms by (auto simp: absolute_url_def)
  have nul: "NUL \<notin> set bs" "NUL \<notin> set bh" "NUL \<notin> set hs" "NUL \<notin> set hh"
    "NUL \<notin> set (opt_str (u_zoneid base))" "NUL \<notin> set (opt_str (u_zoneid href))"
    "u_port_present base \<or> u_portnum base = 0" "u_port_present href \<or> u_portnum href = 0"
    using assms s by (auto simp: absolute_url_def opt_str_def)
  show ?thesis
  proof (cases "strcaseeq bs hs")
    case True
    have g: "Curl_get_scheme cfg hs = Curl_get_scheme cfg bs" using get_scheme_case[OF nul(1,3) True] by simp
    show ?thesis using s nul True g
      by (auto simp: Curl_url_same_origin_def origin_def origin_port_def strequal_strings strcaseeq_def opt_str_def[of "Some _"] split: option.splits)
  next
    case False
    then show ?thesis using s nul by (auto simp: Curl_url_same_origin_def origin_def strequal_strings strcaseeq_def opt_str_def[of "Some _"])
  qed
qed

lemma get_scheme_https: "Curl_get_scheme cfg ''https'' = Some (Curl_scheme_https cfg)"
proof -
  have "NUL \<notin> set ''https''" "Some (Curl_scheme_https cfg) \<in> set (all_schemes cfg)" "strcaseeq ''https'' (sc_name (Curl_scheme_https cfg))"
    by (simp_all add: all_schemes_def Curl_scheme_https_def strcaseeq_def)
  then show ?thesis using get_scheme_eq by blast
qed

theorem same_origin_exact_witness:
  "Curl_url_same_origin (\<lambda>_. False) (blank_url\<lparr>u_scheme := Some ''https'', u_host := Some ''a.b''\<rparr>)
     (blank_url\<lparr>u_scheme := Some ''HTTPS'', u_host := Some ''A.b'', u_portnum := 443, u_port_present := True\<rparr>)"
proof -
  let ?a = "blank_url\<lparr>u_scheme := Some ''https'', u_host := Some ''a.b''\<rparr>"
  let ?b = "blank_url\<lparr>u_scheme := Some ''HTTPS'', u_host := Some ''A.b'', u_portnum := 443, u_port_present := True\<rparr>"
  have "absolute_url ?a" "absolute_url ?b" by code_simp+
  moreover have "map tolower ''HTTPS'' = ''https''" "map tolower ''https'' = ''https''" "map tolower ''A.b'' = map tolower ''a.b''" by code_simp+
  then have "origin (\<lambda>_. False) ?a = origin (\<lambda>_. False) ?b"
    by (simp add: origin_def origin_port_def opt_str_def blank_url_def get_scheme_https Curl_scheme_https_def PORT_HTTPS_def)
  ultimately show ?thesis using same_origin_exact by blast
qed

text \<open>A copy of a handle has every part of the original and every flag but one: that the scheme was guessed is
  forgotten. Or the allocator refused, and nothing is returned.\<close>

theorem url_dup_exact:
  assumes "list_all (\<lambda>s. NUL \<notin> set (opt_str s))
      [u_scheme u, u_user u, u_password u, u_options u, u_host u, u_path u, u_query u, u_fragment u, u_zoneid u]"
    and "curl_url_dup u h = (r, h')"
  shows "r = Some (u\<lparr>u_guessed_scheme := False\<rparr>) \<or> r = None \<and> (\<exists>i. \<not> h i)"
proof (cases "h 0")
  case False
  then show ?thesis using assms(2) by (auto simp: curl_url_dup_def curl_url_def request_def)
next
  case True
  let ?ss = "[u_scheme u, u_user u, u_password u, u_options u, u_host u, u_path u, u_query u, u_fragment u, u_zoneid u]"
  obtain r1 h1 where d: "dup_all ?ss (\<lambda>i. h (Suc i)) = (r1, h1)" by fastforce
  have c: "curl_url h = (Some blank_url, \<lambda>i. h (Suc i))" using True by (simp add: curl_url_def request_def)
  have "r1 = Some ?ss \<or> r1 = None \<and> (\<exists>i. \<not> h (Suc i))" using dup_all_copies[OF d] assms(1) by (simp only: list_all_iff)
  then show ?thesis
  proof
    assume "r1 = Some ?ss"
    then show ?thesis using assms(2) d by (cases u) (auto simp: curl_url_dup_def c blank_url_def simp del: dup_all.simps)
  next
    assume "r1 = None \<and> (\<exists>i. \<not> h (Suc i))"
    then show ?thesis using assms(2) d by (auto simp: curl_url_dup_def c simp del: dup_all.simps)
  qed
qed

theorem url_dup_exact_witness:
  "fst (curl_url_dup (blank_url\<lparr>u_scheme := Some ''http'', u_host := Some ''a'', u_guessed_scheme := True\<rparr>) (\<lambda>_. True)) =
     Some (blank_url\<lparr>u_scheme := Some ''http'', u_host := Some ''a''\<rparr>)"
proof -
  let ?u = "blank_url\<lparr>u_scheme := Some ''http'', u_host := Some ''a'', u_guessed_scheme := True\<rparr>"
  have "list_all (\<lambda>s. NUL \<notin> set (opt_str s))
      [u_scheme ?u, u_user ?u, u_password ?u, u_options ?u, u_host ?u, u_path ?u, u_query ?u, u_fragment ?u, u_zoneid ?u]" by code_simp
  from url_dup_exact[OF this surjective_pairing] show ?thesis by (auto simp: blank_url_def)
qed

text \<open>The zone of a host that is set, not parsed, stays in the host too.\<close>

lemma zone_kept_twice:
  "case curl_url_set (\<lambda>_. False) None blank_url CURLUPART_HOST (Some ''[fe80::1%25eth0]'') 0 (\<lambda>_. True) of (uc, u, h) \<Rightarrow>
     uc = CURLUE_OK \<and> u_host u = Some ''[fe80::1%25eth0]'' \<and> u_zoneid u = Some ''eth0''"
proof -
  have "case set_part blank_url CURLUPART_HOST ''[fe80::1%25eth0]'' 0 (\<lambda>_. True) of (uc, u, h) \<Rightarrow>
     uc = CURLUE_OK \<and> u_host u = Some ''[fe80::1%25eth0]'' \<and> u_zoneid u = Some ''eth0''" by code_simp
  then show ?thesis by (simp add: curl_url_set_def CURL_MAX_INPUT_LENGTH_def cstr_def prepare_part_def blank_url_def)
qed

text \<open>An empty part that is asked for in encoded form gives success and the null pointer.\<close>

lemma empty_part_encoded:
  "fst (curl_url_get cfg idn (u\<lparr>u_user := Some []\<rparr>) CURLUPART_USER CURLU_URLENCODE (\<lambda>_. True)) = CURLUE_OK \<and>
   fst (snd (curl_url_get cfg idn (u\<lparr>u_user := Some []\<rparr>) CURLUPART_USER CURLU_URLENCODE (\<lambda>_. True))) = None"
  by (simp add: curl_url_get_def part_of_def urlget_format_def curlx_memdup0_def request_def has_flag_def CURLU_URLENCODE_def
      CURLU_URLDECODE_def urlencode_str_def urlencode_loop.simps curlx_dyn_init_def curlx_dyn_ptr_def SIZE_MAX_def cstr_def)

text \<open>After two slashes the end of the host is looked for behind the next two, so such a path is not encoded.\<close>

lemma host_end_missed: "find_host_sep ''h/x y//z'' = 8" "find_host_sep ''h/x y/z'' = 1"
  by code_simp+

text \<open>Options before the password are printed after it and read back as something else.\<close>

lemma options_move:
  "login_parts ''u;o:p;q'' True = (''u'', Some ''p;q'', ''o'')" "login_parts ''u:p;q;o'' True = (''u'', Some ''p'', ''q;o'')"
  by code_simp+

end
