(* ===== verification/Curl_Urltext.thy ===== *)
theory Curl_Urltext
  imports Curl_Urlapi
begin

unbundle bit_operations_syntax

text \<open>
  URLs as text. A handle is complete when every part of it is what the parser may leave there: then its
  text is the concatenation of the parts, the printer gives that text, and the parser reads the same parts
  back from it, step by step: scheme, login, port, host, then fragment, query and path.
\<close>

section \<open>Complete URLs\<close>

definition clean_char :: "char \<Rightarrow> bool" where
  "clean_char c \<longleftrightarrow> 32 < byte_val c \<and> byte_val c \<noteq> 127"

definition clean_part :: "bytes \<Rightarrow> bytes \<Rightarrow> bool" where
  "clean_part seps s \<longleftrightarrow> list_all (\<lambda>c. clean_char c \<and> c \<notin> set seps) s"

definition scheme_ok :: "bytes \<Rightarrow> bool" where
  "scheme_ok s \<longleftrightarrow> s \<noteq> [] \<and> length s \<le> MAX_SCHEME_LEN \<and> ISALPHA (hd s) \<and> list_all scheme_char s \<and> map tolower s = s"

definition stable_host :: "bytes \<Rightarrow> bool" where
  "stable_host s \<longleftrightarrow>
     (if peek s = CHR ''['' then
        (let a = butlast (tl s) in s = ''['' @ a @ '']'' \<and> ipv6_normalize a = Some a \<and> list_all addr_char a)
      else
        s \<noteq> [] \<and> clean_part HOSTNAME_INVALID_CHARS s \<and> s \<noteq> ''.'' \<and> (2 \<le> length s \<longrightarrow> drop (length s - 2) s \<noteq> ''..'') \<and>
        (case numeric_host s of None \<Rightarrow> True | Some ps \<Rightarrow> (case ipv4_octets ps of None \<Rightarrow> True | Some a \<Rightarrow> dotted a = s)))"

definition complete_url :: "(feature \<Rightarrow> bool) \<Rightarrow> Curl_URL \<Rightarrow> bool" where
  "complete_url cfg u \<longleftrightarrow>
     (case u_scheme u of
        None \<Rightarrow> False
      | Some s \<Rightarrow> scheme_ok s \<and> s \<noteq> ''file'' \<and>
          (case Curl_get_scheme cfg s of None \<Rightarrow> False | Some x \<Rightarrow> sc_flags x AND PROTOPT_URLOPTIONS = 0)) \<and>
     clean_part ''@/?#:'' (opt_str (u_user u)) \<and> clean_part ''@/?#'' (opt_str (u_password u)) \<and>
     (u_password u \<noteq> None \<longrightarrow> u_user u \<noteq> None) \<and> u_options u = None \<and>
     (case u_host u of None \<Rightarrow> False | Some s \<Rightarrow> stable_host s) \<and> u_zoneid u = None \<and>
     (if u_port_present u then u_portnum u \<le> 65535 else u_portnum u = 0) \<and>
     (case u_path u of None \<Rightarrow> True | Some p \<Rightarrow> 2 \<le> length p \<and> peek p = CHR ''/'' \<and> clean_part ''?#'' p \<and> remove_dot_segments p = p) \<and>
     clean_part ''#'' (opt_str (u_query u)) \<and> (u_query_present u \<longleftrightarrow> u_query u \<noteq> None) \<and>
     clean_part [] (opt_str (u_fragment u)) \<and> (u_fragment u \<noteq> None \<longrightarrow> u_fragment_present u) \<and> u_fragment u \<noteq> Some [] \<and>
     \<not> u_guessed_scheme u"

definition login_text :: "Curl_URL \<Rightarrow> bytes" where
  "login_text u = (case u_user u of None \<Rightarrow> [] | Some us \<Rightarrow> us @ with_prefix '':'' (u_password u) @ ''@'')"

definition port_suffix :: "Curl_URL \<Rightarrow> bytes" where
  "port_suffix u = (if u_port_present u then CHR '':'' # show_nat (u_portnum u) else [])"

definition tail_text :: "Curl_URL \<Rightarrow> bytes" where
  "tail_text u =
     (case u_path u of None \<Rightarrow> ''/'' | Some p \<Rightarrow> p) @ with_prefix ''?'' (u_query u) @
     (if u_fragment_present u then CHR ''#'' # opt_str (u_fragment u) else [])"

definition url_text :: "Curl_URL \<Rightarrow> bytes" where
  "url_text u = opt_str (u_scheme u) @ ''://'' @ (login_text u @ opt_str (u_host u) @ port_suffix u) @ tail_text u"

section \<open>Memory\<close>

abbreviation plenty :: heap where "plenty \<equiv> \<lambda>_. True"

lemma addn_plenty:
  assumes "dyn_ok d" "length (dyn_str d) + length t < toobig d"
  obtains d' where "curlx_dyn_addn d plenty t = (CURLE_OK, d', plenty)" "dyn_ok d'" "dyn_str d' = dyn_str d @ t" "toobig d' = toobig d"
proof -
  obtain r d' h' where a: "curlx_dyn_addn d plenty t = (r, d', h')" by (metis prod_cases3)
  have r: "r = CURLE_OK" using dyn.addn_fail[OF assms(1) a] assms(2) by auto
  moreover have "h' = plenty" using dyn.addn_heap[OF a] by auto
  ultimately show ?thesis using that[of d'] a dyn.addn_OK[OF assms(1) a[unfolded r]] by simp
qed

lemma strdup_plenty [simp]: "curlx_strdup s plenty = (Some (cstr s), plenty)"
  by (simp add: curlx_strdup_def)

lemma memdup0_plenty: "length s < SIZE_MAX \<Longrightarrow> curlx_memdup0 s plenty = (Some (cstr s), plenty)"
  by (simp add: curlx_memdup0_def)

section \<open>Scheme\<close>

lemma clean_part_append [simp]: "clean_part e (s @ t) \<longleftrightarrow> clean_part e s \<and> clean_part e t"
  by (simp add: clean_part_def)

lemma clean_part_simps [simp]: "clean_part e []" "clean_part e (c # s) \<longleftrightarrow> clean_char c \<and> c \<notin> set e \<and> clean_part e s"
  by (simp_all add: clean_part_def)

lemma clean_seps [simp]: "clean_char (CHR ''@'')" "clean_char (CHR '':'')" "clean_char (CHR ''/'')" "clean_char (CHR ''?'')" "clean_char (CHR ''#'')" "clean_char (CHR ''['')" "clean_char (CHR '']'')"
  by (simp_all add: clean_char_def byte_val_def)

lemma clean_NUL: "clean_part e s \<Longrightarrow> NUL \<notin> set s"
  by (auto simp: clean_part_def list_all_iff clean_char_def byte_val_def)

lemma raw_lower: "Curl_raw_tolower = tolower"
  by (rule ext) (rule raw_tolower)

lemma absolute_url_text:
  assumes "scheme_ok s" "NUL \<notin> set (s @ ''://'' @ r)"
  shows "Curl_is_absolute_url (s @ ''://'' @ r) False = s"
proof -
  obtain c t where s: "s = c # t" using assms(1) by (cases s) (auto simp: scheme_ok_def)
  have len: "length t \<le> 39" "ISALPHA c" "list_all scheme_char t" using assms(1) s by (auto simp: scheme_ok_def MAX_SCHEME_LEN_def)
  have "\<not> scheme_char (CHR '':'')" by code_simp
  then have "takeWhile scheme_char (take 39 (t @ ''://'' @ r)) = t"
    using len(1,3) by (cases "length t = 39") (auto simp: list_all_iff takeWhile_append2 take_Cons' intro!: takeWhile_eq_all_conv[THEN iffD2])
  moreover have "Curl_strntolower (s @ ''://'' @ r) (length s) = s"
    using strnto_loop_eq[of "s @ ''://'' @ r" "length s" Curl_raw_tolower] assms
    by (simp add: Curl_strntolower_def raw_lower scheme_ok_def)
  ultimately show ?thesis using len(2) s by (simp add: Curl_is_absolute_url_def peek_def MAX_SCHEME_LEN_def)
qed

section \<open>Login\<close>

lemma login_parts_plain:
  "CHR '':'' \<notin> set us \<Longrightarrow> login_parts us False = (us, None, [])"
  "CHR '':'' \<notin> set us \<Longrightarrow> login_parts (us @ CHR '':'' # p) False = (us, Some p, [])"
  by (simp_all add: login_parts_def Let_def)

lemma login_read:
  assumes "CHR '':'' \<notin> set us" "NUL \<notin> set us" "NUL \<notin> set (opt_str pw)" "length us + length (opt_str pw) < SIZE_MAX"
  shows "Curl_parse_login_details (us @ with_prefix '':'' pw) False plenty = (Inr (Some us, pw, None), plenty)"
proof -
  have m: "curlx_memdup0 us plenty = (Some us, plenty)" "curlx_memdup0 (opt_str pw) plenty = (Some (opt_str pw), plenty)"
    using memdup0_plenty[of us] memdup0_plenty[of "opt_str pw"] assms(2-4) by simp_all
  show ?thesis using m login_parts_plain[OF assms(1)]
    by (cases pw) (simp_all add: with_prefix_def Curl_parse_login_details_def opt_str_def)
qed

lemma login_at:
  assumes "CHR ''@'' \<notin> set l" "Curl_parse_login_details l False plenty = (Inr (Some us, pw, None), plenty)"
    and "u_password v = None" "u_scheme v = Some s" "Curl_get_scheme cfg s = Some x" "sc_flags x AND PROTOPT_URLOPTIONS = 0"
  shows "parse_hostname_login cfg v (l @ CHR ''@'' # r) 0 plenty =
    (CURLUE_OK, v\<lparr>u_user := Some us, u_password := pw\<rparr>, length l + 1, plenty)"
  using assms by (cases pw) (simp_all add: parse_hostname_login_def has_flag_def set_some_def)

lemma login_split:
  assumes "u_options v = None" "u_user v = None" "u_password v = None" "u_scheme v = Some s" "Curl_get_scheme cfg s = Some x" "sc_flags x AND PROTOPT_URLOPTIONS = 0"
    and u: "clean_part ''@/?#:'' (opt_str (u_user u))" "clean_part ''@/?#'' (opt_str (u_password u))" "u_password u \<noteq> None \<longrightarrow> u_user u \<noteq> None"
    and r: "CHR ''@'' \<notin> set r" "length (login_text u) < SIZE_MAX"
  shows "parse_hostname_login cfg v (login_text u @ r) 0 plenty =
    (CURLUE_OK, v\<lparr>u_user := u_user u, u_password := u_password u\<rparr>, length (login_text u), plenty)"
proof (cases "u_user u")
  case None
  then have "u_password u = None" using u(3) by auto
  then show ?thesis using None r(1) assms(1-3) by (simp add: login_text_def parse_hostname_login_def clear_login_def)
next
  case (Some us)
  define l where "l = us @ with_prefix '':'' (u_password u)"
  have us: "clean_part ''@/?#:'' us" using u(1) Some by (simp add: opt_str_def)
  have at: "CHR ''@'' \<notin> set l" using us u(2)
    by (auto simp: l_def clean_part_def list_all_iff with_prefix_def opt_str_def split: option.splits)
  have t: "login_text u @ r = l @ CHR ''@'' # r" "length (login_text u) = length l + 1" using Some by (simp_all add: login_text_def l_def)
  have "length us + length (opt_str (u_password u)) < SIZE_MAX" using t(2) r(2) by (cases "u_password u") (simp_all add: l_def opt_str_def with_prefix_def)
  then have "Curl_parse_login_details l False plenty = (Inr (Some us, u_password u, None), plenty)"
    unfolding l_def using us clean_NUL[OF us] clean_NUL[OF u(2)] by (intro login_read) (auto simp: clean_part_def list_all_iff)
  from login_at[OF at this assms(3-6)] t Some show ?thesis by simp
qed

section \<open>Port\<close>

lemma base_value_show: "base_value 10 (show_nat n) = int n"
proof -
  have "base_value 10 ds = digits_value 10 0 (map digit_val ds)" if "list_all isdigit ds" for ds
    using that hexval_digit by (auto simp: base_value_def list_all_iff intro!: arg_cong[where f = "digits_value 10 0"])
  then show ?thesis using show_nat_digits[of n] by (simp add: list_all_iff show_nat_value)
qed

lemma read_port: "n \<le> 65535 \<Longrightarrow> curlx_str_number (show_nat n) 65535 = (STRE_OK, int n, [])"
proof -
  assume n: "n \<le> 65535"
  have d: "\<forall>c\<in>set (show_nat n). digit_of_base 10 c" using show_nat_digits by (simp add: digit_of_base_iff)
  then have "takeWhile (digit_of_base 10) (show_nat n) = show_nat n" "dropWhile (digit_of_base 10) (show_nat n) = []"
    unfolding takeWhile_eq_all_conv dropWhile_eq_Nil_conv by simp_all
  note t = this
  show ?thesis using n t(2) base_value_show[of n] show_nat_nonempty[of n] unfolding curlx_str_number_def by (subst str_num_base_eq) (simp_all add: Let_def t(1)[unfolded digit_of_base_iff] t(1) del: takeWhile_eq_all_conv)
qed

lemma addr_no_bracket: "list_all addr_char a \<Longrightarrow> CHR '']'' \<notin> set a \<and> CHR ''@'' \<notin> set a \<and> CHR ''/'' \<notin> set a \<and> CHR ''?'' \<notin> set a \<and> CHR ''#'' \<notin> set a \<and> CHR ''%'' \<notin> set a"
  by (auto simp: list_all_iff addr_char_def ISXDIGIT_def isdigit_def byte_val_def)

lemma find_port_suffix:
  assumes "stable_host s"
  shows "find_port s = Inr None" "find_port (s @ CHR '':'' # r) = Inr (Some (length s))"
proof -
  have "find_port s = Inr None \<and> find_port (s @ CHR '':'' # r) = Inr (Some (length s))"
  proof (cases "peek s = CHR ''[''")
    case True
    define a where "a = butlast (tl s)"
    have a: "s = ''['' @ a @ '']''" "list_all addr_char a" using assms True by (simp_all add: stable_host_def a_def Let_def)
    then have n: "CHR '']'' \<notin> set (CHR ''['' # a)" using addr_no_bracket by simp
    have "index_of (CHR '']'') ((CHR ''['' # a) @ CHR '']'' # t) = Some (length a + 1)" for t using index_of_at[OF n, of t] by simp
    from this[of "[]"] this[of "CHR '':'' # r"] show ?thesis by (simp add: find_port_def a(1) peek_def del: index_of.simps)
  next
    case False
    then have "s \<noteq> []" "CHR '':'' \<notin> set s" using assms by (auto simp: stable_host_def clean_part_def list_all_iff HOSTNAME_INVALID_CHARS_def)
    then show ?thesis using False by (cases s) (auto simp: find_port_def peek_def)
  qed
  then show "find_port s = Inr None" "find_port (s @ CHR '':'' # r) = Inr (Some (length s))" by simp_all
qed

lemma show_nat_peek: "peek (show_nat n) \<noteq> BACKSLASH"
  using show_nat_digits[of n] by (cases "show_nat n") (auto simp: peek_def BACKSLASH_def isdigit_def byte_val_def)

lemma port_split:
  assumes "dyn_ok d" "dyn_str d = s @ port_suffix u" "stable_host s" "NUL \<notin> set s" "if u_port_present u then u_portnum u \<le> 65535 else u_portnum u = 0"
  obtains d' where "parse_port v d True = (CURLUE_OK, v\<lparr>u_portnum := u_portnum u, u_port_present := u_port_present u\<rparr>, d')"
    "dyn_ok d'" "dyn_str d' = s" "toobig d' = toobig d"
proof -
  have "NUL \<notin> set (port_suffix u)" using show_nat_notin[of NUL "u_portnum u"] by (simp add: port_suffix_def isdigit_def byte_val_def)
  then have c: "dyn_cstr d = s @ port_suffix u" using dyn_cstr_str[OF assms(1)] assms(2,4) by simp
  show ?thesis
  proof (cases "u_port_present u")
    case False
    then show ?thesis using that[of d] assms c find_port_suffix(1)[OF assms(3)] by (simp add: parse_port_def port_suffix_def Let_def)
  next
    case True
    then have p: "port_suffix u = CHR '':'' # show_nat (u_portnum u)" "u_portnum u \<le> 65535" using assms(5) by (simp_all add: port_suffix_def)
    have "bufr d \<noteq> None" using assms(1,2) p length_dyn_str[OF assms(1)] by (cases "bufr d") (auto simp: dyn_ok_def)
    then have "dyn_ok (host_setlen d (length s))" "toobig (host_setlen d (length s)) = toobig d" "dyn_str (host_setlen d (length s)) = s"
      using host_setlen_ok[OF assms(1), of "length s"] assms(2) by simp_all
    moreover have "parse_port v d True = (CURLUE_OK, v\<lparr>u_portnum := u_portnum u, u_port_present := u_port_present u\<rparr>, host_setlen d (length s))"
      using c p find_port_suffix(2)[OF assms(3)] read_port[OF p(2)] show_nat_peek True
      by (simp add: parse_port_def Let_def peek_def[of "[]"] BACKSLASH_def)
    ultimately show ?thesis using that by blast
  qed
qed

section \<open>Host\<close>

lemma bytes_plenty:
  assumes "dyn_ok d" "length (dyn_str d) + length t < toobig d"
  obtains d' where "alloc_addbyter_loop d plenty t = (MERR_OK, d', plenty)" "dyn_ok d'" "dyn_str d' = dyn_str d @ t"
proof -
  obtain r d' h' where a: "add_pieces curlx_dyn_addn d plenty (map (\<lambda>c. [c]) t) = (r, d', h')" by (metis prod_cases3)
  have r: "r = CURLE_OK" using add_chars[OF assms a] by (auto split: if_splits)
  moreover have "h' = plenty" using dyn.add_pieces_heap[OF a] by auto
  ultimately show ?thesis using that[of d'] a dyn.add_pieces_OK[OF assms(1) a[unfolded r]] by (simp add: alloc_addbyter_pieces merr_def)
qed

lemma addf_plenty:
  assumes "dyn_ok d" "length (dyn_str d) + length t < toobig d"
  obtains d' where "curlx_dyn_addf d plenty t = (CURLE_OK, d', plenty)" "dyn_ok d'" "dyn_str d' = dyn_str d @ t"
  using assms by (rule bytes_plenty) (use that in \<open>auto simp: curlx_dyn_addf_def curlx_dyn_vaddf_def curlx_dyn_vprintf_def\<close>)

lemma pton6_length: "inet_pton6 a \<noteq> None \<Longrightarrow> NUL \<notin> set a \<Longrightarrow> 2 \<le> length a"
proof (rule ccontr)
  assume a: "inet_pton6 a \<noteq> None" "NUL \<notin> set a" "\<not> 2 \<le> length a"
  then consider "a = []" | c where "a = [c]" by (cases a; cases "tl a") auto
  then show False
  proof cases
    case 1
    then show False using a(1) by (simp add: inet_pton6_def pton6_finish_def cstr_def peek_def IN6ADDRSZ_def)
  next
    case 2
    then show False using a(1,2)
      by (auto simp: inet_pton6_def pton6_finish_def cstr_def peek_def IN6ADDRSZ_def word_bytes_def inet_pton4_def Let_def split: if_splits option.splits)
  qed
qed

lemma dyn_text: "dyn_ok d \<Longrightarrow> dyn_str d \<noteq> [] \<Longrightarrow> NUL \<notin> set (dyn_str d) \<Longrightarrow> map_option cstr (curlx_dyn_ptr d) = Some (dyn_str d)"
proof -
  assume d: "dyn_ok d" "dyn_str d \<noteq> []" "NUL \<notin> set (dyn_str d)"
  then obtain b where "curlx_dyn_ptr d = Some b" using length_dyn_str[OF d(1)]
    by (cases "bufr d") (auto simp: dyn_ok_def curlx_dyn_ptr_def)
  then show ?thesis using dyn_string[OF d(1,3)] by simp
qed

lemma write_text: "NUL \<notin> set s \<Longrightarrow> map_option cstr (curlx_dyn_ptr (host_write d s)) = Some s"
  using dyn_cstr_write[of d s] by (auto simp: dyn_cstr_def curlx_dyn_ptr_def host_write_def simp del: dyn_cstr_write)

lemma addr_chars: "addr_char c \<Longrightarrow> c \<in> set ''0123456789abcdefABCDEF:.''"
proof -
  assume "addr_char c"
  then have "byte_val c \<in> set ([48..<58] @ [97..<103] @ [65..<71] @ [58, 46])"
    by (auto simp: addr_char_def ISXDIGIT_def isdigit_def byte_val_def simp del: upt_rec_numeral)
  also have "[48..<58] @ [97..<103] @ [65..<71] @ [58, 46] = map byte_val ''0123456789abcdefABCDEF:.''"
    by code_simp
  finally show ?thesis by (auto simp del: list.map)
qed

lemma ipv6_reread:
  assumes "ipv6_normalize a = Some a" "list_all addr_char a" "NUL \<notin> set a"
  shows "ipv6_parse v (''['' @ a @ '']'') plenty = (CURLUE_OK, v, ''['' @ a @ '']'', plenty)"
proof -
  have "inet_pton6 a \<noteq> None" using assms(1) by (auto simp: ipv6_normalize_def curlx_inet_pton_def split: option.splits)
  then have l: "2 \<le> length a" using pton6_length assms(3) by blast
  have "takeWhile (\<lambda>c. c \<in> set ''0123456789abcdefABCDEF:.'') (a @ '']'') = a"
    using assms(2) addr_chars by (subst takeWhile_append2) (auto simp: list_all_iff)
  then show ?thesis using l assms(1) by (simp add: ipv6_parse_def Let_def)
qed

lemma stable_host_facts:
  assumes "stable_host s"
  shows "s \<noteq> []" "NUL \<notin> set s" "CHR ''%'' \<notin> set s" "clean_part ''@/?#'' s"
proof -
  have "s \<noteq> [] \<and> clean_part ''@/?#%'' s"
  proof (cases "peek s = CHR ''[''")
    case True
    define a where "a = butlast (tl s)"
    have a: "s = ''['' @ a @ '']''" "list_all addr_char a" using assms True by (simp_all add: stable_host_def a_def Let_def)
    have "addr_char c \<Longrightarrow> clean_char c \<and> c \<notin> set ''@/?#%''" for c
      by (auto simp: addr_char_def clean_char_def ISXDIGIT_def isdigit_def byte_val_def)
    then have "clean_part ''@/?#%'' a" using a(2) by (simp only: clean_part_def list_all_iff) blast
    then show ?thesis using a(1) by simp
  next
    case False
    then have "s \<noteq> []" "clean_part HOSTNAME_INVALID_CHARS s" using assms by (simp_all add: stable_host_def)
    moreover have "set ''@/?#%'' \<subseteq> set HOSTNAME_INVALID_CHARS" by (simp add: HOSTNAME_INVALID_CHARS_def)
    ultimately show ?thesis unfolding clean_part_def list_all_iff by blast
  qed
  then have c: "s \<noteq> []" "clean_part ''@/?#%'' s" by simp_all
  from c(1) show "s \<noteq> []" .
  from clean_NUL[OF c(2)] show "NUL \<notin> set s" .
  from c(2) show "CHR ''%'' \<notin> set s" "clean_part ''@/?#'' s" by (auto simp: clean_part_def list_all_iff)
qed

lemma name_check:
  assumes "stable_host s" "peek s \<noteq> CHR ''[''"
  shows "hostname_check v s h = (CURLUE_OK, v, s, h)"
proof -
  have s: "s \<noteq> []" "clean_part HOSTNAME_INVALID_CHARS s" "s \<noteq> ''.''" "2 \<le> length s \<longrightarrow> drop (length s - 2) s \<noteq> ''..''"
    using assms by (simp_all add: stable_host_def)
  have t: "takeWhile (\<lambda>c. c \<notin> set HOSTNAME_INVALID_CHARS) s = s" using s(2) unfolding takeWhile_eq_all_conv clean_part_def list_all_iff by blast
  have "s ! 0 \<noteq> CHR ''[''" using s(1) assms(2) by (cases s) (auto simp: peek_def)
  moreover have "\<not> (2 \<le> length s \<and> s ! (length s - 1) = CHR ''.'' \<and> s ! (length s - 2) = CHR ''.'')"
  proof
    assume a: "2 \<le> length s \<and> s ! (length s - 1) = CHR ''.'' \<and> s ! (length s - 2) = CHR ''.''"
    then obtain t x y where "s = t @ [x, y]" by (cases s rule: rev_cases; cases "butlast s" rule: rev_cases) auto
    with a s(4) show False by (simp add: nth_append)
  qed
  moreover have "\<not> (length s = 1 \<and> s ! 0 = CHR ''.'')" using s(3) by (cases s) auto
  ultimately show ?thesis using s(1) by (simp add: hostname_check_def Let_def t del: takeWhile_eq_all_conv)
qed

lemma host_reread:
  assumes "dyn_ok d" "dyn_str d = s" "stable_host s" "length s < toobig d"
  obtains d' where "check_host v d plenty = (CURLUE_OK, v, d', plenty)" "map_option cstr (curlx_dyn_ptr d') = Some s"
proof -
  note F = stable_host_facts[OF assms(3)]
  have c: "dyn_cstr d = s" using dyn_cstr_str[OF assms(1)] assms(2) F(2) by simp
  show ?thesis
  proof (cases "peek s = CHR ''[''")
    case True
    define a where "a = butlast (tl s)"
    have a: "s = ''['' @ a @ '']''" "list_all addr_char a" "ipv6_normalize a = Some a" using assms(3) True by (simp_all add: stable_host_def a_def Let_def)
    then have "NUL \<notin> set a" using F(2) by simp
    then show ?thesis using that[of "host_write d s"] ipv6_reread[OF a(3,2)] c True write_text[OF F(2)] a(1)
      by (simp add: check_host_def ipv4_normalize_def peek_def)
  next
    case False
    note name = name_check[OF assms(3) False, of v plenty]
    show ?thesis
    proof (cases "\<exists>ps a. numeric_host s = Some ps \<and> ipv4_octets ps = Some a")
      case True
      then obtain ps a where a: "numeric_host s = Some ps" "ipv4_octets ps = Some a" by blast
      then have "dotted a = s" using assms(3) False by (simp add: stable_host_def)
      moreover obtain d' where "curlx_dyn_addf (curlx_dyn_reset d) plenty s = (CURLE_OK, d', plenty)" "dyn_ok d'" "dyn_str d' = s"
        using addf_plenty[of "curlx_dyn_reset d" s] dyn_reset_ok[OF assms(1)] assms(4) by auto
      ultimately show ?thesis using that[of d'] a c False dyn_text[of d'] F(1,2) by (simp add: check_host_def ipv4_normalize_def numeric_host_loop)
    next
      case None: False
      then have "ipv4_normalize d plenty = (HOST_NAME, d, plenty)" using c False
        by (auto simp: ipv4_normalize_def numeric_host_loop Let_def split: option.splits)
      then show ?thesis using that[of "host_write d s"] name c write_text[OF F(2)] by (simp add: check_host_def)
    qed
  qed
qed

section \<open>The authority\<close>

text \<open>What is known of a complete URL, piece by piece.\<close>

lemma complete_urlE:
  assumes "complete_url cfg u"
  obtains s x host where "u_scheme u = Some s" "scheme_ok s" "s \<noteq> ''file''" "Curl_get_scheme cfg s = Some x" "sc_flags x AND PROTOPT_URLOPTIONS = 0"
    "u_host u = Some host" "stable_host host"
    "clean_part ''@/?#:'' (opt_str (u_user u))" "clean_part ''@/?#'' (opt_str (u_password u))" "u_password u \<noteq> None \<longrightarrow> u_user u \<noteq> None"
    "if u_port_present u then u_portnum u \<le> 65535 else u_portnum u = 0"
  using assms by (auto simp: complete_url_def split: option.splits)

lemma auth_clean:
  assumes "complete_url cfg u"
  shows "clean_part ''/?#'' (login_text u @ opt_str (u_host u) @ port_suffix u)" "CHR ''@'' \<notin> set (opt_str (u_host u) @ port_suffix u)"
proof -
  obtain s x host where c: "u_host u = Some host" "stable_host host"
    "clean_part ''@/?#:'' (opt_str (u_user u))" "clean_part ''@/?#'' (opt_str (u_password u))"
    using assms by (rule complete_urlE)
  have sub: "clean_part e t \<Longrightarrow> set e' \<subseteq> set e \<Longrightarrow> clean_part e' t" for e e' t by (auto simp: clean_part_def list_all_iff)
  have host: "clean_part ''@/?#'' host" using stable_host_facts[OF c(2)] by simp
  have "isdigit d \<Longrightarrow> clean_char d \<and> d \<notin> set ''@/?#''" for d by (auto simp: clean_char_def isdigit_def byte_val_def)
  then have "clean_part ''@/?#'' (show_nat n)" for n using show_nat_digits[of n] unfolding clean_part_def list_all_iff by blast
  then have port: "clean_part ''@/?#'' (port_suffix u)" by (simp add: port_suffix_def)
  have login: "clean_part ''/?#'' (login_text u)"
  proof (cases "u_user u")
    case (Some us)
    have "clean_part ''/?#'' us" "clean_part ''/?#'' (opt_str (u_password u))" using c(3) sub[OF c(3), of "''/?#''"] sub[OF c(4), of "''/?#''"] Some by (auto simp: opt_str_def)
    then show ?thesis using Some by (cases "u_password u") (simp_all add: login_text_def with_prefix_def opt_str_def)
  qed (simp add: login_text_def)
  show "clean_part ''/?#'' (login_text u @ opt_str (u_host u) @ port_suffix u)"
    using login sub[OF host, of "''/?#''"] sub[OF port, of "''/?#''"] c(1) by (simp add: opt_str_def)
  show "CHR ''@'' \<notin> set (opt_str (u_host u) @ port_suffix u)" using host port c(1) by (auto simp: opt_str_def clean_part_def list_all_iff)
qed

lemma authority_reread:
  assumes u: "complete_url cfg u"
    and v: "u_scheme v = u_scheme u" "u_options v = None" "u_user v = None" "u_password v = None"
    and d: "dyn_ok d" "dyn_str d = []" "length (login_text u @ opt_str (u_host u) @ port_suffix u) < toobig d" "toobig d \<le> SIZE_MAX"
  obtains d' where "parse_authority cfg v (login_text u @ opt_str (u_host u) @ port_suffix u) 0 d True plenty =
      (CURLUE_OK, v\<lparr>u_user := u_user u, u_password := u_password u, u_portnum := u_portnum u, u_port_present := u_port_present u\<rparr>, d', plenty)"
    "map_option cstr (curlx_dyn_ptr d') = u_host u"
proof -
  obtain s x host where c: "u_scheme u = Some s" "Curl_get_scheme cfg s = Some x" "sc_flags x AND PROTOPT_URLOPTIONS = 0"
    "u_host u = Some host" "stable_host host"
    "clean_part ''@/?#:'' (opt_str (u_user u))" "clean_part ''@/?#'' (opt_str (u_password u))" "u_password u \<noteq> None \<longrightarrow> u_user u \<noteq> None"
    "if u_port_present u then u_portnum u \<le> 65535 else u_portnum u = 0"
    using u by (rule complete_urlE)
  note F = stable_host_facts[OF c(5)]
  let ?v = "v\<lparr>u_user := u_user u, u_password := u_password u\<rparr>" and ?r = "opt_str (u_host u) @ port_suffix u"
  have login: "parse_hostname_login cfg v (login_text u @ ?r) 0 plenty = (CURLUE_OK, ?v, length (login_text u), plenty)"
    using v c(1) auth_clean(2)[OF u] d(3,4) by (intro login_split[OF v(2,3,4) _ c(2,3,6,7,8)]) simp_all
  obtain d1 where d1: "curlx_dyn_addn d plenty ?r = (CURLE_OK, d1, plenty)" "dyn_ok d1" "dyn_str d1 = host @ port_suffix u" "toobig d1 = toobig d"
    using addn_plenty[OF d(1), of ?r] d(2,3) c(4) by (auto simp: opt_str_def)
  obtain d2 where d2: "parse_port ?v d1 True = (CURLUE_OK, ?v\<lparr>u_portnum := u_portnum u, u_port_present := u_port_present u\<rparr>, d2)"
      "dyn_ok d2" "dyn_str d2 = host" "toobig d2 = toobig d1"
    by (rule port_split[OF d1(2,3) c(5) F(2) c(9)])
  have "length host < toobig d2" using d(3) c(4) d1(4) d2(4) by (simp add: opt_str_def)
  from host_reread[OF d2(2,3) c(5) this] obtain d3 where d3:
      "check_host (?v\<lparr>u_portnum := u_portnum u, u_port_present := u_port_present u\<rparr>) d2 plenty =
        (CURLUE_OK, ?v\<lparr>u_portnum := u_portnum u, u_port_present := u_port_present u\<rparr>, d3, plenty)"
      "map_option cstr (curlx_dyn_ptr d3) = Some host" .
  have "curlx_dyn_len d2 \<noteq> 0" using dyn_len_str[OF d2(2)] d2(3) F(1) by simp
  moreover have "urldecode_host d2 plenty = (CURLUE_OK, d2, plenty)" using dyn_cstr_str[OF d2(2)] d2(3) F(2,3) by (simp add: urldecode_host_def)
  ultimately show ?thesis using that[of d3] login d1(1) d2(1) d3 c(4) by (simp add: parse_authority_def)
qed

section \<open>Path, query and fragment\<close>

lemma no_flags [simp]: "\<not> has_flag 0 f"
  by (simp add: has_flag_def)

lemma store_plain: "length s < SIZE_MAX \<Longrightarrow> NUL \<notin> set s \<Longrightarrow> store_part s q 0 plenty = (CURLUE_OK, Some s, plenty)"
  by (simp add: store_part_def memdup0_plenty)

lemma clean_path_same:
  assumes "peek p = CHR ''/''" "NUL \<notin> set p" "length p < MAX_DYNBUF_SIZE" "remove_dot_segments p = p" "u_path v = Some p"
  shows "\<exists>h'. clean_path v p 0 plenty = (CURLUE_OK, v, h')"
proof -
  obtain s where s: "p = SLASH # s" using assms(1) by (cases p) (auto simp: peek_def)
  obtain rc out h' where d: "dedotdotify p plenty = (rc, out, h')" by (metis prod_cases3)
  from dedotdotify_facts[OF s assms(2,3) d] assms(4) have "rc = 0" "(case out of None \<Rightarrow> p | Some t \<Rightarrow> t) = p" by (auto split: if_splits)
  then show ?thesis using d assms(5) by (cases out) (auto simp: clean_path_def)
qed

lemma path_reread:
  assumes "u_path v = None" "case path of None \<Rightarrow> True | Some p \<Rightarrow> 2 \<le> length p \<and> peek p = CHR ''/'' \<and> clean_part ''?#'' p \<and> remove_dot_segments p = p"
    and "length (opt_str path) < MAX_DYNBUF_SIZE"
  shows "\<exists>h'. handle_path v (case path of None \<Rightarrow> ''/'' | Some p \<Rightarrow> p) 0 False plenty = (CURLUE_OK, v\<lparr>u_path := path\<rparr>, h')"
proof (cases path)
  case None
  then show ?thesis using assms(1) by (cases v) (auto simp: handle_path_def)
next
  case (Some p)
  then have p: "2 \<le> length p" "peek p = CHR ''/''" "NUL \<notin> set p" "remove_dot_segments p = p" "length p < MAX_DYNBUF_SIZE"
    using assms(2,3) clean_NUL[of "''?#''" p] by (simp_all add: opt_str_def)
  then have m: "curlx_memdup0 p plenty = (Some p, plenty)" using memdup0_plenty[of p] by (simp add: MAX_DYNBUF_SIZE_def SIZE_MAX_def)
  obtain h' where "clean_path (v\<lparr>u_path := Some p\<rparr>) p 0 plenty = (CURLUE_OK, v\<lparr>u_path := Some p\<rparr>, h')"
    using clean_path_same[OF p(2,3,5,4), of "v\<lparr>u_path := Some p\<rparr>"] by auto
  then show ?thesis using Some p(1) m assms(1) by (auto simp: handle_path_def)
qed

lemma query_reread:
  assumes "NUL \<notin> set q" "length q < SIZE_MAX"
  shows "handle_query v (CHR ''?'' # q) 0 plenty = (CURLUE_OK, v\<lparr>u_query := Some q, u_query_present := True\<rparr>, plenty)"
  using assms by (cases q) (auto simp: handle_query_def store_plain Let_def cstr_def)

lemma fragment_reread:
  assumes "NUL \<notin> set f" "length f < SIZE_MAX" "u_fragment v = None"
  shows "handle_fragment v (CHR ''#'' # f) 0 plenty =
    (CURLUE_OK, v\<lparr>u_fragment := (if f = [] then None else Some f), u_fragment_present := True\<rparr>, plenty)"
  using assms by (cases f) (auto simp: handle_fragment_def store_plain Let_def)

lemma complete_tailE:
  assumes "complete_url cfg u"
  obtains p where "p = (case u_path u of None \<Rightarrow> ''/'' | Some p \<Rightarrow> p)" "clean_part ''?#'' p" "peek p = CHR ''/''"
    "case u_path u of None \<Rightarrow> True | Some p \<Rightarrow> 2 \<le> length p \<and> peek p = CHR ''/'' \<and> clean_part ''?#'' p \<and> remove_dot_segments p = p"
    "clean_part ''#'' (opt_str (u_query u))" "u_query_present u \<longleftrightarrow> u_query u \<noteq> None"
    "clean_part [] (opt_str (u_fragment u))" "u_fragment u \<noteq> None \<longrightarrow> u_fragment_present u" "u_fragment u \<noteq> Some []"
  using assms by (auto simp: complete_url_def peek_def split: option.splits)

lemma rest_reread:
  assumes u: "complete_url cfg u" "length (tail_text u) < MAX_DYNBUF_SIZE"
    and v: "u_path v = None" "u_query v = None" "\<not> u_query_present v" "u_fragment v = None" "\<not> u_fragment_present v"
  shows "\<exists>h'. parse_rest v (tail_text u) 0 False plenty = (CURLUE_OK, v\<lparr>u_path := u_path u, u_query := u_query u,
      u_query_present := u_query_present u, u_fragment := u_fragment u, u_fragment_present := u_fragment_present u\<rparr>, h')"
proof -
  obtain p where p: "p = (case u_path u of None \<Rightarrow> ''/'' | Some p \<Rightarrow> p)" "clean_part ''?#'' p"
    "case u_path u of None \<Rightarrow> True | Some p \<Rightarrow> 2 \<le> length p \<and> peek p = CHR ''/'' \<and> clean_part ''?#'' p \<and> remove_dot_segments p = p"
    and q: "clean_part ''#'' (opt_str (u_query u))" "u_query_present u \<longleftrightarrow> u_query u \<noteq> None"
    and f: "clean_part [] (opt_str (u_fragment u))" "u_fragment u \<noteq> None \<longrightarrow> u_fragment_present u" "u_fragment u \<noteq> Some []"
    using u(1) by (rule complete_tailE)
  define qt where "qt = with_prefix ''?'' (u_query u)"
  define ft where "ft = (if u_fragment_present u then CHR ''#'' # opt_str (u_fragment u) else [])"
  have t: "tail_text u = (p @ qt) @ ft" by (simp add: tail_text_def p(1) qt_def ft_def)
  have size: "length (opt_str (u_path u)) < MAX_DYNBUF_SIZE" "length (opt_str (u_query u)) < SIZE_MAX" "length (opt_str (u_fragment u)) < SIZE_MAX"
    using u(2) f(2) unfolding t by (auto simp: p(1) qt_def ft_def with_prefix_def opt_str_def MAX_DYNBUF_SIZE_def SIZE_MAX_def split: option.splits if_splits)
  let ?v1 = "v\<lparr>u_fragment := u_fragment u, u_fragment_present := u_fragment_present u\<rparr>"
  let ?v2 = "?v1\<lparr>u_query := u_query u, u_query_present := u_query_present u\<rparr>"
  have hash: "CHR ''#'' \<notin> set (p @ qt)" using p(2) q(1) by (auto simp: qt_def clean_part_def list_all_iff with_prefix_def opt_str_def split: option.splits)
  have frag: "(case index_of (CHR ''#'') ((p @ qt) @ ft) of None \<Rightarrow> (CURLUE_OK, v, (p @ qt) @ ft, plenty)
      | Some i \<Rightarrow> (case handle_fragment v (drop i ((p @ qt) @ ft)) 0 plenty of (ures, u, h) \<Rightarrow> (ures, u, take i ((p @ qt) @ ft), h))) =
      (CURLUE_OK, ?v1, p @ qt, plenty)"
  proof (cases "u_fragment_present u")
    case True
    then have ft: "ft = CHR ''#'' # opt_str (u_fragment u)" by (simp add: ft_def)
    have "(if opt_str (u_fragment u) = [] then None else Some (opt_str (u_fragment u))) = u_fragment u" using f(3) by (cases "u_fragment u") (auto simp: opt_str_def)
    then have "handle_fragment v ft 0 plenty = (CURLUE_OK, ?v1, plenty)" using fragment_reread[OF clean_NUL[OF f(1)] size(3) v(4)] True ft by simp
    then show ?thesis using index_of_at[OF hash, of "opt_str (u_fragment u)"] by (simp only: ft option.case) simp
  next
    case False
    then have "ft = []" "?v1 = v" using f(2) v(4,5) by (cases v, auto simp: ft_def)
    then show ?thesis using hash by simp
  qed
  have query: "(case index_of (CHR ''?'') (p @ qt) of None \<Rightarrow> (CURLUE_OK, ?v1, p @ qt, plenty)
      | Some i \<Rightarrow> (case handle_query ?v1 (drop i (p @ qt)) 0 plenty of (ures, u, h) \<Rightarrow> (ures, u, take i (p @ qt), h))) =
      (CURLUE_OK, ?v2, p, plenty)"
  proof (cases "u_query u")
    case None
    moreover have "CHR ''?'' \<notin> set p" using p(2) by (auto simp: clean_part_def list_all_iff)
    ultimately show ?thesis using q(2) v(2,3) by (cases v) (simp add: qt_def with_prefix_def)
  next
    case (Some qs)
    then have qt: "qt = CHR ''?'' # qs" by (simp add: qt_def with_prefix_def)
    have n: "CHR ''?'' \<notin> set p" using p(2) by (auto simp: clean_part_def list_all_iff)
    have "handle_query ?v1 qt 0 plenty = (CURLUE_OK, ?v2, plenty)"
      using query_reread[of qs ?v1] clean_NUL[OF q(1)] size(2) Some q(2) qt by (simp add: opt_str_def)
    then show ?thesis using index_of_at[OF n, of qs] by (simp only: qt option.case) simp
  qed
  obtain h' where "handle_path ?v2 p 0 False plenty = (CURLUE_OK, ?v2\<lparr>u_path := u_path u\<rparr>, h')"
    using path_reread[of ?v2 "u_path u"] p(1,3) size(1) v(1) by auto
  then show ?thesis unfolding parse_rest_def t frag prod.case query by simp
qed

section \<open>Reading a text back\<close>

lemma scheme_clean: "list_all scheme_char s \<Longrightarrow> clean_part [] s"
  by (auto simp: list_all_iff clean_part_def clean_char_def scheme_char_def ISALNUM_def isdigit_def byte_val_def)

lemma clean_weaken: "clean_part e t \<Longrightarrow> clean_part [] t"
  by (auto simp: clean_part_def list_all_iff)

lemma text_clean:
  assumes "complete_url cfg u"
  shows "clean_part [] (url_text u)"
proof -
  obtain s where s: "u_scheme u = Some s" "scheme_ok s" using assms by (rule complete_urlE)
  obtain p where p: "p = (case u_path u of None \<Rightarrow> ''/'' | Some p \<Rightarrow> p)" "clean_part ''?#'' p"
    "clean_part ''#'' (opt_str (u_query u))" "clean_part [] (opt_str (u_fragment u))"
    using assms by (rule complete_tailE)
  have "clean_part [] (with_prefix ''?'' (u_query u))" using clean_weaken[OF p(3)] by (cases "u_query u") (simp_all add: with_prefix_def opt_str_def)
  then have "clean_part [] (tail_text u)" using clean_weaken[OF p(2)] p(1,4) by (simp add: tail_text_def)
  moreover have "clean_part [] s" using s(2) scheme_clean by (simp add: scheme_ok_def)
  ultimately show ?thesis using clean_weaken[OF auth_clean(1)[OF assms]] s(1) by (simp add: url_text_def opt_str_def)
qed

lemma junk_free: "clean_part [] t \<Longrightarrow> length t \<le> CURL_MAX_INPUT_LENGTH \<Longrightarrow> Curl_junkscan t False = CURLUE_OK"
  by (auto simp: Curl_junkscan_def clean_part_def clean_char_def list_all_iff list_ex_iff Let_def)

lemma front_reread:
  assumes u: "complete_url cfg u" "length (url_text u) < CURL_MAX_INPUT_LENGTH"
  obtains d' where "parse_front cfg (url_text u) blank_url (opt_str (u_scheme u)) 0 plenty =
      (CURLUE_OK, blank_url\<lparr>u_scheme := u_scheme u, u_user := u_user u, u_password := u_password u,
         u_portnum := u_portnum u, u_port_present := u_port_present u\<rparr>, d', tail_text u, plenty)"
    "map_option cstr (curlx_dyn_ptr d') = u_host u"
proof -
  obtain s x host where c: "u_scheme u = Some s" "scheme_ok s" "s \<noteq> ''file''" "Curl_get_scheme cfg s = Some x" "u_host u = Some host" "stable_host host"
    using u(1) by (rule complete_urlE)
  obtain p where p: "p = (case u_path u of None \<Rightarrow> ''/'' | Some p \<Rightarrow> p)" "peek p = CHR ''/''" using u(1) by (rule complete_tailE)
  define auth where "auth = login_text u @ opt_str (u_host u) @ port_suffix u"
  have auth: "auth \<noteq> []" "list_all (\<lambda>c. c \<notin> set ''/?#'') auth"
    using auth_clean(1)[OF u(1)] c(5) stable_host_facts(1)[OF c(6)] by (auto simp: auth_def opt_str_def clean_part_def list_all_iff)
  have url: "url_text u = s @ CHR '':'' # CHR ''/'' # CHR ''/'' # auth @ tail_text u" using c(1) by (simp add: url_text_def auth_def opt_str_def)
  obtain r where tail: "tail_text u = CHR ''/'' # r" using p(2) unfolding tail_text_def p(1)[symmetric] by (cases p) (auto simp: peek_def)
  have host: "takeWhile (\<lambda>c. c \<notin> set ''/?#'') (auth @ tail_text u) = auth"
    using auth(2) by (subst takeWhile_append2) (auto simp: list_all_iff tail)
  have slashes: "takeWhile ISSLASH (CHR ''/'' # CHR ''/'' # auth @ tail_text u) = ''//''"
    using auth by (cases auth) (auto simp: ISSLASH_def)
  have NUL: "NUL \<notin> set s" using clean_NUL[OF text_clean[OF u(1)]] url by simp
  have scheme: "parse_scheme cfg (url_text u) blank_url s 0 plenty = (CURLUE_OK, blank_url\<lparr>u_scheme := Some s\<rparr>, auth @ tail_text u, plenty)"
    using c(2,4) slashes NUL by (simp add: parse_scheme_def scheme_of_url_def url Let_def scheme_ok_def)
  have size: "length (login_text u @ opt_str (u_host u) @ port_suffix u) < toobig (curlx_dyn_init CURL_MAX_INPUT_LENGTH)"
    using u(2) url by (simp add: auth_def)
  have init: "dyn_ok (curlx_dyn_init CURL_MAX_INPUT_LENGTH)" by (rule dyn_ok_init) (simp_all add: CURL_MAX_INPUT_LENGTH_def MAX_DYNBUF_SIZE_def SIZE_MAX_def)
  obtain d' where d': "parse_authority cfg (blank_url\<lparr>u_scheme := Some s\<rparr>) auth 0 (curlx_dyn_init CURL_MAX_INPUT_LENGTH) True plenty =
      (CURLUE_OK, blank_url\<lparr>u_scheme := Some s, u_user := u_user u, u_password := u_password u, u_portnum := u_portnum u, u_port_present := u_port_present u\<rparr>, d', plenty)"
      "map_option cstr (curlx_dyn_ptr d') = u_host u"
    using authority_reread[OF u(1), of "blank_url\<lparr>u_scheme := Some s\<rparr>", OF _ _ _ _ init _ size] c(1)
    by (auto simp: auth_def blank_url_def CURL_MAX_INPUT_LENGTH_def SIZE_MAX_def)
  show ?thesis
    using that[of d'] d' c(1,3) scheme host auth(1) by (simp add: parse_front_def opt_str_def)
qed

lemma text_reread:
  assumes "complete_url cfg u" "length (url_text u) < CURL_MAX_INPUT_LENGTH"
  shows "\<exists>h'. parseurl_and_replace cfg (url_text u) w 0 plenty = (CURLUE_OK, u, h')"
proof -
  obtain s where s: "u_scheme u = Some s" "scheme_ok s" "s \<noteq> ''file''" using assms(1) by (rule complete_urlE)
  define v where "v = blank_url\<lparr>u_scheme := u_scheme u, u_user := u_user u, u_password := u_password u,
         u_portnum := u_portnum u, u_port_present := u_port_present u\<rparr>"
  obtain d' where front: "parse_front cfg (url_text u) blank_url s 0 plenty = (CURLUE_OK, v, d', tail_text u, plenty)"
      and host: "map_option cstr (curlx_dyn_ptr d') = u_host u"
    using front_reread[OF assms] s(1) by (auto simp: v_def opt_str_def)
  have "length (tail_text u) < MAX_DYNBUF_SIZE" using assms(2) by (simp add: url_text_def CURL_MAX_INPUT_LENGTH_def MAX_DYNBUF_SIZE_def SIZE_MAX_def)
  then obtain h' where rest: "parse_rest v (tail_text u) 0 False plenty = (CURLUE_OK, v\<lparr>u_path := u_path u, u_query := u_query u,
      u_query_present := u_query_present u, u_fragment := u_fragment u, u_fragment_present := u_fragment_present u\<rparr>, h')"
    using rest_reread[OF assms(1), of v] by (auto simp: v_def blank_url_def)
  note clean = text_clean[OF assms(1)]
  have "Curl_is_absolute_url (url_text u) False = s" using absolute_url_text[OF s(2)] clean_NUL[OF clean] s(1) by (simp add: url_text_def opt_str_def)
  then have "parseurl cfg (url_text u) blank_url 0 plenty = (CURLUE_OK, v\<lparr>u_path := u_path u, u_query := u_query u,
      u_query_present := u_query_present u, u_fragment := u_fragment u, u_fragment_present := u_fragment_present u, u_host := u_host u\<rparr>, h')"
    using junk_free[OF clean] assms(2) front rest host s(3) by (simp add: parseurl_def)
  moreover have "v\<lparr>u_path := u_path u, u_query := u_query u,
      u_query_present := u_query_present u, u_fragment := u_fragment u, u_fragment_present := u_fragment_present u, u_host := u_host u\<rparr> = u"
    using assms(1) by (cases u) (auto simp: v_def blank_url_def complete_url_def)
  ultimately show ?thesis by (simp add: parseurl_and_replace_def)
qed

section \<open>Printing\<close>

lemma get_empty_flags [simp]:
  "has_flag CURLU_GET_EMPTY CURLU_GET_EMPTY" "\<not> has_flag CURLU_GET_EMPTY CURLU_DEFAULT_PORT" "\<not> has_flag CURLU_GET_EMPTY CURLU_NO_DEFAULT_PORT"
  "\<not> has_flag CURLU_GET_EMPTY CURLU_URLENCODE" "\<not> has_flag CURLU_GET_EMPTY CURLU_PUNYCODE" "\<not> has_flag CURLU_GET_EMPTY CURLU_PUNY2IDN"
  "\<not> has_flag CURLU_GET_EMPTY CURLU_NO_GUESS_SCHEME"
  by code_simp+

lemma aprintf_text:
  assumes "t \<noteq> []" "NUL \<notin> set t" "length t < CURL_MAX_INPUT_LENGTH"
  shows "aprintf t plenty = (Some t, plenty)"
proof -
  have init: "dyn_ok (curlx_dyn_init 8000000)" by (rule dyn_ok_init) (simp_all add: MAX_DYNBUF_SIZE_def SIZE_MAX_def)
  obtain d where d: "alloc_addbyter_loop (curlx_dyn_init 8000000) plenty t = (MERR_OK, d, plenty)" "dyn_ok d" "dyn_str d = t"
    using bytes_plenty[OF init, of t] assms(3) by (auto simp: CURL_MAX_INPUT_LENGTH_def)
  moreover have "curlx_dyn_len d \<noteq> 0" using dyn_len_str[OF d(2)] d(3) assms(1) by simp
  ultimately show ?thesis using dyn_text[OF d(2)] assms(1,2) by (simp add: aprintf_def)
qed

lemma not_file: "scheme_ok s \<Longrightarrow> s \<noteq> ''file'' \<Longrightarrow> \<not> curl_strequal (Some ''file'') (Some s)"
proof -
  assume s: "scheme_ok s" "s \<noteq> ''file''"
  have "map tolower ''file'' = ''file''" by code_simp
  then show ?thesis using s clean_NUL[OF scheme_clean] by (auto simp: strequal_strings strcaseeq_def scheme_ok_def)
qed

text \<open>A path that is one slash is stored or not, and printed in either case.\<close>

definition slash_dropped :: "Curl_URL \<Rightarrow> Curl_URL" where
  "slash_dropped u = (if u_path u = Some ''/'' then u\<lparr>u_path := None\<rparr> else u)"

lemma url_text_dropped: "url_text (slash_dropped u) = url_text u"
  by (auto simp: slash_dropped_def url_text_def login_text_def port_suffix_def tail_text_def split: option.splits)

lemma dropped_fields [simp]:
  "u_scheme (slash_dropped u) = u_scheme u" "u_user (slash_dropped u) = u_user u" "u_password (slash_dropped u) = u_password u"
  "u_options (slash_dropped u) = u_options u" "u_host (slash_dropped u) = u_host u" "u_zoneid (slash_dropped u) = u_zoneid u"
  "u_portnum (slash_dropped u) = u_portnum u" "u_port_present (slash_dropped u) = u_port_present u" "u_query (slash_dropped u) = u_query u"
  "u_query_present (slash_dropped u) = u_query_present u" "u_fragment (slash_dropped u) = u_fragment u"
  "u_fragment_present (slash_dropped u) = u_fragment_present u" "u_guessed_scheme (slash_dropped u) = u_guessed_scheme u"
  by (simp_all add: slash_dropped_def)

lemma text_printed:
  assumes "complete_url cfg (slash_dropped u)" "length (url_text u) < CURL_MAX_INPUT_LENGTH"
  shows "curl_url_get cfg idn u CURLUPART_URL CURLU_GET_EMPTY plenty = (CURLUE_OK, Some (url_text u), plenty)"
proof -
  obtain s x host where c: "u_scheme u = Some s" "scheme_ok s" "s \<noteq> ''file''" "Curl_get_scheme cfg s = Some x" "sc_flags x AND PROTOPT_URLOPTIONS = 0"
    "u_host u = Some host" "u_password u \<noteq> None \<longrightarrow> u_user u \<noteq> None" by (rule complete_urlE[OF assms(1), unfolded dropped_fields])
  have z: "u_zoneid u = None" "\<not> u_guessed_scheme u" using assms(1) by (simp_all add: complete_url_def)
  have port: "with_prefix '':'' (port_text (Some x) u CURLU_GET_EMPTY) = port_suffix u" by (simp add: port_text_def with_prefix_def port_suffix_def)
  have host: "host_text idn host u CURLU_GET_EMPTY plenty = (Inr host, plenty)" using z(1) by (simp add: host_text_def)
  have login: "opt_str (u_user u) @ with_prefix '':'' (u_password u) @ (if u_user u \<noteq> None \<or> u_password u \<noteq> None then ''@'' else []) = login_text u"
    using c(7) by (cases "u_user u"; cases "u_password u") (simp_all add: login_text_def opt_str_def with_prefix_def)
  have "u_query_present u \<longleftrightarrow> u_query u \<noteq> None" "u_fragment u \<noteq> None \<longrightarrow> u_fragment_present u"
    by (rule complete_tailE[OF assms(1), unfolded dropped_fields], blast)+
  then have tail: "(case u_path u of None \<Rightarrow> ''/'' | Some p \<Rightarrow> p) @ querysep u CURLU_GET_EMPTY @ opt_str (u_query u) @
      fragmentsep u CURLU_GET_EMPTY @ opt_str (u_fragment u) = tail_text u"
    by (cases "u_query u"; cases "u_fragment u") (auto simp: tail_text_def querysep_def fragmentsep_def with_prefix_def opt_str_def)
  have scheme: "take (MAX_SCHEME_LEN + 4) (s @ ''://'') = s @ ''://''" using c(2) by (intro take_all) (simp add: scheme_ok_def MAX_SCHEME_LEN_def)
  let ?login = "opt_str (u_user u) @ with_prefix '':'' (u_password u) @ (if u_user u \<noteq> None \<or> u_password u \<noteq> None then ''@'' else [])"
  let ?tail = "(case u_path u of None \<Rightarrow> ''/'' | Some p \<Rightarrow> p) @ querysep u CURLU_GET_EMPTY @ opt_str (u_query u) @
      fragmentsep u CURLU_GET_EMPTY @ opt_str (u_fragment u)"
  have "curl_url_get cfg idn u CURLUPART_URL CURLU_GET_EMPTY plenty = got_text (aprintf
      (take (MAX_SCHEME_LEN + 4) (s @ ''://'') @ ?login @ host @ with_prefix '':'' (port_text (Some x) u CURLU_GET_EMPTY) @ ?tail) plenty)"
    using not_file[OF c(2,3)] c(1,4,5,6) host by (simp add: curl_url_get_def urlget_url_def with_prefix_def[of _ None] Let_def del: take_append)
  also have "\<dots> = got_text (aprintf (url_text u) plenty)"
    unfolding scheme port login tail by (simp add: url_text_def c(1,6) opt_str_def)
  also have "\<dots> = (CURLUE_OK, Some (url_text u), plenty)"
    using aprintf_text[OF _ clean_NUL[OF text_clean[OF assms(1)], unfolded url_text_dropped] assms(2)] by (simp add: url_text_def got_text_def)
  finally show ?thesis .
qed

end
