(* ===== verification/Curl_Urlparsed.thy ===== *)
theory Curl_Urlparsed
  imports Curl_Urltext
begin

unbundle bit_operations_syntax

text \<open>
  What the parser leaves in a handle: whatever the bytes of the URL, a handle it accepts is complete. With
  \<open>Curl_Urltext\<close> this gives the round trip of the URL interface.
\<close>

section \<open>Accepted hosts are stable\<close>

definition printing :: "bytes \<Rightarrow> bool" where
  "printing s \<longleftrightarrow> list_all (\<lambda>c. 32 \<le> byte_val c) s"

lemma decoded_printing: "urldecode_loop REJECT_CTRL s ns = (CURLE_OK, out) \<Longrightarrow> printing ns \<Longrightarrow> printing out"
proof (induction REJECT_CTRL s ns rule: urldecode_loop.induct)
  case (1 s ns)
  obtain c s' where b: "urldecode_byte s = (c, s')" by fastforce
  show ?case
  proof (cases "s = []")
    case True
    then show ?thesis using "1.prems" by (simp add: urldecode_loop.simps)
  next
    case False
    then have r: "\<not> rejected REJECT_CTRL c" "urldecode_loop REJECT_CTRL s' (ns @ [c]) = (CURLE_OK, out)"
      using "1.prems"(1) b by (auto simp: urldecode_loop.simps[of _ s] split: if_splits)
    moreover have "printing (ns @ [c])" using "1.prems"(2) r(1) by (simp add: printing_def rejected_def)
    ultimately show ?thesis using "1.hyps"[OF False] b by auto
  qed
qed

lemma urldecode_host_printing:
  assumes "urldecode_host d h = (CURLUE_OK, d', h')" "dyn_ok d" "printing (dyn_str d)"
  shows "printing (dyn_str d')"
proof (cases "CHR ''%'' \<in> set (dyn_cstr d)")
  case True
  note reset = dyn_reset_ok[OF assms(2)]
  obtain decoded dlen h1 where e: "Curl_urldecode (dyn_cstr d) 0 REJECT_CTRL h = (CURLE_OK, decoded, dlen, h1)"
      "curlx_dyn_addn (curlx_dyn_reset d) h1 (take dlen (case decoded of None \<Rightarrow> [] | Some b \<Rightarrow> b)) = (CURLE_OK, d', h')"
    using assms(1) True by (auto simp: urldecode_host_def cc2cu_def Let_def split: prod.splits if_splits)
  obtain ns where ns: "urldecode_loop REJECT_CTRL (input_bytes (dyn_cstr d) 0) [] = (CURLE_OK, ns)" "decoded = Some (ns @ [NUL])" "dlen = length ns"
    using e(1) by (auto simp: Curl_urldecode_def split: prod.splits if_splits)
  have "printing ns" using decoded_printing[OF ns(1)] by (simp add: printing_def)
  then show ?thesis using dyn.addn_OK[OF conjunct1[OF reset] e(2)] reset ns(2,3) by simp
qed (use assms in \<open>auto simp: urldecode_host_def Let_def\<close>)

lemma ipv6_normalize_idem:
  assumes "ipv6_normalize s = Some t" "NUL \<notin> set s"
  shows "ipv6_normalize t = Some t"
proof -
  obtain a where a: "inet_pton6 s = Some a" using assms(1) by (auto simp: ipv6_normalize_def curlx_inet_pton_def split: option.splits)
  obtain t' where t': "ntop6_gives a t'" using ntop6_text inet_pton6_facts(1,2)[OF a] by blast
  have n: "ipv6_normalize r = Some (if length r + 1 \<le> length t' then r else t')" if "inet_pton6 r = Some a" for r
    using that t' by (auto simp: ipv6_normalize_def curlx_inet_pton_def curlx_inet_ntop_def ntop6_gives_def split: if_splits)
  have "inet_pton6 t = Some a" using assms(1) n[OF a] a t' by (auto simp: ntop6_gives_def split: if_splits)
  then show ?thesis using n[OF a] n[of t] assms(1) by (auto split: if_splits)
qed

lemma show_nat_first: "peek (show_nat n) = CHR ''0'' \<Longrightarrow> n = 0"
proof (induction n rule: show_nat.induct)
  case (1 n)
  show ?case
  proof (cases "n < 10")
    case True
    then have "byte_val (peek (show_nat n)) = 48 + n" by (subst show_nat.simps) (simp add: peek_def)
    then show ?thesis using "1.prems" by (simp add: byte_val_def)
  next
    case False
    have "peek (show_nat n) = peek (show_nat (n div 10))"
      using False show_nat_nonempty[of "n div 10"] by (subst show_nat.simps) (auto simp: peek_def split: list.splits)
    then have "n div 10 = 0" using "1.IH"[OF False] "1.prems" by simp
    then show ?thesis using False by simp
  qed
qed

lemma field_octet: "n \<le> 255 \<Longrightarrow> field_value (show_nat n) = Some (int n)"
proof (cases "n = 0")
  case True
  moreover have "field_value (show_nat 0) = Some 0" by code_simp
  ultimately show ?thesis by simp
next
  case False
  assume n: "n \<le> 255"
  have "peek (show_nat n) \<noteq> CHR ''0''" using False show_nat_first by blast
  moreover have "list_all (digit_of_base 10) (show_nat n)" using show_nat_digits by (simp add: list_all_iff digit_of_base_iff)
  ultimately show ?thesis using n by (simp add: field_value_def number_in_def base_value_show UINT_MAX_def)
qed

lemma dotted_numeric:
  assumes "is_quad a"
  shows "numeric_host (dotted a) = Some (map int a)" "ipv4_octets (map int a) = Some a"
proof -
  obtain w x y z where a: "a = [w, x, y, z]" "w \<le> 255" "x \<le> 255" "y \<le> 255" "z \<le> 255"
    using assms by (auto simp: is_quad_def length_Suc_conv numeral_eq_Suc)
  have n: "CHR ''.'' \<notin> set (show_nat k)" for k using show_nat_notin[of "CHR ''.''"] by (simp add: isdigit_def byte_val_def)
  have "dotted a = show_nat w @ CHR ''.'' # show_nat x @ CHR ''.'' # show_nat y @ CHR ''.'' # show_nat z" using a(1) by (simp add: dotted_dots)
  then have "dot_fields (dotted a) = [show_nat w, show_nat x, show_nat y, show_nat z]"
    by (simp add: dot_fields_def split_on_append[OF n] split_on_plain[OF n])
  then show "numeric_host (dotted a) = Some (map int a)" using a by (simp add: numeric_host_def field_octet)
  show "ipv4_octets (map int a) = Some a" using a by (simp add: ipv4_octets_def)
qed

lemma stable_dotted: "is_quad a \<Longrightarrow> stable_host (dotted a)"
proof -
  assume a: "is_quad a"
  then obtain w x y z where wz: "a = [w, x, y, z]" by (auto simp: is_quad_def length_Suc_conv numeral_eq_Suc)
  have d: "dotted a = (show_nat w @ CHR ''.'' # show_nat x @ CHR ''.'' # show_nat y @ ''.'') @ show_nat z" using wz by (simp add: dotted_dots)
  have digit: "isdigit c \<or> c = CHR ''.'' \<Longrightarrow> clean_char c \<and> c \<notin> set HOSTNAME_INVALID_CHARS \<and> c \<noteq> CHR ''[''" for c
    by (auto simp: HOSTNAME_INVALID_CHARS_def clean_char_def isdigit_def byte_val_def)
  have all: "isdigit c \<or> c = CHR ''.''" if "c \<in> set (dotted a)" for c using that show_nat_digits unfolding d by auto
  have "clean_part HOSTNAME_INVALID_CHARS (dotted a)" unfolding clean_part_def list_all_iff using all digit by blast
  moreover have "peek (dotted a) \<noteq> CHR ''[''" using all digit by (cases "dotted a") (auto simp: peek_def)
  moreover have "dotted a \<noteq> []" "dotted a \<noteq> ''.''" using d by (auto simp: append_eq_Cons_conv)
  moreover have "isdigit (last (show_nat z))" using show_nat_digits last_in_set[OF show_nat_nonempty] by blast
  then have "last (dotted a) \<noteq> CHR ''.''" unfolding d by (auto simp: isdigit_def byte_val_def)
  then have "drop n (dotted a) \<noteq> ''..''" for n by (metis last_drop last.simps list.distinct(1) drop_eq_Nil not_le)
  ultimately show ?thesis using dotted_numeric[OF a] by (simp add: stable_host_def)
qed

text \<open>The checks of a host leave one that passes them again unchanged; the delete character apart, which they let through.\<close>

abbreviation DEL :: char where "DEL \<equiv> CHR 0x7F"

lemma ipv6_parse_stable:
  assumes "ipv6_parse u s h = (CURLUE_OK, u', s', h')" "NUL \<notin> set s"
  shows "stable_host s' \<and> u' = u\<lparr>u_zoneid := u_zoneid u'\<rparr>"
proof -
  define len where "len = length (takeWhile (\<lambda>c. c \<in> set ''0123456789abcdefABCDEF:.'') (tl s))"
  obtain a where a: "ipv6_normalize (take len (tl s)) = Some a" "s' = ''['' @ a @ '']''" "4 \<le> length s"
    and u: "u' = u\<lparr>u_zoneid := u_zoneid u'\<rparr>"
    using assms(1) unfolding ipv6_parse_def Let_def len_def[symmetric]
    by (cases u) (auto split: if_splits option.splits prod.splits)
  have nul: "NUL \<notin> set (take len (tl s))" using assms(2) a(3) by (cases s) (auto dest: in_set_takeD)
  note N = ipv6_normalize_facts[OF a(1) nul]
  have "list_all addr_char a" using N inet_pton6_facts(3)[of a] by (auto simp: list_all_iff)
  then show ?thesis using ipv6_normalize_idem[OF a(1) nul] a(2) u by (simp add: stable_host_def peek_def)
qed

lemma hostname_check_name:
  assumes "hostname_check u s h = (CURLUE_OK, u', s', h')" "peek s \<noteq> CHR ''[''"
  shows "u' = u" "s' = s" "s \<noteq> []" "list_all (\<lambda>c. c \<notin> set HOSTNAME_INVALID_CHARS) s" "s \<noteq> ''.''" "2 \<le> length s \<longrightarrow> drop (length s - 2) s \<noteq> ''..''"
proof -
  have ne: "s \<noteq> []" using assms(1) by (auto simp: hostname_check_def)
  then have h0: "s ! 0 \<noteq> CHR ''[''" using assms(2) by (cases s) (auto simp: peek_def)
  then have l: "length s = length (takeWhile (\<lambda>c. c \<notin> set HOSTNAME_INVALID_CHARS) s)" "u' = u" "s' = s"
    "\<not> (2 \<le> length s \<and> s ! (length s - 1) = CHR ''.'' \<and> s ! (length s - 2) = CHR ''.'')" "\<not> (length s = 1 \<and> s ! 0 = CHR ''.'')"
    using assms(1) ne unfolding hostname_check_def Let_def by (auto split: if_splits)
  show "u' = u" "s' = s" "s \<noteq> []" "s \<noteq> ''.''" using l ne by auto
  show "list_all (\<lambda>c. c \<notin> set HOSTNAME_INVALID_CHARS) s" using takeWhile_all[OF l(1)] .
  show "2 \<le> length s \<longrightarrow> drop (length s - 2) s \<noteq> ''..''"
  proof (intro impI notI)
    assume "2 \<le> length s" and d: "drop (length s - 2) s = ''..''"
    then obtain t x y where "s = t @ [x, y]" by (cases s rule: rev_cases; cases "butlast s" rule: rev_cases) auto
    with l(4) d show False by (simp add: nth_append)
  qed
qed

lemma check_host_stable:
  assumes "check_host u d h = (CURLUE_OK, u', d', h')" "dyn_ok d" "15 < toobig d" "printing (dyn_cstr d)" "DEL \<notin> set (dyn_cstr d')"
  shows "stable_host (dyn_cstr d') \<and> u' = u\<lparr>u_zoneid := u_zoneid u'\<rparr>"
proof -
  obtain ty d1 h1 where n: "ipv4_normalize d h = (ty, d1, h1)" by (metis prod_cases3)
  show ?thesis
  proof (cases "peek (dyn_cstr d) = CHR ''[''")
    case True
    then have ty: "ty = HOST_IPV6" "d1 = d" "h1 = h" using n by (auto simp: ipv4_normalize_def Let_def)
    obtain s' where "ipv6_parse u (dyn_cstr d) h = (CURLUE_OK, u', s', h')" "d' = host_write d s'"
      using assms(1) n ty by (auto simp: check_host_def split: prod.splits)
    moreover from ipv6_parse_stable[OF this(1)] have "stable_host s'" "u' = u\<lparr>u_zoneid := u_zoneid u'\<rparr>" by simp_all
    ultimately show ?thesis using stable_host_facts(2)[of s'] by simp
  next
    case False
    note F = ipv4_normalize_facts[OF assms(2) False assms(3) n]
    show ?thesis
    proof (cases ty)
      case HOST_IPV4
      then have "u' = u" "d' = d1" using assms(1) n by (auto simp: check_host_def)
      moreover obtain a where "is_quad a" "dyn_cstr d1 = dotted a" using F HOST_IPV4 by (auto split: option.splits if_splits)
      ultimately show ?thesis using stable_dotted by (cases u) auto
    next
      case HOST_NAME
      then have d1: "d1 = d" "h1 = h" using F by (auto split: option.splits if_splits)
      obtain s' where s': "hostname_check u (dyn_cstr d) h = (CURLUE_OK, u', s', h')" "d' = host_write d s'"
        using assms(1) n HOST_NAME d1 by (auto simp: check_host_def split: prod.splits)
      note H = hostname_check_name[OF s'(1) False]
      have t: "dyn_cstr d' = dyn_cstr d" using s'(2) H(2) by simp
      have "clean_char c" if "c \<in> set (dyn_cstr d)" for c
      proof -
        have "32 \<le> byte_val c" "c \<noteq> DEL" "c \<noteq> CHR '' ''" using that assms(4,5) H(4) t by (auto simp: printing_def list_all_iff HOSTNAME_INVALID_CHARS_def)
        moreover have "byte_val c = 127 \<longrightarrow> c = DEL" "byte_val c = 32 \<longrightarrow> c = CHR '' ''"
          using byte_val_inject[of c DEL] byte_val_inject[of c "CHR '' ''"] by (simp_all add: byte_val_def del: byte_val_inject)
        ultimately show ?thesis by (auto simp: clean_char_def)
      qed
      then have "clean_part HOSTNAME_INVALID_CHARS (dyn_cstr d)" using H(4) by (simp add: clean_part_def list_all_iff)
      moreover have "case numeric_host (dyn_cstr d) of None \<Rightarrow> True | Some ps \<Rightarrow> ipv4_octets ps = None"
        using n HOST_NAME False by (auto simp: ipv4_normalize_def numeric_host_loop Let_def split: option.splits prod.splits if_splits)
      ultimately show ?thesis using H False t by (cases u) (auto simp: stable_host_def split: option.splits)
    qed (use F assms(1) n in \<open>auto simp: check_host_def split: option.splits if_splits\<close>)
  qed
qed

section \<open>What the parser leaves in a handle\<close>

lemma clean_take: "clean_part e s \<Longrightarrow> clean_part e (take n s)" "clean_part e s \<Longrightarrow> clean_part e (drop n s)" "clean_part e s \<Longrightarrow> clean_part e (cstr s)"
  using set_cstr_subset[of s] by (auto simp: clean_part_def list_all_iff dest: in_set_takeD in_set_dropD)

lemma clean_Cons: "clean_part e s \<Longrightarrow> c \<notin> set s \<Longrightarrow> clean_part (c # e) s"
  by (auto simp: clean_part_def list_all_iff)

lemma memdup0_text: "curlx_memdup0 s h = (Some t, h') \<Longrightarrow> t = cstr s"
  by (auto simp: curlx_memdup0_def split: if_splits prod.splits)

lemma login_result:
  assumes "Curl_parse_login_details l False h = (Inr (us, pw, op), h')" "clean_part e l"
  shows "op = None \<and> us \<noteq> None \<and> clean_part (CHR '':'' # e) (opt_str us) \<and> clean_part e (opt_str pw)"
proof -
  define parts where "parts = login_parts l False"
  obtain user pass where p: "parts = (user, pass, [])" by (auto simp: parts_def login_parts_def Let_def)
  have c: "clean_part (CHR '':'' # e) user \<and> clean_part e (opt_str pass)"
  proof (cases "index_of (CHR '':'') l")
    case None
    then have "user = l" "pass = None" using p by (auto simp: parts_def login_parts_def Let_def)
    then show ?thesis using assms(2) None clean_Cons[of e l] by (auto simp: index_of_None opt_str_def)
  next
    case (Some i)
    then have "user = take i l" "pass = Some (drop (i + 1) l)" using p by (auto simp: parts_def login_parts_def Let_def)
    then show ?thesis using clean_Cons[OF clean_take(1)[OF assms(2), of i]] index_of_SomeD[OF Some] clean_take[OF assms(2)] by (auto simp: opt_str_def intro: clean_take)
  qed
  obtain ub h1 where u: "curlx_memdup0 user h = (Some ub, h1)" "us = Some ub" "op = None"
    using assms(1) p by (auto simp: Curl_parse_login_details_def parts_def split: prod.splits option.splits if_splits)
  have "pw = map_option cstr pass"
    using assms(1) p u(1) by (auto simp: Curl_parse_login_details_def parts_def dest!: memdup0_text split: prod.splits option.splits if_splits)
  then have "clean_part e (opt_str pw)" using c by (cases pass) (auto simp: opt_str_def clean_take)
  then show ?thesis using u c memdup0_text[OF u(1)] clean_take(3) by (simp add: opt_str_def)
qed

definition login_ok :: "Curl_URL \<Rightarrow> bool" where
  "login_ok u \<longleftrightarrow> clean_part ''@/?#:'' (opt_str (u_user u)) \<and> clean_part ''@/?#'' (opt_str (u_password u)) \<and> (u_password u \<noteq> None \<longrightarrow> u_user u \<noteq> None)"

lemma hostname_login_result:
  assumes "parse_hostname_login cfg u auth 0 h = (CURLUE_OK, u', off, h')" "clean_part ''/?#'' auth"
    "u_scheme u = Some s" "Curl_get_scheme cfg s = Some x" "sc_flags x AND PROTOPT_URLOPTIONS = 0"
    "u_user u = None" "u_password u = None" "u_options u = None"
  shows "login_ok u' \<and> u' = u\<lparr>u_user := u_user u', u_password := u_password u'\<rparr>"
proof (cases "index_of (CHR ''@'') auth")
  case None
  then have "u' = u" using assms by (cases u) (auto simp: parse_hostname_login_def clear_login_def)
  then show ?thesis using assms(6,7) by (cases u) (auto simp: login_ok_def opt_str_def)
next
  case (Some i)
  obtain us pw op where l: "Curl_parse_login_details (take i auth) False h = (Inr (us, pw, op), h')"
      "u' = u\<lparr>u_user := set_some us (u_user u), u_password := set_some pw (u_password u), u_options := set_some op (u_options u)\<rparr>"
    using assms(1,3-5) Some by (auto simp: parse_hostname_login_def split: prod.splits sum.splits if_splits)
  have "clean_part ''@/?#'' (take i auth)" using clean_Cons[OF clean_take(1)[OF assms(2)]] index_of_SomeD(3)[OF Some] by blast
  then have r: "op = None" "us \<noteq> None" "clean_part (CHR '':'' # ''@/?#'') (opt_str us)" "clean_part ''@/?#'' (opt_str pw)" using login_result[OF l(1)] by simp_all
  have "clean_part ''@/?#:'' (opt_str us)" using r(3) by (auto simp: clean_part_def list_all_iff)
  then show ?thesis using r l(2) assms(6-8) by (cases u; cases us; cases pw) (auto simp: login_ok_def set_some_def opt_str_def)
qed

lemma parse_port_result:
  assumes "parse_port u d b = (uc, u', d')" "dyn_ok d"
  shows "u' = u\<lparr>u_portnum := u_portnum u', u_port_present := u_port_present u'\<rparr> \<and> (if u_port_present u' then u_portnum u' \<le> 65535 else u_portnum u' = 0) \<and>
    set (dyn_str d') \<subseteq> set (dyn_str d)"
proof -
  have cut: "set (dyn_str (host_setlen d k)) \<subseteq> set (dyn_str d)" if "find_port (dyn_cstr d) = Inr (Some k)" for k
  proof -
    have k: "k < length (dyn_cstr d)" using find_port_colon(1)[OF that] .
    then obtain blk where b: "curlx_dyn_ptr d = Some blk" by (cases "curlx_dyn_ptr d") (auto simp: dyn_cstr_def)
    have len: "leng d < length blk" "blk ! leng d = NUL" using dyn_ok_terminated[OF assms(2)] b by (simp_all add: curlx_dyn_ptr_def)
    have "length (cstr blk) \<le> leng d"
    proof (rule ccontr)
      assume "\<not> ?thesis"
      then have "leng d < length (cstr blk)" by simp
      then have "cstr blk ! leng d = blk ! leng d" "cstr blk ! leng d \<in> set (cstr blk)" by (simp_all add: nth_mem) (simp add: cstr_def takeWhile_nth)
      then show False using len(2) by simp
    qed
    then have "k \<le> length (dyn_str d)" using k b length_dyn_str[OF assms(2)] by (simp add: dyn_cstr_def)
    then show ?thesis using host_setlen_ok[OF assms(2), of k] b by (auto simp: curlx_dyn_ptr_def dest: in_set_takeD)
  qed
  have "d' = d \<or> (\<exists>k. find_port (dyn_cstr d) = Inr (Some k) \<and> d' = host_setlen d k)"
    using assms(1) by (auto simp: parse_port_def Let_def split: sum.splits option.splits if_splits prod.splits)
  then have "set (dyn_str d') \<subseteq> set (dyn_str d)" using cut by auto
  moreover have "u' = u\<lparr>u_portnum := u_portnum u', u_port_present := u_port_present u'\<rparr> \<and> (if u_port_present u' then u_portnum u' \<le> 65535 else u_portnum u' = 0)"
    using assms(1) str_number_range by (cases u) (auto simp: parse_port_def Let_def nat_le_iff split: sum.splits option.splits if_splits prod.splits)
  ultimately show ?thesis by simp
qed

lemma printing_cstr: "dyn_ok d \<Longrightarrow> printing (dyn_str d) \<Longrightarrow> dyn_cstr d = dyn_str d"
  by (rule dyn_cstr_str) (auto simp: printing_def list_all_iff byte_val_def)

lemma clean_printing: "clean_part e s \<Longrightarrow> printing s"
  by (auto simp: printing_def clean_part_def clean_char_def list_all_iff)

lemma authority_result:
  assumes p: "parse_authority cfg u auth 0 d True h = (CURLUE_OK, u', d', h')"
    and d: "dyn_ok d" "dyn_str d = []" "15 < toobig d" and c: "clean_part ''/?#'' auth" and del: "DEL \<notin> set (dyn_cstr d')"
    and s: "u_scheme u = Some s" "Curl_get_scheme cfg s = Some x" "sc_flags x AND PROTOPT_URLOPTIONS = 0"
    and b: "u_user u = None" "u_password u = None" "u_options u = None"
  shows "stable_host (dyn_cstr d')" "login_ok u'" "if u_port_present u' then u_portnum u' \<le> 65535 else u_portnum u' = 0"
    "u' = u\<lparr>u_user := u_user u', u_password := u_password u', u_portnum := u_portnum u', u_port_present := u_port_present u', u_zoneid := u_zoneid u'\<rparr>"
proof -
  obtain u1 off h1 where l: "parse_hostname_login cfg u auth 0 h = (CURLUE_OK, u1, off, h1)"
    using p by (auto simp: parse_authority_def split: prod.splits if_splits)
  obtain r2 d2 h2 where a: "curlx_dyn_addn d h1 (drop off auth) = (r2, d2, h2)" by (metis prod_cases3)
  with p l have r2: "r2 = CURLE_OK" by (auto simp: parse_authority_def cc2cu_def split: if_splits)
  have d2: "dyn_ok d2" "dyn_str d2 = drop off auth" "toobig d2 = toobig d" using dyn.addn_OK[OF d(1) a[unfolded r2]] d(2) by simp_all
  obtain uc u3 d3 where q: "parse_port u1 d2 True = (uc, u3, d3)" by (metis prod_cases3)
  note P = parse_port_keeps[OF q d2(1)] and R = parse_port_result[OF q d2(1)]
  obtain d4 h4 where e: "urldecode_host d3 h2 = (CURLUE_OK, d4, h4)" "check_host u3 d4 h4 = (CURLUE_OK, u', d', h')"
    using p l a r2 q by (auto simp: parse_authority_def Let_def split: if_splits prod.splits)
  have "printing (dyn_str d2)" using clean_printing[OF clean_take(2)[OF c]] d2(2) by simp
  then have "printing (dyn_str d3)" using R by (auto simp: printing_def list_all_iff)
  then have pr: "printing (dyn_str d4)" using urldecode_host_printing[OF e(1)] P by simp
  have d4: "dyn_ok d4" "15 < toobig d4" using urldecode_host_keeps[OF e(1)] P d2(3) d(3) by simp_all
  note C = check_host_stable[OF e(2) d4 _ del] and L = hostname_login_result[OF l c s b]
  have C': "stable_host (dyn_cstr d')" "u' = u3\<lparr>u_zoneid := u_zoneid u'\<rparr>" using C printing_cstr[OF d4(1) pr] pr by simp_all
  from C'(1) show "stable_host (dyn_cstr d')" .
  have eqs: "u_user u' = u_user u1" "u_password u' = u_password u1" "u_portnum u' = u_portnum u3" "u_port_present u' = u_port_present u3"
    using arg_cong[OF C'(2), of u_user] arg_cong[OF C'(2), of u_password] arg_cong[OF C'(2), of u_portnum] arg_cong[OF C'(2), of u_port_present]
      arg_cong[OF conjunct1[OF R], of u_user] arg_cong[OF conjunct1[OF R], of u_password] by simp_all
  show "login_ok u'" using L eqs by (simp add: login_ok_def)
  show "if u_port_present u' then u_portnum u' \<le> 65535 else u_portnum u' = 0" using R eqs by simp
  show "u' = u\<lparr>u_user := u_user u', u_password := u_password u', u_portnum := u_portnum u', u_port_present := u_port_present u', u_zoneid := u_zoneid u'\<rparr>"
  proof -
    have "u3 = u1\<lparr>u_portnum := u_portnum u3, u_port_present := u_port_present u3\<rparr>" "u1 = u\<lparr>u_user := u_user u1, u_password := u_password u1\<rparr>" using R L by blast+
    then show ?thesis using C'(2) eqs by (cases u; cases u1; cases u3; cases u') simp
  qed
qed

definition path_ok :: "bytes option \<Rightarrow> bool" where
  "path_ok path = (case path of None \<Rightarrow> True | Some p \<Rightarrow> peek p = CHR ''/'' \<and> clean_part ''?#'' p \<and> remove_dot_segments p = p)"

lemma remove_dots_path:
  assumes "p = SLASH # s" "clean_part ''?#'' p"
  shows "path_ok (Some (remove_dot_segments p))"
proof -
  obtain y ys where y: "remove_dots (segments s) [] = y # ys" using remove_dots_nonempty[of "segments s" "[]"] by (cases "remove_dots (segments s) []") auto
  have "set (remove_dot_segments p) \<subseteq> set p" using remove_dots_chars[of _ s] assms(1) by (auto simp: remove_dot_segments_def)
  then have "clean_part ''?#'' (remove_dot_segments p)" using assms(2) by (auto simp: clean_part_def list_all_iff)
  then show ?thesis using y assms(1) remove_dot_segments_idem[of p] by (simp add: path_ok_def remove_dot_segments_def peek_def)
qed

lemma path_result:
  assumes "handle_path u p 0 False h = (CURLUE_OK, u', h')" "u_path u = None" "p = [] \<or> peek p = CHR ''/''" "clean_part ''?#'' p" "length p < MAX_DYNBUF_SIZE"
  shows "u' = u\<lparr>u_path := u_path u'\<rparr> \<and> path_ok (u_path u')"
proof (cases "2 \<le> length p")
  case False
  then have "u' = u" using assms(1) by (simp add: handle_path_def split: if_splits)
  then show ?thesis using assms(2) by (cases u) (auto simp: path_ok_def)
next
  case True
  then obtain s where s: "p = SLASH # s" using assms(3) by (cases p) (auto simp: peek_def)
  have NUL: "NUL \<notin> set p" using clean_NUL[OF assms(4)] .
  obtain h1 where c: "clean_path (u\<lparr>u_path := Some p\<rparr>) p 0 h1 = (CURLUE_OK, u', h')"
    using assms(1,2) True NUL by (auto simp: handle_path_def dest!: memdup0_text split: prod.splits option.splits)
  obtain rc out h2 where d: "dedotdotify p h1 = (rc, out, h2)" by (metis prod_cases3)
  have rc: "rc = 0" using c d by (auto simp: clean_path_def split: if_splits)
  have "(case out of None \<Rightarrow> p | Some t \<Rightarrow> t) = remove_dot_segments p" using dedotdotify_facts[OF s NUL assms(5) d] rc by simp
  then have "u' = u\<lparr>u_path := Some (remove_dot_segments p)\<rparr>" using c d rc by (cases u; cases out) (auto simp: clean_path_def)
  then show ?thesis using remove_dots_path[OF s assms(4)] by simp
qed

lemma store_result:
  assumes "store_part s q 0 h = (CURLUE_OK, t, h')" "clean_part e s"
  shows "t = Some s"
  using assms cstr_id[OF clean_NUL[OF assms(2)]] by (auto simp: store_part_def dest!: memdup0_text split: prod.splits option.splits)

lemma fragment_result:
  assumes "handle_fragment u (CHR ''#'' # f) 0 h = (CURLUE_OK, u', h')" "u_fragment u = None" "clean_part [] f"
  shows "u' = u\<lparr>u_fragment := (if f = [] then None else Some f), u_fragment_present := True\<rparr>"
proof (cases "f = []")
  case True
  then show ?thesis using assms(1,2) by (cases u) (simp add: handle_fragment_def)
next
  case False
  then obtain t where "store_part f QUERY_NO 0 h = (CURLUE_OK, t, h')" "u' = u\<lparr>u_fragment_present := True, u_fragment := t\<rparr>"
    using assms(1) by (auto simp: handle_fragment_def Let_def split: prod.splits)
  then show ?thesis using store_result[OF _ assms(3)] False by (cases u) auto
qed

lemma query_result:
  assumes "handle_query u (CHR ''?'' # q) 0 h = (CURLUE_OK, u', h')" "clean_part e q"
  shows "u' = u\<lparr>u_query := Some q, u_query_present := True\<rparr>"
proof (cases "q = []")
  case True
  then show ?thesis using assms(1) by (cases u) (auto simp: handle_query_def curlx_strdup_def cstr_def split: prod.splits option.splits if_splits)
next
  case False
  then obtain t where "store_part q QUERY_YES 0 h = (CURLUE_OK, t, h')" "u' = u\<lparr>u_query_present := True, u_query := t\<rparr>"
    using assms(1) by (auto simp: handle_query_def Let_def split: prod.splits)
  then show ?thesis using store_result[OF _ assms(2)] by (cases u) auto
qed

definition tail_ok :: "Curl_URL \<Rightarrow> bool" where
  "tail_ok u \<longleftrightarrow> path_ok (u_path u) \<and>
     clean_part ''#'' (opt_str (u_query u)) \<and> (u_query_present u \<longleftrightarrow> u_query u \<noteq> None) \<and>
     clean_part [] (opt_str (u_fragment u)) \<and> (u_fragment u \<noteq> None \<longrightarrow> u_fragment_present u) \<and> u_fragment u \<noteq> Some []"

lemma index_cut: "index_of c s = Some i \<Longrightarrow> drop i s = c # drop (i + 1) s"
  using index_of_SomeD[of c s i] Cons_nth_drop_Suc[of i s] by simp

lemma rest_result:
  assumes p: "parse_rest u path 0 False h = (CURLUE_OK, u', h')"
    and u: "u_path u = None" "u_query u = None" "\<not> u_query_present u" "u_fragment u = None" "\<not> u_fragment_present u"
    and path: "clean_part [] path" "path = [] \<or> hd path \<in> set ''/?#''" "length path < MAX_DYNBUF_SIZE"
  shows "tail_ok u' \<and> u' = u\<lparr>u_path := u_path u', u_query := u_query u', u_query_present := u_query_present u',
      u_fragment := u_fragment u', u_fragment_present := u_fragment_present u'\<rparr>"
proof -
  obtain u1 p1 h1 where one: "(case index_of (CHR ''#'') path of None \<Rightarrow> (CURLUE_OK, u, path, h)
      | Some i \<Rightarrow> (case handle_fragment u (drop i path) 0 h of (ures, u, h) \<Rightarrow> (ures, u, take i path, h))) = (CURLUE_OK, u1, p1, h1)"
    and two: "(case (case index_of (CHR ''?'') p1 of None \<Rightarrow> (CURLUE_OK, u1, p1, h1)
        | Some i \<Rightarrow> (case handle_query u1 (drop i p1) 0 h1 of (ures, u, h) \<Rightarrow> (ures, u, take i p1, h))) of
        (ures, u, path, h) \<Rightarrow> if ures \<noteq> CURLUE_OK then (ures, u, h) else handle_path u path 0 False h) = (CURLUE_OK, u', h')"
    using p unfolding parse_rest_def by (auto split: prod.splits if_splits)
  have F: "clean_part ''#'' p1" "p1 = [] \<or> hd p1 \<in> set ''/?''" "length p1 < MAX_DYNBUF_SIZE"
    "\<exists>f b. u1 = u\<lparr>u_fragment := f, u_fragment_present := b\<rparr> \<and> clean_part [] (opt_str f) \<and> (f \<noteq> None \<longrightarrow> b) \<and> f \<noteq> Some []"
  proof -
    have "clean_part ''#'' p1 \<and> (p1 = [] \<or> hd p1 \<in> set ''/?'') \<and> length p1 < MAX_DYNBUF_SIZE \<and>
      (\<exists>f b. u1 = u\<lparr>u_fragment := f, u_fragment_present := b\<rparr> \<and> clean_part [] (opt_str f) \<and> (f \<noteq> None \<longrightarrow> b) \<and> f \<noteq> Some [])"
    proof (cases "index_of (CHR ''#'') path")
      case None
      then have n: "CHR ''#'' \<notin> set path" "u1 = u" "p1 = path" using one by (auto simp: index_of_None)
      moreover have "hd path \<noteq> CHR ''#''" if "path \<noteq> []" using n(1) that by (cases path) auto
      ultimately show ?thesis using path u(4) clean_Cons[OF path(1) n(1)] by (cases u) (auto simp: opt_str_def intro: exI[of _ None])
    next
      case (Some i)
      define f where "f = drop (i + 1) path"
      have h: "handle_fragment u (CHR ''#'' # f) 0 h = (CURLUE_OK, u1, h1)" "p1 = take i path"
        using one Some index_cut[OF Some] by (auto simp: f_def split: prod.splits)
      have f: "clean_part [] f" using clean_take(2)[OF path(1)] by (simp add: f_def)
      have p1: "clean_part ''#'' p1" using clean_Cons[OF clean_take(1)[OF path(1)]] index_of_SomeD(3)[OF Some] h(2) by blast
      moreover have "p1 = [] \<or> hd p1 \<in> set ''/?''" using path(2) p1 h(2) by (cases path; cases i) (auto simp: clean_part_def)
      moreover have "u1 = u\<lparr>u_fragment := (if f = [] then None else Some f), u_fragment_present := True\<rparr>" using fragment_result[OF h(1) u(4) f] .
      ultimately show ?thesis using h(2) path(3) f by (intro conjI exI[of _ "if f = [] then None else Some f"] exI[of _ True]) (auto simp: opt_str_def)
    qed
    then show "clean_part ''#'' p1" "p1 = [] \<or> hd p1 \<in> set ''/?''" "length p1 < MAX_DYNBUF_SIZE"
      "\<exists>f b. u1 = u\<lparr>u_fragment := f, u_fragment_present := b\<rparr> \<and> clean_part [] (opt_str f) \<and> (f \<noteq> None \<longrightarrow> b) \<and> f \<noteq> Some []" by blast+
  qed
  then obtain f b where u1: "u1 = u\<lparr>u_fragment := f, u_fragment_present := b\<rparr>" "clean_part [] (opt_str f)" "f \<noteq> None \<longrightarrow> b" "f \<noteq> Some []" by blast
  obtain u2 p2 h2 q where Q: "u2 = u1\<lparr>u_query := q, u_query_present := (q \<noteq> None)\<rparr>" "clean_part ''#'' (opt_str q)"
      "clean_part ''?#'' p2" "p2 = [] \<or> peek p2 = CHR ''/''" "length p2 < MAX_DYNBUF_SIZE" "handle_path u2 p2 0 False h2 = (CURLUE_OK, u', h')"
  proof (cases "index_of (CHR ''?'') p1")
    case None
    then have n: "CHR ''?'' \<notin> set p1" "handle_path u1 p1 0 False h1 = (CURLUE_OK, u', h')" using two by (auto simp: index_of_None)
    moreover have "p1 = [] \<or> peek p1 = CHR ''/''" using F(2) n(1) by (cases p1) (auto simp: peek_def)
    moreover have "u1 = u1\<lparr>u_query := None, u_query_present := (None \<noteq> (None :: bytes option))\<rparr>" using u u1(1) by (cases u) simp
    ultimately show ?thesis using that[of u1 None p1 h1] clean_Cons[OF F(1) n(1)] F(3) by (simp add: opt_str_def)
  next
    case (Some i)
    define q where "q = drop (i + 1) p1"
    have q: "clean_part ''#'' q" using clean_take(2)[OF F(1)] by (simp add: q_def)
    obtain u2 h2 where h: "handle_query u1 (CHR ''?'' # q) 0 h1 = (CURLUE_OK, u2, h2)" "handle_path u2 (take i p1) 0 False h2 = (CURLUE_OK, u', h')"
      using two Some index_cut[OF Some] by (auto simp: q_def split: prod.splits if_splits)
    have n: "CHR ''?'' \<notin> set (take i p1)" using index_of_SomeD(3)[OF Some] .
    moreover have "take i p1 = [] \<or> peek (take i p1) = CHR ''/''" using F(2) n by (cases p1; cases i) (auto simp: peek_def)
    moreover have "length (take i p1) < MAX_DYNBUF_SIZE" using F(3) by simp
    ultimately show ?thesis using that[of u2 "Some q" "take i p1" h2] query_result[OF h(1) q] h(2) q clean_Cons[OF clean_take(1)[OF F(1)] n] by (simp add: opt_str_def)
  qed
  have "u_path u2 = None" using Q(1) u1(1) u(1) by simp
  from path_result[OF Q(6) this Q(4,3,5)] have P: "u' = u2\<lparr>u_path := u_path u'\<rparr>" "path_ok (u_path u')" by simp_all
  then obtain pp where pp: "u' = u2\<lparr>u_path := pp\<rparr>" "path_ok pp" by blast
  show ?thesis using pp Q(1,2) u1 by (cases u) (simp add: tail_ok_def)
qed

lemma scheme_lower:
  "scheme_char c \<Longrightarrow> scheme_char (tolower c)" "ISALPHA c \<Longrightarrow> ISALPHA (tolower c)" "tolower (tolower c) = tolower c" "ISALPHA c \<Longrightarrow> scheme_char c"
  by (auto simp: scheme_char_def ISALNUM_def ISALPHA_def ISLOWER_def tolower_def isdigit_def byte_val_def)

lemma absolute_scheme_ok:
  assumes "Curl_is_absolute_url url False = s" "s \<noteq> []" "NUL \<notin> set url"
  shows "scheme_ok s"
proof -
  define t where "t = takeWhile scheme_char (take 39 (tl url))"
  have a: "ISALPHA (peek url)" "s = Curl_strntolower url (1 + length t)"
    using assms(1,2) by (auto simp: Curl_is_absolute_url_def t_def MAX_SCHEME_LEN_def Let_def split: if_splits)
  then obtain c r where url: "url = c # r" by (cases url) (auto simp: peek_def ISALPHA_def ISLOWER_def byte_val_def)
  have t: "length t \<le> 39" "list_all scheme_char t" "take (length t) r = t"
  proof -
    show "length t \<le> 39" using length_takeWhile_le[of scheme_char "take 39 (tl url)"] by (simp add: t_def)
    show "list_all scheme_char t" by (auto simp: t_def list_all_iff dest: set_takeWhileD)
    show "take (length t) r = t" using takeWhile_eq_take[of scheme_char "take 39 r"] url \<open>length t \<le> 39\<close> by (simp add: t_def min_def)
  qed
  have "length t \<le> length r" using t(3) by (metis length_take min.cobounded1)
  then have s: "s = map tolower (c # t)"
    using a(2) strnto_loop_eq[of url "1 + length t" Curl_raw_tolower] assms(3) url t(3) by (simp add: Curl_strntolower_def raw_lower)
  have c: "ISALPHA c" using a(1) url by (simp add: peek_def)
  have "list_all scheme_char s" using t(2) c scheme_lower unfolding s by (auto simp: list_all_iff)
  then show ?thesis using t(1) c scheme_lower(2,3) by (simp add: scheme_ok_def s MAX_SCHEME_LEN_def)
qed

lemma rest_scheme: "parse_rest u path fl b h = (r, u', h') \<Longrightarrow> u_scheme u' = u_scheme u"
proof -
  have c: "clean_path u p fl h = (r, u', h') \<Longrightarrow> u_scheme u' = u_scheme u" for u p h r u' h'
    by (auto simp: clean_path_def split: if_splits prod.splits option.splits)
  have p: "handle_path u p fl b h = (r, u', h') \<Longrightarrow> u_scheme u' = u_scheme u" for u p h r u' h'
    by (auto simp: handle_path_def dest!: c split: if_splits prod.splits option.splits)
  have q: "handle_query u p fl h = (r, u', h') \<Longrightarrow> u_scheme u' = u_scheme u" for u p h r u' h'
    by (auto simp: handle_query_def Let_def split: if_splits prod.splits option.splits)
  have f: "handle_fragment u p fl h = (r, u', h') \<Longrightarrow> u_scheme u' = u_scheme u" for u p h r u' h'
    by (auto simp: handle_fragment_def Let_def split: if_splits prod.splits)
  show "parse_rest u path fl b h = (r, u', h') \<Longrightarrow> u_scheme u' = u_scheme u"
    by (auto simp: parse_rest_def dest!: p q f split: if_splits prod.splits option.splits)
qed

lemma front_result:
  assumes p: "parse_front cfg url blank_url s 0 h = (CURLUE_OK, u', d', path, h')" "s \<noteq> ''file''" and c: "clean_part [] url" "scheme_ok s \<or> s = []"
    and x: "case Curl_get_scheme cfg s of None \<Rightarrow> True | Some x \<Rightarrow> sc_flags x AND PROTOPT_URLOPTIONS = 0" and del: "DEL \<notin> set (dyn_cstr d')"
  shows "stable_host (dyn_cstr d')" "login_ok u'" "if u_port_present u' then u_portnum u' \<le> 65535 else u_portnum u' = 0"
    "u' = blank_url\<lparr>u_scheme := Some s, u_user := u_user u', u_password := u_password u', u_portnum := u_portnum u',
       u_port_present := u_port_present u', u_zoneid := u_zoneid u'\<rparr>"
    "Curl_get_scheme cfg s \<noteq> None" "scheme_ok s" "clean_part [] path" "path = [] \<or> hd path \<in> set ''/?#''" "length path \<le> length url"
proof -
  obtain u1 hostp h1 where ps: "parse_scheme cfg url blank_url s 0 h = (CURLUE_OK, u1, hostp, h1)"
    using p by (auto simp: parse_front_def Let_def split: prod.splits if_splits)
  have ne: "s \<noteq> []" "Curl_get_scheme cfg s \<noteq> None" using ps by (auto simp: parse_scheme_def scheme_of_url_def Let_def split: if_splits sum.splits)
  then show "Curl_get_scheme cfg s \<noteq> None" and s: "scheme_ok s" using c(2) by simp_all
  have NUL: "NUL \<notin> set s" using s clean_NUL[OF scheme_clean] by (auto simp: scheme_ok_def)
  have u1: "u1 = blank_url\<lparr>u_scheme := Some s\<rparr>" "\<exists>n. hostp = drop n url"
    using ps ne NUL by (auto simp: parse_scheme_def scheme_of_url_def curlx_strdup_def Let_def split: if_splits sum.splits prod.splits option.splits)
  then have hp: "clean_part [] hostp" "length hostp \<le> length url" using clean_take(2)[OF c(1)] by auto
  define auth where "auth = takeWhile (\<lambda>c. c \<notin> set ''/?#'') hostp"
  have auth: "take (length auth) hostp = auth" by (simp add: auth_def takeWhile_eq_take[symmetric])
  have pa: "parse_authority cfg u1 auth 0 (curlx_dyn_init CURL_MAX_INPUT_LENGTH) True h1 = (CURLUE_OK, u', d', h')" "path = drop (length auth) hostp"
    using p ps u1(1) auth unfolding parse_front_def Let_def by (simp_all only: auth_def[symmetric] ps prod.case) (auto split: prod.splits if_splits)
  have "clean_part [] auth" using clean_take(1)[OF hp(1), of "length auth"] by (simp only: auth)
  moreover have "c \<notin> set ''/?#''" if "c \<in> set auth" for c using set_takeWhileD that unfolding auth_def by fast
  ultimately have ca: "clean_part ''/?#'' auth" unfolding clean_part_def list_all_iff by blast
  have init: "dyn_ok (curlx_dyn_init CURL_MAX_INPUT_LENGTH)" by (rule dyn_ok_init) (simp_all add: CURL_MAX_INPUT_LENGTH_def MAX_DYNBUF_SIZE_def SIZE_MAX_def)
  obtain y where y: "Curl_get_scheme cfg s = Some y" "sc_flags y AND PROTOPT_URLOPTIONS = 0" using ne(2) x by auto
  have b: "u_scheme u1 = Some s" "u_user u1 = None" "u_password u1 = None" "u_options u1 = None" using u1(1) by (simp_all add: blank_url_def)
  note A = authority_result[OF pa(1) init _ _ ca del b(1) y b(2-4)]
  show "stable_host (dyn_cstr d')" "login_ok u'" "if u_port_present u' then u_portnum u' \<le> 65535 else u_portnum u' = 0"
    using A(1-3) by (simp_all add: CURL_MAX_INPUT_LENGTH_def)
  show "u' = blank_url\<lparr>u_scheme := Some s, u_user := u_user u', u_password := u_password u', u_portnum := u_portnum u',
       u_port_present := u_port_present u', u_zoneid := u_zoneid u'\<rparr>" using A(4) u1(1) by (simp add: CURL_MAX_INPUT_LENGTH_def)
  show "clean_part [] path" "length path \<le> length url" using clean_take(2)[OF hp(1)] hp(2) pa(2) by simp_all
  have "path = dropWhile (\<lambda>c. c \<notin> set ''/?#'') hostp" unfolding pa(2) auth_def by (simp only: dropWhile_eq_drop)
  then show "path = [] \<or> hd path \<in> set ''/?#''" using hd_dropWhile[of "\<lambda>c. c \<notin> set ''/?#''" hostp] by auto
qed

lemma authority_scheme: "parse_authority cfg u auth fl d b h = (r, u', d', h') \<Longrightarrow> u_scheme u' = u_scheme u"
proof -
  have l: "parse_hostname_login cfg u auth fl h = (r, u', n, h') \<Longrightarrow> u_scheme u' = u_scheme u" for u r u' n h h'
    by (auto simp: parse_hostname_login_def clear_login_def Let_def split: option.splits prod.splits sum.splits if_splits)
  have p: "parse_port u d b = (r, u', d') \<Longrightarrow> u_scheme u' = u_scheme u" for u d r u' d'
    by (auto simp: parse_port_def Let_def split: sum.splits option.splits prod.splits if_splits)
  have i: "ipv6_parse u s h = (r, u', s', h') \<Longrightarrow> u_scheme u' = u_scheme u" for u s h r u' s' h'
    by (auto simp: ipv6_parse_def Let_def split: if_splits option.splits prod.splits)
  have n: "hostname_check u s h = (r, u', s', h') \<Longrightarrow> u_scheme u' = u_scheme u" for u s h r u' s' h'
    by (auto simp: hostname_check_def Let_def dest!: i split: if_splits)
  have c: "check_host u d h = (r, u', d', h') \<Longrightarrow> u_scheme u' = u_scheme u" for u d h r u' d' h'
    by (auto simp: check_host_def dest!: i n split: prod.splits host_type.splits)
  show "parse_authority cfg u auth fl d b h = (r, u', d', h') \<Longrightarrow> u_scheme u' = u_scheme u"
    by (auto simp: parse_authority_def Let_def dest!: l p c split: prod.splits if_splits)
qed

lemma front_scheme:
  assumes "parse_front cfg url blank_url s 0 h = (CURLUE_OK, u', d', path, h')" "NUL \<notin> set s"
  shows "u_scheme u' = Some s"
proof (cases "s = ''file''")
  case True
  then show ?thesis using assms by (auto simp: parse_front_def parse_file_def curlx_strdup_def cstr_def Let_def split: prod.splits if_splits option.splits)
next
  case False
  then obtain u1 hostp h1 where ps: "parse_scheme cfg url blank_url s 0 h = (CURLUE_OK, u1, hostp, h1)"
    using assms by (auto simp: parse_front_def Let_def split: prod.splits if_splits)
  then have "u_scheme u1 = Some s" using assms(2)
    by (auto simp: parse_scheme_def scheme_of_url_def curlx_strdup_def Let_def split: if_splits sum.splits prod.splits option.splits)
  then show ?thesis using assms(1) False ps by (auto simp: parse_front_def Let_def dest!: authority_scheme split: prod.splits if_splits)
qed

lemma parsed_complete:
  assumes p: "parseurl_and_replace cfg url w 0 h = (CURLUE_OK, u, h')" "NUL \<notin> set url"
    and u: "u_scheme u \<noteq> Some ''file''" "u_zoneid u = None" "DEL \<notin> set (opt_str (u_host u))"
    and x: "case Curl_get_scheme cfg (opt_str (u_scheme u)) of None \<Rightarrow> True | Some x \<Rightarrow> sc_flags x AND PROTOPT_URLOPTIONS = 0"
  shows "complete_url cfg (slash_dropped u)"
proof -
  have pu: "parseurl cfg url blank_url 0 h = (CURLUE_OK, u, h')" using p(1) by (auto simp: parseurl_and_replace_def split: prod.splits if_splits)
  have junk: "Curl_junkscan url False = CURLUE_OK" using pu by (auto simp: parseurl_def Let_def split: if_splits)
  then have url: "clean_part [] url" "length url \<le> CURL_MAX_INPUT_LENGTH"
    by (auto simp: Curl_junkscan_def clean_part_def clean_char_def list_all_iff list_ex_iff Let_def split: if_splits)
  define s where "s = Curl_is_absolute_url url False"
  obtain u1 d path h1 u2 where f: "parse_front cfg url blank_url s 0 h = (CURLUE_OK, u1, d, path, h1)"
      and r: "parse_rest u1 path 0 (s = ''file'') h1 = (CURLUE_OK, u2, h')" and u2: "u = u2\<lparr>u_host := map_option cstr (curlx_dyn_ptr d)\<rparr>"
    using pu junk unfolding parseurl_def Let_def by (auto simp: s_def split: prod.splits if_splits)
  have sok: "scheme_ok s \<or> s = []" using absolute_scheme_ok[of url s] p(2) s_def by blast
  then have "NUL \<notin> set s" using clean_NUL[OF scheme_clean] by (auto simp: scheme_ok_def)
  then have s1: "u_scheme u1 = Some s" using front_scheme[OF f] by simp
  have sch: "u_scheme u = Some s" using rest_scheme[OF r] u2 s1 by simp
  then have nf: "s \<noteq> ''file''" using u(1) by simp
  have host: "opt_str (u_host u) = dyn_cstr d" using u2 by (simp add: opt_str_def dyn_cstr_def split: option.splits)
  note F = front_result[OF f nf url(1) sok]
  have xs: "case Curl_get_scheme cfg s of None \<Rightarrow> True | Some x \<Rightarrow> sc_flags x AND PROTOPT_URLOPTIONS = 0" using x sch by (simp add: opt_str_def)
  have del: "DEL \<notin> set (dyn_cstr d)" using u(3) host by simp
  note F' = F[OF xs del]
  have u1: "u_path u1 = None" "u_query u1 = None" "\<not> u_query_present u1" "u_fragment u1 = None" "\<not> u_fragment_present u1" "u_options u1 = None" "\<not> u_guessed_scheme u1"
    by (subst F'(4), simp add: blank_url_def)+
  have "length path < MAX_DYNBUF_SIZE" using F'(9) url(2) by (simp add: CURL_MAX_INPUT_LENGTH_def MAX_DYNBUF_SIZE_def SIZE_MAX_def)
  then have R: "tail_ok u2" "u2 = u1\<lparr>u_path := u_path u2, u_query := u_query u2, u_query_present := u_query_present u2,
      u_fragment := u_fragment u2, u_fragment_present := u_fragment_present u2\<rparr>"
    using rest_result[of u1 path h1 u2 h', OF _ u1(1-5) F'(7,8)] nf r by auto
  have k: "u_user u2 = u_user u1" "u_password u2 = u_password u1" "u_portnum u2 = u_portnum u1" "u_port_present u2 = u_port_present u1"
      "u_options u2 = u_options u1" "u_guessed_scheme u2 = u_guessed_scheme u1"
    by (subst R(2), simp)+
  have "curlx_dyn_ptr d \<noteq> None" using stable_host_facts(1)[OF F'(1)] by (auto simp: dyn_cstr_def split: option.splits)
  then have uh: "u_host u = Some (dyn_cstr d)" using u2 by (auto simp: dyn_cstr_def)
  have "peek p = SLASH \<Longrightarrow> p \<noteq> ''/'' \<Longrightarrow> 2 \<le> length p" for p by (cases p; cases "tl p") (auto simp: peek_def)
  then have path: "case u_path (slash_dropped u) of None \<Rightarrow> True | Some p \<Rightarrow> 2 \<le> length p \<and> peek p = CHR ''/'' \<and> clean_part ''?#'' p \<and> remove_dot_segments p = p"
    using R(1) u2 by (auto simp: slash_dropped_def tail_ok_def path_ok_def split: option.splits)
  have d: "u_user u = u_user u2" "u_password u = u_password u2" "u_options u = u_options u2" "u_portnum u = u_portnum u2"
    "u_port_present u = u_port_present u2" "u_query u = u_query u2" "u_query_present u = u_query_present u2" "u_fragment u = u_fragment u2"
    "u_fragment_present u = u_fragment_present u2" "u_guessed_scheme u = u_guessed_scheme u2"
    using u2 by simp_all
  show ?thesis unfolding complete_url_def dropped_fields d
    using path sch uh u(2) F'(1,2,3,5,6) nf xs R(1) k u1(6,7) by (auto simp: login_ok_def tail_ok_def)
qed

lemma set_blank:
  assumes "curl_url_set cfg idn blank_url CURLUPART_URL (Some url) 0 h = (CURLUE_OK, u, h')"
  shows "parseurl_and_replace cfg (cstr url) blank_url 0 h = (CURLUE_OK, u, h')"
proof -
  have "curl_url_get cfg idn blank_url CURLUPART_URL fl h = (CURLUE_NO_HOST, None, h)" for fl
    by (simp add: curl_url_get_def urlget_url_def curl_strequal_def blank_url_def)
  then show ?thesis using assms by (auto simp: curl_url_set_def set_url_def Let_def split: if_splits)
qed

lemma set_text:
  assumes "complete_url cfg u" "length (url_text u) < CURL_MAX_INPUT_LENGTH"
  shows "\<exists>h'. curl_url_set cfg idn blank_url CURLUPART_URL (Some (url_text u)) 0 plenty = (CURLUE_OK, u, h')"
proof -
  obtain s where s: "u_scheme u = Some s" "scheme_ok s" using assms(1) by (rule complete_urlE)
  have NUL: "NUL \<notin> set (url_text u)" using clean_NUL[OF text_clean[OF assms(1)]] .
  then have "Curl_is_absolute_url (url_text u) False = s" using absolute_url_text[OF s(2)] s(1) by (simp add: url_text_def opt_str_def)
  moreover have "s \<noteq> []" using s(2) by (simp add: scheme_ok_def)
  moreover have "url_text u \<noteq> []" by (simp add: url_text_def)
  ultimately show ?thesis using text_reread[OF assms, of blank_url] NUL assms(2) by (auto simp: curl_url_set_def set_url_def Let_def)
qed

section \<open>Properties\<close>


definition sample_url :: Curl_URL where
  "sample_url = blank_url\<lparr>u_scheme := Some ''https'', u_user := Some ''me'', u_password := Some ''a:b'', u_host := Some ''[::1]'',
     u_portnum := 8080, u_port_present := True, u_path := Some ''/x/y'', u_query := Some [], u_query_present := True, u_fragment_present := True\<rparr>"

lemma https_no_options: "sc_flags (Curl_scheme_https cfg) AND PROTOPT_URLOPTIONS = 0"
  by (simp add: Curl_scheme_https_def PROTOPT_SSL_def PROTOPT_CREDSPERREQUEST_def PROTOPT_ALPN_def PROTOPT_USERPWDCTRL_def
      PROTOPT_CONN_REUSE_def PROTOPT_HTTP_PROXY_TUNNEL_def PROTOPT_URLOPTIONS_def)

lemma sample_complete: "complete_url cfg sample_url"
proof -
  have "scheme_ok ''https''" "stable_host ''[::1]''" "clean_part ''@/?#:'' ''me''" "clean_part ''@/?#'' ''a:b''"
    "clean_part ''?#'' ''/x/y''" "remove_dot_segments ''/x/y'' = ''/x/y''" by code_simp+
  then show ?thesis
    by (simp add: complete_url_def sample_url_def blank_url_def get_scheme_https https_no_options opt_str_def peek_def)
qed

lemma sample_text: "url_text sample_url = ''https://me:a:b@[::1]:8080/x/y?#''"
  by code_simp


text \<open>A delete character, written percent-encoded, is accepted in a host name.\<close>

lemma delete_in_host:
  "case parse_authority (\<lambda>_. False) blank_url ''a%7Fb'' 0 (curlx_dyn_init 64) True plenty of (uc, u, host, h) \<Rightarrow>
     uc = CURLUE_OK \<and> dyn_cstr host = [CHR ''a'', DEL, CHR ''b'']"
  by code_simp

end
